(* ===== verification/Prelude.thy ===== *)
theory Prelude
  imports Main "HOL-Library.Word" "HOL-Library.Monad_Syntax"
begin

unbundle bit_operations_syntax

text \<open>
  Shared vocabulary of the development: Rust's machine integers and bounds-checked indexing,
  the outcome type of executable code, and the interfaces (locales) of state machines that the
  components are proved to implement.

  A value of type \<open>'a exec\<close> is the outcome of running a piece of Rust: \<^const>\<open>None\<close> is a
  panic (an index out of range or an arithmetic overflow), \<open>Some v\<close> is normal completion
  with \<open>v\<close>.  A method that takes \<open>&mut self\<close> and returns \<open>Result<T, E>\<close> becomes a function
  into \<open>((E + T) \<times> state) exec\<close>; \<^const>\<open>Inl\<close> is \<open>Err\<close> and \<^const>\<open>Inr\<close> is \<open>Ok\<close>.
  Overflow of the unchecked operators is a panic, as in a debug build; the components prove
  that no reachable state panics, so the wrapping arithmetic of a release build computes the
  same values.
\<close>

type_synonym 'a exec = "'a option"

type_synonym u8 = nat
type_synonym u32 = nat
type_synonym u64 = nat
type_synonym usize = nat

named_theorems exec_simps \<open>evaluation of panicking operations whose guard holds\<close>

subsection \<open>Machine integers\<close>

abbreviation U8_MAX :: nat where "U8_MAX \<equiv> 255"
abbreviation U32_MAX :: nat where "U32_MAX \<equiv> 4294967295"
abbreviation U64_MAX :: nat where "U64_MAX \<equiv> 18446744073709551615"

text \<open>\<open>checked_add\<close> and \<open>checked_sub\<close>; the panicking operators are the same functions read
  at type \<^typ>\<open>nat exec\<close>.\<close>

definition u_add :: "nat \<Rightarrow> nat \<Rightarrow> nat \<Rightarrow> nat option" where
  "u_add maximum a b = (if a + b \<le> maximum then Some (a + b) else None)"

definition u_sub :: "nat \<Rightarrow> nat \<Rightarrow> nat option" where
  "u_sub a b = (if b \<le> a then Some (a - b) else None)"

definition u_mul :: "nat \<Rightarrow> nat \<Rightarrow> nat \<Rightarrow> nat option" where
  "u_mul maximum a b = (if a * b \<le> maximum then Some (a * b) else None)"

definition u_div :: "nat \<Rightarrow> nat \<Rightarrow> nat exec" where
  "u_div a b = (if b = 0 then None else Some (a div b))"

definition u_mod :: "nat \<Rightarrow> nat \<Rightarrow> nat exec" where
  "u_mod a b = (if b = 0 then None else Some (a mod b))"

abbreviation u32_add :: "u32 \<Rightarrow> u32 \<Rightarrow> u32 option" where "u32_add \<equiv> u_add U32_MAX"
abbreviation u32_mul :: "u32 \<Rightarrow> u32 \<Rightarrow> u32 option" where "u32_mul \<equiv> u_mul U32_MAX"
abbreviation u64_add :: "u64 \<Rightarrow> u64 \<Rightarrow> u64 option" where "u64_add \<equiv> u_add U64_MAX"
abbreviation usize_add :: "usize \<Rightarrow> usize \<Rightarrow> usize option" where "usize_add \<equiv> u_add U64_MAX"

lemma u_add_ok [exec_simps]: "a + b \<le> m \<Longrightarrow> u_add m a b = Some (a + b)"
  by (simp add: u_add_def)

lemma u_sub_ok [exec_simps]: "b \<le> a \<Longrightarrow> u_sub a b = Some (a - b)"
  by (simp add: u_sub_def)

lemma u_mul_ok [exec_simps]: "a * b \<le> m \<Longrightarrow> u_mul m a b = Some (a * b)"
  by (simp add: u_mul_def)

lemma u_div_ok [exec_simps]: "0 < b \<Longrightarrow> u_div a b = Some (a div b)"
  by (simp add: u_div_def)

lemma u_mod_ok [exec_simps]: "0 < b \<Longrightarrow> u_mod a b = Some (a mod b)"
  by (simp add: u_mod_def)

lemma u_add_eq_Some [simp]: "u_add m a b = Some c \<longleftrightarrow> a + b \<le> m \<and> c = a + b"
  by (auto simp: u_add_def)

lemma u_sub_eq_Some [simp]: "u_sub a b = Some c \<longleftrightarrow> b \<le> a \<and> c = a - b"
  by (auto simp: u_sub_def)

lemma u_add_eq_None [simp]: "u_add m a b = None \<longleftrightarrow> m < a + b"
  by (auto simp: u_add_def)

lemma u_sub_eq_None [simp]: "u_sub a b = None \<longleftrightarrow> a < b"
  by (auto simp: u_sub_def)

subsection \<open>Arrays\<close>

definition idx :: "'a list \<Rightarrow> nat \<Rightarrow> 'a exec" where
  "idx xs i = (if i < length xs then Some (xs ! i) else None)"

definition upd :: "'a list \<Rightarrow> nat \<Rightarrow> 'a \<Rightarrow> 'a list exec" where
  "upd xs i v = (if i < length xs then Some (xs[i := v]) else None)"

lemma idx_ok [exec_simps]: "i < length xs \<Longrightarrow> idx xs i = Some (xs ! i)"
  by (simp add: idx_def)

lemma upd_ok [exec_simps]: "i < length xs \<Longrightarrow> upd xs i v = Some (xs[i := v])"
  by (simp add: upd_def)

lemma idx_eq_Some: "idx xs i = Some v \<longleftrightarrow> i < length xs \<and> v = xs ! i"
  by (auto simp: idx_def)

lemma upd_eq_Some: "upd xs i v = Some ys \<longleftrightarrow> i < length xs \<and> ys = xs[i := v]"
  by (auto simp: upd_def)

text \<open>\<open>slice.get(i)\<close> is the same read, where being out of range is the value \<open>None\<close>.\<close>

lemma take_Suc_update: "n < length xs \<Longrightarrow> take (Suc n) (xs[n := v]) = take n xs @ [v]"
  by (simp add: take_Suc_conv_app_nth)

lemma distinct_map_nthD:
  "distinct (map f xs) \<Longrightarrow> i < length xs \<Longrightarrow> j < length xs \<Longrightarrow> f (xs ! i) = f (xs ! j) \<Longrightarrow> i = j"
  using nth_eq_iff_index_eq [of "map f xs" i j] by simp

subsection \<open>Interfaces of state machines\<close>

text \<open>
  A \<open>safe_machine\<close> is a type of states with an invariant and a partial step function, as every
  component exposes it to its callers: from an invariant state no operation panics, and every
  operation re-establishes the invariant.  A \<open>transactional_machine\<close> promises more: an operation
  that returns an error leaves the state exactly as it was.
\<close>

fun run_ops :: "('op \<Rightarrow> 's \<Rightarrow> (('e + 'r) \<times> 's) exec) \<Rightarrow> 'op list \<Rightarrow> 's \<Rightarrow> 's exec" where
  "run_ops step [] s = Some s"
| "run_ops step (x # xs) s = (case step x s of None \<Rightarrow> None | Some (_, s') \<Rightarrow> run_ops step xs s')"

lemma run_ops_append:
  "run_ops step (xs @ ys) s = (case run_ops step xs s of None \<Rightarrow> None | Some t \<Rightarrow> run_ops step ys t)"
  by (induction xs arbitrary: s) (auto split: option.splits)

locale safe_machine =
  fixes inv :: "'s \<Rightarrow> bool"
    and step :: "'op \<Rightarrow> 's \<Rightarrow> (('e + 'r) \<times> 's) exec"
  assumes step_total: "inv s \<Longrightarrow> step x s \<noteq> None"
    and step_inv: "inv s \<Longrightarrow> step x s = Some (r, s') \<Longrightarrow> inv s'"
begin

lemma run_safe: "inv s \<Longrightarrow> \<exists>s'. run_ops step xs s = Some s' \<and> inv s'"
proof (induction xs arbitrary: s)
  case Nil
  then show ?case by simp
next
  case (Cons x xs)
  from Cons.prems obtain r t where t: "step x s = Some (r, t)"
    using step_total by fastforce
  with Cons.prems have "inv t" by (rule step_inv)
  from Cons.IH [OF this] t show ?case by simp
qed

lemma run_inv: "inv s \<Longrightarrow> run_ops step xs s = Some s' \<Longrightarrow> inv s'"
  using run_safe [of s xs] by auto

end

locale transactional_machine = safe_machine +
  assumes step_error: "inv s \<Longrightarrow> step x s = Some (Inl e, s') \<Longrightarrow> s' = s"
begin

text \<open>Failing operations can be erased from a run without changing its final state.\<close>

lemma run_skips_errors:
  "inv s \<Longrightarrow> step x s = Some (Inl e, t) \<Longrightarrow> run_ops step (x # xs) s = run_ops step xs s"
  using step_error by auto

end

text \<open>
  A \<open>fail_stop_machine\<close> may instead halt: once halted no operation touches its
  state any more, and an error that does not halt it leaves the state as it was.
\<close>

locale fail_stop_machine = safe_machine +
  fixes halted :: "'s \<Rightarrow> bool"
  assumes halted_step: "inv s \<Longrightarrow> halted s \<Longrightarrow> \<exists>r. step x s = Some (r, s)"
    and live_error: "inv s \<Longrightarrow> step x s = Some (Inl e, s') \<Longrightarrow> \<not> halted s' \<Longrightarrow> s' = s"
begin

lemma halted_run: "inv s \<Longrightarrow> halted s \<Longrightarrow> run_ops step xs s = Some s"
proof (induction xs)
  case (Cons x xs)
  then obtain r where "step x s = Some (r, s)" using halted_step by blast
  with Cons show ?case by simp
qed simp

text \<open>A run that ends live never halted on the way.\<close>

lemma live_run_live:
  assumes "inv s" "run_ops step (xs @ ys) s = Some t" "\<not> halted t"
  shows "\<exists>u. run_ops step xs s = Some u \<and> \<not> halted u \<and> run_ops step ys u = Some t"
proof -
  obtain u where u: "run_ops step xs s = Some u" "inv u" using run_safe [OF assms(1)] by blast
  then have r: "run_ops step ys u = Some t" using assms(2) by (simp add: run_ops_append)
  with u halted_run [of u ys] assms(3) show ?thesis by auto
qed

end

end
