(* ===== verification/Lifecycle.thy ===== *)
theory Lifecycle
  imports Prelude
begin

text \<open>
  The sequential vocabulary of \<^verbatim>\<open>ferric-spec\<close> that the engine refines: identities
  (\<^verbatim>\<open>identity.rs\<close>), exact-next completion (\<^verbatim>\<open>completion.rs\<close>) and the one-slot request
  lifecycle oracle (\<^verbatim>\<open>scheduling.rs\<close>), with the linear authorities that travel between the
  scheduler and the KV cache (\<^verbatim>\<open>epoch.rs\<close> and the permit types of \<^verbatim>\<open>scheduler.rs\<close>).
\<close>

subsection \<open>Identities\<close>

datatype identity = Identity (as_bytes: "u8 list")

fun is_present_loop :: "u8 list \<Rightarrow> bool" where
  "is_present_loop [] = False"
| "is_present_loop (b # bs) = (if b \<noteq> 0 then True else is_present_loop bs)"

definition is_present :: "identity \<Rightarrow> bool" where
  "is_present i = is_present_loop (as_bytes i)"

text \<open>Both identities hold 32 bytes, so the index loop of \<open>equals\<close> walks them in step.\<close>

fun equals_loop :: "u8 list \<Rightarrow> u8 list \<Rightarrow> bool" where
  "equals_loop (a # as) (b # bs) = (if a \<noteq> b then False else equals_loop as bs)"
| "equals_loop _ _ = True"

definition identity_equals :: "identity \<Rightarrow> identity \<Rightarrow> bool" where
  "identity_equals i j = equals_loop (as_bytes i) (as_bytes j)"

definition identity_wf :: "identity \<Rightarrow> bool" where
  "identity_wf i = (length (as_bytes i) = 32)"

record request_id =
  slot :: u32
  generation :: u32

definition request_id_new :: "u32 \<Rightarrow> u32 \<Rightarrow> request_id" where
  "request_id_new s g = \<lparr>slot = s, generation = g\<rparr>"

subsection \<open>Exact-next completion\<close>

record completion_epoch =
  epoch_value :: u64

datatype completion_order_error = Exhausted | NotExactNext

definition check_exact_next ::
  "completion_epoch \<Rightarrow> completion_epoch \<Rightarrow> completion_order_error + completion_epoch" where
  "check_exact_next completed observed =
     (case u64_add (epoch_value completed) 1 of
        Some next \<Rightarrow> if next = epoch_value observed then Inr observed else Inl NotExactNext
      | None \<Rightarrow> Inl Exhausted)"

subsection \<open>The sequential request lifecycle\<close>

datatype request_state = Vacant | Ready | InFlight | Retiring

datatype lifecycle_phase = Idle | Executing | AwaitingKv | RetiringExecuting | RetiringQuiescent

record sequential_request =
  sr_state :: request_state
  sr_phase :: lifecycle_phase

datatype request_transition = Admit | Dispatch | Retire | CompleteExact | FinalizeKv | DetachKv

datatype transition_error = Occupied | NotReady | NotInFlight | AlreadyRetiring | NotRetiring

definition apply_request_transition ::
  "sequential_request \<Rightarrow> request_transition \<Rightarrow> transition_error + sequential_request" where
  "apply_request_transition request transition =
     (case transition of
        Admit \<Rightarrow>
          (case (sr_state request, sr_phase request) of
             (Vacant, Idle) \<Rightarrow> Inr \<lparr>sr_state = Ready, sr_phase = Idle\<rparr>
           | _ \<Rightarrow> Inl Occupied)
      | Dispatch \<Rightarrow>
          (case (sr_state request, sr_phase request) of
             (Ready, Idle) \<Rightarrow> Inr \<lparr>sr_state = InFlight, sr_phase = Executing\<rparr>
           | _ \<Rightarrow> Inl NotReady)
      | Retire \<Rightarrow>
          (case (sr_state request, sr_phase request) of
             (Ready, Idle) \<Rightarrow> Inr \<lparr>sr_state = Retiring, sr_phase = RetiringQuiescent\<rparr>
           | (InFlight, AwaitingKv) \<Rightarrow> Inr \<lparr>sr_state = Retiring, sr_phase = RetiringQuiescent\<rparr>
           | (InFlight, Executing) \<Rightarrow> Inr \<lparr>sr_state = Retiring, sr_phase = RetiringExecuting\<rparr>
           | (Retiring, _) \<Rightarrow> Inl AlreadyRetiring
           | _ \<Rightarrow> Inl NotReady)
      | CompleteExact \<Rightarrow>
          (case (sr_state request, sr_phase request) of
             (InFlight, Executing) \<Rightarrow> Inr \<lparr>sr_state = InFlight, sr_phase = AwaitingKv\<rparr>
           | (Retiring, RetiringExecuting) \<Rightarrow> Inr \<lparr>sr_state = Retiring, sr_phase = RetiringQuiescent\<rparr>
           | _ \<Rightarrow> Inl NotInFlight)
      | FinalizeKv \<Rightarrow>
          (case (sr_state request, sr_phase request) of
             (InFlight, AwaitingKv) \<Rightarrow> Inr \<lparr>sr_state = Ready, sr_phase = Idle\<rparr>
           | _ \<Rightarrow> Inl NotInFlight)
      | DetachKv \<Rightarrow>
          (case (sr_state request, sr_phase request) of
             (Retiring, RetiringQuiescent) \<Rightarrow> Inr \<lparr>sr_state = Vacant, sr_phase = Idle\<rparr>
           | _ \<Rightarrow> Inl NotRetiring))"

subsection \<open>Linear authorities\<close>

text \<open>\<open>ExactCompletion\<close> is evidence that one submission is quiescent; a \<open>KvQuiescencePermit\<close> is
  the authority to finalize or detach the KV state of one request generation.  Rust enforces
  that they are used once; here they are plain values that every consumer returns or drops.\<close>

record exact_completion =
  ec_epoch :: completion_epoch

datatype kv_quiescence_origin = NeverSubmitted | CompletedExact u64

record kv_quiescence_permit =
  permit_request :: request_id
  permit_origin :: kv_quiescence_origin

subsection \<open>Properties of the oracle\<close>

lemma is_present_loop_iff: "is_present_loop bs \<longleftrightarrow> (\<exists>b \<in> set bs. b \<noteq> 0)"
  by (induction bs) auto

lemma equals_loop_iff: "length as = length bs \<Longrightarrow> equals_loop as bs \<longleftrightarrow> as = bs"
  by (induction as bs rule: list_induct2) auto

lemma identity_equals_iff:
  "identity_wf i \<Longrightarrow> identity_wf j \<Longrightarrow> identity_equals i j \<longleftrightarrow> i = j"
  by (cases i; cases j) (simp add: identity_wf_def identity_equals_def equals_loop_iff)

lemma check_exact_next_iff:
  "check_exact_next completed observed = Inr e \<longleftrightarrow>
     epoch_value completed < U64_MAX \<and> epoch_value observed = epoch_value completed + 1 \<and> e = observed"
  by (auto simp: check_exact_next_def split: option.splits)

text \<open>The phases that can accompany each slot state.\<close>

definition sequential_wf :: "sequential_request \<Rightarrow> bool" where
  "sequential_wf r = ((sr_state r, sr_phase r) \<in>
     {(Vacant, Idle), (Ready, Idle), (InFlight, Executing), (InFlight, AwaitingKv),
      (Retiring, RetiringExecuting), (Retiring, RetiringQuiescent)})"

lemma apply_request_transition_wf:
  "apply_request_transition r t = Inr r' \<Longrightarrow> sequential_wf r'"
  unfolding apply_request_transition_def
  by (cases t; cases "sr_state r"; cases "sr_phase r"; simp only: request_transition.case request_state.case lifecycle_phase.case prod.case sum.inject sum.distinct;
      (elim FalseE | hypsubst_thin, simp add: sequential_wf_def))

end
