(* ===== verification/KvPool.thy ===== *)
theory KvPool
  imports Lifecycle
begin

text \<open>
  The paged KV ownership model of \<^verbatim>\<open>crates/ferric-engine/src/cache.rs\<close>: a fixed-capacity pool of
  generational pages, a free stack, and one page table per request slot.  Every method of
  \<open>KvPool\<close> is translated with its checks in source order; ghost code (assertions, proof
  blocks) has no run-time effect and is left out.  Writing through a page or a request slot is
  an index write that panics when out of range.
\<close>

definition MAX_PAGE_SLOTS :: nat where "MAX_PAGE_SLOTS = 16384"
definition MAX_REQUEST_SLOTS :: nat where "MAX_REQUEST_SLOTS = 32"
definition MAX_PAGES_PER_REQUEST :: nat where "MAX_PAGES_PER_REQUEST = 512"

subsection \<open>Data\<close>

record page_id =
  pid_index :: u32
  pid_generation :: u32

definition PageId_EMPTY :: page_id where
  "PageId_EMPTY = \<lparr>pid_index = 0, pid_generation = 0\<rparr>"

record request_key =
  key_slot :: u32
  key_generation :: u32

datatype page_state = Free | Writable u32 | Sealed

record page_slot =
  pg_generation :: u32
  pg_state :: page_state
  pg_initialized_tokens :: u32
  pg_reference_mask :: "32 word"

definition page_slot_free :: page_slot where
  "page_slot_free =
     \<lparr>pg_generation = 1, pg_state = Free, pg_initialized_tokens = 0, pg_reference_mask = 0\<rparr>"

record request_slot =
  rq_generation :: u32
  rq_live :: bool
  rq_committed_tokens :: u32
  rq_resident_tokens :: u32
  rq_page_count :: u32
  rq_pages :: "page_id list"

definition request_slot_empty :: request_slot where
  "request_slot_empty =
     \<lparr>rq_generation = 1, rq_live = False, rq_committed_tokens = 0, rq_resident_tokens = 0,
      rq_page_count = 0, rq_pages = replicate MAX_PAGES_PER_REQUEST PageId_EMPTY\<rparr>"

record kv_finalized_request =
  fin_request :: request_id
  fin_origin :: kv_quiescence_origin

record kv_detached_request =
  det_request :: request_id
  det_origin :: kv_quiescence_origin

record kv_pool =
  kv_page_tokens :: u32
  kv_max_context_tokens :: u32
  kv_page_limit :: u32
  kv_pages :: "page_slot list"
  kv_free_stack :: "u32 list"
  kv_free_len :: u32
  kv_free_bitmap :: "bool list"
  kv_requests :: "request_slot list"

datatype capacity = CapPages | CapPageTokens | CapContextTokens | CapRequestPages

datatype invariant = InvFreeStack | InvPageState | InvReferenceCount | InvTentativePage

datatype kv_error =
    ZeroCapacity capacity
  | CapacityExceedsBuildBound capacity
  | PageExceedsContext
  | InvalidRequestSlot u32
  | RequestSlotOccupied u32
  | UnknownRequest u32
  | StaleRequestGeneration u32 u32 u32
  | RequestGenerationExhausted u32
  | ContextExceeded
  | CommitExceedsResident
  | RequestPageTableFull
  | OutOfPages
  | InvalidPage page_id
  | StalePage page_id
  | GenerationExhausted page_id
  | ReferenceCountExhausted page_id
  | SameRequestShare
  | PrefixNotPageAligned
  | PrefixExceedsCommitted
  | PrefixPageIncomplete page_id
  | TargetNotEmpty
  | ReadOutOfBounds
  | ReadUninitialized page_id
  | InvalidQuiescencePermit
  | InvariantViolation invariant

record kv_authority_error =
  auth_error :: kv_error
  auth_permit :: kv_quiescence_permit

subsection \<open>Reference masks\<close>

text \<open>A shift of a 32-bit one by 32 or more panics.\<close>

definition slot_bit :: "u32 \<Rightarrow> 32 word" where
  "slot_bit s = push_bit s 1"

definition reference_bit :: "u32 \<Rightarrow> 32 word exec" where
  "reference_bit s = (if s < 32 then Some (slot_bit s) else None)"

definition set_reference :: "32 word \<Rightarrow> u32 \<Rightarrow> 32 word exec" where
  "set_reference refmask s = do { b \<leftarrow> reference_bit s; Some (refmask OR b) }"

definition clear_reference :: "32 word \<Rightarrow> u32 \<Rightarrow> 32 word exec" where
  "clear_reference refmask s = do { b \<leftarrow> reference_bit s; Some (refmask AND NOT b) }"

subsection \<open>Lookups\<close>

definition request_key_of :: "request_id \<Rightarrow> request_key" where
  "request_key_of r = \<lparr>key_slot = slot r, key_generation = generation r\<rparr>"

definition live_request_index :: "kv_pool \<Rightarrow> request_key \<Rightarrow> (kv_error + usize) exec" where
  "live_request_index p request =
     (if MAX_REQUEST_SLOTS \<le> key_slot request then Some (Inl (InvalidRequestSlot (key_slot request)))
      else do {
        r \<leftarrow> idx (kv_requests p) (key_slot request);
        if \<not> rq_live r then Some (Inl (UnknownRequest (key_slot request)))
        else if rq_generation r \<noteq> key_generation request then
          Some (Inl (StaleRequestGeneration (key_slot request) (rq_generation r) (key_generation request)))
        else Some (Inr (key_slot request)) })"

definition page_slot_of :: "kv_pool \<Rightarrow> page_id \<Rightarrow> (kv_error + page_slot) exec" where
  "page_slot_of p page =
     (if kv_page_limit p \<le> pid_index page then Some (Inl (InvalidPage page))
      else do {
        g \<leftarrow> idx (kv_pages p) (pid_index page);
        if pg_generation g \<noteq> pid_generation page then Some (Inl (StalePage page))
        else Some (Inr g) })"

definition page_has_other_reference :: "kv_pool \<Rightarrow> usize \<Rightarrow> u32 \<Rightarrow> bool exec" where
  "page_has_other_reference p page_index excluded_slot = do {
     g \<leftarrow> idx (kv_pages p) page_index;
     b \<leftarrow> reference_bit excluded_slot;
     Some (pg_reference_mask g AND NOT b \<noteq> 0) }"

subsection \<open>Construction\<close>

fun fill_free_stack :: "nat \<Rightarrow> u32 \<Rightarrow> u32 \<Rightarrow> u32 list \<Rightarrow> u32 list exec" where
  "fill_free_stack 0 page_count index stack = Some stack"
| "fill_free_stack (Suc n) page_count index stack = do {
     d \<leftarrow> u_sub page_count index;
     v \<leftarrow> u_sub d 1;
     stack' \<leftarrow> upd stack index v;
     index' \<leftarrow> u32_add index 1;
     fill_free_stack n page_count index' stack' }"

definition new_bounded :: "u32 \<Rightarrow> u32 \<Rightarrow> u32 \<Rightarrow> (kv_error + kv_pool) exec" where
  "new_bounded page_count page_tokens max_context_tokens =
     (if page_count = 0 then Some (Inl (ZeroCapacity CapPages))
      else if page_tokens = 0 then Some (Inl (ZeroCapacity CapPageTokens))
      else if max_context_tokens = 0 then Some (Inl (ZeroCapacity CapContextTokens))
      else if MAX_PAGE_SLOTS < page_count then Some (Inl (CapacityExceedsBuildBound CapPages))
      else if max_context_tokens < page_tokens then Some (Inl PageExceedsContext)
      else do {
        context_plus_page \<leftarrow> u64_add max_context_tokens page_tokens;
        rounded_context \<leftarrow> u_sub context_plus_page 1;
        required_chain_pages \<leftarrow> u_div rounded_context page_tokens;
        if MAX_PAGES_PER_REQUEST < required_chain_pages
        then Some (Inl (CapacityExceedsBuildBound CapRequestPages))
        else do {
          stack \<leftarrow> fill_free_stack page_count page_count 0 (replicate MAX_PAGE_SLOTS 0);
          Some (Inr \<lparr>kv_page_tokens = page_tokens, kv_max_context_tokens = max_context_tokens,
             kv_page_limit = page_count, kv_pages = replicate MAX_PAGE_SLOTS page_slot_free,
             kv_free_stack = stack, kv_free_len = page_count,
             kv_free_bitmap = replicate MAX_PAGE_SLOTS True,
             kv_requests = replicate MAX_REQUEST_SLOTS request_slot_empty\<rparr>) } })"

definition create_request_key :: "kv_pool \<Rightarrow> request_key \<Rightarrow> ((kv_error + unit) \<times> kv_pool) exec" where
  "create_request_key p request =
     (if MAX_REQUEST_SLOTS \<le> key_slot request
      then Some (Inl (InvalidRequestSlot (key_slot request)), p)
      else do {
        r \<leftarrow> idx (kv_requests p) (key_slot request);
        if rq_live r then Some (Inl (RequestSlotOccupied (key_slot request)), p)
        else if rq_generation r \<noteq> key_generation request then
          Some (Inl (StaleRequestGeneration (key_slot request) (rq_generation r)
                      (key_generation request)), p)
        else do {
          requests \<leftarrow> upd (kv_requests p) (key_slot request) (r\<lparr>rq_live := True\<rparr>);
          Some (Inr (), p\<lparr>kv_requests := requests\<rparr>) } })"

subsection \<open>Appending tentative tokens\<close>

definition append_existing_page :: "kv_pool \<Rightarrow> usize \<Rightarrow> page_id \<Rightarrow> u32 \<Rightarrow> kv_pool exec" where
  "append_existing_page p request_index page written = do {
     g \<leftarrow> idx (kv_pages p) (pid_index page);
     initialized \<leftarrow> u32_add (pg_initialized_tokens g) written;
     pages \<leftarrow> upd (kv_pages p) (pid_index page) (g\<lparr>pg_initialized_tokens := initialized\<rparr>);
     r \<leftarrow> idx (kv_requests p) request_index;
     resident \<leftarrow> u32_add (rq_resident_tokens r) written;
     requests \<leftarrow> upd (kv_requests p) request_index (r\<lparr>rq_resident_tokens := resident\<rparr>);
     Some (p\<lparr>kv_pages := pages, kv_requests := requests\<rparr>) }"

definition append_fresh_page :: "kv_pool \<Rightarrow> request_key \<Rightarrow> usize \<Rightarrow> u32 \<Rightarrow> kv_pool exec" where
  "append_fresh_page p request request_index written = do {
     stack_index \<leftarrow> u_sub (kv_free_len p) 1;
     page_index \<leftarrow> idx (kv_free_stack p) stack_index;
     r \<leftarrow> idx (kv_requests p) request_index;
     let chain_position = rq_page_count r;
     free_len \<leftarrow> u_sub (kv_free_len p) 1;
     bitmap \<leftarrow> upd (kv_free_bitmap p) page_index False;
     g \<leftarrow> idx (kv_pages p) page_index;
     refmask \<leftarrow> set_reference (pg_reference_mask g) (key_slot request);
     pages \<leftarrow> upd (kv_pages p) page_index
        (g\<lparr>pg_state := Writable (key_slot request), pg_initialized_tokens := written,
           pg_reference_mask := refmask\<rparr>);
     chain \<leftarrow> upd (rq_pages r) chain_position
        \<lparr>pid_index = page_index, pid_generation = pg_generation g\<rparr>;
     page_count \<leftarrow> u32_add (rq_page_count r) 1;
     resident \<leftarrow> u32_add (rq_resident_tokens r) written;
     requests \<leftarrow> upd (kv_requests p) request_index
        (r\<lparr>rq_pages := chain, rq_page_count := page_count, rq_resident_tokens := resident\<rparr>);
     Some (p\<lparr>kv_free_len := free_len, kv_free_bitmap := bitmap, kv_pages := pages,
             kv_requests := requests\<rparr>) }"

text \<open>The allocation loop; its argument counts the pages still to be taken.\<close>

fun append_fresh_pages :: "nat \<Rightarrow> kv_pool \<Rightarrow> request_key \<Rightarrow> usize \<Rightarrow> u32 \<Rightarrow> kv_pool exec" where
  "append_fresh_pages 0 p request request_index remaining = Some p"
| "append_fresh_pages (Suc n) p request request_index remaining = do {
     let written = min remaining (kv_page_tokens p);
     p' \<leftarrow> append_fresh_page p request request_index written;
     remaining' \<leftarrow> u_sub remaining written;
     append_fresh_pages n p' request request_index remaining' }"

text \<open>The tail page of the request and the number of tokens it can still take.\<close>

definition append_tail ::
  "kv_pool \<Rightarrow> request_key \<Rightarrow> request_slot \<Rightarrow> (kv_error + page_id \<times> u32) exec" where
  "append_tail p request r =
     (if rq_page_count r = 0 then Some (Inr (PageId_EMPTY, 0))
      else do {
        position \<leftarrow> u_sub (rq_page_count r) 1;
        tail_page \<leftarrow> idx (rq_pages r) position;
        found \<leftarrow> page_slot_of p tail_page;
        case found of
          Inl e \<Rightarrow> Some (Inl e)
        | Inr g \<Rightarrow>
            (case pg_state g of
               Writable owner \<Rightarrow>
                 if owner \<noteq> key_slot request then Some (Inl (InvariantViolation InvPageState))
                 else do {
                   room \<leftarrow> u_sub (kv_page_tokens p) (pg_initialized_tokens g);
                   Some (Inr (tail_page, room)) }
             | Sealed \<Rightarrow> Some (Inr (tail_page, 0))
             | Free \<Rightarrow> Some (Inl (InvariantViolation InvPageState))) })"

definition append_tentative_key ::
  "kv_pool \<Rightarrow> request_key \<Rightarrow> u32 \<Rightarrow> ((kv_error + unit) \<times> kv_pool) exec" where
  "append_tentative_key p request token_count = do {
     found \<leftarrow> live_request_index p request;
     case found of
       Inl e \<Rightarrow> Some (Inl e, p)
     | Inr request_index \<Rightarrow> do {
         r \<leftarrow> idx (kv_requests p) request_index;
         case u32_add (rq_resident_tokens r) token_count of
           None \<Rightarrow> Some (Inl ContextExceeded, p)
         | Some new_resident \<Rightarrow>
             if kv_max_context_tokens p < new_resident then Some (Inl ContextExceeded, p)
             else if token_count = 0 then Some (Inr (), p)
             else do {
               tail \<leftarrow> append_tail p request r;
               case tail of
                 Inl e \<Rightarrow> Some (Inl e, p)
               | Inr (tail_page, tail_capacity) \<Rightarrow> do {
                   let after_tail = token_count - tail_capacity;
                   full_pages \<leftarrow> u_div after_tail (kv_page_tokens p);
                   partial_tokens \<leftarrow> u_mod after_tail (kv_page_tokens p);
                   let extra_page = min partial_tokens 1;
                   case u32_add full_pages extra_page of
                     None \<Rightarrow> Some (Inl RequestPageTableFull, p)
                   | Some required_pages \<Rightarrow>
                       (case u32_add (rq_page_count r) required_pages of
                          None \<Rightarrow> Some (Inl RequestPageTableFull, p)
                        | Some final_page_count \<Rightarrow>
                            if MAX_PAGES_PER_REQUEST < final_page_count
                            then Some (Inl RequestPageTableFull, p)
                            else if kv_free_len p < required_pages then Some (Inl OutOfPages, p)
                            else do {
                              let tail_written = min token_count tail_capacity;
                              p1 \<leftarrow> (if 0 < tail_written
                                     then append_existing_page p request_index tail_page tail_written
                                     else Some p);
                              remaining \<leftarrow> (if 0 < tail_written then u_sub token_count tail_written
                                            else Some token_count);
                              p2 \<leftarrow> append_fresh_pages required_pages p1 request request_index remaining;
                              Some (Inr (), p2) }) } } } }"

subsection \<open>Sharing a committed prefix\<close>

definition share_next_page ::
  "kv_pool \<Rightarrow> usize \<Rightarrow> usize \<Rightarrow> u32 \<Rightarrow> u32 \<Rightarrow> kv_pool exec" where
  "share_next_page p source_index target_index target_slot position = do {
     source \<leftarrow> idx (kv_requests p) source_index;
     page \<leftarrow> idx (rq_pages source) position;
     g \<leftarrow> idx (kv_pages p) (pid_index page);
     let state' = (case pg_state g of Writable _ \<Rightarrow> Sealed | Sealed \<Rightarrow> Sealed | Free \<Rightarrow> Free);
     refmask \<leftarrow> set_reference (pg_reference_mask g) target_slot;
     pages \<leftarrow> upd (kv_pages p) (pid_index page) (g\<lparr>pg_state := state', pg_reference_mask := refmask\<rparr>);
     target \<leftarrow> idx (kv_requests p) target_index;
     chain \<leftarrow> upd (rq_pages target) position page;
     page_count \<leftarrow> u32_add (rq_page_count target) 1;
     resident \<leftarrow> u32_add (rq_resident_tokens target) (kv_page_tokens p);
     committed \<leftarrow> u32_add (rq_committed_tokens target) (kv_page_tokens p);
     requests \<leftarrow> upd (kv_requests p) target_index
        (target\<lparr>rq_pages := chain, rq_page_count := page_count, rq_resident_tokens := resident,
           rq_committed_tokens := committed\<rparr>);
     Some (p\<lparr>kv_pages := pages, kv_requests := requests\<rparr>) }"

fun share_pages :: "nat \<Rightarrow> kv_pool \<Rightarrow> usize \<Rightarrow> usize \<Rightarrow> u32 \<Rightarrow> u32 \<Rightarrow> kv_pool exec" where
  "share_pages 0 p source_index target_index target_slot position = Some p"
| "share_pages (Suc n) p source_index target_index target_slot position = do {
     p' \<leftarrow> share_next_page p source_index target_index target_slot position;
     position' \<leftarrow> u32_add position 1;
     share_pages n p' source_index target_index target_slot position' }"

definition share_committed_prefix_key ::
  "kv_pool \<Rightarrow> request_key \<Rightarrow> request_key \<Rightarrow> u32 \<Rightarrow> ((kv_error + unit) \<times> kv_pool) exec" where
  "share_committed_prefix_key p source target token_count = do {
     source_found \<leftarrow> live_request_index p source;
     case source_found of
       Inl e \<Rightarrow> Some (Inl e, p)
     | Inr source_index \<Rightarrow> do {
     target_found \<leftarrow> live_request_index p target;
     case target_found of
       Inl e \<Rightarrow> Some (Inl e, p)
     | Inr target_index \<Rightarrow>
         if source_index = target_index then Some (Inl SameRequestShare, p)
         else do {
           shared_pages \<leftarrow> u_div token_count (kv_page_tokens p);
           aligned_tokens \<leftarrow> u32_mul shared_pages (kv_page_tokens p);
           if token_count = 0 \<or> aligned_tokens \<noteq> token_count
           then Some (Inl PrefixNotPageAligned, p)
           else do {
             s \<leftarrow> idx (kv_requests p) source_index;
             t \<leftarrow> idx (kv_requests p) target_index;
             if rq_committed_tokens s < token_count then Some (Inl PrefixExceedsCommitted, p)
             else if rq_resident_tokens t \<noteq> 0 then Some (Inl TargetNotEmpty, p)
             else if MAX_PAGES_PER_REQUEST < shared_pages then Some (Inl RequestPageTableFull, p)
             else do {
               p' \<leftarrow> share_pages shared_pages p source_index target_index (key_slot target) 0;
               Some (Inr (), p') } } } } }"

subsection \<open>Committing an accepted prefix\<close>

definition truncate_writable_tail ::
  "kv_pool \<Rightarrow> usize \<Rightarrow> page_id \<Rightarrow> u32 \<Rightarrow> u32 \<Rightarrow> kv_pool exec" where
  "truncate_writable_tail p request_index page new_resident tail_tokens = do {
     g \<leftarrow> idx (kv_pages p) (pid_index page);
     pages \<leftarrow> upd (kv_pages p) (pid_index page) (g\<lparr>pg_initialized_tokens := tail_tokens\<rparr>);
     r \<leftarrow> idx (kv_requests p) request_index;
     requests \<leftarrow> upd (kv_requests p) request_index (r\<lparr>rq_resident_tokens := new_resident\<rparr>);
     Some (p\<lparr>kv_pages := pages, kv_requests := requests\<rparr>) }"

definition raise_committed :: "kv_pool \<Rightarrow> usize \<Rightarrow> u32 \<Rightarrow> kv_pool exec" where
  "raise_committed p request_index committed = do {
     r \<leftarrow> idx (kv_requests p) request_index;
     requests \<leftarrow> upd (kv_requests p) request_index (r\<lparr>rq_committed_tokens := committed\<rparr>);
     Some (p\<lparr>kv_requests := requests\<rparr>) }"

definition drop_sole_tail :: "kv_pool \<Rightarrow> usize \<Rightarrow> page_id \<Rightarrow> u32 \<Rightarrow> kv_pool exec" where
  "drop_sole_tail p request_index page new_committed = do {
     r \<leftarrow> idx (kv_requests p) request_index;
     position \<leftarrow> u_sub (rq_page_count r) 1;
     g \<leftarrow> idx (kv_pages p) (pid_index page);
     generation' \<leftarrow> u32_add (pg_generation g) 1;
     new_resident \<leftarrow> u_sub (rq_resident_tokens r) (pg_initialized_tokens g);
     let stack_position = kv_free_len p;
     chain \<leftarrow> upd (rq_pages r) position PageId_EMPTY;
     requests \<leftarrow> upd (kv_requests p) request_index
        (r\<lparr>rq_pages := chain, rq_page_count := position, rq_resident_tokens := new_resident,
           rq_committed_tokens := new_committed\<rparr>);
     pages \<leftarrow> upd (kv_pages p) (pid_index page)
        \<lparr>pg_generation = generation', pg_state = Free, pg_initialized_tokens = 0,
         pg_reference_mask = 0\<rparr>;
     bitmap \<leftarrow> upd (kv_free_bitmap p) (pid_index page) True;
     stack \<leftarrow> upd (kv_free_stack p) stack_position (pid_index page);
     free_len \<leftarrow> u32_add (kv_free_len p) 1;
     Some (p\<lparr>kv_requests := requests, kv_pages := pages, kv_free_bitmap := bitmap,
             kv_free_stack := stack, kv_free_len := free_len\<rparr>) }"

definition detach_shared_tail ::
  "kv_pool \<Rightarrow> usize \<Rightarrow> u32 \<Rightarrow> page_id \<Rightarrow> u32 \<Rightarrow> kv_pool exec" where
  "detach_shared_tail p request_index request_slot page new_committed = do {
     r \<leftarrow> idx (kv_requests p) request_index;
     position \<leftarrow> u_sub (rq_page_count r) 1;
     g \<leftarrow> idx (kv_pages p) (pid_index page);
     new_resident \<leftarrow> u_sub (rq_resident_tokens r) (pg_initialized_tokens g);
     updated_mask \<leftarrow> clear_reference (pg_reference_mask g) request_slot;
     chain \<leftarrow> upd (rq_pages r) position PageId_EMPTY;
     requests \<leftarrow> upd (kv_requests p) request_index
        (r\<lparr>rq_pages := chain, rq_page_count := position, rq_resident_tokens := new_resident,
           rq_committed_tokens := new_committed\<rparr>);
     pages \<leftarrow> upd (kv_pages p) (pid_index page) (g\<lparr>pg_reference_mask := updated_mask\<rparr>);
     Some (p\<lparr>kv_requests := requests, kv_pages := pages\<rparr>) }"

definition retire_empty_request :: "kv_pool \<Rightarrow> usize \<Rightarrow> kv_pool exec" where
  "retire_empty_request p request_index = do {
     r \<leftarrow> idx (kv_requests p) request_index;
     generation' \<leftarrow> u32_add (rq_generation r) 1;
     requests \<leftarrow> upd (kv_requests p) request_index
        (r\<lparr>rq_live := False, rq_generation := generation'\<rparr>);
     Some (p\<lparr>kv_requests := requests\<rparr>) }"

text \<open>The first loop of \<open>finalize_tentative_key\<close> looks for a page that cannot be recycled; the
  second drops the tentative tail pages, last one first.\<close>

fun finalize_scan :: "nat \<Rightarrow> kv_pool \<Rightarrow> usize \<Rightarrow> u32 \<Rightarrow> (kv_error + unit) exec" where
  "finalize_scan 0 p request_index position = Some (Inr ())"
| "finalize_scan (Suc n) p request_index position = do {
     r \<leftarrow> idx (kv_requests p) request_index;
     page \<leftarrow> idx (rq_pages r) position;
     g \<leftarrow> idx (kv_pages p) (pid_index page);
     if pg_generation g = U32_MAX then Some (Inl (GenerationExhausted page))
     else do {
       position' \<leftarrow> u32_add position 1;
       finalize_scan n p request_index position' } }"

fun finalize_drop :: "u32 \<Rightarrow> kv_pool \<Rightarrow> usize \<Rightarrow> u32 \<Rightarrow> u32 \<Rightarrow> kv_pool exec" where
  "finalize_drop 0 p request_index retained_pages committed = Some p"
| "finalize_drop (Suc tail_position) p request_index retained_pages committed =
     (if retained_pages < Suc tail_position then do {
        r \<leftarrow> idx (kv_requests p) request_index;
        page \<leftarrow> idx (rq_pages r) tail_position;
        _ \<leftarrow> idx (kv_pages p) (pid_index page);
        p' \<leftarrow> drop_sole_tail p request_index page committed;
        finalize_drop tail_position p' request_index retained_pages committed }
      else Some p)"

definition finalize_tentative_key ::
  "kv_pool \<Rightarrow> request_key \<Rightarrow> u32 \<Rightarrow> ((kv_error + unit) \<times> kv_pool) exec" where
  "finalize_tentative_key p request accepted_tokens = do {
     found \<leftarrow> live_request_index p request;
     case found of
       Inl e \<Rightarrow> Some (Inl e, p)
     | Inr request_index \<Rightarrow> do {
         r \<leftarrow> idx (kv_requests p) request_index;
         case u32_add (rq_committed_tokens r) accepted_tokens of
           None \<Rightarrow> Some (Inl CommitExceedsResident, p)
         | Some committed \<Rightarrow>
             if rq_resident_tokens r < committed then Some (Inl CommitExceedsResident, p)
             else do {
               let old_page_count = rq_page_count r;
               full_pages \<leftarrow> u_div committed (kv_page_tokens p);
               tail_tokens \<leftarrow> u_mod committed (kv_page_tokens p);
               let extra_page = min tail_tokens 1;
               retained_pages \<leftarrow> u32_add full_pages extra_page;
               reclaim_count \<leftarrow> u_sub old_page_count retained_pages;
               if u32_add (kv_free_len p) reclaim_count = None
                  \<or> kv_page_limit p < kv_free_len p + reclaim_count
               then Some (Inl (InvariantViolation InvFreeStack), p)
               else do {
                 scanned \<leftarrow> finalize_scan reclaim_count p request_index retained_pages;
                 case scanned of
                   Inl e \<Rightarrow> Some (Inl e, p)
                 | Inr _ \<Rightarrow> do {
                     p1 \<leftarrow> raise_committed p request_index committed;
                     p2 \<leftarrow> finalize_drop old_page_count p1 request_index retained_pages committed;
                     p3 \<leftarrow> (if tail_tokens \<noteq> 0 then do {
                              r2 \<leftarrow> idx (kv_requests p2) request_index;
                              position \<leftarrow> u_sub retained_pages 1;
                              tail \<leftarrow> idx (rq_pages r2) position;
                              _ \<leftarrow> idx (kv_pages p2) (pid_index tail);
                              truncate_writable_tail p2 request_index tail committed tail_tokens }
                            else Some p2);
                     Some (Inr (), p3) } } } } }"

subsection \<open>Releasing a request\<close>

text \<open>The scan returns the number of pages that only this request references.\<close>

fun release_scan ::
  "nat \<Rightarrow> kv_pool \<Rightarrow> request_key \<Rightarrow> usize \<Rightarrow> u32 \<Rightarrow> u32 \<Rightarrow> (kv_error + u32) exec" where
  "release_scan 0 p request request_index position reclaim_count = Some (Inr reclaim_count)"
| "release_scan (Suc n) p request request_index position reclaim_count = do {
     r \<leftarrow> idx (kv_requests p) request_index;
     page \<leftarrow> idx (rq_pages r) position;
     shared \<leftarrow> page_has_other_reference p (pid_index page) (key_slot request);
     if \<not> shared then do {
       g \<leftarrow> idx (kv_pages p) (pid_index page);
       if pg_generation g = U32_MAX then Some (Inl (GenerationExhausted page))
       else do {
         reclaim_count' \<leftarrow> u32_add reclaim_count 1;
         position' \<leftarrow> u32_add position 1;
         release_scan n p request request_index position' reclaim_count' } }
     else do {
       position' \<leftarrow> u32_add position 1;
       release_scan n p request request_index position' reclaim_count } }"

fun release_pages :: "u32 \<Rightarrow> kv_pool \<Rightarrow> request_key \<Rightarrow> usize \<Rightarrow> kv_pool exec" where
  "release_pages 0 p request request_index = Some p"
| "release_pages (Suc tail_position) p request request_index = do {
     r \<leftarrow> idx (kv_requests p) request_index;
     page \<leftarrow> idx (rq_pages r) tail_position;
     g \<leftarrow> idx (kv_pages p) (pid_index page);
     new_resident \<leftarrow> u_sub (rq_resident_tokens r) (pg_initialized_tokens g);
     let new_committed = min (rq_committed_tokens r) new_resident;
     shared \<leftarrow> page_has_other_reference p (pid_index page) (key_slot request);
     p' \<leftarrow> (if shared then detach_shared_tail p request_index (key_slot request) page new_committed
            else drop_sole_tail p request_index page new_committed);
     release_pages tail_position p' request request_index }"

definition release_request_key :: "kv_pool \<Rightarrow> request_key \<Rightarrow> ((kv_error + unit) \<times> kv_pool) exec" where
  "release_request_key p request = do {
     found \<leftarrow> live_request_index p request;
     case found of
       Inl e \<Rightarrow> Some (Inl e, p)
     | Inr request_index \<Rightarrow> do {
         r \<leftarrow> idx (kv_requests p) request_index;
         if rq_generation r = U32_MAX then Some (Inl (RequestGenerationExhausted (key_slot request)), p)
         else do {
           scanned \<leftarrow> release_scan (rq_page_count r) p request request_index 0 0;
           case scanned of
             Inl e \<Rightarrow> Some (Inl e, p)
           | Inr reclaim_count \<Rightarrow>
               if u32_add (kv_free_len p) reclaim_count = None
                  \<or> kv_page_limit p < kv_free_len p + reclaim_count
               then Some (Inl (InvariantViolation InvFreeStack), p)
               else do {
                 p1 \<leftarrow> release_pages (rq_page_count r) p request request_index;
                 p2 \<leftarrow> retire_empty_request p1 request_index;
                 Some (Inr (), p2) } } } }"

definition validate_read_key :: "kv_pool \<Rightarrow> request_key \<Rightarrow> u32 \<Rightarrow> u32 \<Rightarrow> (kv_error + unit) exec" where
  "validate_read_key p request logical_offset span = do {
     found \<leftarrow> live_request_index p request;
     case found of
       Inl e \<Rightarrow> Some (Inl e)
     | Inr request_index \<Rightarrow>
         (case u32_add logical_offset span of
            None \<Rightarrow> Some (Inl ReadOutOfBounds)
          | Some end_offset \<Rightarrow> do {
              r \<leftarrow> idx (kv_requests p) request_index;
              if rq_resident_tokens r < end_offset then Some (Inl ReadOutOfBounds)
              else Some (Inr ()) }) }"

subsection \<open>The public interface\<close>

definition kv_new :: "u32 \<Rightarrow> u32 \<Rightarrow> u32 \<Rightarrow> (kv_error + kv_pool) exec" where
  "kv_new page_count page_tokens max_context_tokens =
     new_bounded page_count page_tokens max_context_tokens"

definition kv_create_request :: "kv_pool \<Rightarrow> request_id \<Rightarrow> ((kv_error + unit) \<times> kv_pool) exec" where
  "kv_create_request p request = create_request_key p (request_key_of request)"

definition kv_append_tentative ::
  "kv_pool \<Rightarrow> request_id \<Rightarrow> u32 \<Rightarrow> ((kv_error + unit) \<times> kv_pool) exec" where
  "kv_append_tentative p request token_count =
     append_tentative_key p (request_key_of request) token_count"

definition kv_share_committed_prefix ::
  "kv_pool \<Rightarrow> request_id \<Rightarrow> request_id \<Rightarrow> u32 \<Rightarrow> ((kv_error + unit) \<times> kv_pool) exec" where
  "kv_share_committed_prefix p source target token_count =
     share_committed_prefix_key p (request_key_of source) (request_key_of target) token_count"

definition kv_finalize_tentative ::
  "kv_pool \<Rightarrow> request_id \<Rightarrow> u32 \<Rightarrow> kv_quiescence_permit \<Rightarrow>
   ((kv_authority_error + kv_finalized_request) \<times> kv_pool) exec" where
  "kv_finalize_tentative p request accepted_tokens permit =
     (let request_matches = (slot (permit_request permit) = slot request
                             \<and> generation (permit_request permit) = generation request);
          completed = (case permit_origin permit of NeverSubmitted \<Rightarrow> False | CompletedExact _ \<Rightarrow> True)
      in if \<not> request_matches \<or> \<not> completed
         then Some (Inl \<lparr>auth_error = InvalidQuiescencePermit, auth_permit = permit\<rparr>, p)
         else do {
           (result, p') \<leftarrow> finalize_tentative_key p (request_key_of request) accepted_tokens;
           case result of
             Inr _ \<Rightarrow> Some (Inr \<lparr>fin_request = request, fin_origin = permit_origin permit\<rparr>, p')
           | Inl e \<Rightarrow> Some (Inl \<lparr>auth_error = e, auth_permit = permit\<rparr>, p') })"

definition kv_release_request ::
  "kv_pool \<Rightarrow> request_id \<Rightarrow> kv_quiescence_permit \<Rightarrow>
   ((kv_authority_error + kv_detached_request) \<times> kv_pool) exec" where
  "kv_release_request p request permit =
     (if \<not> (slot (permit_request permit) = slot request
             \<and> generation (permit_request permit) = generation request)
      then Some (Inl \<lparr>auth_error = InvalidQuiescencePermit, auth_permit = permit\<rparr>, p)
      else do {
        (result, p') \<leftarrow> release_request_key p (request_key_of request);
        case result of
          Inr _ \<Rightarrow> Some (Inr \<lparr>det_request = request, det_origin = permit_origin permit\<rparr>, p')
        | Inl e \<Rightarrow> Some (Inl \<lparr>auth_error = e, auth_permit = permit\<rparr>, p') })"

definition kv_validate_read :: "kv_pool \<Rightarrow> request_id \<Rightarrow> u32 \<Rightarrow> u32 \<Rightarrow> (kv_error + unit) exec" where
  "kv_validate_read p request logical_offset span =
     validate_read_key p (request_key_of request) logical_offset span"

definition kv_resident_tokens :: "kv_pool \<Rightarrow> request_id \<Rightarrow> u32 option" where
  "kv_resident_tokens p request =
     (case idx (kv_requests p) (slot request) of
        None \<Rightarrow> None
      | Some r \<Rightarrow> if rq_live r \<and> rq_generation r = generation request
                  then Some (rq_resident_tokens r) else None)"

definition kv_committed_tokens :: "kv_pool \<Rightarrow> request_id \<Rightarrow> u32 option" where
  "kv_committed_tokens p request =
     (case idx (kv_requests p) (slot request) of
        None \<Rightarrow> None
      | Some r \<Rightarrow> if rq_live r \<and> rq_generation r = generation request
                  then Some (rq_committed_tokens r) else None)"

definition kv_free_pages :: "kv_pool \<Rightarrow> u32" where
  "kv_free_pages p = kv_free_len p"

end
