(* ===== verification/KvPool_Invariant.thy ===== *)
theory KvPool_Invariant
  imports KvPool
begin

text \<open>
  The ownership invariant of the page pool and its preservation by the primitive mutations of
  \<^verbatim>\<open>cache.rs\<close>.  The invariant relates the four views the code keeps of the same pages: the
  page slots, the page tables of the requests, the reference masks and the free stack with its
  bitmap.
\<close>

subsection \<open>The invariant\<close>

text \<open>The pages a request holds, in logical order, and their physical indices.\<close>

definition chain :: "request_slot \<Rightarrow> page_id list" where
  "chain r = take (rq_page_count r) (rq_pages r)"

definition owned :: "request_slot \<Rightarrow> nat set" where
  "owned r = pid_index ` set (chain r)"

definition page_ok :: "u32 \<Rightarrow> page_slot \<Rightarrow> bool" where
  "page_ok pt g = (0 < pg_generation g \<and> pg_generation g \<le> U32_MAX \<and>
     (case pg_state g of
        Free \<Rightarrow> pg_initialized_tokens g = 0 \<and> pg_reference_mask g = 0
      | Writable o' \<Rightarrow> o' < 32 \<and> pg_reference_mask g = slot_bit o'
      | Sealed \<Rightarrow> pg_initialized_tokens g = pt \<and> pg_reference_mask g \<noteq> 0))"

text \<open>The page count is the resident length rounded up to whole pages.\<close>

definition request_ok :: "kv_pool \<Rightarrow> request_slot \<Rightarrow> bool" where
  "request_ok p r = (0 < rq_generation r \<and> rq_generation r \<le> U32_MAX
     \<and> length (rq_pages r) = MAX_PAGES_PER_REQUEST
     \<and> rq_committed_tokens r \<le> rq_resident_tokens r
     \<and> rq_resident_tokens r \<le> kv_max_context_tokens p
     \<and> rq_resident_tokens r \<le> rq_page_count r * kv_page_tokens p
     \<and> rq_page_count r * kv_page_tokens p < rq_resident_tokens r + kv_page_tokens p
     \<and> (\<not> rq_live r \<longrightarrow> rq_resident_tokens r = 0))"

text \<open>Entry \<open>k\<close> of the page table of slot \<open>s\<close> names a current page that \<open>s\<close> may use there:
  a writable page belongs to \<open>s\<close> alone and a sealed one lies within the committed prefix.\<close>

definition link_ok :: "kv_pool \<Rightarrow> nat \<Rightarrow> request_slot \<Rightarrow> nat \<Rightarrow> bool" where
  "link_ok p s r k =
     (let q = rq_pages r ! k; g = kv_pages p ! pid_index q in
        pid_index q < kv_page_limit p
      \<and> pid_generation q = pg_generation g
      \<and> (pg_state g = Writable s \<or> pg_state g = Sealed \<and> Suc k * kv_page_tokens p \<le> rq_committed_tokens r)
      \<and> pg_initialized_tokens g = min (kv_page_tokens p) (rq_resident_tokens r - k * kv_page_tokens p))"

definition free_ok :: "kv_pool \<Rightarrow> bool" where
  "free_ok p = (kv_free_len p \<le> kv_page_limit p
     \<and> distinct (take (kv_free_len p) (kv_free_stack p))
     \<and> set (take (kv_free_len p) (kv_free_stack p))
         = {i. i < kv_page_limit p \<and> pg_state (kv_pages p ! i) = Free}
     \<and> (\<forall>i < kv_page_limit p. kv_free_bitmap p ! i = (pg_state (kv_pages p ! i) = Free)))"

definition shape_ok :: "kv_pool \<Rightarrow> bool" where
  "shape_ok p = (0 < kv_page_tokens p \<and> kv_page_tokens p \<le> kv_max_context_tokens p
     \<and> kv_max_context_tokens p \<le> U32_MAX
     \<and> kv_max_context_tokens p \<le> MAX_PAGES_PER_REQUEST * kv_page_tokens p
     \<and> 0 < kv_page_limit p \<and> kv_page_limit p \<le> MAX_PAGE_SLOTS
     \<and> length (kv_pages p) = MAX_PAGE_SLOTS \<and> length (kv_free_stack p) = MAX_PAGE_SLOTS
     \<and> length (kv_free_bitmap p) = MAX_PAGE_SLOTS \<and> length (kv_requests p) = MAX_REQUEST_SLOTS)"

definition kv_inv :: "kv_pool \<Rightarrow> bool" where
  "kv_inv p = (shape_ok p
     \<and> (\<forall>i < kv_page_limit p. page_ok (kv_page_tokens p) (kv_pages p ! i))
     \<and> (\<forall>s < MAX_REQUEST_SLOTS. request_ok p (kv_requests p ! s))
     \<and> (\<forall>s < MAX_REQUEST_SLOTS. \<forall>k < rq_page_count (kv_requests p ! s). link_ok p s (kv_requests p ! s) k)
     \<and> (\<forall>s < MAX_REQUEST_SLOTS. distinct (map pid_index (chain (kv_requests p ! s))))
     \<and> (\<forall>i < kv_page_limit p. \<forall>s < MAX_REQUEST_SLOTS.
          bit (pg_reference_mask (kv_pages p ! i)) s \<longleftrightarrow> i \<in> owned (kv_requests p ! s))
     \<and> free_ok p)"

lemmas kv_bounds = MAX_PAGE_SLOTS_def MAX_REQUEST_SLOTS_def MAX_PAGES_PER_REQUEST_def

subsection \<open>Consequences\<close>

lemma kv_invD:
  assumes "kv_inv p"
  shows kv_inv_shape: "shape_ok p"
    and kv_inv_page: "i < kv_page_limit p \<Longrightarrow> page_ok (kv_page_tokens p) (kv_pages p ! i)"
    and kv_inv_request: "s < MAX_REQUEST_SLOTS \<Longrightarrow> request_ok p (kv_requests p ! s)"
    and kv_inv_link: "s < MAX_REQUEST_SLOTS \<Longrightarrow> k < rq_page_count (kv_requests p ! s)
           \<Longrightarrow> link_ok p s (kv_requests p ! s) k"
    and kv_inv_distinct: "s < MAX_REQUEST_SLOTS \<Longrightarrow> distinct (map pid_index (chain (kv_requests p ! s)))"
    and kv_inv_mask: "i < kv_page_limit p \<Longrightarrow> s < MAX_REQUEST_SLOTS \<Longrightarrow>
           bit (pg_reference_mask (kv_pages p ! i)) s \<longleftrightarrow> i \<in> owned (kv_requests p ! s)"
    and kv_inv_free: "free_ok p"
  using assms by (simp_all add: kv_inv_def)

lemma shape_okD:
  assumes "shape_ok p"
  shows "0 < kv_page_tokens p" "kv_page_tokens p \<le> kv_max_context_tokens p"
    "kv_max_context_tokens p \<le> U32_MAX"
    "kv_max_context_tokens p \<le> MAX_PAGES_PER_REQUEST * kv_page_tokens p"
    "0 < kv_page_limit p" "kv_page_limit p \<le> MAX_PAGE_SLOTS"
    "length (kv_pages p) = MAX_PAGE_SLOTS" "length (kv_free_stack p) = MAX_PAGE_SLOTS"
    "length (kv_free_bitmap p) = MAX_PAGE_SLOTS" "length (kv_requests p) = MAX_REQUEST_SLOTS"
  using assms by (simp_all add: shape_ok_def)

lemmas kv_shape = shape_okD [OF kv_inv_shape]

lemma page_count_bound:
  assumes "shape_ok p" "request_ok p r"
  shows "rq_page_count r \<le> MAX_PAGES_PER_REQUEST"
proof (rule ccontr)
  assume "\<not> ?thesis"
  then have "Suc MAX_PAGES_PER_REQUEST \<le> rq_page_count r" by simp
  then have "Suc MAX_PAGES_PER_REQUEST * kv_page_tokens p \<le> rq_page_count r * kv_page_tokens p"
    by (rule mult_le_mono1)
  with assms show False
    by (auto simp: shape_ok_def request_ok_def)
qed

lemma length_chain:
  "shape_ok p \<Longrightarrow> request_ok p r \<Longrightarrow> length (chain r) = rq_page_count r"
  using page_count_bound [of p r] by (simp add: chain_def request_ok_def)

lemma chain_nth: "k < rq_page_count r \<Longrightarrow> chain r ! k = rq_pages r ! k"
  by (simp add: chain_def)

lemma owned_iff:
  assumes "shape_ok p" "request_ok p r"
  shows "i \<in> owned r \<longleftrightarrow> (\<exists>k < rq_page_count r. pid_index (rq_pages r ! k) = i)"
proof -
  have "set (chain r) = {rq_pages r ! k | k. k < rq_page_count r}"
    using length_chain [OF assms] chain_nth [of _ r] by (force simp: set_conv_nth)
  then show ?thesis by (auto simp: owned_def)
qed

lemma chain_index_inj:
  assumes "shape_ok p" "request_ok p r" "distinct (map pid_index (chain r))"
    "j < rq_page_count r" "k < rq_page_count r" "pid_index (rq_pages r ! j) = pid_index (rq_pages r ! k)"
  shows "j = k"
  using distinct_map_nthD [OF assms(3), of j k] assms(4-6) length_chain [OF assms(1,2)]
  by (simp add: chain_nth)

text \<open>A page above the \<open>k\<close>-th is full, the last one holds the remainder.\<close>

lemma page_fill:
  assumes "request_ok p r" "Suc k < rq_page_count r"
  shows "Suc k * kv_page_tokens p < rq_resident_tokens r"
proof -
  from assms(2) have "Suc (Suc k) * kv_page_tokens p \<le> rq_page_count r * kv_page_tokens p"
    by (intro mult_le_mono1) simp
  with assms(1) show ?thesis by (simp add: request_ok_def)
qed

lemma owned_not_free:
  assumes "kv_inv p" "s < MAX_REQUEST_SLOTS" "i \<in> owned (kv_requests p ! s)"
  shows "i < kv_page_limit p \<and> pg_state (kv_pages p ! i) \<noteq> Free"
proof -
  from assms obtain k where k: "k < rq_page_count (kv_requests p ! s)"
    "pid_index (rq_pages (kv_requests p ! s) ! k) = i"
    using owned_iff [OF kv_inv_shape kv_inv_request] by blast
  with kv_inv_link [OF assms(1,2) k(1)] show ?thesis by (auto simp: link_ok_def Let_def)
qed

lemma free_len_bound:
  assumes "kv_inv p"
  shows "kv_free_len p \<le> kv_page_limit p" "kv_free_len p \<le> length (kv_free_stack p)"
    "0 < kv_free_len p \<Longrightarrow> kv_free_len p - Suc 0 < length (kv_free_stack p)"
  using kv_inv_free [OF assms] kv_shape [OF assms] by (auto simp: free_ok_def)

text \<open>Free pages and the pages of any one request fit into the pool together.\<close>

lemma free_plus_owned:
  assumes "kv_inv p" "s < MAX_REQUEST_SLOTS"
  shows "kv_free_len p + rq_page_count (kv_requests p ! s) \<le> kv_page_limit p"
proof -
  let ?r = "kv_requests p ! s"
  let ?F = "{i. i < kv_page_limit p \<and> pg_state (kv_pages p ! i) = Free}"
  note sh = kv_inv_shape [OF assms(1)] and rq = kv_inv_request [OF assms]
  have fr: "free_ok p" using assms(1) by (rule kv_inv_free)
  then have "card ?F = length (take (kv_free_len p) (kv_free_stack p))"
    unfolding free_ok_def by (metis distinct_card)
  also have "\<dots> = kv_free_len p"
    using fr shape_okD [OF sh] by (simp add: free_ok_def)
  finally have F: "card ?F = kv_free_len p" .
  have O: "card (owned ?r) = rq_page_count ?r"
    using kv_inv_distinct [OF assms] length_chain [OF sh rq]
    by (metis distinct_card length_map list.set_map owned_def)
  have "?F \<inter> owned ?r = {}" "?F \<union> owned ?r \<subseteq> {..<kv_page_limit p}"
    using owned_not_free [OF assms] by auto
  then have "card ?F + card (owned ?r) \<le> card {..<kv_page_limit p}"
    by (metis (no_types, lifting) card_Un_disjoint card_mono finite_Un finite_lessThan finite_subset)
  with F O show ?thesis by simp
qed

subsection \<open>One request slot and one page change\<close>

text \<open>Every primitive mutation rewrites one request slot \<open>s\<close> and one page \<open>i\<close>, possibly moving the
  page on or off the free stack.  The following rule reduces the invariant of the result to
  facts about the two new records.\<close>

lemma kv_inv_update:
  assumes inv: "kv_inv p" and s: "s < MAX_REQUEST_SLOTS" and i: "i < kv_page_limit p"
    and p': "shape_ok p'" "kv_page_tokens p' = kv_page_tokens p"
      "kv_max_context_tokens p' = kv_max_context_tokens p" "kv_page_limit p' = kv_page_limit p"
      "kv_pages p' = (kv_pages p)[i := g']" "kv_requests p' = (kv_requests p)[s := r']"
    and g': "page_ok (kv_page_tokens p) g'" and r': "request_ok p r'"
    and link: "\<And>k. k < rq_page_count r' \<Longrightarrow> link_ok p' s r' k"
    and dist: "distinct (map pid_index (chain r'))"
    and others: "\<And>t k. t < MAX_REQUEST_SLOTS \<Longrightarrow> t \<noteq> s \<Longrightarrow> k < rq_page_count (kv_requests p ! t) \<Longrightarrow>
        pid_index (rq_pages (kv_requests p ! t) ! k) = i \<Longrightarrow> link_ok p' t (kv_requests p ! t) k"
    and refmask: "\<And>t. t < MAX_REQUEST_SLOTS \<Longrightarrow>
        bit (pg_reference_mask g') t \<longleftrightarrow> i \<in> owned (if t = s then r' else kv_requests p ! t)"
    and own: "\<And>j. j < kv_page_limit p \<Longrightarrow> j \<noteq> i \<Longrightarrow> j \<in> owned r' \<longleftrightarrow> j \<in> owned (kv_requests p ! s)"
    and free: "free_ok p'"
  shows "kv_inv p'"
proof -
  note sh = kv_shape [OF inv]
  have pg: "kv_pages p' ! j = (if j = i then g' else kv_pages p ! j)" if "j < kv_page_limit p" for j
    using that sh i p'(5) by auto
  have rq: "kv_requests p' ! t = (if t = s then r' else kv_requests p ! t)" if "t < MAX_REQUEST_SLOTS" for t
    using that sh s p'(6) by auto
  have rok: "request_ok p' r \<longleftrightarrow> request_ok p r" for r
    using p' by (simp add: request_ok_def)
  have other_link: "link_ok p' t (kv_requests p ! t) k"
    if "t < MAX_REQUEST_SLOTS" "t \<noteq> s" "k < rq_page_count (kv_requests p ! t)" for t k
  proof (cases "pid_index (rq_pages (kv_requests p ! t) ! k) = i")
    case True
    then show ?thesis using that others by blast
  next
    case False
    with kv_inv_link [OF inv that(1,3)] pg p' show ?thesis
      by (auto simp: link_ok_def Let_def)
  qed
  have mk: "bit (pg_reference_mask (kv_pages p' ! j)) t \<longleftrightarrow> j \<in> owned (kv_requests p' ! t)"
    if "j < kv_page_limit p" "t < MAX_REQUEST_SLOTS" for j t
    using that pg rq refmask [OF that(2)] own [OF that(1)] kv_inv_mask [OF inv that] by auto
  show ?thesis
    unfolding kv_inv_def using p'(1,2,4) free mk pg rq g' r' dist link other_link rok
      kv_inv_page [OF inv] kv_inv_request [OF inv] kv_inv_distinct [OF inv] by auto
qed

end
