(* ===== verification/KvPool_Primitives.thy ===== *)
theory KvPool_Primitives
  imports KvPool_Invariant
begin

text \<open>
  Each private mutation of \<open>KvPool\<close> in its panic-free form, with the proof that the
  invariant makes the panicking original agree with it and that it keeps the invariant.
\<close>

subsection \<open>Reference masks\<close>

lemma reference_bit_ok [exec_simps]: "s < 32 \<Longrightarrow> reference_bit s = Some (slot_bit s)"
  by (simp add: reference_bit_def)

lemma bit_reference: "s < 32 \<Longrightarrow> bit (slot_bit s) t \<longleftrightarrow> t = s"
  by (auto simp: slot_bit_def bit_simps)

lemma bit_set_reference:
  "s < 32 \<Longrightarrow> bit (m OR slot_bit s :: 32 word) t \<longleftrightarrow> bit m t \<or> t = s"
  by (auto simp: bit_or_iff bit_reference)

lemma bit_clear_reference:
  "s < 32 \<Longrightarrow> bit (m AND NOT (slot_bit s) :: 32 word) t \<longleftrightarrow> bit m t \<and> t \<noteq> s"
  using bit_imp_le_length [of m t] by (auto simp: bit_and_iff bit_not_iff bit_reference)

lemma word_nonzero_iff: "(m :: 32 word) \<noteq> 0 \<longleftrightarrow> (\<exists>t < 32. bit m t)"
proof -
  have "m = 0 \<longleftrightarrow> (\<forall>t. \<not> bit m t)" by (metis bit_0_eq bit_eqI bot_apply bot_bool_def)
  moreover have "bit m t \<Longrightarrow> t < 32" for t using bit_imp_le_length [of m t] by simp
  ultimately show ?thesis by blast
qed

lemma set_reference_ok [exec_simps]: "s < 32 \<Longrightarrow> set_reference m s = Some (m OR slot_bit s)"
  by (simp add: set_reference_def exec_simps)

lemma clear_reference_ok [exec_simps]: "s < 32 \<Longrightarrow> clear_reference m s = Some (m AND NOT (slot_bit s))"
  by (simp add: clear_reference_def exec_simps)

text \<open>The test of \<open>page_has_other_reference\<close> says that another request owns the page.\<close>

lemma other_reference_iff:
  assumes "kv_inv p" "s < MAX_REQUEST_SLOTS" "i < kv_page_limit p"
  shows "pg_reference_mask (kv_pages p ! i) AND NOT (slot_bit s) \<noteq> 0 \<longleftrightarrow>
    (\<exists>t < MAX_REQUEST_SLOTS. t \<noteq> s \<and> i \<in> owned (kv_requests p ! t))"
  using assms kv_inv_mask [OF assms(1,3)]
  by (subst word_nonzero_iff) (auto simp: bit_clear_reference MAX_REQUEST_SLOTS_def)

lemma page_has_other_reference_ok:
  assumes "kv_inv p" "s < MAX_REQUEST_SLOTS" "i < kv_page_limit p"
  shows "page_has_other_reference p i s =
    Some (\<exists>t < MAX_REQUEST_SLOTS. t \<noteq> s \<and> i \<in> owned (kv_requests p ! t))"
  using assms kv_shape [OF assms(1)] other_reference_iff [OF assms]
  by (simp add: page_has_other_reference_def exec_simps kv_bounds)

text \<open>A writable page has exactly one owner.\<close>

lemma writable_owned:
  assumes "kv_inv p" "i < kv_page_limit p" "pg_state (kv_pages p ! i) = Writable s" "t < MAX_REQUEST_SLOTS"
  shows "i \<in> owned (kv_requests p ! t) \<longleftrightarrow> t = s"
  using kv_inv_page [OF assms(1,2)] kv_inv_mask [OF assms(1,2,4)] assms(3)
  by (simp add: page_ok_def bit_reference)

subsection \<open>A live request\<close>

text \<open>\<open>live_at p q s r\<close>: the key \<open>q\<close> names the live request \<open>r\<close> in slot \<open>s\<close>.\<close>

definition live_at :: "kv_pool \<Rightarrow> request_key \<Rightarrow> nat \<Rightarrow> request_slot \<Rightarrow> bool" where
  "live_at p q s r = (key_slot q = s \<and> s < MAX_REQUEST_SLOTS \<and> r = kv_requests p ! s
     \<and> rq_live r \<and> rq_generation r = key_generation q)"

definition key_decision :: "kv_pool \<Rightarrow> request_key \<Rightarrow> kv_error option" where
  "key_decision p q =
     (if MAX_REQUEST_SLOTS \<le> key_slot q then Some (InvalidRequestSlot (key_slot q))
      else let r = kv_requests p ! key_slot q in
        if \<not> rq_live r then Some (UnknownRequest (key_slot q))
        else if rq_generation r \<noteq> key_generation q
          then Some (StaleRequestGeneration (key_slot q) (rq_generation r) (key_generation q))
        else None)"

lemma live_request_index_eq:
  assumes "kv_inv p"
  shows "live_request_index p q =
    Some (case key_decision p q of Some e \<Rightarrow> Inl e | None \<Rightarrow> Inr (key_slot q))"
  using kv_shape [OF assms]
  by (simp add: live_request_index_def key_decision_def Let_def exec_simps)

lemma key_decision_None:
  "key_decision p q = None \<longleftrightarrow> live_at p q (key_slot q) (kv_requests p ! key_slot q)"
  by (auto simp: key_decision_def live_at_def Let_def split: if_splits)

lemma live_atD:
  assumes "kv_inv p" "live_at p q s r"
  shows "key_slot q = s" "s < MAX_REQUEST_SLOTS" "s < length (kv_requests p)" "s < 32"
    "r = kv_requests p ! s" "rq_live r" "request_ok p r" "rq_page_count r \<le> MAX_PAGES_PER_REQUEST"
    "length (rq_pages r) = MAX_PAGES_PER_REQUEST"
  using assms kv_shape [OF assms(1)] kv_inv_request [OF assms(1)]
    page_count_bound [OF kv_inv_shape [OF assms(1)]]
  by (auto simp: live_at_def MAX_REQUEST_SLOTS_def request_ok_def)

subsection \<open>Taking a fresh page\<close>

definition fresh_index :: "kv_pool \<Rightarrow> nat" where
  "fresh_index p = kv_free_stack p ! (kv_free_len p - 1)"

definition fresh_request :: "kv_pool \<Rightarrow> request_slot \<Rightarrow> u32 \<Rightarrow> request_slot" where
  "fresh_request p r w =
     r\<lparr>rq_pages := (rq_pages r)[rq_page_count r :=
          \<lparr>pid_index = fresh_index p, pid_generation = pg_generation (kv_pages p ! fresh_index p)\<rparr>],
       rq_page_count := rq_page_count r + 1, rq_resident_tokens := rq_resident_tokens r + w\<rparr>"

definition fresh_page :: "page_slot \<Rightarrow> nat \<Rightarrow> u32 \<Rightarrow> page_slot" where
  "fresh_page g s w =
     g\<lparr>pg_state := Writable s, pg_initialized_tokens := w, pg_reference_mask := slot_bit s\<rparr>"

definition fresh_pool :: "kv_pool \<Rightarrow> nat \<Rightarrow> u32 \<Rightarrow> kv_pool" where
  "fresh_pool p s w =
     p\<lparr>kv_free_len := kv_free_len p - 1,
       kv_free_bitmap := (kv_free_bitmap p)[fresh_index p := False],
       kv_pages := (kv_pages p)[fresh_index p := fresh_page (kv_pages p ! fresh_index p) s w],
       kv_requests := (kv_requests p)[s := fresh_request p (kv_requests p ! s) w]\<rparr>"

lemma fresh_index_free:
  assumes "kv_inv p" "0 < kv_free_len p"
  shows "fresh_index p < kv_page_limit p" "pg_state (kv_pages p ! fresh_index p) = Free"
    "pg_reference_mask (kv_pages p ! fresh_index p) = 0"
proof -
  from kv_inv_free [OF assms(1)] have f: "free_ok p" .
  from f kv_shape [OF assms(1)] have "kv_free_len p \<le> length (kv_free_stack p)"
    by (simp add: free_ok_def)
  with assms(2) have "fresh_index p \<in> set (take (kv_free_len p) (kv_free_stack p))"
    unfolding fresh_index_def by (subst in_set_conv_nth) (auto intro!: exI [of _ "kv_free_len p - 1"])
  with f show i: "fresh_index p < kv_page_limit p" "pg_state (kv_pages p ! fresh_index p) = Free"
    by (auto simp: free_ok_def)
  then show "pg_reference_mask (kv_pages p ! fresh_index p) = 0"
    using kv_inv_page [OF assms(1) i(1)] by (simp add: page_ok_def)
qed

lemma append_fresh_page_eq:
  assumes inv: "kv_inv p" and live: "live_at p q s r" and free: "0 < kv_free_len p"
    and room: "rq_page_count r < MAX_PAGES_PER_REQUEST" and fits: "rq_resident_tokens r + w \<le> U32_MAX"
  shows "append_fresh_page p q s w = Some (fresh_pool p s w)"
proof -
  note sh = kv_shape [OF inv] and l = live_atD [OF inv live]
  note fi = fresh_index_free [OF inv free]
  have "kv_free_len p - Suc 0 < length (kv_free_stack p)"
    using free by (rule free_len_bound(3) [OF inv])
  moreover have "rq_page_count r + 1 \<le> U32_MAX" using room by (simp add: kv_bounds)
  ultimately show ?thesis
    using sh l fi free room fits
    by (simp add: append_fresh_page_def fresh_pool_def fresh_page_def fresh_request_def fresh_index_def exec_simps Let_def)
qed

lemma free_ok_pop:
  assumes inv: "kv_inv p" and free: "0 < kv_free_len p" and st: "pg_state g \<noteq> Free"
    and p': "kv_free_len p' = kv_free_len p - 1" "kv_free_stack p' = kv_free_stack p"
      "kv_free_bitmap p' = (kv_free_bitmap p)[fresh_index p := False]"
      "kv_pages p' = (kv_pages p)[fresh_index p := g]" "kv_page_limit p' = kv_page_limit p"
  shows "free_ok p'"
proof -
  note sh = kv_shape [OF inv] and fi = fresh_index_free [OF inv free]
  from kv_inv_free [OF inv] have f: "free_ok p" .
  let ?n = "kv_free_len p - 1"
  have n: "kv_free_len p = Suc ?n" using free by simp
  have "?n < length (kv_free_stack p)" using free_len_bound(3) [OF inv free] by simp
  then have tk: "take (kv_free_len p) (kv_free_stack p) = take ?n (kv_free_stack p) @ [fresh_index p]"
    by (subst n) (simp add: take_Suc_conv_app_nth fresh_index_def)
  with f have "distinct (take ?n (kv_free_stack p))" "fresh_index p \<notin> set (take ?n (kv_free_stack p))"
    "insert (fresh_index p) (set (take ?n (kv_free_stack p)))
       = {i. i < kv_page_limit p \<and> pg_state (kv_pages p ! i) = Free}"
    by (auto simp: free_ok_def)
  moreover have "kv_pages p' ! i = (if i = fresh_index p then g else kv_pages p ! i)"
    if "i < kv_page_limit p" for i using that p' sh by auto
  ultimately have "set (take ?n (kv_free_stack p))
       = {i. i < kv_page_limit p \<and> pg_state (kv_pages p' ! i) = Free}"
    using st by (subst Diff_insert_absorb [symmetric]) (auto split: if_splits)
  then show ?thesis
    using \<open>distinct (take ?n (kv_free_stack p))\<close> f fi sh st p'
    by (auto simp: free_ok_def nth_list_update)
qed

lemma fresh_pool_inv:
  assumes inv: "kv_inv p" and live: "live_at p q s r" and free: "0 < kv_free_len p"
    and full: "rq_resident_tokens r = rq_page_count r * kv_page_tokens p"
    and w: "0 < w" "w \<le> kv_page_tokens p" and ctx: "rq_resident_tokens r + w \<le> kv_max_context_tokens p"
  shows "kv_inv (fresh_pool p s w)"
proof -
  note sh = kv_shape [OF inv] and l = live_atD [OF inv live] and fi = fresh_index_free [OF inv free]
  note ro = l(7) and rdef = l(5) [symmetric]
  let ?i = "fresh_index p" and ?c = "rq_page_count r" and ?r = "fresh_request p r w"
  let ?p = "fresh_pool p s w"
  have room: "?c < MAX_PAGES_PER_REQUEST"
  proof (rule ccontr)
    assume "\<not> ?thesis"
    then have "MAX_PAGES_PER_REQUEST * kv_page_tokens p \<le> ?c * kv_page_tokens p" by simp
    with sh(4) full w ctx show False by linarith
  qed
  have unowned: "?i \<notin> owned (kv_requests p ! t)" if "t < MAX_REQUEST_SLOTS" for t
    using owned_not_free [OF inv that] fi by blast
  have chain': "chain ?r = chain r @ [\<lparr>pid_index = ?i, pid_generation = pg_generation (kv_pages p ! ?i)\<rparr>]"
    using room l(9) by (simp add: chain_def fresh_request_def take_Suc_update)
  then have own': "owned ?r = insert ?i (owned r)" by (auto simp: owned_def)
  have lk: "link_ok ?p s ?r k" if "k < rq_page_count ?r" for k
  proof (cases "k = ?c")
    case True
    with room l(9) fi sh w full show ?thesis
      by (simp add: link_ok_def fresh_request_def fresh_pool_def fresh_page_def min_def)
  next
    case False
    with that have k: "k < ?c" by (simp add: fresh_request_def)
    then have "k * kv_page_tokens p + kv_page_tokens p \<le> rq_resident_tokens r"
      unfolding full by (metis add.commute mult_Suc mult_le_mono1 Suc_leI)
    moreover have "pid_index (rq_pages r ! k) \<noteq> ?i"
      using k unowned [OF l(2)] owned_iff [OF kv_inv_shape [OF inv] ro] rdef by auto
    ultimately show ?thesis
      using kv_inv_link [OF inv l(2)] k rdef False
      by (auto simp: link_ok_def fresh_request_def fresh_pool_def Let_def)
  qed
  show ?thesis
  proof (rule kv_inv_update [where r' = ?r and g' = "fresh_page (kv_pages p ! ?i) s w", OF inv l(2) fi(1)])
    show "shape_ok ?p" using sh by (simp add: shape_ok_def fresh_pool_def)
    show "request_ok p ?r" using ro l(6) w ctx full by (simp add: request_ok_def fresh_request_def)
    show "distinct (map pid_index (chain ?r))"
      using chain' kv_inv_distinct [OF inv l(2)] unowned [OF l(2)] rdef by (simp add: owned_def)
    show "\<And>k. k < rq_page_count ?r \<Longrightarrow> link_ok ?p s ?r k" by (rule lk)
    show "free_ok ?p" by (rule free_ok_pop [OF inv free]) (auto simp: fresh_pool_def fresh_page_def)
    fix t k assume "t < MAX_REQUEST_SLOTS" "k < rq_page_count (kv_requests p ! t)"
      "pid_index (rq_pages (kv_requests p ! t) ! k) = ?i"
    then show "link_ok ?p t (kv_requests p ! t) k"
      using unowned owned_iff [OF kv_inv_shape [OF inv] kv_inv_request [OF inv]] by blast
  qed (use l(4,5) own' unowned kv_inv_page [OF inv fi(1)] in
      \<open>auto simp: fresh_pool_def fresh_page_def page_ok_def bit_reference\<close>)
qed

subsection \<open>Changing only the labels of a request\<close>

lemma kv_inv_relabel:
  assumes inv: "kv_inv p" and s: "s < MAX_REQUEST_SLOTS" and r': "request_ok p r'"
    and same: "rq_pages r' = rq_pages (kv_requests p ! s)"
      "rq_page_count r' = rq_page_count (kv_requests p ! s)"
      "rq_resident_tokens r' = rq_resident_tokens (kv_requests p ! s)"
    and up: "rq_committed_tokens (kv_requests p ! s) \<le> rq_committed_tokens r'"
  shows "kv_inv (p\<lparr>kv_requests := (kv_requests p)[s := r']\<rparr>)" (is "kv_inv ?p")
proof -
  note sh = kv_shape [OF inv]
  have ch: "chain r' = chain (kv_requests p ! s)" using same by (simp add: chain_def)
  have ow: "owned r' = owned (kv_requests p ! s)" using ch by (simp add: owned_def)
  have lk: "link_ok ?p t r k = link_ok p t r k" for t r k by (simp add: link_ok_def)
  have lk': "link_ok p s r' k" if "k < rq_page_count r'" for k
    using kv_inv_link [OF inv s] that same up by (fastforce simp: link_ok_def Let_def)
  show ?thesis
    by (rule kv_inv_update [where i = 0 and r' = r' and g' = "kv_pages p ! 0", OF inv s sh(5)])
       (use sh s r' ch ow lk lk' kv_inv_page [OF inv] kv_inv_distinct [OF inv s] kv_inv_link [OF inv]
         kv_inv_mask [OF inv sh(5)] kv_inv_free [OF inv] in
        \<open>auto simp: shape_ok_def free_ok_def\<close>)
qed

subsection \<open>Rewriting the length of the tail page\<close>

definition tail_page :: "request_slot \<Rightarrow> page_id" where
  "tail_page r = rq_pages r ! (rq_page_count r - 1)"

definition retail_pool :: "kv_pool \<Rightarrow> nat \<Rightarrow> u32 \<Rightarrow> u32 \<Rightarrow> kv_pool" where
  "retail_pool p s initialized resident =
     (let r = kv_requests p ! s; i = pid_index (tail_page r) in
      p\<lparr>kv_pages := (kv_pages p)[i := (kv_pages p ! i)\<lparr>pg_initialized_tokens := initialized\<rparr>],
        kv_requests := (kv_requests p)[s := r\<lparr>rq_resident_tokens := resident\<rparr>]\<rparr>)"

lemma tail_link:
  assumes "kv_inv p" "live_at p q s r" "0 < rq_page_count r"
  shows "link_ok p s r (rq_page_count r - 1)" "pid_index (tail_page r) < kv_page_limit p"
    "pid_index (tail_page r) < length (kv_pages p)" "rq_page_count r - 1 < length (rq_pages r)"
    "pg_initialized_tokens (kv_pages p ! pid_index (tail_page r))
       = rq_resident_tokens r - (rq_page_count r - 1) * kv_page_tokens p"
    "(rq_page_count r - 1) * kv_page_tokens p < rq_resident_tokens r"
    "rq_resident_tokens r \<le> (rq_page_count r - 1) * kv_page_tokens p + kv_page_tokens p"
proof -
  note l = live_atD [OF assms(1,2)]
  show lk: "link_ok p s r (rq_page_count r - 1)"
    using kv_inv_link [OF assms(1) l(2)] l(5) assms(3) by simp
  then show "pid_index (tail_page r) < kv_page_limit p"
    by (auto simp: link_ok_def tail_page_def Let_def)
  then show "pid_index (tail_page r) < length (kv_pages p)"
    using kv_shape [OF assms(1)] by simp
  show "rq_page_count r - 1 < length (rq_pages r)" using l(8,9) assms(3) by simp
  from assms(3) obtain n where n: "rq_page_count r = Suc n" by (cases "rq_page_count r") auto
  with l(7) show "(rq_page_count r - 1) * kv_page_tokens p < rq_resident_tokens r"
    "rq_resident_tokens r \<le> (rq_page_count r - 1) * kv_page_tokens p + kv_page_tokens p"
    by (auto simp: request_ok_def)
  with lk n show "pg_initialized_tokens (kv_pages p ! pid_index (tail_page r))
       = rq_resident_tokens r - (rq_page_count r - 1) * kv_page_tokens p"
    by (auto simp: link_ok_def tail_page_def Let_def min_def)
qed

lemma append_existing_page_eq:
  assumes "kv_inv p" "live_at p q s r" "0 < rq_page_count r"
    and fits: "rq_resident_tokens r + w \<le> U32_MAX"
      "pg_initialized_tokens (kv_pages p ! pid_index (tail_page r)) + w \<le> U32_MAX"
  shows "append_existing_page p s (tail_page r) w =
    Some (retail_pool p s (pg_initialized_tokens (kv_pages p ! pid_index (tail_page r)) + w)
            (rq_resident_tokens r + w))"
  using tail_link [OF assms(1-3)] live_atD [OF assms(1,2)] fits
  by (simp add: append_existing_page_def retail_pool_def Let_def exec_simps)

lemma truncate_writable_tail_eq:
  assumes "kv_inv p" "live_at p q s r" "0 < rq_page_count r"
  shows "truncate_writable_tail p s (tail_page r) resident n = Some (retail_pool p s n resident)"
  using tail_link [OF assms] live_atD [OF assms(1,2)]
  by (simp add: truncate_writable_tail_def retail_pool_def Let_def exec_simps)

lemma retail_pool_inv:
  assumes inv: "kv_inv p" and live: "live_at p q s r" and c: "0 < rq_page_count r"
    and wr: "pg_state (kv_pages p ! pid_index (tail_page r)) = Writable s"
    and len: "(rq_page_count r - 1) * kv_page_tokens p + n = m" "0 < n" "n \<le> kv_page_tokens p"
      "rq_committed_tokens r \<le> m" "m \<le> kv_max_context_tokens p"
  shows "kv_inv (retail_pool p s n m)"
proof -
  note sh = kv_shape [OF inv] and l = live_atD [OF inv live] and t = tail_link [OF inv live c]
  note rdef = l(5) [symmetric]
  let ?i = "pid_index (tail_page r)" and ?r = "r\<lparr>rq_resident_tokens := m\<rparr>" and ?p = "retail_pool p s n m"
  let ?g = "(kv_pages p ! ?i)\<lparr>pg_initialized_tokens := n\<rparr>"
  from c obtain d where d: "rq_page_count r = Suc d" by (cases "rq_page_count r") auto
  have own: "?i \<in> owned (kv_requests p ! u) \<longleftrightarrow> u = s" if "u < MAX_REQUEST_SLOTS" for u
    by (rule writable_owned [OF inv t(2) wr that])
  have lk: "link_ok ?p s ?r k" if k: "k < rq_page_count ?r" for k
  proof (cases "k = d")
    case True
    then show ?thesis using t(1,3) d wr len rdef
      by (auto simp: link_ok_def retail_pool_def tail_page_def Let_def min_def)
  next
    case False
    with k d have kd: "k < d" by simp
    then have "Suc k * kv_page_tokens p \<le> d * kv_page_tokens p" by (intro mult_le_mono1) simp
    then have le: "k * kv_page_tokens p + kv_page_tokens p \<le> d * kv_page_tokens p" by simp
    have ne: "pid_index (rq_pages r ! k) \<noteq> ?i"
      using chain_index_inj [OF kv_inv_shape [OF inv] l(7), of k d] kv_inv_distinct [OF inv l(2)] kd d rdef
      by (auto simp: tail_page_def)
    show ?thesis
      using kv_inv_link [OF inv l(2), of k] kd d rdef ne le t(6) len
      by (auto simp: link_ok_def retail_pool_def Let_def)
  qed
  show ?thesis
  proof (rule kv_inv_update [where r' = ?r and g' = ?g, OF inv l(2) t(2)])
    show "shape_ok ?p" using sh by (simp add: shape_ok_def retail_pool_def Let_def)
    show "request_ok p ?r" using l(6,7) len d by (simp add: request_ok_def)
    show "\<And>k. k < rq_page_count ?r \<Longrightarrow> link_ok ?p s ?r k" by (rule lk)
    show "free_ok ?p" using kv_inv_free [OF inv] t(2,3) rdef
      by (auto simp: free_ok_def retail_pool_def Let_def nth_list_update)
    fix u k assume "u < MAX_REQUEST_SLOTS" "u \<noteq> s" "k < rq_page_count (kv_requests p ! u)"
      "pid_index (rq_pages (kv_requests p ! u) ! k) = ?i"
    then show "link_ok ?p u (kv_requests p ! u) k"
      using own owned_iff [OF kv_inv_shape [OF inv] kv_inv_request [OF inv]] by blast
  qed (use rdef wr own kv_inv_page [OF inv t(2)] kv_inv_distinct [OF inv l(2)] kv_inv_mask [OF inv t(2)] in
      \<open>auto simp: retail_pool_def page_ok_def owned_def chain_def Let_def\<close>)
qed

subsection \<open>Removing the tail page\<close>

text \<open>Both ways to shorten a page table: the page is recycled under its next generation when
  this request was its only user, and merely dereferenced otherwise.\<close>

definition shortened_request :: "request_slot \<Rightarrow> u32 \<Rightarrow> u32 \<Rightarrow> request_slot" where
  "shortened_request r resident committed =
     r\<lparr>rq_pages := (rq_pages r)[rq_page_count r - 1 := PageId_EMPTY],
       rq_page_count := rq_page_count r - 1, rq_resident_tokens := resident,
       rq_committed_tokens := committed\<rparr>"

definition freed_page :: "page_slot \<Rightarrow> page_slot" where
  "freed_page g = \<lparr>pg_generation = pg_generation g + 1, pg_state = Free, pg_initialized_tokens = 0,
     pg_reference_mask = 0\<rparr>"

definition dropped_pool :: "kv_pool \<Rightarrow> nat \<Rightarrow> u32 \<Rightarrow> kv_pool" where
  "dropped_pool p s committed =
     (let r = kv_requests p ! s; i = pid_index (tail_page r); g = kv_pages p ! i in
      p\<lparr>kv_requests := (kv_requests p)[s := shortened_request r
            (rq_resident_tokens r - pg_initialized_tokens g) committed],
        kv_pages := (kv_pages p)[i := freed_page g],
        kv_free_bitmap := (kv_free_bitmap p)[i := True],
        kv_free_stack := (kv_free_stack p)[kv_free_len p := i],
        kv_free_len := kv_free_len p + 1\<rparr>)"

definition detached_pool :: "kv_pool \<Rightarrow> nat \<Rightarrow> u32 \<Rightarrow> kv_pool" where
  "detached_pool p s committed =
     (let r = kv_requests p ! s; i = pid_index (tail_page r); g = kv_pages p ! i in
      p\<lparr>kv_requests := (kv_requests p)[s := shortened_request r
            (rq_resident_tokens r - pg_initialized_tokens g) committed],
        kv_pages := (kv_pages p)[i := g\<lparr>pg_reference_mask :=
            pg_reference_mask g AND NOT (slot_bit s)\<rparr>]\<rparr>)"

lemma free_len_room:
  assumes "kv_inv p" "live_at p q s r" "0 < rq_page_count r"
  shows "kv_free_len p < kv_page_limit p" "kv_free_len p < length (kv_free_stack p)"
    "kv_free_len p + 1 \<le> U32_MAX"
  using free_plus_owned [OF assms(1), of s] live_atD [OF assms(1,2)] assms(3) kv_shape [OF assms(1)]
  by (auto simp: kv_bounds)

lemma drop_sole_tail_eq:
  assumes "kv_inv p" "live_at p q s r" "0 < rq_page_count r"
    and "pg_generation (kv_pages p ! pid_index (tail_page r)) < U32_MAX"
  shows "drop_sole_tail p s (tail_page r) committed = Some (dropped_pool p s committed)"
  using tail_link [OF assms(1-3)] live_atD [OF assms(1,2)] free_len_room [OF assms(1-3)] assms(3,4)
    kv_shape [OF assms(1)]
  by (simp add: drop_sole_tail_def dropped_pool_def shortened_request_def freed_page_def Let_def exec_simps)

lemma detach_shared_tail_eq:
  assumes "kv_inv p" "live_at p q s r" "0 < rq_page_count r"
  shows "detach_shared_tail p s s (tail_page r) committed = Some (detached_pool p s committed)"
  using tail_link [OF assms(1-3)] live_atD [OF assms(1,2)] assms(3)
  by (simp add: detach_shared_tail_def detached_pool_def shortened_request_def Let_def exec_simps)

text \<open>What the two have in common.\<close>

lemma shortened_facts:
  assumes inv: "kv_inv p" and live: "live_at p q s r" and c: "0 < rq_page_count r"
    and com: "committed \<le> (rq_page_count r - 1) * kv_page_tokens p"
      "min (rq_committed_tokens r) ((rq_page_count r - 1) * kv_page_tokens p) \<le> committed"
  defines "r' \<equiv> shortened_request r ((rq_page_count r - 1) * kv_page_tokens p) committed"
  shows "request_ok p r'" "chain r = chain r' @ [tail_page r]" "distinct (map pid_index (chain r'))"
    "owned r' = owned r - {pid_index (tail_page r)}"
    "\<And>k p'. k < rq_page_count r' \<Longrightarrow> kv_page_tokens p' = kv_page_tokens p \<Longrightarrow>
       kv_page_limit p' = kv_page_limit p \<Longrightarrow> kv_pages p' = (kv_pages p)[pid_index (tail_page r) := g] \<Longrightarrow>
       link_ok p' s r' k"
proof -
  note l = live_atD [OF inv live] and t = tail_link [OF inv live c]
  note rdef = l(5) [symmetric] and shp = kv_inv_shape [OF inv]
  let ?i = "pid_index (tail_page r)"
  from c obtain d where d: "rq_page_count r = Suc d" by (cases "rq_page_count r") auto
  show "request_ok p r'" using l(6,7) t(6,7) com d
    by (auto simp: request_ok_def r'_def shortened_request_def kv_shape [OF inv])
  show ch: "chain r = chain r' @ [tail_page r]"
    using d l(8,9) by (simp add: chain_def r'_def shortened_request_def tail_page_def take_Suc_conv_app_nth)
  show "distinct (map pid_index (chain r'))" "owned r' = owned r - {?i}"
    using kv_inv_distinct [OF inv l(2)] rdef ch by (auto simp: owned_def)
  fix k and p' :: kv_pool
  assume k: "k < rq_page_count r'" and p': "kv_page_tokens p' = kv_page_tokens p"
    "kv_page_limit p' = kv_page_limit p" "kv_pages p' = (kv_pages p)[?i := g]"
  have kd: "k < d" using k d by (simp add: r'_def shortened_request_def)
  then have "Suc k * kv_page_tokens p \<le> d * kv_page_tokens p" by (intro mult_le_mono1) simp
  then have le: "k * kv_page_tokens p + kv_page_tokens p \<le> d * kv_page_tokens p" by simp
  have ne: "pid_index (rq_pages r ! k) \<noteq> ?i"
    using chain_index_inj [OF shp l(7), of k d] kv_inv_distinct [OF inv l(2)] kd d rdef
    by (auto simp: tail_page_def)
  show "link_ok p' s r' k"
    using kv_inv_link [OF inv l(2), of k] kd d rdef ne le t(6) com p'
    by (auto simp: link_ok_def r'_def shortened_request_def Let_def)
qed

lemma free_ok_push:
  assumes inv: "kv_inv p" and i: "i < kv_page_limit p" "pg_state (kv_pages p ! i) \<noteq> Free"
    and st: "pg_state g = Free" and room: "kv_free_len p < kv_page_limit p"
    and p': "kv_free_len p' = kv_free_len p + 1" "kv_free_stack p' = (kv_free_stack p)[kv_free_len p := i]"
      "kv_free_bitmap p' = (kv_free_bitmap p)[i := True]"
      "kv_pages p' = (kv_pages p)[i := g]" "kv_page_limit p' = kv_page_limit p"
  shows "free_ok p'"
proof -
  note sh = kv_shape [OF inv]
  from kv_inv_free [OF inv] have f: "free_ok p" .
  have tk: "take (kv_free_len p') (kv_free_stack p') = take (kv_free_len p) (kv_free_stack p) @ [i]"
    using p' room sh by (simp add: take_Suc_update)
  have pg: "kv_pages p' ! j = (if j = i then g else kv_pages p ! j)" if "j < kv_page_limit p" for j
    using that p' sh i by auto
  have "set (take (kv_free_len p') (kv_free_stack p'))
       = {j. j < kv_page_limit p' \<and> pg_state (kv_pages p' ! j) = Free}"
    unfolding tk using f i st pg p'(5) by (auto simp: free_ok_def split: if_splits)
  moreover have "distinct (take (kv_free_len p') (kv_free_stack p'))"
    unfolding tk using f i by (auto simp: free_ok_def)
  moreover have "kv_free_bitmap p' ! j = (pg_state (kv_pages p' ! j) = Free)" if "j < kv_page_limit p" for j
    using that f sh st pg [OF that] p'(3) by (cases "j = i") (auto simp: free_ok_def)
  ultimately show ?thesis
    using f p' room by (simp add: free_ok_def)
qed

lemma dropped_pool_inv:
  assumes inv: "kv_inv p" and live: "live_at p q s r" and c: "0 < rq_page_count r"
    and com: "committed \<le> (rq_page_count r - 1) * kv_page_tokens p"
      "min (rq_committed_tokens r) ((rq_page_count r - 1) * kv_page_tokens p) \<le> committed"
    and gen: "pg_generation (kv_pages p ! pid_index (tail_page r)) < U32_MAX"
    and sole: "\<And>u. u < MAX_REQUEST_SLOTS \<Longrightarrow> u \<noteq> s \<Longrightarrow> pid_index (tail_page r) \<notin> owned (kv_requests p ! u)"
  shows "kv_inv (dropped_pool p s committed)"
proof -
  note sh = kv_shape [OF inv] and l = live_atD [OF inv live] and t = tail_link [OF inv live c]
  note rdef = l(5) [symmetric] and room = free_len_room [OF inv live c]
  let ?i = "pid_index (tail_page r)" and ?p = "dropped_pool p s committed"
  let ?r = "shortened_request r ((rq_page_count r - 1) * kv_page_tokens p) committed"
  let ?g = "freed_page (kv_pages p ! ?i)"
  note f = shortened_facts [OF inv live c com]
  have st: "pg_state (kv_pages p ! ?i) \<noteq> Free"
    using t(1) by (auto simp: link_ok_def tail_page_def Let_def)
  have rr: "rq_resident_tokens r - pg_initialized_tokens (kv_pages p ! ?i)
      = (rq_page_count r - 1) * kv_page_tokens p" using t(5,6) by simp
  show ?thesis
  proof (rule kv_inv_update [where r' = ?r and g' = ?g, OF inv l(2) t(2)])
    show "shape_ok ?p" using sh by (simp add: shape_ok_def dropped_pool_def Let_def)
    show "request_ok p ?r" "distinct (map pid_index (chain ?r))" by (rule f)+
    show "link_ok ?p s ?r k" if "k < rq_page_count ?r" for k
      by (rule f(5) [OF that, where g = ?g]) (use rdef in \<open>simp_all add: dropped_pool_def Let_def\<close>)
    show "free_ok ?p"
      by (rule free_ok_push [OF inv t(2) st _ room(1), where g = ?g])
         (use rdef in \<open>simp_all add: dropped_pool_def freed_page_def Let_def\<close>)
    fix u k assume "u < MAX_REQUEST_SLOTS" "u \<noteq> s" "k < rq_page_count (kv_requests p ! u)"
      "pid_index (rq_pages (kv_requests p ! u) ! k) = ?i"
    then show "link_ok ?p u (kv_requests p ! u) k"
      using sole owned_iff [OF kv_inv_shape [OF inv] kv_inv_request [OF inv]] by blast
  qed (use rdef rr f(4) sole gen kv_inv_page [OF inv t(2)] in
      \<open>auto simp: dropped_pool_def page_ok_def freed_page_def Let_def\<close>)
qed

lemma detached_pool_inv:
  assumes inv: "kv_inv p" and live: "live_at p q s r" and c: "0 < rq_page_count r"
    and com: "committed \<le> (rq_page_count r - 1) * kv_page_tokens p"
      "min (rq_committed_tokens r) ((rq_page_count r - 1) * kv_page_tokens p) \<le> committed"
    and shared: "\<exists>u < MAX_REQUEST_SLOTS. u \<noteq> s \<and> pid_index (tail_page r) \<in> owned (kv_requests p ! u)"
  shows "kv_inv (detached_pool p s committed)"
proof -
  note sh = kv_shape [OF inv] and l = live_atD [OF inv live] and t = tail_link [OF inv live c]
  note rdef = l(5) [symmetric]
  let ?i = "pid_index (tail_page r)" and ?p = "detached_pool p s committed"
  let ?r = "shortened_request r ((rq_page_count r - 1) * kv_page_tokens p) committed"
  let ?g = "(kv_pages p ! ?i)\<lparr>pg_reference_mask := pg_reference_mask (kv_pages p ! ?i) AND NOT (slot_bit s)\<rparr>"
  note f = shortened_facts [OF inv live c com]
  have own: "?i \<in> owned r" using f(2) by (auto simp: owned_def)
  have nw: "pg_state (kv_pages p ! ?i) \<noteq> Writable u" for u
    using writable_owned [OF inv t(2)] shared own l(2) rdef by blast
  then have st: "pg_state (kv_pages p ! ?i) = Sealed"
    using t(1) by (auto simp: link_ok_def tail_page_def Let_def)
  have mk: "pg_reference_mask ?g \<noteq> 0" using other_reference_iff [OF inv l(2) t(2)] shared by simp
  have rr: "rq_resident_tokens r - pg_initialized_tokens (kv_pages p ! ?i)
      = (rq_page_count r - 1) * kv_page_tokens p" using t(5,6) by simp
  show ?thesis
  proof (rule kv_inv_update [where r' = ?r and g' = ?g, OF inv l(2) t(2)])
    show "shape_ok ?p" using sh by (simp add: shape_ok_def detached_pool_def Let_def)
    show "request_ok p ?r" "distinct (map pid_index (chain ?r))" by (rule f)+
    show "link_ok ?p s ?r k" if "k < rq_page_count ?r" for k
      by (rule f(5) [OF that, where g = ?g]) (use rdef in \<open>simp_all add: detached_pool_def Let_def\<close>)
    show "free_ok ?p" using kv_inv_free [OF inv] t(2,3) rdef
      by (auto simp: free_ok_def detached_pool_def Let_def nth_list_update)
    show "bit (pg_reference_mask ?g) u \<longleftrightarrow> ?i \<in> owned (if u = s then ?r else kv_requests p ! u)"
      if "u < MAX_REQUEST_SLOTS" for u
      using that kv_inv_mask [OF inv t(2)] f(4) l(4) by (auto simp: bit_clear_reference)
    fix u k assume "u < MAX_REQUEST_SLOTS" "u \<noteq> s" and k: "k < rq_page_count (kv_requests p ! u)"
      "pid_index (rq_pages (kv_requests p ! u) ! k) = ?i"
    then show "link_ok ?p u (kv_requests p ! u) k"
      using kv_inv_link [OF inv _ k(1)] st t(3) rdef
      by (auto simp: link_ok_def detached_pool_def Let_def)
  qed (use rdef rr f(4) st mk kv_inv_page [OF inv t(2)] in
      \<open>auto simp: detached_pool_def page_ok_def Let_def\<close>)
qed

subsection \<open>Sharing one page\<close>

text \<open>The next page of the source goes to the target, which so far holds a prefix of the pages of
  the source.\<close>

definition shared_page :: "page_slot \<Rightarrow> nat \<Rightarrow> page_slot" where
  "shared_page g t = g\<lparr>pg_state := Sealed, pg_reference_mask := pg_reference_mask g OR slot_bit t\<rparr>"

definition shared_request :: "u32 \<Rightarrow> request_slot \<Rightarrow> page_id \<Rightarrow> request_slot" where
  "shared_request pt r q =
     r\<lparr>rq_pages := (rq_pages r)[rq_page_count r := q], rq_page_count := rq_page_count r + 1,
       rq_resident_tokens := rq_resident_tokens r + pt, rq_committed_tokens := rq_committed_tokens r + pt\<rparr>"

definition shared_pool :: "kv_pool \<Rightarrow> nat \<Rightarrow> nat \<Rightarrow> kv_pool" where
  "shared_pool p s t =
     (let r = kv_requests p ! t; q = rq_pages (kv_requests p ! s) ! rq_page_count r in
      p\<lparr>kv_pages := (kv_pages p)[pid_index q := shared_page (kv_pages p ! pid_index q) t],
        kv_requests := (kv_requests p)[t := shared_request (kv_page_tokens p) r q]\<rparr>)"

definition sharing :: "kv_pool \<Rightarrow> nat \<Rightarrow> nat \<Rightarrow> bool" where
  "sharing p s t = (s < MAX_REQUEST_SLOTS \<and> t < MAX_REQUEST_SLOTS \<and> s \<noteq> t
     \<and> rq_live (kv_requests p ! s) \<and> rq_live (kv_requests p ! t)
     \<and> rq_resident_tokens (kv_requests p ! t) = rq_page_count (kv_requests p ! t) * kv_page_tokens p
     \<and> rq_committed_tokens (kv_requests p ! t) = rq_resident_tokens (kv_requests p ! t)
     \<and> Suc (rq_page_count (kv_requests p ! t)) * kv_page_tokens p \<le> rq_committed_tokens (kv_requests p ! s)
     \<and> chain (kv_requests p ! t) = take (rq_page_count (kv_requests p ! t)) (chain (kv_requests p ! s)))"

lemma sharing_facts:
  assumes inv: "kv_inv p" and sh: "sharing p s t"
  defines "k \<equiv> rq_page_count (kv_requests p ! t)"
  defines "i \<equiv> pid_index (rq_pages (kv_requests p ! s) ! k)"
  shows "k < rq_page_count (kv_requests p ! s)" "link_ok p s (kv_requests p ! s) k"
    "i < kv_page_limit p" "pg_initialized_tokens (kv_pages p ! i) = kv_page_tokens p"
    "k < MAX_PAGES_PER_REQUEST" "i \<notin> owned (kv_requests p ! t)" "i \<in> owned (kv_requests p ! s)"
    "pg_state (kv_pages p ! i) = Writable s \<or> pg_state (kv_pages p ! i) = Sealed"
proof -
  from sh have st: "s < MAX_REQUEST_SLOTS" "t < MAX_REQUEST_SLOTS" by (auto simp: sharing_def)
  note shp = kv_inv_shape [OF inv] and rs = kv_inv_request [OF inv st(1)]
  have c: "Suc k * kv_page_tokens p \<le> rq_committed_tokens (kv_requests p ! s)"
    using sh by (simp add: sharing_def k_def)
  with rs have "Suc k * kv_page_tokens p \<le> rq_page_count (kv_requests p ! s) * kv_page_tokens p"
    by (simp add: request_ok_def)
  then show k: "k < rq_page_count (kv_requests p ! s)"
    using shape_okD(1) [OF shp] by (subst (asm) mult_le_cancel2) auto
  then show lk: "link_ok p s (kv_requests p ! s) k" by (rule kv_inv_link [OF inv st(1)])
  then show "i < kv_page_limit p" by (simp add: link_ok_def i_def Let_def)
  show "pg_initialized_tokens (kv_pages p ! i) = kv_page_tokens p"
    using lk c rs by (auto simp: link_ok_def i_def Let_def request_ok_def min_def)
  show "k < MAX_PAGES_PER_REQUEST" using k page_count_bound [OF shp rs] by simp
  show "pg_state (kv_pages p ! i) = Writable s \<or> pg_state (kv_pages p ! i) = Sealed"
    using lk by (auto simp: link_ok_def i_def Let_def)
  show "i \<in> owned (kv_requests p ! s)" using owned_iff [OF shp rs] k i_def by blast
  have d: "distinct (map pid_index (chain (kv_requests p ! s)))" by (rule kv_inv_distinct [OF inv st(1)])
  have "pid_index (chain (kv_requests p ! s) ! k)
      \<notin> set (map pid_index (take k (chain (kv_requests p ! s))))"
    using d k length_chain [OF shp rs]
    by (metis distinct_take length_map nth_map not_distinct_conv_prefix take_map take_Suc_conv_app_nth
        distinct_append disjoint_insert(1) list.set_intros(1) Int_iff empty_iff)
  then show "i \<notin> owned (kv_requests p ! t)"
    using sh k by (simp add: owned_def sharing_def i_def k_def chain_nth)
qed

lemma share_next_page_eq:
  assumes inv: "kv_inv p" and sh: "sharing p s t"
  shows "share_next_page p s t t (rq_page_count (kv_requests p ! t)) = Some (shared_pool p s t)"
proof -
  note f = sharing_facts [OF assms] and shp = kv_shape [OF inv]
  from sh have st: "s < MAX_REQUEST_SLOTS" "t < MAX_REQUEST_SLOTS" by (auto simp: sharing_def)
  note rs = kv_inv_request [OF inv st(1)] and rt = kv_inv_request [OF inv st(2)]
  have le: "rq_resident_tokens (kv_requests p ! t) + kv_page_tokens p \<le> U32_MAX"
    "rq_committed_tokens (kv_requests p ! t) + kv_page_tokens p \<le> U32_MAX"
    using sh rs shp(3) by (auto simp: sharing_def request_ok_def)
  have "rq_page_count (kv_requests p ! t) + 1 \<le> U32_MAX" using f(5) by (simp add: kv_bounds)
  then show ?thesis
    using f(1-5,8) st shp le rs rt
    by (auto simp: share_next_page_def shared_pool_def shared_page_def shared_request_def Let_def
        exec_simps request_ok_def MAX_REQUEST_SLOTS_def)
qed

lemma shared_pool_inv:
  assumes inv: "kv_inv p" and sh: "sharing p s t"
  shows "kv_inv (shared_pool p s t)"
proof -
  from sh have st: "s < MAX_REQUEST_SLOTS" "t < MAX_REQUEST_SLOTS" "s \<noteq> t" by (auto simp: sharing_def)
  note f = sharing_facts [OF assms] and shp = kv_shape [OF inv] and S = kv_inv_shape [OF inv]
  note rs = kv_inv_request [OF inv st(1)] and rt = kv_inv_request [OF inv st(2)]
  let ?t = "kv_requests p ! t" and ?s = "kv_requests p ! s"
  let ?k = "rq_page_count ?t"
  let ?q = "rq_pages ?s ! ?k"
  let ?i = "pid_index ?q"
  let ?r = "shared_request (kv_page_tokens p) ?t ?q"
  let ?g = "shared_page (kv_pages p ! ?i) t"
  let ?p = "shared_pool p s t"
  have t32: "t < 32" using st(2) by (simp add: MAX_REQUEST_SLOTS_def)
  have pg: "kv_pages ?p = (kv_pages p)[?i := ?g]" by (simp add: shared_pool_def Let_def)
  have len: "length (rq_pages ?t) = MAX_PAGES_PER_REQUEST" using rt by (simp add: request_ok_def)
  have ch: "chain ?r = chain ?t @ [?q]"
    using f(5) len by (simp add: chain_def shared_request_def take_Suc_update)
  have lk: "link_ok ?p t ?r k" if k: "k < rq_page_count ?r" for k
  proof (cases "k = ?k")
    case True
    then show ?thesis using f(2-5) len pg shp sh
      by (auto simp: link_ok_def shared_request_def shared_page_def shared_pool_def Let_def sharing_def)
  next
    case False
    with k have k: "k < ?k" by (simp add: shared_request_def)
    then have "pid_index (rq_pages ?t ! k) \<noteq> ?i" using f(6) owned_iff [OF S rt] by blast
    moreover have "Suc k * kv_page_tokens p \<le> ?k * kv_page_tokens p" using k by (intro mult_le_mono1) simp
    ultimately show ?thesis using kv_inv_link [OF inv st(2) k] k sh pg
      by (auto simp: link_ok_def shared_request_def shared_pool_def Let_def sharing_def)
  qed
  have oth: "link_ok ?p u (kv_requests p ! u) k"
    if u: "u < MAX_REQUEST_SLOTS" "u \<noteq> t" "k < rq_page_count (kv_requests p ! u)"
      and i: "pid_index (rq_pages (kv_requests p ! u) ! k) = ?i" for u k
  proof (cases "u = s")
    case True
    have "k = ?k" using chain_index_inj [OF S rs kv_inv_distinct [OF inv st(1)]] u i True f(1) by simp
    then show ?thesis using True f(2-4) pg shp sh
      by (auto simp: link_ok_def shared_page_def shared_pool_def Let_def sharing_def)
  next
    case False
    have "?i \<in> owned (kv_requests p ! u)" using owned_iff [OF S kv_inv_request [OF inv u(1)]] u i by blast
    then have "pg_state (kv_pages p ! ?i) = Sealed"
      using writable_owned [OF inv f(3) _ u(1)] f(8) False by blast
    then show ?thesis using kv_inv_link [OF inv u(1,3)] i f(3) pg shp
      by (auto simp: link_ok_def shared_page_def shared_pool_def Let_def)
  qed
  have ne0: "pg_reference_mask ?g \<noteq> 0"
    unfolding word_nonzero_iff using t32 bit_set_reference [OF t32] by (auto simp: shared_page_def)
  show ?thesis
  proof (rule kv_inv_update [where r' = ?r and g' = ?g, OF inv st(2) f(3)])
    show "shape_ok ?p" using shp by (simp add: shape_ok_def shared_pool_def Let_def)
    show "request_ok p ?r" using rt rs sh by (auto simp: request_ok_def shared_request_def sharing_def)
    show "distinct (map pid_index (chain ?r))"
      using ch kv_inv_distinct [OF inv st(2)] f(6) by (simp add: owned_def)
    show "\<And>k. k < rq_page_count ?r \<Longrightarrow> link_ok ?p t ?r k" by (rule lk)
    show "free_ok ?p" using kv_inv_free [OF inv] f(3,8) shp
      by (auto simp: free_ok_def shared_pool_def shared_page_def Let_def nth_list_update)
    show "bit (pg_reference_mask ?g) u \<longleftrightarrow> ?i \<in> owned (if u = t then ?r else kv_requests p ! u)"
      if "u < MAX_REQUEST_SLOTS" for u
      using that kv_inv_mask [OF inv f(3)] ch t32 by (auto simp: shared_page_def bit_set_reference owned_def)
    show "page_ok (kv_page_tokens p) ?g"
      using kv_inv_page [OF inv f(3)] f(4) ne0 by (simp add: page_ok_def shared_page_def)
  qed (use oth ch in \<open>auto simp: shared_pool_def owned_def Let_def\<close>)
qed

end
