(* ===== verification/KvPool_Ops.thy ===== *)
theory KvPool_Ops
  imports KvPool_Primitives
begin

text \<open>
  The loops and the public operations of \<open>KvPool\<close>: each operation is equated with a decision
  function that says which error it reports, and its successful result is described by what
  happened to the one request it names.
\<close>

subsection \<open>Rounding up to whole pages\<close>

definition pages_for :: "u32 \<Rightarrow> u32 \<Rightarrow> nat" where
  "pages_for pt tokens = (tokens + pt - 1) div pt"

lemma pages_for_unique:
  assumes "0 < pt" "t \<le> c * pt" "c * pt < t + pt"
  shows "pages_for pt t = c"
proof -
  have "t + pt - 1 = c * pt + (t + pt - 1 - c * pt)" and "t + pt - 1 - c * pt < pt"
    using assms by auto
  then show ?thesis unfolding pages_for_def
    by (metis Euclidean_Rings.div_eq_0_iff add_cancel_left_right div_mult_self3 less_nat_zero_code mult.commute)
qed

lemma request_pages:
  "shape_ok p \<Longrightarrow> request_ok p r \<Longrightarrow> rq_page_count r = pages_for (kv_page_tokens p) (rq_resident_tokens r)"
  by (rule pages_for_unique [symmetric]) (auto simp: request_ok_def shape_ok_def)

lemma pages_for_split:
  assumes "0 < pt"
  obtains d m where "t = d * pt + m" "m < pt" "t div pt = d" "t mod pt = m"
    "pages_for pt t = (if m = 0 then d else d + 1)"
proof -
  obtain d m where t: "t = d * pt + m" "m < pt" "t div pt = d" "t mod pt = m"
    using assms by (metis div_mult_mod_eq mod_less_divisor)
  have "pages_for pt t = (if m = 0 then d else d + 1)"
    by (rule pages_for_unique) (use assms t(1,2) in auto)
  with t show ?thesis by (rule that)
qed

lemma pages_for_div: "0 < pt \<Longrightarrow> t div pt + min (t mod pt) 1 = pages_for pt t"
  by (rule pages_for_split [of pt t]) auto

lemma pages_for_add: "0 < pt \<Longrightarrow> pages_for pt (c * pt + t) = c + pages_for pt t"
  by (simp flip: pages_for_div)

lemma pages_for_le: "0 < pt \<Longrightarrow> t \<le> c * pt \<Longrightarrow> pages_for pt t \<le> c"
  unfolding pages_for_def by (rule less_Suc_eq_le [THEN iffD1]) (auto simp: div_less_iff_less_mult)

lemma pages_for_bounds:
  assumes "0 < pt"
  shows "t \<le> pages_for pt t * pt" "pages_for pt t * pt < t + pt"
  by (rule pages_for_split [OF assms, of t]; auto)+

subsection \<open>Appending\<close>

definition same_config :: "kv_pool \<Rightarrow> kv_pool \<Rightarrow> bool" where
  "same_config p p' = (kv_page_tokens p' = kv_page_tokens p
     \<and> kv_max_context_tokens p' = kv_max_context_tokens p \<and> kv_page_limit p' = kv_page_limit p)"

text \<open>Only slot \<open>s\<close> differs between the request tables.\<close>

definition only_slot :: "kv_pool \<Rightarrow> kv_pool \<Rightarrow> nat \<Rightarrow> bool" where
  "only_slot p p' s = (kv_requests p' = (kv_requests p)[s := kv_requests p' ! s])"

definition appended :: "kv_pool \<Rightarrow> kv_pool \<Rightarrow> nat \<Rightarrow> u32 \<Rightarrow> bool" where
  "appended p p' s n =
     (let r = kv_requests p ! s; r' = kv_requests p' ! s in
        same_config p p' \<and> only_slot p p' s
      \<and> rq_live r' = rq_live r \<and> rq_generation r' = rq_generation r
      \<and> rq_committed_tokens r' = rq_committed_tokens r
      \<and> rq_resident_tokens r' = rq_resident_tokens r + n
      \<and> (\<exists>cs. chain r' = chain r @ cs \<and> kv_free_len p = kv_free_len p' + length cs
            \<and> (\<forall>q \<in> set cs. pg_state (kv_pages p ! pid_index q) = Free))
      \<and> (\<forall>i. pg_state (kv_pages p' ! i) = Free \<longrightarrow> pg_state (kv_pages p ! i) = Free))"

lemma appended_refl: "appended p p s 0"
  by (simp add: appended_def same_config_def only_slot_def Let_def)

lemma appended_trans:
  assumes "appended p p1 s a" "appended p1 p2 s b" "c = a + b"
  shows "appended p p2 s c"
proof -
  from assms(1) obtain cs where 1: "chain (kv_requests p1 ! s) = chain (kv_requests p ! s) @ cs"
    "kv_free_len p = kv_free_len p1 + length cs" "\<forall>q \<in> set cs. pg_state (kv_pages p ! pid_index q) = Free"
    by (auto simp: appended_def Let_def)
  from assms(2) obtain ds where 2: "chain (kv_requests p2 ! s) = chain (kv_requests p1 ! s) @ ds"
    "kv_free_len p1 = kv_free_len p2 + length ds" "\<forall>q \<in> set ds. pg_state (kv_pages p1 ! pid_index q) = Free"
    by (auto simp: appended_def Let_def)
  have fr: "\<forall>i. pg_state (kv_pages p1 ! i) = Free \<longrightarrow> pg_state (kv_pages p ! i) = Free"
    using assms(1) by (simp add: appended_def Let_def)
  have "only_slot p p2 s" using assms(1,2)
    by (metis (mono_tags, lifting) appended_def list_update_overwrite only_slot_def)
  moreover have "chain (kv_requests p2 ! s) = chain (kv_requests p ! s) @ cs @ ds"
    "kv_free_len p = kv_free_len p2 + length (cs @ ds)"
    "\<forall>q \<in> set (cs @ ds). pg_state (kv_pages p ! pid_index q) = Free"
    using 1 2 fr by auto
  ultimately show ?thesis using assms(1,2) \<open>c = a + b\<close>
    unfolding appended_def Let_def same_config_def by auto
qed

lemma appended_live:
  assumes "live_at p q s r" "appended p p' s n" "kv_inv p"
  shows "live_at p' q s (kv_requests p' ! s)"
  using assms by (auto simp: live_at_def appended_def Let_def)

lemma fresh_pool_appended:
  assumes inv: "kv_inv p" and live: "live_at p q s r" and free: "0 < kv_free_len p"
    and room: "rq_page_count r < MAX_PAGES_PER_REQUEST"
  shows "appended p (fresh_pool p s w) s w"
proof -
  note l = live_atD [OF inv live] and fi = fresh_index_free [OF inv free] and sh = kv_shape [OF inv]
  have "kv_requests (fresh_pool p s w) ! s = fresh_request p r w"
    using l by (simp add: fresh_pool_def)
  moreover have "chain (fresh_request p r w) = chain r @
      [\<lparr>pid_index = fresh_index p, pid_generation = pg_generation (kv_pages p ! fresh_index p)\<rparr>]"
    using room l(9) by (simp add: chain_def fresh_request_def take_Suc_update)
  moreover have "pg_state (kv_pages (fresh_pool p s w) ! i) = Free \<longrightarrow> pg_state (kv_pages p ! i) = Free" for i
    using fi sh by (cases "i = fresh_index p") (auto simp: fresh_pool_def fresh_page_def)
  moreover have "only_slot p (fresh_pool p s w) s"
    using l(3) by (simp add: only_slot_def fresh_pool_def)
  ultimately show ?thesis using l(5) [symmetric] fi free
    by (auto simp: appended_def same_config_def fresh_request_def Let_def)
       (auto simp: fresh_pool_def)
qed

lemma retail_pool_appended:
  assumes inv: "kv_inv p" and live: "live_at p q s r" and c: "0 < rq_page_count r"
  shows "appended p (retail_pool p s n (rq_resident_tokens r + w)) s w"
proof -
  note l = live_atD [OF inv live] and t = tail_link [OF inv live c]
  let ?p = "retail_pool p s n (rq_resident_tokens r + w)"
  have "kv_requests ?p ! s = r\<lparr>rq_resident_tokens := rq_resident_tokens r + w\<rparr>"
    using l by (simp add: retail_pool_def Let_def)
  moreover have "pg_state (kv_pages ?p ! i) = pg_state (kv_pages p ! i)" for i
    using t(3) l(5) by (cases "i = pid_index (tail_page r)") (auto simp: retail_pool_def Let_def)
  moreover have "only_slot p ?p s" using l(3) by (simp add: only_slot_def retail_pool_def Let_def)
  moreover have "same_config p ?p" "kv_free_len ?p = kv_free_len p"
    by (simp_all add: same_config_def retail_pool_def Let_def)
  ultimately show ?thesis using l(5) [symmetric] by (simp add: appended_def chain_def Let_def)
qed

lemma append_fresh_pages_ok:
  assumes "kv_inv p" "live_at p q s r" "rq_resident_tokens r = rq_page_count r * kv_page_tokens p"
    "m \<le> n * kv_page_tokens p" "n * kv_page_tokens p < m + kv_page_tokens p"
    "n \<le> kv_free_len p" "rq_resident_tokens r + m \<le> kv_max_context_tokens p"
  shows "\<exists>p'. append_fresh_pages n p q s m = Some p' \<and> kv_inv p' \<and> appended p p' s m"
  using assms
proof (induction n arbitrary: p r m)
  case 0
  then show ?case by (auto simp: appended_refl)
next
  case (Suc n)
  note inv = Suc.prems(1) and live = Suc.prems(2) and full = Suc.prems(3)
  note l = live_atD [OF inv live] and sh = kv_shape [OF inv]
  let ?pt = "kv_page_tokens p"
  let ?w = "min m ?pt"
  let ?p = "fresh_pool p s ?w"
  have w: "0 < ?w" "?w \<le> ?pt" using Suc.prems(5) sh(1) by auto
  have free: "0 < kv_free_len p" using Suc.prems(6) by simp
  have ctx: "rq_resident_tokens r + ?w \<le> kv_max_context_tokens p" using Suc.prems(7) by simp
  have room: "rq_page_count r < MAX_PAGES_PER_REQUEST"
  proof (rule ccontr)
    assume "\<not> ?thesis"
    then have "MAX_PAGES_PER_REQUEST * ?pt \<le> rq_page_count r * ?pt" by simp
    with sh(4) full w ctx show False by linarith
  qed
  have eq: "append_fresh_page p q s ?w = Some ?p"
    using append_fresh_page_eq [OF inv live free room] ctx sh(3) by simp
  have inv': "kv_inv ?p" by (rule fresh_pool_inv [OF inv live free full w ctx])
  have app: "appended p ?p s ?w" by (rule fresh_pool_appended [OF inv live free room])
  let ?r = "kv_requests ?p ! s"
  have live': "live_at ?p q s ?r" by (rule appended_live [OF live app inv])
  have r': "?r = fresh_request p r ?w" "kv_page_tokens ?p = ?pt" "kv_free_len ?p = kv_free_len p - 1"
    "kv_max_context_tokens ?p = kv_max_context_tokens p"
    using l by (simp_all add: fresh_pool_def)
  have "\<exists>p'. append_fresh_pages n ?p q s (m - ?w) = Some p' \<and> kv_inv p' \<and> appended ?p p' s (m - ?w)"
  proof (cases "n = 0")
    case True
    then have "m - ?w = 0" using Suc.prems(4) by simp
    then show ?thesis using True inv' appended_refl by auto
  next
    case False
    then have "?pt \<le> n * ?pt" by (cases n) auto
    then have "?pt \<le> m" using Suc.prems(5) unfolding mult_Suc by linarith
    then have "?w = ?pt" by simp
    then show ?thesis using Suc.prems r' full by (intro Suc.IH [OF inv' live']) (auto simp: fresh_request_def)
  qed
  then obtain p' where "append_fresh_pages n ?p q s (m - ?w) = Some p'" "kv_inv p'" "appended ?p p' s (m - ?w)"
    by blast
  moreover from this app have "appended p p' s m" by (intro appended_trans [of p ?p s ?w p' "m - ?w"]) auto
  ultimately show ?case using eq by (auto simp: exec_simps Let_def)
qed

definition append_decision :: "kv_pool \<Rightarrow> request_key \<Rightarrow> u32 \<Rightarrow> kv_error option" where
  "append_decision p q n =
     (case key_decision p q of
        Some e \<Rightarrow> Some e
      | None \<Rightarrow>
          let r = kv_requests p ! key_slot q; resident = rq_resident_tokens r + n in
          if kv_max_context_tokens p < resident then Some ContextExceeded
          else if kv_free_len p < pages_for (kv_page_tokens p) resident - rq_page_count r
          then Some OutOfPages
          else None)"

text \<open>What the tail page can still take, and the pages needed beyond it.\<close>

lemma append_tail_ok:
  assumes inv: "kv_inv p" and live: "live_at p q s r"
  obtains q' room where "append_tail p q r = Some (Inr (q', room))"
    "rq_resident_tokens r + room = rq_page_count r * kv_page_tokens p \<or> room = 0 \<and>
       rq_resident_tokens r = rq_page_count r * kv_page_tokens p"
    "0 < room \<Longrightarrow> 0 < rq_page_count r \<and> q' = tail_page r
       \<and> pg_state (kv_pages p ! pid_index (tail_page r)) = Writable s"
proof (cases "rq_page_count r = 0")
  case True
  then show ?thesis using live_atD(7) [OF assms]
    by (intro that [of PageId_EMPTY 0]) (auto simp: append_tail_def request_ok_def)
next
  case False
  then have c: "0 < rq_page_count r" by simp
  note l = live_atD [OF assms] and t = tail_link [OF assms c]
  let ?g = "kv_pages p ! pid_index (tail_page r)"
  obtain d where d: "rq_page_count r = Suc d" using c by (cases "rq_page_count r") auto
  have gen: "pg_generation ?g = pid_generation (tail_page r)"
    and st: "pg_state ?g = Writable s \<or> pg_state ?g = Sealed \<and> Suc d * kv_page_tokens p \<le> rq_committed_tokens r"
    using t(1) d by (auto simp: link_ok_def tail_page_def Let_def)
  have tp: "rq_pages r ! (rq_page_count r - Suc 0) = tail_page r" by (simp add: tail_page_def)
  have ps: "page_slot_of p (tail_page r) = Some (Inr ?g)"
    using t(2,3) gen by (simp add: page_slot_of_def exec_simps)
  have at: "append_tail p q r = (case pg_state ?g of Writable ow \<Rightarrow>
        if ow \<noteq> key_slot q then Some (Inl (InvariantViolation InvPageState))
        else do { room \<leftarrow> u_sub (kv_page_tokens p) (pg_initialized_tokens ?g); Some (Inr (tail_page r, room)) }
      | Sealed \<Rightarrow> Some (Inr (tail_page r, 0)) | Free \<Rightarrow> Some (Inl (InvariantViolation InvPageState)))"
    using c t(4) ps tp by (simp add: append_tail_def exec_simps)
  show ?thesis
  proof (cases "pg_state ?g = Writable s")
    case True
    then show ?thesis using at l(1) t(5-7) d c
      by (intro that [of "tail_page r" "kv_page_tokens p - pg_initialized_tokens ?g"]) (auto simp: exec_simps)
  next
    case False
    then show ?thesis using at st l(7) d
      by (intro that [of "tail_page r" 0]) (auto simp: request_ok_def)
  qed
qed

text \<open>Once the checks pass, the tail page is topped up and the remaining tokens go to fresh pages.\<close>

lemma append_commit_ok:
  assumes inv: "kv_inv p" and live: "live_at p q s r" and n: "0 < n"
    and ctx: "rq_resident_tokens r + n \<le> kv_max_context_tokens p"
    and room: "rq_resident_tokens r + room = rq_page_count r * kv_page_tokens p"
    and tail: "0 < room \<Longrightarrow> 0 < rq_page_count r \<and> q' = tail_page r
       \<and> pg_state (kv_pages p ! pid_index (tail_page r)) = Writable s"
    and free: "pages_for (kv_page_tokens p) (n - room) \<le> kv_free_len p"
  shows "\<exists>p1 p'. (if 0 < min n room then append_existing_page p s q' (min n room) else Some p) = Some p1
     \<and> append_fresh_pages (pages_for (kv_page_tokens p) (n - room)) p1 q s (n - min n room) = Some p'
     \<and> kv_inv p' \<and> appended p p' s n"
proof -
  let ?pt = "kv_page_tokens p" and ?t = "min n room"
  note l = live_atD [OF inv live] and sh = kv_shape [OF inv]
  have "\<exists>p1. (if 0 < ?t then append_existing_page p s q' ?t else Some p) = Some p1 \<and> kv_inv p1 \<and> appended p p1 s ?t
     \<and> rq_page_count (kv_requests p1 ! s) = rq_page_count r \<and> kv_free_len p1 = kv_free_len p"
  proof (cases "0 < ?t")
    case False
    then show ?thesis using inv appended_refl l(5) by auto
  next
    case True
    with tail have c: "0 < rq_page_count r" "q' = tail_page r"
      "pg_state (kv_pages p ! pid_index (tail_page r)) = Writable s" by auto
    note t = tail_link [OF inv live c(1)]
    let ?g = "kv_pages p ! pid_index (tail_page r)"
    let ?p = "retail_pool p s (pg_initialized_tokens ?g + ?t) (rq_resident_tokens r + ?t)"
    obtain d where d: "rq_page_count r = Suc d" using c by (cases "rq_page_count r") auto
    have "append_existing_page p s q' ?t = Some ?p"
      unfolding c(2) using ctx sh(3) t(5) by (intro append_existing_page_eq [OF inv live c(1)]) auto
    moreover have "kv_inv ?p"
      by (rule retail_pool_inv [OF inv live c(1,3)]) (use True t(5-7) d room ctx l(7) in \<open>auto simp: request_ok_def\<close>)
    moreover have "appended p ?p s ?t" by (rule retail_pool_appended [OF inv live c(1)])
    ultimately show ?thesis using True l by (auto simp: retail_pool_def Let_def)
  qed
  then obtain p1 where p1: "(if 0 < ?t then append_existing_page p s q' ?t else Some p) = Some p1" "kv_inv p1"
    "appended p p1 s ?t" "rq_page_count (kv_requests p1 ! s) = rq_page_count r" "kv_free_len p1 = kv_free_len p"
    by blast
  have cfg: "kv_page_tokens p1 = ?pt" "kv_max_context_tokens p1 = kv_max_context_tokens p"
    "rq_resident_tokens (kv_requests p1 ! s) = rq_resident_tokens r + ?t"
    using p1(3) l(5) by (auto simp: appended_def same_config_def Let_def)
  have "\<exists>p'. append_fresh_pages (pages_for ?pt (n - room)) p1 q s (n - ?t) = Some p' \<and> kv_inv p' \<and> appended p1 p' s (n - ?t)"
  proof (cases "n \<le> room")
    case True
    then have "pages_for ?pt (n - room) = 0" using sh(1) by (simp add: pages_for_def)
    then show ?thesis using True p1(2) appended_refl by (auto simp: min_def)
  next
    case False
    then show ?thesis
      using room ctx free p1(4,5) cfg pages_for_bounds [OF sh(1), of "n - room"]
      by (intro append_fresh_pages_ok [OF p1(2) appended_live [OF live p1(3) inv]]) auto
  qed
  then show ?thesis using p1 appended_trans [OF p1(3)] by fastforce
qed

theorem append_tentative_key_correct:
  assumes inv: "kv_inv p"
  shows "case append_decision p q n of
      Some e \<Rightarrow> append_tentative_key p q n = Some (Inl e, p)
    | None \<Rightarrow> \<exists>p'. append_tentative_key p q n = Some (Inr (), p') \<and> kv_inv p' \<and> appended p p' (key_slot q) n"
proof (cases "key_decision p q")
  case (Some e)
  then show ?thesis
    by (simp add: append_decision_def append_tentative_key_def live_request_index_eq [OF inv])
next
  case None
  define s where "s = key_slot q"
  define r where "r = kv_requests p ! s"
  let ?pt = "kv_page_tokens p"
  from None have live: "live_at p q s r" by (simp add: key_decision_None s_def r_def)
  note l = live_atD [OF inv live] and sh = kv_shape [OF inv]
  have start: "append_tentative_key p q n =
     (case u32_add (rq_resident_tokens r) n of None \<Rightarrow> Some (Inl ContextExceeded, p)
       | Some new_resident \<Rightarrow> if kv_max_context_tokens p < new_resident then Some (Inl ContextExceeded, p)
           else if n = 0 then Some (Inr (), p)
           else append_tentative_key p q n)"
    using None l sh by (auto simp: append_tentative_key_def live_request_index_eq [OF inv] exec_simps
        split: option.splits)
  consider (over) "kv_max_context_tokens p < rq_resident_tokens r + n"
    | (zero) "n = 0" "rq_resident_tokens r \<le> kv_max_context_tokens p"
    | (pos) "0 < n" "rq_resident_tokens r + n \<le> kv_max_context_tokens p"
    by linarith
  then show ?thesis
  proof cases
    case over
    then show ?thesis using None r_def s_def
      by (subst start) (auto simp: append_decision_def Let_def split: option.splits)
  next
    case zero
    then have "append_tentative_key p q n = Some (Inr (), p)"
      using sh(3) by (subst start) (auto simp: exec_simps)
    then show ?thesis using zero None r_def s_def inv request_pages [OF kv_inv_shape [OF inv] l(7)]
      by (auto simp: append_decision_def Let_def appended_refl)
  next
    case pos
    obtain q' room where tl: "append_tail p q r = Some (Inr (q', room))"
      and room: "rq_resident_tokens r + room = rq_page_count r * ?pt"
      and wr: "0 < room \<Longrightarrow> 0 < rq_page_count r \<and> q' = tail_page r
         \<and> pg_state (kv_pages p ! pid_index (tail_page r)) = Writable s"
      using append_tail_ok [OF inv live] by (metis add.right_neutral)
    define need where "need = pages_for ?pt (n - room)"
    have need: "pages_for ?pt (rq_resident_tokens r + n) - rq_page_count r = need"
      "rq_page_count r + need \<le> MAX_PAGES_PER_REQUEST"
    proof -
      have "pages_for ?pt (rq_resident_tokens r + n) = rq_page_count r + need"
      proof (cases "n \<le> room")
        case True
        then have "pages_for ?pt (rq_resident_tokens r + n) = rq_page_count r"
          using room l(7) sh(1) by (intro pages_for_unique) (auto simp: request_ok_def)
        then show ?thesis using True sh(1) by (simp add: need_def pages_for_def)
      next
        case False
        then have "rq_resident_tokens r + n = rq_page_count r * ?pt + (n - room)" using room by simp
        then show ?thesis using pages_for_add [OF sh(1)] by (simp add: need_def)
      qed
      moreover have "pages_for ?pt (rq_resident_tokens r + n) \<le> MAX_PAGES_PER_REQUEST"
        using pos sh(1,4) by (intro pages_for_le) auto
      ultimately show "pages_for ?pt (rq_resident_tokens r + n) - rq_page_count r = need"
        "rq_page_count r + need \<le> MAX_PAGES_PER_REQUEST" by simp_all
    qed
    have dv: "(n - room) div ?pt + min ((n - room) mod ?pt) 1 = need"
      using pages_for_div [OF sh(1)] by (simp add: need_def)
    have run: "append_tentative_key p q n =
       (if kv_free_len p < need then Some (Inl OutOfPages, p)
        else do { p1 \<leftarrow> (if 0 < min n room then append_existing_page p s q' (min n room) else Some p);
                  p2 \<leftarrow> append_fresh_pages need p1 q s (n - min n room); Some (Inr (), p2) })"
      using None l sh pos need(2) dv tl s_def
      by (simp add: append_tentative_key_def live_request_index_eq [OF inv] exec_simps Let_def kv_bounds
          u_add_def)
    show ?thesis
    proof (cases "kv_free_len p < need")
      case True
      then show ?thesis using run None need(1) pos r_def s_def
        by (simp add: append_decision_def Let_def)
    next
      case False
      then show ?thesis
        using append_commit_ok [OF inv live pos room wr] run None need(1) pos r_def s_def
        by (fastforce simp: append_decision_def Let_def need_def)
    qed
  qed
qed

end
