(* ===== verification/KvPool_Correct.thy ===== *)
theory KvPool_Correct
  imports KvPool_Ops
begin

text \<open>
  Sharing, committing, releasing and creating: the remaining operations of \<open>KvPool\<close>, again
  equated with decision functions and described by their effect on one request.
\<close>

subsection \<open>Sharing a committed prefix\<close>

definition prefix_shared :: "kv_pool \<Rightarrow> kv_pool \<Rightarrow> nat \<Rightarrow> nat \<Rightarrow> nat \<Rightarrow> bool" where
  "prefix_shared p p' s t n =
     (let r = kv_requests p ! t; r' = kv_requests p' ! t in
        same_config p p' \<and> only_slot p p' t \<and> kv_free_len p' = kv_free_len p
      \<and> rq_live r' = rq_live r \<and> rq_generation r' = rq_generation r
      \<and> rq_page_count r' = n \<and> rq_resident_tokens r' = n * kv_page_tokens p
      \<and> rq_committed_tokens r' = n * kv_page_tokens p
      \<and> chain r' = take n (chain (kv_requests p ! s)))"

lemma share_pages_ok:
  assumes "kv_inv p" "s < MAX_REQUEST_SLOTS" "t < MAX_REQUEST_SLOTS" "s \<noteq> t"
    "rq_live (kv_requests p ! s)" "rq_live (kv_requests p ! t)"
    "k = rq_page_count (kv_requests p ! t)"
    "rq_resident_tokens (kv_requests p ! t) = k * kv_page_tokens p"
    "rq_committed_tokens (kv_requests p ! t) = k * kv_page_tokens p"
    "chain (kv_requests p ! t) = take k (chain (kv_requests p ! s))"
    "(k + n) * kv_page_tokens p \<le> rq_committed_tokens (kv_requests p ! s)"
  shows "\<exists>p'. share_pages n p s t t k = Some p' \<and> kv_inv p' \<and> prefix_shared p p' s t (k + n)"
  using assms
proof (induction n arbitrary: p k)
  case 0
  then show ?case by (auto simp: prefix_shared_def same_config_def only_slot_def Let_def)
next
  case (Suc n)
  note inv = Suc.prems(1) and st = Suc.prems(2-4) and k = Suc.prems(7)
  let ?p = "shared_pool p s t"
  have "Suc k * kv_page_tokens p \<le> (k + Suc n) * kv_page_tokens p" by (intro mult_le_mono1) simp
  then have "Suc k * kv_page_tokens p \<le> rq_committed_tokens (kv_requests p ! s)"
    using Suc.prems(11) by (rule le_trans)
  then have sh: "sharing p s t" using Suc.prems(1-10) by (simp add: sharing_def)
  note f = sharing_facts [OF inv sh] and shp = kv_shape [OF inv]
  have eq: "share_next_page p s t t k = Some ?p" using share_next_page_eq [OF inv sh] k by simp
  have rt: "request_ok p (kv_requests p ! t)" by (rule kv_inv_request [OF inv st(2)])
  have r: "kv_requests ?p ! s = kv_requests p ! s"
    "kv_requests ?p ! t = shared_request (kv_page_tokens p) (kv_requests p ! t) (rq_pages (kv_requests p ! s) ! k)"
    "kv_page_tokens ?p = kv_page_tokens p"
    using st shp k by (auto simp: shared_pool_def Let_def)
  have "k < length (chain (kv_requests p ! s))"
    using f(1) k length_chain [OF kv_inv_shape [OF inv] kv_inv_request [OF inv st(1)]] by simp
  then have ch: "chain (kv_requests ?p ! t) = take (Suc k) (chain (kv_requests p ! s))"
    using r(2) f(1,5) k rt Suc.prems(10)
    by (simp add: chain_def shared_request_def take_Suc_update take_Suc_conv_app_nth request_ok_def)
  have "\<exists>p'. share_pages n ?p s t t (Suc k) = Some p' \<and> kv_inv p' \<and> prefix_shared ?p p' s t (Suc k + n)"
    by (rule Suc.IH [OF shared_pool_inv [OF inv sh]])
       (use Suc.prems r ch in \<open>auto simp: shared_request_def\<close>)
  then obtain p' where p': "share_pages n ?p s t t (Suc k) = Some p'" "kv_inv p'" "prefix_shared ?p p' s t (Suc k + n)"
    by blast
  have "only_slot p p' t" using p'(3) st shp
    by (simp add: prefix_shared_def only_slot_def shared_pool_def Let_def)
  with p'(3) have "prefix_shared p p' s t (k + Suc n)" using r
    by (simp add: prefix_shared_def same_config_def shared_request_def Let_def)
       (simp add: shared_pool_def Let_def)
  moreover have "k + 1 \<le> U32_MAX" using f(5) k by (simp add: kv_bounds)
  ultimately show ?case using eq p' by (auto simp: exec_simps)
qed

definition share_decision :: "kv_pool \<Rightarrow> request_key \<Rightarrow> request_key \<Rightarrow> u32 \<Rightarrow> kv_error option" where
  "share_decision p source target n =
     (case key_decision p source of
        Some e \<Rightarrow> Some e
      | None \<Rightarrow>
     (case key_decision p target of
        Some e \<Rightarrow> Some e
      | None \<Rightarrow>
          if key_slot source = key_slot target then Some SameRequestShare
          else if n = 0 \<or> n mod kv_page_tokens p \<noteq> 0 then Some PrefixNotPageAligned
          else if rq_committed_tokens (kv_requests p ! key_slot source) < n then Some PrefixExceedsCommitted
          else if rq_resident_tokens (kv_requests p ! key_slot target) \<noteq> 0 then Some TargetNotEmpty
          else None))"

theorem share_committed_prefix_key_correct:
  assumes inv: "kv_inv p" and n: "n \<le> U32_MAX"
  shows "case share_decision p source target n of
      Some e \<Rightarrow> share_committed_prefix_key p source target n = Some (Inl e, p)
    | None \<Rightarrow> \<exists>p'. share_committed_prefix_key p source target n = Some (Inr (), p') \<and> kv_inv p'
        \<and> prefix_shared p p' (key_slot source) (key_slot target) (n div kv_page_tokens p)"
proof (cases "key_decision p source = None \<and> key_decision p target = None")
  case False
  then show ?thesis
    by (auto simp: share_decision_def share_committed_prefix_key_def live_request_index_eq [OF inv]
        split: option.splits)
next
  case True
  define s t where "s = key_slot source" and "t = key_slot target"
  let ?pt = "kv_page_tokens p"
  note sh = kv_shape [OF inv] and S = kv_inv_shape [OF inv]
  from True have ls: "live_at p source s (kv_requests p ! s)" and lt: "live_at p target t (kv_requests p ! t)"
    by (auto simp: key_decision_None s_def t_def)
  note l = live_atD [OF inv ls] and m = live_atD [OF inv lt]
  have al: "n div ?pt * ?pt = n \<longleftrightarrow> n mod ?pt = 0"
    by (metis add.right_neutral add_left_cancel div_mult_mod_eq)
  have ov: "n div ?pt * ?pt \<le> U32_MAX" using n div_times_less_eq_dividend le_trans by blast
  have run: "share_committed_prefix_key p source target n =
     (if s = t then Some (Inl SameRequestShare, p)
      else if n = 0 \<or> n mod ?pt \<noteq> 0 then Some (Inl PrefixNotPageAligned, p)
      else if rq_committed_tokens (kv_requests p ! s) < n then Some (Inl PrefixExceedsCommitted, p)
      else if rq_resident_tokens (kv_requests p ! t) \<noteq> 0 then Some (Inl TargetNotEmpty, p)
      else if MAX_PAGES_PER_REQUEST < n div ?pt then Some (Inl RequestPageTableFull, p)
      else do { p' \<leftarrow> share_pages (n div ?pt) p s t t 0; Some (Inr (), p') })"
    unfolding share_committed_prefix_key_def live_request_index_eq [OF inv]
    using True s_def t_def l(3) m(3) by (simp add: u_div_ok [OF sh(1)] u_mul_ok [OF ov] idx_ok al)
  show ?thesis
  proof (cases "share_decision p source target n")
    case (Some e)
    then show ?thesis unfolding run using True
      by (auto simp: share_decision_def s_def t_def split: if_splits)
  next
    case None
    then have d: "s \<noteq> t" "n \<noteq> 0" "n mod ?pt = 0" "n \<le> rq_committed_tokens (kv_requests p ! s)"
      "rq_resident_tokens (kv_requests p ! t) = 0"
      using True by (auto simp: share_decision_def s_def t_def split: if_splits)
    have t0: "rq_page_count (kv_requests p ! t) = 0" "rq_committed_tokens (kv_requests p ! t) = 0"
      using request_pages [OF S m(7)] d(5) sh(1) m(7) by (auto simp: pages_for_def request_ok_def)
    have pages: "n div ?pt \<le> MAX_PAGES_PER_REQUEST"
    proof -
      have "n div ?pt * ?pt \<le> rq_page_count (kv_requests p ! s) * ?pt"
        using d(3,4) al l(7) by (auto simp: request_ok_def)
      then have "n div ?pt \<le> rq_page_count (kv_requests p ! s)" using sh(1) by simp
      with l(8) show ?thesis by simp
    qed
    have "\<exists>p'. share_pages (n div ?pt) p s t t 0 = Some p' \<and> kv_inv p' \<and> prefix_shared p p' s t (0 + n div ?pt)"
      by (rule share_pages_ok [OF inv l(2) m(2) d(1) l(6) m(6)])
         (use t0 d al in \<open>auto simp: chain_def\<close>)
    then show ?thesis unfolding run using None d pages by (auto simp: s_def t_def)
  qed
qed

end
