(* ===== verification/KvPool_Release.thy ===== *)
theory KvPool_Release
  imports KvPool_Correct
begin

text \<open>
  Giving pages back: committing a prefix of the tentative tokens, which drops the rest, and
  releasing a request.  Both remove pages from the end of one page table; \<open>recycled\<close> says what
  that does to the pool.
\<close>

subsection \<open>Removing the last pages of a request\<close>

text \<open>No other request refers to the page.\<close>

definition sole :: "kv_pool \<Rightarrow> nat \<Rightarrow> page_id \<Rightarrow> bool" where
  "sole p s q = (pg_reference_mask (kv_pages p ! pid_index q) AND NOT (slot_bit s) = 0)"

definition released_page :: "page_slot \<Rightarrow> nat \<Rightarrow> page_slot" where
  "released_page g s =
     (let m = pg_reference_mask g AND NOT (slot_bit s) in
      if m = 0 then freed_page g else g\<lparr>pg_reference_mask := m\<rparr>)"

definition recycled :: "kv_pool \<Rightarrow> kv_pool \<Rightarrow> nat \<Rightarrow> page_id list \<Rightarrow> bool" where
  "recycled p p' s cs =
     (let r = kv_requests p ! s; r' = kv_requests p' ! s in
        same_config p p' \<and> only_slot p p' s
      \<and> rq_live r' = rq_live r \<and> rq_generation r' = rq_generation r
      \<and> chain r = chain r' @ cs
      \<and> kv_free_len p' = kv_free_len p + length (filter (sole p s) cs)
      \<and> (\<forall>i < kv_page_limit p. kv_pages p' ! i =
           (if i \<in> pid_index ` set cs then released_page (kv_pages p ! i) s else kv_pages p ! i)))"

lemma recycled_refl: "recycled p p s []"
  by (simp add: recycled_def same_config_def only_slot_def Let_def)

lemma recycled_trans:
  assumes inv: "kv_inv p" "s < MAX_REQUEST_SLOTS" and 1: "recycled p p1 s cs" and 2: "recycled p1 p2 s ds"
  shows "recycled p p2 s (ds @ cs)"
proof -
  have ch: "chain (kv_requests p ! s) = chain (kv_requests p2 ! s) @ ds @ cs"
    using 1 2 by (simp add: recycled_def Let_def)
  then have dis: "pid_index ` set ds \<inter> pid_index ` set cs = {}"
    using kv_inv_distinct [OF inv] by auto
  have lim: "pid_index q < kv_page_limit p" if "q \<in> set (ds @ cs)" for q
    using owned_not_free [OF inv] that ch by (auto simp: owned_def)
  have "sole p1 s q = sole p s q" if "q \<in> set ds" for q
    using 1 dis that lim [of q] by (auto simp: sole_def recycled_def Let_def)
  then have "filter (sole p1 s) ds = filter (sole p s) ds" by (rule filter_cong [OF refl])
  moreover have "only_slot p p2 s" using 1 2
    by (metis (mono_tags, lifting) recycled_def list_update_overwrite only_slot_def)
  moreover have "kv_pages p2 ! i =
      (if i \<in> pid_index ` set (ds @ cs) then released_page (kv_pages p ! i) s else kv_pages p ! i)"
    if "i < kv_page_limit p" for i
    using 1 2 dis that by (auto simp: recycled_def same_config_def Let_def)
  ultimately show ?thesis using 1 2 ch by (simp add: recycled_def same_config_def Let_def)
qed

lemma recycled_live:
  "live_at p q s r \<Longrightarrow> recycled p p' s cs \<Longrightarrow> live_at p' q s (kv_requests p' ! s)"
  by (auto simp: live_at_def recycled_def Let_def)

text \<open>The pages the request keeps are untouched.\<close>

lemma recycled_kept:
  assumes inv: "kv_inv p" "s < MAX_REQUEST_SLOTS" and rec: "recycled p p' s cs"
    and x: "x \<in> set (chain (kv_requests p' ! s))"
  shows "kv_pages p' ! pid_index x = kv_pages p ! pid_index x"
proof -
  have ch: "chain (kv_requests p ! s) = chain (kv_requests p' ! s) @ cs"
    using rec by (simp add: recycled_def Let_def)
  have "pid_index ` set (chain (kv_requests p' ! s)) \<inter> pid_index ` set cs = {}"
    using kv_inv_distinct [OF inv] ch by simp
  then have "pid_index x \<notin> pid_index ` set cs" using x by blast
  moreover have "pid_index x < kv_page_limit p"
    using owned_not_free [OF inv] ch x by (auto simp: owned_def)
  ultimately show ?thesis using rec by (simp add: recycled_def Let_def)
qed

definition shortened_pool :: "kv_pool \<Rightarrow> nat \<Rightarrow> u32 \<Rightarrow> kv_pool" where
  "shortened_pool p s committed =
     (if sole p s (tail_page (kv_requests p ! s)) then dropped_pool p s committed
      else detached_pool p s committed)"

lemma sole_iff:
  assumes "kv_inv p" "s < MAX_REQUEST_SLOTS" "pid_index q < kv_page_limit p"
  shows "sole p s q \<longleftrightarrow> \<not> (\<exists>t < MAX_REQUEST_SLOTS. t \<noteq> s \<and> pid_index q \<in> owned (kv_requests p ! t))"
  using other_reference_iff [OF assms] by (auto simp: sole_def)

lemma shortened_pool_ok:
  assumes inv: "kv_inv p" and live: "live_at p q s r" and c: "0 < rq_page_count r"
    and com: "committed \<le> (rq_page_count r - 1) * kv_page_tokens p"
      "min (rq_committed_tokens r) ((rq_page_count r - 1) * kv_page_tokens p) \<le> committed"
    and gen: "sole p s (tail_page r) \<Longrightarrow> pg_generation (kv_pages p ! pid_index (tail_page r)) < U32_MAX"
  defines "p' \<equiv> shortened_pool p s committed"
  shows "kv_inv p'" "recycled p p' s [tail_page r]" "live_at p' q s (kv_requests p' ! s)"
    "kv_requests p' ! s = shortened_request r ((rq_page_count r - 1) * kv_page_tokens p) committed"
proof -
  note l = live_atD [OF inv live] and t = tail_link [OF inv live c]
  note rdef = l(5) [symmetric]
  show "kv_inv p'"
    using dropped_pool_inv [OF inv live c com] detached_pool_inv [OF inv live c com] gen
      sole_iff [OF inv l(2) t(2)] rdef unfolding p'_def shortened_pool_def by auto
  have rr: "rq_resident_tokens r - pg_initialized_tokens (kv_pages p ! pid_index (tail_page r))
      = (rq_page_count r - 1) * kv_page_tokens p" using t(5,6) by simp
  show rq: "kv_requests p' ! s = shortened_request r ((rq_page_count r - 1) * kv_page_tokens p) committed"
    using l(3) rdef rr by (simp add: p'_def shortened_pool_def dropped_pool_def detached_pool_def Let_def)
  have "chain r = chain (kv_requests p' ! s) @ [tail_page r]"
    unfolding rq by (rule shortened_facts [OF inv live c com])
  moreover have "only_slot p p' s" using l(3)
    by (simp add: only_slot_def p'_def shortened_pool_def dropped_pool_def detached_pool_def Let_def)
  ultimately show rec: "recycled p p' s [tail_page r]"
    using rdef rq t(3) unfolding recycled_def
    by (auto simp: p'_def shortened_pool_def dropped_pool_def detached_pool_def sole_def same_config_def
        released_page_def shortened_request_def Let_def)
  show "live_at p' q s (kv_requests p' ! s)" by (rule recycled_live [OF live rec])
qed

lemma release_step_eq:
  assumes inv: "kv_inv p" and live: "live_at p q s r" and n: "rq_page_count r = Suc n"
    and gen: "sole p s (tail_page r) \<Longrightarrow> pg_generation (kv_pages p ! pid_index (tail_page r)) < U32_MAX"
  shows "release_pages (Suc n) p q s =
    release_pages n (shortened_pool p s (min (rq_committed_tokens r) (n * kv_page_tokens p))) q s"
proof -
  have c: "0 < rq_page_count r" using n by simp
  note l = live_atD [OF inv live] and t = tail_link [OF inv live c]
  have tp: "rq_pages r ! n = tail_page r" by (simp add: tail_page_def n)
  have init: "pg_initialized_tokens (kv_pages p ! pid_index (tail_page r)) \<le> rq_resident_tokens r"
    "rq_resident_tokens r - pg_initialized_tokens (kv_pages p ! pid_index (tail_page r)) = n * kv_page_tokens p"
    using t(5,6) n by auto
  have oth: "page_has_other_reference p (pid_index (tail_page r)) s = Some (\<not> sole p s (tail_page r))"
    using page_has_other_reference_ok [OF inv l(2) t(2)] sole_iff [OF inv l(2) t(2)] by simp
  show ?thesis
    using l(1) l(3) t(3,4) n tp init oth drop_sole_tail_eq [OF inv live c gen] detach_shared_tail_eq [OF inv live c]
    by (auto simp: exec_simps shortened_pool_def l(5) [symmetric])
qed

lemma release_pages_ok:
  assumes "kv_inv p" "live_at p q s r" "n = rq_page_count r"
    "\<forall>x \<in> set (chain r). sole p s x \<longrightarrow> pg_generation (kv_pages p ! pid_index x) < U32_MAX"
  shows "\<exists>p'. release_pages n p q s = Some p' \<and> kv_inv p' \<and> recycled p p' s (chain r)
     \<and> rq_page_count (kv_requests p' ! s) = 0"
  using assms
proof (induction n arbitrary: p r)
  case 0
  then have "chain r = []" by (simp add: chain_def)
  then show ?case using 0 recycled_refl by (auto simp: live_at_def)
next
  case (Suc n)
  note inv = Suc.prems(1) and live = Suc.prems(2)
  have n: "rq_page_count r = Suc n" "0 < rq_page_count r" using Suc.prems(3) by simp_all
  note l = live_atD [OF inv live] and t = tail_link [OF inv live n(2)]
  let ?c = "min (rq_committed_tokens r) (n * kv_page_tokens p)"
  let ?p = "shortened_pool p s ?c"
  let ?r = "kv_requests ?p ! s"
  have gen: "pg_generation (kv_pages p ! pid_index (tail_page r)) < U32_MAX" if "sole p s (tail_page r)"
  proof -
    have "tail_page r \<in> set (chain r)"
      using length_chain [OF kv_inv_shape [OF inv] l(7)] n chain_nth [of n r]
      by (metis tail_page_def diff_Suc_1 lessI nth_mem)
    then show ?thesis using that Suc.prems(4) by blast
  qed
  have ok: "kv_inv ?p" "recycled p ?p s [tail_page r]" "live_at ?p q s ?r"
    "?r = shortened_request r (n * kv_page_tokens p) ?c"
    using shortened_pool_ok [OF inv live n(2), of ?c] gen n(1) by auto
  have ch: "chain r = chain ?r @ [tail_page r]"
    using ok(2) l(5) by (simp add: recycled_def Let_def)
  have "\<forall>x \<in> set (chain ?r). sole ?p s x \<longrightarrow> pg_generation (kv_pages ?p ! pid_index x) < U32_MAX"
  proof (intro ballI impI)
    fix x assume x: "x \<in> set (chain ?r)" "sole ?p s x"
    have "kv_pages ?p ! pid_index x = kv_pages p ! pid_index x"
      by (rule recycled_kept [OF inv l(2) ok(2) x(1)])
    then show "pg_generation (kv_pages ?p ! pid_index x) < U32_MAX"
      using Suc.prems(4) x ch by (auto simp: sole_def)
  qed
  then obtain p' where p': "release_pages n ?p q s = Some p'" "kv_inv p'" "recycled ?p p' s (chain ?r)"
    "rq_page_count (kv_requests p' ! s) = 0"
    using Suc.IH [OF ok(1,3)] ok(4) n(1) by (auto simp: shortened_request_def)
  have "recycled p p' s (chain r)" using recycled_trans [OF inv l(2) ok(2) p'(3)] ch by simp
  then show ?case using release_step_eq [OF inv live n(1) gen] p' by auto
qed

subsection \<open>Releasing a request\<close>

lemma release_scan_eq:
  assumes inv: "kv_inv p" and live: "live_at p q s r" and k: "k + n = rq_page_count r" "c \<le> k"
  shows "release_scan n p q s k c =
    Some (case find (\<lambda>x. sole p s x \<and> pg_generation (kv_pages p ! pid_index x) = U32_MAX) (drop k (chain r)) of
        Some x \<Rightarrow> Inl (GenerationExhausted x)
      | None \<Rightarrow> Inr (c + length (filter (sole p s) (drop k (chain r)))))"
  using k
proof (induction n arbitrary: k c)
  case 0
  then show ?case
    using length_chain [OF kv_inv_shape [OF inv]] live_atD [OF inv live] by simp
next
  case (Suc n)
  note l = live_atD [OF inv live] and S = kv_inv_shape [OF inv]
  have k: "k < rq_page_count r" using Suc.prems(1) by simp
  have lk: "pid_index (rq_pages r ! k) < kv_page_limit p"
    using kv_inv_link [OF inv l(2)] k l(5) by (auto simp: link_ok_def Let_def)
  have oth: "page_has_other_reference p (pid_index (rq_pages r ! k)) s = Some (\<not> sole p s (rq_pages r ! k))"
    using page_has_other_reference_ok [OF inv l(2) lk] sole_iff [OF inv l(2) lk] by simp
  have dr: "drop k (chain r) = rq_pages r ! k # drop (Suc k) (chain r)"
    using k length_chain [OF S l(7)] chain_nth [OF k] by (metis Cons_nth_drop_Suc)
  have b: "k + 1 \<le> U32_MAX" "c + 1 \<le> U32_MAX" "k < length (rq_pages r)"
    "pid_index (rq_pages r ! k) < length (kv_pages p)"
    using k l(8,9) Suc.prems(2) lk kv_shape [OF inv] by (auto simp: kv_bounds)
  show ?case using l(1,3) b oth Suc.prems Suc.IH [of "Suc k" c] Suc.IH [of "Suc k" "Suc c"]
    by (simp add: dr l(5) [symmetric] exec_simps split: option.split)
qed

definition release_decision :: "kv_pool \<Rightarrow> request_key \<Rightarrow> kv_error option" where
  "release_decision p q =
     (case key_decision p q of
        Some e \<Rightarrow> Some e
      | None \<Rightarrow>
          let s = key_slot q; r = kv_requests p ! s in
          if rq_generation r = U32_MAX then Some (RequestGenerationExhausted s)
          else map_option GenerationExhausted
            (find (\<lambda>x. sole p s x \<and> pg_generation (kv_pages p ! pid_index x) = U32_MAX) (chain r)))"

definition released :: "kv_pool \<Rightarrow> kv_pool \<Rightarrow> nat \<Rightarrow> bool" where
  "released p p' s =
     (let r = kv_requests p ! s; r' = kv_requests p' ! s in
        same_config p p' \<and> only_slot p p' s \<and> \<not> rq_live r' \<and> rq_generation r' = rq_generation r + 1
      \<and> rq_page_count r' = 0 \<and> rq_resident_tokens r' = 0 \<and> rq_committed_tokens r' = 0
      \<and> kv_free_len p' = kv_free_len p + length (filter (sole p s) (chain r))
      \<and> (\<forall>i < kv_page_limit p. kv_pages p' ! i =
           (if i \<in> owned r then released_page (kv_pages p ! i) s else kv_pages p ! i)))"

lemma release_request_key_correct:
  assumes inv: "kv_inv p"
  shows "case release_decision p q of
      Some e \<Rightarrow> release_request_key p q = Some (Inl e, p)
    | None \<Rightarrow> \<exists>p'. release_request_key p q = Some (Inr (), p') \<and> kv_inv p' \<and> released p p' (key_slot q)"
proof (cases "key_decision p q")
  case (Some e)
  then show ?thesis by (simp add: release_decision_def release_request_key_def live_request_index_eq [OF inv])
next
  case None
  define s r where "s = key_slot q" and "r = kv_requests p ! s"
  from None have live: "live_at p q s r" by (simp add: key_decision_None s_def r_def)
  note l = live_atD [OF inv live] and sh = kv_shape [OF inv] and S = kv_inv_shape [OF inv]
  let ?bad = "\<lambda>x. sole p s x \<and> pg_generation (kv_pages p ! pid_index x) = U32_MAX"
  let ?n = "length (filter (sole p s) (chain r))"
  have "?n \<le> rq_page_count r" using length_filter_le [of "sole p s" "chain r"] length_chain [OF S l(7)] by simp
  then have "kv_free_len p + ?n \<le> kv_page_limit p"
    using free_plus_owned [OF inv l(2)] r_def by simp
  then have fit: "kv_free_len p + ?n \<le> kv_page_limit p" "kv_free_len p + ?n \<le> U32_MAX"
    using sh(6) by (auto simp: kv_bounds)
  have run: "release_request_key p q =
     (if rq_generation r = U32_MAX then Some (Inl (RequestGenerationExhausted s), p)
      else case find ?bad (chain r) of
          Some x \<Rightarrow> Some (Inl (GenerationExhausted x), p)
        | None \<Rightarrow> do { p1 \<leftarrow> release_pages (rq_page_count r) p q s; p2 \<leftarrow> retire_empty_request p1 s; Some (Inr (), p2) })"
    unfolding release_request_key_def live_request_index_eq [OF inv]
    using None l(1,3) release_scan_eq [OF inv live, of 0 "rq_page_count r" 0] fit
    by (simp add: idx_ok r_def [symmetric] s_def [symmetric] split: option.split)
  show ?thesis
  proof (cases "release_decision p q")
    case (Some e)
    then show ?thesis unfolding run using None
      by (auto simp: release_decision_def s_def r_def Let_def split: if_splits)
  next
    case ok: None
    then have g: "rq_generation r \<noteq> U32_MAX" "find ?bad (chain r) = None"
      using None by (auto simp: release_decision_def s_def r_def Let_def split: if_splits)
    have "pg_generation (kv_pages p ! pid_index x) < U32_MAX" if "x \<in> set (chain r)" "sole p s x" for x
    proof -
      have "pid_index x < kv_page_limit p" using owned_not_free [OF inv l(2)] that r_def by (auto simp: owned_def)
      then have "pg_generation (kv_pages p ! pid_index x) \<le> U32_MAX"
        using kv_inv_page [OF inv] by (simp add: page_ok_def)
      moreover have "pg_generation (kv_pages p ! pid_index x) \<noteq> U32_MAX"
        using g(2) that unfolding find_None_iff by blast
      ultimately show ?thesis by simp
    qed
    then obtain p1 where p1: "release_pages (rq_page_count r) p q s = Some p1" "kv_inv p1"
      "recycled p p1 s (chain r)" "rq_page_count (kv_requests p1 ! s) = 0"
      using release_pages_ok [OF inv live refl] by blast
    note l1 = live_atD [OF p1(2) recycled_live [OF live p1(3)]]
    note ro = l1(7)
    let ?r = "(kv_requests p1 ! s)\<lparr>rq_live := False, rq_generation := rq_generation r + 1\<rparr>"
    let ?p = "p1\<lparr>kv_requests := (kv_requests p1)[s := ?r]\<rparr>"
    have gen1: "rq_generation (kv_requests p1 ! s) = rq_generation r"
      using p1(3) r_def by (simp add: recycled_def Let_def)
    have zero: "rq_resident_tokens (kv_requests p1 ! s) = 0" "rq_committed_tokens (kv_requests p1 ! s) = 0"
      using ro p1(4) by (auto simp: request_ok_def)
    have bound: "rq_generation r + 1 \<le> U32_MAX" using l(7) g(1) by (auto simp: request_ok_def)
    then have ret: "retire_empty_request p1 s = Some ?p"
      using l1(3) gen1 by (simp add: retire_empty_request_def exec_simps)
    have "kv_inv ?p"
      by (rule kv_inv_relabel [OF p1(2) l(2)]) (use ro zero bound in \<open>auto simp: request_ok_def\<close>)
    moreover have "only_slot p ?p s" using p1(3) l1(3)
      by (simp add: only_slot_def recycled_def Let_def) (metis list_update_overwrite)
    then have "released p ?p s" using p1(3,4) zero l1(3) r_def
      by (simp add: released_def recycled_def same_config_def owned_def Let_def)
    ultimately show ?thesis unfolding run using ok g p1(1) ret s_def by auto
  qed
qed

subsection \<open>Committing a prefix of the tentative tokens\<close>

lemma finalize_scan_eq:
  assumes inv: "kv_inv p" and live: "live_at p q s r" and k: "k + n = rq_page_count r"
  shows "finalize_scan n p s k =
    Some (case find (\<lambda>x. pg_generation (kv_pages p ! pid_index x) = U32_MAX) (drop k (chain r)) of
        Some x \<Rightarrow> Inl (GenerationExhausted x)
      | None \<Rightarrow> Inr ())"
  using k
proof (induction n arbitrary: k)
  case 0
  then show ?case
    using length_chain [OF kv_inv_shape [OF inv]] live_atD [OF inv live] by simp
next
  case (Suc n)
  note l = live_atD [OF inv live] and S = kv_inv_shape [OF inv]
  have k: "k < rq_page_count r" using Suc.prems by simp
  have lk: "pid_index (rq_pages r ! k) < kv_page_limit p"
    using kv_inv_link [OF inv l(2)] k l(5) by (auto simp: link_ok_def Let_def)
  have dr: "drop k (chain r) = rq_pages r ! k # drop (Suc k) (chain r)"
    using k length_chain [OF S l(7)] chain_nth [OF k] by (metis Cons_nth_drop_Suc)
  have b: "k + 1 \<le> U32_MAX" "k < length (rq_pages r)" "pid_index (rq_pages r ! k) < length (kv_pages p)"
    using k l(8,9) lk kv_shape [OF inv] by (auto simp: kv_bounds)
  show ?case using l(3) b Suc.prems Suc.IH [of "Suc k"]
    by (simp add: dr l(5) [symmetric] exec_simps split: option.split)
qed

text \<open>A page that starts at or after the committed length is writable, hence used by no other
  request.\<close>

lemma uncommitted_tail:
  assumes inv: "kv_inv p" and live: "live_at p q s r" and c: "0 < rq_page_count r"
    and com: "rq_committed_tokens r < rq_page_count r * kv_page_tokens p"
  shows "pg_state (kv_pages p ! pid_index (tail_page r)) = Writable s" "sole p s (tail_page r)"
proof -
  note l = live_atD [OF inv live] and t = tail_link [OF inv live c]
  show w: "pg_state (kv_pages p ! pid_index (tail_page r)) = Writable s"
    using t(1) c com by (auto simp: link_ok_def tail_page_def Let_def)
  show "sole p s (tail_page r)"
    using sole_iff [OF inv l(2) t(2)] writable_owned [OF inv t(2) w] by blast
qed

lemma finalize_step_eq:
  assumes inv: "kv_inv p" and live: "live_at p q s r" and n: "rq_page_count r = Suc n" "ret < Suc n"
    and com: "rq_committed_tokens r < Suc n * kv_page_tokens p"
    and gen: "pg_generation (kv_pages p ! pid_index (tail_page r)) < U32_MAX"
  shows "finalize_drop (Suc n) p s ret committed = finalize_drop n (shortened_pool p s committed) s ret committed"
proof -
  have c: "0 < rq_page_count r" using n by simp
  note l = live_atD [OF inv live] and t = tail_link [OF inv live c]
  have tp: "rq_pages r ! n = tail_page r" by (simp add: tail_page_def n)
  have "sole p s (tail_page r)" using uncommitted_tail(2) [OF inv live c] com n(1) by simp
  then show ?thesis
    using l(3) t(3,4) n tp drop_sole_tail_eq [OF inv live c gen]
    by (auto simp: exec_simps shortened_pool_def l(5) [symmetric])
qed

lemma finalize_drop_ok:
  assumes "kv_inv p" "live_at p q s r" "n = rq_page_count r" "ret \<le> n"
    "rq_committed_tokens r \<le> ret * kv_page_tokens p"
    "\<forall>x \<in> set (drop ret (chain r)). pg_generation (kv_pages p ! pid_index x) < U32_MAX"
  shows "\<exists>p'. finalize_drop n p s ret (rq_committed_tokens r) = Some p' \<and> kv_inv p'
     \<and> recycled p p' s (drop ret (chain r)) \<and> rq_page_count (kv_requests p' ! s) = ret
     \<and> rq_committed_tokens (kv_requests p' ! s) = rq_committed_tokens r"
  using assms
proof (induction n arbitrary: p r)
  case 0
  then have "chain r = []" by (simp add: chain_def)
  then show ?case using 0 recycled_refl by (auto simp: live_at_def)
next
  case (Suc n)
  note inv = Suc.prems(1) and live = Suc.prems(2)
  have n: "rq_page_count r = Suc n" "0 < rq_page_count r" using Suc.prems(3) by simp_all
  note l = live_atD [OF inv live] and t = tail_link [OF inv live n(2)] and S = kv_inv_shape [OF inv]
  have len: "length (chain r) = Suc n" using length_chain [OF S l(7)] n by simp
  show ?case
  proof (cases "ret = Suc n")
    case True
    then show ?thesis using len recycled_refl [of p s] inv n(1) l(5) by (simp add: len)
  next
    case False
    then have ret: "ret \<le> n" using Suc.prems(4) by simp
    let ?c = "rq_committed_tokens r"
    let ?p = "shortened_pool p s ?c"
    let ?r = "kv_requests ?p ! s"
    have com1: "?c \<le> n * kv_page_tokens p" using Suc.prems(5) mult_le_mono1 [OF ret] by (rule le_trans)
    then have com: "?c \<le> n * kv_page_tokens p" "?c < Suc n * kv_page_tokens p"
      using kv_shape(1) [OF inv] by auto
    have "tail_page r = chain r ! n" using n chain_nth [of n r] by (simp add: tail_page_def)
    then have "tail_page r \<in> set (drop ret (chain r))"
      using ret len by (auto simp: in_set_conv_nth intro!: exI [of _ "n - ret"])
    then have gen: "pg_generation (kv_pages p ! pid_index (tail_page r)) < U32_MAX"
      using Suc.prems(6) by blast
    have ok: "kv_inv ?p" "recycled p ?p s [tail_page r]" "live_at ?p q s ?r"
      "?r = shortened_request r (n * kv_page_tokens p) ?c"
      using shortened_pool_ok [OF inv live n(2), of ?c] gen com n(1) by auto
    have ch: "chain r = chain ?r @ [tail_page r]" using ok(2) l(5) by (simp add: recycled_def Let_def)
    then have dr: "drop ret (chain r) = drop ret (chain ?r) @ [tail_page r]" using len ret by simp
    have "\<forall>x \<in> set (drop ret (chain ?r)). pg_generation (kv_pages ?p ! pid_index x) < U32_MAX"
      using recycled_kept [OF inv l(2) ok(2)] Suc.prems(6) dr in_set_dropD by fastforce
    moreover have "kv_page_tokens ?p = kv_page_tokens p" using ok(2) by (simp add: recycled_def same_config_def Let_def)
    ultimately obtain p' where p': "finalize_drop n ?p s ret ?c = Some p'" "kv_inv p'"
      "recycled ?p p' s (drop ret (chain ?r))" "rq_page_count (kv_requests p' ! s) = ret"
      "rq_committed_tokens (kv_requests p' ! s) = ?c"
      using Suc.IH [OF ok(1,3)] ok(4) n(1) ret Suc.prems(5) by (auto simp: shortened_request_def)
    have "recycled p p' s (drop ret (chain r))" using recycled_trans [OF inv l(2) ok(2) p'(3)] dr by simp
    then show ?thesis using finalize_step_eq [OF inv live n(1) _ com(2) gen] p' ret by auto
  qed
qed

definition finalize_decision :: "kv_pool \<Rightarrow> request_key \<Rightarrow> u32 \<Rightarrow> kv_error option" where
  "finalize_decision p q n =
     (case key_decision p q of
        Some e \<Rightarrow> Some e
      | None \<Rightarrow>
          let r = kv_requests p ! key_slot q; c = rq_committed_tokens r + n in
          if rq_resident_tokens r < c then Some CommitExceedsResident
          else map_option GenerationExhausted
            (find (\<lambda>x. pg_generation (kv_pages p ! pid_index x) = U32_MAX)
               (drop (pages_for (kv_page_tokens p) c) (chain r))))"

definition finalized :: "kv_pool \<Rightarrow> kv_pool \<Rightarrow> nat \<Rightarrow> u32 \<Rightarrow> bool" where
  "finalized p p' s n =
     (let r = kv_requests p ! s; r' = kv_requests p' ! s; c = rq_committed_tokens r + n;
          ret = pages_for (kv_page_tokens p) c in
        same_config p p' \<and> only_slot p p' s \<and> rq_live r' \<and> rq_generation r' = rq_generation r
      \<and> rq_committed_tokens r' = c \<and> rq_resident_tokens r' = c
      \<and> chain r' = take ret (chain r)
      \<and> kv_free_len p' + ret = kv_free_len p + rq_page_count r
      \<and> (\<forall>x \<in> set (drop ret (chain r)).
            kv_pages p' ! pid_index x = freed_page (kv_pages p ! pid_index x)))"

lemma uncommitted_sole:
  assumes inv: "kv_inv p" and live: "live_at p q s r" and x: "x \<in> set (drop n (chain r))"
    and c: "rq_committed_tokens r \<le> n * kv_page_tokens p"
  shows "sole p s x" "pid_index x < kv_page_limit p"
proof -
  note l = live_atD [OF inv live] and S = kv_inv_shape [OF inv]
  from x obtain k where k: "n \<le> k" "k < rq_page_count r" "x = rq_pages r ! k"
    using length_chain [OF S l(7)] chain_nth by (auto simp: in_set_conv_nth) (metis le_add1 less_diff_conv add.commute)
  have "rq_committed_tokens r < Suc k * kv_page_tokens p"
    using le_trans [OF c mult_le_mono1 [OF k(1)]] kv_shape(1) [OF inv] by simp
  then have w: "pid_index x < kv_page_limit p" "pg_state (kv_pages p ! pid_index x) = Writable s"
    using kv_inv_link [OF inv l(2), of k] k l(5) by (auto simp: link_ok_def Let_def)
  then show "pid_index x < kv_page_limit p" by simp
  show "sole p s x" using sole_iff [OF inv l(2) w(1)] writable_owned [OF inv w] by blast
qed

lemma finalize_commit_ok:
  assumes inv: "kv_inv p" and live: "live_at p q s r" and c: "rq_committed_tokens r \<le> c" "c \<le> rq_resident_tokens r"
    and gen: "\<forall>x \<in> set (drop (pages_for (kv_page_tokens p) c) (chain r)).
      pg_generation (kv_pages p ! pid_index x) < U32_MAX"
  defines "p1 \<equiv> p\<lparr>kv_requests := (kv_requests p)[s := r\<lparr>rq_committed_tokens := c\<rparr>]\<rparr>"
  shows "\<exists>p2. finalize_drop (rq_page_count r) p1 s (pages_for (kv_page_tokens p) c) c = Some p2 \<and> kv_inv p2
     \<and> recycled p1 p2 s (drop (pages_for (kv_page_tokens p) c) (chain r))
     \<and> rq_page_count (kv_requests p2 ! s) = pages_for (kv_page_tokens p) c
     \<and> rq_committed_tokens (kv_requests p2 ! s) = c \<and> kv_inv p1 \<and> live_at p1 q s (r\<lparr>rq_committed_tokens := c\<rparr>)"
proof -
  note l = live_atD [OF inv live] and sh = kv_shape [OF inv]
  have inv1: "kv_inv p1" unfolding p1_def
    by (rule kv_inv_relabel [OF inv l(2)]) (use l c in \<open>auto simp: request_ok_def\<close>)
  have live1: "live_at p1 q s (r\<lparr>rq_committed_tokens := c\<rparr>)"
    using live l(3) by (auto simp: live_at_def p1_def)
  have ret: "pages_for (kv_page_tokens p) c \<le> rq_page_count r"
    using c(2) l(7) sh(1) by (intro pages_for_le) (auto simp: request_ok_def)
  have "\<exists>p2. finalize_drop (rq_page_count r) p1 s (pages_for (kv_page_tokens p) c)
       (rq_committed_tokens (r\<lparr>rq_committed_tokens := c\<rparr>)) = Some p2 \<and> kv_inv p2
     \<and> recycled p1 p2 s (drop (pages_for (kv_page_tokens p) c) (chain (r\<lparr>rq_committed_tokens := c\<rparr>)))
     \<and> rq_page_count (kv_requests p2 ! s) = pages_for (kv_page_tokens p) c
     \<and> rq_committed_tokens (kv_requests p2 ! s) = rq_committed_tokens (r\<lparr>rq_committed_tokens := c\<rparr>)"
    by (rule finalize_drop_ok [OF inv1 live1])
       (use ret gen pages_for_bounds [OF sh(1), of c] in \<open>auto simp: p1_def chain_def\<close>)
  then show ?thesis using inv1 live1 by (simp add: chain_def)
qed

text \<open>The last step of committing cuts the tail page down to the accepted tokens.\<close>

definition cut_tail :: "kv_pool \<Rightarrow> nat \<Rightarrow> u32 \<Rightarrow> kv_pool" where
  "cut_tail p s c =
     (if c mod kv_page_tokens p \<noteq> 0 then retail_pool p s (c mod kv_page_tokens p) c else p)"

lemma cut_tail_ok:
  assumes inv: "kv_inv p" and live: "live_at p q s r" and c: "rq_committed_tokens r = c"
    and ret: "rq_page_count r = pages_for (kv_page_tokens p) c"
  shows "kv_inv (cut_tail p s c)" "kv_requests (cut_tail p s c) = (kv_requests p)[s := r\<lparr>rq_resident_tokens := c\<rparr>]"
    "same_config p (cut_tail p s c)" "kv_free_len (cut_tail p s c) = kv_free_len p"
    "\<And>i. i \<notin> owned r \<Longrightarrow> kv_pages (cut_tail p s c) ! i = kv_pages p ! i"
    "c mod kv_page_tokens p \<noteq> 0 \<Longrightarrow> 0 < rq_page_count r"
proof -
  note l = live_atD [OF inv live] and sh = kv_shape [OF inv]
  let ?pt = "kv_page_tokens p"
  obtain d m where dm: "c = d * ?pt + m" "m < ?pt" "c div ?pt = d" "c mod ?pt = m"
    "pages_for ?pt c = (if m = 0 then d else d + 1)" using pages_for_split [OF sh(1), of c] .
  show pos: "0 < rq_page_count r" if "c mod ?pt \<noteq> 0" using that dm ret by simp
  show "same_config p (cut_tail p s c)" "kv_free_len (cut_tail p s c) = kv_free_len p"
    by (auto simp: cut_tail_def same_config_def retail_pool_def Let_def)
  have z: "rq_resident_tokens r = c" if "m = 0" using that dm ret l(7) c by (auto simp: request_ok_def)
  show "kv_requests (cut_tail p s c) = (kv_requests p)[s := r\<lparr>rq_resident_tokens := c\<rparr>]"
    using z dm(4) l(5) by (auto simp: cut_tail_def retail_pool_def Let_def)
  show "kv_pages (cut_tail p s c) ! i = kv_pages p ! i" if "i \<notin> owned r" for i
  proof -
    have "i \<noteq> pid_index (tail_page r)" if "0 < rq_page_count r"
      using that \<open>i \<notin> owned r\<close> owned_iff [OF kv_inv_shape [OF inv] l(7)] unfolding tail_page_def
      by (metis diff_less zero_less_one)
    then show ?thesis using pos l(5) by (auto simp: cut_tail_def retail_pool_def Let_def)
  qed
  show "kv_inv (cut_tail p s c)"
  proof (cases "m = 0")
    case True
    then show ?thesis using inv dm(4) by (simp add: cut_tail_def)
  next
    case False
    then have p: "0 < rq_page_count r" using dm(4) pos by simp
    have "pg_state (kv_pages p ! pid_index (tail_page r)) = Writable s"
      using uncommitted_tail [OF inv live p] c ret dm False by simp
    then have "kv_inv (retail_pool p s m c)"
      by (rule retail_pool_inv [OF inv live p]) (use dm False ret c l(7) in \<open>auto simp: request_ok_def\<close>)
    then show ?thesis using dm(4) False by (simp add: cut_tail_def)
  qed
qed

lemma finalized_intro:
  assumes inv: "kv_inv p" and live: "live_at p q s r"
    and p1: "kv_inv p1" "live_at p1 q s (r\<lparr>rq_committed_tokens := c\<rparr>)"
      "p1 = p\<lparr>kv_requests := (kv_requests p)[s := r\<lparr>rq_committed_tokens := c\<rparr>]\<rparr>"
    and ret: "ret = pages_for (kv_page_tokens p) c" "ret \<le> rq_page_count r" and c: "c = rq_committed_tokens r + n"
    and rec: "recycled p1 p2 s (drop ret (chain r))"
    and p2: "kv_inv p2" "rq_page_count (kv_requests p2 ! s) = ret" "rq_committed_tokens (kv_requests p2 ! s) = c"
  shows "finalized p (cut_tail p2 s c) s n"
proof -
  note l = live_atD [OF inv live] and S = kv_inv_shape [OF inv]
  let ?r2 = "kv_requests p2 ! s" and ?ds = "drop ret (chain r)"
  note live2 = recycled_live [OF p1(2) rec]
  note l2 = live_atD [OF p2(1) live2]
  have cfg: "same_config p p2" "only_slot p1 p2 s" "kv_free_len p2 = kv_free_len p + length (filter (sole p1 s) ?ds)"
    using rec p1(3) by (auto simp: recycled_def same_config_def Let_def)
  then have pt2: "kv_page_tokens p2 = kv_page_tokens p" by (simp add: same_config_def)
  note cut = cut_tail_ok [OF p2(1) live2 p2(3), unfolded pt2, OF p2(2) [unfolded ret(1)]]
  have "chain r = chain ?r2 @ ?ds" using rec p1(3) l(3) by (simp add: recycled_def Let_def chain_def)
  then have ch: "chain ?r2 = take ret (chain r)" by (metis append_take_drop_id append_same_eq)
  have so: "sole p1 s x" "pid_index x < kv_page_limit p" if "x \<in> set ?ds" for x
    using uncommitted_sole [OF p1(1,2), of x ret] that pages_for_bounds(1) [OF kv_shape(1) [OF inv], of c] ret(1) p1(3)
    by (auto simp: chain_def)
  then have "filter (sole p1 s) ?ds = ?ds" by (simp add: filter_id_conv)
  then have fl: "kv_free_len p2 + ret = kv_free_len p + rq_page_count r"
    using cfg(3) length_chain [OF S l(7)] ret(2) by simp
  have pg: "kv_pages (cut_tail p2 s c) ! pid_index x = freed_page (kv_pages p ! pid_index x)" if x: "x \<in> set ?ds" for x
  proof -
    have "distinct (map pid_index (chain ?r2 @ ?ds))"
      using kv_inv_distinct [OF inv l(2)] l(5) ch by (metis append_take_drop_id)
    then have "pid_index x \<notin> owned ?r2" using x by (auto simp: owned_def)
    then show ?thesis using cut(5) rec x so [OF x] p1(3)
      by (auto simp: recycled_def Let_def released_page_def sole_def)
  qed
  have "kv_requests p2 = (kv_requests p)[s := ?r2]" using cfg(2) unfolding only_slot_def p1(3) by simp
  from cut(2) arg_cong [OF this, of "\<lambda>xs. xs[s := ?r2\<lparr>rq_resident_tokens := c\<rparr>]"]
  have rq: "kv_requests (cut_tail p2 s c) = (kv_requests p)[s := ?r2\<lparr>rq_resident_tokens := c\<rparr>]"
    by (metis list_update_overwrite)
  then have "only_slot p (cut_tail p2 s c) s" using l(3) by (simp add: only_slot_def)
  then show ?thesis
    using cfg(1) cut(3,4) rq ch fl pg ret(1) c l2(3,6) l(3,5) p2(2,3) live live2
    by (simp add: finalized_def same_config_def Let_def chain_def live_at_def)
qed

lemma finalize_tentative_key_correct:
  assumes inv: "kv_inv p"
  shows "case finalize_decision p q n of
      Some e \<Rightarrow> finalize_tentative_key p q n = Some (Inl e, p)
    | None \<Rightarrow> \<exists>p'. finalize_tentative_key p q n = Some (Inr (), p') \<and> kv_inv p' \<and> finalized p p' (key_slot q) n"
proof (cases "key_decision p q")
  case (Some e)
  then show ?thesis by (simp add: finalize_decision_def finalize_tentative_key_def live_request_index_eq [OF inv])
next
  case None
  define s r where "s = key_slot q" and "r = kv_requests p ! s"
  from None have live: "live_at p q s r" by (simp add: key_decision_None s_def r_def)
  note l = live_atD [OF inv live] and sh = kv_shape [OF inv] and S = kv_inv_shape [OF inv]
  let ?pt = "kv_page_tokens p" and ?c = "rq_committed_tokens r + n"
  show ?thesis
  proof (cases "rq_resident_tokens r < ?c")
    case True
    then have "finalize_tentative_key p q n = Some (Inl CommitExceedsResident, p)"
      using None l(1,3) by (auto simp: finalize_tentative_key_def live_request_index_eq [OF inv] idx_ok
          r_def [symmetric] s_def [symmetric] split: option.splits)
    then show ?thesis using True None by (simp add: finalize_decision_def s_def r_def Let_def)
  next
    case False
    let ?ret = "pages_for ?pt ?c"
    let ?bad = "\<lambda>x. pg_generation (kv_pages p ! pid_index x) = U32_MAX"
    let ?p1 = "p\<lparr>kv_requests := (kv_requests p)[s := r\<lparr>rq_committed_tokens := ?c\<rparr>]\<rparr>"
    have ret: "?ret \<le> rq_page_count r"
      using False l(7) sh(1) by (intro pages_for_le) (auto simp: request_ok_def)
    have b: "?c \<le> U32_MAX" "?ret \<le> U32_MAX" "kv_free_len p + (rq_page_count r - ?ret) \<le> kv_page_limit p"
      "kv_free_len p + (rq_page_count r - ?ret) \<le> U32_MAX"
      using False l(7,8) sh(3,6) ret free_plus_owned [OF inv l(2)] r_def by (auto simp: request_ok_def kv_bounds)
    have rd: "?c div ?pt + min (?c mod ?pt) 1 = ?ret" by (rule pages_for_div [OF sh(1)])
    have run: "finalize_tentative_key p q n =
      (case find ?bad (drop ?ret (chain r)) of
         Some x \<Rightarrow> Some (Inl (GenerationExhausted x), p)
       | None \<Rightarrow> do {
           p2 \<leftarrow> finalize_drop (rq_page_count r) ?p1 s ?ret ?c;
           p3 \<leftarrow> (if ?c mod ?pt \<noteq> 0 then do {
                    r2 \<leftarrow> idx (kv_requests p2) s; position \<leftarrow> u_sub ?ret 1; tail \<leftarrow> idx (rq_pages r2) position;
                    _ \<leftarrow> idx (kv_pages p2) (pid_index tail); truncate_writable_tail p2 s tail ?c (?c mod ?pt) }
                  else Some p2);
           Some (Inr (), p3) })"
      unfolding finalize_tentative_key_def live_request_index_eq [OF inv]
      using None l(1,3) finalize_scan_eq [OF inv live, of ?ret "rq_page_count r - ?ret"] b False ret rd sh(1)
      by (simp add: exec_simps raise_committed_def Let_def r_def [symmetric] s_def [symmetric] split: option.split)
    show ?thesis
    proof (cases "find ?bad (drop ?ret (chain r))")
      case (Some x)
      then show ?thesis unfolding run using None False by (simp add: finalize_decision_def s_def r_def Let_def)
    next
      case ok: None
      have gen: "\<forall>x \<in> set (drop ?ret (chain r)). pg_generation (kv_pages p ! pid_index x) < U32_MAX"
      proof
        fix x assume x: "x \<in> set (drop ?ret (chain r))"
        then have "pid_index x < kv_page_limit p"
          using owned_not_free [OF inv l(2)] r_def in_set_dropD by (fastforce simp: owned_def)
        then have "pg_generation (kv_pages p ! pid_index x) \<le> U32_MAX"
          using kv_inv_page [OF inv] by (simp add: page_ok_def)
        moreover have "\<not> ?bad x" using ok x unfolding find_None_iff by blast
        ultimately show "pg_generation (kv_pages p ! pid_index x) < U32_MAX" by simp
      qed
      obtain p2 where p2: "finalize_drop (rq_page_count r) ?p1 s ?ret ?c = Some p2" "kv_inv p2"
        "recycled ?p1 p2 s (drop ?ret (chain r))" "rq_page_count (kv_requests p2 ! s) = ?ret"
        "rq_committed_tokens (kv_requests p2 ! s) = ?c" "kv_inv ?p1"
        "live_at ?p1 q s (r\<lparr>rq_committed_tokens := ?c\<rparr>)"
        using finalize_commit_ok [OF inv live _ _ gen] False by auto
      note live2 = recycled_live [OF p2(7,3)]
      note l2 = live_atD [OF p2(2) live2]
      have pt2: "kv_page_tokens p2 = ?pt" using p2(3) by (simp add: recycled_def same_config_def Let_def)
      note cut = cut_tail_ok [OF p2(2) live2 p2(5), unfolded pt2, OF p2(4)]
      have "(if ?c mod ?pt \<noteq> 0 then do {
            r2 \<leftarrow> idx (kv_requests p2) s; position \<leftarrow> u_sub ?ret 1; tail \<leftarrow> idx (rq_pages r2) position;
            _ \<leftarrow> idx (kv_pages p2) (pid_index tail); truncate_writable_tail p2 s tail ?c (?c mod ?pt) }
          else Some p2) = Some (cut_tail p2 s ?c)"
        using l2(3) cut(6) tail_link [OF p2(2) live2] truncate_writable_tail_eq [OF p2(2) live2] p2(4)
        by (auto simp: cut_tail_def pt2 exec_simps tail_page_def)
      moreover have "finalized p (cut_tail p2 s ?c) s n"
        by (rule finalized_intro [OF inv live p2(6,7) refl refl ret refl p2(3,2,4,5)])
      ultimately show ?thesis unfolding run using ok None False p2(1) cut(1)
        by (simp add: finalize_decision_def s_def r_def Let_def)
    qed
  qed
qed

end
