(* ===== verification/KvPool_System.thy ===== *)
theory KvPool_System
  imports KvPool_Release
begin

text \<open>
  The page pool as a whole: construction establishes the invariant, pages are conserved, and
  the public methods form a transactional machine that refines an abstract token ledger.
\<close>

subsection \<open>Construction\<close>

lemma fill_free_stack_ok:
  assumes "i + n = c" "c \<le> length xs" "c \<le> U32_MAX"
  shows "\<exists>ys. fill_free_stack n c i xs = Some ys \<and> length ys = length xs
     \<and> (\<forall>j. j < i \<longrightarrow> ys ! j = xs ! j) \<and> (\<forall>j. i \<le> j \<longrightarrow> j < c \<longrightarrow> ys ! j = c - j - 1)"
  using assms
proof (induction n arbitrary: i xs)
  case 0
  then show ?case by simp
next
  case (Suc n)
  from Suc.IH [of "Suc i" "xs[i := c - i - 1]"] Suc.prems
  obtain ys where ys: "fill_free_stack n c (Suc i) (xs[i := c - i - 1]) = Some ys"
    "length ys = length xs" "\<And>j. j < Suc i \<Longrightarrow> ys ! j = xs[i := c - i - 1] ! j"
    "\<And>j. Suc i \<le> j \<Longrightarrow> j < c \<Longrightarrow> ys ! j = c - j - 1" by auto
  have "ys ! j = c - j - 1" if "i \<le> j" "j < c" for j
    using ys(3,4) [of j] that Suc.prems by (cases "j = i") auto
  moreover have "ys ! j = xs ! j" if "j < i" for j using ys(3) [of j] that by simp
  ultimately show ?case using ys(1,2) Suc.prems
    by (auto simp: u_sub_ok upd_ok u_add_ok)
qed

definition new_decision :: "u32 \<Rightarrow> u32 \<Rightarrow> u32 \<Rightarrow> kv_error option" where
  "new_decision n pt ctx =
     (if n = 0 then Some (ZeroCapacity CapPages)
      else if pt = 0 then Some (ZeroCapacity CapPageTokens)
      else if ctx = 0 then Some (ZeroCapacity CapContextTokens)
      else if MAX_PAGE_SLOTS < n then Some (CapacityExceedsBuildBound CapPages)
      else if ctx < pt then Some PageExceedsContext
      else if MAX_PAGES_PER_REQUEST * pt < ctx then Some (CapacityExceedsBuildBound CapRequestPages)
      else None)"

lemma stack_image: "c \<le> length ys \<Longrightarrow> \<forall>j < c. ys ! j = c - j - Suc 0 \<Longrightarrow>
  distinct (take c ys) \<and> set (take c ys) = {i. i < c}"
proof -
  assume c: "c \<le> length ys" and f: "\<forall>j < c. ys ! j = c - j - Suc 0"
  have tk: "take c ys = rev [0..<c]"
    using c f by (intro nth_equalityI) (auto simp: rev_nth)
  show ?thesis unfolding tk by auto
qed

lemma new_bounded_correct:
  assumes "n \<le> U32_MAX" "pt \<le> U32_MAX" "ctx \<le> U32_MAX"
  shows "case new_decision n pt ctx of
      Some e \<Rightarrow> new_bounded n pt ctx = Some (Inl e)
    | None \<Rightarrow> \<exists>p. new_bounded n pt ctx = Some (Inr p) \<and> kv_inv p
        \<and> kv_page_limit p = n \<and> kv_page_tokens p = pt \<and> kv_max_context_tokens p = ctx \<and> kv_free_len p = n
        \<and> kv_requests p = replicate MAX_REQUEST_SLOTS request_slot_empty"
proof -
  have ov: "ctx + pt \<le> U64_MAX" using assms by simp
  have big: "MAX_PAGES_PER_REQUEST < (ctx + pt - 1) div pt \<longleftrightarrow> MAX_PAGES_PER_REQUEST * pt < ctx"
    if "0 < pt" "0 < ctx"
  proof
    assume "MAX_PAGES_PER_REQUEST < (ctx + pt - 1) div pt"
    then show "MAX_PAGES_PER_REQUEST * pt < ctx"
      using pages_for_le [OF that(1), of ctx MAX_PAGES_PER_REQUEST] by (force simp: pages_for_def)
  next
    assume "MAX_PAGES_PER_REQUEST * pt < ctx"
    also have "\<dots> \<le> pages_for pt ctx * pt" by (rule pages_for_bounds [OF that(1)])
    finally show "MAX_PAGES_PER_REQUEST < (ctx + pt - 1) div pt" by (simp add: pages_for_def)
  qed
  show ?thesis
  proof (cases "new_decision n pt ctx")
    case (Some e)
    then show ?thesis using ov big
      by (auto simp: new_decision_def new_bounded_def exec_simps split: if_splits)
  next
    case None
    then have d: "0 < n" "0 < pt" "0 < ctx" "n \<le> MAX_PAGE_SLOTS" "pt \<le> ctx" "ctx \<le> MAX_PAGES_PER_REQUEST * pt"
      by (auto simp: new_decision_def split: if_splits)
    obtain ys where ys: "fill_free_stack n n 0 (replicate MAX_PAGE_SLOTS 0) = Some ys"
      "length ys = MAX_PAGE_SLOTS" "\<forall>j < n. ys ! j = n - j - Suc 0"
      using fill_free_stack_ok [of 0 n n "replicate MAX_PAGE_SLOTS 0"] assms(1) d(4) by auto
    have free: "distinct (take n ys)" "set (take n ys) = {i. i < n}"
      using stack_image [of n ys] ys d(4) by auto
    let ?p = "\<lparr>kv_page_tokens = pt, kv_max_context_tokens = ctx, kv_page_limit = n,
       kv_pages = replicate MAX_PAGE_SLOTS page_slot_free, kv_free_stack = ys, kv_free_len = n,
       kv_free_bitmap = replicate MAX_PAGE_SLOTS True,
       kv_requests = replicate MAX_REQUEST_SLOTS request_slot_empty\<rparr>"
    have run: "new_bounded n pt ctx = Some (Inr ?p)"
    proof -
      have "\<not> MAX_PAGES_PER_REQUEST < (ctx + pt - 1) div pt" using big [OF d(2,3)] d(6) by simp
      moreover have "u_sub (ctx + pt) 1 = Some (ctx + pt - 1)" using d by (simp add: u_sub_ok)
      moreover have "n \<noteq> 0" "pt \<noteq> 0" "ctx \<noteq> 0" "\<not> MAX_PAGE_SLOTS < n" "\<not> ctx < pt" using d by auto
      ultimately show ?thesis unfolding new_bounded_def
        by (simp only: u_add_ok [OF ov] u_div_ok [OF d(2)] ys(1) if_False bind.bind_lunit)
    qed
    have "shape_ok ?p" using d assms ys(2) by (simp add: shape_ok_def)
    moreover have "\<forall>i < n. pg_state (replicate MAX_PAGE_SLOTS page_slot_free ! i) = Free
         \<and> replicate MAX_PAGE_SLOTS True ! i"
      using d(4) by (simp add: page_slot_free_def)
    then have "free_ok ?p" unfolding free_ok_def using free by (simp cong: conj_cong)
    ultimately have "kv_inv ?p" using d(2,4)
      by (auto simp: kv_inv_def page_ok_def page_slot_free_def request_ok_def request_slot_empty_def
          owned_def chain_def)
    then show ?thesis using None run by simp
  qed
qed

subsection \<open>Creating a request\<close>

definition create_decision :: "kv_pool \<Rightarrow> request_key \<Rightarrow> kv_error option" where
  "create_decision p q =
     (if MAX_REQUEST_SLOTS \<le> key_slot q then Some (InvalidRequestSlot (key_slot q))
      else let r = kv_requests p ! key_slot q in
        if rq_live r then Some (RequestSlotOccupied (key_slot q))
        else if rq_generation r \<noteq> key_generation q
          then Some (StaleRequestGeneration (key_slot q) (rq_generation r) (key_generation q))
        else None)"

lemma create_request_key_correct:
  assumes inv: "kv_inv p"
  shows "case create_decision p q of
      Some e \<Rightarrow> create_request_key p q = Some (Inl e, p)
    | None \<Rightarrow> let r = (kv_requests p ! key_slot q)\<lparr>rq_live := True\<rparr>;
                  p' = p\<lparr>kv_requests := (kv_requests p)[key_slot q := r]\<rparr>
               in create_request_key p q = Some (Inr (), p') \<and> kv_inv p'"
proof (cases "create_decision p q")
  case (Some e)
  then show ?thesis using kv_shape(10) [OF inv]
    by (auto simp: create_decision_def create_request_key_def exec_simps Let_def split: if_splits)
next
  case None
  then have s: "key_slot q < MAX_REQUEST_SLOTS" "\<not> rq_live (kv_requests p ! key_slot q)"
    "rq_generation (kv_requests p ! key_slot q) = key_generation q"
    by (auto simp: create_decision_def Let_def split: if_splits)
  have "kv_inv (p\<lparr>kv_requests := (kv_requests p)[key_slot q := (kv_requests p ! key_slot q)\<lparr>rq_live := True\<rparr>]\<rparr>)"
    by (rule kv_inv_relabel [OF inv s(1)]) (use kv_inv_request [OF inv s(1)] s in \<open>auto simp: request_ok_def\<close>)
  then show ?thesis using None s kv_shape(10) [OF inv]
    by (simp add: create_request_key_def exec_simps)
qed

subsection \<open>Reading\<close>

definition read_decision :: "kv_pool \<Rightarrow> request_key \<Rightarrow> u32 \<Rightarrow> u32 \<Rightarrow> kv_error option" where
  "read_decision p q a n =
     (case key_decision p q of
        Some e \<Rightarrow> Some e
      | None \<Rightarrow> if rq_resident_tokens (kv_requests p ! key_slot q) < a + n then Some ReadOutOfBounds else None)"

lemma validate_read_key_correct:
  assumes inv: "kv_inv p"
  shows "validate_read_key p q a n =
    Some (case read_decision p q a n of Some e \<Rightarrow> Inl e | None \<Rightarrow> Inr ())"
proof (cases "key_decision p q")
  case (Some e)
  then show ?thesis by (simp add: validate_read_key_def read_decision_def live_request_index_eq [OF inv])
next
  case None
  then have live: "live_at p q (key_slot q) (kv_requests p ! key_slot q)" by (simp add: key_decision_None)
  note l = live_atD [OF inv live]
  show ?thesis
    using None l(3,7) kv_shape(3) [OF inv]
    by (auto simp: validate_read_key_def read_decision_def live_request_index_eq [OF inv] exec_simps
        request_ok_def split: option.split)
qed

subsection \<open>Conservation of pages\<close>

definition in_use :: "kv_pool \<Rightarrow> nat set" where
  "in_use p = (\<Union>s < MAX_REQUEST_SLOTS. owned (kv_requests p ! s))"

lemma not_free_in_use:
  assumes "kv_inv p" "i < kv_page_limit p"
  shows "pg_state (kv_pages p ! i) \<noteq> Free \<longleftrightarrow> i \<in> in_use p"
proof
  assume "pg_state (kv_pages p ! i) \<noteq> Free"
  then have "pg_reference_mask (kv_pages p ! i) \<noteq> 0"
    using kv_inv_page [OF assms] bit_reference
    by (auto simp: page_ok_def word_nonzero_iff split: page_state.splits)
  then show "i \<in> in_use p"
    using kv_inv_mask [OF assms] by (auto simp: word_nonzero_iff in_use_def MAX_REQUEST_SLOTS_def)
qed (use owned_not_free [OF assms(1)] in \<open>auto simp: in_use_def\<close>)

lemma pages_conserved:
  assumes "kv_inv p"
  shows "kv_free_len p + card (in_use p) = kv_page_limit p"
proof -
  let ?F = "{i. i < kv_page_limit p \<and> pg_state (kv_pages p ! i) = Free}"
  have "free_ok p" by (rule kv_inv_free [OF assms])
  then have F: "card ?F = kv_free_len p"
    using distinct_card [of "take (kv_free_len p) (kv_free_stack p)"] free_len_bound [OF assms]
    by (simp add: free_ok_def)
  have "?F \<inter> in_use p = {}" "?F \<union> in_use p = {..<kv_page_limit p}"
    using not_free_in_use [OF assms] owned_not_free [OF assms] by (auto simp: in_use_def)
  then have "card ?F + card (in_use p) = kv_page_limit p"
    by (metis card_Un_disjoint card_lessThan finite_Un finite_lessThan)
  with F show ?thesis by simp
qed

end
