(* ===== verification/KvPool_Machine.thy ===== *)
theory KvPool_Machine
  imports KvPool_System
begin

text \<open>
  The public methods of \<open>KvPool\<close> as one transactional state machine, and its refinement of an
  abstract ledger that knows token counts and generations but no pages.
\<close>

subsection \<open>Calls\<close>

text \<open>Token counts are 32-bit words, so that every call of the datatype is one the Rust types
  allow.\<close>

datatype kv_call =
    KvCreate request_id
  | KvAppend request_id "32 word"
  | KvShare request_id request_id "32 word"
  | KvFinalize request_id "32 word" kv_quiescence_permit
  | KvRelease request_id kv_quiescence_permit
  | KvRead request_id "32 word" "32 word"

datatype kv_reply = KvDone | KvFinalized kv_finalized_request | KvDetached kv_detached_request

definition kv_step :: "kv_call \<Rightarrow> kv_pool \<Rightarrow> ((kv_error + kv_reply) \<times> kv_pool) exec" where
  "kv_step call p =
     (case call of
        KvCreate q \<Rightarrow> map_option (apfst (map_sum id (\<lambda>_. KvDone))) (kv_create_request p q)
      | KvAppend q n \<Rightarrow> map_option (apfst (map_sum id (\<lambda>_. KvDone))) (kv_append_tentative p q (unat n))
      | KvShare a b n \<Rightarrow>
          map_option (apfst (map_sum id (\<lambda>_. KvDone))) (kv_share_committed_prefix p a b (unat n))
      | KvFinalize q n permit \<Rightarrow>
          map_option (apfst (map_sum auth_error KvFinalized)) (kv_finalize_tentative p q (unat n) permit)
      | KvRelease q permit \<Rightarrow>
          map_option (apfst (map_sum auth_error KvDetached)) (kv_release_request p q permit)
      | KvRead q a n \<Rightarrow>
          map_option (\<lambda>v. (map_sum id (\<lambda>_. KvDone) v, p)) (kv_validate_read p q (unat a) (unat n)))"

text \<open>Which error a call reports, if any.\<close>

definition permit_matches :: "kv_quiescence_permit \<Rightarrow> request_id \<Rightarrow> bool" where
  "permit_matches permit q = (slot (permit_request permit) = slot q
     \<and> generation (permit_request permit) = generation q)"

definition kv_decision :: "kv_pool \<Rightarrow> kv_call \<Rightarrow> kv_error option" where
  "kv_decision p call =
     (case call of
        KvCreate q \<Rightarrow> create_decision p (request_key_of q)
      | KvAppend q n \<Rightarrow> append_decision p (request_key_of q) (unat n)
      | KvShare a b n \<Rightarrow> share_decision p (request_key_of a) (request_key_of b) (unat n)
      | KvFinalize q n permit \<Rightarrow>
          if \<not> permit_matches permit q \<or> permit_origin permit = NeverSubmitted
          then Some InvalidQuiescencePermit else finalize_decision p (request_key_of q) (unat n)
      | KvRelease q permit \<Rightarrow>
          if \<not> permit_matches permit q then Some InvalidQuiescencePermit
          else release_decision p (request_key_of q)
      | KvRead q a n \<Rightarrow> read_decision p (request_key_of q) (unat a) (unat n))"

text \<open>What a successful call did.\<close>

definition kv_effect :: "kv_call \<Rightarrow> kv_pool \<Rightarrow> kv_pool \<Rightarrow> bool" where
  "kv_effect call p p' =
     (case call of
        KvCreate q \<Rightarrow> p' = p\<lparr>kv_requests := (kv_requests p)[slot q := (kv_requests p ! slot q)\<lparr>rq_live := True\<rparr>]\<rparr>
      | KvAppend q n \<Rightarrow> appended p p' (slot q) (unat n)
      | KvShare a b n \<Rightarrow> prefix_shared p p' (slot a) (slot b) (unat n div kv_page_tokens p)
      | KvFinalize q n permit \<Rightarrow> finalized p p' (slot q) (unat n)
      | KvRelease q permit \<Rightarrow> released p p' (slot q)
      | KvRead q a n \<Rightarrow> p' = p)"

lemma key_of_simps [simp]: "key_slot (request_key_of q) = slot q" "key_generation (request_key_of q) = generation q"
  by (simp_all add: request_key_of_def)

lemma unat32_le [simp]: "unat (n :: 32 word) \<le> U32_MAX"
  using unsigned_less [of n, where 'a = nat] by simp

lemma kv_step_correct:
  assumes inv: "kv_inv p"
  shows "case kv_decision p call of
      Some e \<Rightarrow> kv_step call p = Some (Inl e, p)
    | None \<Rightarrow> \<exists>v p'. kv_step call p = Some (Inr v, p') \<and> kv_inv p' \<and> kv_effect call p p'"
proof (cases call)
  case (KvCreate q)
  then show ?thesis using create_request_key_correct [OF inv, of "request_key_of q"]
    by (auto simp: kv_decision_def kv_step_def kv_effect_def kv_create_request_def Let_def split: option.splits)
next
  case (KvAppend q n)
  then show ?thesis using append_tentative_key_correct [OF inv, of "request_key_of q" "unat n"]
    by (auto simp: kv_decision_def kv_step_def kv_effect_def kv_append_tentative_def split: option.splits)
next
  case (KvShare a b n)
  then show ?thesis
    using share_committed_prefix_key_correct [OF inv unat32_le, of "request_key_of a" "request_key_of b" n]
    by (auto simp: kv_decision_def kv_step_def kv_effect_def kv_share_committed_prefix_def split: option.splits)
next
  case (KvFinalize q n permit)
  then show ?thesis using finalize_tentative_key_correct [OF inv, of "request_key_of q" "unat n"]
    by (auto simp: kv_decision_def kv_step_def kv_effect_def kv_finalize_tentative_def permit_matches_def
        split: option.splits kv_quiescence_origin.splits)
next
  case (KvRelease q permit)
  then show ?thesis using release_request_key_correct [OF inv, of "request_key_of q"]
    by (auto simp: kv_decision_def kv_step_def kv_effect_def kv_release_request_def permit_matches_def
        split: option.splits)
next
  case (KvRead q a n)
  then show ?thesis using validate_read_key_correct [OF inv, of "request_key_of q" "unat a" "unat n"] inv
    by (auto simp: kv_decision_def kv_step_def kv_effect_def kv_validate_read_def split: option.splits)
qed

interpretation pool: transactional_machine kv_inv kv_step
proof
  fix p call assume "kv_inv p"
  from kv_step_correct [OF this, of call] show "kv_step call p \<noteq> None"
    by (auto split: option.splits)
next
  fix p call r p' assume "kv_inv p" "kv_step call p = Some (r, p')"
  with kv_step_correct [of p call] show "kv_inv p'" by (auto split: option.splits)
next
  fix p call e p' assume "kv_inv p" "kv_step call p = Some (Inl e, p')"
  with kv_step_correct [of p call] show "p' = p" by (auto split: option.splits)
qed

subsection \<open>The abstract ledger\<close>

record ledger_entry =
  le_live :: bool
  le_generation :: u32
  le_committed :: u32
  le_resident :: u32

definition entry_of :: "request_slot \<Rightarrow> ledger_entry" where
  "entry_of r = \<lparr>le_live = rq_live r, le_generation = rq_generation r,
     le_committed = rq_committed_tokens r, le_resident = rq_resident_tokens r\<rparr>"

definition ledger :: "kv_pool \<Rightarrow> ledger_entry list" where
  "ledger p = map entry_of (kv_requests p)"

definition le_current :: "ledger_entry list \<Rightarrow> request_id \<Rightarrow> bool" where
  "le_current L q = (slot q < length L \<and> le_live (L ! slot q) \<and> le_generation (L ! slot q) = generation q)"

text \<open>The specification: for every call, when it may succeed and what it does to the counts.  The
  parameters are the page size and the context limit.\<close>

definition ledger_step :: "u32 \<Rightarrow> u32 \<Rightarrow> kv_call \<Rightarrow> ledger_entry list \<Rightarrow> ledger_entry list option" where
  "ledger_step pt ctx call L =
     (case call of
        KvCreate q \<Rightarrow>
          if slot q < length L \<and> \<not> le_live (L ! slot q) \<and> le_generation (L ! slot q) = generation q
          then Some (L[slot q := (L ! slot q)\<lparr>le_live := True\<rparr>]) else None
      | KvAppend q n \<Rightarrow>
          if le_current L q \<and> le_resident (L ! slot q) + unat n \<le> ctx
          then Some (L[slot q := (L ! slot q)\<lparr>le_resident := le_resident (L ! slot q) + unat n\<rparr>]) else None
      | KvShare a b n \<Rightarrow>
          if le_current L a \<and> le_current L b \<and> slot a \<noteq> slot b \<and> 0 < n \<and> pt dvd unat n
             \<and> unat n \<le> le_committed (L ! slot a) \<and> le_resident (L ! slot b) = 0
          then Some (L[slot b := (L ! slot b)\<lparr>le_committed := unat n, le_resident := unat n\<rparr>]) else None
      | KvFinalize q n permit \<Rightarrow>
          let c = le_committed (L ! slot q) + unat n in
          if permit_matches permit q \<and> permit_origin permit \<noteq> NeverSubmitted \<and> le_current L q
             \<and> c \<le> le_resident (L ! slot q)
          then Some (L[slot q := (L ! slot q)\<lparr>le_committed := c, le_resident := c\<rparr>]) else None
      | KvRelease q permit \<Rightarrow>
          if permit_matches permit q \<and> le_current L q \<and> le_generation (L ! slot q) \<noteq> U32_MAX
          then Some (L[slot q := \<lparr>le_live = False, le_generation = le_generation (L ! slot q) + 1,
                                   le_committed = 0, le_resident = 0\<rparr>]) else None
      | KvRead q a n \<Rightarrow>
          if le_current L q \<and> unat a + unat n \<le> le_resident (L ! slot q) then Some L else None)"

definition resource_error :: "kv_error \<Rightarrow> bool" where
  "resource_error e = (case e of OutOfPages \<Rightarrow> True | GenerationExhausted _ \<Rightarrow> True | _ \<Rightarrow> False)"

lemma ledger_only_slot:
  assumes "only_slot p p' s" "s < length (kv_requests p)"
  shows "ledger p' = (ledger p)[s := entry_of (kv_requests p' ! s)]"
  using assms(1) unfolding only_slot_def ledger_def by (metis map_update)

lemma ledger_nth [simp]:
  "kv_inv p \<Longrightarrow> s < MAX_REQUEST_SLOTS \<Longrightarrow> ledger p ! s = entry_of (kv_requests p ! s)"
  "kv_inv p \<Longrightarrow> length (ledger p) = MAX_REQUEST_SLOTS"
  using kv_shape(10) by (auto simp: ledger_def)

lemma le_current_iff:
  assumes "kv_inv p"
  shows "le_current (ledger p) q \<longleftrightarrow> key_decision p (request_key_of q) = None"
  using assms by (auto simp: le_current_def key_decision_def entry_of_def Let_def)

lemma current_slot: "key_decision p (request_key_of q) = None \<Longrightarrow> slot q < MAX_REQUEST_SLOTS"
  by (auto simp: key_decision_def split: if_splits)

lemma entry_sel [simp]:
  "le_live (entry_of r) = rq_live r" "le_generation (entry_of r) = rq_generation r"
  "le_committed (entry_of r) = rq_committed_tokens r" "le_resident (entry_of r) = rq_resident_tokens r"
  by (simp_all add: entry_of_def)

lemma ledger_refine_guard:
  assumes inv: "kv_inv p"
  shows "(ledger_step (kv_page_tokens p) (kv_max_context_tokens p) call (ledger p) = None) \<longleftrightarrow>
    (\<exists>e. kv_decision p call = Some e \<and> \<not> resource_error e)"
proof (cases call)
  case (KvCreate q)
  then show ?thesis using inv
    by (auto simp: ledger_step_def kv_decision_def create_decision_def resource_error_def Let_def)
next
  case (KvAppend q n)
  then show ?thesis using inv current_slot [of p q]
    by (auto simp: ledger_step_def kv_decision_def append_decision_def resource_error_def le_current_iff Let_def
        key_decision_def split: option.splits)
next
  case (KvShare a b n)
  then show ?thesis using inv current_slot [of p a] current_slot [of p b]
    by (auto simp: ledger_step_def kv_decision_def share_decision_def resource_error_def le_current_iff
        key_decision_def word_gt_0 unsigned_eq_0_iff dvd_eq_mod_eq_0 Let_def split: option.splits if_splits)
next
  case (KvFinalize q n permit)
  then show ?thesis using inv current_slot [of p q]
    by (auto simp: ledger_step_def kv_decision_def finalize_decision_def resource_error_def le_current_iff Let_def
        key_decision_def split: option.splits)
next
  case (KvRelease q permit)
  then show ?thesis using inv current_slot [of p q]
    by (auto simp: ledger_step_def kv_decision_def release_decision_def resource_error_def le_current_iff Let_def
        key_decision_def split: option.splits)
next
  case (KvRead q a n)
  then show ?thesis using inv current_slot [of p q]
    by (auto simp: ledger_step_def kv_decision_def read_decision_def resource_error_def le_current_iff
        key_decision_def Let_def split: option.splits if_splits)
qed

text \<open>A successful call has exactly the effect the ledger prescribes.\<close>

lemma live_slot:
  assumes "kv_inv p" "key_decision p q = None"
  shows "key_slot q < MAX_REQUEST_SLOTS" "key_slot q < length (kv_requests p)" "rq_live (kv_requests p ! key_slot q)"
  using live_atD(2,3,6) [OF assms(1) assms(2) [unfolded key_decision_None]] by simp_all

lemma ledger_refine_effect:
  assumes inv: "kv_inv p" and ok: "kv_decision p call = None" and eff: "kv_effect call p p'"
  shows "ledger_step (kv_page_tokens p) (kv_max_context_tokens p) call (ledger p) = Some (ledger p')"
proof (cases "ledger_step (kv_page_tokens p) (kv_max_context_tokens p) call (ledger p)")
  case None
  then show ?thesis using ledger_refine_guard [OF inv, of call] ok by auto
next
  case (Some L)
  have "L = ledger p'"
  proof (cases call)
    case (KvCreate q)
    then have "slot q < MAX_REQUEST_SLOTS" using ok
      by (auto simp: kv_decision_def create_decision_def split: if_splits)
    then show ?thesis using KvCreate Some eff inv
      by (auto simp: ledger_step_def kv_effect_def ledger_def map_update entry_of_def split: if_splits)
  next
    case (KvAppend q n)
    then have k: "key_decision p (request_key_of q) = None" and a: "appended p p' (slot q) (unat n)"
      using ok eff by (auto simp: kv_decision_def append_decision_def kv_effect_def split: option.splits)
    then have "ledger p' = (ledger p)[slot q := entry_of (kv_requests p' ! slot q)]"
      using live_slot [OF inv k] by (intro ledger_only_slot) (auto simp: appended_def Let_def)
    then show ?thesis using KvAppend Some a live_slot [OF inv k] inv
      by (auto simp: ledger_step_def appended_def entry_of_def Let_def split: if_splits)
  next
    case (KvShare a b n)
    then have k: "key_decision p (request_key_of b) = None"
      and e: "prefix_shared p p' (slot a) (slot b) (unat n div kv_page_tokens p)"
      and al: "unat n div kv_page_tokens p * kv_page_tokens p = unat n"
      using ok eff by (auto simp: kv_decision_def share_decision_def kv_effect_def split: option.splits if_splits)
    then have "ledger p' = (ledger p)[slot b := entry_of (kv_requests p' ! slot b)]"
      using live_slot [OF inv k] by (intro ledger_only_slot) (auto simp: prefix_shared_def Let_def)
    then show ?thesis using KvShare Some e al live_slot [OF inv k] inv
      by (auto simp: ledger_step_def prefix_shared_def entry_of_def Let_def split: if_splits)
  next
    case (KvFinalize q n permit)
    then have k: "key_decision p (request_key_of q) = None" and e: "finalized p p' (slot q) (unat n)"
      using ok eff by (auto simp: kv_decision_def finalize_decision_def kv_effect_def split: option.splits if_splits)
    then have "ledger p' = (ledger p)[slot q := entry_of (kv_requests p' ! slot q)]"
      using live_slot [OF inv k] by (intro ledger_only_slot) (auto simp: finalized_def Let_def)
    then show ?thesis using KvFinalize Some e live_slot [OF inv k] inv
      by (auto simp: ledger_step_def finalized_def entry_of_def Let_def split: if_splits)
  next
    case (KvRelease q permit)
    then have k: "key_decision p (request_key_of q) = None" and e: "released p p' (slot q)"
      using ok eff by (auto simp: kv_decision_def release_decision_def kv_effect_def split: option.splits if_splits)
    then have "ledger p' = (ledger p)[slot q := entry_of (kv_requests p' ! slot q)]"
      using live_slot [OF inv k] by (intro ledger_only_slot) (auto simp: released_def Let_def)
    then show ?thesis using KvRelease Some e live_slot [OF inv k] inv
      by (auto simp: ledger_step_def released_def entry_of_def Let_def split: if_splits)
  next
    case (KvRead q a n)
    then show ?thesis using Some eff by (auto simp: ledger_step_def kv_effect_def split: if_splits)
  qed
  with Some show ?thesis by simp
qed

end
