(* ===== verification/KvPool_Properties.thy ===== *)
theory KvPool_Properties
  imports KvPool_Machine
begin

text \<open>
  What the page pool guarantees to its callers, in terms of its public methods, with a
  concrete instance for every guarantee that has a premise.
\<close>

subsection \<open>Reachable pools\<close>

definition kv_reachable :: "u32 \<Rightarrow> u32 \<Rightarrow> u32 \<Rightarrow> kv_call list \<Rightarrow> kv_pool \<Rightarrow> bool" where
  "kv_reachable n pt ctx calls p =
     (n \<le> U32_MAX \<and> pt \<le> U32_MAX \<and> ctx \<le> U32_MAX
      \<and> (\<exists>p0. kv_new n pt ctx = Some (Inr p0) \<and> run_ops kv_step calls p0 = Some p))"

lemma kv_step_config:
  assumes "kv_inv p" "kv_step call p = Some (r, p')"
  shows "same_config p p'"
proof (cases "kv_decision p call")
  case (Some e)
  then show ?thesis using kv_step_correct [OF assms(1), of call] assms(2) by (simp add: same_config_def)
next
  case None
  then show ?thesis using kv_step_correct [OF assms(1), of call] assms(2)
    by (cases call)
       (auto simp: kv_effect_def same_config_def appended_def prefix_shared_def finalized_def released_def Let_def)
qed

lemma kv_run_config:
  assumes "kv_inv p" "run_ops kv_step calls p = Some p'"
  shows "same_config p p'"
  using assms
proof (induction calls arbitrary: p)
  case Nil
  then show ?case by (simp add: same_config_def)
next
  case (Cons c cs)
  from Cons.prems(2) obtain r q where q: "kv_step c p = Some (r, q)" "run_ops kv_step cs q = Some p'"
    by (auto split: option.splits)
  have "kv_inv q" by (rule pool.step_inv [OF Cons.prems(1) q(1)])
  then show ?case using Cons.IH [OF _ q(2)] kv_step_config [OF Cons.prems(1) q(1)] by (simp add: same_config_def)
qed

lemma only_slot_other: "only_slot p p' i \<Longrightarrow> j \<noteq> i \<Longrightarrow> kv_requests p' ! j = kv_requests p ! j"
  unfolding only_slot_def by (metis nth_list_update_neq)

lemma kv_new_pool:
  assumes "n \<le> U32_MAX" "pt \<le> U32_MAX" "ctx \<le> U32_MAX" "kv_new n pt ctx = Some (Inr p)"
  shows "kv_inv p" "kv_page_limit p = n" "kv_page_tokens p = pt" "kv_max_context_tokens p = ctx" "kv_free_len p = n"
    "kv_requests p = replicate MAX_REQUEST_SLOTS request_slot_empty"
  using new_bounded_correct [OF assms(1-3)] assms(4) by (auto simp: kv_new_def split: option.splits)

lemma kv_reachableD:
  assumes "kv_reachable n pt ctx calls p"
  shows "kv_inv p" "kv_page_limit p = n" "kv_page_tokens p = pt" "kv_max_context_tokens p = ctx"
proof -
  obtain p0 where p0: "n \<le> U32_MAX" "pt \<le> U32_MAX" "ctx \<le> U32_MAX" "kv_new n pt ctx = Some (Inr p0)"
    "run_ops kv_step calls p0 = Some p" using assms by (auto simp: kv_reachable_def)
  note f = kv_new_pool [OF p0(1-4)]
  show "kv_inv p" using f(1) p0(5) by (rule pool.run_inv)
  show "kv_page_limit p = n" "kv_page_tokens p = pt" "kv_max_context_tokens p = ctx"
    using kv_run_config [OF f(1) p0(5)] f by (auto simp: same_config_def)
qed

text \<open>A pool of four pages of two tokens and a context of eight, and one of its requests.\<close>

definition demo_request :: request_id where
  "demo_request = \<lparr>slot = 0, generation = 1\<rparr>"

lemma demo_new:
  obtains p0 where "kv_new 4 2 8 = Some (Inr p0)" "kv_reachable 4 2 8 [] p0"
proof -
  have "new_decision 4 2 8 = None" by (simp add: new_decision_def MAX_PAGE_SLOTS_def MAX_PAGES_PER_REQUEST_def)
  then obtain p0 where "kv_new 4 2 8 = Some (Inr p0)"
    using new_bounded_correct [of 4 2 8] by (auto simp: kv_new_def)
  then show ?thesis using that by (simp add: kv_reachable_def)
qed

lemma kv_reachable_step:
  assumes "kv_reachable n pt ctx calls p" "kv_step c p = Some (r, p')"
  shows "kv_reachable n pt ctx (calls @ [c]) p'"
  using assms by (auto simp: kv_reachable_def run_ops_append)

text \<open>Two requests; the first commits one page of two tokens, the second borrows it.\<close>

definition demo_target :: request_id where
  "demo_target = \<lparr>slot = 1, generation = 1\<rparr>"

definition demo_permit :: kv_quiescence_permit where
  "demo_permit = \<lparr>permit_request = demo_request, permit_origin = CompletedExact 1\<rparr>"

definition demo_calls :: "kv_call list" where
  "demo_calls = [KvCreate demo_request, KvCreate demo_target, KvAppend demo_request 2]"

definition demo_shared_calls :: "kv_call list" where
  "demo_shared_calls = demo_calls @ [KvFinalize demo_request 2 demo_permit, KvShare demo_request demo_target 2]"

lemmas demo_defs = demo_request_def demo_target_def demo_permit_def MAX_REQUEST_SLOTS_def

text \<open>A call whose decision is known to succeed.\<close>

lemma kv_step_ok:
  assumes "kv_reachable n pt ctx calls p" "kv_decision p c = None"
  obtains v p' where "kv_step c p = Some (Inr v, p')" "kv_reachable n pt ctx (calls @ [c]) p'" "kv_effect c p p'"
  using kv_step_correct [OF kv_reachableD(1) [OF assms(1)], of c] assms(2) kv_reachable_step [OF assms(1)] by auto

definition demo_live :: "kv_pool \<Rightarrow> u32 \<Rightarrow> u32 \<Rightarrow> u32 \<Rightarrow> bool" where
  "demo_live p resident committed target =
     (rq_live (kv_requests p ! 0) \<and> rq_generation (kv_requests p ! 0) = 1
      \<and> rq_resident_tokens (kv_requests p ! 0) = resident \<and> rq_committed_tokens (kv_requests p ! 0) = committed
      \<and> rq_live (kv_requests p ! 1) \<and> rq_generation (kv_requests p ! 1) = 1
      \<and> rq_resident_tokens (kv_requests p ! 1) = target \<and> rq_committed_tokens (kv_requests p ! 1) = target)"

lemma demo_key:
  "demo_live p a b c \<Longrightarrow> key_decision p (request_key_of demo_request) = None"
  "demo_live p a b c \<Longrightarrow> key_decision p (request_key_of demo_target) = None"
  by (auto simp: demo_live_def key_decision_def demo_defs Let_def)

lemma demo_pages:
  assumes "kv_reachable 4 2 8 calls p" "demo_live p 2 b c"
  shows "rq_page_count (kv_requests p ! 0) = 1" "length (chain (kv_requests p ! 0)) = 1"
proof -
  note f = kv_reachableD [OF assms(1)] and S = kv_inv_shape [OF kv_reachableD(1) [OF assms(1)]]
  have r: "request_ok p (kv_requests p ! 0)" by (rule kv_inv_request [OF f(1)]) (simp add: MAX_REQUEST_SLOTS_def)
  show "rq_page_count (kv_requests p ! 0) = 1"
    using request_pages [OF S r] f(3) assms(2) by (simp add: demo_live_def pages_for_def)
  then show "length (chain (kv_requests p ! 0)) = 1" using length_chain [OF S r] by simp
qed

lemma demo_append:
  obtains p where "kv_reachable 4 2 8 demo_calls p" "demo_live p 2 0 0" "kv_free_len p = 3"
proof -
  obtain p0 where p0: "kv_new 4 2 8 = Some (Inr p0)" "kv_reachable 4 2 8 [] p0" by (rule demo_new)
  note f = kv_reachableD [OF p0(2)]
  have r0: "kv_requests p0 = replicate 32 request_slot_empty" "kv_free_len p0 = 4"
    using kv_new_pool(5,6) [OF _ _ _ p0(1)] by (simp_all add: MAX_REQUEST_SLOTS_def)
  have "kv_decision p0 (KvCreate demo_request) = None"
    using r0 by (simp add: kv_decision_def create_decision_def request_slot_empty_def demo_defs)
  then obtain v p1 where p1: "kv_reachable 4 2 8 [KvCreate demo_request] p1" "kv_effect (KvCreate demo_request) p0 p1"
    using kv_step_ok [OF p0(2)] by (metis append_Nil)
  have r1: "kv_requests p1 = (replicate 32 request_slot_empty)[0 := request_slot_empty\<lparr>rq_live := True\<rparr>]" "kv_free_len p1 = 4"
    using p1(2) r0 by (simp_all add: kv_effect_def demo_defs)
  have "kv_decision p1 (KvCreate demo_target) = None"
    using r1 by (simp add: kv_decision_def create_decision_def request_slot_empty_def demo_defs)
  then obtain v' p2 where p2: "kv_reachable 4 2 8 [KvCreate demo_request, KvCreate demo_target] p2"
    "kv_effect (KvCreate demo_target) p1 p2"
    using kv_step_ok [OF p1(1)] by (metis append_Cons append_Nil)
  have r2: "kv_requests p2 = (replicate 32 request_slot_empty)[0 := request_slot_empty\<lparr>rq_live := True\<rparr>,
      1 := request_slot_empty\<lparr>rq_live := True\<rparr>]" "kv_free_len p2 = 4"
    using p2(2) r1 by (simp_all add: kv_effect_def demo_defs)
  have l2: "demo_live p2 0 0 0" using r2 by (simp add: demo_live_def request_slot_empty_def)
  have "kv_decision p2 (KvAppend demo_request 2) = None"
    using demo_key(1) [OF l2] kv_reachableD [OF p2(1)] r2 l2
    by (simp add: kv_decision_def append_decision_def demo_live_def pages_for_def demo_defs)
  then obtain p3 where p3: "kv_reachable 4 2 8 demo_calls p3" "kv_effect (KvAppend demo_request 2) p2 p3"
    using kv_step_ok [OF p2(1)] by (metis append_Cons append_Nil demo_calls_def)
  have a: "appended p2 p3 0 2" using p3(2) by (simp add: kv_effect_def demo_request_def)
  then have l3: "demo_live p3 2 0 0" using l2 only_slot_other [of p2 p3 0 1]
    by (auto simp: appended_def demo_live_def Let_def)
  obtain cs where cs: "chain (kv_requests p3 ! 0) = chain (kv_requests p2 ! 0) @ cs" "kv_free_len p2 = kv_free_len p3 + length cs"
    using a by (auto simp: appended_def Let_def)
  have "chain (kv_requests p2 ! 0) = []" using r2 by (simp add: chain_def request_slot_empty_def)
  then have "kv_free_len p3 = 3" using cs demo_pages(2) [OF p3(1) l3] r2(2) by simp
  with p3(1) l3 show ?thesis by (rule that)
qed

lemma demo_commit:
  assumes "k = 1 \<or> k = 2"
  obtains p where "kv_reachable 4 2 8 (demo_calls @ [KvFinalize demo_request k demo_permit]) p" "demo_live p (unat k) (unat k) 0"
proof -
  obtain p0 where p0: "kv_reachable 4 2 8 demo_calls p0" "demo_live p0 2 0 0" by (rule demo_append)
  have "kv_decision p0 (KvFinalize demo_request k demo_permit) = None"
    using demo_key(1) [OF p0(2)] kv_reachableD [OF p0(1)] demo_pages [OF p0] p0(2) assms
    by (auto simp: kv_decision_def finalize_decision_def permit_matches_def demo_live_def pages_for_def demo_defs)
  then obtain p where p: "kv_reachable 4 2 8 (demo_calls @ [KvFinalize demo_request k demo_permit]) p"
    "kv_effect (KvFinalize demo_request k demo_permit) p0 p" using kv_step_ok [OF p0(1)] by metis
  have "finalized p0 p 0 (unat k)" using p(2) by (simp add: kv_effect_def demo_request_def)
  then have "demo_live p (unat k) (unat k) 0" using p0(2) only_slot_other [of p0 p 0 1]
    by (auto simp: finalized_def demo_live_def Let_def)
  with p(1) show ?thesis by (rule that)
qed

lemma demo_share:
  obtains p where "kv_reachable 4 2 8 demo_shared_calls p" "demo_live p 2 2 2"
    "rq_page_count (kv_requests p ! 1) = 1" "rq_pages (kv_requests p ! 1) ! 0 = rq_pages (kv_requests p ! 0) ! 0"
proof -
  obtain p1 where p1: "kv_reachable 4 2 8 (demo_calls @ [KvFinalize demo_request 2 demo_permit]) p1" and l1: "demo_live p1 2 2 0"
    using demo_commit [of 2] by auto
  note f1 = kv_reachableD [OF p1(1)] and d1 = demo_pages [OF p1(1) l1]
  have "kv_decision p1 (KvShare demo_request demo_target 2) = None"
    using demo_key [OF l1] f1 l1 by (simp add: kv_decision_def share_decision_def demo_live_def demo_defs)
  then obtain p2 where p2: "kv_reachable 4 2 8 demo_shared_calls p2" "kv_effect (KvShare demo_request demo_target 2) p1 p2"
    using kv_step_ok [OF p1(1)] by (metis append_assoc append_Cons append_Nil demo_shared_calls_def)
  have sh: "prefix_shared p1 p2 0 1 1" using p2(2) f1(3) by (simp add: kv_effect_def demo_defs)
  then have "kv_requests p2 ! 0 = kv_requests p1 ! 0" using only_slot_other [of p1 p2 1 0]
    by (simp add: prefix_shared_def Let_def)
  then have l2: "demo_live p2 2 2 2" "chain (kv_requests p2 ! 1) = chain (kv_requests p2 ! 0)" "rq_page_count (kv_requests p2 ! 1) = 1"
    using sh l1 f1(3) d1(2) by (auto simp: prefix_shared_def demo_live_def Let_def)
  moreover have "rq_pages (kv_requests p2 ! 1) ! 0 = rq_pages (kv_requests p2 ! 0) ! 0"
    using arg_cong [OF l2(2), of "\<lambda>xs. xs ! 0"] l2(3) demo_pages(1) [OF p2(1) l2(1)] by (simp add: chain_nth)
  ultimately show ?thesis using that p2(1) by blast
qed

subsection \<open>Refinement, panic freedom and transactions\<close>

lemma step_cases:
  assumes "kv_reachable n pt ctx calls p"
  obtains e where "kv_decision p c = Some e" "kv_step c p = Some (Inl e, p)"
  | v p' where "kv_decision p c = None" "kv_step c p = Some (Inr v, p')" "kv_inv p'" "kv_effect c p p'"
  using kv_step_correct [OF kv_reachableD(1) [OF assms], of c] by (cases "kv_decision p c") auto

text \<open>C2: the page pool implements the ledger.  On every pool the public methods can produce, every
  call returns; when it succeeds, the token counts, generations and liveness of all requests change
  exactly as the ledger specification says; when it fails, nothing changes, and either the
  specification forbids the call or the pool ran out of a resource (pages or page generations).\<close>

theorem kv_refines_ledger:
  assumes "kv_reachable n pt ctx calls p"
  shows "\<exists>r p'. kv_step c p = Some (r, p') \<and>
    (case r of
       Inr _ \<Rightarrow> ledger_step pt ctx c (ledger p) = Some (ledger p')
     | Inl e \<Rightarrow> p' = p \<and> (ledger_step pt ctx c (ledger p) = None \<longleftrightarrow> \<not> resource_error e))"
proof -
  note f = kv_reachableD [OF assms] and g = ledger_refine_guard [OF kv_reachableD(1) [OF assms], of c]
  show ?thesis using assms
  proof (cases rule: step_cases [of n pt ctx calls p c])
    case (1 e)
    then show ?thesis using g f by auto
  next
    case (2 v p')
    then show ?thesis using ledger_refine_effect [OF f(1) 2(1,4)] f by simp
  qed
qed

theorem kv_refines_ledger_witness:
  "\<exists>p r p'. kv_reachable 4 2 8 demo_calls p \<and> kv_step (KvAppend demo_request 7) p = Some (r, p') \<and>
    (case r of
       Inr _ \<Rightarrow> ledger_step 2 8 (KvAppend demo_request 7) (ledger p) = Some (ledger p')
     | Inl e \<Rightarrow> p' = p \<and> (ledger_step 2 8 (KvAppend demo_request 7) (ledger p) = None \<longleftrightarrow> \<not> resource_error e))"
proof -
  obtain p where p: "kv_reachable 4 2 8 demo_calls p" by (rule demo_append)
  from kv_refines_ledger [OF p, of "KvAppend demo_request 7"] p show ?thesis by blast
qed

text \<open>no sequence of public calls makes a pool panic.  For every page count, page size and context
  length for which \<^verbatim>\<open>KvPool::new\<close> succeeds, every sequence of calls with arbitrary arguments runs to
  the end, no array access out of range and no arithmetic overflow, and the ownership invariant holds
  in the pool it leaves.\<close>

theorem kv_run_never_panics:
  fixes n pt ctx :: "32 word"
  assumes "kv_new (unat n) (unat pt) (unat ctx) = Some (Inr p0)"
  shows "\<exists>p. run_ops kv_step calls p0 = Some p \<and> kv_inv p"
  using kv_new_pool(1) [OF unat32_le unat32_le unat32_le assms] by (rule pool.run_safe)

theorem kv_run_never_panics_witness:
  "\<exists>p0 p. kv_new 4 2 8 = Some (Inr p0) \<and> run_ops kv_step demo_shared_calls p0 = Some p \<and> kv_inv p"
proof -
  obtain p0 where p0: "kv_new 4 2 8 = Some (Inr p0)" by (rule demo_new)
  then show ?thesis using kv_run_never_panics [of 4 2 8 p0 demo_shared_calls] by auto
qed

text \<open>calls are transactions.  A call that reports an error can be erased from any sequence of
  calls without changing the pool the sequence leaves.\<close>

theorem kv_errors_erasable:
  assumes "kv_reachable n pt ctx calls p" "kv_step c p = Some (Inl e, q)"
  shows "run_ops kv_step (c # rest) p = run_ops kv_step rest p"
  using kv_reachableD(1) [OF assms(1)] assms(2) by (rule pool.run_skips_errors)

theorem kv_errors_erasable_witness:
  "\<exists>p. run_ops kv_step (KvCreate demo_request # demo_calls) p = run_ops kv_step demo_calls p
     \<and> kv_reachable 4 2 8 demo_calls p"
proof -
  obtain p where p: "kv_reachable 4 2 8 demo_calls p" "demo_live p 2 0 0" by (rule demo_append)
  have "kv_decision p (KvCreate demo_request) = Some (RequestSlotOccupied 0)"
    using p(2) by (simp add: kv_decision_def create_decision_def demo_live_def demo_defs)
  then have "kv_step (KvCreate demo_request) p = Some (Inl (RequestSlotOccupied 0), p)"
    using kv_step_correct [OF kv_reachableD(1) [OF p(1)], of "KvCreate demo_request"] by simp
  from kv_errors_erasable [OF p(1) this] p(1) show ?thesis by blast
qed

subsection \<open>Pages\<close>

text \<open>C11: pages are conserved.  In every reachable pool the free pages and the distinct pages held by
  the requests add up to the pages the pool was created with: no page is lost and none is both free
  and held.\<close>

theorem kv_pages_conserved:
  assumes "kv_reachable n pt ctx calls p"
  shows "kv_free_pages p + card (in_use p) = n"
  using pages_conserved [OF kv_reachableD(1) [OF assms]] kv_reachableD(2) [OF assms] by (simp add: kv_free_pages_def)

theorem kv_pages_conserved_witness:
  "\<exists>p. kv_reachable 4 2 8 demo_shared_calls p \<and> kv_free_pages p + card (in_use p) = 4"
proof -
  obtain p where p: "kv_reachable 4 2 8 demo_shared_calls p" by (rule demo_share)
  from kv_pages_conserved [OF p] p show ?thesis by blast
qed

lemma link_lookup:
  assumes inv: "kv_inv p" and s: "s < MAX_REQUEST_SLOTS" and k: "k < rq_page_count (kv_requests p ! s)"
  shows "page_slot_of p (rq_pages (kv_requests p ! s) ! k) = Some (Inr (kv_pages p ! pid_index (rq_pages (kv_requests p ! s) ! k)))"
    "pid_index (rq_pages (kv_requests p ! s) ! k) \<in> owned (kv_requests p ! s)"
proof -
  note l = kv_inv_link [OF inv s k] and sh = kv_shape [OF inv] and r = kv_inv_request [OF inv s]
  show "page_slot_of p (rq_pages (kv_requests p ! s) ! k) = Some (Inr (kv_pages p ! pid_index (rq_pages (kv_requests p ! s) ! k)))"
    using l sh by (simp add: page_slot_of_def link_ok_def idx_def Let_def)
  show "pid_index (rq_pages (kv_requests p ! s) ! k) \<in> owned (kv_requests p ! s)"
    using owned_iff [OF kv_inv_shape [OF inv] r] k by auto
qed

lemma token_page:
  assumes pt: "0 < (pt :: nat)" and t: "t < resident" and c: "resident \<le> c * pt"
  shows "t div pt < c" "t mod pt < min pt (resident - t div pt * pt)"
proof -
  show "t div pt < c" using less_le_trans [OF t c] pt by (simp add: less_mult_imp_div_less)
  show "t mod pt < min pt (resident - t div pt * pt)"
    using pt t div_mult_mod_eq [of t pt] mod_less_divisor [OF pt, of t] by linarith
qed

text \<open>C9: a validated read touches initialized memory only.  When \<^verbatim>\<open>validate_read\<close> accepts a range, every
  token of it lies on a page of the request's table which is current (its generation matches), which
  records the request among its owners, and which is initialized beyond the token's offset.\<close>

theorem kv_validated_read_is_backed:
  assumes "kv_reachable n pt ctx calls p" "kv_validate_read p q a m = Some (Inr ())" "a \<le> t" "t < a + m"
  shows "\<exists>g. page_slot_of p (rq_pages (kv_requests p ! slot q) ! (t div pt)) = Some (Inr g)
    \<and> t mod pt < pg_initialized_tokens g \<and> bit (pg_reference_mask g) (slot q)"
proof -
  note f = kv_reachableD [OF assms(1)]
  have key: "key_decision p (request_key_of q) = None"
    and res: "a + m \<le> rq_resident_tokens (kv_requests p ! slot q)"
    using assms(2) validate_read_key_correct [OF f(1), of "request_key_of q" a m]
    by (auto simp: kv_validate_read_def read_decision_def split: option.splits if_splits)
  have s: "slot q < MAX_REQUEST_SLOTS" using current_slot [OF key] .
  note r = kv_inv_request [OF f(1) s]
  let ?r = "kv_requests p ! slot q" and ?k = "t div pt"
  have k: "?k < rq_page_count ?r" "t mod pt < min pt (rq_resident_tokens ?r - ?k * pt)"
    using token_page [of pt t "rq_resident_tokens ?r" "rq_page_count ?r"] r kv_shape(1) [OF f(1)] f(3) assms(4) res
    by (auto simp: request_ok_def)
  note l = kv_inv_link [OF f(1) s k(1)]
  then show ?thesis using link_lookup [OF f(1) s k(1)] kv_inv_mask [OF f(1) _ s] k(2) f(3)
    by (auto simp: link_ok_def Let_def)
qed

theorem kv_validated_read_is_backed_witness:
  "\<exists>p g. kv_reachable 4 2 8 demo_calls p \<and> page_slot_of p (rq_pages (kv_requests p ! slot demo_request) ! (1 div 2)) = Some (Inr g)
    \<and> 1 mod 2 < pg_initialized_tokens g \<and> bit (pg_reference_mask g) (slot demo_request)"
proof -
  obtain p where p: "kv_reachable 4 2 8 demo_calls p" "demo_live p 2 0 0" by (rule demo_append)
  have "kv_validate_read p demo_request 0 2 = Some (Inr ())"
    using validate_read_key_correct [OF kv_reachableD(1) [OF p(1)], of "request_key_of demo_request" 0 2] demo_key(1) [OF p(2)] p(2)
    by (simp add: kv_validate_read_def read_decision_def demo_live_def demo_defs)
  from kv_validated_read_is_backed [OF p(1) this, of 1] p(1) show ?thesis by auto
qed

lemma shared_sealed:
  assumes inv: "kv_inv p" and a: "a < MAX_REQUEST_SLOTS" and b: "b < MAX_REQUEST_SLOTS" "a \<noteq> b"
    and k: "k < rq_page_count (kv_requests p ! a)" and l: "l < rq_page_count (kv_requests p ! b)"
    and eq: "pid_index (rq_pages (kv_requests p ! a) ! k) = pid_index (rq_pages (kv_requests p ! b) ! l)"
  shows "pg_state (kv_pages p ! pid_index (rq_pages (kv_requests p ! a) ! k)) = Sealed"
    "Suc k * kv_page_tokens p \<le> rq_committed_tokens (kv_requests p ! a)"
  using kv_inv_link [OF inv a k] kv_inv_link [OF inv b(1) l] eq b(2) by (auto simp: link_ok_def Let_def)

text \<open>C10: sharing is safe.  A physical page that two different requests hold is sealed, so neither can
  write to it, it is full, both hold it under the same generation, and it lies within the committed
  prefix of both: tentative tokens are never visible to another request.\<close>

theorem kv_shared_pages_are_committed:
  assumes "kv_reachable n pt ctx calls p" "a < MAX_REQUEST_SLOTS" "b < MAX_REQUEST_SLOTS" "a \<noteq> b"
    "k < rq_page_count (kv_requests p ! a)" "l < rq_page_count (kv_requests p ! b)"
    "pid_index (rq_pages (kv_requests p ! a) ! k) = pid_index (rq_pages (kv_requests p ! b) ! l)"
  shows "rq_pages (kv_requests p ! a) ! k = rq_pages (kv_requests p ! b) ! l
    \<and> (\<exists>g. page_slot_of p (rq_pages (kv_requests p ! a) ! k) = Some (Inr g)
          \<and> pg_state g = Sealed \<and> pg_initialized_tokens g = pt)
    \<and> Suc k * pt \<le> rq_committed_tokens (kv_requests p ! a) \<and> Suc l * pt \<le> rq_committed_tokens (kv_requests p ! b)"
proof -
  note f = kv_reachableD [OF assms(1)]
  note sa = shared_sealed [OF f(1) assms(2-7)]
    and sb = shared_sealed [OF f(1) assms(3,2) assms(4) [symmetric] assms(6,5) assms(7) [symmetric]]
  note la = kv_inv_link [OF f(1) assms(2,5)] and lb = kv_inv_link [OF f(1) assms(3,6)]
  have "rq_pages (kv_requests p ! a) ! k = rq_pages (kv_requests p ! b) ! l"
    using la lb assms(7) by (auto simp: link_ok_def Let_def intro: page_id.equality)
  moreover have "page_ok pt (kv_pages p ! pid_index (rq_pages (kv_requests p ! a) ! k))"
    using kv_inv_page [OF f(1)] la f(3) by (auto simp: link_ok_def Let_def)
  ultimately show ?thesis using link_lookup(1) [OF f(1) assms(2,5)] sa sb f(3) by (simp add: page_ok_def)
qed

theorem kv_shared_pages_are_committed_witness:
  "\<exists>p g. kv_reachable 4 2 8 demo_shared_calls p
    \<and> page_slot_of p (rq_pages (kv_requests p ! 0) ! 0) = Some (Inr g) \<and> pg_state g = Sealed \<and> pg_initialized_tokens g = 2
    \<and> Suc 0 * 2 \<le> rq_committed_tokens (kv_requests p ! 0) \<and> Suc 0 * 2 \<le> rq_committed_tokens (kv_requests p ! 1)"
proof -
  obtain p where p: "kv_reachable 4 2 8 demo_shared_calls p" "demo_live p 2 2 2"
    "rq_page_count (kv_requests p ! 1) = 1" "rq_pages (kv_requests p ! 1) ! 0 = rq_pages (kv_requests p ! 0) ! 0"
    by (rule demo_share)
  have "rq_page_count (kv_requests p ! 0) = 1" by (rule demo_pages(1) [OF p(1,2)])
  with kv_shared_pages_are_committed [OF p(1), of 0 1 0 0] p show ?thesis by (auto simp: MAX_REQUEST_SLOTS_def)
qed

subsection \<open>Stale handles\<close>

text \<open>The calls that act on the request a handle names.\<close>

definition kv_names :: "kv_call \<Rightarrow> request_id \<Rightarrow> bool" where
  "kv_names c q =
     (case c of
        KvCreate a \<Rightarrow> a = q
      | KvAppend a _ \<Rightarrow> a = q
      | KvShare a b _ \<Rightarrow> a = q \<or> b = q
      | KvFinalize a _ _ \<Rightarrow> a = q
      | KvRelease a _ \<Rightarrow> a = q
      | KvRead a _ _ \<Rightarrow> a = q)"

text \<open>The slot has moved past the generation of the handle.\<close>

definition outdated :: "kv_pool \<Rightarrow> request_id \<Rightarrow> bool" where
  "outdated p q = (generation q < rq_generation (kv_requests p ! slot q))"

lemma ledger_generation:
  assumes "ledger_step pt ctx c L = Some L'" "i < length L"
  shows "le_generation (L ! i) \<le> le_generation (L' ! i)"
  using assms by (cases c) (auto simp: ledger_step_def le_current_def nth_list_update Let_def split: if_splits)

lemma step_generation:
  assumes inv: "kv_inv p" and st: "kv_step c p = Some (r, p')" and i: "i < MAX_REQUEST_SLOTS"
  shows "rq_generation (kv_requests p ! i) \<le> rq_generation (kv_requests p' ! i)"
proof (cases "kv_decision p c")
  case (Some e)
  then show ?thesis using kv_step_correct [OF inv, of c] st by simp
next
  case None
  then have eff: "kv_effect c p p'" using kv_step_correct [OF inv, of c] st by auto
  have "kv_inv p'" by (rule pool.step_inv [OF inv st])
  then show ?thesis using ledger_generation [OF ledger_refine_effect [OF inv None eff], of i] inv i by simp
qed

lemma run_generation:
  assumes "kv_inv p" "run_ops kv_step calls p = Some p'" "i < MAX_REQUEST_SLOTS"
  shows "rq_generation (kv_requests p ! i) \<le> rq_generation (kv_requests p' ! i)"
  using assms
proof (induction calls arbitrary: p)
  case (Cons c cs)
  from Cons.prems(2) obtain r q where q: "kv_step c p = Some (r, q)" "run_ops kv_step cs q = Some p'"
    by (auto split: option.splits)
  have "kv_inv q" by (rule pool.step_inv [OF Cons.prems(1) q(1)])
  then show ?case using Cons.IH [OF _ q(2) Cons.prems(3)] step_generation [OF Cons.prems(1) q(1) Cons.prems(3)] by simp
qed simp

lemma outdated_refused:
  assumes inv: "kv_inv p" and o': "outdated p q" and c: "kv_names c q"
  shows "\<exists>e. kv_step c p = Some (Inl e, p)"
proof -
  have k: "key_decision p (request_key_of q) \<noteq> None" using o' by (auto simp: key_decision_def outdated_def Let_def)
  have "kv_decision p c \<noteq> None"
    using k o' c by (cases c) (auto simp: kv_names_def kv_decision_def create_decision_def append_decision_def
      share_decision_def finalize_decision_def release_decision_def read_decision_def outdated_def Let_def split: option.splits)
  then show ?thesis using kv_step_correct [OF inv, of c] by auto
qed

text \<open>C12: a released handle stays dead.  Once \<^verbatim>\<open>release_request\<close> has succeeded for a handle, whatever calls
  follow (including the reuse of its slot by later requests), every call that names the handle is
  refused and leaves the pool as it was.\<close>

theorem kv_released_handle_is_dead:
  assumes "kv_reachable n pt ctx calls p" "kv_release_request p q permit = Some (Inr d, p1)"
    "run_ops kv_step later p1 = Some p2" "kv_names c q"
  shows "\<exists>e. kv_step c p2 = Some (Inl e, p2)"
proof -
  note f = kv_reachableD [OF assms(1)]
  have st: "kv_step (KvRelease q permit) p = Some (Inr (KvDetached d), p1)"
    using assms(2) by (simp add: kv_step_def)
  then have dec: "kv_decision p (KvRelease q permit) = None" and eff: "kv_effect (KvRelease q permit) p p1"
    using kv_step_correct [OF f(1), of "KvRelease q permit"] by (auto split: option.splits)
  then have key: "key_decision p (request_key_of q) = None"
    by (auto simp: kv_decision_def release_decision_def split: if_splits option.splits)
  then have s: "slot q < MAX_REQUEST_SLOTS" and g: "rq_generation (kv_requests p ! slot q) = generation q"
    by (auto simp: key_decision_def Let_def split: if_splits)
  have i1: "kv_inv p1" by (rule pool.step_inv [OF f(1) st])
  then have "outdated p2 q"
    using run_generation [OF i1 assms(3) s] eff g by (simp add: outdated_def kv_effect_def released_def Let_def)
  moreover have "kv_inv p2" using i1 assms(3) by (rule pool.run_inv)
  ultimately show ?thesis using assms(4) by (intro outdated_refused)
qed

definition demo_target_permit :: kv_quiescence_permit where
  "demo_target_permit = \<lparr>permit_request = demo_target, permit_origin = NeverSubmitted\<rparr>"

lemma demo_release:
  assumes p: "kv_reachable 4 2 8 demo_calls p" "demo_live p 2 0 0"
  obtains d p' where "kv_release_request p demo_target demo_target_permit = Some (Inr d, p')" "released p p' 1"
proof -
  note f = kv_reachableD [OF p(1)]
  have "rq_page_count (kv_requests p ! 1) = 0"
    using request_pages [OF kv_inv_shape [OF f(1)] kv_inv_request [OF f(1), of 1]] f(3) p(2)
    by (simp add: demo_live_def pages_for_def MAX_REQUEST_SLOTS_def)
  then have "chain (kv_requests p ! 1) = []" by (simp add: chain_def)
  then have "release_decision p (request_key_of demo_target) = None"
    using demo_key(2) [OF p(2)] p(2) by (simp add: release_decision_def demo_live_def demo_defs)
  then show ?thesis using that release_request_key_correct [OF f(1), of "request_key_of demo_target"]
    by (auto simp: kv_release_request_def demo_target_permit_def demo_target_def)
qed

theorem kv_released_handle_is_dead_witness:
  "\<exists>p d p1. kv_release_request p demo_target demo_target_permit = Some (Inr d, p1)
     \<and> (\<forall>m. \<exists>e. kv_step (KvAppend demo_target m) p1 = Some (Inl e, p1))"
proof -
  obtain p where p: "kv_reachable 4 2 8 demo_calls p" "demo_live p 2 0 0" by (rule demo_append)
  obtain d p1 where d: "kv_release_request p demo_target demo_target_permit = Some (Inr d, p1)"
    using demo_release [OF p] by blast
  have "\<exists>e. kv_step (KvAppend demo_target m) p1 = Some (Inl e, p1)" for m
    by (rule kv_released_handle_is_dead [OF p(1) d, of "[]"]) (simp_all add: kv_names_def)
  with d show ?thesis by blast
qed

subsection \<open>The operations\<close>

text \<open>construction.  \<^verbatim>\<open>KvPool::new\<close> never panics; it reports a zero capacity, an excessive page count,
  a page larger than the context and a context that needs too many pages, in this order, and otherwise
  returns a pool that satisfies the ownership invariant, with the given limits, all of whose pages are
  free and none of whose requests is live.\<close>

theorem kv_new_functional:
  fixes n pt ctx :: "32 word"
  shows "case new_decision (unat n) (unat pt) (unat ctx) of
      Some e \<Rightarrow> kv_new (unat n) (unat pt) (unat ctx) = Some (Inl e)
    | None \<Rightarrow> \<exists>p. kv_new (unat n) (unat pt) (unat ctx) = Some (Inr p) \<and> kv_inv p
        \<and> kv_page_limit p = unat n \<and> kv_page_tokens p = unat pt \<and> kv_max_context_tokens p = unat ctx
        \<and> kv_free_pages p = unat n \<and> in_use p = {} \<and> (\<forall>q. kv_resident_tokens p q = None)"
proof (cases "new_decision (unat n) (unat pt) (unat ctx)")
  case (Some e)
  then show ?thesis using new_bounded_correct [of "unat n" "unat pt" "unat ctx"] by (simp add: kv_new_def)
next
  case None
  then obtain p where p: "kv_new (unat n) (unat pt) (unat ctx) = Some (Inr p)"
    using new_bounded_correct [of "unat n" "unat pt" "unat ctx"] by (auto simp: kv_new_def)
  note f = kv_new_pool [OF unat32_le unat32_le unat32_le p]
  have "in_use p = {}" using f(6) by (simp add: in_use_def owned_def chain_def request_slot_empty_def)
  moreover have "kv_resident_tokens p q = None" for q
    using f(6) by (simp add: kv_resident_tokens_def idx_def request_slot_empty_def)
  ultimately show ?thesis using None p f by (simp add: kv_free_pages_def)
qed

text \<open>tentative growth.  \<^verbatim>\<open>append_tentative\<close> refuses a stale or unknown handle, a context overflow and a
  shortage of pages, in this order; otherwise the request grows by exactly the given number of tokens,
  its committed length stays, its page table is extended by pages that were free, no page of any other
  request is touched and the free count drops by the pages taken.\<close>

theorem kv_append_functional:
  assumes "kv_reachable n pt ctx calls p"
  shows "case append_decision p (request_key_of q) m of
      Some e \<Rightarrow> kv_append_tentative p q m = Some (Inl e, p)
    | None \<Rightarrow> \<exists>p'. kv_append_tentative p q m = Some (Inr (), p') \<and> kv_inv p' \<and> appended p p' (slot q) m"
  using append_tentative_key_correct [OF kv_reachableD(1) [OF assms], of "request_key_of q" m]
  by (auto simp: kv_append_tentative_def split: option.splits)

theorem kv_append_functional_witness:
  "\<exists>p p'. demo_live p 2 0 0 \<and> kv_append_tentative p demo_request 3 = Some (Inr (), p') \<and> appended p p' 0 3"
proof -
  obtain p where p: "kv_reachable 4 2 8 demo_calls p" "demo_live p 2 0 0" "kv_free_len p = 3" by (rule demo_append)
  have "append_decision p (request_key_of demo_request) 3 = None"
    using demo_key(1) [OF p(2)] kv_reachableD [OF p(1)] demo_pages(1) [OF p(1,2)] p(2,3)
    by (simp add: append_decision_def demo_live_def pages_for_def demo_request_def)
  then show ?thesis using kv_append_functional [OF p(1), of demo_request 3] p(2) by (auto simp: demo_request_def)
qed

text \<open>prefix sharing.  \<^verbatim>\<open>share_committed_prefix\<close> checks both handles, then that they differ, that the length
  is a positive whole number of pages, that the source has committed it and that the target is empty;
  otherwise the target's page table becomes the first pages of the source's, fully committed, no page
  is allocated or freed and no other request changes.\<close>

theorem kv_share_functional:
  fixes m :: "32 word"
  assumes "kv_reachable n pt ctx calls p"
  shows "case share_decision p (request_key_of a) (request_key_of b) (unat m) of
      Some e \<Rightarrow> kv_share_committed_prefix p a b (unat m) = Some (Inl e, p)
    | None \<Rightarrow> \<exists>p'. kv_share_committed_prefix p a b (unat m) = Some (Inr (), p') \<and> kv_inv p'
        \<and> prefix_shared p p' (slot a) (slot b) (unat m div pt)"
  using share_committed_prefix_key_correct [OF kv_reachableD(1) [OF assms] unat32_le, of "request_key_of a" "request_key_of b" m]
    kv_reachableD(3) [OF assms]
  by (auto simp: kv_share_committed_prefix_def split: option.splits)

theorem kv_share_functional_witness:
  "\<exists>p. kv_reachable 4 2 8 demo_calls p
     \<and> kv_share_committed_prefix p demo_request demo_target 2 = Some (Inl PrefixExceedsCommitted, p)"
proof -
  obtain p where p: "kv_reachable 4 2 8 demo_calls p" "demo_live p 2 0 0" by (rule demo_append)
  have "share_decision p (request_key_of demo_request) (request_key_of demo_target) 2 = Some PrefixExceedsCommitted"
    using demo_key [OF p(2)] kv_reachableD [OF p(1)] p(2) by (simp add: share_decision_def demo_live_def demo_defs)
  then show ?thesis using kv_share_functional [OF p(1), of demo_request demo_target 2] p(1) by auto
qed

text \<open>finalization.  With a permit of a completed batch for this very handle,
  \<^verbatim>\<open>finalize_tentative\<close> commits exactly the accepted tokens and discards the rest: the pages beyond the
  new length return to the free stack with a fresh generation and the pages kept are the first ones of the
  table.  Any other permit, a bad handle, more tokens than are resident and an exhausted page
  generation are errors that hand the permit back and change nothing.\<close>

theorem kv_finalize_functional:
  assumes "kv_reachable n pt ctx calls p"
  shows "case kv_finalize_tentative p q m permit of
      None \<Rightarrow> False
    | Some (Inl f, p') \<Rightarrow> p' = p \<and> auth_permit f = permit
        \<and> Some (auth_error f) = (if permit_matches permit q \<and> permit_origin permit \<noteq> NeverSubmitted
             then finalize_decision p (request_key_of q) m else Some InvalidQuiescencePermit)
    | Some (Inr f, p') \<Rightarrow> f = \<lparr>fin_request = q, fin_origin = permit_origin permit\<rparr>
        \<and> permit_matches permit q \<and> permit_origin permit \<noteq> NeverSubmitted
        \<and> finalize_decision p (request_key_of q) m = None \<and> kv_inv p' \<and> finalized p p' (slot q) m"
  using finalize_tentative_key_correct [OF kv_reachableD(1) [OF assms], of "request_key_of q" m]
  by (auto simp: kv_finalize_tentative_def permit_matches_def split: option.splits kv_quiescence_origin.splits)

theorem kv_finalize_functional_witness:
  "\<exists>p p' f. demo_live p 2 0 0 \<and> kv_finalize_tentative p demo_request 1 demo_permit = Some (Inr f, p') \<and> finalized p p' 0 1"
proof -
  obtain p where p: "kv_reachable 4 2 8 demo_calls p" "demo_live p 2 0 0" by (rule demo_append)
  have "finalize_decision p (request_key_of demo_request) 1 = None" "permit_matches demo_permit demo_request"
    "permit_origin demo_permit \<noteq> NeverSubmitted" "slot demo_request = 0"
    using demo_key(1) [OF p(2)] kv_reachableD [OF p(1)] demo_pages [OF p] p(2)
    by (simp_all add: finalize_decision_def permit_matches_def demo_live_def pages_for_def demo_defs)
  then show ?thesis using kv_finalize_functional [OF p(1), where q = demo_request and m = 1 and permit = demo_permit] p(2)
    by (auto split: option.splits prod.splits sum.splits)
qed

text \<open>release.  With a permit for this very handle \<^verbatim>\<open>release_request\<close> empties the slot and moves it to
  the next generation; a page no other request holds is freed with a fresh generation, a shared page
  merely loses this owner, and no other page changes.  A foreign permit, a bad handle and an exhausted
  request or page generation are errors that hand the permit back and change nothing.\<close>

theorem kv_release_functional:
  assumes "kv_reachable n pt ctx calls p"
  shows "case kv_release_request p q permit of
      None \<Rightarrow> False
    | Some (Inl f, p') \<Rightarrow> p' = p \<and> auth_permit f = permit
        \<and> Some (auth_error f) = (if permit_matches permit q
             then release_decision p (request_key_of q) else Some InvalidQuiescencePermit)
    | Some (Inr d, p') \<Rightarrow> d = \<lparr>det_request = q, det_origin = permit_origin permit\<rparr>
        \<and> permit_matches permit q \<and> release_decision p (request_key_of q) = None
        \<and> kv_inv p' \<and> released p p' (slot q)"
  using release_request_key_correct [OF kv_reachableD(1) [OF assms], of "request_key_of q"]
  by (auto simp: kv_release_request_def permit_matches_def split: option.splits)

theorem kv_release_functional_witness:
  "\<exists>p d p'. kv_release_request p demo_target demo_target_permit = Some (Inr d, p')
     \<and> d = \<lparr>det_request = demo_target, det_origin = NeverSubmitted\<rparr> \<and> released p p' (slot demo_target)"
proof -
  obtain p where p: "kv_reachable 4 2 8 demo_calls p" "demo_live p 2 0 0" by (rule demo_append)
  obtain d p1 where d: "kv_release_request p demo_target demo_target_permit = Some (Inr d, p1)"
    using demo_release [OF p] by blast
  from kv_release_functional [OF p(1), where q = demo_target and permit = demo_target_permit] d show ?thesis
    by (auto simp: demo_target_permit_def)
qed

subsection \<open>Round trips\<close>

lemma committed_known:
  assumes "kv_inv p" "key_decision p (request_key_of q) = None"
  shows "kv_committed_tokens p q = Some (rq_committed_tokens (kv_requests p ! slot q))"
    "kv_resident_tokens p q = Some (rq_resident_tokens (kv_requests p ! slot q))"
  using assms kv_shape(10) [OF assms(1)]
  by (auto simp: kv_committed_tokens_def kv_resident_tokens_def idx_def key_decision_def Let_def split: if_splits)

lemma ledger_same:
  assumes inv: "kv_inv p" "kv_inv p2" and s: "s < MAX_REQUEST_SLOTS" and o': "only_slot p p1 s" "only_slot p1 p2 s"
    and e: "entry_of (kv_requests p2 ! s) = entry_of (kv_requests p ! s)"
  shows "ledger p2 = ledger p"
proof (rule nth_equalityI)
  fix i assume i: "i < length (ledger p2)"
  have "kv_requests p2 ! i = kv_requests p ! i" if "i \<noteq> s" using only_slot_other o' that by metis
  then show "ledger p2 ! i = ledger p ! i" using e i inv s by (cases "i = s") auto
qed (use inv in simp)

lemma append_succeeds:
  assumes inv: "kv_inv p" and ap: "kv_append_tentative p q m = Some (Inr (), p1)"
  shows "kv_inv p1" "key_decision p (request_key_of q) = None" "appended p p1 (slot q) m"
  using append_tentative_key_correct [OF inv, of "request_key_of q" m] ap
  by (auto simp: kv_append_tentative_def append_decision_def split: option.splits)

lemma finalize_succeeds:
  assumes inv: "kv_inv p" and fin: "kv_finalize_tentative p q m permit = Some (Inr f, p1)"
  shows "kv_inv p1" "finalized p p1 (slot q) m"
  using finalize_tentative_key_correct [OF inv, of "request_key_of q" m] fin
  by (auto simp: kv_finalize_tentative_def Let_def split: option.splits if_splits sum.splits)

text \<open>rollback.  For a request without tentative tokens, appending any number of tokens and then
  finalizing with none accepted restores its page table, both its lengths and the number of free
  pages, and changes no other request.\<close>

theorem kv_append_rollback:
  assumes "kv_reachable n pt ctx calls p" "kv_committed_tokens p q = kv_resident_tokens p q"
    "kv_append_tentative p q m = Some (Inr (), p1)" "kv_finalize_tentative p1 q 0 permit = Some (Inr f, p2)"
  shows "chain (kv_requests p2 ! slot q) = chain (kv_requests p ! slot q) \<and> ledger p2 = ledger p
    \<and> kv_free_pages p2 = kv_free_pages p"
proof -
  note inv = kv_reachableD(1) [OF assms(1)]
  note a = append_succeeds [OF inv assms(3)]
  note b = finalize_succeeds [OF a(1) assms(4)]
  have s: "slot q < MAX_REQUEST_SLOTS" by (rule current_slot [OF a(2)])
  let ?r = "kv_requests p ! slot q" and ?r1 = "kv_requests p1 ! slot q"
  have eq: "rq_committed_tokens ?r = rq_resident_tokens ?r" using assms(2) committed_known [OF inv a(2)] by simp
  note pc = request_pages [OF kv_inv_shape [OF inv] kv_inv_request [OF inv s]]
    and lc = length_chain [OF kv_inv_shape [OF inv] kv_inv_request [OF inv s]]
    and lc1 = length_chain [OF kv_inv_shape [OF a(1)] kv_inv_request [OF a(1) s]]
  obtain cs where cs: "chain ?r1 = chain ?r @ cs" "kv_free_len p = kv_free_len p1 + length cs"
    using a(3) by (auto simp: appended_def Let_def)
  have ret: "pages_for (kv_page_tokens p1) (rq_committed_tokens ?r1 + 0) = length (chain ?r)"
    using a(3) eq pc lc by (simp add: appended_def same_config_def Let_def)
  have "kv_free_len p2 = kv_free_len p" "chain (kv_requests p2 ! slot q) = chain ?r"
    using b(2) ret cs lc1 by (simp_all add: finalized_def Let_def)
  moreover have "ledger p2 = ledger p"
  proof (rule ledger_same [OF inv b(1) s, of p1])
    have "rq_live ?r" using a(2) by (auto simp: key_decision_def Let_def split: if_splits)
    then show "entry_of (kv_requests p2 ! slot q) = entry_of ?r"
      using a(3) b(2) eq by (simp add: entry_of_def appended_def finalized_def Let_def)
  qed (use a(3) b(2) in \<open>simp_all add: appended_def finalized_def Let_def\<close>)
  ultimately show ?thesis by (simp add: kv_free_pages_def)
qed

theorem kv_append_rollback_witness:
  "\<exists>p p1 p2 f. kv_append_tentative p demo_request 1 = Some (Inr (), p1)
     \<and> kv_finalize_tentative p1 demo_request 0 demo_permit = Some (Inr f, p2)
     \<and> chain (kv_requests p2 ! slot demo_request) = chain (kv_requests p ! slot demo_request) \<and> ledger p2 = ledger p
     \<and> kv_free_pages p2 = kv_free_pages p"
proof -
  obtain p where p: "kv_reachable 4 2 8 (demo_calls @ [KvFinalize demo_request 1 demo_permit]) p" "demo_live p 1 1 0"
    using demo_commit [of 1] by auto
  note f = kv_reachableD [OF p(1)] and k = demo_key(1) [OF p(2)]
  have r: "rq_page_count (kv_requests p ! 0) = 1" "length (chain (kv_requests p ! 0)) = 1"
    using request_pages [OF kv_inv_shape [OF f(1)] kv_inv_request [OF f(1), of 0]] f(3) p(2)
      length_chain [OF kv_inv_shape [OF f(1)] kv_inv_request [OF f(1), of 0]]
    by (simp_all add: demo_live_def pages_for_def MAX_REQUEST_SLOTS_def)
  have "append_decision p (request_key_of demo_request) 1 = None"
    using k f r p(2) by (simp add: append_decision_def demo_live_def pages_for_def demo_request_def)
  then obtain p1 where p1: "kv_append_tentative p demo_request 1 = Some (Inr (), p1)"
    using append_tentative_key_correct [OF f(1), of "request_key_of demo_request" 1] by (auto simp: kv_append_tentative_def)
  note a = append_succeeds [OF f(1) p1]
  have l1: "demo_live p1 2 1 0" "kv_page_tokens p1 = 2" using a(3) p(2) only_slot_other [of p p1 0 1] f(3)
    by (auto simp: appended_def same_config_def demo_live_def demo_request_def Let_def)
  have "length (chain (kv_requests p1 ! 0)) = 1"
    using request_pages [OF kv_inv_shape [OF a(1)] kv_inv_request [OF a(1), of 0]] l1
      length_chain [OF kv_inv_shape [OF a(1)] kv_inv_request [OF a(1), of 0]]
    by (simp add: demo_live_def pages_for_def MAX_REQUEST_SLOTS_def)
  then have "finalize_decision p1 (request_key_of demo_request) 0 = None"
    using demo_key(1) [OF l1(1)] l1 by (simp add: finalize_decision_def demo_live_def pages_for_def demo_request_def)
  then obtain f2 p2 where p2: "kv_finalize_tentative p1 demo_request 0 demo_permit = Some (Inr f2, p2)"
    using finalize_tentative_key_correct [OF a(1), of "request_key_of demo_request" 0]
    by (auto simp: kv_finalize_tentative_def demo_permit_def)
  have "kv_committed_tokens p demo_request = kv_resident_tokens p demo_request"
    using committed_known [OF f(1) k] p(2) by (simp add: demo_live_def demo_request_def)
  from kv_append_rollback [OF p(1) this p1 p2] p1 p2 show ?thesis by blast
qed

lemma share_succeeds:
  fixes m :: "32 word"
  assumes inv: "kv_inv p" and sh: "kv_share_committed_prefix p a b (unat m) = Some (Inr (), p1)"
  shows "kv_inv p1" "key_decision p (request_key_of a) = None" "key_decision p (request_key_of b) = None" "slot a \<noteq> slot b"
    "rq_resident_tokens (kv_requests p ! slot b) = 0" "prefix_shared p p1 (slot a) (slot b) (unat m div kv_page_tokens p)"
  using share_committed_prefix_key_correct [OF inv unat32_le, of "request_key_of a" "request_key_of b" m] sh
  by (auto simp: kv_share_committed_prefix_def share_decision_def split: option.splits if_splits)

lemma release_succeeds:
  assumes inv: "kv_inv p" and rel: "kv_release_request p q permit = Some (Inr d, p1)"
  shows "kv_inv p1" "key_decision p (request_key_of q) = None" "released p p1 (slot q)"
  using release_request_key_correct [OF inv, of "request_key_of q"] rel
  by (auto simp: kv_release_request_def release_decision_def split: option.splits if_splits)

lemma in_use_split:
  "b < MAX_REQUEST_SLOTS \<Longrightarrow>
     in_use p = owned (kv_requests p ! b) \<union> (\<Union>s \<in> {..<MAX_REQUEST_SLOTS} - {b}. owned (kv_requests p ! s))"
  by (auto simp: in_use_def)

text \<open>C13: borrowing costs nothing.  Sharing a prefix with an empty request and releasing that request
  again frees no page and allocates none, and leaves every request other than the borrower as it
  was; the borrower's slot is vacant under its next generation.\<close>

theorem kv_share_release:
  fixes m :: "32 word"
  assumes "kv_reachable n pt ctx calls p" "kv_share_committed_prefix p a b (unat m) = Some (Inr (), p1)"
    "kv_release_request p1 b permit = Some (Inr d, p2)"
  shows "kv_free_pages p2 = kv_free_pages p \<and> in_use p2 = in_use p
    \<and> (\<forall>i. i \<noteq> slot b \<longrightarrow> kv_requests p2 ! i = kv_requests p ! i)
    \<and> kv_resident_tokens p2 b = None \<and> rq_generation (kv_requests p2 ! slot b) = generation b + 1"
proof -
  note f = kv_reachableD [OF assms(1)]
  note s = share_succeeds [OF f(1) assms(2)]
  note r = release_succeeds [OF s(1) assms(3)]
  have b: "slot b < MAX_REQUEST_SLOTS" by (rule current_slot [OF s(3)])
  have other: "kv_requests p2 ! i = kv_requests p ! i" if "i \<noteq> slot b" for i
    using s(6) r(3) that only_slot_other [of p p1 "slot b" i] only_slot_other [of p1 p2 "slot b" i]
    by (simp add: prefix_shared_def released_def Let_def)
  have "owned (kv_requests p2 ! slot b) = {}" using r(3) by (simp add: released_def owned_def chain_def Let_def)
  moreover have "owned (kv_requests p ! slot b) = {}"
  proof -
    have "rq_page_count (kv_requests p ! slot b) = 0"
      using request_pages [OF kv_inv_shape [OF f(1)] kv_inv_request [OF f(1) b]] s(5) kv_shape(1) [OF f(1)]
      by (simp add: pages_for_def)
    then show ?thesis by (simp add: owned_def chain_def)
  qed
  ultimately have use: "in_use p2 = in_use p" using in_use_split [OF b, of p] in_use_split [OF b, of p2] other by auto
  have lim: "kv_page_limit p2 = kv_page_limit p"
    using s(6) r(3) by (simp add: prefix_shared_def released_def same_config_def Let_def)
  have "kv_free_len p2 = kv_free_len p"
    using pages_conserved [OF f(1)] pages_conserved [OF r(1)] use lim by simp
  moreover have "kv_resident_tokens p2 b = None" "rq_generation (kv_requests p2 ! slot b) = generation b + 1"
    using r(2,3) kv_shape(10) [OF r(1)] b
    by (auto simp: kv_resident_tokens_def idx_def released_def key_decision_def Let_def split: if_splits)
  ultimately show ?thesis using use other by (simp add: kv_free_pages_def)
qed

lemma demo_borrow:
  obtains p p1 p2 d where "kv_reachable 4 2 8 (demo_calls @ [KvFinalize demo_request 2 demo_permit]) p"
    "kv_share_committed_prefix p demo_request demo_target 2 = Some (Inr (), p1)"
    "kv_release_request p1 demo_target demo_target_permit = Some (Inr d, p2)"
proof -
  obtain p where p: "kv_reachable 4 2 8 (demo_calls @ [KvFinalize demo_request 2 demo_permit]) p" "demo_live p 2 2 0"
    using demo_commit [of 2] by auto
  note f = kv_reachableD [OF p(1)]
  have sd: "share_decision p (request_key_of demo_request) (request_key_of demo_target) 2 = None"
    using demo_key [OF p(2)] f p(2) by (simp add: share_decision_def demo_live_def demo_defs)
  then obtain p1 where p1: "kv_share_committed_prefix p demo_request demo_target 2 = Some (Inr (), p1)"
    using share_committed_prefix_key_correct [OF f(1), of 2 "request_key_of demo_request" "request_key_of demo_target"]
    by (auto simp: kv_share_committed_prefix_def)
  note s = share_succeeds [OF f(1), of demo_request demo_target 2 p1, simplified, OF p1]
  have e: "prefix_shared p p1 0 1 1" using s(6) f(3) by (simp add: demo_defs)
  then have r0: "kv_requests p1 ! 0 = kv_requests p ! 0" using only_slot_other [of p p1 1 0]
    by (simp add: prefix_shared_def Let_def)
  have l1: "demo_live p1 2 2 2" using e p(2) r0 f(3) by (auto simp: prefix_shared_def demo_live_def Let_def)
  have ch: "set (chain (kv_requests p1 ! 1)) \<subseteq> set (chain (kv_requests p1 ! 0))"
    using e r0 by (simp add: prefix_shared_def Let_def set_take_subset)
  have "\<not> sole p1 1 x" if x: "x \<in> set (chain (kv_requests p1 ! 1))" for x
  proof -
    have i: "pid_index x \<in> owned (kv_requests p1 ! 0)" using x ch by (auto simp: owned_def)
    then show ?thesis using owned_not_free(1) [OF s(1) _ i] sole_iff [OF s(1), of 1 x] by (force simp: MAX_REQUEST_SLOTS_def)
  qed
  then have "release_decision p1 (request_key_of demo_target) = None"
    using demo_key(2) [OF l1] l1 by (auto simp: release_decision_def demo_live_def demo_defs find_None_iff)
  then obtain d p2 where "kv_release_request p1 demo_target demo_target_permit = Some (Inr d, p2)"
    using release_request_key_correct [OF s(1), of "request_key_of demo_target"]
    by (auto simp: kv_release_request_def demo_target_permit_def)
  with p(1) p1 show ?thesis by (rule that)
qed

theorem kv_share_release_witness:
  "\<exists>p p1 p2 d. kv_share_committed_prefix p demo_request demo_target 2 = Some (Inr (), p1)
    \<and> kv_release_request p1 demo_target demo_target_permit = Some (Inr d, p2)
    \<and> kv_free_pages p2 = kv_free_pages p \<and> in_use p2 = in_use p"
proof -
  obtain p p1 p2 d where p: "kv_reachable 4 2 8 (demo_calls @ [KvFinalize demo_request 2 demo_permit]) p"
    "kv_share_committed_prefix p demo_request demo_target 2 = Some (Inr (), p1)"
    "kv_release_request p1 demo_target demo_target_permit = Some (Inr d, p2)" by (rule demo_borrow)
  from kv_share_release [OF p(1), of demo_request demo_target 2 p1 demo_target_permit d p2] p show ?thesis by auto
qed

end
