(* ===== verification/Ring.thy ===== *)
theory Ring
  imports Prelude
begin

text \<open>
  The fixed-capacity rings of \<^verbatim>\<open>crates/ferric-engine/src/scheduler.rs\<close>: an array, a head index
  and a length.  The scheduler keeps four of them and open-codes the same push and pop on each.
  The contract of a bounded queue is a locale, interpreted on the ring operations.
\<close>

subsection \<open>Index arithmetic\<close>

definition advance :: "usize \<Rightarrow> usize \<Rightarrow> usize exec" where
  "advance C index = do {
     next \<leftarrow> usize_add index 1;
     Some (if next = C then 0 else next) }"

definition ring_tail :: "usize \<Rightarrow> usize \<Rightarrow> usize \<Rightarrow> usize exec" where
  "ring_tail C head len = do {
     distance \<leftarrow> u_sub C head;
     if len < distance then usize_add head len else u_sub len distance }"

subsection \<open>Push and pop\<close>

type_synonym 'a ring = "'a list \<times> usize \<times> usize"

definition ring_push :: "usize \<Rightarrow> 'a \<Rightarrow> 'a ring \<Rightarrow> 'a ring exec" where
  "ring_push C v r = (case r of (xs, head, len) \<Rightarrow> do {
     tail \<leftarrow> ring_tail C head len;
     xs' \<leftarrow> upd xs tail v;
     len' \<leftarrow> usize_add len 1;
     Some (xs', head, len') })"

definition ring_pop :: "usize \<Rightarrow> 'a ring \<Rightarrow> ('a \<times> 'a ring) exec" where
  "ring_pop C r = (case r of (xs, head, len) \<Rightarrow> do {
     v \<leftarrow> idx xs head;
     head' \<leftarrow> advance C head;
     len' \<leftarrow> u_sub len 1;
     Some (v, xs, head', len') })"

subsection \<open>The contract\<close>

locale bounded_queue =
  fixes wf :: "'q \<Rightarrow> bool"
    and view :: "'q \<Rightarrow> 'a list"
    and cap :: nat
    and push :: "'a \<Rightarrow> 'q \<Rightarrow> 'q exec"
    and pop :: "'q \<Rightarrow> ('a \<times> 'q) exec"
  assumes push_view: "wf q \<Longrightarrow> length (view q) < cap \<Longrightarrow>
      \<exists>q'. push a q = Some q' \<and> wf q' \<and> view q' = view q @ [a]"
    and pop_view: "wf q \<Longrightarrow> view q = a # xs \<Longrightarrow> \<exists>q'. pop q = Some (a, q') \<and> wf q' \<and> view q' = xs"
begin

fun push_all :: "'a list \<Rightarrow> 'q \<Rightarrow> 'q exec" where
  "push_all [] q = Some q"
| "push_all (a # as) q = do { q' \<leftarrow> push a q; push_all as q' }"

fun pop_n :: "nat \<Rightarrow> 'q \<Rightarrow> ('a list \<times> 'q) exec" where
  "pop_n 0 q = Some ([], q)"
| "pop_n (Suc n) q = do { (a, q') \<leftarrow> pop q; (as, q'') \<leftarrow> pop_n n q'; Some (a # as, q'') }"

lemma push_all_view:
  "wf q \<Longrightarrow> length (view q) + length as \<le> cap \<Longrightarrow>
     \<exists>q'. push_all as q = Some q' \<and> wf q' \<and> view q' = view q @ as"
proof (induction as arbitrary: q)
  case (Cons a as)
  then obtain q1 where q1: "push a q = Some q1" "wf q1" "view q1 = view q @ [a]"
    using push_view [of q a] by auto
  then show ?case using Cons.IH [of q1] Cons.prems by auto
qed simp

lemma pop_n_view:
  "wf q \<Longrightarrow> n \<le> length (view q) \<Longrightarrow>
     \<exists>q'. pop_n n q = Some (take n (view q), q') \<and> wf q' \<and> view q' = drop n (view q)"
proof (induction n arbitrary: q)
  case (Suc n)
  then obtain a xs where v: "view q = a # xs" by (cases "view q") auto
  with Suc.prems obtain q1 where "pop q = Some (a, q1)" "wf q1" "view q1 = xs"
    using pop_view by blast
  then show ?case using Suc.IH [of q1] Suc.prems v by auto
qed auto

text \<open>First in, first out.\<close>

lemma fifo:
  assumes "wf q" "view q = []" "length as \<le> cap"
  shows "\<exists>q1 q2. push_all as q = Some q1 \<and> pop_n (length as) q1 = Some (as, q2) \<and> view q2 = []"
proof -
  obtain q1 where q1: "push_all as q = Some q1" "wf q1" "view q1 = as"
    using push_all_view [of q as] assms by auto
  then obtain q2 where "pop_n (length as) q1 = Some (as, q2)" "view q2 = []"
    using pop_n_view [of q1 "length as"] by auto
  with q1(1) show ?thesis by blast
qed

end

subsection \<open>The rings implement it\<close>

definition ring_wf :: "usize \<Rightarrow> 'a ring \<Rightarrow> bool" where
  "ring_wf C r = (case r of (xs, head, len) \<Rightarrow>
     C \<le> U32_MAX \<and> length xs = C \<and> head < C \<and> len \<le> C)"

definition ring_view :: "usize \<Rightarrow> 'a ring \<Rightarrow> 'a list" where
  "ring_view C r = (case r of (xs, head, len) \<Rightarrow> map (\<lambda>k. xs ! ((head + k) mod C)) [0..<len])"

lemma length_ring_view [simp]: "length (ring_view C (xs, h, n)) = n"
  by (simp add: ring_view_def)

lemma ring_view_empty [simp]: "ring_view C (xs, h, 0) = []"
  by (simp add: ring_view_def)

lemma advance_ok:
  assumes "h < C" "C \<le> U32_MAX"
  shows "advance C h = Some (Suc h mod C)"
  using assms by (auto simp: advance_def exec_simps)

lemma ring_index: "h < (C :: nat) \<Longrightarrow> n \<le> C \<Longrightarrow> (h + n) mod C = (if n < C - h then h + n else n - (C - h))"
  by (auto simp: le_mod_geq)

lemma ring_tail_ok:
  assumes "h < C" "n \<le> C" "C \<le> U32_MAX"
  shows "ring_tail C h n = Some ((h + n) mod C)"
  using assms by (simp add: ring_tail_def exec_simps ring_index)

lemma ring_index_inj:
  assumes "h < (C :: nat)" "j < C" "k < C" "(h + j) mod C = (h + k) mod C"
  shows "j = k"
  using assms by (auto simp: ring_index split: if_splits)

lemma ring_push_ok:
  assumes "ring_wf C (xs, h, n)" "n < C"
  shows "ring_push C v (xs, h, n) = Some (xs[(h + n) mod C := v], h, Suc n)"
    and "ring_view C (xs[(h + n) mod C := v], h, Suc n) = ring_view C (xs, h, n) @ [v]"
proof -
  have w: "C \<le> U32_MAX" "length xs = C" "h < C" using assms by (auto simp: ring_wf_def)
  have t: "(h + n) mod C < C" using w by (intro mod_less_divisor) simp
  then show "ring_push C v (xs, h, n) = Some (xs[(h + n) mod C := v], h, Suc n)"
    using assms w ring_tail_ok [of h C n] by (simp add: ring_push_def exec_simps)
  have "xs[(h + n) mod C := v] ! ((h + k) mod C) = xs ! ((h + k) mod C)" if "k < n" for k
    using ring_index_inj [of h C k n] that assms(2) w by (metis nth_list_update_neq less_trans nat_neq_iff)
  then show "ring_view C (xs[(h + n) mod C := v], h, Suc n) = ring_view C (xs, h, n) @ [v]"
    using w t by (simp add: ring_view_def)
qed

lemma ring_view_Suc:
  assumes "h < C"
  shows "ring_view C (xs, h, Suc n) = xs ! h # ring_view C (xs, Suc h mod C, n)"
  using assms unfolding ring_view_def
  by (simp add: upt_conv_Cons map_Suc_upt [symmetric] del: upt_Suc) (simp add: mod_simps)

lemma ring_pop_ok:
  assumes "ring_wf C (xs, h, Suc n)"
  shows "ring_pop C (xs, h, Suc n) = Some (xs ! h, xs, Suc h mod C, n)"
    "ring_wf C (xs, Suc h mod C, n)"
  using assms by (auto simp: ring_pop_def ring_wf_def exec_simps advance_ok)

interpretation ring: bounded_queue "ring_wf C :: 'a ring \<Rightarrow> bool" "ring_view C" C "ring_push C" "ring_pop C"
proof
  fix q :: "'a ring" and a :: 'a assume q: "ring_wf C q" "length (ring_view C q) < C"
  obtain xs h n where e: "q = (xs, h, n)" by (cases q)
  then have "ring_wf C (xs[(h + n) mod C := a], h, Suc n)" using q by (simp add: ring_wf_def)
  then show "\<exists>q'. ring_push C a q = Some q' \<and> ring_wf C q' \<and> ring_view C q' = ring_view C q @ [a]"
    using ring_push_ok [of C xs h n a] q e by auto
next
  fix q :: "'a ring" and a :: 'a and ys assume q: "ring_wf C q" "ring_view C q = a # ys"
  obtain xs h n where e: "q = (xs, h, n)" by (cases q)
  with q obtain m where m: "n = Suc m" by (metis length_Suc_conv length_ring_view)
  have "h < C" using q e by (simp add: ring_wf_def)
  then show "\<exists>q'. ring_pop C q = Some (a, q') \<and> ring_wf C q' \<and> ring_view C q' = ys"
    using ring_pop_ok [of C xs h m] q e m by (auto simp: ring_view_Suc)
qed

end
