(* ===== verification/Scheduler.thy ===== *)
theory Scheduler
  imports KvPool Ring
begin

text \<open>
  The request scheduler of \<^verbatim>\<open>crates/ferric-engine/src/scheduler.rs\<close>: generational request slots, a
  free ring, a reclaim ring, and the rings of pending members and batches.  The capacity \<open>C\<close>,
  a const generic of the source, is the first argument of every operation.  Methods that fill a
  caller-provided slice return it next to the new state.
\<close>

definition NO_EPOCH :: u64 where "NO_EPOCH = 0"
definition M1_MAX_ACTIVE_SEQUENCES :: u32 where "M1_MAX_ACTIVE_SEQUENCES = 32"

definition slot_index_to_u32 :: "usize \<Rightarrow> u32" where
  "slot_index_to_u32 slot_index = (if slot_index \<le> U32_MAX then slot_index else U32_MAX)"

subsection \<open>Data\<close>

record sched_slot =
  sl_generation :: u32
  sl_state :: request_state
  sl_active_epoch :: u64
  sl_last_quiescent_epoch :: u64
  sl_in_free_ring :: bool
  sl_in_reclaim_ring :: bool

definition Slot_INITIAL :: sched_slot where
  "Slot_INITIAL = \<lparr>sl_generation = 1, sl_state = Vacant, sl_active_epoch = NO_EPOCH,
     sl_last_quiescent_epoch = NO_EPOCH, sl_in_free_ring = True, sl_in_reclaim_ring = False\<rparr>"

record batch_record =
  br_epoch :: completion_epoch
  br_member_count :: usize

definition BatchRecord_EMPTY :: batch_record where
  "BatchRecord_EMPTY = \<lparr>br_epoch = \<lparr>epoch_value = 0\<rparr>, br_member_count = 0\<rparr>"

record dispatch_batch =
  db_epoch :: completion_epoch
  db_member_count :: usize

record m1_scheduled_dispatch =
  m1_batch :: dispatch_batch
  m1_members :: "request_id option list"

datatype scheduler_error =
    SchedZeroCapacity | CapacityExceedsKvSlots | OutOfSlots | EmptyBatchStorage
  | CompletionStorageTooSmall | CompletionStorageNotEmpty | SubmissionEpochExhausted
  | InvalidSlot | StaleRequest | RequestNotLive | SchedAlreadyRetiring | NoPendingBatch
  | CompletionNotExactNext | CompletionEpochMismatch | FinalizationMismatch
  | DetachmentMismatch | SchedGenerationExhausted | SchedInvariantViolation

datatype m1_exact_dispatch_error =
    Faulted
  | EmptyRoster
  | RosterTooLarge usize usize
  | DuplicateRequest usize usize
  | MissingRequest usize request_id
  | RequestNotReady usize request_id request_state
  | M1SubmissionEpochExhausted
  | EpochMismatch completion_epoch completion_epoch
  | PendingBatchCapacityExhausted
  | PendingMemberCapacityExceeded usize usize

record completion_failure =
  cf_error :: scheduler_error
  cf_completion :: exact_completion

record scheduler =
  sc_slots :: "sched_slot list"
  sc_free_ring :: "usize list"
  sc_free_head :: usize
  sc_free_len :: usize
  sc_reclaim_ring :: "usize list"
  sc_reclaim_head :: usize
  sc_reclaim_len :: usize
  sc_member_ring :: "request_id list"
  sc_member_head :: usize
  sc_member_len :: usize
  sc_batch_ring :: "batch_record list"
  sc_batch_head :: usize
  sc_batch_len :: usize
  sc_cursor :: usize
  sc_submitted :: u64
  sc_completed :: u64
  sc_live_count :: usize

subsection \<open>Construction and observers\<close>

fun fill_free_ring :: "nat \<Rightarrow> usize \<Rightarrow> usize list \<Rightarrow> usize list exec" where
  "fill_free_ring 0 index ring = Some ring"
| "fill_free_ring (Suc n) index ring = do {
     ring' \<leftarrow> upd ring index index;
     index' \<leftarrow> usize_add index 1;
     fill_free_ring n index' ring' }"

definition sched_new :: "usize \<Rightarrow> (scheduler_error + scheduler) exec" where
  "sched_new C =
     (if C = 0 then Some (Inl SchedZeroCapacity)
      else if MAX_REQUEST_SLOTS < C then Some (Inl CapacityExceedsKvSlots)
      else do {
        free_ring \<leftarrow> fill_free_ring C 0 (replicate C 0);
        Some (Inr \<lparr>sc_slots = replicate C Slot_INITIAL, sc_free_ring = free_ring, sc_free_head = 0,
           sc_free_len = C, sc_reclaim_ring = replicate C 0, sc_reclaim_head = 0, sc_reclaim_len = 0,
           sc_member_ring = replicate C (request_id_new 0 0), sc_member_head = 0, sc_member_len = 0,
           sc_batch_ring = replicate C BatchRecord_EMPTY, sc_batch_head = 0, sc_batch_len = 0,
           sc_cursor = 0, sc_submitted = 0, sc_completed = 0, sc_live_count = 0\<rparr>) })"

definition sched_state :: "usize \<Rightarrow> scheduler \<Rightarrow> request_id \<Rightarrow> request_state option exec" where
  "sched_state C s request =
     (if C \<le> slot request then Some None
      else do {
        sl \<leftarrow> idx (sc_slots s) (slot request);
        Some (if sl_generation sl = generation request
              then (case sl_state sl of Vacant \<Rightarrow> None | st \<Rightarrow> Some st) else None) })"

definition completed_epoch :: "scheduler \<Rightarrow> completion_epoch" where
  "completed_epoch s = \<lparr>epoch_value = sc_completed s\<rparr>"

definition pending_batch_member_count :: "scheduler \<Rightarrow> usize exec" where
  "pending_batch_member_count s =
     (if sc_batch_len s = 0 then Some 0
      else do { b \<leftarrow> idx (sc_batch_ring s) (sc_batch_head s); Some (br_member_count b) })"

definition pending_member :: "usize \<Rightarrow> scheduler \<Rightarrow> usize \<Rightarrow> request_id option exec" where
  "pending_member C s offset =
     (if sc_batch_len s = 0 then Some None
      else do {
        b \<leftarrow> idx (sc_batch_ring s) (sc_batch_head s);
        if br_member_count b \<le> offset then Some None
        else do {
          position \<leftarrow> ring_tail C (sc_member_head s) offset;
          m \<leftarrow> idx (sc_member_ring s) position;
          Some (Some m) } })"

definition pending_retirement_ready ::
  "usize \<Rightarrow> scheduler \<Rightarrow> usize \<Rightarrow> request_id \<Rightarrow> completion_epoch \<Rightarrow> bool exec" where
  "pending_retirement_ready C s offset request epoch = do {
     m \<leftarrow> pending_member C s offset;
     if m \<noteq> Some request \<or> C \<le> slot request then Some False
     else do {
       sl \<leftarrow> idx (sc_slots s) (slot request);
       Some (sl_generation sl = generation request \<and> sl_state sl = Retiring
             \<and> sl_active_epoch sl = epoch_value epoch \<and> \<not> sl_in_reclaim_ring sl
             \<and> sl_generation sl < U32_MAX) } }"

subsection \<open>Admission and retirement\<close>

definition admit_available :: "usize \<Rightarrow> scheduler \<Rightarrow> usize \<Rightarrow> (request_id \<times> scheduler) exec" where
  "admit_available C s slot_index = do {
     sl \<leftarrow> idx (sc_slots s) slot_index;
     free_head \<leftarrow> advance C (sc_free_head s);
     free_len \<leftarrow> u_sub (sc_free_len s) 1;
     slots \<leftarrow> upd (sc_slots s) slot_index (sl\<lparr>sl_state := Ready, sl_in_free_ring := False\<rparr>);
     live_count \<leftarrow> usize_add (sc_live_count s) 1;
     Some (request_id_new (slot_index_to_u32 slot_index) (sl_generation sl),
           s\<lparr>sc_free_head := free_head, sc_free_len := free_len, sc_slots := slots,
             sc_live_count := live_count\<rparr>) }"

definition admit_established :: "usize \<Rightarrow> scheduler \<Rightarrow> (request_id \<times> scheduler) exec" where
  "admit_established C s = do {
     slot_index \<leftarrow> idx (sc_free_ring s) (sc_free_head s);
     admit_available C s slot_index }"

definition sched_admit :: "usize \<Rightarrow> scheduler \<Rightarrow> ((scheduler_error + request_id) \<times> scheduler) exec" where
  "sched_admit C s =
     (if sc_free_len s = 0 then Some (Inl OutOfSlots, s)
      else do { (request, s') \<leftarrow> admit_established C s; Some (Inr request, s') })"

definition retire_inflight :: "scheduler \<Rightarrow> usize \<Rightarrow> scheduler exec" where
  "retire_inflight s slot_index = do {
     sl \<leftarrow> idx (sc_slots s) slot_index;
     slots \<leftarrow> upd (sc_slots s) slot_index (sl\<lparr>sl_state := Retiring\<rparr>);
     Some (s\<lparr>sc_slots := slots\<rparr>) }"

definition retire_ready :: "usize \<Rightarrow> scheduler \<Rightarrow> usize \<Rightarrow> scheduler exec" where
  "retire_ready C s slot_index = do {
     (reclaim_ring, _, reclaim_len) \<leftarrow>
        ring_push C slot_index (sc_reclaim_ring s, sc_reclaim_head s, sc_reclaim_len s);
     sl \<leftarrow> idx (sc_slots s) slot_index;
     slots \<leftarrow> upd (sc_slots s) slot_index
        (sl\<lparr>sl_state := Retiring, sl_active_epoch := NO_EPOCH, sl_in_reclaim_ring := True\<rparr>);
     Some (s\<lparr>sc_reclaim_ring := reclaim_ring, sc_reclaim_len := reclaim_len, sc_slots := slots\<rparr>) }"

definition sched_retire :: "usize \<Rightarrow> scheduler \<Rightarrow> request_id \<Rightarrow> ((scheduler_error + unit) \<times> scheduler) exec" where
  "sched_retire C s request =
     (let slot_index = slot request in
      if C \<le> slot_index then Some (Inl InvalidSlot, s)
      else do {
        sl \<leftarrow> idx (sc_slots s) slot_index;
        if sl_generation sl \<noteq> generation request then Some (Inl StaleRequest, s)
        else (case sl_state sl of
            Vacant \<Rightarrow> Some (Inl RequestNotLive, s)
          | Retiring \<Rightarrow> Some (Inl SchedAlreadyRetiring, s)
          | InFlight \<Rightarrow> do { s' \<leftarrow> retire_inflight s slot_index; Some (Inr (), s') }
          | Ready \<Rightarrow> do { s' \<leftarrow> retire_ready C s slot_index; Some (Inr (), s') }) })"

subsection \<open>Rotating dispatch\<close>

definition dispatch_one_selected ::
  "scheduler \<Rightarrow> request_id list \<Rightarrow> usize \<Rightarrow> usize \<Rightarrow> usize \<Rightarrow> u64 \<Rightarrow> (request_id list \<times> scheduler) exec" where
  "dispatch_one_selected s output selected slot_index member_tail next_epoch = do {
     sl \<leftarrow> idx (sc_slots s) slot_index;
     let handle = request_id_new (slot_index_to_u32 slot_index) (sl_generation sl);
     output' \<leftarrow> upd output selected handle;
     member_ring \<leftarrow> upd (sc_member_ring s) member_tail handle;
     slots \<leftarrow> upd (sc_slots s) slot_index (sl\<lparr>sl_state := InFlight, sl_active_epoch := next_epoch\<rparr>);
     Some (output', s\<lparr>sc_member_ring := member_ring, sc_slots := slots\<rparr>) }"

definition dispatch_preflight ::
  "usize \<Rightarrow> scheduler \<Rightarrow> request_id list \<Rightarrow> (scheduler_error + (u64 \<times> usize) option) exec" where
  "dispatch_preflight C s output =
     (if output = [] then Some (Inl EmptyBatchStorage)
      else (case u64_add (sc_submitted s) 1 of
          None \<Rightarrow> Some (Inl SubmissionEpochExhausted)
        | Some next_epoch \<Rightarrow>
            if sc_batch_len s = C \<or> sc_member_len s = C then Some (Inr None)
            else do {
              available_members \<leftarrow> u_sub C (sc_member_len s);
              let limit = (if length output < available_members then length output
                           else available_members);
              Some (Inr (Some (next_epoch, limit))) }))"

text \<open>The scan loop; its first argument counts the slots left to visit (\<open>C - scanned\<close>).\<close>

fun dispatch_scan ::
  "nat \<Rightarrow> usize \<Rightarrow> scheduler \<Rightarrow> request_id list \<Rightarrow> usize \<Rightarrow> u64 \<Rightarrow> usize \<Rightarrow> usize \<Rightarrow> usize \<Rightarrow>
   (usize \<times> usize \<times> usize \<times> request_id list \<times> scheduler) exec" where
  "dispatch_scan 0 C s output limit next_epoch slot_index member_tail selected =
     Some (selected, slot_index, member_tail, output, s)"
| "dispatch_scan (Suc n) C s output limit next_epoch slot_index member_tail selected =
     (if selected < limit then do {
        sl \<leftarrow> idx (sc_slots s) slot_index;
        slot_index' \<leftarrow> advance C slot_index;
        (case sl_state sl of
           Ready \<Rightarrow> do {
             (output', s') \<leftarrow> dispatch_one_selected s output selected slot_index member_tail next_epoch;
             member_tail' \<leftarrow> advance C member_tail;
             selected' \<leftarrow> usize_add selected 1;
             dispatch_scan n C s' output' limit next_epoch slot_index' member_tail' selected' }
         | _ \<Rightarrow> dispatch_scan n C s output limit next_epoch slot_index' member_tail selected) }
      else Some (selected, slot_index, member_tail, output, s))"

definition dispatch_scan_commit ::
  "usize \<Rightarrow> scheduler \<Rightarrow> request_id list \<Rightarrow> usize \<Rightarrow> u64 \<Rightarrow>
   (usize \<times> usize \<times> usize \<times> request_id list \<times> scheduler) exec" where
  "dispatch_scan_commit C s output limit next_epoch = do {
     member_start \<leftarrow> ring_tail C (sc_member_head s) (sc_member_len s);
     dispatch_scan C C s output limit next_epoch (sc_cursor s) member_start 0 }"

definition dispatch_enabled ::
  "usize \<Rightarrow> scheduler \<Rightarrow> request_id list \<Rightarrow> u64 \<Rightarrow> usize \<Rightarrow>
   (dispatch_batch option \<times> request_id list \<times> scheduler) exec" where
  "dispatch_enabled C s output next_epoch limit = do {
     (selected, slot_index, _, output', s1) \<leftarrow> dispatch_scan_commit C s output limit next_epoch;
     if selected = 0 then Some (None, output', s1)
     else do {
       (batch_ring, _, batch_len) \<leftarrow> ring_push C
          \<lparr>br_epoch = \<lparr>epoch_value = next_epoch\<rparr>, br_member_count = selected\<rparr>
          (sc_batch_ring s1, sc_batch_head s1, sc_batch_len s1);
       member_len \<leftarrow> usize_add (sc_member_len s1) selected;
       Some (Some \<lparr>db_epoch = \<lparr>epoch_value = next_epoch\<rparr>, db_member_count = selected\<rparr>, output',
             s1\<lparr>sc_batch_ring := batch_ring, sc_batch_len := batch_len, sc_member_len := member_len,
                sc_cursor := slot_index, sc_submitted := next_epoch\<rparr>) } }"

definition sched_dispatch_ready ::
  "usize \<Rightarrow> scheduler \<Rightarrow> request_id list \<Rightarrow>
   ((scheduler_error + dispatch_batch option) \<times> request_id list \<times> scheduler) exec" where
  "sched_dispatch_ready C s output = do {
     pre \<leftarrow> dispatch_preflight C s output;
     case pre of
       Inl e \<Rightarrow> Some (Inl e, output, s)
     | Inr None \<Rightarrow> Some (Inr None, output, s)
     | Inr (Some (next_epoch, limit)) \<Rightarrow> do {
         (result, output', s') \<leftarrow> dispatch_enabled C s output next_epoch limit;
         Some (Inr result, output', s') } }"

subsection \<open>Dispatching an exact roster\<close>

fun fill_members ::
  "nat \<Rightarrow> request_id option list \<Rightarrow> request_id list \<Rightarrow> usize \<Rightarrow> request_id option list exec" where
  "fill_members 0 members selected index = Some members"
| "fill_members (Suc n) members selected index = do {
     r \<leftarrow> idx selected index;
     members' \<leftarrow> upd members index (Some r);
     index' \<leftarrow> usize_add index 1;
     fill_members n members' selected index' }"

definition from_dispatch_batch :: "dispatch_batch \<Rightarrow> request_id list \<Rightarrow> m1_scheduled_dispatch exec" where
  "from_dispatch_batch batch selected = do {
     members \<leftarrow> fill_members (db_member_count batch) (replicate M1_MAX_ACTIVE_SEQUENCES None) selected 0;
     Some \<lparr>m1_batch = batch, m1_members = members\<rparr> }"

text \<open>The commit loop, over the lanes not yet submitted.\<close>

fun dispatch_exact_loop ::
  "nat \<Rightarrow> usize \<Rightarrow> scheduler \<Rightarrow> request_id list \<Rightarrow> u64 \<Rightarrow> usize \<Rightarrow> usize \<Rightarrow> scheduler exec" where
  "dispatch_exact_loop 0 C s requests next_epoch member_tail lane = Some s"
| "dispatch_exact_loop (Suc n) C s requests next_epoch member_tail lane = do {
     request \<leftarrow> idx requests lane;
     sl \<leftarrow> idx (sc_slots s) (slot request);
     slots \<leftarrow> upd (sc_slots s) (slot request) (sl\<lparr>sl_state := InFlight, sl_active_epoch := next_epoch\<rparr>);
     member_ring \<leftarrow> upd (sc_member_ring s) member_tail request;
     member_tail' \<leftarrow> advance C member_tail;
     lane' \<leftarrow> usize_add lane 1;
     dispatch_exact_loop n C (s\<lparr>sc_slots := slots, sc_member_ring := member_ring\<rparr>) requests next_epoch
       member_tail' lane' }"

definition dispatch_exact_commit ::
  "usize \<Rightarrow> scheduler \<Rightarrow> request_id list \<Rightarrow> u64 \<Rightarrow> (dispatch_batch \<times> scheduler) exec" where
  "dispatch_exact_commit C s requests next_epoch = do {
     member_tail \<leftarrow> ring_tail C (sc_member_head s) (sc_member_len s);
     s1 \<leftarrow> dispatch_exact_loop (length requests) C s requests next_epoch member_tail 0;
     let batch = \<lparr>db_epoch = \<lparr>epoch_value = next_epoch\<rparr>, db_member_count = length requests\<rparr>;
     (batch_ring, _, batch_len) \<leftarrow> ring_push C
        \<lparr>br_epoch = db_epoch batch, br_member_count = db_member_count batch\<rparr>
        (sc_batch_ring s1, sc_batch_head s1, sc_batch_len s1);
     member_len \<leftarrow> usize_add (sc_member_len s1) (length requests);
     Some (batch, s1\<lparr>sc_batch_ring := batch_ring, sc_batch_len := batch_len,
                     sc_member_len := member_len, sc_submitted := next_epoch\<rparr>) }"

text \<open>The inner loop of the roster check looks for an earlier lane with the same slot; its first
  argument counts the lanes below \<open>lane\<close> not yet compared.\<close>

fun duplicate_lane :: "nat \<Rightarrow> request_id list \<Rightarrow> request_id \<Rightarrow> usize \<Rightarrow> usize option exec" where
  "duplicate_lane 0 requests request first_lane = Some None"
| "duplicate_lane (Suc n) requests request first_lane = do {
     r \<leftarrow> idx requests first_lane;
     if slot r = slot request then Some (Some first_lane)
     else do {
       first_lane' \<leftarrow> usize_add first_lane 1;
       duplicate_lane n requests request first_lane' } }"

fun check_roster ::
  "nat \<Rightarrow> usize \<Rightarrow> scheduler \<Rightarrow> request_id list \<Rightarrow> usize \<Rightarrow> (m1_exact_dispatch_error + unit) exec" where
  "check_roster 0 C s requests lane = Some (Inr ())"
| "check_roster (Suc n) C s requests lane = do {
     request \<leftarrow> idx requests lane;
     dup \<leftarrow> duplicate_lane lane requests request 0;
     case dup of
       Some first_lane \<Rightarrow> Some (Inl (DuplicateRequest first_lane lane))
     | None \<Rightarrow> do {
         st \<leftarrow> sched_state C s request;
         case st of
           None \<Rightarrow> Some (Inl (MissingRequest lane request))
         | Some Ready \<Rightarrow> do { lane' \<leftarrow> usize_add lane 1; check_roster n C s requests lane' }
         | Some state \<Rightarrow> Some (Inl (RequestNotReady lane request state)) } }"

fun copy_selected :: "nat \<Rightarrow> request_id list \<Rightarrow> request_id list \<Rightarrow> usize \<Rightarrow> request_id list exec" where
  "copy_selected 0 selected requests lane = Some selected"
| "copy_selected (Suc n) selected requests lane = do {
     r \<leftarrow> idx requests lane;
     selected' \<leftarrow> upd selected lane r;
     lane' \<leftarrow> usize_add lane 1;
     copy_selected n selected' requests lane' }"

definition sched_dispatch_m1_exact_ready ::
  "usize \<Rightarrow> scheduler \<Rightarrow> completion_epoch \<Rightarrow> request_id list \<Rightarrow>
   ((m1_exact_dispatch_error + m1_scheduled_dispatch) \<times> scheduler) exec" where
  "sched_dispatch_m1_exact_ready C s expected_epoch requests =
     (if requests = [] then Some (Inl EmptyRoster, s)
      else if M1_MAX_ACTIVE_SEQUENCES < length requests
      then Some (Inl (RosterTooLarge M1_MAX_ACTIVE_SEQUENCES (length requests)), s)
      else (case u64_add (sc_submitted s) 1 of
          None \<Rightarrow> Some (Inl M1SubmissionEpochExhausted, s)
        | Some next \<Rightarrow>
            let next_epoch = \<lparr>epoch_value = next\<rparr> in
            if expected_epoch \<noteq> next_epoch then Some (Inl (EpochMismatch next_epoch expected_epoch), s)
            else if sc_batch_len s = C then Some (Inl PendingBatchCapacityExhausted, s)
            else do {
              available_members \<leftarrow> u_sub C (sc_member_len s);
              if available_members < length requests
              then Some (Inl (PendingMemberCapacityExceeded available_members (length requests)), s)
              else do {
                checked \<leftarrow> check_roster (length requests) C s requests 0;
                case checked of
                  Inl e \<Rightarrow> Some (Inl e, s)
                | Inr _ \<Rightarrow> do {
                    selected \<leftarrow> copy_selected (length requests)
                       (replicate M1_MAX_ACTIVE_SEQUENCES (request_id_new 0 0)) requests 0;
                    (batch, s') \<leftarrow> dispatch_exact_commit C s requests next;
                    dispatch \<leftarrow> from_dispatch_batch batch selected;
                    Some (Inr dispatch, s') } } }))"

subsection \<open>Exact completion\<close>

fun completion_check ::
  "nat \<Rightarrow> usize \<Rightarrow> scheduler \<Rightarrow> u64 \<Rightarrow> kv_quiescence_permit option list \<Rightarrow> usize \<Rightarrow> usize \<Rightarrow>
   (scheduler_error + unit) exec" where
  "completion_check 0 C s observed permits checked check_head = Some (Inr ())"
| "completion_check (Suc n) C s observed permits checked check_head = do {
     p \<leftarrow> idx permits checked;
     if p \<noteq> None then Some (Inl CompletionStorageNotEmpty)
     else do {
       handle \<leftarrow> idx (sc_member_ring s) check_head;
       if C \<le> slot handle then Some (Inl SchedInvariantViolation)
       else do {
         sl \<leftarrow> idx (sc_slots s) (slot handle);
         if sl_generation sl \<noteq> generation handle \<or> sl_active_epoch sl \<noteq> observed
         then Some (Inl SchedInvariantViolation)
         else if sl_state sl \<noteq> InFlight \<and> sl_state sl \<noteq> Retiring
         then Some (Inl SchedInvariantViolation)
         else do {
           check_head' \<leftarrow> advance C check_head;
           checked' \<leftarrow> usize_add checked 1;
           completion_check n C s observed permits checked' check_head' } } } }"

definition completion_preflight ::
  "usize \<Rightarrow> scheduler \<Rightarrow> batch_record \<Rightarrow> u64 \<Rightarrow> kv_quiescence_permit option list \<Rightarrow>
   (scheduler_error + unit) exec" where
  "completion_preflight C s batch observed permits =
     completion_check (br_member_count batch) C s observed permits 0 (sc_member_head s)"

fun issue_permits ::
  "nat \<Rightarrow> usize \<Rightarrow> scheduler \<Rightarrow> u64 \<Rightarrow> kv_quiescence_permit option list \<Rightarrow> usize \<Rightarrow> usize \<Rightarrow>
   (kv_quiescence_permit option list \<times> usize) exec" where
  "issue_permits 0 C s observed permits processed member_head = Some (permits, member_head)"
| "issue_permits (Suc n) C s observed permits processed member_head = do {
     handle \<leftarrow> idx (sc_member_ring s) member_head;
     permits' \<leftarrow> upd permits processed
        (Some \<lparr>permit_request = handle, permit_origin = CompletedExact observed\<rparr>);
     member_head' \<leftarrow> advance C member_head;
     processed' \<leftarrow> usize_add processed 1;
     issue_permits n C s observed permits' processed' member_head' }"

definition sched_complete_exact ::
  "usize \<Rightarrow> scheduler \<Rightarrow> exact_completion \<Rightarrow> kv_quiescence_permit option list \<Rightarrow>
   ((completion_failure + usize) \<times> kv_quiescence_permit option list \<times> scheduler) exec" where
  "sched_complete_exact C s completion permits =
     (let fail = (\<lambda>e. Some (Inl \<lparr>cf_error = e, cf_completion = completion\<rparr>, permits, s)) in
      if sc_batch_len s = 0 then fail NoPendingBatch
      else (case u64_add (sc_completed s) 1 of
          None \<Rightarrow> fail CompletionNotExactNext
        | Some expected \<Rightarrow>
            let observed = epoch_value (ec_epoch completion) in
            if observed \<noteq> expected then fail CompletionNotExactNext
            else do {
              batch \<leftarrow> idx (sc_batch_ring s) (sc_batch_head s);
              if epoch_value (br_epoch batch) \<noteq> observed \<or> br_member_count batch = 0
              then fail CompletionEpochMismatch
              else if length permits < br_member_count batch then fail CompletionStorageTooSmall
              else do {
                checked \<leftarrow> completion_preflight C s batch observed permits;
                case checked of
                  Inl e \<Rightarrow> fail e
                | Inr _ \<Rightarrow> do {
                    (permits', member_head) \<leftarrow>
                       issue_permits (br_member_count batch) C s observed permits 0 (sc_member_head s);
                    member_len \<leftarrow> u_sub (sc_member_len s) (br_member_count batch);
                    batch_head \<leftarrow> advance C (sc_batch_head s);
                    batch_len \<leftarrow> u_sub (sc_batch_len s) 1;
                    Some (Inr (br_member_count batch), permits',
                          s\<lparr>sc_member_head := member_head, sc_member_len := member_len,
                            sc_batch_head := batch_head, sc_batch_len := batch_len,
                            sc_completed := observed\<rparr>) } } }))"

subsection \<open>Quiescent requests\<close>

definition preflight_next_reincarnation :: "scheduler \<Rightarrow> (scheduler_error + request_id) exec" where
  "preflight_next_reincarnation s =
     (if sc_reclaim_len s = 0 then Some (Inl DetachmentMismatch)
      else do {
        slot_index \<leftarrow> idx (sc_reclaim_ring s) (sc_reclaim_head s);
        sl \<leftarrow> idx (sc_slots s) slot_index;
        if sl_generation sl = U32_MAX then Some (Inl SchedGenerationExhausted)
        else Some (Inr (request_id_new (slot_index_to_u32 slot_index) (sl_generation sl))) })"

definition take_retiring_permit ::
  "usize \<Rightarrow> scheduler \<Rightarrow> ((scheduler_error + kv_quiescence_permit option) \<times> scheduler) exec" where
  "take_retiring_permit C s =
     (if sc_reclaim_len s = 0 then Some (Inr None, s)
      else do {
        slot_index \<leftarrow> idx (sc_reclaim_ring s) (sc_reclaim_head s);
        if C \<le> slot_index then Some (Inl SchedInvariantViolation, s)
        else do {
          sl \<leftarrow> idx (sc_slots s) slot_index;
          if sl_state sl \<noteq> Retiring then Some (Inl SchedInvariantViolation, s)
          else if sl_active_epoch sl \<noteq> NO_EPOCH then Some (Inl SchedInvariantViolation, s)
          else if \<not> sl_in_reclaim_ring sl then Some (Inl SchedInvariantViolation, s)
          else do {
            reclaim_head \<leftarrow> advance C (sc_reclaim_head s);
            reclaim_len \<leftarrow> u_sub (sc_reclaim_len s) 1;
            slots \<leftarrow> upd (sc_slots s) slot_index (sl\<lparr>sl_in_reclaim_ring := False\<rparr>);
            let request = request_id_new (slot_index_to_u32 slot_index) (sl_generation sl);
            let origin = (if sl_last_quiescent_epoch sl = NO_EPOCH then NeverSubmitted
                          else CompletedExact (sl_last_quiescent_epoch sl));
            Some (Inr (Some \<lparr>permit_request = request, permit_origin = origin\<rparr>),
                  s\<lparr>sc_reclaim_head := reclaim_head, sc_reclaim_len := reclaim_len,
                    sc_slots := slots\<rparr>) } } })"

definition finalized_origin :: "kv_finalized_request \<Rightarrow> scheduler_error + u64" where
  "finalized_origin finalized =
     (case fin_origin finalized of
        CompletedExact epoch \<Rightarrow> Inr epoch
      | NeverSubmitted \<Rightarrow> Inl FinalizationMismatch)"

definition finalized_request_preflight ::
  "usize \<Rightarrow> scheduler \<Rightarrow> request_id \<Rightarrow> u64 \<Rightarrow> (scheduler_error + unit) exec" where
  "finalized_request_preflight C s request epoch =
     (if C \<le> slot request then Some (Inl InvalidSlot)
      else do {
        sl \<leftarrow> idx (sc_slots s) (slot request);
        if sl_generation sl \<noteq> generation request then Some (Inl FinalizationMismatch)
        else if sl_state sl \<noteq> InFlight then Some (Inl FinalizationMismatch)
        else if sl_active_epoch sl = NO_EPOCH then Some (Inl FinalizationMismatch)
        else if sc_completed s < sl_active_epoch sl then Some (Inl FinalizationMismatch)
        else if sl_active_epoch sl \<noteq> epoch then Some (Inl FinalizationMismatch)
        else Some (Inr ()) })"

definition finalized_preflight ::
  "usize \<Rightarrow> scheduler \<Rightarrow> kv_finalized_request \<Rightarrow> (scheduler_error + (request_id \<times> u64)) exec" where
  "finalized_preflight C s finalized =
     (case finalized_origin finalized of
        Inl e \<Rightarrow> Some (Inl e)
      | Inr epoch \<Rightarrow> do {
          checked \<leftarrow> finalized_request_preflight C s (fin_request finalized) epoch;
          Some (case checked of Inl e \<Rightarrow> Inl e | Inr _ \<Rightarrow> Inr (fin_request finalized, epoch)) })"

definition finalize_slot :: "scheduler \<Rightarrow> request_id \<Rightarrow> u64 \<Rightarrow> scheduler exec" where
  "finalize_slot s request epoch = do {
     sl \<leftarrow> idx (sc_slots s) (slot request);
     slots \<leftarrow> upd (sc_slots s) (slot request)
        (sl\<lparr>sl_state := Ready, sl_active_epoch := NO_EPOCH, sl_last_quiescent_epoch := epoch\<rparr>);
     Some (s\<lparr>sc_slots := slots\<rparr>) }"

definition accept_finalized ::
  "usize \<Rightarrow> scheduler \<Rightarrow> kv_finalized_request \<Rightarrow> ((scheduler_error + unit) \<times> scheduler) exec" where
  "accept_finalized C s finalized = do {
     validated \<leftarrow> finalized_preflight C s finalized;
     case validated of
       Inl e \<Rightarrow> Some (Inl e, s)
     | Inr (request, epoch) \<Rightarrow> do {
         s' \<leftarrow> finalize_slot s request epoch;
         Some (Inr (), s') } }"

definition reclaim_next_generation :: "scheduler \<Rightarrow> usize \<Rightarrow> (scheduler_error + u32) exec" where
  "reclaim_next_generation s slot_index = do {
     sl \<leftarrow> idx (sc_slots s) slot_index;
     if sl_generation sl = U32_MAX then Some (Inl SchedGenerationExhausted)
     else do { g \<leftarrow> u32_add (sl_generation sl) 1; Some (Inr g) } }"

definition origin_matches :: "scheduler \<Rightarrow> sched_slot \<Rightarrow> kv_quiescence_origin \<Rightarrow> bool" where
  "origin_matches s sl origin =
     (case origin of
        NeverSubmitted \<Rightarrow> sl_active_epoch sl = NO_EPOCH \<and> sl_last_quiescent_epoch sl = NO_EPOCH
      | CompletedExact epoch \<Rightarrow>
          sl_active_epoch sl \<noteq> NO_EPOCH \<and> sl_active_epoch sl = epoch \<and> epoch \<le> sc_completed s
          \<or> sl_active_epoch sl = NO_EPOCH \<and> sl_last_quiescent_epoch sl = epoch)"

definition detached_preflight ::
  "usize \<Rightarrow> scheduler \<Rightarrow> kv_detached_request \<Rightarrow> (scheduler_error + (request_id \<times> u32)) exec" where
  "detached_preflight C s detached =
     (let request = det_request detached; slot_index = slot request in
      if C \<le> slot_index then Some (Inl InvalidSlot)
      else do {
        sl \<leftarrow> idx (sc_slots s) slot_index;
        if sl_generation sl \<noteq> generation request then Some (Inl DetachmentMismatch)
        else if sl_state sl \<noteq> Retiring then Some (Inl DetachmentMismatch)
        else if sl_in_reclaim_ring sl \<or> \<not> origin_matches s sl (det_origin detached)
        then Some (Inl DetachmentMismatch)
        else do {
          next \<leftarrow> reclaim_next_generation s slot_index;
          case next of
            Inl e \<Rightarrow> Some (Inl e)
          | Inr next_generation \<Rightarrow>
              if sc_free_len s = C then Some (Inl SchedInvariantViolation)
              else Some (Inr (request, next_generation)) } })"

definition reclaim_slot :: "usize \<Rightarrow> scheduler \<Rightarrow> request_id \<Rightarrow> u32 \<Rightarrow> (request_id \<times> scheduler) exec" where
  "reclaim_slot C s request next_generation = do {
     (free_ring, _, free_len) \<leftarrow>
        ring_push C (slot request) (sc_free_ring s, sc_free_head s, sc_free_len s);
     slots \<leftarrow> upd (sc_slots s) (slot request)
        \<lparr>sl_generation = next_generation, sl_state = Vacant, sl_active_epoch = NO_EPOCH,
         sl_last_quiescent_epoch = NO_EPOCH, sl_in_free_ring = True, sl_in_reclaim_ring = False\<rparr>;
     live_count \<leftarrow> u_sub (sc_live_count s) 1;
     Some (request, s\<lparr>sc_free_ring := free_ring, sc_free_len := free_len, sc_slots := slots,
                      sc_live_count := live_count\<rparr>) }"

definition reincarnate_detached ::
  "scheduler \<Rightarrow> kv_detached_request \<Rightarrow> (request_id \<times> scheduler) exec" where
  "reincarnate_detached s detached =
     (let slot_index = slot (det_request detached) in do {
        next \<leftarrow> reclaim_next_generation s slot_index;
        let next_generation = (case next of Inr g \<Rightarrow> g | Inl _ \<Rightarrow> 1);
        slots \<leftarrow> upd (sc_slots s) slot_index
           \<lparr>sl_generation = next_generation, sl_state = Ready, sl_active_epoch = NO_EPOCH,
            sl_last_quiescent_epoch = NO_EPOCH, sl_in_free_ring = False, sl_in_reclaim_ring = False\<rparr>;
        Some (request_id_new (slot_index_to_u32 slot_index) next_generation, s\<lparr>sc_slots := slots\<rparr>) })"

definition reclaim_detached ::
  "usize \<Rightarrow> scheduler \<Rightarrow> kv_detached_request \<Rightarrow> ((scheduler_error + request_id) \<times> scheduler) exec" where
  "reclaim_detached C s detached = do {
     validated \<leftarrow> detached_preflight C s detached;
     case validated of
       Inl e \<Rightarrow> Some (Inl e, s)
     | Inr (request, next_generation) \<Rightarrow> do {
         (reclaimed, s') \<leftarrow> reclaim_slot C s request next_generation;
         Some (Inr reclaimed, s') } }"

end
