(* ===== verification/Scheduler_Invariant.thy ===== *)
theory Scheduler_Invariant
  imports Scheduler
begin

text \<open>
  The scheduler invariant and its preservation by the operations that change one slot.  The
  invariant ties the per-slot flags to the contents of the four rings: the free ring holds the
  vacant slots, the reclaim ring the retired quiescent ones, the batch ring one record per
  epoch between the completed and the submitted one, and the member ring the requests of those
  batches in submission order.
\<close>

subsection \<open>Views\<close>

definition free_view :: "nat \<Rightarrow> scheduler \<Rightarrow> nat list" where
  "free_view C s = ring_view C (sc_free_ring s, sc_free_head s, sc_free_len s)"

definition reclaim_view :: "nat \<Rightarrow> scheduler \<Rightarrow> nat list" where
  "reclaim_view C s = ring_view C (sc_reclaim_ring s, sc_reclaim_head s, sc_reclaim_len s)"

definition member_view :: "nat \<Rightarrow> scheduler \<Rightarrow> request_id list" where
  "member_view C s = ring_view C (sc_member_ring s, sc_member_head s, sc_member_len s)"

definition batch_view :: "nat \<Rightarrow> scheduler \<Rightarrow> batch_record list" where
  "batch_view C s = ring_view C (sc_batch_ring s, sc_batch_head s, sc_batch_len s)"

text \<open>The epoch of each pending member.\<close>

definition batch_tags :: "batch_record list \<Rightarrow> u64 list" where
  "batch_tags bs = concat (map (\<lambda>b. replicate (br_member_count b) (epoch_value (br_epoch b))) bs)"

definition handle :: "scheduler \<Rightarrow> nat \<Rightarrow> request_id" where
  "handle s i = request_id_new i (sl_generation (sc_slots s ! i))"

definition executing :: "nat \<Rightarrow> scheduler \<Rightarrow> (request_id \<times> u64) set" where
  "executing C s = {(handle s i, sl_active_epoch (sc_slots s ! i)) | i.
     i < C \<and> sc_completed s < sl_active_epoch (sc_slots s ! i)}"

subsection \<open>The invariant\<close>

definition slot_ok :: "scheduler \<Rightarrow> sched_slot \<Rightarrow> bool" where
  "slot_ok s sl = (0 < sl_generation sl \<and> sl_generation sl \<le> U32_MAX
     \<and> sl_active_epoch sl \<le> sc_submitted s \<and> sl_last_quiescent_epoch sl \<le> sc_completed s
     \<and> sl_in_free_ring sl = (sl_state sl = Vacant)
     \<and> (case sl_state sl of
          Vacant \<Rightarrow> sl_active_epoch sl = 0 \<and> sl_last_quiescent_epoch sl = 0 \<and> \<not> sl_in_reclaim_ring sl
        | Ready \<Rightarrow> sl_active_epoch sl = 0 \<and> \<not> sl_in_reclaim_ring sl
        | InFlight \<Rightarrow> sl_active_epoch sl \<noteq> 0 \<and> \<not> sl_in_reclaim_ring sl
        | Retiring \<Rightarrow> sl_in_reclaim_ring sl \<longrightarrow> sl_active_epoch sl = 0))"

definition sched_shape :: "nat \<Rightarrow> scheduler \<Rightarrow> bool" where
  "sched_shape C s = (0 < C \<and> C \<le> MAX_REQUEST_SLOTS \<and> length (sc_slots s) = C
     \<and> ring_wf C (sc_free_ring s, sc_free_head s, sc_free_len s)
     \<and> ring_wf C (sc_reclaim_ring s, sc_reclaim_head s, sc_reclaim_len s)
     \<and> ring_wf C (sc_member_ring s, sc_member_head s, sc_member_len s)
     \<and> ring_wf C (sc_batch_ring s, sc_batch_head s, sc_batch_len s)
     \<and> sc_cursor s < C \<and> sc_completed s \<le> sc_submitted s \<and> sc_submitted s \<le> U64_MAX
     \<and> sc_live_count s + sc_free_len s = C)"

definition free_ring_ok :: "nat \<Rightarrow> scheduler \<Rightarrow> bool" where
  "free_ring_ok C s = (distinct (free_view C s)
     \<and> set (free_view C s) = {i. i < C \<and> sl_state (sc_slots s ! i) = Vacant})"

definition reclaim_ring_ok :: "nat \<Rightarrow> scheduler \<Rightarrow> bool" where
  "reclaim_ring_ok C s = (distinct (reclaim_view C s)
     \<and> set (reclaim_view C s) = {i. i < C \<and> sl_in_reclaim_ring (sc_slots s ! i)})"

definition batches_ok :: "nat \<Rightarrow> scheduler \<Rightarrow> bool" where
  "batches_ok C s =
     (map (epoch_value \<circ> br_epoch) (batch_view C s) = [Suc (sc_completed s)..<Suc (sc_submitted s)]
     \<and> (\<forall>b \<in> set (batch_view C s). 0 < br_member_count b)
     \<and> length (batch_tags (batch_view C s)) = sc_member_len s
     \<and> distinct (map slot (member_view C s))
     \<and> set (zip (member_view C s) (batch_tags (batch_view C s))) = executing C s)"

definition sched_inv :: "nat \<Rightarrow> scheduler \<Rightarrow> bool" where
  "sched_inv C s = (sched_shape C s \<and> (\<forall>i < C. slot_ok s (sc_slots s ! i))
     \<and> free_ring_ok C s \<and> reclaim_ring_ok C s \<and> batches_ok C s)"

lemma sched_invD:
  assumes "sched_inv C s"
  shows sched_inv_shape: "sched_shape C s"
    and sched_inv_slot: "i < C \<Longrightarrow> slot_ok s (sc_slots s ! i)"
    and sched_inv_free: "free_ring_ok C s"
    and sched_inv_reclaim: "reclaim_ring_ok C s"
    and sched_inv_batches: "batches_ok C s"
  using assms by (auto simp: sched_inv_def)

lemma sched_shapeD:
  assumes "sched_inv C s"
  shows "0 < C" "C \<le> 32" "length (sc_slots s) = C"
    "ring_wf C (sc_free_ring s, sc_free_head s, sc_free_len s)"
    "ring_wf C (sc_reclaim_ring s, sc_reclaim_head s, sc_reclaim_len s)"
    "ring_wf C (sc_member_ring s, sc_member_head s, sc_member_len s)"
    "ring_wf C (sc_batch_ring s, sc_batch_head s, sc_batch_len s)"
    "sc_cursor s < C" "sc_completed s \<le> sc_submitted s" "sc_submitted s \<le> U64_MAX"
    "sc_live_count s + sc_free_len s = C" "C \<le> U32_MAX"
  using sched_inv_shape [OF assms] by (auto simp: sched_shape_def MAX_REQUEST_SLOTS_def)

subsection \<open>Construction\<close>

lemma fill_free_ring_ok:
  assumes "i + n = length xs" "length xs \<le> U32_MAX"
  shows "\<exists>ys. fill_free_ring n i xs = Some ys \<and> length ys = length xs
     \<and> (\<forall>j. j < i \<longrightarrow> ys ! j = xs ! j) \<and> (\<forall>j. i \<le> j \<longrightarrow> j < length xs \<longrightarrow> ys ! j = j)"
  using assms
proof (induction n arbitrary: i xs)
  case 0
  then show ?case by simp
next
  case (Suc n)
  from Suc.IH [of "Suc i" "xs[i := i]"] Suc.prems
  obtain ys where ys: "fill_free_ring n (Suc i) (xs[i := i]) = Some ys"
    "length ys = length xs" "\<And>j. j < Suc i \<Longrightarrow> ys ! j = xs[i := i] ! j"
    "\<And>j. Suc i \<le> j \<Longrightarrow> j < length xs \<Longrightarrow> ys ! j = j" by auto
  have "ys ! j = j" if "i \<le> j" "j < length xs" for j
    using ys(3,4) [of j] that Suc.prems by (cases "j = i") auto
  moreover have "ys ! j = xs ! j" if "j < i" for j using ys(3) [of j] that by simp
  ultimately show ?case using ys(1,2) Suc.prems by (auto simp: upd_ok u_add_ok)
qed

lemma sched_new_correct:
  "case (if C = 0 then Some SchedZeroCapacity else if MAX_REQUEST_SLOTS < C then Some CapacityExceedsKvSlots
         else None) of
     Some e \<Rightarrow> sched_new C = Some (Inl e)
   | None \<Rightarrow> \<exists>s. sched_new C = Some (Inr s) \<and> sched_inv C s \<and> free_view C s = [0..<C]
        \<and> sc_slots s = replicate C Slot_INITIAL \<and> sc_submitted s = 0 \<and> sc_completed s = 0"
proof (cases "C = 0 \<or> MAX_REQUEST_SLOTS < C")
  case True
  then show ?thesis by (auto simp: sched_new_def MAX_REQUEST_SLOTS_def)
next
  case False
  then have C: "0 < C" "C \<le> 32" "C \<le> U32_MAX" by (auto simp: MAX_REQUEST_SLOTS_def)
  obtain ys where ys: "fill_free_ring C 0 (replicate C 0) = Some ys" "length ys = C" "\<forall>j < C. ys ! j = j"
    using fill_free_ring_ok [of 0 C "replicate C 0"] C by auto
  then have "ys = [0..<C]" by (intro nth_equalityI) auto
  then have fv: "ring_view C (ys, 0, C) = [0..<C]"
    by (intro nth_equalityI) (auto simp: ring_view_def)
  then show ?thesis using False C ys(1,2)
    by (auto simp: sched_new_def sched_inv_def sched_shape_def ring_wf_def free_ring_ok_def free_view_def
        reclaim_ring_ok_def reclaim_view_def batches_ok_def batch_view_def member_view_def batch_tags_def
        executing_def slot_ok_def Slot_INITIAL_def NO_EPOCH_def)
qed

subsection \<open>One slot changes\<close>

text \<open>The slot may enter or leave the free and reclaim rings; the pending work is untouched.\<close>

lemma sched_inv_update:
  assumes inv: "sched_inv C s" and i: "i < C"
    and same: "sc_slots s' = (sc_slots s)[i := sl']" "sc_member_ring s' = sc_member_ring s"
      "sc_member_head s' = sc_member_head s" "sc_member_len s' = sc_member_len s"
      "sc_batch_ring s' = sc_batch_ring s" "sc_batch_head s' = sc_batch_head s"
      "sc_batch_len s' = sc_batch_len s" "sc_cursor s' = sc_cursor s"
      "sc_submitted s' = sc_submitted s" "sc_completed s' = sc_completed s"
    and sl': "slot_ok s sl'"
    and pend: "sl_active_epoch sl' = sl_active_epoch (sc_slots s ! i) \<and>
        sl_generation sl' = sl_generation (sc_slots s ! i) \<or>
      sl_active_epoch sl' \<le> sc_completed s \<and> sl_active_epoch (sc_slots s ! i) \<le> sc_completed s"
    and free: "ring_wf C (sc_free_ring s', sc_free_head s', sc_free_len s')" "distinct (free_view C s')"
      "set (free_view C s') = (if sl_state sl' = Vacant then insert i (set (free_view C s))
         else set (free_view C s) - {i})" "sc_live_count s' + sc_free_len s' = C"
    and recl: "ring_wf C (sc_reclaim_ring s', sc_reclaim_head s', sc_reclaim_len s')" "distinct (reclaim_view C s')"
      "set (reclaim_view C s') = (if sl_in_reclaim_ring sl' then insert i (set (reclaim_view C s))
         else set (reclaim_view C s) - {i})"
  shows "sched_inv C s'"
proof -
  note sh = sched_shapeD [OF inv]
  have nth: "sc_slots s' ! j = (if j = i then sl' else sc_slots s ! j)" if "j < C" for j
    using that same(1) sh(3) i by auto
  have ok: "slot_ok s' sl = slot_ok s sl" for sl by (simp add: slot_ok_def same)
  have "sched_shape C s'" using sched_inv_shape [OF inv] free(1,4) recl(1) same
    by (simp add: sched_shape_def)
  moreover have "free_ring_ok C s'"
    using sched_inv_free [OF inv] free(2,3) nth i by (auto simp: free_ring_ok_def split: if_splits)
  moreover have "reclaim_ring_ok C s'"
    using sched_inv_reclaim [OF inv] recl(2,3) nth i by (auto simp: reclaim_ring_ok_def split: if_splits)
  moreover have "executing C s' = executing C s"
  proof -
    have "(j < C \<and> sc_completed s' < sl_active_epoch (sc_slots s' ! j) \<and>
           x = (handle s' j, sl_active_epoch (sc_slots s' ! j))) \<longleftrightarrow>
          (j < C \<and> sc_completed s < sl_active_epoch (sc_slots s ! j) \<and>
           x = (handle s j, sl_active_epoch (sc_slots s ! j)))" for j x
      using nth [of j] pend same(10) by (auto simp: handle_def split: if_splits)
    then show ?thesis unfolding executing_def by blast
  qed
  then have "batches_ok C s'" using sched_inv_batches [OF inv] same
    by (simp add: batches_ok_def batch_view_def member_view_def)
  ultimately show ?thesis using sched_inv_slot [OF inv] sl' nth ok by (auto simp: sched_inv_def)
qed

text \<open>The common case: no ring is involved.\<close>

lemma sched_inv_relabel:
  assumes inv: "sched_inv C s" and i: "i < C" and sl': "slot_ok s sl'"
    and pend: "sl_active_epoch sl' = sl_active_epoch (sc_slots s ! i) \<and>
        sl_generation sl' = sl_generation (sc_slots s ! i) \<or>
      sl_active_epoch sl' \<le> sc_completed s \<and> sl_active_epoch (sc_slots s ! i) \<le> sc_completed s"
    and flags: "sl_state sl' \<noteq> Vacant" "sl_state (sc_slots s ! i) \<noteq> Vacant"
      "\<not> sl_in_reclaim_ring sl'" "\<not> sl_in_reclaim_ring (sc_slots s ! i)"
  shows "sched_inv C (s\<lparr>sc_slots := (sc_slots s)[i := sl']\<rparr>)" (is "sched_inv C ?s")
proof -
  have views: "free_view C ?s = free_view C s" "reclaim_view C ?s = reclaim_view C s"
    by (simp_all add: free_view_def reclaim_view_def)
  have "i \<notin> set (free_view C s)" "i \<notin> set (reclaim_view C s)"
    using sched_inv_free [OF inv] sched_inv_reclaim [OF inv] flags by (auto simp: free_ring_ok_def reclaim_ring_ok_def)
  then show ?thesis
    by (intro sched_inv_update [where sl' = sl', OF inv i])
       (use sl' pend flags views sched_shapeD [OF inv] sched_inv_free [OF inv] sched_inv_reclaim [OF inv] in
        \<open>auto simp: free_ring_ok_def reclaim_ring_ok_def\<close>)
qed

end
