(* ===== verification/Scheduler_Slots.thy ===== *)
theory Scheduler_Slots
  imports Scheduler_Invariant
begin

text \<open>
  The scheduler operations that move one request: admission, retirement, and the return of
  quiescent requests.  Each is shown to take exactly the step of the sequential lifecycle oracle
  of \<^verbatim>\<open>ferric-spec\<close> on the slot it names and to leave every other slot alone.
\<close>

subsection \<open>The lifecycle of a slot\<close>

definition seq_of :: "scheduler \<Rightarrow> nat \<Rightarrow> sequential_request" where
  "seq_of s i =
     (let sl = sc_slots s ! i; running = sc_completed s < sl_active_epoch sl in
      \<lparr>sr_state = sl_state sl,
       sr_phase = (case sl_state sl of
           Vacant \<Rightarrow> Idle | Ready \<Rightarrow> Idle
         | InFlight \<Rightarrow> if running then Executing else AwaitingKv
         | Retiring \<Rightarrow> if running then RetiringExecuting else RetiringQuiescent)\<rparr>)"

text \<open>Slot \<open>i\<close> takes the transition \<open>t\<close> and keeps its generation up to \<open>g\<close>; the rest stays.\<close>

definition moves :: "scheduler \<Rightarrow> scheduler \<Rightarrow> nat \<Rightarrow> request_transition \<Rightarrow> bool" where
  "moves s s' i t = (apply_request_transition (seq_of s i) t = Inr (seq_of s' i)
     \<and> sc_slots s' = (sc_slots s)[i := sc_slots s' ! i]
     \<and> sc_completed s' = sc_completed s \<and> sc_submitted s' = sc_submitted s)"

text \<open>A handle is current when its slot holds its generation.\<close>

definition current :: "nat \<Rightarrow> scheduler \<Rightarrow> request_id \<Rightarrow> bool" where
  "current C s q = (slot q < C \<and> sl_generation (sc_slots s ! slot q) = generation q)"

lemma slot_of_handle [simp]: "slot (request_id_new i g) = i" "generation (request_id_new i g) = g"
  by (simp_all add: request_id_new_def)

lemma index_u32 [simp]: "i \<le> U32_MAX \<Longrightarrow> slot_index_to_u32 i = i"
  by (simp add: slot_index_to_u32_def)

subsection \<open>Admission\<close>

lemma sched_admit_correct:
  assumes inv: "sched_inv C s"
  shows "case free_view C s of
      [] \<Rightarrow> sched_admit C s = Some (Inl OutOfSlots, s)
    | i # rest \<Rightarrow> \<exists>s'. sched_admit C s = Some (Inr (handle s i), s') \<and> sched_inv C s'
        \<and> i < C \<and> moves s s' i Admit \<and> free_view C s' = rest \<and> handle s' i = handle s i"
proof (cases "sc_free_len s")
  case 0
  then show ?thesis by (simp add: free_view_def sched_admit_def)
next
  case (Suc n)
  note sh = sched_shapeD [OF inv]
  let ?h = "sc_free_head s"
  let ?i = "sc_free_ring s ! ?h"
  let ?sl = "sc_slots s ! ?i"
  let ?sl' = "?sl\<lparr>sl_state := Ready, sl_in_free_ring := False\<rparr>"
  let ?s = "s\<lparr>sc_free_head := Suc ?h mod C, sc_free_len := n, sc_slots := (sc_slots s)[?i := ?sl'],
     sc_live_count := sc_live_count s + 1\<rparr>"
  have w: "?h < C" "length (sc_free_ring s) = C" using sh(4) by (auto simp: ring_wf_def)
  have fv: "free_view C s = ?i # free_view C ?s"
    using Suc w ring_view_Suc by (simp add: free_view_def)
  then have i: "?i < C" "sl_state ?sl = Vacant" and d: "distinct (free_view C s)"
    using sched_inv_free [OF inv] by (auto simp: free_ring_ok_def)
  have vac: "sl_active_epoch ?sl = 0" "\<not> sl_in_reclaim_ring ?sl" "0 < sl_generation ?sl" "sl_generation ?sl \<le> U32_MAX"
    "sl_last_quiescent_epoch ?sl = 0"
    using sched_inv_slot [OF inv i(1)] i(2) by (auto simp: slot_ok_def)
  have run: "sched_admit C s = Some (Inr (handle s ?i), ?s)"
    using Suc w i sh(2,3,11,12)
    by (simp add: sched_admit_def admit_established_def admit_available_def exec_simps advance_ok handle_def)
  have "sched_inv C ?s"
  proof (rule sched_inv_update [where sl' = ?sl', OF inv i(1)])
    show "set (free_view C ?s) = (if sl_state ?sl' = Vacant then insert ?i (set (free_view C s))
         else set (free_view C s) - {?i})" using fv d by auto
    show "set (reclaim_view C ?s) = (if sl_in_reclaim_ring ?sl' then insert ?i (set (reclaim_view C s))
         else set (reclaim_view C s) - {?i})"
      using sched_inv_reclaim [OF inv] vac(2) by (auto simp: reclaim_ring_ok_def reclaim_view_def)
    show "distinct (reclaim_view C ?s)"
      using sched_inv_reclaim [OF inv] by (simp add: reclaim_ring_ok_def reclaim_view_def)
    show "ring_wf C (sc_free_ring ?s, sc_free_head ?s, sc_free_len ?s)"
      using ring_pop_ok(2) [of C "sc_free_ring s" ?h n] sh(4) Suc by simp
  qed (use fv d vac sh Suc in \<open>auto simp: slot_ok_def\<close>)
  moreover have "moves s ?s ?i Admit" "handle ?s ?i = handle s ?i"
    using i vac sh(3) by (auto simp: moves_def seq_of_def apply_request_transition_def handle_def)
  ultimately show ?thesis using run fv i(1) by auto
qed

subsection \<open>Retirement\<close>

definition retire_decision :: "nat \<Rightarrow> scheduler \<Rightarrow> request_id \<Rightarrow> scheduler_error option" where
  "retire_decision C s q =
     (if C \<le> slot q then Some InvalidSlot
      else if sl_generation (sc_slots s ! slot q) \<noteq> generation q then Some StaleRequest
      else case sl_state (sc_slots s ! slot q) of
          Vacant \<Rightarrow> Some RequestNotLive
        | Retiring \<Rightarrow> Some SchedAlreadyRetiring
        | _ \<Rightarrow> None)"

lemma view_room:
  assumes "distinct xs" "set xs = {i. i < C \<and> P i}" "i < C" "\<not> P i"
  shows "length xs < C"
proof -
  have "set xs \<subset> {..<C}" using assms by auto
  then have "card (set xs) < card {..<C}" by (intro psubset_card_mono) auto
  then show ?thesis using distinct_card [OF assms(1)] by simp
qed

lemma sched_retire_correct:
  assumes inv: "sched_inv C s"
  shows "case retire_decision C s q of
      Some e \<Rightarrow> sched_retire C s q = Some (Inl e, s)
    | None \<Rightarrow> \<exists>s'. sched_retire C s q = Some (Inr (), s') \<and> sched_inv C s' \<and> moves s s' (slot q) Retire
        \<and> handle s' (slot q) = q \<and> free_view C s' = free_view C s
        \<and> reclaim_view C s' = (if sl_state (sc_slots s ! slot q) = Ready then reclaim_view C s @ [slot q]
             else reclaim_view C s)"
proof (cases "retire_decision C s q")
  case (Some e)
  then show ?thesis using sched_shapeD(3) [OF inv]
    by (auto simp: retire_decision_def sched_retire_def exec_simps split: if_splits request_state.splits)
next
  case None
  note sh = sched_shapeD [OF inv]
  let ?i = "slot q"
  let ?sl = "sc_slots s ! ?i"
  have i: "?i < C" "sl_generation ?sl = generation q" "sl_state ?sl = Ready \<or> sl_state ?sl = InFlight"
    using None by (auto simp: retire_decision_def split: if_splits request_state.splits)
  have q: "request_id_new ?i (generation q) = q" by (simp add: request_id_new_def)
  note ok = sched_inv_slot [OF inv i(1)]
  show ?thesis
  proof (cases "sl_state ?sl = Ready")
    case True
    let ?t = "(sc_reclaim_head s + sc_reclaim_len s) mod C"
    let ?sl' = "?sl\<lparr>sl_state := Retiring, sl_active_epoch := NO_EPOCH, sl_in_reclaim_ring := True\<rparr>"
    let ?s = "s\<lparr>sc_reclaim_ring := (sc_reclaim_ring s)[?t := ?i], sc_reclaim_len := Suc (sc_reclaim_len s),
       sc_slots := (sc_slots s)[?i := ?sl']\<rparr>"
    have r: "sl_active_epoch ?sl = 0" "\<not> sl_in_reclaim_ring ?sl" using ok True by (auto simp: slot_ok_def)
    have "length (reclaim_view C s) < C"
      using sched_inv_reclaim [OF inv] i(1) r(2) unfolding reclaim_ring_ok_def
      by (intro view_room [where P = "\<lambda>i. sl_in_reclaim_ring (sc_slots s ! i)"]) auto
    then have len: "sc_reclaim_len s < C" by (simp add: reclaim_view_def)
    note push = ring_push_ok [OF sh(5) len, of ?i]
    have rv: "reclaim_view C ?s = reclaim_view C s @ [?i]" using push(2) by (simp add: reclaim_view_def)
    have run: "sched_retire C s q = Some (Inr (), ?s)"
      using i True sh(3) push(1) by (simp add: sched_retire_def retire_ready_def exec_simps Let_def)
    have "sched_inv C ?s"
    proof (rule sched_inv_update [where sl' = ?sl', OF inv i(1)])
      show "set (free_view C ?s) = (if sl_state ?sl' = Vacant then insert ?i (set (free_view C s))
           else set (free_view C s) - {?i})"
        using sched_inv_free [OF inv] True by (auto simp: free_ring_ok_def free_view_def)
      show "distinct (free_view C ?s)"
        using sched_inv_free [OF inv] by (auto simp: free_ring_ok_def free_view_def)
      show "ring_wf C (sc_reclaim_ring ?s, sc_reclaim_head ?s, sc_reclaim_len ?s)"
        using sh(5) len by (simp add: ring_wf_def)
    qed (use rv ok True r sh sched_inv_reclaim [OF inv] in
        \<open>auto simp: slot_ok_def NO_EPOCH_def reclaim_ring_ok_def\<close>)
    moreover have "moves s ?s ?i Retire" "handle ?s ?i = q"
      using i r True sh(3) q by (auto simp: moves_def seq_of_def apply_request_transition_def handle_def NO_EPOCH_def)
    ultimately show ?thesis using run None True rv by (auto simp: free_view_def)
  next
    case False
    then have st: "sl_state ?sl = InFlight" using i(3) by simp
    let ?sl' = "?sl\<lparr>sl_state := Retiring\<rparr>"
    let ?s = "s\<lparr>sc_slots := (sc_slots s)[?i := ?sl']\<rparr>"
    have r: "\<not> sl_in_reclaim_ring ?sl" using ok st by (auto simp: slot_ok_def)
    have run: "sched_retire C s q = Some (Inr (), ?s)"
      using i st sh(3) by (simp add: sched_retire_def retire_inflight_def exec_simps Let_def)
    have "sched_inv C ?s"
      by (rule sched_inv_relabel [OF inv i(1)]) (use ok st r in \<open>auto simp: slot_ok_def\<close>)
    moreover have "moves s ?s ?i Retire" "handle ?s ?i = q"
      using i st sh(3) q by (auto simp: moves_def seq_of_def apply_request_transition_def handle_def)
    ultimately show ?thesis using run None False by (auto simp: free_view_def reclaim_view_def)
  qed
qed

subsection \<open>Quiescent requests\<close>

lemma take_retiring_permit_correct:
  assumes inv: "sched_inv C s"
  shows "case reclaim_view C s of
      [] \<Rightarrow> take_retiring_permit C s = Some (Inr None, s)
    | i # rest \<Rightarrow> \<exists>s'. take_retiring_permit C s =
          Some (Inr (Some \<lparr>permit_request = handle s i, permit_origin =
             (if sl_last_quiescent_epoch (sc_slots s ! i) = 0 then NeverSubmitted
              else CompletedExact (sl_last_quiescent_epoch (sc_slots s ! i)))\<rparr>), s')
        \<and> sched_inv C s' \<and> i < C \<and> reclaim_view C s' = rest \<and> sl_state (sc_slots s ! i) = Retiring
        \<and> s' = s\<lparr>sc_reclaim_head := sc_reclaim_head s', sc_reclaim_len := sc_reclaim_len s',
                 sc_slots := (sc_slots s)[i := (sc_slots s ! i)\<lparr>sl_in_reclaim_ring := False\<rparr>]\<rparr>"
proof (cases "sc_reclaim_len s")
  case 0
  then show ?thesis by (simp add: reclaim_view_def take_retiring_permit_def)
next
  case (Suc n)
  note sh = sched_shapeD [OF inv]
  let ?h = "sc_reclaim_head s"
  let ?i = "sc_reclaim_ring s ! ?h"
  let ?sl = "sc_slots s ! ?i"
  let ?sl' = "?sl\<lparr>sl_in_reclaim_ring := False\<rparr>"
  let ?s = "s\<lparr>sc_reclaim_head := Suc ?h mod C, sc_reclaim_len := n, sc_slots := (sc_slots s)[?i := ?sl']\<rparr>"
  have w: "?h < C" "length (sc_reclaim_ring s) = C" using sh(5) by (auto simp: ring_wf_def)
  have rv: "reclaim_view C s = ?i # reclaim_view C ?s"
    using Suc w ring_view_Suc by (simp add: reclaim_view_def)
  then have i: "?i < C" "sl_in_reclaim_ring ?sl" and d: "distinct (reclaim_view C s)"
    using sched_inv_reclaim [OF inv] by (auto simp: reclaim_ring_ok_def)
  note ok = sched_inv_slot [OF inv i(1)]
  have st: "sl_state ?sl = Retiring" "sl_active_epoch ?sl = 0"
    using ok i(2) by (auto simp: slot_ok_def split: request_state.splits)
  have run: "take_retiring_permit C s = Some (Inr (Some \<lparr>permit_request = handle s ?i, permit_origin =
             (if sl_last_quiescent_epoch ?sl = 0 then NeverSubmitted
              else CompletedExact (sl_last_quiescent_epoch ?sl))\<rparr>), ?s)"
    using Suc w i st sh(2,3,12)
    by (simp add: take_retiring_permit_def exec_simps advance_ok handle_def NO_EPOCH_def)
  have "sched_inv C ?s"
  proof (rule sched_inv_update [where sl' = ?sl', OF inv i(1)])
    show "set (free_view C ?s) = (if sl_state ?sl' = Vacant then insert ?i (set (free_view C s))
         else set (free_view C s) - {?i})"
      using sched_inv_free [OF inv] st by (auto simp: free_ring_ok_def free_view_def)
    show "distinct (free_view C ?s)"
      using sched_inv_free [OF inv] by (simp add: free_ring_ok_def free_view_def)
    show "ring_wf C (sc_reclaim_ring ?s, sc_reclaim_head ?s, sc_reclaim_len ?s)"
      using ring_pop_ok(2) [of C "sc_reclaim_ring s" ?h n] sh(5) Suc by simp
  qed (use rv d ok st sh in \<open>auto simp: slot_ok_def\<close>)
  then show ?thesis using run rv i(1) st(1) by auto
qed

definition finalize_ready :: "nat \<Rightarrow> scheduler \<Rightarrow> request_id \<Rightarrow> u64 \<Rightarrow> bool" where
  "finalize_ready C s q epoch = (current C s q \<and> sl_state (sc_slots s ! slot q) = InFlight
     \<and> sl_active_epoch (sc_slots s ! slot q) = epoch \<and> epoch \<le> sc_completed s)"

definition accept_decision :: "nat \<Rightarrow> scheduler \<Rightarrow> kv_finalized_request \<Rightarrow> scheduler_error option" where
  "accept_decision C s f =
     (case fin_origin f of
        NeverSubmitted \<Rightarrow> Some FinalizationMismatch
      | CompletedExact e \<Rightarrow>
          if C \<le> slot (fin_request f) then Some InvalidSlot
          else if finalize_ready C s (fin_request f) e then None else Some FinalizationMismatch)"

lemma accept_finalized_correct:
  assumes inv: "sched_inv C s"
  shows "case accept_decision C s f of
      Some e \<Rightarrow> accept_finalized C s f = Some (Inl e, s)
    | None \<Rightarrow> \<exists>s'. accept_finalized C s f = Some (Inr (), s') \<and> sched_inv C s'
        \<and> moves s s' (slot (fin_request f)) FinalizeKv \<and> handle s' (slot (fin_request f)) = fin_request f
        \<and> s' = s\<lparr>sc_slots := sc_slots s'\<rparr>"
proof (cases "accept_decision C s f")
  case (Some e)
  then show ?thesis using sched_shapeD(3) [OF inv] sched_inv_slot [OF inv, of "slot (fin_request f)"]
    by (auto simp: accept_decision_def finalize_ready_def current_def accept_finalized_def finalized_preflight_def
        finalized_origin_def finalized_request_preflight_def exec_simps slot_ok_def NO_EPOCH_def
        split: if_splits kv_quiescence_origin.splits)
next
  case None
  note sh = sched_shapeD [OF inv]
  let ?i = "slot (fin_request f)"
  let ?sl = "sc_slots s ! ?i"
  obtain e where e: "fin_origin f = CompletedExact e" "finalize_ready C s (fin_request f) e"
    using None by (auto simp: accept_decision_def split: kv_quiescence_origin.splits if_splits)
  let ?sl' = "?sl\<lparr>sl_state := Ready, sl_active_epoch := NO_EPOCH, sl_last_quiescent_epoch := e\<rparr>"
  let ?s = "s\<lparr>sc_slots := (sc_slots s)[?i := ?sl']\<rparr>"
  have i: "?i < C" "sl_generation ?sl = generation (fin_request f)" "sl_state ?sl = InFlight"
    "sl_active_epoch ?sl = e" "e \<le> sc_completed s"
    using e(2) by (auto simp: finalize_ready_def current_def)
  note ok = sched_inv_slot [OF inv i(1)]
  have n0: "e \<noteq> 0" "\<not> sl_in_reclaim_ring ?sl" using ok i by (auto simp: slot_ok_def)
  have run: "accept_finalized C s f = Some (Inr (), ?s)"
    using i n0 e(1) sh(3)
    by (simp add: accept_finalized_def finalized_preflight_def finalized_origin_def
        finalized_request_preflight_def finalize_slot_def exec_simps NO_EPOCH_def)
  have "sched_inv C ?s"
    by (rule sched_inv_relabel [OF inv i(1)]) (use ok i n0 in \<open>auto simp: slot_ok_def NO_EPOCH_def\<close>)
  moreover have "moves s ?s ?i FinalizeKv" "handle ?s ?i = fin_request f"
    using i sh(3)
    by (auto simp: moves_def seq_of_def apply_request_transition_def handle_def request_id_new_def Let_def)
  ultimately show ?thesis using run None by auto
qed

subsection \<open>Detached requests\<close>

text \<open>The request named by the evidence is retiring, quiescent and out of the reclaim ring.\<close>

definition detach_ready :: "nat \<Rightarrow> scheduler \<Rightarrow> kv_detached_request \<Rightarrow> bool" where
  "detach_ready C s d =
     (let sl = sc_slots s ! slot (det_request d) in
      current C s (det_request d) \<and> sl_state sl = Retiring \<and> \<not> sl_in_reclaim_ring sl
      \<and> origin_matches s sl (det_origin d))"

definition reclaim_decision :: "nat \<Rightarrow> scheduler \<Rightarrow> kv_detached_request \<Rightarrow> scheduler_error option" where
  "reclaim_decision C s d =
     (if C \<le> slot (det_request d) then Some InvalidSlot
      else if \<not> detach_ready C s d then Some DetachmentMismatch
      else if generation (det_request d) = U32_MAX then Some SchedGenerationExhausted
      else None)"

lemma detach_readyD:
  assumes inv: "sched_inv C s" and d: "detach_ready C s d"
  defines "sl \<equiv> sc_slots s ! slot (det_request d)"
  shows "slot (det_request d) < C" "sl_generation sl = generation (det_request d)" "sl_state sl = Retiring"
    "\<not> sl_in_reclaim_ring sl" "origin_matches s sl (det_origin d)" "sl_active_epoch sl \<le> sc_completed s"
    "sc_free_len s < C" "seq_of s (slot (det_request d)) = \<lparr>sr_state = Retiring, sr_phase = RetiringQuiescent\<rparr>"
proof -
  show i: "slot (det_request d) < C" "sl_generation sl = generation (det_request d)" "sl_state sl = Retiring"
    "\<not> sl_in_reclaim_ring sl" "origin_matches s sl (det_origin d)"
    using d by (auto simp: detach_ready_def current_def sl_def Let_def)
  then show a: "sl_active_epoch sl \<le> sc_completed s"
    by (auto simp: origin_matches_def NO_EPOCH_def split: kv_quiescence_origin.splits)
  then show "seq_of s (slot (det_request d)) = \<lparr>sr_state = Retiring, sr_phase = RetiringQuiescent\<rparr>"
    using i(3) by (auto simp: seq_of_def sl_def Let_def)
  have "length (free_view C s) < C"
    using sched_inv_free [OF inv] i(1,3) unfolding free_ring_ok_def sl_def
    by (intro view_room [where P = "\<lambda>i. sl_state (sc_slots s ! i) = Vacant" and i = "slot (det_request d)"]) auto
  then show "sc_free_len s < C" by (simp add: free_view_def)
qed

lemma detached_preflight_eq:
  assumes inv: "sched_inv C s"
  shows "detached_preflight C s d = Some (case reclaim_decision C s d of
      Some e \<Rightarrow> Inl e | None \<Rightarrow> Inr (det_request d, generation (det_request d) + 1))"
proof (cases "detach_ready C s d")
  case False
  then show ?thesis using sched_shapeD(3) [OF inv]
    by (auto simp: reclaim_decision_def detached_preflight_def detach_ready_def current_def Let_def idx_ok)
next
  case True
  note f = detach_readyD [OF inv True]
  have "generation (det_request d) \<le> U32_MAX"
    using sched_inv_slot [OF inv f(1)] f(2) by (simp add: slot_ok_def)
  then show ?thesis using f True sched_shapeD(3) [OF inv]
    by (auto simp: reclaim_decision_def detached_preflight_def reclaim_next_generation_def idx_ok u_add_ok Let_def)
qed

lemma reclaim_detached_correct:
  assumes inv: "sched_inv C s"
  shows "case reclaim_decision C s d of
      Some e \<Rightarrow> reclaim_detached C s d = Some (Inl e, s)
    | None \<Rightarrow> \<exists>s'. reclaim_detached C s d = Some (Inr (det_request d), s') \<and> sched_inv C s'
        \<and> moves s s' (slot (det_request d)) DetachKv
        \<and> sl_generation (sc_slots s' ! slot (det_request d)) = generation (det_request d) + 1
        \<and> free_view C s' = free_view C s @ [slot (det_request d)]"
proof (cases "reclaim_decision C s d")
  case (Some e)
  then show ?thesis by (simp add: reclaim_detached_def detached_preflight_eq [OF inv])
next
  case None
  note sh = sched_shapeD [OF inv]
  let ?i = "slot (det_request d)"
  let ?sl = "sc_slots s ! ?i"
  have r: "detach_ready C s d" "generation (det_request d) \<noteq> U32_MAX"
    using None by (auto simp: reclaim_decision_def split: if_splits)
  note f = detach_readyD [OF inv r(1)]
  note ok = sched_inv_slot [OF inv f(1)]
  have g: "generation (det_request d) + 1 \<le> U32_MAX" using ok f(2) r(2) by (auto simp: slot_ok_def)
  let ?sl' = "\<lparr>sl_generation = generation (det_request d) + 1, sl_state = Vacant, sl_active_epoch = NO_EPOCH,
    sl_last_quiescent_epoch = NO_EPOCH, sl_in_free_ring = True, sl_in_reclaim_ring = False\<rparr>"
  let ?t = "(sc_free_head s + sc_free_len s) mod C"
  let ?s = "s\<lparr>sc_free_ring := (sc_free_ring s)[?t := ?i], sc_free_len := Suc (sc_free_len s),
     sc_slots := (sc_slots s)[?i := ?sl'], sc_live_count := sc_live_count s - 1\<rparr>"
  note push = ring_push_ok [OF sh(4) f(7), of ?i]
  have fv: "free_view C ?s = free_view C s @ [?i]" using push(2) by (simp add: free_view_def)
  have lc: "0 < sc_live_count s" using sh(11) f(7) by simp
  have "?i \<notin> set (free_view C s)" using sched_inv_free [OF inv] f(3) by (auto simp: free_ring_ok_def)
  moreover have "sched_inv C ?s" if "?i \<notin> set (free_view C s)"
  proof (rule sched_inv_update [where sl' = ?sl', OF inv f(1)])
    show "set (reclaim_view C ?s) = (if sl_in_reclaim_ring ?sl' then insert ?i (set (reclaim_view C s))
         else set (reclaim_view C s) - {?i})"
      using sched_inv_reclaim [OF inv] f(4) by (auto simp: reclaim_ring_ok_def reclaim_view_def)
    show "distinct (reclaim_view C ?s)"
      using sched_inv_reclaim [OF inv] by (simp add: reclaim_ring_ok_def reclaim_view_def)
    show "ring_wf C (sc_free_ring ?s, sc_free_head ?s, sc_free_len ?s)"
      using sh(4) f(7) by (simp add: ring_wf_def)
    show "distinct (free_view C ?s)"
      using sched_inv_free [OF inv] that unfolding fv by (simp add: free_ring_ok_def)
  qed (use fv f(6) g sh lc in \<open>auto simp: slot_ok_def NO_EPOCH_def\<close>)
  moreover have "reclaim_detached C s d = Some (Inr (det_request d), ?s)"
    using push(1) f(1) sh(3) lc None
    by (simp add: reclaim_detached_def detached_preflight_eq [OF inv] reclaim_slot_def exec_simps)
  moreover have "moves s ?s ?i DetachKv"
    using f sh(3) by (auto simp: moves_def apply_request_transition_def) (simp add: seq_of_def)
  ultimately show ?thesis using None fv f(1) sh(3) by auto
qed

text \<open>Reincarnation keeps the slot out of the free ring: two lifecycle steps in one.\<close>

lemma reincarnate_detached_correct:
  assumes inv: "sched_inv C s" and d: "detach_ready C s d" and g: "generation (det_request d) \<noteq> U32_MAX"
  defines "i \<equiv> slot (det_request d)"
  shows "\<exists>s' mid. reincarnate_detached s d = Some (request_id_new i (generation (det_request d) + 1), s')
    \<and> sched_inv C s' \<and> handle s' i = request_id_new i (generation (det_request d) + 1)
    \<and> apply_request_transition (seq_of s i) DetachKv = Inr mid
    \<and> apply_request_transition mid Admit = Inr (seq_of s' i)
    \<and> s' = s\<lparr>sc_slots := (sc_slots s)[i := sc_slots s' ! i]\<rparr>"
proof -
  note sh = sched_shapeD [OF inv] and f = detach_readyD [OF inv d]
  note ok = sched_inv_slot [OF inv f(1)]
  let ?g = "generation (det_request d) + 1"
  let ?sl = "\<lparr>sl_generation = ?g, sl_state = Ready, sl_active_epoch = NO_EPOCH,
    sl_last_quiescent_epoch = NO_EPOCH, sl_in_free_ring = False, sl_in_reclaim_ring = False\<rparr>"
  let ?s = "s\<lparr>sc_slots := (sc_slots s)[i := ?sl]\<rparr>"
  have b: "?g \<le> U32_MAX" using ok f(2) g by (auto simp: slot_ok_def)
  have "reincarnate_detached s d = Some (request_id_new i ?g, ?s)"
    using f b g sh(2,3)
    by (simp add: reincarnate_detached_def reclaim_next_generation_def exec_simps i_def Let_def)
  moreover have "sched_inv C ?s" unfolding i_def
    by (rule sched_inv_relabel [OF inv f(1)]) (use ok f b in \<open>auto simp: slot_ok_def NO_EPOCH_def\<close>)
  moreover have "handle ?s i = request_id_new i ?g" "seq_of ?s i = \<lparr>sr_state = Ready, sr_phase = Idle\<rparr>"
    using f(1) sh(3) by (simp_all add: handle_def seq_of_def i_def)
  ultimately show ?thesis using f(1,8) sh(3)
    by (auto simp: i_def apply_request_transition_def)
qed

end
