(* ===== verification/Scheduler_Batches.thy ===== *)
theory Scheduler_Batches
  imports Scheduler_Slots
begin

text \<open>
  Batches: the rotating dispatch, the dispatch of an exact roster, and the exact completion of
  the oldest batch.
\<close>

subsection \<open>Marking slots as in flight\<close>

text \<open>The slots \<open>R\<close> become in flight under epoch \<open>e\<close>, in this order, and their handles follow the
  first \<open>n\<close> entries of the member ring.\<close>

definition dispatched :: "nat \<Rightarrow> scheduler \<Rightarrow> scheduler \<Rightarrow> u64 \<Rightarrow> nat \<Rightarrow> nat list \<Rightarrow> bool" where
  "dispatched C s s' e n R =
     (\<exists>slots mr. s' = s\<lparr>sc_slots := slots, sc_member_ring := mr\<rparr> \<and> length slots = C \<and> length mr = C
      \<and> (\<forall>i < C. slots ! i = (if i \<in> set R
            then (sc_slots s ! i)\<lparr>sl_state := InFlight, sl_active_epoch := e\<rparr> else sc_slots s ! i))
      \<and> ring_view C (mr, sc_member_head s, n + length R)
          = ring_view C (sc_member_ring s, sc_member_head s, n) @ map (handle s) R
      \<and> (R = [] \<longrightarrow> s' = s))"

definition mark :: "nat \<Rightarrow> scheduler \<Rightarrow> nat \<Rightarrow> u64 \<Rightarrow> nat \<Rightarrow> scheduler" where
  "mark C s i e n = s\<lparr>
     sc_slots := (sc_slots s)[i := (sc_slots s ! i)\<lparr>sl_state := InFlight, sl_active_epoch := e\<rparr>],
     sc_member_ring := (sc_member_ring s)[(sc_member_head s + n) mod C := handle s i]\<rparr>"

lemma handle_mark [simp]: "handle (mark C s i e n) = handle s"
proof
  fix j show "handle (mark C s i e n) j = handle s j"
    by (cases "j = i"; cases "i < length (sc_slots s)") (auto simp: handle_def mark_def list_update_beyond)
qed

lemma mark_head [simp]: "sc_member_head (mark C s i e n) = sc_member_head s"
  "length (sc_slots (mark C s i e n)) = length (sc_slots s)"
  "length (sc_member_ring (mark C s i e n)) = length (sc_member_ring s)"
  by (simp_all add: mark_def)

lemma dispatched_Nil:
  "length (sc_slots s) = C \<Longrightarrow> length (sc_member_ring s) = C \<Longrightarrow> dispatched C s s e n []"
  unfolding dispatched_def by (rule exI [of _ "sc_slots s"], rule exI [of _ "sc_member_ring s"]) simp

lemma dispatched_Cons:
  assumes wf: "ring_wf C (sc_member_ring s, sc_member_head s, n)" "n < C" and i: "i < C" "i \<notin> set R"
    and len: "length (sc_slots s) = C" and d: "dispatched C (mark C s i e n) s' e (Suc n) R"
  shows "dispatched C s s' e n (i # R)"
proof -
  from d obtain slots mr where 1: "s' = (mark C s i e n)\<lparr>sc_slots := slots, sc_member_ring := mr\<rparr>"
    "length slots = C" "length mr = C"
    "\<forall>j < C. slots ! j = (if j \<in> set R then (sc_slots (mark C s i e n) ! j)\<lparr>sl_state := InFlight,
       sl_active_epoch := e\<rparr> else sc_slots (mark C s i e n) ! j)"
    "ring_view C (mr, sc_member_head s, Suc n + length R)
       = ring_view C (sc_member_ring (mark C s i e n), sc_member_head s, Suc n) @ map (handle s) R"
    unfolding dispatched_def by auto
  show ?thesis unfolding dispatched_def
    by (rule exI [of _ slots], rule exI [of _ mr])
       (use 1 i len ring_push_ok(2) [OF wf, of "handle s i"] in \<open>auto simp: mark_def nth_list_update\<close>)
qed

subsection \<open>The rotating scan\<close>

definition scan_order :: "nat \<Rightarrow> nat \<Rightarrow> nat \<Rightarrow> nat list" where
  "scan_order C start n = map (\<lambda>k. (start + k) mod C) [0..<n]"

definition is_ready :: "scheduler \<Rightarrow> nat \<Rightarrow> bool" where
  "is_ready s i = (sl_state (sc_slots s ! i) = Ready)"

lemma scan_order_Suc:
  "i < C \<Longrightarrow> scan_order C i (Suc n) = i # scan_order C (Suc i mod C) n"
  using ring_view_Suc [of i C "[0..<C]" n] by (simp add: scan_order_def ring_view_def)

lemma scan_order_bound: "0 < C \<Longrightarrow> j \<in> set (scan_order C i n) \<Longrightarrow> j < C"
  by (auto simp: scan_order_def)

lemma distinct_scan_order: "i < C \<Longrightarrow> n \<le> C \<Longrightarrow> distinct (scan_order C i n)"
  by (auto simp: scan_order_def distinct_map intro!: inj_onI elim!: ring_index_inj [rotated 3])

lemma mark_ready: "j \<noteq> i \<Longrightarrow> is_ready (mark C s i e n) j = is_ready s j"
  by (simp add: is_ready_def mark_def)

lemma dispatch_one_selected_eq:
  assumes "i < C" "C \<le> U32_MAX" "length (sc_slots s) = C" "length (sc_member_ring s) = C" "sel < length out"
  shows "dispatch_one_selected s out sel i ((sc_member_head s + n) mod C) e =
    Some (out[sel := handle s i], mark C s i e n)"
proof -
  have "(sc_member_head s + n) mod C < C" using assms(1) by simp
  then show ?thesis using assms
    by (simp add: dispatch_one_selected_def exec_simps mark_def handle_def Let_def)
qed

lemma dispatch_scan_ok:
  assumes "C \<le> U32_MAX" "length (sc_slots s) = C" "ring_wf C (sc_member_ring s, sc_member_head s, n)"
    "n + (limit - sel) \<le> C" "sel \<le> limit" "limit \<le> length out" "limit \<le> C" "i < C" "c \<le> C"
  shows "\<exists>i' mt out' s'. let R = take (limit - sel) (filter (is_ready s) (scan_order C i c)) in
    dispatch_scan c C s out limit e i ((sc_member_head s + n) mod C) sel = Some (sel + length R, i', mt, out', s')
    \<and> i' < C \<and> dispatched C s s' e n R \<and> length out' = length out
    \<and> take (sel + length R) out' = take sel out @ map (handle s) R
    \<and> drop (sel + length R) out' = drop (sel + length R) out"
  using assms
proof (induction c arbitrary: s n sel out i)
  case 0
  then show ?case using dispatched_Nil [of s C] by (simp add: scan_order_def ring_wf_def)
next
  case (Suc c)
  note sh = Suc.prems
  have i': "Suc i mod C < C" using sh(8) by simp
  have so: "scan_order C i (Suc c) = i # scan_order C (Suc i mod C) c" by (rule scan_order_Suc [OF sh(8)])
  have ni: "i \<notin> set (scan_order C (Suc i mod C) c)"
    using distinct_scan_order [OF sh(8,9)] so by simp
  consider (full) "sel = limit" | (skip) "sel < limit" "\<not> is_ready s i" | (pick) "sel < limit" "is_ready s i"
    using sh(5) by linarith
  then show ?case
  proof cases
    case full
    then show ?thesis using sh dispatched_Nil [of s C] by (simp add: ring_wf_def)
  next
    case skip
    then have "dispatch_scan (Suc c) C s out limit e i ((sc_member_head s + n) mod C) sel =
       dispatch_scan c C s out limit e (Suc i mod C) ((sc_member_head s + n) mod C) sel"
      using sh(1,2,6,8) by (cases "sl_state (sc_slots s ! i)") (simp_all add: exec_simps advance_ok is_ready_def)
    then show ?thesis using Suc.IH [of s n sel out "Suc i mod C"] sh i' skip so by simp
  next
    case pick
    let ?s = "mark C s i e n"
    let ?out = "out[sel := handle s i]"
    let ?R = "take (limit - Suc sel) (filter (is_ready s) (scan_order C (Suc i mod C) c))"
    have w: "length (sc_member_ring s) = C" "sc_member_head s < C" using sh(3) by (auto simp: ring_wf_def)
    have room: "n < C" "sel < length out" using sh pick by auto
    have "advance C ((sc_member_head s + n) mod C) = Some ((sc_member_head s + Suc n) mod C)"
      using sh(1,8) by (subst advance_ok) (auto simp: mod_Suc_eq)
    then have run: "dispatch_scan (Suc c) C s out limit e i ((sc_member_head s + n) mod C) sel =
       dispatch_scan c C ?s ?out limit e (Suc i mod C) ((sc_member_head s + Suc n) mod C) (Suc sel)"
      using sh pick room w dispatch_one_selected_eq [of i C s sel out n e]
      by (simp add: exec_simps advance_ok is_ready_def)
    have flt: "filter (is_ready ?s) (scan_order C (Suc i mod C) c) = filter (is_ready s) (scan_order C (Suc i mod C) c)"
      by (rule filter_cong [OF refl mark_ready]) (use ni in auto)
    have R: "take (limit - sel) (filter (is_ready s) (scan_order C i (Suc c))) = i # ?R"
      using pick so by (cases "limit - sel") (auto, metis Suc_diff_Suc diff_Suc_1)
    have wf': "ring_wf C (sc_member_ring ?s, sc_member_head s, Suc n)"
      using sh(3) room by (simp add: ring_wf_def mark_def)
    obtain j mt out' s' where IH: "dispatch_scan c C ?s ?out limit e (Suc i mod C)
        ((sc_member_head s + Suc n) mod C) (Suc sel) = Some (Suc sel + length ?R, j, mt, out', s')"
      "j < C" "dispatched C ?s s' e (Suc n) ?R" "length out' = length out"
      "take (Suc sel + length ?R) out' = take (Suc sel) ?out @ map (handle s) ?R"
      "drop (Suc sel + length ?R) out' = drop (Suc sel + length ?R) ?out"
    proof -
      have len: "length (sc_slots ?s) = C" "ring_wf C (sc_member_ring ?s, sc_member_head ?s, Suc n)"
        "Suc n + (limit - Suc sel) \<le> C" "Suc sel \<le> limit" "limit \<le> length ?out" "c \<le> C"
        using sh pick wf' by (auto simp: mark_def)
      show ?thesis
        using Suc.IH [OF sh(1) len(1-5) sh(7) i' len(6)] that
        unfolding Let_def flt handle_mark mark_head length_list_update by blast
    qed
    have "dispatched C s s' e n (i # ?R)"
      by (rule dispatched_Cons [OF sh(3) room(1) sh(8) _ sh(2) IH(3)])
         (use ni in_set_takeD in fastforce)
    moreover have "take (Suc sel) ?out = take sel out @ [handle s i]" using room(2) by (rule take_Suc_update)
    ultimately show ?thesis unfolding R run using IH by auto
  qed
qed

subsection \<open>Submitting a batch\<close>

lemma executing_image:
  "executing C s = (\<lambda>i. (handle s i, sl_active_epoch (sc_slots s ! i))) `
     {i. i < C \<and> sc_completed s < sl_active_epoch (sc_slots s ! i)}"
  unfolding executing_def by blast

lemma batch_tags_append: "batch_tags (xs @ [b]) = batch_tags xs @ replicate (br_member_count b) (epoch_value (br_epoch b))"
  by (simp add: batch_tags_def)

lemma member_executing:
  assumes inv: "sched_inv C s" and m: "m \<in> set (member_view C s)"
  shows "slot m < C" "sc_completed s < sl_active_epoch (sc_slots s ! slot m)" "handle s (slot m) = m"
proof -
  have "length (member_view C s) = length (batch_tags (batch_view C s))"
    using sched_inv_batches [OF inv] by (simp add: batches_ok_def member_view_def)
  then obtain e where "(m, e) \<in> set (zip (member_view C s) (batch_tags (batch_view C s)))"
    using m by (metis in_set_impl_in_set_zip1)
  then have "(m, e) \<in> executing C s" using sched_inv_batches [OF inv] by (simp add: batches_ok_def)
  then show "slot m < C" "sc_completed s < sl_active_epoch (sc_slots s ! slot m)" "handle s (slot m) = m"
    by (auto simp: executing_def handle_def)
qed

definition submitted_pool :: "nat \<Rightarrow> scheduler \<Rightarrow> u64 \<Rightarrow> nat \<Rightarrow> nat \<Rightarrow> scheduler" where
  "submitted_pool C s1 e n cur =
     s1\<lparr>sc_batch_ring := (sc_batch_ring s1)[(sc_batch_head s1 + sc_batch_len s1) mod C :=
          \<lparr>br_epoch = \<lparr>epoch_value = e\<rparr>, br_member_count = n\<rparr>],
        sc_batch_len := Suc (sc_batch_len s1), sc_member_len := sc_member_len s1 + n,
        sc_cursor := cur, sc_submitted := e\<rparr>"

lemma submit_inv:
  assumes inv: "sched_inv C s" and d: "dispatched C s s1 (Suc (sc_submitted s)) (sc_member_len s) R"
    and R: "R \<noteq> []" "distinct R" "\<And>i. i \<in> set R \<Longrightarrow> i < C \<and> is_ready s i"
    and room: "sc_batch_len s < C" "sc_member_len s + length R \<le> C" "Suc (sc_submitted s) \<le> U64_MAX" "cur < C"
  defines "s' \<equiv> submitted_pool C s1 (Suc (sc_submitted s)) (length R) cur"
  shows "sched_inv C s'" "member_view C s' = member_view C s @ map (handle s) R"
    "batch_view C s' = batch_view C s @ [\<lparr>br_epoch = \<lparr>epoch_value = Suc (sc_submitted s)\<rparr>, br_member_count = length R\<rparr>]"
    "free_view C s' = free_view C s" "reclaim_view C s' = reclaim_view C s"
proof -
  note sh = sched_shapeD [OF inv]
  let ?e = "Suc (sc_submitted s)"
  let ?b = "\<lparr>br_epoch = \<lparr>epoch_value = ?e\<rparr>, br_member_count = length R\<rparr>"
  from d obtain slots mr where 1: "s1 = s\<lparr>sc_slots := slots, sc_member_ring := mr\<rparr>" "length slots = C" "length mr = C"
    "\<And>i. i < C \<Longrightarrow> slots ! i = (if i \<in> set R
       then (sc_slots s ! i)\<lparr>sl_state := InFlight, sl_active_epoch := ?e\<rparr> else sc_slots s ! i)"
    "ring_view C (mr, sc_member_head s, sc_member_len s + length R)
       = ring_view C (sc_member_ring s, sc_member_head s, sc_member_len s) @ map (handle s) R"
    unfolding dispatched_def by auto
  show mv: "member_view C s' = member_view C s @ map (handle s) R"
    using 1(1,5) by (simp add: member_view_def s'_def submitted_pool_def)
  show bv: "batch_view C s' = batch_view C s @ [?b]"
    using ring_push_ok(2) [OF sh(7) room(1), of ?b] 1(1) by (simp add: batch_view_def s'_def submitted_pool_def)
  show fv: "free_view C s' = free_view C s" "reclaim_view C s' = reclaim_view C s"
    using 1(1) by (simp_all add: free_view_def reclaim_view_def s'_def submitted_pool_def)
  have sl: "sc_slots s' ! i = (if i \<in> set R
       then (sc_slots s ! i)\<lparr>sl_state := InFlight, sl_active_epoch := ?e\<rparr> else sc_slots s ! i)" if "i < C" for i
    using 1(1,4) that by (simp add: s'_def submitted_pool_def)
  have par: "sc_completed s' = sc_completed s" "sc_submitted s' = ?e" using 1(1) by (simp_all add: s'_def submitted_pool_def)
  have rdy: "sl_active_epoch (sc_slots s ! i) = 0 \<and> \<not> sl_in_reclaim_ring (sc_slots s ! i)
      \<and> \<not> sl_in_free_ring (sc_slots s ! i)" if "i \<in> set R" for i
    using sched_inv_slot [OF inv, of i] R(3) [OF that] by (auto simp: slot_ok_def is_ready_def)
  have hd: "handle s' i = handle s i" if "i < C" for i using sl [OF that] by (simp add: handle_def)
  have ex: "executing C s' = executing C s \<union> (\<lambda>i. (handle s i, ?e)) ` set R"
  proof -
    let ?run = "\<lambda>s. {i. i < C \<and> sc_completed s < sl_active_epoch (sc_slots s ! i)}"
    have "?run s' = ?run s \<union> set R" using sl R(3) rdy sh(9) par by (auto split: if_splits)
    moreover have "(handle s' i, sl_active_epoch (sc_slots s' ! i)) = (handle s i, sl_active_epoch (sc_slots s ! i))"
      if "i \<in> ?run s" for i using that sl [of i] hd [of i] rdy [of i] by auto
    moreover have "(handle s' i, sl_active_epoch (sc_slots s' ! i)) = (handle s i, ?e)" if "i \<in> set R" for i
      using that sl [of i] hd [of i] R(3) by auto
    ultimately show ?thesis unfolding executing_image image_Un by (metis (no_types, lifting) image_cong image_Un)
  qed
  have B: "batches_ok C s" by (rule sched_inv_batches [OF inv])
  have "length (member_view C s) = length (batch_tags (batch_view C s))"
    using B by (simp add: batches_ok_def member_view_def)
  then have zp: "set (zip (member_view C s') (batch_tags (batch_view C s'))) = executing C s'"
    unfolding mv bv batch_tags_append ex using B
    by (auto simp: batches_ok_def zip_append zip_replicate2 image_image)
  have "slot ` set (member_view C s) \<inter> set R = {}"
    using member_executing [OF inv] rdy by fastforce
  then have "distinct (map slot (member_view C s'))"
    using B R(2) unfolding mv by (auto simp: batches_ok_def handle_def comp_def)
  moreover have "map (epoch_value \<circ> br_epoch) (batch_view C s') = [Suc (sc_completed s')..<Suc (sc_submitted s')]"
    unfolding bv par using B sh(9) by (simp add: batches_ok_def)
  ultimately have "batches_ok C s'" using zp bv B R(1) 1(1)
    by (auto simp: batches_ok_def batch_tags_append s'_def submitted_pool_def)
  moreover have "sched_shape C s'" using sched_inv_shape [OF inv] 1 room
    by (auto simp: sched_shape_def ring_wf_def s'_def submitted_pool_def)
  moreover have "free_ring_ok C s'"
    using sched_inv_free [OF inv] fv sl R(3) by (auto simp: free_ring_ok_def is_ready_def split: if_splits)
  moreover have "reclaim_ring_ok C s'"
    using sched_inv_reclaim [OF inv] fv sl by (auto simp: reclaim_ring_ok_def split: if_splits)
  moreover have "slot_ok s' (sc_slots s' ! i)" if "i < C" for i
    using sched_inv_slot [OF inv that] sl [OF that] rdy [of i] par by (cases "i \<in> set R") (auto simp: slot_ok_def)
  ultimately show "sched_inv C s'" by (simp add: sched_inv_def)
qed

text \<open>What a dispatch of the slots \<open>R\<close> amounts to.\<close>

definition batch_dispatched :: "nat \<Rightarrow> scheduler \<Rightarrow> scheduler \<Rightarrow> nat list \<Rightarrow> bool" where
  "batch_dispatched C s s' R =
     (sc_submitted s' = Suc (sc_submitted s) \<and> sc_completed s' = sc_completed s
      \<and> member_view C s' = member_view C s @ map (handle s) R
      \<and> batch_view C s' = batch_view C s @
          [\<lparr>br_epoch = \<lparr>epoch_value = Suc (sc_submitted s)\<rparr>, br_member_count = length R\<rparr>]
      \<and> free_view C s' = free_view C s \<and> reclaim_view C s' = reclaim_view C s
      \<and> (\<forall>i \<in> set R. apply_request_transition (seq_of s i) Dispatch = Inr (seq_of s' i) \<and> handle s' i = handle s i)
      \<and> (\<forall>i < C. i \<notin> set R \<longrightarrow> sc_slots s' ! i = sc_slots s ! i))"

lemma submit_dispatched:
  assumes inv: "sched_inv C s" and d: "dispatched C s s1 (Suc (sc_submitted s)) (sc_member_len s) R"
    and R: "R \<noteq> []" "distinct R" "\<And>i. i \<in> set R \<Longrightarrow> i < C \<and> is_ready s i"
    and room: "sc_batch_len s < C" "sc_member_len s + length R \<le> C" "Suc (sc_submitted s) \<le> U64_MAX" "cur < C"
  shows "batch_dispatched C s (submitted_pool C s1 (Suc (sc_submitted s)) (length R) cur) R"
proof -
  note f = submit_inv [OF assms] and sh = sched_shapeD [OF inv]
  let ?s = "submitted_pool C s1 (Suc (sc_submitted s)) (length R) cur"
  from d have sl: "sc_slots ?s ! i = (if i \<in> set R
       then (sc_slots s ! i)\<lparr>sl_state := InFlight, sl_active_epoch := Suc (sc_submitted s)\<rparr> else sc_slots s ! i)"
    and par: "sc_completed ?s = sc_completed s" "sc_submitted ?s = Suc (sc_submitted s)" if "i < C" for i
    using that sh(1) R(1) by (auto simp: dispatched_def submitted_pool_def)
  have "apply_request_transition (seq_of s i) Dispatch = Inr (seq_of ?s i)" "handle ?s i = handle s i"
    if "i \<in> set R" for i
    using R(3) [OF that] sl [of i] that par sh(1,9)
    by (auto simp: seq_of_def apply_request_transition_def is_ready_def handle_def Let_def)
  then show ?thesis unfolding batch_dispatched_def using f(2-5) sl par sh(1) by auto
qed

lemma batch_len_le: 
  assumes "sched_inv C s"
  shows "sc_batch_len s \<le> sc_member_len s"
proof -
  have "length bs \<le> length (batch_tags bs)" if "\<forall>b \<in> set bs. 0 < br_member_count b" for bs
    using that by (induction bs) (fastforce simp: batch_tags_def)+
  from this [of "batch_view C s"] show ?thesis
    using sched_inv_batches [OF assms] by (simp add: batches_ok_def batch_view_def)
qed

text \<open>The slots one rotating dispatch selects: the first ready ones from the cursor on.\<close>

definition dispatch_choice :: "nat \<Rightarrow> scheduler \<Rightarrow> nat \<Rightarrow> nat list" where
  "dispatch_choice C s storage =
     take (min storage (C - sc_member_len s)) (filter (is_ready s) (scan_order C (sc_cursor s) C))"

lemma dispatch_choice_facts:
  assumes inv: "sched_inv C s"
  shows "distinct (dispatch_choice C s k)" "\<And>i. i \<in> set (dispatch_choice C s k) \<Longrightarrow> i < C \<and> is_ready s i"
    "length (dispatch_choice C s k) \<le> k" "sc_member_len s + length (dispatch_choice C s k) \<le> C"
proof -
  note sh = sched_shapeD [OF inv]
  show "distinct (dispatch_choice C s k)" using distinct_scan_order [OF sh(8) order_refl]
    by (simp add: dispatch_choice_def)
  show "i < C \<and> is_ready s i" if "i \<in> set (dispatch_choice C s k)" for i
    using in_set_takeD [OF that [unfolded dispatch_choice_def]] scan_order_bound [OF sh(1)] by auto
  show "length (dispatch_choice C s k) \<le> k" by (simp add: dispatch_choice_def)
  have "sc_member_len s \<le> C" using sh(6) by (simp add: ring_wf_def)
  then show "sc_member_len s + length (dispatch_choice C s k) \<le> C" by (simp add: dispatch_choice_def)
qed

lemma sched_dispatch_ready_correct:
  assumes inv: "sched_inv C s"
  defines "R out \<equiv> dispatch_choice C s (length out)"
  shows "out = [] \<Longrightarrow> sched_dispatch_ready C s out = Some (Inl EmptyBatchStorage, out, s)"
    "out \<noteq> [] \<Longrightarrow> sc_submitted s = U64_MAX \<Longrightarrow>
       sched_dispatch_ready C s out = Some (Inl SubmissionEpochExhausted, out, s)"
    "out \<noteq> [] \<Longrightarrow> sc_submitted s < U64_MAX \<Longrightarrow> R out = [] \<Longrightarrow>
       sched_dispatch_ready C s out = Some (Inr None, out, s)"
    "out \<noteq> [] \<Longrightarrow> sc_submitted s < U64_MAX \<Longrightarrow> R out \<noteq> [] \<Longrightarrow>
       \<exists>s'. sched_dispatch_ready C s out =
          Some (Inr (Some \<lparr>db_epoch = \<lparr>epoch_value = Suc (sc_submitted s)\<rparr>, db_member_count = length (R out)\<rparr>),
                map (handle s) (R out) @ drop (length (R out)) out, s')
        \<and> sched_inv C s' \<and> batch_dispatched C s s' (R out)"
proof -
  show "out = [] \<Longrightarrow> sched_dispatch_ready C s out = Some (Inl EmptyBatchStorage, out, s)"
    "out \<noteq> [] \<Longrightarrow> sc_submitted s = U64_MAX \<Longrightarrow>
       sched_dispatch_ready C s out = Some (Inl SubmissionEpochExhausted, out, s)"
    by (simp_all add: sched_dispatch_ready_def dispatch_preflight_def u_add_def)
  assume out: "out \<noteq> []" and sub: "sc_submitted s < U64_MAX"
  note sh = sched_shapeD [OF inv] and fc = dispatch_choice_facts [OF inv, where k = "length out"]
  have ml: "sc_member_len s \<le> C" "sc_member_head s < C" using sh(6) by (auto simp: ring_wf_def)
  let ?e = "Suc (sc_submitted s)" and ?lim = "min (length out) (C - sc_member_len s)"
  have full: "sched_dispatch_ready C s out = Some (Inr None, out, s) \<and> R out = []" if "sc_member_len s = C"
    using that out sub
    by (simp add: sched_dispatch_ready_def dispatch_preflight_def R_def dispatch_choice_def u_add_def)
  have open': "\<exists>i' out' s1. sched_dispatch_ready C s out =
      (if R out = [] then Some (Inr None, out', s1)
       else Some (Inr (Some \<lparr>db_epoch = \<lparr>epoch_value = ?e\<rparr>, db_member_count = length (R out)\<rparr>), out',
              submitted_pool C s1 ?e (length (R out)) i'))
    \<and> i' < C \<and> dispatched C s s1 ?e (sc_member_len s) (R out) \<and> sc_batch_len s < C
    \<and> out' = map (handle s) (R out) @ drop (length (R out)) out" if "sc_member_len s \<noteq> C"
  proof -
    have lt: "sc_batch_len s < C" using that ml batch_len_le [OF inv] by simp
    have pre: "dispatch_preflight C s out = Some (Inr (Some (?e, ?lim)))"
      using that out sub lt ml by (simp add: dispatch_preflight_def u_sub_ok u_add_def min_def)
    obtain i' mt out' s1 where scan: "dispatch_scan C C s out ?lim ?e (sc_cursor s)
        ((sc_member_head s + sc_member_len s) mod C) 0 = Some (length (R out), i', mt, out', s1)"
      "i' < C" "dispatched C s s1 ?e (sc_member_len s) (R out)" "length out' = length out"
      "take (length (R out)) out' = map (handle s) (R out)" "drop (length (R out)) out' = drop (length (R out)) out"
    proof -
      have lim: "sc_member_len s + (?lim - 0) \<le> C" "0 \<le> ?lim" "?lim \<le> length out" "?lim \<le> C" using ml by auto
      show ?thesis
        using dispatch_scan_ok [OF sh(12,3,6) lim sh(8) order_refl, of ?e] that
        unfolding R_def dispatch_choice_def Let_def diff_zero add_0 take_0 append_Nil by blast
    qed
    have o': "out' = map (handle s) (R out) @ drop (length (R out)) out"
      using scan(5,6) by (metis append_take_drop_id)
    have same: "sc_batch_ring s1 = sc_batch_ring s" "sc_batch_head s1 = sc_batch_head s" "sc_batch_len s1 = sc_batch_len s"
      "sc_member_len s1 = sc_member_len s" using scan(3) by (auto simp: dispatched_def)
    have add: "sc_member_len s + length (R out) \<le> U64_MAX" using fc(4) sh(12) by (simp add: R_def)
    have "sched_dispatch_ready C s out =
      (if R out = [] then Some (Inr None, out', s1)
       else Some (Inr (Some \<lparr>db_epoch = \<lparr>epoch_value = ?e\<rparr>, db_member_count = length (R out)\<rparr>), out',
              submitted_pool C s1 ?e (length (R out)) i'))"
      using pre scan(1) ring_push_ok(1) [OF sh(7) lt] ring_tail_ok [of "sc_member_head s" C "sc_member_len s"] ml sh(12) add
      by (auto simp: sched_dispatch_ready_def dispatch_enabled_def dispatch_scan_commit_def submitted_pool_def same u_add_ok)
    then show ?thesis using scan o' lt by blast
  qed
  show "sched_dispatch_ready C s out = Some (Inr None, out, s)" if "R out = []"
    using full open' that by (cases "sc_member_len s = C") (auto simp: dispatched_def)
  show "\<exists>s'. sched_dispatch_ready C s out =
          Some (Inr (Some \<lparr>db_epoch = \<lparr>epoch_value = Suc (sc_submitted s)\<rparr>, db_member_count = length (R out)\<rparr>),
                map (handle s) (R out) @ drop (length (R out)) out, s')
        \<and> sched_inv C s' \<and> batch_dispatched C s s' (R out)" if ne: "R out \<noteq> []"
  proof -
    have "sc_member_len s \<noteq> C" using full ne by blast
    then obtain i' out' s1 where o: "sched_dispatch_ready C s out =
       Some (Inr (Some \<lparr>db_epoch = \<lparr>epoch_value = ?e\<rparr>, db_member_count = length (R out)\<rparr>), out',
              submitted_pool C s1 ?e (length (R out)) i')"
      "i' < C" "dispatched C s s1 ?e (sc_member_len s) (R out)" "sc_batch_len s < C"
      "out' = map (handle s) (R out) @ drop (length (R out)) out"
      using open' ne by auto
    have "Suc (sc_submitted s) \<le> U64_MAX" using sub by simp
    note sub' = submit_inv(1) [OF inv o(3) ne fc(1,2)[folded R_def] o(4) fc(4)[folded R_def] this o(2)]
      and dis = submit_dispatched [OF inv o(3) ne fc(1,2)[folded R_def] o(4) fc(4)[folded R_def] this o(2)]
    then show ?thesis using o(1,5) by auto
  qed
qed

subsection \<open>An exact roster\<close>

definition roster_ok :: "nat \<Rightarrow> scheduler \<Rightarrow> request_id list \<Rightarrow> bool" where
  "roster_ok C s qs = (distinct (map slot qs) \<and> (\<forall>q \<in> set qs. current C s q \<and> is_ready s (slot q)))"

lemma roster_ok_take: "roster_ok C s qs \<Longrightarrow> roster_ok C s (take k qs)"
  by (auto simp: roster_ok_def take_map [symmetric] dest: in_set_takeD)

lemma duplicate_lane_eq:
  assumes "k + n \<le> length qs" "length qs \<le> U32_MAX"
  shows "duplicate_lane n qs q k = Some (find (\<lambda>j. slot (qs ! j) = slot q) [k..<k + n])"
  using assms
proof (induction n arbitrary: k)
  case (Suc n)
  have u: "[k..<k + Suc n] = k # [Suc k..<Suc k + n]" using upt_conv_Cons by simp
  show ?case unfolding u using Suc.prems Suc.IH [of "Suc k"] by (simp add: exec_simps)
qed simp

lemma sched_state_eq:
  assumes "sched_inv C s"
  shows "sched_state C s q = Some (if current C s q \<and> sl_state (sc_slots s ! slot q) \<noteq> Vacant
    then Some (sl_state (sc_slots s ! slot q)) else None)"
  using sched_shapeD(3) [OF assms]
  by (auto simp: sched_state_def current_def exec_simps split: request_state.splits)

text \<open>The check of the lanes from \<open>k\<close> on, given that the earlier ones are fine.\<close>

lemma check_roster_eq:
  assumes inv: "sched_inv C s" and len: "length qs \<le> U32_MAX" and k: "k + n = length qs"
    and before: "roster_ok C s (take k qs)"
  shows "if roster_ok C s qs then check_roster n C s qs k = Some (Inr ())
    else \<exists>e. check_roster n C s qs k = Some (Inl e)"
  using k before
proof (induction n arbitrary: k)
  case 0
  then show ?case by simp
next
  case (Suc n)
  let ?q = "qs ! k"
  have kl: "k < length qs" using Suc.prems by simp
  have tk: "take (Suc k) qs = take k qs @ [?q]" using kl by (rule take_Suc_conv_app_nth)
  have "(\<exists>j \<in> set [0..<k]. slot (qs ! j) = slot ?q) \<longleftrightarrow> slot ?q \<in> slot ` set (take k qs)"
  proof -
    have "set (take k qs) = (!) qs ` {0..<k}" using kl by (simp add: nth_image)
    then have "slot ` set (take k qs) = (\<lambda>j. slot (qs ! j)) ` set [0..<k]" by (simp add: image_image)
    then show ?thesis by (simp only: image_iff) (rule bex_cong [OF refl], rule eq_commute)
  qed
  then have dup: "duplicate_lane k qs ?q 0 = Some None \<longleftrightarrow> slot ?q \<notin> slot ` set (take k qs)"
    using duplicate_lane_eq [of 0 k qs ?q] kl len by (auto simp: find_None_iff)
  obtain x where x: "duplicate_lane k qs ?q 0 = Some x" using duplicate_lane_eq [of 0 k qs ?q] kl len by simp
  have step: "roster_ok C s (take (Suc k) qs) \<longleftrightarrow> x = None \<and> current C s ?q \<and> is_ready s (slot ?q)"
    using Suc.prems(2) dup x unfolding tk by (auto simp: roster_ok_def)
  show ?case
  proof (cases "roster_ok C s (take (Suc k) qs)")
    case True
    then have "check_roster (Suc n) C s qs k = check_roster n C s qs (Suc k)"
      using step x kl len sched_state_eq [OF inv, of ?q] by (auto simp: exec_simps is_ready_def)
    then show ?thesis using Suc.IH [of "Suc k"] True Suc.prems(1) by simp
  next
    case False
    then have "\<not> roster_ok C s qs" using roster_ok_take by blast
    moreover have "\<exists>e. check_roster (Suc n) C s qs k = Some (Inl e)"
      using False step x kl sched_state_eq [OF inv, of ?q]
      by (auto simp: idx_ok is_ready_def split: option.splits request_state.splits)
    ultimately show ?thesis by simp
  qed
qed

lemma copy_selected_eq:
  assumes "k + n \<le> length qs" "k + n \<le> length sel" "k + n \<le> U32_MAX"
  shows "copy_selected n sel qs k = Some (take k sel @ take n (drop k qs) @ drop (k + n) sel)"
  using assms
proof (induction n arbitrary: k sel)
  case (Suc n)
  then have k: "k < length qs" "k < length sel" by auto
  have "take (Suc n) (drop k qs) = qs ! k # take n (drop (Suc k) qs)"
    using k(1) by (simp add: Cons_nth_drop_Suc [symmetric])
  then show ?case using Suc.IH [of "Suc k" "sel[k := qs ! k]"] Suc.prems k
    by (simp add: exec_simps take_Suc_update)
qed simp

lemma fill_members_eq:
  assumes "k + n \<le> length sel" "k + n \<le> length ms" "k + n \<le> U32_MAX"
  shows "fill_members n ms sel k = Some (take k ms @ map Some (take n (drop k sel)) @ drop (k + n) ms)"
  using assms
proof (induction n arbitrary: k ms)
  case (Suc n)
  then have k: "k < length sel" "k < length ms" by auto
  have "take (Suc n) (drop k sel) = sel ! k # take n (drop (Suc k) sel)"
    using k(1) by (simp add: Cons_nth_drop_Suc [symmetric])
  then show ?case using Suc.IH [of "Suc k" "ms[k := Some (sel ! k)]"] Suc.prems k
    by (simp add: exec_simps take_Suc_update)
qed simp

lemma dispatch_exact_loop_ok:
  assumes "C \<le> U32_MAX" "length (sc_slots s) = C" "ring_wf C (sc_member_ring s, sc_member_head s, m)"
    "k + n = length qs" "m + n \<le> C" "length qs \<le> U32_MAX" "distinct (map slot (drop k qs))"
    "\<forall>q \<in> set (drop k qs). slot q < C \<and> handle s (slot q) = q"
  shows "\<exists>s'. dispatch_exact_loop n C s qs e ((sc_member_head s + m) mod C) k = Some s'
    \<and> dispatched C s s' e m (map slot (drop k qs))"
  using assms
proof (induction n arbitrary: s m k)
  case 0
  then show ?case using dispatched_Nil [of s C] by (simp add: ring_wf_def)
next
  case (Suc n)
  note sh = Suc.prems
  let ?q = "qs ! k"
  let ?s = "mark C s (slot ?q) e m"
  have k: "k < length qs" using sh(4) by simp
  have dr: "drop k qs = ?q # drop (Suc k) qs" using k by (simp add: Cons_nth_drop_Suc)
  have q: "slot ?q < C" "handle s (slot ?q) = ?q" using sh(8) dr by auto
  have w: "length (sc_member_ring s) = C" "sc_member_head s < C" "m < C" using sh(3,5) by (auto simp: ring_wf_def)
  have t: "(sc_member_head s + m) mod C < C" using w by simp
  have "advance C ((sc_member_head s + m) mod C) = Some ((sc_member_head s + Suc m) mod C)"
    using sh(1) t by (subst advance_ok) (auto simp: mod_Suc_eq)
  then have run: "dispatch_exact_loop (Suc n) C s qs e ((sc_member_head s + m) mod C) k =
     dispatch_exact_loop n C ?s qs e ((sc_member_head ?s + Suc m) mod C) (Suc k)"
    using sh(2,4,6) k q w t by (simp add: exec_simps mark_def)
  have len: "length (sc_slots ?s) = C" "ring_wf C (sc_member_ring ?s, sc_member_head ?s, Suc m)"
    "Suc k + n = length qs" "Suc m + n \<le> C" "distinct (map slot (drop (Suc k) qs))"
    "\<forall>q \<in> set (drop (Suc k) qs). slot q < C \<and> handle ?s (slot q) = q"
    using sh dr w by (auto simp: ring_wf_def)
  obtain s' where s': "dispatch_exact_loop n C ?s qs e ((sc_member_head ?s + Suc m) mod C) (Suc k) = Some s'"
    "dispatched C ?s s' e (Suc m) (map slot (drop (Suc k) qs))"
    using Suc.IH [OF sh(1) len(1-4) sh(6) len(5,6)] by blast
  have "dispatched C s s' e m (slot ?q # map slot (drop (Suc k) qs))"
    by (rule dispatched_Cons [OF sh(3) w(3) q(1) _ sh(2) s'(2)]) (use sh(7) dr in simp)
  then show ?case using run s'(1) dr by simp
qed

definition exact_refusal :: "nat \<Rightarrow> scheduler \<Rightarrow> completion_epoch \<Rightarrow> request_id list \<Rightarrow> bool" where
  "exact_refusal C s epoch qs = (qs = [] \<or> M1_MAX_ACTIVE_SEQUENCES < length qs
     \<or> sc_submitted s = U64_MAX \<or> epoch_value epoch \<noteq> Suc (sc_submitted s)
     \<or> C < sc_member_len s + length qs \<or> \<not> roster_ok C s qs)"

lemma sched_dispatch_m1_exact_ready_correct:
  assumes inv: "sched_inv C s"
  shows "if exact_refusal C s epoch qs then
      \<exists>e. sched_dispatch_m1_exact_ready C s epoch qs = Some (Inl e, s)
    else \<exists>s'. sched_dispatch_m1_exact_ready C s epoch qs =
          Some (Inr \<lparr>m1_batch = \<lparr>db_epoch = epoch, db_member_count = length qs\<rparr>,
             m1_members = map Some qs @ replicate (M1_MAX_ACTIVE_SEQUENCES - length qs) None\<rparr>, s')
        \<and> sched_inv C s' \<and> batch_dispatched C s s' (map slot qs)"
proof -
  note sh = sched_shapeD [OF inv]
  have ml: "sc_member_len s \<le> C" "sc_member_head s < C" using sh(6) by (auto simp: ring_wf_def)
  consider (pre) "qs = [] \<or> M1_MAX_ACTIVE_SEQUENCES < length qs \<or> sc_submitted s = U64_MAX
       \<or> epoch_value epoch \<noteq> Suc (sc_submitted s) \<or> C < sc_member_len s + length qs"
    | (fit) "qs \<noteq> []" "length qs \<le> 32" "sc_submitted s < U64_MAX" "epoch = \<lparr>epoch_value = Suc (sc_submitted s)\<rparr>"
       "sc_member_len s + length qs \<le> C"
    using sh(10) by (cases epoch) (fastforce simp: M1_MAX_ACTIVE_SEQUENCES_def)
  then show ?thesis
  proof cases
    case pre
    moreover have "\<exists>e. sched_dispatch_m1_exact_ready C s epoch qs = Some (Inl e, s)"
      using pre ml sh(10)
      by (auto simp: sched_dispatch_m1_exact_ready_def u_sub_ok u_add_def Let_def)
    ultimately show ?thesis by (auto simp: exact_refusal_def)
  next
    case fit
    have lt: "sc_batch_len s < C" using fit(1,5) batch_len_le [OF inv] by (cases qs) auto
    have len: "length qs \<le> U32_MAX" using fit(2) by simp
    have chk: "if roster_ok C s qs then check_roster (length qs) C s qs 0 = Some (Inr ())
        else \<exists>e. check_roster (length qs) C s qs 0 = Some (Inl e)"
      by (rule check_roster_eq [OF inv len]) (simp_all add: roster_ok_def)
    have start: "sched_dispatch_m1_exact_ready C s epoch qs = do {
        checked \<leftarrow> check_roster (length qs) C s qs 0;
        case checked of Inl e \<Rightarrow> Some (Inl e, s)
        | Inr _ \<Rightarrow> do {
            selected \<leftarrow> copy_selected (length qs) (replicate M1_MAX_ACTIVE_SEQUENCES (request_id_new 0 0)) qs 0;
            (batch, s') \<leftarrow> dispatch_exact_commit C s qs (Suc (sc_submitted s));
            dispatch \<leftarrow> from_dispatch_batch batch selected;
            Some (Inr dispatch, s') } }"
      using fit lt ml by (auto simp: sched_dispatch_m1_exact_ready_def u_add_def u_sub_ok M1_MAX_ACTIVE_SEQUENCES_def Let_def)
    show ?thesis
    proof (cases "roster_ok C s qs")
      case False
      then show ?thesis using start chk by (auto simp: exact_refusal_def)
    next
      case True
      let ?e = "Suc (sc_submitted s)" and ?R = "map slot qs"
      have hq: "\<forall>q \<in> set (drop 0 qs). slot q < C \<and> handle s (slot q) = q"
        using True by (auto simp: roster_ok_def current_def handle_def request_id_new_def)
      obtain s1 where s1: "dispatch_exact_loop (length qs) C s qs ?e ((sc_member_head s + sc_member_len s) mod C) 0 = Some s1"
        "dispatched C s s1 ?e (sc_member_len s) ?R"
        using dispatch_exact_loop_ok [OF sh(12,3,6) _ fit(5) len _ hq, of ?e] True by (auto simp: roster_ok_def)
      have same: "sc_batch_ring s1 = sc_batch_ring s" "sc_batch_head s1 = sc_batch_head s" "sc_batch_len s1 = sc_batch_len s"
        "sc_member_len s1 = sc_member_len s" "sc_cursor s1 = sc_cursor s" using s1(2) by (auto simp: dispatched_def)
      let ?s = "submitted_pool C s1 ?e (length qs) (sc_cursor s)"
      have com: "dispatch_exact_commit C s qs ?e = Some (\<lparr>db_epoch = epoch, db_member_count = length qs\<rparr>, ?s)"
        using s1(1) ring_push_ok(1) [OF sh(7) lt] ring_tail_ok [of "sc_member_head s" C "sc_member_len s"] ml sh(12) fit(4,5)
        by (simp add: dispatch_exact_commit_def submitted_pool_def same u_add_ok Let_def)
      have sel: "copy_selected (length qs) (replicate M1_MAX_ACTIVE_SEQUENCES (request_id_new 0 0)) qs 0 =
          Some (qs @ replicate (M1_MAX_ACTIVE_SEQUENCES - length qs) (request_id_new 0 0))"
        using copy_selected_eq [of 0 "length qs" qs "replicate M1_MAX_ACTIVE_SEQUENCES (request_id_new 0 0)"] fit(2) len
        by (simp add: M1_MAX_ACTIVE_SEQUENCES_def)
      have fb: "from_dispatch_batch \<lparr>db_epoch = epoch, db_member_count = length qs\<rparr>
          (qs @ replicate (M1_MAX_ACTIVE_SEQUENCES - length qs) (request_id_new 0 0)) =
        Some \<lparr>m1_batch = \<lparr>db_epoch = epoch, db_member_count = length qs\<rparr>,
             m1_members = map Some qs @ replicate (M1_MAX_ACTIVE_SEQUENCES - length qs) None\<rparr>"
        using fill_members_eq [of 0 "length qs" "qs @ replicate (M1_MAX_ACTIVE_SEQUENCES - length qs) (request_id_new 0 0)"
            "replicate M1_MAX_ACTIVE_SEQUENCES None"] fit(2) len
        by (simp add: from_dispatch_batch_def M1_MAX_ACTIVE_SEQUENCES_def)
      have R: "?R \<noteq> []" "distinct ?R" "\<And>i. i \<in> set ?R \<Longrightarrow> i < C \<and> is_ready s i"
        using True fit(1) by (auto simp: roster_ok_def current_def)
      have room: "sc_member_len s + length ?R \<le> C" "Suc (sc_submitted s) \<le> U64_MAX" using fit by auto
      have "sched_inv C ?s" "batch_dispatched C s ?s ?R"
        using submit_inv(1) [OF inv s1(2) R lt room sh(8)] submit_dispatched [OF inv s1(2) R lt room sh(8)] by simp_all
      then show ?thesis using start chk True com sel fb fit
        by (auto simp: exact_refusal_def M1_MAX_ACTIVE_SEQUENCES_def)
    qed
  qed
qed

subsection \<open>Exact completion\<close>

lemma idx_view:
  assumes "ring_wf C (xs, h, n)" "k < n"
  shows "idx xs ((h + k) mod C) = Some (ring_view C (xs, h, n) ! k)"
  using assms by (auto simp: ring_wf_def ring_view_def idx_def)

text \<open>The members of the oldest batch all carry its epoch.\<close>

lemma head_batch:
  assumes inv: "sched_inv C s" and ne: "0 < sc_batch_len s"
  obtains b bs where "batch_view C s = b # bs" "sc_batch_ring s ! sc_batch_head s = b"
    "epoch_value (br_epoch b) = Suc (sc_completed s)" "0 < br_member_count b" "br_member_count b \<le> sc_member_len s"
    "map (epoch_value \<circ> br_epoch) bs = [Suc (Suc (sc_completed s))..<Suc (sc_submitted s)]"
    "\<And>k. k < br_member_count b \<Longrightarrow> slot (member_view C s ! k) < C
       \<and> handle s (slot (member_view C s ! k)) = member_view C s ! k
       \<and> sl_active_epoch (sc_slots s ! slot (member_view C s ! k)) = Suc (sc_completed s)"
proof -
  note sh = sched_shapeD [OF inv]
  have B: "batches_ok C s" by (rule sched_inv_batches [OF inv])
  obtain n where n: "sc_batch_len s = Suc n" using ne by (cases "sc_batch_len s") auto
  have h: "sc_batch_head s < C" using sh(7) by (simp add: ring_wf_def)
  let ?b = "sc_batch_ring s ! sc_batch_head s"
  obtain bs where bv: "batch_view C s = ?b # bs"
    using n that by (simp add: batch_view_def ring_view_Suc [OF h])
  have lt: "sc_completed s < sc_submitted s"
    using B bv by (cases "sc_completed s < sc_submitted s") (auto simp: batches_ok_def)
  have ep: "epoch_value (br_epoch ?b) = Suc (sc_completed s)"
    "map (epoch_value \<circ> br_epoch) bs = [Suc (Suc (sc_completed s))..<Suc (sc_submitted s)]"
    using B bv lt by (auto simp: batches_ok_def upt_conv_Cons simp del: upt_Suc)
  have cnt: "0 < br_member_count ?b" "br_member_count ?b \<le> sc_member_len s"
    using B bv by (auto simp: batches_ok_def batch_tags_def)
  have "slot (member_view C s ! k) < C \<and> handle s (slot (member_view C s ! k)) = member_view C s ! k
       \<and> sl_active_epoch (sc_slots s ! slot (member_view C s ! k)) = Suc (sc_completed s)"
    if k: "k < br_member_count ?b" for k
  proof -
    have "batch_tags (batch_view C s) ! k = Suc (sc_completed s)"
      using bv ep k by (simp add: batch_tags_def nth_append)
    moreover have "k < length (member_view C s)" "k < length (batch_tags (batch_view C s))"
      using k cnt B by (auto simp: batches_ok_def member_view_def)
    ultimately have "(member_view C s ! k, Suc (sc_completed s)) \<in> set (zip (member_view C s) (batch_tags (batch_view C s)))"
      by (force simp: in_set_zip)
    then have "(member_view C s ! k, Suc (sc_completed s)) \<in> executing C s" using B by (simp add: batches_ok_def)
    then show ?thesis by (auto simp: executing_def handle_def)
  qed
  then show ?thesis using that [OF bv refl ep(1) cnt ep(2)] by blast
qed

lemma completion_check_eq:
  assumes inv: "sched_inv C s" and len: "k + n \<le> length permits" "k + n \<le> sc_member_len s"
    and ok: "\<And>j. k \<le> j \<Longrightarrow> j < k + n \<Longrightarrow> slot (member_view C s ! j) < C
       \<and> handle s (slot (member_view C s ! j)) = member_view C s ! j
       \<and> sl_active_epoch (sc_slots s ! slot (member_view C s ! j)) = e" and e: "sc_completed s < e"
  shows "completion_check n C s e permits k ((sc_member_head s + k) mod C) =
    Some (if \<forall>j < n. permits ! (k + j) = None then Inr () else Inl CompletionStorageNotEmpty)"
  using len ok
proof (induction n arbitrary: k)
  case (Suc n)
  note sh = sched_shapeD [OF inv]
  let ?m = "member_view C s ! k"
  have m: "idx (sc_member_ring s) ((sc_member_head s + k) mod C) = Some ?m"
    using idx_view [OF sh(6), of k] Suc.prems(2) by (simp add: member_view_def)
  have f: "slot ?m < C" "handle s (slot ?m) = ?m" "sl_active_epoch (sc_slots s ! slot ?m) = e"
    using Suc.prems(3) [of k] by auto
  have g: "sl_generation (sc_slots s ! slot ?m) = generation ?m"
    using f(2) by (metis handle_def slot_of_handle(2))
  have st: "sl_state (sc_slots s ! slot ?m) = InFlight \<or> sl_state (sc_slots s ! slot ?m) = Retiring"
    using sched_inv_slot [OF inv f(1)] f(3) e by (auto simp: slot_ok_def split: request_state.splits)
  have "(sc_member_head s + k) mod C < C" using sh(1) by simp
  then have adv: "advance C ((sc_member_head s + k) mod C) = Some ((sc_member_head s + Suc k) mod C)"
    using sh(12) by (subst advance_ok) (auto simp: mod_Suc_eq)
  have kb: "k + 1 \<le> U64_MAX" using Suc.prems(2) sh(6,12) by (auto simp: ring_wf_def)
  have IH: "completion_check n C s e permits (Suc k) ((sc_member_head s + Suc k) mod C) =
    Some (if \<forall>j < n. permits ! (Suc k + j) = None then Inr () else Inl CompletionStorageNotEmpty)"
    by (rule Suc.IH) (use Suc.prems in auto)
  have all: "(\<forall>j < Suc n. permits ! (k + j) = None) \<longleftrightarrow> permits ! k = None \<and> (\<forall>j < n. permits ! (Suc k + j) = None)"
    by (auto simp: less_Suc_eq_0_disj)
  have "idx permits k = Some (permits ! k)" using Suc.prems(1) by (simp add: idx_ok)
  then show ?case using m f g st adv kb IH sh(3) unfolding all
    by (auto simp: idx_ok u_add_ok)
qed simp

lemma issue_permits_eq:
  assumes inv: "sched_inv C s" and len: "k + n \<le> length permits" "k + n \<le> sc_member_len s"
  shows "issue_permits n C s e permits k ((sc_member_head s + k) mod C) =
    Some (take k permits @ map (\<lambda>m. Some \<lparr>permit_request = m, permit_origin = CompletedExact e\<rparr>)
              (take n (drop k (member_view C s))) @ drop (k + n) permits, (sc_member_head s + k + n) mod C)"
  using len
proof (induction n arbitrary: k permits)
  case (Suc n)
  note sh = sched_shapeD [OF inv]
  let ?m = "member_view C s ! k"
  let ?p = "Some \<lparr>permit_request = ?m, permit_origin = CompletedExact e\<rparr>"
  have m: "idx (sc_member_ring s) ((sc_member_head s + k) mod C) = Some ?m"
    using idx_view [OF sh(6), of k] Suc.prems(2) by (simp add: member_view_def)
  have "(sc_member_head s + k) mod C < C" using sh(1) by simp
  then have adv: "advance C ((sc_member_head s + k) mod C) = Some ((sc_member_head s + Suc k) mod C)"
    using sh(12) by (subst advance_ok) (auto simp: mod_Suc_eq)
  have kb: "k + 1 \<le> U64_MAX" using Suc.prems(2) sh(6,12) by (auto simp: ring_wf_def)
  have kl: "k < length (member_view C s)" "k < length permits" using Suc.prems by (auto simp: member_view_def)
  have "take (Suc n) (drop k (member_view C s)) = ?m # take n (drop (Suc k) (member_view C s))"
    using kl(1) by (simp add: Cons_nth_drop_Suc [symmetric])
  then show ?case using m adv kb kl Suc.IH [of "Suc k" "permits[k := ?p]"] Suc.prems
    by (simp add: upd_ok u_add_ok take_Suc_update)
qed simp

definition complete_decision ::
  "nat \<Rightarrow> scheduler \<Rightarrow> exact_completion \<Rightarrow> kv_quiescence_permit option list \<Rightarrow> scheduler_error option" where
  "complete_decision C s completion permits =
     (case batch_view C s of
        [] \<Rightarrow> Some NoPendingBatch
      | b # _ \<Rightarrow>
          if epoch_value (ec_epoch completion) \<noteq> Suc (sc_completed s) then Some CompletionNotExactNext
          else if length permits < br_member_count b then Some CompletionStorageTooSmall
          else if \<forall>j < br_member_count b. permits ! j = None then None
          else Some CompletionStorageNotEmpty)"

definition permits_for :: "u64 \<Rightarrow> request_id list \<Rightarrow> kv_quiescence_permit option list" where
  "permits_for e ms = map (\<lambda>m. Some \<lparr>permit_request = m, permit_origin = CompletedExact e\<rparr>) ms"

definition batch_completed :: "nat \<Rightarrow> scheduler \<Rightarrow> scheduler \<Rightarrow> nat \<Rightarrow> bool" where
  "batch_completed C s s' n =
     (sc_completed s' = Suc (sc_completed s) \<and> sc_submitted s' = sc_submitted s \<and> sc_slots s' = sc_slots s
      \<and> member_view C s' = drop n (member_view C s) \<and> batch_view C s' = tl (batch_view C s)
      \<and> free_view C s' = free_view C s \<and> reclaim_view C s' = reclaim_view C s
      \<and> (\<forall>m \<in> set (take n (member_view C s)).
           apply_request_transition (seq_of s (slot m)) CompleteExact = Inr (seq_of s' (slot m)))
      \<and> (\<forall>i < C. i \<notin> slot ` set (take n (member_view C s)) \<longrightarrow> seq_of s' i = seq_of s i))"

lemma ring_view_drop:
  assumes "k \<le> n"
  shows "ring_view C (xs, (h + k) mod C, n - k) = drop k (ring_view C (xs, h, n))"
  by (rule nth_equalityI) (use assms in \<open>auto simp: ring_view_def mod_simps add.assoc\<close>)

lemma zip_tail:
  assumes "length xs = length ys" "distinct xs" "n \<le> length xs"
  shows "set (zip (drop n xs) (drop n ys)) = set (zip xs ys) - set (zip (take n xs) (take n ys))"
proof -
  have "distinct (zip xs ys)" using assms(2) by (rule distinct_zipI1)
  moreover have "zip xs ys = zip (take n xs) (take n ys) @ zip (drop n xs) (drop n ys)"
    using assms(1) by (metis append_take_drop_id length_take zip_append)
  ultimately show ?thesis by auto
qed

lemma complete_inv:
  assumes inv: "sched_inv C s" and bv: "batch_view C s = b # bs"
  defines "s' \<equiv> s\<lparr>sc_member_head := (sc_member_head s + br_member_count b) mod C,
     sc_member_len := sc_member_len s - br_member_count b, sc_batch_head := Suc (sc_batch_head s) mod C,
     sc_batch_len := sc_batch_len s - 1, sc_completed := Suc (sc_completed s)\<rparr>"
  shows "sched_inv C s'" "batch_completed C s s' (br_member_count b)"
proof -
  note sh = sched_shapeD [OF inv] and B = sched_inv_batches [OF inv]
  have "0 < sc_batch_len s" using bv by (cases "sc_batch_len s") (auto simp: batch_view_def)
  then obtain n where n: "sc_batch_len s = Suc n" by (cases "sc_batch_len s") auto
  obtain b' bs' where h: "batch_view C s = b' # bs'" "sc_batch_ring s ! sc_batch_head s = b'"
    "epoch_value (br_epoch b') = Suc (sc_completed s)" "0 < br_member_count b'" "br_member_count b' \<le> sc_member_len s"
    "map (epoch_value \<circ> br_epoch) bs' = [Suc (Suc (sc_completed s))..<Suc (sc_submitted s)]"
    "\<And>k. k < br_member_count b' \<Longrightarrow> slot (member_view C s ! k) < C
       \<and> handle s (slot (member_view C s ! k)) = member_view C s ! k
       \<and> sl_active_epoch (sc_slots s ! slot (member_view C s ! k)) = Suc (sc_completed s)"
    by (rule head_batch [OF inv \<open>0 < sc_batch_len s\<close>], rule that)
  have eqs [simp]: "b' = b" "bs' = bs" using h(1) bv by auto
  let ?c = "br_member_count b" and ?M = "member_view C s" and ?T = "batch_tags (batch_view C s)"
  have par: "sc_completed s' = Suc (sc_completed s)" "sc_submitted s' = sc_submitted s" "sc_slots s' = sc_slots s"
    "free_view C s' = free_view C s" "reclaim_view C s' = reclaim_view C s" "handle s' = handle s"
    by (simp_all add: s'_def free_view_def reclaim_view_def handle_def fun_eq_iff)
  have mv: "member_view C s' = drop ?c ?M" using h(5) ring_view_drop by (simp add: member_view_def s'_def)
  have hd: "sc_batch_head s < C" using sh(7) by (simp add: ring_wf_def)
  have bv': "batch_view C s' = bs"
    using bv n by (simp add: batch_view_def s'_def ring_view_Suc [OF hd])
  have len: "length ?M = length ?T" "?c \<le> length ?M" using B h(5) by (auto simp: batches_ok_def member_view_def)
  have tags: "batch_tags bs = drop ?c ?T" "take ?c ?T = replicate ?c (Suc (sc_completed s))"
    using bv h(3) by (auto simp: batch_tags_def)
  have dM: "distinct (map slot ?M)" using B by (simp add: batches_ok_def)
  then have dM': "distinct ?M" by (rule distinct_map [THEN iffD1, THEN conjunct1])
  have old: "m \<in> set (take ?c ?M) \<Longrightarrow> slot m < C \<and> handle s (slot m) = m
      \<and> sl_active_epoch (sc_slots s ! slot m) = Suc (sc_completed s)" for m
    using h(7) len(2) by (auto simp: in_set_conv_nth)
  have tk: "set (zip (take ?c ?M) (take ?c ?T)) = (\<lambda>m. (m, Suc (sc_completed s))) ` set (take ?c ?M)"
    unfolding tags(2) using len(2) by (simp add: zip_replicate2)
  have "set (zip (drop ?c ?M) (drop ?c ?T)) = executing C s - (\<lambda>m. (m, Suc (sc_completed s))) ` set (take ?c ?M)"
    using zip_tail [OF len(1) dM' len(2)] B unfolding tk by (simp add: batches_ok_def)
  also have "\<dots> = executing C s'"
  proof -
    have later: "Suc (sc_completed s) < e" if "(m, e) \<in> set (zip (drop ?c ?M) (drop ?c ?T))" for m e
    proof -
      have "e \<in> set (batch_tags bs)" using that tags(1) by (metis in_set_zipE)
      then obtain x where "x \<in> set bs" "e = epoch_value (br_epoch x)" by (auto simp: batch_tags_def split: if_splits)
      then have "e \<in> set (map (epoch_value \<circ> br_epoch) bs)" by simp
      then have "e \<in> set [Suc (Suc (sc_completed s))..<Suc (sc_submitted s)]" using h(6) by (simp only: eqs)
      then show ?thesis by auto
    qed
    have "(x \<in> executing C s') = (x \<in> executing C s \<and> Suc (sc_completed s) < snd x)" for x
      by (auto simp: executing_def par)
    moreover have "x \<in> executing C s - (\<lambda>m. (m, Suc (sc_completed s))) ` set (take ?c ?M) \<Longrightarrow> Suc (sc_completed s) < snd x" for x
      using later [of "fst x" "snd x"] calculation by (metis (no_types, lifting) prod.collapse \<open>set (zip (drop ?c ?M) (drop ?c ?T)) = _\<close>)
    ultimately show ?thesis by auto
  qed
  finally have zp: "set (zip (drop ?c ?M) (drop ?c ?T)) = executing C s'" .
  have "batches_ok C s'" using zp B bv h(6) dM len
    unfolding batches_ok_def mv bv' par tags(1) by (auto simp: s'_def drop_map [symmetric] batches_ok_def)
  moreover have "\<not> sc_submitted s \<le> sc_completed s" using B bv by (auto simp: batches_ok_def)
  then have "sched_shape C s'" using sched_inv_shape [OF inv]
    by (auto simp: sched_shape_def ring_wf_def s'_def)
  moreover have "slot_ok s' sl" if "slot_ok s sl" for sl using that by (auto simp: slot_ok_def par split: request_state.splits)
  ultimately show "sched_inv C s'"
    using inv unfolding sched_inv_def free_ring_ok_def reclaim_ring_ok_def par by blast
  have "apply_request_transition (seq_of s (slot m)) CompleteExact = Inr (seq_of s' (slot m))"
    if "m \<in> set (take ?c ?M)" for m
    using old [OF that] sched_inv_slot [OF inv, of "slot m"]
    by (auto simp: seq_of_def par apply_request_transition_def slot_ok_def Let_def split: request_state.splits)
  moreover have "seq_of s' i = seq_of s i" if "i < C" "i \<notin> slot ` set (take ?c ?M)" for i
  proof (cases "sl_active_epoch (sc_slots s ! i) = Suc (sc_completed s)")
    case True
    then have "(handle s i, Suc (sc_completed s)) \<in> executing C s" using that(1) by (auto simp: executing_def)
    moreover have "(handle s i, Suc (sc_completed s)) \<notin> executing C s'" by (auto simp: executing_def par)
    ultimately have "(handle s i, Suc (sc_completed s)) \<in> (\<lambda>m. (m, Suc (sc_completed s))) ` set (take ?c ?M)"
      using zp zip_tail [OF len(1) dM' len(2)] B unfolding tk by (auto simp: batches_ok_def)
    then show ?thesis using that(2) by (force simp: handle_def)
  qed (auto simp: seq_of_def par Let_def)
  ultimately show "batch_completed C s s' ?c" using par mv bv' bv by (simp add: batch_completed_def)
qed

lemma sched_complete_exact_correct:
  assumes inv: "sched_inv C s"
  shows "case complete_decision C s completion permits of
      Some e \<Rightarrow> sched_complete_exact C s completion permits =
        Some (Inl \<lparr>cf_error = e, cf_completion = completion\<rparr>, permits, s)
    | None \<Rightarrow> \<exists>s'. let n = br_member_count (hd (batch_view C s)) in
        sched_complete_exact C s completion permits =
          Some (Inr n, permits_for (Suc (sc_completed s)) (take n (member_view C s)) @ drop n permits, s')
        \<and> sched_inv C s' \<and> batch_completed C s s' n"
proof (cases "sc_batch_len s = 0")
  case True
  then show ?thesis by (simp add: complete_decision_def sched_complete_exact_def batch_view_def Let_def)
next
  case False
  note sh = sched_shapeD [OF inv]
  from False have "0 < sc_batch_len s" by simp
  obtain b bs where h: "batch_view C s = b # bs" "sc_batch_ring s ! sc_batch_head s = b"
    "epoch_value (br_epoch b) = Suc (sc_completed s)" "0 < br_member_count b" "br_member_count b \<le> sc_member_len s"
    "map (epoch_value \<circ> br_epoch) bs = [Suc (Suc (sc_completed s))..<Suc (sc_submitted s)]"
    "\<And>k. k < br_member_count b \<Longrightarrow> slot (member_view C s ! k) < C
       \<and> handle s (slot (member_view C s ! k)) = member_view C s ! k
       \<and> sl_active_epoch (sc_slots s ! slot (member_view C s ! k)) = Suc (sc_completed s)"
    by (rule head_batch [OF inv \<open>0 < sc_batch_len s\<close>], rule that)
  let ?c = "br_member_count b" and ?e = "Suc (sc_completed s)"
  have "\<not> sc_submitted s \<le> sc_completed s"
    using sched_inv_batches [OF inv] h(1) by (auto simp: batches_ok_def)
  then have nx: "sc_completed s + 1 \<le> U64_MAX" using sh(10) by simp
  have hd: "sc_batch_head s < C" "length (sc_batch_ring s) = C" using sh(7) by (auto simp: ring_wf_def)
  have mh: "sc_member_head s < C" using sh(6) by (simp add: ring_wf_def)
  have chk: "completion_check ?c C s ?e permits 0 (sc_member_head s) =
      Some (if \<forall>j < ?c. permits ! j = None then Inr () else Inl CompletionStorageNotEmpty)"
    if "?c \<le> length permits"
    using completion_check_eq [OF inv, of 0 ?c permits ?e] that h(5,7) mh by simp
  have iss: "issue_permits ?c C s ?e permits 0 (sc_member_head s) =
      Some (permits_for ?e (take ?c (member_view C s)) @ drop ?c permits, (sc_member_head s + ?c) mod C)"
    if "?c \<le> length permits"
    using issue_permits_eq [OF inv, of 0 ?c permits ?e] that h(5) mh by (simp add: permits_for_def)
  show ?thesis
  proof (cases "complete_decision C s completion permits")
    case (Some err)
    then show ?thesis using False nx h(1-5) hd chk
      by (auto simp: complete_decision_def sched_complete_exact_def completion_preflight_def u_add_ok idx_ok Let_def
          split: if_splits)
  next
    case None
    then have d: "epoch_value (ec_epoch completion) = ?e" "?c \<le> length permits" "\<forall>j < ?c. permits ! j = None"
      using h(1) by (auto simp: complete_decision_def split: if_splits)
    let ?s = "s\<lparr>sc_member_head := (sc_member_head s + ?c) mod C, sc_member_len := sc_member_len s - ?c,
       sc_batch_head := Suc (sc_batch_head s) mod C, sc_batch_len := sc_batch_len s - 1, sc_completed := ?e\<rparr>"
    have "sched_complete_exact C s completion permits =
        Some (Inr ?c, permits_for ?e (take ?c (member_view C s)) @ drop ?c permits, ?s)"
      using False nx h(2-5) hd d chk [OF d(2)] iss [OF d(2)] sh(12)
      by (simp add: sched_complete_exact_def completion_preflight_def u_add_ok u_sub_ok idx_ok advance_ok Let_def)
    then show ?thesis using None complete_inv [OF inv h(1)] h(1) by (auto simp: Let_def)
  qed
qed

end
