(* ===== verification/Scheduler_Machine.thy ===== *)
theory Scheduler_Machine
  imports Scheduler_Batches
begin

text \<open>
  The scheduler as one transactional state machine, and its refinement of the sequential
  lifecycle oracle: whatever call is made, every slot stays or takes the oracle transitions of that
  call, one at most except for a reincarnation, which detaches a slot and admits it again.
\<close>

datatype sched_call =
    SAdmit
  | SRetire request_id
  | SDispatch "request_id list"
  | SDispatchExact completion_epoch "request_id list"
  | SComplete exact_completion "kv_quiescence_permit option list"
  | STakeRetiring
  | SAccept kv_finalized_request
  | SReclaim kv_detached_request
  | SReincarnate kv_detached_request

datatype sched_failure =
    SchedFailure scheduler_error
  | ExactFailure m1_exact_dispatch_error
  | NotEnabled kv_detached_request

datatype sched_reply =
    SDone
  | SHandle request_id
  | SBatch "dispatch_batch option" "request_id list"
  | SExact m1_scheduled_dispatch
  | SPermits nat "kv_quiescence_permit option list"
  | SPermit "kv_quiescence_permit option"

text \<open>
  The caller-provided slices are arguments of the calls.  \<^verbatim>\<open>reincarnate_detached\<close> is the one method
  that checks nothing itself and returns no error: its precondition \<^verbatim>\<open>detached_enabled\<close> is a proof
  obligation of its callers.  The step runs it exactly where this precondition holds, and
  answers \<open>NotEnabled\<close> elsewhere, where the program cannot call it.
\<close>

definition detachment_ready :: "nat \<Rightarrow> scheduler \<Rightarrow> request_id \<Rightarrow> kv_quiescence_origin \<Rightarrow> bool" where
  "detachment_ready C s request origin =
     (let slot_index = slot request; sl = sc_slots s ! slot_index in
      slot_index < C \<and> sl_generation sl = generation request
      \<and> seq_of s slot_index = \<lparr>sr_state = Retiring, sr_phase = RetiringQuiescent\<rparr>
      \<and> \<not> sl_in_reclaim_ring sl
      \<and> (case origin of
           NeverSubmitted \<Rightarrow> sl_active_epoch sl = NO_EPOCH \<and> sl_last_quiescent_epoch sl = NO_EPOCH
         | CompletedExact epoch \<Rightarrow>
             sl_active_epoch sl \<noteq> NO_EPOCH \<and> sl_active_epoch sl = epoch
             \<or> sl_active_epoch sl = NO_EPOCH \<and> sl_last_quiescent_epoch sl = epoch))"

definition detached_enabled :: "nat \<Rightarrow> scheduler \<Rightarrow> kv_detached_request \<Rightarrow> bool" where
  "detached_enabled C s detached =
     (detachment_ready C s (det_request detached) (det_origin detached)
      \<and> sl_generation (sc_slots s ! slot (det_request detached)) < U32_MAX)"

definition sched_step :: "nat \<Rightarrow> sched_call \<Rightarrow> scheduler \<Rightarrow> ((sched_failure + sched_reply) \<times> scheduler) exec" where
  "sched_step C call s =
     (case call of
        SAdmit \<Rightarrow> map_option (apfst (map_sum SchedFailure SHandle)) (sched_admit C s)
      | SRetire q \<Rightarrow> map_option (apfst (map_sum SchedFailure (\<lambda>_. SDone))) (sched_retire C s q)
      | SDispatch storage \<Rightarrow>
          map_option (\<lambda>(r, out, s'). (map_sum SchedFailure (\<lambda>b. SBatch b out) r, s'))
            (sched_dispatch_ready C s storage)
      | SDispatchExact e qs \<Rightarrow>
          map_option (apfst (map_sum ExactFailure SExact)) (sched_dispatch_m1_exact_ready C s e qs)
      | SComplete c permits \<Rightarrow>
          map_option (\<lambda>(r, permits', s'). (map_sum (SchedFailure \<circ> cf_error) (\<lambda>k. SPermits k permits') r, s'))
            (sched_complete_exact C s c permits)
      | STakeRetiring \<Rightarrow> map_option (apfst (map_sum SchedFailure SPermit)) (take_retiring_permit C s)
      | SAccept f \<Rightarrow> map_option (apfst (map_sum SchedFailure (\<lambda>_. SDone))) (accept_finalized C s f)
      | SReclaim d \<Rightarrow> map_option (apfst (map_sum SchedFailure SHandle)) (reclaim_detached C s d)
      | SReincarnate d \<Rightarrow>
          if detached_enabled C s d
          then map_option (\<lambda>(q, s'). (Inr (SHandle q), s')) (reincarnate_detached s d)
          else Some (Inl (NotEnabled d), s))"

subsection \<open>The oracle transitions of a call\<close>

fun apply_transitions ::
  "sequential_request \<Rightarrow> request_transition list \<Rightarrow> transition_error + sequential_request" where
  "apply_transitions request [] = Inr request"
| "apply_transitions request (t # ts) =
     (case apply_request_transition request t of Inl e \<Rightarrow> Inl e | Inr r \<Rightarrow> apply_transitions r ts)"

lemma apply_transitions_Cons:
  "apply_transitions request (t # ts) = Inr r \<longleftrightarrow>
    (\<exists>mid. apply_request_transition request t = Inr mid \<and> apply_transitions mid ts = Inr r)"
  by (auto split: sum.splits)

fun call_path :: "sched_call \<Rightarrow> request_transition list" where
  "call_path SAdmit = [Admit]"
| "call_path (SRetire _) = [Retire]"
| "call_path (SDispatch _) = [Dispatch]"
| "call_path (SDispatchExact _ _) = [Dispatch]"
| "call_path (SComplete _ _) = [CompleteExact]"
| "call_path STakeRetiring = []"
| "call_path (SAccept _) = [FinalizeKv]"
| "call_path (SReclaim _) = [DetachKv]"
| "call_path (SReincarnate _) = [DetachKv, Admit]"

definition slot_steps :: "nat \<Rightarrow> request_transition list \<Rightarrow> scheduler \<Rightarrow> scheduler \<Rightarrow> bool" where
  "slot_steps C ts s s' = (\<forall>i < C. seq_of s' i = seq_of s i \<or> apply_transitions (seq_of s i) ts = Inr (seq_of s' i))"

lemma slot_steps_refl: "slot_steps C ts s s"
  by (simp add: slot_steps_def)

lemma one_slot_steps:
  assumes "apply_transitions (seq_of s i) ts = Inr (seq_of s' i)"
    and "sc_slots s' = (sc_slots s)[i := sc_slots s' ! i]" "sc_completed s' = sc_completed s"
  shows "slot_steps C ts s s'"
  unfolding slot_steps_def
proof (intro allI impI)
  fix j
  show "seq_of s' j = seq_of s j \<or> apply_transitions (seq_of s j) ts = Inr (seq_of s' j)"
  proof (cases "j = i")
    case False
    then have "sc_slots s' ! j = sc_slots s ! j" using assms(2) by (metis nth_list_update_neq)
    then show ?thesis using assms(3) by (simp add: seq_of_def)
  qed (use assms(1) in auto)
qed

lemma moves_slot_steps: "moves s s' i t \<Longrightarrow> slot_steps C [t] s s'"
  by (rule one_slot_steps [of s i]) (auto simp: moves_def)

lemma dispatched_slot_steps: "batch_dispatched C s s' R \<Longrightarrow> slot_steps C [Dispatch] s s'"
  by (auto simp: slot_steps_def batch_dispatched_def seq_of_def)

lemma completed_slot_steps: "batch_completed C s s' n \<Longrightarrow> slot_steps C [CompleteExact] s s'"
  unfolding slot_steps_def batch_completed_def by fastforce

lemma detached_enabled_ready:
  assumes "detached_enabled C s d"
  shows "detach_ready C s d" "generation (det_request d) \<noteq> U32_MAX"
  using assms by (auto simp: detached_enabled_def detachment_ready_def detach_ready_def current_def origin_matches_def
      seq_of_def Let_def split: kv_quiescence_origin.splits if_splits request_state.splits)

lemma detached_enabled_iff:
  assumes "sched_inv C s"
  shows "detached_enabled C s d \<longleftrightarrow> detach_ready C s d \<and> generation (det_request d) \<noteq> U32_MAX"
proof (intro iffI conjI)
  assume r: "detach_ready C s d \<and> generation (det_request d) \<noteq> U32_MAX"
  note f = detach_readyD [OF assms conjunct1 [OF r]]
  have "sl_generation (sc_slots s ! slot (det_request d)) < U32_MAX"
    using sched_inv_slot [OF assms f(1)] f(2) r by (simp add: slot_ok_def)
  with f show "detached_enabled C s d"
    by (auto simp: detached_enabled_def detachment_ready_def origin_matches_def split: kv_quiescence_origin.splits)
qed (simp_all add: detached_enabled_ready)

lemma reincarnated_slot_steps:
  assumes "sched_inv C s" "detached_enabled C s d"
  shows "\<exists>q s'. reincarnate_detached s d = Some (q, s') \<and> sched_inv C s' \<and> slot_steps C [DetachKv, Admit] s s'"
proof -
  let ?i = "slot (det_request d)"
  obtain q s' mid where r: "reincarnate_detached s d = Some (q, s')" "sched_inv C s'"
    "apply_request_transition (seq_of s ?i) DetachKv = Inr mid" "apply_request_transition mid Admit = Inr (seq_of s' ?i)"
    "s' = s\<lparr>sc_slots := (sc_slots s)[?i := sc_slots s' ! ?i]\<rparr>"
    using reincarnate_detached_correct [OF assms(1) detached_enabled_ready [OF assms(2)]] by blast
  have "slot_steps C [DetachKv, Admit] s s'"
    by (rule one_slot_steps [of s ?i])
       (use r(3,4) arg_cong [OF r(5), of sc_slots] arg_cong [OF r(5), of sc_completed] in simp_all)
  with r(1,2) show ?thesis by blast
qed

text \<open>Everything the machine laws need, call by call.\<close>

definition good_outcome ::
  "nat \<Rightarrow> request_transition list \<Rightarrow> scheduler \<Rightarrow> ((sched_failure + sched_reply) \<times> scheduler) exec \<Rightarrow> bool" where
  "good_outcome C ts s out = (\<exists>r s'. out = Some (r, s') \<and> sched_inv C s' \<and> slot_steps C ts s s' \<and> (isl r \<longrightarrow> s' = s))"

lemma sched_step_good:
  assumes inv: "sched_inv C s"
  shows "good_outcome C (call_path call) s (sched_step C call s)"
proof (cases call)
  case SAdmit
  then show ?thesis using sched_admit_correct [OF inv] inv
    by (auto simp: sched_step_def good_outcome_def slot_steps_refl intro: moves_slot_steps split: list.splits)
next
  case (SRetire q)
  then show ?thesis using sched_retire_correct [OF inv, of q] inv
    by (auto simp: sched_step_def good_outcome_def slot_steps_refl intro: moves_slot_steps split: option.splits)
next
  case (SDispatch storage)
  let ?out = storage
  note d = sched_dispatch_ready_correct [OF inv, of ?out]
  consider "?out = []" | "?out \<noteq> []" "sc_submitted s = U64_MAX"
    | "?out \<noteq> []" "sc_submitted s < U64_MAX" "dispatch_choice C s (length ?out) = []"
    | "?out \<noteq> []" "sc_submitted s < U64_MAX" "dispatch_choice C s (length ?out) \<noteq> []"
    using sched_shapeD(10) [OF inv] by linarith
  then show ?thesis unfolding SDispatch sched_step_def sched_call.case call_path.simps
    using d inv dispatched_slot_steps
    by cases (fastforce simp: good_outcome_def slot_steps_refl)+
next
  case (SDispatchExact e qs)
  then show ?thesis using sched_dispatch_m1_exact_ready_correct [OF inv, of e qs] inv
    by (auto simp: sched_step_def good_outcome_def slot_steps_refl intro: dispatched_slot_steps split: if_splits)
next
  case (SComplete c permits)
  then show ?thesis using sched_complete_exact_correct [OF inv, of c permits] inv
    by (auto simp: sched_step_def good_outcome_def slot_steps_refl Let_def intro: completed_slot_steps split: option.splits)
next
  case STakeRetiring
  have st: "slot_steps C [] s s'" if "s' = s\<lparr>sc_reclaim_head := h, sc_reclaim_len := n,
      sc_slots := (sc_slots s)[i := (sc_slots s ! i)\<lparr>sl_in_reclaim_ring := False\<rparr>]\<rparr>" for s' h n i
  proof -
    have "seq_of s' j = seq_of s j" if "j < C" for j
      using \<open>s' = _\<close> that sched_shapeD(3) [OF inv] by (cases "j = i") (auto simp: seq_of_def Let_def)
    then show ?thesis by (simp add: slot_steps_def)
  qed
  show ?thesis
  proof (cases "reclaim_view C s")
    case Nil
    then show ?thesis using STakeRetiring take_retiring_permit_correct [OF inv] inv
      by (simp add: sched_step_def good_outcome_def slot_steps_refl)
  next
    case (Cons i rest)
    then obtain v s' where t: "take_retiring_permit C s = Some (Inr v, s')" "sched_inv C s'"
      "s' = s\<lparr>sc_reclaim_head := sc_reclaim_head s', sc_reclaim_len := sc_reclaim_len s',
         sc_slots := (sc_slots s)[i := (sc_slots s ! i)\<lparr>sl_in_reclaim_ring := False\<rparr>]\<rparr>"
      using take_retiring_permit_correct [OF inv] by auto
    then show ?thesis using STakeRetiring st [OF t(3)] by (simp add: sched_step_def good_outcome_def)
  qed
next
  case (SAccept f)
  then show ?thesis using accept_finalized_correct [OF inv, of f] inv
    by (auto simp: sched_step_def good_outcome_def slot_steps_refl intro: moves_slot_steps split: option.splits)
next
  case (SReclaim d)
  then show ?thesis using reclaim_detached_correct [OF inv, of d] inv
    by (auto simp: sched_step_def good_outcome_def slot_steps_refl intro: moves_slot_steps split: option.splits)
next
  case (SReincarnate d)
  then show ?thesis using reincarnated_slot_steps [OF inv, of d] inv
    by (auto simp: sched_step_def good_outcome_def slot_steps_refl)
qed

interpretation sched: transactional_machine "sched_inv C" "sched_step C"
proof
  fix s call assume "sched_inv C s"
  from sched_step_good [OF this, of call] show "sched_step C call s \<noteq> None" by (auto simp: good_outcome_def)
next
  fix s call r s' assume "sched_inv C s" "sched_step C call s = Some (r, s')"
  with sched_step_good [of C s call] show "sched_inv C s'" by (auto simp: good_outcome_def)
next
  fix s call e s' assume "sched_inv C s" "sched_step C call s = Some (Inl e, s')"
  with sched_step_good [of C s call] show "s' = s" by (auto simp: good_outcome_def)
qed

end
