(* ===== verification/Scheduler_Fairness.thy ===== *)
theory Scheduler_Fairness
  imports Scheduler_Machine
begin

text \<open>
  The rotating cursor of \<^verbatim>\<open>dispatch_ready\<close>: what one scan does to the cursor, and a bounded
  waiting time for every ready request.
\<close>

subsection \<open>One scan\<close>

lemma selected_ready:
  assumes "dispatch_one_selected s out sel i mt e = Some (out', s')"
  shows "is_ready s' x \<Longrightarrow> is_ready s x" "\<not> is_ready s' i"
proof -
  have "i < length (sc_slots s)"
    "sc_slots s' = (sc_slots s)[i := (sc_slots s ! i)\<lparr>sl_state := InFlight, sl_active_epoch := e\<rparr>]"
    using assms by (auto simp: dispatch_one_selected_def idx_eq_Some upd_eq_Some Option.bind_eq_Some_conv Let_def)
  then show "is_ready s' x \<Longrightarrow> is_ready s x" "\<not> is_ready s' i"
    by (cases "x = i"; simp add: is_ready_def)+
qed

text \<open>The scan leaves no ready slot behind the cursor.\<close>

lemma dispatch_scan_window:
  assumes "dispatch_scan c C s out limit e i mt sel = Some (sel', i', mt', out', s')" "i < C" "C \<le> U32_MAX"
  shows "\<exists>j \<le> c. i' = (i + j) mod C \<and> (\<forall>k < j. \<not> is_ready s' ((i + k) mod C))
    \<and> (\<forall>x. is_ready s' x \<longrightarrow> is_ready s x) \<and> (sel \<noteq> sel' \<longrightarrow> 0 < j)"
  using assms
proof (induction c arbitrary: s out i mt sel)
  case 0
  then show ?case by auto
next
  case (Suc c)
  have window: ?case
    if run: "dispatch_scan c C s1 out1 limit e (Suc i mod C) mt1 sel1 = Some (sel', i', mt', out', s')"
      and s1: "\<And>x. is_ready s1 x \<Longrightarrow> is_ready s x" "\<not> is_ready s1 i" for s1 out1 mt1 sel1
  proof -
    have "Suc i mod C < C" using Suc.prems(2) by simp
    from Suc.IH [OF run this Suc.prems(3)] obtain j where j: "j \<le> c" "i' = (Suc i mod C + j) mod C"
      "\<forall>k < j. \<not> is_ready s' ((Suc i mod C + k) mod C)" "\<forall>x. is_ready s' x \<longrightarrow> is_ready s1 x" by blast
    have "\<not> is_ready s' ((i + k) mod C)" if "k < Suc j" for k
      using that j(3,4) s1(2) Suc.prems(2) by (cases k) (auto simp: mod_simps)
    then show ?thesis using j(1,2,4) s1(1) by (intro exI [of _ "Suc j"]) (auto simp: mod_simps)
  qed
  show ?case
  proof (cases "sel < limit")
    case False
    then show ?thesis using Suc.prems by auto
  next
    case sel: True
    show ?thesis
    proof (cases "is_ready s i")
      case True
      then obtain out1 s1 mt1 sel1 where p: "dispatch_one_selected s out sel i mt e = Some (out1, s1)"
        "dispatch_scan c C s1 out1 limit e (Suc i mod C) mt1 sel1 = Some (sel', i', mt', out', s')"
        using Suc.prems sel
        by (auto simp: is_ready_def idx_eq_Some advance_ok Option.bind_eq_Some_conv split: prod.splits)
      show ?thesis by (rule window [OF p(2)]) (use selected_ready [OF p(1)] in auto)
    next
      case False
      then have "dispatch_scan c C s out limit e (Suc i mod C) mt sel = Some (sel', i', mt', out', s')"
        using Suc.prems sel
        by (auto simp: is_ready_def idx_eq_Some advance_ok Option.bind_eq_Some_conv split: request_state.splits)
      then show ?thesis by (rule window) (use False in auto)
    qed
  qed
qed

subsection \<open>The distance of a slot from the cursor\<close>

definition ahead :: "nat \<Rightarrow> scheduler \<Rightarrow> nat \<Rightarrow> nat" where
  "ahead C s i = (i + C - sc_cursor s) mod C"

lemma ahead_less: "0 < C \<Longrightarrow> ahead C s i < C"
  by (simp add: ahead_def)

lemma cursor_distance:
  assumes "i < (C :: nat)" "c < C" "j \<le> C" "\<And>k. k < j \<Longrightarrow> (c + k) mod C \<noteq> i"
  shows "(i + C - (c + j) mod C) mod C + j = (i + C - c) mod C"
proof -
  let ?d = "(i + C - c) mod C"
  have d: "?d = (if c \<le> i then i - c else i + C - c)" using assms(1,2) by (auto simp: le_mod_geq)
  then have "(c + ?d) mod C = i" using assms(1,2) by auto
  with assms(4) [of ?d] have j: "j \<le> ?d" by force
  show ?thesis
  proof (cases "c + j < C")
    case True
    then show ?thesis using d j assms(1,2) by (auto simp: le_mod_geq split: if_splits)
  next
    case False
    then have "(c + j) mod C = c + j - C" using assms(2,3) by (simp add: le_mod_geq)
    then show ?thesis using d j False assms(1,2) by (auto simp: le_mod_geq split: if_splits)
  qed
qed

lemma dispatch_ahead:
  assumes inv: "sched_inv C s" and i: "i < C"
    and d: "sched_dispatch_ready C s out = Some (Inr (Some b), out', s')" and rdy: "is_ready s' i"
  shows "ahead C s' i < ahead C s i"
proof -
  note sh = sched_shapeD [OF inv]
  obtain e limit where en: "dispatch_enabled C s out e limit = Some (Some b, out', s')"
    using d by (cases "dispatch_preflight C s out")
      (auto simp: sched_dispatch_ready_def Option.bind_eq_Some_conv split: sum.split_asm option.split_asm)
  then obtain sel cur mt s1 where scan: "dispatch_scan_commit C s out limit e = Some (sel, cur, mt, out', s1)"
    "sel \<noteq> 0" "sc_cursor s' = cur" "sc_slots s' = sc_slots s1"
    by (cases "dispatch_scan_commit C s out limit e")
      (auto simp: dispatch_enabled_def Option.bind_eq_Some_conv split: if_split_asm)
  then obtain mt0 where "dispatch_scan C C s out limit e (sc_cursor s) mt0 0 = Some (sel, cur, mt, out', s1)"
    by (auto simp: dispatch_scan_commit_def Option.bind_eq_Some_conv)
  from dispatch_scan_window [OF this sh(8,12)] scan(2) obtain j where j: "j \<le> C" "cur = (sc_cursor s + j) mod C"
    "\<forall>k < j. \<not> is_ready s1 ((sc_cursor s + k) mod C)" "0 < j" by auto
  have "is_ready s1 i" using rdy scan(4) by (simp add: is_ready_def)
  with j(3) have "(sc_cursor s + k) mod C \<noteq> i" if "k < j" for k using that by auto
  from cursor_distance [OF i sh(8) j(1) this] j(2,4) scan(3) show ?thesis by (simp add: ahead_def)
qed

subsection \<open>Only a rotating dispatch moves the cursor\<close>

lemma dispatch_None_same:
  assumes "sched_inv C s" "sched_dispatch_ready C s out = Some (r, out', s')" "\<forall>b. r \<noteq> Inr (Some b)"
  shows "s' = s"
proof -
  note d = sched_dispatch_ready_correct [OF assms(1), of out]
  consider "out = []" | "out \<noteq> []" "sc_submitted s = U64_MAX"
    | "out \<noteq> []" "sc_submitted s < U64_MAX" "dispatch_choice C s (length out) = []"
    | "out \<noteq> []" "sc_submitted s < U64_MAX" "dispatch_choice C s (length out) \<noteq> []"
    using sched_shapeD(10) [OF assms(1)] by linarith
  then show ?thesis using d assms(2,3) by cases auto
qed

lemma exact_loop_cursor:
  "dispatch_exact_loop n C s qs e mt lane = Some s' \<Longrightarrow> sc_cursor s' = sc_cursor s"
  by (induction n arbitrary: s mt lane) (auto simp: Option.bind_eq_Some_conv)

lemma exact_commit_cursor:
  "dispatch_exact_commit C s qs e = Some (b, s') \<Longrightarrow> sc_cursor s' = sc_cursor s"
  by (auto simp: dispatch_exact_commit_def Option.bind_eq_Some_conv Let_def dest: exact_loop_cursor)

lemma exact_cursor:
  assumes inv: "sched_inv C s" and d: "sched_dispatch_m1_exact_ready C s e qs = Some (r, s')"
  shows "sc_cursor s' = sc_cursor s"
proof (cases "check_roster (length qs) C s qs 0")
  case None
  then show ?thesis using d
    by (auto simp: sched_dispatch_m1_exact_ready_def Option.bind_eq_Some_conv Let_def split: if_split_asm option.split_asm)
next
  case (Some v)
  then show ?thesis using d
    by (cases v) (auto simp: sched_dispatch_m1_exact_ready_def Option.bind_eq_Some_conv Let_def
        split: if_split_asm option.split_asm dest: exact_commit_cursor)
qed

lemma complete_cursor:
  "sched_complete_exact C s x permits = Some (r, permits', s') \<Longrightarrow> sc_cursor s' = sc_cursor s"
  by (cases "idx (sc_batch_ring s) (sc_batch_head s)";
      cases "completion_preflight C s (sc_batch_ring s ! sc_batch_head s) (epoch_value (ec_epoch x)) permits")
     (auto simp: sched_complete_exact_def Option.bind_eq_Some_conv idx_eq_Some Let_def
        split: if_split_asm sum.split_asm option.split_asm)

lemma step_cursor:
  assumes inv: "sched_inv C s" and st: "sched_step C c s = Some (r, s')" and c: "\<And>storage. c \<noteq> SDispatch storage"
  shows "sc_cursor s' = sc_cursor s"
proof (cases c)
  case SAdmit
  then show ?thesis using st
    by (auto simp: sched_step_def sched_admit_def admit_available_def admit_established_def Option.bind_eq_Some_conv Let_def
        split: if_split_asm sum.split_asm prod.split_asm)
next
  case (SRetire q)
  then show ?thesis using st
    by (auto simp: sched_step_def sched_retire_def retire_inflight_def retire_ready_def Option.bind_eq_Some_conv Let_def
        split: if_split_asm sum.split_asm prod.split_asm request_state.split_asm)
next
  case (SDispatchExact e qs)
  then show ?thesis using st exact_cursor [OF inv] by (auto simp: sched_step_def)
next
  case (SComplete x permits)
  then show ?thesis using st complete_cursor by (auto simp: sched_step_def)
next
  case STakeRetiring
  then show ?thesis using st
    by (auto simp: sched_step_def take_retiring_permit_def Option.bind_eq_Some_conv Let_def
        split: if_split_asm sum.split_asm prod.split_asm option.split_asm)
next
  case (SAccept fr)
  then show ?thesis using st
    by (cases "finalized_preflight C s fr") (auto simp: sched_step_def accept_finalized_def finalize_slot_def Option.bind_eq_Some_conv Let_def
        split: if_split_asm sum.split_asm prod.split_asm option.split_asm)
next
  case (SReclaim d)
  then show ?thesis using st
    by (cases "detached_preflight C s d") (auto simp: sched_step_def reclaim_detached_def reclaim_slot_def Option.bind_eq_Some_conv Let_def
        split: if_split_asm sum.split_asm prod.split_asm option.split_asm)
next
  case (SReincarnate d)
  then show ?thesis using st
    by (auto simp: sched_step_def reincarnate_detached_def Option.bind_eq_Some_conv Let_def split: if_split_asm)
qed (use c in auto)

subsection \<open>Bounded waiting\<close>

text \<open>The batches formed by rotating dispatches along a run, and that slot \<open>i\<close> holds a ready request in
  every state of the run.\<close>

fun rotations :: "nat \<Rightarrow> sched_call list \<Rightarrow> scheduler \<Rightarrow> nat" where
  "rotations C [] s = 0"
| "rotations C (c # cs) s =
     (case sched_step C c s of
        None \<Rightarrow> 0
      | Some (r, s') \<Rightarrow> (case (c, r) of (SDispatch storage, Inr (SBatch (Some b) out)) \<Rightarrow> 1 | _ \<Rightarrow> 0) + rotations C cs s')"

fun stays_ready :: "nat \<Rightarrow> nat \<Rightarrow> sched_call list \<Rightarrow> scheduler \<Rightarrow> bool" where
  "stays_ready C i [] s = is_ready s i"
| "stays_ready C i (c # cs) s = (is_ready s i \<and> (case sched_step C c s of None \<Rightarrow> True | Some (r, s') \<Rightarrow> stays_ready C i cs s'))"

lemma stays_ready_hd: "stays_ready C i cs s \<Longrightarrow> is_ready s i"
  by (cases cs) auto

lemma step_ahead:
  assumes inv: "sched_inv C s" and i: "i < C" and st: "sched_step C c s = Some (r, s')" and rdy: "is_ready s' i"
  shows "(case (c, r) of (SDispatch storage, Inr (SBatch (Some b) out)) \<Rightarrow> 1 | _ \<Rightarrow> 0) + ahead C s' i \<le> ahead C s i"
proof (cases "\<exists>storage. c = SDispatch storage")
  case False
  then have "sc_cursor s' = sc_cursor s" using step_cursor [OF inv st] by blast
  then show ?thesis using False by (cases c) (auto simp: ahead_def)
next
  case True
  then obtain storage where c: "c = SDispatch storage" by blast
  then obtain d out where d: "sched_dispatch_ready C s storage = Some (d, out, s')"
    "r = map_sum SchedFailure (\<lambda>b. SBatch b out) d" using st by (auto simp: sched_step_def)
  show ?thesis
  proof (cases "\<exists>b. d = Inr (Some b)")
    case True
    then show ?thesis using dispatch_ahead [OF inv i _ rdy] d c by fastforce
  next
    case False
    then have "s' = s" using dispatch_None_same [OF inv d(1)] by blast
    then show ?thesis using c d(2) False by (cases d) auto
  qed
qed

lemma rotations_ahead:
  "sched_inv C s \<Longrightarrow> i < C \<Longrightarrow> stays_ready C i cs s \<Longrightarrow> rotations C cs s \<le> ahead C s i"
proof (induction cs arbitrary: s)
  case (Cons c cs)
  obtain r s' where st: "sched_step C c s = Some (r, s')" using sched.step_total [OF Cons.prems(1)] by fastforce
  have inv': "sched_inv C s'" by (rule sched.step_inv [OF Cons.prems(1) st])
  have w: "stays_ready C i cs s'" using Cons.prems(3) st by simp
  from step_ahead [OF Cons.prems(1,2) st stays_ready_hd [OF w]] Cons.IH [OF inv' Cons.prems(2) w] show ?case
    by (simp add: st)
qed simp

end
