(* ===== verification/Scheduler_Properties.thy ===== *)
theory Scheduler_Properties
  imports Scheduler_Fairness
begin

text \<open>
  What the scheduler guarantees to its callers, in terms of its public methods, with a concrete
  instance for every guarantee that has a premise.
\<close>

subsection \<open>Reachable schedulers\<close>

definition sched_reachable :: "nat \<Rightarrow> sched_call list \<Rightarrow> scheduler \<Rightarrow> bool" where
  "sched_reachable C calls s = (\<exists>s0. sched_new C = Some (Inr s0) \<and> run_ops (sched_step C) calls s0 = Some s)"

lemma sched_new_inv:
  assumes "sched_new C = Some (Inr s)"
  shows "sched_inv C s" "free_view C s = [0..<C]" "sc_slots s = replicate C Slot_INITIAL"
    "sc_submitted s = 0" "sc_completed s = 0" "0 < C" "C \<le> MAX_REQUEST_SLOTS"
  using sched_new_correct [of C] assms by (auto split: if_splits)

lemma sched_reachable_inv: "sched_reachable C calls s \<Longrightarrow> sched_inv C s"
  unfolding sched_reachable_def using sched_new_inv(1) sched.run_inv by blast

lemma sched_reachable_step:
  "sched_reachable C calls s \<Longrightarrow> sched_step C c s = Some (r, s') \<Longrightarrow> sched_reachable C (calls @ [c]) s'"
  by (auto simp: sched_reachable_def run_ops_append)

lemma moves_slot: "moves s s' i t \<Longrightarrow> j \<noteq> i \<Longrightarrow> sc_slots s' ! j = sc_slots s ! j"
  unfolding moves_def by (metis nth_list_update_neq)

text \<open>A scheduler of two slots, fresh and with one admitted request.\<close>

lemma demo_sched_new:
  obtains s where "sched_reachable 2 [] s" "free_view 2 s = [0, 1]" "sc_submitted s = 0" "sc_completed s = 0"
    "sc_slots s = [Slot_INITIAL, Slot_INITIAL]"
proof -
  obtain s where "sched_new 2 = Some (Inr s)" "free_view 2 s = [0..<2]" "sc_submitted s = 0" "sc_completed s = 0"
    "sc_slots s = replicate 2 Slot_INITIAL"
    using sched_new_correct [of 2] by (auto simp: MAX_REQUEST_SLOTS_def)
  then show ?thesis using that [of s] by (simp add: sched_reachable_def numeral_2_eq_2)
qed

lemma demo_sched_admit:
  obtains s where "sched_reachable 2 [SAdmit] s" "sl_state (sc_slots s ! 0) = Ready" "handle s 0 = request_id_new 0 1"
    "sc_completed s = 0" "reclaim_view 2 s = []" "sc_submitted s = 0" "member_view 2 s = []"
proof -
  obtain s0 where s0: "sched_reachable 2 [] s0" "free_view 2 s0 = [0, 1]" "sc_submitted s0 = 0" "sc_completed s0 = 0"
    "sc_slots s0 = [Slot_INITIAL, Slot_INITIAL]" by (rule demo_sched_new)
  note inv = sched_reachable_inv [OF s0(1)]
  obtain s where s: "sched_admit 2 s0 = Some (Inr (handle s0 0), s)" "moves s0 s 0 Admit" "handle s 0 = handle s0 0" "sched_inv 2 s"
    using sched_admit_correct [OF inv] s0(2) by auto
  have "sched_reachable 2 ([] @ [SAdmit]) s"
    by (rule sched_reachable_step [OF s0(1)]) (simp add: sched_step_def s(1))
  moreover have "handle s0 0 = request_id_new 0 1" using s0(5) by (simp add: handle_def Slot_INITIAL_def)
  moreover have "seq_of s0 0 = \<lparr>sr_state = Vacant, sr_phase = Idle\<rparr>"
    using s0(5) by (simp add: seq_of_def Slot_INITIAL_def)
  then have "sl_state (sc_slots s ! 0) = Ready"
    using s(2) by (simp add: moves_def apply_request_transition_def) (simp add: seq_of_def Let_def)
  moreover from this s(2) have o': "\<not> sl_in_reclaim_ring (sc_slots s ! i)" if "i < 2" for i
    using that sched_inv_slot [OF s(4), of i] moves_slot [OF s(2), of 1] s0(5)
    by (cases "i = 0") (auto simp: slot_ok_def Slot_INITIAL_def less_2_cases_iff)
  have "set (reclaim_view 2 s) = {}" using o' sched_inv_reclaim [OF s(4)] by (auto simp: reclaim_ring_ok_def)
  then have "reclaim_view 2 s = []" by simp
  moreover have "member_view 2 s = []"
    using member_executing [OF s(4)] sched_inv_slot [OF s(4)] s(2) s0(3,4)
    by (fastforce simp: slot_ok_def moves_def intro: ccontr)
  ultimately show ?thesis using that s(2,3) s0(3,4) by (simp add: moves_def)
qed

lemma retired_view:
  assumes inv: "sched_inv 2 s" and q: "sl_state (sc_slots s ! 0) = Ready" "handle s 0 = request_id_new 0 1" "sc_completed s = 0"
    and v: "reclaim_view 2 s = []"
  obtains s1 s2 where "sched_retire 2 s (request_id_new 0 1) = Some (Inr (), s1)"
    "take_retiring_permit 2 s1 = Some (Inr (Some \<lparr>permit_request = request_id_new 0 1, permit_origin = NeverSubmitted\<rparr>), s2)"
    "sched_inv 2 s2" "detach_ready 2 s2 \<lparr>det_request = request_id_new 0 1, det_origin = NeverSubmitted\<rparr>"
proof -
  let ?q = "request_id_new 0 1"
  have g: "sl_generation (sc_slots s ! 0) = 1" using q(2) by (simp add: handle_def request_id_new_def)
  have "retire_decision 2 s ?q = None" using q(1) g by (simp add: retire_decision_def)
  then obtain s1 where s1: "sched_retire 2 s ?q = Some (Inr (), s1)" "sched_inv 2 s1" "moves s s1 0 Retire"
    "handle s1 0 = ?q" "reclaim_view 2 s1 = [0]"
    using sched_retire_correct [OF inv, of ?q] q(1) v by auto
  have ok: "slot_ok s1 (sc_slots s1 ! 0)" using sched_inv_slot [OF s1(2)] by simp
  have lq: "sl_last_quiescent_epoch (sc_slots s1 ! 0) = 0" "sl_generation (sc_slots s1 ! 0) = 1" "sc_completed s1 = 0"
    using ok s1(3,4) q(3) by (simp_all add: slot_ok_def moves_def handle_def request_id_new_def)
  obtain s2 where s2: "take_retiring_permit 2 s1 = Some (Inr (Some \<lparr>permit_request = ?q, permit_origin = NeverSubmitted\<rparr>), s2)"
    "sched_inv 2 s2" "sl_state (sc_slots s1 ! 0) = Retiring"
    "s2 = s1\<lparr>sc_reclaim_head := sc_reclaim_head s2, sc_reclaim_len := sc_reclaim_len s2,
       sc_slots := (sc_slots s1)[0 := (sc_slots s1 ! 0)\<lparr>sl_in_reclaim_ring := False\<rparr>]\<rparr>"
    using take_retiring_permit_correct [OF s1(2)] s1(4,5) lq by auto
  have sl: "sc_slots s2 ! 0 = (sc_slots s1 ! 0)\<lparr>sl_in_reclaim_ring := False\<rparr>" "sc_completed s2 = sc_completed s1"
    using arg_cong [OF s2(4), of sc_slots] arg_cong [OF s2(4), of sc_completed] sched_shapeD(3) [OF s1(2)] by simp_all
  have "sl_in_reclaim_ring (sc_slots s1 ! 0)" using sched_inv_reclaim [OF s1(2)] s1(5) by (auto simp: reclaim_ring_ok_def)
  then have "detach_ready 2 s2 \<lparr>det_request = ?q, det_origin = NeverSubmitted\<rparr>"
    using sl lq s2(3) ok by (simp add: detach_ready_def current_def origin_matches_def slot_ok_def NO_EPOCH_def Let_def)
  with s1(1) s2(1,2) show ?thesis by (rule that)
qed

lemma demo_sched_detached:
  obtains s where "sched_reachable 2 [SAdmit, SRetire (request_id_new 0 1), STakeRetiring] s"
    "detach_ready 2 s \<lparr>det_request = request_id_new 0 1, det_origin = NeverSubmitted\<rparr>"
proof -
  let ?q = "request_id_new 0 1"
  obtain s0 where s0: "sched_reachable 2 [SAdmit] s0" "sl_state (sc_slots s0 ! 0) = Ready" "handle s0 0 = ?q"
    "sc_completed s0 = 0" "reclaim_view 2 s0 = []" by (rule demo_sched_admit)
  obtain s1 s where s: "sched_retire 2 s0 ?q = Some (Inr (), s1)"
    "take_retiring_permit 2 s1 = Some (Inr (Some \<lparr>permit_request = ?q, permit_origin = NeverSubmitted\<rparr>), s)"
    "detach_ready 2 s \<lparr>det_request = ?q, det_origin = NeverSubmitted\<rparr>"
    using retired_view [OF sched_reachable_inv [OF s0(1)] s0(2-5)] by blast
  have "sched_reachable 2 ([SAdmit] @ [SRetire ?q]) s1"
    by (rule sched_reachable_step [OF s0(1)]) (simp add: sched_step_def s(1) del: One_nat_def)
  then have "sched_reachable 2 (([SAdmit] @ [SRetire ?q]) @ [STakeRetiring]) s"
    by (rule sched_reachable_step) (simp add: sched_step_def s(2) del: One_nat_def)
  with that [of s] s(3) show ?thesis by (simp del: One_nat_def)
qed

subsection \<open>Refinement and panic freedom\<close>

text \<open>C3: the scheduler implements the sequential lifecycle.  On every reachable scheduler every call, with
  arbitrary arguments, returns; an error changes nothing; and a successful call leaves every slot, read as a request of the
  sequential semantics, where it was, or takes it through the oracle transitions of that call, each of which the lifecycle oracle
  \<^verbatim>\<open>apply_request_transition\<close> accepts: one \<open>Admit\<close>, \<open>Retire\<close>, \<open>Dispatch\<close>, \<open>CompleteExact\<close>,
  \<open>FinalizeKv\<close> or \<open>DetachKv\<close> for admission, retirement, the two dispatches, completion, acceptance of
  finalized KV state and reclamation, none for taking a permit, and for \<^verbatim>\<open>reincarnate_detached\<close>, which is
  called only under its precondition \<^verbatim>\<open>detached_enabled\<close>, the two transitions \<open>DetachKv\<close> and \<open>Admit\<close>.\<close>

theorem sched_refines_lifecycle:
  assumes "sched_reachable C calls s"
  shows "\<exists>r s'. sched_step C c s = Some (r, s') \<and> (isl r \<longrightarrow> s' = s)
    \<and> (\<forall>i < C. seq_of s' i = seq_of s i
         \<or> (case c of
              SAdmit \<Rightarrow> apply_request_transition (seq_of s i) Admit = Inr (seq_of s' i)
            | SRetire _ \<Rightarrow> apply_request_transition (seq_of s i) Retire = Inr (seq_of s' i)
            | SDispatch _ \<Rightarrow> apply_request_transition (seq_of s i) Dispatch = Inr (seq_of s' i)
            | SDispatchExact _ _ \<Rightarrow> apply_request_transition (seq_of s i) Dispatch = Inr (seq_of s' i)
            | SComplete _ _ \<Rightarrow> apply_request_transition (seq_of s i) CompleteExact = Inr (seq_of s' i)
            | STakeRetiring \<Rightarrow> False
            | SAccept _ \<Rightarrow> apply_request_transition (seq_of s i) FinalizeKv = Inr (seq_of s' i)
            | SReclaim _ \<Rightarrow> apply_request_transition (seq_of s i) DetachKv = Inr (seq_of s' i)
            | SReincarnate _ \<Rightarrow> (\<exists>mid. apply_request_transition (seq_of s i) DetachKv = Inr mid
                \<and> apply_request_transition mid Admit = Inr (seq_of s' i))))"
proof -
  obtain r s' where o: "sched_step C c s = Some (r, s')" "isl r \<longrightarrow> s' = s" "slot_steps C (call_path c) s s'"
    using sched_step_good [OF sched_reachable_inv [OF assms], of c] unfolding good_outcome_def by blast
  then show ?thesis
    by (cases c) (auto simp: slot_steps_def apply_transitions_Cons simp del: apply_transitions.simps(2))
qed

theorem sched_refines_lifecycle_witness:
  "\<exists>s r s' mid. sched_reachable 2 [SAdmit, SRetire (request_id_new 0 1), STakeRetiring] s
    \<and> sched_step 2 (SReincarnate \<lparr>det_request = request_id_new 0 1, det_origin = NeverSubmitted\<rparr>) s = Some (Inr r, s')
    \<and> apply_request_transition (seq_of s 0) DetachKv = Inr mid \<and> apply_request_transition mid Admit = Inr (seq_of s' 0)"
proof -
  let ?d = "\<lparr>det_request = request_id_new 0 1, det_origin = NeverSubmitted\<rparr>"
  obtain s where s: "sched_reachable 2 [SAdmit, SRetire (request_id_new 0 1), STakeRetiring] s" "detach_ready 2 s ?d"
    by (rule demo_sched_detached)
  note inv = sched_reachable_inv [OF s(1)]
  have en: "detached_enabled 2 s ?d" using detached_enabled_iff [OF inv] s(2) by simp
  obtain q s' where q: "reincarnate_detached s ?d = Some (q, s')" using reincarnated_slot_steps [OF inv en] by blast
  have st: "sched_step 2 (SReincarnate ?d) s = Some (Inr (SHandle q), s')" using en q by (simp add: sched_step_def)
  have "seq_of s' 0 \<noteq> seq_of s 0"
    using detach_readyD(8) [OF inv s(2)] reincarnate_detached_correct [OF inv detached_enabled_ready [OF en]] q
    by (auto simp: apply_request_transition_def)
  with sched_refines_lifecycle [OF s(1), of "SReincarnate ?d"] st
  obtain mid where "apply_request_transition (seq_of s 0) DetachKv = Inr mid" "apply_request_transition mid Admit = Inr (seq_of s' 0)"
    by (auto dest: spec [of _ 0])
  with s(1) st show ?thesis by blast
qed

text \<open>no sequence of scheduler calls panics.  From \<^verbatim>\<open>Scheduler::new\<close> every sequence of calls with
  arbitrary arguments runs to the end and leaves a scheduler that satisfies the invariant.\<close>

theorem sched_run_never_panics:
  assumes "sched_new C = Some (Inr s0)"
  shows "\<exists>s. run_ops (sched_step C) calls s0 = Some s \<and> sched_inv C s"
  using sched_new_inv(1) [OF assms] by (rule sched.run_safe)

theorem sched_run_never_panics_witness:
  "\<exists>s0 s. sched_new 2 = Some (Inr s0)
     \<and> run_ops (sched_step 2) [SAdmit, SDispatch [request_id_new 0 0], SRetire (request_id_new 0 1), STakeRetiring] s0 = Some s \<and> sched_inv 2 s"
proof -
  obtain s0 where s0: "sched_new 2 = Some (Inr s0)" using demo_sched_new by (auto simp: sched_reachable_def)
  from sched_run_never_panics [OF s0, of "[SAdmit, SDispatch [request_id_new 0 0], SRetire (request_id_new 0 1), STakeRetiring]"] s0
  show ?thesis by blast
qed

subsection \<open>Epochs and quiescence\<close>

text \<open>pending work.  The queued batches carry exactly the epochs after the completed one up to the
  last submitted one, in this order and none empty; the queued members of all batches occupy distinct
  slots, their handles are current, and they are exactly the requests that are executing, each in
  the batch of its own active epoch.\<close>

theorem sched_pending_epochs:
  assumes "sched_reachable C calls s"
  shows "map (epoch_value \<circ> br_epoch) (batch_view C s) = [Suc (sc_completed s)..<Suc (sc_submitted s)]
    \<and> (\<forall>b \<in> set (batch_view C s). 0 < br_member_count b) \<and> distinct (map slot (member_view C s))
    \<and> set (zip (member_view C s) (batch_tags (batch_view C s))) =
        {(request_id_new i (sl_generation (sc_slots s ! i)), sl_active_epoch (sc_slots s ! i)) | i.
           i < C \<and> sc_completed s < sl_active_epoch (sc_slots s ! i)}"
  using sched_inv_batches [OF sched_reachable_inv [OF assms]] by (simp add: batches_ok_def executing_def handle_def)

theorem sched_pending_epochs_witness:
  "\<exists>s. sched_reachable 2 [SAdmit] s
    \<and> map (epoch_value \<circ> br_epoch) (batch_view 2 s) = [Suc (sc_completed s)..<Suc (sc_submitted s)]"
proof -
  obtain s where s: "sched_reachable 2 [SAdmit] s" by (rule demo_sched_admit)
  from sched_pending_epochs [OF s] s show ?thesis by blast
qed

text \<open>a request is recycled only when quiescent.  When \<^verbatim>\<open>reclaim_detached\<close> frees a slot, no queued batch has a
  member in that slot, the slot was retiring under the very generation of the evidence, and the slot
  comes back vacant at the end of the free queue under the next generation.\<close>

theorem sched_reclaim_quiescent:
  assumes "sched_reachable C calls s" "reclaim_detached C s d = Some (Inr q, s')"
  shows "q = det_request d \<and> slot q \<notin> slot ` set (member_view C s)
    \<and> sl_state (sc_slots s ! slot q) = Retiring \<and> sl_generation (sc_slots s ! slot q) = generation q
    \<and> sl_state (sc_slots s' ! slot q) = Vacant \<and> sl_generation (sc_slots s' ! slot q) = generation q + 1
    \<and> free_view C s' = free_view C s @ [slot q]"
proof -
  note inv = sched_reachable_inv [OF assms(1)]
  have dec: "reclaim_decision C s d = None"
    using reclaim_detached_correct [OF inv, of d] assms(2) by (auto split: option.splits)
  then have r: "detach_ready C s d" by (auto simp: reclaim_decision_def split: if_splits)
  note f = detach_readyD [OF inv r]
  have e: "q = det_request d" "moves s s' (slot q) DetachKv" "sl_generation (sc_slots s' ! slot q) = generation q + 1"
    "free_view C s' = free_view C s @ [slot q]"
    using reclaim_detached_correct [OF inv, of d] assms(2) dec by auto
  have "seq_of s' (slot q) = \<lparr>sr_state = Vacant, sr_phase = Idle\<rparr>"
    using e(1,2) f(8) by (simp add: moves_def apply_request_transition_def)
  then have "sl_state (sc_slots s' ! slot q) = Vacant" by (auto simp: seq_of_def Let_def)
  moreover have "slot q \<notin> slot ` set (member_view C s)"
    using member_executing(2) [OF inv] f(6) e(1) by fastforce
  ultimately show ?thesis using e f(2,3) by simp
qed

theorem sched_reclaim_quiescent_witness:
  "\<exists>s s' q. reclaim_detached 2 s \<lparr>det_request = request_id_new 0 1, det_origin = NeverSubmitted\<rparr> = Some (Inr q, s')
    \<and> q = request_id_new 0 1 \<and> slot q \<notin> slot ` set (member_view 2 s) \<and> sl_state (sc_slots s' ! slot q) = Vacant"
proof -
  let ?q = "request_id_new 0 1" and ?d = "\<lparr>det_request = request_id_new 0 1, det_origin = NeverSubmitted\<rparr>"
  obtain s where s: "sched_reachable 2 [SAdmit, SRetire ?q, STakeRetiring] s" "detach_ready 2 s ?d" by (rule demo_sched_detached)
  have "reclaim_decision 2 s ?d = None" using s(2) by (simp add: reclaim_decision_def detach_ready_def)
  then obtain s' where s': "reclaim_detached 2 s ?d = Some (Inr ?q, s')"
    using reclaim_detached_correct [OF sched_reachable_inv [OF s(1)], of ?d] by auto
  from sched_reclaim_quiescent [OF s(1) s'] s' show ?thesis by auto
qed

subsection \<open>Dispatch and completion\<close>

text \<open>C4: bounded waiting.  While a request stays ready, fewer than \<^verbatim>\<open>C\<close> batches can be formed by
  \<^verbatim>\<open>dispatch_ready\<close>, whatever their size and whatever other calls are interleaved: the rotating cursor
  starves no ready request.\<close>

theorem sched_bounded_waiting:
  assumes "sched_reachable C calls s" "i < C" "stays_ready C i later s"
  shows "rotations C later s < C"
  using rotations_ahead [OF sched_reachable_inv [OF assms(1)] assms(2,3)] ahead_less [of C s i] assms(2) by simp

theorem sched_bounded_waiting_witness:
  "\<exists>s. sched_reachable 2 [SAdmit] s \<and> stays_ready 2 0 [SDispatch [], SDispatch []] s \<and> rotations 2 [SDispatch [], SDispatch []] s < 2"
proof -
  obtain s where s: "sched_reachable 2 [SAdmit] s" "sl_state (sc_slots s ! 0) = Ready" by (rule demo_sched_admit)
  have "sched_step 2 (SDispatch []) s = Some (Inl (SchedFailure EmptyBatchStorage), s)"
    using sched_dispatch_ready_correct(1) [OF sched_reachable_inv [OF s(1)], of "[]"] by (simp add: sched_step_def)
  then have w: "stays_ready 2 0 [SDispatch [], SDispatch []] s" using s(2) by (simp add: is_ready_def)
  from sched_bounded_waiting [OF s(1) _ w] s(1) w show ?thesis by auto
qed

text \<open>rotating dispatch.  \<^verbatim>\<open>dispatch_ready\<close> selects, in the order of the slots from the cursor onwards, the first
  ready requests that fit both the caller's storage and the free places of the member ring; it writes
  exactly their handles to the front of the storage and queues them as one batch under the
  next epoch, and no other slot changes.  Without any such request it forms no batch; empty storage and
  an exhausted epoch are errors.\<close>

theorem sched_dispatch_functional:
  assumes "sched_reachable C calls s"
  shows "if out = [] then sched_dispatch_ready C s out = Some (Inl EmptyBatchStorage, out, s)
    else if sc_submitted s = U64_MAX then sched_dispatch_ready C s out = Some (Inl SubmissionEpochExhausted, out, s)
    else let R = dispatch_choice C s (length out) in
      if R = [] then sched_dispatch_ready C s out = Some (Inr None, out, s)
      else \<exists>s'. sched_dispatch_ready C s out =
          Some (Inr (Some \<lparr>db_epoch = \<lparr>epoch_value = Suc (sc_submitted s)\<rparr>, db_member_count = length R\<rparr>),
                map (handle s) R @ drop (length R) out, s')
        \<and> sched_inv C s' \<and> batch_dispatched C s s' R"
proof -
  note inv = sched_reachable_inv [OF assms]
  have "sc_submitted s \<noteq> U64_MAX \<Longrightarrow> sc_submitted s < U64_MAX" using sched_shapeD(10) [OF inv] by simp
  then show ?thesis using sched_dispatch_ready_correct [OF inv, of out] by (simp add: Let_def)
qed

theorem sched_dispatch_functional_witness:
  "\<exists>s s'. sched_reachable 2 [SAdmit] s \<and> dispatch_choice 2 s 1 \<noteq> []
    \<and> sched_dispatch_ready 2 s [request_id_new 0 0] =
        Some (Inr (Some \<lparr>db_epoch = \<lparr>epoch_value = 1\<rparr>, db_member_count = length (dispatch_choice 2 s 1)\<rparr>),
              map (handle s) (dispatch_choice 2 s 1) @ drop (length (dispatch_choice 2 s 1)) [request_id_new 0 0], s')"
proof -
  obtain s where s: "sched_reachable 2 [SAdmit] s" "sl_state (sc_slots s ! 0) = Ready" "sc_submitted s = 0" "member_view 2 s = []"
    by (rule demo_sched_admit)
  note inv = sched_reachable_inv [OF s(1)]
  have m: "sc_member_len s = 0" using arg_cong [OF s(4), of length] by (simp add: member_view_def)
  have "0 \<in> set (scan_order 2 (sc_cursor s) 2)"
    using sched_shapeD(8) [OF inv] by (auto simp: scan_order_def numeral_2_eq_2 less_Suc_eq)
  then have "0 \<in> set (filter (is_ready s) (scan_order 2 (sc_cursor s) 2))" using s(2) by (simp add: is_ready_def)
  then have "filter (is_ready s) (scan_order 2 (sc_cursor s) 2) \<noteq> []" by force
  then have "dispatch_choice 2 s 1 \<noteq> []" using m by (simp add: dispatch_choice_def)
  then show ?thesis using sched_dispatch_functional [OF s(1), of "[request_id_new 0 0]"] s(1,3) by (auto simp: Let_def)
qed

text \<open>exact roster.  \<^verbatim>\<open>dispatch_m1_exact_ready\<close> dispatches exactly the given roster, lane by lane, under exactly the
  given epoch; it refuses, without any change, an empty or too large roster, an epoch other than the next
  one, a lack of room, and every roster that repeats a slot or names a request that is stale or not
  ready.\<close>

theorem sched_exact_roster:
  assumes "sched_reachable C calls s"
  shows "case sched_dispatch_m1_exact_ready C s epoch qs of
      None \<Rightarrow> False
    | Some (Inl _, s') \<Rightarrow> s' = s \<and> exact_refusal C s epoch qs
    | Some (Inr d, s') \<Rightarrow> \<not> exact_refusal C s epoch qs \<and> sched_inv C s' \<and> batch_dispatched C s s' (map slot qs)
        \<and> db_epoch (m1_batch d) = epoch \<and> db_member_count (m1_batch d) = length qs
        \<and> m1_members d = map Some qs @ replicate (M1_MAX_ACTIVE_SEQUENCES - length qs) None"
  using sched_dispatch_m1_exact_ready_correct [OF sched_reachable_inv [OF assms], of epoch qs]
  by (auto split: if_splits)

theorem sched_exact_roster_witness:
  "\<exists>s s' d. sched_reachable 2 [SAdmit] s
    \<and> sched_dispatch_m1_exact_ready 2 s \<lparr>epoch_value = 1\<rparr> [request_id_new 0 1] = Some (Inr d, s') \<and> batch_dispatched 2 s s' [0]"
proof -
  let ?qs = "[request_id_new 0 1]"
  obtain s where s: "sched_reachable 2 [SAdmit] s" "sl_state (sc_slots s ! 0) = Ready" "handle s 0 = request_id_new 0 1"
    "sc_submitted s = 0" "member_view 2 s = []" by (rule demo_sched_admit)
  have m: "sc_member_len s = 0" using arg_cong [OF s(5), of length] by (simp add: member_view_def)
  have "\<not> exact_refusal 2 s \<lparr>epoch_value = 1\<rparr> ?qs"
    using s(2-4) m by (simp add: exact_refusal_def roster_ok_def current_def is_ready_def handle_def request_id_new_def
        M1_MAX_ACTIVE_SEQUENCES_def)
  then show ?thesis using sched_exact_roster [OF s(1), where epoch = "\<lparr>epoch_value = 1\<rparr>" and qs = ?qs] s(1)
    by (auto split: option.splits prod.splits sum.splits)
qed

text \<open>completion in order.  \<^verbatim>\<open>complete_exact\<close> accepts only the epoch right after the completed one, while a batch is
  pending and the permit storage is large enough and empty; it then issues one permit per member of the
  oldest batch, in dispatch order and under this epoch, moves each member through
  the oracle's \<open>CompleteExact\<close> and removes exactly this batch.  Otherwise it returns the completion
  unused and changes nothing.\<close>

theorem sched_complete_functional:
  assumes "sched_reachable C calls s"
  shows "case complete_decision C s completion permits of
      Some e \<Rightarrow> sched_complete_exact C s completion permits =
        Some (Inl \<lparr>cf_error = e, cf_completion = completion\<rparr>, permits, s)
    | None \<Rightarrow> \<exists>s'. let n = br_member_count (hd (batch_view C s)) in
        sched_complete_exact C s completion permits =
          Some (Inr n, permits_for (Suc (sc_completed s)) (take n (member_view C s)) @ drop n permits, s')
        \<and> sched_inv C s' \<and> batch_completed C s s' n"
  using sched_complete_exact_correct [OF sched_reachable_inv [OF assms], of completion permits] .

theorem sched_complete_functional_witness:
  "\<exists>s s1. sched_reachable 2 [SAdmit, SDispatchExact \<lparr>epoch_value = 1\<rparr> [request_id_new 0 1]] s
    \<and> sched_complete_exact 2 s \<lparr>ec_epoch = \<lparr>epoch_value = 1\<rparr>\<rparr> [None] =
        Some (Inr 1, [Some \<lparr>permit_request = request_id_new 0 1, permit_origin = CompletedExact 1\<rparr>], s1)"
proof -
  let ?q = "request_id_new 0 1" and ?c = "\<lparr>ec_epoch = \<lparr>epoch_value = 1\<rparr>\<rparr>"
  obtain s0 where s0: "sched_reachable 2 [SAdmit] s0" "sl_state (sc_slots s0 ! 0) = Ready" "handle s0 0 = ?q"
    "sc_submitted s0 = 0" "sc_completed s0 = 0" "member_view 2 s0 = []" by (rule demo_sched_admit)
  note inv0 = sched_reachable_inv [OF s0(1)]
  have m: "sc_member_len s0 = 0" using arg_cong [OF s0(6), of length] by (simp add: member_view_def)
  have "\<not> exact_refusal 2 s0 \<lparr>epoch_value = 1\<rparr> [?q]"
    using s0(2-4) m by (simp add: exact_refusal_def roster_ok_def current_def is_ready_def handle_def request_id_new_def
        M1_MAX_ACTIVE_SEQUENCES_def)
  then obtain d s where d: "sched_dispatch_m1_exact_ready 2 s0 \<lparr>epoch_value = 1\<rparr> [?q] = Some (Inr d, s)"
    "batch_dispatched 2 s0 s [0]"
    using sched_dispatch_m1_exact_ready_correct [OF inv0, of "\<lparr>epoch_value = 1\<rparr>" "[?q]"] by auto
  have "sched_reachable 2 ([SAdmit] @ [SDispatchExact \<lparr>epoch_value = 1\<rparr> [?q]]) s"
    by (rule sched_reachable_step [OF s0(1)]) (simp add: sched_step_def d(1) del: One_nat_def)
  then have r: "sched_reachable 2 [SAdmit, SDispatchExact \<lparr>epoch_value = 1\<rparr> [?q]] s" by simp
  have "map (epoch_value \<circ> br_epoch) (batch_view 2 s0) = []"
    using sched_inv_batches [OF inv0] s0(4,5) by (simp add: batches_ok_def)
  then have v: "batch_view 2 s = [\<lparr>br_epoch = \<lparr>epoch_value = 1\<rparr>, br_member_count = 1\<rparr>]" "member_view 2 s = [?q]"
    "sc_completed s = 0" using d(2) s0(3-6) by (simp_all add: batch_dispatched_def)
  then have "complete_decision 2 s ?c [None] = None" by (simp add: complete_decision_def)
  then show ?thesis using sched_complete_functional [OF r, where completion = ?c and permits = "[None]"] v r
    by (auto simp: permits_for_def Let_def)
qed

text \<open>admission.  \<^verbatim>\<open>admit\<close> hands out the slot that has been vacant longest, under that slot's current
  generation, as a ready request; it fails exactly when no slot is vacant.\<close>

theorem sched_admit_functional:
  assumes "sched_reachable C calls s"
  shows "case free_view C s of
      [] \<Rightarrow> sched_admit C s = Some (Inl OutOfSlots, s) \<and> (\<forall>i < C. sl_state (sc_slots s ! i) \<noteq> Vacant)
    | i # rest \<Rightarrow> \<exists>s'. sched_admit C s = Some (Inr (request_id_new i (sl_generation (sc_slots s ! i))), s') \<and> sched_inv C s'
        \<and> i < C \<and> sl_state (sc_slots s ! i) = Vacant \<and> moves s s' i Admit \<and> free_view C s' = rest"
proof -
  note inv = sched_reachable_inv [OF assms]
  have v: "set (free_view C s) = {i. i < C \<and> sl_state (sc_slots s ! i) = Vacant}"
    using sched_inv_free [OF inv] by (simp add: free_ring_ok_def)
  show ?thesis using sched_admit_correct [OF inv] v by (auto simp: handle_def split: list.splits)
qed

theorem sched_admit_functional_witness:
  "\<exists>s s'. sched_reachable 2 [] s \<and> sched_admit 2 s = Some (Inr (request_id_new 0 1), s') \<and> free_view 2 s' = [1]"
proof -
  obtain s where s: "sched_reachable 2 [] s" "free_view 2 s = [0, 1]" "sc_slots s = [Slot_INITIAL, Slot_INITIAL]"
    by (rule demo_sched_new)
  from sched_admit_functional [OF s(1)] s show ?thesis by (auto simp: Slot_INITIAL_def)
qed

end
