(* ===== verification/Engine.thy ===== *)
theory Engine
  imports Scheduler
begin

text \<open>
  The composed engine of \<^verbatim>\<open>crates/ferric-engine/src/system.rs\<close>: the sole owner of the scheduler and
  the KV pool.  Every public method that changes state is translated with its checks in source
  order.  A failure after an authority has been consumed faults the engine for good.
\<close>

subsection \<open>Data\<close>

datatype engine_error =
    EngFaulted
  | CompletionResultCount usize usize
  | EngRequestNotReady
  | EngScheduler scheduler_error
  | EngKv kv_error
  | EngInvariantViolation

record engine_completion_failure =
  ef_error :: engine_error
  ef_completion :: "exact_completion option"

definition failure_returned :: "engine_error \<Rightarrow> exact_completion \<Rightarrow> engine_completion_failure" where
  "failure_returned e c = \<lparr>ef_error = e, ef_completion = Some c\<rparr>"

definition failure_consumed :: "engine_error \<Rightarrow> engine_completion_failure" where
  "failure_consumed e = \<lparr>ef_error = e, ef_completion = None\<rparr>"

record engine =
  en_scheduler :: scheduler
  en_kv :: kv_pool
  en_permits :: "kv_quiescence_permit option list"
  en_faulted :: bool

subsection \<open>Construction and fail-stop\<close>

fun push_permits :: "nat \<Rightarrow> kv_quiescence_permit option list \<Rightarrow> kv_quiescence_permit option list" where
  "push_permits 0 permits = permits"
| "push_permits (Suc n) permits = push_permits n (permits @ [None])"

definition engine_new :: "usize \<Rightarrow> u32 \<Rightarrow> u32 \<Rightarrow> u32 \<Rightarrow> (engine_error + engine) exec" where
  "engine_new C page_count page_tokens max_context_tokens = do {
     sched \<leftarrow> sched_new C;
     case sched of
       Inl e \<Rightarrow> Some (Inl (EngScheduler e))
     | Inr scheduler \<Rightarrow> do {
         pool \<leftarrow> kv_new page_count page_tokens max_context_tokens;
         case pool of
           Inl e \<Rightarrow> Some (Inl (EngKv e))
         | Inr kv \<Rightarrow> Some (Inr \<lparr>en_scheduler = scheduler, en_kv = kv,
                                en_permits = push_permits C [], en_faulted = False\<rparr>) } }"

definition quarantine :: "engine \<Rightarrow> engine" where
  "quarantine e = e\<lparr>en_faulted := True\<rparr>"

record m1_capture_quarantined_engine =
  cq_engine :: engine

definition into_m1_capture_quarantine :: "engine \<Rightarrow> m1_capture_quarantined_engine" where
  "into_m1_capture_quarantine e = \<lparr>cq_engine = quarantine e\<rparr>"

fun clear_permits_loop ::
  "nat \<Rightarrow> usize \<Rightarrow> kv_quiescence_permit option list \<Rightarrow> kv_quiescence_permit option list exec" where
  "clear_permits_loop 0 index permits = Some permits"
| "clear_permits_loop (Suc n) index permits = do {
     permits' \<leftarrow> upd permits index None;
     index' \<leftarrow> usize_add index 1;
     clear_permits_loop n index' permits' }"

definition clear_permits :: "usize \<Rightarrow> engine \<Rightarrow> engine exec" where
  "clear_permits C e = do {
     permits \<leftarrow> clear_permits_loop C 0 (en_permits e);
     Some (e\<lparr>en_permits := permits\<rparr>) }"

subsection \<open>Admission, tokens and retirement\<close>

definition engine_admit :: "usize \<Rightarrow> engine \<Rightarrow> ((engine_error + request_id) \<times> engine) exec" where
  "engine_admit C e =
     (if en_faulted e then Some (Inl EngFaulted, e)
      else do {
        (admitted, s) \<leftarrow> sched_admit C (en_scheduler e);
        case admitted of
          Inl err \<Rightarrow> Some (Inl (EngScheduler err), e\<lparr>en_scheduler := s\<rparr>)
        | Inr request \<Rightarrow> do {
            (created, kv) \<leftarrow> kv_create_request (en_kv e) request;
            case created of
              Inr _ \<Rightarrow> Some (Inr request, e\<lparr>en_scheduler := s, en_kv := kv\<rparr>)
            | Inl err \<Rightarrow> Some (Inl (EngKv err),
                          e\<lparr>en_scheduler := s, en_kv := kv, en_faulted := True\<rparr>) } })"

definition engine_append_tentative ::
  "usize \<Rightarrow> engine \<Rightarrow> request_id \<Rightarrow> u32 \<Rightarrow> ((engine_error + unit) \<times> engine) exec" where
  "engine_append_tentative C e request token_count =
     (if en_faulted e then Some (Inl EngFaulted, e)
      else do {
        st \<leftarrow> sched_state C (en_scheduler e) request;
        if st \<noteq> Some Ready then Some (Inl EngRequestNotReady, e)
        else do {
          (appended, kv) \<leftarrow> kv_append_tentative (en_kv e) request token_count;
          Some (map_sum EngKv id appended, e\<lparr>en_kv := kv\<rparr>) } })"

definition engine_share_committed_prefix ::
  "usize \<Rightarrow> engine \<Rightarrow> request_id \<Rightarrow> request_id \<Rightarrow> u32 \<Rightarrow> ((engine_error + unit) \<times> engine) exec" where
  "engine_share_committed_prefix C e source target token_count =
     (if en_faulted e then Some (Inl EngFaulted, e)
      else do {
        source_state \<leftarrow> sched_state C (en_scheduler e) source;
        if source_state \<noteq> Some Ready then Some (Inl EngRequestNotReady, e)
        else do {
          target_state \<leftarrow> sched_state C (en_scheduler e) target;
          if target_state \<noteq> Some Ready then Some (Inl EngRequestNotReady, e)
          else do {
            (shared, kv) \<leftarrow> kv_share_committed_prefix (en_kv e) source target token_count;
            Some (map_sum EngKv id shared, e\<lparr>en_kv := kv\<rparr>) } } })"

definition engine_validate_read ::
  "engine \<Rightarrow> request_id \<Rightarrow> u32 \<Rightarrow> u32 \<Rightarrow> (engine_error + unit) exec" where
  "engine_validate_read e request logical_offset span =
     (if en_faulted e then Some (Inl EngFaulted)
      else do {
        v \<leftarrow> kv_validate_read (en_kv e) request logical_offset span;
        Some (map_sum EngKv id v) })"

definition engine_retire :: "usize \<Rightarrow> engine \<Rightarrow> request_id \<Rightarrow> ((engine_error + unit) \<times> engine) exec" where
  "engine_retire C e request =
     (if en_faulted e then Some (Inl EngFaulted, e)
      else do {
        (retired, s) \<leftarrow> sched_retire C (en_scheduler e) request;
        Some (map_sum EngScheduler id retired, e\<lparr>en_scheduler := s\<rparr>) })"

definition reincarnate_next_retiring :: "usize \<Rightarrow> engine \<Rightarrow> ((engine_error + request_id) \<times> engine) exec" where
  "reincarnate_next_retiring C e =
     (if en_faulted e then Some (Inl EngFaulted, e)
      else do {
        pre \<leftarrow> preflight_next_reincarnation (en_scheduler e);
        case pre of
          Inl err \<Rightarrow> Some (Inl (EngScheduler err), e)
        | Inr predecessor \<Rightarrow> do {
            (taken, s1) \<leftarrow> take_retiring_permit C (en_scheduler e);
            case taken of
              Inr (Some permit) \<Rightarrow> do {
                (released, kv1) \<leftarrow> kv_release_request (en_kv e) predecessor permit;
                case released of
                  Inl failure \<Rightarrow> Some (Inl (EngKv (auth_error failure)),
                      e\<lparr>en_scheduler := s1, en_kv := kv1, en_faulted := True\<rparr>)
                | Inr detached \<Rightarrow> do {
                    (successor, s2) \<leftarrow> reincarnate_detached s1 detached;
                    (created, kv2) \<leftarrow> kv_create_request kv1 successor;
                    case created of
                      Inl err \<Rightarrow> Some (Inl (EngKv err),
                          e\<lparr>en_scheduler := s2, en_kv := kv2, en_faulted := True\<rparr>)
                    | Inr _ \<Rightarrow> Some (Inr successor, e\<lparr>en_scheduler := s2, en_kv := kv2\<rparr>) } }
            | _ \<Rightarrow> Some (Inl (EngScheduler SchedInvariantViolation), e\<lparr>en_scheduler := s1\<rparr>) } })"

definition reclaim_one :: "usize \<Rightarrow> engine \<Rightarrow> ((engine_error + request_id option) \<times> engine) exec" where
  "reclaim_one C e =
     (if en_faulted e then Some (Inl EngFaulted, e)
      else do {
        (taken, s1) \<leftarrow> take_retiring_permit C (en_scheduler e);
        case taken of
          Inl err \<Rightarrow> Some (Inl (EngScheduler err), e\<lparr>en_scheduler := s1\<rparr>)
        | Inr None \<Rightarrow> Some (Inr None, e\<lparr>en_scheduler := s1\<rparr>)
        | Inr (Some permit) \<Rightarrow> do {
            (released, kv1) \<leftarrow> kv_release_request (en_kv e) (permit_request permit) permit;
            case released of
              Inl failure \<Rightarrow> Some (Inl (EngKv (auth_error failure)),
                  e\<lparr>en_scheduler := s1, en_kv := kv1, en_faulted := True\<rparr>)
            | Inr detached \<Rightarrow> do {
                (reclaimed, s2) \<leftarrow> reclaim_detached C s1 detached;
                case reclaimed of
                  Inr request \<Rightarrow> Some (Inr (Some request), e\<lparr>en_scheduler := s2, en_kv := kv1\<rparr>)
                | Inl err \<Rightarrow> Some (Inl (EngScheduler err),
                    e\<lparr>en_scheduler := s2, en_kv := kv1, en_faulted := True\<rparr>) } } })"

subsection \<open>Dispatch\<close>

definition engine_dispatch_ready ::
  "usize \<Rightarrow> engine \<Rightarrow> request_id list \<Rightarrow>
   ((engine_error + dispatch_batch option) \<times> request_id list \<times> engine) exec" where
  "engine_dispatch_ready C e output =
     (if en_faulted e then Some (Inl EngFaulted, output, e)
      else do {
        (dispatched, output', s) \<leftarrow> sched_dispatch_ready C (en_scheduler e) output;
        Some (map_sum EngScheduler id dispatched, output', e\<lparr>en_scheduler := s\<rparr>) })"

definition dispatch_m1_ready ::
  "usize \<Rightarrow> engine \<Rightarrow> ((engine_error + m1_scheduled_dispatch option) \<times> engine) exec" where
  "dispatch_m1_ready C e = do {
     (dispatched, selected, e') \<leftarrow>
        engine_dispatch_ready C e (replicate M1_MAX_ACTIVE_SEQUENCES (request_id_new 0 0));
     case dispatched of
       Inl err \<Rightarrow> Some (Inl err, e')
     | Inr None \<Rightarrow> Some (Inr None, e')
     | Inr (Some batch) \<Rightarrow> do {
         d \<leftarrow> from_dispatch_batch batch selected;
         Some (Inr (Some d), e') } }"

definition engine_dispatch_m1_exact_ready ::
  "usize \<Rightarrow> engine \<Rightarrow> completion_epoch \<Rightarrow> request_id list \<Rightarrow>
   ((m1_exact_dispatch_error + m1_scheduled_dispatch) \<times> engine) exec" where
  "engine_dispatch_m1_exact_ready C e expected_epoch requests =
     (if en_faulted e then Some (Inl Faulted, e)
      else do {
        (r, s) \<leftarrow> sched_dispatch_m1_exact_ready C (en_scheduler e) expected_epoch requests;
        Some (r, e\<lparr>en_scheduler := s\<rparr>) })"

subsection \<open>Exact completion\<close>

fun preflight_members ::
  "nat \<Rightarrow> usize \<Rightarrow> engine \<Rightarrow> exact_completion \<Rightarrow> u32 list \<Rightarrow> usize \<Rightarrow> (engine_error + unit) exec" where
  "preflight_members 0 C e completion accepted_tokens index = Some (Inr ())"
| "preflight_members (Suc n) C e completion accepted_tokens index = do {
     member \<leftarrow> pending_member C (en_scheduler e) index;
     case member of
       None \<Rightarrow> Some (Inl EngInvariantViolation)
     | Some request \<Rightarrow> do {
         st \<leftarrow> sched_state C (en_scheduler e) request;
         checked \<leftarrow> (case st of
            Some InFlight \<Rightarrow>
              (case kv_resident_tokens (en_kv e) request of
                 None \<Rightarrow> Some (Inl EngInvariantViolation)
               | Some resident \<Rightarrow>
                   (case kv_committed_tokens (en_kv e) request of
                      None \<Rightarrow> Some (Inl EngInvariantViolation)
                    | Some committed \<Rightarrow>
                        (case u_sub resident committed of
                           None \<Rightarrow> Some (Inl EngInvariantViolation)
                         | Some tentative \<Rightarrow> do {
                             accepted \<leftarrow> idx accepted_tokens index;
                             if tentative < accepted then Some (Inl (EngKv CommitExceedsResident))
                             else Some (Inr ()) })))
          | Some Retiring \<Rightarrow> do {
              ready \<leftarrow> pending_retirement_ready C (en_scheduler e) index request (ec_epoch completion);
              if \<not> ready then
                Some (Inl (if generation request = U32_MAX then EngScheduler SchedGenerationExhausted
                           else EngInvariantViolation))
              else Some (Inr ()) }
          | _ \<Rightarrow> Some (Inl EngInvariantViolation));
         case checked of
           Inl err \<Rightarrow> Some (Inl err)
         | Inr _ \<Rightarrow> do {
             index' \<leftarrow> usize_add index 1;
             preflight_members n C e completion accepted_tokens index' } } }"

definition preflight_complete_exact ::
  "usize \<Rightarrow> engine \<Rightarrow> exact_completion \<Rightarrow> u32 list \<Rightarrow> (engine_error + unit) exec" where
  "preflight_complete_exact C e completion accepted_tokens =
     (if en_faulted e then Some (Inl EngFaulted)
      else do {
        member_count \<leftarrow> pending_batch_member_count (en_scheduler e);
        if length accepted_tokens \<noteq> member_count
        then Some (Inl (CompletionResultCount member_count (length accepted_tokens)))
        else if member_count = 0 then Some (Inl (EngScheduler NoPendingBatch))
        else (case check_exact_next (completed_epoch (en_scheduler e)) (ec_epoch completion) of
            Inl _ \<Rightarrow> Some (Inl (EngScheduler CompletionNotExactNext))
          | Inr _ \<Rightarrow> preflight_members member_count C e completion accepted_tokens 0) })"

definition reject_reordered_completion ::
  "usize \<Rightarrow> engine \<Rightarrow> exact_completion \<Rightarrow> u32 list \<Rightarrow> engine_completion_failure exec" where
  "reject_reordered_completion C e completion accepted_tokens = do {
     result \<leftarrow> preflight_complete_exact C e completion accepted_tokens;
     Some (case result of
         Inl err \<Rightarrow> failure_returned err completion
       | Inr _ \<Rightarrow> failure_returned (EngScheduler CompletionNotExactNext) completion) }"

text \<open>The second pass over the members of \<open>complete_exact\<close>; a failure says whether the engine
  faults and what is returned.\<close>

fun recheck_members ::
  "nat \<Rightarrow> usize \<Rightarrow> engine \<Rightarrow> exact_completion \<Rightarrow> u32 list \<Rightarrow> usize \<Rightarrow>
   ((bool \<times> engine_completion_failure) + unit) exec" where
  "recheck_members 0 C e completion accepted_tokens index = Some (Inr ())"
| "recheck_members (Suc n) C e completion accepted_tokens index = do {
     member \<leftarrow> pending_member C (en_scheduler e) index;
     case member of
       None \<Rightarrow> Some (Inl (True, failure_consumed EngInvariantViolation))
     | Some request \<Rightarrow> do {
         st \<leftarrow> sched_state C (en_scheduler e) request;
         checked \<leftarrow> (if st = Some InFlight then
              (case kv_resident_tokens (en_kv e) request of
                 None \<Rightarrow> Some (Inl (True, failure_consumed EngInvariantViolation))
               | Some resident \<Rightarrow>
                   (case kv_committed_tokens (en_kv e) request of
                      None \<Rightarrow> Some (Inl (True, failure_consumed EngInvariantViolation))
                    | Some committed \<Rightarrow>
                        (case u_sub resident committed of
                           None \<Rightarrow> Some (Inl (True, failure_consumed EngInvariantViolation))
                         | Some tentative \<Rightarrow> do {
                             accepted \<leftarrow> idx accepted_tokens index;
                             if tentative < accepted
                             then Some (Inl (False, failure_returned (EngKv CommitExceedsResident) completion))
                             else Some (Inr ()) })))
            else Some (Inr ()));
         case checked of
           Inl err \<Rightarrow> Some (Inl err)
         | Inr _ \<Rightarrow> do {
             index' \<leftarrow> usize_add index 1;
             recheck_members n C e completion accepted_tokens index' } } }"

definition fail_stop :: "usize \<Rightarrow> engine \<Rightarrow> engine_error \<Rightarrow> ((engine_completion_failure + unit) \<times> engine) exec" where
  "fail_stop C e err = do {
     e' \<leftarrow> clear_permits C (e\<lparr>en_faulted := True\<rparr>);
     Some (Inl (failure_consumed err), e') }"

text \<open>One round of the settling loop: take the permit, then finalize or detach the member.\<close>

definition settle_member ::
  "usize \<Rightarrow> engine \<Rightarrow> u32 list \<Rightarrow> usize \<Rightarrow> ((engine_completion_failure + unit) \<times> engine) exec" where
  "settle_member C e accepted_tokens index = do {
     entry \<leftarrow> idx (en_permits e) index;
     permits \<leftarrow> upd (en_permits e) index None;
     let e1 = e\<lparr>en_permits := permits\<rparr>;
     case entry of
       None \<Rightarrow> fail_stop C e1 EngInvariantViolation
     | Some permit \<Rightarrow> do {
         let request = permit_request permit;
         st \<leftarrow> sched_state C (en_scheduler e1) request;
         case st of
           Some InFlight \<Rightarrow> do {
             accepted \<leftarrow> idx accepted_tokens index;
             (finalized, kv) \<leftarrow> kv_finalize_tentative (en_kv e1) request accepted permit;
             case finalized of
               Inl failure \<Rightarrow> fail_stop C (e1\<lparr>en_kv := kv\<rparr>) (EngKv (auth_error failure))
             | Inr f \<Rightarrow> do {
                 (accept_result, s) \<leftarrow> accept_finalized C (en_scheduler e1) f;
                 case accept_result of
                   Inl err \<Rightarrow> fail_stop C (e1\<lparr>en_kv := kv, en_scheduler := s\<rparr>) (EngScheduler err)
                 | Inr _ \<Rightarrow> Some (Inr (), e1\<lparr>en_kv := kv, en_scheduler := s\<rparr>) } }
         | Some Retiring \<Rightarrow> do {
             (released, kv) \<leftarrow> kv_release_request (en_kv e1) request permit;
             case released of
               Inl failure \<Rightarrow> fail_stop C (e1\<lparr>en_kv := kv\<rparr>) (EngKv (auth_error failure))
             | Inr d \<Rightarrow> do {
                 (reclaim_result, s) \<leftarrow> reclaim_detached C (en_scheduler e1) d;
                 case reclaim_result of
                   Inr _ \<Rightarrow> Some (Inr (), e1\<lparr>en_kv := kv, en_scheduler := s\<rparr>)
                 | Inl err \<Rightarrow> Some (Inl (failure_consumed (EngScheduler err)),
                                 e1\<lparr>en_kv := kv, en_scheduler := s, en_faulted := True\<rparr>) } }
         | _ \<Rightarrow> fail_stop C e1 EngInvariantViolation } }"

fun settle_members ::
  "nat \<Rightarrow> usize \<Rightarrow> engine \<Rightarrow> u32 list \<Rightarrow> usize \<Rightarrow> ((engine_completion_failure + unit) \<times> engine) exec" where
  "settle_members 0 C e accepted_tokens index = Some (Inr (), e)"
| "settle_members (Suc n) C e accepted_tokens index = do {
     (settled, e') \<leftarrow> settle_member C e accepted_tokens index;
     case settled of
       Inl failure \<Rightarrow> Some (Inl failure, e')
     | Inr _ \<Rightarrow> do {
         index' \<leftarrow> usize_add index 1;
         settle_members n C e' accepted_tokens index' } }"

definition engine_complete_exact ::
  "usize \<Rightarrow> engine \<Rightarrow> exact_completion \<Rightarrow> u32 list \<Rightarrow>
   ((engine_completion_failure + usize) \<times> engine) exec" where
  "engine_complete_exact C e completion accepted_tokens = do {
     pre \<leftarrow> preflight_complete_exact C e completion accepted_tokens;
     case pre of
       Inl err \<Rightarrow> Some (Inl (failure_returned err completion), e)
     | Inr _ \<Rightarrow>
         if en_faulted e then Some (Inl (failure_returned EngFaulted completion), e)
         else do {
           member_count \<leftarrow> pending_batch_member_count (en_scheduler e);
           if length accepted_tokens \<noteq> member_count
           then Some (Inl (failure_returned (CompletionResultCount member_count (length accepted_tokens))
                            completion), e)
           else do {
             rechecked \<leftarrow> recheck_members member_count C e completion accepted_tokens 0;
             case rechecked of
               Inl (fault, failure) \<Rightarrow> Some (Inl failure, if fault then e\<lparr>en_faulted := True\<rparr> else e)
             | Inr _ \<Rightarrow> do {
                 (completed, permits, s) \<leftarrow>
                    sched_complete_exact C (en_scheduler e) completion (en_permits e);
                 case completed of
                   Inl failure \<Rightarrow> Some (Inl (failure_returned (EngScheduler (cf_error failure))
                                        (cf_completion failure)),
                                     e\<lparr>en_scheduler := s, en_permits := permits\<rparr>)
                 | Inr count \<Rightarrow> do {
                     (settled, e') \<leftarrow> settle_members count C
                        (e\<lparr>en_scheduler := s, en_permits := permits\<rparr>) accepted_tokens 0;
                     Some (map_sum id (\<lambda>_. count) settled, e') } } } } }"

end
