(* ===== verification/Engine_Invariant.thy ===== *)
theory Engine_Invariant
  imports Engine KvPool_Machine Scheduler_Machine
begin

text \<open>
  The engine invariant couples the two owners: slot by slot the scheduler and the KV pool agree
  on the generation and on whether the request is live, slots beyond the scheduler's capacity
  are never live, and between calls no permit is
  outstanding.  The operations that need no completion are treated here.
\<close>

subsection \<open>Coupling\<close>

definition slot_coupled :: "sched_slot \<Rightarrow> request_slot \<Rightarrow> bool" where
  "slot_coupled sl r = (sl_generation sl = rq_generation r \<and> rq_live r = (sl_state sl \<noteq> Vacant))"

definition coupled :: "nat \<Rightarrow> scheduler \<Rightarrow> kv_pool \<Rightarrow> bool" where
  "coupled C s p = ((\<forall>i < C. slot_coupled (sc_slots s ! i) (kv_requests p ! i))
     \<and> (\<forall>i < MAX_REQUEST_SLOTS. C \<le> i \<longrightarrow> \<not> rq_live (kv_requests p ! i)))"

text \<open>No completed epoch is left attached to a slot, and a quiescent retiring request waits in the
  reclaim ring.\<close>

definition settled :: "scheduler \<Rightarrow> nat \<Rightarrow> bool" where
  "settled s i =
     (let sl = sc_slots s ! i in
      (sl_active_epoch sl \<le> sc_completed s \<longrightarrow> sl_active_epoch sl = 0)
      \<and> (sl_state sl = Retiring \<longrightarrow> sl_active_epoch sl = 0 \<longrightarrow> sl_in_reclaim_ring sl))"

definition engine_inv :: "nat \<Rightarrow> engine \<Rightarrow> bool" where
  "engine_inv C e = (sched_inv C (en_scheduler e) \<and> kv_inv (en_kv e) \<and> length (en_permits e) = C
     \<and> (\<not> en_faulted e \<longrightarrow> coupled C (en_scheduler e) (en_kv e)
          \<and> (\<forall>i < C. settled (en_scheduler e) i) \<and> en_permits e = replicate C None))"

lemma engine_invD:
  assumes "engine_inv C e"
  shows "sched_inv C (en_scheduler e)" "kv_inv (en_kv e)" "length (en_permits e) = C"
    "\<not> en_faulted e \<Longrightarrow> coupled C (en_scheduler e) (en_kv e)"
    "\<not> en_faulted e \<Longrightarrow> i < C \<Longrightarrow> settled (en_scheduler e) i"
    "\<not> en_faulted e \<Longrightarrow> en_permits e = replicate C None"
  using assms by (auto simp: engine_inv_def)

lemma push_permits_eq: "push_permits n ps = ps @ replicate n None"
  by (induction n arbitrary: ps) (auto simp: replicate_append_same)

lemma engine_new_correct:
  assumes "n \<le> U32_MAX" "pt \<le> U32_MAX" "ctx \<le> U32_MAX"
  shows "if C = 0 then engine_new C n pt ctx = Some (Inl (EngScheduler SchedZeroCapacity))
    else if MAX_REQUEST_SLOTS < C then engine_new C n pt ctx = Some (Inl (EngScheduler CapacityExceedsKvSlots))
    else case new_decision n pt ctx of
        Some err \<Rightarrow> engine_new C n pt ctx = Some (Inl (EngKv err))
      | None \<Rightarrow> \<exists>e. engine_new C n pt ctx = Some (Inr e) \<and> engine_inv C e \<and> \<not> en_faulted e
          \<and> kv_free_pages (en_kv e) = n"
proof (cases "C = 0 \<or> MAX_REQUEST_SLOTS < C")
  case True
  then show ?thesis using sched_new_correct [of C] by (auto simp: engine_new_def MAX_REQUEST_SLOTS_def)
next
  case False
  then obtain s where s: "sched_new C = Some (Inr s)" "sched_inv C s" "sc_slots s = replicate C Slot_INITIAL"
    using sched_new_correct [of C] by auto
  show ?thesis
  proof (cases "new_decision n pt ctx")
    case (Some err)
    then show ?thesis using False s(1) new_bounded_correct [OF assms] by (simp add: engine_new_def kv_new_def)
  next
    case None
    then obtain p where p: "new_bounded n pt ctx = Some (Inr p)" "kv_inv p" "kv_free_len p = n"
      "kv_requests p = replicate MAX_REQUEST_SLOTS request_slot_empty"
      using new_bounded_correct [OF assms] by auto
    have "coupled C s p" "\<forall>i < C. settled s i"
      using s(3) p(4) False
      by (auto simp: coupled_def slot_coupled_def settled_def Slot_INITIAL_def request_slot_empty_def NO_EPOCH_def)
    then show ?thesis using None False s p
      by (auto simp: engine_new_def kv_new_def engine_inv_def push_permits_eq kv_free_pages_def)
  qed
qed

subsection \<open>Steps of the two owners\<close>

lemma slot_le: "sched_inv C s \<Longrightarrow> i < C \<Longrightarrow> i < MAX_REQUEST_SLOTS"
  using sched_shapeD(2) by (fastforce simp: MAX_REQUEST_SLOTS_def)

lemma coupled_update:
  assumes "coupled C s p" "\<And>j. j < C \<Longrightarrow> j \<noteq> i \<Longrightarrow> sc_slots s' ! j = sc_slots s ! j"
    "\<And>j. j \<noteq> i \<Longrightarrow> kv_requests p' ! j = kv_requests p ! j"
    "i < C \<Longrightarrow> slot_coupled (sc_slots s' ! i) (kv_requests p' ! i)"
    "C \<le> i \<Longrightarrow> i < MAX_REQUEST_SLOTS \<Longrightarrow> \<not> rq_live (kv_requests p' ! i)"
  shows "coupled C s' p'"
  using assms unfolding coupled_def by metis

lemma moves_others:
  assumes "moves s s' i t" "j \<noteq> i"
  shows "sc_slots s' ! j = sc_slots s ! j" "settled s' j = settled s j"
proof -
  show "sc_slots s' ! j = sc_slots s ! j" using assms unfolding moves_def by (metis nth_list_update_neq)
  then show "settled s' j = settled s j" using assms by (simp add: settled_def moves_def)
qed

lemma only_slot_others: "only_slot p p' i \<Longrightarrow> j \<noteq> i \<Longrightarrow> kv_requests p' ! j = kv_requests p ! j"
  unfolding only_slot_def by (metis nth_list_update_neq)

lemma coupled_key:
  assumes "coupled C s p" "kv_inv p" "sched_inv C s" "i < C"
  shows "sl_state (sc_slots s ! i) \<noteq> Vacant \<longleftrightarrow> key_decision p (request_key_of (handle s i)) = None"
    "sl_generation (sc_slots s ! i) = rq_generation (kv_requests p ! i)"
    "rq_live (kv_requests p ! i) = (sl_state (sc_slots s ! i) \<noteq> Vacant)"
  using assms slot_le [OF assms(3,4)]
  by (auto simp: coupled_def slot_coupled_def key_decision_def handle_def Let_def)

text \<open>The errors that report an exhausted generation counter.\<close>

definition exhaustion :: "kv_error \<Rightarrow> bool" where
  "exhaustion err = (case err of GenerationExhausted _ \<Rightarrow> True | RequestGenerationExhausted _ \<Rightarrow> True | _ \<Rightarrow> False)"

lemma release_current:
  assumes inv: "kv_inv p" and key: "key_decision p (request_key_of q) = None" and q: "permit_request permit = q"
  obtains err where "kv_release_request p q permit = Some (Inl \<lparr>auth_error = err, auth_permit = permit\<rparr>, p)" "exhaustion err"
  | p' where "kv_release_request p q permit = Some (Inr \<lparr>det_request = q, det_origin = permit_origin permit\<rparr>, p')"
      "kv_inv p'" "released p p' (slot q)" "rq_generation (kv_requests p ! slot q) \<noteq> U32_MAX"
proof (cases "release_decision p (request_key_of q)")
  case (Some err)
  then have "exhaustion err"
    using key by (auto simp: release_decision_def exhaustion_def Let_def split: if_splits)
  then show ?thesis using that(1) Some q release_request_key_correct [OF inv, of "request_key_of q"]
    by (simp add: kv_release_request_def)
next
  case None
  then have "rq_generation (kv_requests p ! slot q) \<noteq> U32_MAX"
    using key by (auto simp: release_decision_def Let_def split: if_splits)
  moreover obtain p' where "release_request_key p (request_key_of q) = Some (Inr (), p')" "kv_inv p'" "released p p' (slot q)"
    using None release_request_key_correct [OF inv, of "request_key_of q"] by auto
  ultimately show ?thesis using that(2) q by (simp add: kv_release_request_def)
qed

lemma finalize_current:
  assumes inv: "kv_inv p" and key: "key_decision p (request_key_of q) = None"
    and q: "permit_request permit = q" "permit_origin permit = CompletedExact e"
    and n: "rq_committed_tokens (kv_requests p ! slot q) + n \<le> rq_resident_tokens (kv_requests p ! slot q)"
  obtains err where "kv_finalize_tentative p q n permit = Some (Inl \<lparr>auth_error = err, auth_permit = permit\<rparr>, p)"
      "exhaustion err"
  | p' where "kv_finalize_tentative p q n permit = Some (Inr \<lparr>fin_request = q, fin_origin = CompletedExact e\<rparr>, p')"
      "kv_inv p'" "finalized p p' (slot q) n"
proof (cases "finalize_decision p (request_key_of q) n")
  case (Some err)
  then have "exhaustion err"
    using key n by (auto simp: finalize_decision_def exhaustion_def Let_def split: if_splits)
  then show ?thesis using that(1) Some q finalize_tentative_key_correct [OF inv, of "request_key_of q" n]
    by (simp add: kv_finalize_tentative_def)
next
  case None
  then obtain p' where "finalize_tentative_key p (request_key_of q) n = Some (Inr (), p')" "kv_inv p'" "finalized p p' (slot q) n"
    using finalize_tentative_key_correct [OF inv, of "request_key_of q" n] by auto
  then show ?thesis using that(2) q by (simp add: kv_finalize_tentative_def)
qed

subsection \<open>Outcomes\<close>

text \<open>A call keeps the invariant; an error that does not fault the engine leaves it unchanged; and
  the engine only ever faults because a generation counter is exhausted.\<close>

definition engine_ok :: "nat \<Rightarrow> engine \<Rightarrow> ('x \<Rightarrow> bool) \<Rightarrow> (('x + 'y) \<times> engine) exec \<Rightarrow> bool" where
  "engine_ok C e exhausted out = (\<exists>r e'. out = Some (r, e') \<and> engine_inv C e'
     \<and> (isl r \<longrightarrow> \<not> en_faulted e' \<longrightarrow> e' = e)
     \<and> (en_faulted e' \<longrightarrow> \<not> en_faulted e \<longrightarrow> (\<exists>x. r = Inl x \<and> exhausted x)))"

definition eng_exhaustion :: "engine_error \<Rightarrow> bool" where
  "eng_exhaustion err = (case err of EngKv k \<Rightarrow> exhaustion k | _ \<Rightarrow> False)"

lemma engine_ok_error: "engine_inv C e \<Longrightarrow> engine_ok C e ex (Some (Inl x, e))"
  by (simp add: engine_ok_def)

lemma engine_ok_same: "engine_inv C e \<Longrightarrow> engine_ok C e ex (Some (r, e))"
  by (simp add: engine_ok_def)

lemma engine_ok_step:
  assumes "engine_inv C e" "\<not> en_faulted e" "sched_inv C s" "kv_inv p" "coupled C s p" "\<And>i. i < C \<Longrightarrow> settled s i"
  shows "engine_ok C e ex (Some (Inr y, e\<lparr>en_scheduler := s, en_kv := p\<rparr>))"
    "engine_ok C e ex (Some (Inr y, e\<lparr>en_kv := p, en_scheduler := s\<rparr>))"
  using assms engine_invD(3,6) [OF assms(1)] by (auto simp: engine_ok_def engine_inv_def)

lemma engine_admit_ok:
  assumes inv: "engine_inv C e"
  shows "engine_ok C e eng_exhaustion (engine_admit C e)"
proof (cases "en_faulted e")
  case True
  then show ?thesis using engine_ok_error [OF inv] by (simp add: engine_admit_def)
next
  case False
  let ?s = "en_scheduler e" and ?p = "en_kv e"
  note I = engine_invD [OF inv] and cp = engine_invD(4) [OF inv False]
  show ?thesis
  proof (cases "free_view C ?s")
    case Nil
    then show ?thesis using False sched_admit_correct [OF I(1)] engine_ok_error [OF inv]
      by (simp add: engine_admit_def)
  next
    case (Cons i rest)
    then obtain s' where s': "sched_admit C ?s = Some (Inr (handle ?s i), s')" "sched_inv C s'" "i < C"
      "moves ?s s' i Admit" "handle s' i = handle ?s i"
      using sched_admit_correct [OF I(1)] by auto
    have st: "sl_state (sc_slots ?s ! i) = Vacant" using sched_inv_free [OF I(1)] Cons
      by (auto simp: free_ring_ok_def)
    have i: "i < MAX_REQUEST_SLOTS" by (rule slot_le [OF I(1) s'(3)])
    note k = coupled_key [OF cp I(2,1) s'(3)]
    let ?p' = "?p\<lparr>kv_requests := (kv_requests ?p)[i := (kv_requests ?p ! i)\<lparr>rq_live := True\<rparr>]\<rparr>"
    have "create_decision ?p (request_key_of (handle ?s i)) = None"
      using k i st by (simp add: create_decision_def handle_def)
    then have cr: "kv_create_request ?p (handle ?s i) = Some (Inr (), ?p')" "kv_inv ?p'"
      using create_request_key_correct [OF I(2), of "request_key_of (handle ?s i)"]
      by (auto simp: kv_create_request_def handle_def Let_def)
    have st': "sl_state (sc_slots s' ! i) = Ready" "sl_generation (sc_slots s' ! i) = sl_generation (sc_slots ?s ! i)"
      using s'(4,5) st
      by (auto simp: moves_def apply_request_transition_def seq_of_def handle_def request_id_new_def Let_def)
    have "coupled C s' ?p'"
      by (rule coupled_update [OF cp, where i = i])
         (use s'(3) moves_others [OF s'(4)] st' k i kv_shape(10) [OF I(2)] in \<open>auto simp: slot_coupled_def\<close>)
    moreover have "settled s' j" if "j < C" for j
      using that moves_others(2) [OF s'(4), of j] I(5) [OF False, of j] sched_inv_slot [OF s'(2), of i] st'(1)
      by (cases "j = i") (auto simp: settled_def slot_ok_def Let_def)
    ultimately show ?thesis using False s'(1) cr engine_ok_step(1) [OF inv False s'(2) cr(2)]
      by (simp add: engine_admit_def)
  qed
qed

lemma engine_kv_ok:
  assumes inv: "engine_inv C e" and nf: "\<not> en_faulted e" and p': "kv_inv p'" "only_slot (en_kv e) p' i"
    "rq_live (kv_requests p' ! i) = rq_live (kv_requests (en_kv e) ! i)"
    "rq_generation (kv_requests p' ! i) = rq_generation (kv_requests (en_kv e) ! i)"
  shows "engine_ok C e ex (Some (Inr y, e\<lparr>en_kv := p'\<rparr>))"
proof -
  note cp = engine_invD(4) [OF inv nf]
  have "coupled C (en_scheduler e) p'"
    by (rule coupled_update [OF cp, where i = i])
       (use only_slot_others [OF p'(2)] p'(3,4) cp in \<open>auto simp: slot_coupled_def coupled_def\<close>)
  then show ?thesis using inv nf p'(1) by (simp add: engine_ok_def engine_inv_def)
qed

lemma engine_append_ok:
  assumes inv: "engine_inv C e"
  shows "engine_ok C e eng_exhaustion (engine_append_tentative C e q n)"
proof (cases "en_faulted e")
  case True
  then show ?thesis using engine_ok_error [OF inv] by (simp add: engine_append_tentative_def)
next
  case False
  note I = engine_invD [OF inv]
  have "engine_ok C e eng_exhaustion (Some (Inr (), e\<lparr>en_kv := p'\<rparr>))"
    if "kv_inv p'" "appended (en_kv e) p' (slot q) n" for p'
    using that by (intro engine_kv_ok [OF inv False, of _ "slot q"]) (auto simp: appended_def Let_def)
  then show ?thesis using False sched_state_eq [OF I(1), of q] engine_ok_error [OF inv]
      append_tentative_key_correct [OF I(2), of "request_key_of q" n]
    by (auto simp: engine_append_tentative_def kv_append_tentative_def split: option.splits)
qed

lemma engine_share_ok:
  assumes inv: "engine_inv C e" and n: "n \<le> U32_MAX"
  shows "engine_ok C e eng_exhaustion (engine_share_committed_prefix C e a b n)"
proof (cases "en_faulted e")
  case True
  then show ?thesis using engine_ok_error [OF inv] by (simp add: engine_share_committed_prefix_def)
next
  case False
  note I = engine_invD [OF inv]
  have "engine_ok C e eng_exhaustion (Some (Inr (), e\<lparr>en_kv := p'\<rparr>))"
    if "kv_inv p'" "prefix_shared (en_kv e) p' (slot a) (slot b) k" for p' k
    using that by (intro engine_kv_ok [OF inv False, of _ "slot b"]) (auto simp: prefix_shared_def Let_def)
  then show ?thesis using False sched_state_eq [OF I(1)] engine_ok_error [OF inv]
      share_committed_prefix_key_correct [OF I(2) n, of "request_key_of a" "request_key_of b"]
    by (auto simp: engine_share_committed_prefix_def kv_share_committed_prefix_def split: option.splits)
qed

subsection \<open>Scheduler-only calls\<close>

lemma engine_sched_ok:
  assumes inv: "engine_inv C e" and nf: "\<not> en_faulted e" and s': "sched_inv C s'"
    and sl: "\<And>i. i < C \<Longrightarrow> sl_generation (sc_slots s' ! i) = sl_generation (sc_slots (en_scheduler e) ! i)
       \<and> (sl_state (sc_slots s' ! i) = Vacant \<longleftrightarrow> sl_state (sc_slots (en_scheduler e) ! i) = Vacant) \<and> settled s' i"
  shows "engine_ok C e ex (Some (Inr y, e\<lparr>en_scheduler := s'\<rparr>))"
proof -
  have "coupled C s' (en_kv e)" using engine_invD(4) [OF inv nf] sl by (auto simp: coupled_def slot_coupled_def)
  then show ?thesis using inv nf s' sl by (simp add: engine_ok_def engine_inv_def)
qed

lemma engine_retire_ok:
  assumes inv: "engine_inv C e"
  shows "engine_ok C e eng_exhaustion (engine_retire C e q)"
proof (cases "en_faulted e")
  case True
  then show ?thesis using engine_ok_error [OF inv] by (simp add: engine_retire_def)
next
  case False
  let ?s = "en_scheduler e" and ?i = "slot q"
  note I = engine_invD [OF inv]
  show ?thesis
  proof (cases "retire_decision C ?s q")
    case (Some err)
    then show ?thesis using False sched_retire_correct [OF I(1), of q] engine_ok_error [OF inv]
      by (simp add: engine_retire_def)
  next
    case None
    then obtain s' where s': "sched_retire C ?s q = Some (Inr (), s')" "sched_inv C s'" "moves ?s s' ?i Retire"
      "handle s' ?i = q" "reclaim_view C s' = (if sl_state (sc_slots ?s ! ?i) = Ready then reclaim_view C ?s @ [?i]
             else reclaim_view C ?s)"
      using sched_retire_correct [OF I(1), of q] by auto
    have q: "?i < C" "sl_generation (sc_slots ?s ! ?i) = generation q"
      "sl_state (sc_slots ?s ! ?i) = Ready \<or> sl_state (sc_slots ?s ! ?i) = InFlight"
      using None by (auto simp: retire_decision_def split: if_splits request_state.splits)
    have g: "sl_generation (sc_slots s' ! ?i) = generation q" using s'(4) by (metis handle_def slot_of_handle(2))
    note ok = sched_inv_slot [OF I(1) q(1)] and ok' = sched_inv_slot [OF s'(2) q(1)]
    have set_i: "settled s' ?i \<and> sl_state (sc_slots s' ! ?i) = Retiring"
    proof (cases "sl_state (sc_slots ?s ! ?i) = Ready")
      case True
      then have "sl_in_reclaim_ring (sc_slots s' ! ?i)"
        using s'(5) sched_inv_reclaim [OF s'(2)] by (auto simp: reclaim_ring_ok_def)
      then show ?thesis using ok' by (auto simp: slot_ok_def settled_def Let_def split: request_state.splits)
    next
      case False
      then have "sl_state (sc_slots ?s ! ?i) = InFlight" "sc_completed ?s < sl_active_epoch (sc_slots ?s ! ?i)"
        using q ok I(5) [OF \<open>\<not> en_faulted e\<close> q(1)] by (auto simp: slot_ok_def settled_def Let_def not_less [symmetric])
      then show ?thesis using s'(3) ok'
        by (auto simp: moves_def apply_request_transition_def seq_of_def settled_def Let_def split: if_splits)
    qed
    have "sl_generation (sc_slots s' ! j) = sl_generation (sc_slots ?s ! j)
       \<and> (sl_state (sc_slots s' ! j) = Vacant \<longleftrightarrow> sl_state (sc_slots ?s ! j) = Vacant) \<and> settled s' j" if "j < C" for j
      using that moves_others [OF s'(3), of j] I(5) [OF False, of j] set_i g q by (cases "j = ?i") auto
    then show ?thesis using False s'(1) engine_sched_ok [OF inv False s'(2)] by (simp add: engine_retire_def)
  qed
qed

lemma batch_dispatched_ok:
  assumes inv: "engine_inv C e" and nf: "\<not> en_faulted e" and s': "sched_inv C s'"
    and d: "batch_dispatched C (en_scheduler e) s' R"
  shows "engine_ok C e ex (Some (Inr y, e\<lparr>en_scheduler := s'\<rparr>))"
proof (rule engine_sched_ok [OF inv nf s'])
  let ?s = "en_scheduler e"
  fix i assume i: "i < C"
  show "sl_generation (sc_slots s' ! i) = sl_generation (sc_slots ?s ! i)
     \<and> (sl_state (sc_slots s' ! i) = Vacant \<longleftrightarrow> sl_state (sc_slots ?s ! i) = Vacant) \<and> settled s' i"
  proof (cases "i \<in> set R")
    case True
    then have t: "apply_request_transition (seq_of ?s i) Dispatch = Inr (seq_of s' i)" "handle s' i = handle ?s i"
      using d by (auto simp: batch_dispatched_def)
    then have "sl_state (sc_slots ?s ! i) = Ready" "sl_state (sc_slots s' ! i) = InFlight"
      "sc_completed s' < sl_active_epoch (sc_slots s' ! i)"
      by (auto simp: apply_request_transition_def seq_of_def Let_def split: request_state.splits if_splits)
    moreover have "sl_generation (sc_slots s' ! i) = sl_generation (sc_slots ?s ! i)"
      using t(2) by (metis handle_def slot_of_handle(2))
    ultimately show ?thesis by (auto simp: settled_def)
  next
    case False
    then show ?thesis using d i engine_invD(5) [OF inv nf i] by (simp add: batch_dispatched_def settled_def)
  qed
qed

text \<open>The dispatch calls return their slice next to the engine.\<close>

lemma engine_dispatch_ready_ok:
  assumes inv: "engine_inv C e"
  shows "\<exists>r out' e'. engine_dispatch_ready C e out = Some (r, out', e') \<and> length out' = length out
     \<and> engine_ok C e eng_exhaustion (Some (r, e')) \<and> (\<forall>b. r = Inr (Some b) \<longrightarrow> db_member_count b \<le> length out)"
proof (cases "en_faulted e")
  case True
  then show ?thesis using engine_ok_error [OF inv] by (simp add: engine_dispatch_ready_def)
next
  case False
  let ?s = "en_scheduler e" and ?R = "dispatch_choice C (en_scheduler e) (length out)"
  note I = engine_invD [OF inv]
  note d = sched_dispatch_ready_correct [OF I(1), of out]
  have len: "length ?R \<le> length out" by (rule dispatch_choice_facts [OF I(1)])
  consider (none) r where "sched_dispatch_ready C ?s out = Some (r, out, ?s)" "\<forall>b. r \<noteq> Inr (Some b)"
    | (some) s' where "sched_dispatch_ready C ?s out =
          Some (Inr (Some \<lparr>db_epoch = \<lparr>epoch_value = Suc (sc_submitted ?s)\<rparr>, db_member_count = length ?R\<rparr>),
                map (handle ?s) ?R @ drop (length ?R) out, s')" "sched_inv C s'" "batch_dispatched C ?s s' ?R"
    using d sched_shapeD(10) [OF I(1)] by (metis Inl_Inr_False Inr_inject nat_less_le option.distinct(1))
  then show ?thesis
  proof cases
    case none
    then show ?thesis using False engine_ok_same [OF inv] by (cases r) (auto simp: engine_dispatch_ready_def)
  next
    case some
    then show ?thesis using False len batch_dispatched_ok [OF inv False some(2,3)]
      by (simp add: engine_dispatch_ready_def)
  qed
qed

lemma dispatch_m1_ready_ok:
  assumes inv: "engine_inv C e"
  shows "engine_ok C e eng_exhaustion (dispatch_m1_ready C e)"
proof -
  let ?out = "replicate M1_MAX_ACTIVE_SEQUENCES (request_id_new 0 0)"
  obtain r out' e' where d: "engine_dispatch_ready C e ?out = Some (r, out', e')" "length out' = length ?out"
    "engine_ok C e eng_exhaustion (Some (r, e'))" "\<forall>b. r = Inr (Some b) \<longrightarrow> db_member_count b \<le> length ?out"
    using engine_dispatch_ready_ok [OF inv] by blast
  have "\<exists>x. from_dispatch_batch b out' = Some x" if "r = Inr (Some b)" for b
    using fill_members_eq [of 0 "db_member_count b" out' "replicate M1_MAX_ACTIVE_SEQUENCES None"] d(2,4) that
    by (simp add: from_dispatch_batch_def M1_MAX_ACTIVE_SEQUENCES_def)
  then show ?thesis using d(1,3)
    by (fastforce simp: dispatch_m1_ready_def engine_ok_def split: sum.splits option.splits)
qed

lemma engine_dispatch_exact_ok:
  assumes inv: "engine_inv C e"
  shows "engine_ok C e (\<lambda>_. False) (engine_dispatch_m1_exact_ready C e epoch qs)"
proof (cases "en_faulted e")
  case True
  then show ?thesis using engine_ok_error [OF inv] by (simp add: engine_dispatch_m1_exact_ready_def)
next
  case False
  note I = engine_invD [OF inv]
  show ?thesis
    using False sched_dispatch_m1_exact_ready_correct [OF I(1), of epoch qs] engine_ok_error [OF inv]
      batch_dispatched_ok [OF inv False]
    by (auto simp: engine_dispatch_m1_exact_ready_def split: if_splits)
qed

subsection \<open>Reclamation\<close>

text \<open>Taking the permit of the oldest retired request, releasing its pages: what both reclamation
  paths share.\<close>

lemma retired_permit:
  assumes inv: "engine_inv C e" and nf: "\<not> en_faulted e" and rv: "reclaim_view C (en_scheduler e) = i # rest"
  obtains permit s1 where "take_retiring_permit C (en_scheduler e) = Some (Inr (Some permit), s1)"
    "permit_request permit = handle (en_scheduler e) i" "sched_inv C s1" "i < C"
    "key_decision (en_kv e) (request_key_of (handle (en_scheduler e) i)) = None"
    "handle s1 i = handle (en_scheduler e) i" "sc_completed s1 = sc_completed (en_scheduler e)"
    "\<And>j. j \<noteq> i \<Longrightarrow> sc_slots s1 ! j = sc_slots (en_scheduler e) ! j"
    "detach_ready C s1 \<lparr>det_request = handle (en_scheduler e) i, det_origin = permit_origin permit\<rparr>"
proof -
  let ?s = "en_scheduler e"
  note I = engine_invD [OF inv]
  let ?permit = "\<lparr>permit_request = handle ?s i, permit_origin =
    (if sl_last_quiescent_epoch (sc_slots ?s ! i) = 0 then NeverSubmitted
     else CompletedExact (sl_last_quiescent_epoch (sc_slots ?s ! i)))\<rparr>"
  obtain s1 where t: "take_retiring_permit C ?s = Some (Inr (Some ?permit), s1)" "sched_inv C s1" "i < C"
    "sl_state (sc_slots ?s ! i) = Retiring"
    "s1 = ?s\<lparr>sc_reclaim_head := sc_reclaim_head s1, sc_reclaim_len := sc_reclaim_len s1,
       sc_slots := (sc_slots ?s)[i := (sc_slots ?s ! i)\<lparr>sl_in_reclaim_ring := False\<rparr>]\<rparr>"
    using take_retiring_permit_correct [OF I(1)] rv by auto
  have sl: "sc_slots s1 = (sc_slots ?s)[i := (sc_slots ?s ! i)\<lparr>sl_in_reclaim_ring := False\<rparr>]"
    and cm: "sc_completed s1 = sc_completed ?s"
    by (subst t(5), simp)+
  have len: "i < length (sc_slots ?s)" using sched_shapeD(3) [OF I(1)] t(3) by simp
  have rr: "sl_in_reclaim_ring (sc_slots ?s ! i)"
    using sched_inv_reclaim [OF I(1)] rv by (auto simp: reclaim_ring_ok_def)
  have a0: "sl_active_epoch (sc_slots ?s ! i) = 0"
    using sched_inv_slot [OF I(1) t(3)] rr t(4) by (auto simp: slot_ok_def)
  have key: "key_decision (en_kv e) (request_key_of (handle ?s i)) = None"
    using coupled_key(1) [OF I(4) [OF nf] I(2,1) t(3)] t(4) by simp
  have dr: "detach_ready C s1 \<lparr>det_request = handle ?s i, det_origin = permit_origin ?permit\<rparr>"
    using t(3,4) len a0 by (simp add: detach_ready_def current_def sl handle_def origin_matches_def NO_EPOCH_def Let_def)
  have "handle s1 i = handle ?s i" using len by (simp add: handle_def sl)
  moreover have "sc_slots s1 ! j = sc_slots ?s ! j" if "j \<noteq> i" for j using that by (simp add: sl)
  ultimately show ?thesis using that [OF t(1) _ t(2,3) key _ cm _ dr] by simp
qed

lemma engine_faulted_ok:
  assumes "engine_inv C e" "sched_inv C s" "kv_inv p" "ex err"
  shows "engine_ok C e ex (Some (Inl err, e\<lparr>en_scheduler := s, en_kv := p, en_faulted := True\<rparr>))"
  using assms by (simp add: engine_ok_def engine_inv_def)

lemma reclaim_one_ok:
  assumes inv: "engine_inv C e"
  shows "engine_ok C e eng_exhaustion (reclaim_one C e)"
proof (cases "en_faulted e \<or> reclaim_view C (en_scheduler e) = []")
  case True
  then show ?thesis using engine_ok_same [OF inv] take_retiring_permit_correct [OF engine_invD(1) [OF inv]]
    by (auto simp: reclaim_one_def)
next
  case False
  then have nf: "\<not> en_faulted e" by simp
  note I = engine_invD [OF inv]
  let ?s = "en_scheduler e"
  from False obtain i rest where "reclaim_view C ?s = i # rest" by (cases "reclaim_view C ?s") auto
  from retired_permit [OF inv nf this] obtain permit s1 where t:
    "take_retiring_permit C ?s = Some (Inr (Some permit), s1)" "permit_request permit = handle ?s i"
    "sched_inv C s1" "i < C" "key_decision (en_kv e) (request_key_of (handle ?s i)) = None"
    "handle s1 i = handle ?s i" "sc_completed s1 = sc_completed ?s" "\<And>j. j \<noteq> i \<Longrightarrow> sc_slots s1 ! j = sc_slots ?s ! j"
    "detach_ready C s1 \<lparr>det_request = handle ?s i, det_origin = permit_origin permit\<rparr>" by blast
  let ?d = "\<lparr>det_request = handle ?s i, det_origin = permit_origin permit\<rparr>"
  have sloti: "slot (handle ?s i) = i" by (simp add: handle_def)
  from I(2) t(5,2) show ?thesis
  proof (cases rule: release_current)
    case (1 err)
    then show ?thesis using nf t(1,2) engine_faulted_ok [OF inv t(3) I(2), of eng_exhaustion "EngKv err"]
      by (simp add: reclaim_one_def eng_exhaustion_def)
  next
    case (2 p')
    have g: "generation (handle ?s i) = rq_generation (kv_requests (en_kv e) ! i)"
      using coupled_key(2) [OF I(4) [OF nf] I(2,1) t(4)] by (simp add: handle_def)
    then have "reclaim_decision C s1 ?d = None"
      using t(4,9) 2(4) sloti by (simp add: reclaim_decision_def)
    then obtain s2 where s2: "reclaim_detached C s1 ?d = Some (Inr (handle ?s i), s2)" "sched_inv C s2"
      "moves s1 s2 i DetachKv" "sl_generation (sc_slots s2 ! i) = generation (handle ?s i) + 1"
      using reclaim_detached_correct [OF t(3), of ?d] sloti by auto
    have vac: "sl_state (sc_slots s2 ! i) = Vacant"
      using s2(3) by (auto simp: moves_def apply_request_transition_def seq_of_def Let_def
          split: request_state.splits lifecycle_phase.splits)
    have rel: "only_slot (en_kv e) p' i" "\<not> rq_live (kv_requests p' ! i)"
      "rq_generation (kv_requests p' ! i) = rq_generation (kv_requests (en_kv e) ! i) + 1"
      using 2(3) sloti by (auto simp: released_def Let_def)
    have "coupled C s2 p'"
      by (rule coupled_update [OF I(4) [OF nf], where i = i])
         (use moves_others [OF s2(3)] t(8) only_slot_others [OF rel(1)] vac rel s2(4) g in \<open>auto simp: slot_coupled_def\<close>)
    moreover have "settled s2 j" if "j < C" for j
    proof (cases "j = i")
      case True
      then show ?thesis using vac sched_inv_slot [OF s2(2) t(4)] by (auto simp: settled_def slot_ok_def)
    next
      case False
      then show ?thesis using moves_others(2) [OF s2(3)] t(7,8) I(5) [OF nf that] by (simp add: settled_def)
    qed
    ultimately show ?thesis using nf t(1,2) 2(1) s2(1) engine_ok_step(1) [OF inv nf s2(2) 2(2)]
      by (simp add: reclaim_one_def)
  qed
qed

lemma preflight_reincarnation_eq:
  assumes "sched_inv C s"
  shows "preflight_next_reincarnation s = Some (case reclaim_view C s of
      [] \<Rightarrow> Inl DetachmentMismatch
    | i # _ \<Rightarrow> if sl_generation (sc_slots s ! i) = U32_MAX then Inl SchedGenerationExhausted else Inr (handle s i))"
proof (cases "sc_reclaim_len s")
  case 0
  then show ?thesis by (simp add: preflight_next_reincarnation_def reclaim_view_def)
next
  case (Suc n)
  note sh = sched_shapeD [OF assms]
  have w: "sc_reclaim_head s < C" "length (sc_reclaim_ring s) = C" using sh(5) by (auto simp: ring_wf_def)
  have rv: "reclaim_view C s = sc_reclaim_ring s ! sc_reclaim_head s #
      ring_view C (sc_reclaim_ring s, Suc (sc_reclaim_head s) mod C, n)"
    using Suc by (simp add: reclaim_view_def ring_view_Suc [OF w(1)])
  then have "sc_reclaim_ring s ! sc_reclaim_head s < C"
    using sched_inv_reclaim [OF assms] by (auto simp: reclaim_ring_ok_def)
  then show ?thesis using Suc rv w sh(2,3,12)
    by (simp add: preflight_next_reincarnation_def idx_ok handle_def)
qed

lemma reincarnate_ok:
  assumes inv: "engine_inv C e"
  shows "engine_ok C e eng_exhaustion (reincarnate_next_retiring C e)"
proof (cases "en_faulted e \<or> reclaim_view C (en_scheduler e) = []")
  case True
  then show ?thesis using engine_ok_same [OF inv] preflight_reincarnation_eq [OF engine_invD(1) [OF inv]]
    by (auto simp: reincarnate_next_retiring_def)
next
  case False
  then have nf: "\<not> en_faulted e" by simp
  note I = engine_invD [OF inv]
  let ?s = "en_scheduler e"
  from False obtain i rest where rv: "reclaim_view C ?s = i # rest" by (cases "reclaim_view C ?s") auto
  from retired_permit [OF inv nf this] obtain permit s1 where t:
    "take_retiring_permit C ?s = Some (Inr (Some permit), s1)" "permit_request permit = handle ?s i"
    "sched_inv C s1" "i < C" "key_decision (en_kv e) (request_key_of (handle ?s i)) = None"
    "handle s1 i = handle ?s i" "sc_completed s1 = sc_completed ?s" "\<And>j. j \<noteq> i \<Longrightarrow> sc_slots s1 ! j = sc_slots ?s ! j"
    "detach_ready C s1 \<lparr>det_request = handle ?s i, det_origin = permit_origin permit\<rparr>" by blast
  let ?d = "\<lparr>det_request = handle ?s i, det_origin = permit_origin permit\<rparr>"
  have h: "slot (handle ?s i) = i" "generation (handle ?s i) = sl_generation (sc_slots ?s ! i)"
    by (simp_all add: handle_def)
  show ?thesis
  proof (cases "sl_generation (sc_slots ?s ! i) = U32_MAX")
    case True
    then show ?thesis using nf preflight_reincarnation_eq [OF I(1)] rv engine_ok_error [OF inv]
      by (simp add: reincarnate_next_retiring_def)
  next
    case g: False
    have pre: "preflight_next_reincarnation ?s = Some (Inr (handle ?s i))"
      using preflight_reincarnation_eq [OF I(1)] rv g by simp
    from I(2) t(5,2) show ?thesis
    proof (cases rule: release_current)
      case (1 err)
      then show ?thesis using nf pre t(1) engine_faulted_ok [OF inv t(3) I(2), of eng_exhaustion "EngKv err"]
        by (simp add: reincarnate_next_retiring_def eng_exhaustion_def)
    next
      case (2 p')
      let ?q = "request_id_new i (generation (handle ?s i) + 1)"
      from reincarnate_detached_correct [OF t(3,9)] g h obtain s2 mid where s2:
        "reincarnate_detached s1 ?d = Some (?q, s2)" "sched_inv C s2" "handle s2 i = ?q"
        "apply_request_transition mid Admit = Inr (seq_of s2 i)"
        "s2 = s1\<lparr>sc_slots := (sc_slots s1)[i := sc_slots s2 ! i]\<rparr>" by auto
      have rdy: "sl_state (sc_slots s2 ! i) = Ready" using s2(4)
        by (auto simp: apply_request_transition_def seq_of_def Let_def split: request_state.splits lifecycle_phase.splits)
      have sg: "sl_generation (sc_slots s2 ! i) = generation (handle ?s i) + 1"
        using s2(3) by (metis handle_def slot_of_handle(2))
      have oth: "sc_slots s2 ! j = sc_slots ?s ! j" if "j \<noteq> i" for j
        using t(8) [OF that] that by (subst s2(5)) simp
      have cm: "sc_completed s2 = sc_completed ?s" using t(7) by (subst s2(5)) simp
      have rel: "only_slot (en_kv e) p' i" "\<not> rq_live (kv_requests p' ! i)"
        "rq_generation (kv_requests p' ! i) = rq_generation (kv_requests (en_kv e) ! i) + 1"
        using 2(3) h(1) by (auto simp: released_def Let_def)
      have gk: "rq_generation (kv_requests p' ! i) = generation (handle ?s i) + 1"
        using rel(3) coupled_key(2) [OF I(4) [OF nf] I(2,1) t(4)] h(2) by simp
      have i: "i < MAX_REQUEST_SLOTS" by (rule slot_le [OF I(1) t(4)])
      let ?p2 = "p'\<lparr>kv_requests := (kv_requests p')[i := (kv_requests p' ! i)\<lparr>rq_live := True\<rparr>]\<rparr>"
      have "create_decision p' (request_key_of ?q) = None" using i rel(2) gk by (simp add: create_decision_def)
      then have cr: "kv_create_request p' ?q = Some (Inr (), ?p2)" "kv_inv ?p2"
        using create_request_key_correct [OF 2(2), of "request_key_of ?q"] by (auto simp: kv_create_request_def Let_def)
      have "coupled C s2 ?p2"
        by (rule coupled_update [OF I(4) [OF nf], where i = i])
           (use t(4) oth only_slot_others [OF rel(1)] rdy sg gk i kv_shape(10) [OF 2(2)] in \<open>auto simp: slot_coupled_def\<close>)
      moreover have "settled s2 j" if "j < C" for j
      proof (cases "j = i")
        case True
        then show ?thesis using rdy sched_inv_slot [OF s2(2) t(4)] by (auto simp: settled_def slot_ok_def)
      next
        case False
        then show ?thesis using oth cm I(5) [OF nf that] by (simp add: settled_def)
      qed
      ultimately show ?thesis using nf pre t(1) 2(1) s2(1) cr(1) engine_ok_step(1) [OF inv nf s2(2) cr(2)]
        by (simp add: reincarnate_next_retiring_def)
    qed
  qed
qed

end
