(* ===== verification/Engine_Completion.thy ===== *)
theory Engine_Completion
  imports Engine_Invariant
begin

text \<open>
  Exact completion of the oldest batch by the composed engine: the checks before the authority
  is consumed, the settling of every member, and the resulting state of each of them.
\<close>

subsection \<open>The pending batch\<close>

definition pending_count :: "nat \<Rightarrow> scheduler \<Rightarrow> nat" where
  "pending_count C s = (case batch_view C s of [] \<Rightarrow> 0 | b # _ \<Rightarrow> br_member_count b)"

definition pending :: "nat \<Rightarrow> scheduler \<Rightarrow> request_id list" where
  "pending C s = take (pending_count C s) (member_view C s)"

lemma pending_none:
  assumes "sc_batch_len s = 0"
  shows "batch_view C s = []" "pending_count C s = 0" "pending C s = []"
  using assms by (simp_all add: pending_count_def pending_def batch_view_def)

lemma pending_some:
  assumes inv: "sched_inv C s" and ne: "sc_batch_len s \<noteq> 0"
  shows "sc_batch_head s < length (sc_batch_ring s)" "batch_view C s \<noteq> []"
    "pending_count C s = br_member_count (sc_batch_ring s ! sc_batch_head s)"
    "0 < pending_count C s" "pending_count C s \<le> sc_member_len s"
    "\<And>k. k < pending_count C s \<Longrightarrow> slot (member_view C s ! k) < C
       \<and> handle s (slot (member_view C s ! k)) = member_view C s ! k
       \<and> sl_active_epoch (sc_slots s ! slot (member_view C s ! k)) = Suc (sc_completed s)"
proof -
  from ne have "0 < sc_batch_len s" by simp
  obtain b bs where h: "batch_view C s = b # bs" "sc_batch_ring s ! sc_batch_head s = b"
    "0 < br_member_count b" "br_member_count b \<le> sc_member_len s"
    "\<And>k. k < br_member_count b \<Longrightarrow> slot (member_view C s ! k) < C
       \<and> handle s (slot (member_view C s ! k)) = member_view C s ! k
       \<and> sl_active_epoch (sc_slots s ! slot (member_view C s ! k)) = Suc (sc_completed s)"
    using head_batch [OF inv \<open>0 < sc_batch_len s\<close>] by metis
  then have n: "pending_count C s = br_member_count b" by (simp add: pending_count_def)
  show "sc_batch_head s < length (sc_batch_ring s)" using sched_shapeD(7) [OF inv] by (simp add: ring_wf_def)
  show "batch_view C s \<noteq> []" "pending_count C s = br_member_count (sc_batch_ring s ! sc_batch_head s)"
    "0 < pending_count C s" "pending_count C s \<le> sc_member_len s"
    "\<And>k. k < pending_count C s \<Longrightarrow> slot (member_view C s ! k) < C
       \<and> handle s (slot (member_view C s ! k)) = member_view C s ! k
       \<and> sl_active_epoch (sc_slots s ! slot (member_view C s ! k)) = Suc (sc_completed s)"
    using h n by simp_all
qed

lemma pending_facts:
  assumes inv: "sched_inv C s"
  shows "pending_batch_member_count s = Some (pending_count C s)"
    "length (pending C s) = pending_count C s" "pending_count C s \<le> C"
    "batch_view C s = [] \<longleftrightarrow> pending_count C s = 0" "distinct (map slot (pending C s))"
proof -
  have m: "sc_member_len s \<le> C" using sched_shapeD(6) [OF inv] by (simp add: ring_wf_def)
  show "pending_batch_member_count s = Some (pending_count C s)"
    using pending_none [of s C] pending_some [OF inv] by (simp add: pending_batch_member_count_def idx_ok)
  show "length (pending C s) = pending_count C s" "pending_count C s \<le> C"
    "batch_view C s = [] \<longleftrightarrow> pending_count C s = 0"
    using pending_none [of s C] pending_some [OF inv] m
    by (cases "sc_batch_len s = 0"; force simp: pending_def member_view_def)+
  have "distinct (map slot (member_view C s))" using sched_inv_batches [OF inv] by (simp add: batches_ok_def)
  then show "distinct (map slot (pending C s))" by (simp add: pending_def take_map [symmetric])
qed

lemma pending_member_eq:
  assumes inv: "sched_inv C s" and k: "k < pending_count C s"
  shows "pending_member C s k = Some (Some (pending C s ! k))"
proof -
  note sh = sched_shapeD [OF inv]
  have ne: "sc_batch_len s \<noteq> 0" using k pending_none(2) by fastforce
  note f = pending_some [OF inv ne]
  have ml: "k < sc_member_len s" "sc_member_len s \<le> C" "sc_member_head s < C"
    using k f(5) sh(6) by (auto simp: ring_wf_def)
  then show ?thesis using k ne f(1,3) idx_view [OF sh(6) ml(1)] ring_tail_ok [of "sc_member_head s" C k] sh(12)
    by (simp add: pending_member_def idx_ok pending_def member_view_def)
qed

lemma pending_own:
  assumes inv: "sched_inv C s" and m: "m \<in> set (pending C s)"
  shows "slot m < C" "handle s (slot m) = m" "sl_active_epoch (sc_slots s ! slot m) = Suc (sc_completed s)"
    "sl_state (sc_slots s ! slot m) = InFlight \<or> sl_state (sc_slots s ! slot m) = Retiring"
    "\<not> sl_in_reclaim_ring (sc_slots s ! slot m)" "sl_generation (sc_slots s ! slot m) = generation m"
proof -
  have ne: "sc_batch_len s \<noteq> 0" using m pending_none(3) by fastforce
  show f: "slot m < C" "handle s (slot m) = m" "sl_active_epoch (sc_slots s ! slot m) = Suc (sc_completed s)"
    using m pending_some(5,6) [OF inv ne] by (auto simp: pending_def in_set_conv_nth member_view_def)
  then show "sl_state (sc_slots s ! slot m) = InFlight \<or> sl_state (sc_slots s ! slot m) = Retiring"
    "\<not> sl_in_reclaim_ring (sc_slots s ! slot m)"
    using sched_inv_slot [OF inv f(1)] by (auto simp: slot_ok_def split: request_state.splits)
  show "sl_generation (sc_slots s ! slot m) = generation m" using f(2) by (metis handle_def slot_of_handle(2))
qed

subsection \<open>The checks\<close>

text \<open>What the completion may do to one member: commit that many of its tentative tokens, or
  detach it.\<close>

definition member_ok :: "scheduler \<Rightarrow> kv_pool \<Rightarrow> request_id \<Rightarrow> u32 \<Rightarrow> bool" where
  "member_ok s p m a =
     (let r = kv_requests p ! slot m in
      case sl_state (sc_slots s ! slot m) of
        InFlight \<Rightarrow> rq_committed_tokens r + a \<le> rq_resident_tokens r
      | Retiring \<Rightarrow> generation m < U32_MAX
      | _ \<Rightarrow> False)"

lemma kv_tokens_eq:
  assumes "kv_inv p" "key_decision p (request_key_of q) = None"
  shows "kv_resident_tokens p q = Some (rq_resident_tokens (kv_requests p ! slot q))"
    "kv_committed_tokens p q = Some (rq_committed_tokens (kv_requests p ! slot q))"
    "rq_committed_tokens (kv_requests p ! slot q) \<le> rq_resident_tokens (kv_requests p ! slot q)"
proof -
  note l = live_atD [OF assms(1) assms(2) [unfolded key_decision_None]]
  have "rq_generation (kv_requests p ! slot q) = generation q"
    using assms(2) by (simp add: key_decision_None live_at_def)
  then show "kv_resident_tokens p q = Some (rq_resident_tokens (kv_requests p ! slot q))"
    "kv_committed_tokens p q = Some (rq_committed_tokens (kv_requests p ! slot q))"
    using l(3,6) by (simp_all add: kv_resident_tokens_def kv_committed_tokens_def idx_ok)
  show "rq_committed_tokens (kv_requests p ! slot q) \<le> rq_resident_tokens (kv_requests p ! slot q)"
    using l(7) by (simp add: request_ok_def)
qed

lemma preflight_members_eq:
  assumes inv: "engine_inv C e" and nf: "\<not> en_faulted e"
    and ep: "epoch_value (ec_epoch c) = Suc (sc_completed (en_scheduler e))"
    and len: "length acc = pending_count C (en_scheduler e)" and k: "k + n = pending_count C (en_scheduler e)"
  defines "ok \<equiv> \<forall>j. k \<le> j \<longrightarrow> j < k + n \<longrightarrow> member_ok (en_scheduler e) (en_kv e) (pending C (en_scheduler e) ! j) (acc ! j)"
  shows "(if ok then preflight_members n C e c acc k = Some (Inr ()) else \<exists>err. preflight_members n C e c acc k = Some (Inl err))
    \<and> (ok \<longrightarrow> recheck_members n C e c acc k = Some (Inr ()))"
  using k unfolding ok_def
proof (induction n arbitrary: k)
  case 0
  then show ?case by simp
next
  case (Suc n)
  let ?s = "en_scheduler e" and ?m = "pending C (en_scheduler e) ! k"
  note I = engine_invD [OF inv]
  have k: "k < pending_count C ?s" "k < length acc" using Suc.prems len by auto
  have m: "?m \<in> set (pending C ?s)" using k(1) pending_facts(2) [OF I(1)] by simp
  note o' = pending_own [OF I(1) m]
  have cur: "current C ?s ?m" using o' by (simp add: current_def)
  have st: "sched_state C ?s ?m = Some (Some (sl_state (sc_slots ?s ! slot ?m)))"
    using sched_state_eq [OF I(1), of ?m] cur o'(4) by auto
  have key: "key_decision (en_kv e) (request_key_of ?m) = None"
    using coupled_key(1) [OF I(4) [OF nf] I(2,1) o'(1)] o'(2,4) by auto
  note tok = kv_tokens_eq [OF I(2) key]
  have pm: "pending_member C ?s k = Some (Some ?m)" by (rule pending_member_eq [OF I(1) k(1)])
  have rr: "pending_retirement_ready C ?s k ?m (ec_epoch c) =
      Some (sl_state (sc_slots ?s ! slot ?m) = Retiring \<and> generation ?m < U32_MAX)"
    using pm o' ep sched_shapeD(3) [OF I(1)] by (simp add: pending_retirement_ready_def idx_ok)
  have kb: "k + 1 \<le> U64_MAX" using k(1) pending_facts(3) [OF I(1)] sched_shapeD(2) [OF I(1)] by simp
  have all: "(\<forall>j. k \<le> j \<longrightarrow> j < k + Suc n \<longrightarrow> P j) \<longleftrightarrow> P k \<and> (\<forall>j. Suc k \<le> j \<longrightarrow> j < Suc k + n \<longrightarrow> P j)" for P
    by (rule iffI, simp) (metis Suc_leI add_Suc add_Suc_right le_neq_implies_less)
  have step: "preflight_members (Suc n) C e c acc k = (if member_ok ?s (en_kv e) ?m (acc ! k)
      then preflight_members n C e c acc (Suc k)
      else Some (Inl (if sl_state (sc_slots ?s ! slot ?m) = InFlight then EngKv CommitExceedsResident
         else if generation ?m = U32_MAX then EngScheduler SchedGenerationExhausted else EngInvariantViolation)))"
    using pm st tok rr kb k(2) o'(4) by (auto simp: member_ok_def idx_ok u_add_ok u_sub_ok Let_def)
  have step': "recheck_members (Suc n) C e c acc k = recheck_members n C e c acc (Suc k)"
    if "member_ok ?s (en_kv e) ?m (acc ! k)"
    using pm st tok kb k(2) o'(4) that by (auto simp: member_ok_def idx_ok u_add_ok u_sub_ok Let_def)
  show ?case using Suc.IH [of "Suc k"] Suc.prems unfolding all step using step' by (auto split: if_splits)
qed

subsection \<open>Settling the members\<close>

text \<open>What becomes of one member: an in-flight request is ready again with its accepted tokens
  committed, a retiring one has left its slot.\<close>

definition member_effect ::
  "scheduler \<Rightarrow> kv_pool \<Rightarrow> scheduler \<Rightarrow> kv_pool \<Rightarrow> request_id \<Rightarrow> u32 \<Rightarrow> bool" where
  "member_effect s0 p0 s p m a =
     (let i = slot m; sl = sc_slots s ! i; r0 = kv_requests p0 ! i; r = kv_requests p ! i in
      if sl_state (sc_slots s0 ! i) = InFlight
      then sl_state sl = Ready \<and> sl_generation sl = generation m \<and> rq_live r
        \<and> rq_committed_tokens r = rq_committed_tokens r0 + a \<and> rq_resident_tokens r = rq_committed_tokens r0 + a
      else sl_state sl = Vacant \<and> sl_generation sl = generation m + 1 \<and> \<not> rq_live r \<and> rq_page_count r = 0)"

lemma member_effect_keep:
  "sc_slots s' ! slot m = sc_slots s ! slot m \<Longrightarrow> kv_requests p' ! slot m = kv_requests p ! slot m \<Longrightarrow>
     member_effect s0 p0 s' p' m a = member_effect s0 p0 s p m a"
  by (simp add: member_effect_def Let_def)

definition settling ::
  "nat \<Rightarrow> scheduler \<Rightarrow> kv_pool \<Rightarrow> request_id list \<Rightarrow> u32 list \<Rightarrow> nat \<Rightarrow> engine \<Rightarrow> bool" where
  "settling C s0 p0 ms acc k e =
     (\<not> en_faulted e \<and> sched_inv C (en_scheduler e) \<and> kv_inv (en_kv e) \<and> coupled C (en_scheduler e) (en_kv e)
      \<and> sc_completed (en_scheduler e) = sc_completed s0
      \<and> en_permits e = replicate k None @ permits_for (sc_completed s0) (drop k ms) @ replicate (C - length ms) None
      \<and> (\<forall>i < C. i \<notin> slot ` set (drop k ms) \<longrightarrow> settled (en_scheduler e) i)
      \<and> (\<forall>i < C. i \<notin> slot ` set (take k ms) \<longrightarrow> sc_slots (en_scheduler e) ! i = sc_slots s0 ! i
           \<and> kv_requests (en_kv e) ! i = kv_requests p0 ! i)
      \<and> (\<forall>j < k. member_effect s0 p0 (en_scheduler e) (en_kv e) (ms ! j) (acc ! j)))"

text \<open>The members as the completion finds them.\<close>

definition members_ready :: "nat \<Rightarrow> scheduler \<Rightarrow> kv_pool \<Rightarrow> request_id list \<Rightarrow> u32 list \<Rightarrow> bool" where
  "members_ready C s0 p0 ms acc =
     (length acc = length ms \<and> length ms \<le> C \<and> C \<le> 32 \<and> distinct (map slot ms)
      \<and> (\<forall>j < length ms. member_ok s0 p0 (ms ! j) (acc ! j) \<and> slot (ms ! j) < C
           \<and> sl_generation (sc_slots s0 ! slot (ms ! j)) = generation (ms ! j)
           \<and> sl_active_epoch (sc_slots s0 ! slot (ms ! j)) = sc_completed s0
           \<and> \<not> sl_in_reclaim_ring (sc_slots s0 ! slot (ms ! j)) \<and> sc_completed s0 \<noteq> 0))"

text \<open>Advancing by one member, once the two owners have settled it.\<close>

lemma settling_advance:
  assumes st: "settling C s0 p0 ms acc k e" and rdy: "members_ready C s0 p0 ms acc" and k: "k < length ms"
    and s': "sched_inv C s'" "moves (en_scheduler e) s' (slot (ms ! k)) t" "settled s' (slot (ms ! k))"
    and p': "kv_inv p'" "only_slot (en_kv e) p' (slot (ms ! k))"
    and cp: "slot_coupled (sc_slots s' ! slot (ms ! k)) (kv_requests p' ! slot (ms ! k))"
    and eff: "member_effect s0 p0 s' p' (ms ! k) (acc ! k)"
  shows "settling C s0 p0 ms acc (Suc k) (e\<lparr>en_permits := (en_permits e)[k := None], en_kv := p', en_scheduler := s'\<rparr>)"
proof -
  let ?i = "slot (ms ! k)"
  have dr: "drop k ms = ms ! k # drop (Suc k) ms" using k by (simp add: Cons_nth_drop_Suc)
  have tk: "take (Suc k) ms = take k ms @ [ms ! k]" using k by (rule take_Suc_conv_app_nth)
  have pr: "(en_permits e)[k := None] =
      replicate (Suc k) None @ permits_for (sc_completed s0) (drop (Suc k) ms) @ replicate (C - length ms) None"
    using st dr by (simp add: settling_def permits_for_def list_update_append replicate_append_same)
  have "?i < C" using rdy k by (simp add: members_ready_def)
  then have "coupled C s' p'"
    by (intro coupled_update [where i = ?i and s = "en_scheduler e" and p = "en_kv e" and p' = p' and s' = s'])
       (use st moves_others [OF s'(2)] only_slot_others [OF p'(2)] cp in \<open>auto simp: settling_def\<close>)
  moreover have "settled s' i" if "i < C" "i \<notin> slot ` set (drop (Suc k) ms)" for i
    using that st s'(3) moves_others(2) [OF s'(2), of i] dr by (cases "i = ?i") (auto simp: settling_def)
  moreover have "sc_slots s' ! i = sc_slots s0 ! i \<and> kv_requests p' ! i = kv_requests p0 ! i"
    if "i < C" "i \<notin> slot ` set (take (Suc k) ms)" for i
    using that st moves_others(1) [OF s'(2), of i] only_slot_others [OF p'(2), of i] unfolding tk
    by (auto simp: settling_def)
  moreover have "member_effect s0 p0 s' p' (ms ! j) (acc ! j)" if "j < Suc k" for j
  proof (cases "j = k")
    case False
    then have "j < k" using that by simp
    then have "slot (ms ! j) \<noteq> ?i"
      using rdy k distinct_map_nthD [of slot ms j k] by (auto simp: members_ready_def)
    moreover have "member_effect s0 p0 (en_scheduler e) (en_kv e) (ms ! j) (acc ! j)"
      using st \<open>j < k\<close> by (simp add: settling_def)
    ultimately show ?thesis
      using member_effect_keep moves_others(1) [OF s'(2)] only_slot_others [OF p'(2)] by metis
  qed (use eff in simp)
  moreover have "sc_completed s' = sc_completed s0" using st s'(2) by (simp add: settling_def moves_def)
  ultimately show ?thesis using st pr s'(1) p'(1) by (simp add: settling_def)
qed

lemma clear_permits_loop_ok:
  assumes "i + n = length ps" "length ps \<le> U32_MAX"
  shows "\<exists>ps'. clear_permits_loop n i ps = Some ps' \<and> length ps' = length ps"
  using assms
proof (induction n arbitrary: i ps)
  case (Suc n)
  then show ?case using Suc.IH [of "Suc i" "ps[i := None]"] by (simp add: exec_simps)
qed simp

lemma fail_stop_ok:
  assumes "sched_inv C (en_scheduler e)" "kv_inv (en_kv e)" "length (en_permits e) = C"
  shows "\<exists>e'. fail_stop C e err = Some (Inl (failure_consumed err), e') \<and> engine_inv C e' \<and> en_faulted e'"
proof -
  obtain ps where "clear_permits_loop C 0 (en_permits e) = Some ps" "length ps = C"
    using clear_permits_loop_ok [of 0 C "en_permits e"] assms(3) sched_shapeD(12) [OF assms(1)] by auto
  then show ?thesis using assms by (simp add: fail_stop_def clear_permits_def engine_inv_def)
qed

text \<open>A member that is settled or whose settling stops the engine.\<close>

definition settle_outcome ::
  "nat \<Rightarrow> scheduler \<Rightarrow> kv_pool \<Rightarrow> request_id list \<Rightarrow> u32 list \<Rightarrow> nat \<Rightarrow>
   ((engine_completion_failure + unit) \<times> engine) exec \<Rightarrow> bool" where
  "settle_outcome C s0 p0 ms acc k out =
     ((\<exists>e'. out = Some (Inr (), e') \<and> settling C s0 p0 ms acc k e')
      \<or> (\<exists>err e'. out = Some (Inl (failure_consumed (EngKv err)), e') \<and> exhaustion err
            \<and> engine_inv C e' \<and> en_faulted e'))"

lemma settle_stop:
  assumes "settling C s0 p0 ms acc k e" "length ms \<le> C" "k < length ms" "exhaustion err"
  shows "settle_outcome C s0 p0 ms acc n (fail_stop C (e\<lparr>en_permits := (en_permits e)[j := None]\<rparr>) (EngKv err))"
    (is "settle_outcome _ _ _ _ _ _ (fail_stop C ?e _)")
proof -
  have "length (en_permits ?e) = C" "sched_inv C (en_scheduler ?e)" "kv_inv (en_kv ?e)"
    using assms by (auto simp: settling_def permits_for_def)
  from fail_stop_ok [OF this(2,3,1), of "EngKv err"] assms(4) show ?thesis
    by (auto simp: settle_outcome_def)
qed

lemma settle_facts:
  assumes st: "settling C s0 p0 ms acc k e" and rdy: "members_ready C s0 p0 ms acc" and k: "k < length ms"
  defines "s \<equiv> en_scheduler e" and "p \<equiv> en_kv e" and "m \<equiv> ms ! k"
  shows "slot m < C" "sc_slots s ! slot m = sc_slots s0 ! slot m" "kv_requests p ! slot m = kv_requests p0 ! slot m"
    "key_decision p (request_key_of m) = None" "current C s m" "member_ok s p m (acc ! k)"
    "sl_active_epoch (sc_slots s ! slot m) = sc_completed s" "\<not> sl_in_reclaim_ring (sc_slots s ! slot m)"
    "sched_state C s m = Some (Some (sl_state (sc_slots s ! slot m)))" "sc_completed s \<noteq> 0"
    "idx (en_permits e) k = Some (Some \<lparr>permit_request = m, permit_origin = CompletedExact (sc_completed s)\<rparr>)"
    "k < length (en_permits e)" "sl_generation (sc_slots s ! slot m) = generation m"
proof -
  have S: "sched_inv C s" "kv_inv p" "coupled C s p" "sc_completed s = sc_completed s0"
    using st by (auto simp: settling_def s_def p_def)
  have r: "slot m < C" "member_ok s0 p0 m (acc ! k)" "sl_generation (sc_slots s0 ! slot m) = generation m"
    "sl_active_epoch (sc_slots s0 ! slot m) = sc_completed s0" "\<not> sl_in_reclaim_ring (sc_slots s0 ! slot m)"
    "sc_completed s0 \<noteq> 0" using rdy k by (auto simp: members_ready_def m_def)
  have "slot m \<notin> slot ` set (take k ms)"
  proof
    assume "slot m \<in> slot ` set (take k ms)"
    then obtain j where j: "j < k" "slot (ms ! j) = slot (ms ! k)"
      using k by (auto simp: m_def in_set_conv_nth)
    have "distinct (map slot ms)" using rdy by (simp add: members_ready_def)
    from distinct_map_nthD [OF this _ k j(2)] j(1) k show False by simp
  qed
  then show same: "sc_slots s ! slot m = sc_slots s0 ! slot m" "kv_requests p ! slot m = kv_requests p0 ! slot m"
    using st r(1) by (auto simp: settling_def s_def p_def)
  then show "slot m < C" "current C s m" "member_ok s p m (acc ! k)"
    "sl_active_epoch (sc_slots s ! slot m) = sc_completed s" "\<not> sl_in_reclaim_ring (sc_slots s ! slot m)"
    "sc_completed s \<noteq> 0" "sl_generation (sc_slots s ! slot m) = generation m"
    using r S(4) by (auto simp: current_def member_ok_def)
  have nv: "sl_state (sc_slots s ! slot m) \<noteq> Vacant" using r(2) same by (auto simp: member_ok_def split: request_state.splits)
  then show "sched_state C s m = Some (Some (sl_state (sc_slots s ! slot m)))"
    using sched_state_eq [OF S(1), of m] r same by (simp add: current_def)
  have "handle s (slot m) = m" using r(3) same by (simp add: handle_def request_id_new_def)
  then show "key_decision p (request_key_of m) = None" using coupled_key(1) [OF S(3,2,1) r(1)] nv by simp
  have kl: "k < length (en_permits e)" using st k rdy by (auto simp: settling_def members_ready_def permits_for_def)
  moreover have "en_permits e ! k = Some \<lparr>permit_request = m, permit_origin = CompletedExact (sc_completed s)\<rparr>"
    using st k S(4) by (simp add: settling_def permits_for_def nth_append m_def)
  ultimately show "idx (en_permits e) k = Some (Some \<lparr>permit_request = m, permit_origin = CompletedExact (sc_completed s)\<rparr>)"
    "k < length (en_permits e)" by (simp_all add: idx_ok)
qed

lemma settle_finalize:
  assumes st: "settling C s0 p0 ms acc k e" and rdy: "members_ready C s0 p0 ms acc" and k: "k < length ms"
    and fl: "sl_state (sc_slots (en_scheduler e) ! slot (ms ! k)) = InFlight"
  shows "settle_outcome C s0 p0 ms acc (Suc k) (settle_member C e acc k)"
proof -
  let ?s = "en_scheduler e" and ?p = "en_kv e" and ?m = "ms ! k"
  let ?permit = "\<lparr>permit_request = ?m, permit_origin = CompletedExact (sc_completed ?s)\<rparr>"
  note f = settle_facts [OF st rdy k]
  have S: "sched_inv C ?s" "kv_inv ?p" using st by (auto simp: settling_def)
  have acc: "idx acc k = Some (acc ! k)" using k rdy by (simp add: members_ready_def idx_ok)
  have len: "length ms \<le> C" using rdy by (simp add: members_ready_def)
  have tok: "rq_committed_tokens (kv_requests ?p ! slot ?m) + acc ! k \<le> rq_resident_tokens (kv_requests ?p ! slot ?m)"
    using f(6) fl by (simp add: member_ok_def Let_def)
  consider (stop) err where "kv_finalize_tentative ?p ?m (acc ! k) ?permit =
        Some (Inl \<lparr>auth_error = err, auth_permit = ?permit\<rparr>, ?p)" "exhaustion err"
    | (go) p' where "kv_finalize_tentative ?p ?m (acc ! k) ?permit =
        Some (Inr \<lparr>fin_request = ?m, fin_origin = CompletedExact (sc_completed ?s)\<rparr>, p')"
      "kv_inv p'" "finalized ?p p' (slot ?m) (acc ! k)"
    by (rule finalize_current [OF S(2) f(4) _ _ tok, of ?permit "sc_completed ?s"]) auto
  then show ?thesis
  proof cases
    case stop
    then show ?thesis using f(9,11,12) fl acc settle_stop [OF st len k stop(2), of "Suc k" k]
      by (simp add: settle_member_def upd_ok Let_def)
  next
    case go
    let ?f = "\<lparr>fin_request = ?m, fin_origin = CompletedExact (sc_completed ?s)\<rparr>"
    have "accept_decision C ?s ?f = None"
      using f(1,5,7,10) fl by (simp add: accept_decision_def finalize_ready_def)
    then obtain s' where s': "accept_finalized C ?s ?f = Some (Inr (), s')" "sched_inv C s'" "moves ?s s' (slot ?m) FinalizeKv"
      "handle s' (slot ?m) = ?m" using accept_finalized_correct [OF S(1), of ?f] by auto
    have rdy': "sl_state (sc_slots s' ! slot ?m) = Ready"
      using s'(3) by (auto simp: moves_def apply_request_transition_def seq_of_def Let_def
          split: request_state.splits lifecycle_phase.splits)
    have gen: "sl_generation (sc_slots s' ! slot ?m) = generation ?m" using s'(4) by (metis handle_def slot_of_handle(2))
    have fin: "only_slot ?p p' (slot ?m)" "rq_live (kv_requests p' ! slot ?m)"
      "rq_generation (kv_requests p' ! slot ?m) = rq_generation (kv_requests ?p ! slot ?m)"
      "rq_committed_tokens (kv_requests p' ! slot ?m) = rq_committed_tokens (kv_requests ?p ! slot ?m) + acc ! k"
      "rq_resident_tokens (kv_requests p' ! slot ?m) = rq_committed_tokens (kv_requests ?p ! slot ?m) + acc ! k"
      using go(3) by (auto simp: finalized_def Let_def)
    have "rq_generation (kv_requests ?p ! slot ?m) = generation ?m"
      using f(4) by (simp add: key_decision_None live_at_def)
    then have "slot_coupled (sc_slots s' ! slot ?m) (kv_requests p' ! slot ?m)"
      "member_effect s0 p0 s' p' ?m (acc ! k)" "settled s' (slot ?m)"
      using gen rdy' fin fl f(2,3) sched_inv_slot [OF s'(2) f(1)]
      by (auto simp: slot_coupled_def member_effect_def settled_def slot_ok_def Let_def)
    from settling_advance [OF st rdy k s'(2,3) this(3) go(2) fin(1) this(1,2)]
    show ?thesis using f(9,11,12) fl acc go(1) s'(1)
      by (auto simp: settle_member_def upd_ok Let_def settle_outcome_def)
  qed
qed

lemma settle_detach:
  assumes st: "settling C s0 p0 ms acc k e" and rdy: "members_ready C s0 p0 ms acc" and k: "k < length ms"
    and rt: "sl_state (sc_slots (en_scheduler e) ! slot (ms ! k)) = Retiring"
  shows "settle_outcome C s0 p0 ms acc (Suc k) (settle_member C e acc k)"
proof -
  let ?s = "en_scheduler e" and ?p = "en_kv e" and ?m = "ms ! k"
  let ?permit = "\<lparr>permit_request = ?m, permit_origin = CompletedExact (sc_completed ?s)\<rparr>"
  let ?d = "\<lparr>det_request = ?m, det_origin = CompletedExact (sc_completed ?s)\<rparr>"
  note f = settle_facts [OF st rdy k]
  have S: "sched_inv C ?s" "kv_inv ?p" using st by (auto simp: settling_def)
  have len: "length ms \<le> C" using rdy by (simp add: members_ready_def)
  consider (stop) err where "kv_release_request ?p ?m ?permit =
        Some (Inl \<lparr>auth_error = err, auth_permit = ?permit\<rparr>, ?p)" "exhaustion err"
    | (go) p' where "kv_release_request ?p ?m ?permit = Some (Inr ?d, p')" "kv_inv p'" "released ?p p' (slot ?m)"
    by (rule release_current [OF S(2) f(4), of ?permit]) auto
  then show ?thesis
  proof cases
    case stop
    then show ?thesis using f(9,11,12) rt settle_stop [OF st len k stop(2), of "Suc k" k]
      by (simp add: settle_member_def upd_ok Let_def)
  next
    case go
    have "generation ?m < U32_MAX" using f(6) rt by (simp add: member_ok_def)
    then have "reclaim_decision C ?s ?d = None"
      using f(1,5,7,8,10) rt by (simp add: reclaim_decision_def detach_ready_def origin_matches_def NO_EPOCH_def Let_def)
    then obtain s' where s': "reclaim_detached C ?s ?d = Some (Inr ?m, s')" "sched_inv C s'" "moves ?s s' (slot ?m) DetachKv"
      "sl_generation (sc_slots s' ! slot ?m) = generation ?m + 1" using reclaim_detached_correct [OF S(1), of ?d] by auto
    have vac: "sl_state (sc_slots s' ! slot ?m) = Vacant"
      using s'(3) by (auto simp: moves_def apply_request_transition_def seq_of_def Let_def
          split: request_state.splits lifecycle_phase.splits)
    have rel: "only_slot ?p p' (slot ?m)" "\<not> rq_live (kv_requests p' ! slot ?m)" "rq_page_count (kv_requests p' ! slot ?m) = 0"
      "rq_generation (kv_requests p' ! slot ?m) = rq_generation (kv_requests ?p ! slot ?m) + 1"
      using go(3) by (auto simp: released_def Let_def)
    have "rq_generation (kv_requests ?p ! slot ?m) = generation ?m"
      using f(4) by (simp add: key_decision_None live_at_def)
    then have "slot_coupled (sc_slots s' ! slot ?m) (kv_requests p' ! slot ?m)"
      "member_effect s0 p0 s' p' ?m (acc ! k)" "settled s' (slot ?m)"
      using s'(4) vac rel rt f(2) sched_inv_slot [OF s'(2) f(1)]
      by (auto simp: slot_coupled_def member_effect_def settled_def slot_ok_def Let_def)
    from settling_advance [OF st rdy k s'(2,3) this(3) go(2) rel(1) this(1,2)]
    show ?thesis using f(9,11,12) rt go(1) s'(1)
      by (auto simp: settle_member_def upd_ok Let_def settle_outcome_def)
  qed
qed

lemma settle_members_ok:
  assumes "settling C s0 p0 ms acc k e" "members_ready C s0 p0 ms acc" "k + n = length ms"
  shows "settle_outcome C s0 p0 ms acc (length ms) (settle_members n C e acc k)"
  using assms
proof (induction n arbitrary: k e)
  case 0
  then show ?case by (simp add: settle_outcome_def)
next
  case (Suc n)
  have k: "k < length ms" using Suc.prems(3) by simp
  have "sl_state (sc_slots (en_scheduler e) ! slot (ms ! k)) = InFlight \<or>
      sl_state (sc_slots (en_scheduler e) ! slot (ms ! k)) = Retiring"
    using settle_facts(6) [OF Suc.prems(1,2) k] by (auto simp: member_ok_def Let_def split: request_state.splits)
  then have o': "settle_outcome C s0 p0 ms acc (Suc k) (settle_member C e acc k)"
    using settle_finalize [OF Suc.prems(1,2) k] settle_detach [OF Suc.prems(1,2) k] by blast
  have kb: "k + 1 \<le> U64_MAX" using k Suc.prems(2) by (simp add: members_ready_def)
  from o' consider e' where "settle_member C e acc k = Some (Inr (), e')" "settling C s0 p0 ms acc (Suc k) e'"
    | err e' where "settle_member C e acc k = Some (Inl (failure_consumed (EngKv err)), e')" "exhaustion err"
      "engine_inv C e'" "en_faulted e'"
    unfolding settle_outcome_def by blast
  then show ?case
  proof cases
    case 1
    then show ?thesis using Suc.IH [OF 1(2) Suc.prems(2)] Suc.prems(3) kb by (simp add: u_add_ok)
  next
    case 2
    then show ?thesis by (auto simp: settle_outcome_def)
  qed
qed

subsection \<open>Completion\<close>

text \<open>What the caller can get wrong; every such completion is handed back unconsumed.\<close>

definition completion_refused :: "nat \<Rightarrow> engine \<Rightarrow> exact_completion \<Rightarrow> u32 list \<Rightarrow> bool" where
  "completion_refused C e c acc =
     (let s = en_scheduler e; n = pending_count C s in
      en_faulted e \<or> length acc \<noteq> n \<or> n = 0 \<or> epoch_value (ec_epoch c) \<noteq> Suc (sc_completed s)
      \<or> \<not> (\<forall>j < n. member_ok s (en_kv e) (pending C s ! j) (acc ! j)))"

lemma preflight_complete_exact_eq:
  assumes inv: "engine_inv C e"
  shows "if completion_refused C e c acc then \<exists>err. preflight_complete_exact C e c acc = Some (Inl err)
    else preflight_complete_exact C e c acc = Some (Inr ())"
proof (cases "en_faulted e \<or> length acc \<noteq> pending_count C (en_scheduler e) \<or> pending_count C (en_scheduler e) = 0
    \<or> epoch_value (ec_epoch c) \<noteq> Suc (sc_completed (en_scheduler e))")
  case True
  note I = engine_invD [OF inv]
  from True show ?thesis using pending_facts(1) [OF I(1)]
    by (auto simp: completion_refused_def preflight_complete_exact_def check_exact_next_def completed_epoch_def Let_def
        split: option.splits)
next
  case False
  note I = engine_invD [OF inv]
  have lt: "sc_completed (en_scheduler e) < U64_MAX"
  proof -
    have "batch_view C (en_scheduler e) \<noteq> []" using False pending_facts(4) [OF I(1)] by simp
    then have "\<not> sc_submitted (en_scheduler e) \<le> sc_completed (en_scheduler e)"
      using sched_inv_batches [OF I(1)] by (auto simp: batches_ok_def)
    then show ?thesis using sched_shapeD(10) [OF I(1)] by simp
  qed
  have "preflight_complete_exact C e c acc = preflight_members (pending_count C (en_scheduler e)) C e c acc 0"
    using False pending_facts(1) [OF I(1)] lt
    by (simp add: preflight_complete_exact_def check_exact_next_def completed_epoch_def u_add_def)
  then show ?thesis
    using False preflight_members_eq [OF inv, of c acc 0 "pending_count C (en_scheduler e)"]
    by (auto simp: completion_refused_def Let_def split: if_splits)
qed

definition batch_settled :: "nat \<Rightarrow> engine \<Rightarrow> engine \<Rightarrow> u32 list \<Rightarrow> bool" where
  "batch_settled C e e' acc =
     (let s = en_scheduler e; ms = pending C s in
      sc_completed (en_scheduler e') = Suc (sc_completed s)
      \<and> (\<forall>j < length ms. member_effect s (en_kv e) (en_scheduler e') (en_kv e') (ms ! j) (acc ! j))
      \<and> (\<forall>i < C. i \<notin> slot ` set ms \<longrightarrow> sc_slots (en_scheduler e') ! i = sc_slots s ! i
           \<and> kv_requests (en_kv e') ! i = kv_requests (en_kv e) ! i))"

lemma settled_next:
  assumes "settled s i" "slot_ok s (sc_slots s ! i)" "sc_slots s' ! i = sc_slots s ! i"
    "sc_completed s' = Suc (sc_completed s)" "seq_of s' i = seq_of s i"
  shows "settled s' i"
proof -
  obtain sl where sl: "sc_slots s ! i = sl" "sc_slots s' ! i = sl" using assms(3) by simp
  have "sl_active_epoch sl \<noteq> Suc (sc_completed s)"
  proof
    assume a: "sl_active_epoch sl = Suc (sc_completed s)"
    then have "sl_state sl = InFlight \<or> sl_state sl = Retiring"
      using assms(2) sl by (cases "sl_state sl") (auto simp: slot_ok_def)
    then show False using assms(4,5) a sl by (auto simp: seq_of_def Let_def)
  qed
  then show ?thesis using assms(1,4) sl by (auto simp: settled_def le_Suc_eq)
qed

lemma engine_complete_exact_correct:
  assumes inv: "engine_inv C e"
  shows "if completion_refused C e c acc
    then \<exists>err. engine_complete_exact C e c acc = Some (Inl (failure_returned err c), e)
    else (\<exists>e'. engine_complete_exact C e c acc = Some (Inr (pending_count C (en_scheduler e)), e')
            \<and> engine_inv C e' \<and> \<not> en_faulted e' \<and> batch_settled C e e' acc)
       \<or> (\<exists>err e'. engine_complete_exact C e c acc = Some (Inl (failure_consumed (EngKv err)), e')
            \<and> exhaustion err \<and> engine_inv C e' \<and> en_faulted e')"
proof (cases "completion_refused C e c acc")
  case True
  then show ?thesis using preflight_complete_exact_eq [OF inv, of c acc] by (auto simp: engine_complete_exact_def)
next
  case False
  let ?s = "en_scheduler e" and ?p = "en_kv e"
  let ?n = "pending_count C ?s" and ?ms = "pending C ?s"
  note I = engine_invD [OF inv] and P = pending_facts [OF I(1)] and sh = sched_shapeD [OF I(1)]
  have r: "\<not> en_faulted e" "length acc = ?n" "?n \<noteq> 0" "epoch_value (ec_epoch c) = Suc (sc_completed ?s)"
    "\<forall>j < ?n. member_ok ?s ?p (?ms ! j) (acc ! j)"
    using False by (auto simp: completion_refused_def Let_def)
  have pre: "preflight_complete_exact C e c acc = Some (Inr ())" "recheck_members ?n C e c acc 0 = Some (Inr ())"
    using False preflight_complete_exact_eq [OF inv, of c acc] preflight_members_eq [OF inv r(1,4,2), of 0 ?n] r(5)
    by auto
  obtain b bs where bv: "batch_view C ?s = b # bs" using P(4) r(3) by (cases "batch_view C ?s") auto
  then have n: "?n = br_member_count b" by (simp add: pending_count_def)
  have "complete_decision C ?s c (en_permits e) = None"
    using bv n r(4) P(3) I(6) [OF r(1)] by (simp add: complete_decision_def)
  then obtain s1 where s1: "sched_complete_exact C ?s c (en_permits e) =
      Some (Inr ?n, permits_for (Suc (sc_completed ?s)) ?ms @ drop ?n (en_permits e), s1)"
    "sched_inv C s1" "batch_completed C ?s s1 ?n"
    using sched_complete_exact_correct [OF I(1), of c "en_permits e"] bv n by (auto simp: Let_def pending_def)
  have same: "sc_slots s1 = sc_slots ?s" "sc_completed s1 = Suc (sc_completed ?s)"
    using s1(3) by (auto simp: batch_completed_def)
  let ?e = "e\<lparr>en_scheduler := s1, en_permits := permits_for (Suc (sc_completed ?s)) ?ms @ drop ?n (en_permits e)\<rparr>"
  have mr: "members_ready C s1 ?p ?ms acc"
  proof -
    have "member_ok s1 ?p m a = member_ok ?s ?p m a" for m a by (simp add: member_ok_def same)
    then show ?thesis using r(2,5) P(2,3,5) sh(2) pending_own [OF I(1)]
      by (simp add: members_ready_def same)
  qed
  have "settled s1 i" if "i < C" "i \<notin> slot ` set ?ms" for i
  proof -
    have "seq_of s1 i = seq_of ?s i" using s1(3) that by (simp add: batch_completed_def pending_def)
    then show ?thesis
      using settled_next [OF I(5) [OF r(1) that(1)] sched_inv_slot [OF I(1) that(1)], of s1] same by simp
  qed
  then have st: "settling C s1 ?p ?ms acc 0 ?e"
    using r(1) s1(2) I(2) I(4) [OF r(1)] I(6) [OF r(1)] P(2) same
    by (simp add: settling_def coupled_def)
  have out: "settle_outcome C s1 ?p ?ms acc (length ?ms) (settle_members ?n C ?e acc 0)"
    using settle_members_ok [OF st mr, of ?n] P(2) by simp
  have run: "engine_complete_exact C e c acc = do {
      (x, e') \<leftarrow> settle_members ?n C ?e acc 0; Some (map_sum id (\<lambda>_. ?n) x, e') }"
    using pre r P(1) s1(1) by (simp add: engine_complete_exact_def)
  have fin: "engine_inv C e' \<and> \<not> en_faulted e' \<and> batch_settled C e e' acc"
    if e': "settling C s1 ?p ?ms acc (length ?ms) e'" for e'
  proof -
    have "member_effect s1 ?p s p m a = member_effect ?s ?p s p m a" for s p m a
      by (simp add: member_effect_def same)
    then show ?thesis using e' P(2,3) same
      by (auto simp: settling_def engine_inv_def batch_settled_def permits_for_def replicate_add [symmetric] Let_def)
  qed
  show ?thesis using False out fin unfolding run settle_outcome_def by auto
qed

end
