(* ===== verification/Engine_Machine.thy ===== *)
theory Engine_Machine
  imports Engine_Completion
begin

text \<open>
  The engine's methods as one fail-stop machine.  The two quarantine entry points, by which the executors
  around the engine give it up, are calls like every other: the first faults the engine in place, the
  second also moves it into terminal custody, where the state of the machine is the engine in custody.
\<close>

datatype engine_call =
    EAdmit
  | EAppend request_id "32 word"
  | EShare request_id request_id "32 word"
  | ERead request_id "32 word" "32 word"
  | ERetire request_id
  | EReincarnate
  | EReclaim
  | EDispatch "request_id list"
  | EDispatchM1
  | EDispatchExact completion_epoch "request_id list"
  | EComplete exact_completion "32 word list"
  | EQuarantine
  | ECaptureQuarantine

datatype engine_failure =
    EFailure engine_error
  | EExactFailure m1_exact_dispatch_error
  | ECompletionFailure engine_completion_failure

datatype engine_reply =
    EDone
  | EHandle request_id
  | EReclaimed "request_id option"
  | EBatch "dispatch_batch option" "request_id list"
  | EScheduled "m1_scheduled_dispatch option"
  | ECompleted nat

definition engine_step :: "nat \<Rightarrow> engine_call \<Rightarrow> engine \<Rightarrow> ((engine_failure + engine_reply) \<times> engine) exec" where
  "engine_step C call e =
     (case call of
        EAdmit \<Rightarrow> map_option (apfst (map_sum EFailure EHandle)) (engine_admit C e)
      | EAppend q n \<Rightarrow>
          map_option (apfst (map_sum EFailure (\<lambda>_. EDone))) (engine_append_tentative C e q (unat n))
      | EShare a b n \<Rightarrow>
          map_option (apfst (map_sum EFailure (\<lambda>_. EDone))) (engine_share_committed_prefix C e a b (unat n))
      | ERead q a n \<Rightarrow>
          map_option (\<lambda>r. (map_sum EFailure (\<lambda>_. EDone) r, e)) (engine_validate_read e q (unat a) (unat n))
      | ERetire q \<Rightarrow> map_option (apfst (map_sum EFailure (\<lambda>_. EDone))) (engine_retire C e q)
      | EReincarnate \<Rightarrow> map_option (apfst (map_sum EFailure EHandle)) (reincarnate_next_retiring C e)
      | EReclaim \<Rightarrow> map_option (apfst (map_sum EFailure EReclaimed)) (reclaim_one C e)
      | EDispatch storage \<Rightarrow>
          map_option (\<lambda>(r, out, e'). (map_sum EFailure (\<lambda>b. EBatch b out) r, e'))
            (engine_dispatch_ready C e storage)
      | EDispatchM1 \<Rightarrow> map_option (apfst (map_sum EFailure EScheduled)) (dispatch_m1_ready C e)
      | EDispatchExact epoch qs \<Rightarrow>
          map_option (apfst (map_sum EExactFailure (EScheduled \<circ> Some))) (engine_dispatch_m1_exact_ready C e epoch qs)
      | EComplete c acc \<Rightarrow>
          map_option (apfst (map_sum ECompletionFailure ECompleted)) (engine_complete_exact C e c (map unat acc))
      | EQuarantine \<Rightarrow> Some (Inr EDone, quarantine e)
      | ECaptureQuarantine \<Rightarrow> Some (Inr EDone, cq_engine (into_m1_capture_quarantine e)))"

definition quarantines :: "engine_call \<Rightarrow> bool" where
  "quarantines call = (call = EQuarantine \<or> call = ECaptureQuarantine)"

text \<open>The failures that fault the engine.\<close>

definition exhausted :: "engine_failure \<Rightarrow> bool" where
  "exhausted f = (case f of
       EFailure err \<Rightarrow> eng_exhaustion err
     | EExactFailure _ \<Rightarrow> False
     | ECompletionFailure cf \<Rightarrow> ef_completion cf = None \<and> eng_exhaustion (ef_error cf))"

lemma engine_ok_map:
  assumes "engine_ok C e ex out" "\<And>x. ex x \<Longrightarrow> ex' (f x)"
  shows "engine_ok C e ex' (map_option (apfst (map_sum f g)) out)"
  using assms by (auto simp: engine_ok_def isl_map_sum)

lemma engine_step_quarantine:
  "quarantines call \<Longrightarrow> engine_step C call e = Some (Inr EDone, quarantine e)"
  by (auto simp: quarantines_def engine_step_def into_m1_capture_quarantine_def)

lemma engine_inv_quarantine: "engine_inv C e \<Longrightarrow> engine_inv C (quarantine e)"
  by (simp add: engine_inv_def quarantine_def)

lemma engine_step_ok:
  assumes inv: "engine_inv C e" and nq: "\<not> quarantines call"
  shows "engine_ok C e exhausted (engine_step C call e)"
proof (cases call)
  case EAdmit
  then show ?thesis unfolding engine_step_def
    using engine_ok_map [OF engine_admit_ok [OF inv], of exhausted EFailure] by (simp add: exhausted_def)
next
  case (EAppend q n)
  then show ?thesis unfolding engine_step_def
    using engine_ok_map [OF engine_append_ok [OF inv], of exhausted EFailure] by (simp add: exhausted_def)
next
  case (EShare a b n)
  then show ?thesis unfolding engine_step_def
    using engine_ok_map [OF engine_share_ok [OF inv unat32_le], of exhausted EFailure] by (simp add: exhausted_def)
next
  case (ERead q a n)
  then show ?thesis unfolding engine_step_def
    using validate_read_key_correct [OF engine_invD(2) [OF inv]] inv
    by (auto simp: engine_validate_read_def kv_validate_read_def engine_ok_def)
next
  case (ERetire q)
  then show ?thesis unfolding engine_step_def
    using engine_ok_map [OF engine_retire_ok [OF inv], of exhausted EFailure] by (simp add: exhausted_def)
next
  case EReincarnate
  then show ?thesis unfolding engine_step_def
    using engine_ok_map [OF reincarnate_ok [OF inv], of exhausted EFailure] by (simp add: exhausted_def)
next
  case EReclaim
  then show ?thesis unfolding engine_step_def
    using engine_ok_map [OF reclaim_one_ok [OF inv], of exhausted EFailure] by (simp add: exhausted_def)
next
  case (EDispatch storage)
  obtain r out e' where d: "engine_dispatch_ready C e storage = Some (r, out, e')"
    "engine_ok C e eng_exhaustion (Some (r, e'))"
    using engine_dispatch_ready_ok [OF inv] by blast
  then show ?thesis unfolding engine_step_def EDispatch
    using engine_ok_map [OF d(2), of exhausted EFailure "\<lambda>b. EBatch b out"] by (simp add: exhausted_def)
next
  case EDispatchM1
  then show ?thesis unfolding engine_step_def
    using engine_ok_map [OF dispatch_m1_ready_ok [OF inv], of exhausted EFailure] by (simp add: exhausted_def)
next
  case (EDispatchExact epoch qs)
  then show ?thesis unfolding engine_step_def
    using engine_ok_map [OF engine_dispatch_exact_ok [OF inv], of exhausted EExactFailure] by simp
next
  case (EComplete c acc)
  have "engine_ok C e (\<lambda>cf. ef_completion cf = None \<and> eng_exhaustion (ef_error cf))
      (engine_complete_exact C e c (map unat acc))"
    using engine_complete_exact_correct [OF inv, of c "map unat acc"] inv
    by (auto simp: engine_ok_def failure_consumed_def eng_exhaustion_def completion_refused_def Let_def split: if_splits)
  then show ?thesis unfolding engine_step_def EComplete
    using engine_ok_map [of C e _ _ exhausted ECompletionFailure] by (simp add: exhausted_def)
qed (use nq in \<open>simp_all add: quarantines_def\<close>)

lemma faulted_step:
  assumes inv: "engine_inv C e" and f: "en_faulted e" and nq: "\<not> quarantines call"
  shows "\<exists>x. engine_step C call e = Some (Inl x, e)"
  using preflight_complete_exact_eq [OF inv] f nq
  by (cases call) (auto simp: engine_step_def engine_admit_def engine_append_tentative_def
      engine_share_committed_prefix_def engine_validate_read_def engine_retire_def reincarnate_next_retiring_def
      reclaim_one_def engine_dispatch_ready_def dispatch_m1_ready_def engine_dispatch_m1_exact_ready_def
      engine_complete_exact_def preflight_complete_exact_def quarantines_def)

text \<open>Quarantining once more is the one call a faulted engine still accepts; it changes nothing.\<close>

lemma quarantine_faulted: "en_faulted e \<Longrightarrow> quarantine e = e"
  by (simp add: quarantine_def)

interpretation engine: fail_stop_machine "engine_inv C" "engine_step C" en_faulted
proof
  fix e call assume inv: "engine_inv C e"
  show "engine_step C call e \<noteq> None"
    using engine_step_ok [OF inv, of call] engine_step_quarantine [of call] by (auto simp: engine_ok_def)
next
  fix e call r e' assume "engine_inv C e" "engine_step C call e = Some (r, e')"
  then show "engine_inv C e'"
    using engine_step_ok [of C e call] engine_step_quarantine [of call] engine_inv_quarantine
    by (cases "quarantines call") (auto simp: engine_ok_def)
next
  fix e call assume "engine_inv C e" "en_faulted e"
  then show "\<exists>r. engine_step C call e = Some (r, e)"
    using faulted_step [of C e call] engine_step_quarantine [of call] quarantine_faulted
    by (cases "quarantines call") auto
next
  fix e call x e' assume "engine_inv C e" "engine_step C call e = Some (Inl x, e')" "\<not> en_faulted e'"
  then show "e' = e" using engine_step_ok [of C e call] engine_step_quarantine [of call]
    by (cases "quarantines call") (auto simp: engine_ok_def)
qed

end
