(* ===== verification/Speculation.thy ===== *)
theory Speculation
  imports Lifecycle Complex_Main
begin

text \<open>
  Greedy speculative decoding as \<^verbatim>\<open>ferric-spec\<close> specifies and executes it: the acceptance
  rule of one round (\<^verbatim>\<open>speculation.rs\<close>), the argmax over encoded scores and the check of the
  compact record a device writes (\<^verbatim>\<open>m1_completion.rs\<close>), and the join of the two before
  anything is published (\<^verbatim>\<open>speculative_completion.rs\<close>).  Indexing and arithmetic that could
  panic in Rust are \<^const>\<open>None\<close> here.
\<close>

subsection \<open>One greedy round\<close>

type_synonym token_id = u32

record greedy_commit =
  gc_accepted_draft_tokens :: usize
  gc_emitted_tokens :: "token_id list"
  gc_target_correction_or_bonus :: token_id

datatype greedy_verification_error =
    MissingTargetBonus
  | DraftTokenCountOverflow
  | IncorrectTargetChoiceCount usize usize

text \<open>The two loops of \<open>verify_greedy_round\<close>; the first argument counts the iterations left.\<close>

fun accept_draft :: "nat \<Rightarrow> token_id list \<Rightarrow> token_id list \<Rightarrow> usize \<Rightarrow> usize exec" where
  "accept_draft 0 draft target accepted = Some accepted"
| "accept_draft (Suc n) draft target accepted = do {
     d \<leftarrow> idx draft accepted;
     t \<leftarrow> idx target accepted;
     if d = t then do { accepted' \<leftarrow> usize_add accepted 1; accept_draft n draft target accepted' }
     else Some accepted }"

fun emit_accepted :: "nat \<Rightarrow> token_id list \<Rightarrow> usize \<Rightarrow> token_id list \<Rightarrow> token_id list exec" where
  "emit_accepted 0 draft index emitted = Some emitted"
| "emit_accepted (Suc n) draft index emitted = do {
     d \<leftarrow> idx draft index;
     index' \<leftarrow> usize_add index 1;
     emit_accepted n draft index' (emitted @ [d]) }"

definition verify_greedy_round ::
  "token_id list \<Rightarrow> token_id list \<Rightarrow> (greedy_verification_error + greedy_commit) exec" where
  "verify_greedy_round draft target =
     (if target = [] then Some (Inl MissingTargetBonus)
      else case usize_add (length draft) 1 of
        None \<Rightarrow> Some (Inl DraftTokenCountOverflow)
      | Some expected \<Rightarrow>
          if length target \<noteq> expected
          then Some (Inl (IncorrectTargetChoiceCount expected (length target)))
          else do {
            accepted \<leftarrow> accept_draft (length draft) draft target 0;
            correction_or_bonus \<leftarrow> idx target accepted;
            emitted \<leftarrow> emit_accepted accepted draft 0 [];
            Some (Inr \<lparr>gc_accepted_draft_tokens = accepted,
                       gc_emitted_tokens = emitted @ [correction_or_bonus],
                       gc_target_correction_or_bonus = correction_or_bonus\<rparr>) })"

subsection \<open>Argmax\<close>

definition QWEN3_VOCABULARY_SIZE :: u32 where "QWEN3_VOCABULARY_SIZE = 151936"
definition M1_MAX_COMPLETION_TOKENS :: usize where "M1_MAX_COMPLETION_TOKENS = 17"

text \<open>The sixteen bits as a number below 65536; the key is a signed 64-bit integer.\<close>

definition finite_bf16_order_key :: "nat \<Rightarrow> int option" where
  "finite_bf16_order_key bits =
     (let magnitude = bits mod 32768 in
      if 32640 \<le> magnitude then None
      else if bits < 32768 then Some (int magnitude)
      else Some (- int magnitude))"

datatype finite_bf16_argmax_error = RowExtent | NonFinite token_id

fun bf16_argmax_loop ::
  "nat \<Rightarrow> u8 list \<Rightarrow> u32 \<Rightarrow> u32 \<Rightarrow> int \<Rightarrow> (finite_bf16_argmax_error + token_id) exec" where
  "bf16_argmax_loop 0 bytes index best best_value = Some (Inr best)"
| "bf16_argmax_loop (Suc n) bytes index best best_value = do {
     lo \<leftarrow> idx bytes (2 * index);
     hi \<leftarrow> idx bytes (2 * index + 1);
     case finite_bf16_order_key (lo + hi * 256) of
       None \<Rightarrow> Some (Inl (NonFinite index))
     | Some key \<Rightarrow> do {
         index' \<leftarrow> u32_add index 1;
         if index = 0 \<or> best_value < key then bf16_argmax_loop n bytes index' index key
         else bf16_argmax_loop n bytes index' best best_value } }"

definition select_lowest_finite_bf16_argmax ::
  "u8 list \<Rightarrow> (finite_bf16_argmax_error + token_id) exec" where
  "select_lowest_finite_bf16_argmax bytes =
     (if length bytes \<noteq> 2 * QWEN3_VOCABULARY_SIZE then Some (Inl RowExtent)
      else bf16_argmax_loop QWEN3_VOCABULARY_SIZE bytes 0 0 0)"

datatype compact_completion_error =
    ExpectedPlanIdentityAbsent
  | CompactRequestMismatch
  | CompactEpochMismatch
  | PlanIdentityMismatch
  | CompactDraftLengthOutOfRange
  | AcceptedLengthOutOfRange
  | EmittedLengthMismatch
  | TokenOutOfRange
  | NonzeroUnusedToken
  | ScoreCountMismatch

fun argmax_loop :: "nat \<Rightarrow> int list \<Rightarrow> u32 \<Rightarrow> u32 \<Rightarrow> token_id exec" where
  "argmax_loop 0 scores best index = Some best"
| "argmax_loop (Suc n) scores best index = do {
     s \<leftarrow> idx scores index;
     b \<leftarrow> idx scores best;
     index' \<leftarrow> u32_add index 1;
     argmax_loop n scores (if b < s then index else best) index' }"

definition select_lowest_argmax :: "int list \<Rightarrow> (compact_completion_error + token_id) exec" where
  "select_lowest_argmax scores =
     (if length scores \<noteq> QWEN3_VOCABULARY_SIZE then Some (Inl ScoreCountMismatch)
      else map_option Inr (argmax_loop (length scores - 1) scores 0 1))"

subsection \<open>Compact completion records\<close>

record compact_completion_record =
  cr_request :: request_id
  cr_epoch :: completion_epoch
  cr_plan_id :: identity
  cr_accepted_draft_tokens :: u8
  cr_emitted_token_count :: u8
  cr_emitted_tokens :: "token_id list"

text \<open>The two loops over the payload: live tokens, then unused slots.\<close>

fun check_live_tokens :: "nat \<Rightarrow> token_id list \<Rightarrow> usize \<Rightarrow> (compact_completion_error + unit) exec" where
  "check_live_tokens 0 tokens index = Some (Inr ())"
| "check_live_tokens (Suc n) tokens index = do {
     t \<leftarrow> idx tokens index;
     if QWEN3_VOCABULARY_SIZE \<le> t then Some (Inl TokenOutOfRange)
     else do { index' \<leftarrow> usize_add index 1; check_live_tokens n tokens index' } }"

fun check_unused_tokens :: "nat \<Rightarrow> token_id list \<Rightarrow> usize \<Rightarrow> (compact_completion_error + unit) exec" where
  "check_unused_tokens 0 tokens index = Some (Inr ())"
| "check_unused_tokens (Suc n) tokens index = do {
     t \<leftarrow> idx tokens index;
     if t \<noteq> 0 then Some (Inl NonzeroUnusedToken)
     else do { index' \<leftarrow> usize_add index 1; check_unused_tokens n tokens index' } }"

definition validate_compact_completion ::
  "compact_completion_record \<Rightarrow> request_id \<Rightarrow> completion_epoch \<Rightarrow> identity \<Rightarrow> u8 \<Rightarrow>
   (compact_completion_error + unit) exec" where
  "validate_compact_completion record expected_request expected_epoch expected_plan_id draft_token_count =
     (if \<not> is_present expected_plan_id then Some (Inl ExpectedPlanIdentityAbsent)
      else if slot (cr_request record) \<noteq> slot expected_request
           \<or> generation (cr_request record) \<noteq> generation expected_request
      then Some (Inl CompactRequestMismatch)
      else if epoch_value (cr_epoch record) \<noteq> epoch_value expected_epoch then Some (Inl CompactEpochMismatch)
      else if \<not> identity_equals (cr_plan_id record) expected_plan_id then Some (Inl PlanIdentityMismatch)
      else if 16 < draft_token_count then Some (Inl CompactDraftLengthOutOfRange)
      else if draft_token_count < cr_accepted_draft_tokens record then Some (Inl AcceptedLengthOutOfRange)
      else do {
        expected_emitted \<leftarrow> u_add U8_MAX (cr_accepted_draft_tokens record) 1;
        if cr_emitted_token_count record \<noteq> expected_emitted
           \<or> M1_MAX_COMPLETION_TOKENS < cr_emitted_token_count record
        then Some (Inl EmittedLengthMismatch)
        else do {
          live \<leftarrow> check_live_tokens (cr_emitted_token_count record) (cr_emitted_tokens record) 0;
          case live of
            Inl e \<Rightarrow> Some (Inl e)
          | Inr _ \<Rightarrow> check_unused_tokens (M1_MAX_COMPLETION_TOKENS - cr_emitted_token_count record)
                       (cr_emitted_tokens record) (cr_emitted_token_count record) } })"

subsection \<open>Joining a record to the greedy round\<close>

datatype speculative_completion_error =
    SpecDraftLengthOutOfRange
  | SpecCompletion compact_completion_error
  | SpecGreedy greedy_verification_error
  | AcceptedLengthMismatch
  | EmittedTokenMismatch

fun compare_emitted :: "nat \<Rightarrow> token_id list \<Rightarrow> token_id list \<Rightarrow> usize \<Rightarrow> bool exec" where
  "compare_emitted 0 tokens commit_tokens index = Some True"
| "compare_emitted (Suc n) tokens commit_tokens index = do {
     a \<leftarrow> idx tokens index;
     b \<leftarrow> idx commit_tokens index;
     if a \<noteq> b then Some False
     else do { index' \<leftarrow> usize_add index 1; compare_emitted n tokens commit_tokens index' } }"

definition verify_speculative_completion ::
  "compact_completion_record \<Rightarrow> request_id \<Rightarrow> completion_epoch \<Rightarrow> identity \<Rightarrow>
   token_id list \<Rightarrow> token_id list \<Rightarrow> (speculative_completion_error + greedy_commit) exec" where
  "verify_speculative_completion record expected_request expected_epoch expected_plan_id draft target =
     (if 16 < length draft then Some (Inl SpecDraftLengthOutOfRange)
      else if U8_MAX < length draft then Some (Inl SpecDraftLengthOutOfRange)
      else do {
        completion_result \<leftarrow> validate_compact_completion record expected_request expected_epoch
           expected_plan_id (length draft);
        case completion_result of
          Inl e \<Rightarrow> Some (Inl (SpecCompletion e))
        | Inr _ \<Rightarrow> do {
            greedy_result \<leftarrow> verify_greedy_round draft target;
            case greedy_result of
              Inl e \<Rightarrow> Some (Inl (SpecGreedy e))
            | Inr commit \<Rightarrow>
                if cr_accepted_draft_tokens record \<noteq> gc_accepted_draft_tokens commit
                then Some (Inl AcceptedLengthMismatch)
                else if cr_emitted_token_count record \<noteq> length (gc_emitted_tokens commit)
                then Some (Inl EmittedTokenMismatch)
                else do {
                  same \<leftarrow> compare_emitted (cr_emitted_token_count record) (cr_emitted_tokens record)
                     (gc_emitted_tokens commit) 0;
                  if same then Some (Inr commit) else Some (Inl EmittedTokenMismatch) } } })"

end
