(* ===== verification/Speculation_Properties.thy ===== *)
theory Speculation_Properties
  imports Speculation
begin

text \<open>
  Correctness of the speculative path: one round emits exactly what the target alone would emit,
  the argmax is the argmax of the encoded numbers, and a device record is accepted only when it
  is the one record the round determines.
\<close>

subsection \<open>The acceptance rule\<close>

fun agreement :: "'a list \<Rightarrow> 'a list \<Rightarrow> nat" where
  "agreement (d # ds) (t # ts) = (if d = t then Suc (agreement ds ts) else 0)"
| "agreement _ _ = 0"

lemma agreement_le: "agreement ds ts \<le> length ds" "agreement ds ts \<le> length ts"
  by (induction ds ts rule: agreement.induct) auto

lemma take_agreement: "n \<le> agreement ds ts \<Longrightarrow> take n ds = take n ts"
  by (induction ds ts arbitrary: n rule: agreement.induct) (auto simp: take_Cons' split: if_splits)

lemma accept_draft_eq:
  assumes "k + n = length draft" "length draft < length target" "length target \<le> U64_MAX"
  shows "accept_draft n draft target k = Some (k + agreement (drop k draft) (drop k target))"
  using assms
proof (induction n arbitrary: k)
  case (Suc n)
  have k: "k < length draft" "k < length target" using Suc.prems by auto
  then have "drop k draft = draft ! k # drop (Suc k) draft" "drop k target = target ! k # drop (Suc k) target"
    by (simp_all add: Cons_nth_drop_Suc)
  then show ?case using Suc.IH [of "Suc k"] Suc.prems k by (simp add: exec_simps)
qed simp

lemma emit_accepted_eq:
  assumes "k + n \<le> length draft" "length draft \<le> U64_MAX"
  shows "emit_accepted n draft k out = Some (out @ take n (drop k draft))"
  using assms
proof (induction n arbitrary: k out)
  case (Suc n)
  have k: "k < length draft" using Suc.prems by simp
  then have "drop k draft = draft ! k # drop (Suc k) draft" by (simp add: Cons_nth_drop_Suc)
  then show ?case using Suc.IH [of "Suc k"] Suc.prems k by (simp add: exec_simps)
qed simp

text \<open>The outcome of a round: after the length checks, the longest agreeing prefix is accepted and the
  target's own choices are emitted up to the first disagreement or the bonus.\<close>

lemma verify_greedy_round_eq:
  "verify_greedy_round draft target =
     (if target = [] then Some (Inl MissingTargetBonus)
      else if U64_MAX \<le> length draft then Some (Inl DraftTokenCountOverflow)
      else if length target \<noteq> Suc (length draft)
        then Some (Inl (IncorrectTargetChoiceCount (Suc (length draft)) (length target)))
      else Some (Inr \<lparr>gc_accepted_draft_tokens = agreement draft target,
                   gc_emitted_tokens = take (Suc (agreement draft target)) target,
                   gc_target_correction_or_bonus = target ! agreement draft target\<rparr>))"
proof (cases "length target = Suc (length draft) \<and> length draft < U64_MAX")
  case True
  let ?a = "agreement draft target"
  have a: "?a \<le> length draft" "?a < length target" using agreement_le(1) [of draft target] True by auto
  have "take ?a draft @ [target ! ?a] = take (Suc ?a) target"
    using take_agreement [of ?a draft target] a(2) by (simp add: take_Suc_conv_app_nth)
  then show ?thesis using True a accept_draft_eq [of 0 "length draft" draft target] emit_accepted_eq [of 0 ?a draft "[]"]
    by (auto simp: verify_greedy_round_def exec_simps)
qed (auto simp: verify_greedy_round_def u_add_def)

subsection \<open>Speculation is lossless\<close>

text \<open>The target as an oracle: its choice after a context, its choices along a draft, and what it
  generates on its own, one token at a time.\<close>

fun generate :: "(token_id list \<Rightarrow> token_id) \<Rightarrow> nat \<Rightarrow> token_id list \<Rightarrow> token_id list" where
  "generate f 0 ctx = []"
| "generate f (Suc n) ctx = f ctx # generate f n (ctx @ [f ctx])"

definition choices_along :: "(token_id list \<Rightarrow> token_id) \<Rightarrow> token_id list \<Rightarrow> token_id list \<Rightarrow> token_id list" where
  "choices_along f ctx draft = map (\<lambda>i. f (ctx @ take i draft)) [0..<Suc (length draft)]"

lemma choices_Cons: "choices_along f ctx (d # ds) = f ctx # choices_along f (ctx @ [d]) ds"
  by (simp add: choices_along_def upt_conv_Cons map_Suc_upt [symmetric] del: upt_Suc)

lemma length_choices [simp]: "length (choices_along f ctx draft) = Suc (length draft)"
  by (simp add: choices_along_def)

lemma agreement_generates:
  "take (Suc (agreement draft (choices_along f ctx draft))) (choices_along f ctx draft)
     = generate f (Suc (agreement draft (choices_along f ctx draft))) ctx"
proof (induction draft arbitrary: ctx)
  case Nil
  then show ?case by (simp add: choices_along_def)
next
  case (Cons d ds)
  then show ?case by (simp add: choices_Cons)
qed

lemma take_generate: "take n (generate f (Suc n) ctx) = generate f n ctx"
proof (induction n arbitrary: ctx)
  case (Suc n)
  from Suc.IH [of "ctx @ [f ctx]"] show ?case by simp
qed simp

lemma greedy_round_generates:
  assumes "length draft < U64_MAX"
  shows "\<exists>c. verify_greedy_round draft (choices_along f ctx draft) = Some (Inr c)
    \<and> gc_emitted_tokens c = generate f (Suc (gc_accepted_draft_tokens c)) ctx
    \<and> gc_accepted_draft_tokens c \<le> length draft
    \<and> take (gc_accepted_draft_tokens c) draft = generate f (gc_accepted_draft_tokens c) ctx
    \<and> gc_target_correction_or_bonus c = f (ctx @ take (gc_accepted_draft_tokens c) draft)"
proof -
  let ?t = "choices_along f ctx draft"
  let ?a = "agreement draft ?t"
  have a: "?a \<le> length draft" by (rule agreement_le)
  have "verify_greedy_round draft ?t = Some (Inr \<lparr>gc_accepted_draft_tokens = ?a,
      gc_emitted_tokens = take (Suc ?a) ?t, gc_target_correction_or_bonus = ?t ! ?a\<rparr>)"
    using assms by (auto simp: verify_greedy_round_eq choices_along_def)
  moreover have "take ?a draft = generate f ?a ctx"
  proof -
    have "take ?a draft = take ?a (take (Suc ?a) ?t)" using take_agreement [of ?a draft ?t] by simp
    then show ?thesis unfolding agreement_generates take_generate .
  qed
  moreover have "?t ! ?a = f (ctx @ take ?a draft)" using a by (simp add: choices_along_def del: upt_Suc)
  ultimately show ?thesis using a agreement_generates [of draft f ctx] by simp
qed

text \<open>C14: speculation is lossless.  Whatever tokens the draft model proposes, when the target choices are the
  target's own greedy choices along the draft, a round emits exactly the next tokens the target
  would have generated by itself, at least one, and one more than the accepted draft tokens.\<close>

theorem greedy_round_lossless:
  assumes "length draft < U64_MAX"
  shows "\<exists>c. verify_greedy_round draft (choices_along f ctx draft) = Some (Inr c)
    \<and> gc_emitted_tokens c = generate f (Suc (gc_accepted_draft_tokens c)) ctx
    \<and> gc_accepted_draft_tokens c \<le> length draft
    \<and> take (gc_accepted_draft_tokens c) draft = generate f (gc_accepted_draft_tokens c) ctx
    \<and> gc_target_correction_or_bonus c = f (ctx @ take (gc_accepted_draft_tokens c) draft)"
  using assms by (rule greedy_round_generates)

theorem greedy_round_lossless_witness:
  "\<exists>c. verify_greedy_round [1, 2, 9] (choices_along length [0] [1, 2, 9]) = Some (Inr c)
    \<and> gc_emitted_tokens c = generate length (Suc (gc_accepted_draft_tokens c)) [0] \<and> gc_emitted_tokens c = [1, 2, 3]"
proof -
  obtain c where c: "verify_greedy_round [1, 2, 9] (choices_along length [0] [1, 2, 9]) = Some (Inr c)"
    "gc_emitted_tokens c = generate length (Suc (gc_accepted_draft_tokens c)) [0]"
    using greedy_round_lossless [of "[1, 2, 9]" length "[0]"] by auto
  have "choices_along length [0] [1, 2, 9] = [1, 2, 3, 4]" by (simp add: choices_along_def)
  then have "gc_accepted_draft_tokens c = 2" using c(1) by (auto simp: verify_greedy_round_eq)
  then show ?thesis using c by (simp add: numeral_2_eq_2 eval_nat_numeral)
qed

subsection \<open>Encoded numbers and their keys\<close>

text \<open>A BF16 number has a sign bit, eight exponent and seven fraction bits; exponent 255 encodes the
  infinities and NaNs.  The value of a finite encoding, subnormal numbers included.\<close>

definition bf16_finite :: "nat \<Rightarrow> bool" where
  "bf16_finite bits = (bits div 128 mod 256 \<noteq> 255)"

definition bf16_magnitude :: "nat \<Rightarrow> real" where
  "bf16_magnitude k =
     (let e = k div 128; m = k mod 128 in
      if e = 0 then real m / 128 * 2 powi (- 126) else (1 + real m / 128) * 2 powi (int e - 127))"

definition bf16_value :: "nat \<Rightarrow> real" where
  "bf16_value bits = (if bits < 32768 then 1 else - 1) * bf16_magnitude (bits mod 32768)"

text \<open>In units of the smallest subnormal number.\<close>

definition bf16_units :: "nat \<Rightarrow> nat" where
  "bf16_units k = (let e = k div 128; m = k mod 128 in if e = 0 then m else (128 + m) * 2 ^ (e - 1))"

lemma magnitude_units: "bf16_magnitude k = real (bf16_units k) * 2 powi (- 133)"
proof (cases "k div 128 = 0")
  case True
  have "(2 :: real) powi (- 126) = 128 * 2 powi (- 133)" by (simp add: power_int_minus field_simps)
  with True show ?thesis by (simp add: bf16_magnitude_def bf16_units_def Let_def)
next
  case False
  then obtain e where e: "k div 128 = Suc e" using not0_implies_Suc by blast
  have "(2 :: real) powi (int (Suc e) - 127) = 2 ^ e * (128 * 2 powi (- 133))"
    using power_int_add [of "2 :: real" "int e" "- 126"] by (simp add: power_int_minus field_simps)
  then have p: "(2 :: real) powi (int (k div 128) - 127) = 2 ^ e * (128 * 2 powi (- 133))" by (simp only: e)
  show ?thesis unfolding bf16_magnitude_def Let_def p bf16_units_def
    using e by (simp add: distrib_right)
qed

lemma units_Suc: "bf16_units k < bf16_units (Suc k)"
proof (cases "Suc (k mod 128) = 128")
  case True
  have d: "Suc k div 128 = Suc (k div 128)" "Suc k mod 128 = 0" "k mod 128 = 127"
    using True by (simp_all add: div_Suc mod_Suc)
  show ?thesis
  proof (cases "k div 128")
    case (Suc e)
    then show ?thesis unfolding bf16_units_def Let_def d by simp
  qed (simp add: bf16_units_def Let_def d)
next
  case False
  have d: "Suc k div 128 = k div 128" "Suc k mod 128 = Suc (k mod 128)"
    using False by (simp_all add: div_Suc mod_Suc)
  show ?thesis unfolding bf16_units_def Let_def d by simp
qed

lemma units_mono: "bf16_units j < bf16_units k \<longleftrightarrow> j < k"
  using lift_Suc_mono_less_iff [of bf16_units] units_Suc by blast

lemma units_0 [simp]: "bf16_units 0 = 0"
  by (simp add: bf16_units_def)

lemma bf16_value_key:
  assumes "finite_bf16_order_key bits = Some key"
  shows "bf16_value bits = sgn (real_of_int key) * real (bf16_units (nat \<bar>key\<bar>)) * 2 powi (- 133)"
proof -
  have "bits < 32768 \<Longrightarrow> bits mod 32768 = bits" by simp
  then show ?thesis using assms
    by (auto simp: finite_bf16_order_key_def bf16_value_def magnitude_units Let_def sgn_if split: if_splits)
qed

lemma signed_units_less:
  "sgn (real_of_int a) * real (bf16_units (nat \<bar>a\<bar>)) < sgn (real_of_int b) * real (bf16_units (nat \<bar>b\<bar>)) \<longleftrightarrow> a < b"
proof -
  have pos: "0 < bf16_units (nat \<bar>c\<bar>) \<longleftrightarrow> c \<noteq> 0" for c using units_mono [of 0 "nat \<bar>c\<bar>"] by auto
  show ?thesis using units_mono [of "nat \<bar>a\<bar>" "nat \<bar>b\<bar>"] units_mono [of "nat \<bar>b\<bar>" "nat \<bar>a\<bar>"] pos [of a] pos [of b]
    by (auto simp: sgn_if)
qed

lemma key_order:
  assumes "finite_bf16_order_key a = Some k" "finite_bf16_order_key b = Some l"
  shows "k < l \<longleftrightarrow> bf16_value a < bf16_value b"
  using signed_units_less [of k l] unfolding bf16_value_key [OF assms(1)] bf16_value_key [OF assms(2)]
  by (simp add: mult_less_cancel_right)

lemma key_finite: "(\<exists>k. finite_bf16_order_key bits = Some k) \<longleftrightarrow> bf16_finite bits"
proof -
  have "bits mod 32768 = 128 * (bits div 128 mod 256) + bits mod 128" using mod_mult2_eq [of bits 128 256] by simp
  moreover have "bits div 128 mod 256 < 256" "bits mod 128 < 128" by simp_all
  ultimately have "32640 \<le> bits mod 32768 \<longleftrightarrow> bits div 128 mod 256 = 255" by linarith
  then show ?thesis by (auto simp: finite_bf16_order_key_def bf16_finite_def Let_def)
qed

subsection \<open>Scanning for the lowest maximum\<close>

definition lowest_argmax :: "(nat \<Rightarrow> 'a :: linorder) \<Rightarrow> nat \<Rightarrow> nat \<Rightarrow> bool" where
  "lowest_argmax v n t = (t < n \<and> (\<forall>i < n. v i \<le> v t) \<and> (\<forall>i < t. v i < v t))"

lemma lowest_argmax_Suc:
  "lowest_argmax v n b \<Longrightarrow> lowest_argmax v (Suc n) (if v b < v n then n else b)"
  by (auto simp: lowest_argmax_def less_Suc_eq intro: order.strict_trans1 less_imp_le)

lemma lowest_argmax_unique: "lowest_argmax v n s \<Longrightarrow> lowest_argmax v n t \<Longrightarrow> s = t"
  unfolding lowest_argmax_def by (metis leD linorder_neqE_nat)

lemma lowest_argmax_order:
  assumes "lowest_argmax v n t" "\<And>i j. i < n \<Longrightarrow> j < n \<Longrightarrow> v i < v j \<longleftrightarrow> w i < w j"
  shows "lowest_argmax w n t"
  using assms unfolding lowest_argmax_def by (metis leD leI less_trans)

lemma argmax_loop_eq:
  assumes "lowest_argmax ((!) scores) index best" "index + n = length scores" "length scores \<le> U32_MAX"
  shows "\<exists>t. argmax_loop n scores best index = Some t \<and> lowest_argmax ((!) scores) (length scores) t"
  using assms
proof (induction n arbitrary: best index)
  case (Suc n)
  have i: "index < length scores" "best < length scores" using Suc.prems by (auto simp: lowest_argmax_def)
  from lowest_argmax_Suc [OF Suc.prems(1)] Suc.IH [of "Suc index" "if scores ! best < scores ! index then index else best"]
  show ?case using i Suc.prems by (simp add: exec_simps)
qed simp

text \<open>The encoding at a row position, and its key where it is finite.\<close>

definition bf16_at :: "u8 list \<Rightarrow> nat \<Rightarrow> nat" where
  "bf16_at bytes i = bytes ! (2 * i) + bytes ! (2 * i + 1) * 256"

definition key_at :: "u8 list \<Rightarrow> nat \<Rightarrow> int" where
  "key_at bytes i = the (finite_bf16_order_key (bf16_at bytes i))"

lemma bf16_argmax_loop_eq:
  assumes "\<And>i. i < index \<Longrightarrow> bf16_finite (bf16_at bytes i)"
    and "index = 0 \<or> lowest_argmax (key_at bytes) index best \<and> value = key_at bytes best"
    and "index + n = rows" "0 < rows" "2 * rows \<le> length bytes" "rows \<le> U32_MAX"
  shows "case bf16_argmax_loop n bytes index best value of
      Some (Inr t) \<Rightarrow> (\<forall>i < rows. bf16_finite (bf16_at bytes i)) \<and> lowest_argmax (key_at bytes) rows t
    | Some (Inl (NonFinite t)) \<Rightarrow> t < rows \<and> \<not> bf16_finite (bf16_at bytes t) \<and> (\<forall>i < t. bf16_finite (bf16_at bytes i))
    | _ \<Rightarrow> False"
  using assms
proof (induction n arbitrary: index best "value")
  case 0
  then show ?case by auto
next
  case (Suc n)
  have i: "2 * index < length bytes" "2 * index + 1 < length bytes" "index < rows" using Suc.prems by auto
  let ?k = "finite_bf16_order_key (bf16_at bytes index)"
  show ?case
  proof (cases ?k)
    case None
    then have "\<not> bf16_finite (bf16_at bytes index)" using key_finite [of "bf16_at bytes index"] by simp
    then show ?thesis using None i Suc.prems(1) by (simp add: exec_simps bf16_at_def)
  next
    case (Some k)
    have fin: "bf16_finite (bf16_at bytes j)" if "j < Suc index" for j
      using Suc.prems(1) [of j] that key_finite [of "bf16_at bytes index"] Some by (cases "j = index") auto
    have k: "k = key_at bytes index" using Some by (simp add: key_at_def)
    let ?better = "index = 0 \<or> value < k"
    have step: "bf16_argmax_loop (Suc n) bytes index best value =
        bf16_argmax_loop n bytes (Suc index) (if ?better then index else best) (if ?better then k else value)"
      using i Some Suc.prems(6) by (simp add: exec_simps bf16_at_def)
    have "lowest_argmax (key_at bytes) (Suc index) (if ?better then index else best)
        \<and> (if ?better then k else value) = key_at bytes (if ?better then index else best)"
      using Suc.prems(2) lowest_argmax_Suc [of "key_at bytes" index best] k
      by (cases "index = 0") (auto simp: lowest_argmax_def)
    then show ?thesis unfolding step using Suc.IH [OF fin] Suc.prems(3-6) by simp
  qed
qed

lemma select_lowest_argmax_eq:
  assumes t: "lowest_argmax v QWEN3_VOCABULARY_SIZE t"
  shows "select_lowest_argmax (map v [0..<QWEN3_VOCABULARY_SIZE]) = Some (Inr t)"
proof -
  let ?V = "QWEN3_VOCABULARY_SIZE" and ?ks = "map v [0..<QWEN3_VOCABULARY_SIZE]"
  have V: "1 \<le> ?V" "?V \<le> U32_MAX" by (simp_all add: QWEN3_VOCABULARY_SIZE_def)
  have "\<exists>s. argmax_loop (?V - 1) ?ks 0 1 = Some s \<and> lowest_argmax ((!) ?ks) (length ?ks) s"
    by (rule argmax_loop_eq) (use V in \<open>auto simp: lowest_argmax_def\<close>)
  then obtain s where s: "argmax_loop (?V - 1) ?ks 0 1 = Some s" "lowest_argmax ((!) ?ks) ?V s" by auto
  have "lowest_argmax v ?V s" by (rule lowest_argmax_order [OF s(2)]) simp
  then have "s = t" using t by (rule lowest_argmax_unique)
  with s(1) show ?thesis by (simp add: select_lowest_argmax_def)
qed

text \<open>C15: the selected token has the greatest logit.  On a row of bytes \<^verbatim>\<open>select_lowest_finite_bf16_argmax\<close> never
  panics: it rejects a row of the wrong length; otherwise it reports the first encoding that is an infinity
  or NaN, if there is one; otherwise it returns the lowest token whose BF16 number, as a real number,
  is greatest, the same token the integer argmax \<^verbatim>\<open>select_lowest_argmax\<close> selects on the keys.\<close>

theorem bf16_argmax_is_greatest:
  fixes row :: "8 word list"
  shows "case select_lowest_finite_bf16_argmax (map unat row) of
      None \<Rightarrow> False
    | Some (Inl RowExtent) \<Rightarrow> length row \<noteq> 2 * QWEN3_VOCABULARY_SIZE
    | Some (Inl (NonFinite t)) \<Rightarrow> t < QWEN3_VOCABULARY_SIZE \<and> \<not> bf16_finite (bf16_at (map unat row) t)
        \<and> (\<forall>i < t. bf16_finite (bf16_at (map unat row) i))
    | Some (Inr t) \<Rightarrow> t < QWEN3_VOCABULARY_SIZE
        \<and> (\<forall>i < QWEN3_VOCABULARY_SIZE. bf16_finite (bf16_at (map unat row) i)
             \<and> bf16_value (bf16_at (map unat row) i) \<le> bf16_value (bf16_at (map unat row) t))
        \<and> (\<forall>i < t. bf16_value (bf16_at (map unat row) i) < bf16_value (bf16_at (map unat row) t))
        \<and> select_lowest_argmax (map (key_at (map unat row)) [0..<QWEN3_VOCABULARY_SIZE]) = Some (Inr t)"
proof (cases "length row = 2 * QWEN3_VOCABULARY_SIZE")
  case False
  then show ?thesis by (simp add: select_lowest_finite_bf16_argmax_def)
next
  case True
  let ?b = "map unat row" and ?V = "QWEN3_VOCABULARY_SIZE"
  have V: "0 < ?V" "?V \<le> U32_MAX" by (simp_all add: QWEN3_VOCABULARY_SIZE_def)
  have sel: "select_lowest_finite_bf16_argmax ?b = bf16_argmax_loop ?V ?b 0 0 0"
    using True by (simp add: select_lowest_finite_bf16_argmax_def)
  have loop: "case select_lowest_finite_bf16_argmax ?b of
      Some (Inr t) \<Rightarrow> (\<forall>i < ?V. bf16_finite (bf16_at ?b i)) \<and> lowest_argmax (key_at ?b) ?V t
    | Some (Inl (NonFinite t)) \<Rightarrow> t < ?V \<and> \<not> bf16_finite (bf16_at ?b t) \<and> (\<forall>i < t. bf16_finite (bf16_at ?b i))
    | _ \<Rightarrow> False"
    unfolding sel by (rule bf16_argmax_loop_eq) (use True V in auto)
  have found: "lowest_argmax (\<lambda>i. bf16_value (bf16_at ?b i)) ?V t
      \<and> select_lowest_argmax (map (key_at ?b) [0..<?V]) = Some (Inr t)"
    if fin: "\<forall>i < ?V. bf16_finite (bf16_at ?b i)" and t: "lowest_argmax (key_at ?b) ?V t" for t
  proof
    have key: "finite_bf16_order_key (bf16_at ?b i) = Some (key_at ?b i)" if "i < ?V" for i
      using fin that key_finite [of "bf16_at ?b i"] by (auto simp: key_at_def)
    show "lowest_argmax (\<lambda>i. bf16_value (bf16_at ?b i)) ?V t"
      by (rule lowest_argmax_order [OF t]) (use key_order [OF key key] in blast)
    show "select_lowest_argmax (map (key_at ?b) [0..<?V]) = Some (Inr t)" by (rule select_lowest_argmax_eq [OF t])
  qed
  show ?thesis using loop found
    by (auto simp: lowest_argmax_def split: option.splits sum.splits finite_bf16_argmax_error.splits)
qed

theorem bf16_argmax_is_greatest_witness:
  "select_lowest_finite_bf16_argmax (map unat (replicate (2 * QWEN3_VOCABULARY_SIZE) (0 :: 8 word))) = Some (Inr 0)"
proof -
  let ?row = "replicate (2 * QWEN3_VOCABULARY_SIZE) (0 :: 8 word)"
  have at: "bf16_at (map unat ?row) i = 0" if "i < QWEN3_VOCABULARY_SIZE" for i
    using that by (simp add: bf16_at_def)
  have "bf16_finite 0" by (simp add: bf16_finite_def)
  moreover have "0 < QWEN3_VOCABULARY_SIZE" by (simp add: QWEN3_VOCABULARY_SIZE_def)
  ultimately show ?thesis using bf16_argmax_is_greatest [of ?row] at
    by (fastforce split: option.splits sum.splits finite_bf16_argmax_error.splits)
qed

subsection \<open>Accepting a device record\<close>

lemma all_Suc_shift: "(\<forall>j < Suc n. P (k + j)) \<longleftrightarrow> P k \<and> (\<forall>j < n. P (Suc k + j))"
  by (auto simp: All_less_Suc2)

lemma check_live_tokens_eq:
  assumes "k + n \<le> length tokens" "length tokens \<le> U64_MAX"
  shows "check_live_tokens n tokens k =
    Some (if \<forall>j < n. tokens ! (k + j) < QWEN3_VOCABULARY_SIZE then Inr () else Inl TokenOutOfRange)"
  using assms
proof (induction n arbitrary: k)
  case (Suc n)
  then show ?case using all_Suc_shift [of n "\<lambda>i. tokens ! i < QWEN3_VOCABULARY_SIZE" k]
    by (simp add: exec_simps)
qed simp

lemma check_unused_tokens_eq:
  assumes "k + n \<le> length tokens" "length tokens \<le> U64_MAX"
  shows "check_unused_tokens n tokens k =
    Some (if \<forall>j < n. tokens ! (k + j) = 0 then Inr () else Inl NonzeroUnusedToken)"
  using assms
proof (induction n arbitrary: k)
  case (Suc n)
  then show ?case using all_Suc_shift [of n "\<lambda>i. tokens ! i = 0" k] by (simp add: exec_simps)
qed simp

lemma compare_emitted_eq:
  assumes "k + n \<le> length as" "k + n \<le> length bs" "length as \<le> U64_MAX"
  shows "compare_emitted n as bs k = Some (\<forall>j < n. as ! (k + j) = bs ! (k + j))"
  using assms
proof (induction n arbitrary: k)
  case (Suc n)
  then show ?case using all_Suc_shift [of n "\<lambda>i. as ! i = bs ! i" k] by (simp add: exec_simps)
qed simp

text \<open>The payload of a record: live tokens of the vocabulary, then zeros.\<close>

definition payload_ok :: "token_id list \<Rightarrow> nat \<Rightarrow> bool" where
  "payload_ok tokens n = ((\<forall>t \<in> set (take n tokens). t < QWEN3_VOCABULARY_SIZE)
     \<and> drop n tokens = replicate (M1_MAX_COMPLETION_TOKENS - n) 0)"

lemma payload_ok_iff:
  assumes "length tokens = M1_MAX_COMPLETION_TOKENS" "n \<le> M1_MAX_COMPLETION_TOKENS"
  shows "payload_ok tokens n \<longleftrightarrow> (\<forall>j < n. tokens ! j < QWEN3_VOCABULARY_SIZE)
    \<and> (\<forall>j < M1_MAX_COMPLETION_TOKENS - n. tokens ! (n + j) = 0)"
proof -
  have "(\<forall>t \<in> set (take n tokens). t < QWEN3_VOCABULARY_SIZE) \<longleftrightarrow> (\<forall>j < n. tokens ! j < QWEN3_VOCABULARY_SIZE)"
    using assms by (auto simp: set_conv_nth)
  moreover have "drop n tokens = replicate (M1_MAX_COMPLETION_TOKENS - n) 0
      \<longleftrightarrow> (\<forall>j < M1_MAX_COMPLETION_TOKENS - n. tokens ! (n + j) = 0)"
    using assms by (auto simp: list_eq_iff_nth_eq)
  ultimately show ?thesis by (simp add: payload_ok_def)
qed

definition record_wf :: "compact_completion_record \<Rightarrow> bool" where
  "record_wf r = (identity_wf (cr_plan_id r) \<and> length (cr_emitted_tokens r) = M1_MAX_COMPLETION_TOKENS)"

lemma validate_compact_completion_iff:
  assumes r: "record_wf r" and p: "identity_wf plan"
  shows "validate_compact_completion r req ep plan k \<noteq> None"
    "validate_compact_completion r req ep plan k = Some (Inr ()) \<longleftrightarrow>
       is_present plan \<and> cr_request r = req \<and> cr_epoch r = ep \<and> cr_plan_id r = plan \<and> k \<le> 16
       \<and> cr_accepted_draft_tokens r \<le> k \<and> cr_emitted_token_count r = Suc (cr_accepted_draft_tokens r)
       \<and> payload_ok (cr_emitted_tokens r) (cr_emitted_token_count r)"
proof -
  let ?n = "cr_emitted_token_count r" and ?ts = "cr_emitted_tokens r"
  have len: "length ?ts = 17" "M1_MAX_COMPLETION_TOKENS = 17" using r by (simp_all add: record_wf_def M1_MAX_COMPLETION_TOKENS_def)
  have id: "identity_equals (cr_plan_id r) plan \<longleftrightarrow> cr_plan_id r = plan"
    using r p identity_equals_iff by (simp add: record_wf_def)
  have eq: "cr_request r = req \<longleftrightarrow> slot (cr_request r) = slot req \<and> generation (cr_request r) = generation req"
    "cr_epoch r = ep \<longleftrightarrow> epoch_value (cr_epoch r) = epoch_value ep"
    by (auto intro: request_id.equality completion_epoch.equality)
  have loops: "?n \<le> 17 \<Longrightarrow> check_live_tokens ?n ?ts 0 =
      Some (if \<forall>j < ?n. ?ts ! j < QWEN3_VOCABULARY_SIZE then Inr () else Inl TokenOutOfRange)"
    "?n \<le> 17 \<Longrightarrow> check_unused_tokens (17 - ?n) ?ts ?n =
      Some (if \<forall>j < 17 - ?n. ?ts ! (?n + j) = 0 then Inr () else Inl NonzeroUnusedToken)"
    using check_live_tokens_eq [of 0 ?n ?ts] check_unused_tokens_eq [of ?n "17 - ?n" ?ts] len by simp_all
  have pay: "?n \<le> 17 \<Longrightarrow> payload_ok ?ts ?n \<longleftrightarrow> (\<forall>j < ?n. ?ts ! j < QWEN3_VOCABULARY_SIZE)
      \<and> (\<forall>j < 17 - ?n. ?ts ! (?n + j) = 0)" using payload_ok_iff [of ?ts ?n] len by simp
  show "validate_compact_completion r req ep plan k \<noteq> None"
    using loops by (auto simp: validate_compact_completion_def len(2) u_add_def simp del: check_live_tokens.simps check_unused_tokens.simps)
  show "validate_compact_completion r req ep plan k = Some (Inr ()) \<longleftrightarrow>
       is_present plan \<and> cr_request r = req \<and> cr_epoch r = ep \<and> cr_plan_id r = plan \<and> k \<le> 16
       \<and> cr_accepted_draft_tokens r \<le> k \<and> ?n = Suc (cr_accepted_draft_tokens r) \<and> payload_ok ?ts ?n"
    unfolding eq using loops pay 
    by (auto simp: validate_compact_completion_def len(2) u_add_def id split: if_splits
        simp del: check_live_tokens.simps check_unused_tokens.simps)
qed

text \<open>The one record a committed round determines.\<close>

definition canonical_record :: "request_id \<Rightarrow> completion_epoch \<Rightarrow> identity \<Rightarrow> greedy_commit \<Rightarrow> compact_completion_record" where
  "canonical_record req ep plan c =
     \<lparr>cr_request = req, cr_epoch = ep, cr_plan_id = plan, cr_accepted_draft_tokens = gc_accepted_draft_tokens c,
      cr_emitted_token_count = length (gc_emitted_tokens c),
      cr_emitted_tokens = gc_emitted_tokens c @ replicate (M1_MAX_COMPLETION_TOKENS - length (gc_emitted_tokens c)) 0\<rparr>"

lemma greedy_round_lengths:
  assumes "verify_greedy_round draft target = Some (Inr c)"
  shows "gc_accepted_draft_tokens c \<le> length draft" "length (gc_emitted_tokens c) = Suc (gc_accepted_draft_tokens c)"
  using assms agreement_le(1) [of draft target] by (auto simp: verify_greedy_round_eq split: if_splits)

lemma greedy_round_total: "verify_greedy_round draft target \<noteq> None"
  by (simp add: verify_greedy_round_eq)

lemma canonical_iff:
  assumes r: "record_wf r" and n: "length (gc_emitted_tokens c) \<le> M1_MAX_COMPLETION_TOKENS"
  shows "r = canonical_record req ep plan c \<and> (\<forall>t \<in> set (gc_emitted_tokens c). t < QWEN3_VOCABULARY_SIZE) \<longleftrightarrow>
    cr_request r = req \<and> cr_epoch r = ep \<and> cr_plan_id r = plan
    \<and> cr_accepted_draft_tokens r = gc_accepted_draft_tokens c \<and> cr_emitted_token_count r = length (gc_emitted_tokens c)
    \<and> payload_ok (cr_emitted_tokens r) (cr_emitted_token_count r)
    \<and> (\<forall>j < cr_emitted_token_count r. cr_emitted_tokens r ! j = gc_emitted_tokens c ! j)"
    (is "?L \<longleftrightarrow> ?R")
proof
  assume ?L then show ?R by (auto simp: canonical_record_def payload_ok_def nth_append)
next
  let ?n = "length (gc_emitted_tokens c)" and ?ts = "cr_emitted_tokens r"
  assume R: ?R
  then have "take ?n ?ts = gc_emitted_tokens c" using r n by (auto simp: record_wf_def list_eq_iff_nth_eq)
  moreover from this R have "?ts = gc_emitted_tokens c @ replicate (M1_MAX_COMPLETION_TOKENS - ?n) 0"
    using append_take_drop_id [of ?n ?ts] by (auto simp: payload_ok_def)
  ultimately show ?L using R by (auto simp: canonical_record_def payload_ok_def intro: compact_completion_record.equality)
qed

lemma verify_speculative_completion_exact:
  assumes "record_wf r" "identity_wf plan"
  shows "verify_speculative_completion r req ep plan draft target \<noteq> None
    \<and> (verify_speculative_completion r req ep plan draft target = Some (Inr c) \<longleftrightarrow>
         length draft \<le> 16 \<and> is_present plan \<and> verify_greedy_round draft target = Some (Inr c)
         \<and> r = canonical_record req ep plan c \<and> (\<forall>t \<in> set (gc_emitted_tokens c). t < QWEN3_VOCABULARY_SIZE))"
proof (cases "length draft \<le> 16")
  case False
  then show ?thesis by (simp add: verify_speculative_completion_def)
next
  case len: True
  let ?v = "validate_compact_completion r req ep plan (length draft)"
  note v = validate_compact_completion_iff [OF assms, of req ep "length draft"]
  obtain x where x: "?v = Some x" using v(1) by blast
  show ?thesis
  proof (cases "\<exists>d. verify_greedy_round draft target = Some (Inr d)")
    case False
    then show ?thesis using len x greedy_round_total [of draft target]
      by (cases x) (auto simp: verify_speculative_completion_def split: option.splits sum.splits)
  next
    case True
    then obtain d where d: "verify_greedy_round draft target = Some (Inr d)" by blast
    note l = greedy_round_lengths [OF d]
    have M: "M1_MAX_COMPLETION_TOKENS = 17" by (simp add: M1_MAX_COMPLETION_TOKENS_def)
    have n: "length (gc_emitted_tokens d) \<le> M1_MAX_COMPLETION_TOKENS" using l len M by simp
    have cmp: "compare_emitted (cr_emitted_token_count r) (cr_emitted_tokens r) (gc_emitted_tokens d) 0 =
        Some (\<forall>j < cr_emitted_token_count r. cr_emitted_tokens r ! j = gc_emitted_tokens d ! j)"
      if "cr_emitted_token_count r = length (gc_emitted_tokens d)"
      using compare_emitted_eq [of 0 "cr_emitted_token_count r" "cr_emitted_tokens r" "gc_emitted_tokens d"] that n assms(1) M
      by (simp add: record_wf_def)
    show ?thesis using len x d v(2) canonical_iff [OF assms(1) n, of req ep plan] cmp l
      by (cases x) (auto simp: verify_speculative_completion_def simp del: compare_emitted.simps)
  qed
qed

text \<open>exactly one device record is accepted.  For a record of the declared shape \<^verbatim>\<open>verify_speculative_completion\<close>
  never panics, and it accepts exactly when at most sixteen tokens were drafted, the plan identity is present, the
  greedy round itself commits to tokens of the vocabulary, and the record is, field by field, the one
  this round determines: the request generation, the epoch, the plan, the accepted count, the
  emitted tokens and zeros in every unused slot.\<close>

theorem speculative_completion_accepts_exactly:
  assumes "record_wf r" "identity_wf plan"
  shows "verify_speculative_completion r req ep plan draft target \<noteq> None
    \<and> (verify_speculative_completion r req ep plan draft target = Some (Inr c) \<longleftrightarrow>
         length draft \<le> 16 \<and> is_present plan \<and> verify_greedy_round draft target = Some (Inr c)
         \<and> r = canonical_record req ep plan c \<and> (\<forall>t \<in> set (gc_emitted_tokens c). t < QWEN3_VOCABULARY_SIZE))"
  using assms by (rule verify_speculative_completion_exact)

theorem speculative_completion_accepts_exactly_witness:
  "\<exists>c. verify_speculative_completion
      \<lparr>cr_request = request_id_new 0 1, cr_epoch = \<lparr>epoch_value = 1\<rparr>, cr_plan_id = Identity (replicate 32 7),
       cr_accepted_draft_tokens = 1, cr_emitted_token_count = 2, cr_emitted_tokens = 5 # 6 # replicate 15 0\<rparr>
      (request_id_new 0 1) \<lparr>epoch_value = 1\<rparr> (Identity (replicate 32 7)) [5, 9] [5, 6, 8] = Some (Inr c)
    \<and> gc_emitted_tokens c = [5, 6]"
proof -
  let ?plan = "Identity (replicate 32 7)"
  let ?r = "\<lparr>cr_request = request_id_new 0 1, cr_epoch = \<lparr>epoch_value = 1\<rparr>, cr_plan_id = ?plan,
       cr_accepted_draft_tokens = 1, cr_emitted_token_count = 2, cr_emitted_tokens = 5 # 6 # replicate 15 0\<rparr>"
  let ?c = "\<lparr>gc_accepted_draft_tokens = 1, gc_emitted_tokens = [5, 6], gc_target_correction_or_bonus = 6\<rparr>"
  have wf: "record_wf ?r" "identity_wf ?plan"
    by (simp_all add: record_wf_def identity_wf_def M1_MAX_COMPLETION_TOKENS_def)
  have "is_present ?plan" by (simp add: is_present_def is_present_loop_iff)
  moreover have "verify_greedy_round [5, 9] [5, 6, 8] = Some (Inr ?c)" by (simp add: verify_greedy_round_eq)
  moreover have "?r = canonical_record (request_id_new 0 1) \<lparr>epoch_value = 1\<rparr> ?plan ?c"
    by (simp add: canonical_record_def M1_MAX_COMPLETION_TOKENS_def)
  ultimately show ?thesis
    using speculative_completion_accepts_exactly [OF wf, of "request_id_new 0 1" "\<lparr>epoch_value = 1\<rparr>" "[5, 9]" "[5, 6, 8]" ?c]
    by (auto simp: QWEN3_VOCABULARY_SIZE_def)
qed

end
