(* ===== verification/ContinuousBatch.thy ===== *)
theory ContinuousBatch
  imports Speculation
begin

text \<open>
  The logical continuous-batching contract of \<^verbatim>\<open>ferric-spec/src/continuous_batching.rs\<close>: thirty-two
  request slots, each with its lifecycle, its active epoch and its publication count, driven by an
  interleaved trace of request-local actions; and the cardinality plan for the next serving window of
  \<^verbatim>\<open>m1_new_window_cardinality.rs\<close>.
\<close>

subsection \<open>Data\<close>

definition M1_CONTINUOUS_BATCH_CAPACITY :: usize where "M1_CONTINUOUS_BATCH_CAPACITY = 32"

record continuous_request =
  cq_generation :: u32
  cq_lifecycle :: sequential_request
  cq_active_epoch :: completion_epoch
  cq_has_active_epoch :: bool
  cq_published_for_active_epoch :: bool
  cq_published_token_count :: u64

definition ContinuousRequest_INITIAL :: continuous_request where
  "ContinuousRequest_INITIAL =
     \<lparr>cq_generation = 1, cq_lifecycle = \<lparr>sr_state = Vacant, sr_phase = Idle\<rparr>,
      cq_active_epoch = \<lparr>epoch_value = 0\<rparr>, cq_has_active_epoch = False,
      cq_published_for_active_epoch = False, cq_published_token_count = 0\<rparr>"

definition cq_epoch :: "continuous_request \<Rightarrow> completion_epoch option" where
  "cq_epoch r = (if cq_has_active_epoch r then Some (cq_active_epoch r) else None)"

datatype continuous_batch_action =
    CAdmit
  | CDispatch completion_epoch
  | CRetire
  | CCompleteExact completion_epoch
  | CPublish completion_epoch u8
  | CFinalizeKv
  | CDetachKv

datatype continuous_batch_error =
    SlotOutOfRange
  | StaleGeneration
  | LifecycleError transition_error
  | EpochMissing
  | EpochAlreadyActive
  | BatchEpochMismatch
  | PublicationNotReady
  | AlreadyPublished
  | InvalidTokenCount
  | TokenCountExhausted
  | BatchGenerationExhausted

record continuous_batch =
  cb_slots :: "continuous_request list"

definition cb_initial :: continuous_batch where
  "cb_initial = \<lparr>cb_slots = replicate M1_CONTINUOUS_BATCH_CAPACITY ContinuousRequest_INITIAL\<rparr>"

subsection \<open>Operations\<close>

definition cb_request :: "continuous_batch \<Rightarrow> request_id \<Rightarrow> continuous_request option exec" where
  "cb_request batch request =
     (if M1_CONTINUOUS_BATCH_CAPACITY \<le> slot request then Some None
      else do {
        entry \<leftarrow> idx (cb_slots batch) (slot request);
        Some (if cq_generation entry \<noteq> generation request then None else Some entry) })"

definition cb_replace :: "continuous_batch \<Rightarrow> usize \<Rightarrow> continuous_request \<Rightarrow> continuous_batch exec" where
  "cb_replace batch i request = do {
     slots \<leftarrow> upd (cb_slots batch) i request;
     Some (batch\<lparr>cb_slots := slots\<rparr>) }"

definition lifecycle_result ::
  "continuous_request \<Rightarrow> request_transition \<Rightarrow> continuous_batch_error + sequential_request" where
  "lifecycle_result current transition = map_sum LifecycleError id (apply_request_transition (cq_lifecycle current) transition)"

definition is_publication_ready :: "continuous_request \<Rightarrow> bool" where
  "is_publication_ready current =
     (sr_state (cq_lifecycle current) = InFlight \<and> sr_phase (cq_lifecycle current) = AwaitingKv)"

definition is_valid_publication_token_count :: "u8 \<Rightarrow> bool" where
  "is_valid_publication_token_count emitted_tokens = (0 < emitted_tokens \<and> emitted_tokens \<le> M1_MAX_COMPLETION_TOKENS)"

definition is_retiring_quiescent :: "sequential_request \<Rightarrow> bool" where
  "is_retiring_quiescent lifecycle = (sr_phase lifecycle = RetiringQuiescent)"

definition apply_continuous_publish_step ::
  "continuous_request \<Rightarrow> completion_epoch \<Rightarrow> u8 \<Rightarrow> continuous_batch_error + continuous_request" where
  "apply_continuous_publish_step current epoch emitted_tokens =
     (if \<not> cq_has_active_epoch current then Inl EpochMissing
      else if epoch_value (cq_active_epoch current) \<noteq> epoch_value epoch then Inl BatchEpochMismatch
      else if \<not> is_publication_ready current then Inl PublicationNotReady
      else if cq_published_for_active_epoch current then Inl AlreadyPublished
      else if \<not> is_valid_publication_token_count emitted_tokens then Inl InvalidTokenCount
      else if U64_MAX - emitted_tokens < cq_published_token_count current then Inl TokenCountExhausted
      else Inr (current\<lparr>cq_published_for_active_epoch := True,
                        cq_published_token_count := cq_published_token_count current + emitted_tokens\<rparr>))"

text \<open>Leaving the active epoch, as four of the actions do.\<close>

definition clear_epoch :: "continuous_request \<Rightarrow> continuous_request" where
  "clear_epoch r = r\<lparr>cq_active_epoch := \<lparr>epoch_value = 0\<rparr>, cq_has_active_epoch := False,
                     cq_published_for_active_epoch := False\<rparr>"

definition apply_continuous_request_step ::
  "continuous_request \<Rightarrow> continuous_batch_action \<Rightarrow> continuous_batch_error + continuous_request" where
  "apply_continuous_request_step current action =
     (case action of
        CAdmit \<Rightarrow>
          (case lifecycle_result current Admit of
             Inl e \<Rightarrow> Inl e
           | Inr lifecycle \<Rightarrow> Inr (current\<lparr>cq_lifecycle := lifecycle\<rparr>))
      | CDispatch epoch \<Rightarrow>
          if epoch_value epoch = 0 then Inl EpochMissing
          else if cq_has_active_epoch current then Inl EpochAlreadyActive
          else (case lifecycle_result current Dispatch of
             Inl e \<Rightarrow> Inl e
           | Inr lifecycle \<Rightarrow> Inr (current\<lparr>cq_lifecycle := lifecycle, cq_active_epoch := epoch,
                cq_has_active_epoch := True, cq_published_for_active_epoch := False\<rparr>))
      | CRetire \<Rightarrow>
          (case lifecycle_result current Retire of
             Inl e \<Rightarrow> Inl e
           | Inr lifecycle \<Rightarrow>
               Inr (if is_retiring_quiescent lifecycle then clear_epoch (current\<lparr>cq_lifecycle := lifecycle\<rparr>)
                    else current\<lparr>cq_lifecycle := lifecycle\<rparr>))
      | CCompleteExact epoch \<Rightarrow>
          if \<not> cq_has_active_epoch current then Inl EpochMissing
          else if epoch_value (cq_active_epoch current) \<noteq> epoch_value epoch then Inl BatchEpochMismatch
          else (case lifecycle_result current CompleteExact of
             Inl e \<Rightarrow> Inl e
           | Inr lifecycle \<Rightarrow>
               Inr (if is_retiring_quiescent lifecycle then clear_epoch (current\<lparr>cq_lifecycle := lifecycle\<rparr>)
                    else current\<lparr>cq_lifecycle := lifecycle\<rparr>))
      | CPublish epoch emitted_tokens \<Rightarrow> apply_continuous_publish_step current epoch emitted_tokens
      | CFinalizeKv \<Rightarrow>
          if \<not> cq_published_for_active_epoch current then Inl PublicationNotReady
          else (case lifecycle_result current FinalizeKv of
             Inl e \<Rightarrow> Inl e
           | Inr lifecycle \<Rightarrow> Inr (clear_epoch (current\<lparr>cq_lifecycle := lifecycle\<rparr>)))
      | CDetachKv \<Rightarrow>
          if cq_has_active_epoch current then Inl EpochAlreadyActive
          else (case u32_add (cq_generation current) 1 of
             None \<Rightarrow> Inl BatchGenerationExhausted
           | Some g \<Rightarrow>
               (case lifecycle_result current DetachKv of
                  Inl e \<Rightarrow> Inl e
                | Inr lifecycle \<Rightarrow> Inr (clear_epoch (current\<lparr>cq_lifecycle := lifecycle, cq_generation := g,
                     cq_published_token_count := 0\<rparr>)))))"

definition apply_continuous_batch_step ::
  "continuous_batch \<Rightarrow> request_id \<Rightarrow> continuous_batch_action \<Rightarrow>
   ((continuous_batch_error + unit) \<times> continuous_batch) exec" where
  "apply_continuous_batch_step batch request action =
     (if M1_CONTINUOUS_BATCH_CAPACITY \<le> slot request then Some (Inl SlotOutOfRange, batch)
      else do {
        current \<leftarrow> idx (cb_slots batch) (slot request);
        if cq_generation current \<noteq> generation request then Some (Inl StaleGeneration, batch)
        else (case apply_continuous_request_step current action of
            Inl e \<Rightarrow> Some (Inl e, batch)
          | Inr updated \<Rightarrow> do {
              batch' \<leftarrow> cb_replace batch (slot request) updated;
              Some (Inr (), batch') }) })"

subsection \<open>The next serving window\<close>

record m1_new_window_cardinality_plan =
  wp_old :: u32
  wp_new :: u32
  wp_reuse :: u32
  wp_reclaim :: u32
  wp_admit :: u32

datatype m1_new_window_cardinality_plan_error =
    EmptyPredecessor
  | EmptySuccessor
  | PredecessorExceedsCapacity
  | SuccessorExceedsCapacity
  | ArithmeticOverflow

definition plan_m1_new_window_cardinality ::
  "u32 \<Rightarrow> u32 \<Rightarrow> u32 \<Rightarrow> m1_new_window_cardinality_plan_error + m1_new_window_cardinality_plan" where
  "plan_m1_new_window_cardinality old_count new_count capacity =
     (if old_count = 0 then Inl EmptyPredecessor
      else if new_count = 0 then Inl EmptySuccessor
      else if capacity < old_count then Inl PredecessorExceedsCapacity
      else if capacity < new_count then Inl SuccessorExceedsCapacity
      else let reuse_count = (if old_count \<le> new_count then old_count else new_count) in
        (case u_sub old_count reuse_count of
           None \<Rightarrow> Inl ArithmeticOverflow
         | Some reclaim_count \<Rightarrow>
        (case u_sub new_count reuse_count of
           None \<Rightarrow> Inl ArithmeticOverflow
         | Some admit_count \<Rightarrow>
             if u32_add reuse_count reclaim_count \<noteq> Some old_count
                \<or> u32_add reuse_count admit_count \<noteq> Some new_count
             then Inl ArithmeticOverflow
             else (case u_sub old_count reclaim_count of
                None \<Rightarrow> Inl ArithmeticOverflow
              | Some retained_count \<Rightarrow>
                  if u32_add retained_count admit_count \<noteq> Some new_count then Inl ArithmeticOverflow
                  else Inr \<lparr>wp_old = old_count, wp_new = new_count, wp_reuse = reuse_count,
                            wp_reclaim = reclaim_count, wp_admit = admit_count\<rparr>))))"

end
