(* ===== verification/ContinuousBatch_Properties.thy ===== *)
theory ContinuousBatch_Properties
  imports ContinuousBatch
begin

text \<open>
  Isolation of the interleaved requests, publication discipline along the life of one request, and
  the window plan.
\<close>

subsection \<open>One request\<close>

text \<open>The epoch is active exactly while work is outstanding, and only a completed round publishes.\<close>

definition cq_ok :: "continuous_request \<Rightarrow> bool" where
  "cq_ok r = (0 < cq_generation r \<and> cq_generation r \<le> U32_MAX \<and> cq_published_token_count r \<le> U64_MAX
     \<and> sequential_wf (cq_lifecycle r)
     \<and> cq_has_active_epoch r = (sr_phase (cq_lifecycle r) \<in> {Executing, AwaitingKv, RetiringExecuting})
     \<and> cq_has_active_epoch r = (epoch_value (cq_active_epoch r) \<noteq> 0)
     \<and> (cq_published_for_active_epoch r \<longrightarrow> is_publication_ready r)
     \<and> (sr_state (cq_lifecycle r) = Vacant \<longrightarrow> cq_published_token_count r = 0))"

lemma cq_initial_ok: "cq_ok ContinuousRequest_INITIAL"
  by (simp add: cq_ok_def ContinuousRequest_INITIAL_def sequential_wf_def)

lemmas cq_step_defs = apply_continuous_request_step_def apply_continuous_publish_step_def lifecycle_result_def
  apply_request_transition_def clear_epoch_def is_retiring_quiescent_def is_publication_ready_def
  is_valid_publication_token_count_def

text \<open>When the oracle accepts, and what it yields.\<close>

lemma lifecycle_accepts:
  "lifecycle_result r Admit = Inr l \<longleftrightarrow> sr_state (cq_lifecycle r) = Vacant \<and> sr_phase (cq_lifecycle r) = Idle
     \<and> l = \<lparr>sr_state = Ready, sr_phase = Idle\<rparr>"
  "lifecycle_result r Dispatch = Inr l \<longleftrightarrow> sr_state (cq_lifecycle r) = Ready \<and> sr_phase (cq_lifecycle r) = Idle
     \<and> l = \<lparr>sr_state = InFlight, sr_phase = Executing\<rparr>"
  "lifecycle_result r FinalizeKv = Inr l \<longleftrightarrow> sr_state (cq_lifecycle r) = InFlight \<and> sr_phase (cq_lifecycle r) = AwaitingKv
     \<and> l = \<lparr>sr_state = Ready, sr_phase = Idle\<rparr>"
  "lifecycle_result r DetachKv = Inr l \<longleftrightarrow> sr_state (cq_lifecycle r) = Retiring
     \<and> sr_phase (cq_lifecycle r) = RetiringQuiescent \<and> l = \<lparr>sr_state = Vacant, sr_phase = Idle\<rparr>"
  by (auto simp: lifecycle_result_def apply_request_transition_def split: request_state.splits lifecycle_phase.splits)

lemma lifecycle_retires:
  "lifecycle_result r Retire = Inr l \<longleftrightarrow>
     (sr_state (cq_lifecycle r) = Ready \<and> sr_phase (cq_lifecycle r) = Idle
      \<or> sr_state (cq_lifecycle r) = InFlight \<and> sr_phase (cq_lifecycle r) = AwaitingKv)
       \<and> l = \<lparr>sr_state = Retiring, sr_phase = RetiringQuiescent\<rparr>
     \<or> sr_state (cq_lifecycle r) = InFlight \<and> sr_phase (cq_lifecycle r) = Executing
       \<and> l = \<lparr>sr_state = Retiring, sr_phase = RetiringExecuting\<rparr>"
  "lifecycle_result r CompleteExact = Inr l \<longleftrightarrow>
     sr_state (cq_lifecycle r) = InFlight \<and> sr_phase (cq_lifecycle r) = Executing
       \<and> l = \<lparr>sr_state = InFlight, sr_phase = AwaitingKv\<rparr>
     \<or> sr_state (cq_lifecycle r) = Retiring \<and> sr_phase (cq_lifecycle r) = RetiringExecuting
       \<and> l = \<lparr>sr_state = Retiring, sr_phase = RetiringQuiescent\<rparr>"
  by (auto simp: lifecycle_result_def apply_request_transition_def split: request_state.splits lifecycle_phase.splits)

text \<open>The successful local steps, one shape per action.\<close>

lemma cq_step_cases:
  assumes "apply_continuous_request_step r a = Inr r'"
  obtains l where "a = CAdmit" "lifecycle_result r Admit = Inr l" "r' = r\<lparr>cq_lifecycle := l\<rparr>"
  | e l where "a = CDispatch e" "epoch_value e \<noteq> 0" "\<not> cq_has_active_epoch r" "lifecycle_result r Dispatch = Inr l"
      "r' = r\<lparr>cq_lifecycle := l, cq_active_epoch := e, cq_has_active_epoch := True, cq_published_for_active_epoch := False\<rparr>"
  | t l where "a = CRetire \<and> t = Retire \<or> (\<exists>e. a = CCompleteExact e) \<and> t = CompleteExact \<and> cq_has_active_epoch r"
      "lifecycle_result r t = Inr l"
      "r' = (if is_retiring_quiescent l then clear_epoch (r\<lparr>cq_lifecycle := l\<rparr>) else r\<lparr>cq_lifecycle := l\<rparr>)"
  | e n where "a = CPublish e n" "cq_has_active_epoch r" "is_publication_ready r" "\<not> cq_published_for_active_epoch r"
      "cq_published_token_count r + n \<le> U64_MAX"
      "r' = r\<lparr>cq_published_for_active_epoch := True, cq_published_token_count := cq_published_token_count r + n\<rparr>"
  | l where "a = CFinalizeKv" "cq_published_for_active_epoch r" "lifecycle_result r FinalizeKv = Inr l"
      "r' = clear_epoch (r\<lparr>cq_lifecycle := l\<rparr>)"
  | l where "a = CDetachKv" "\<not> cq_has_active_epoch r" "cq_generation r < U32_MAX" "lifecycle_result r DetachKv = Inr l"
      "r' = clear_epoch (r\<lparr>cq_lifecycle := l, cq_generation := Suc (cq_generation r), cq_published_token_count := 0\<rparr>)"
proof (cases a)
  case (CPublish e n)
  then show ?thesis using assms that(4) [of e n]
    by (auto simp: apply_continuous_request_step_def apply_continuous_publish_step_def is_valid_publication_token_count_def
        M1_MAX_COMPLETION_TOKENS_def split: if_splits)
qed (use assms that(1,2,3,5,6) in \<open>auto simp: apply_continuous_request_step_def split: sum.splits if_splits option.splits\<close>)

text \<open>Retiring and completing either end the epoch or stay within it.\<close>

lemma lifecycle_leaves:
  assumes "lifecycle_result r t = Inr l" "t = Retire \<or> t = CompleteExact"
  shows "l = \<lparr>sr_state = Retiring, sr_phase = RetiringQuiescent\<rparr>
    \<or> sr_phase (cq_lifecycle r) = Executing \<and> (l = \<lparr>sr_state = Retiring, sr_phase = RetiringExecuting\<rparr>
        \<or> l = \<lparr>sr_state = InFlight, sr_phase = AwaitingKv\<rparr>)"
  using assms lifecycle_retires by blast

lemma cq_clear_ok:
  assumes "cq_ok r"
  shows "cq_ok (clear_epoch (r\<lparr>cq_lifecycle := \<lparr>sr_state = Retiring, sr_phase = RetiringQuiescent\<rparr>\<rparr>))"
  using assms by (simp add: cq_ok_def clear_epoch_def sequential_wf_def)

lemma cq_executing_ok:
  assumes "cq_ok r" "sr_phase (cq_lifecycle r) = Executing" "sequential_wf l" "sr_state l \<noteq> Vacant"
    "sr_phase l = RetiringExecuting \<or> sr_phase l = AwaitingKv"
  shows "cq_ok (r\<lparr>cq_lifecycle := l\<rparr>)"
proof -
  have "\<not> cq_published_for_active_epoch r" using assms(1,2) by (auto simp: cq_ok_def is_publication_ready_def)
  then show ?thesis using assms by (auto simp: cq_ok_def)
qed

lemma cq_step_ok:
  assumes ok: "cq_ok r" and st: "apply_continuous_request_step r a = Inr r'"
  shows "cq_ok r'"
  using st
proof (cases rule: cq_step_cases)
  case (3 t l)
  then have "l = \<lparr>sr_state = Retiring, sr_phase = RetiringQuiescent\<rparr>
    \<or> sr_phase (cq_lifecycle r) = Executing \<and> (l = \<lparr>sr_state = Retiring, sr_phase = RetiringExecuting\<rparr>
        \<or> l = \<lparr>sr_state = InFlight, sr_phase = AwaitingKv\<rparr>)" using lifecycle_leaves by blast
  then show ?thesis using 3(3) cq_clear_ok [OF ok] cq_executing_ok [OF ok, of l]
    by (elim disjE conjE) (simp_all add: is_retiring_quiescent_def sequential_wf_def)
qed (use ok in \<open>auto simp: cq_ok_def lifecycle_accepts sequential_wf_def clear_epoch_def is_publication_ready_def\<close>)

text \<open>The lives of a request: what succeeds, in order.\<close>

inductive life :: "continuous_batch_action list \<Rightarrow> continuous_request \<Rightarrow> bool" where
  born: "life [] ContinuousRequest_INITIAL"
| acts: "life as r \<Longrightarrow> apply_continuous_request_step r a = Inr r' \<Longrightarrow> life (as @ [a]) r'"

lemma life_ok: "life as r \<Longrightarrow> cq_ok r"
  by (induction rule: life.induct) (auto intro: cq_initial_ok cq_step_ok)

definition is_dispatch :: "continuous_batch_action \<Rightarrow> bool" where
  "is_dispatch a = (case a of CDispatch _ \<Rightarrow> True | _ \<Rightarrow> False)"

definition is_publish :: "continuous_batch_action \<Rightarrow> bool" where
  "is_publish a = (case a of CPublish _ _ \<Rightarrow> True | _ \<Rightarrow> False)"

abbreviation count :: "('a \<Rightarrow> bool) \<Rightarrow> 'a list \<Rightarrow> nat" where
  "count P xs \<equiv> length (filter P xs)"

lemma life_counts:
  assumes "life as r"
  shows "count is_publish as + (if cq_has_active_epoch r \<and> \<not> cq_published_for_active_epoch r then 1 else 0) \<le> count is_dispatch as
    \<and> count ((=) CFinalizeKv) as + (if cq_published_for_active_epoch r then 1 else 0) \<le> count is_publish as"
  using assms
proof (induction rule: life.induct)
  case born
  then show ?case by (simp add: ContinuousRequest_INITIAL_def)
next
  case (acts as r a r')
  note ok = life_ok [OF acts.hyps(1)]
  from acts.hyps(2) show ?case
  proof (cases rule: cq_step_cases)
    case (3 t l)
    then have "\<not> is_dispatch a" "\<not> is_publish a" "a \<noteq> CFinalizeKv" by (auto simp: is_dispatch_def is_publish_def)
    then show ?thesis using acts.IH 3(3) by (simp add: clear_epoch_def split: if_splits)
  qed (use acts.IH ok in \<open>auto simp: is_dispatch_def is_publish_def clear_epoch_def cq_ok_def is_publication_ready_def
        lifecycle_accepts\<close>)
qed

text \<open>C23: publication discipline.  Along every life of a request slot, results are published at most once per
  dispatched epoch and KV state is finalized at most once per publication; at every moment the number of
  dispatches not yet published, published and not yet finalized differ by what the slot records.  In
  particular nothing is finalized that has not been published and nothing is published twice.\<close>

theorem publish_once_per_dispatch:
  assumes "life as r"
  shows "count ((=) CFinalizeKv) as \<le> count is_publish as \<and> count is_publish as \<le> count is_dispatch as
    \<and> (cq_published_for_active_epoch r \<longrightarrow> count ((=) CFinalizeKv) as < count is_publish as)
    \<and> (cq_has_active_epoch r \<and> \<not> cq_published_for_active_epoch r \<longrightarrow> count is_publish as < count is_dispatch as)"
  using life_counts [OF assms] by (auto split: if_splits)

lemma demo_life:
  "\<exists>r. life [CAdmit, CDispatch \<lparr>epoch_value = 1\<rparr>, CCompleteExact \<lparr>epoch_value = 1\<rparr>, CPublish \<lparr>epoch_value = 1\<rparr> 3] r
     \<and> cq_published_for_active_epoch r"
proof -
  let ?e = "\<lparr>epoch_value = 1\<rparr>"
  let ?r = "ContinuousRequest_INITIAL"
  let ?r1 = "?r\<lparr>cq_lifecycle := \<lparr>sr_state = Ready, sr_phase = Idle\<rparr>\<rparr>"
  let ?r2 = "?r1\<lparr>cq_lifecycle := \<lparr>sr_state = InFlight, sr_phase = Executing\<rparr>, cq_active_epoch := ?e,
     cq_has_active_epoch := True, cq_published_for_active_epoch := False\<rparr>"
  let ?r3 = "?r2\<lparr>cq_lifecycle := \<lparr>sr_state = InFlight, sr_phase = AwaitingKv\<rparr>\<rparr>"
  let ?r4 = "?r3\<lparr>cq_published_for_active_epoch := True, cq_published_token_count := 3\<rparr>"
  have "life ([] @ [CAdmit]) ?r1"
    by (rule life.acts [OF life.born]) (simp add: cq_step_defs ContinuousRequest_INITIAL_def)
  then have "life (([] @ [CAdmit]) @ [CDispatch ?e]) ?r2"
    by (rule life.acts) (simp add: cq_step_defs ContinuousRequest_INITIAL_def)
  then have "life ((([] @ [CAdmit]) @ [CDispatch ?e]) @ [CCompleteExact ?e]) ?r3"
    by (rule life.acts) (simp add: cq_step_defs ContinuousRequest_INITIAL_def)
  then have "life (((([] @ [CAdmit]) @ [CDispatch ?e]) @ [CCompleteExact ?e]) @ [CPublish ?e 3]) ?r4"
    by (rule life.acts) (simp add: cq_step_defs ContinuousRequest_INITIAL_def M1_MAX_COMPLETION_TOKENS_def)
  then show ?thesis by (intro exI [of _ ?r4]) simp
qed

theorem publish_once_per_dispatch_witness:
  "\<exists>r. life [CAdmit, CDispatch \<lparr>epoch_value = 1\<rparr>, CCompleteExact \<lparr>epoch_value = 1\<rparr>, CPublish \<lparr>epoch_value = 1\<rparr> 3] r
     \<and> (cq_published_for_active_epoch r \<longrightarrow>
          count ((=) CFinalizeKv) [CAdmit, CDispatch \<lparr>epoch_value = 1\<rparr>, CCompleteExact \<lparr>epoch_value = 1\<rparr>, CPublish \<lparr>epoch_value = 1\<rparr> 3] <
          count is_publish [CAdmit, CDispatch \<lparr>epoch_value = 1\<rparr>, CCompleteExact \<lparr>epoch_value = 1\<rparr>, CPublish \<lparr>epoch_value = 1\<rparr> 3])"
  using demo_life publish_once_per_dispatch by blast

subsection \<open>The batch\<close>

definition cb_inv :: "continuous_batch \<Rightarrow> bool" where
  "cb_inv b = (length (cb_slots b) = M1_CONTINUOUS_BATCH_CAPACITY \<and> (\<forall>r \<in> set (cb_slots b). cq_ok r))"

definition cb_step ::
  "request_id \<times> continuous_batch_action \<Rightarrow> continuous_batch \<Rightarrow> ((continuous_batch_error + unit) \<times> continuous_batch) exec" where
  "cb_step qa b = apply_continuous_batch_step b (fst qa) (snd qa)"

text \<open>What one step does to the slot table: nothing, or an update of the addressed slot alone by the local
  step of its old content.\<close>

definition local_update :: "request_id \<times> continuous_batch_action \<Rightarrow> continuous_request \<Rightarrow> continuous_request" where
  "local_update qa r =
     (if cq_generation r \<noteq> generation (fst qa) then r
      else case apply_continuous_request_step r (snd qa) of Inl _ \<Rightarrow> r | Inr r' \<Rightarrow> r')"

lemma cb_step_eq:
  assumes inv: "cb_inv b"
  shows "\<exists>r. cb_step (q, a) b = Some (r, if slot q < M1_CONTINUOUS_BATCH_CAPACITY
       then b\<lparr>cb_slots := (cb_slots b)[slot q := local_update (q, a) (cb_slots b ! slot q)]\<rparr> else b)
    \<and> (isl r \<longrightarrow> cb_step (q, a) b = Some (r, b))"
  using inv by (auto simp: cb_step_def apply_continuous_batch_step_def cb_inv_def local_update_def cb_replace_def exec_simps
      split: sum.splits)

lemma local_update_ok: "cq_ok r \<Longrightarrow> cq_ok (local_update qa r)"
  by (auto simp: local_update_def split: sum.splits intro: cq_step_ok)

lemma cb_step_inv:
  assumes inv: "cb_inv b" and st: "cb_step qa b = Some (r, b')"
  shows "cb_inv b'"
proof -
  obtain q a where qa: "qa = (q, a)" by (cases qa)
  show ?thesis using cb_step_eq [OF inv, of q a] st inv qa
    by (auto simp: cb_inv_def set_conv_nth nth_list_update local_update_ok split: if_splits)
qed

interpretation batch: transactional_machine cb_inv cb_step
proof
  fix b qa assume "cb_inv b"
  then show "cb_step qa b \<noteq> None" using cb_step_eq [of b "fst qa" "snd qa"] by auto
next
  fix b qa r b' assume "cb_inv b" "cb_step qa b = Some (r, b')"
  then show "cb_inv b'" by (rule cb_step_inv)
next
  fix b qa e b' assume "cb_inv b" "cb_step qa b = Some (Inl e, b')"
  then show "b' = b" using cb_step_eq [of b "fst qa" "snd qa"] by auto
qed

lemma cb_initial_inv: "cb_inv cb_initial"
  by (simp add: cb_inv_def cb_initial_def cq_initial_ok)

text \<open>The content of one slot after a trace depends on the actions addressed to it alone.\<close>

lemma run_slot:
  assumes "cb_inv b" "i < M1_CONTINUOUS_BATCH_CAPACITY" "run_ops cb_step trace b = Some b'"
  shows "cb_slots b' ! i = fold local_update (filter (\<lambda>qa. slot (fst qa) = i) trace) (cb_slots b ! i)"
  using assms
proof (induction trace arbitrary: b)
  case (Cons qa trace)
  obtain q a where qa: "qa = (q, a)" by (cases qa)
  from Cons.prems(3) obtain r b1 where st: "cb_step qa b = Some (r, b1)" "run_ops cb_step trace b1 = Some b'"
    by (auto split: option.splits)
  have "cb_inv b1" by (rule batch.step_inv [OF Cons.prems(1) st(1)])
  note IH = Cons.IH [OF this Cons.prems(2) st(2)]
  have "cb_slots b1 ! i = (if slot q = i then local_update qa (cb_slots b ! i) else cb_slots b ! i)"
    using cb_step_eq [OF Cons.prems(1), of q a] st(1) qa Cons.prems(1,2) by (auto simp: cb_inv_def)
  then show ?case using IH qa by simp
qed simp

text \<open>C22: isolation.  Every interleaved trace of actions on the batch runs to the end without a panic, and the
  content of each slot afterwards is the same as if only the actions addressed to that slot had been
  performed, in the same order: no request can observe or disturb another.\<close>

theorem batch_isolation:
  assumes "i < M1_CONTINUOUS_BATCH_CAPACITY"
  shows "\<exists>b c. run_ops cb_step trace cb_initial = Some b
    \<and> run_ops cb_step (filter (\<lambda>qa. slot (fst qa) = i) trace) cb_initial = Some c \<and> cb_slots b ! i = cb_slots c ! i"
proof -
  obtain b c where b: "run_ops cb_step trace cb_initial = Some b"
    "run_ops cb_step (filter (\<lambda>qa. slot (fst qa) = i) trace) cb_initial = Some c"
    using batch.run_safe [OF cb_initial_inv] by meson
  from run_slot [OF cb_initial_inv assms b(1)] run_slot [OF cb_initial_inv assms b(2)] b show ?thesis by simp
qed

theorem batch_isolation_witness:
  "\<exists>b c. run_ops cb_step [(request_id_new 0 1, CAdmit), (request_id_new 1 1, CAdmit), (request_id_new 0 1, CRetire)] cb_initial = Some b
    \<and> run_ops cb_step [(request_id_new 1 1, CAdmit)] cb_initial = Some c \<and> cb_slots b ! 1 = cb_slots c ! 1"
  using batch_isolation [of 1 "[(request_id_new 0 1, CAdmit), (request_id_new 1 1, CAdmit), (request_id_new 0 1, CRetire)]"]
  by (simp add: M1_CONTINUOUS_BATCH_CAPACITY_def request_id_new_def)

subsection \<open>The window plan\<close>

text \<open>C24: the window plan balances.  For nonempty windows within the capacity the plan reuses as many slots as both
  windows allow, reclaims exactly the surplus predecessors and admits exactly the missing successors;
  the arithmetic errors are unreachable and the other errors are reported in order.\<close>

theorem window_plan_balances:
  fixes old new cap :: "32 word"
  shows "plan_m1_new_window_cardinality (unat old) (unat new) (unat cap) =
    (if old = 0 then Inl EmptyPredecessor
     else if new = 0 then Inl EmptySuccessor
     else if cap < old then Inl PredecessorExceedsCapacity
     else if cap < new then Inl SuccessorExceedsCapacity
     else Inr \<lparr>wp_old = unat old, wp_new = unat new, wp_reuse = min (unat old) (unat new),
               wp_reclaim = unat old - unat new, wp_admit = unat new - unat old\<rparr>)"
proof -
  have "unat old \<le> U32_MAX" "unat new \<le> U32_MAX"
    using unsigned_less [of old, where 'a = nat] unsigned_less [of new, where 'a = nat] by simp_all
  then show ?thesis
    by (auto simp: plan_m1_new_window_cardinality_def u_sub_def u_add_def min_def word_less_nat_alt unsigned_eq_0_iff Let_def)
qed

end
