(* ===== verification/Radix.thy ===== *)
theory Radix
  imports Speculation "HOL-Library.Product_Lexorder"
begin

text \<open>
  The bounded radix index of shared prompt prefixes of \<^verbatim>\<open>ferric-engine/src/radix_prefix.rs\<close>: a
  token trie in a fixed node array, with first-child and next-sibling links, and a fixed array of
  source records that point at trie nodes.  A \<open>while\<close> loop over links, which a corrupt array could
  make endless, is a \<^theory_text>\<open>partial_function\<close> on \<^typ>\<open>'a exec\<close>, so that not returning is \<^const>\<open>None\<close>
  like a panic.
\<close>

subsection \<open>The order of request identities\<close>

text \<open>The derived order of \<open>RequestId\<close> compares the slot first.\<close>

instantiation request_id_ext :: (linorder) linorder
begin

definition less_eq_request_id_ext :: "'a request_id_scheme \<Rightarrow> 'a request_id_scheme \<Rightarrow> bool" where
  "less_eq_request_id_ext r s =
     ((slot r, generation r, request_id.more r) \<le> (slot s, generation s, request_id.more s))"

definition less_request_id_ext :: "'a request_id_scheme \<Rightarrow> 'a request_id_scheme \<Rightarrow> bool" where
  "less_request_id_ext r s =
     ((slot r, generation r, request_id.more r) < (slot s, generation s, request_id.more s))"

instance
  by standard (auto simp: less_eq_request_id_ext_def less_request_id_ext_def)

end

subsection \<open>Limits\<close>

definition M1_MAX_CONTEXT_TOKENS :: u32 where "M1_MAX_CONTEXT_TOKENS = 8192"

datatype radix_limit = Nodes | TokensPerSource | Sources | StoredTokens

datatype radix_limits_error =
    ZeroLimit radix_limit
  | RootRequiresNode
  | TokensExceedM1Context usize
  | StorageArithmeticOverflow

record radix_limits =
  lim_nodes :: usize
  lim_tokens_per_source :: usize
  lim_sources :: usize
  lim_stored_tokens :: usize

fun check_nonzero :: "(radix_limit \<times> usize) list \<Rightarrow> radix_limits_error + unit" where
  "check_nonzero [] = Inr ()"
| "check_nonzero ((kind, value) # rest) = (if value = 0 then Inl (ZeroLimit kind) else check_nonzero rest)"

definition radix_limits_new :: "usize \<Rightarrow> usize \<Rightarrow> usize \<Rightarrow> usize \<Rightarrow> radix_limits_error + radix_limits" where
  "radix_limits_new node_limit tokens_per_source_limit source_limit stored_token_limit =
     (case check_nonzero [(Nodes, node_limit), (TokensPerSource, tokens_per_source_limit),
                          (Sources, source_limit), (StoredTokens, stored_token_limit)] of
        Inl e \<Rightarrow> Inl e
      | Inr _ \<Rightarrow>
          if node_limit < 2 then Inl RootRequiresNode
          else if M1_MAX_CONTEXT_TOKENS < tokens_per_source_limit
          then Inl (TokensExceedM1Context tokens_per_source_limit)
          else case u_mul U64_MAX tokens_per_source_limit source_limit of
            None \<Rightarrow> Inl StorageArithmeticOverflow
          | Some _ \<Rightarrow> Inr \<lparr>lim_nodes = node_limit, lim_tokens_per_source = tokens_per_source_limit,
                            lim_sources = source_limit, lim_stored_tokens = stored_token_limit\<rparr>)"

subsection \<open>Data\<close>

abbreviation ROOT_NODE :: usize where "ROOT_NODE \<equiv> 0"
definition NO_PARENT :: usize where "NO_PARENT = U64_MAX"

datatype radix_error =
    RadixAllocation
  | EmptySource
  | ZeroSourceGeneration
  | TokensPerSourceCapacity usize usize
  | SourceCapacity usize
  | StoredTokenCapacity usize usize
  | NodeCapacity usize usize
  | TicketExhausted
  | RadixInvariantViolation

record radix_node =
  rn_token :: token_id
  rn_parent :: usize
  rn_first_child :: "usize option"
  rn_next_sibling :: "usize option"
  rn_depth :: usize

definition radix_node_ROOT :: radix_node where
  "radix_node_ROOT =
     \<lparr>rn_token = 0, rn_parent = NO_PARENT, rn_first_child = None, rn_next_sibling = None, rn_depth = 0\<rparr>"

record radix_source =
  rs_request :: request_id
  rs_endpoint :: usize
  rs_token_count :: usize
  rs_ticket :: u64

record radix_match =
  rm_source :: request_id
  rm_token_count :: u32

type_synonym nodes = "radix_node option list"

record radix_index =
  rx_limits :: radix_limits
  rx_nodes :: nodes
  rx_sources :: "radix_source option list"
  rx_node_count :: usize
  rx_source_count :: usize
  rx_stored_tokens :: usize
  rx_next_ticket :: u64

text \<open>\<open>nodes.get(i).and_then(Option::as_ref)\<close>.\<close>

definition node_at :: "nodes \<Rightarrow> usize \<Rightarrow> radix_node option" where
  "node_at N i = (if i < length N then N ! i else None)"

text \<open>\<open>iter().position(P)\<close>.\<close>

definition position :: "('a \<Rightarrow> bool) \<Rightarrow> 'a list \<Rightarrow> usize option" where
  "position P xs = find (\<lambda>i. P (xs ! i)) [0..<length xs]"

text \<open>\<open>iter().min()\<close>: the least element of a nonempty sequence.\<close>

definition iter_min :: "'a::linorder list \<Rightarrow> 'a option" where
  "iter_min xs = (case xs of [] \<Rightarrow> None | y # ys \<Rightarrow> Some (fold min ys y))"

text \<open>The reservations of \<open>Vec::try_reserve_exact\<close> may fail; whether they do is the argument
  \<open>reserve\<close>.\<close>

definition radix_new :: "(usize \<Rightarrow> bool) \<Rightarrow> radix_limits \<Rightarrow> (radix_error + radix_index) exec" where
  "radix_new reserve limits =
     (if \<not> reserve (lim_nodes limits) then Some (Inl RadixAllocation)
      else do {
        nodes \<leftarrow> upd (replicate (lim_nodes limits) None) ROOT_NODE (Some radix_node_ROOT);
        if \<not> reserve (lim_sources limits) then Some (Inl RadixAllocation)
        else Some (Inr \<lparr>rx_limits = limits, rx_nodes = nodes,
                        rx_sources = replicate (lim_sources limits) None,
                        rx_node_count = 1, rx_source_count = 0, rx_stored_tokens = 0,
                        rx_next_ticket = 1\<rparr>) })"

subsection \<open>Walking the trie\<close>

partial_function (option) find_child_loop :: "nodes \<Rightarrow> token_id \<Rightarrow> usize option \<Rightarrow> usize option exec" where
  "find_child_loop N token child =
     (case child of
        None \<Rightarrow> Some None
      | Some index \<Rightarrow>
          (case node_at N index of
             None \<Rightarrow> Some None
           | Some node \<Rightarrow> if rn_token node = token then Some (Some index)
                          else find_child_loop N token (rn_next_sibling node)))"

definition find_child :: "nodes \<Rightarrow> usize \<Rightarrow> token_id \<Rightarrow> usize option exec" where
  "find_child N parent token =
     (case node_at N parent of
        None \<Rightarrow> Some None
      | Some node \<Rightarrow> find_child_loop N token (rn_first_child node))"

fun existing_prefix_loop ::
  "nodes \<Rightarrow> token_id list \<Rightarrow> usize \<Rightarrow> usize \<Rightarrow> (radix_error + usize \<times> usize) exec" where
  "existing_prefix_loop N [] node depth = Some (Inr (node, depth))"
| "existing_prefix_loop N (token # tokens) node depth = do {
     found \<leftarrow> find_child N node token;
     case found of
       None \<Rightarrow> Some (Inr (node, depth))
     | Some child \<Rightarrow>
         (case usize_add depth 1 of
            None \<Rightarrow> Some (Inl RadixInvariantViolation)
          | Some depth' \<Rightarrow> existing_prefix_loop N tokens child depth') }"

definition existing_prefix :: "nodes \<Rightarrow> token_id list \<Rightarrow> (radix_error + usize \<times> usize) exec" where
  "existing_prefix N tokens = existing_prefix_loop N tokens ROOT_NODE 0"

fun source_tokens_equal_loop :: "nodes \<Rightarrow> token_id list \<Rightarrow> usize \<Rightarrow> bool" where
  "source_tokens_equal_loop N [] node = (node = ROOT_NODE)"
| "source_tokens_equal_loop N (token # reversed) node =
     (case node_at N node of
        None \<Rightarrow> False
      | Some entry \<Rightarrow> if rn_token entry \<noteq> token then False
                      else source_tokens_equal_loop N reversed (rn_parent entry))"

definition source_tokens_equal :: "nodes \<Rightarrow> radix_source \<Rightarrow> token_id list \<Rightarrow> bool" where
  "source_tokens_equal N source tokens =
     (if rs_token_count source \<noteq> length tokens then False
      else source_tokens_equal_loop N (rev tokens) (rs_endpoint source))"

partial_function (option) node_is_ancestor_loop :: "nodes \<Rightarrow> usize \<Rightarrow> usize \<Rightarrow> usize \<Rightarrow> bool exec" where
  "node_is_ancestor_loop N ancestor ancestor_depth node =
     (case node_at N node of
        None \<Rightarrow> Some False
      | Some entry \<Rightarrow>
          if rn_depth entry < ancestor_depth then Some False
          else if node = ancestor then Some True
          else node_is_ancestor_loop N ancestor ancestor_depth (rn_parent entry))"

definition node_is_ancestor :: "nodes \<Rightarrow> usize \<Rightarrow> usize \<Rightarrow> bool exec" where
  "node_is_ancestor N ancestor node =
     (case node_at N ancestor of
        None \<Rightarrow> Some False
      | Some a \<Rightarrow> node_is_ancestor_loop N ancestor (rn_depth a) node)"

text \<open>The lazy iterator of \<open>best_source_below\<close>: the requests of the sources below \<open>ancestor\<close>, in slot order.\<close>

fun sources_below :: "nodes \<Rightarrow> usize \<Rightarrow> radix_source option list \<Rightarrow> request_id list exec" where
  "sources_below N ancestor [] = Some []"
| "sources_below N ancestor (None # rest) = sources_below N ancestor rest"
| "sources_below N ancestor (Some source # rest) = do {
     below \<leftarrow> node_is_ancestor N ancestor (rs_endpoint source);
     requests \<leftarrow> sources_below N ancestor rest;
     Some (if below then rs_request source # requests else requests) }"

definition best_source_below :: "radix_index \<Rightarrow> usize \<Rightarrow> request_id option exec" where
  "best_source_below ix ancestor = do {
     requests \<leftarrow> sources_below (rx_nodes ix) ancestor (rx_sources ix);
     Some (iter_min requests) }"

text \<open>A question mark on a missing node or on a depth beyond \<open>u32\<close> returns no match at all.\<close>

fun longest_match_loop ::
  "radix_index \<Rightarrow> usize \<Rightarrow> token_id list \<Rightarrow> usize \<Rightarrow> radix_match option \<Rightarrow> radix_match option exec" where
  "longest_match_loop ix page_tokens [] node best = Some best"
| "longest_match_loop ix page_tokens (token # tokens) node best = do {
     found \<leftarrow> find_child (rx_nodes ix) node token;
     case found of
       None \<Rightarrow> Some best
     | Some child \<Rightarrow> do {
         entry \<leftarrow> idx (rx_nodes ix) child;
         case entry of
           None \<Rightarrow> Some None
         | Some e \<Rightarrow>
             if rn_depth e mod page_tokens = 0 then do {
               source \<leftarrow> best_source_below ix child;
               case source of
                 None \<Rightarrow> longest_match_loop ix page_tokens tokens child best
               | Some request \<Rightarrow>
                   if U32_MAX < rn_depth e then Some None
                   else longest_match_loop ix page_tokens tokens child
                          (Some \<lparr>rm_source = request, rm_token_count = rn_depth e\<rparr>) }
             else longest_match_loop ix page_tokens tokens child best } }"

definition longest_page_aligned_match ::
  "radix_index \<Rightarrow> token_id list \<Rightarrow> u32 \<Rightarrow> radix_match option exec" where
  "longest_page_aligned_match ix tokens logical_page_tokens =
     (if logical_page_tokens = 0 then Some None
      else longest_match_loop ix logical_page_tokens tokens ROOT_NODE None)"

subsection \<open>Changing the trie\<close>

definition insert_child ::
  "radix_index \<Rightarrow> usize \<Rightarrow> token_id \<Rightarrow> ((radix_error + usize) \<times> radix_index) exec" where
  "insert_child ix parent token =
     (case find (\<lambda>i. rx_nodes ix ! i = None) [1..<length (rx_nodes ix)] of
        None \<Rightarrow> Some (Inl RadixInvariantViolation, ix)
      | Some new_slot \<Rightarrow>
          (case node_at (rx_nodes ix) parent of
             None \<Rightarrow> Some (Inl RadixInvariantViolation, ix)
           | Some parent_node \<Rightarrow>
               (case usize_add (rn_depth parent_node) 1 of
                  None \<Rightarrow> Some (Inl RadixInvariantViolation, ix)
                | Some depth \<Rightarrow> do {
                    nodes1 \<leftarrow> upd (rx_nodes ix) new_slot
                       (Some \<lparr>rn_token = token, rn_parent = parent, rn_first_child = None,
                              rn_next_sibling = rn_first_child parent_node, rn_depth = depth\<rparr>);
                    entry \<leftarrow> idx nodes1 parent;
                    case entry of
                      None \<Rightarrow> Some (Inl RadixInvariantViolation, ix\<lparr>rx_nodes := nodes1\<rparr>)
                    | Some p \<Rightarrow> do {
                        nodes2 \<leftarrow> upd nodes1 parent (Some (p\<lparr>rn_first_child := Some new_slot\<rparr>));
                        case usize_add (rx_node_count ix) 1 of
                          None \<Rightarrow> Some (Inl RadixInvariantViolation, ix\<lparr>rx_nodes := nodes2\<rparr>)
                        | Some node_count \<Rightarrow>
                            Some (Inr new_slot, ix\<lparr>rx_nodes := nodes2, rx_node_count := node_count\<rparr>) } })))"

text \<open>The loop of \<open>unlink_child\<close> looks for the sibling that precedes the child; the write follows it.\<close>

partial_function (option) preceding_sibling_loop ::
  "nodes \<Rightarrow> usize \<Rightarrow> usize option \<Rightarrow> (radix_error + usize \<times> radix_node) exec" where
  "preceding_sibling_loop N child sibling =
     (case sibling of
        None \<Rightarrow> Some (Inl RadixInvariantViolation)
      | Some index \<Rightarrow>
          (case node_at N index of
             None \<Rightarrow> Some (Inl RadixInvariantViolation)
           | Some node \<Rightarrow>
               if rn_next_sibling node = Some child then Some (Inr (index, node))
               else preceding_sibling_loop N child (rn_next_sibling node)))"

definition unlink_child :: "nodes \<Rightarrow> usize \<Rightarrow> usize \<Rightarrow> ((radix_error + unit) \<times> nodes) exec" where
  "unlink_child N parent child =
     (case node_at N child of
        None \<Rightarrow> Some (Inl RadixInvariantViolation, N)
      | Some c \<Rightarrow>
          (case node_at N parent of
             None \<Rightarrow> Some (Inl RadixInvariantViolation, N)
           | Some p \<Rightarrow>
               if rn_first_child p = Some child
               then Some (Inr (), N[parent := Some (p\<lparr>rn_first_child := rn_next_sibling c\<rparr>)])
               else do {
                 found \<leftarrow> preceding_sibling_loop N child (rn_first_child p);
                 case found of
                   Inl e \<Rightarrow> Some (Inl e, N)
                 | Inr (index, node) \<Rightarrow>
                     Some (Inr (), N[index := Some (node\<lparr>rn_next_sibling := rn_next_sibling c\<rparr>)]) }))"

definition is_endpoint :: "radix_source option list \<Rightarrow> usize \<Rightarrow> bool" where
  "is_endpoint sources node = list_ex (\<lambda>s. case s of None \<Rightarrow> False | Some r \<Rightarrow> rs_endpoint r = node) sources"

partial_function (option) prune_from ::
  "radix_index \<Rightarrow> usize \<Rightarrow> ((radix_error + unit) \<times> radix_index) exec" where
  "prune_from ix node =
     (if node = ROOT_NODE then Some (Inr (), ix)
      else case node_at (rx_nodes ix) node of
        None \<Rightarrow> Some (Inl RadixInvariantViolation, ix)
      | Some entry \<Rightarrow>
          if rn_first_child entry \<noteq> None \<or> is_endpoint (rx_sources ix) node then Some (Inr (), ix)
          else Option.bind (unlink_child (rx_nodes ix) (rn_parent entry) node) (\<lambda>(unlinked, nodes1).
            case unlinked of
              Inl e \<Rightarrow> Some (Inl e, ix\<lparr>rx_nodes := nodes1\<rparr>)
            | Inr _ \<Rightarrow> Option.bind (upd nodes1 node None) (\<lambda>nodes2.
                case u_sub (rx_node_count ix) 1 of
                  None \<Rightarrow> Some (Inl RadixInvariantViolation, ix\<lparr>rx_nodes := nodes2\<rparr>)
                | Some node_count \<Rightarrow>
                    prune_from (ix\<lparr>rx_nodes := nodes2, rx_node_count := node_count\<rparr>) (rn_parent entry))))"

definition remove_source_slot :: "radix_index \<Rightarrow> usize \<Rightarrow> ((radix_error + unit) \<times> radix_index) exec" where
  "remove_source_slot ix source_slot =
     (case idx (rx_sources ix) source_slot of
        None \<Rightarrow> Some (Inl RadixInvariantViolation, ix)
      | Some None \<Rightarrow> Some (Inl RadixInvariantViolation, ix)
      | Some (Some source) \<Rightarrow>
          let ix1 = ix\<lparr>rx_sources := (rx_sources ix)[source_slot := None]\<rparr> in
          (case u_sub (rx_source_count ix1) 1 of
             None \<Rightarrow> Some (Inl RadixInvariantViolation, ix1)
           | Some source_count \<Rightarrow>
               let ix2 = ix1\<lparr>rx_source_count := source_count\<rparr> in
               (case u_sub (rx_stored_tokens ix2) (rs_token_count source) of
                  None \<Rightarrow> Some (Inl RadixInvariantViolation, ix2)
                | Some stored_tokens \<Rightarrow>
                    prune_from (ix2\<lparr>rx_stored_tokens := stored_tokens\<rparr>) (rs_endpoint source))))"

subsection \<open>Public operations\<close>

definition invalidate_source :: "radix_index \<Rightarrow> request_id \<Rightarrow> ((radix_error + bool) \<times> radix_index) exec" where
  "invalidate_source ix source =
     (case position (\<lambda>entry. case entry of None \<Rightarrow> False | Some s \<Rightarrow> rs_request s = source) (rx_sources ix) of
        None \<Rightarrow> Some (Inr False, ix)
      | Some source_slot \<Rightarrow> do {
          (removed, ix') \<leftarrow> remove_source_slot ix source_slot;
          Some (map_sum id (\<lambda>_. True) removed, ix') })"

text \<open>\<open>min_by_key\<close> keeps the first of equal keys; a later entry replaces it only when smaller.\<close>

fun oldest_source :: "(usize \<times> radix_source option) list \<Rightarrow> (usize \<times> radix_source) option \<Rightarrow> (usize \<times> radix_source) option" where
  "oldest_source [] best = best"
| "oldest_source ((i, None) # rest) best = oldest_source rest best"
| "oldest_source ((i, Some entry) # rest) best =
     oldest_source rest
       (case best of
          None \<Rightarrow> Some (i, entry)
        | Some (j, b) \<Rightarrow> if (rs_ticket entry, rs_request entry) < (rs_ticket b, rs_request b)
                         then Some (i, entry) else Some (j, b))"

definition evict_oldest :: "radix_index \<Rightarrow> ((radix_error + request_id option) \<times> radix_index) exec" where
  "evict_oldest ix =
     (case oldest_source (enumerate 0 (rx_sources ix)) None of
        None \<Rightarrow> if rx_source_count ix \<noteq> 0 then Some (Inl RadixInvariantViolation, ix) else Some (Inr None, ix)
      | Some (source_slot, entry) \<Rightarrow> do {
          (removed, ix') \<leftarrow> remove_source_slot ix source_slot;
          Some (map_sum id (\<lambda>_. Some (rs_request entry)) removed, ix') })"

subsection \<open>Registration\<close>

record authenticated_source =
  as_source :: request_id
  as_tokens :: "token_id list"

definition victim_slots :: "usize option \<Rightarrow> usize option \<Rightarrow> usize list" where
  "victim_slots same_slot duplicate_prefix =
     (case same_slot of None \<Rightarrow> [] | Some s \<Rightarrow> [s]) @
     (case duplicate_prefix of None \<Rightarrow> [] | Some d \<Rightarrow> if Some d \<noteq> same_slot then [d] else [])"

fun tally_victims ::
  "radix_source option list \<Rightarrow> usize list \<Rightarrow> usize \<Rightarrow> usize \<Rightarrow> (radix_error + usize \<times> usize) exec" where
  "tally_victims sources [] victim_count victim_tokens = Some (Inr (victim_count, victim_tokens))"
| "tally_victims sources (v # vs) victim_count victim_tokens = do {
     e \<leftarrow> idx sources v;
     case e of
       None \<Rightarrow> Some (Inl RadixInvariantViolation)
     | Some entry \<Rightarrow>
         (case usize_add victim_count 1 of
            None \<Rightarrow> Some (Inl RadixInvariantViolation)
          | Some count' \<Rightarrow>
              (case usize_add victim_tokens (rs_token_count entry) of
                 None \<Rightarrow> Some (Inl RadixInvariantViolation)
               | Some tokens' \<Rightarrow> tally_victims sources vs count' tokens')) }"

fun take_victims :: "radix_source option list \<Rightarrow> usize list \<Rightarrow> (usize list \<times> radix_source option list) exec" where
  "take_victims sources [] = Some ([], sources)"
| "take_victims sources (v # vs) = do {
     e \<leftarrow> idx sources v;
     entry \<leftarrow> e;
     sources1 \<leftarrow> upd sources v None;
     (endpoints, sources2) \<leftarrow> take_victims sources1 vs;
     Some (rs_endpoint entry # endpoints, sources2) }"

text \<open>The loops of the mutation phase unwrap every result, so an error there is a panic.\<close>

fun insert_path :: "radix_index \<Rightarrow> usize \<Rightarrow> token_id list \<Rightarrow> (usize \<times> radix_index) exec" where
  "insert_path ix endpoint [] = Some (endpoint, ix)"
| "insert_path ix endpoint (token # tokens) = do {
     (inserted, ix') \<leftarrow> insert_child ix endpoint token;
     case inserted of
       Inl _ \<Rightarrow> None
     | Inr endpoint' \<Rightarrow> insert_path ix' endpoint' tokens }"

fun prune_all :: "radix_index \<Rightarrow> usize list \<Rightarrow> radix_index exec" where
  "prune_all ix [] = Some ix"
| "prune_all ix (endpoint # endpoints) = do {
     (pruned, ix') \<leftarrow> prune_from ix endpoint;
     case pruned of Inl _ \<Rightarrow> None | Inr _ \<Rightarrow> prune_all ix' endpoints }"

definition register_commit ::
  "radix_index \<Rightarrow> request_id \<Rightarrow> token_id list \<Rightarrow> usize list \<Rightarrow> usize \<Rightarrow> usize \<Rightarrow> usize \<Rightarrow> u64 \<Rightarrow> usize \<Rightarrow> usize \<Rightarrow>
   ((radix_error + unit) \<times> radix_index) exec" where
  "register_commit ix source tokens victims retained_sources retained_tokens requested_tokens next_ticket
      existing_parent existing_depth = do {
     (victim_endpoints, sources1) \<leftarrow> take_victims (rx_sources ix) victims;
     let ix1 = ix\<lparr>rx_sources := sources1, rx_source_count := retained_sources,
                  rx_stored_tokens := retained_tokens\<rparr>;
     (endpoint, ix2) \<leftarrow> insert_path ix1 existing_parent (drop existing_depth tokens);
     source_slot \<leftarrow> position (\<lambda>s. s = None) (rx_sources ix2);
     sources2 \<leftarrow> upd (rx_sources ix2) source_slot
        (Some \<lparr>rs_request = source, rs_endpoint = endpoint, rs_token_count = length tokens,
               rs_ticket = rx_next_ticket ix2\<rparr>);
     source_count \<leftarrow> usize_add retained_sources 1;
     ix3 \<leftarrow> prune_all (ix2\<lparr>rx_sources := sources2, rx_source_count := source_count,
                         rx_stored_tokens := requested_tokens, rx_next_ticket := next_ticket\<rparr>)
                     victim_endpoints;
     Some (Inr (), ix3) }"

definition register_nodes ::
  "radix_index \<Rightarrow> request_id \<Rightarrow> token_id list \<Rightarrow> usize list \<Rightarrow> usize \<Rightarrow> usize \<Rightarrow> usize \<Rightarrow> u64 \<Rightarrow>
   ((radix_error + unit) \<times> radix_index) exec" where
  "register_nodes ix source tokens victims retained_sources retained_tokens requested_tokens next_ticket = do {
     existing \<leftarrow> existing_prefix (rx_nodes ix) tokens;
     case existing of
       Inl e \<Rightarrow> Some (Inl e, ix)
     | Inr (existing_parent, existing_depth) \<Rightarrow> do {
         missing_nodes \<leftarrow> u_sub (length tokens) existing_depth;
         free_nodes \<leftarrow> u_sub (lim_nodes (rx_limits ix)) (rx_node_count ix);
         if free_nodes < missing_nodes
         then Some (Inl (NodeCapacity (lim_nodes (rx_limits ix)) (min U64_MAX (rx_node_count ix + missing_nodes))), ix)
         else register_commit ix source tokens victims retained_sources retained_tokens requested_tokens
                next_ticket existing_parent existing_depth } }"

definition register_storage ::
  "radix_index \<Rightarrow> request_id \<Rightarrow> token_id list \<Rightarrow> u64 \<Rightarrow> ((radix_error + unit) \<times> radix_index) exec" where
  "register_storage ix source tokens next_ticket =
     (let same_slot = position (\<lambda>entry. case entry of None \<Rightarrow> False | Some s \<Rightarrow> slot (rs_request s) = slot source)
                        (rx_sources ix);
          duplicate_prefix = position (\<lambda>entry. case entry of None \<Rightarrow> False
                                                | Some s \<Rightarrow> source_tokens_equal (rx_nodes ix) s tokens) (rx_sources ix);
          victims = victim_slots same_slot duplicate_prefix
      in do {
        tally \<leftarrow> tally_victims (rx_sources ix) victims 0 0;
        case tally of
          Inl e \<Rightarrow> Some (Inl e, ix)
        | Inr (victim_count, victim_tokens) \<Rightarrow>
            (case u_sub (rx_source_count ix) victim_count of
               None \<Rightarrow> Some (Inl RadixInvariantViolation, ix)
             | Some retained_sources \<Rightarrow>
                 if lim_sources (rx_limits ix) \<le> retained_sources
                 then Some (Inl (SourceCapacity (lim_sources (rx_limits ix))), ix)
                 else case u_sub (rx_stored_tokens ix) victim_tokens of
                   None \<Rightarrow> Some (Inl RadixInvariantViolation, ix)
                 | Some retained_tokens \<Rightarrow>
                     (case usize_add retained_tokens (length tokens) of
                        None \<Rightarrow> Some (Inl (StoredTokenCapacity (lim_stored_tokens (rx_limits ix)) U64_MAX), ix)
                      | Some requested_tokens \<Rightarrow>
                          if lim_stored_tokens (rx_limits ix) < requested_tokens
                          then Some (Inl (StoredTokenCapacity (lim_stored_tokens (rx_limits ix)) requested_tokens), ix)
                          else register_nodes ix source tokens victims retained_sources retained_tokens
                                 requested_tokens next_ticket)) })"

definition register_authenticated_source ::
  "radix_index \<Rightarrow> authenticated_source \<Rightarrow> ((radix_error + unit) \<times> radix_index) exec" where
  "register_authenticated_source ix authority =
     (let source = as_source authority; tokens = as_tokens authority in
      if tokens = [] then Some (Inl EmptySource, ix)
      else if generation source = 0 then Some (Inl ZeroSourceGeneration, ix)
      else if lim_tokens_per_source (rx_limits ix) < length tokens
      then Some (Inl (TokensPerSourceCapacity (lim_tokens_per_source (rx_limits ix)) (length tokens)), ix)
      else case u64_add (rx_next_ticket ix) 1 of
        None \<Rightarrow> Some (Inl TicketExhausted, ix)
      | Some next_ticket \<Rightarrow> register_storage ix source tokens next_ticket)"

text \<open>The caller that mints the authority from a completed prefill.  Its custody object is opaque here: \<open>request\<close>
  and \<open>prompt_tokens\<close> read its two fields, and the object is handed back on every branch.\<close>

datatype radix_registration_error = HostAllocation | RegistrationIndex radix_error

definition register_m1_authenticated_prefill_radix_source ::
  "(usize \<Rightarrow> bool) \<Rightarrow> ('s \<Rightarrow> request_id) \<Rightarrow> ('s \<Rightarrow> token_id list) \<Rightarrow> radix_index \<Rightarrow> 's \<Rightarrow>
   ((radix_registration_error \<times> 's + 's) \<times> radix_index) exec" where
  "register_m1_authenticated_prefill_radix_source reserve request prompt_tokens ix success =
     (if \<not> reserve (length (prompt_tokens success)) then Some (Inl (HostAllocation, success), ix)
      else do {
        (registered, ix') \<leftarrow> register_authenticated_source ix
           \<lparr>as_source = request success, as_tokens = prompt_tokens success\<rparr>;
        case registered of
          Inr _ \<Rightarrow> Some (Inr success, ix')
        | Inl err \<Rightarrow> Some (Inl (RegistrationIndex err, success), ix') })"

end
