(* ===== verification/Radix_Trie.thy ===== *)
theory Radix_Trie
  imports Radix "HOL-Library.Sublist" "HOL-Library.Multiset"
begin

text \<open>
  The linked node array of the radix index as a trie: every allocated node stands for one token
  word, distinct nodes for distinct words, and the sibling links of a node list its children.  The
  walks of \<^verbatim>\<open>radix_prefix.rs\<close> are equated with questions about words, and the two mutations, inserting
  a leaf and unlinking one, are shown to keep the structure.
\<close>

subsection \<open>The structure\<close>

definition allocated :: "nodes \<Rightarrow> nat set" where
  "allocated N = {n. node_at N n \<noteq> None}"

fun siblings :: "nodes \<Rightarrow> usize option \<Rightarrow> usize list \<Rightarrow> bool" where
  "siblings N start [] = (start = None)"
| "siblings N start (c # cs) =
     (start = Some c \<and> (case node_at N c of None \<Rightarrow> False | Some e \<Rightarrow> siblings N (rn_next_sibling e) cs))"

definition children :: "nodes \<Rightarrow> nat \<Rightarrow> nat set" where
  "children N n = {c. c \<noteq> 0 \<and> (\<exists>e. node_at N c = Some e \<and> rn_parent e = n)}"

definition node_ok :: "nodes \<Rightarrow> (nat \<Rightarrow> token_id list) \<Rightarrow> (nat \<Rightarrow> nat list) \<Rightarrow> nat \<Rightarrow> radix_node \<Rightarrow> bool" where
  "node_ok N w ch n e =
     (siblings N (rn_first_child e) (ch n) \<and> distinct (ch n) \<and> set (ch n) = children N n
      \<and> rn_depth e = length (w n)
      \<and> (n \<noteq> 0 \<longrightarrow> rn_parent e \<in> allocated N \<and> w n = w (rn_parent e) @ [rn_token e]))"

definition trie :: "nodes \<Rightarrow> (nat \<Rightarrow> token_id list) \<Rightarrow> (nat \<Rightarrow> nat list) \<Rightarrow> bool" where
  "trie N w ch =
     (0 \<in> allocated N \<and> w 0 = [] \<and> inj_on w (allocated N)
      \<and> (\<forall>n e. node_at N n = Some e \<longrightarrow> node_ok N w ch n e))"

lemma node_at_update:
  "node_at (N[k := v]) n = (if n = k \<and> k < length N then v else node_at N n)"
  by (auto simp: node_at_def nth_list_update)

lemma node_at_Some_less: "node_at N n = Some e \<Longrightarrow> n < length N"
  by (auto simp: node_at_def split: if_splits)

lemma idx_node_at: "node_at N n = Some e \<Longrightarrow> idx N n = Some (Some e)"
  by (auto simp: node_at_def idx_def split: if_splits)

lemma allocatedI: "node_at N n = Some e \<Longrightarrow> n \<in> allocated N"
  by (simp add: allocated_def)

lemma allocatedE:
  assumes "n \<in> allocated N"
  obtains e where "node_at N n = Some e"
  using assms by (auto simp: allocated_def)

lemma finite_allocated [simp]: "finite (allocated N)"
  by (rule finite_subset [of _ "{..<length N}"])
     (auto simp: allocated_def dest: node_at_Some_less)

lemma card_allocated_le: "card (allocated N) \<le> length N"
  using card_mono [of "{..<length N}" "allocated N"]
  by (auto simp: allocated_def dest: node_at_Some_less)

lemma trie_root:
  assumes "trie N w ch"
  shows "0 \<in> allocated N" "w 0 = []"
  using assms by (simp_all add: trie_def)

lemma trie_nonroot: "trie N w ch \<Longrightarrow> w n \<noteq> [] \<Longrightarrow> n \<noteq> 0"
  using trie_root(2) by metis

lemma trie_inj: "trie N w ch \<Longrightarrow> m \<in> allocated N \<Longrightarrow> n \<in> allocated N \<Longrightarrow> w m = w n \<Longrightarrow> m = n"
  unfolding trie_def by (blast dest: inj_onD)

lemma trie_node: "trie N w ch \<Longrightarrow> node_at N n = Some e \<Longrightarrow> node_ok N w ch n e"
  unfolding trie_def by blast

lemma trie_depth: "trie N w ch \<Longrightarrow> node_at N n = Some e \<Longrightarrow> rn_depth e = length (w n)"
  by (drule (1) trie_node) (simp add: node_ok_def)

lemma trie_parent:
  assumes "trie N w ch" "node_at N n = Some e" "n \<noteq> 0"
  shows "rn_parent e \<in> allocated N" "w n = w (rn_parent e) @ [rn_token e]"
  using trie_node [OF assms(1,2)] assms(3) by (simp_all add: node_ok_def)

lemma trie_children: "trie N w ch \<Longrightarrow> node_at N n = Some e \<Longrightarrow> set (ch n) = children N n"
  by (drule (1) trie_node) (simp add: node_ok_def)

lemma trie_word_root: "trie N w ch \<Longrightarrow> n \<in> allocated N \<Longrightarrow> w n = [] \<longleftrightarrow> n = 0"
  using trie_inj [of N w ch n 0] trie_root by metis

lemma trie_child:
  assumes T: "trie N w ch" and n: "node_at N n = Some e"
  shows "c \<in> set (ch n) \<longleftrightarrow> (\<exists>ec. node_at N c = Some ec \<and> w c = w n @ [rn_token ec])"
proof
  assume "c \<in> set (ch n)"
  then show "\<exists>ec. node_at N c = Some ec \<and> w c = w n @ [rn_token ec]"
    using trie_children [OF T n] trie_parent(2) [OF T] by (auto simp: children_def)
next
  assume "\<exists>ec. node_at N c = Some ec \<and> w c = w n @ [rn_token ec]"
  then obtain ec where ec: "node_at N c = Some ec" "w c = w n @ [rn_token ec]" by blast
  then have "c \<noteq> 0" using trie_nonroot [OF T] by simp
  note p = trie_parent [OF T ec(1) this]
  have "rn_parent ec = n" using p ec(2) trie_inj [OF T p(1) allocatedI [OF n]] by simp
  with ec(1) \<open>c \<noteq> 0\<close> show "c \<in> set (ch n)"
    using trie_children [OF T n] by (auto simp: children_def)
qed

lemma trie_last_token:
  assumes T: "trie N w ch" and "node_at N c = Some e" "w c = v @ [t]"
  shows "t = rn_token e"
  using trie_parent(2) [OF T assms(2) trie_nonroot [OF T]] assms(3) by simp

text \<open>The words of the allocated nodes are closed under prefixes.\<close>

lemma trie_prefix_closed:
  assumes T: "trie N w ch"
  shows "n \<in> allocated N \<Longrightarrow> prefix v (w n) \<Longrightarrow> v \<in> w ` allocated N"
proof (induction "length (w n)" arbitrary: n rule: less_induct)
  case less
  show ?case
  proof (cases "v = w n")
    case False
    then have "w n \<noteq> []" using less.prems(2) by auto
    then have "n \<noteq> 0" by (rule trie_nonroot [OF T])
    obtain e where e: "node_at N n = Some e" using less.prems(1) by (rule allocatedE)
    note p = trie_parent [OF T e \<open>n \<noteq> 0\<close>]
    from less.prems(2) False p(2) have "prefix v (w (rn_parent e))" by auto
    with less.hyps [OF _ p(1)] p(2) show ?thesis by simp
  qed (use less.prems in blast)
qed

subsection \<open>Walks\<close>

lemma find_child_loop_siblings:
  "siblings N start cs \<Longrightarrow>
     find_child_loop N t start = Some (find (\<lambda>c. map_option rn_token (node_at N c) = Some t) cs)"
proof (induction cs arbitrary: start)
  case Nil
  then show ?case by (subst find_child_loop.simps) simp
next
  case (Cons c cs)
  then show ?case by (subst find_child_loop.simps) (auto split: option.splits)
qed

lemma find_child_cases:
  assumes T: "trie N w ch" and n: "n \<in> allocated N"
  obtains (child) c where "find_child N n t = Some (Some c)" "c \<in> allocated N" "w c = w n @ [t]"
  | (none) "find_child N n t = Some None" "w n @ [t] \<notin> w ` allocated N"
proof -
  obtain e where e: "node_at N n = Some e" using n by (rule allocatedE)
  let ?P = "\<lambda>c. map_option rn_token (node_at N c) = Some t"
  have f: "find_child N n t = Some (find ?P (ch n))"
    using find_child_loop_siblings trie_node [OF T e] e by (simp add: find_child_def node_ok_def)
  have hit: "c \<in> set (ch n) \<and> ?P c \<longleftrightarrow> c \<in> allocated N \<and> w c = w n @ [t]" for c
  proof (cases "node_at N c")
    case None
    then show ?thesis by (simp add: allocated_def)
  next
    case (Some ec)
    then have "w c = w n @ [t] \<longleftrightarrow> w c = w n @ [rn_token ec] \<and> rn_token ec = t"
      using trie_last_token [OF T Some, of "w n" t] by auto
    then show ?thesis using Some trie_child [OF T e, of c] by (simp add: allocated_def)
  qed
  show ?thesis
  proof (cases "find ?P (ch n)")
    case None
    then have "\<not> (\<exists>c. c \<in> set (ch n) \<and> ?P c)" by (auto simp: find_None_iff)
    then have "w n @ [t] \<notin> w ` allocated N" unfolding hit by (metis imageE)
    with f None show ?thesis using none by simp
  next
    case (Some c)
    then have "c \<in> set (ch n) \<and> ?P c" by (auto simp: find_Some_iff)
    with f Some hit show ?thesis using child by simp
  qed
qed

lemma existing_prefix_loop_correct:
  assumes T: "trie N w ch" and "n \<in> allocated N" "length (w n) + length ts \<le> U64_MAX"
  shows "\<exists>m k. existing_prefix_loop N ts n (length (w n)) = Some (Inr (m, length (w n) + k))
           \<and> m \<in> allocated N \<and> k \<le> length ts \<and> w m = w n @ take k ts
           \<and> (k < length ts \<longrightarrow> w n @ take (Suc k) ts \<notin> w ` allocated N)"
  using assms(2,3)
proof (induction ts arbitrary: n)
  case (Cons t ts)
  show ?case
  proof (rule find_child_cases [OF T Cons.prems(1), of t])
    fix c assume c: "find_child N n t = Some (Some c)" "c \<in> allocated N" "w c = w n @ [t]"
    from Cons.IH [OF c(2)] c(3) Cons.prems(2)
    obtain m k where mk: "existing_prefix_loop N ts c (length (w c)) = Some (Inr (m, length (w c) + k))"
      "m \<in> allocated N" "k \<le> length ts" "w m = w c @ take k ts"
      "k < length ts \<longrightarrow> w c @ take (Suc k) ts \<notin> w ` allocated N" by auto
    then show ?thesis using c Cons.prems(2)
      by (intro exI [of _ m] exI [of _ "Suc k"]) (auto simp: exec_simps)
  next
    assume "find_child N n t = Some None" "w n @ [t] \<notin> w ` allocated N"
    then show ?thesis using Cons.prems(1) by (intro exI [of _ n] exI [of _ 0]) simp
  qed
qed auto

lemma existing_prefix_correct:
  assumes T: "trie N w ch" and "length ts \<le> U64_MAX"
  obtains m k where "existing_prefix N ts = Some (Inr (m, k))" "m \<in> allocated N" "k \<le> length ts"
    "w m = take k ts" "k < length ts \<longrightarrow> take (Suc k) ts \<notin> w ` allocated N"
  using existing_prefix_loop_correct [OF T trie_root(1) [OF T], of ts] assms(2) trie_root(2) [OF T]
  by (auto simp: existing_prefix_def)

lemma source_tokens_equal_loop_correct:
  assumes T: "trie N w ch" and "n \<in> allocated N" "length ts = length (w n)"
  shows "source_tokens_equal_loop N (rev ts) n \<longleftrightarrow> w n = ts"
  using assms(2,3)
proof (induction ts arbitrary: n rule: rev_induct)
  case Nil
  then show ?case using trie_word_root [OF T] by simp
next
  case (snoc t ts)
  obtain e where e: "node_at N n = Some e" using snoc.prems(1) by (rule allocatedE)
  have "n \<noteq> 0" by (rule trie_nonroot [OF T]) (use snoc.prems(2) in auto)
  note p = trie_parent [OF T e this]
  show ?case using snoc.IH [OF p(1)] snoc.prems(2) p(2) e by simp
qed

lemma node_is_ancestor_loop_correct:
  assumes T: "trie N w ch" and a: "a \<in> allocated N" and "n \<in> allocated N"
  shows "node_is_ancestor_loop N a (length (w a)) n = Some (prefix (w a) (w n))"
  using assms(3)
proof (induction "length (w n)" arbitrary: n rule: less_induct)
  case less
  obtain e where e: "node_at N n = Some e" using less.prems by (rule allocatedE)
  note d = trie_depth [OF T e]
  consider "length (w n) < length (w a)" | "n = a" | "length (w a) \<le> length (w n)" "n \<noteq> a" by linarith
  then show ?case
  proof cases
    case 1
    then show ?thesis using e d by (subst node_is_ancestor_loop.simps) (auto dest: prefix_length_le)
  next
    case 2
    then show ?thesis using e d by (subst node_is_ancestor_loop.simps) simp
  next
    case 3
    have "n \<noteq> 0"
    proof
      assume "n = 0"
      then show False using 3 trie_word_root [OF T a] trie_root(2) [OF T] by simp
    qed
    note p = trie_parent [OF T e this]
    have "w a \<noteq> w n" using 3(2) trie_inj [OF T a less.prems] by auto
    then have "prefix (w a) (w n) = prefix (w a) (w (rn_parent e))" using p(2) by auto
    moreover have "node_is_ancestor_loop N a (length (w a)) (rn_parent e) = Some (prefix (w a) (w (rn_parent e)))"
      using less.hyps [OF _ p(1)] p(2) by simp
    ultimately show ?thesis using 3 e d by (subst node_is_ancestor_loop.simps) simp
  qed
qed

lemma node_is_ancestor_correct:
  assumes T: "trie N w ch" and "a \<in> allocated N" "n \<in> allocated N"
  shows "node_is_ancestor N a n = Some (prefix (w a) (w n))"
  using node_is_ancestor_loop_correct [OF assms] assms(2) trie_depth [OF T]
  by (auto simp: node_is_ancestor_def allocated_def)

text \<open>Reading a word back from its endpoint, towards the root.\<close>

fun path_up :: "nodes \<Rightarrow> nat \<Rightarrow> usize \<Rightarrow> token_id list" where
  "path_up N 0 n = []"
| "path_up N (Suc d) n =
     (case node_at N n of None \<Rightarrow> [] | Some e \<Rightarrow> path_up N d (rn_parent e) @ [rn_token e])"

lemma path_up_word:
  assumes T: "trie N w ch" and "n \<in> allocated N"
  shows "path_up N (length (w n)) n = w n"
  using assms(2)
proof (induction "length (w n)" arbitrary: n)
  case 0
  then show ?case by (metis length_0_conv path_up.simps(1))
next
  case (Suc d)
  obtain e where e: "node_at N n = Some e" using Suc.prems by (rule allocatedE)
  have "n \<noteq> 0" by (rule trie_nonroot [OF T]) (use Suc.hyps(2) in auto)
  note p = trie_parent [OF T e this]
  show ?case using Suc.hyps(1) [of "rn_parent e"] Suc.hyps(2) p e by simp
qed

subsection \<open>Inserting a leaf\<close>

lemma siblings_cong:
  assumes "\<And>c. c \<in> set cs \<Longrightarrow> map_option rn_next_sibling (node_at N c) = map_option rn_next_sibling (node_at N' c)"
  shows "siblings N start cs = siblings N' start cs"
  using assms
proof (induction cs arbitrary: start)
  case (Cons c cs)
  have "map_option rn_next_sibling (node_at N c) = map_option rn_next_sibling (node_at N' c)"
    using Cons.prems by simp
  moreover have "siblings N s cs = siblings N' s cs" for s using Cons.prems by (intro Cons.IH) simp
  ultimately show ?case by (cases "node_at N c"; cases "node_at N' c") simp_all
qed simp

text \<open>The array after \<open>insert_child\<close> has linked the new node \<open>k\<close> in front of the children of \<open>p\<close>.\<close>

definition with_leaf :: "nodes \<Rightarrow> nat \<Rightarrow> radix_node \<Rightarrow> nat \<Rightarrow> token_id \<Rightarrow> nodes" where
  "with_leaf N p pe k t =
     N[k := Some \<lparr>rn_token = t, rn_parent = p, rn_first_child = None,
                  rn_next_sibling = rn_first_child pe, rn_depth = rn_depth pe + 1\<rparr>,
       p := Some (pe\<lparr>rn_first_child := Some k\<rparr>)]"

lemma node_at_with_leaf:
  assumes "node_at N p = Some pe" "node_at N k = None" "k < length N"
  shows "node_at (with_leaf N p pe k t) n =
     (if n = p then Some (pe\<lparr>rn_first_child := Some k\<rparr>)
      else if n = k then Some \<lparr>rn_token = t, rn_parent = p, rn_first_child = None,
                  rn_next_sibling = rn_first_child pe, rn_depth = rn_depth pe + 1\<rparr>
      else node_at N n)"
  using assms node_at_Some_less [OF assms(1)] by (auto simp: with_leaf_def node_at_update)

lemma trie_with_leaf:
  assumes T: "trie N w ch" and p: "node_at N p = Some pe" and k: "node_at N k = None" "k < length N" "k \<noteq> 0"
    and new: "w p @ [t] \<notin> w ` allocated N"
  shows "trie (with_leaf N p pe k t) (w(k := w p @ [t])) (ch(k := [], p := k # ch p))"
    and "allocated (with_leaf N p pe k t) = insert k (allocated N)"
proof -
  let ?N = "with_leaf N p pe k t" and ?w = "w(k := w p @ [t])" and ?ch = "ch(k := [], p := k # ch p)"
  note at = node_at_with_leaf [OF p k(1,2), where t = t]
  have pk: "p \<noteq> k" using p k(1) by auto
  have ka: "k \<notin> allocated N" using k(1) by (simp add: allocated_def)
  show alloc: "allocated ?N = insert k (allocated N)" using p pk by (auto simp: allocated_def at)
  have kids: "children ?N n = (if n = p then insert k (children N p) else if n = k then {} else children N n)" for n
  proof -
    have "rn_parent e \<noteq> k" if "node_at N c = Some e" "c \<noteq> 0" for c e
      using trie_parent(1) [OF T that] ka by auto
    then show ?thesis using p pk k unfolding children_def by (auto simp: at)
  qed
  have notin: "k \<notin> set (ch n)" if "node_at N n = Some e" for n e
    using trie_children [OF T that] k(1) by (auto simp: children_def)
  have chains: "siblings ?N s (ch n) = siblings N s (ch n)" if "node_at N n = Some e" for n e s
    by (rule siblings_cong) (use notin [OF that] p in \<open>auto simp: at\<close>)
  have ok: "node_ok ?N ?w ?ch n e" if n: "node_at ?N n = Some e" for n e
  proof -
    consider "n = p" | "n = k" | "n \<noteq> p" "n \<noteq> k" by blast
    then show ?thesis
    proof cases
      case 1
      have par: "p = 0 \<or> rn_parent pe \<noteq> k" using trie_parent(1) [OF T p] ka by blast
      show ?thesis using 1 n pk trie_node [OF T p] chains [OF p] notin [OF p] kids [of p] alloc par
        by (auto simp: node_ok_def at)
    next
      case 2
      then show ?thesis using n pk kids [of k] trie_depth [OF T p] allocatedI [OF p] alloc
        by (auto simp: node_ok_def at)
    next
      case 3
      then have m: "node_at N n = Some e" using n by (simp add: at)
      have par: "n = 0 \<or> rn_parent e \<noteq> k" using trie_parent(1) [OF T m] ka by blast
      show ?thesis using 3 trie_node [OF T m] chains [OF m] kids [of n] alloc par
        by (auto simp: node_ok_def)
    qed
  qed
  have inj: "inj_on ?w (allocated ?N)"
    using T new ka unfolding alloc trie_def by (auto simp: inj_on_def image_iff)
  show "trie ?N ?w ?ch"
    unfolding trie_def using ok inj alloc trie_root [OF T] k(3) by auto
qed

subsection \<open>Unlinking a leaf\<close>

lemma preceding_sibling_loop_siblings:
  "siblings N start cs \<Longrightarrow> c \<in> set cs \<Longrightarrow> start \<noteq> Some c \<Longrightarrow> distinct cs \<Longrightarrow>
     \<exists>xs b ys e. cs = xs @ b # c # ys \<and> node_at N b = Some e \<and> rn_next_sibling e = Some c
       \<and> preceding_sibling_loop N c start = Some (Inr (b, e))"
proof (induction cs arbitrary: start)
  case (Cons a cs)
  then obtain e where e: "start = Some a" "node_at N a = Some e" "siblings N (rn_next_sibling e) cs" "a \<noteq> c"
    by (auto split: option.splits)
  show ?case
  proof (cases "rn_next_sibling e = Some c")
    case True
    then obtain ys where "cs = c # ys" using e(3) by (cases cs) auto
    with True e show ?thesis
      by (intro exI [of _ "[]"] exI [of _ a] exI [of _ ys] exI [of _ e]) (simp add: preceding_sibling_loop.simps)
  next
    case False
    with Cons.IH [OF e(3)] Cons.prems e(4) obtain xs b ys eb where
      "cs = xs @ b # c # ys" "node_at N b = Some eb" "rn_next_sibling eb = Some c"
      "preceding_sibling_loop N c (rn_next_sibling e) = Some (Inr (b, eb))" by auto
    moreover from this(4) False e have "preceding_sibling_loop N c start = Some (Inr (b, eb))"
      by (subst preceding_sibling_loop.simps) simp
    ultimately show ?thesis by (intro exI [of _ "a # xs"]) auto
  qed
qed simp

lemma siblings_bypass:
  assumes "siblings N start (xs @ b # c # ys)" "distinct (xs @ b # c # ys)"
    "node_at N b = Some eb" "node_at N c = Some ec"
  shows "siblings (N[b := Some (eb\<lparr>rn_next_sibling := rn_next_sibling ec\<rparr>)]) start (xs @ b # ys)"
  using assms(1,2)
proof (induction xs arbitrary: start)
  case Nil
  have "siblings N (rn_next_sibling ec) ys" using Nil.prems(1) assms(3,4) by simp
  moreover have "siblings (N[b := Some (eb\<lparr>rn_next_sibling := rn_next_sibling ec\<rparr>)]) s ys = siblings N s ys" for s
    by (rule siblings_cong) (use Nil.prems(2) in \<open>auto simp: node_at_update\<close>)
  ultimately show ?case using Nil.prems(1) node_at_Some_less [OF assms(3)] by (simp add: node_at_update)
next
  case (Cons a xs)
  then show ?case by (auto simp: node_at_update split: option.splits)
qed

text \<open>\<open>N'\<close> differs from \<open>N\<close> only in the first-child links of \<open>F\<close> and the sibling links of \<open>S\<close>.\<close>

definition same_links :: "nodes \<Rightarrow> nodes \<Rightarrow> nat set \<Rightarrow> nat set \<Rightarrow> bool" where
  "same_links N N' F S =
     (\<forall>n. case node_at N n of None \<Rightarrow> node_at N' n = None
          | Some e \<Rightarrow> \<exists>e'. node_at N' n = Some e' \<and> rn_token e' = rn_token e \<and> rn_parent e' = rn_parent e
              \<and> rn_depth e' = rn_depth e \<and> (n \<notin> F \<longrightarrow> rn_first_child e' = rn_first_child e)
              \<and> (n \<notin> S \<longrightarrow> rn_next_sibling e' = rn_next_sibling e))"

text \<open>Removing the leaf \<open>c\<close> from an array \<open>N1\<close> in which only its parent's list of children has been relinked.\<close>

lemma trie_without_leaf:
  assumes T: "trie N w ch" and c: "node_at N c = Some e" "c \<noteq> 0" "ch c = []"
    and L: "same_links N N1 {rn_parent e} (set (ch (rn_parent e)))"
    and p: "node_at N1 (rn_parent e) = Some p1" "siblings N1 (rn_first_child p1) (remove1 c (ch (rn_parent e)))"
  shows "trie (N1[c := None]) w (ch(rn_parent e := remove1 c (ch (rn_parent e))))"
    and "allocated (N1[c := None]) = allocated N - {c}"
proof -
  let ?N = "N1[c := None]" and ?p = "rn_parent e" and ?ch = "ch(rn_parent e := remove1 c (ch (rn_parent e)))"
  obtain pe where pe: "node_at N ?p = Some pe" using trie_parent(1) [OF T c(1,2)] by (rule allocatedE)
  note Ln = spec [OF L [unfolded same_links_def]]
  have Lc: "\<exists>c1. node_at N1 c = Some c1" using Ln [of c] c(1) by auto
  then have len: "c < length N1" by (auto dest: node_at_Some_less)
  have at: "node_at ?N n = (if n = c then None else node_at N1 n)" for n using len by (simp add: node_at_update)
  have iff: "node_at N1 n = None \<longleftrightarrow> node_at N n = None" for n
    using Ln [of n] by (cases "node_at N n") auto
  show alloc: "allocated ?N = allocated N - {c}" unfolding allocated_def at by (auto simp: iff simp del: not_None_eq)
  have orig: "\<exists>e0. node_at N n = Some e0 \<and> rn_token e1 = rn_token e0 \<and> rn_parent e1 = rn_parent e0
      \<and> rn_depth e1 = rn_depth e0 \<and> (n \<noteq> ?p \<longrightarrow> rn_first_child e1 = rn_first_child e0)"
    if "node_at N1 n = Some e1" for n e1
    using Ln [of n] that by (cases "node_at N n") auto
  have par: "(\<exists>e1. node_at N1 n = Some e1 \<and> rn_parent e1 = m) \<longleftrightarrow> (\<exists>e0. node_at N n = Some e0 \<and> rn_parent e0 = m)" for n m
    using Ln [of n] by (cases "node_at N n") auto
  have kids: "children ?N n = children N n - {c}" for n
    unfolding children_def at using par [of _ n] by auto
  have cp: "c \<in> set (ch ?p)" using trie_children [OF T pe] c by (auto simp: children_def)
  have next_same: "map_option rn_next_sibling (node_at ?N m) = map_option rn_next_sibling (node_at N m)"
    if "m \<notin> set (ch ?p)" for m
    using Ln [of m] that cp by (cases "node_at N m") (auto simp: at)
  have ok: "node_ok ?N w ?ch n e1" if n: "node_at ?N n = Some e1" for n e1
  proof -
    from n have nc: "n \<noteq> c" "node_at N1 n = Some e1" by (auto simp: at split: if_splits)
    from orig [OF nc(2)] obtain e0 where e0: "node_at N n = Some e0" "rn_token e1 = rn_token e0"
      "rn_parent e1 = rn_parent e0" "rn_depth e1 = rn_depth e0" "n \<noteq> ?p \<longrightarrow> rn_first_child e1 = rn_first_child e0" by blast
    note O = trie_node [OF T e0(1), unfolded node_ok_def]
    have "n \<notin> children N c" using trie_children [OF T c(1)] c(3) by auto
    then have "n = 0 \<or> rn_parent e0 \<noteq> c" unfolding children_def using e0(1) by blast
    then have parent: "n \<noteq> 0 \<longrightarrow> rn_parent e1 \<in> allocated ?N \<and> w n = w (rn_parent e1) @ [rn_token e1]"
      using O e0 alloc by auto
    show ?thesis
    proof (cases "n = ?p")
      case True
      have "siblings ?N s cs = siblings N1 s cs" if "c \<notin> set cs" for s cs
        by (rule siblings_cong) (use that in \<open>auto simp: at\<close>)
      then have "siblings ?N (rn_first_child e1) (remove1 c (ch ?p))"
        using p True nc(2) O by auto
      then show ?thesis using True O parent e0(4) kids [of ?p] by (auto simp: node_ok_def)
    next
      case False
      have "m \<notin> set (ch ?p)" if "m \<in> set (ch n)" for m
        using that False trie_children [OF T e0(1)] trie_children [OF T pe] by (auto simp: children_def)
      then have "siblings ?N s (ch n) = siblings N s (ch n)" for s by (intro siblings_cong next_same)
      moreover have "c \<notin> children N n" using c(1) False by (auto simp: children_def)
      ultimately show ?thesis using False O parent e0 kids [of n] by (auto simp: node_ok_def)
    qed
  qed
  show "trie ?N w ?ch" unfolding trie_def
    using ok alloc trie_root [OF T] c(2) T by (auto simp: trie_def intro: inj_on_subset)
qed

lemma same_links_first:
  assumes "node_at N p = Some pe" "S = {}"
  shows "same_links N (N[p := Some (pe\<lparr>rn_first_child := x\<rparr>)]) {p} S"
  using assms node_at_Some_less [OF assms(1)] by (auto simp: same_links_def node_at_update split: option.split)

lemma same_links_next:
  assumes "node_at N b = Some eb" "b \<in> S"
  shows "same_links N (N[b := Some (eb\<lparr>rn_next_sibling := x\<rparr>)]) F S"
  using assms node_at_Some_less [OF assms(1)] by (auto simp: same_links_def node_at_update split: option.split)

lemma same_links_mono: "same_links N N' F S \<Longrightarrow> S \<subseteq> S' \<Longrightarrow> same_links N N' F S'"
  unfolding same_links_def by (fastforce split: option.splits)

lemma unlink_child_correct:
  assumes T: "trie N w ch" and c: "node_at N c = Some e" "c \<noteq> 0" "ch c = []"
  obtains N1 where "unlink_child N (rn_parent e) c = Some (Inr (), N1)" "length N1 = length N"
    "trie (N1[c := None]) w (ch(rn_parent e := remove1 c (ch (rn_parent e))))"
    "allocated (N1[c := None]) = allocated N - {c}"
proof -
  let ?p = "rn_parent e"
  obtain pe where pe: "node_at N ?p = Some pe" using trie_parent(1) [OF T c(1,2)] by (rule allocatedE)
  have O: "siblings N (rn_first_child pe) (ch ?p)" "distinct (ch ?p)" "c \<in> set (ch ?p)"
    using trie_node [OF T pe] c by (auto simp: node_ok_def children_def)
  show ?thesis
  proof (cases "rn_first_child pe = Some c")
    case True
    then obtain cs where cs: "ch ?p = c # cs" "siblings N (rn_next_sibling e) cs"
      using O(1,3) c(1) by (cases "ch ?p") auto
    let ?N = "N[?p := Some (pe\<lparr>rn_first_child := rn_next_sibling e\<rparr>)]"
    have at: "node_at ?N ?p = Some (pe\<lparr>rn_first_child := rn_next_sibling e\<rparr>)"
      using node_at_Some_less [OF pe] by (simp add: node_at_update)
    have "siblings ?N (rn_next_sibling e) cs = siblings N (rn_next_sibling e) cs"
      by (rule siblings_cong) (use pe node_at_Some_less [OF pe] in \<open>auto simp: node_at_update\<close>)
    then have ch: "siblings ?N (rn_first_child (pe\<lparr>rn_first_child := rn_next_sibling e\<rparr>)) (remove1 c (ch ?p))"
      using cs by simp
    have L: "same_links N ?N {?p} (set (ch ?p))"
      using same_links_mono [OF same_links_first [OF pe refl]] by simp
    show ?thesis
      using that [of ?N] trie_without_leaf [OF T c L at ch] True c(1) pe by (simp add: unlink_child_def)
  next
    case False
    from preceding_sibling_loop_siblings [OF O(1,3) False O(2)] obtain xs b ys eb where
      b: "ch ?p = xs @ b # c # ys" "node_at N b = Some eb"
         "preceding_sibling_loop N c (rn_first_child pe) = Some (Inr (b, eb))" by blast
    let ?N = "N[b := Some (eb\<lparr>rn_next_sibling := rn_next_sibling e\<rparr>)]"
    have L: "same_links N ?N {?p} (set (ch ?p))" by (rule same_links_next [OF b(2)]) (simp add: b(1))
    obtain p1 where p1: "node_at ?N ?p = Some p1" "rn_first_child p1 = rn_first_child pe"
      using pe b(2) node_at_Some_less [OF pe] by (cases "b = ?p") (auto simp: node_at_update)
    have "remove1 c (ch ?p) = xs @ b # ys" using b(1) O(2) by (auto simp: remove1_append)
    then have ch: "siblings ?N (rn_first_child p1) (remove1 c (ch ?p))"
      using siblings_bypass [OF O(1) [unfolded b(1)] O(2) [unfolded b(1)] b(2) c(1)] p1(2) by simp
    show ?thesis
      using that [of ?N] trie_without_leaf [OF T c L p1(1) ch] False c(1) pe b(3) by (simp add: unlink_child_def)
  qed
qed

end
