(* ===== verification/Radix_Invariant.thy ===== *)
theory Radix_Invariant
  imports Radix_Trie
begin

text \<open>
  The invariant of the radix index: the trie, the source records pointing into it, the counters, and
  that no node is kept without a registered source below it.  Pruning and path insertion are shown
  to keep or restore it.
\<close>

subsection \<open>Source records\<close>

definition somes :: "'a option list \<Rightarrow> 'a list" where
  "somes xs = map the (filter (\<lambda>x. x \<noteq> None) xs)"

lemma somes_simps [simp]:
  "somes [] = []" "somes (None # xs) = somes xs" "somes (Some x # xs) = x # somes xs"
  by (simp_all add: somes_def)

lemma set_somes: "x \<in> set (somes xs) \<longleftrightarrow> (\<exists>i<length xs. xs ! i = Some x)"
proof -
  have "x \<in> set (somes xs) \<longleftrightarrow> Some x \<in> set xs" by (force simp: somes_def)
  then show ?thesis by (auto simp: in_set_conv_nth)
qed

lemma somes_replicate [simp]: "somes (replicate n None) = []"
  by (simp add: somes_def)

lemma length_somes_le: "length (somes xs) \<le> length xs"
  by (simp add: somes_def)

lemma mset_somes_clear:
  "i < length xs \<Longrightarrow> xs ! i = Some s \<Longrightarrow> mset (somes xs) = add_mset s (mset (somes (xs[i := None])))"
proof (induction xs arbitrary: i)
  case (Cons x xs)
  then show ?case by (cases x; cases i) auto
qed simp

lemma mset_somes_fill:
  "i < length xs \<Longrightarrow> xs ! i = None \<Longrightarrow> mset (somes (xs[i := Some s])) = add_mset s (mset (somes xs))"
proof (induction xs arbitrary: i)
  case (Cons x xs)
  then show ?case by (cases x; cases i) auto
qed simp

lemma position_Some:
  "position P xs = Some i \<Longrightarrow> i < length xs \<and> P (xs ! i)"
  by (auto simp: position_def find_Some_iff)

lemma position_None: "position P xs = None \<Longrightarrow> i < length xs \<Longrightarrow> \<not> P (xs ! i)"
  by (auto simp: position_def find_None_iff)

lemma is_endpoint_iff: "is_endpoint S n \<longleftrightarrow> n \<in> rs_endpoint ` set (somes S)"
  by (induction S) (auto simp: is_endpoint_def split: option.splits)

text \<open>No two records agree on \<open>f\<close>.\<close>

definition unique_by :: "('a \<Rightarrow> 'b) \<Rightarrow> 'a option list \<Rightarrow> bool" where
  "unique_by f xs =
     (\<forall>i j s t. i < length xs \<longrightarrow> j < length xs \<longrightarrow> xs ! i = Some s \<longrightarrow> xs ! j = Some t \<longrightarrow> f s = f t \<longrightarrow> i = j)"

lemma unique_byD:
  "unique_by f xs \<Longrightarrow> i < length xs \<Longrightarrow> j < length xs \<Longrightarrow> xs ! i = Some s \<Longrightarrow> xs ! j = Some t \<Longrightarrow> f s = f t \<Longrightarrow> i = j"
  unfolding unique_by_def by blast

lemma unique_by_clear:
  assumes "unique_by f xs"
  shows "unique_by f (xs[i := None])"
proof (unfold unique_by_def, intro allI impI)
  fix j k s t assume "j < length (xs[i := None])" "k < length (xs[i := None])"
    "xs[i := None] ! j = Some s" "xs[i := None] ! k = Some t" "f s = f t"
  then show "j = k" using unique_byD [OF assms, of j k s t] by (cases "i = j"; cases "i = k") auto
qed

lemma unique_by_fill:
  assumes "unique_by f xs" "\<And>t. t \<in> set (somes xs) \<Longrightarrow> f t \<noteq> f s"
  shows "unique_by f (xs[i := Some s])"
proof (unfold unique_by_def, intro allI impI)
  fix j k a b assume h: "j < length (xs[i := Some s])" "k < length (xs[i := Some s])"
    "xs[i := Some s] ! j = Some a" "xs[i := Some s] ! k = Some b" "f a = f b"
  have "f t \<noteq> f s" if "m < length xs" "xs ! m = Some t" for m t using assms(2) that by (auto simp: set_somes)
  then show "j = k" using h unique_byD [OF assms(1), of j k a b] by (cases "i = j"; cases "i = k") fastforce+
qed

lemma unique_by_inj: "unique_by f xs \<Longrightarrow> s \<in> set (somes xs) \<Longrightarrow> t \<in> set (somes xs) \<Longrightarrow> f s = f t \<Longrightarrow> s = t"
  unfolding set_somes by (metis option.inject unique_byD)

lemma unique_by_distinct: "unique_by f xs \<Longrightarrow> distinct (somes xs)"
proof (induction xs)
  case (Cons x xs)
  have "unique_by f xs" unfolding unique_by_def
  proof (intro allI impI)
    fix i j s t assume "i < length xs" "j < length xs" "xs ! i = Some s" "xs ! j = Some t" "f s = f t"
    with unique_byD [OF Cons.prems, of "Suc i" "Suc j" s t] show "i = j" by simp
  qed
  moreover have "s \<notin> set (somes xs)" if "x = Some s" for s
  proof
    assume "s \<in> set (somes xs)"
    then obtain i where "i < length xs" "xs ! i = Some s" by (auto simp: set_somes)
    with unique_byD [OF Cons.prems, of 0 "Suc i" s s] that show False by simp
  qed
  ultimately show ?case using Cons.IH by (cases x) auto
qed simp

subsection \<open>Nodes without a source below them\<close>

abbreviation endpoints :: "radix_source option list \<Rightarrow> nat set" where
  "endpoints S \<equiv> rs_endpoint ` set (somes S)"

definition leaves_within :: "nodes \<Rightarrow> (nat \<Rightarrow> nat list) \<Rightarrow> nat set \<Rightarrow> bool" where
  "leaves_within N ch X = (\<forall>n\<in>allocated N. n \<noteq> 0 \<longrightarrow> ch n = [] \<longrightarrow> n \<in> X)"

lemma trie_first_child:
  "trie N w ch \<Longrightarrow> node_at N n = Some e \<Longrightarrow> rn_first_child e = None \<longleftrightarrow> ch n = []"
  by (drule (1) trie_node) (cases "ch n"; auto simp: node_ok_def)

lemma trie_node_below:
  assumes T: "trie N w ch" and L: "leaves_within N ch E" and "n \<in> allocated N" "n \<noteq> 0"
  shows "\<exists>m\<in>E. m \<in> allocated N \<and> prefix (w n) (w m)"
  using assms(3,4)
proof (induction "card {m \<in> allocated N. length (w n) < length (w m)}" arbitrary: n rule: less_induct)
  case less
  obtain e where e: "node_at N n = Some e" using less.prems(1) by (rule allocatedE)
  show ?case
  proof (cases "ch n")
    case Nil
    then show ?thesis using L less.prems by (auto simp: leaves_within_def)
  next
    case (Cons c cs)
    then have "c \<in> set (ch n)" by simp
    then obtain ec where ec: "node_at N c = Some ec" "w c = w n @ [rn_token ec]" using trie_child [OF T e] by blast
    have c: "c \<in> allocated N" using ec(1) by (rule allocatedI)
    have c0: "c \<noteq> 0" by (rule trie_nonroot [OF T]) (simp add: ec(2))
    have len: "length (w n) < length (w c)" using ec(2) by simp
    let ?D = "\<lambda>k. {m \<in> allocated N. length (w k) < length (w m)}"
    have "c \<in> ?D n" "c \<notin> ?D c" "?D c \<subseteq> ?D n" using len c by auto
    then have "card (?D c) < card (?D n)" by (intro psubset_card_mono) auto
    from less.hyps [OF this c c0] obtain m where "m \<in> E" "m \<in> allocated N" "prefix (w c) (w m)" by blast
    moreover have "prefix (w n) (w c)" using ec(2) by simp
    ultimately show ?thesis using prefix_order.trans by blast
  qed
qed

lemma trie_words:
  assumes T: "trie N w ch" and "leaves_within N ch E" "E \<subseteq> allocated N"
  shows "w ` allocated N = insert [] {v. \<exists>m\<in>E. prefix v (w m)}"
proof
  show "w ` allocated N \<subseteq> insert [] {v. \<exists>m\<in>E. prefix v (w m)}"
  proof
    fix v assume "v \<in> w ` allocated N"
    then obtain n where "n \<in> allocated N" "v = w n" by blast
    then show "v \<in> insert [] {v. \<exists>m\<in>E. prefix v (w m)}"
      using trie_node_below [OF T assms(2), of n] trie_root(2) [OF T] by (cases "n = 0") auto
  qed
  show "insert [] {v. \<exists>m\<in>E. prefix v (w m)} \<subseteq> w ` allocated N"
  proof
    fix v assume "v \<in> insert [] {v. \<exists>m\<in>E. prefix v (w m)}"
    then consider "v = w 0" | m where "m \<in> allocated N" "prefix v (w m)"
      using trie_root(2) [OF T] assms(3) by auto
    then show "v \<in> w ` allocated N"
      by cases (use trie_root(1) [OF T] trie_prefix_closed [OF T] in auto)
  qed
qed

subsection \<open>Pruning\<close>

lemma prune_from_correct:
  assumes "trie (rx_nodes ix) w ch" "node \<in> allocated (rx_nodes ix)"
    and "rx_node_count ix = card (allocated (rx_nodes ix))"
    and "endpoints (rx_sources ix) \<subseteq> allocated (rx_nodes ix)"
    and "leaves_within (rx_nodes ix) ch (insert node (endpoints (rx_sources ix)))"
  shows "\<exists>N' ch'. prune_from ix node = Some (Inr (), ix\<lparr>rx_nodes := N', rx_node_count := card (allocated N')\<rparr>)
     \<and> trie N' w ch' \<and> length N' = length (rx_nodes ix) \<and> endpoints (rx_sources ix) \<subseteq> allocated N'
     \<and> leaves_within N' ch' (endpoints (rx_sources ix))"
  using assms
proof (induction "length (w node)" arbitrary: ix node ch rule: less_induct)
  case less
  let ?N = "rx_nodes ix" and ?E = "endpoints (rx_sources ix)"
  note T = less.prems(1)
  obtain e where e: "node_at ?N node = Some e" using less.prems(2) by (rule allocatedE)
  show ?case
  proof (cases "node = 0 \<or> rn_first_child e \<noteq> None \<or> is_endpoint (rx_sources ix) node")
    case True
    then have "prune_from ix node = Some (Inr (), ix)" using e by (subst prune_from.simps) auto
    moreover have "leaves_within ?N ch ?E"
      using True less.prems(5) trie_first_child [OF T e] by (auto simp: leaves_within_def is_endpoint_iff)
    ultimately show ?thesis using less.prems(1-4) by (intro exI [of _ ?N] exI [of _ ch]) simp
  next
    case False
    then have nz: "node \<noteq> 0" and leaf: "ch node = []" and ne: "node \<notin> ?E"
      using trie_first_child [OF T e] by (auto simp: is_endpoint_iff)
    let ?p = "rn_parent e"
    let ?ch = "ch(?p := remove1 node (ch ?p))"
    obtain N1 where N1: "unlink_child ?N ?p node = Some (Inr (), N1)" "length N1 = length ?N"
      "trie (N1[node := None]) w ?ch" "allocated (N1[node := None]) = allocated ?N - {node}"
      using unlink_child_correct [OF T e nz leaf] by blast
    let ?N2 = "N1[node := None]"
    let ?ix = "ix\<lparr>rx_nodes := ?N2, rx_node_count := card (allocated ?N) - 1\<rparr>"
    note par = trie_parent [OF T e nz]
    have pn: "?p \<noteq> node" using par(2) by (metis append_self_conv not_Cons_self2)
    have card: "card (allocated ?N2) = card (allocated ?N) - 1" using N1(4) less.prems(2) by simp
    have "0 < card (allocated ?N)" using less.prems(2) card_gt_0_iff finite_allocated by blast
    then have step: "prune_from ix node = prune_from ?ix ?p"
      using False e N1(1,2) node_at_Some_less [OF e] less.prems(3)
      by (subst prune_from.simps) (simp add: exec_simps)
    have "leaves_within ?N2 ?ch (insert ?p ?E)"
      using less.prems(5) N1(4) by (auto simp: leaves_within_def)
    moreover have "?E \<subseteq> allocated ?N2" using less.prems(4) ne N1(4) by auto
    ultimately show ?thesis using less.hyps [of ?p ?ix ?ch] N1(2,3,4) par pn card unfolding step by auto
  qed
qed

subsection \<open>Inserting a path\<close>

lemma free_node_exists:
  assumes "0 \<in> allocated N" "card (allocated N) < length N"
  obtains k where "find (\<lambda>i. N ! i = None) [1..<length N] = Some k" "node_at N k = None" "k < length N" "k \<noteq> 0"
proof (cases "find (\<lambda>i. N ! i = None) [1..<length N]")
  case None
  have "i \<in> allocated N" if "i < length N" for i
  proof (cases "i = 0")
    case False
    then have "i \<in> set [1..<length N]" using that by simp
    then have "N ! i \<noteq> None" using None unfolding find_None_iff by metis
    then show ?thesis using that by (simp add: allocated_def node_at_def)
  qed (simp add: assms(1))
  then have "{..<length N} \<subseteq> allocated N" by auto
  from card_mono [OF finite_allocated this] show ?thesis using assms(2) by simp
next
  case (Some k)
  then have "k \<in> set [1..<length N]" "N ! k = None" by (auto simp: find_Some_iff)
  with Some show ?thesis using that [of k] by (auto simp: node_at_def)
qed

lemma insert_child_correct:
  assumes T: "trie (rx_nodes ix) w ch" and p: "p \<in> allocated (rx_nodes ix)"
    and room: "card (allocated (rx_nodes ix)) < length (rx_nodes ix)" "length (rx_nodes ix) \<le> U64_MAX"
    and count: "rx_node_count ix = card (allocated (rx_nodes ix))"
    and new: "w p @ [t] \<notin> w ` allocated (rx_nodes ix)" and len: "length (w p) < U64_MAX"
  obtains k N' where "insert_child ix p t = Some (Inr k, ix\<lparr>rx_nodes := N', rx_node_count := card (allocated N')\<rparr>)"
    "length N' = length (rx_nodes ix)" "k \<notin> allocated (rx_nodes ix)" "k \<noteq> 0"
    "trie N' (w(k := w p @ [t])) (ch(k := [], p := k # ch p))" "allocated N' = insert k (allocated (rx_nodes ix))"
proof -
  let ?N = "rx_nodes ix"
  obtain pe where pe: "node_at ?N p = Some pe" using p by (rule allocatedE)
  obtain k where k: "find (\<lambda>i. ?N ! i = None) [1..<length ?N] = Some k" "node_at ?N k = None" "k < length ?N" "k \<noteq> 0"
    by (rule free_node_exists [OF trie_root(1) [OF T] room(1)])
  let ?N' = "with_leaf ?N p pe k t"
  note W = trie_with_leaf [OF T pe k(2-4) new]
  have kn: "k \<notin> allocated ?N" using k(2) by (simp add: allocated_def)
  have pk: "p \<noteq> k" using pe k(2) by auto
  have "insert_child ix p t = Some (Inr k, ix\<lparr>rx_nodes := ?N', rx_node_count := card (allocated ?N')\<rparr>)"
    using k pe pk room count len trie_depth [OF T pe] node_at_Some_less [OF pe] W(2) kn
    by (simp add: insert_child_def exec_simps with_leaf_def node_at_def del: upt_Suc)
  then show ?thesis by (rule that) (use W kn k(4) in \<open>simp_all add: with_leaf_def\<close>)
qed

lemma insert_path_correct:
  assumes "trie (rx_nodes ix) w ch" "n \<in> allocated (rx_nodes ix)"
    and "card (allocated (rx_nodes ix)) + length ts \<le> length (rx_nodes ix)" "length (rx_nodes ix) \<le> U64_MAX"
    and "rx_node_count ix = card (allocated (rx_nodes ix))"
    and "ts \<noteq> [] \<Longrightarrow> w n @ [hd ts] \<notin> w ` allocated (rx_nodes ix)" and "length (w n) + length ts \<le> U64_MAX"
  shows "\<exists>m N' w' ch'. insert_path ix n ts = Some (m, ix\<lparr>rx_nodes := N', rx_node_count := card (allocated N')\<rparr>)
     \<and> trie N' w' ch' \<and> length N' = length (rx_nodes ix) \<and> allocated (rx_nodes ix) \<subseteq> allocated N'
     \<and> (\<forall>x\<in>allocated (rx_nodes ix). w' x = w x) \<and> m \<in> allocated N' \<and> w' m = w n @ ts
     \<and> (\<forall>X. leaves_within (rx_nodes ix) ch (insert n X) \<longrightarrow> leaves_within N' ch' (insert m X))"
  using assms
proof (induction ts arbitrary: ix n w ch)
  case Nil
  then show ?case
    by (intro exI [of _ n] exI [of _ "rx_nodes ix"] exI [of _ w] exI [of _ ch]) (auto simp: leaves_within_def)
next
  case (Cons t ts)
  let ?N = "rx_nodes ix"
  obtain k N1 where k: "insert_child ix n t = Some (Inr k, ix\<lparr>rx_nodes := N1, rx_node_count := card (allocated N1)\<rparr>)"
    "length N1 = length ?N" "k \<notin> allocated ?N" "k \<noteq> 0"
    "trie N1 (w(k := w n @ [t])) (ch(k := [], n := k # ch n))" "allocated N1 = insert k (allocated ?N)"
    using insert_child_correct [OF Cons.prems(1,2) _ Cons.prems(4,5), of t] Cons.prems(3,6,7) by auto
  let ?ix = "ix\<lparr>rx_nodes := N1, rx_node_count := card (allocated N1)\<rparr>"
    and ?w = "w(k := w n @ [t])" and ?ch = "ch(k := [], n := k # ch n)"
  have fresh: "?w k @ [hd ts] \<notin> ?w ` allocated N1"
  proof
    assume "?w k @ [hd ts] \<in> ?w ` allocated N1"
    then obtain x where x: "x \<in> allocated N1" "?w x = w n @ [t, hd ts]" by auto
    then have "x \<in> allocated ?N" "w x = (w n @ [t]) @ [hd ts]" using k(6) by (auto split: if_splits)
    then have "w n @ [t] \<in> w ` allocated ?N" using trie_prefix_closed [OF Cons.prems(1)] by (metis prefixI)
    then show False using Cons.prems(6) by simp
  qed
  have "\<exists>m N' w' ch'. insert_path ?ix k ts = Some (m, ?ix\<lparr>rx_nodes := N', rx_node_count := card (allocated N')\<rparr>)
     \<and> trie N' w' ch' \<and> length N' = length (rx_nodes ?ix) \<and> allocated (rx_nodes ?ix) \<subseteq> allocated N'
     \<and> (\<forall>x\<in>allocated (rx_nodes ?ix). w' x = ?w x) \<and> m \<in> allocated N' \<and> w' m = ?w k @ ts
     \<and> (\<forall>X. leaves_within (rx_nodes ?ix) ?ch (insert k X) \<longrightarrow> leaves_within N' ch' (insert m X))"
    by (rule Cons.IH) (use k Cons.prems(2-7) fresh in \<open>auto simp del: fun_upd_apply simp: fun_upd_same\<close>)
  then obtain m N' w' ch' where
    m: "insert_path ?ix k ts = Some (m, ix\<lparr>rx_nodes := N', rx_node_count := card (allocated N')\<rparr>)"
       "trie N' w' ch'" "length N' = length ?N" "allocated N1 \<subseteq> allocated N'"
       "\<forall>x\<in>allocated N1. w' x = ?w x" "m \<in> allocated N'" "w' m = w n @ t # ts"
       "\<forall>X. leaves_within N1 ?ch (insert k X) \<longrightarrow> leaves_within N' ch' (insert m X)"
    using k(2) by auto
  have "leaves_within N1 ?ch (insert k X)" if "leaves_within ?N ch (insert n X)" for X
    using that k(6) by (auto simp: leaves_within_def)
  with m k show ?case
    by (intro exI [of _ m] exI [of _ N'] exI [of _ w'] exI [of _ ch']) auto
qed

end
