(* ===== verification/Radix_Ops.thy ===== *)
theory Radix_Ops
  imports Radix_Invariant
begin

text \<open>
  The radix index as a set of registrations.  A registration is a request, the token sequence read
  back from its endpoint, and its ticket.  Every public operation is described by what it does to
  that set, and by the error it reports otherwise.
\<close>

subsection \<open>The invariant\<close>

definition limits_ok :: "radix_limits \<Rightarrow> bool" where
  "limits_ok L =
     (2 \<le> lim_nodes L \<and> lim_nodes L \<le> U64_MAX \<and> 0 < lim_tokens_per_source L
      \<and> lim_tokens_per_source L \<le> M1_MAX_CONTEXT_TOKENS
      \<and> 0 < lim_sources L \<and> lim_sources L \<le> U64_MAX \<and> 0 < lim_stored_tokens L \<and> lim_stored_tokens L \<le> U64_MAX)"

definition source_ok :: "nodes \<Rightarrow> (nat \<Rightarrow> token_id list) \<Rightarrow> radix_limits \<Rightarrow> u64 \<Rightarrow> radix_source \<Rightarrow> bool" where
  "source_ok N w L ticket s =
     (rs_endpoint s \<in> allocated N \<and> w (rs_endpoint s) \<noteq> []
      \<and> rs_token_count s = length (w (rs_endpoint s)) \<and> rs_token_count s \<le> lim_tokens_per_source L
      \<and> 0 < generation (rs_request s) \<and> rs_ticket s < ticket)"

definition sources_ok ::
  "nodes \<Rightarrow> (nat \<Rightarrow> token_id list) \<Rightarrow> radix_limits \<Rightarrow> u64 \<Rightarrow> radix_source option list \<Rightarrow> bool" where
  "sources_ok N w L ticket S =
     (length S = lim_sources L \<and> (\<forall>s\<in>set (somes S). source_ok N w L ticket s)
      \<and> unique_by (slot \<circ> rs_request) S \<and> unique_by rs_endpoint S \<and> unique_by rs_ticket S)"

abbreviation stored :: "radix_source option list \<Rightarrow> nat" where
  "stored S \<equiv> sum_list (map rs_token_count (somes S))"

definition radix_ok :: "radix_index \<Rightarrow> (nat \<Rightarrow> token_id list) \<Rightarrow> (nat \<Rightarrow> nat list) \<Rightarrow> bool" where
  "radix_ok ix w ch =
     (limits_ok (rx_limits ix) \<and> trie (rx_nodes ix) w ch \<and> length (rx_nodes ix) = lim_nodes (rx_limits ix)
      \<and> rx_node_count ix = card (allocated (rx_nodes ix))
      \<and> sources_ok (rx_nodes ix) w (rx_limits ix) (rx_next_ticket ix) (rx_sources ix)
      \<and> rx_source_count ix = length (somes (rx_sources ix))
      \<and> rx_stored_tokens ix = stored (rx_sources ix) \<and> stored (rx_sources ix) \<le> lim_stored_tokens (rx_limits ix)
      \<and> rx_next_ticket ix \<le> U64_MAX
      \<and> leaves_within (rx_nodes ix) ch (endpoints (rx_sources ix)))"

definition radix_inv :: "radix_index \<Rightarrow> bool" where
  "radix_inv ix = (\<exists>w ch. radix_ok ix w ch)"

definition source_word :: "nodes \<Rightarrow> radix_source \<Rightarrow> token_id list" where
  "source_word N s = path_up N (rs_token_count s) (rs_endpoint s)"

type_synonym registration = "request_id \<times> token_id list \<times> u64"

definition registered :: "radix_index \<Rightarrow> registration set" where
  "registered ix = (\<lambda>s. (rs_request s, source_word (rx_nodes ix) s, rs_ticket s)) ` set (somes (rx_sources ix))"

abbreviation registration_of :: "(nat \<Rightarrow> token_id list) \<Rightarrow> radix_source \<Rightarrow> registration" where
  "registration_of w s \<equiv> (rs_request s, w (rs_endpoint s), rs_ticket s)"

lemma radix_okD:
  assumes "radix_ok ix w ch"
  shows "limits_ok (rx_limits ix)" "trie (rx_nodes ix) w ch" "length (rx_nodes ix) = lim_nodes (rx_limits ix)"
    "rx_node_count ix = card (allocated (rx_nodes ix))"
    "sources_ok (rx_nodes ix) w (rx_limits ix) (rx_next_ticket ix) (rx_sources ix)"
    "rx_source_count ix = length (somes (rx_sources ix))" "rx_stored_tokens ix = stored (rx_sources ix)"
    "stored (rx_sources ix) \<le> lim_stored_tokens (rx_limits ix)" "rx_next_ticket ix \<le> U64_MAX"
    "leaves_within (rx_nodes ix) ch (endpoints (rx_sources ix))"
  using assms by (simp_all add: radix_ok_def)

lemma sources_okD:
  assumes "sources_ok N w L ticket S"
  shows "length S = lim_sources L" "\<And>s. s \<in> set (somes S) \<Longrightarrow> source_ok N w L ticket s"
    "unique_by (slot \<circ> rs_request) S" "unique_by rs_endpoint S" "unique_by rs_ticket S"
    "endpoints S \<subseteq> allocated N"
  using assms by (auto simp: sources_ok_def source_ok_def)

lemma registered_word:
  assumes "radix_ok ix w ch"
  shows "registered ix = registration_of w ` set (somes (rx_sources ix))"
  unfolding registered_def
proof (rule image_cong [OF refl])
  fix s assume "s \<in> set (somes (rx_sources ix))"
  then have "source_ok (rx_nodes ix) w (rx_limits ix) (rx_next_ticket ix) s"
    by (rule sources_okD(2) [OF radix_okD(5) [OF assms]])
  then show "(rs_request s, source_word (rx_nodes ix) s, rs_ticket s) = registration_of w s"
    using path_up_word [OF radix_okD(2) [OF assms], of "rs_endpoint s"] by (simp add: source_word_def source_ok_def)
qed

lemma set_somes_clear:
  assumes "unique_by f S" "i < length S" "S ! i = Some s"
  shows "set (somes (S[i := None])) = set (somes S) - {s}"
proof -
  have "mset (somes S) = add_mset s (mset (somes (S[i := None])))" using assms(2,3) by (rule mset_somes_clear)
  then have "set (somes S) = insert s (set (somes (S[i := None])))"
    by (metis set_mset_add_mset_insert set_mset_mset)
  moreover have "s \<notin> set (somes (S[i := None]))"
  proof
    assume "s \<in> set (somes (S[i := None]))"
    then obtain j where j: "j < length S" "S[i := None] ! j = Some s" by (auto simp: set_somes)
    then have "j \<noteq> i" "S ! j = Some s" using assms(2) by (auto simp: nth_list_update split: if_splits)
    then show False using unique_byD [OF assms(1) j(1) assms(2) _ assms(3)] by simp
  qed
  ultimately show ?thesis by auto
qed

lemma registration_inj:
  assumes "radix_ok ix w ch"
  shows "inj_on (registration_of w) (set (somes (rx_sources ix)))"
  using unique_by_inj [OF sources_okD(5) [OF radix_okD(5) [OF assms]]] by (auto intro: inj_onI)

lemma length_somes_clear:
  "i < length S \<Longrightarrow> S ! i = Some s \<Longrightarrow> length (somes S) = Suc (length (somes (S[i := None])))"
  using mset_somes_clear by (metis size_add_mset size_mset)

lemma stored_clear:
  "i < length S \<Longrightarrow> S ! i = Some s \<Longrightarrow> stored S = rs_token_count s + stored (S[i := None])"
  by (subst (1 2) sum_mset_sum_list [symmetric], subst (1 2) mset_map)
     (simp add: mset_somes_clear [of i S s])

lemma sources_ok_clear:
  assumes "sources_ok N w L ticket S"
  shows "sources_ok N w L ticket (S[i := None])"
proof -
  have "set (somes (S[i := None])) \<subseteq> set (somes S)"
  proof
    fix s assume "s \<in> set (somes (S[i := None]))"
    then obtain j where "j < length S" "S[i := None] ! j = Some s" by (auto simp: set_somes)
    then show "s \<in> set (somes S)" unfolding set_somes by (cases "i = j") auto
  qed
  then show ?thesis using assms by (auto simp: sources_ok_def intro: unique_by_clear)
qed

lemma sources_ok_nodes:
  "sources_ok N w L ticket S \<Longrightarrow> endpoints S \<subseteq> allocated N' \<Longrightarrow> sources_ok N' w L ticket S"
  by (auto simp: sources_ok_def source_ok_def)

subsection \<open>Construction\<close>

lemma radix_limits_new_ok: "radix_limits_new a b c d = Inr L \<Longrightarrow> a \<le> U64_MAX \<Longrightarrow> c \<le> U64_MAX \<Longrightarrow> d \<le> U64_MAX \<Longrightarrow> limits_ok L"
  by (auto simp: radix_limits_new_def limits_ok_def split: if_splits option.splits)

lemma trie_initial:
  assumes "0 < n"
  shows "trie ((replicate n None)[0 := Some radix_node_ROOT]) (\<lambda>_. []) (\<lambda>_. [])"
    and "allocated ((replicate n None)[0 := Some radix_node_ROOT]) = {0}"
proof -
  have at: "node_at ((replicate n None)[0 := Some radix_node_ROOT]) k = (if k = 0 then Some radix_node_ROOT else None)" for k
    using assms by (auto simp: node_at_update) (auto simp: node_at_def)
  then show "allocated ((replicate n None)[0 := Some radix_node_ROOT]) = {0}" by (auto simp: allocated_def)
  with at show "trie ((replicate n None)[0 := Some radix_node_ROOT]) (\<lambda>_. []) (\<lambda>_. [])"
    by (auto simp: trie_def node_ok_def children_def radix_node_ROOT_def)
qed

lemma radix_new_correct:
  assumes "limits_ok L" "reserve (lim_nodes L)" "reserve (lim_sources L)"
  obtains ix where "radix_new reserve L = Some (Inr ix)" "radix_inv ix" "rx_limits ix = L" "registered ix = {}"
    "rx_next_ticket ix = 1"
proof -
  have n: "0 < lim_nodes L" using assms(1) by (simp add: limits_ok_def)
  let ?N = "(replicate (lim_nodes L) None)[0 := Some radix_node_ROOT]"
  let ?ix = "\<lparr>rx_limits = L, rx_nodes = ?N, rx_sources = replicate (lim_sources L) None, rx_node_count = 1,
    rx_source_count = 0, rx_stored_tokens = 0, rx_next_ticket = 1\<rparr>"
  have "radix_new reserve L = Some (Inr ?ix)" using n assms by (simp add: radix_new_def exec_simps)
  moreover have "radix_ok ?ix (\<lambda>_. []) (\<lambda>_. [])"
    using trie_initial [OF n] assms(1)
    by (simp add: radix_ok_def sources_ok_def leaves_within_def unique_by_def)
  ultimately show ?thesis using that [of ?ix] by (auto simp: radix_inv_def registered_def)
qed

subsection \<open>Removing a registration\<close>

lemma remove_source_slot_correct:
  assumes R: "radix_ok ix w ch" and i: "i < length (rx_sources ix)" "rx_sources ix ! i = Some s"
  obtains ix' ch' where "remove_source_slot ix i = Some (Inr (), ix')" "radix_ok ix' w ch'"
    "rx_limits ix' = rx_limits ix" "rx_next_ticket ix' = rx_next_ticket ix"
    "registered ix' = registered ix - {registration_of w s}"
proof -
  note D = radix_okD [OF R] and E = sources_okD [OF radix_okD(5) [OF R]]
  let ?S = "(rx_sources ix)[i := None]"
  have s: "s \<in> set (somes (rx_sources ix))" using i by (auto simp: set_somes)
  have set: "set (somes ?S) = set (somes (rx_sources ix)) - {s}" by (rule set_somes_clear [OF E(3) i])
  let ?ix = "ix\<lparr>rx_sources := ?S, rx_source_count := length (somes ?S), rx_stored_tokens := stored ?S\<rparr>"
  have step: "remove_source_slot ix i = prune_from ?ix (rs_endpoint s)"
    using i D(6,7) length_somes_clear [OF i] stored_clear [OF i]
    by (simp add: remove_source_slot_def exec_simps)
  have sub: "endpoints ?S \<subseteq> allocated (rx_nodes ix)" using E(6) set by auto
  have "insert (rs_endpoint s) (endpoints ?S) = endpoints (rx_sources ix)" using set s by auto
  then have leaves: "leaves_within (rx_nodes ix) ch (insert (rs_endpoint s) (endpoints ?S))" using D(10) by simp
  have "rs_endpoint s \<in> allocated (rx_nodes ix)" using E(6) s by auto
  with prune_from_correct [of ?ix w ch "rs_endpoint s"] D(2,4) sub leaves
  obtain N' ch' where p: "prune_from ?ix (rs_endpoint s) = Some (Inr (), ?ix\<lparr>rx_nodes := N', rx_node_count := card (allocated N')\<rparr>)"
    "trie N' w ch'" "length N' = length (rx_nodes ix)" "endpoints ?S \<subseteq> allocated N'" "leaves_within N' ch' (endpoints ?S)"
    by auto
  let ?ix' = "?ix\<lparr>rx_nodes := N', rx_node_count := card (allocated N')\<rparr>"
  have R': "radix_ok ?ix' w ch'"
    using p D sources_ok_nodes [OF sources_ok_clear [OF D(5)] p(4)] stored_clear [OF i] by (simp add: radix_ok_def)
  have "registered ?ix' = registered ix - {registration_of w s}"
    unfolding registered_word [OF R'] registered_word [OF R]
    using set registration_inj [OF R] s by (auto dest: inj_onD)
  with R' step p(1) show ?thesis using that [of ?ix' ch'] by simp
qed

lemma somes_memI: "xs ! i = Some s \<Longrightarrow> i < length xs \<Longrightarrow> s \<in> set (somes xs)"
  by (auto simp: set_somes)

lemma invalidate_source_correct:
  assumes R: "radix_ok ix w ch"
  obtains ix' ch' where
    "invalidate_source ix source = Some (Inr (source \<in> fst ` registered ix), ix')" "radix_ok ix' w ch'"
    "rx_limits ix' = rx_limits ix" "rx_next_ticket ix' = rx_next_ticket ix"
    "registered ix' = {r \<in> registered ix. fst r \<noteq> source}"
    "source \<notin> fst ` registered ix \<Longrightarrow> ix' = ix"
proof -
  let ?S = "rx_sources ix"
  let ?P = "\<lambda>entry. case entry of None \<Rightarrow> False | Some s \<Rightarrow> rs_request s = source"
  note E = sources_okD [OF radix_okD(5) [OF R]] and W = registered_word [OF R]
  show ?thesis
  proof (cases "position ?P ?S")
    case None
    then have n: "\<forall>s\<in>set (somes ?S). rs_request s \<noteq> source"
      using position_None [OF None] by (fastforce simp: set_somes)
    then have "source \<notin> fst ` registered ix" "registered ix = {r \<in> registered ix. fst r \<noteq> source}"
      unfolding W by auto
    with None R show ?thesis using that [of ix ch] by (simp add: invalidate_source_def)
  next
    case (Some i)
    then obtain s where i: "i < length ?S" "?S ! i = Some s" "rs_request s = source"
      using position_Some [OF Some] by (auto split: option.splits)
    have s: "s \<in> set (somes ?S)" using i by (auto simp: set_somes)
    have eq: "t = s" if "t \<in> set (somes ?S)" "rs_request t = source" for t
      using unique_by_inj [OF E(3) that(1) s] that(2) i(3) by simp
    obtain ix' ch' where r: "remove_source_slot ix i = Some (Inr (), ix')" "radix_ok ix' w ch'"
      "rx_limits ix' = rx_limits ix" "rx_next_ticket ix' = rx_next_ticket ix"
      "registered ix' = registered ix - {registration_of w s}" by (rule remove_source_slot_correct [OF R i(1,2)])
    have "registered ix - {registration_of w s} = {r \<in> registered ix. fst r \<noteq> source}"
      unfolding W using s i(3) by (auto dest: eq)
    moreover have "source \<in> fst ` registered ix" unfolding W using s i(3) by force
    ultimately show ?thesis using that [of ix' ch'] r Some by (simp add: invalidate_source_def)
  qed
qed

subsection \<open>Evicting the oldest registration\<close>

definition age :: "radix_source \<Rightarrow> u64 \<times> request_id" where
  "age s = (rs_ticket s, rs_request s)"

lemma age_ticket: "age s \<le> age t \<Longrightarrow> rs_ticket s \<le> rs_ticket t"
  by (auto simp: age_def)

lemma oldest_source_least:
  "case oldest_source l best of
     None \<Rightarrow> best = None \<and> (\<forall>i s. (i, Some s) \<notin> set l)
   | Some (i, s) \<Rightarrow> ((i, Some s) \<in> set l \<or> best = Some (i, s))
       \<and> (\<forall>j t. (j, Some t) \<in> set l \<or> best = Some (j, t) \<longrightarrow> age s \<le> age t)"
proof (induction l best rule: oldest_source.induct)
  case (1 best)
  then show ?case by (auto split: option.split)
next
  case (2 i rest best)
  then show ?case by (auto split: option.splits)
next
  case (3 i e rest best)
  let ?b = "case best of None \<Rightarrow> Some (i, e) | Some (j, b) \<Rightarrow> if age e < age b then Some (i, e) else Some (j, b)"
  obtain m bs where b: "?b = Some (m, bs)" "(m, bs) = (i, e) \<or> best = Some (m, bs)" "age bs \<le> age e"
    "\<forall>j t. best = Some (j, t) \<longrightarrow> age bs \<le> age t"
  proof (cases best)
    case None
    then show ?thesis using that [of i e] by simp
  next
    case (Some r)
    then show ?thesis
      using that [of i e] that [of "fst r" "snd r"] by (cases r; cases "age e < age (snd r)") auto
  qed
  have step: "oldest_source ((i, Some e) # rest) best = oldest_source rest (Some (m, bs))"
    unfolding b(1) [symmetric] by (simp only: age_def oldest_source.simps)
  have IH: "case oldest_source rest (Some (m, bs)) of None \<Rightarrow> False
   | Some (i, s) \<Rightarrow> ((i, Some s) \<in> set rest \<or> (m, bs) = (i, s)) \<and> (\<forall>j t. (j, Some t) \<in> set rest \<or> (m, bs) = (j, t) \<longrightarrow> age s \<le> age t)"
    using "3.IH" b(1) unfolding age_def [symmetric] by (auto split: option.splits)
  then obtain k s where ks: "oldest_source rest (Some (m, bs)) = Some (k, s)" "(k, Some s) \<in> set rest \<or> (m, bs) = (k, s)"
    "\<forall>j t. (j, Some t) \<in> set rest \<longrightarrow> age s \<le> age t" "age s \<le> age bs"
    by (auto split: option.splits)
  show ?case unfolding step ks(1) using ks(2-) b(2-) by (auto intro: order_trans)
qed

lemma evict_oldest_correct:
  assumes R: "radix_ok ix w ch"
  shows "registered ix = {} \<Longrightarrow> evict_oldest ix = Some (Inr None, ix)"
    and "registered ix \<noteq> {} \<Longrightarrow>
      \<exists>r ix' ch'. r \<in> registered ix \<and> (\<forall>t\<in>registered ix. snd (snd r) \<le> snd (snd t))
        \<and> evict_oldest ix = Some (Inr (Some (fst r)), ix') \<and> radix_ok ix' w ch' \<and> registered ix' = registered ix - {r}
        \<and> rx_limits ix' = rx_limits ix \<and> rx_next_ticket ix' = rx_next_ticket ix"
proof -
  let ?S = "rx_sources ix"
  note W = registered_word [OF R]
  note O = oldest_source_least [where l = "enumerate 0 ?S" and best = None]
  have mem: "(i, Some s) \<in> set (enumerate 0 ?S) \<longleftrightarrow> i < length ?S \<and> ?S ! i = Some s" for i s
    by (auto simp: in_set_enumerate_eq)
  {
    assume e: "registered ix = {}"
    then have "somes ?S = []" unfolding W by simp
    then have "oldest_source (enumerate 0 ?S) None = None"
      using O unfolding mem by (auto split: option.splits dest!: somes_memI)
    then show "evict_oldest ix = Some (Inr None, ix)"
      using radix_okD(6) [OF R] \<open>somes ?S = []\<close> by (simp add: evict_oldest_def)
  }
  assume "registered ix \<noteq> {}"
  then have "set (somes ?S) \<noteq> {}" unfolding W by blast
  then obtain s0 j where "j < length ?S" "?S ! j = Some s0" unfolding set_eq_iff set_somes by auto
  then obtain i s where o: "oldest_source (enumerate 0 ?S) None = Some (i, s)"
    using O unfolding mem by (auto split: option.splits)
  then have i: "i < length ?S" "?S ! i = Some s"
    and least: "\<And>t. t \<in> set (somes ?S) \<Longrightarrow> rs_ticket s \<le> rs_ticket t"
    using O unfolding mem by (auto simp: set_somes intro: age_ticket)
  obtain ix' ch' where r: "remove_source_slot ix i = Some (Inr (), ix')" "radix_ok ix' w ch'"
      "rx_limits ix' = rx_limits ix" "rx_next_ticket ix' = rx_next_ticket ix"
      "registered ix' = registered ix - {registration_of w s}" by (rule remove_source_slot_correct [OF R i])
  have "s \<in> set (somes ?S)" using i by (auto simp: set_somes)
  then show "\<exists>r ix' ch'. r \<in> registered ix \<and> (\<forall>t\<in>registered ix. snd (snd r) \<le> snd (snd t))
        \<and> evict_oldest ix = Some (Inr (Some (fst r)), ix') \<and> radix_ok ix' w ch' \<and> registered ix' = registered ix - {r}
        \<and> rx_limits ix' = rx_limits ix \<and> rx_next_ticket ix' = rx_next_ticket ix"
    using r o least by (intro exI [of _ "registration_of w s"] exI [of _ ix'] exI [of _ ch']) (auto simp: W evict_oldest_def)
qed

end
