(* ===== verification/Radix_Match.thy ===== *)
theory Radix_Match
  imports Radix_Ops
begin

text \<open>
  The lookup of the radix index: the longest page-aligned prefix shared with a registration.
\<close>

lemma iter_min_Min: "iter_min xs = (if xs = [] then None else Some (Min (set xs)))"
proof (cases xs)
  case (Cons y ys)
  have "fold min ys y = Min (set (y # ys))"
    by (simp only: Min.set_eq_fold)
  then show ?thesis using Cons by (simp add: iter_min_def)
qed (simp add: iter_min_def)

lemma sources_below_correct:
  assumes T: "trie N w ch" and "a \<in> allocated N" "endpoints S \<subseteq> allocated N"
  shows "sources_below N a S = Some (map rs_request (filter (\<lambda>s. prefix (w a) (w (rs_endpoint s))) (somes S)))"
  using assms(3)
proof (induction S)
  case (Cons s S)
  then show ?case using node_is_ancestor_correct [OF T assms(2)] by (cases s) auto
qed simp

text \<open>The requests registered for a sequence that starts with \<open>v\<close>.\<close>

definition holders :: "registration set \<Rightarrow> token_id list \<Rightarrow> request_id set" where
  "holders A v = {r. \<exists>t k. (r, t, k) \<in> A \<and> prefix v t}"

lemma best_source_below_correct:
  assumes R: "radix_ok ix w ch" and a: "a \<in> allocated (rx_nodes ix)"
  shows "best_source_below ix a =
    Some (if holders (registered ix) (w a) = {} then None else Some (Min (holders (registered ix) (w a))))"
proof -
  let ?l = "filter (\<lambda>s. prefix (w a) (w (rs_endpoint s))) (somes (rx_sources ix))"
  have "holders (registered ix) (w a) = set (map rs_request ?l)"
    unfolding registered_word [OF R] holders_def by auto
  moreover have "sources_below (rx_nodes ix) a (rx_sources ix) = Some (map rs_request ?l)"
    by (rule sources_below_correct [OF radix_okD(2) [OF R] a sources_okD(6) [OF radix_okD(5) [OF R]]])
  ultimately show ?thesis by (simp only: best_source_below_def iter_min_Min set_empty Option.bind_lunit)
qed

text \<open>A depth at which a page boundary is shared with a registration.\<close>

definition aligned :: "registration set \<Rightarrow> nat \<Rightarrow> token_id list \<Rightarrow> nat \<Rightarrow> bool" where
  "aligned A page tokens d = (d mod page = 0 \<and> holders A (take d tokens) \<noteq> {})"

definition match_at :: "registration set \<Rightarrow> token_id list \<Rightarrow> nat \<Rightarrow> radix_match" where
  "match_at A tokens d = \<lparr>rm_source = Min (holders A (take d tokens)), rm_token_count = d\<rparr>"

definition deepest :: "registration set \<Rightarrow> nat \<Rightarrow> token_id list \<Rightarrow> nat \<Rightarrow> radix_match option \<Rightarrow> radix_match option \<Rightarrow> bool" where
  "deepest A page tokens n best r =
     ((r = best \<and> (\<forall>d. n < d \<longrightarrow> d \<le> length tokens \<longrightarrow> \<not> aligned A page tokens d))
      \<or> (\<exists>d. n < d \<and> d \<le> length tokens \<and> aligned A page tokens d
             \<and> (\<forall>d'. d < d' \<longrightarrow> d' \<le> length tokens \<longrightarrow> \<not> aligned A page tokens d') \<and> r = Some (match_at A tokens d)))"

lemma holders_antimono: "prefix u v \<Longrightarrow> holders A v \<subseteq> holders A u"
  unfolding holders_def using prefix_order.trans by blast

lemma holders_length:
  assumes "radix_ok ix w ch" "holders (registered ix) v \<noteq> {}"
  shows "length v \<le> M1_MAX_CONTEXT_TOKENS" "v \<in> w ` allocated (rx_nodes ix)"
proof -
  note D = radix_okD [OF assms(1)] and E = sources_okD [OF radix_okD(5) [OF assms(1)]]
  obtain s where s: "s \<in> set (somes (rx_sources ix))" "prefix v (w (rs_endpoint s))"
    using assms(2) unfolding holders_def registered_word [OF assms(1)] by auto
  note o = E(2) [OF s(1), unfolded source_ok_def]
  show "length v \<le> M1_MAX_CONTEXT_TOKENS"
    using prefix_length_le [OF s(2)] o D(1) by (simp add: limits_ok_def)
  show "v \<in> w ` allocated (rx_nodes ix)" using trie_prefix_closed [OF D(2) _ s(2)] o by blast
qed

lemma deepest_step:
  assumes "deepest A page tokens (Suc n) b r" "n < length tokens"
    and "b = (if aligned A page tokens (Suc n) then Some (match_at A tokens (Suc n)) else best)"
  shows "deepest A page tokens n best r"
proof -
  from assms(1) consider "r = b" "\<forall>d. Suc n < d \<longrightarrow> d \<le> length tokens \<longrightarrow> \<not> aligned A page tokens d"
    | d where "Suc n < d" "d \<le> length tokens" "aligned A page tokens d"
      "\<forall>d'. d < d' \<longrightarrow> d' \<le> length tokens \<longrightarrow> \<not> aligned A page tokens d'" "r = Some (match_at A tokens d)"
    unfolding deepest_def by blast
  then show ?thesis
  proof cases
    case 1
    show ?thesis
    proof (cases "aligned A page tokens (Suc n)")
      case True
      then show ?thesis unfolding deepest_def using 1 assms(2,3) by (intro disjI2 exI [of _ "Suc n"]) simp
    next
      case False
      have "\<not> aligned A page tokens d" if "n < d" "d \<le> length tokens" for d
        using 1(2) False that by (cases "d = Suc n") auto
      then show ?thesis unfolding deepest_def using 1 assms(3) False by simp
    qed
  next
    case 2
    then show ?thesis unfolding deepest_def by (intro disjI2 exI [of _ d]) simp
  qed
qed

lemma longest_match_loop_correct:
  assumes R: "radix_ok ix w ch"
  shows "n \<in> allocated (rx_nodes ix) \<Longrightarrow> tokens = w n @ rest \<Longrightarrow>
    \<exists>r. longest_match_loop ix page rest n best = Some r \<and> deepest (registered ix) page tokens (length (w n)) best r"
proof (induction rest arbitrary: n best)
  case Nil
  then show ?case by (auto simp: deepest_def)
next
  case (Cons t rest)
  let ?A = "registered ix"
  note T = radix_okD(2) [OF R]
  show ?case
  proof (rule find_child_cases [OF T Cons.prems(1), of t])
    assume f: "find_child (rx_nodes ix) n t = Some None" "w n @ [t] \<notin> w ` allocated (rx_nodes ix)"
    have "holders ?A (take d tokens) = {}" if "length (w n) < d" for d
    proof -
      have "prefix (w n @ [t]) (take d tokens)"
        unfolding Cons.prems(2) using that by (cases "d - length (w n)") (auto simp: prefix_def)
      moreover have "holders ?A (w n @ [t]) = {}" using holders_length(2) [OF R] f(2) by blast
      ultimately show ?thesis using holders_antimono by blast
    qed
    then show ?thesis using f(1) by (auto simp: deepest_def aligned_def)
  next
    fix c assume c: "find_child (rx_nodes ix) n t = Some (Some c)" "c \<in> allocated (rx_nodes ix)" "w c = w n @ [t]"
    obtain e where e: "node_at (rx_nodes ix) c = Some e" using c(2) by (rule allocatedE)
    have d: "rn_depth e = Suc (length (w n))" using trie_depth [OF T e] c(3) by simp
    have wc: "w c = take (Suc (length (w n))) tokens" using c(3) Cons.prems(2) by simp
    let ?b = "if aligned ?A page tokens (Suc (length (w n))) then Some (match_at ?A tokens (Suc (length (w n)))) else best"
    have lim: "length (w n) < 8192" if "holders ?A (w c) \<noteq> {}"
      using holders_length(1) [OF R that] c(3) by (simp add: M1_MAX_CONTEXT_TOKENS_def)
    have step: "longest_match_loop ix page (t # rest) n best = longest_match_loop ix page rest c ?b"
      using c(1) idx_node_at [OF e] d best_source_below_correct [OF R c(2)] wc lim
      by (cases "holders ?A (take (Suc (length (w n))) tokens) = {}") (simp_all add: aligned_def match_at_def)
    obtain r where r: "longest_match_loop ix page rest c ?b = Some r" "deepest ?A page tokens (length (w c)) ?b r"
      using Cons.IH [OF c(2)] Cons.prems(2) c(3) by auto
    have "deepest ?A page tokens (length (w n)) best r"
      by (rule deepest_step [of _ _ _ _ ?b]) (use r(2) c(3) Cons.prems(2) in auto)
    then show ?thesis using r(1) step by simp
  qed
qed

lemma longest_page_aligned_match_correct:
  assumes R: "radix_ok ix w ch"
  obtains r where "longest_page_aligned_match ix tokens page = Some r"
    "page = 0 \<longrightarrow> r = None"
    "0 < page \<longrightarrow> deepest (registered ix) page tokens 0 None r"
proof (cases "page = 0")
  case False
  note T = radix_okD(2) [OF R]
  from longest_match_loop_correct [OF R trie_root(1) [OF T], of tokens tokens page None] trie_root(2) [OF T] False
  show ?thesis using that by (auto simp: longest_page_aligned_match_def)
qed (use that in \<open>simp add: longest_page_aligned_match_def\<close>)

end
