(* ===== verification/Radix_Register.thy ===== *)
theory Radix_Register
  imports Radix_Match
begin

text \<open>
  Registration: what it requires of the capacities, which older registrations it replaces, and that
  the nodes it leaves allocated are exactly those some registration needs.
\<close>

subsection \<open>Counting registrations\<close>

definition words_of :: "registration set \<Rightarrow> token_id list set" where
  "words_of A = insert [] {v. \<exists>(r, t, k)\<in>A. prefix v t}"

definition tokens_of :: "registration set \<Rightarrow> nat" where
  "tokens_of A = (\<Sum>(r, t, k)\<in>A. length t)"

lemma entries_count:
  assumes "sources_ok N w L ticket S"
  shows "card (registration_of w ` set (somes S)) = length (somes S)"
    and "tokens_of (registration_of w ` set (somes S)) = stored S"
proof -
  note E = sources_okD [OF assms]
  have d: "distinct (somes S)" using E(5) by (rule unique_by_distinct)
  have inj: "inj_on (registration_of w) (set (somes S))"
    using unique_by_inj [OF E(5)] by (auto intro: inj_onI)
  show "card (registration_of w ` set (somes S)) = length (somes S)"
    by (simp only: card_image [OF inj] distinct_card [OF d])
  have "tokens_of (registration_of w ` set (somes S)) = (\<Sum>s\<in>set (somes S). length (w (rs_endpoint s)))"
    unfolding tokens_of_def by (subst sum.reindex [OF inj]) (simp add: o_def)
  also have "\<dots> = (\<Sum>s\<in>set (somes S). rs_token_count s)"
    using E(2) by (intro sum.cong) (auto simp: source_ok_def)
  also have "\<dots> = stored S" using d by (simp add: sum_list_distinct_conv_sum_set)
  finally show "tokens_of (registration_of w ` set (somes S)) = stored S" .
qed

lemma registered_counts:
  assumes R: "radix_ok ix w ch"
  shows "card (registered ix) = rx_source_count ix" "tokens_of (registered ix) = rx_stored_tokens ix"
    "words_of (registered ix) = w ` allocated (rx_nodes ix)" "card (words_of (registered ix)) = rx_node_count ix"
proof -
  note D = radix_okD [OF R] and E = sources_okD [OF radix_okD(5) [OF R]]
  show "card (registered ix) = rx_source_count ix" "tokens_of (registered ix) = rx_stored_tokens ix"
    unfolding registered_word [OF R] using entries_count [OF D(5)] D(6,7) by simp_all
  show w: "words_of (registered ix) = w ` allocated (rx_nodes ix)"
    unfolding trie_words [OF D(2,10) E(6)] registered_word [OF R] words_of_def by auto
  have "inj_on w (allocated (rx_nodes ix))" using D(2) by (simp add: trie_def)
  then show "card (words_of (registered ix)) = rx_node_count ix" unfolding w D(4) by (rule card_image)
qed

subsection \<open>The replaced registrations\<close>

definition clear_slots :: "usize list \<Rightarrow> 'a option list \<Rightarrow> 'a option list" where
  "clear_slots V S = fold (\<lambda>v S. S[v := None]) V S"

lemma clear_slots_simps [simp]:
  "clear_slots [] S = S" "clear_slots (v # V) S = clear_slots V (S[v := None])"
  by (simp_all add: clear_slots_def)

lemma length_clear_slots [simp]: "length (clear_slots V S) = length S"
  by (induction V arbitrary: S) simp_all

lemma nth_clear_slots: "i < length S \<Longrightarrow> clear_slots V S ! i = (if i \<in> set V then None else S ! i)"
  by (induction V arbitrary: S) (auto simp: nth_list_update)

definition filled :: "usize list \<Rightarrow> 'a option list \<Rightarrow> bool" where
  "filled V S = (distinct V \<and> (\<forall>v\<in>set V. v < length S \<and> S ! v \<noteq> None))"

lemma filled_Cons:
  assumes "filled (v # V) S"
  obtains s where "v < length S" "S ! v = Some s" "filled V (S[v := None])"
    "\<And>u. u \<in> set V \<Longrightarrow> S[v := None] ! u = S ! u"
proof -
  obtain s where s: "v < length S" "S ! v = Some s" using assms by (auto simp: filled_def)
  have same: "S[v := None] ! u = S ! u" if "u \<in> set V" for u
    using assms that by (intro nth_list_update_neq) (auto simp: filled_def)
  then have "filled V (S[v := None])" using assms by (simp add: filled_def)
  with s same show ?thesis using that by blast
qed

lemma mset_clear_slots:
  "filled V S \<Longrightarrow> mset (somes S) = mset (map (\<lambda>v. the (S ! v)) V) + mset (somes (clear_slots V S))"
proof (induction V arbitrary: S)
  case (Cons v V)
  obtain s where s: "v < length S" "S ! v = Some s" "filled V (S[v := None])"
    and same: "\<And>u. u \<in> set V \<Longrightarrow> S[v := None] ! u = S ! u" using Cons.prems by (rule filled_Cons) blast
  have "map (\<lambda>u. the (S[v := None] ! u)) V = map (\<lambda>u. the (S ! u)) V" using same by simp
  then have "mset (map (\<lambda>u. the (S[v := None] ! u)) V) = mset (map (\<lambda>u. the (S ! u)) V)" by (rule arg_cong)
  then show ?case using Cons.IH [OF s(3)] mset_somes_clear [OF s(1,2)] s(2) by simp
qed simp

lemma take_victims_correct:
  "filled V S \<Longrightarrow> take_victims S V = Some (map (\<lambda>v. rs_endpoint (the (S ! v))) V, clear_slots V S)"
proof (induction V arbitrary: S)
  case (Cons v V)
  obtain s where s: "v < length S" "S ! v = Some s" "filled V (S[v := None])"
    and same: "\<And>u. u \<in> set V \<Longrightarrow> S[v := None] ! u = S ! u" using Cons.prems by (rule filled_Cons) blast
  have "map (\<lambda>u. rs_endpoint (the (S[v := None] ! u))) V = map (\<lambda>u. rs_endpoint (the (S ! u))) V" using same by simp
  then show ?case using Cons.IH [OF s(3)] s(1,2) by (simp add: exec_simps)
qed simp

lemma tally_victims_correct:
  "\<forall>v\<in>set V. v < length S \<and> S ! v \<noteq> None \<Longrightarrow> c + length V \<le> U64_MAX \<Longrightarrow>
     t + sum_list (map (\<lambda>v. rs_token_count (the (S ! v))) V) \<le> U64_MAX \<Longrightarrow>
     tally_victims S V c t = Some (Inr (c + length V, t + sum_list (map (\<lambda>v. rs_token_count (the (S ! v))) V)))"
  by (induction V arbitrary: c t) (auto simp: exec_simps)

lemma sources_ok_clear_slots: "sources_ok N w L ticket S \<Longrightarrow> sources_ok N w L ticket (clear_slots V S)"
  by (induction V arbitrary: S) (auto intro: sources_ok_clear)

lemma victim_slots_shape:
  "set (victim_slots a b) = {v. a = Some v \<or> b = Some v}" "distinct (victim_slots a b)"
  "v \<in> set (tl (victim_slots a b)) \<Longrightarrow> b = Some v" "length (victim_slots a b) \<le> 2"
  by (auto simp: victim_slots_def split: option.splits if_splits)

text \<open>Each of the two searches finds at most one record, and together they find all that match.\<close>

definition single :: "('a \<Rightarrow> bool) \<Rightarrow> 'a option list \<Rightarrow> bool" where
  "single P S =
     (\<forall>i j s t. i < length S \<longrightarrow> j < length S \<longrightarrow> S ! i = Some s \<longrightarrow> S ! j = Some t \<longrightarrow> P s \<longrightarrow> P t \<longrightarrow> i = j)"

lemma singleD:
  "single P S \<Longrightarrow> i < length S \<Longrightarrow> j < length S \<Longrightarrow> S ! i = Some s \<Longrightarrow> S ! j = Some t \<Longrightarrow> P s \<Longrightarrow> P t \<Longrightarrow> i = j"
  unfolding single_def by blast

lemma victim_slots_correct:
  assumes P: "single P S" and Q: "single Q S"
  defines "V \<equiv> victim_slots (position (\<lambda>e. case e of None \<Rightarrow> False | Some s \<Rightarrow> P s) S)
                            (position (\<lambda>e. case e of None \<Rightarrow> False | Some s \<Rightarrow> Q s) S)"
  shows "filled V S" "set (somes (clear_slots V S)) = {s \<in> set (somes S). \<not> P s \<and> \<not> Q s}"
    and "\<And>v. v \<in> set (tl V) \<Longrightarrow> Q (the (S ! v))" and "length V \<le> 2"
proof -
  let ?p = "\<lambda>P e. case e of None \<Rightarrow> False | Some s \<Rightarrow> P s"
  have hit: "\<exists>s. i < length S \<and> S ! i = Some s \<and> R s" if "position (?p R) S = Some i" for R i
    using position_Some [OF that] by (auto split: option.splits)
  have miss: "\<not> R s" if "position (?p R) S = None" "i < length S" "S ! i = Some s" for R i s
    using position_None [OF that(1,2)] that(3) by simp
  note shape = victim_slots_shape [where a = "position (?p P) S" and b = "position (?p Q) S", folded V_def]
  show f: "filled V S" unfolding filled_def shape(1) using shape(2) hit by fastforce
  have in_V: "i \<in> set V \<longleftrightarrow> P s \<or> Q s" if i: "i < length S" "S ! i = Some s" for i s
  proof
    assume "i \<in> set V" then show "P s \<or> Q s" unfolding shape(1) using hit i(2) by fastforce
  next
    assume "P s \<or> Q s"
    then show "i \<in> set V" unfolding shape(1) mem_Collect_eq
      using miss [OF _ i] hit singleD [OF P i(1) _ i(2)] singleD [OF Q i(1) _ i(2)] by (metis option.exhaust)
  qed
  show "set (somes (clear_slots V S)) = {s \<in> set (somes S). \<not> P s \<and> \<not> Q s}"
  proof (intro set_eqI)
    fix s
    have "clear_slots V S ! i = Some s \<longleftrightarrow> S ! i = Some s \<and> \<not> P s \<and> \<not> Q s" if "i < length S" for i
      using in_V [OF that, of s] by (auto simp: nth_clear_slots [OF that])
    then have "s \<in> set (somes (clear_slots V S)) \<longleftrightarrow> (\<exists>i<length S. S ! i = Some s \<and> \<not> P s \<and> \<not> Q s)"
      unfolding set_somes length_clear_slots by (metis (no_types, lifting))
    then show "s \<in> set (somes (clear_slots V S)) \<longleftrightarrow> s \<in> {s \<in> set (somes S). \<not> P s \<and> \<not> Q s}"
      by (auto simp: set_somes [of s S])
  qed
  show "Q (the (S ! v))" if "v \<in> set (tl V)" for v using hit [OF shape(3) [OF that]] by auto
  show "length V \<le> 2" by (rule shape(4))
qed

subsection \<open>The mutation phase\<close>

lemma leaves_within_mono: "leaves_within N ch X \<Longrightarrow> X \<subseteq> Y \<Longrightarrow> leaves_within N ch Y"
  by (auto simp: leaves_within_def)

lemma prune_all_correct:
  assumes "trie (rx_nodes ix) w ch" "set vs \<subseteq> allocated (rx_nodes ix)"
    "rx_node_count ix = card (allocated (rx_nodes ix))" "endpoints (rx_sources ix) \<subseteq> allocated (rx_nodes ix)"
    "leaves_within (rx_nodes ix) ch (endpoints (rx_sources ix) \<union> set vs)" "set (tl vs) \<subseteq> endpoints (rx_sources ix)"
  shows "\<exists>N' ch'. prune_all ix vs = Some (ix\<lparr>rx_nodes := N', rx_node_count := card (allocated N')\<rparr>)
     \<and> trie N' w ch' \<and> length N' = length (rx_nodes ix) \<and> endpoints (rx_sources ix) \<subseteq> allocated N'
     \<and> leaves_within N' ch' (endpoints (rx_sources ix))"
  using assms
proof (induction vs arbitrary: ix ch)
  case Nil
  then show ?case by (intro exI [of _ "rx_nodes ix"] exI [of _ ch]) simp
next
  case (Cons v vs)
  have "endpoints (rx_sources ix) \<union> set (v # vs) \<subseteq> insert v (endpoints (rx_sources ix))" using Cons.prems(6) by auto
  with Cons.prems(5) have "leaves_within (rx_nodes ix) ch (insert v (endpoints (rx_sources ix)))" by (rule leaves_within_mono)
  with prune_from_correct [OF Cons.prems(1) _ Cons.prems(3,4), of v] Cons.prems(2)
  obtain N1 ch1 where p: "prune_from ix v = Some (Inr (), ix\<lparr>rx_nodes := N1, rx_node_count := card (allocated N1)\<rparr>)"
    "trie N1 w ch1" "length N1 = length (rx_nodes ix)" "endpoints (rx_sources ix) \<subseteq> allocated N1"
    "leaves_within N1 ch1 (endpoints (rx_sources ix))" by auto
  let ?ix = "ix\<lparr>rx_nodes := N1, rx_node_count := card (allocated N1)\<rparr>"
  have "set vs \<subseteq> endpoints (rx_sources ix)" using Cons.prems(6) by simp
  then have "set vs \<subseteq> allocated N1" "set (tl vs) \<subseteq> endpoints (rx_sources ix)"
    using p(4) by (cases vs; auto)+
  moreover have "leaves_within N1 ch1 (endpoints (rx_sources ix) \<union> set vs)" using p(5) by (rule leaves_within_mono) blast
  ultimately show ?case using Cons.IH [of ?ix ch1] p by auto
qed

lemma vacant_slot_exists:
  assumes "length (somes S) < length S"
  obtains j where "position (\<lambda>s. s = None) S = Some j" "j < length S" "S ! j = None"
proof (cases "position (\<lambda>s. s = None) S")
  case None
  then have "\<forall>s\<in>set S. s \<noteq> None" using position_None [OF None] by (auto simp: in_set_conv_nth)
  then have "length (somes S) = length S" by (simp add: somes_def)
  with assms show ?thesis by simp
next
  case (Some j)
  with that position_Some [OF Some] show ?thesis by simp
qed

lemma stored_fill: "i < length S \<Longrightarrow> S ! i = None \<Longrightarrow> stored (S[i := Some s]) = rs_token_count s + stored S"
  by (subst (1 2) sum_mset_sum_list [symmetric], subst (1 2) mset_map) (simp add: mset_somes_fill)

lemma set_somes_fill: "i < length S \<Longrightarrow> S ! i = None \<Longrightarrow> set (somes (S[i := Some s])) = insert s (set (somes S))"
  using mset_somes_fill [of i S s] by (metis set_mset_add_mset_insert set_mset_mset)

lemma length_somes_fill: "i < length S \<Longrightarrow> S ! i = None \<Longrightarrow> length (somes (S[i := Some s])) = Suc (length (somes S))"
  using mset_somes_fill [of i S s] by (metis size_add_mset size_mset)

lemma sources_ok_extend:
  assumes "sources_ok N w L ticket S" "allocated N \<subseteq> allocated N'" "\<forall>x\<in>allocated N. w' x = w x"
    and s: "source_ok N' w' L (ticket + 1) s" "rs_ticket s = ticket"
    and j: "j < length S" "S ! j = None"
    and new: "\<forall>t\<in>set (somes S). slot (rs_request t) \<noteq> slot (rs_request s) \<and> w (rs_endpoint t) \<noteq> w' (rs_endpoint s)"
  shows "sources_ok N' w' L (ticket + 1) (S[j := Some s])"
proof -
  note E = sources_okD [OF assms(1)]
  have "\<forall>t\<in>set (somes S). source_ok N' w' L (ticket + 1) t \<and> rs_ticket t \<noteq> rs_ticket s \<and> rs_endpoint t \<noteq> rs_endpoint s"
  proof
    fix t assume t: "t \<in> set (somes S)"
    show "source_ok N' w' L (ticket + 1) t \<and> rs_ticket t \<noteq> rs_ticket s \<and> rs_endpoint t \<noteq> rs_endpoint s"
      using E(2) [OF t] bspec [OF new t] assms(2,3) s(2) by (auto simp: source_ok_def)
  qed
  then show ?thesis
    unfolding sources_ok_def set_somes_fill [OF j]
    using E s new by (auto intro!: unique_by_fill)
qed

text \<open>Everything the preflight has established when the mutation starts.\<close>

definition commit_ready ::
  "radix_index \<Rightarrow> (nat \<Rightarrow> token_id list) \<Rightarrow> request_id \<Rightarrow> token_id list \<Rightarrow> usize list \<Rightarrow> usize \<Rightarrow> usize \<Rightarrow> bool" where
  "commit_ready ix w source T V m k =
     (T \<noteq> [] \<and> generation source \<noteq> 0 \<and> length T \<le> lim_tokens_per_source (rx_limits ix)
      \<and> rx_next_ticket ix < U64_MAX \<and> filled V (rx_sources ix)
      \<and> set (somes (clear_slots V (rx_sources ix))) =
          {s \<in> set (somes (rx_sources ix)). slot (rs_request s) \<noteq> slot source \<and> w (rs_endpoint s) \<noteq> T}
      \<and> (\<forall>v\<in>set (tl V). w (rs_endpoint (the (rx_sources ix ! v))) = T)
      \<and> length (somes (clear_slots V (rx_sources ix))) < lim_sources (rx_limits ix)
      \<and> stored (clear_slots V (rx_sources ix)) + length T \<le> lim_stored_tokens (rx_limits ix)
      \<and> m \<in> allocated (rx_nodes ix) \<and> w m = take k T \<and> k \<le> length T
      \<and> (k < length T \<longrightarrow> take (Suc k) T \<notin> w ` allocated (rx_nodes ix))
      \<and> card (allocated (rx_nodes ix)) + (length T - k) \<le> lim_nodes (rx_limits ix))"

lemma commit_insert:
  assumes R: "radix_ok ix w ch" and C: "commit_ready ix w source T V m k"
  obtains m' N' w' ch' where
    "insert_path (ix\<lparr>rx_sources := S, rx_source_count := c, rx_stored_tokens := n\<rparr>) m (drop k T) =
       Some (m', ix\<lparr>rx_sources := S, rx_source_count := c, rx_stored_tokens := n, rx_nodes := N',
                   rx_node_count := card (allocated N')\<rparr>)"
    "trie N' w' ch'" "length N' = length (rx_nodes ix)" "allocated (rx_nodes ix) \<subseteq> allocated N'"
    "\<forall>x\<in>allocated (rx_nodes ix). w' x = w x" "m' \<in> allocated N'" "w' m' = T"
    "leaves_within N' ch' (insert m' (endpoints (rx_sources ix)))"
proof -
  note D = radix_okD [OF R]
  have L: "length (rx_nodes ix) \<le> U64_MAX" "length T \<le> M1_MAX_CONTEXT_TOKENS"
    using D(1,3) C by (auto simp: limits_ok_def commit_ready_def)
  have fresh: "w m @ [hd (drop k T)] \<notin> w ` allocated (rx_nodes ix)" if "drop k T \<noteq> []"
    using that C by (simp add: commit_ready_def hd_drop_conv_nth take_Suc_conv_app_nth)
  let ?ix = "ix\<lparr>rx_sources := S, rx_source_count := c, rx_stored_tokens := n\<rparr>"
  have "w m @ drop k T = T" using C by (simp add: commit_ready_def)
  moreover have "leaves_within (rx_nodes ix) ch (insert m (endpoints (rx_sources ix)))"
    using D(10) by (rule leaves_within_mono) blast
  moreover have "\<exists>m' N' w' ch'. insert_path ?ix m (drop k T) = Some (m', ?ix\<lparr>rx_nodes := N', rx_node_count := card (allocated N')\<rparr>)
     \<and> trie N' w' ch' \<and> length N' = length (rx_nodes ?ix) \<and> allocated (rx_nodes ?ix) \<subseteq> allocated N'
     \<and> (\<forall>x\<in>allocated (rx_nodes ?ix). w' x = w x) \<and> m' \<in> allocated N' \<and> w' m' = w m @ drop k T
     \<and> (\<forall>X. leaves_within (rx_nodes ?ix) ch (insert m X) \<longrightarrow> leaves_within N' ch' (insert m' X))"
    by (rule insert_path_correct)
       (use D fresh L C in \<open>auto simp: commit_ready_def M1_MAX_CONTEXT_TOKENS_def\<close>)
  ultimately show ?thesis using that by auto
qed

lemma commit_sources:
  assumes R: "radix_ok ix w ch" and C: "commit_ready ix w source T V m k"
    and N': "allocated (rx_nodes ix) \<subseteq> allocated N'" "\<forall>x\<in>allocated (rx_nodes ix). w' x = w x" "m' \<in> allocated N'" "w' m' = T"
  obtains j where "position (\<lambda>s. s = None) (clear_slots V (rx_sources ix)) = Some j"
    "j < length (rx_sources ix)" "clear_slots V (rx_sources ix) ! j = None"
    "\<And>s. s = \<lparr>rs_request = source, rs_endpoint = m', rs_token_count = length T, rs_ticket = rx_next_ticket ix\<rparr> \<Longrightarrow>
       sources_ok N' w' (rx_limits ix) (rx_next_ticket ix + 1) ((clear_slots V (rx_sources ix))[j := Some s])
       \<and> set (somes ((clear_slots V (rx_sources ix))[j := Some s])) = insert s (set (somes (clear_slots V (rx_sources ix))))"
proof -
  let ?S = "clear_slots V (rx_sources ix)"
  note D = radix_okD [OF R]
  have ok: "sources_ok (rx_nodes ix) w (rx_limits ix) (rx_next_ticket ix) ?S" using D(5) by (rule sources_ok_clear_slots)
  have "length (somes ?S) < length ?S"
    using C sources_okD(1) [OF ok] by (simp add: commit_ready_def)
  then obtain j where j: "position (\<lambda>s. s = None) ?S = Some j" "j < length ?S" "?S ! j = None" by (rule vacant_slot_exists)
  let ?s = "\<lparr>rs_request = source, rs_endpoint = m', rs_token_count = length T, rs_ticket = rx_next_ticket ix\<rparr>"
  have "source_ok N' w' (rx_limits ix) (rx_next_ticket ix + 1) ?s"
    using C N'(3,4) by (simp add: source_ok_def commit_ready_def)
  moreover have "\<forall>t\<in>set (somes ?S). slot (rs_request t) \<noteq> slot (rs_request ?s) \<and> w (rs_endpoint t) \<noteq> w' (rs_endpoint ?s)"
    using C N'(4) by (simp add: commit_ready_def)
  ultimately have "sources_ok N' w' (rx_limits ix) (rx_next_ticket ix + 1) (?S[j := Some ?s])"
    using sources_ok_extend [OF ok N'(1,2) _ _ j(2,3)] by simp
  with j show ?thesis using that [of j] set_somes_fill [OF j(2,3), of ?s] by simp
qed

lemma commit_victims:
  assumes R: "radix_ok ix w ch" and C: "commit_ready ix w source T V m k"
    and N': "trie N' w' ch'" "allocated (rx_nodes ix) \<subseteq> allocated N'" "\<forall>x\<in>allocated (rx_nodes ix). w' x = w x"
      "m' \<in> allocated N'" "w' m' = T"
  defines "vs \<equiv> map (\<lambda>v. rs_endpoint (the (rx_sources ix ! v))) V"
  shows "set vs \<subseteq> allocated (rx_nodes ix)" "set (tl vs) \<subseteq> {m'}"
    "endpoints (rx_sources ix) = endpoints (clear_slots V (rx_sources ix)) \<union> set vs"
proof -
  have f: "filled V (rx_sources ix)" using C by (simp add: commit_ready_def)
  have "set (somes (rx_sources ix)) = set (map (\<lambda>v. the (rx_sources ix ! v)) V) \<union> set (somes (clear_slots V (rx_sources ix)))"
    using arg_cong [OF mset_clear_slots [OF f], of set_mset] by simp
  then show eq: "endpoints (rx_sources ix) = endpoints (clear_slots V (rx_sources ix)) \<union> set vs"
    unfolding vs_def by (simp add: image_Un image_image Un_commute)
  show sub: "set vs \<subseteq> allocated (rx_nodes ix)"
    using eq sources_okD(6) [OF radix_okD(5) [OF R]] by blast
  show "set (tl vs) \<subseteq> {m'}"
  proof
    fix x assume "x \<in> set (tl vs)"
    then obtain v where v: "v \<in> set (tl V)" "x = rs_endpoint (the (rx_sources ix ! v))"
      by (cases V) (auto simp: vs_def)
    have "x \<in> set vs" using v by (cases V) (auto simp: vs_def)
    then have "x \<in> allocated (rx_nodes ix)" using sub by blast
    moreover have "w x = T" using C v by (simp add: commit_ready_def)
    ultimately show "x \<in> {m'}" using trie_inj [OF N'(1) _ N'(4), of x] N'(2,3,5) by auto
  qed
qed

definition retained :: "registration set \<Rightarrow> request_id \<Rightarrow> token_id list \<Rightarrow> registration set" where
  "retained A source T = {(r, t, k) \<in> A. slot r \<noteq> slot source \<and> t \<noteq> T}"

lemma retained_empty [simp]: "retained {} source T = {}"
  by (auto simp: retained_def)

lemma retained_sources:
  assumes R: "radix_ok ix w ch"
    and "set (somes S) = {s \<in> set (somes (rx_sources ix)). slot (rs_request s) \<noteq> slot source \<and> w (rs_endpoint s) \<noteq> T}"
  shows "registration_of w ` set (somes S) = retained (registered ix) source T"
  unfolding registered_word [OF R] retained_def assms(2) by auto

lemma register_commit_correct:
  assumes R: "radix_ok ix w ch" and C: "commit_ready ix w source T V m k"
  defines "S \<equiv> clear_slots V (rx_sources ix)"
  obtains ix' w' ch' where
    "register_commit ix source T V (length (somes S)) (stored S) (stored S + length T) (rx_next_ticket ix + 1) m k =
       Some (Inr (), ix')" "radix_ok ix' w' ch'" "rx_limits ix' = rx_limits ix" "rx_next_ticket ix' = rx_next_ticket ix + 1"
    "registered ix' = insert (source, T, rx_next_ticket ix) (retained (registered ix) source T)"
proof -
  note D = radix_okD [OF R]
  have f: "filled V (rx_sources ix)" using C by (simp add: commit_ready_def)
  obtain m' N' w' ch' where I:
    "insert_path (ix\<lparr>rx_sources := S, rx_source_count := length (somes S), rx_stored_tokens := stored S\<rparr>) m (drop k T) =
       Some (m', ix\<lparr>rx_sources := S, rx_source_count := length (somes S), rx_stored_tokens := stored S, rx_nodes := N',
                   rx_node_count := card (allocated N')\<rparr>)"
    "trie N' w' ch'" "length N' = length (rx_nodes ix)" "allocated (rx_nodes ix) \<subseteq> allocated N'"
    "\<forall>x\<in>allocated (rx_nodes ix). w' x = w x" "m' \<in> allocated N'" "w' m' = T"
    "leaves_within N' ch' (insert m' (endpoints (rx_sources ix)))"
    by (rule commit_insert [OF R C])
  let ?s = "\<lparr>rs_request = source, rs_endpoint = m', rs_token_count = length T, rs_ticket = rx_next_ticket ix\<rparr>"
  obtain j where j: "position (\<lambda>s. s = None) S = Some j" "j < length S" "S ! j = None"
    "sources_ok N' w' (rx_limits ix) (rx_next_ticket ix + 1) (S[j := Some ?s])"
    "set (somes (S[j := Some ?s])) = insert ?s (set (somes S))"
    using commit_sources [OF R C I(4-7)] unfolding S_def by auto
  define vs where "vs = map (\<lambda>v. rs_endpoint (the (rx_sources ix ! v))) V"
  note vv = commit_victims [OF R C I(2,4-7), folded vs_def S_def]
  let ?S = "S[j := Some ?s]"
  let ?ix = "ix\<lparr>rx_nodes := N', rx_node_count := card (allocated N'), rx_sources := ?S,
     rx_source_count := length (somes S) + 1, rx_stored_tokens := stored S + length T, rx_next_ticket := rx_next_ticket ix + 1\<rparr>"
  have e: "endpoints ?S = insert m' (endpoints S)" using j(5) by simp
  have "leaves_within N' ch' (endpoints ?S \<union> set vs)"
    using I(8) by (rule leaves_within_mono) (use vv(3) e in auto)
  moreover have "set vs \<subseteq> allocated N'" "set (tl vs) \<subseteq> endpoints ?S" using vv(1,2) I(4) e by auto
  ultimately
  obtain N2 ch2 where P: "prune_all ?ix vs = Some (?ix\<lparr>rx_nodes := N2, rx_node_count := card (allocated N2)\<rparr>)"
    "trie N2 w' ch2" "length N2 = length N'" "endpoints ?S \<subseteq> allocated N2" "leaves_within N2 ch2 (endpoints ?S)"
    using prune_all_correct [of ?ix w' ch' vs] I(2) sources_okD(6) [OF j(4)] by auto
  let ?ix' = "?ix\<lparr>rx_nodes := N2, rx_node_count := card (allocated N2)\<rparr>"
  have lim: "length (somes S) + 1 \<le> U64_MAX"
    using C D(1) by (simp add: commit_ready_def S_def limits_ok_def)
  have reg: "register_commit ix source T V (length (somes S)) (stored S) (stored S + length T) (rx_next_ticket ix + 1) m k =
       Some (Inr (), ?ix')"
    using take_victims_correct [OF f, folded S_def vs_def] I(1) j(1,2) lim P(1)
    by (simp add: register_commit_def exec_simps Let_def)
  have R': "radix_ok ?ix' w' ch2"
    using P D C I(3) sources_ok_nodes [OF j(4) P(4)] length_somes_fill [OF j(2,3)] stored_fill [OF j(2,3)]
    by (simp add: radix_ok_def commit_ready_def S_def)
  have same: "\<forall>s\<in>set (somes S). w' (rs_endpoint s) = w (rs_endpoint s)"
    using sources_okD(6) [OF sources_ok_clear_slots [OF D(5), of V, folded S_def]] I(5) by auto
  have "registered ?ix' = insert (source, T, rx_next_ticket ix) (registration_of w ` set (somes S))"
    unfolding registered_word [OF R'] using j(5) I(7) same by simp
  moreover have "registration_of w ` set (somes S) = retained (registered ix) source T"
    by (rule retained_sources [OF R]) (use C in \<open>simp add: S_def commit_ready_def\<close>)
  ultimately show ?thesis using that [OF reg R'] by simp
qed

subsection \<open>The decision\<close>

definition register_verdict ::
  "radix_limits \<Rightarrow> u64 \<Rightarrow> registration set \<Rightarrow> request_id \<Rightarrow> token_id list \<Rightarrow> radix_error option" where
  "register_verdict L ticket A source T =
     (if T = [] then Some EmptySource
      else if generation source = 0 then Some ZeroSourceGeneration
      else if lim_tokens_per_source L < length T then Some (TokensPerSourceCapacity (lim_tokens_per_source L) (length T))
      else if ticket = U64_MAX then Some TicketExhausted
      else if lim_sources L \<le> card (retained A source T) then Some (SourceCapacity (lim_sources L))
      else if lim_stored_tokens L < tokens_of (retained A source T) + length T
      then Some (StoredTokenCapacity (lim_stored_tokens L) (min U64_MAX (tokens_of (retained A source T) + length T)))
      else if lim_nodes L < card (words_of (insert (source, T, ticket) A))
      then Some (NodeCapacity (lim_nodes L) (min U64_MAX (card (words_of (insert (source, T, ticket) A)))))
      else None)"

lemma words_of_insert: "words_of (insert (r, t, k) A) = words_of A \<union> {v. prefix v t}"
  by (auto simp: words_of_def)

lemma card_words_extend:
  assumes T: "trie N w ch" and m: "m \<in> allocated N" "w m = take k t" "k \<le> length t"
    and new: "k < length t \<Longrightarrow> take (Suc k) t \<notin> w ` allocated N"
  shows "card (w ` allocated N \<union> {v. prefix v t}) = card (allocated N) + (length t - k)"
proof -
  let ?W = "w ` allocated N" and ?F = "(\<lambda>j. take j t) ` {k<..length t}"
  have "v \<in> ?W \<union> ?F" if v: "prefix v t" for v
  proof (cases "length v \<le> k")
    case True
    then have "prefix v (w m)" using v m(2,3) by (auto simp: prefix_def)
    then show ?thesis using trie_prefix_closed [OF T m(1)] by blast
  next
    case False
    moreover have "v = take (length v) t" "length v \<le> length t" using v by (auto simp: prefix_def)
    ultimately show ?thesis by (intro UnI2 image_eqI [of _ _ "length v"]) auto
  qed
  then have eq: "?W \<union> {v. prefix v t} = ?W \<union> ?F" by (auto simp: take_is_prefix)
  have dis: "?W \<inter> ?F = {}"
  proof (rule ccontr)
    assume "?W \<inter> ?F \<noteq> {}"
    then obtain j n where jn: "k < j" "j \<le> length t" "n \<in> allocated N" "w n = take j t" by auto
    have "prefix (take (Suc k) t) (w n)" unfolding jn(4) using jn(1) by (metis Suc_leI min.absorb1 take_is_prefix take_take)
    then show False using trie_prefix_closed [OF T jn(3)] new jn(1,2) by simp
  qed
  have "inj_on (\<lambda>j. take j t) {k<..length t}"
    by (rule inj_onI) (metis greaterThanAtMost_iff length_take min.absorb2)
  then have "card ?F = length t - k" by (simp add: card_image)
  moreover have "card ?W = card (allocated N)" using T by (simp add: trie_def card_image)
  ultimately show ?thesis unfolding eq using dis by (simp add: card_Un_disjoint)
qed

text \<open>The replaced records of a registration of \<open>T\<close> for \<open>source\<close>.\<close>

definition victims_of :: "radix_index \<Rightarrow> request_id \<Rightarrow> token_id list \<Rightarrow> usize list" where
  "victims_of ix source T =
     victim_slots
       (position (\<lambda>entry. case entry of None \<Rightarrow> False | Some s \<Rightarrow> slot (rs_request s) = slot source) (rx_sources ix))
       (position (\<lambda>entry. case entry of None \<Rightarrow> False | Some s \<Rightarrow> source_tokens_equal (rx_nodes ix) s T) (rx_sources ix))"

lemma victims_of_correct:
  fixes source :: request_id and T :: "token_id list"
  assumes R: "radix_ok ix w ch"
  defines "V \<equiv> victims_of ix source T" and "S \<equiv> rx_sources ix"
  shows "filled V S"
    "set (somes (clear_slots V S)) = {s \<in> set (somes S). slot (rs_request s) \<noteq> slot source \<and> w (rs_endpoint s) \<noteq> T}"
    "\<forall>v\<in>set (tl V). w (rs_endpoint (the (S ! v))) = T"
    "tally_victims S V 0 0 = Some (Inr (length V, sum_list (map (\<lambda>v. rs_token_count (the (S ! v))) V)))"
    "length (somes S) = length V + length (somes (clear_slots V S))"
    "stored S = sum_list (map (\<lambda>v. rs_token_count (the (S ! v))) V) + stored (clear_slots V S)"
proof -
  note D = radix_okD [OF R] and E = sources_okD [OF radix_okD(5) [OF R]]
  let ?P = "\<lambda>s. slot (rs_request s) = slot source" and ?Q = "\<lambda>s. source_tokens_equal (rx_nodes ix) s T"
  have Q: "?Q s \<longleftrightarrow> w (rs_endpoint s) = T" if "s \<in> set (somes S)" for s
    using source_tokens_equal_loop_correct [OF D(2), of "rs_endpoint s" T] E(2) [OF that [unfolded S_def]]
    by (auto simp: source_tokens_equal_def source_ok_def)
  have uP: "single ?P S"
    unfolding single_def using unique_byD [OF E(3) [folded S_def]] by (metis comp_apply)
  have uQ: "single ?Q S" unfolding single_def
  proof (intro allI impI)
    fix i j s t assume h: "i < length S" "j < length S" "S ! i = Some s" "S ! j = Some t" "?Q s" "?Q t"
    then have st: "s \<in> set (somes S)" "t \<in> set (somes S)" by (auto simp: set_somes)
    then have "w (rs_endpoint s) = w (rs_endpoint t)" using Q h(5,6) by simp
    then have "rs_endpoint s = rs_endpoint t" using trie_inj [OF D(2)] st E(6) unfolding S_def by blast
    then show "i = j" by (rule unique_byD [OF E(4) [folded S_def] h(1-4)])
  qed
  note V = victim_slots_correct [OF uP uQ, folded victims_of_def [of ix source T, folded S_def], folded V_def]
  show f: "filled V S" by (rule V(1)) 
  show "set (somes (clear_slots V S)) = {s \<in> set (somes S). slot (rs_request s) \<noteq> slot source \<and> w (rs_endpoint s) \<noteq> T}"
    using V(2) Q by auto
  show "\<forall>v\<in>set (tl V). w (rs_endpoint (the (S ! v))) = T"
  proof
    fix v assume v: "v \<in> set (tl V)"
    then have "v \<in> set V" by (cases V) auto
    then have "the (S ! v) \<in> set (somes S)" using f by (auto simp: filled_def set_somes)
    then show "w (rs_endpoint (the (S ! v))) = T" using V(3) [OF v] Q by simp
  qed
  note M = mset_clear_slots [OF f]
  show "length (somes S) = length V + length (somes (clear_slots V S))"
    using arg_cong [OF M, of size] by simp
  show st: "stored S = sum_list (map (\<lambda>v. rs_token_count (the (S ! v))) V) + stored (clear_slots V S)"
    using arg_cong [OF M, of "\<lambda>m. sum_mset (image_mset rs_token_count m)"]
    by (simp add: sum_mset_sum_list [symmetric] image_mset.compositionality o_def del: sum_mset_sum_list)
  have "stored S \<le> U64_MAX" using D(1,8) by (simp add: S_def limits_ok_def)
  then show "tally_victims S V 0 0 = Some (Inr (length V, sum_list (map (\<lambda>v. rs_token_count (the (S ! v))) V)))"
    using tally_victims_correct [of V S 0 0] f V(4) st by (auto simp: filled_def)
qed

lemma register_nodes_correct:
  assumes R: "radix_ok ix w ch" and T: "T \<noteq> []" "generation source \<noteq> 0" "length T \<le> lim_tokens_per_source (rx_limits ix)"
    and "rx_next_ticket ix < U64_MAX"
  defines "A \<equiv> registered ix" and "V \<equiv> victims_of ix source T"
  defines "S \<equiv> clear_slots V (rx_sources ix)"
  assumes room: "length (somes S) < lim_sources (rx_limits ix)" "stored S + length T \<le> lim_stored_tokens (rx_limits ix)"
  shows "\<exists>r ix' w' ch'. register_nodes ix source T V (length (somes S)) (stored S) (stored S + length T) (rx_next_ticket ix + 1) = Some (r, ix')
     \<and> (let n = card (words_of (insert (source, T, rx_next_ticket ix) A)) in
        if lim_nodes (rx_limits ix) < n then r = Inl (NodeCapacity (lim_nodes (rx_limits ix)) (min U64_MAX n)) \<and> ix' = ix
        else r = Inr () \<and> radix_ok ix' w' ch' \<and> rx_limits ix' = rx_limits ix \<and> rx_next_ticket ix' = rx_next_ticket ix + 1
          \<and> registered ix' = insert (source, T, rx_next_ticket ix) (retained A source T))"
proof -
  note D = radix_okD [OF R] and V = victims_of_correct [OF R, of source T, folded V_def, folded S_def]
  have "length T \<le> U64_MAX" using T(3) D(1) by (simp add: limits_ok_def M1_MAX_CONTEXT_TOKENS_def)
  then obtain m k where m: "existing_prefix (rx_nodes ix) T = Some (Inr (m, k))" "m \<in> allocated (rx_nodes ix)" "k \<le> length T"
    "w m = take k T" "k < length T \<longrightarrow> take (Suc k) T \<notin> w ` allocated (rx_nodes ix)"
    by (rule existing_prefix_correct [OF D(2)])
  have n: "card (words_of (insert (source, T, rx_next_ticket ix) A)) = rx_node_count ix + (length T - k)"
    unfolding words_of_insert A_def registered_counts(3) [OF R] D(4) by (rule card_words_extend [OF D(2) m(2,4,3) mp [OF m(5)]])
  have le: "rx_node_count ix \<le> lim_nodes (rx_limits ix)" using card_allocated_le D(3,4) by metis
  show ?thesis
  proof (cases "lim_nodes (rx_limits ix) < rx_node_count ix + (length T - k)")
    case True
    then show ?thesis unfolding n using m(1,3) le
      by (intro exI [of _ "Inl (NodeCapacity (lim_nodes (rx_limits ix)) (min U64_MAX (rx_node_count ix + (length T - k))))"] exI [of _ ix])
         (auto simp: register_nodes_def exec_simps)
  next
    case False
    have "commit_ready ix w source T V m k"
      using T assms(5) V room m False D(4) by (auto simp: commit_ready_def S_def)
    then obtain ix' w' ch' where c:
      "register_commit ix source T V (length (somes S)) (stored S) (stored S + length T) (rx_next_ticket ix + 1) m k =
         Some (Inr (), ix')" "radix_ok ix' w' ch'" "rx_limits ix' = rx_limits ix" "rx_next_ticket ix' = rx_next_ticket ix + 1"
      "registered ix' = insert (source, T, rx_next_ticket ix) (retained (registered ix) source T)"
      using register_commit_correct [OF R, of source T V m k] unfolding S_def by metis
    have "register_nodes ix source T V (length (somes S)) (stored S) (stored S + length T) (rx_next_ticket ix + 1) = Some (Inr (), ix')"
      using False m(1,3) le c(1) by (simp add: register_nodes_def exec_simps)
    then show ?thesis unfolding n using False c(2-5) A_def
      by (intro exI [of _ "Inr ()"] exI [of _ ix'] exI [of _ w'] exI [of _ ch']) simp
  qed
qed

lemma register_correct:
  assumes R: "radix_ok ix w ch"
  shows "\<exists>r ix' w' ch'. register_authenticated_source ix \<lparr>as_source = source, as_tokens = T\<rparr> = Some (r, ix')
     \<and> (case register_verdict (rx_limits ix) (rx_next_ticket ix) (registered ix) source T of
          Some e \<Rightarrow> r = Inl e \<and> ix' = ix
        | None \<Rightarrow> r = Inr () \<and> radix_ok ix' w' ch' \<and> rx_limits ix' = rx_limits ix \<and> rx_next_ticket ix' = rx_next_ticket ix + 1
          \<and> registered ix' = insert (source, T, rx_next_ticket ix) (retained (registered ix) source T))"
proof -
  let ?L = "rx_limits ix" and ?nt = "rx_next_ticket ix" and ?A = "registered ix"
  let ?V = "victims_of ix source T"
  let ?S = "clear_slots ?V (rx_sources ix)"
  note D = radix_okD [OF R] and V = victims_of_correct [OF R, of source T]
  note ret = retained_sources [OF R V(2)]
  have cnt: "card (retained ?A source T) = length (somes ?S)" "tokens_of (retained ?A source T) = stored ?S"
    using entries_count [OF sources_ok_clear_slots [OF D(5), of ?V]] unfolding ret by simp_all
  show ?thesis
  proof (cases "T = [] \<or> generation source = 0 \<or> lim_tokens_per_source ?L < length T \<or> ?nt = U64_MAX")
    case True
    then show ?thesis by (auto simp: register_authenticated_source_def register_verdict_def u_add_def)
  next
    case False
    then have f: "T \<noteq> []" "generation source \<noteq> 0" "length T \<le> lim_tokens_per_source ?L" "?nt < U64_MAX"
      using D(9) by auto
    let ?st = "sum_list (map (\<lambda>v. rs_token_count (the (rx_sources ix ! v))) ?V)"
    have "register_authenticated_source ix \<lparr>as_source = source, as_tokens = T\<rparr> = register_storage ix source T (?nt + 1)"
      using f by (simp add: register_authenticated_source_def exec_simps)
    also have "\<dots> = (if lim_sources ?L \<le> length (somes ?S) then Some (Inl (SourceCapacity (lim_sources ?L)), ix)
       else if lim_stored_tokens ?L < stored ?S + length T
       then Some (Inl (StoredTokenCapacity (lim_stored_tokens ?L) (min U64_MAX (stored ?S + length T))), ix)
       else register_nodes ix source T ?V (length (somes ?S)) (stored ?S) (stored ?S + length T) (?nt + 1))"
      using V(4-6) D(1,6,7)
      by (auto simp: register_storage_def Let_def victims_of_def [symmetric] exec_simps limits_ok_def split: option.splits)
    finally have step: "register_authenticated_source ix \<lparr>as_source = source, as_tokens = T\<rparr> = \<dots>" .
    show ?thesis
    proof (cases "lim_sources ?L \<le> length (somes ?S) \<or> lim_stored_tokens ?L < stored ?S + length T")
      case True
      then show ?thesis unfolding step using f by (auto simp: register_verdict_def cnt)
    next
      case False
      with register_nodes_correct [OF R f] show ?thesis
        unfolding step using f by (auto simp: register_verdict_def cnt Let_def split: if_splits)
    qed
  qed
qed

end
