(* ===== verification/Radix_Properties.thy ===== *)
theory Radix_Properties
  imports Radix_Register
begin

text \<open>
  What the radix index guarantees to its callers: it implements a bounded registry of token
  sequences, finds the longest shared page-aligned prefix, and never keeps a node it does not need.
\<close>

subsection \<open>The index as a machine\<close>

datatype radix_call = RRegister request_id "token_id list" | RInvalidate request_id | REvict

datatype radix_reply = Registered | Invalidated bool | Evicted "request_id option"

definition radix_step :: "radix_call \<Rightarrow> radix_index \<Rightarrow> ((radix_error + radix_reply) \<times> radix_index) exec" where
  "radix_step c ix =
     (case c of
        RRegister source tokens \<Rightarrow> do {
          (r, ix') \<leftarrow> register_authenticated_source ix \<lparr>as_source = source, as_tokens = tokens\<rparr>;
          Some (map_sum id (\<lambda>_. Registered) r, ix') }
      | RInvalidate source \<Rightarrow> do {
          (r, ix') \<leftarrow> invalidate_source ix source; Some (map_sum id Invalidated r, ix') }
      | REvict \<Rightarrow> do { (r, ix') \<leftarrow> evict_oldest ix; Some (map_sum id Evicted r, ix') })"

text \<open>The registry: a set of registrations and the next ticket.\<close>

definition registry_step ::
  "radix_limits \<Rightarrow> u64 \<Rightarrow> registration set \<Rightarrow> radix_call \<Rightarrow> radix_error + radix_reply \<Rightarrow> u64 \<Rightarrow> registration set \<Rightarrow> bool" where
  "registry_step L ticket A c r ticket' A' =
     (case c of
        RRegister source tokens \<Rightarrow>
          (case register_verdict L ticket A source tokens of
             Some e \<Rightarrow> r = Inl e \<and> ticket' = ticket \<and> A' = A
           | None \<Rightarrow> r = Inr Registered \<and> ticket' = ticket + 1
               \<and> A' = insert (source, tokens, ticket) (retained A source tokens))
      | RInvalidate source \<Rightarrow>
          r = Inr (Invalidated (source \<in> fst ` A)) \<and> ticket' = ticket \<and> A' = {x \<in> A. fst x \<noteq> source}
      | REvict \<Rightarrow> ticket' = ticket \<and>
          (if A = {} then r = Inr (Evicted None) \<and> A' = {}
           else \<exists>x\<in>A. (\<forall>y\<in>A. snd (snd x) \<le> snd (snd y)) \<and> r = Inr (Evicted (Some (fst x))) \<and> A' = A - {x}))"

lemma radix_step_correct:
  assumes "radix_inv ix"
  obtains r ix' where "radix_step c ix = Some (r, ix')" "radix_inv ix'" "rx_limits ix' = rx_limits ix"
    "registry_step (rx_limits ix) (rx_next_ticket ix) (registered ix) c r (rx_next_ticket ix') (registered ix')"
    "\<forall>e. r = Inl e \<longrightarrow> ix' = ix"
proof -
  obtain w ch where R: "radix_ok ix w ch" using assms by (auto simp: radix_inv_def)
  show ?thesis
  proof (cases c)
    case (RRegister source T)
    then show ?thesis using that register_correct [OF R, of source T] assms
      by (fastforce simp: radix_step_def registry_step_def radix_inv_def split: option.splits)
  next
    case (RInvalidate source)
    obtain ix' ch' where "invalidate_source ix source = Some (Inr (source \<in> fst ` registered ix), ix')" "radix_ok ix' w ch'"
      "rx_limits ix' = rx_limits ix" "rx_next_ticket ix' = rx_next_ticket ix"
      "registered ix' = {r \<in> registered ix. fst r \<noteq> source}" by (rule invalidate_source_correct [OF R])
    then show ?thesis using that [of "Inr (Invalidated (source \<in> fst ` registered ix))" ix'] RInvalidate
      by (auto simp: radix_step_def registry_step_def radix_inv_def)
  next
    case REvict
    show ?thesis
    proof (cases "registered ix = {}")
      case True
      then show ?thesis using that [of "Inr (Evicted None)" ix] evict_oldest_correct(1) [OF R] REvict assms
        by (simp add: radix_step_def registry_step_def)
    next
      case False
      from evict_oldest_correct(2) [OF R False] obtain r ix' ch' where
        "r \<in> registered ix" "\<forall>t\<in>registered ix. snd (snd r) \<le> snd (snd t)"
        "evict_oldest ix = Some (Inr (Some (fst r)), ix')" "radix_ok ix' w ch'" "registered ix' = registered ix - {r}"
        "rx_limits ix' = rx_limits ix" "rx_next_ticket ix' = rx_next_ticket ix" by blast
      then show ?thesis using that [of "Inr (Evicted (Some (fst r)))" ix'] REvict False
        by (auto simp: radix_step_def registry_step_def radix_inv_def)
    qed
  qed
qed

interpretation radix: transactional_machine radix_inv radix_step
proof
  fix ix c r ix' e
  assume inv: "radix_inv ix"
  show "radix_step c ix \<noteq> None" by (rule radix_step_correct [OF inv, of c]) simp
  show "radix_inv ix'" if "radix_step c ix = Some (r, ix')"
    by (rule radix_step_correct [OF inv, of c]) (use that in simp)
  show "ix' = ix" if "radix_step c ix = Some (Inl e, ix')"
    by (rule radix_step_correct [OF inv, of c]) (use that in simp)
qed

definition radix_reachable :: "usize \<Rightarrow> usize \<Rightarrow> usize \<Rightarrow> usize \<Rightarrow> radix_call list \<Rightarrow> radix_index \<Rightarrow> bool" where
  "radix_reachable nodes tokens sources storage calls ix =
     (nodes \<le> U64_MAX \<and> sources \<le> U64_MAX \<and> storage \<le> U64_MAX
      \<and> (\<exists>L ix0. radix_limits_new nodes tokens sources storage = Inr L
           \<and> radix_new (\<lambda>_. True) L = Some (Inr ix0) \<and> run_ops radix_step calls ix0 = Some ix))"

lemma radix_reachable_inv: "radix_reachable a b c d calls ix \<Longrightarrow> radix_inv ix"
proof -
  assume "radix_reachable a b c d calls ix"
  then obtain L ix0 where h: "a \<le> U64_MAX" "c \<le> U64_MAX" "d \<le> U64_MAX" "radix_limits_new a b c d = Inr L"
    "radix_new (\<lambda>_. True) L = Some (Inr ix0)" "run_ops radix_step calls ix0 = Some ix"
    by (auto simp: radix_reachable_def)
  have "radix_inv ix0" by (rule radix_new_correct [OF radix_limits_new_ok [OF h(4,1,2,3)], of "\<lambda>_. True"]) (use h(5) in auto)
  then show "radix_inv ix" using h(6) by (rule radix.run_inv)
qed

lemma radix_reachable_step:
  "radix_reachable a b c d calls ix \<Longrightarrow> radix_step x ix = Some (r, ix') \<Longrightarrow> radix_reachable a b c d (calls @ [x]) ix'"
  by (auto simp: radix_reachable_def run_ops_append)

subsection \<open>A small index\<close>

definition demo_source :: request_id where "demo_source = request_id_new 5 1"

lemma demo_radix:
  obtains ix where "radix_reachable 8 4 2 16 [] ix" "registered ix = {}" "rx_next_ticket ix = 1"
    "rx_limits ix = \<lparr>lim_nodes = 8, lim_tokens_per_source = 4, lim_sources = 2, lim_stored_tokens = 16\<rparr>"
proof -
  let ?L = "\<lparr>lim_nodes = 8, lim_tokens_per_source = 4, lim_sources = 2, lim_stored_tokens = 16\<rparr>"
  have L: "radix_limits_new 8 4 2 16 = Inr ?L"
    by (simp add: radix_limits_new_def M1_MAX_CONTEXT_TOKENS_def u_mul_def)
  then have "limits_ok ?L" by (rule radix_limits_new_ok) simp_all
  then obtain ix where "radix_new (\<lambda>_. True) ?L = Some (Inr ix)" "rx_limits ix = ?L" "registered ix = {}" "rx_next_ticket ix = 1"
    by (rule radix_new_correct [where reserve = "\<lambda>_. True"]) auto
  with L show ?thesis using that [of ix] by (simp add: radix_reachable_def)
qed

lemma prefixes_finite: "{v. prefix v t} = set (prefixes t)"
  by auto

lemma demo_verdict:
  "register_verdict \<lparr>lim_nodes = 8, lim_tokens_per_source = 4, lim_sources = 2, lim_stored_tokens = 16\<rparr> 1 {} demo_source [7, 8] = None"
proof -
  have "words_of (insert (demo_source, [7, 8], 1) {}) = {[], [7], [7, 8]}"
    unfolding words_of_insert prefixes_finite by (auto simp: words_of_def)
  then show ?thesis
    by (simp add: register_verdict_def demo_source_def request_id_new_def tokens_of_def)
qed

lemma demo_registered:
  obtains ix where "radix_reachable 8 4 2 16 [RRegister demo_source [7, 8]] ix" "registered ix = {(demo_source, [7, 8], 1)}"
proof -
  obtain ix where ix: "radix_reachable 8 4 2 16 [] ix" "registered ix = {}" "rx_next_ticket ix = 1"
    "rx_limits ix = \<lparr>lim_nodes = 8, lim_tokens_per_source = 4, lim_sources = 2, lim_stored_tokens = 16\<rparr>" by (rule demo_radix)
  obtain r ix' where s: "radix_step (RRegister demo_source [7, 8]) ix = Some (r, ix')"
    "registry_step (rx_limits ix) (rx_next_ticket ix) (registered ix) (RRegister demo_source [7, 8]) r (rx_next_ticket ix') (registered ix')"
    by (rule radix_step_correct [OF radix_reachable_inv [OF ix(1)]])
  then have "registered ix' = {(demo_source, [7, 8], 1)}" using ix demo_verdict by (simp add: registry_step_def)
  with radix_reachable_step [OF ix(1) s(1)] show ?thesis using that by simp
qed

subsection \<open>Guarantees\<close>

text \<open>C25: refinement of a registry.  Every registration, invalidation and eviction on a reachable index
  returns, although its walks follow links in arrays, and does exactly what a set of registrations would:
  a registration either reports the first capacity it would exceed, computed from the set, and
  changes nothing, or replaces the registrations of the same slot and of the same tokens and
  receives the next ticket; an invalidation removes the exact generational identity and reports whether it
  was there; an eviction removes the registration with the least ticket.\<close>

theorem radix_refines_registry:
  assumes "radix_reachable nodes tokens sources storage calls ix"
  shows "\<exists>r ix'. radix_step c ix = Some (r, ix')
     \<and> registry_step (rx_limits ix) (rx_next_ticket ix) (registered ix) c r (rx_next_ticket ix') (registered ix')
     \<and> (\<forall>e. r = Inl e \<longrightarrow> ix' = ix)"
  by (rule radix_step_correct [OF radix_reachable_inv [OF assms], of c]) blast

theorem radix_refines_registry_witness:
  "\<exists>ix ix'. radix_reachable 8 4 2 16 [] ix \<and> radix_step (RRegister demo_source [7, 8]) ix = Some (Inr Registered, ix')
     \<and> registered ix' = {(demo_source, [7, 8], 1)}"
proof -
  obtain ix where ix: "radix_reachable 8 4 2 16 [] ix" "registered ix = {}" "rx_next_ticket ix = 1"
    "rx_limits ix = \<lparr>lim_nodes = 8, lim_tokens_per_source = 4, lim_sources = 2, lim_stored_tokens = 16\<rparr>" by (rule demo_radix)
  then show ?thesis using radix_refines_registry [OF ix(1), of "RRegister demo_source [7, 8]"] demo_verdict
    by (auto simp: registry_step_def)
qed

text \<open>The lookup on any index that satisfies the invariant.\<close>

lemma longest_match_spec:
  assumes "radix_inv ix"
  shows "case longest_page_aligned_match ix query page of
      None \<Rightarrow> False
    | Some None \<Rightarrow> page = 0 \<or>
        (\<forall>d. 0 < d \<longrightarrow> d \<le> length query \<longrightarrow> d mod page = 0 \<longrightarrow> holders (registered ix) (take d query) = {})
    | Some (Some m) \<Rightarrow> 0 < rm_token_count m \<and> rm_token_count m \<le> length query \<and> rm_token_count m mod page = 0
        \<and> rm_source m \<in> holders (registered ix) (take (rm_token_count m) query)
        \<and> (\<forall>r\<in>holders (registered ix) (take (rm_token_count m) query). rm_source m \<le> r)
        \<and> (\<forall>d. rm_token_count m < d \<longrightarrow> d \<le> length query \<longrightarrow> d mod page = 0 \<longrightarrow> holders (registered ix) (take d query) = {})"
proof -
  obtain w ch where R: "radix_ok ix w ch" using assms by (auto simp: radix_inv_def)
  obtain r where r: "longest_page_aligned_match ix query page = Some r" "page = 0 \<longrightarrow> r = None"
    "0 < page \<longrightarrow> deepest (registered ix) page query 0 None r"
    by (rule longest_page_aligned_match_correct [OF R])
  have "finite (registered ix)" by (simp add: registered_def)
  moreover have "holders (registered ix) v \<subseteq> fst ` registered ix" for v by (force simp: holders_def)
  ultimately have fin: "finite (holders (registered ix) v)" for v by (metis finite_imageI finite_subset)
  show ?thesis
  proof (cases "page = 0")
    case False
    then have "deepest (registered ix) page query 0 None r" using r(3) by simp
    then consider "r = None" "\<forall>d. 0 < d \<longrightarrow> d \<le> length query \<longrightarrow> \<not> aligned (registered ix) page query d"
      | d where "0 < d" "d \<le> length query" "aligned (registered ix) page query d"
        "\<forall>d'. d < d' \<longrightarrow> d' \<le> length query \<longrightarrow> \<not> aligned (registered ix) page query d'" "r = Some (match_at (registered ix) query d)"
      unfolding deepest_def by auto
    then show ?thesis
    proof cases
      case 1
      have "holders (registered ix) (take d query) = {}" if "0 < d" "d \<le> length query" "d mod page = 0" for d
        using 1(2) that unfolding aligned_def by metis
      then show ?thesis unfolding r(1) 1(1) by simp
    next
      case (2 d)
      then show ?thesis using r(1) fin [of "take d query"] Min_in [OF fin] Min_le [OF fin]
        by (auto simp: aligned_def match_at_def)
    qed
  qed (use r in simp)
qed

text \<open>C27: the lookup.  On a reachable index \<^verbatim>\<open>longest_page_aligned_match\<close> returns; with page width zero it finds
  nothing; otherwise a result is the greatest positive multiple of the page width at which the
  tokens agree with a registered sequence, together with the least request registered for such a
  sequence, and no result means that there is no such multiple.\<close>

theorem radix_longest_match:
  assumes "radix_reachable nodes tokens sources storage calls ix"
  shows "case longest_page_aligned_match ix query page of
      None \<Rightarrow> False
    | Some None \<Rightarrow> page = 0 \<or>
        (\<forall>d. 0 < d \<longrightarrow> d \<le> length query \<longrightarrow> d mod page = 0 \<longrightarrow> holders (registered ix) (take d query) = {})
    | Some (Some m) \<Rightarrow> 0 < rm_token_count m \<and> rm_token_count m \<le> length query \<and> rm_token_count m mod page = 0
        \<and> rm_source m \<in> holders (registered ix) (take (rm_token_count m) query)
        \<and> (\<forall>r\<in>holders (registered ix) (take (rm_token_count m) query). rm_source m \<le> r)
        \<and> (\<forall>d. rm_token_count m < d \<longrightarrow> d \<le> length query \<longrightarrow> d mod page = 0 \<longrightarrow> holders (registered ix) (take d query) = {})"
  by (rule longest_match_spec [OF radix_reachable_inv [OF assms]])

theorem radix_longest_match_witness:
  "\<exists>ix m. radix_reachable 8 4 2 16 [RRegister demo_source [7, 8]] ix
     \<and> longest_page_aligned_match ix [7, 8, 9] 2 = Some (Some m) \<and> rm_token_count m = 2 \<and> rm_source m = demo_source"
proof -
  obtain ix where ix: "radix_reachable 8 4 2 16 [RRegister demo_source [7, 8]] ix" "registered ix = {(demo_source, [7, 8], 1)}"
    by (rule demo_registered)
  have h: "holders (registered ix) v = (if prefix v [7, 8] then {demo_source} else {})" for v
    unfolding ix(2) holders_def by auto
  show ?thesis
  proof (cases "longest_page_aligned_match ix [7, 8, 9] 2")
    case None
    then show ?thesis using radix_longest_match [OF ix(1), where query = "[7, 8, 9]" and page = 2] by simp
  next
    case (Some r)
    show ?thesis
    proof (cases r)
      case None
      then have "holders (registered ix) (take 2 [7, 8, 9]) = {}"
        using radix_longest_match [OF ix(1), where query = "[7, 8, 9]" and page = 2] Some by (auto dest: spec [of _ 2])
      then show ?thesis by (simp add: h)
    next
      case (Some m)
      then have m: "0 < rm_token_count m" "rm_token_count m \<le> 3" "rm_token_count m mod 2 = 0"
        "rm_source m \<in> holders (registered ix) (take (rm_token_count m) [7, 8, 9])"
        using radix_longest_match [OF ix(1), where query = "[7, 8, 9]" and page = 2] \<open>longest_page_aligned_match ix [7, 8, 9] 2 = Some r\<close> by auto
      then have "rm_token_count m = 2" by presburger
      with m(4) show ?thesis using Some ix(1) \<open>longest_page_aligned_match ix [7, 8, 9] 2 = Some r\<close>
        by (auto simp: h split: if_splits)
    qed
  qed
qed

text \<open>no node is wasted.  On a reachable index the allocated trie nodes are exactly one per distinct
  prefix of a registered sequence, and the counters are the numbers of nodes, registrations
  and registered tokens, all within the limits the index was built with; registered requests have
  distinct slots and registered sequences are distinct, nonempty and within the token limit.\<close>

theorem radix_nodes_exact:
  assumes "radix_reachable nodes tokens sources storage calls ix"
  shows "rx_node_count ix = card (words_of (registered ix)) \<and> rx_node_count ix = card {n. node_at (rx_nodes ix) n \<noteq> None}
    \<and> rx_source_count ix = card (registered ix) \<and> rx_stored_tokens ix = tokens_of (registered ix)
    \<and> rx_node_count ix \<le> lim_nodes (rx_limits ix) \<and> rx_source_count ix \<le> lim_sources (rx_limits ix)
    \<and> rx_stored_tokens ix \<le> lim_stored_tokens (rx_limits ix)
    \<and> inj_on (slot \<circ> fst) (registered ix) \<and> inj_on (fst \<circ> snd) (registered ix)
    \<and> (\<forall>(r, t, k)\<in>registered ix. t \<noteq> [] \<and> length t \<le> lim_tokens_per_source (rx_limits ix) \<and> k < rx_next_ticket ix)"
proof -
  obtain w ch where R: "radix_ok ix w ch" using radix_reachable_inv [OF assms] by (auto simp: radix_inv_def)
  note D = radix_okD [OF R] and E = sources_okD [OF radix_okD(5) [OF R]] and C = registered_counts [OF R]
  have nodes: "rx_node_count ix \<le> lim_nodes (rx_limits ix)" using card_allocated_le D(3,4) by metis
  have srcs: "rx_source_count ix \<le> lim_sources (rx_limits ix)"
    using length_somes_le [of "rx_sources ix"] E(1) D(6) by simp
  have slots: "inj_on (slot \<circ> fst) (registered ix)"
    unfolding registered_word [OF R]
    by (intro inj_on_imageI inj_onI) (use unique_by_inj [OF E(3)] in simp)
  have "rs_endpoint s = rs_endpoint t"
    if "s \<in> set (somes (rx_sources ix))" "t \<in> set (somes (rx_sources ix))" "w (rs_endpoint s) = w (rs_endpoint t)" for s t
    using that E(6) by (intro trie_inj [OF D(2)]) auto
  then have words: "inj_on (fst \<circ> snd) (registered ix)"
    unfolding registered_word [OF R]
    by (intro inj_on_imageI inj_onI) (use unique_by_inj [OF E(4)] in simp)
  have entries: "\<forall>(r, t, k)\<in>registered ix. t \<noteq> [] \<and> length t \<le> lim_tokens_per_source (rx_limits ix) \<and> k < rx_next_ticket ix"
    unfolding registered_word [OF R] using E(2) by (fastforce simp: source_ok_def)
  show ?thesis using C D(4,7,8) nodes srcs slots words entries by (simp add: allocated_def)
qed

theorem radix_nodes_exact_witness:
  "\<exists>ix. radix_reachable 8 4 2 16 [RRegister demo_source [7, 8]] ix \<and> rx_node_count ix = 3 \<and> rx_stored_tokens ix = 2"
proof -
  obtain ix where ix: "radix_reachable 8 4 2 16 [RRegister demo_source [7, 8]] ix" "registered ix = {(demo_source, [7, 8], 1)}"
    by (rule demo_registered)
  have "words_of (registered ix) = {[], [7], [7, 8]}"
    unfolding ix(2) words_of_insert prefixes_finite by (auto simp: words_of_def)
  then have "card (words_of (registered ix)) = 3" "tokens_of (registered ix) = 2" using ix(2) by (simp_all add: tokens_of_def)
  then have "rx_node_count ix = 3" "rx_stored_tokens ix = 2" using radix_nodes_exact [OF ix(1)] by simp_all
  then show ?thesis using ix(1) by blast
qed

lemma evict_all:
  "radix_inv ix \<Longrightarrow> card (registered ix) = n \<Longrightarrow> finite (registered ix) \<Longrightarrow>
     \<exists>ix'. run_ops radix_step (replicate n REvict) ix = Some ix' \<and> radix_inv ix' \<and> registered ix' = {}
       \<and> rx_limits ix' = rx_limits ix \<and> rx_next_ticket ix' = rx_next_ticket ix"
proof (induction n arbitrary: ix)
  case 0
  then show ?case by simp
next
  case (Suc n)
  obtain r ix' where s: "radix_step REvict ix = Some (r, ix')" "radix_inv ix'" "rx_limits ix' = rx_limits ix"
    "registry_step (rx_limits ix) (rx_next_ticket ix) (registered ix) REvict r (rx_next_ticket ix') (registered ix')"
    by (rule radix_step_correct [OF Suc.prems(1)])
  then have n: "card (registered ix') = n" "finite (registered ix')" "rx_next_ticket ix' = rx_next_ticket ix"
    using Suc.prems(2,3) by (auto simp: registry_step_def split: if_splits)
  from Suc.IH [OF s(2) n(1,2)] show ?case using s(1,3) n(3) by simp
qed

text \<open>C28: eviction makes room.  Repeating \<^verbatim>\<open>evict_oldest\<close> on a reachable index empties it after as many rounds as there
  are registrations, leaving only the root node; then any nonempty sequence that fits the limits by itself
  can be registered, and a lookup of that sequence at a page width dividing its length finds it whole.\<close>

theorem radix_eviction_makes_room:
  assumes "radix_reachable nodes tokens sources storage calls ix"
  shows "\<exists>ix'. run_ops radix_step (replicate (rx_source_count ix) REvict) ix = Some ix' \<and> registered ix' = {}
    \<and> rx_node_count ix' = 1 \<and> rx_stored_tokens ix' = 0 \<and> radix_step REvict ix' = Some (Inr (Evicted None), ix')
    \<and> (generation source \<noteq> 0 \<and> T \<noteq> [] \<and> length T \<le> lim_tokens_per_source (rx_limits ix)
         \<and> length T \<le> lim_stored_tokens (rx_limits ix) \<and> length T < lim_nodes (rx_limits ix)
         \<and> rx_next_ticket ix < U64_MAX \<and> 0 < page \<and> length T mod page = 0
       \<longrightarrow> (\<exists>ix''. radix_step (RRegister source T) ix' = Some (Inr Registered, ix'')
             \<and> longest_page_aligned_match ix'' T page = Some (Some \<lparr>rm_source = source, rm_token_count = length T\<rparr>)))"
proof -
  note inv = radix_reachable_inv [OF assms]
  obtain w ch where R: "radix_ok ix w ch" using inv by (auto simp: radix_inv_def)
  have fin: "finite (registered ix)" by (simp add: registered_def)
  obtain ix' where e: "run_ops radix_step (replicate (rx_source_count ix) REvict) ix = Some ix'" "radix_inv ix'"
    "registered ix' = {}" "rx_limits ix' = rx_limits ix" "rx_next_ticket ix' = rx_next_ticket ix"
    using evict_all [OF inv registered_counts(1) [OF R] fin] by blast
  obtain w' ch' where R': "radix_ok ix' w' ch'" using e(2) by (auto simp: radix_inv_def)
  have root: "rx_node_count ix' = 1" "rx_stored_tokens ix' = 0"
    using registered_counts(2,4) [OF R'] e(3) by (auto simp: words_of_def tokens_of_def)
  have again: "radix_step REvict ix' = Some (Inr (Evicted None), ix')"
    using evict_oldest_correct(1) [OF R' e(3)] by (simp add: radix_step_def)
  have "\<exists>ix''. radix_step (RRegister source T) ix' = Some (Inr Registered, ix'')
             \<and> longest_page_aligned_match ix'' T page = Some (Some \<lparr>rm_source = source, rm_token_count = length T\<rparr>)"
    if h: "generation source \<noteq> 0" "T \<noteq> []" "length T \<le> lim_tokens_per_source (rx_limits ix)"
      "length T \<le> lim_stored_tokens (rx_limits ix)" "length T < lim_nodes (rx_limits ix)"
      "rx_next_ticket ix < U64_MAX" "0 < page" "length T mod page = 0"
  proof -
    have "words_of (insert (source, T, rx_next_ticket ix) {}) = set (prefixes T)"
      unfolding words_of_insert prefixes_finite by (auto simp: words_of_def)
    then have "card (words_of (insert (source, T, rx_next_ticket ix) {})) = length T + 1"
      by (simp add: distinct_card)
    then have "register_verdict (rx_limits ix') (rx_next_ticket ix') (registered ix') source T = None"
      using h radix_okD(1) [OF R] e(3-5) by (simp add: register_verdict_def limits_ok_def tokens_of_def)
    then obtain ix2 w2 ch2 where g: "register_authenticated_source ix' \<lparr>as_source = source, as_tokens = T\<rparr> = Some (Inr (), ix2)"
      "radix_ok ix2 w2 ch2" "registered ix2 = {(source, T, rx_next_ticket ix)}"
      using register_correct [OF R', of source T] e(3,5) by auto
    obtain r where r: "longest_page_aligned_match ix2 T page = Some r" "0 < page \<longrightarrow> deepest (registered ix2) page T 0 None r"
      by (rule longest_page_aligned_match_correct [OF g(2)])
    have hold: "holders (registered ix2) T = {source}" by (auto simp: holders_def g(3))
    then have "aligned (registered ix2) page T (length T)" using h(8) by (simp add: aligned_def)
    moreover have "0 < length T" using h(2) by simp
    ultimately have "r = Some (match_at (registered ix2) T (length T))"
      using r(2) h(7) unfolding deepest_def by (metis le_neq_implies_less order.refl)
    then show ?thesis using g(1) r(1) hold by (simp add: radix_step_def match_at_def)
  qed
  then have fits: "generation source \<noteq> 0 \<and> T \<noteq> [] \<and> length T \<le> lim_tokens_per_source (rx_limits ix)
         \<and> length T \<le> lim_stored_tokens (rx_limits ix) \<and> length T < lim_nodes (rx_limits ix)
         \<and> rx_next_ticket ix < U64_MAX \<and> 0 < page \<and> length T mod page = 0
       \<longrightarrow> (\<exists>ix''. radix_step (RRegister source T) ix' = Some (Inr Registered, ix'')
             \<and> longest_page_aligned_match ix'' T page = Some (Some \<lparr>rm_source = source, rm_token_count = length T\<rparr>))" by metis
  show ?thesis by (intro exI [of _ ix'] conjI e(1,3) root again fits)
qed

theorem radix_eviction_makes_room_witness:
  "\<exists>ix ix'. radix_reachable 8 4 2 16 [RRegister demo_source [7, 8]] ix
     \<and> run_ops radix_step (replicate 1 REvict) ix = Some ix' \<and> registered ix' = {}"
proof -
  obtain ix where ix: "radix_reachable 8 4 2 16 [RRegister demo_source [7, 8]] ix" "registered ix = {(demo_source, [7, 8], 1)}"
    by (rule demo_registered)
  obtain w ch where R: "radix_ok ix w ch" using radix_reachable_inv [OF ix(1)] by (auto simp: radix_inv_def)
  have "rx_source_count ix = 1" using registered_counts(1) [OF R] ix(2) by simp
  then obtain ix' where "run_ops radix_step (replicate 1 REvict) ix = Some ix'" "registered ix' = {}"
    using radix_eviction_makes_room [OF ix(1), of demo_source "[7, 8]" 2] by auto
  then show ?thesis using ix(1) by blast
qed

end
