(* ===== verification/Radix_Share.thy ===== *)
theory Radix_Share
  imports Radix_Properties Engine_Machine
begin

text \<open>
  Sharing a prompt prefix from a live request, the call of \<^verbatim>\<open>radix_prefix.rs\<close> that joins the radix index
  to the engine.  The index only proposes: readiness and committed length of the proposed source are
  checked against the engine in the same call, stale records are dropped, and only then are the pages shared.
\<close>

datatype radix_share_outcome =
    NoMatch usize
  | Shared request_id request_id u32 usize

datatype radix_share_error =
    TargetNotReady request_id "request_state option"
  | ShareTargetNotEmpty request_id "u32 option" "u32 option"
  | SourceEqualsTarget request_id
  | ShareIndex radix_error
  | ShareEngine engine_error

text \<open>The conjunction that decides whether the source still holds the range; \<open>Inl\<close> is the early return.\<close>

definition source_has_range :: "usize \<Rightarrow> engine \<Rightarrow> request_id \<Rightarrow> u32 \<Rightarrow> (radix_share_error + bool) exec" where
  "source_has_range C e source token_count = do {
     st \<leftarrow> sched_state C (en_scheduler e) source;
     let source_committed = kv_committed_tokens (en_kv e) source;
     let source_resident = kv_resident_tokens (en_kv e) source;
     if st = Some Ready
        \<and> (case source_committed of None \<Rightarrow> False | Some c \<Rightarrow> token_count \<le> c)
        \<and> (case source_resident of None \<Rightarrow> False | Some c \<Rightarrow> token_count \<le> c)
     then do {
       v \<leftarrow> engine_validate_read e source 0 token_count;
       case v of
         Inr _ \<Rightarrow> Some (Inr True)
       | Inl EngFaulted \<Rightarrow> Some (Inl (ShareEngine EngFaulted))
       | Inl _ \<Rightarrow> Some (Inr False) }
     else Some (Inr False) }"

fun share_attempts ::
  "nat \<Rightarrow> usize \<Rightarrow> radix_index \<Rightarrow> engine \<Rightarrow> request_id \<Rightarrow> token_id list \<Rightarrow> u32 \<Rightarrow> usize \<Rightarrow>
   ((radix_share_error + radix_share_outcome) \<times> radix_index \<times> engine) exec" where
  "share_attempts 0 C ix e target tokens page invalidated = Some (Inr (NoMatch invalidated), ix, e)"
| "share_attempts (Suc n) C ix e target tokens page invalidated = do {
     found \<leftarrow> longest_page_aligned_match ix tokens page;
     case found of
       None \<Rightarrow> Some (Inr (NoMatch invalidated), ix, e)
     | Some m \<Rightarrow>
         let source = rm_source m; token_count = rm_token_count m in
         if source = target then Some (Inl (SourceEqualsTarget source), ix, e)
         else do {
           range \<leftarrow> source_has_range C e source token_count;
           case range of
             Inl err \<Rightarrow> Some (Inl err, ix, e)
           | Inr False \<Rightarrow> do {
               (removed, ix') \<leftarrow> invalidate_source ix source;
               case removed of
                 Inl err \<Rightarrow> Some (Inl (ShareIndex err), ix', e)
               | Inr False \<Rightarrow> Some (Inl (ShareIndex RadixInvariantViolation), ix', e)
               | Inr True \<Rightarrow>
                   (case usize_add invalidated 1 of
                      None \<Rightarrow> Some (Inl (ShareIndex RadixInvariantViolation), ix', e)
                    | Some invalidated' \<Rightarrow> share_attempts n C ix' e target tokens page invalidated') }
           | Inr True \<Rightarrow> do {
               (shared, e') \<leftarrow> engine_share_committed_prefix C e source target token_count;
               case shared of
                 Inl err \<Rightarrow> Some (Inl (ShareEngine err), ix, e')
               | Inr _ \<Rightarrow> Some (Inr (Shared source target token_count invalidated), ix, e') } } }"

definition share_m1_radix_prefix_from_live_source ::
  "usize \<Rightarrow> radix_index \<Rightarrow> engine \<Rightarrow> request_id \<Rightarrow> token_id list \<Rightarrow>
   ((radix_share_error + radix_share_outcome) \<times> radix_index \<times> engine) exec" where
  "share_m1_radix_prefix_from_live_source C ix e target tokens =
     (if en_faulted e then Some (Inl (ShareEngine EngFaulted), ix, e)
      else do {
        target_state \<leftarrow> sched_state C (en_scheduler e) target;
        if target_state \<noteq> Some Ready then Some (Inl (TargetNotReady target target_state), ix, e)
        else
          let target_resident = kv_resident_tokens (en_kv e) target;
              target_committed = kv_committed_tokens (en_kv e) target
          in if target_resident \<noteq> Some 0 \<or> target_committed \<noteq> Some 0
             then Some (Inl (ShareTargetNotEmpty target target_resident target_committed), ix, e)
             else share_attempts (rx_source_count ix) C ix e target tokens (kv_page_tokens (en_kv e)) 0 })"

subsection \<open>When a source is usable\<close>

definition usable :: "nat \<Rightarrow> engine \<Rightarrow> request_id \<Rightarrow> u32 \<Rightarrow> bool" where
  "usable C e q n =
     (sched_state C (en_scheduler e) q = Some (Some Ready)
      \<and> (case kv_committed_tokens (en_kv e) q of None \<Rightarrow> False | Some c \<Rightarrow> n \<le> c))"

lemma tokens_live:
  assumes "kv_inv p"
  shows "kv_resident_tokens p q = Some r \<longleftrightarrow>
           key_decision p (request_key_of q) = None \<and> r = rq_resident_tokens (kv_requests p ! slot q)"
    "kv_committed_tokens p q = Some c \<longleftrightarrow>
           key_decision p (request_key_of q) = None \<and> c = rq_committed_tokens (kv_requests p ! slot q)"
  using kv_shape [OF assms]
  by (auto simp: kv_resident_tokens_def kv_committed_tokens_def key_decision_None live_at_def idx_def request_key_of_def
      split: if_splits option.splits)

lemma source_has_range_usable:
  assumes inv: "engine_inv C e" and nf: "\<not> en_faulted e"
  shows "source_has_range C e q n = Some (Inr (usable C e q n))"
proof -
  let ?p = "en_kv e" and ?k = "request_key_of q"
  note I = engine_invD [OF inv]
  obtain st where st: "sched_state C (en_scheduler e) q = Some st" using sched_state_eq [OF I(1)] by blast
  show ?thesis
  proof (cases "key_decision ?p ?k")
    case None
    let ?r = "kv_requests ?p ! slot q"
    have tok: "kv_committed_tokens ?p q = Some (rq_committed_tokens ?r)" "kv_resident_tokens ?p q = Some (rq_resident_tokens ?r)"
      using tokens_live [OF I(2)] None by simp_all
    have l: "live_at ?p ?k (slot q) ?r" using None by (simp add: key_decision_None request_key_of_def)
    have ok: "request_ok ?p ?r" using kv_inv_request [OF I(2) live_atD(2) [OF I(2) l]] .
    then have le: "rq_committed_tokens ?r \<le> rq_resident_tokens ?r" by (simp add: request_ok_def)
    have v: "engine_validate_read e q 0 n = Some (Inr ())" if "n \<le> rq_resident_tokens ?r"
    proof -
      have "read_decision ?p ?k 0 n = None"
        using that None ok kv_shape [OF I(2)] by (simp add: read_decision_def request_ok_def request_key_of_def)
      then show ?thesis using nf validate_read_key_correct [OF I(2), of ?k 0 n]
        by (simp add: engine_validate_read_def kv_validate_read_def)
    qed
    show ?thesis using st tok le v by (auto simp: source_has_range_def usable_def Let_def)
  next
    case (Some err)
    then have "kv_committed_tokens ?p q = None" using tokens_live(2) [OF I(2), of q] by (cases "kv_committed_tokens ?p q") auto
    then show ?thesis using st by (auto simp: source_has_range_def usable_def Let_def)
  qed
qed

text \<open>Sharing from a usable source to a distinct, ready and empty target succeeds.\<close>

lemma engine_share_succeeds:
  assumes inv: "engine_inv C e" and nf: "\<not> en_faulted e" and u: "usable C e q n"
    and t: "sched_state C (en_scheduler e) target = Some (Some Ready)" "kv_resident_tokens (en_kv e) target = Some 0"
    and n: "0 < n" "n mod kv_page_tokens (en_kv e) = 0" "n \<le> U32_MAX" and qt: "q \<noteq> target"
  obtains e' where "engine_share_committed_prefix C e q target n = Some (Inr (), e')" "engine_inv C e'" "\<not> en_faulted e'"
    "kv_resident_tokens (en_kv e') target = Some n" "kv_committed_tokens (en_kv e') target = Some n"
proof -
  let ?p = "en_kv e"
  note I = engine_invD [OF inv]
  have kt: "key_decision ?p (request_key_of target) = None" "rq_resident_tokens (kv_requests ?p ! slot target) = 0"
    using t(2) tokens_live(1) [OF I(2)] by auto
  obtain c where c: "kv_committed_tokens ?p q = Some c" "n \<le> c" "sched_state C (en_scheduler e) q = Some (Some Ready)"
    using u by (auto simp: usable_def split: option.splits)
  then have kq: "key_decision ?p (request_key_of q) = None" "n \<le> rq_committed_tokens (kv_requests ?p ! slot q)"
    using tokens_live(2) [OF I(2)] by auto
  have "slot q \<noteq> slot target"
  proof
    assume "slot q = slot target"
    then have "generation q = generation target"
      using kq(1) kt(1) by (auto simp: key_decision_None live_at_def request_key_of_def)
    with \<open>slot q = slot target\<close> qt show False by (cases q; cases target) simp
  qed
  then have "share_decision ?p (request_key_of q) (request_key_of target) n = None"
    using kq kt n by (simp add: share_decision_def request_key_of_def)
  then obtain p' where p': "kv_share_committed_prefix ?p q target n = Some (Inr (), p')" "kv_inv p'"
    "prefix_shared ?p p' (slot q) (slot target) (n div kv_page_tokens ?p)"
    using share_committed_prefix_key_correct [OF I(2) n(3), of "request_key_of q" "request_key_of target"]
    by (auto simp: kv_share_committed_prefix_def request_key_of_def)
  let ?e = "e\<lparr>en_kv := p'\<rparr>"
  have run: "engine_share_committed_prefix C e q target n = Some (Inr (), ?e)"
    using nf c(3) t(1) p'(1) by (simp add: engine_share_committed_prefix_def)
  have ok: "engine_inv C ?e" using engine_share_ok [OF inv n(3), of q target] run by (simp add: engine_ok_def)
  have "key_decision p' (request_key_of target) = None"
    using kt(1) p'(3) by (auto simp: key_decision_None live_at_def request_key_of_def prefix_shared_def Let_def)
  moreover have "n div kv_page_tokens ?p * kv_page_tokens ?p = n" using n(2) by (simp add: mod_eq_0_iff_dvd)
  ultimately have "kv_resident_tokens p' target = Some n" "kv_committed_tokens p' target = Some n"
    using tokens_live [OF p'(2)] p'(3) by (auto simp: prefix_shared_def Let_def)
  then show ?thesis using that [OF run ok] nf by simp
qed

subsection \<open>The search for a usable source\<close>

text \<open>A registration whose request no longer holds the prefix it was matched for.\<close>

definition stale :: "nat \<Rightarrow> engine \<Rightarrow> token_id list \<Rightarrow> registration \<Rightarrow> bool" where
  "stale C e tokens x =
     (\<exists>d. 0 < d \<and> d \<le> length tokens \<and> prefix (take d tokens) (fst (snd x)) \<and> \<not> usable C e (fst x) d)"

definition unmatched :: "registration set \<Rightarrow> nat \<Rightarrow> token_id list \<Rightarrow> nat \<Rightarrow> bool" where
  "unmatched A page tokens n = (\<forall>d. n < d \<longrightarrow> d \<le> length tokens \<longrightarrow> d mod page = 0 \<longrightarrow> holders A (take d tokens) = {})"

text \<open>What the search may answer when it started with registrations \<open>A\<close> and ended with \<open>A'\<close>.\<close>

definition share_answer ::
  "nat \<Rightarrow> engine \<Rightarrow> request_id \<Rightarrow> token_id list \<Rightarrow> nat \<Rightarrow> nat \<Rightarrow> registration set \<Rightarrow> registration set \<Rightarrow>
   radix_share_error + radix_share_outcome \<Rightarrow> engine \<Rightarrow> bool" where
  "share_answer C e target tokens page k A A' r e' =
     (A' \<subseteq> A \<and> (\<forall>x\<in>A - A'. stale C e tokens x)
      \<and> (case r of
           Inl err \<Rightarrow> err = SourceEqualsTarget target \<and> e' = e \<and> target \<in> fst ` A'
         | Inr (NoMatch j) \<Rightarrow> e' = e \<and> j = k + card (A - A') \<and> unmatched A' page tokens 0
         | Inr (Shared q t n j) \<Rightarrow>
             t = target \<and> q \<noteq> target \<and> j = k + card (A - A')
             \<and> 0 < n \<and> n \<le> length tokens \<and> n mod page = 0 \<and> unmatched A' page tokens n
             \<and> q \<in> holders A' (take n tokens) \<and> (\<forall>q'\<in>holders A' (take n tokens). q \<le> q') \<and> usable C e q n
             \<and> engine_share_committed_prefix C e q target n = Some (Inr (), e')
             \<and> kv_resident_tokens (en_kv e') target = Some n \<and> kv_committed_tokens (en_kv e') target = Some n))"

lemma registered_finite [simp]: "finite (registered ix)"
  by (simp add: registered_def)

lemma registered_slots:
  assumes "radix_inv ix" "x \<in> registered ix" "y \<in> registered ix" "fst x = fst y"
  shows "x = y"
proof -
  obtain w ch where R: "radix_ok ix w ch" using assms(1) by (auto simp: radix_inv_def)
  obtain s t where "s \<in> set (somes (rx_sources ix))" "t \<in> set (somes (rx_sources ix))"
    "x = registration_of w s" "y = registration_of w t" using assms(2,3) unfolding registered_word [OF R] by blast
  then show ?thesis using assms(4) unique_by_inj [OF sources_okD(3) [OF radix_okD(5) [OF R]], of s t] by simp
qed

lemma share_attempts_correct:
  assumes e: "engine_inv C e" "\<not> en_faulted e"
    and t: "sched_state C (en_scheduler e) target = Some (Some Ready)" "kv_resident_tokens (en_kv e) target = Some 0"
    and ix: "radix_inv ix" "card (registered ix) \<le> n" "k + n \<le> U64_MAX"
  defines "page \<equiv> kv_page_tokens (en_kv e)"
  shows "\<exists>r ix' e'. share_attempts n C ix e target tokens page k = Some (r, ix', e') \<and> radix_inv ix' \<and> engine_inv C e'
    \<and> share_answer C e target tokens page k (registered ix) (registered ix') r e'"
  using ix
proof (induction n arbitrary: ix k)
  case 0
  then have "registered ix = {}" by simp
  then show ?case using 0 e by (simp add: share_answer_def unmatched_def holders_def)
next
  case (Suc n)
  have page: "0 < page" using kv_shape(1) [OF engine_invD(2) [OF e(1)]] by (simp add: page_def)
  note M = longest_match_spec [OF Suc.prems(1), where query = tokens and page = page]
  show ?case
  proof (cases "longest_page_aligned_match ix tokens page")
    case None
    then show ?thesis using M by simp
  next
    case (Some found)
    show ?thesis
    proof (cases found)
      case None
      then show ?thesis using Some M page Suc.prems e by (auto simp: share_answer_def unmatched_def)
    next
      case (Some m)
      let ?q = "rm_source m" and ?d = "rm_token_count m" and ?A = "registered ix"
      have m: "0 < ?d" "?d \<le> length tokens" "?d mod page = 0" "?q \<in> holders ?A (take ?d tokens)"
        "\<forall>r\<in>holders ?A (take ?d tokens). ?q \<le> r" "unmatched ?A page tokens ?d"
        using M \<open>longest_page_aligned_match ix tokens page = Some found\<close> Some by (simp_all add: unmatched_def)
      obtain x where x: "x \<in> ?A" "fst x = ?q" "prefix (take ?d tokens) (fst (snd x))"
        using m(4) by (force simp: holders_def)
      note start = \<open>longest_page_aligned_match ix tokens page = Some found\<close> Some source_has_range_usable [OF e, of ?q ?d]
      consider "?q = target" | "?q \<noteq> target" "usable C e ?q ?d" | "?q \<noteq> target" "\<not> usable C e ?q ?d" by blast
      then show ?thesis
      proof cases
        case 1
        then have "target \<in> fst ` ?A" using x by force
        then show ?thesis using 1 start Suc.prems e by (auto simp: share_answer_def Let_def)
      next
        case 2
        obtain w ch where R: "radix_ok ix w ch" using Suc.prems(1) by (auto simp: radix_inv_def)
        have "?d \<le> M1_MAX_CONTEXT_TOKENS" using holders_length(1) [OF R, of "take ?d tokens"] m(2,4) by auto
        then have "?d \<le> U32_MAX" by (simp add: M1_MAX_CONTEXT_TOKENS_def)
        then obtain e' where e': "engine_share_committed_prefix C e ?q target ?d = Some (Inr (), e')" "engine_inv C e'" "\<not> en_faulted e'"
          "kv_resident_tokens (en_kv e') target = Some ?d" "kv_committed_tokens (en_kv e') target = Some ?d"
          using engine_share_succeeds [OF e 2(2) t m(1) m(3) [unfolded page_def] _ 2(1)] by blast
        then show ?thesis using 2 start m Suc.prems
          by (intro exI [of _ "Inr (Shared ?q target ?d k)"] exI [of _ ix] exI [of _ e']) (simp add: share_answer_def Let_def)
      next
        case 3
        obtain w ch where R: "radix_ok ix w ch" using Suc.prems(1) by (auto simp: radix_inv_def)
        obtain ix' ch' where inv: "invalidate_source ix ?q = Some (Inr (?q \<in> fst ` ?A), ix')" "radix_ok ix' w ch'"
          "registered ix' = {r \<in> ?A. fst r \<noteq> ?q}" by (rule invalidate_source_correct [OF R])
        have "fst y = ?q \<longleftrightarrow> y = x" if "y \<in> ?A" for y
          using registered_slots [OF Suc.prems(1) that x(1)] x(2) by auto
        then have rm: "registered ix' = ?A - {x}" unfolding inv(3) by auto
        have "?q \<in> fst ` ?A" using x by force
        then have step: "share_attempts (Suc n) C ix e target tokens page k = share_attempts n C ix' e target tokens page (k + 1)"
          using 3 start inv(1) Suc.prems(3) by (simp add: Let_def exec_simps)
        have "radix_inv ix'" "card (registered ix') \<le> n" "k + 1 + n \<le> U64_MAX"
          using inv(2) Suc.prems rm x(1) by (auto simp: radix_inv_def)
        from Suc.IH [OF this] obtain r ix2 e2 where
          h: "share_attempts n C ix' e target tokens page (k + 1) = Some (r, ix2, e2)" "radix_inv ix2" "engine_inv C e2"
             "share_answer C e target tokens page (k + 1) (registered ix') (registered ix2) r e2" by blast
        have sub: "registered ix2 \<subseteq> ?A - {x}" using h(4) rm by (simp add: share_answer_def)
        then have dif: "?A - registered ix2 = insert x (?A - {x} - registered ix2)" using x(1) by auto
        have cnt: "card (?A - registered ix2) = Suc (card (registered ix' - registered ix2))"
          unfolding dif rm by (subst card_insert_disjoint) auto
        have "stale C e tokens x" using x m(1,2) 3(2) unfolding stale_def by metis
        then have st: "\<forall>y\<in>?A - registered ix2. stale C e tokens y"
          using h(4) dif rm by (auto simp: share_answer_def)
        have "share_answer C e target tokens page k ?A (registered ix2) r e2"
          using h(4) sub st cnt by (auto simp: share_answer_def split: sum.splits radix_share_outcome.splits)
        then show ?thesis unfolding step using h(1-3) by blast
      qed
    qed
  qed
qed

lemma share_correct:
  assumes e: "engine_inv C e" and ix: "radix_inv ix"
  shows "\<exists>r ix' e'. share_m1_radix_prefix_from_live_source C ix e target tokens = Some (r, ix', e')
    \<and> radix_inv ix' \<and> engine_inv C e'
    \<and> (if en_faulted e then r = Inl (ShareEngine EngFaulted) \<and> ix' = ix \<and> e' = e
       else if sched_state C (en_scheduler e) target \<noteq> Some (Some Ready)
       then (\<exists>st. r = Inl (TargetNotReady target st)) \<and> ix' = ix \<and> e' = e
       else if kv_resident_tokens (en_kv e) target \<noteq> Some 0
       then (\<exists>a b. r = Inl (ShareTargetNotEmpty target a b)) \<and> ix' = ix \<and> e' = e
       else share_answer C e target tokens (kv_page_tokens (en_kv e)) 0 (registered ix) (registered ix') r e')"
proof -
  obtain st where st: "sched_state C (en_scheduler e) target = Some st" using sched_state_eq [OF engine_invD(1) [OF e]] by blast
  obtain w ch where R: "radix_ok ix w ch" using ix by (auto simp: radix_inv_def)
  have n: "card (registered ix) \<le> rx_source_count ix" "0 + rx_source_count ix \<le> U64_MAX"
    using registered_counts(1) [OF R] radix_okD(1,6) [OF R] length_somes_le [of "rx_sources ix"]
      sources_okD(1) [OF radix_okD(5) [OF R]] by (simp_all add: limits_ok_def)
  show ?thesis
  proof (cases "en_faulted e \<or> st \<noteq> Some Ready \<or> kv_resident_tokens (en_kv e) target \<noteq> Some 0")
    case True
    then show ?thesis using st e ix by (auto simp: share_m1_radix_prefix_from_live_source_def Let_def)
  next
    case False
    then have nf: "\<not> en_faulted e" and rd: "sched_state C (en_scheduler e) target = Some (Some Ready)"
      and z: "kv_resident_tokens (en_kv e) target = Some 0" using st by auto
    note l = z [unfolded tokens_live(1) [OF engine_invD(2) [OF e]]]
    have "live_at (en_kv e) (request_key_of target) (slot target) (kv_requests (en_kv e) ! slot target)"
      using l by (simp add: key_decision_None request_key_of_def)
    then have "request_ok (en_kv e) (kv_requests (en_kv e) ! slot target)"
      using kv_inv_request [OF engine_invD(2) [OF e]] live_atD(2) [OF engine_invD(2) [OF e]] by blast
    then have "kv_committed_tokens (en_kv e) target = Some 0"
      using l tokens_live(2) [OF engine_invD(2) [OF e], of target] by (simp add: request_ok_def)
    with share_attempts_correct [OF e nf rd z ix n, where tokens = tokens] nf rd z show ?thesis
      by (auto simp: share_m1_radix_prefix_from_live_source_def Let_def)
  qed
qed

end
