(* ===== verification/Sha256.thy ===== *)
theory Sha256
  imports Prelude
begin

text \<open>
  The streaming hash of \<^verbatim>\<open>ferric-build/src/sha256.rs\<close>, with which artifact identities are computed.  Bytes are
  8-bit words and the state is made of 32-bit words, whose addition wraps as \<^verbatim>\<open>wrapping_add\<close> does; the byte count
  is a checked 64-bit integer.  The outer loop of \<open>update\<close> would not end with a full buffer and is
  therefore a \<^theory_text>\<open>partial_function\<close>.
\<close>

type_synonym byte = "8 word"

definition rotate_right :: "32 word \<Rightarrow> nat \<Rightarrow> 32 word" where
  "rotate_right value n = drop_bit n value XOR push_bit (32 - n) value"

definition INITIAL_STATE :: "32 word list" where
  "INITIAL_STATE =
     [0x6a09e667, 0xbb67ae85, 0x3c6ef372, 0xa54ff53a, 0x510e527f, 0x9b05688c, 0x1f83d9ab, 0x5be0cd19]"

definition ROUND_CONSTANTS :: "32 word list" where
  "ROUND_CONSTANTS =
     [0x428a2f98, 0x71374491, 0xb5c0fbcf, 0xe9b5dba5, 0x3956c25b, 0x59f111f1, 0x923f82a4, 0xab1c5ed5]
      @ [0xd807aa98, 0x12835b01, 0x243185be, 0x550c7dc3, 0x72be5d74, 0x80deb1fe, 0x9bdc06a7, 0xc19bf174]
      @ [0xe49b69c1, 0xefbe4786, 0x0fc19dc6, 0x240ca1cc, 0x2de92c6f, 0x4a7484aa, 0x5cb0a9dc, 0x76f988da]
      @ [0x983e5152, 0xa831c66d, 0xb00327c8, 0xbf597fc7, 0xc6e00bf3, 0xd5a79147, 0x06ca6351, 0x14292967]
      @ [0x27b70a85, 0x2e1b2138, 0x4d2c6dfc, 0x53380d13, 0x650a7354, 0x766a0abb, 0x81c2c92e, 0x92722c85]
      @ [0xa2bfe8a1, 0xa81a664b, 0xc24b8b70, 0xc76c51a3, 0xd192e819, 0xd6990624, 0xf40e3585, 0x106aa070]
      @ [0x19a4c116, 0x1e376c08, 0x2748774c, 0x34b0bcb5, 0x391c0cb3, 0x4ed8aa4a, 0x5b9cca4f, 0x682e6ff3]
      @ [0x748f82ee, 0x78a5636f, 0x84c87814, 0x8cc70208, 0x90befffa, 0xa4506ceb, 0xbef9a3f7, 0xc67178f2]"

record sha256 =
  sh_state :: "32 word list"
  sh_buffer :: "byte list"
  sh_buffered :: usize
  sh_byte_len :: u64

definition sha256_new :: sha256 where
  "sha256_new = \<lparr>sh_state = INITIAL_STATE, sh_buffer = replicate 64 0, sh_buffered = 0, sh_byte_len = 0\<rparr>"

subsection \<open>Compression\<close>

definition word_of_bytes :: "byte \<Rightarrow> byte \<Rightarrow> byte \<Rightarrow> byte \<Rightarrow> 32 word" where
  "word_of_bytes b0 b1 b2 b3 =
     push_bit 24 (ucast b0) OR push_bit 16 (ucast b1) OR push_bit 8 (ucast b2) OR ucast b3"

fun schedule_load :: "nat \<Rightarrow> usize \<Rightarrow> byte list \<Rightarrow> 32 word list \<Rightarrow> 32 word list exec" where
  "schedule_load 0 index block schedule = Some schedule"
| "schedule_load (Suc n) index block schedule = do {
     b0 \<leftarrow> idx block (index * 4);
     b1 \<leftarrow> idx block (index * 4 + 1);
     b2 \<leftarrow> idx block (index * 4 + 2);
     b3 \<leftarrow> idx block (index * 4 + 3);
     schedule' \<leftarrow> upd schedule index (word_of_bytes b0 b1 b2 b3);
     schedule_load n (index + 1) block schedule' }"

fun schedule_extend :: "nat \<Rightarrow> usize \<Rightarrow> 32 word list \<Rightarrow> 32 word list exec" where
  "schedule_extend 0 index schedule = Some schedule"
| "schedule_extend (Suc n) index schedule = do {
     i15 \<leftarrow> u_sub index 15; w15 \<leftarrow> idx schedule i15;
     let sigma0 = rotate_right w15 7 XOR rotate_right w15 18 XOR drop_bit 3 w15;
     i2 \<leftarrow> u_sub index 2; w2 \<leftarrow> idx schedule i2;
     let sigma1 = rotate_right w2 17 XOR rotate_right w2 19 XOR drop_bit 10 w2;
     i16 \<leftarrow> u_sub index 16; w16 \<leftarrow> idx schedule i16;
     i7 \<leftarrow> u_sub index 7; w7 \<leftarrow> idx schedule i7;
     schedule' \<leftarrow> upd schedule index (w16 + sigma0 + w7 + sigma1);
     schedule_extend n (index + 1) schedule' }"

type_synonym working = "32 word \<times> 32 word \<times> 32 word \<times> 32 word \<times> 32 word \<times> 32 word \<times> 32 word \<times> 32 word"

fun compress_rounds :: "nat \<Rightarrow> usize \<Rightarrow> 32 word list \<Rightarrow> working \<Rightarrow> working exec" where
  "compress_rounds 0 index schedule v = Some v"
| "compress_rounds (Suc n) index schedule (a, b, c, d, e, f, g, h) = do {
     let sum1 = rotate_right e 6 XOR rotate_right e 11 XOR rotate_right e 25;
     let choice = (e AND f) XOR (NOT e AND g);
     k \<leftarrow> idx ROUND_CONSTANTS index;
     w \<leftarrow> idx schedule index;
     let temporary1 = h + sum1 + choice + k + w;
     let sum0 = rotate_right a 2 XOR rotate_right a 13 XOR rotate_right a 22;
     let majority = (a AND b) XOR (a AND c) XOR (b AND c);
     let temporary2 = sum0 + majority;
     compress_rounds n (index + 1) schedule (temporary1 + temporary2, a, b, c, d + temporary1, e, f, g) }"

fun add_values :: "nat \<Rightarrow> usize \<Rightarrow> 32 word list \<Rightarrow> 32 word list \<Rightarrow> 32 word list exec" where
  "add_values 0 index values state = Some state"
| "add_values (Suc n) index values state = do {
     s \<leftarrow> idx state index;
     v \<leftarrow> idx values index;
     state' \<leftarrow> upd state index (s + v);
     add_values n (index + 1) values state' }"

definition compress :: "32 word list \<Rightarrow> byte list \<Rightarrow> 32 word list exec" where
  "compress state block = do {
     schedule0 \<leftarrow> schedule_load 16 0 block (replicate 64 0);
     schedule \<leftarrow> schedule_extend 48 16 schedule0;
     a \<leftarrow> idx state 0; b \<leftarrow> idx state 1; c \<leftarrow> idx state 2; d \<leftarrow> idx state 3;
     e \<leftarrow> idx state 4; f \<leftarrow> idx state 5; g \<leftarrow> idx state 6; h \<leftarrow> idx state 7;
     (a', b', c', d', e', f', g', h') \<leftarrow> compress_rounds 64 0 schedule (a, b, c, d, e, f, g, h);
     add_values 8 0 [a', b', c', d', e', f', g', h'] state }"

subsection \<open>Streaming\<close>

text \<open>Copying \<open>n\<close> elements from \<open>source\<close> at \<open>offset + index\<close> to \<open>block\<close> at \<open>index\<close>.\<close>

fun copy_block :: "nat \<Rightarrow> usize \<Rightarrow> usize \<Rightarrow> byte list \<Rightarrow> byte list \<Rightarrow> byte list exec" where
  "copy_block 0 index offset source block = Some block"
| "copy_block (Suc n) index offset source block = do {
     b \<leftarrow> idx source (offset + index);
     block' \<leftarrow> upd block index b;
     copy_block n (index + 1) offset source block' }"

fun buffer_bytes :: "nat \<Rightarrow> byte list \<Rightarrow> usize \<Rightarrow> sha256 \<Rightarrow> sha256 exec" where
  "buffer_bytes 0 bytes offset this = Some this"
| "buffer_bytes (Suc n) bytes offset this = do {
     b \<leftarrow> idx bytes offset;
     buffer' \<leftarrow> upd (sh_buffer this) (sh_buffered this) b;
     let this1 = this\<lparr>sh_buffer := buffer', sh_buffered := sh_buffered this + 1\<rparr>;
     this2 \<leftarrow> (if sh_buffered this1 = 64 then do {
                 state' \<leftarrow> compress (sh_state this1) (sh_buffer this1);
                 Some (this1\<lparr>sh_state := state', sh_buffered := 0\<rparr>) }
               else Some this1);
     buffer_bytes n bytes (offset + 1) this2 }"

partial_function (option) update_loop :: "byte list \<Rightarrow> usize \<Rightarrow> sha256 \<Rightarrow> sha256 exec" where
  "update_loop bytes offset this =
     (if offset < length bytes then
        if sh_buffered this = 0 \<and> 64 \<le> length bytes - offset then
          Option.bind (copy_block 64 0 offset bytes (replicate 64 0)) (\<lambda>block.
          Option.bind (compress (sh_state this) block) (\<lambda>state'.
          update_loop bytes (offset + 64) (this\<lparr>sh_state := state'\<rparr>)))
        else
          Option.bind (u_sub 64 (sh_buffered this)) (\<lambda>to_boundary.
            let remaining = length bytes - offset;
                n = (if remaining < to_boundary then remaining else to_boundary) in
            Option.bind (buffer_bytes n bytes offset this) (\<lambda>this'.
            update_loop bytes (offset + n) this'))
      else Some this)"

definition sha256_update :: "sha256 \<Rightarrow> byte list \<Rightarrow> sha256 exec" where
  "sha256_update this bytes = do {
     byte_len \<leftarrow> u64_add (sh_byte_len this) (length bytes);
     update_loop bytes 0 (this\<lparr>sh_byte_len := byte_len\<rparr>) }"

subsection \<open>Padding and digest\<close>

fun fill_tail :: "nat \<Rightarrow> usize \<Rightarrow> usize \<Rightarrow> u64 \<Rightarrow> byte list \<Rightarrow> usize \<Rightarrow> byte list \<Rightarrow> byte list exec" where
  "fill_tail 0 index tail_len bit_len buffer buffered tail = Some tail"
| "fill_tail (Suc n) index tail_len bit_len buffer buffered tail = do {
     b \<leftarrow> (if index < buffered then idx buffer index
          else if index = buffered then Some 0x80
          else if index < tail_len - 8 then Some 0
          else let length_index = index - (tail_len - 8) in
            do { shift \<leftarrow> u_sub 56 (length_index * 8); Some (word_of_nat (bit_len div 2 ^ shift mod 256)) });
     tail' \<leftarrow> upd tail index b;
     fill_tail n (index + 1) tail_len bit_len buffer buffered tail' }"

fun digest_bytes :: "nat \<Rightarrow> usize \<Rightarrow> 32 word list \<Rightarrow> byte list \<Rightarrow> byte list exec" where
  "digest_bytes 0 index state digest = Some digest"
| "digest_bytes (Suc n) index state digest = do {
     w \<leftarrow> idx state (index div 4);
     let b = (if index mod 4 = 0 then ucast (drop_bit 24 w)
              else if index mod 4 = 1 then ucast (drop_bit 16 w)
              else if index mod 4 = 2 then ucast (drop_bit 8 w)
              else ucast w);
     digest' \<leftarrow> upd digest index b;
     digest_bytes n (index + 1) state digest' }"

definition sha256_finish :: "sha256 \<Rightarrow> byte list exec" where
  "sha256_finish this = do {
     bit_len \<leftarrow> u_mul U64_MAX (sh_byte_len this) 8;
     let tail_len = (if sh_buffered this < 56 then 64 else 128);
     tail \<leftarrow> fill_tail tail_len 0 tail_len bit_len (sh_buffer this) (sh_buffered this) (replicate 128 0);
     block \<leftarrow> copy_block 64 0 0 tail (replicate 64 0);
     state1 \<leftarrow> compress (sh_state this) block;
     state2 \<leftarrow> (if tail_len = 128 then do {
                  block2 \<leftarrow> copy_block 64 0 64 tail block;
                  compress state1 block2 }
                else Some state1);
     digest_bytes 32 0 state2 (replicate 32 0) }"

definition sha256_digest :: "byte list \<Rightarrow> byte list exec" where
  "sha256_digest bytes = do { this \<leftarrow> sha256_update sha256_new bytes; sha256_finish this }"

end
