(* ===== verification/Sha256_Fips.thy ===== *)
theory Sha256_Fips
  imports Complex_Main Sha256
begin

text \<open>
  The SHA-256 of FIPS 180-4 on whole messages: padding to whole blocks, a message schedule that grows by appending,
  and a fold of the compression function.  The in-place compression of the code is proved equal to the one of the
  standard; its loops are instances of filling an array from a function.
\<close>

subsection \<open>The standard\<close>

definition big_sigma0 :: "32 word \<Rightarrow> 32 word" where
  "big_sigma0 x = word_rotr 2 x XOR word_rotr 13 x XOR word_rotr 22 x"

definition big_sigma1 :: "32 word \<Rightarrow> 32 word" where
  "big_sigma1 x = word_rotr 6 x XOR word_rotr 11 x XOR word_rotr 25 x"

definition small_sigma0 :: "32 word \<Rightarrow> 32 word" where
  "small_sigma0 x = word_rotr 7 x XOR word_rotr 18 x XOR drop_bit 3 x"

definition small_sigma1 :: "32 word \<Rightarrow> 32 word" where
  "small_sigma1 x = word_rotr 17 x XOR word_rotr 19 x XOR drop_bit 10 x"

definition Ch :: "32 word \<Rightarrow> 32 word \<Rightarrow> 32 word \<Rightarrow> 32 word" where
  "Ch x y z = (x AND y) XOR (NOT x AND z)"

definition Maj :: "32 word \<Rightarrow> 32 word \<Rightarrow> 32 word \<Rightarrow> 32 word" where
  "Maj x y z = (x AND y) XOR (x AND z) XOR (y AND z)"

fun fips_extend :: "nat \<Rightarrow> 32 word list \<Rightarrow> 32 word list" where
  "fips_extend 0 W = W"
| "fips_extend (Suc n) W =
     (let t = length W in
      fips_extend n (W @ [small_sigma1 (W ! (t - 2)) + W ! (t - 7) + small_sigma0 (W ! (t - 15)) + W ! (t - 16)]))"

definition fips_words :: "byte list \<Rightarrow> 32 word list" where
  "fips_words block = map (\<lambda>i. word_rcat (take 4 (drop (4 * i) block))) [0..<16]"

definition fips_schedule :: "byte list \<Rightarrow> 32 word list" where
  "fips_schedule block = fips_extend 48 (fips_words block)"

fun fips_round :: "working \<Rightarrow> 32 word \<times> 32 word \<Rightarrow> working" where
  "fips_round (a, b, c, d, e, f, g, h) (k, w) =
     (let T1 = h + big_sigma1 e + Ch e f g + k + w; T2 = big_sigma0 a + Maj a b c
      in (T1 + T2, a, b, c, d + T1, e, f, g))"

fun working_list :: "working \<Rightarrow> 32 word list" where
  "working_list (a, b, c, d, e, f, g, h) = [a, b, c, d, e, f, g, h]"

text \<open>The constants of the standard are the first 32 bits of the fractional parts of the cube roots of the first 64
  primes, and of the square roots of the first 8; \<open>word_of_nat\<close> drops the integral part.\<close>

definition fips_primes :: "nat list" where
  "fips_primes =
     [2, 3, 5, 7, 11, 13, 17, 19, 23, 29, 31, 37, 41, 43, 47, 53,
      59, 61, 67, 71, 73, 79, 83, 89, 97, 101, 103, 107, 109, 113, 127, 131,
      137, 139, 149, 151, 157, 163, 167, 173, 179, 181, 191, 193, 197, 199, 211, 223,
      227, 229, 233, 239, 241, 251, 257, 263, 269, 271, 277, 281, 283, 293, 307, 311]"

definition root_fraction :: "nat \<Rightarrow> nat \<Rightarrow> 32 word" where
  "root_fraction e p = word_of_nat (nat \<lfloor>root e (real p) * 2 ^ 32\<rfloor>)"

definition fips_K :: "32 word list" where "fips_K = map (root_fraction 3) fips_primes"

definition fips_H :: "32 word list" where "fips_H = map (root_fraction 2) (take 8 fips_primes)"

definition fips_compress :: "32 word list \<Rightarrow> byte list \<Rightarrow> 32 word list" where
  "fips_compress H block =
     map2 (+) H (working_list (foldl fips_round (H ! 0, H ! 1, H ! 2, H ! 3, H ! 4, H ! 5, H ! 6, H ! 7)
                                (zip fips_K (fips_schedule block))))"

definition blocks :: "byte list \<Rightarrow> byte list list" where
  "blocks M = map (\<lambda>i. take 64 (drop (64 * i) M)) [0..<length M div 64]"

definition length_bytes :: "nat \<Rightarrow> byte list" where
  "length_bytes bits = map (\<lambda>i. word_of_nat (bits div 2 ^ (56 - 8 * i) mod 256)) [0..<8]"

definition fips_pad :: "byte list \<Rightarrow> byte list" where
  "fips_pad M = M @ [0x80] @ replicate ((119 - length M mod 64) mod 64) 0 @ length_bytes (8 * length M)"

definition word_bytes :: "32 word \<Rightarrow> byte list" where
  "word_bytes w = [ucast (drop_bit 24 w), ucast (drop_bit 16 w), ucast (drop_bit 8 w), ucast w]"

definition fips_sha256 :: "byte list \<Rightarrow> byte list" where
  "fips_sha256 M = concat (map word_bytes (foldl fips_compress fips_H (blocks (fips_pad M))))"

subsection \<open>The constants\<close>

text \<open>The roots with 32 bits after the point, rounded down.\<close>

definition cube_roots :: "nat list" where
  "cube_roots =
     [0x1428a2f98, 0x171374491, 0x1b5c0fbcf, 0x1e9b5dba5, 0x23956c25b, 0x259f111f1, 0x2923f82a4, 0x2ab1c5ed5,
      0x2d807aa98, 0x312835b01, 0x3243185be, 0x3550c7dc3, 0x372be5d74, 0x380deb1fe, 0x39bdc06a7, 0x3c19bf174,
      0x3e49b69c1, 0x3efbe4786, 0x40fc19dc6, 0x4240ca1cc, 0x42de92c6f, 0x44a7484aa, 0x45cb0a9dc, 0x476f988da,
      0x4983e5152, 0x4a831c66d, 0x4b00327c8, 0x4bf597fc7, 0x4c6e00bf3, 0x4d5a79147, 0x506ca6351, 0x514292967,
      0x527b70a85, 0x52e1b2138, 0x54d2c6dfc, 0x553380d13, 0x5650a7354, 0x5766a0abb, 0x581c2c92e, 0x592722c85,
      0x5a2bfe8a1, 0x5a81a664b, 0x5c24b8b70, 0x5c76c51a3, 0x5d192e819, 0x5d6990624, 0x5f40e3585, 0x6106aa070,
      0x619a4c116, 0x61e376c08, 0x62748774c, 0x634b0bcb5, 0x6391c0cb3, 0x64ed8aa4a, 0x65b9cca4f, 0x6682e6ff3,
      0x6748f82ee, 0x678a5636f, 0x684c87814, 0x68cc70208, 0x690befffa, 0x6a4506ceb, 0x6bef9a3f7, 0x6c67178f2]"

definition square_roots :: "nat list" where
  "square_roots = [0x16a09e667, 0x1bb67ae85, 0x23c6ef372, 0x2a54ff53a, 0x3510e527f, 0x39b05688c, 0x41f83d9ab, 0x45be0cd19]"

lemma root_fraction_eq:
  assumes "0 < e" "n ^ e \<le> p * (2 ^ 32) ^ e" "p * (2 ^ 32) ^ e < (n + 1) ^ e"
  shows "root_fraction e p = word_of_nat n"
proof -
  have r: "root e (real (p * (2 ^ 32) ^ e)) = root e (real p) * 2 ^ 32"
    using assms(1) by (simp add: real_root_mult real_root_power_cancel)
  have "root e (real (n ^ e)) \<le> root e (real (p * (2 ^ 32) ^ e))"
    using assms(1,2) by (simp only: real_root_le_iff of_nat_le_iff)
  moreover have "root e (real (p * (2 ^ 32) ^ e)) < root e (real ((n + 1) ^ e))"
    using assms(1,3) by (simp only: real_root_less_iff of_nat_less_iff)
  moreover have m: "root e (real (m ^ e)) = real m" for m using assms(1) by (simp add: real_root_power_cancel)
  ultimately have "real n \<le> root e (real p) * 2 ^ 32" "root e (real p) * 2 ^ 32 < real (n + 1)" unfolding r m by simp_all
  then have "\<lfloor>root e (real p) * 2 ^ 32\<rfloor> = int n" by (intro floor_unique) simp_all
  then show ?thesis by (simp add: root_fraction_def)
qed

lemma root_fractions:
  assumes "0 < e" "list_all2 (\<lambda>p n. n ^ e \<le> p * (2 ^ 32) ^ e \<and> p * (2 ^ 32) ^ e < (n + 1) ^ e) ps ns"
  shows "map (root_fraction e) ps = map word_of_nat ns"
  using assms(2) by (induction rule: list_all2_induct) (simp_all add: root_fraction_eq [OF assms(1)])

lemma fips_K_eq: "fips_K = ROUND_CONSTANTS"
proof -
  have "list_all2 (\<lambda>p n. n ^ 3 \<le> p * (2 ^ 32) ^ 3 \<and> p * (2 ^ 32) ^ 3 < (n + 1) ^ 3) fips_primes cube_roots"
    by (simp add: fips_primes_def cube_roots_def)
  moreover have "map word_of_nat cube_roots = ROUND_CONSTANTS" by (simp add: cube_roots_def ROUND_CONSTANTS_def)
  ultimately show ?thesis using root_fractions [of 3 fips_primes cube_roots] by (simp add: fips_K_def)
qed

lemma fips_H_eq: "fips_H = INITIAL_STATE"
proof -
  have "list_all2 (\<lambda>p n. n ^ 2 \<le> p * (2 ^ 32) ^ 2 \<and> p * (2 ^ 32) ^ 2 < (n + 1) ^ 2) (take 8 fips_primes) square_roots"
    by (simp add: fips_primes_def square_roots_def)
  moreover have "map word_of_nat square_roots = INITIAL_STATE" by (simp add: square_roots_def INITIAL_STATE_def)
  ultimately show ?thesis using root_fractions [of 2 "take 8 fips_primes" square_roots] by (simp add: fips_H_def)
qed

subsection \<open>Words\<close>

lemma rotate_right_word_rotr: "0 < n \<Longrightarrow> n < 32 \<Longrightarrow> rotate_right w n = word_rotr n w"
proof (rule bit_eqI)
  fix k assume n: "0 < n" "n < 32" and k: "possible_bit TYPE(32 word) k"
  then have k32: "k < 32" by simp
  have "bit (rotate_right w n) k \<longleftrightarrow> bit w (k + n) \<noteq> (32 - n \<le> k \<and> bit w (k - (32 - n)))"
    using k32 by (simp add: rotate_right_def bit_simps add.commute [of k n])
  also have "\<dots> \<longleftrightarrow> bit w ((k + n) mod 32)"
  proof (cases "k + n < 32")
    case False
    then have "(k + n) mod 32 = k - (32 - n)" using k32 n by (simp add: mod_if)
    moreover have "\<not> bit w (k + n)" using False by (auto dest: bit_imp_le_length)
    ultimately show ?thesis using False n by (simp add: le_diff_conv)
  qed auto
  also have "\<dots> \<longleftrightarrow> bit (word_rotr n w) k" using k32 by (simp add: bit_word_rotr_iff)
  finally show "bit (rotate_right w n) k \<longleftrightarrow> bit (word_rotr n w) k" .
qed

lemma word_of_bytes_rcat: "word_of_bytes b0 b1 b2 b3 = word_rcat [b0, b1, b2, b3]"
proof (rule bit_eqI)
  fix n assume "possible_bit TYPE(32 word) n"
  then have n: "n < 32" by simp
  have b: "bit (b :: byte) i \<Longrightarrow> i < 8" for b i by (drule bit_imp_le_length) simp
  have r: "bit (word_rcat [b0, b1, b2, b3] :: 32 word) n \<longleftrightarrow> bit ([b3, b2, b1, b0] ! (n div 8)) (n mod 8)"
    using n bit_horner_sum_uint_exp_iff [of "[b3, b2, b1, b0]" n]
    by (simp add: word_rcat_def bit_word_of_int_iff less_mult_imp_div_less del: horner_sum_simps)
  consider "n < 8" | "8 \<le> n" "n < 16" | "16 \<le> n" "n < 24" | "24 \<le> n" by linarith
  then show "bit (word_of_bytes b0 b1 b2 b3) n \<longleftrightarrow> bit (word_rcat [b0, b1, b2, b3] :: 32 word) n"
  proof cases
    case 1
    then show ?thesis unfolding r using n by (auto simp: word_of_bytes_def bit_simps dest: b)
  next
    case 2
    then have "n div 8 = 1" "n mod 8 = n - 8" by (simp_all add: div_nat_eqI mod_if)
    then show ?thesis unfolding r using n 2 by (auto simp: word_of_bytes_def bit_simps dest: b)
  next
    case 3
    then have "n div 8 = 2" "n mod 8 = n - 16" by (simp_all add: div_nat_eqI mod_if)
    then show ?thesis unfolding r using n 3 by (auto simp: word_of_bytes_def bit_simps dest: b)
  next
    case 4
    then have "n div 8 = 3" "n mod 8 = n - 24" using n by (simp_all add: div_nat_eqI mod_if)
    then show ?thesis unfolding r using n 4 by (auto simp: word_of_bytes_def bit_simps dest: b)
  qed
qed

subsection \<open>Loops that fill an array\<close>

definition tabulate :: "nat \<Rightarrow> nat \<Rightarrow> (nat \<Rightarrow> 'a) \<Rightarrow> 'a list \<Rightarrow> 'a list" where
  "tabulate index n f xs = take index xs @ map f [index..<index + n] @ drop (index + n) xs"

lemma tabulate_0 [simp]: "tabulate index 0 f xs = xs"
  by (simp add: tabulate_def)

lemma tabulate_Suc:
  "index < length xs \<Longrightarrow> tabulate (Suc index) n f (xs[index := f index]) = tabulate index (Suc n) f xs"
  unfolding tabulate_def by (subst take_Suc_update) (simp_all add: upt_rec [of index])

lemma tabulate_all: "length xs = n \<Longrightarrow> tabulate 0 n f xs = map f [0..<n]"
  by (simp add: tabulate_def)

lemma schedule_load_tabulate:
  "4 * (index + n) \<le> length block \<Longrightarrow> index + n \<le> length s \<Longrightarrow>
   schedule_load n index block s =
     Some (tabulate index n (\<lambda>i. word_rcat (take 4 (drop (4 * i) block))) s)"
proof (induction n arbitrary: index s)
  case (Suc n)
  let ?f = "\<lambda>i. word_rcat (take 4 (drop (4 * i) block)) :: 32 word"
  have "take 4 (drop (4 * index) block) =
      [block ! (index * 4), block ! (index * 4 + 1), block ! (index * 4 + 2), block ! (index * 4 + 3)]"
    using Suc.prems by (simp add: list_eq_iff_nth_eq less_Suc_eq numeral_eq_Suc mult.commute)
  with Suc.prems have "schedule_load (Suc n) index block s = schedule_load n (Suc index) block (s[index := ?f index])"
    by (simp add: exec_simps word_of_bytes_rcat)
  also have "\<dots> = Some (tabulate (Suc index) n ?f (s[index := ?f index]))"
    using Suc.prems by (subst Suc.IH) simp_all
  also have "tabulate (Suc index) n ?f (s[index := ?f index]) = tabulate index (Suc n) ?f s"
    using Suc.prems by (intro tabulate_Suc) simp
  finally show ?case .
qed simp

lemma copy_block_tabulate:
  "offset + index + n \<le> length source \<Longrightarrow> index + n \<le> length block \<Longrightarrow>
   copy_block n index offset source block = Some (tabulate index n (\<lambda>i. source ! (offset + i)) block)"
  by (induction n arbitrary: index block)
     (simp_all add: exec_simps tabulate_Suc [where f = "\<lambda>i. source ! (offset + i)"])

lemma copy_block_64:
  assumes "offset + 64 \<le> length source" "length block = 64"
  shows "copy_block 64 0 offset source block = Some (take 64 (drop offset source))"
proof -
  have "map (\<lambda>i. source ! (offset + i)) [0..<64] = take 64 (drop offset source)"
    using assms by (intro nth_equalityI) simp_all
  then show ?thesis using assms by (simp add: copy_block_tabulate tabulate_all)
qed

subsection \<open>The compression function\<close>

lemma fips_extend_length [simp]: "length (fips_extend n W) = length W + n"
  by (induction n W rule: fips_extend.induct) (simp_all add: Let_def)

lemma schedule_extend_fips:
  "16 \<le> index \<Longrightarrow> index + n \<le> length s \<Longrightarrow>
   schedule_extend n index s = Some (fips_extend n (take index s) @ drop (index + n) s)"
proof (induction n arbitrary: index s)
  case (Suc n)
  let ?w = "s ! (index - 16) + small_sigma0 (s ! (index - 15)) + s ! (index - 7) + small_sigma1 (s ! (index - 2))"
  have "schedule_extend (Suc n) index s = schedule_extend n (Suc index) (s[index := ?w])"
    using Suc.prems by (simp add: exec_simps Let_def rotate_right_word_rotr small_sigma0_def small_sigma1_def)
  also have "\<dots> = Some (fips_extend n (take index s @ [?w]) @ drop (Suc index + n) (s[index := ?w]))"
    using Suc.prems by (subst Suc.IH) (simp_all add: take_Suc_update)
  also have "fips_extend n (take index s @ [?w]) = fips_extend (Suc n) (take index s)"
    using Suc.prems by (simp add: Let_def min_def add.commute add.left_commute)
  finally show ?case using Suc.prems by simp
qed simp

lemma compress_rounds_fips:
  "index + n \<le> 64 \<Longrightarrow> length s = 64 \<Longrightarrow>
   compress_rounds n index s v = Some (foldl fips_round v (take n (drop index (zip ROUND_CONSTANTS s))))"
proof (induction n arbitrary: index v)
  case (Suc n)
  obtain a b c d e f g h where v: "v = (a, b, c, d, e, f, g, h)" by (cases v) auto
  let ?r = "fips_round v (ROUND_CONSTANTS ! index, s ! index)"
  have l: "length ROUND_CONSTANTS = 64" by (simp add: ROUND_CONSTANTS_def)
  have "compress_rounds (Suc n) index s v = compress_rounds n (Suc index) s ?r"
    using Suc.prems l
    by (simp add: v exec_simps Let_def rotate_right_word_rotr big_sigma0_def big_sigma1_def Ch_def Maj_def)
  also have "\<dots> = Some (foldl fips_round ?r (take n (drop (Suc index) (zip ROUND_CONSTANTS s))))"
    using Suc.prems by (intro Suc.IH) simp_all
  also have "foldl fips_round ?r (take n (drop (Suc index) (zip ROUND_CONSTANTS s)))
      = foldl fips_round v (take (Suc n) (drop index (zip ROUND_CONSTANTS s)))"
    using Suc.prems l by (simp add: Cons_nth_drop_Suc [of index, symmetric])
  finally show ?case .
qed (cases v, simp)

lemma add_values_fips:
  "length values = length state \<Longrightarrow> index + n \<le> length state \<Longrightarrow>
   add_values n index values state = Some (tabulate index n (\<lambda>i. state ! i + values ! i) state)"
proof (induction n arbitrary: index state)
  case (Suc n)
  let ?f = "\<lambda>i. state ! i + values ! i"
  let ?s = "state[index := ?f index]"
  have "add_values (Suc n) index values state = add_values n (Suc index) values ?s"
    using Suc.prems by (simp add: exec_simps)
  also have "\<dots> = Some (tabulate (Suc index) n (\<lambda>i. ?s ! i + values ! i) ?s)"
    using Suc.prems by (intro Suc.IH) simp_all
  also have "tabulate (Suc index) n (\<lambda>i. ?s ! i + values ! i) ?s = tabulate (Suc index) n ?f ?s"
    by (auto simp: tabulate_def)
  also have "\<dots> = tabulate index (Suc n) ?f state" using Suc.prems by (intro tabulate_Suc) simp
  finally show ?case .
qed simp

lemma working_list_length [simp]: "length (working_list v) = 8"
  by (cases v) auto

lemma fips_compress_length [simp]: "length state = 8 \<Longrightarrow> length (fips_compress state block) = 8"
  by (simp add: fips_compress_def)

lemma compress_fips:
  assumes "length state = 8" "length block = 64"
  shows "compress state block = Some (fips_compress state block)"
proof -
  define v where "v = (state ! 0, state ! 1, state ! 2, state ! 3, state ! 4, state ! 5, state ! 6, state ! 7)"
  define r where "r = foldl fips_round v (zip ROUND_CONSTANTS (fips_schedule block))"
  obtain a b c d e f g h where r': "r = (a, b, c, d, e, f, g, h)" by (cases r) auto
  have load: "schedule_load 16 0 block (replicate 64 0) = Some (fips_words block @ replicate 48 0)"
    using assms by (simp add: schedule_load_tabulate tabulate_def fips_words_def)
  have words: "length (fips_words block) = 16" by (simp add: fips_words_def)
  have extend: "schedule_extend 48 16 (fips_words block @ replicate 48 0) = Some (fips_schedule block)"
    by (subst schedule_extend_fips) (simp_all add: words fips_schedule_def)
  have "length (fips_schedule block) = 64" by (simp add: fips_schedule_def words)
  then have rounds: "compress_rounds 64 0 (fips_schedule block) v = Some (a, b, c, d, e, f, g, h)"
    by (simp add: compress_rounds_fips r' [symmetric] r_def)
  have add: "add_values 8 0 [a, b, c, d, e, f, g, h] state = Some (map2 (+) state [a, b, c, d, e, f, g, h])"
    using assms by (subst add_values_fips) (auto simp: tabulate_all intro!: nth_equalityI)
  show ?thesis
    using assms rounds add unfolding compress_def load extend fips_compress_def fips_K_eq v_def [symmetric] r_def [symmetric] r'
    by (simp add: exec_simps extend v_def)
qed

end
