(* ===== verification/Sha256_Properties.thy ===== *)
theory Sha256_Properties
  imports Sha256_Fips
begin

text \<open>
  The streaming hasher computes the SHA-256 of FIPS 180-4: the invariant of the buffer between calls, the padding,
  and the correctness of hashing a message in arbitrary chunks.
\<close>

subsection \<open>Blocks\<close>

lemma blocks_append: "64 dvd length F \<Longrightarrow> blocks (F @ R) = blocks F @ blocks R"
proof -
  assume "64 dvd length F"
  then obtain k where k: "length F = 64 * k" by (elim dvdE)
  have "[0..<length (F @ R) div 64] = [0..<k] @ map (\<lambda>i. i + k) [0..<length R div 64]"
    using k by (simp add: map_add_upt upt_add_eq_append [of 0 k] add.commute)
  moreover have "take 64 (drop (64 * i) (F @ R)) = take 64 (drop (64 * i) F)" if "i < k" for i
  proof -
    have "64 * i + 64 \<le> length F" using that k by simp
    then show ?thesis by simp
  qed
  moreover have "drop (64 * (i + k)) (F @ R) = drop (64 * i) R" for i
    using k by (simp add: algebra_simps)
  ultimately show ?thesis using k by (simp add: blocks_def)
qed

lemma blocks_single [simp]: "length b = 64 \<Longrightarrow> blocks b = [b]"
  by (simp add: blocks_def)

lemma blocks_Nil [simp]: "blocks [] = []"
  by (simp add: blocks_def)

definition hash_blocks :: "byte list \<Rightarrow> 32 word list" where
  "hash_blocks F = foldl fips_compress INITIAL_STATE (blocks F)"

lemma hash_blocks_length [simp]: "length (hash_blocks F) = 8"
proof -
  have "length s = 8 \<Longrightarrow> length (foldl fips_compress s bs) = 8" for s bs
    by (induction bs arbitrary: s) simp_all
  then show ?thesis by (simp add: hash_blocks_def INITIAL_STATE_def)
qed

lemma hash_blocks_step:
  "64 dvd length F \<Longrightarrow> length b = 64 \<Longrightarrow> compress (hash_blocks F) b = Some (hash_blocks (F @ b))"
  by (simp add: compress_fips) (simp add: hash_blocks_def blocks_append)

subsection \<open>The streaming invariant\<close>

text \<open>The hasher has absorbed \<open>M\<close>: its state is the hash of the whole blocks of \<open>M\<close>, its buffer holds the rest.\<close>

definition absorbed :: "byte list \<Rightarrow> sha256 \<Rightarrow> bool" where
  "absorbed M this \<longleftrightarrow> (\<exists>F R. M = F @ R \<and> 64 dvd length F \<and> length R = sh_buffered this \<and> length R < 64 \<and>
     length (sh_buffer this) = 64 \<and> take (length R) (sh_buffer this) = R \<and> sh_state this = hash_blocks F)"

lemma absorbed_new: "absorbed [] sha256_new"
  by (simp add: absorbed_def sha256_new_def hash_blocks_def)

lemma absorbed_byte_len [simp]: "absorbed M (this\<lparr>sh_byte_len := n\<rparr>) = absorbed M this"
  by (simp add: absorbed_def)

lemma buffer_bytes_absorbed:
  "absorbed M this \<Longrightarrow> offset + n \<le> length bytes \<Longrightarrow>
   \<exists>this'. buffer_bytes n bytes offset this = Some this' \<and> absorbed (M @ take n (drop offset bytes)) this' \<and>
     sh_byte_len this' = sh_byte_len this"
proof (induction n arbitrary: M offset this)
  case (Suc n)
  let ?b = "bytes ! offset"
  from Suc.prems(1) obtain F R where a: "M = F @ R" "64 dvd length F" "length R = sh_buffered this" "length R < 64"
    "length (sh_buffer this) = 64" "take (length R) (sh_buffer this) = R" "sh_state this = hash_blocks F"
    unfolding absorbed_def by blast
  let ?buffer = "(sh_buffer this)[sh_buffered this := ?b]"
  let ?this1 = "this\<lparr>sh_buffer := ?buffer, sh_buffered := sh_buffered this + 1\<rparr>"
  have buffer: "take (Suc (length R)) ?buffer = R @ [?b]" using a by (simp add: take_Suc_update)
  define this2 where "this2 = (if sh_buffered this = 63
    then ?this1\<lparr>sh_state := hash_blocks (F @ ?buffer), sh_buffered := 0\<rparr> else ?this1)"
  have two: "absorbed (M @ [?b]) this2"
  proof (cases "sh_buffered this = 63")
    case True
    then have "?buffer = R @ [?b]" using a buffer by simp
    then show ?thesis unfolding absorbed_def using True a
      by (intro exI [of _ "F @ R @ [?b]"] exI [of _ "[]"]) (auto simp: this2_def)
  next
    case False
    then show ?thesis unfolding absorbed_def using a buffer
      by (intro exI [of _ F] exI [of _ "R @ [?b]"]) (auto simp: this2_def)
  qed
  have "buffer_bytes (Suc n) bytes offset this = buffer_bytes n bytes (Suc offset) this2"
    using Suc.prems(2) a hash_blocks_step [of F ?buffer] by (auto simp: exec_simps Let_def this2_def)
  moreover have "take (Suc n) (drop offset bytes) = ?b # take n (drop (Suc offset) bytes)"
    using Suc.prems(2) by (simp add: Cons_nth_drop_Suc [symmetric])
  moreover have "sh_byte_len this2 = sh_byte_len this" by (simp add: this2_def)
  ultimately show ?case using Suc.IH [OF two, of "Suc offset"] Suc.prems(2) by auto
qed simp

lemma update_loop_absorbed:
  "absorbed M this \<Longrightarrow> offset \<le> length bytes \<Longrightarrow>
   \<exists>this'. update_loop bytes offset this = Some this' \<and> absorbed (M @ drop offset bytes) this' \<and>
     sh_byte_len this' = sh_byte_len this"
proof (induction "length bytes - offset" arbitrary: M offset this rule: less_induct)
  case less
  from less.prems(1) obtain F R where a: "M = F @ R" "64 dvd length F" "length R = sh_buffered this" "length R < 64"
    "length (sh_buffer this) = 64" "take (length R) (sh_buffer this) = R" "sh_state this = hash_blocks F"
    unfolding absorbed_def by blast
  consider "offset = length bytes" | "offset < length bytes" "sh_buffered this = 0 \<and> 64 \<le> length bytes - offset"
    | "offset < length bytes" "\<not> (sh_buffered this = 0 \<and> 64 \<le> length bytes - offset)" using less.prems(2) by linarith
  then show ?case
  proof cases
    case 1
    then show ?thesis using less.prems by (subst update_loop.simps) simp
  next
    case 2
    let ?b = "take 64 (drop offset bytes)" and ?t = "this\<lparr>sh_state := hash_blocks (F @ take 64 (drop offset bytes))\<rparr>"
    have "absorbed (M @ ?b) ?t" unfolding absorbed_def
      using 2 a by (intro exI [of _ "F @ ?b"] exI [of _ "[]"]) auto
    moreover have "copy_block 64 0 offset bytes (replicate 64 0) = Some ?b"
      using 2 by (intro copy_block_64) auto
    then have "update_loop bytes offset this = update_loop bytes (offset + 64) ?t"
      using 2 a hash_blocks_step [of F ?b] by (subst update_loop.simps) simp
    moreover have "?b @ drop (offset + 64) bytes = drop offset bytes"
      by (metis add.commute append_take_drop_id drop_drop)
    ultimately show ?thesis using less.hyps [of "offset + 64" "M @ ?b" ?t] 2 by auto
  next
    case 3
    define n where "n = min (length bytes - offset) (64 - sh_buffered this)"
    have n: "offset + n \<le> length bytes" "0 < n" using 3 a by (auto simp: n_def)
    have if_n: "(let remaining = length bytes - offset;
        n = (if remaining < 64 - sh_buffered this then remaining else 64 - sh_buffered this) in f n) = f n"
      for f :: "nat \<Rightarrow> sha256 exec"
      by (rule linorder_cases [of "length bytes - offset" "64 - sh_buffered this"]) (simp_all add: n_def min_def Let_def)
    obtain this' where b: "buffer_bytes n bytes offset this = Some this'"
        "absorbed (M @ take n (drop offset bytes)) this'" "sh_byte_len this' = sh_byte_len this"
      using buffer_bytes_absorbed [OF less.prems(1), of offset n bytes] n by auto
    have "update_loop bytes offset this = update_loop bytes (offset + n) this'"
      using 3 a(3,4) b(1) by (subst update_loop.simps) (auto simp: exec_simps if_n)
    moreover have "take n (drop offset bytes) @ drop (offset + n) bytes = drop offset bytes"
      by (metis add.commute append_take_drop_id drop_drop)
    ultimately show ?thesis using less.hyps [of "offset + n" _ this', OF _ b(2)] b(3) n by auto
  qed
qed

lemma sha256_update_absorbed:
  assumes "absorbed M this" "sh_byte_len this = length M" "length M + length bytes \<le> U64_MAX"
  shows "\<exists>this'. sha256_update this bytes = Some this' \<and> absorbed (M @ bytes) this' \<and>
    sh_byte_len this' = length (M @ bytes)"
  using update_loop_absorbed [of M "this\<lparr>sh_byte_len := length M + length bytes\<rparr>" 0 bytes] assms
  by (auto simp: sha256_update_def exec_simps)

subsection \<open>Padding and the digest\<close>

definition tail_byte :: "usize \<Rightarrow> u64 \<Rightarrow> byte list \<Rightarrow> usize \<Rightarrow> byte" where
  "tail_byte tail_len bit_len R i =
     (if i < length R then R ! i else if i = length R then 0x80 else if i < tail_len - 8 then 0
      else word_of_nat (bit_len div 2 ^ (56 - 8 * (i - (tail_len - 8))) mod 256))"

lemma fill_tail_tabulate:
  "index + n \<le> tail_len \<Longrightarrow> tail_len \<le> length tail \<Longrightarrow> 8 \<le> tail_len \<Longrightarrow> length R = buffered \<Longrightarrow>
   take buffered buffer = R \<Longrightarrow>
   fill_tail n index tail_len bit_len buffer buffered tail =
     Some (tabulate index n (tail_byte tail_len bit_len R) tail)"
proof (induction n arbitrary: index tail)
  case (Suc n)
  let ?f = "tail_byte tail_len bit_len R"
  have "index < buffered \<Longrightarrow> index < length buffer \<and> buffer ! index = R ! index"
    using Suc.prems(4,5) by (metis length_take min_less_iff_conj nth_take)
  then have "fill_tail (Suc n) index tail_len bit_len buffer buffered tail =
      fill_tail n (Suc index) tail_len bit_len buffer buffered (tail[index := ?f index])"
    using Suc.prems(1-4) by (auto simp: exec_simps Let_def tail_byte_def mult.commute)
  also have "\<dots> = Some (tabulate (Suc index) n ?f (tail[index := ?f index]))"
    using Suc.prems by (intro Suc.IH) simp_all
  also have "tabulate (Suc index) n ?f (tail[index := ?f index]) = tabulate index (Suc n) ?f tail"
    using Suc.prems by (intro tabulate_Suc) simp
  finally show ?case .
qed simp

lemma tail_padding:
  assumes "length R + 9 \<le> tail_len"
  shows "map (tail_byte tail_len bit_len R) [0..<tail_len] =
    R @ [0x80] @ replicate (tail_len - 9 - length R) 0 @ length_bytes bit_len"
    (is "_ = ?p")
proof (rule nth_equalityI)
  show "length (map (tail_byte tail_len bit_len R) [0..<tail_len]) = length ?p"
    using assms by (simp add: length_bytes_def)
  fix i assume "i < length (map (tail_byte tail_len bit_len R) [0..<tail_len])"
  then have i: "i < tail_len" by simp
  consider "i < length R" | "i = length R" | "length R < i" "i < tail_len - 8" | "tail_len - 8 \<le> i" by linarith
  then show "map (tail_byte tail_len bit_len R) [0..<tail_len] ! i = ?p ! i"
  proof cases
    case 3
    then have "i - Suc (length R) < tail_len - (9 + length R)" by linarith
    with 3 i show ?thesis by (simp add: tail_byte_def nth_append nth_Cons')
  next
    case 4
    then have "i - length R - 1 - (tail_len - 9 - length R) = i - (tail_len - 8)" "i - (tail_len - 8) < 8"
      "\<not> i - Suc (length R) < tail_len - (9 + length R)" using assms i by linarith+
    with 4 i assms show ?thesis by (simp add: tail_byte_def nth_append nth_Cons' length_bytes_def)
  qed (use assms i in \<open>simp_all add: tail_byte_def nth_append\<close>)
qed

lemma digest_bytes_tabulate:
  "index + n \<le> length digest \<Longrightarrow> index + n \<le> 4 * length state \<Longrightarrow>
   digest_bytes n index state digest =
     Some (tabulate index n (\<lambda>i. word_bytes (state ! (i div 4)) ! (i mod 4)) digest)"
proof (induction n arbitrary: index digest)
  case (Suc n)
  let ?f = "\<lambda>i. word_bytes (state ! (i div 4)) ! (i mod 4)"
  have "index mod 4 < 4" by simp
  then have "index mod 4 \<noteq> 0 \<Longrightarrow> index mod 4 \<noteq> 1 \<Longrightarrow> index mod 4 \<noteq> 2 \<Longrightarrow> index mod 4 = 3" by linarith
  moreover have "index div 4 < length state" using Suc.prems by (simp add: div_less_iff_less_mult)
  ultimately have "digest_bytes (Suc n) index state digest = digest_bytes n (Suc index) state (digest[index := ?f index])"
    using Suc.prems by (auto simp: exec_simps Let_def word_bytes_def)
  also have "\<dots> = Some (tabulate (Suc index) n ?f (digest[index := ?f index]))"
    using Suc.prems by (intro Suc.IH) simp_all
  also have "tabulate (Suc index) n ?f (digest[index := ?f index]) = tabulate index (Suc n) ?f digest"
    using Suc.prems by (intro tabulate_Suc) simp
  finally show ?case .
qed simp

lemma concat_word_bytes:
  "concat (map word_bytes ws) = map (\<lambda>i. word_bytes (ws ! (i div 4)) ! (i mod 4)) [0..<4 * length ws]"
proof (induction ws rule: rev_induct)
  case (snoc w ws)
  have "[0..<4 * length (ws @ [w])] = [0..<4 * length ws] @ map (\<lambda>i. i + 4 * length ws) [0..<4]"
    using upt_add_eq_append [of 0 "4 * length ws" 4] by (simp add: map_add_upt add.commute)
  moreover have "map (\<lambda>i. word_bytes ((ws @ [w]) ! (i div 4)) ! (i mod 4)) (map (\<lambda>i. i + 4 * length ws) [0..<4])
      = map (\<lambda>i. word_bytes w ! i) [0..<4]"
    unfolding map_map by (rule map_cong) simp_all
  moreover have "map (\<lambda>i. word_bytes w ! i) [0..<4] = word_bytes w"
    by (simp add: word_bytes_def upt_rec numeral_eq_Suc)
  moreover have "map (\<lambda>i. word_bytes ((ws @ [w]) ! (i div 4)) ! (i mod 4)) [0..<4 * length ws] = concat (map word_bytes ws)"
    unfolding snoc by (rule map_cong) (simp_all add: nth_append div_less_iff_less_mult mult.commute)
  ultimately show ?case by (simp only: map_append concat_append) simp
qed simp

lemma digest_bytes_fips:
  "length state = 8 \<Longrightarrow> digest_bytes 32 0 state (replicate 32 0) = Some (concat (map word_bytes state))"
  by (simp add: digest_bytes_tabulate tabulate_all concat_word_bytes)

lemma sha256_finish_fips:
  assumes a: "absorbed M this" "sh_byte_len this = length M"
  shows "sha256_finish this = (if 8 * length M \<le> U64_MAX then Some (fips_sha256 M) else None)"
proof (cases "8 * length M \<le> U64_MAX")
  case True
  from a obtain F R where a: "M = F @ R" "64 dvd length F" "length R = sh_buffered this" "length R < 64"
    "length (sh_buffer this) = 64" "take (length R) (sh_buffer this) = R" "sh_state this = hash_blocks F"
    and n: "sh_byte_len this = length M"
    unfolding absorbed_def by blast
  define L where "L = (if sh_buffered this < 56 then 64 else 128 :: nat)"
  define T where "T = map (tail_byte L (length M * 8) R) [0..<L]"
  have L: "length R + 9 \<le> L" "L = 64 \<or> L = 128" using a by (auto simp: L_def)
  have lT: "length T = L" by (simp add: T_def)
  have "(119 - length M mod 64) mod 64 = L - 9 - length R"
  proof -
    have "length M mod 64 = length R" using a(1,2,4) by (auto elim!: dvdE)
    then show ?thesis using a(3,4) by (auto simp: L_def mod_if)
  qed
  then have pad: "fips_pad M = F @ T"
    using L a(1) by (simp add: fips_pad_def T_def tail_padding mult.commute)
  have fill: "fill_tail L 0 L (length M * 8) (sh_buffer this) (sh_buffered this) (replicate 128 0) =
      Some (T @ replicate (128 - L) 0)"
    using L a by (subst fill_tail_tabulate [where R = R]) (auto simp: tabulate_def T_def)
  have first: "copy_block 64 0 0 (T @ replicate (128 - L) 0) (replicate 64 0) = Some (take 64 T)"
    using L lT by (subst copy_block_64) auto
  have "L = 128 \<Longrightarrow> blocks T = [take 64 T, drop 64 T]"
    using lT blocks_append [of "take 64 T" "drop 64 T"] by simp
  then have "fips_sha256 M = concat (map word_bytes (if L = 128
      then hash_blocks ((F @ take 64 T) @ drop 64 T) else hash_blocks (F @ take 64 T)))"
    using L lT a(2) by (auto simp: fips_sha256_def fips_H_eq pad hash_blocks_def blocks_append)
  moreover have "L = 128 \<Longrightarrow> copy_block 64 0 64 T (take 64 T) = Some (drop 64 T)"
    using lT by (subst copy_block_64) auto
  moreover have "length (take 64 T) = 64" using L lT by auto
  moreover have "L = 128 \<Longrightarrow> compress (hash_blocks (F @ take 64 T)) (drop 64 T) =
      Some (hash_blocks ((F @ take 64 T) @ drop 64 T))"
    using lT a by (intro hash_blocks_step) auto
  ultimately show ?thesis using True L n a(2,7) unfolding sha256_finish_def Let_def L_def [symmetric]
    by (auto simp: exec_simps fill first hash_blocks_step digest_bytes_fips)
next
  case False
  then show ?thesis using a by (simp add: sha256_finish_def u_mul_def)
qed

subsection \<open>The property\<close>

fun update_chunks :: "sha256 \<Rightarrow> byte list list \<Rightarrow> sha256 exec" where
  "update_chunks this [] = Some this"
| "update_chunks this (c # cs) = do { this' \<leftarrow> sha256_update this c; update_chunks this' cs }"

lemma update_chunks_absorbed:
  "absorbed M this \<Longrightarrow> sh_byte_len this = length M \<Longrightarrow> length M + length (concat chunks) \<le> U64_MAX \<Longrightarrow>
   \<exists>this'. update_chunks this chunks = Some this' \<and> absorbed (M @ concat chunks) this' \<and>
     sh_byte_len this' = length (M @ concat chunks)"
proof (induction chunks arbitrary: M this)
  case (Cons c cs)
  then obtain this' where "sha256_update this c = Some this'" "absorbed (M @ c) this'"
      "sh_byte_len this' = length (M @ c)"
    using sha256_update_absorbed [of M this c] by auto
  with Cons.IH [of "M @ c" this'] Cons.prems(3) show ?case by auto
qed simp

lemma update_chunks_overflow:
  "absorbed M this \<Longrightarrow> sh_byte_len this = length M \<Longrightarrow> U64_MAX < length M + length (concat chunks) \<Longrightarrow>
   length M \<le> U64_MAX \<Longrightarrow> update_chunks this chunks = None"
proof (induction chunks arbitrary: M this)
  case (Cons c cs)
  show ?case
  proof (cases "length M + length c \<le> U64_MAX")
    case True
    then obtain this' where "sha256_update this c = Some this'" "absorbed (M @ c) this'"
        "sh_byte_len this' = length (M @ c)"
      using sha256_update_absorbed [of M this c] Cons.prems by auto
    with Cons.IH [of "M @ c" this'] Cons.prems True show ?thesis by simp
  next
    case False
    then show ?thesis using Cons.prems(2) by (simp add: sha256_update_def u_add_def)
  qed
qed simp

text \<open>C37: hashing a message in any sequence of chunks (any number, any lengths, empty ones included) with \<open>update\<close>
  and \<open>finish\<close> computes the SHA-256 of FIPS 180-4 of their concatenation, independently of how the message is cut;
  the only panic is the overflow of the 64-bit bit length that the standard excludes.\<close>

theorem sha256_streaming_correct:
  "Option.bind (update_chunks sha256_new chunks) sha256_finish =
     (if 8 * length (concat chunks) \<le> U64_MAX then Some (fips_sha256 (concat chunks)) else None)"
proof (cases "length (concat chunks) \<le> U64_MAX")
  case True
  then obtain this where "update_chunks sha256_new chunks = Some this" "absorbed (concat chunks) this"
      "sh_byte_len this = length (concat chunks)"
    using update_chunks_absorbed [OF absorbed_new, of chunks] by (auto simp: sha256_new_def)
  then show ?thesis by (simp only: bind.bind_lunit sha256_finish_fips)
next
  case False
  then show ?thesis using update_chunks_overflow [OF absorbed_new, of chunks] by (simp add: sha256_new_def)
qed

end
