(* ===== verification/Json.thy ===== *)
theory Json
  imports Prelude "HOL-Library.List_Lexorder"
begin

text \<open>
  The JSON parser of \<^verbatim>\<open>ferric-build/src/json.rs\<close>, which reads model configurations, tokenizers and tensor headers.
  A byte string is a list of naturals below 256; a Rust \<^verbatim>\<open>String\<close> is its UTF-8 encoding.  The parser's state is the
  offset into the input, which is passed on explicitly; an error carries the offset at which it was raised.  A
  \<^verbatim>\<open>BTreeMap\<close> is an association list in strictly increasing key order.  Offsets never exceed the length of the input
  slice, so their additions are written without an overflow check.  The two container loops end only because
  \<open>value\<close> advances, so they are \<^theory_text>\<open>partial_function\<close>s: \<^const>\<open>None\<close> is a panic or a loop that never ends.
\<close>

type_synonym bytes = "u8 list"

definition MAX_DEPTH :: usize where "MAX_DEPTH = 32"

datatype json_value =
    Null
  | Bool bool
  | Number bytes
  | String bytes
  | Array "json_value list"
  | Object "(bytes \<times> json_value) list"

datatype error_kind =
    DuplicateField bytes
  | InvalidEscape
  | InvalidNumber
  | InvalidUnicode
  | NestingLimit
  | TrailingData
  | UnexpectedByte
  | UnexpectedEnd

record parse_error =
  je_offset :: usize
  je_kind :: error_kind

text \<open>A parsing method returns an error, or a result and the offset after it.\<close>

type_synonym 'a parsed = "parse_error + ('a \<times> usize)"

definition json_error :: "usize \<Rightarrow> error_kind \<Rightarrow> parse_error + 'a" where
  "json_error off k = Inl \<lparr>je_offset = off, je_kind = k\<rparr>"

text \<open>The \<open>?\<close> operator.\<close>

fun and_then :: "'e + 'a \<Rightarrow> ('a \<Rightarrow> 'e + 'b) \<Rightarrow> 'e + 'b" where
  "and_then (Inl e) f = Inl e"
| "and_then (Inr x) f = f x"

fun and_then_exec :: "'e + 'a \<Rightarrow> ('a \<Rightarrow> ('e + 'b) exec) \<Rightarrow> ('e + 'b) exec" where
  "and_then_exec (Inl e) f = Some (Inl e)"
| "and_then_exec (Inr x) f = f x"

subsection \<open>UTF-8\<close>

definition utf8_cont :: "u8 \<Rightarrow> bool" where
  "utf8_cont b \<longleftrightarrow> 0x80 \<le> b \<and> b \<le> 0xBF"

text \<open>Well-formed UTF-8, as \<^verbatim>\<open>String::from_utf8\<close> accepts it.\<close>

fun utf8_valid :: "bytes \<Rightarrow> bool" where
  "utf8_valid [] \<longleftrightarrow> True"
| "utf8_valid (b # bs) \<longleftrightarrow>
     (if b < 0x80 then utf8_valid bs
      else if 0xC2 \<le> b \<and> b \<le> 0xDF then
        (case bs of c # r \<Rightarrow> utf8_cont c \<and> utf8_valid r | _ \<Rightarrow> False)
      else if 0xE0 \<le> b \<and> b \<le> 0xEF then
        (case bs of c # d # r \<Rightarrow>
           (if b = 0xE0 then 0xA0 \<le> c \<and> c \<le> 0xBF
            else if b = 0xED then 0x80 \<le> c \<and> c \<le> 0x9F else utf8_cont c) \<and> utf8_cont d \<and> utf8_valid r
         | _ \<Rightarrow> False)
      else if 0xF0 \<le> b \<and> b \<le> 0xF4 then
        (case bs of c # d # e # r \<Rightarrow>
           (if b = 0xF0 then 0x90 \<le> c \<and> c \<le> 0xBF
            else if b = 0xF4 then 0x80 \<le> c \<and> c \<le> 0x8F else utf8_cont c) \<and>
           utf8_cont d \<and> utf8_cont e \<and> utf8_valid r
         | _ \<Rightarrow> False)
      else False)"

definition char_from_u32 :: "u32 \<Rightarrow> u32 option" where
  "char_from_u32 n = (if n < 0xD800 \<or> (0xDFFF < n \<and> n < 0x110000) then Some n else None)"

definition encode_utf8 :: "u32 \<Rightarrow> bytes" where
  "encode_utf8 n =
     (if n < 0x80 then [n]
      else if n < 0x800 then [0xC0 + n div 0x40, 0x80 + n mod 0x40]
      else if n < 0x10000 then [0xE0 + n div 0x1000, 0x80 + n div 0x40 mod 0x40, 0x80 + n mod 0x40]
      else [0xF0 + n div 0x40000, 0x80 + n div 0x1000 mod 0x40, 0x80 + n div 0x40 mod 0x40, 0x80 + n mod 0x40])"

subsection \<open>Scanning\<close>

definition peek :: "bytes \<Rightarrow> usize \<Rightarrow> u8 option" where
  "peek bytes off = (if off < length bytes then Some (bytes ! off) else None)"

definition take_byte :: "bytes \<Rightarrow> usize \<Rightarrow> u8 option \<times> usize" where
  "take_byte bytes off = (case peek bytes off of None \<Rightarrow> (None, off) | Some byte \<Rightarrow> (Some byte, off + 1))"

definition slice :: "'a list \<Rightarrow> usize \<Rightarrow> usize \<Rightarrow> 'a list option" where
  "slice bytes a b = (if a \<le> b \<and> b \<le> length bytes then Some (take (b - a) (drop a bytes)) else None)"

definition is_whitespace :: "u8 \<Rightarrow> bool" where
  "is_whitespace byte \<longleftrightarrow> byte = 0x20 \<or> byte = 0x0A \<or> byte = 0x0D \<or> byte = 0x09"

definition is_ascii_digit :: "u8 \<Rightarrow> bool" where
  "is_ascii_digit byte \<longleftrightarrow> 0x30 \<le> byte \<and> byte \<le> 0x39"

text \<open>The scanning loops \<open>while self.peek().is_some_and(p) { self.offset += 1 }\<close>.\<close>

function skip_while :: "(u8 \<Rightarrow> bool) \<Rightarrow> bytes \<Rightarrow> usize \<Rightarrow> usize" where
  "skip_while p bytes off =
     (case peek bytes off of
        Some byte \<Rightarrow> if p byte then skip_while p bytes (off + 1) else off
      | None \<Rightarrow> off)"
  by pat_completeness auto
termination
  by (relation "measure (\<lambda>(p, bytes, off). length bytes - off)") (auto simp: peek_def split: if_splits)

definition skip_whitespace :: "bytes \<Rightarrow> usize \<Rightarrow> usize" where
  "skip_whitespace = skip_while is_whitespace"

definition literal :: "bytes \<Rightarrow> usize \<Rightarrow> bytes \<Rightarrow> unit parsed" where
  "literal bytes off lit =
     (if slice bytes off (off + length lit) \<noteq> Some lit then json_error off UnexpectedByte
      else Inr ((), off + length lit))"

subsection \<open>Strings\<close>

fun hex_quad_loop :: "nat \<Rightarrow> bytes \<Rightarrow> usize \<Rightarrow> 16 word \<Rightarrow> 16 word parsed" where
  "hex_quad_loop 0 bytes off value = Inr (value, off)"
| "hex_quad_loop (Suc n) bytes off value =
     (case take_byte bytes off of
        (Some byte, off') \<Rightarrow>
          and_then (if 0x30 \<le> byte \<and> byte \<le> 0x39 then Inr (word_of_nat (byte - 0x30))
                    else if 0x61 \<le> byte \<and> byte \<le> 0x66 then Inr (word_of_nat (byte - 0x61) + 10)
                    else if 0x41 \<le> byte \<and> byte \<le> 0x46 then Inr (word_of_nat (byte - 0x41) + 10)
                    else json_error off' InvalidEscape)
            (\<lambda>digit. hex_quad_loop n bytes off' (push_bit 4 value OR digit))
      | (None, off') \<Rightarrow> json_error off' UnexpectedEnd)"

definition hex_quad :: "bytes \<Rightarrow> usize \<Rightarrow> u32 parsed" where
  "hex_quad bytes off = and_then (hex_quad_loop 4 bytes off 0) (\<lambda>(value, off'). Inr (unat value, off'))"

definition unicode_escape :: "bytes \<Rightarrow> usize \<Rightarrow> bytes \<Rightarrow> bytes parsed" where
  "unicode_escape bytes off decoded =
     and_then (hex_quad bytes off) (\<lambda>(first, off1).
     and_then
       (if 0xD800 \<le> first \<and> first \<le> 0xDBFF then
          (let (b1, off2) = take_byte bytes off1 in
           if b1 \<noteq> Some 0x5C then json_error off2 InvalidUnicode
           else let (b2, off3) = take_byte bytes off2 in
             if b2 \<noteq> Some 0x75 then json_error off3 InvalidUnicode
             else and_then (hex_quad bytes off3) (\<lambda>(second, off4).
               if \<not> (0xDC00 \<le> second \<and> second \<le> 0xDFFF) then json_error off4 InvalidUnicode
               else Inr (0x10000 + push_bit 10 (first - 0xD800) + (second - 0xDC00), off4)))
        else if 0xDC00 \<le> first \<and> first \<le> 0xDFFF then json_error off1 InvalidUnicode
        else Inr (first, off1))
       (\<lambda>(scalar, off').
          case char_from_u32 scalar of
            None \<Rightarrow> json_error off' InvalidUnicode
          | Some character \<Rightarrow> Inr (decoded @ encode_utf8 character, off')))"

definition escape :: "bytes \<Rightarrow> usize \<Rightarrow> bytes \<Rightarrow> bytes parsed" where
  "escape bytes off decoded =
     (case take_byte bytes off of
        (Some byte, off') \<Rightarrow>
          if byte = 0x22 then Inr (decoded @ [0x22], off')
          else if byte = 0x5C then Inr (decoded @ [0x5C], off')
          else if byte = 0x2F then Inr (decoded @ [0x2F], off')
          else if byte = 0x62 then Inr (decoded @ [0x08], off')
          else if byte = 0x66 then Inr (decoded @ [0x0C], off')
          else if byte = 0x6E then Inr (decoded @ [0x0A], off')
          else if byte = 0x72 then Inr (decoded @ [0x0D], off')
          else if byte = 0x74 then Inr (decoded @ [0x09], off')
          else if byte = 0x75 then unicode_escape bytes off' decoded
          else json_error off' InvalidEscape
      | (None, off') \<Rightarrow> json_error off' UnexpectedEnd)"

lemma take_byte_le: "take_byte bytes off = (b, off') \<Longrightarrow> off \<le> off'"
  by (auto simp: take_byte_def split: option.splits)

lemma hex_quad_loop_le: "hex_quad_loop n bytes off v = Inr (v', off') \<Longrightarrow> off \<le> off'"
proof (induction n arbitrary: off v)
  case (Suc n)
  obtain b o1 where t: "take_byte bytes off = (b, o1)" by (cases "take_byte bytes off")
  show ?case using Suc.prems take_byte_le [OF t] Suc.IH [of o1]
    by (fastforce simp: t json_error_def split: option.splits if_splits)
qed simp

lemma hex_quad_le: "hex_quad bytes off = Inr (v, off') \<Longrightarrow> off \<le> off'"
  by (cases "hex_quad_loop 4 bytes off 0") (auto simp: hex_quad_def dest: hex_quad_loop_le)

lemma unicode_escape_le: "unicode_escape bytes off d = Inr (d', off') \<Longrightarrow> off \<le> off'"
proof -
  assume u: "unicode_escape bytes off d = Inr (d', off')"
  then obtain first o1 where h: "hex_quad bytes off = Inr (first, o1)"
    by (cases "hex_quad bytes off") (auto simp: unicode_escape_def)
  obtain b1 o2 where t1: "take_byte bytes o1 = (b1, o2)" by (cases "take_byte bytes o1")
  obtain b2 o3 where t2: "take_byte bytes o2 = (b2, o3)" by (cases "take_byte bytes o2")
  show ?thesis using u hex_quad_le [OF h] take_byte_le [OF t1] take_byte_le [OF t2]
    by (cases "hex_quad bytes o3")
       (auto simp: unicode_escape_def h t1 t2 json_error_def dest!: hex_quad_le split: if_splits option.splits)
qed

lemma escape_le: "escape bytes off d = Inr (d', off') \<Longrightarrow> off \<le> off'"
  by (cases "take_byte bytes off")
     (auto simp: escape_def json_error_def dest!: unicode_escape_le take_byte_le
           split: option.splits if_splits)

function string_loop :: "bytes \<Rightarrow> usize \<Rightarrow> bytes \<Rightarrow> bytes parsed" where
  "string_loop bytes off decoded =
     (case take_byte bytes off of
        (Some byte, off') \<Rightarrow>
          if byte = 0x22 then
            (if utf8_valid decoded then Inr (decoded, off') else json_error off' InvalidUnicode)
          else if byte = 0x5C then
            (case escape bytes off' decoded of
               Inl e \<Rightarrow> Inl e
             | Inr (decoded', off'') \<Rightarrow> string_loop bytes off'' decoded')
          else if byte \<le> 0x1F then json_error off' InvalidUnicode
          else string_loop bytes off' (decoded @ [byte])
      | (None, off') \<Rightarrow> json_error off' UnexpectedEnd)"
  by pat_completeness auto
termination
  by (relation "measure (\<lambda>(bytes, off, decoded). length bytes - off)")
     (auto simp: take_byte_def peek_def dest!: escape_le split: if_splits)

definition string :: "bytes \<Rightarrow> usize \<Rightarrow> bytes parsed" where
  "string bytes off =
     (let (b, off') = take_byte bytes off in
      if b \<noteq> Some 0x22 then json_error off' UnexpectedByte
      else string_loop bytes off' [])"

subsection \<open>Numbers\<close>

definition digits :: "bytes \<Rightarrow> usize \<Rightarrow> unit parsed" where
  "digits bytes start =
     (let off = skip_while is_ascii_digit bytes start in
      if off = start then json_error off InvalidNumber else Inr ((), off))"

definition number_integer :: "bytes \<Rightarrow> usize \<Rightarrow> unit parsed" where
  "number_integer bytes off =
     (case take_byte bytes off of
        (Some byte, off') \<Rightarrow>
          if byte = 0x30 then
            (case peek bytes off' of
               Some b \<Rightarrow> if is_ascii_digit b then json_error off' InvalidNumber else Inr ((), off')
             | None \<Rightarrow> Inr ((), off'))
          else if 0x31 \<le> byte \<and> byte \<le> 0x39 then Inr ((), skip_while is_ascii_digit bytes off')
          else json_error off' InvalidNumber
      | (None, off') \<Rightarrow> json_error off' InvalidNumber)"

definition number :: "bytes \<Rightarrow> usize \<Rightarrow> bytes parsed exec" where
  "number bytes start = (
     let off0 = (if peek bytes start = Some 0x2D then start + 1 else start) in
     and_then_exec (number_integer bytes off0) (\<lambda>(_, off1).
     and_then_exec (if peek bytes off1 = Some 0x2E then digits bytes (off1 + 1) else Inr ((), off1)) (\<lambda>(_, off2).
     and_then_exec
       (if peek bytes off2 = Some 0x65 \<or> peek bytes off2 = Some 0x45 then
          (let off3 = off2 + 1;
               off4 = (if peek bytes off3 = Some 0x2B \<or> peek bytes off3 = Some 0x2D then off3 + 1 else off3)
           in digits bytes off4)
        else Inr ((), off2)) (\<lambda>(_, off).
     do { text \<leftarrow> slice bytes start off;
          Some (if utf8_valid text then Inr (text, off) else json_error off InvalidNumber) }))))"

subsection \<open>Values\<close>

text \<open>\<^verbatim>\<open>BTreeMap::insert\<close> on the sorted association list.\<close>

fun btree_insert :: "'k::linorder \<Rightarrow> 'v \<Rightarrow> ('k \<times> 'v) list \<Rightarrow> ('k \<times> 'v) list" where
  "btree_insert k v [] = [(k, v)]"
| "btree_insert k v ((k', v') # m) =
     (if k < k' then (k, v) # (k', v') # m
      else if k = k' then (k, v) # m
      else (k', v') # btree_insert k v m)"

text \<open>What follows an element of a container: a comma, after which the loop goes on, or the closing byte.\<close>

definition separator :: "bytes \<Rightarrow> u8 \<Rightarrow> usize \<Rightarrow> bool parsed" where
  "separator bytes close off =
     (case take_byte bytes (skip_whitespace bytes off) of
        (Some byte, off') \<Rightarrow>
          if byte = 0x2C then Inr (True, skip_whitespace bytes off')
          else if byte = close then Inr (False, off')
          else json_error off' UnexpectedByte
      | (None, off') \<Rightarrow> json_error off' UnexpectedEnd)"

text \<open>The container loops over the parser of an element, \<open>self.value(depth)\<close>.\<close>

partial_function (option) array_loop ::
  "bytes \<Rightarrow> (usize \<Rightarrow> json_value parsed exec) \<Rightarrow> usize \<Rightarrow> json_value list \<Rightarrow> json_value parsed exec" where
  "array_loop bytes element off values =
     Option.bind (element off) (\<lambda>r. case r of
       Inl e \<Rightarrow> Some (Inl e)
     | Inr (v, off1) \<Rightarrow>
         (let values' = values @ [v] in
          case separator bytes 0x5D off1 of
            Inl e \<Rightarrow> Some (Inl e)
          | Inr (again, off2) \<Rightarrow>
              if again then array_loop bytes element off2 values' else Some (Inr (Array values', off2))))"

definition array :: "bytes \<Rightarrow> (usize \<Rightarrow> json_value parsed exec) \<Rightarrow> usize \<Rightarrow> json_value parsed exec" where
  "array bytes element off =
     (let off1 = skip_whitespace bytes (off + 1) in
      if peek bytes off1 = Some 0x5D then Some (Inr (Array [], off1 + 1))
      else array_loop bytes element off1 [])"

definition object_member ::
  "bytes \<Rightarrow> (usize \<Rightarrow> json_value parsed exec) \<Rightarrow> usize \<Rightarrow> (bytes \<times> json_value) list \<Rightarrow>
   ((bytes \<times> json_value) list) parsed exec" where
  "object_member bytes element off members =
     (if peek bytes off \<noteq> Some 0x22 then Some (json_error off UnexpectedByte)
      else and_then_exec (string bytes off) (\<lambda>(key, off1).
        let (colon, off2) = take_byte bytes (skip_whitespace bytes off1) in
        if colon \<noteq> Some 0x3A then Some (json_error off2 UnexpectedByte)
        else do {
          r \<leftarrow> element (skip_whitespace bytes off2);
          and_then_exec r (\<lambda>(v, off3).
            Some (if map_of members key \<noteq> None then json_error off3 (DuplicateField key)
                  else Inr (btree_insert key v members, off3))) }))"

partial_function (option) object_loop ::
  "bytes \<Rightarrow> (usize \<Rightarrow> json_value parsed exec) \<Rightarrow> usize \<Rightarrow> (bytes \<times> json_value) list \<Rightarrow> json_value parsed exec" where
  "object_loop bytes element off members =
     Option.bind (object_member bytes element off members) (\<lambda>r. case r of
       Inl e \<Rightarrow> Some (Inl e)
     | Inr (members', off1) \<Rightarrow>
         (case separator bytes 0x7D off1 of
            Inl e \<Rightarrow> Some (Inl e)
          | Inr (again, off2) \<Rightarrow>
              if again then object_loop bytes element off2 members' else Some (Inr (Object members', off2))))"

definition object :: "bytes \<Rightarrow> (usize \<Rightarrow> json_value parsed exec) \<Rightarrow> usize \<Rightarrow> json_value parsed exec" where
  "object bytes element off =
     (let off1 = skip_whitespace bytes (off + 1) in
      if peek bytes off1 = Some 0x7D then Some (Inr (Object [], off1 + 1))
      else object_loop bytes element off1 [])"

definition parsed_as :: "('a \<Rightarrow> 'b) \<Rightarrow> 'a parsed \<Rightarrow> 'b parsed" where
  "parsed_as f r = and_then r (\<lambda>(x, off). Inr (f x, off))"

function parse_value :: "bytes \<Rightarrow> usize \<Rightarrow> usize \<Rightarrow> json_value parsed exec" where
  "parse_value bytes depth off =
     (if MAX_DEPTH < depth then Some (json_error off NestingLimit)
      else case peek bytes off of
        None \<Rightarrow> Some (json_error off UnexpectedEnd)
      | Some byte \<Rightarrow>
          if byte = 0x6E then Some (parsed_as (\<lambda>_. Null) (literal bytes off [0x6E, 0x75, 0x6C, 0x6C]))
          else if byte = 0x74 then Some (parsed_as (\<lambda>_. Bool True) (literal bytes off [0x74, 0x72, 0x75, 0x65]))
          else if byte = 0x66 then
            Some (parsed_as (\<lambda>_. Bool False) (literal bytes off [0x66, 0x61, 0x6C, 0x73, 0x65]))
          else if byte = 0x22 then Some (parsed_as String (string bytes off))
          else if byte = 0x5B then array bytes (\<lambda>o'. parse_value bytes (depth + 1) o') off
          else if byte = 0x7B then object bytes (\<lambda>o'. parse_value bytes (depth + 1) o') off
          else if byte = 0x2D \<or> is_ascii_digit byte then
            do { r \<leftarrow> number bytes off; Some (parsed_as Number r) }
          else Some (json_error off UnexpectedByte))"
  by pat_completeness auto
termination
  by (relation "measure (\<lambda>(bytes, depth, off). Suc MAX_DEPTH - depth)") auto

definition parse :: "bytes \<Rightarrow> (parse_error + json_value) exec" where
  "parse bytes = do {
     r \<leftarrow> parse_value bytes 0 (skip_whitespace bytes 0);
     Some (and_then r (\<lambda>(v, off).
       let off' = skip_whitespace bytes off in
       if off' \<noteq> length bytes then json_error off' TrailingData else Inr v)) }"

declare skip_while.simps [simp del] string_loop.simps [simp del] parse_value.simps [simp del] utf8_valid.simps(2) [simp del]

end
