(* ===== verification/Json_Grammar.thy ===== *)
theory Json_Grammar
  imports Json "HOL-Library.Multiset"
begin

text \<open>
  The language of the parser as a grammar, RFC 8259 with the nesting limit and without duplicate keys, and the proofs
  that its lexical part (white space, strings, numbers) is what the scanning methods recognise.
\<close>

subsection \<open>The grammar\<close>

definition blank :: "bytes \<Rightarrow> bool" where
  "blank s \<longleftrightarrow> list_all is_whitespace s"

definition digit_string :: "bytes \<Rightarrow> bool" where
  "digit_string s \<longleftrightarrow> s \<noteq> [] \<and> list_all is_ascii_digit s"

definition integer_part :: "bytes \<Rightarrow> bool" where
  "integer_part s \<longleftrightarrow> s = [0x30] \<or> (\<exists>d ds. s = d # ds \<and> 0x31 \<le> d \<and> d \<le> 0x39 \<and> list_all is_ascii_digit ds)"

definition fraction_part :: "bytes \<Rightarrow> bool" where
  "fraction_part s \<longleftrightarrow> s = [] \<or> (\<exists>ds. s = 0x2E # ds \<and> digit_string ds)"

definition exponent_part :: "bytes \<Rightarrow> bool" where
  "exponent_part s \<longleftrightarrow> s = [] \<or>
     (\<exists>e sign ds. s = e # sign @ ds \<and> (e = 0x65 \<or> e = 0x45) \<and> (sign = [] \<or> sign = [0x2B] \<or> sign = [0x2D]) \<and>
        digit_string ds)"

definition number_text :: "bytes \<Rightarrow> bool" where
  "number_text s \<longleftrightarrow> (\<exists>sign i f e. s = sign @ i @ f @ e \<and> (sign = [] \<or> sign = [0x2D]) \<and>
     integer_part i \<and> fraction_part f \<and> exponent_part e)"

definition hex_value :: "u8 \<Rightarrow> nat option" where
  "hex_value b =
     (if 0x30 \<le> b \<and> b \<le> 0x39 then Some (b - 0x30)
      else if 0x61 \<le> b \<and> b \<le> 0x66 then Some (b - 0x61 + 10)
      else if 0x41 \<le> b \<and> b \<le> 0x46 then Some (b - 0x41 + 10)
      else None)"

fun hex_text :: "nat \<Rightarrow> bytes \<Rightarrow> nat option" where
  "hex_text v [] = Some v"
| "hex_text v (b # s) = (case hex_value b of Some d \<Rightarrow> hex_text (16 * v + d) s | None \<Rightarrow> None)"

definition quad :: "bytes \<Rightarrow> nat \<Rightarrow> bool" where
  "quad s n \<longleftrightarrow> length s = 4 \<and> hex_text 0 s = Some n"

definition simple_escape :: "u8 \<Rightarrow> u8 option" where
  "simple_escape =
     [0x22 \<mapsto> 0x22, 0x5C \<mapsto> 0x5C, 0x2F \<mapsto> 0x2F, 0x62 \<mapsto> 0x08, 0x66 \<mapsto> 0x0C, 0x6E \<mapsto> 0x0A, 0x72 \<mapsto> 0x0D, 0x74 \<mapsto> 0x09]"

text \<open>\<open>escape_text s d\<close>: the text \<open>s\<close> after a backslash stands for the bytes \<open>d\<close>.\<close>

inductive escape_text :: "bytes \<Rightarrow> bytes \<Rightarrow> bool" where
  escape_simple: "simple_escape c = Some e \<Longrightarrow> escape_text [c] [e]"
| escape_scalar: "quad h n \<Longrightarrow> n < 0xD800 \<or> 0xDFFF < n \<Longrightarrow> escape_text (0x75 # h) (encode_utf8 n)"
| escape_pair: "quad h n \<Longrightarrow> 0xD800 \<le> n \<Longrightarrow> n \<le> 0xDBFF \<Longrightarrow> quad l m \<Longrightarrow> 0xDC00 \<le> m \<Longrightarrow> m \<le> 0xDFFF \<Longrightarrow>
    escape_text (0x75 # h @ [0x5C, 0x75] @ l) (encode_utf8 (0x10000 + (n - 0xD800) * 0x400 + (m - 0xDC00)))"

inductive chars :: "bytes \<Rightarrow> bytes \<Rightarrow> bool" where
  chars_end: "chars [] []"
| chars_plain: "0x20 \<le> b \<Longrightarrow> b \<noteq> 0x22 \<Longrightarrow> b \<noteq> 0x5C \<Longrightarrow> chars s d \<Longrightarrow> chars (b # s) (b # d)"
| chars_escape: "escape_text x e \<Longrightarrow> chars s d \<Longrightarrow> chars (0x5C # x @ s) (e @ d)"

definition string_text :: "bytes \<Rightarrow> bytes \<Rightarrow> bool" where
  "string_text d s \<longleftrightarrow> (\<exists>c. s = 0x22 # c @ [0x22] \<and> chars c d \<and> utf8_valid d)"

inductive value_text :: "usize \<Rightarrow> json_value \<Rightarrow> bytes \<Rightarrow> bool"
  and elements_text :: "usize \<Rightarrow> json_value list \<Rightarrow> bytes \<Rightarrow> bool"
  and members_text :: "usize \<Rightarrow> (bytes \<times> json_value) list \<Rightarrow> bytes \<Rightarrow> bool" where
  text_null: "depth \<le> MAX_DEPTH \<Longrightarrow> value_text depth Null [0x6E, 0x75, 0x6C, 0x6C]"
| text_true: "depth \<le> MAX_DEPTH \<Longrightarrow> value_text depth (Bool True) [0x74, 0x72, 0x75, 0x65]"
| text_false: "depth \<le> MAX_DEPTH \<Longrightarrow> value_text depth (Bool False) [0x66, 0x61, 0x6C, 0x73, 0x65]"
| text_number: "depth \<le> MAX_DEPTH \<Longrightarrow> number_text s \<Longrightarrow> value_text depth (Number s) s"
| text_string: "depth \<le> MAX_DEPTH \<Longrightarrow> string_text d s \<Longrightarrow> value_text depth (String d) s"
| text_array_empty: "depth \<le> MAX_DEPTH \<Longrightarrow> blank w \<Longrightarrow> value_text depth (Array []) (0x5B # w @ [0x5D])"
| text_array: "depth \<le> MAX_DEPTH \<Longrightarrow> blank w \<Longrightarrow> elements_text (depth + 1) vs s \<Longrightarrow>
    value_text depth (Array vs) (0x5B # w @ s @ [0x5D])"
| text_object_empty: "depth \<le> MAX_DEPTH \<Longrightarrow> blank w \<Longrightarrow> value_text depth (Object []) (0x7B # w @ [0x7D])"
| text_object: "depth \<le> MAX_DEPTH \<Longrightarrow> blank w \<Longrightarrow> members_text (depth + 1) kvs s \<Longrightarrow>
    sorted_wrt (<) (map fst m) \<Longrightarrow> mset m = mset kvs \<Longrightarrow> value_text depth (Object m) (0x7B # w @ s @ [0x7D])"
| elements_one: "value_text depth v s \<Longrightarrow> blank w \<Longrightarrow> elements_text depth [v] (s @ w)"
| elements_more: "value_text depth v s \<Longrightarrow> blank w \<Longrightarrow> blank w' \<Longrightarrow> elements_text depth vs t \<Longrightarrow>
    elements_text depth (v # vs) (s @ w @ [0x2C] @ w' @ t)"
| members_one: "string_text k x \<Longrightarrow> blank w1 \<Longrightarrow> blank w2 \<Longrightarrow> value_text depth v s \<Longrightarrow> blank w \<Longrightarrow>
    members_text depth [(k, v)] (x @ w1 @ [0x3A] @ w2 @ s @ w)"
| members_more: "string_text k x \<Longrightarrow> blank w1 \<Longrightarrow> blank w2 \<Longrightarrow> value_text depth v s \<Longrightarrow> blank w \<Longrightarrow> blank w' \<Longrightarrow>
    members_text depth kvs t \<Longrightarrow>
    members_text depth ((k, v) # kvs) (x @ w1 @ [0x3A] @ w2 @ s @ w @ [0x2C] @ w' @ t)"

definition document :: "json_value \<Rightarrow> bytes \<Rightarrow> bool" where
  "document v bytes \<longleftrightarrow> (\<exists>w s w'. bytes = w @ s @ w' \<and> blank w \<and> value_text 0 v s \<and> blank w')"

subsection \<open>Slices of the input\<close>

lemma peek_eq_None: "peek bytes i = None \<longleftrightarrow> length bytes \<le> i"
  by (auto simp: peek_def)

lemma peek_None [simp]: "length bytes \<le> i \<Longrightarrow> peek bytes i = None"
  by (simp add: peek_eq_None)

lemma peek_Some_less: "peek bytes i = Some b \<Longrightarrow> i < length bytes"
  by (auto simp: peek_def split: if_splits)

lemma take_byte_Some [simp]: "take_byte bytes i = (Some b, j) \<longleftrightarrow> peek bytes i = Some b \<and> j = Suc i"
  by (auto simp: take_byte_def peek_def split: option.splits if_splits)

lemma take_byte_None [simp]: "take_byte bytes i = (None, j) \<longleftrightarrow> length bytes \<le> i \<and> j = i"
  by (auto simp: take_byte_def peek_def split: option.splits)

lemma slice_eq_Some: "slice bytes i j = Some s \<longleftrightarrow> i \<le> j \<and> j \<le> length bytes \<and> s = take (j - i) (drop i bytes)"
  by (auto simp: slice_def)

lemma slice_length: "slice bytes i j = Some s \<Longrightarrow> j = i + length s \<and> j \<le> length bytes"
  by (auto simp: slice_eq_Some)

lemma slice_Nil [simp]: "slice bytes i j = Some [] \<longleftrightarrow> i = j \<and> i \<le> length bytes"
  by (auto simp: slice_eq_Some)

lemma slice_Cons [simp]: "slice bytes i j = Some (b # s) \<longleftrightarrow> peek bytes i = Some b \<and> slice bytes (Suc i) j = Some s"
proof (cases "i < j \<and> j \<le> length bytes")
  case True
  then have "take (j - i) (drop i bytes) = bytes ! i # take (j - Suc i) (drop (Suc i) bytes)"
    by (simp add: Cons_nth_drop_Suc [symmetric] take_Cons' del: drop_Suc)
  with True show ?thesis by (auto simp: slice_eq_Some peek_def)
next
  case False
  then show ?thesis by (auto simp: slice_eq_Some peek_def split: if_splits)
qed

lemma slice_append [simp]:
  fixes bytes :: bytes
  shows "slice bytes i j = Some (s @ t) \<longleftrightarrow>
    slice bytes i (i + length s) = Some s \<and> slice bytes (i + length s) j = Some t"
proof (induction s arbitrary: i)
  case Nil
  then show ?case by (auto simp: slice_eq_Some)
qed auto

lemma slice_join:
  fixes bytes :: bytes
  shows "slice bytes i j = Some s \<Longrightarrow> slice bytes j k = Some t \<Longrightarrow> slice bytes i k = Some (s @ t)"
  using slice_length [of bytes i j s] by simp

lemma slice_whole: "slice bytes 0 (length bytes) = Some s \<longleftrightarrow> s = bytes"
  by (auto simp: slice_eq_Some)

subsection \<open>Scanning\<close>

definition stops :: "(u8 \<Rightarrow> bool) \<Rightarrow> bytes \<Rightarrow> usize \<Rightarrow> bool" where
  "stops p bytes i \<longleftrightarrow> (\<forall>b. peek bytes i = Some b \<longrightarrow> \<not> p b)"

lemma skip_while_slice:
  "off \<le> length bytes \<Longrightarrow> \<exists>s. slice bytes off (skip_while p bytes off) = Some s \<and> list_all p s \<and>
     stops p bytes (skip_while p bytes off)"
proof (induction p bytes off rule: skip_while.induct)
  case (1 p bytes off)
  show ?case
  proof (cases "\<exists>b. peek bytes off = Some b \<and> p b")
    case True
    then obtain b where b: "peek bytes off = Some b" "p b" by blast
    have "Suc off \<le> length bytes" using peek_Some_less [OF b(1)] by simp
    with 1(1) [OF b] obtain s where "slice bytes (Suc off) (skip_while p bytes (off + 1)) = Some s" "list_all p s"
        "stops p bytes (skip_while p bytes (off + 1))"
      by auto
    then show ?thesis using b by (subst (1 2) skip_while.simps) (auto intro!: exI [of _ "b # s"])
  next
    case False
    then have "skip_while p bytes off = off" by (subst skip_while.simps) (auto split: option.splits)
    then show ?thesis using False 1(2) by (auto simp: stops_def intro!: exI [of _ "[]"])
  qed
qed

lemma skip_while_unique:
  "slice bytes off j = Some s \<Longrightarrow> list_all p s \<Longrightarrow> stops p bytes j \<Longrightarrow> skip_while p bytes off = j"
proof (induction s arbitrary: off)
  case Nil
  then show ?case by (subst skip_while.simps) (auto simp: stops_def split: option.splits)
next
  case (Cons b s)
  then show ?case by (subst skip_while.simps) auto
qed

lemma skip_whitespace_slice:
  assumes "off \<le> length bytes"
  obtains w where "slice bytes off (skip_whitespace bytes off) = Some w" "blank w"
    "stops is_whitespace bytes (skip_whitespace bytes off)" "skip_whitespace bytes off \<le> length bytes"
  using skip_while_slice [OF assms, of is_whitespace] that slice_length
  unfolding skip_whitespace_def blank_def by blast

lemma skip_whitespace_unique:
  "slice bytes off j = Some w \<Longrightarrow> blank w \<Longrightarrow> stops is_whitespace bytes j \<Longrightarrow> skip_whitespace bytes off = j"
  unfolding skip_whitespace_def blank_def by (rule skip_while_unique)

text \<open>A result of a parsing method: an error inside the input, or a value whose text has been consumed.\<close>

definition yields :: "bytes \<Rightarrow> usize \<Rightarrow> ('a \<Rightarrow> bytes \<Rightarrow> bool) \<Rightarrow> 'a parsed \<Rightarrow> bool" where
  "yields bytes off P r \<longleftrightarrow>
     (case r of Inl e \<Rightarrow> je_offset e \<le> length bytes | Inr (x, j) \<Rightarrow> \<exists>s. slice bytes off j = Some s \<and> P x s)"

lemma yields_error [simp]: "yields bytes off P (json_error i k) \<longleftrightarrow> i \<le> length bytes"
  by (simp add: yields_def json_error_def)

lemma yields_Inl [simp]: "yields bytes off P (Inl e) \<longleftrightarrow> je_offset e \<le> length bytes"
  by (simp add: yields_def)

lemma yields_Inr [simp]: "yields bytes off P (Inr (x, j)) \<longleftrightarrow> (\<exists>s. slice bytes off j = Some s \<and> P x s)"
  by (simp add: yields_def)

lemma yields_and_then:
  assumes "yields bytes off P r"
    and "\<And>x j s. slice bytes off j = Some s \<Longrightarrow> P x s \<Longrightarrow> yields bytes off Q (f (x, j))"
  shows "yields bytes off Q (and_then r f)"
proof (cases r)
  case (Inr y)
  with assms(1) obtain x j s where "y = (x, j)" "slice bytes off j = Some s" "P x s"
    by (cases y) auto
  with assms(2) show ?thesis by (simp add: Inr)
qed (use assms(1) in simp)

lemma yields_prefix:
  assumes "slice bytes off j = Some p" "yields bytes j P r" "\<And>x s. P x s \<Longrightarrow> Q x (p @ s)"
  shows "yields bytes off Q r"
  using assms slice_join [OF assms(1)] by (cases r) (fastforce simp del: slice_append)+

lemma and_then_error [simp]: "and_then (json_error i k) f = json_error i k"
  by (simp add: json_error_def)

subsection \<open>Hexadecimal escapes\<close>

lemma nibble_or:
  fixes v :: "16 word"
  assumes d: "d < 16" and v: "unat v < 4096"
  shows "unat (push_bit 4 v OR word_of_nat d) = 16 * unat v + d"
proof -
  have "take_bit 4 d = d" using d by (simp add: take_bit_nat_eq_self)
  then have bit_d: "bit d k \<Longrightarrow> k < 4" for k by (metis bit_take_bit_iff)
  have "push_bit 4 v AND word_of_nat d = (0 :: 16 word)"
    by (rule bit_eqI) (auto simp: bit_simps dest: bit_d)
  then have "push_bit 4 v OR word_of_nat d = push_bit 4 v + word_of_nat d"
    by (simp add: disjunctive_add_eq_or)
  also have "\<dots> = word_of_nat (16 * unat v + d)"
    by (simp add: push_bit_eq_mult mult.commute)
  finally have "unat (push_bit 4 v OR word_of_nat d) = take_bit 16 (16 * unat v + d)"
    by (simp only: unsigned_of_nat) simp
  then show ?thesis using d v by (simp add: take_bit_nat_eq_self)
qed

lemma hex_value_less: "hex_value b = Some d \<Longrightarrow> d < 16"
  by (auto simp: hex_value_def split: if_splits)

lemma hex_step:
  "hex_quad_loop (Suc n) bytes off v =
     (case peek bytes off of
        None \<Rightarrow> json_error off UnexpectedEnd
      | Some b \<Rightarrow> (case hex_value b of
          None \<Rightarrow> json_error (Suc off) InvalidEscape
        | Some d \<Rightarrow> hex_quad_loop n bytes (Suc off) (push_bit 4 v OR word_of_nat d)))"
  by (simp add: take_byte_def hex_value_def json_error_def split: option.splits)

declare hex_quad_loop.simps(2) [simp del]

lemma hex_nibble:
  fixes v :: "16 word"
  assumes "hex_value b = Some d" "n < 4" "unat v < 16 ^ (3 - n)"
  shows "unat (push_bit 4 v OR word_of_nat d) = 16 * unat v + d"
    and "unat (push_bit 4 v OR word_of_nat d) < 16 ^ (4 - n)"
proof -
  note d = hex_value_less [OF assms(1)]
  have "(16 :: nat) ^ (3 - n) \<le> 16 ^ 3" by (rule power_increasing) simp_all
  with assms(3) have "unat v < 4096" by simp
  then show u: "unat (push_bit 4 v OR word_of_nat d) = 16 * unat v + d" by (rule nibble_or [OF d])
  have "4 - n = Suc (3 - n)" using assms(2) by simp
  then show "unat (push_bit 4 v OR word_of_nat d) < 16 ^ (4 - n)" using u d assms(3) by simp
qed

lemma hex_quad_loop_sound:
  "off \<le> length bytes \<Longrightarrow> n \<le> 4 \<Longrightarrow> unat v < 16 ^ (4 - n) \<Longrightarrow>
   yields bytes off (\<lambda>w s. length s = n \<and> hex_text (unat v) s = Some (unat w)) (hex_quad_loop n bytes off v)"
proof (induction n arbitrary: off v)
  case (Suc n)
  show ?case
  proof (cases "\<exists>b d. peek bytes off = Some b \<and> hex_value b = Some d")
    case True
    then obtain b d where b: "peek bytes off = Some b" "hex_value b = Some d" by blast
    have "n < 4" "unat v < 16 ^ (3 - n)" using Suc.prems by simp_all
    note u = hex_nibble [OF b(2) this]
    have "yields bytes (Suc off) (\<lambda>w s. length s = n \<and> hex_text (16 * unat v + d) s = Some (unat w))
        (hex_quad_loop n bytes (Suc off) (push_bit 4 v OR word_of_nat d))"
      using Suc.IH [of "Suc off" "push_bit 4 v OR word_of_nat d"] Suc.prems u peek_Some_less [OF b(1)] by simp
    then show ?thesis using b peek_Some_less [OF b(1)]
      by (auto simp: hex_step elim!: yields_prefix [of bytes off "Suc off" "[b]", rotated])
  next
    case False
    then show ?thesis using Suc.prems
      by (auto simp: hex_step dest: peek_Some_less split: option.splits)
  qed
qed (auto intro: exI [of _ "[]"])

lemma hex_quad_loop_complete:
  "slice bytes off j = Some s \<Longrightarrow> length s \<le> 4 \<Longrightarrow> unat v < 16 ^ (4 - length s) \<Longrightarrow> hex_text (unat v) s = Some m \<Longrightarrow>
   \<exists>w. hex_quad_loop (length s) bytes off v = Inr (w, j) \<and> unat w = m"
proof (induction s arbitrary: off v)
  case (Cons b s)
  then obtain d where d: "hex_value b = Some d" by (auto split: option.splits)
  have "length s < 4" "unat v < 16 ^ (3 - length s)" using Cons.prems by simp_all
  note u = hex_nibble [OF d this]
  show ?case using Cons.IH [of "Suc off" "push_bit 4 v OR word_of_nat d"] Cons.prems u d by (simp add: hex_step)
qed simp

lemma hex_quad_sound: "off \<le> length bytes \<Longrightarrow> yields bytes off (\<lambda>n s. quad s n) (hex_quad bytes off)"
  unfolding hex_quad_def
  by (rule yields_and_then [OF hex_quad_loop_sound]) (auto simp: quad_def)

lemma hex_quad_complete: "slice bytes off j = Some s \<Longrightarrow> quad s n \<Longrightarrow> hex_quad bytes off = Inr (n, j)"
  using hex_quad_loop_complete [of bytes off j s 0 n] by (auto simp: quad_def hex_quad_def)

lemma quad_less: "quad s n \<Longrightarrow> n < 0x10000"
proof -
  have "hex_text v t = Some n \<Longrightarrow> n < (v + 1) * 16 ^ length t" for v t
  proof (induction t arbitrary: v)
    case (Cons b t)
    then obtain d where d: "hex_value b = Some d" by (auto split: option.splits)
    with Cons have "n < (16 * v + d + 1) * 16 ^ length t" by simp
    also have "\<dots> \<le> (16 * v + 16) * 16 ^ length t" using hex_value_less [OF d] by (intro mult_le_mono1) simp
    finally show ?case by (simp add: algebra_simps)
  qed simp
  from this [of 0 s] show "quad s n \<Longrightarrow> n < 0x10000" by (simp add: quad_def)
qed

lemma unicode_escape_sound:
  assumes "off \<le> length bytes"
  shows "yields bytes off (\<lambda>d s. \<exists>e. d = decoded @ e \<and> escape_text (0x75 # s) e) (unicode_escape bytes off decoded)"
  unfolding unicode_escape_def
proof (rule yields_and_then [OF hex_quad_sound [OF assms]])
  fix n o1 h assume h: "slice bytes off o1 = Some h" "quad h n"
  note o1 = slice_length [OF h(1)]
  show "yields bytes off (\<lambda>d s. \<exists>e. d = decoded @ e \<and> escape_text (0x75 # s) e)
    ((\<lambda>(first, off1). and_then
       (if 0xD800 \<le> first \<and> first \<le> 0xDBFF then
          (let (b1, off2) = take_byte bytes off1 in
           if b1 \<noteq> Some 0x5C then json_error off2 InvalidUnicode
           else let (b2, off3) = take_byte bytes off2 in
             if b2 \<noteq> Some 0x75 then json_error off3 InvalidUnicode
             else and_then (hex_quad bytes off3) (\<lambda>(second, off4).
               if \<not> (0xDC00 \<le> second \<and> second \<le> 0xDFFF) then json_error off4 InvalidUnicode
               else Inr (0x10000 + push_bit 10 (first - 0xD800) + (second - 0xDC00), off4)))
        else if 0xDC00 \<le> first \<and> first \<le> 0xDFFF then json_error off1 InvalidUnicode
        else Inr (first, off1))
       (\<lambda>(scalar, off').
          case char_from_u32 scalar of
            None \<Rightarrow> json_error off' InvalidUnicode
          | Some character \<Rightarrow> Inr (decoded @ encode_utf8 character, off'))) (n, o1))"
  proof (cases "0xD800 \<le> n \<and> n \<le> 0xDBFF")
    case False
    then show ?thesis using h o1 quad_less [OF h(2)]
      by (auto simp: char_from_u32_def intro!: exI [of _ h] escape_scalar)
  next
    case True
    show ?thesis
    proof (cases "peek bytes o1 = Some 0x5C \<and> peek bytes (Suc o1) = Some 0x75")
      case True
      note b = this
      from b have o3: "o1 + 2 \<le> length bytes" by (auto dest: peek_Some_less)
      show ?thesis
      proof (cases "hex_quad bytes (o1 + 2)")
        case (Inl e)
        then show ?thesis using hex_quad_sound [OF o3] True b \<open>0xD800 \<le> n \<and> n \<le> 0xDBFF\<close> by (simp add: take_byte_def)
      next
        case (Inr y)
        obtain m j l where y: "y = (m, j)" "slice bytes (o1 + 2) j = Some l" "quad l m"
          using hex_quad_sound [OF o3] Inr by (cases y) auto
        have s: "slice bytes off j = Some (h @ [0x5C, 0x75] @ l)" using h(1) o1 y(2) b by simp
        have p: "push_bit 10 (n - 0xD800) = (n - 0xD800) * 0x400" by (simp add: push_bit_eq_mult)
        show ?thesis
          using Inr y b \<open>0xD800 \<le> n \<and> n \<le> 0xDBFF\<close> slice_length [OF y(2)] escape_pair [OF h(2) _ _ y(3)] s
          by (auto simp: take_byte_def char_from_u32_def p intro!: exI [of _ "h @ [0x5C, 0x75] @ l"])
      qed
    next
      case False
      then show ?thesis using \<open>0xD800 \<le> n \<and> n \<le> 0xDBFF\<close> o1
        by (auto simp: take_byte_def dest!: peek_Some_less split: option.splits)
    qed
  qed
qed

lemma unicode_escape_complete:
  assumes "slice bytes off j = Some s" "escape_text (0x75 # s) e"
  shows "unicode_escape bytes off decoded = Inr (decoded @ e, j)"
  using assms(2)
proof cases
  case (escape_simple c)
  then show ?thesis by (simp add: simple_escape_def split: if_splits)
next
  case (escape_scalar n)
  then show ?thesis using hex_quad_complete [OF assms(1)] quad_less [of s n]
    by (auto simp: unicode_escape_def char_from_u32_def)
next
  case (escape_pair h n l m)
  have h: "hex_quad bytes off = Inr (n, off + length h)"
    using assms(1) escape_pair by (intro hex_quad_complete) auto
  have l: "hex_quad bytes (off + length h + 2) = Inr (m, j)"
    using assms(1) escape_pair by (intro hex_quad_complete) auto
  have p: "push_bit 10 (n - 0xD800) = (n - 0xD800) * 0x400" by (simp add: push_bit_eq_mult)
  have "(n - 0xD800) * 0x400 \<le> 0x3FF * 0x400" using escape_pair by (intro mult_le_mono1) simp
  then have "(n - 0xD800) * 0x400 + m < 1104896" using escape_pair by simp
  then show ?thesis using assms(1) escape_pair h l by (simp add: unicode_escape_def take_byte_def char_from_u32_def p)
qed

lemma escape_step:
  "escape bytes off decoded =
     (case peek bytes off of
        None \<Rightarrow> json_error off UnexpectedEnd
      | Some c \<Rightarrow> if c = 0x75 then unicode_escape bytes (Suc off) decoded
          else (case simple_escape c of
             None \<Rightarrow> json_error (Suc off) InvalidEscape
           | Some e \<Rightarrow> Inr (decoded @ [e], Suc off)))"
  by (simp add: escape_def take_byte_def simple_escape_def split: option.splits)

lemma escape_sound:
  assumes "off \<le> length bytes"
  shows "yields bytes off (\<lambda>d s. \<exists>e. d = decoded @ e \<and> escape_text s e) (escape bytes off decoded)"
proof (cases "peek bytes off")
  case (Some c)
  show ?thesis
  proof (cases "c = 0x75")
    case True
    have "yields bytes (Suc off) (\<lambda>d s. \<exists>e. d = decoded @ e \<and> escape_text (0x75 # s) e)
        (unicode_escape bytes (Suc off) decoded)"
      using peek_Some_less [OF Some] by (intro unicode_escape_sound) simp
    then show ?thesis using Some True peek_Some_less [OF Some]
      by (auto simp: escape_step elim!: yields_prefix [of bytes off "Suc off" "[0x75]", rotated])
  next
    case False
    then show ?thesis using Some peek_Some_less [OF Some]
      by (auto simp: escape_step split: option.splits intro!: exI [of _ "[c]"] escape_simple)
  qed
qed (use assms in \<open>auto simp: escape_step dest: peek_Some_less split: option.splits\<close>)

lemma escape_complete:
  assumes "slice bytes off j = Some s" "escape_text s e"
  shows "escape bytes off decoded = Inr (decoded @ e, j)"
  using assms(2)
proof cases
  case (escape_simple c e)
  then show ?thesis using assms(1) by (auto simp: escape_step simple_escape_def split: if_splits)
next
  case (escape_scalar h n)
  then show ?thesis using assms unicode_escape_complete [of bytes "Suc off" j h e] by (simp add: escape_step)
next
  case (escape_pair h n l m)
  then show ?thesis using assms unicode_escape_complete [of bytes "Suc off" j "h @ [0x5C, 0x75] @ l" e]
    by (simp add: escape_step)
qed

subsection \<open>Strings\<close>

lemma string_loop_sound:
  "off \<le> length bytes \<Longrightarrow>
   yields bytes off (\<lambda>d s. \<exists>c e. s = c @ [0x22] \<and> chars c e \<and> d = decoded @ e \<and> utf8_valid d)
     (string_loop bytes off decoded)"
proof (induction bytes off decoded rule: string_loop.induct)
  case (1 bytes off decoded)
  show ?case
  proof (cases "peek bytes off")
    case None
    then show ?thesis using 1(3) by (subst string_loop.simps) (simp add: take_byte_def)
  next
    case (Some b)
    note less = peek_Some_less [OF Some]
    have t: "take_byte bytes off = (Some b, Suc off)" using Some by simp
    consider "b = 0x22" | "b = 0x5C" | "b \<le> 0x1F" | "b \<noteq> 0x22" "b \<noteq> 0x5C" "\<not> b \<le> 0x1F" by blast
    then show ?thesis
    proof cases
      case 1
      then have "slice bytes off (Suc off) = Some ([] @ [0x22])" using Some less by simp
      then have "\<exists>s. slice bytes off (Suc off) = Some s \<and> (\<exists>c e. s = c @ [0x22] \<and> chars c e \<and> decoded = decoded @ e)"
        using chars_end by blast
      then show ?thesis using 1 less by (subst string_loop.simps) (simp add: t)
    next
      case b: 2
      show ?thesis
      proof (cases "escape bytes (Suc off) decoded")
        case (Inl e)
        then show ?thesis using b less escape_sound [of "Suc off" bytes decoded]
          by (subst string_loop.simps) (simp add: t)
      next
        case (Inr y)
        obtain d j x e where y: "y = (d, j)" "slice bytes (Suc off) j = Some x" "d = decoded @ e" "escape_text x e"
          using Inr less escape_sound [of "Suc off" bytes decoded] by (cases y) auto
        have "yields bytes j (\<lambda>d' s. \<exists>c e. s = c @ [0x22] \<and> chars c e \<and> d' = d @ e \<and> utf8_valid d')
            (string_loop bytes j d)"
          using 1(1) [OF t [symmetric] refl, of "(d, j)" d j] Inr y slice_length [OF y(2)] b by auto
        moreover have "string_loop bytes off decoded = string_loop bytes j d"
          using b Inr y(1) by (subst string_loop.simps) (simp add: t)
        moreover have "slice bytes off j = Some (0x5C # x)" using y Some b by simp
        moreover have "\<exists>c' f. (0x5C # x) @ s = c' @ [0x22] \<and> chars c' f \<and> d' = decoded @ f \<and> utf8_valid d'"
          if "\<exists>c f. s = c @ [0x22] \<and> chars c f \<and> d' = d @ f \<and> utf8_valid d'" for d' s
        proof -
          from that obtain c f where "s = c @ [0x22]" "chars c f" "d' = d @ f" "utf8_valid d'" by blast
          then show ?thesis using chars_escape [OF y(4), of c f] y(3)
            by (intro exI [of _ "0x5C # x @ c"] exI [of _ "e @ f"]) simp
        qed
        ultimately show ?thesis by (simp only:) (rule yields_prefix)
      qed
    next
      case 3
      then show ?thesis using less by (subst string_loop.simps) (simp add: t)
    next
      case 4
      have "yields bytes (Suc off) (\<lambda>d s. \<exists>c e. s = c @ [0x22] \<and> chars c e \<and> d = (decoded @ [b]) @ e \<and> utf8_valid d)
          (string_loop bytes (Suc off) (decoded @ [b]))"
        using 1(2) [OF t [symmetric] refl] 4 less by simp
      moreover have "string_loop bytes off decoded = string_loop bytes (Suc off) (decoded @ [b])"
        using 4 by (subst string_loop.simps) (simp add: t)
      moreover have "slice bytes off (Suc off) = Some [b]" using Some less by simp
      moreover have "\<exists>c' f. [b] @ s = c' @ [0x22] \<and> chars c' f \<and> d' = decoded @ f \<and> utf8_valid d'"
        if "\<exists>c f. s = c @ [0x22] \<and> chars c f \<and> d' = (decoded @ [b]) @ f \<and> utf8_valid d'" for d' s
      proof -
        from that obtain c f where "s = c @ [0x22]" "chars c f" "d' = (decoded @ [b]) @ f" "utf8_valid d'" by blast
        then show ?thesis using chars_plain [of b c f] 4 by (intro exI [of _ "b # c"] exI [of _ "b # f"]) simp
      qed
      ultimately show ?thesis by (simp only:) (rule yields_prefix)
    qed
  qed
qed

lemma string_loop_complete:
  "chars c e \<Longrightarrow> slice bytes off j = Some (c @ [0x22]) \<Longrightarrow> utf8_valid (decoded @ e) \<Longrightarrow>
   string_loop bytes off decoded = Inr (decoded @ e, j)"
proof (induction arbitrary: off decoded rule: chars.induct)
  case chars_end
  then show ?case by (subst string_loop.simps) (simp add: take_byte_def)
next
  case (chars_plain b s d)
  then show ?case by (subst string_loop.simps) (simp add: take_byte_def)
next
  case (chars_escape x e s d)
  have "escape bytes (Suc off) decoded = Inr (decoded @ e, Suc off + length x)"
    using chars_escape by (intro escape_complete) auto
  then show ?case using chars_escape by (subst string_loop.simps) (simp add: take_byte_def)
qed

lemma string_sound: "off \<le> length bytes \<Longrightarrow> yields bytes off string_text (string bytes off)"
proof (cases "peek bytes off = Some 0x22")
  case True
  then have s: "string bytes off = string_loop bytes (Suc off) []" by (simp add: string_def take_byte_def)
  have y: "yields bytes (Suc off) (\<lambda>d s. \<exists>c e. s = c @ [0x22] \<and> chars c e \<and> d = [] @ e \<and> utf8_valid d)
      (string bytes off)"
    unfolding s by (rule string_loop_sound) (use peek_Some_less [OF True] in simp)
  show ?thesis by (rule yields_prefix [OF _ y, of off "[0x22]"])
    (use True peek_Some_less [OF True] in \<open>auto simp: string_text_def\<close>)
next
  case False
  then show "off \<le> length bytes \<Longrightarrow> ?thesis"
    by (auto simp: string_def take_byte_def dest: peek_Some_less split: option.splits)
qed

lemma string_complete: "slice bytes off j = Some s \<Longrightarrow> string_text d s \<Longrightarrow> string bytes off = Inr (d, j)"
  using string_loop_complete [of _ d bytes "Suc off" j "[]"]
  by (auto simp: string_text_def string_def take_byte_def)

end
