(* ===== verification/Json_Sound.thy ===== *)
theory Json_Sound
  imports Json_Grammar
begin

text \<open>
  Soundness of the parser: every method returns without panicking, with an error inside the input or with a result
  whose text, by the grammar, has been consumed.  Numbers are also shown complete.
\<close>

subsection \<open>Numbers\<close>

lemma utf8_valid_ascii: "list_all (\<lambda>b. b < 0x80) s \<Longrightarrow> utf8_valid s"
  by (induction s) (simp_all add: utf8_valid.simps)

lemma digits_ascii: "list_all is_ascii_digit s \<Longrightarrow> list_all (\<lambda>b. b < 0x80) s"
  by (auto simp: list_all_iff is_ascii_digit_def)

lemma number_text_ascii: "number_text s \<Longrightarrow> utf8_valid s"
  by (rule utf8_valid_ascii)
     (auto simp: number_text_def integer_part_def fraction_part_def exponent_part_def digit_string_def
           dest!: digits_ascii)

lemma digits_sound: "off \<le> length bytes \<Longrightarrow> yields bytes off (\<lambda>_ s. digit_string s) (digits bytes off)"
  using skip_while_slice [of off bytes is_ascii_digit]
  by (auto simp: digits_def Let_def digit_string_def)

lemma digits_complete:
  "slice bytes off j = Some s \<Longrightarrow> digit_string s \<Longrightarrow> stops is_ascii_digit bytes j \<Longrightarrow> digits bytes off = Inr ((), j)"
  using skip_while_unique [of bytes off j s is_ascii_digit] slice_length [of bytes off j s]
  by (simp add: digits_def digit_string_def)

lemma number_integer_sound:
  "off \<le> length bytes \<Longrightarrow> yields bytes off (\<lambda>_ s. integer_part s) (number_integer bytes off)"
proof (cases "peek bytes off")
  case (Some b)
  note less = peek_Some_less [OF Some]
  obtain s where s: "slice bytes (Suc off) (skip_while is_ascii_digit bytes (Suc off)) = Some s"
      "list_all is_ascii_digit s"
    using skip_while_slice [of "Suc off" bytes is_ascii_digit] less by auto
  have "slice bytes off (skip_while is_ascii_digit bytes (Suc off)) = Some (b # s)" using Some s(1) by simp
  moreover have "slice bytes off (Suc off) = Some [b]" using Some less by simp
  ultimately show ?thesis using Some less s(2)
    by (auto simp: number_integer_def take_byte_def integer_part_def simp del: slice_Cons split: option.splits)
qed (simp add: number_integer_def take_byte_def)

lemma number_integer_complete:
  assumes "slice bytes off j = Some s" "integer_part s" "stops is_ascii_digit bytes j"
  shows "number_integer bytes off = Inr ((), j)"
  using assms(2) unfolding integer_part_def
proof (elim disjE exE conjE)
  assume "s = [0x30]"
  then show ?thesis using assms
    by (auto simp: number_integer_def take_byte_def stops_def split: option.splits)
next
  fix d ds assume s: "s = d # ds" "0x31 \<le> d" "d \<le> 0x39" "list_all is_ascii_digit ds"
  have "skip_while is_ascii_digit bytes (Suc off) = j"
    using assms s by (intro skip_while_unique) auto
  then show ?thesis using assms s by (simp add: number_integer_def take_byte_def)
qed

lemma yields_and_then_exec:
  assumes "yields bytes off P r"
    and "\<And>x j s. slice bytes off j = Some s \<Longrightarrow> P x s \<Longrightarrow> \<exists>t. f (x, j) = Some t \<and> yields bytes off Q t"
  shows "\<exists>t. and_then_exec r f = Some t \<and> yields bytes off Q t"
proof (cases r)
  case (Inr y)
  with assms(1) obtain x j s where "y = (x, j)" "slice bytes off j = Some s" "P x s" by (cases y) auto
  with assms(2) show ?thesis by (simp add: Inr)
qed (use assms(1) in simp)

lemma optional_sound:
  assumes "slice bytes off j = Some p" "c \<Longrightarrow> yields bytes j (\<lambda>_. P) r" "P []"
  shows "yields bytes off (\<lambda>_ s. \<exists>t. s = p @ t \<and> P t) (if c then r else Inr (x, j))"
proof (cases c)
  case True
  have "yields bytes off (\<lambda>_ s. \<exists>t. s = p @ t \<and> P t) r"
    by (rule yields_prefix [OF assms(1,2)]) (use True in auto)
  then show ?thesis using True by simp
next
  case False
  then show ?thesis using assms by auto
qed

lemma exponent_intro:
  assumes "e = 0x65 \<or> e = 0x45" "digit_string ds"
  shows "exponent_part (e # ds)" "exponent_part (e # 0x2B # ds)" "exponent_part (e # 0x2D # ds)"
proof -
  have "exponent_part (e # sign @ ds)" if "sign = [] \<or> sign = [0x2B] \<or> sign = [0x2D]" for sign
    using assms that unfolding exponent_part_def by blast
  from this [of "[]"] this [of "[0x2B]"] this [of "[0x2D]"]
  show "exponent_part (e # ds)" "exponent_part (e # 0x2B # ds)" "exponent_part (e # 0x2D # ds)" by simp_all
qed

lemma exponent_cases:
  assumes "exponent_part s"
  obtains "s = []" | e ds where "e = 0x65 \<or> e = 0x45" "digit_string ds" "s = e # ds"
    | e sign ds where "e = 0x65 \<or> e = 0x45" "digit_string ds" "sign = 0x2B \<or> sign = 0x2D" "s = e # sign # ds"
  using assms unfolding exponent_part_def by auto

lemma fraction_sound:
  assumes "peek bytes j = Some 0x2E"
  shows "yields bytes j (\<lambda>_ s. fraction_part s) (digits bytes (j + 1))"
  by (rule yields_prefix [where off = j and p = "[0x2E]", OF _ digits_sound])
     (use assms peek_Some_less [OF assms] in \<open>auto simp: fraction_part_def\<close>)

lemma exponent_sound:
  assumes "peek bytes j = Some 0x65 \<or> peek bytes j = Some 0x45"
  shows "yields bytes j (\<lambda>_ s. exponent_part s)
    (let off3 = j + 1;
         off4 = (if peek bytes off3 = Some 0x2B \<or> peek bytes off3 = Some 0x2D then off3 + 1 else off3)
     in digits bytes off4)"
proof -
  obtain e where e: "peek bytes j = Some e" "e = 0x65 \<or> e = 0x45" using assms by blast
  note less = peek_Some_less [OF e(1)]
  consider "peek bytes (j + 1) = Some 0x2B" | "peek bytes (j + 1) = Some 0x2D"
    | "\<not> (peek bytes (j + 1) = Some 0x2B \<or> peek bytes (j + 1) = Some 0x2D)" by blast
  then show ?thesis
  proof cases
    case 1
    show ?thesis using 1 e peek_Some_less [OF 1]
      by (auto simp: exponent_intro intro!: yields_prefix [where off = j and p = "[e, 0x2B]", OF _ digits_sound])
  next
    case 2
    show ?thesis using 2 e peek_Some_less [OF 2]
      by (auto simp: exponent_intro intro!: yields_prefix [where off = j and p = "[e, 0x2D]", OF _ digits_sound])
  next
    case 3
    then show ?thesis using e less
      by (auto simp: exponent_intro intro!: yields_prefix [where off = j and p = "[e]", OF _ digits_sound])
  qed
qed

lemma number_sound:
  assumes off: "off \<le> length bytes"
  shows "\<exists>r. number bytes off = Some r \<and> yields bytes off (\<lambda>x s. x = s \<and> number_text s) r"
proof -
  define o0 where "o0 = (if peek bytes off = Some 0x2D then off + 1 else off)"
  define sign where "sign = (if peek bytes off = Some 0x2D then [0x2D] else [] :: bytes)"
  have sign: "slice bytes off o0 = Some sign" "sign = [] \<or> sign = [0x2D]" "o0 \<le> length bytes"
    using off by (auto simp: o0_def sign_def dest: peek_Some_less)
  have i: "yields bytes off (\<lambda>_ s. \<exists>i. s = sign @ i \<and> integer_part i) (number_integer bytes o0)"
    by (rule yields_prefix [OF sign(1) number_integer_sound]) (use sign(3) in auto)
  show ?thesis unfolding number_def o0_def [symmetric] Let_def
  proof (rule yields_and_then_exec [OF i], goal_cases)
    case (1 _ o1 s1)
    then obtain i where s1: "s1 = sign @ i" "integer_part i" by blast
    have f: "yields bytes off (\<lambda>_ s. \<exists>t. s = s1 @ t \<and> fraction_part t)
        (if peek bytes o1 = Some 0x2E then digits bytes (o1 + 1) else Inr ((), o1))"
      by (rule optional_sound [OF 1(1) fraction_sound]) (auto simp: fraction_part_def)
    show ?case unfolding prod.case
    proof (rule yields_and_then_exec [OF f], goal_cases)
      case (1 _ o2 s2)
      then obtain f where s2: "s2 = s1 @ f" "fraction_part f" by blast
      have e: "yields bytes off (\<lambda>_ s. \<exists>t. s = s2 @ t \<and> exponent_part t)
          (if peek bytes o2 = Some 0x65 \<or> peek bytes o2 = Some 0x45 then
            digits bytes (if peek bytes (o2 + 1) = Some 0x2B \<or> peek bytes (o2 + 1) = Some 0x2D
              then o2 + 1 + 1 else o2 + 1)
           else Inr ((), o2))"
        by (rule optional_sound [OF 1(1) exponent_sound [unfolded Let_def]]) (auto simp: exponent_part_def)
      show ?case unfolding prod.case
      proof (rule yields_and_then_exec [OF e], goal_cases)
        case (1 _ o3 s3)
        then obtain e where "s3 = s2 @ e" "exponent_part e" by blast
        with s1 s2 sign(2) have "number_text s3" unfolding number_text_def by auto
        with 1(1) number_text_ascii show ?case by auto
      qed
    qed
  qed
qed

text \<open>What may follow a value: a number is delimited by what is not part of a longer one.\<close>

definition in_number :: "u8 \<Rightarrow> bool" where
  "in_number b \<longleftrightarrow> is_ascii_digit b \<or> b = 0x2E \<or> b = 0x65 \<or> b = 0x45"

lemma exponent_complete:
  assumes "exponent_part e" "slice bytes o2 j = Some e" "stops in_number bytes j"
  shows "(if peek bytes o2 = Some 0x65 \<or> peek bytes o2 = Some 0x45 then
      digits bytes (if peek bytes (o2 + 1) = Some 0x2B \<or> peek bytes (o2 + 1) = Some 0x2D then o2 + 1 + 1 else o2 + 1)
    else Inr ((), o2)) = Inr ((), j)"
  using assms(1)
proof (cases rule: exponent_cases)
  case 1
  then show ?thesis using assms by (auto simp: stops_def in_number_def)
next
  case (2 x ds)
  then obtain b bs where "ds = b # bs" "is_ascii_digit b" by (cases ds) (auto simp: digit_string_def)
  then have "\<not> (peek bytes (Suc o2) = Some 0x2B \<or> peek bytes (Suc o2) = Some 0x2D)"
    using assms(2) 2 by (auto simp: is_ascii_digit_def)
  moreover have "digits bytes (Suc o2) = Inr ((), j)"
    using assms 2 by (intro digits_complete [where s = ds]) (auto simp: stops_def in_number_def)
  ultimately show ?thesis using assms(2) 2 by auto
next
  case (3 x sign ds)
  have "digits bytes (Suc (Suc o2)) = Inr ((), j)"
    using assms 3 by (intro digits_complete [where s = ds]) (auto simp: stops_def in_number_def)
  then show ?thesis using assms(2) 3 by auto
qed

lemma number_complete:
  assumes s: "slice bytes off j = Some s" "number_text s" and stop: "stops in_number bytes j"
  shows "number bytes off = Some (Inr (s, j))"
proof -
  obtain sign i f e where s': "s = sign @ i @ f @ e" "sign = [] \<or> sign = [0x2D]" "integer_part i"
      "fraction_part f" "exponent_part e"
    using s(2) unfolding number_text_def by blast
  define o0 o1 o2 where "o0 = off + length sign" and "o1 = o0 + length i" and "o2 = o1 + length f"
  have sl: "slice bytes off o0 = Some sign" "slice bytes o0 o1 = Some i" "slice bytes o1 o2 = Some f"
      "slice bytes o2 j = Some e"
    using s(1) s'(1) by (simp_all add: o0_def o1_def o2_def)
  have e: "(e = [] \<and> o2 = j) \<or> (\<exists>x. peek bytes o2 = Some x \<and> (x = 0x65 \<or> x = 0x45))"
    using sl(4) s'(5) by (auto simp: exponent_part_def)
  then have stop2: "stops is_ascii_digit bytes o2" "peek bytes o2 \<noteq> Some 0x2E"
    using stop by (auto simp: stops_def in_number_def is_ascii_digit_def)
  have f: "(f = [] \<and> o1 = o2) \<or> peek bytes o1 = Some 0x2E"
    using sl(3) s'(4) by (auto simp: fraction_part_def)
  then have stop1: "stops is_ascii_digit bytes o1"
    using stop2 by (auto simp: stops_def is_ascii_digit_def)
  obtain d ds where i: "i = d # ds" "is_ascii_digit d"
    using s'(3) by (auto simp: integer_part_def is_ascii_digit_def)
  then have "(if peek bytes off = Some 0x2D then off + 1 else off) = o0"
    using sl(1,2) s'(2) by (auto simp: o0_def is_ascii_digit_def)
  moreover have "number_integer bytes o0 = Inr ((), o1)"
    by (rule number_integer_complete [OF sl(2) s'(3) stop1])
  moreover have "(if peek bytes o1 = Some 0x2E then digits bytes (o1 + 1) else Inr ((), o1)) = Inr ((), o2)"
    using f sl(3) s'(4) stop2 by (auto simp: fraction_part_def digit_string_def intro!: digits_complete)
  moreover have "(if peek bytes o2 = Some 0x65 \<or> peek bytes o2 = Some 0x45 then
        digits bytes (if peek bytes (o2 + 1) = Some 0x2B \<or> peek bytes (o2 + 1) = Some 0x2D then o2 + 1 + 1 else o2 + 1)
      else Inr ((), o2)) = Inr ((), j)"
    by (rule exponent_complete [OF s'(5) sl(4) stop])
  ultimately show ?thesis using s number_text_ascii [OF s(2)] unfolding number_def Let_def by simp
qed

subsection \<open>Objects as sorted association lists\<close>

lemma btree_insert_set: "set (map fst (btree_insert k v m)) = insert k (set (map fst m))"
  by (induction k v m rule: btree_insert.induct) auto

lemma btree_insert_sorted: "sorted_wrt (<) (map fst m) \<Longrightarrow> sorted_wrt (<) (map fst (btree_insert k v m))"
proof (induction k v m rule: btree_insert.induct)
  case (2 k v k' v' m)
  then show ?case using btree_insert_set [of k v m] by (auto simp flip: set_map)
qed simp

lemma btree_insert_mset: "k \<notin> set (map fst m) \<Longrightarrow> mset (btree_insert k v m) = add_mset (k, v) (mset m)"
  by (induction k v m rule: btree_insert.induct) auto

lemma sorted_unique:
  fixes m m' :: "('k :: linorder \<times> 'v) list"
  assumes "sorted_wrt (<) (map fst m)" "sorted_wrt (<) (map fst m')" "mset m = mset m'"
  shows "m = m'"
proof (rule map_sorted_distinct_set_unique [of fst])
  show "set m = set m'" using assms(3) by (metis set_mset_mset)
  with assms(1) show "inj_on fst (set m \<union> set m')"
    by (metis distinct_map sup.idem strict_sorted_iff)
qed (use assms in \<open>auto simp: strict_sorted_iff\<close>)

subsection \<open>Values\<close>

lemma literal_sound:
  "yields bytes off (\<lambda>_ s. s = lit) (literal bytes off lit)" if "off \<le> length bytes"
  using that by (auto simp: literal_def)

lemma literal_complete: "slice bytes off j = Some lit \<Longrightarrow> literal bytes off lit = Inr ((), j)"
  using slice_length [of bytes off j lit] by (auto simp: literal_def)

lemma yields_parsed_as:
  "yields bytes off P r \<Longrightarrow> (\<And>x s. P x s \<Longrightarrow> Q (f x) s) \<Longrightarrow> yields bytes off Q (parsed_as f r)"
  unfolding parsed_as_def by (erule yields_and_then) auto

lemma number_text_first:
  "number_text s \<Longrightarrow> \<exists>b t. s = b # t \<and> (b = 0x2D \<or> is_ascii_digit b)"
  by (auto simp: number_text_def integer_part_def is_ascii_digit_def)

lemma value_text_first:
  "value_text depth v s \<Longrightarrow> \<exists>b t. s = b # t \<and> \<not> is_whitespace b \<and> b \<noteq> 0x5D \<and> b \<noteq> 0x7D"
  by (cases rule: value_text.cases)
     (auto simp: string_text_def is_whitespace_def is_ascii_digit_def dest!: number_text_first)

lemma string_text_first: "string_text k s \<Longrightarrow> \<exists>t. s = 0x22 # t"
  by (auto simp: string_text_def)

lemma then_blank:
  assumes "slice bytes off j = Some s"
  obtains w where "slice bytes off (skip_whitespace bytes j) = Some (s @ w)" "blank w"
    "skip_whitespace bytes j \<le> length bytes"
proof -
  have "j \<le> length bytes" using slice_length [OF assms] by simp
  then show ?thesis using skip_whitespace_slice slice_join [OF assms] that by metis
qed

lemma then_byte:
  assumes "slice bytes off j = Some s" "peek bytes j = Some b"
  shows "slice bytes off (Suc j) = Some (s @ [b])"
  by (rule slice_join [OF assms(1)]) (use assms(2) peek_Some_less [OF assms(2)] in simp)

text \<open>The parser of an element returns, inside the input and with an element's text consumed.\<close>

definition element_sound :: "bytes \<Rightarrow> usize \<Rightarrow> (usize \<Rightarrow> json_value parsed exec) \<Rightarrow> bool" where
  "element_sound bytes depth element \<longleftrightarrow>
     (\<forall>off \<le> length bytes. \<exists>r. element off = Some r \<and> yields bytes off (value_text depth) r)"

definition separator_text :: "u8 \<Rightarrow> bool \<Rightarrow> bytes \<Rightarrow> bool" where
  "separator_text close again s \<longleftrightarrow>
     (\<exists>w w'. blank w \<and> blank w' \<and> s = (if again then w @ [0x2C] @ w' else w @ [close]))"

lemma separator_sound:
  assumes "off \<le> length bytes"
  shows "yields bytes off (separator_text close) (separator bytes close off)"
proof -
  let ?o1 = "skip_whitespace bytes off"
  obtain w where w: "slice bytes off ?o1 = Some w" "blank w" "?o1 \<le> length bytes"
    using skip_whitespace_slice [OF assms] .
  show ?thesis
  proof (cases "peek bytes ?o1")
    case None
    then show ?thesis using w by (simp add: separator_def take_byte_def)
  next
    case (Some b)
    note sb = then_byte [OF w(1) Some]
    obtain w' where w': "slice bytes off (skip_whitespace bytes (Suc ?o1)) = Some ((w @ [b]) @ w')" "blank w'"
      using then_blank [OF sb] .
    have "b = 0x2C \<Longrightarrow> separator_text close True ((w @ [b]) @ w')" "b = close \<Longrightarrow> separator_text close False (w @ [b])"
      using w(2) w'(2) by (auto simp: separator_text_def)
    then show ?thesis using w' sb peek_Some_less [OF Some] Some
      by (auto simp: separator_def take_byte_def simp del: slice_append slice_Cons)
  qed
qed

lemma separator_text_length: "separator_text close again s \<Longrightarrow> 0 < length s"
  by (auto simp: separator_text_def split: if_splits)

lemma slice_advance:
  "slice bytes i j = Some (s @ p) \<Longrightarrow> 0 < length p \<Longrightarrow> length bytes - j < length bytes - i"
proof -
  assume "slice bytes i j = Some (s @ p)" "0 < length p"
  then have "j = i + length s + length p" "j \<le> length bytes" using slice_length by fastforce+
  with \<open>0 < length p\<close> show ?thesis by linarith
qed

lemma array_loop_sound:
  assumes el: "element_sound bytes depth element"
  shows "off \<le> length bytes \<Longrightarrow> \<exists>r. array_loop bytes element off values = Some r \<and>
    yields bytes off (\<lambda>x s. \<exists>vs t. x = Array (values @ vs) \<and> s = t @ [0x5D] \<and> elements_text depth vs t) r"
proof (induction "length bytes - off" arbitrary: off "values" rule: less_induct)
  case less
  obtain r where r: "element off = Some r" "yields bytes off (value_text depth) r"
    using el less.prems unfolding element_sound_def by blast
  show ?case
  proof (cases "\<exists>v o1 again o2. r = Inr (v, o1) \<and> separator bytes 0x5D o1 = Inr (again, o2)")
    case False
    show ?thesis
    proof (cases r)
      case (Inr y)
      then obtain v o1 where v: "y = (v, o1)" "o1 \<le> length bytes" using r(2) by (cases y) (auto dest: slice_length)
      with False Inr obtain e where "separator bytes 0x5D o1 = Inl e" by (cases "separator bytes 0x5D o1") auto
      then show ?thesis using r(1) Inr v separator_sound [OF v(2), of "0x5D"] by (subst array_loop.simps) simp
    qed (use r in \<open>subst array_loop.simps, simp\<close>)
  next
    case True
    then obtain v o1 again o2 where v: "r = Inr (v, o1)" "separator bytes 0x5D o1 = Inr (again, o2)" by blast
    then obtain s where s: "slice bytes off o1 = Some s" "value_text depth v s" using r(2) by auto
    have "o1 \<le> length bytes" using slice_length [OF s(1)] by simp
    from separator_sound [OF this, of "0x5D"] v(2) obtain p
      where p: "slice bytes o1 o2 = Some p" "separator_text 0x5D again p" by auto
    note sp = slice_join [OF s(1) p(1)]
    note o2 = slice_advance [OF sp separator_text_length [OF p(2)]] slice_length [OF sp, THEN conjunct2]
    show ?thesis
    proof (cases again)
      case True
      then obtain w w' where w: "blank w" "blank w'" "p = w @ [0x2C] @ w'"
        using p(2) unfolding separator_text_def by auto
      obtain r' where r': "array_loop bytes element o2 (values @ [v]) = Some r'"
        "yields bytes o2 (\<lambda>x s. \<exists>vs t. x = Array ((values @ [v]) @ vs) \<and> s = t @ [0x5D] \<and> elements_text depth vs t) r'"
        using less.hyps [OF o2] by blast
      have "yields bytes off (\<lambda>x s. \<exists>vs t. x = Array (values @ vs) \<and> s = t @ [0x5D] \<and> elements_text depth vs t) r'"
      proof (rule yields_prefix [OF sp r'(2)], elim exE conjE)
        fix x u vs t assume "x = Array ((values @ [v]) @ vs)" "u = t @ [0x5D]" "elements_text depth vs t"
        then show "\<exists>vs t. x = Array (values @ vs) \<and> (s @ p) @ u = t @ [0x5D] \<and> elements_text depth vs t"
          using elements_more [OF s(2) w(1,2), of vs t] w(3)
          by (intro exI [of _ "v # vs"] exI [of _ "s @ w @ [0x2C] @ w' @ t"]) simp
      qed
      then show ?thesis using r(1) v True r'(1) by (subst array_loop.simps) simp
    next
      case False
      then obtain w where w: "blank w" "p = w @ [0x5D]" using p(2) unfolding separator_text_def by auto
      have "slice bytes off o2 = Some ((s @ w) @ [0x5D])" using sp w(2) by (simp only: append_assoc)
      then have "yields bytes off (\<lambda>x s. \<exists>vs t. x = Array (values @ vs) \<and> s = t @ [0x5D] \<and> elements_text depth vs t)
          (Inr (Array (values @ [v]), o2))"
        using elements_one [OF s(2) w(1)] unfolding yields_Inr by blast
      then show ?thesis using r(1) v False by (subst array_loop.simps) (simp del: yields_Inr)
    qed
  qed
qed

text \<open>\<open>key : value\<close>, added to the members read so far.\<close>

definition member_text :: "usize \<Rightarrow> (bytes \<times> json_value) list \<Rightarrow> (bytes \<times> json_value) list \<Rightarrow> bytes \<Rightarrow> bool" where
  "member_text depth m m' s \<longleftrightarrow>
     (\<exists>k v x w1 w2 t. s = x @ w1 @ [0x3A] @ w2 @ t \<and> string_text k x \<and> blank w1 \<and> blank w2 \<and> value_text depth v t \<and>
        k \<notin> set (map fst m) \<and> m' = btree_insert k v m)"

lemma object_member_sound:
  assumes el: "element_sound bytes depth element" and off: "off \<le> length bytes"
  shows "\<exists>r. object_member bytes element off m = Some r \<and> yields bytes off (member_text depth m) r"
proof (cases "peek bytes off = Some 0x22")
  case True
  have "\<exists>r. and_then_exec (string bytes off) (\<lambda>(key, off1).
        let (colon, off2) = take_byte bytes (skip_whitespace bytes off1) in
        if colon \<noteq> Some 0x3A then Some (json_error off2 UnexpectedByte)
        else do {
          r \<leftarrow> element (skip_whitespace bytes off2);
          and_then_exec r (\<lambda>(v, off3).
            Some (if map_of m key \<noteq> None then json_error off3 (DuplicateField key)
                  else Inr (btree_insert key v m, off3))) }) = Some r \<and> yields bytes off (member_text depth m) r"
  proof (rule yields_and_then_exec [OF string_sound [OF off]], goal_cases)
    case (1 k o1 x)
    obtain w1 where w1: "slice bytes off (skip_whitespace bytes o1) = Some (x @ w1)" "blank w1"
        "skip_whitespace bytes o1 \<le> length bytes"
      using then_blank [OF 1(1)] .
    show ?case
    proof (cases "peek bytes (skip_whitespace bytes o1) = Some 0x3A")
      case False
      then show ?thesis using w1(3) by (auto simp: take_byte_def dest: peek_Some_less split: option.splits)
    next
      case colon: True
      let ?o3 = "skip_whitespace bytes (Suc (skip_whitespace bytes o1))"
      obtain w2 where w2: "slice bytes off ?o3 = Some (((x @ w1) @ [0x3A]) @ w2)" "blank w2" "?o3 \<le> length bytes"
        using then_blank [OF then_byte [OF w1(1) colon]] .
      obtain r where r: "element ?o3 = Some r" "yields bytes ?o3 (value_text depth) r"
        using el w2(3) unfolding element_sound_def by blast
      have r': "yields bytes off (\<lambda>v s. \<exists>t. s = x @ w1 @ [0x3A] @ w2 @ t \<and> value_text depth v t) r"
        by (rule yields_prefix [OF w2(1) r(2)]) auto
      have "\<exists>t. and_then_exec r (\<lambda>(v, off3).
            Some (if map_of m k \<noteq> None then json_error off3 (DuplicateField k)
                  else Inr (btree_insert k v m, off3))) = Some t \<and> yields bytes off (member_text depth m) t"
      proof (rule yields_and_then_exec [OF r'], goal_cases)
        case (1 v j s)
        then obtain t where "s = x @ w1 @ [0x3A] @ w2 @ t" "value_text depth v t" by blast
        then have "map_of m k = None \<Longrightarrow> member_text depth m (btree_insert k v m) s"
          using w1(2) w2(2) \<open>string_text k x\<close> unfolding member_text_def map_of_eq_None_iff set_map by blast
        then show ?case using 1(1) slice_length [OF 1(1)] by auto
      qed
      then show ?thesis using colon r(1) by (simp add: take_byte_def)
    qed
  qed
  then show ?thesis using True by (simp add: object_member_def)
next
  case False
  then show ?thesis using off by (simp add: object_member_def)
qed

lemma members_text_one:
  assumes "member_text depth m m' s" "blank w" "sorted_wrt (<) (map fst m)"
  shows "\<exists>kvs. members_text depth kvs (s @ w) \<and> sorted_wrt (<) (map fst m') \<and> mset m' = mset m + mset kvs"
proof -
  obtain k v x w1 w2 t where "s = x @ w1 @ [0x3A] @ w2 @ t" "string_text k x" "blank w1" "blank w2"
      "value_text depth v t" "k \<notin> set (map fst m)" "m' = btree_insert k v m"
    using assms(1) unfolding member_text_def by blast
  then show ?thesis
    using members_one [of k x w1 w2 depth v t w] btree_insert_sorted [OF assms(3)] btree_insert_mset [of k m v] assms(2)
    by (intro exI [of _ "[(k, v)]"]) simp
qed

lemma members_text_more:
  assumes "member_text depth m m' s" "blank w" "blank w'" "members_text depth kvs t"
    "mset m'' = mset m' + mset kvs"
  shows "\<exists>kvs'. members_text depth kvs' (s @ w @ [0x2C] @ w' @ t) \<and> mset m'' = mset m + mset kvs'"
proof -
  obtain k v x w1 w2 u where "s = x @ w1 @ [0x3A] @ w2 @ u" "string_text k x" "blank w1" "blank w2"
      "value_text depth v u" "k \<notin> set (map fst m)" "m' = btree_insert k v m"
    using assms(1) unfolding member_text_def by blast
  then show ?thesis
    using members_more [of k x w1 w2 depth v u w w' kvs t] btree_insert_mset [of k m v] assms(2-5)
    by (intro exI [of _ "(k, v) # kvs"]) simp
qed

lemma member_text_sorted: "member_text depth m m' s \<Longrightarrow> sorted_wrt (<) (map fst m) \<Longrightarrow> sorted_wrt (<) (map fst m')"
  unfolding member_text_def by (elim exE conjE) (simp add: btree_insert_sorted)

definition members_read :: "usize \<Rightarrow> (bytes \<times> json_value) list \<Rightarrow> json_value \<Rightarrow> bytes \<Rightarrow> bool" where
  "members_read depth m x s \<longleftrightarrow> (\<exists>m' kvs t. x = Object m' \<and> s = t @ [0x7D] \<and> members_text depth kvs t \<and>
     sorted_wrt (<) (map fst m') \<and> mset m' = mset m + mset kvs)"

lemma object_loop_sound:
  assumes el: "element_sound bytes depth element"
  shows "off \<le> length bytes \<Longrightarrow> sorted_wrt (<) (map fst m) \<Longrightarrow>
    \<exists>r. object_loop bytes element off m = Some r \<and> yields bytes off (members_read depth m) r"
proof (induction "length bytes - off" arbitrary: off m rule: less_induct)
  case less
  obtain r where r: "object_member bytes element off m = Some r" "yields bytes off (member_text depth m) r"
    using object_member_sound [OF el less.prems(1)] by blast
  show ?case
  proof (cases "\<exists>m' o1 again o2. r = Inr (m', o1) \<and> separator bytes 0x7D o1 = Inr (again, o2)")
    case False
    show ?thesis
    proof (cases r)
      case (Inr y)
      then obtain m' o1 where v: "y = (m', o1)" "o1 \<le> length bytes" using r(2) by (cases y) (auto dest: slice_length)
      with False Inr obtain e where "separator bytes 0x7D o1 = Inl e" by (cases "separator bytes 0x7D o1") auto
      then show ?thesis using r(1) Inr v separator_sound [OF v(2), of "0x7D"] by (subst object_loop.simps) simp
    qed (use r in \<open>subst object_loop.simps, simp\<close>)
  next
    case True
    then obtain m' o1 again o2 where v: "r = Inr (m', o1)" "separator bytes 0x7D o1 = Inr (again, o2)" by blast
    then obtain s where s: "slice bytes off o1 = Some s" "member_text depth m m' s" using r(2) by auto
    have "o1 \<le> length bytes" using slice_length [OF s(1)] by simp
    from separator_sound [OF this, of "0x7D"] v(2) obtain p
      where p: "slice bytes o1 o2 = Some p" "separator_text 0x7D again p" by auto
    note sp = slice_join [OF s(1) p(1)]
    note o2 = slice_advance [OF sp separator_text_length [OF p(2)]] slice_length [OF sp, THEN conjunct2]
    show ?thesis
    proof (cases again)
      case True
      then obtain w w' where w: "blank w" "blank w'" "p = w @ [0x2C] @ w'"
        using p(2) unfolding separator_text_def by auto
      obtain r' where r': "object_loop bytes element o2 m' = Some r'" "yields bytes o2 (members_read depth m') r'"
        using less.hyps [OF o2 member_text_sorted [OF s(2) less.prems(2)]] by blast
      have "yields bytes off (members_read depth m) r'"
      proof (rule yields_prefix [OF sp r'(2)])
        fix x u assume "members_read depth m' x u"
        then obtain m'' kvs t where x: "x = Object m''" "u = t @ [0x7D]" "members_text depth kvs t"
            "sorted_wrt (<) (map fst m'')" "mset m'' = mset m' + mset kvs"
          unfolding members_read_def by blast
        moreover have "(s @ p) @ u = (s @ w @ [0x2C] @ w' @ t) @ [0x7D]" using w(3) x(2) by simp
        ultimately show "members_read depth m x ((s @ p) @ u)"
          using members_text_more [OF s(2) w(1,2) x(3,5)] unfolding members_read_def by blast
      qed
      then show ?thesis using r(1) v True r'(1) by (subst object_loop.simps) simp
    next
      case False
      then obtain w where w: "blank w" "p = w @ [0x7D]" using p(2) unfolding separator_text_def by auto
      have "slice bytes off o2 = Some ((s @ w) @ [0x7D])" using sp w(2) by (simp only: append_assoc)
      then have "yields bytes off (members_read depth m) (Inr (Object m', o2))"
        using members_text_one [OF s(2) w(1) less.prems(2)] unfolding yields_Inr members_read_def by blast
      then show ?thesis using r(1) v False by (subst object_loop.simps) (simp del: yields_Inr)
    qed
  qed
qed

lemma array_sound:
  assumes "element_sound bytes (depth + 1) element" "peek bytes off = Some 0x5B" "depth \<le> MAX_DEPTH"
  shows "\<exists>r. array bytes element off = Some r \<and> yields bytes off (value_text depth) r"
proof -
  have "slice bytes off (Suc off) = Some [0x5B]" using assms(2) peek_Some_less [OF assms(2)] by simp
  then obtain w where w: "slice bytes off (skip_whitespace bytes (Suc off)) = Some ([0x5B] @ w)" "blank w"
      "skip_whitespace bytes (Suc off) \<le> length bytes"
    using then_blank by blast
  show ?thesis
  proof (cases "peek bytes (skip_whitespace bytes (Suc off)) = Some 0x5D")
    case True
    from then_byte [OF w(1) True] show ?thesis
      using text_array_empty [OF assms(3) w(2)] True by (simp add: array_def del: slice_append slice_Cons)
  next
    case False
    obtain r where r: "array_loop bytes element (skip_whitespace bytes (Suc off)) [] = Some r"
      "yields bytes (skip_whitespace bytes (Suc off))
         (\<lambda>x s. \<exists>vs t. x = Array ([] @ vs) \<and> s = t @ [0x5D] \<and> elements_text (depth + 1) vs t) r"
      using array_loop_sound [OF assms(1) w(3)] by blast
    have "yields bytes off (value_text depth) r"
      by (rule yields_prefix [OF w(1) r(2)]) (use text_array [OF assms(3) w(2)] in auto)
    then show ?thesis using r(1) False by (simp add: array_def)
  qed
qed

lemma object_sound:
  assumes "element_sound bytes (depth + 1) element" "peek bytes off = Some 0x7B" "depth \<le> MAX_DEPTH"
  shows "\<exists>r. object bytes element off = Some r \<and> yields bytes off (value_text depth) r"
proof -
  have "slice bytes off (Suc off) = Some [0x7B]" using assms(2) peek_Some_less [OF assms(2)] by simp
  then obtain w where w: "slice bytes off (skip_whitespace bytes (Suc off)) = Some ([0x7B] @ w)" "blank w"
      "skip_whitespace bytes (Suc off) \<le> length bytes"
    using then_blank by blast
  show ?thesis
  proof (cases "peek bytes (skip_whitespace bytes (Suc off)) = Some 0x7D")
    case True
    from then_byte [OF w(1) True] show ?thesis
      using text_object_empty [OF assms(3) w(2)] True by (simp add: object_def del: slice_append slice_Cons)
  next
    case False
    obtain r where r: "object_loop bytes element (skip_whitespace bytes (Suc off)) [] = Some r"
      "yields bytes (skip_whitespace bytes (Suc off)) (members_read (depth + 1) []) r"
      using object_loop_sound [OF assms(1) w(3), of "[]"] by auto
    have "yields bytes off (value_text depth) r"
      by (rule yields_prefix [OF w(1) r(2)]) (use text_object [OF assms(3) w(2)] in \<open>auto simp: members_read_def\<close>)
    then show ?thesis using r(1) False by (simp add: object_def)
  qed
qed

lemma number_value_sound:
  assumes "off \<le> length bytes" "depth \<le> MAX_DEPTH"
  shows "\<exists>r. do { r \<leftarrow> number bytes off; Some (parsed_as Number r) } = Some r \<and> yields bytes off (value_text depth) r"
proof -
  obtain r where "number bytes off = Some r" "yields bytes off (\<lambda>x s. x = s \<and> number_text s) r"
    using number_sound [OF assms(1)] by blast
  moreover from this(2) have "yields bytes off (value_text depth) (parsed_as Number r)"
    by (rule yields_parsed_as) (use text_number [OF assms(2)] in auto)
  ultimately show ?thesis by simp
qed

lemma parse_value_sound: "element_sound bytes depth (parse_value bytes depth)"
proof (induction "Suc MAX_DEPTH - depth" arbitrary: depth rule: less_induct)
  case less
  show ?case unfolding element_sound_def
  proof (intro allI impI)
    fix off assume off: "off \<le> length bytes"
    show "\<exists>r. parse_value bytes depth off = Some r \<and> yields bytes off (value_text depth) r"
    proof (cases "MAX_DEPTH < depth \<or> off = length bytes")
      case True
      then show ?thesis using off by (subst parse_value.simps) auto
    next
      case False
      then obtain b where b: "peek bytes off = Some b" and d: "depth \<le> MAX_DEPTH"
        using off by (auto simp: peek_def)
      have el: "element_sound bytes (depth + 1) (\<lambda>o'. parse_value bytes (depth + 1) o')"
        by (rule less) (use d in simp)
      note lit = yields_parsed_as [OF literal_sound [OF off]]
      have leaves: "yields bytes off (value_text depth) (parsed_as (\<lambda>_. Null) (literal bytes off [0x6E, 0x75, 0x6C, 0x6C]))"
        "yields bytes off (value_text depth) (parsed_as (\<lambda>_. Bool True) (literal bytes off [0x74, 0x72, 0x75, 0x65]))"
        "yields bytes off (value_text depth) (parsed_as (\<lambda>_. Bool False) (literal bytes off [0x66, 0x61, 0x6C, 0x73, 0x65]))"
        "yields bytes off (value_text depth) (parsed_as String (string bytes off))"
        using d by (auto intro!: lit text_null text_true text_false yields_parsed_as [OF string_sound [OF off]] text_string)
      show ?thesis using b d leaves number_value_sound [OF off d] array_sound [OF el _ d] object_sound [OF el _ d] off
        by (subst parse_value.simps) auto
    qed
  qed
qed

end
