(* ===== verification/Json_Properties.thy ===== *)
theory Json_Properties
  imports Json_Sound
begin

text \<open>
  The parser decides its grammar: on every input it returns, without panicking, and it accepts exactly the documents
  of the grammar, with the value the grammar assigns to them.
\<close>

subsection \<open>Completeness\<close>

definition element_complete :: "bytes \<Rightarrow> usize \<Rightarrow> (usize \<Rightarrow> json_value parsed exec) \<Rightarrow> bool" where
  "element_complete bytes depth element \<longleftrightarrow>
     (\<forall>off j v s. slice bytes off j = Some s \<longrightarrow> value_text depth v s \<longrightarrow> stops in_number bytes j \<longrightarrow>
        element off = Some (Inr (v, j)))"

text \<open>White space up to a byte that is neither white space nor part of a number.\<close>

lemma blank_until:
  assumes "slice bytes i j = Some w" "blank w" "peek bytes j = Some b" "\<not> is_whitespace b" "\<not> in_number b"
  shows "skip_whitespace bytes i = j" "stops in_number bytes i"
proof -
  show "skip_whitespace bytes i = j"
    using assms by (intro skip_whitespace_unique [OF assms(1,2)]) (simp add: stops_def)
  show "stops in_number bytes i"
  proof (cases w)
    case Nil
    then show ?thesis using assms by (auto simp: stops_def)
  next
    case (Cons x u)
    then show ?thesis using assms
      by (auto simp: stops_def blank_def is_whitespace_def in_number_def is_ascii_digit_def)
  qed
qed

lemma skip_to_text:
  assumes "slice bytes i j = Some w" "blank w" "peek bytes j = Some b" "\<not> is_whitespace b"
  shows "skip_whitespace bytes i = j"
  using assms by (intro skip_whitespace_unique [OF assms(1,2)]) (simp add: stops_def)

lemmas delimiter_simps = is_whitespace_def in_number_def is_ascii_digit_def

lemma separator_more:
  assumes "slice bytes i j = Some (w @ [0x2C] @ w')" "blank w" "blank w'" "peek bytes j = Some b" "\<not> is_whitespace b"
  shows "separator bytes close i = Inr (True, j)" "stops in_number bytes i"
proof -
  have s: "slice bytes i (i + length w) = Some w" "peek bytes (i + length w) = Some 0x2C"
      "slice bytes (Suc (i + length w)) j = Some w'"
    using assms(1) by auto
  note u = blank_until [OF s(1) assms(2) s(2)]
  have "skip_whitespace bytes i = i + length w" using u(1) by (simp add: delimiter_simps)
  then show "separator bytes close i = Inr (True, j)"
    using s(2) skip_to_text [OF s(3) assms(3-5)] by (simp add: separator_def take_byte_def)
  show "stops in_number bytes i" using u(2) by (simp add: delimiter_simps)
qed

lemma separator_close:
  assumes "slice bytes i j = Some (w @ [close])" "blank w" "close = 0x5D \<or> close = 0x7D"
  shows "separator bytes close i = Inr (False, j)" "stops in_number bytes i"
proof -
  have s: "slice bytes i (i + length w) = Some w" "peek bytes (i + length w) = Some close" "j = Suc (i + length w)"
    using assms(1) by auto
  note u = blank_until [OF s(1) assms(2) s(2)]
  have "skip_whitespace bytes i = i + length w" using u(1) assms(3) by (auto simp: delimiter_simps)
  then show "separator bytes close i = Inr (False, j)"
    using s(2,3) assms(3) by (auto simp: separator_def take_byte_def)
  show "stops in_number bytes i" using u(2) assms(3) by (auto simp: delimiter_simps)
qed

inductive_cases elements_textE: "elements_text depth vs s"
inductive_cases members_textE: "members_text depth kvs s"
inductive_cases elements_ConsE: "elements_text depth (v # vs) s"
inductive_cases members_ConsE: "members_text depth ((k, v) # kvs) s"

lemma elements_text_Cons:
  assumes "elements_text depth (v # vs) t"
  obtains (One) s w where "vs = []" "t = s @ w" "value_text depth v s" "blank w"
    | (More) s w w' t' where "t = s @ w @ 0x2C # w' @ t'" "value_text depth v s" "blank w" "blank w'"
        "elements_text depth vs t'"
  using assms by (rule elements_ConsE) (erule (3) that | erule (4) that)+

lemma members_text_Cons:
  assumes "members_text depth ((k, v) # kvs) t"
  obtains (One) x w1 w2 s w where "kvs = []" "t = x @ w1 @ 0x3A # w2 @ s @ w" "string_text k x" "blank w1"
      "blank w2" "value_text depth v s" "blank w"
    | (More) x w1 w2 s w w' t' where "t = x @ w1 @ 0x3A # w2 @ s @ w @ 0x2C # w' @ t'" "string_text k x" "blank w1"
        "blank w2" "value_text depth v s" "blank w" "blank w'" "members_text depth kvs t'"
  using assms by (rule members_ConsE) (erule (6) that | erule (7) that)+

lemma elements_text_first:
  "elements_text depth vs t \<Longrightarrow> \<exists>b u. t = b # u \<and> \<not> is_whitespace b \<and> b \<noteq> 0x5D"
  by (erule elements_textE) (auto dest!: value_text_first)

lemma members_text_first: "members_text depth kvs t \<Longrightarrow> \<exists>u. t = 0x22 # u"
  by (erule members_textE) (auto dest!: string_text_first)

lemma array_loop_complete:
  assumes el: "element_complete bytes depth element"
  shows "elements_text depth vs t \<Longrightarrow> slice bytes off j = Some (t @ [0x5D]) \<Longrightarrow>
    array_loop bytes element off values = Some (Inr (Array (values @ vs), j))"
proof (induction vs arbitrary: t off "values")
  case Nil
  then show ?case by (auto elim: elements_textE)
next
  case (Cons v vs)
  from Cons.prems(1) show ?case
  proof (cases rule: elements_text_Cons)
    case (One s w)
    have "element off = Some (Inr (v, off + length s))"
      and "separator bytes 0x5D (off + length s) = Inr (False, j)"
      using el Cons.prems(2) One separator_close [of bytes "off + length s" j w "0x5D"]
      unfolding element_complete_def by auto
    then show ?thesis using One(1) by (subst array_loop.simps) simp
  next
    case (More s w w' t')
    obtain b u where b: "t' = b # u" "\<not> is_whitespace b" using elements_text_first [OF More(5)] by auto
    let ?o1 = "off + length s" and ?o2 = "off + length s + length (w @ [0x2C] @ w')"
    have s: "slice bytes off ?o1 = Some s" "slice bytes ?o1 ?o2 = Some (w @ [0x2C] @ w')"
        "slice bytes ?o2 j = Some (t' @ [0x5D])"
      using Cons.prems(2) More(1) by (simp_all add: add.assoc)
    have "peek bytes ?o2 = Some b" using s(3) b(1) by simp
    note sep = separator_more [OF s(2) More(3,4) this b(2)]
    have "element off = Some (Inr (v, ?o1))"
      using el s(1) More(2) sep(2) unfolding element_complete_def by blast
    moreover have "array_loop bytes element ?o2 (values @ [v]) = Some (Inr (Array ((values @ [v]) @ vs), j))"
      by (rule Cons.IH [OF More(5) s(3)])
    ultimately show ?thesis using sep(1) by (subst array_loop.simps) simp
  qed
qed

lemma object_member_complete:
  assumes el: "element_complete bytes depth element"
    and s: "slice bytes off j = Some (x @ w1 @ [0x3A] @ w2 @ s)" "string_text k x" "blank w1" "blank w2" "value_text depth v s"
    and stop: "stops in_number bytes j" and fresh: "k \<notin> set (map fst m)"
  shows "object_member bytes element off m = Some (Inr (btree_insert k v m, j))"
proof -
  obtain u where x: "x = 0x22 # u" using string_text_first [OF s(2)] by blast
  obtain b t where b: "s = b # t" "\<not> is_whitespace b" using value_text_first [OF s(5)] by auto
  let ?o1 = "off + length x"
  let ?o2 = "?o1 + length w1"
  let ?o3 = "Suc ?o2 + length w2"
  have sl: "slice bytes off ?o1 = Some x" "slice bytes ?o1 ?o2 = Some w1" "peek bytes ?o2 = Some 0x3A"
      "slice bytes (Suc ?o2) ?o3 = Some w2" "slice bytes ?o3 j = Some s"
    using s(1) by simp_all
  have "string bytes off = Inr (k, ?o1)" by (rule string_complete [OF sl(1) s(2)])
  moreover have "skip_whitespace bytes ?o1 = ?o2"
    using blank_until(1) [OF sl(2) s(3) sl(3)] by (simp add: delimiter_simps)
  moreover have "skip_whitespace bytes (Suc ?o2) = ?o3"
    by (rule skip_to_text [OF sl(4) s(4) _ b(2)]) (use sl(5) b(1) in simp)
  moreover have "element ?o3 = Some (Inr (v, j))"
    using el sl(5) s(5) stop unfolding element_complete_def by blast
  moreover have "peek bytes off = Some 0x22" using sl(1) x by simp
  moreover have "map_of m k = None" using fresh by (simp add: map_of_eq_None_iff)
  ultimately show ?thesis using sl(3) by (simp add: object_member_def take_byte_def)
qed

lemma object_loop_complete:
  assumes el: "element_complete bytes depth element"
  shows "members_text depth kvs t \<Longrightarrow> slice bytes off j = Some (t @ [0x7D]) \<Longrightarrow>
    distinct (map fst kvs) \<Longrightarrow> set (map fst kvs) \<inter> set (map fst m) = {} \<Longrightarrow>
    object_loop bytes element off m = Some (Inr (Object (foldl (\<lambda>m (k, v). btree_insert k v m) m kvs), j))"
proof (induction kvs arbitrary: t off m)
  case Nil
  then show ?case by (auto elim: members_textE)
next
  case (Cons kv kvs)
  obtain k v where kv: "kv = (k, v)" by (cases kv)
  have fresh: "k \<notin> set (map fst m)" using Cons.prems(4) kv by auto
  from Cons.prems(1) [unfolded kv] show ?case
  proof (cases rule: members_text_Cons)
    case (One x w1 w2 s w)
    let ?o1 = "off + length (x @ w1 @ [0x3A] @ w2 @ s)"
    have s: "slice bytes off ?o1 = Some (x @ w1 @ [0x3A] @ w2 @ s)" "slice bytes ?o1 j = Some (w @ [0x7D])"
      using Cons.prems(2) One(2) by (simp_all add: add.assoc)
    note sep = separator_close [OF s(2) One(7)]
    have "object_member bytes element off m = Some (Inr (btree_insert k v m, ?o1))"
      using sep(2) by (intro object_member_complete [OF el s(1) One(3-6) _ fresh]) simp
    then show ?thesis using One(1) kv sep(1) by (subst object_loop.simps) simp
  next
    case (More x w1 w2 s w w' t')
    obtain u where u: "t' = 0x22 # u" using members_text_first [OF More(8)] by blast
    let ?o1 = "off + length (x @ w1 @ [0x3A] @ w2 @ s)"
    let ?o2 = "?o1 + length (w @ [0x2C] @ w')"
    have s: "slice bytes off ?o1 = Some (x @ w1 @ [0x3A] @ w2 @ s)" "slice bytes ?o1 ?o2 = Some (w @ [0x2C] @ w')"
        "slice bytes ?o2 j = Some (t' @ [0x7D])"
      using Cons.prems(2) More(1) by (simp_all add: add.assoc)
    have "peek bytes ?o2 = Some 0x22" using s(3) u by simp
    note sep = separator_more [OF s(2) More(6,7) this]
    have "object_member bytes element off m = Some (Inr (btree_insert k v m, ?o1))"
      using sep(2) by (intro object_member_complete [OF el s(1) More(2-5) _ fresh]) (simp add: delimiter_simps)
    moreover have "separator bytes 0x7D ?o1 = Inr (True, ?o2)" using sep(1) by (simp add: delimiter_simps)
    moreover have "object_loop bytes element ?o2 (btree_insert k v m) =
        Some (Inr (Object (foldl (\<lambda>m (k, v). btree_insert k v m) (btree_insert k v m) kvs), j))"
      using Cons.prems(3,4) kv btree_insert_set [of k v m] by (intro Cons.IH [OF More(8) s(3)]) auto
    ultimately show ?thesis using kv by (subst object_loop.simps) simp
  qed
qed

lemma foldl_insert_sorted:
  "distinct (map fst kvs) \<Longrightarrow> set (map fst kvs) \<inter> set (map fst m) = {} \<Longrightarrow> sorted_wrt (<) (map fst m) \<Longrightarrow>
   sorted_wrt (<) (map fst (foldl (\<lambda>m (k, v). btree_insert k v m) m kvs)) \<and>
   mset (foldl (\<lambda>m (k, v). btree_insert k v m) m kvs) = mset m + mset kvs"
proof (induction kvs arbitrary: m)
  case (Cons kv kvs)
  obtain k v where kv: "kv = (k, v)" by (cases kv)
  have "k \<notin> set (map fst m)" using Cons.prems(2) kv by auto
  then show ?case
    using Cons.IH [of "btree_insert k v m"] Cons.prems kv btree_insert_set [of k v m] btree_insert_sorted [of m k v]
      btree_insert_mset [of k m v] by auto
qed simp

lemma members_sorted_fold:
  assumes "sorted_wrt (<) (map fst m)" "mset m = mset kvs"
  shows "distinct (map fst kvs)" "foldl (\<lambda>m (k, v). btree_insert k v m) [] kvs = m"
proof -
  have "mset (map fst m) = mset (map fst kvs)" using assms(2) by simp
  then show d: "distinct (map fst kvs)" using assms(1) mset_eq_imp_distinct_iff strict_sorted_iff by blast
  show "foldl (\<lambda>m (k, v). btree_insert k v m) [] kvs = m"
    using foldl_insert_sorted [OF d, of "[]"] assms by (intro sorted_unique) auto
qed

lemma array_complete:
  assumes el: "element_complete bytes (depth + 1) element"
    and s: "slice bytes off j = Some (0x5B # w @ t @ [0x5D])" "blank w" "elements_text (depth + 1) vs t"
  shows "array bytes element off = Some (Inr (Array vs, j))"
proof -
  obtain b u where b: "t = b # u" "\<not> is_whitespace b" "b \<noteq> 0x5D" using elements_text_first [OF s(3)] by blast
  have sl: "slice bytes (Suc off) (Suc off + length w) = Some w" "peek bytes (Suc off + length w) = Some b"
      "slice bytes (Suc off + length w) j = Some (t @ [0x5D])"
    using s(1) b(1) by auto
  show ?thesis using skip_to_text [OF sl(1) s(2) sl(2) b(2)] b(3) sl(2) array_loop_complete [OF el s(3) sl(3), of "[]"]
    by (simp add: array_def)
qed

lemma object_complete:
  assumes el: "element_complete bytes (depth + 1) element"
    and s: "slice bytes off j = Some (0x7B # w @ t @ [0x7D])" "blank w" "members_text (depth + 1) kvs t"
    and m: "sorted_wrt (<) (map fst m)" "mset m = mset kvs"
  shows "object bytes element off = Some (Inr (Object m, j))"
proof -
  obtain u where b: "t = 0x22 # u" using members_text_first [OF s(3)] by blast
  have sl: "slice bytes (Suc off) (Suc off + length w) = Some w" "peek bytes (Suc off + length w) = Some 0x22"
      "slice bytes (Suc off + length w) j = Some (t @ [0x7D])"
    using s(1) b(1) by auto
  have "skip_whitespace bytes (Suc off) = Suc off + length w"
    using skip_to_text [OF sl(1) s(2) sl(2)] by (simp add: delimiter_simps)
  then show ?thesis
    using sl(2) object_loop_complete [OF el s(3) sl(3), of "[]"] members_sorted_fold [OF m] by (simp add: object_def)
qed

lemma empty_complete:
  assumes "slice bytes off j = Some (b # w @ [c])" "blank w" "c = 0x5D \<or> c = 0x7D"
  shows "skip_whitespace bytes (Suc off) = j - 1" "peek bytes (j - 1) = Some c" "0 < j"
  using skip_to_text [of bytes "Suc off" "Suc off + length w" w c] assms by (auto simp: delimiter_simps)

lemma parse_value_complete: "element_complete bytes depth (parse_value bytes depth)"
proof (induction "Suc MAX_DEPTH - depth" arbitrary: depth rule: less_induct)
  case less
  show ?case unfolding element_complete_def
  proof (intro allI impI)
    fix off j v s assume s: "slice bytes off j = Some s" "value_text depth v s" "stops in_number bytes j"
    have el: "element_complete bytes (depth + 1) (\<lambda>o'. parse_value bytes (depth + 1) o')" if "depth \<le> MAX_DEPTH"
      by (rule less) (use that in simp)
    from s(2) show "parse_value bytes depth off = Some (Inr (v, j))"
    proof (cases rule: value_text.cases)
      case text_number
      then obtain b t where "s = b # t" "b = 0x2D \<or> is_ascii_digit b" using number_text_first by blast
      then show ?thesis using s(1) text_number number_complete [OF s(1) _ s(3)]
        by (subst parse_value.simps) (auto simp: is_ascii_digit_def parsed_as_def)
    next
      case (text_string d)
      then show ?thesis using s(1) string_complete [OF s(1)] string_text_first [of d s]
        by (subst parse_value.simps) (auto simp: parsed_as_def)
    next
      case (text_array_empty w)
      then show ?thesis using s(1) empty_complete [of bytes off j "0x5B" w "0x5D"]
        by (subst parse_value.simps) (simp add: array_def)
    next
      case (text_array w vs t)
      then show ?thesis using s(1) array_complete [OF el, of off j w t vs]
        by (subst parse_value.simps) simp
    next
      case (text_object_empty w)
      then show ?thesis using s(1) empty_complete [of bytes off j "0x7B" w "0x7D"]
        by (subst parse_value.simps) (simp add: object_def)
    next
      case (text_object w kvs t m)
      then show ?thesis using s(1) object_complete [OF el, of off j w t kvs m]
        by (subst parse_value.simps) simp
    qed (use s(1) literal_complete [OF s(1)] in \<open>(subst parse_value.simps, simp add: parsed_as_def)+\<close>)
  qed
qed

subsection \<open>Well-formed values\<close>

text \<open>The type invariant of a parsed value: numbers are JSON numbers, strings and keys are UTF-8, objects are sorted by
  key without duplicates, and the nesting is bounded.\<close>

fun json_wf :: "usize \<Rightarrow> json_value \<Rightarrow> bool" where
  "json_wf depth Null \<longleftrightarrow> depth \<le> MAX_DEPTH"
| "json_wf depth (Bool b) \<longleftrightarrow> depth \<le> MAX_DEPTH"
| "json_wf depth (Number s) \<longleftrightarrow> depth \<le> MAX_DEPTH \<and> number_text s"
| "json_wf depth (String s) \<longleftrightarrow> depth \<le> MAX_DEPTH \<and> utf8_valid s"
| "json_wf depth (Array vs) \<longleftrightarrow> depth \<le> MAX_DEPTH \<and> (\<forall>v\<in>set vs. json_wf (depth + 1) v)"
| "json_wf depth (Object m) \<longleftrightarrow> depth \<le> MAX_DEPTH \<and> sorted_wrt (<) (map fst m) \<and>
     (\<forall>k\<in>set (map fst m). utf8_valid k) \<and> (\<forall>v\<in>set (map snd m). json_wf (depth + 1) v)"

lemma value_text_wf:
  "value_text depth v s \<Longrightarrow> json_wf depth v"
  "elements_text depth vs s \<Longrightarrow> \<forall>v\<in>set vs. json_wf depth v"
  "members_text depth kvs s \<Longrightarrow> \<forall>(k, v)\<in>set kvs. utf8_valid k \<and> json_wf depth v"
proof (induction rule: value_text_elements_text_members_text.inducts)
  case (text_object depth w kvs s m)
  then have "set m = set kvs" by (metis set_mset_mset)
  with text_object show ?case by auto
qed (auto simp: string_text_def)

subsection \<open>Properties\<close>

lemma parse_complete:
  assumes "document v bytes"
  shows "parse bytes = Some (Inr v)"
proof -
  obtain w s w' where d: "bytes = w @ s @ w'" "blank w" "value_text 0 v s" "blank w'"
    using assms unfolding document_def by blast
  obtain b t where b: "s = b # t" "\<not> is_whitespace b" using value_text_first [OF d(3)] by blast
  have sl: "slice bytes 0 (length w) = Some w" "slice bytes (length w) (length (w @ s)) = Some s"
      "slice bytes (length (w @ s)) (length bytes) = Some w'"
    using slice_whole [of bytes bytes] unfolding d(1) by auto
  have "skip_whitespace bytes 0 = length w" by (rule skip_to_text [OF sl(1) d(2) _ b(2)]) (use sl(2) b(1) in simp)
  moreover have "stops in_number bytes (length (w @ s))"
    using sl(3) d(4) by (cases w') (auto simp: stops_def blank_def delimiter_simps)
  then have "parse_value bytes 0 (length w) = Some (Inr (v, length (w @ s)))"
    using parse_value_complete [of bytes 0] sl(2) d(3) unfolding element_complete_def by blast
  moreover have "skip_whitespace bytes (length (w @ s)) = length bytes"
    by (rule skip_whitespace_unique [OF sl(3) d(4)]) (simp add: stops_def)
  ultimately show ?thesis by (simp add: parse_def)
qed

lemma parse_sound:
  "\<exists>r. parse bytes = Some r \<and> (case r of Inl e \<Rightarrow> je_offset e \<le> length bytes | Inr v \<Rightarrow> document v bytes)"
proof -
  obtain w where w: "slice bytes 0 (skip_whitespace bytes 0) = Some w" "blank w" "skip_whitespace bytes 0 \<le> length bytes"
    using skip_whitespace_slice [of 0 bytes] by auto
  obtain r where r: "parse_value bytes 0 (skip_whitespace bytes 0) = Some r"
      "yields bytes (skip_whitespace bytes 0) (value_text 0) r"
    using parse_value_sound [of bytes 0] w(3) unfolding element_sound_def by blast
  show ?thesis
  proof (cases r)
    case (Inl e)
    then show ?thesis using r by (simp add: parse_def)
  next
    case (Inr y)
    then obtain v j s where y: "y = (v, j)" "slice bytes (skip_whitespace bytes 0) j = Some s" "value_text 0 v s"
      using r(2) by (cases y) auto
    obtain w' where w': "slice bytes 0 (skip_whitespace bytes j) = Some ((w @ s) @ w')" "blank w'"
        "skip_whitespace bytes j \<le> length bytes"
      using then_blank [OF slice_join [OF w(1) y(2)]] .
    then have "skip_whitespace bytes j = length bytes \<Longrightarrow> document v bytes"
      using w(2) y(3) slice_whole [of bytes "(w @ s) @ w'"] unfolding document_def by auto
    then show ?thesis using r(1) Inr y(1) w'(3) by (auto simp: parse_def json_error_def Let_def)
  qed
qed

text \<open>C36: the parser decides the grammar of RFC 8259 with at most 32 levels of nesting and without duplicate keys: it
  accepts a byte string with a value exactly when the grammar derives the string from that value, white space
  included; object members come out sorted by key, escapes decoded, and every accepted string is UTF-8.\<close>

theorem json_parse_decides_grammar: "parse bytes = Some (Inr v) \<longleftrightarrow> document v bytes"
proof
  assume "parse bytes = Some (Inr v)"
  with parse_sound [of bytes] show "document v bytes" by auto
qed (rule parse_complete)

text \<open>on every byte string the parser returns, without a panic and without running forever, and every error it
  reports points inside the input.\<close>

theorem json_parse_total:
  "\<exists>r. parse bytes = Some r \<and> (case r of Inl e \<Rightarrow> je_offset e \<le> length bytes | Inr v \<Rightarrow> True)"
  using parse_sound [of bytes] by (auto split: sum.splits)

text \<open>C40: every value the parser returns satisfies the type invariant its clients rely on: numbers are JSON
  numbers, strings and keys are UTF-8, object members are strictly sorted by key, and the nesting is at most 33 levels.\<close>

theorem json_parse_well_formed:
  assumes "parse bytes = Some (Inr v)"
  shows "json_wf 0 v"
  using parse_sound [of bytes] assms value_text_wf(1) by (auto simp: document_def)

text \<open>The input \<open>[null]\<close>.\<close>

lemma json_parse_well_formed_witness:
  "parse [0x5B, 0x6E, 0x75, 0x6C, 0x6C, 0x5D] = Some (Inr (Array [Null])) \<and> json_wf 0 (Array [Null])"
proof -
  have "value_text 1 Null [0x6E, 0x75, 0x6C, 0x6C]" by (rule text_null) (simp add: MAX_DEPTH_def)
  then have "elements_text (0 + 1) [Null] ([0x6E, 0x75, 0x6C, 0x6C] @ [])"
    by (intro elements_one) (simp_all add: blank_def)
  then have "value_text 0 (Array [Null]) (0x5B # [] @ ([0x6E, 0x75, 0x6C, 0x6C] @ []) @ [0x5D])"
    by (intro text_array) (simp_all add: blank_def)
  then have "document (Array [Null]) [0x5B, 0x6E, 0x75, 0x6C, 0x6C, 0x5D]"
    unfolding document_def
    by (intro exI [of _ "[]"] exI [of _ "[0x5B, 0x6E, 0x75, 0x6C, 0x6C, 0x5D]"]) (simp add: blank_def)
  then have "parse [0x5B, 0x6E, 0x75, 0x6C, 0x6C, 0x5D] = Some (Inr (Array [Null]))" by (rule parse_complete)
  with json_parse_well_formed [OF this] show ?thesis by blast
qed

end
