(* ===== verification/Tokenizer.thy ===== *)
theory Tokenizer
  imports Json
begin

text \<open>
  The tokenizer of \<^verbatim>\<open>ferric-build/src/tokenizer_execution.rs\<close>: construction of the numeric program from vocabulary and
  merges, byte-pair encoding, the search for added tokens, encoding and decoding, all within a work budget.  A
  \<^verbatim>\<open>String\<close> is its UTF-8 bytes.  Three things outside the repository are parameters: \<open>nfc\<close> gives the characters of the
  NFC normalisation of a text, \<open>regex_new\<close> is the compiled split expression (a function from a text to its matches)
  or its failure, and \<open>reserve n\<close> says whether an allocation for \<open>n\<close> elements succeeds.

  Mutable arguments (the budget and the output) are returned with the result; they are dropped by every caller when
  the result is an error, which therefore does not carry them.  A loop over a slice from its first element to its
  last is a recursion on the list.
\<close>

type_synonym allocator = "usize \<Rightarrow> bool"
type_synonym normalizer = "bytes \<Rightarrow> u32 list"
type_synonym splitter = "bytes \<Rightarrow> (usize \<times> usize) list"

definition BASE_VOCABULARY_SIZE :: usize where "BASE_VOCABULARY_SIZE = 151643"
definition ORDERED_LOOKUP_COMPARISONS :: usize where "ORDERED_LOOKUP_COMPARISONS = 128"
definition MAX_TOKENIZER_INPUT_BYTES :: usize where "MAX_TOKENIZER_INPUT_BYTES = 32 * 1024"
definition MAX_TOKENIZER_OUTPUT_TOKENS :: usize where "MAX_TOKENIZER_OUTPUT_TOKENS = 8192"
definition MAX_TOKENIZER_OUTPUT_BYTES :: usize where "MAX_TOKENIZER_OUTPUT_BYTES = 128 * 1024"
definition MAX_TOKENIZER_WORK :: usize where "MAX_TOKENIZER_WORK = 16 * 1024 * 1024"
definition MAX_TOKENIZER_NORMALIZED_BYTES :: usize where "MAX_TOKENIZER_NORMALIZED_BYTES = 128 * 1024"

definition ascii :: "string \<Rightarrow> bytes" where
  "ascii s = map of_char s"

definition ADDED_TOKENS :: "(bytes \<times> bool) list" where
  "ADDED_TOKENS =
     [(ascii ''<|endoftext|>'', True), (ascii ''<|im_start|>'', True), (ascii ''<|im_end|>'', True),
      (ascii ''<|object_ref_start|>'', True), (ascii ''<|object_ref_end|>'', True), (ascii ''<|box_start|>'', True),
      (ascii ''<|box_end|>'', True), (ascii ''<|quad_start|>'', True), (ascii ''<|quad_end|>'', True),
      (ascii ''<|vision_start|>'', True), (ascii ''<|vision_end|>'', True), (ascii ''<|vision_pad|>'', True),
      (ascii ''<|image_pad|>'', True), (ascii ''<|video_pad|>'', True), (ascii ''<tool_call>'', False),
      (ascii ''</tool_call>'', False), (ascii ''<|fim_prefix|>'', False), (ascii ''<|fim_middle|>'', False),
      (ascii ''<|fim_suffix|>'', False), (ascii ''<|fim_pad|>'', False), (ascii ''<|repo_name|>'', False),
      (ascii ''<|file_sep|>'', False), (ascii ''<tool_response>'', False), (ascii ''</tool_response>'', False),
      (ascii ''<think>'', False), (ascii ''</think>'', False)]"

record tokenizer_limits =
  tl_input_bytes :: usize
  tl_tokens :: usize
  tl_output_bytes :: usize
  tl_work :: usize

record added_token =
  ad_bytes :: bytes
  ad_special :: bool
  ad_token_id :: u32

record added_token_match =
  am_start :: usize
  am_offset :: usize
  am_token_id :: u32

record merge_selection =
  ms_rank :: usize
  ms_left :: u32
  ms_right :: u32
  ms_result_id :: u32

type_synonym merge_rules = "(u32 \<times> u32) \<rightharpoonup> (usize \<times> u32)"

record tokenizer_execution =
  te_byte_token_ids :: "u32 list"
  te_vocabulary_bytes :: "bytes list"
  te_merge_ranks :: merge_rules
  te_added_tokens :: "added_token list"

record tokenizer_program =
  tp_execution :: tokenizer_execution
  tp_split_regex :: splitter

datatype encode_policy = Reject | Allow
datatype decode_policy = Preserve | Skip

datatype tokenizer_error =
    InvalidLimits
  | InputTooLarge usize usize
  | NormalizedInputTooLarge usize usize
  | SpecialTokenForbidden u32
  | TokenLimit usize usize
  | OutputByteLimit usize
  | WorkLimit usize
  | ArithmeticOverflow
  | UnknownTokenId u32
  | AllocationFailed

datatype construction_error = ConstructionOverflow | ConstructionAllocation | InvalidVocabulary | RegexError

definition limits_m1 :: tokenizer_limits where
  "limits_m1 = \<lparr>tl_input_bytes = MAX_TOKENIZER_INPUT_BYTES, tl_tokens = MAX_TOKENIZER_OUTPUT_TOKENS,
     tl_output_bytes = MAX_TOKENIZER_OUTPUT_BYTES, tl_work = MAX_TOKENIZER_WORK\<rparr>"

definition limits_validate :: "tokenizer_limits \<Rightarrow> tokenizer_error + unit" where
  "limits_validate l =
     (if tl_input_bytes l = 0 \<or> MAX_TOKENIZER_INPUT_BYTES < tl_input_bytes l
         \<or> tl_tokens l = 0 \<or> MAX_TOKENIZER_OUTPUT_TOKENS < tl_tokens l
         \<or> tl_output_bytes l = 0 \<or> MAX_TOKENIZER_OUTPUT_BYTES < tl_output_bytes l
         \<or> tl_work l = 0 \<or> MAX_TOKENIZER_WORK < tl_work l
      then Inl InvalidLimits else Inr ())"

subsection \<open>The byte alphabet\<close>

definition byte_to_unicode_codepoint :: "u8 \<Rightarrow> u32" where
  "byte_to_unicode_codepoint byte =
     (if (0x21 \<le> byte \<and> byte \<le> 0x7E) \<or> (0xA1 \<le> byte \<and> byte \<le> 0xAC) \<or> 0xAE \<le> byte then byte
      else if byte \<le> 0x20 then 256 + byte
      else if 0x7F \<le> byte \<and> byte \<le> 0xA0 then byte + 162
      else 323)"

definition unicode_codepoint_to_byte :: "u32 \<Rightarrow> u8 option" where
  "unicode_codepoint_to_byte codepoint =
     (if codepoint \<le> 0xFF \<and>
         ((0x21 \<le> codepoint \<and> codepoint \<le> 0x7E) \<or> (0xA1 \<le> codepoint \<and> codepoint \<le> 0xAC) \<or> 0xAE \<le> codepoint)
      then Some codepoint
      else if 256 \<le> codepoint \<and> codepoint \<le> 288 then Some (codepoint - 256)
      else if 289 \<le> codepoint \<and> codepoint \<le> 322 then Some (codepoint - 162)
      else if codepoint = 323 then Some 0xAD
      else None)"

definition byte_to_unicode :: "u8 \<Rightarrow> u32 option" where
  "byte_to_unicode byte = char_from_u32 (byte_to_unicode_codepoint byte)"

text \<open>\<^verbatim>\<open>str::chars\<close> on well-formed UTF-8.\<close>

fun utf8_chars :: "bytes \<Rightarrow> u32 list" where
  "utf8_chars [] = []"
| "utf8_chars (b # bs) =
     (if b < 0x80 then b # utf8_chars bs
      else if b < 0xE0 then
        (case bs of c # r \<Rightarrow> ((b - 0xC0) * 0x40 + (c - 0x80)) # utf8_chars r | _ \<Rightarrow> [])
      else if b < 0xF0 then
        (case bs of c # d # r \<Rightarrow> ((b - 0xE0) * 0x1000 + (c - 0x80) * 0x40 + (d - 0x80)) # utf8_chars r | _ \<Rightarrow> [])
      else
        (case bs of c # d # e # r \<Rightarrow>
           ((b - 0xF0) * 0x40000 + (c - 0x80) * 0x1000 + (d - 0x80) * 0x40 + (e - 0x80)) # utf8_chars r
         | _ \<Rightarrow> []))"

subsection \<open>Construction of the program\<close>

fun collect_token_ids :: "usize \<Rightarrow> bytes list \<Rightarrow> (bytes \<rightharpoonup> u32) \<Rightarrow> construction_error + (bytes \<rightharpoonup> u32)" where
  "collect_token_ids token_id [] token_ids = Inr token_ids"
| "collect_token_ids token_id (token # vocabulary) token_ids =
     (if U32_MAX < token_id then Inl ConstructionOverflow
      else collect_token_ids (token_id + 1) vocabulary (token_ids(token \<mapsto> token_id)))"

fun fill_byte_token_ids :: "nat \<Rightarrow> u8 \<Rightarrow> (bytes \<rightharpoonup> u32) \<Rightarrow> u32 list \<Rightarrow> construction_error + u32 list" where
  "fill_byte_token_ids 0 byte token_ids ids = Inr ids"
| "fill_byte_token_ids (Suc n) byte token_ids ids =
     (case byte_to_unicode byte of
        None \<Rightarrow> Inl InvalidVocabulary
      | Some symbol \<Rightarrow>
          (case token_ids (encode_utf8 symbol) of
             None \<Rightarrow> Inl InvalidVocabulary
           | Some token_id \<Rightarrow> fill_byte_token_ids n (byte + 1) token_ids (ids[byte := token_id])))"

fun symbol_bytes :: "u32 list \<Rightarrow> bytes \<Rightarrow> construction_error + bytes" where
  "symbol_bytes [] bytes = Inr bytes"
| "symbol_bytes (symbol # symbols) bytes =
     (case unicode_codepoint_to_byte symbol of
        None \<Rightarrow> Inl InvalidVocabulary
      | Some byte \<Rightarrow> symbol_bytes symbols (bytes @ [byte]))"

fun collect_vocabulary_bytes :: "allocator \<Rightarrow> bytes list \<Rightarrow> bytes list \<Rightarrow> construction_error + bytes list" where
  "collect_vocabulary_bytes reserve [] vocabulary_bytes = Inr vocabulary_bytes"
| "collect_vocabulary_bytes reserve (token # vocabulary) vocabulary_bytes =
     (if \<not> reserve (length token) then Inl ConstructionAllocation
      else and_then (symbol_bytes (utf8_chars token) []) (\<lambda>bytes.
        collect_vocabulary_bytes reserve vocabulary (vocabulary_bytes @ [bytes])))"

fun collect_merges ::
  "allocator \<Rightarrow> (bytes \<rightharpoonup> u32) \<Rightarrow> usize \<Rightarrow> (bytes \<times> bytes) list \<Rightarrow> merge_rules \<Rightarrow> construction_error + merge_rules" where
  "collect_merges reserve token_ids rank [] merge_ranks = Inr merge_ranks"
| "collect_merges reserve token_ids rank ((left, right) # merges) merge_ranks =
     (case token_ids left of
        None \<Rightarrow> Inl InvalidVocabulary
      | Some left_id \<Rightarrow>
     (case token_ids right of
        None \<Rightarrow> Inl InvalidVocabulary
      | Some right_id \<Rightarrow>
     (case usize_add (length left) (length right) of
        None \<Rightarrow> Inl ConstructionOverflow
      | Some capacity \<Rightarrow>
     (if \<not> reserve capacity then Inl ConstructionAllocation
      else
     (case token_ids (left @ right) of
        None \<Rightarrow> Inl InvalidVocabulary
      | Some result_id \<Rightarrow>
          collect_merges reserve token_ids (rank + 1) merges
            (merge_ranks((left_id, right_id) \<mapsto> (rank, result_id))))))))"

fun collect_added_tokens ::
  "u32 \<Rightarrow> (bytes \<times> bool) list \<Rightarrow> added_token list \<Rightarrow> construction_error + added_token list" where
  "collect_added_tokens offset [] added_tokens = Inr added_tokens"
| "collect_added_tokens offset ((content, special) # tokens) added_tokens =
     (case u32_add BASE_VOCABULARY_SIZE offset of
        None \<Rightarrow> Inl ConstructionOverflow
      | Some token_id \<Rightarrow>
          collect_added_tokens (offset + 1) tokens
            (added_tokens @ [\<lparr>ad_bytes = content, ad_special = special, ad_token_id = token_id\<rparr>]))"

definition program_new ::
  "allocator \<Rightarrow> splitter option \<Rightarrow> bytes list \<Rightarrow> (bytes \<times> bytes) list \<Rightarrow> construction_error + tokenizer_program" where
  "program_new reserve regex_new vocabulary merges =
     and_then (collect_token_ids 0 vocabulary Map.empty) (\<lambda>token_ids.
     and_then (fill_byte_token_ids 256 0 token_ids (replicate 256 0)) (\<lambda>byte_token_ids.
     if \<not> reserve (length vocabulary) then Inl ConstructionAllocation
     else and_then (collect_vocabulary_bytes reserve vocabulary []) (\<lambda>vocabulary_bytes.
     and_then (collect_merges reserve token_ids 0 merges Map.empty) (\<lambda>merge_ranks.
     if \<not> reserve (length ADDED_TOKENS) then Inl ConstructionAllocation
     else and_then (collect_added_tokens 0 ADDED_TOKENS []) (\<lambda>added_tokens.
     case regex_new of
       None \<Rightarrow> Inl RegexError
     | Some split_regex \<Rightarrow>
         Inr \<lparr>tp_execution = \<lparr>te_byte_token_ids = byte_token_ids, te_vocabulary_bytes = vocabulary_bytes,
                te_merge_ranks = merge_ranks, te_added_tokens = added_tokens\<rparr>,
              tp_split_regex = split_regex\<rparr>)))))"

subsection \<open>The work budget\<close>

record work_budget =
  wb_used :: usize
  wb_limit :: usize

definition budget_new :: "usize \<Rightarrow> work_budget" where
  "budget_new limit = \<lparr>wb_used = 0, wb_limit = limit\<rparr>"

definition charge :: "work_budget \<Rightarrow> usize \<Rightarrow> tokenizer_error + work_budget" where
  "charge work amount =
     (case usize_add (wb_used work) amount of
        None \<Rightarrow> Inl (WorkLimit (wb_limit work))
      | Some used \<Rightarrow>
          if wb_limit work < used then Inl (WorkLimit (wb_limit work)) else Inr (work\<lparr>wb_used := used\<rparr>))"

definition charge_ordered_lookup :: "work_budget \<Rightarrow> usize \<Rightarrow> usize \<Rightarrow> tokenizer_error + work_budget" where
  "charge_ordered_lookup work left_bytes right_bytes =
     (case usize_add left_bytes right_bytes of
        None \<Rightarrow> Inl ArithmeticOverflow
      | Some pair_bytes \<Rightarrow>
          (case u_mul U64_MAX (max pair_bytes 1) ORDERED_LOOKUP_COMPARISONS of
             None \<Rightarrow> Inl ArithmeticOverflow
           | Some charged \<Rightarrow> charge work charged))"

subsection \<open>Added tokens\<close>

function bytes_match_loop :: "bytes \<Rightarrow> usize \<Rightarrow> bytes \<Rightarrow> usize \<Rightarrow> bool exec" where
  "bytes_match_loop input start pattern index =
     (if index < length pattern then do {
        a \<leftarrow> idx input (start + index);
        b \<leftarrow> idx pattern index;
        if a \<noteq> b then Some False else bytes_match_loop input start pattern (index + 1) }
      else Some True)"
  by pat_completeness auto
termination
  by (relation "measure (\<lambda>(input, start, pattern, index). length pattern - index)") auto

definition bytes_match_at :: "bytes \<Rightarrow> usize \<Rightarrow> bytes \<Rightarrow> bool exec" where
  "bytes_match_at input start pattern = do {
     available \<leftarrow> u_sub (length input) start;
     if available < length pattern then Some False else bytes_match_loop input start pattern 0 }"

text \<open>The \<open>?\<close> operator on the outcome of a call.\<close>

definition try_exec :: "('e + 'a) exec \<Rightarrow> ('a \<Rightarrow> ('e + 'b) exec) \<Rightarrow> ('e + 'b) exec" where
  "try_exec m f = Option.bind m (\<lambda>r. and_then_exec r f)"

fun reject_special_at ::
  "bytes \<Rightarrow> usize \<Rightarrow> added_token list \<Rightarrow> work_budget \<Rightarrow> (tokenizer_error + work_budget) exec" where
  "reject_special_at input start [] work = Some (Inr work)"
| "reject_special_at input start (added # added_tokens) work =
     (if \<not> ad_special added then reject_special_at input start added_tokens work
      else and_then_exec (charge work (length (ad_bytes added))) (\<lambda>work.
        do { m \<leftarrow> bytes_match_at input start (ad_bytes added);
             if m then Some (Inl (SpecialTokenForbidden (ad_token_id added)))
             else reject_special_at input start added_tokens work }))"

function reject_forbidden_special ::
  "bytes \<Rightarrow> usize \<Rightarrow> added_token list \<Rightarrow> work_budget \<Rightarrow> (tokenizer_error + work_budget) exec" where
  "reject_forbidden_special input start added_tokens work =
     (if start < length input then
        and_then_exec (charge work 1) (\<lambda>work.
          if input ! start \<noteq> 0x3C then reject_forbidden_special input (start + 1) added_tokens work
          else try_exec (reject_special_at input start added_tokens work) (\<lambda>work.
            reject_forbidden_special input (start + 1) added_tokens work))
      else Some (Inr work))"
  by pat_completeness auto
termination
  by (relation "measure (\<lambda>(input, start, added_tokens, work). length input - start)") auto

fun find_added_at ::
  "bytes \<Rightarrow> usize \<Rightarrow> added_token list \<Rightarrow> usize \<Rightarrow> added_token list \<Rightarrow> added_token_match option \<Rightarrow> work_budget
     \<Rightarrow> (tokenizer_error + (added_token_match option \<times> work_budget)) exec" where
  "find_added_at input start all offset [] best work = Some (Inr (best, work))"
| "find_added_at input start all offset (added # added_tokens) best work =
     and_then_exec (charge work (length (ad_bytes added))) (\<lambda>work.
       do { m \<leftarrow> bytes_match_at input start (ad_bytes added);
            if \<not> m then find_added_at input start all (offset + 1) added_tokens best work
            else do {
              let candidate = \<lparr>am_start = start, am_offset = offset, am_token_id = ad_token_id added\<rparr>;
              replace \<leftarrow> (case best of
                           None \<Rightarrow> Some True
                         | Some current \<Rightarrow> do {
                             other \<leftarrow> idx all (am_offset current);
                             Some (length (ad_bytes other) < length (ad_bytes added) \<or>
                                   (length (ad_bytes added) = length (ad_bytes other) \<and> offset < am_offset current)) });
              find_added_at input start all (offset + 1) added_tokens
                (if replace then Some candidate else best) work } })"

function find_added_token ::
  "bytes \<Rightarrow> usize \<Rightarrow> added_token list \<Rightarrow> work_budget \<Rightarrow> (tokenizer_error + (added_token_match option \<times> work_budget)) exec" where
  "find_added_token input start added_tokens work =
     (if start < length input then
        and_then_exec (charge work 1) (\<lambda>work.
          if input ! start = 0x3C then
            try_exec (find_added_at input start added_tokens 0 added_tokens None work) (\<lambda>(best, work).
              if best \<noteq> None then Some (Inr (best, work))
              else find_added_token input (start + 1) added_tokens work)
          else find_added_token input (start + 1) added_tokens work)
      else Some (Inr (None, work)))"
  by pat_completeness auto
termination
  by (relation "measure (\<lambda>(input, start, added_tokens, work). length input - start)") auto

subsection \<open>Byte-pair encoding\<close>

definition selection_from_rule :: "u32 \<times> u32 \<Rightarrow> (usize \<times> u32) option \<Rightarrow> merge_selection option" where
  "selection_from_rule key rule =
     (case rule of
        None \<Rightarrow> None
      | Some (rank, result_id) \<Rightarrow>
          Some \<lparr>ms_rank = rank, ms_left = fst key, ms_right = snd key, ms_result_id = result_id\<rparr>)"

fun better_selection :: "merge_selection option \<Rightarrow> merge_selection option \<Rightarrow> merge_selection option" where
  "better_selection None candidate = candidate"
| "better_selection current None = current"
| "better_selection (Some current) (Some candidate) =
     (if ms_rank candidate < ms_rank current then Some candidate else Some current)"

fun select_merge_loop ::
  "u32 list \<Rightarrow> merge_rules \<Rightarrow> merge_selection option \<Rightarrow> work_budget
     \<Rightarrow> tokenizer_error + (merge_selection option \<times> work_budget)" where
  "select_merge_loop (a # b # symbols) merge_ranks best work =
     and_then (charge_ordered_lookup work 4 4) (\<lambda>work.
       let candidate = selection_from_rule (a, b) (merge_ranks (a, b)) in
       select_merge_loop (b # symbols) merge_ranks (better_selection best candidate) work)"
| "select_merge_loop _ merge_ranks best work = Inr (best, work)"

definition select_merge ::
  "u32 list \<Rightarrow> merge_rules \<Rightarrow> work_budget \<Rightarrow> tokenizer_error + (merge_selection option \<times> work_budget)" where
  "select_merge symbols merge_ranks work =
     (if length symbols \<le> 1 then Inr (None, work) else select_merge_loop symbols merge_ranks None work)"

fun apply_merge_loop ::
  "u32 list \<Rightarrow> merge_selection \<Rightarrow> u32 list \<Rightarrow> work_budget \<Rightarrow> tokenizer_error + (u32 list \<times> work_budget)" where
  "apply_merge_loop [] selection merged work = Inr (merged, work)"
| "apply_merge_loop [a] selection merged work =
     and_then (charge work 1) (\<lambda>work. Inr (merged @ [a], work))"
| "apply_merge_loop (a # b # symbols) selection merged work =
     and_then (charge work 1) (\<lambda>work.
       if a = ms_left selection \<and> b = ms_right selection
       then apply_merge_loop symbols selection (merged @ [ms_result_id selection]) work
       else apply_merge_loop (b # symbols) selection (merged @ [a]) work)"

definition apply_merge ::
  "allocator \<Rightarrow> u32 list \<Rightarrow> merge_selection \<Rightarrow> work_budget \<Rightarrow> tokenizer_error + (u32 list \<times> work_budget)" where
  "apply_merge reserve symbols selection work =
     (if \<not> reserve (length symbols) then Inl AllocationFailed else apply_merge_loop symbols selection [] work)"

text \<open>A merge is selected only for a pair that occurs, and applying it then makes the sequence shorter: the loop of
  \<open>run_bpe\<close> ends.\<close>

fun adjacent :: "'a \<Rightarrow> 'a \<Rightarrow> 'a list \<Rightarrow> bool" where
  "adjacent a b (x # y # xs) \<longleftrightarrow> (x = a \<and> y = b) \<or> adjacent a b (y # xs)"
| "adjacent a b _ \<longleftrightarrow> False"

lemma and_then_Inr: "and_then r f = Inr y \<longleftrightarrow> (\<exists>x. r = Inr x \<and> f x = Inr y)"
  by (cases r) auto

lemma better_selection_cases: "better_selection best candidate = best \<or> better_selection best candidate = candidate"
  by (cases "(best, candidate)" rule: better_selection.cases) auto

lemma selection_from_rule_key:
  "selection_from_rule key rule = Some sel \<Longrightarrow> ms_left sel = fst key \<and> ms_right sel = snd key"
  by (auto simp: selection_from_rule_def split: option.splits)

lemma select_merge_loop_adjacent:
  "select_merge_loop symbols merge_ranks best work = Inr (Some sel, work') \<Longrightarrow>
   best = Some sel \<or> adjacent (ms_left sel) (ms_right sel) symbols"
proof (induction symbols merge_ranks best work rule: select_merge_loop.induct)
  case (1 a b symbols merge_ranks best work)
  let ?c = "selection_from_rule (a, b) (merge_ranks (a, b))"
  from 1(2) obtain work1 where w: "charge_ordered_lookup work 4 4 = Inr work1"
      "select_merge_loop (b # symbols) merge_ranks (better_selection best ?c) work1 = Inr (Some sel, work')"
    by (auto simp: and_then_Inr Let_def)
  from 1(1) [OF refl w(2)] have "better_selection best ?c = Some sel \<or> adjacent (ms_left sel) (ms_right sel) (b # symbols)" .
  then show ?case
    using better_selection_cases [of best ?c] selection_from_rule_key [of "(a, b)" _ sel] by auto
qed auto

lemma apply_merge_loop_length:
  "apply_merge_loop symbols sel merged work = Inr (out, work') \<Longrightarrow>
   length out \<le> length merged + length symbols \<and>
   (adjacent (ms_left sel) (ms_right sel) symbols \<longrightarrow> length out < length merged + length symbols)"
proof (induction symbols sel merged work rule: apply_merge_loop.induct)
  case (3 a b symbols sel merged work)
  then obtain work1 where w: "charge work 1 = Inr work1" by (auto simp: and_then_Inr)
  show ?case
  proof (cases "a = ms_left sel \<and> b = ms_right sel")
    case True
    then show ?thesis using 3(1) [of work1] 3(3) w by simp
  next
    case False
    then show ?thesis using 3(2) [of work1] 3(3) w by auto
  qed
qed (auto simp: and_then_Inr)

function run_bpe_loop ::
  "allocator \<Rightarrow> u32 list \<Rightarrow> merge_rules \<Rightarrow> work_budget \<Rightarrow> tokenizer_error + (u32 list \<times> work_budget)" where
  "run_bpe_loop reserve symbols merge_ranks work =
     (if 1 < length symbols then
        (case select_merge symbols merge_ranks work of
           Inl e \<Rightarrow> Inl e
         | Inr (None, work1) \<Rightarrow> Inr (symbols, work1)
         | Inr (Some selection, work1) \<Rightarrow>
             (case apply_merge reserve symbols selection work1 of
                Inl e \<Rightarrow> Inl e
              | Inr (symbols', work2) \<Rightarrow> run_bpe_loop reserve symbols' merge_ranks work2))
      else Inr (symbols, work))"
  by pat_completeness auto
termination
proof (relation "measure (\<lambda>(reserve, symbols, merge_ranks, work). length symbols)", goal_cases)
  case (2 reserve symbols merge_ranks work x y z sel u v w)
  then have "adjacent (ms_left sel) (ms_right sel) symbols"
    by (auto simp: select_merge_def split: if_splits dest: select_merge_loop_adjacent)
  then show ?case using 2 apply_merge_loop_length by (fastforce simp: apply_merge_def split: if_splits)
qed simp

declare run_bpe_loop.simps [simp del]

definition run_bpe ::
  "allocator \<Rightarrow> u32 list \<Rightarrow> merge_rules \<Rightarrow> work_budget \<Rightarrow> tokenizer_error + (u32 list \<times> work_budget)" where
  "run_bpe reserve initial merge_ranks work =
     (if \<not> reserve (length initial) then Inl AllocationFailed else run_bpe_loop reserve initial merge_ranks work)"

subsection \<open>Encoding\<close>

definition push_token :: "u32 list \<Rightarrow> u32 \<Rightarrow> usize \<Rightarrow> tokenizer_error + u32 list" where
  "push_token output token limit =
     (case usize_add (length output) 1 of
        None \<Rightarrow> Inl (TokenLimit limit U64_MAX)
      | Some actual \<Rightarrow>
          if limit < actual then Inl (TokenLimit limit actual) else Inr (output @ [token]))"

definition emit_added_token ::
  "added_token \<Rightarrow> encode_policy \<Rightarrow> u32 list \<Rightarrow> usize \<Rightarrow> tokenizer_error + (usize \<times> u32 list)" where
  "emit_added_token added policy output limit =
     (if policy = Reject \<and> ad_special added then Inl (SpecialTokenForbidden (ad_token_id added))
      else and_then (push_token output (ad_token_id added) limit) (\<lambda>output'. Inr (length (ad_bytes added), output')))"

fun piece_symbols ::
  "tokenizer_execution \<Rightarrow> bytes \<Rightarrow> u32 list \<Rightarrow> work_budget \<Rightarrow> (tokenizer_error + (u32 list \<times> work_budget)) exec" where
  "piece_symbols program [] symbols work = Some (Inr (symbols, work))"
| "piece_symbols program (byte # piece) symbols work =
     and_then_exec (charge work 1) (\<lambda>work.
       do { token_id \<leftarrow> idx (te_byte_token_ids program) byte;
            piece_symbols program piece (symbols @ [token_id]) work })"

fun push_tokens :: "u32 list \<Rightarrow> usize \<Rightarrow> u32 list \<Rightarrow> tokenizer_error + u32 list" where
  "push_tokens [] limit output = Inr output"
| "push_tokens (token # merged) limit output =
     and_then (push_token output token limit) (\<lambda>output'. push_tokens merged limit output')"

definition encode_piece ::
  "allocator \<Rightarrow> tokenizer_execution \<Rightarrow> bytes \<Rightarrow> tokenizer_limits \<Rightarrow> work_budget \<Rightarrow> u32 list
     \<Rightarrow> (tokenizer_error + (work_budget \<times> u32 list)) exec" where
  "encode_piece reserve program piece limits work output =
     (if \<not> reserve (length piece) then Some (Inl AllocationFailed)
      else try_exec (piece_symbols program piece [] work) (\<lambda>(symbols, work).
        Some (and_then (run_bpe reserve symbols (te_merge_ranks program) work) (\<lambda>(merged, work).
          and_then (push_tokens merged (tl_tokens limits) output) (\<lambda>output'. Inr (work, output'))))))"

fun normalize_loop :: "u32 list \<Rightarrow> bytes \<Rightarrow> work_budget \<Rightarrow> tokenizer_error + (bytes \<times> work_budget)" where
  "normalize_loop [] normalized work = Inr (normalized, work)"
| "normalize_loop (symbol # symbols) normalized work =
     and_then (charge work 1) (\<lambda>work.
       case usize_add (length normalized) (length (encode_utf8 symbol)) of
         None \<Rightarrow> Inl ArithmeticOverflow
       | Some actual \<Rightarrow>
           if MAX_TOKENIZER_NORMALIZED_BYTES < actual
           then Inl (NormalizedInputTooLarge MAX_TOKENIZER_NORMALIZED_BYTES actual)
           else normalize_loop symbols (normalized @ encode_utf8 symbol) work)"

definition encode_slice ::
  "allocator \<Rightarrow> tokenizer_execution \<Rightarrow> bytes \<Rightarrow> usize \<Rightarrow> usize \<Rightarrow> tokenizer_limits \<Rightarrow> work_budget \<Rightarrow> u32 list
     \<Rightarrow> (tokenizer_error + (work_budget \<times> u32 list)) exec" where
  "encode_slice reserve program normalized a b limits work output = do {
     piece \<leftarrow> slice normalized a b;
     encode_piece reserve program piece limits work output }"

fun split_loop ::
  "allocator \<Rightarrow> tokenizer_execution \<Rightarrow> bytes \<Rightarrow> (usize \<times> usize) list \<Rightarrow> usize \<Rightarrow> tokenizer_limits \<Rightarrow> work_budget \<Rightarrow> u32 list
     \<Rightarrow> (tokenizer_error + (usize \<times> work_budget \<times> u32 list)) exec" where
  "split_loop reserve program normalized [] previous limits work output = Some (Inr (previous, work, output))"
| "split_loop reserve program normalized ((start, end') # matches) previous limits work output =
     (case u_sub end' previous of
        None \<Rightarrow> Some (Inl ArithmeticOverflow)
      | Some amount \<Rightarrow>
          and_then_exec (charge work amount) (\<lambda>work.
          try_exec (if previous \<noteq> start then encode_slice reserve program normalized previous start limits work output
                    else Some (Inr (work, output))) (\<lambda>(work, output).
          try_exec (encode_slice reserve program normalized start end' limits work output) (\<lambda>(work, output).
          split_loop reserve program normalized matches end' limits work output))))"

definition encode_normal_text ::
  "allocator \<Rightarrow> normalizer \<Rightarrow> tokenizer_program \<Rightarrow> bytes \<Rightarrow> tokenizer_limits \<Rightarrow> work_budget \<Rightarrow> u32 list
     \<Rightarrow> (tokenizer_error + (work_budget \<times> u32 list)) exec" where
  "encode_normal_text reserve nfc program input limits work output =
     (if \<not> reserve (length input) then Some (Inl AllocationFailed)
      else and_then_exec (normalize_loop (nfc input) [] work) (\<lambda>(normalized, work).
        try_exec (split_loop reserve (tp_execution program) normalized (tp_split_regex program normalized) 0 limits work output)
          (\<lambda>(previous, work, output).
            if previous \<noteq> length normalized then
              (case u_sub (length normalized) previous of
                 None \<Rightarrow> Some (Inl ArithmeticOverflow)
               | Some amount \<Rightarrow>
                   and_then_exec (charge work amount) (\<lambda>work.
                     encode_slice reserve (tp_execution program) normalized previous (length normalized) limits work output))
            else Some (Inr (work, output)))))"

text \<open>Slicing a \<^verbatim>\<open>str\<close> panics unless both ends are character boundaries.\<close>

definition is_char_boundary :: "bytes \<Rightarrow> usize \<Rightarrow> bool" where
  "is_char_boundary input i \<longleftrightarrow> i = length input \<or> (i < length input \<and> \<not> utf8_cont (input ! i))"

definition str_slice :: "bytes \<Rightarrow> usize \<Rightarrow> usize \<Rightarrow> bytes exec" where
  "str_slice input a b = (if is_char_boundary input a \<and> is_char_boundary input b then slice input a b else None)"

definition encode_until ::
  "allocator \<Rightarrow> normalizer \<Rightarrow> tokenizer_program \<Rightarrow> bytes \<Rightarrow> usize \<Rightarrow> usize \<Rightarrow> tokenizer_limits \<Rightarrow> work_budget \<Rightarrow> u32 list
     \<Rightarrow> (tokenizer_error + (work_budget \<times> u32 list)) exec" where
  "encode_until reserve nfc program input cursor normal_end limits work output = do {
     normal \<leftarrow> str_slice input cursor normal_end;
     encode_normal_text reserve nfc program normal limits work output }"

definition emit_match ::
  "tokenizer_program \<Rightarrow> added_token_match \<Rightarrow> encode_policy \<Rightarrow> tokenizer_limits \<Rightarrow> u32 list
     \<Rightarrow> (tokenizer_error + (usize \<times> u32 list)) exec" where
  "emit_match program m policy limits output = do {
     added \<leftarrow> idx (te_added_tokens (tp_execution program)) (am_offset m);
     Some (and_then (emit_added_token added policy output (tl_tokens limits)) (\<lambda>(added_len, output').
       case usize_add (am_start m) added_len of
         None \<Rightarrow> Inl ArithmeticOverflow
       | Some cursor \<Rightarrow> Inr (cursor, output'))) }"

partial_function (option) encode_loop ::
  "allocator \<Rightarrow> normalizer \<Rightarrow> tokenizer_program \<Rightarrow> bytes \<Rightarrow> usize \<Rightarrow> tokenizer_limits \<Rightarrow> encode_policy \<Rightarrow> work_budget
     \<Rightarrow> u32 list \<Rightarrow> (tokenizer_error + u32 list) exec" where
  "encode_loop reserve nfc program input cursor limits policy work output =
     (if cursor < length input then
        Option.bind (find_added_token input cursor (te_added_tokens (tp_execution program)) work) (\<lambda>r. case r of
          Inl e \<Rightarrow> Some (Inl e)
        | Inr (next, work1) \<Rightarrow>
            Option.bind (encode_until reserve nfc program input cursor
                (case next of None \<Rightarrow> length input | Some m \<Rightarrow> am_start m) limits work1 output) (\<lambda>r. case r of
              Inl e \<Rightarrow> Some (Inl e)
            | Inr (work2, output1) \<Rightarrow>
                (case next of
                   None \<Rightarrow> Some (Inr output1)
                 | Some m \<Rightarrow>
                     Option.bind (emit_match program m policy limits output1) (\<lambda>r. case r of
                       Inl e \<Rightarrow> Some (Inl e)
                     | Inr (cursor', output2) \<Rightarrow>
                         encode_loop reserve nfc program input cursor' limits policy work2 output2))))
      else Some (Inr output))"

definition encode ::
  "allocator \<Rightarrow> normalizer \<Rightarrow> tokenizer_program \<Rightarrow> bytes \<Rightarrow> tokenizer_limits \<Rightarrow> encode_policy
     \<Rightarrow> (tokenizer_error + u32 list) exec" where
  "encode reserve nfc program input limits policy =
     and_then_exec (limits_validate limits) (\<lambda>_.
     if tl_input_bytes limits < length input then Some (Inl (InputTooLarge (tl_input_bytes limits) (length input)))
     else let work = budget_new (tl_work limits) in
       try_exec (if policy = Reject
                 then reject_forbidden_special input 0 (te_added_tokens (tp_execution program)) work
                 else Some (Inr work)) (\<lambda>work.
       if \<not> reserve (min (length input) (tl_tokens limits)) then Some (Inl AllocationFailed)
       else encode_loop reserve nfc program input 0 limits policy work []))"

subsection \<open>Decoding\<close>

definition push_byte :: "bytes \<Rightarrow> u8 \<Rightarrow> usize \<Rightarrow> tokenizer_error + bytes" where
  "push_byte output byte limit =
     (if limit \<le> length output then Inl (OutputByteLimit limit) else Inr (output @ [byte]))"

fun append_decoded_bytes ::
  "bytes \<Rightarrow> work_budget \<Rightarrow> bytes \<Rightarrow> usize \<Rightarrow> tokenizer_error + (work_budget \<times> bytes)" where
  "append_decoded_bytes [] work output limit = Inr (work, output)"
| "append_decoded_bytes (byte # bytes) work output limit =
     and_then (charge work 1) (\<lambda>work.
     and_then (push_byte output byte limit) (\<lambda>output'.
     append_decoded_bytes bytes work output' limit))"

fun decode_loop ::
  "tokenizer_execution \<Rightarrow> u32 list \<Rightarrow> tokenizer_limits \<Rightarrow> decode_policy \<Rightarrow> work_budget \<Rightarrow> bytes
     \<Rightarrow> tokenizer_error + bytes" where
  "decode_loop program [] limits policy work output = Inr output"
| "decode_loop program (token_id # token_ids) limits policy work output =
     and_then (charge work 1) (\<lambda>work.
     and_then
       (if token_id < BASE_VOCABULARY_SIZE then
          (case idx (te_vocabulary_bytes program) token_id of
             None \<Rightarrow> Inl (UnknownTokenId token_id)
           | Some bytes \<Rightarrow> append_decoded_bytes bytes work output (tl_output_bytes limits))
        else
          (case idx (te_added_tokens program) (token_id - BASE_VOCABULARY_SIZE) of
             None \<Rightarrow> Inl (UnknownTokenId token_id)
           | Some added \<Rightarrow>
               if policy = Skip \<and> ad_special added then Inr (work, output)
               else append_decoded_bytes (ad_bytes added) work output (tl_output_bytes limits)))
       (\<lambda>(work, output). decode_loop program token_ids limits policy work output))"

definition decode_to_bytes ::
  "allocator \<Rightarrow> tokenizer_execution \<Rightarrow> u32 list \<Rightarrow> tokenizer_limits \<Rightarrow> decode_policy \<Rightarrow> tokenizer_error + bytes" where
  "decode_to_bytes reserve program token_ids limits policy =
     and_then (limits_validate limits) (\<lambda>_.
     if tl_tokens limits < length token_ids then Inl (TokenLimit (tl_tokens limits) (length token_ids))
     else if \<not> reserve (min (length token_ids) (tl_output_bytes limits)) then Inl AllocationFailed
     else decode_loop program token_ids limits policy (budget_new (tl_work limits)) [])"

declare bytes_match_loop.simps [simp del] reject_forbidden_special.simps [simp del] find_added_token.simps [simp del]

end
