(* ===== verification/Tokenizer_Program.thy ===== *)
theory Tokenizer_Program
  imports Tokenizer
begin

text \<open>
  The invariant of a tokenizer program, and that construction establishes it: the byte tokens stand for single
  bytes, a merged token stands for the bytes of its two parts, and the added tokens are the fixed ones.
\<close>

subsection \<open>UTF-8 and the byte alphabet\<close>

lemma utf8_chars_encode: "c < 0x800 \<Longrightarrow> utf8_chars (encode_utf8 c @ s) = c # utf8_chars s"
  by (auto simp: encode_utf8_def less_mult_imp_div_less)

text \<open>The shapes of the first character of a well-formed string.\<close>

lemma utf8_valid_cases:
  assumes "utf8_valid (x # xs)"
  obtains "x < 0x80" "utf8_valid xs"
    | y r where "0xC2 \<le> x" "x < 0xE0" "xs = y # r" "0x80 \<le> y" "utf8_valid r"
    | y z r where "0xE0 \<le> x" "x < 0xF0" "xs = y # z # r" "0x80 \<le> y" "0x80 \<le> z" "utf8_valid r"
    | y z u r where "0xF0 \<le> x" "xs = y # z # u # r" "0x80 \<le> y" "0x80 \<le> z" "0x80 \<le> u" "utf8_valid r"
proof -
  consider "x < 0x80" | "0xC2 \<le> x" "x \<le> 0xDF" | "0xE0 \<le> x" "x \<le> 0xEF" | "0xF0 \<le> x" "x \<le> 0xF4"
    using assms by (simp add: utf8_valid.simps split: if_splits)
  then show ?thesis
  proof cases
    case 1
    then show ?thesis using assms that(1) by (simp add: utf8_valid.simps)
  next
    case 2
    then have "case xs of c # r \<Rightarrow> utf8_cont c \<and> utf8_valid r | _ \<Rightarrow> False" using assms by (simp add: utf8_valid.simps)
    then show ?thesis using that(2) 2 by (cases xs) (auto simp: utf8_cont_def)
  next
    case 3
    then have "case xs of c # d # r \<Rightarrow> 0x80 \<le> c \<and> 0x80 \<le> d \<and> utf8_valid r | _ \<Rightarrow> False"
      using assms by (simp add: utf8_valid.simps utf8_cont_def split: list.splits if_splits)
    then show ?thesis using that(3) 3 by (auto split: list.splits)
  next
    case 4
    then have "case xs of c # d # e # r \<Rightarrow> 0x80 \<le> c \<and> 0x80 \<le> d \<and> 0x80 \<le> e \<and> utf8_valid r | _ \<Rightarrow> False"
      using assms by (simp add: utf8_valid.simps utf8_cont_def split: list.splits if_splits)
    then show ?thesis using that(4) 4 by (auto split: list.splits)
  qed
qed

lemma utf8_after_ascii: "utf8_valid (a @ x # b) \<Longrightarrow> x < 0x80 \<Longrightarrow> utf8_valid b"
proof (induction "length a" arbitrary: a rule: less_induct)
  case less
  show ?case
  proof (cases a)
    case Nil
    then show ?thesis using less.prems by (auto elim: utf8_valid_cases)
  next
    case (Cons y a1)
    from less.prems(1) [unfolded Cons append_Cons] show ?thesis
    proof (cases rule: utf8_valid_cases)
      case 1
      then show ?thesis using less.hyps [of a1] less.prems(2) Cons by simp
    next
      case (2 z r)
      then obtain a2 where "a1 = z # a2" "r = a2 @ x # b" using less.prems(2) by (cases a1) auto
      then show ?thesis using less.hyps [of a2] less.prems(2) Cons 2 by simp
    next
      case (3 z u r)
      then obtain a2 where "a1 = z # u # a2" "r = a2 @ x # b"
        using less.prems(2) by (cases a1; cases "tl a1") auto
      then show ?thesis using less.hyps [of a2] less.prems(2) Cons 3 by simp
    next
      case (4 z u v r)
      then obtain a2 where "a1 = z # u # v # a2" "r = a2 @ x # b"
        using less.prems(2) by (cases a1; cases "tl a1"; cases "tl (tl a1)") auto
      then show ?thesis using less.hyps [of a2] less.prems(2) Cons 4 by simp
    qed
  qed
qed

lemma utf8_chars_append: "utf8_valid a \<Longrightarrow> utf8_chars (a @ b) = utf8_chars a @ utf8_chars b"
proof (induction "length a" arbitrary: a rule: less_induct)
  case less
  show ?case
  proof (cases a)
    case (Cons x xs)
    from less.prems [unfolded Cons] show ?thesis
      by (cases rule: utf8_valid_cases) (simp_all add: Cons less.hyps)
  qed simp
qed

lemma byte_to_unicode_less: "b < 256 \<Longrightarrow> byte_to_unicode_codepoint b < 0x800"
  by (simp add: byte_to_unicode_codepoint_def)

lemma byte_to_unicode_Some: "b < 256 \<Longrightarrow> byte_to_unicode b = Some (byte_to_unicode_codepoint b)"
  by (simp add: byte_to_unicode_def char_from_u32_def byte_to_unicode_codepoint_def)

lemma unicode_byte_inverse: "b < 256 \<Longrightarrow> unicode_codepoint_to_byte (byte_to_unicode_codepoint b) = Some b"
  by (auto simp: unicode_codepoint_to_byte_def byte_to_unicode_codepoint_def)

lemma unicode_byte_less: "unicode_codepoint_to_byte c = Some b \<Longrightarrow> b < 256 \<and> byte_to_unicode_codepoint b = c"
  by (auto simp: unicode_codepoint_to_byte_def byte_to_unicode_codepoint_def split: if_splits)

subsection \<open>The invariant\<close>

definition added_token_of :: "nat \<Rightarrow> added_token" where
  "added_token_of i = \<lparr>ad_bytes = fst (ADDED_TOKENS ! i), ad_special = snd (ADDED_TOKENS ! i),
     ad_token_id = BASE_VOCABULARY_SIZE + i\<rparr>"

definition program_inv :: "tokenizer_execution \<Rightarrow> bool" where
  "program_inv p \<longleftrightarrow>
     length (te_byte_token_ids p) = 256 \<and>
     (\<forall>b<256. te_byte_token_ids p ! b < length (te_vocabulary_bytes p) \<and>
        te_vocabulary_bytes p ! (te_byte_token_ids p ! b) = [b]) \<and>
     (\<forall>l r rank res. te_merge_ranks p (l, r) = Some (rank, res) \<longrightarrow>
        l < length (te_vocabulary_bytes p) \<and> r < length (te_vocabulary_bytes p) \<and> res < length (te_vocabulary_bytes p) \<and>
        te_vocabulary_bytes p ! res = te_vocabulary_bytes p ! l @ te_vocabulary_bytes p ! r) \<and>
     te_added_tokens p = map added_token_of [0..<length ADDED_TOKENS] \<and>
     length (te_vocabulary_bytes p) \<le> BASE_VOCABULARY_SIZE"

subsection \<open>Construction\<close>

text \<open>\<open>ids\<close> names positions of the vocabulary.\<close>

definition ids_of :: "bytes list \<Rightarrow> (bytes \<rightharpoonup> u32) \<Rightarrow> bool" where
  "ids_of vocabulary ids \<longleftrightarrow> (\<forall>t i. ids t = Some i \<longrightarrow> i < length vocabulary \<and> vocabulary ! i = t)"

lemma collect_token_ids_ok:
  "collect_token_ids (length done) rest ids = Inr ids' \<Longrightarrow> ids_of done ids \<Longrightarrow> ids_of (done @ rest) ids'"
proof (induction rest arbitrary: "done" ids)
  case (Cons t rest)
  have "ids_of (done @ [t]) (ids(t \<mapsto> length done))"
    using Cons.prems(2) by (fastforce simp: ids_of_def nth_append)
  with Cons.IH [of "done @ [t]"] Cons.prems(1) show ?case by (simp split: if_splits)
qed simp

definition token_text_bytes :: "bytes \<Rightarrow> bytes \<Rightarrow> bool" where
  "token_text_bytes t bs \<longleftrightarrow> list_all2 (\<lambda>c b. unicode_codepoint_to_byte c = Some b) (utf8_chars t) bs"

lemma symbol_bytes_ok:
  "symbol_bytes cs acc = Inr bs \<Longrightarrow> \<exists>ds. bs = acc @ ds \<and> list_all2 (\<lambda>c b. unicode_codepoint_to_byte c = Some b) cs ds"
proof (induction cs arbitrary: acc)
  case (Cons c cs)
  then obtain b where b: "unicode_codepoint_to_byte c = Some b" "symbol_bytes cs (acc @ [b]) = Inr bs"
    by (auto split: option.splits)
  from Cons.IH [OF b(2)] obtain ds where "bs = acc @ b # ds"
      "list_all2 (\<lambda>c b. unicode_codepoint_to_byte c = Some b) cs ds"
    by auto
  then show ?case using b(1) by (intro exI [of _ "b # ds"]) simp
qed simp

lemma collect_vocabulary_bytes_ok:
  "collect_vocabulary_bytes reserve rest vb = Inr vb' \<Longrightarrow> list_all2 token_text_bytes done vb \<Longrightarrow>
   list_all2 token_text_bytes (done @ rest) vb'"
proof (induction rest arbitrary: "done" vb)
  case (Cons t rest)
  then obtain bs where bs: "symbol_bytes (utf8_chars t) [] = Inr bs"
      "collect_vocabulary_bytes reserve rest (vb @ [bs]) = Inr vb'"
    by (auto simp: and_then_Inr split: if_splits)
  have "token_text_bytes t bs" using symbol_bytes_ok [OF bs(1)] by (simp add: token_text_bytes_def)
  then have "list_all2 token_text_bytes (done @ [t]) (vb @ [bs])"
    using Cons.prems(2) by (intro list_all2_appendI) simp_all
  from Cons.IH [OF bs(2) this] show ?case by simp
qed simp

lemma token_text_bytes_unique: "token_text_bytes t bs \<Longrightarrow> token_text_bytes t cs \<Longrightarrow> bs = cs"
  unfolding token_text_bytes_def
  by (auto simp: list_all2_conv_all_nth intro!: nth_equalityI)

lemma token_text_bytes_append:
  "utf8_valid t \<Longrightarrow> token_text_bytes t bs \<Longrightarrow> token_text_bytes u cs \<Longrightarrow> token_text_bytes (t @ u) (bs @ cs)"
  by (simp add: token_text_bytes_def utf8_chars_append list_all2_appendI)

lemma token_text_bytes_byte: "b < 256 \<Longrightarrow> token_text_bytes (encode_utf8 (byte_to_unicode_codepoint b)) [b]"
  using utf8_chars_encode [OF byte_to_unicode_less, of b "[]"] by (simp add: token_text_bytes_def unicode_byte_inverse)

lemma fill_byte_token_ids_ok:
  "fill_byte_token_ids n byte ids arr = Inr arr' \<Longrightarrow> byte + n = 256 \<Longrightarrow> length arr = 256 \<Longrightarrow>
   (\<forall>b<byte. ids (encode_utf8 (byte_to_unicode_codepoint b)) = Some (arr ! b)) \<Longrightarrow>
   length arr' = 256 \<and> (\<forall>b<256. ids (encode_utf8 (byte_to_unicode_codepoint b)) = Some (arr' ! b))"
proof (induction n arbitrary: byte arr)
  case (Suc n)
  then obtain i where "ids (encode_utf8 (byte_to_unicode_codepoint byte)) = Some i"
      "fill_byte_token_ids n (byte + 1) ids (arr[byte := i]) = Inr arr'"
    by (auto simp: byte_to_unicode_Some split: option.splits)
  with Suc.IH [of "byte + 1" "arr[byte := i]"] Suc.prems show ?case by (auto simp: nth_list_update less_Suc_eq)
qed simp

definition merges_inv :: "bytes list \<Rightarrow> merge_rules \<Rightarrow> bool" where
  "merges_inv vb ranks \<longleftrightarrow> (\<forall>l r rank res. ranks (l, r) = Some (rank, res) \<longrightarrow>
     l < length vb \<and> r < length vb \<and> res < length vb \<and> vb ! res = vb ! l @ vb ! r)"

lemma collect_merges_ok:
  assumes ids: "ids_of vocabulary ids" and vb: "list_all2 token_text_bytes vocabulary vb"
    and utf8: "\<forall>t\<in>set vocabulary. utf8_valid t"
  shows "collect_merges reserve ids rank merges ranks = Inr ranks' \<Longrightarrow> merges_inv vb ranks \<Longrightarrow> merges_inv vb ranks'"
proof (induction merges arbitrary: rank ranks)
  case (Cons m merges)
  obtain left right where m: "m = (left, right)" by (cases m)
  with Cons.prems(1) obtain l r res where lr: "ids left = Some l" "ids right = Some r" "ids (left @ right) = Some res"
      "collect_merges reserve ids (rank + 1) merges (ranks((l, r) \<mapsto> (rank, res))) = Inr ranks'"
    by (auto split: option.splits if_splits)
  have at: "i < length vb \<and> token_text_bytes t (vb ! i) \<and> utf8_valid t" if "ids t = Some i" for t i
    using ids vb utf8 that unfolding ids_of_def list_all2_conv_all_nth by (metis nth_mem)
  have "vb ! res = vb ! l @ vb ! r"
    using at [OF lr(1)] at [OF lr(2)] at [OF lr(3)] token_text_bytes_append token_text_bytes_unique by blast
  then have "merges_inv vb (ranks((l, r) \<mapsto> (rank, res)))"
    using Cons.prems(2) at [OF lr(1)] at [OF lr(2)] at [OF lr(3)] by (simp add: merges_inv_def)
  then show ?case by (rule Cons.IH [OF lr(4)])
qed simp

lemma ADDED_TOKENS_length: "length ADDED_TOKENS = 26"
  by (simp add: ADDED_TOKENS_def)

lemma collect_added_tokens_ok:
  "collect_added_tokens (length done) rest acc = Inr acc' \<Longrightarrow> ADDED_TOKENS = done @ rest \<Longrightarrow>
   acc = map added_token_of [0..<length done] \<Longrightarrow> acc' = map added_token_of [0..<length ADDED_TOKENS]"
proof (induction rest arbitrary: "done" acc)
  case (Cons t rest)
  obtain content special where t: "t = (content, special)" by (cases t)
  have "added_token_of (length done) = \<lparr>ad_bytes = content, ad_special = special,
      ad_token_id = BASE_VOCABULARY_SIZE + length done\<rparr>"
    unfolding added_token_of_def Cons.prems(2) t by simp
  then show ?case using Cons.IH [of "done @ [t]" "acc @ [added_token_of (length done)]"] Cons.prems t
    by (auto split: option.splits)
qed simp

lemma program_new_inv:
  assumes new: "program_new reserve regex_new vocabulary merges = Inr p"
    and utf8: "\<forall>t\<in>set vocabulary. utf8_valid t" and size: "length vocabulary \<le> BASE_VOCABULARY_SIZE"
  shows "program_inv (tp_execution p)" "regex_new = Some (tp_split_regex p)"
proof -
  from new obtain ids arr vb ranks added split where n: "collect_token_ids 0 vocabulary Map.empty = Inr ids"
      "fill_byte_token_ids 256 0 ids (replicate 256 0) = Inr arr"
      "collect_vocabulary_bytes reserve vocabulary [] = Inr vb"
      "collect_merges reserve ids 0 merges Map.empty = Inr ranks"
      "collect_added_tokens 0 ADDED_TOKENS [] = Inr added" "regex_new = Some split"
      "p = \<lparr>tp_execution = \<lparr>te_byte_token_ids = arr, te_vocabulary_bytes = vb, te_merge_ranks = ranks,
         te_added_tokens = added\<rparr>, tp_split_regex = split\<rparr>"
    unfolding program_new_def by (auto simp: and_then_Inr split: if_splits option.splits)
  have ids: "ids_of vocabulary ids"
    using collect_token_ids_ok [of "[]" vocabulary Map.empty ids] n(1) by (simp add: ids_of_def)
  have vb: "list_all2 token_text_bytes vocabulary vb"
    using collect_vocabulary_bytes_ok [OF n(3), of "[]"] by simp
  have merges: "merges_inv vb ranks"
    by (rule collect_merges_ok [OF ids vb utf8 n(4)]) (simp add: merges_inv_def)
  have arr: "length arr = 256" "\<forall>b<256. ids (encode_utf8 (byte_to_unicode_codepoint b)) = Some (arr ! b)"
    using fill_byte_token_ids_ok [OF n(2)] by simp_all
  have "arr ! b < length vb \<and> vb ! (arr ! b) = [b]" if "b < 256" for b
  proof -
    have "arr ! b < length vocabulary" "vocabulary ! (arr ! b) = encode_utf8 (byte_to_unicode_codepoint b)"
      using arr(2) that ids unfolding ids_of_def by blast+
    then show ?thesis
      using vb token_text_bytes_byte [OF that] token_text_bytes_unique unfolding list_all2_conv_all_nth by metis
  qed
  moreover have "added = map added_token_of [0..<length ADDED_TOKENS]"
    using collect_added_tokens_ok [of "[]" ADDED_TOKENS "[]" added] n(5) by simp
  ultimately show "program_inv (tp_execution p)"
    using arr(1) merges size vb unfolding program_inv_def merges_inv_def n(7) by (simp add: list_all2_lengthD)
  show "regex_new = Some (tp_split_regex p)" using n(6,7) by simp
qed

end
