(* ===== verification/Tokenizer_Bpe.thy ===== *)
theory Tokenizer_Bpe
  imports Tokenizer_Program
begin

text \<open>
  Byte-pair encoding against its definition: the loop of \<open>run_bpe\<close> repeatedly replaces all occurrences of the adjacent
  pair of lowest rank and stops when no adjacent pair has a rule.  A budget quadratic in the input is enough.
\<close>

subsection \<open>The specification\<close>

fun replace_pair :: "u32 \<Rightarrow> u32 \<Rightarrow> u32 \<Rightarrow> u32 list \<Rightarrow> u32 list" where
  "replace_pair l r res (a # b # xs) =
     (if a = l \<and> b = r then res # replace_pair l r res xs else a # replace_pair l r res (b # xs))"
| "replace_pair l r res xs = xs"

definition bpe_step :: "merge_rules \<Rightarrow> u32 list \<Rightarrow> u32 list \<Rightarrow> bool" where
  "bpe_step ranks xs ys \<longleftrightarrow>
     (\<exists>l r rank res. ranks (l, r) = Some (rank, res) \<and> adjacent l r xs \<and>
        (\<forall>a b rank' res'. adjacent a b xs \<and> ranks (a, b) = Some (rank', res') \<longrightarrow> rank \<le> rank') \<and>
        ys = replace_pair l r res xs)"

definition bpe_normal :: "merge_rules \<Rightarrow> u32 list \<Rightarrow> bool" where
  "bpe_normal ranks xs \<longleftrightarrow> (\<forall>a b. adjacent a b xs \<longrightarrow> ranks (a, b) = None)"

subsection \<open>The budget\<close>

lemma charge_ok:
  "charge work n = Inr work' \<longleftrightarrow>
     wb_used work + n \<le> U64_MAX \<and> wb_used work + n \<le> wb_limit work \<and> work' = work\<lparr>wb_used := wb_used work + n\<rparr>"
  by (auto simp: charge_def u_add_def split: option.splits)

lemma charge_lookup: "charge_ordered_lookup work 4 4 = charge work 1024"
  by (simp add: charge_ordered_lookup_def ORDERED_LOOKUP_COMPARISONS_def exec_simps)

text \<open>\<open>work'\<close> is \<open>work\<close> after charges of at most \<open>n\<close> in all.\<close>

definition spent :: "work_budget \<Rightarrow> nat \<Rightarrow> work_budget \<Rightarrow> bool" where
  "spent work n work' \<longleftrightarrow> wb_limit work' = wb_limit work \<and> wb_used work' \<le> wb_used work + n"

definition affords :: "work_budget \<Rightarrow> nat \<Rightarrow> bool" where
  "affords work n \<longleftrightarrow> wb_used work + n \<le> wb_limit work \<and> wb_limit work \<le> U64_MAX"

lemma affords_charge: "affords work (n + m) \<Longrightarrow> \<exists>work'. charge work n = Inr work' \<and> spent work n work' \<and> affords work' m"
  by (auto simp: affords_def spent_def charge_ok)

lemma affords_spent: "affords work (n + m) \<Longrightarrow> spent work n work' \<Longrightarrow> affords work' m"
  by (auto simp: affords_def spent_def)

lemma spent_trans: "spent a n b \<Longrightarrow> spent b m c \<Longrightarrow> spent a (n + m) c"
  by (auto simp: spent_def)

lemma affords_mono: "affords work n \<Longrightarrow> m \<le> n \<Longrightarrow> affords work m"
  by (auto simp: affords_def)

subsection \<open>Selection\<close>

definition rule_for :: "merge_rules \<Rightarrow> u32 list \<Rightarrow> merge_selection \<Rightarrow> bool" where
  "rule_for ranks xs sel \<longleftrightarrow> adjacent (ms_left sel) (ms_right sel) xs \<and>
     ranks (ms_left sel, ms_right sel) = Some (ms_rank sel, ms_result_id sel)"

definition best_of :: "merge_selection set \<Rightarrow> merge_selection option \<Rightarrow> bool" where
  "best_of S r \<longleftrightarrow> (case r of None \<Rightarrow> S = {} | Some sel \<Rightarrow> sel \<in> S \<and> (\<forall>c\<in>S. ms_rank sel \<le> ms_rank c))"

lemma best_of_better:
  "best_of (set_option (better_selection b c) \<union> T) r \<Longrightarrow> best_of (set_option b \<union> set_option c \<union> T) r"
  by (cases "(b, c)" rule: better_selection.cases) (fastforce simp: best_of_def split: option.splits if_splits)+

lemma rule_for_Cons:
  "set_option (selection_from_rule (a, b) (ranks (a, b))) \<union> {sel. rule_for ranks (b # xs) sel}
     = {sel. rule_for ranks (a # b # xs) sel}"
  by (auto simp: rule_for_def selection_from_rule_def split: option.splits)

lemma select_merge_loop_best:
  "select_merge_loop symbols ranks best work = Inr (r, work') \<Longrightarrow>
   best_of (set_option best \<union> {sel. rule_for ranks symbols sel}) r"
proof (induction symbols ranks best work rule: select_merge_loop.induct)
  case (1 a b xs ranks best work)
  let ?c = "selection_from_rule (a, b) (ranks (a, b))"
  from 1(2) obtain work1 where "select_merge_loop (b # xs) ranks (better_selection best ?c) work1 = Inr (r, work')"
    by (auto simp: and_then_Inr Let_def)
  from best_of_better [OF 1(1) [OF refl this]] show ?case by (simp only: Un_assoc rule_for_Cons)
qed (auto simp: rule_for_def best_of_def split: option.splits)

lemma select_merge_best:
  "select_merge symbols ranks work = Inr (r, work') \<Longrightarrow> best_of {sel. rule_for ranks symbols sel} r"
proof (cases "length symbols \<le> 1")
  case True
  then have "{sel. rule_for ranks symbols sel} = {}"
    by (cases symbols rule: remdups_adj.cases) (auto simp: rule_for_def)
  moreover assume "select_merge symbols ranks work = Inr (r, work')"
  ultimately show ?thesis using True by (auto simp: select_merge_def best_of_def)
next
  case False
  assume "select_merge symbols ranks work = Inr (r, work')"
  with False select_merge_loop_best [of symbols ranks None work r work'] show ?thesis by (simp add: select_merge_def)
qed

lemma select_merge_None: "best_of {sel. rule_for ranks xs sel} None \<Longrightarrow> bpe_normal ranks xs"
proof -
  assume "best_of {sel. rule_for ranks xs sel} None"
  then have none: "\<not> rule_for ranks xs sel" for sel by (auto simp: best_of_def)
  have "ranks (a, b) = None" if "adjacent a b xs" for a b
    using none [of "\<lparr>ms_rank = fst (the (ranks (a, b))), ms_left = a, ms_right = b,
      ms_result_id = snd (the (ranks (a, b)))\<rparr>"] that by (cases "ranks (a, b)") (auto simp: rule_for_def)
  then show ?thesis by (simp add: bpe_normal_def)
qed

lemma apply_merge_loop_replace:
  "apply_merge_loop symbols sel merged work = Inr (out, work') \<Longrightarrow>
   out = merged @ replace_pair (ms_left sel) (ms_right sel) (ms_result_id sel) symbols"
  by (induction symbols sel merged work rule: apply_merge_loop.induct)
     (auto simp: and_then_Inr split: if_splits)

lemma select_apply_step:
  assumes "best_of {sel. rule_for ranks xs sel} (Some sel)" "apply_merge reserve xs sel work = Inr (ys, work')"
  shows "bpe_step ranks xs ys"
proof -
  have sel: "rule_for ranks xs sel" "\<And>c. rule_for ranks xs c \<Longrightarrow> ms_rank sel \<le> ms_rank c"
    using assms(1) by (auto simp: best_of_def)
  have "ms_rank sel \<le> rank'" if "adjacent a b xs" "ranks (a, b) = Some (rank', res')" for a b rank' res'
    using sel(2) [of "\<lparr>ms_rank = rank', ms_left = a, ms_right = b, ms_result_id = res'\<rparr>"] that
    by (simp add: rule_for_def)
  moreover have "ys = replace_pair (ms_left sel) (ms_right sel) (ms_result_id sel) xs"
    using assms(2) apply_merge_loop_replace [of xs sel "[]" work ys work'] by (simp add: apply_merge_def split: if_splits)
  ultimately show ?thesis using sel(1) unfolding bpe_step_def rule_for_def by blast
qed

subsection \<open>The loop\<close>

lemma run_bpe_loop_sound:
  "run_bpe_loop reserve symbols ranks work = Inr (out, work') \<Longrightarrow> (bpe_step ranks)\<^sup>*\<^sup>* symbols out \<and> bpe_normal ranks out"
proof (induction reserve symbols ranks work rule: run_bpe_loop.induct)
  case (1 reserve symbols ranks work)
  show ?case
  proof (cases "1 < length symbols")
    case False
    then have "out = symbols" using 1(2) by (subst (asm) run_bpe_loop.simps) simp
    moreover have "bpe_normal ranks symbols"
      using False by (cases symbols rule: remdups_adj.cases) (auto simp: bpe_normal_def)
    ultimately show ?thesis by simp
  next
    case long: True
    with 1(2) obtain r work1 where s: "select_merge symbols ranks work = Inr (r, work1)"
      by (subst (asm) run_bpe_loop.simps) (auto split: sum.splits)
    note best = select_merge_best [OF s]
    show ?thesis
    proof (cases r)
      case None
      then show ?thesis using 1(2) long s best select_merge_None by (subst (asm) run_bpe_loop.simps) auto
    next
      case (Some sel)
      with 1(2) long s obtain ys work2 where a: "apply_merge reserve symbols sel work1 = Inr (ys, work2)"
          "run_bpe_loop reserve ys ranks work2 = Inr (out, work')"
        by (subst (asm) run_bpe_loop.simps) (auto split: sum.splits)
      have "bpe_step ranks symbols ys" using best Some a(1) by (auto intro: select_apply_step)
      moreover have "(bpe_step ranks)\<^sup>*\<^sup>* ys out \<and> bpe_normal ranks out"
        using 1(1) [OF long s refl Some a(1) refl a(2)] .
      ultimately show ?thesis by (auto intro: converse_rtranclp_into_rtranclp)
    qed
  qed
qed

subsection \<open>Enough budget\<close>

lemma select_merge_loop_enough:
  "affords work (1024 * (length symbols - 1)) \<Longrightarrow>
   \<exists>r work'. select_merge_loop symbols ranks best work = Inr (r, work') \<and> spent work (1024 * (length symbols - 1)) work'"
proof (induction symbols ranks best work rule: select_merge_loop.induct)
  case (1 a b xs ranks best work)
  then have "affords work (1024 + 1024 * (length (b # xs) - 1))" by simp
  from affords_charge [OF this] obtain work1
    where w: "charge work 1024 = Inr work1" "spent work 1024 work1" "affords work1 (1024 * (length (b # xs) - 1))" by blast
  from 1(1) [OF refl w(3)] show ?case using w(1,2) spent_trans by (fastforce simp: charge_lookup Let_def)
qed (simp_all add: spent_def)

lemma apply_merge_loop_enough:
  "affords work (length symbols) \<Longrightarrow>
   \<exists>out work'. apply_merge_loop symbols sel merged work = Inr (out, work') \<and> spent work (length symbols) work'"
proof (induction symbols sel merged work rule: apply_merge_loop.induct)
  case (1 sel merged work)
  then show ?case by (simp add: spent_def)
next
  case (2 a sel merged work)
  then show ?case using affords_charge [of work 1 0] by auto
next
  case (3 a b xs sel merged work)
  show ?case
  proof (cases "a = ms_left sel \<and> b = ms_right sel")
    case True
    have "affords work (1 + length xs)" using 3(3) by (rule affords_mono) simp
    from affords_charge [OF this] obtain work1
      where w: "charge work 1 = Inr work1" "spent work 1 work1" "affords work1 (length xs)" by blast
    from 3(1) [of work1] True w show ?thesis by (fastforce simp: spent_def)
  next
    case False
    have "affords work (1 + length (b # xs))" using 3(3) by (rule affords_mono) simp
    from affords_charge [OF this] obtain work1
      where w: "charge work 1 = Inr work1" "spent work 1 work1" "affords work1 (length (b # xs))" by blast
    from 3(2) [of work1] False w show ?thesis by (fastforce simp: spent_def)
  qed
qed

definition bpe_cost :: "nat \<Rightarrow> nat" where
  "bpe_cost n = 1025 * n * n"

lemma bpe_cost_step: "m < n \<Longrightarrow> 1024 * (n - 1) + n + bpe_cost m \<le> bpe_cost n"
proof -
  assume "m < n"
  then obtain k where n: "n = Suc k" by (cases n) auto
  with \<open>m < n\<close> have "1025 * m * m \<le> 1025 * k * k" by (simp add: mult_le_mono)
  then show ?thesis unfolding n bpe_cost_def by (simp add: algebra_simps)
qed

lemma run_bpe_loop_enough:
  "\<forall>n. reserve n \<Longrightarrow> affords work (bpe_cost (length symbols)) \<Longrightarrow>
   \<exists>out work'. run_bpe_loop reserve symbols ranks work = Inr (out, work') \<and> spent work (bpe_cost (length symbols)) work'"
proof (induction reserve symbols ranks work rule: run_bpe_loop.induct)
  case (1 reserve symbols ranks work)
  let ?n = "length symbols"
  show ?case
  proof (cases "1 < ?n")
    case False
    then show ?thesis by (subst run_bpe_loop.simps) (simp add: spent_def)
  next
    case long: True
    have cost: "1024 * (?n - 1) + ?n \<le> bpe_cost ?n" using bpe_cost_step [of 0 ?n] long by linarith
    have "affords work (1024 * (?n - 1))" using 1(3) cost by (auto intro: affords_mono)
    then obtain r work1 where s: "select_merge symbols ranks work = Inr (r, work1)" "spent work (1024 * (?n - 1)) work1"
      using select_merge_loop_enough [of work symbols ranks None] long by (auto simp: select_merge_def)
    show ?thesis
    proof (cases r)
      case None
      then show ?thesis using long s cost by (subst run_bpe_loop.simps) (auto simp: spent_def)
    next
      case (Some sel)
      have "affords work1 ?n" using 1(3) cost s(2) by (auto simp: affords_def spent_def)
      then obtain ys work2 where a: "apply_merge reserve symbols sel work1 = Inr (ys, work2)" "spent work1 ?n work2"
        using apply_merge_loop_enough [of work1 symbols sel "[]"] 1(2) by (auto simp: apply_merge_def)
      have "adjacent (ms_left sel) (ms_right sel) symbols"
        using select_merge_best [OF s(1)] Some by (auto simp: best_of_def rule_for_def)
      then have less: "length ys < ?n"
        using a(1) apply_merge_loop_length [of symbols sel "[]" work1] by (auto simp: apply_merge_def split: if_splits)
      have "affords work2 (bpe_cost (length ys))"
        using 1(3) bpe_cost_step [OF less] s(2) a(2) by (auto simp: affords_def spent_def)
      from 1(1) [OF long s(1) refl Some a(1) refl 1(2) this] obtain out work'
        where o': "run_bpe_loop reserve ys ranks work2 = Inr (out, work')" "spent work2 (bpe_cost (length ys)) work'" by blast
      have "run_bpe_loop reserve symbols ranks work = Inr (out, work')"
        using long s(1) Some a(1) o'(1) by (subst run_bpe_loop.simps) simp
      moreover have "spent work (bpe_cost ?n) work'"
        using bpe_cost_step [OF less] s(2) a(2) o'(2) by (auto simp: spent_def)
      ultimately show ?thesis by blast
    qed
  qed
qed

text \<open>C38: with a budget quadratic in the number of symbols, and when no allocation is refused, byte-pair encoding terminates without an error, and its
  result is the normal form of the merge rules: it is reached by steps that each replace every occurrence of the
  adjacent pair of lowest rank, and no adjacent pair of the result has a rule.\<close>

theorem bpe_reaches_normal_form:
  assumes "\<forall>n. reserve n" "affords work (bpe_cost (length initial))"
  shows "\<exists>out work'. run_bpe reserve initial ranks work = Inr (out, work') \<and>
    (bpe_step ranks)\<^sup>*\<^sup>* initial out \<and> bpe_normal ranks out"
proof -
  obtain out work' where r: "run_bpe_loop reserve initial ranks work = Inr (out, work')"
    using run_bpe_loop_enough [OF assms, of ranks] by blast
  then show ?thesis using run_bpe_loop_sound [OF r] assms(1) by (simp add: run_bpe_def)
qed

text \<open>Symbols \<open>1, 2, 1\<close> with the rule \<open>1, 2\<close> to \<open>3\<close>.\<close>

lemma bpe_reaches_normal_form_witness:
  "(\<forall>n. (\<lambda>_ :: usize. True) n) \<and> affords (budget_new 10000) (bpe_cost (length [1, 2, 1 :: u32])) \<and>
   (\<exists>out work'. run_bpe (\<lambda>_. True) [1, 2, 1] [(1, 2) \<mapsto> (0, 3)] (budget_new 10000) = Inr (out, work') \<and>
      (bpe_step [(1, 2) \<mapsto> (0, 3)])\<^sup>*\<^sup>* [1, 2, 1] out \<and> bpe_normal [(1, 2) \<mapsto> (0, 3)] out)"
proof -
  have "affords (budget_new 10000) (bpe_cost (length [1, 2, 1 :: u32]))"
    by (simp add: affords_def budget_new_def bpe_cost_def)
  with bpe_reaches_normal_form [of "\<lambda>_. True" "budget_new 10000" "[1, 2, 1]" "[(1, 2) \<mapsto> (0, 3)]"]
  show ?thesis by simp
qed

end
