(* ===== verification/Tokenizer_Encode.thy ===== *)
theory Tokenizer_Encode
  imports Tokenizer_Bpe
begin

text \<open>
  What the tokens of an encoded text stand for.  The text of an encoding is cut at the added tokens, leftmost and
  longest first; added tokens stand for themselves and the text between them for its NFC normalisation.
\<close>

subsection \<open>What tokens stand for\<close>

definition token_bytes :: "tokenizer_execution \<Rightarrow> u32 \<Rightarrow> bytes" where
  "token_bytes p t =
     (if t < BASE_VOCABULARY_SIZE then te_vocabulary_bytes p ! t
      else ad_bytes (te_added_tokens p ! (t - BASE_VOCABULARY_SIZE)))"

definition known :: "tokenizer_execution \<Rightarrow> u32 \<Rightarrow> bool" where
  "known p t \<longleftrightarrow> t < length (te_vocabulary_bytes p) \<or>
     (BASE_VOCABULARY_SIZE \<le> t \<and> t - BASE_VOCABULARY_SIZE < length (te_added_tokens p))"

definition detokenize :: "tokenizer_execution \<Rightarrow> u32 list \<Rightarrow> bytes" where
  "detokenize p ts = concat (map (token_bytes p) ts)"

lemma detokenize_simps [simp]:
  "detokenize p [] = []" "detokenize p (t # ts) = token_bytes p t @ detokenize p ts"
  "detokenize p (ts @ us) = detokenize p ts @ detokenize p us"
  by (simp_all add: detokenize_def)

text \<open>The base vocabulary tokens that \<open>encode_piece\<close> emits.\<close>

definition base :: "tokenizer_execution \<Rightarrow> u32 \<Rightarrow> bool" where
  "base p t \<longleftrightarrow> t < length (te_vocabulary_bytes p)"

lemma base_token_bytes: "program_inv p \<Longrightarrow> base p t \<Longrightarrow> token_bytes p t = te_vocabulary_bytes p ! t"
  by (auto simp: base_def token_bytes_def program_inv_def)

lemma base_known: "base p t \<Longrightarrow> known p t"
  by (simp add: base_def known_def)

text \<open>\<open>out\<close> is \<open>output\<close> extended by base tokens that stand for \<open>bs\<close>.\<close>

definition emits :: "tokenizer_execution \<Rightarrow> u32 list \<Rightarrow> u32 list \<Rightarrow> bytes \<Rightarrow> bool" where
  "emits p output out bs \<longleftrightarrow> (\<exists>ts. out = output @ ts \<and> (\<forall>t\<in>set ts. base p t) \<and> detokenize p ts = bs)"

lemma emits_refl: "emits p output output []"
  by (simp add: emits_def)

lemma emits_trans:
  assumes "emits p a b x" "emits p b c y"
  shows "emits p a c (x @ y)"
proof -
  obtain ts where ts: "b = a @ ts" "\<forall>t\<in>set ts. base p t" "detokenize p ts = x" using assms(1) unfolding emits_def by blast
  obtain us where us: "c = b @ us" "\<forall>t\<in>set us. base p t" "detokenize p us = y" using assms(2) unfolding emits_def by blast
  show ?thesis unfolding emits_def by (intro exI [of _ "ts @ us"]) (use ts us in auto)
qed

subsection \<open>Pieces\<close>

lemma program_inv_merge:
  assumes "program_inv p" "te_merge_ranks p (l, r) = Some (rank, res)"
  shows "base p l" "base p r" "base p res" "te_vocabulary_bytes p ! res = te_vocabulary_bytes p ! l @ te_vocabulary_bytes p ! r"
  using assms by (simp_all add: program_inv_def base_def)

lemma replace_pair_detokenize:
  assumes p: "program_inv p"
  shows "te_merge_ranks p (l, r) = Some (rank, res) \<Longrightarrow> \<forall>t\<in>set xs. base p t \<Longrightarrow>
    (\<forall>t\<in>set (replace_pair l r res xs). base p t) \<and> detokenize p (replace_pair l r res xs) = detokenize p xs"
proof (induction l r res xs rule: replace_pair.induct)
  case (1 l r res a b xs)
  have "base p l" "base p r" "base p res" and res: "te_vocabulary_bytes p ! res = te_vocabulary_bytes p ! l @ te_vocabulary_bytes p ! r"
    using program_inv_merge [OF p 1(3)] by simp_all
  then have "token_bytes p res = token_bytes p l @ token_bytes p r" by (simp add: base_token_bytes [OF p])
  show ?case
  proof (cases "a = l \<and> b = r")
    case True
    from 1(1) [OF True 1(3)] 1(4) have "\<forall>t\<in>set (replace_pair l r res xs). base p t"
        "detokenize p (replace_pair l r res xs) = detokenize p xs" by simp_all
    with True \<open>base p res\<close> \<open>token_bytes p res = token_bytes p l @ token_bytes p r\<close> show ?thesis by simp
  next
    case False
    from 1(2) [OF False 1(3)] 1(4) have "\<forall>t\<in>set (replace_pair l r res (b # xs)). base p t"
        "detokenize p (replace_pair l r res (b # xs)) = detokenize p (b # xs)" by simp_all
    with False 1(4) show ?thesis by auto
  qed
qed auto

lemma bpe_steps_detokenize:
  assumes p: "program_inv p" and steps: "(bpe_step (te_merge_ranks p))\<^sup>*\<^sup>* xs ys"
  shows "\<forall>t\<in>set xs. base p t \<Longrightarrow> (\<forall>t\<in>set ys. base p t) \<and> detokenize p ys = detokenize p xs"
  using steps
proof (induction rule: rtranclp_induct)
  case (step ys zs)
  then show ?case using replace_pair_detokenize [OF p] unfolding bpe_step_def by fastforce
qed simp

lemma piece_symbols_ok:
  assumes p: "program_inv p"
  shows "piece_symbols p piece symbols work = Some (Inr (out, work')) \<Longrightarrow>
    emits p symbols out piece"
proof (induction piece arbitrary: symbols work)
  case (Cons b piece)
  then obtain work1 t where t: "idx (te_byte_token_ids p) b = Some t"
      "piece_symbols p piece (symbols @ [t]) work1 = Some (Inr (out, work'))"
    by (cases "charge work 1") (auto simp: bind_eq_Some_conv)
  from t(1) p have "b < 256" "t = te_byte_token_ids p ! b" by (auto simp: idx_eq_Some program_inv_def)
  then have "base p t" "token_bytes p t = [b]"
    using p unfolding program_inv_def by (auto simp: base_def token_bytes_def)
  then have "emits p symbols (symbols @ [t]) [b]" unfolding emits_def by (intro exI [of _ "[t]"]) simp
  from emits_trans [OF this Cons.IH [OF t(2)]] show ?case by simp
qed (simp add: emits_refl)

lemma push_tokens_ok: "push_tokens merged limit output = Inr out \<Longrightarrow> out = output @ merged"
proof (induction merged arbitrary: "output")
  case (Cons t merged)
  then have "push_tokens merged limit (output @ [t]) = Inr out"
    by (auto simp: and_then_Inr push_token_def split: option.splits if_splits)
  from Cons.IH [OF this] show ?case by simp
qed simp

lemma try_exec_Some:
  "try_exec m f = Some (Inr y) \<longleftrightarrow> (\<exists>x. m = Some (Inr x) \<and> f x = Some (Inr y))"
  by (cases m; cases "the m") (auto simp: try_exec_def)

lemma and_then_exec_Some: "and_then_exec r f = Some (Inr y) \<longleftrightarrow> (\<exists>x. r = Inr x \<and> f x = Some (Inr y))"
  by (cases r) auto

lemmas inr_simps = try_exec_Some and_then_exec_Some and_then_Inr bind_eq_Some_conv

lemma encode_piece_ok:
  assumes p: "program_inv p"
    and e: "encode_piece reserve p piece limits work output = Some (Inr (work', out))"
  shows "emits p output out piece"
proof -
  from e obtain symbols work1 merged work2 where
      s: "piece_symbols p piece [] work = Some (Inr (symbols, work1))"
      "run_bpe reserve symbols (te_merge_ranks p) work1 = Inr (merged, work2)"
      "push_tokens merged (tl_tokens limits) output = Inr out"
    unfolding encode_piece_def by (auto simp: inr_simps split: if_splits)
  have "(bpe_step (te_merge_ranks p))\<^sup>*\<^sup>* symbols merged"
    using s(2) run_bpe_loop_sound unfolding run_bpe_def by (fastforce split: if_splits)
  with bpe_steps_detokenize [OF p this] piece_symbols_ok [OF p s(1)] push_tokens_ok [OF s(3)]
  show ?thesis by (auto simp: emits_def)
qed

subsection \<open>Normal text\<close>

definition normalized :: "normalizer \<Rightarrow> bytes \<Rightarrow> bytes" where
  "normalized nfc s = concat (map encode_utf8 (nfc s))"

lemma normalize_loop_ok: "normalize_loop cs acc work = Inr (out, work') \<Longrightarrow> out = acc @ concat (map encode_utf8 cs)"
proof (induction cs arbitrary: acc work)
  case (Cons c cs)
  then obtain work1 where "normalize_loop cs (acc @ encode_utf8 c) work1 = Inr (out, work')"
    by (auto simp: and_then_Inr split: option.splits if_splits)
  from Cons.IH [OF this] show ?case by simp
qed simp

lemma encode_slice_ok:
  assumes p: "program_inv p"
    and e: "encode_slice reserve p s a b limits work output = Some (Inr (work', out))"
  shows "a \<le> b" "b \<le> length s" "emits p output out (take (b - a) (drop a s))"
proof -
  from e have "a \<le> b" "b \<le> length s"
      "encode_piece reserve p (take (b - a) (drop a s)) limits work output = Some (Inr (work', out))"
    by (auto simp: encode_slice_def slice_def split: if_splits)
  with encode_piece_ok [OF p] show "a \<le> b" "b \<le> length s" "emits p output out (take (b - a) (drop a s))" by blast+
qed

lemma take_split: "a \<le> b \<Longrightarrow> b \<le> c \<Longrightarrow> take (b - a) (drop a s) @ take (c - b) (drop b s) = take (c - a) (drop a s)"
  by (auto simp: le_iff_add take_add add.commute)

lemma split_loop_ok:
  assumes p: "program_inv p"
  shows "split_loop reserve p s ms previous limits work output = Some (Inr (last', work', out)) \<Longrightarrow> previous \<le> length s \<Longrightarrow>
    previous \<le> last' \<and> last' \<le> length s \<and> emits p output out (take (last' - previous) (drop previous s))"
proof (induction ms arbitrary: previous work "output")
  case Nil
  then show ?case by (auto simp: emits_refl)
next
  case (Cons m ms)
  obtain a b where m: "m = (a, b)" by (cases m)
  from Cons.prems(1) obtain work1 work2 out1 work3 out2 where
      one: "(if previous \<noteq> a then encode_slice reserve p s previous a limits work1 output
             else Some (Inr (work1, output))) = Some (Inr (work2, out1))"
    and two: "encode_slice reserve p s a b limits work2 out1 = Some (Inr (work3, out2))"
    and three: "split_loop reserve p s ms b limits work3 out2 = Some (Inr (last', work', out))"
    unfolding m by (auto simp: inr_simps split: option.splits)
  have "previous \<le> a" "emits p output out1 (take (a - previous) (drop previous s))"
    using one encode_slice_ok [OF p, of reserve s previous a limits work1 "output" work2 out1]
    by (auto simp: emits_refl split: if_splits)
  moreover note encode_slice_ok [OF p two]
  moreover note Cons.IH [OF three encode_slice_ok(2) [OF p two]]
  ultimately show ?case
    using emits_trans take_split [of previous a b s] take_split [of previous b last' s] by (metis order.trans)
qed

lemma encode_normal_text_ok:
  assumes p: "program_inv (tp_execution prog)"
    and e: "encode_normal_text reserve nfc prog s limits work output = Some (Inr (work', out))"
  shows "emits (tp_execution prog) output out (normalized nfc s)"
proof -
  let ?p = "tp_execution prog"
  let ?n = "normalized nfc s"
  from e obtain body work1 where body: "normalize_loop (nfc s) [] work = Inr (body, work1)"
    by (auto simp: encode_normal_text_def inr_simps split: if_splits)
  then have n: "body = ?n" using normalize_loop_ok by (fastforce simp: normalized_def)
  from e obtain last' work2 out1 where
      loop: "split_loop reserve ?p ?n (tp_split_regex prog ?n) 0 limits work1 output = Some (Inr (last', work2, out1))"
    and rest: "(if last' \<noteq> length ?n then
        (case u_sub (length ?n) last' of
           None \<Rightarrow> Some (Inl ArithmeticOverflow)
         | Some amount \<Rightarrow> and_then_exec (charge work2 amount) (\<lambda>work.
             encode_slice reserve ?p ?n last' (length ?n) limits work out1))
        else Some (Inr (work2, out1))) = Some (Inr (work', out))"
    unfolding encode_normal_text_def body by (auto simp: try_exec_Some n split: if_splits)
  note one = split_loop_ok [OF p loop]
  have "emits ?p out1 out (drop last' ?n)"
  proof (cases "last' = length ?n")
    case False
    then obtain work3 where "encode_slice reserve ?p ?n last' (length ?n) limits work3 out1 = Some (Inr (work', out))"
      using rest by (auto simp: inr_simps split: option.splits)
    from encode_slice_ok [OF p this] show ?thesis by auto
  qed (use rest in \<open>simp add: emits_refl\<close>)
  with one have "emits ?p output out (take last' ?n @ drop last' ?n)" using emits_trans by fastforce
  then show ?thesis by (simp only: append_take_drop_id)
qed

end
