(* ===== verification/Tokenizer_Search.thy ===== *)
theory Tokenizer_Search
  imports Tokenizer_Encode
begin

text \<open>
  The text an encoding stands for, and the search for added tokens: it finds the leftmost position at which one of them
  occurs, and there the longest.
\<close>

subsection \<open>The specification\<close>

definition occurs_at :: "bytes \<Rightarrow> usize \<Rightarrow> bytes \<Rightarrow> bool" where
  "occurs_at s i t \<longleftrightarrow> take (length t) (drop i s) = t"

text \<open>The length of the longest token that is a prefix of a text.\<close>

definition longest :: "bytes list \<Rightarrow> bytes \<Rightarrow> nat option" where
  "longest toks s =
     (let lengths = map length (filter (\<lambda>t. t \<noteq> [] \<and> take (length t) s = t) toks)
      in if lengths = [] then None else Some (Max (set lengths)))"

lemma longest_None: "longest toks s = None \<longleftrightarrow> (\<forall>t\<in>set toks. t \<noteq> [] \<longrightarrow> take (length t) s \<noteq> t)"
  by (auto simp: longest_def Let_def filter_empty_conv)

lemma longest_Some:
  "longest toks s = Some n \<longleftrightarrow>
     (\<exists>t\<in>set toks. t \<noteq> [] \<and> take (length t) s = t \<and> length t = n) \<and>
     (\<forall>t\<in>set toks. t \<noteq> [] \<longrightarrow> take (length t) s = t \<longrightarrow> length t \<le> n)"
proof -
  define L where "L = length ` {t \<in> set toks. t \<noteq> [] \<and> take (length t) s = t}"
  have fin: "finite L" by (simp add: L_def)
  have "longest toks s = (if L = {} then None else Some (Max L))"
    by (auto simp: longest_def Let_def L_def filter_empty_conv)
  also have "\<dots> = Some n \<longleftrightarrow> n \<in> L \<and> (\<forall>m\<in>L. m \<le> n)"
    using fin by (auto intro: Max_eqI intro!: Max_in)
  also have "\<dots> \<longleftrightarrow> (\<exists>t\<in>set toks. t \<noteq> [] \<and> take (length t) s = t \<and> length t = n) \<and>
     (\<forall>t\<in>set toks. t \<noteq> [] \<longrightarrow> take (length t) s = t \<longrightarrow> length t \<le> n)"
    unfolding L_def by fastforce
  finally show ?thesis .
qed

lemma longest_pos: "longest toks s = Some n \<Longrightarrow> 0 < n"
  by (auto simp: longest_Some)

text \<open>The text an encoding stands for; \<open>acc\<close> is the text read since the last added token.\<close>

function canonical :: "bytes list \<Rightarrow> (bytes \<Rightarrow> bytes) \<Rightarrow> bytes \<Rightarrow> bytes \<Rightarrow> bytes" where
  "canonical toks norm acc [] = (if acc = [] then [] else norm acc)"
| "canonical toks norm acc (b # s) =
     (case longest toks (b # s) of
        None \<Rightarrow> canonical toks norm (acc @ [b]) s
      | Some n \<Rightarrow> norm acc @ take n (b # s) @ canonical toks norm [] (drop n (b # s)))"
  by pat_completeness auto
termination
  by (relation "measure (\<lambda>(toks, norm, acc, s). length s)") (auto dest: longest_pos)

lemma canonical_none:
  "(\<forall>i<length s. longest toks (drop i s) = None) \<Longrightarrow> acc @ s \<noteq> [] \<Longrightarrow> canonical toks norm acc s = norm (acc @ s)"
proof (induction s arbitrary: acc)
  case (Cons b s)
  have "longest toks (b # s) = None" using Cons.prems(1) by force
  moreover have "\<forall>i<length s. longest toks (drop i s) = None"
    using Cons.prems(1) by (metis Suc_less_eq drop_Suc_Cons length_Cons)
  ultimately show ?case using Cons.IH [of "acc @ [b]"] by simp
qed simp

lemma canonical_first:
  "(\<forall>i<k. longest toks (drop i s) = None) \<Longrightarrow> longest toks (drop k s) = Some n \<Longrightarrow> k < length s \<Longrightarrow>
   canonical toks norm acc s = norm (acc @ take k s) @ take n (drop k s) @ canonical toks norm [] (drop (k + n) s)"
proof (induction k arbitrary: acc s)
  case 0
  then show ?case by (cases s) auto
next
  case (Suc k)
  then obtain b t where s: "s = b # t" by (cases s) auto
  have "longest toks (b # t) = None" using Suc.prems(1) s by force
  moreover have "\<forall>i<k. longest toks (drop i t) = None" using Suc.prems(1) s by (metis Suc_less_eq drop_Suc_Cons)
  ultimately show ?case using Suc.IH [of t "acc @ [b]"] Suc.prems s by simp
qed

text \<open>Text that normalisation leaves alone is the text of its encoding.\<close>

lemma canonical_identity: "(\<And>t. norm t = t) \<Longrightarrow> canonical toks norm acc s = acc @ s"
proof (induction toks norm acc s rule: canonical.induct)
  case (2 toks norm acc b s)
  then show ?case by (cases "longest toks (b # s)") auto
qed auto

subsection \<open>Added tokens\<close>

lemma bytes_match_loop_ok:
  "start + length pattern \<le> length input \<Longrightarrow> index \<le> length pattern \<Longrightarrow>
   bytes_match_loop input start pattern index =
     Some (take (length pattern - index) (drop (start + index) input) = drop index pattern)"
proof (induction "length pattern - index" arbitrary: index)
  case 0
  then show ?case by (subst bytes_match_loop.simps) simp
next
  case (Suc n)
  then have i: "index < length pattern" by simp
  have "take (length pattern - index) (drop (start + index) input) =
      input ! (start + index) # take (length pattern - Suc index) (drop (start + Suc index) input)"
    using i Suc.prems(1) by (simp add: Cons_nth_drop_Suc [symmetric] take_Cons' del: drop_Suc)
  moreover have "drop index pattern = pattern ! index # drop (Suc index) pattern"
    using i by (simp add: Cons_nth_drop_Suc)
  moreover have "n = length pattern - Suc index" using Suc(2) by simp
  from Suc(1) [OF this Suc.prems(1)] i have "bytes_match_loop input start pattern (Suc index) =
     Some (take (length pattern - Suc index) (drop (start + Suc index) input) = drop (Suc index) pattern)" by simp
  ultimately show ?case using i Suc.prems(1) by (subst bytes_match_loop.simps) (auto simp: exec_simps)
qed

lemma bytes_match_at_ok:
  "start \<le> length input \<Longrightarrow> bytes_match_at input start pattern = Some (occurs_at input start pattern)"
proof (cases "length input - start < length pattern")
  case True
  then have "\<not> occurs_at input start pattern"
    by (auto simp: occurs_at_def dest: arg_cong [where f = length])
  then show "start \<le> length input \<Longrightarrow> ?thesis" using True by (simp add: bytes_match_at_def exec_simps)
next
  case False
  assume "start \<le> length input"
  then show ?thesis using False bytes_match_loop_ok [of start pattern input 0]
    by (simp add: bytes_match_at_def exec_simps occurs_at_def)
qed

text \<open>The best match at one position among the first tokens.\<close>

definition best_match :: "bytes \<Rightarrow> usize \<Rightarrow> added_token list \<Rightarrow> added_token_match option \<Rightarrow> bool" where
  "best_match input start toks r \<longleftrightarrow>
     (case r of
        None \<Rightarrow> \<forall>a\<in>set toks. \<not> occurs_at input start (ad_bytes a)
      | Some m \<Rightarrow> am_start m = start \<and> am_offset m < length toks \<and> occurs_at input start (ad_bytes (toks ! am_offset m)) \<and>
          (\<forall>a\<in>set toks. occurs_at input start (ad_bytes a) \<longrightarrow> length (ad_bytes a) \<le> length (ad_bytes (toks ! am_offset m))))"

lemma find_added_at_ok:
  "find_added_at input start all offset rest best work = Some (Inr (r, work')) \<Longrightarrow> start \<le> length input \<Longrightarrow>
   all = done @ rest \<Longrightarrow> offset = length done \<Longrightarrow> best_match input start done best \<Longrightarrow> best_match input start all r"
proof (induction rest arbitrary: offset "done" best work)
  case (Cons a rest)
  from Cons.prems(1) obtain work1 where w: "charge work (length (ad_bytes a)) = Inr work1"
    by (auto simp: and_then_exec_Some)
  show ?case
  proof (cases "occurs_at input start (ad_bytes a)")
    case False
    have "best_match input start (done @ [a]) best"
      using Cons.prems(5) False by (auto simp: best_match_def nth_append split: option.splits)
    moreover have "find_added_at input start all (Suc offset) rest best work1 = Some (Inr (r, work'))"
      using Cons.prems(1,2) w False by (simp add: bytes_match_at_ok)
    ultimately show ?thesis using Cons.IH [of "Suc offset" best work1 "done @ [a]"] Cons.prems by simp
  next
    case True
    let ?c = "\<lparr>am_start = start, am_offset = offset, am_token_id = ad_token_id a\<rparr>"
    define best' where "best' = (case best of None \<Rightarrow> Some ?c | Some m \<Rightarrow>
      if length (ad_bytes (done ! am_offset m)) < length (ad_bytes a) then Some ?c else Some m)"
    have "best_match input start (done @ [a]) best'"
      using Cons.prems(4,5) True by (fastforce simp: best_match_def best'_def nth_append split: option.splits if_splits)
    moreover have "idx all (am_offset m) = Some (done ! am_offset m) \<and> am_offset m < offset" if "best = Some m" for m
      using that Cons.prems(3-5) by (auto simp: best_match_def idx_def nth_append)
    then have "find_added_at input start all (Suc offset) rest best' work1 = Some (Inr (r, work'))"
      using Cons.prems(1,2) w True by (cases best) (auto simp: bytes_match_at_ok best'_def split: if_splits)
    ultimately show ?thesis using Cons.IH [of "Suc offset" best' work1 "done @ [a]"] Cons.prems by simp
  qed
qed simp

lemma find_added_token_ok:
  assumes lt: "\<forall>a\<in>set toks. \<exists>t. ad_bytes a = 0x3C # t"
  shows "find_added_token input start toks work = Some (Inr (r, work')) \<Longrightarrow>
    (case r of
       None \<Rightarrow> \<forall>i. start \<le> i \<and> i < length input \<longrightarrow> best_match input i toks None
     | Some m \<Rightarrow> start \<le> am_start m \<and> am_start m < length input \<and> best_match input (am_start m) toks r \<and>
         (\<forall>i. start \<le> i \<and> i < am_start m \<longrightarrow> best_match input i toks None))"
proof (induction "length input - start" arbitrary: start work rule: less_induct)
  case less
  show ?case
  proof (cases "start < length input")
    case False
    then show ?thesis using less.prems by (subst (asm) find_added_token.simps) auto
  next
    case True
    with less.prems obtain work1 where w: "charge work 1 = Inr work1"
      by (subst (asm) find_added_token.simps) (auto simp: and_then_exec_Some)
    have step: "case r of
       None \<Rightarrow> \<forall>i. start \<le> i \<and> i < length input \<longrightarrow> best_match input i toks None
     | Some m \<Rightarrow> start \<le> am_start m \<and> am_start m < length input \<and> best_match input (am_start m) toks r \<and>
         (\<forall>i. start \<le> i \<and> i < am_start m \<longrightarrow> best_match input i toks None)"
      if none: "best_match input start toks None"
        and rest: "find_added_token input (Suc start) toks work2 = Some (Inr (r, work'))" for work2
    proof -
      have "length input - Suc start < length input - start" using True by simp
      note less.hyps [OF this rest]
      moreover have "start \<le> i \<longleftrightarrow> i = start \<or> Suc start \<le> i" for i by auto
      ultimately show ?thesis using none by (auto split: option.splits)
    qed
    show ?thesis
    proof (cases "input ! start = 0x3C")
      case False
      have "\<not> occurs_at input start (ad_bytes a)" if a: "a \<in> set toks" for a
      proof -
        obtain t where "ad_bytes a = 0x3C # t" using lt a by blast
        moreover have "drop start input = input ! start # drop (Suc start) input" using True by (simp add: Cons_nth_drop_Suc)
        ultimately show ?thesis using False unfolding occurs_at_def by simp
      qed
      then have "best_match input start toks None" by (simp add: best_match_def)
      moreover have "find_added_token input start toks work = find_added_token input (Suc start) toks work1"
        using True w False by (subst find_added_token.simps) simp
      ultimately show ?thesis using step less.prems by simp
    next
      case angle: True
      with less.prems True w obtain best work2 where
          f: "find_added_at input start toks 0 toks None work1 = Some (Inr (best, work2))"
        and k: "(if best \<noteq> None then Some (Inr (best, work2)) else find_added_token input (start + 1) toks work2)
            = Some (Inr (r, work'))"
        by (subst (asm) find_added_token.simps) (auto simp: try_exec_Some)
      have b: "best_match input start toks best"
        by (rule find_added_at_ok [OF f, of "[]"]) (use True in \<open>simp_all add: best_match_def\<close>)
      show ?thesis
      proof (cases best)
        case None
        then show ?thesis using step [of work2] b k by simp
      next
        case (Some m)
        then have "r = Some m" "am_start m = start" using k b by (auto simp: best_match_def)
        then show ?thesis using Some b True by auto
      qed
    qed
  qed
qed

subsection \<open>The fixed added tokens\<close>

lemma ADDED_TOKENS_shape:
  "\<forall>(t, special)\<in>set ADDED_TOKENS. t \<noteq> [] \<and> hd t = 0x3C \<and> list_all (\<lambda>b. b < 0x80) t"
  by (simp add: ADDED_TOKENS_def ascii_def)

definition added_contents :: "bytes list" where
  "added_contents = map fst ADDED_TOKENS"

lemma added_of_inv:
  assumes "program_inv p"
  shows "te_added_tokens p = map added_token_of [0..<length ADDED_TOKENS]"
  using assms by (simp add: program_inv_def)

lemma added_contents_eq: "program_inv p \<Longrightarrow> map ad_bytes (te_added_tokens p) = added_contents"
  by (auto simp: added_of_inv added_contents_def added_token_of_def intro!: nth_equalityI)

lemma added_bytes_shape:
  assumes "program_inv p" "a \<in> set (te_added_tokens p)"
  shows "\<exists>t. ad_bytes a = 0x3C # t" "list_all (\<lambda>b. b < 0x80) (ad_bytes a)"
proof -
  have "ad_bytes a \<in> set added_contents" using assms added_contents_eq [OF assms(1)] by (metis image_eqI set_map)
  then obtain special where "(ad_bytes a, special) \<in> set ADDED_TOKENS" by (auto simp: added_contents_def)
  then have s: "ad_bytes a \<noteq> []" "hd (ad_bytes a) = 0x3C" "list_all (\<lambda>b. b < 0x80) (ad_bytes a)"
    using ADDED_TOKENS_shape by auto
  then show "\<exists>t. ad_bytes a = 0x3C # t" by (cases "ad_bytes a") auto
  show "list_all (\<lambda>b. b < 0x80) (ad_bytes a)" by (rule s(3))
qed

lemma best_match_longest:
  assumes "program_inv p"
  shows "best_match input i (te_added_tokens p) None \<longleftrightarrow> longest added_contents (drop i input) = None"
    and "best_match input i (te_added_tokens p) (Some m) \<Longrightarrow>
      longest added_contents (drop i input) = Some (length (ad_bytes (te_added_tokens p ! am_offset m)))"
proof -
  have ne: "ad_bytes a \<noteq> []" if "a \<in> set (te_added_tokens p)" for a using added_bytes_shape(1) [OF assms that] by auto
  have c: "set added_contents = ad_bytes ` set (te_added_tokens p)"
    using added_contents_eq [OF assms] by (metis set_map)
  show "best_match input i (te_added_tokens p) None \<longleftrightarrow> longest added_contents (drop i input) = None"
    using ne by (auto simp: best_match_def longest_None c occurs_at_def)
  assume "best_match input i (te_added_tokens p) (Some m)"
  then show "longest added_contents (drop i input) = Some (length (ad_bytes (te_added_tokens p ! am_offset m)))"
    using ne unfolding longest_Some c best_match_def occurs_at_def by (auto simp: image_iff)
qed

end
