(* ===== verification/Tokenizer_Codec.thy ===== *)
theory Tokenizer_Codec
  imports Tokenizer_Search
begin

text \<open>
  Encoding and decoding of whole texts: the tokens of an encoding stand for the normalised text, decoding gives the
  bytes the tokens stand for, and the check for special tokens finds every occurrence.
\<close>

subsection \<open>Encoding\<close>

definition emitted :: "tokenizer_execution \<Rightarrow> encode_policy \<Rightarrow> u32 \<Rightarrow> bool" where
  "emitted p policy t \<longleftrightarrow> base p t \<or>
     (\<exists>i<length ADDED_TOKENS. t = BASE_VOCABULARY_SIZE + i \<and> (policy = Allow \<or> \<not> snd (ADDED_TOKENS ! i)))"

definition encodes :: "tokenizer_execution \<Rightarrow> encode_policy \<Rightarrow> u32 list \<Rightarrow> u32 list \<Rightarrow> bytes \<Rightarrow> bool" where
  "encodes p policy output out bs \<longleftrightarrow>
     (\<exists>ts. out = output @ ts \<and> (\<forall>t\<in>set ts. emitted p policy t) \<and> detokenize p ts = bs)"

lemma encodes_trans:
  assumes "encodes p policy a b x" "encodes p policy b c y"
  shows "encodes p policy a c (x @ y)"
proof -
  obtain ts where ts: "b = a @ ts" "\<forall>t\<in>set ts. emitted p policy t" "detokenize p ts = x"
    using assms(1) unfolding encodes_def by blast
  obtain us where us: "c = b @ us" "\<forall>t\<in>set us. emitted p policy t" "detokenize p us = y"
    using assms(2) unfolding encodes_def by blast
  show ?thesis unfolding encodes_def by (intro exI [of _ "ts @ us"]) (use ts us in auto)
qed

lemma emits_encodes: "emits p output out bs \<Longrightarrow> encodes p policy output out bs"
  unfolding emits_def encodes_def emitted_def by blast

lemma emit_added_token_ok:
  assumes p: "program_inv p" and i: "i < length (te_added_tokens p)"
    and e: "emit_added_token (te_added_tokens p ! i) policy output limit = Inr (n, out)"
  shows "n = length (ad_bytes (te_added_tokens p ! i))" "encodes p policy output out (ad_bytes (te_added_tokens p ! i))"
proof -
  let ?t = "BASE_VOCABULARY_SIZE + i"
  have i': "i < length ADDED_TOKENS" using i p by (simp add: program_inv_def)
  have a: "te_added_tokens p ! i = added_token_of i" using p i' by (simp add: program_inv_def)
  have e': "n = length (ad_bytes (te_added_tokens p ! i))" "out = output @ [?t]" "policy = Allow \<or> \<not> snd (ADDED_TOKENS ! i)"
    using e by (cases policy; auto simp: emit_added_token_def a added_token_of_def and_then_Inr push_token_def
      split: option.splits if_splits)+
  show "n = length (ad_bytes (te_added_tokens p ! i))" by (rule e'(1))
  show "encodes p policy output out (ad_bytes (te_added_tokens p ! i))"
    unfolding encodes_def emitted_def by (intro exI [of _ "[?t]"]) (use e' i' in \<open>auto simp: token_bytes_def\<close>)
qed

lemma bind_case_try_exec:
  "Option.bind m (\<lambda>r. case r of Inl e \<Rightarrow> Some (Inl e) | Inr (a, b) \<Rightarrow> f a b) = try_exec m (\<lambda>(a, b). f a b)"
  by (cases m; cases "the m") (auto simp: try_exec_def)

lemma encode_loop_step:
  "encode_loop reserve nfc program input cursor limits policy work output =
     (if cursor < length input then
        try_exec (find_added_token input cursor (te_added_tokens (tp_execution program)) work) (\<lambda>(next', work1).
        try_exec (encode_until reserve nfc program input cursor
            (case next' of None \<Rightarrow> length input | Some m \<Rightarrow> am_start m) limits work1 output) (\<lambda>(work2, output1).
        case next' of
          None \<Rightarrow> Some (Inr output1)
        | Some m \<Rightarrow> try_exec (emit_match program m policy limits output1) (\<lambda>(cursor', output2).
            encode_loop reserve nfc program input cursor' limits policy work2 output2)))
      else Some (Inr output))"
  unfolding bind_case_try_exec [symmetric] by (rule encode_loop.simps)

lemma encode_loop_ok:
  assumes p: "program_inv (tp_execution prog)"
  shows "encode_loop reserve nfc prog input cursor limits policy work output = Some (Inr out) \<Longrightarrow> cursor \<le> length input \<Longrightarrow>
    encodes (tp_execution prog) policy output out (canonical added_contents (normalized nfc) [] (drop cursor input))"
proof (induction "length input - cursor" arbitrary: cursor work "output" rule: less_induct)
  case less
  let ?p = "tp_execution prog"
  let ?toks = "te_added_tokens ?p"
  show ?case
  proof (cases "cursor < length input")
    case False
    then show ?thesis using less.prems by (subst (asm) encode_loop_step) (simp add: encodes_def)
  next
    case True
    with less.prems(1) obtain next' work1 where
        f: "find_added_token input cursor ?toks work = Some (Inr (next', work1))"
      by (subst (asm) encode_loop_step) (auto simp: try_exec_Some)
    have lt: "\<forall>a\<in>set ?toks. \<exists>t. ad_bytes a = 0x3C # t" using added_bytes_shape(1) [OF p] by blast
    note found = find_added_token_ok [OF lt f]
    show ?thesis
    proof (cases next')
      case None
      with less.prems(1) True f obtain normal work2 where
          n: "str_slice input cursor (length input) = Some normal"
          "encode_normal_text reserve nfc prog normal limits work1 output = Some (Inr (work2, out))"
        by (subst (asm) encode_loop_step) (auto simp: try_exec_Some encode_until_def bind_eq_Some_conv)
      have normal: "normal = drop cursor input" using n(1) by (auto simp: str_slice_def slice_def split: if_splits)
      have "\<forall>i<length (drop cursor input). longest added_contents (drop i (drop cursor input)) = None"
        using found None best_match_longest(1) [OF p] by (auto simp: add.commute less_diff_conv)
      then have "canonical added_contents (normalized nfc) [] (drop cursor input) = normalized nfc normal"
        using canonical_none [of "drop cursor input" added_contents "[]"] True normal by simp
      then show ?thesis using emits_encodes [OF encode_normal_text_ok [OF p n(2)]] by simp
    next
      case (Some m)
      let ?a = "?toks ! am_offset m"
      have m: "cursor \<le> am_start m" "am_start m < length input" "best_match input (am_start m) ?toks (Some m)"
          "\<forall>i. cursor \<le> i \<and> i < am_start m \<longrightarrow> best_match input i ?toks None"
        using found Some by auto
      then have off: "am_offset m < length ?toks" by (simp add: best_match_def)
      with less.prems(1) True f Some obtain normal work2 out1 n out2 cursor' where
          n: "str_slice input cursor (am_start m) = Some normal"
          "encode_normal_text reserve nfc prog normal limits work1 output = Some (Inr (work2, out1))"
          "emit_added_token ?a policy out1 (tl_tokens limits) = Inr (n, out2)"
          "cursor' = am_start m + n"
          "encode_loop reserve nfc prog input cursor' limits policy work2 out2 = Some (Inr out)"
        by (subst (asm) encode_loop_step)
           (auto simp: inr_simps encode_until_def emit_match_def exec_simps split: option.splits)
      note added = emit_added_token_ok [OF p off n(3)]
      define k where "k = am_start m - cursor"
      have k: "am_start m = cursor + k" "k < length (drop cursor input)" using m(1,2) by (auto simp: k_def)
      have normal: "normal = take k (drop cursor input)"
        using n(1) by (auto simp: str_slice_def slice_def k_def split: if_splits)
      have "\<forall>i<k. longest added_contents (drop i (drop cursor input)) = None"
        using m(4) best_match_longest(1) [OF p] k(1) by (simp add: add.commute)
      moreover have long: "longest added_contents (drop k (drop cursor input)) = Some n"
        using best_match_longest(2) [OF p m(3)] k(1) added(1) by (simp add: add.commute)
      ultimately have canon: "canonical added_contents (normalized nfc) [] (drop cursor input) =
          normalized nfc normal @ take n (drop (am_start m) input) @
          canonical added_contents (normalized nfc) [] (drop cursor' input)"
        using canonical_first [of k added_contents "drop cursor input" n "normalized nfc" "[]"] k normal n(4)
        by (simp add: add.commute add.left_commute)
      have tok: "take n (drop (am_start m) input) = ad_bytes ?a"
        using m(3) added(1) by (simp add: best_match_def occurs_at_def)
      have "n = length (take n (drop (am_start m) input))" using tok added(1) by simp
      then have "cursor' \<le> length input" using n(4) m(2) by simp
      moreover have "length input - cursor' < length input - cursor"
        using longest_pos [OF long] m(1,2) n(4) by linarith
      ultimately have rest: "encodes ?p policy out2 out (canonical added_contents (normalized nfc) [] (drop cursor' input))"
        using less.hyps n(5) by blast
      show ?thesis unfolding canon tok
        by (rule encodes_trans [OF emits_encodes [OF encode_normal_text_ok [OF p n(2)]] encodes_trans [OF added(2) rest]])
    qed
  qed
qed

lemma encode_ok:
  assumes p: "program_inv (tp_execution prog)"
    and e: "encode reserve nfc prog input limits policy = Some (Inr tokens)"
  shows "encodes (tp_execution prog) policy [] tokens (canonical added_contents (normalized nfc) [] input)"
proof -
  from e obtain work where "encode_loop reserve nfc prog input 0 limits policy work [] = Some (Inr tokens)"
    unfolding encode_def by (auto simp: and_then_exec_Some try_exec_Some Let_def split: if_splits)
  from encode_loop_ok [OF p this] show ?thesis by simp
qed

subsection \<open>Decoding\<close>

lemma append_decoded_bytes_ok:
  "affords work (length bs + m) \<Longrightarrow> length output + length bs \<le> limit \<Longrightarrow>
   \<exists>work'. append_decoded_bytes bs work output limit = Inr (work', output @ bs) \<and> affords work' m"
proof (induction bs arbitrary: work "output")
  case (Cons b bs)
  then have "affords work (1 + (length bs + m))" by simp
  from affords_charge [OF this] obtain work1 where w: "charge work 1 = Inr work1" "affords work1 (length bs + m)" by blast
  from Cons.IH [OF w(2), of "output @ [b]"] Cons.prems(2) w(1) show ?case by (simp add: push_byte_def)
qed simp

lemma decode_loop_ok:
  assumes p: "program_inv p"
  shows "\<forall>t\<in>set ts. known p t \<Longrightarrow> affords work (length ts + length (detokenize p ts)) \<Longrightarrow>
    length output + length (detokenize p ts) \<le> tl_output_bytes limits \<Longrightarrow>
    decode_loop p ts limits Preserve work output = Inr (output @ detokenize p ts)"
proof (induction ts arbitrary: work "output")
  case (Cons t ts)
  have "affords work (1 + (length (token_bytes p t) + (length ts + length (detokenize p ts))))"
    using Cons.prems(2) by (rule affords_mono) simp
  from affords_charge [OF this] obtain work1 where w: "charge work 1 = Inr work1"
      "affords work1 (length (token_bytes p t) + (length ts + length (detokenize p ts)))" by blast
  have len: "length output + length (token_bytes p t) \<le> tl_output_bytes limits" using Cons.prems(3) by simp
  obtain work2 where a: "append_decoded_bytes (token_bytes p t) work1 output (tl_output_bytes limits) =
      Inr (work2, output @ token_bytes p t)" "affords work2 (length ts + length (detokenize p ts))"
    using append_decoded_bytes_ok [OF w(2) len] by blast
  have "length (te_vocabulary_bytes p) \<le> BASE_VOCABULARY_SIZE" using p by (simp add: program_inv_def)
  then have "(if t < BASE_VOCABULARY_SIZE then
          (case idx (te_vocabulary_bytes p) t of
             None \<Rightarrow> Inl (UnknownTokenId t)
           | Some bytes \<Rightarrow> append_decoded_bytes bytes work1 output (tl_output_bytes limits))
        else
          (case idx (te_added_tokens p) (t - BASE_VOCABULARY_SIZE) of
             None \<Rightarrow> Inl (UnknownTokenId t)
           | Some added \<Rightarrow>
               if Preserve = Skip \<and> ad_special added then Inr (work1, output)
               else append_decoded_bytes (ad_bytes added) work1 output (tl_output_bytes limits))) =
      Inr (work2, output @ token_bytes p t)"
    using Cons.prems(1) a(1) by (auto simp: known_def token_bytes_def idx_def)
  then show ?case using w(1) Cons.IH [OF _ a(2), of "output @ token_bytes p t"] Cons.prems(1,3) by simp
qed simp

lemma emitted_known: "program_inv p \<Longrightarrow> emitted p policy t \<Longrightarrow> known p t"
  by (auto simp: emitted_def known_def base_def program_inv_def)

definition decode_limits_ok :: "allocator \<Rightarrow> tokenizer_limits \<Rightarrow> u32 list \<Rightarrow> bytes \<Rightarrow> bool" where
  "decode_limits_ok reserve limits tokens bs \<longleftrightarrow>
     limits_validate limits = Inr () \<and> length tokens \<le> tl_tokens limits \<and>
     reserve (min (length tokens) (tl_output_bytes limits)) \<and>
     length bs \<le> tl_output_bytes limits \<and> length tokens + length bs \<le> tl_work limits"

lemma limits_work: "limits_validate limits = Inr () \<Longrightarrow> tl_work limits \<le> U64_MAX"
  by (auto simp: limits_validate_def MAX_TOKENIZER_WORK_def split: if_splits)

lemma decode_ok:
  assumes p: "program_inv p" and ts: "\<forall>t\<in>set ts. known p t" and l: "decode_limits_ok reserve limits ts (detokenize p ts)"
  shows "decode_to_bytes reserve p ts limits Preserve = Inr (detokenize p ts)"
proof -
  have "affords (budget_new (tl_work limits)) (length ts + length (detokenize p ts))"
    using l limits_work by (simp add: affords_def budget_new_def decode_limits_ok_def)
  from decode_loop_ok [OF p ts this, of "[]"] l show ?thesis
    by (simp add: decode_to_bytes_def decode_limits_ok_def)
qed

subsection \<open>Special tokens\<close>

lemma reject_special_at_ok:
  "reject_special_at input start toks work = Some (Inr work') \<Longrightarrow> start \<le> length input \<Longrightarrow>
   \<forall>a\<in>set toks. ad_special a \<longrightarrow> \<not> occurs_at input start (ad_bytes a)"
  by (induction input start toks work rule: reject_special_at.induct)
     (auto simp: and_then_exec_Some bytes_match_at_ok split: if_splits)

lemma reject_forbidden_special_ok:
  assumes lt: "\<forall>a\<in>set toks. \<exists>t. ad_bytes a = 0x3C # t"
  shows "reject_forbidden_special input start toks work = Some (Inr work') \<Longrightarrow>
    \<forall>i a. start \<le> i \<and> i < length input \<and> a \<in> set toks \<and> ad_special a \<longrightarrow> \<not> occurs_at input i (ad_bytes a)"
proof (induction "length input - start" arbitrary: start work rule: less_induct)
  case less
  show ?case
  proof (cases "start < length input")
    case True
    have "\<exists>work1. (\<forall>a\<in>set toks. ad_special a \<longrightarrow> \<not> occurs_at input start (ad_bytes a)) \<and>
        reject_forbidden_special input (Suc start) toks work1 = Some (Inr work')"
    proof (cases "input ! start = 0x3C")
      case False
      have "drop start input = input ! start # drop (Suc start) input" using True by (simp add: Cons_nth_drop_Suc)
      then have "\<forall>a\<in>set toks. ad_special a \<longrightarrow> \<not> occurs_at input start (ad_bytes a)"
        using lt False by (fastforce simp: occurs_at_def)
      then show ?thesis
        using less.prems True False by (subst (asm) reject_forbidden_special.simps) (auto simp: inr_simps)
    next
      case angle: True
      with less.prems True obtain work1 work2 where "reject_special_at input start toks work1 = Some (Inr work2)"
          "reject_forbidden_special input (Suc start) toks work2 = Some (Inr work')"
        by (subst (asm) reject_forbidden_special.simps) (auto simp: inr_simps)
      then show ?thesis using reject_special_at_ok True by (blast intro: less_imp_le)
    qed
    then obtain work1 where here: "\<forall>a\<in>set toks. ad_special a \<longrightarrow> \<not> occurs_at input start (ad_bytes a)"
        and rest: "reject_forbidden_special input (Suc start) toks work1 = Some (Inr work')" by blast
    have "length input - Suc start < length input - start" using True by simp
    with less.hyps rest have "\<forall>i a. Suc start \<le> i \<and> i < length input \<and> a \<in> set toks \<and> ad_special a \<longrightarrow>
        \<not> occurs_at input i (ad_bytes a)" by blast
    with here show ?thesis by (metis le_eq_less_or_eq Suc_leI)
  qed auto
qed

end
