(* ===== verification/Tokenizer_Properties.thy ===== *)
theory Tokenizer_Properties
  imports Tokenizer_Codec
begin

text \<open>
  The properties of the tokenizer: encoding never panics, an encoding decodes to the normalised text, and the rejecting
  policy keeps special tokens out.  What is assumed of the code outside the repository is stated as \<open>nfc_ok\<close> (the
  normaliser yields Unicode scalar values) and \<open>split_ok\<close> (the matches of the split expression lie in the text, in
  order and without overlap).
\<close>

definition nfc_ok :: "normalizer \<Rightarrow> bool" where
  "nfc_ok nfc \<longleftrightarrow> (\<forall>s. \<forall>c\<in>set (nfc s). c < 0x110000)"

fun matches_ok :: "usize \<Rightarrow> usize \<Rightarrow> (usize \<times> usize) list \<Rightarrow> bool" where
  "matches_ok previous n [] \<longleftrightarrow> previous \<le> n"
| "matches_ok previous n ((a, b) # ms) \<longleftrightarrow> previous \<le> a \<and> a \<le> b \<and> b \<le> n \<and> matches_ok b n ms"

definition split_ok :: "splitter \<Rightarrow> bool" where
  "split_ok split \<longleftrightarrow> (\<forall>s. matches_ok 0 (length s) (split s))"

subsection \<open>Encoding does not panic\<close>

lemma and_then_exec_total: "(\<And>x. r = Inr x \<Longrightarrow> \<exists>t. f x = Some t) \<Longrightarrow> \<exists>t. and_then_exec r f = Some t"
  by (cases r) auto

lemma try_exec_total:
  "\<exists>t. m = Some t \<Longrightarrow> (\<And>x. m = Some (Inr x) \<Longrightarrow> \<exists>t. f x = Some t) \<Longrightarrow> \<exists>t. try_exec m f = Some t"
  by (cases m; cases "the m") (auto simp: try_exec_def)

lemma encode_utf8_bytes: "c < 0x110000 \<Longrightarrow> \<forall>b\<in>set (encode_utf8 c). b < 256"
  by (auto simp: encode_utf8_def less_mult_imp_div_less)

lemma piece_symbols_total:
  "length (te_byte_token_ids p) = 256 \<Longrightarrow> \<forall>b\<in>set piece. b < 256 \<Longrightarrow>
   \<exists>t. piece_symbols p piece symbols work = Some t"
  by (induction p piece symbols work rule: piece_symbols.induct) (auto simp: exec_simps intro!: and_then_exec_total)

lemma encode_piece_total:
  "length (te_byte_token_ids p) = 256 \<Longrightarrow> \<forall>b\<in>set piece. b < 256 \<Longrightarrow>
   \<exists>t. encode_piece reserve p piece limits work output = Some t"
  by (auto simp: encode_piece_def split_def intro!: try_exec_total piece_symbols_total)

lemma encode_slice_total:
  assumes "length (te_byte_token_ids p) = 256" "\<forall>b\<in>set s. b < 256" "a \<le> b" "b \<le> length s"
  shows "\<exists>t. encode_slice reserve p s a b limits work output = Some t"
proof -
  have "\<forall>x\<in>set (take (b - a) (drop a s)). x < 256" using assms(2) by (meson in_set_dropD in_set_takeD)
  from encode_piece_total [OF assms(1) this] assms(3,4) show ?thesis by (simp add: encode_slice_def slice_def)
qed

lemma split_loop_total:
  assumes p: "length (te_byte_token_ids p) = 256" and s: "\<forall>b\<in>set s. b < 256"
  shows "matches_ok previous (length s) ms \<Longrightarrow> \<exists>t. split_loop reserve p s ms previous limits work output = Some t"
proof (induction ms arbitrary: previous work "output")
  case (Cons m ms)
  obtain a b where m: "m = (a, b)" by (cases m)
  have ab: "previous \<le> a" "a \<le> b" "b \<le> length s" "matches_ok b (length s) ms" using Cons.prems m by auto
  have "\<exists>t. try_exec (if previous \<noteq> a then encode_slice reserve p s previous a limits w out else Some (Inr (w, out)))
      (\<lambda>(work, output). try_exec (encode_slice reserve p s a b limits work output) (\<lambda>(work, output).
        split_loop reserve p s ms b limits work output)) = Some t" for w out
    using encode_slice_total [OF p s] ab Cons.IH [OF ab(4)]
    by (auto simp: split_def intro!: try_exec_total)
  then show ?case using ab by (simp add: m exec_simps and_then_exec_total)
qed simp

lemma encode_normal_text_total:
  assumes p: "program_inv (tp_execution prog)" and nfc: "nfc_ok nfc" and split: "split_ok (tp_split_regex prog)"
  shows "\<exists>t. encode_normal_text reserve nfc prog s limits work output = Some t"
proof -
  let ?p = "tp_execution prog"
  let ?n = "normalized nfc s"
  have ids: "length (te_byte_token_ids ?p) = 256" using p by (simp add: program_inv_def)
  have bytes: "\<forall>b\<in>set ?n. b < 256" using nfc encode_utf8_bytes by (fastforce simp: nfc_ok_def normalized_def)
  have loop: "\<exists>t. split_loop reserve ?p ?n (tp_split_regex prog ?n) 0 limits w output = Some t" for w
    using split_loop_total [OF ids bytes] split by (simp add: split_ok_def)
  have rest: "\<exists>t. (if last' \<noteq> length ?n then
        (case u_sub (length ?n) last' of
           None \<Rightarrow> Some (Inl ArithmeticOverflow)
         | Some amount \<Rightarrow> and_then_exec (charge w amount) (\<lambda>work.
             encode_slice reserve ?p ?n last' (length ?n) limits work out))
        else Some (Inr (w, out))) = Some t" for last' w out
    using encode_slice_total [OF ids bytes] by (auto intro!: and_then_exec_total split: option.splits)
  have "\<exists>t. try_exec (split_loop reserve ?p ?n (tp_split_regex prog ?n) 0 limits w output) (\<lambda>(previous, work, output).
      if previous \<noteq> length ?n then
        (case u_sub (length ?n) previous of
           None \<Rightarrow> Some (Inl ArithmeticOverflow)
         | Some amount \<Rightarrow> and_then_exec (charge work amount) (\<lambda>work.
             encode_slice reserve ?p ?n previous (length ?n) limits work output))
      else Some (Inr (work, output))) = Some t" for w
  proof (rule try_exec_total [OF loop])
    fix x :: "usize \<times> work_budget \<times> u32 list"
    obtain last' w out where x: "x = (last', w, out)" by (cases x)
    show "\<exists>t. (case x of (previous, work, output) \<Rightarrow>
      if previous \<noteq> length ?n then
        (case u_sub (length ?n) previous of
           None \<Rightarrow> Some (Inl ArithmeticOverflow)
         | Some amount \<Rightarrow> and_then_exec (charge work amount) (\<lambda>work.
             encode_slice reserve ?p ?n previous (length ?n) limits work output))
      else Some (Inr (work, output))) = Some t"
      unfolding x prod.case by (rule rest)
  qed
  note pieces = this
  show ?thesis
  proof (cases "normalize_loop (nfc s) [] work")
    case (Inr y)
    obtain w where "y = (?n, w)" using normalize_loop_ok [of "nfc s" "[]" work] Inr by (cases y) (auto simp: normalized_def)
    then show ?thesis using pieces [of w] Inr by (simp add: encode_normal_text_def)
  qed (simp add: encode_normal_text_def)
qed

lemma find_added_at_total:
  "start \<le> length input \<Longrightarrow> (\<forall>m. best = Some m \<longrightarrow> am_offset m < length all) \<Longrightarrow> offset + length rest = length all \<Longrightarrow>
   \<exists>t. find_added_at input start all offset rest best work = Some t"
proof (induction rest arbitrary: offset best work)
  case (Cons a rest)
  have "\<exists>t. find_added_at input start all (Suc offset) rest b w = Some t"
    if "\<forall>m. b = Some m \<longrightarrow> am_offset m < length all" for b w
    using Cons.IH [OF Cons.prems(1) that] Cons.prems(3) by simp
  then show ?case using Cons.prems
    by (cases best) (auto simp: bytes_match_at_ok exec_simps intro!: and_then_exec_total)
qed simp

lemma find_added_token_total: "\<exists>t. find_added_token input start toks work = Some t"
proof (induction "length input - start" arbitrary: start work rule: less_induct)
  case less
  show ?case
  proof (cases "start < length input")
    case True
    then have "\<exists>t. find_added_token input (Suc start) toks w = Some t" for w
      using less by simp
    moreover have "\<exists>t. find_added_at input start toks 0 toks None w = Some t" for w
      using find_added_at_total [of start input None toks 0 toks] True by simp
    ultimately show ?thesis using True
      by (subst find_added_token.simps) (auto simp: split_def intro!: and_then_exec_total try_exec_total)
  qed (subst find_added_token.simps, simp)
qed

lemma reject_special_at_total: "start \<le> length input \<Longrightarrow> \<exists>t. reject_special_at input start toks work = Some t"
  by (induction input start toks work rule: reject_special_at.induct)
     (auto simp: bytes_match_at_ok intro!: and_then_exec_total)

lemma reject_forbidden_special_total: "\<exists>t. reject_forbidden_special input start toks work = Some t"
proof (induction "length input - start" arbitrary: start work rule: less_induct)
  case less
  show ?case
  proof (cases "start < length input")
    case True
    then have "\<exists>t. reject_forbidden_special input (Suc start) toks w = Some t" for w using less by simp
    then show ?thesis using True reject_special_at_total [of start input]
      by (subst reject_forbidden_special.simps) (auto intro!: and_then_exec_total try_exec_total)
  qed (subst reject_forbidden_special.simps, simp)
qed

lemma boundary_after_ascii:
  assumes "utf8_valid s" "occurs_at s i t" "t \<noteq> []" "list_all (\<lambda>b. b < 0x80) t"
  shows "is_char_boundary s i" "is_char_boundary s (i + length t)"
proof -
  obtain x u where t: "t = x # u" using assms(3) by (cases t) auto
  have "i + length t \<le> length s" using arg_cong [OF assms(2) [unfolded occurs_at_def], of length] t by simp
  then have i: "i < length s" using t by simp
  have "s ! i = x" using arg_cong [OF assms(2) [unfolded occurs_at_def], of hd] i t by (simp add: hd_drop_conv_nth)
  then show "is_char_boundary s i" using assms(4) t i by (simp add: is_char_boundary_def utf8_cont_def)
  have last': "last t < 0x80" using assms(3,4) by (metis last_in_set list_all_iff)
  have "s = take i s @ t @ drop (i + length t) s"
    using assms(2) by (metis append_take_drop_id drop_drop occurs_at_def add.commute)
  then have "s = (take i s @ butlast t) @ last t # drop (i + length t) s"
    using append_butlast_last_id [OF assms(3)] by (metis append.assoc append_Cons append_Nil)
  then have v: "utf8_valid (drop (i + length t) s)" using utf8_after_ascii last' assms(1) by metis
  show "is_char_boundary s (i + length t)"
  proof (cases "i + length t = length s")
    case False
    then have "i + length t < length s" using \<open>i + length t \<le> length s\<close> by simp
    then have "drop (i + length t) s = s ! (i + length t) # drop (Suc (i + length t)) s" by (simp add: Cons_nth_drop_Suc)
    with v have "\<not> utf8_cont (s ! (i + length t))"
      by (auto simp: utf8_cont_def elim: utf8_valid_cases)
    then show ?thesis using \<open>i + length t < length s\<close> by (simp add: is_char_boundary_def)
  qed (simp add: is_char_boundary_def)
qed

lemma encode_until_total:
  assumes "program_inv (tp_execution prog)" "nfc_ok nfc" "split_ok (tp_split_regex prog)"
    and "is_char_boundary input a" "is_char_boundary input b" "a \<le> b"
  shows "\<exists>t. encode_until reserve nfc prog input a b limits work output = Some t"
proof -
  have "b \<le> length input" using assms(5) by (auto simp: is_char_boundary_def)
  then show ?thesis using encode_normal_text_total [OF assms(1-3)] assms(4-6)
    by (simp add: encode_until_def str_slice_def slice_def)
qed

lemma emit_match_total:
  assumes "am_offset m < length (te_added_tokens (tp_execution prog))"
  shows "\<exists>t. emit_match prog m policy limits output = Some t"
  using assms by (simp add: emit_match_def exec_simps)

lemma emit_match_cursor:
  assumes "emit_match prog m policy limits output = Some (Inr (cursor', out))"
  shows "cursor' = am_start m + length (ad_bytes (te_added_tokens (tp_execution prog) ! am_offset m))"
proof -
  obtain added n out' where "idx (te_added_tokens (tp_execution prog)) (am_offset m) = Some added"
      "emit_added_token added policy output (tl_tokens limits) = Inr (n, out')" "cursor' = am_start m + n"
    using assms by (auto simp: emit_match_def inr_simps split: option.splits)
  then show ?thesis by (auto simp: emit_added_token_def idx_eq_Some and_then_Inr split: if_splits)
qed

lemma found_match:
  assumes p: "program_inv p" and utf8: "utf8_valid input"
    and f: "find_added_token input cursor (te_added_tokens p) work = Some (Inr (Some m, work'))"
  defines "a \<equiv> te_added_tokens p ! am_offset m"
  shows "cursor \<le> am_start m" "am_start m < length input" "am_offset m < length (te_added_tokens p)"
    "is_char_boundary input (am_start m)" "is_char_boundary input (am_start m + length (ad_bytes a))"
    "0 < length (ad_bytes a)"
proof -
  have lt: "\<forall>a\<in>set (te_added_tokens p). \<exists>t. ad_bytes a = 0x3C # t" using added_bytes_shape(1) [OF p] by blast
  have m: "cursor \<le> am_start m" "am_start m < length input" "best_match input (am_start m) (te_added_tokens p) (Some m)"
    using find_added_token_ok [OF lt f] by auto
  then have o: "am_offset m < length (te_added_tokens p)" "occurs_at input (am_start m) (ad_bytes a)"
    by (auto simp: best_match_def a_def)
  have shape: "\<exists>t. ad_bytes a = 0x3C # t" "list_all (\<lambda>b. b < 0x80) (ad_bytes a)"
    using added_bytes_shape [OF p nth_mem [OF o(1)]] by (auto simp: a_def)
  then have ne: "ad_bytes a \<noteq> []" by auto
  note boundary = boundary_after_ascii [OF utf8 o(2) ne shape(2)]
  show "cursor \<le> am_start m" "am_start m < length input" "am_offset m < length (te_added_tokens p)"
    "is_char_boundary input (am_start m)" "is_char_boundary input (am_start m + length (ad_bytes a))"
    "0 < length (ad_bytes a)"
    using m(1,2) o(1) boundary ne by simp_all
qed

lemma encode_loop_total:
  assumes p: "program_inv (tp_execution prog)" and nfc: "nfc_ok nfc" and split: "split_ok (tp_split_regex prog)"
    and utf8: "utf8_valid input"
  shows "is_char_boundary input cursor \<Longrightarrow> \<exists>t. encode_loop reserve nfc prog input cursor limits policy work output = Some t"
proof (induction "length input - cursor" arbitrary: cursor work "output" rule: less_induct)
  case less
  let ?toks = "te_added_tokens (tp_execution prog)"
  show ?case
  proof (cases "cursor < length input")
    case True
    show ?thesis
    proof (subst encode_loop_step, simp only: True if_True, rule try_exec_total [OF find_added_token_total],
        unfold split_paired_all prod.case)
      fix next' work1 assume f: "find_added_token input cursor ?toks work = Some (Inr (next', work1))"
      let ?stop = "case next' of None \<Rightarrow> length input | Some m \<Rightarrow> am_start m"
      have stop': "is_char_boundary input ?stop" "cursor \<le> ?stop"
        using found_match [OF p utf8] f True by (cases next'; simp add: is_char_boundary_def)+
      show "\<exists>t. try_exec (encode_until reserve nfc prog input cursor ?stop limits work1 output) (\<lambda>(work2, output1).
          case next' of
            None \<Rightarrow> Some (Inr output1)
          | Some m \<Rightarrow> try_exec (emit_match prog m policy limits output1) (\<lambda>(cursor', output2).
              encode_loop reserve nfc prog input cursor' limits policy work2 output2)) = Some t"
      proof (rule try_exec_total [OF encode_until_total [OF p nfc split less.prems stop']], unfold split_paired_all prod.case)
        fix work2 out1
        show "\<exists>t. (case next' of
            None \<Rightarrow> Some (Inr out1)
          | Some m \<Rightarrow> try_exec (emit_match prog m policy limits out1) (\<lambda>(cursor', output2).
              encode_loop reserve nfc prog input cursor' limits policy work2 output2)) = Some t"
        proof (cases next')
          case (Some mm)
          note mm = found_match [OF p utf8 f [unfolded Some]]
          have "\<exists>t. encode_loop reserve nfc prog input cursor' limits policy work2 out2 = Some t"
            if "emit_match prog mm policy limits out1 = Some (Inr (cursor', out2))" for cursor' out2
          proof (rule less.hyps)
            show "length input - cursor' < length input - cursor"
              using mm(1,2,6) emit_match_cursor [OF that] by linarith
            show "is_char_boundary input cursor'" using mm(5) emit_match_cursor [OF that] by simp
          qed
          then show ?thesis using emit_match_total [OF mm(3)] Some by (auto intro!: try_exec_total)
        qed simp
      qed
    qed
  qed (subst encode_loop_step, simp)
qed

lemma utf8_boundary_0: "utf8_valid s \<Longrightarrow> is_char_boundary s 0"
  by (cases s) (auto simp: is_char_boundary_def utf8_cont_def elim: utf8_valid_cases)

subsection \<open>A concrete program\<close>

text \<open>The vocabulary of the 256 byte symbols, without merges.\<close>

definition byte_vocabulary :: "bytes list" where
  "byte_vocabulary = map (\<lambda>b. encode_utf8 (byte_to_unicode_codepoint b)) [0..<256]"

lemma collect_token_ids_total:
  "n + length vocabulary \<le> U32_MAX \<Longrightarrow> \<exists>ids'. collect_token_ids n vocabulary ids = Inr ids' \<and> set vocabulary \<union> dom ids \<subseteq> dom ids'"
proof (induction vocabulary arbitrary: n ids)
  case (Cons t vocabulary)
  then have "n + 1 + length vocabulary \<le> U32_MAX" by simp
  from Cons.IH [OF this] obtain ids' where "collect_token_ids (n + 1) vocabulary (ids(t \<mapsto> n)) = Inr ids'"
      "set vocabulary \<union> dom (ids(t \<mapsto> n)) \<subseteq> dom ids'" by blast
  then show ?case using Cons.prems by (intro exI [of _ ids']) simp
qed simp

lemma fill_byte_token_ids_total:
  "n + byte \<le> 256 \<Longrightarrow> \<forall>b<256. encode_utf8 (byte_to_unicode_codepoint b) \<in> dom ids \<Longrightarrow>
   \<exists>arr'. fill_byte_token_ids n byte ids arr = Inr arr'"
proof (induction n arbitrary: byte arr)
  case (Suc n)
  have "byte < 256" using Suc.prems(1) by simp
  then obtain i where "ids (encode_utf8 (byte_to_unicode_codepoint byte)) = Some i" using Suc.prems(2) by blast
  with Suc.IH [of "byte + 1"] Suc.prems \<open>byte < 256\<close> show ?case by (simp add: byte_to_unicode_Some)
qed simp

lemma collect_vocabulary_bytes_total:
  "\<forall>t\<in>set vocabulary. \<exists>b<256. t = encode_utf8 (byte_to_unicode_codepoint b) \<Longrightarrow>
   \<exists>vb'. collect_vocabulary_bytes (\<lambda>_. True) vocabulary vb = Inr vb'"
proof (induction vocabulary arbitrary: vb)
  case (Cons t vocabulary)
  then obtain b where "b < 256" "t = encode_utf8 (byte_to_unicode_codepoint b)" by auto
  then have "symbol_bytes (utf8_chars t) [] = Inr [b]"
    using utf8_chars_encode [OF byte_to_unicode_less, of b "[]"] by (simp add: unicode_byte_inverse)
  with Cons show ?case by simp
qed simp

lemma collect_added_tokens_total:
  "offset + length toks \<le> 1000 \<Longrightarrow> \<exists>r. collect_added_tokens offset toks acc = Inr r"
  by (induction offset toks acc rule: collect_added_tokens.induct)
     (auto simp: BASE_VOCABULARY_SIZE_def exec_simps)

lemma byte_program: "\<exists>prog. program_new (\<lambda>_. True) (Some (\<lambda>_. [])) byte_vocabulary [] = Inr prog"
proof -
  obtain ids where ids: "collect_token_ids 0 byte_vocabulary Map.empty = Inr ids" "set byte_vocabulary \<subseteq> dom ids"
    using collect_token_ids_total [of 0 byte_vocabulary Map.empty] by (auto simp: byte_vocabulary_def)
  have "\<forall>b<256. encode_utf8 (byte_to_unicode_codepoint b) \<in> dom ids"
    using ids(2) by (simp add: byte_vocabulary_def image_subset_iff)
  from fill_byte_token_ids_total [OF _ this, of 256 0] obtain arr
    where "fill_byte_token_ids 256 0 ids (replicate 256 0) = Inr arr" by auto
  moreover obtain vb where "collect_vocabulary_bytes (\<lambda>_. True) byte_vocabulary [] = Inr vb"
    using collect_vocabulary_bytes_total [of byte_vocabulary "[]"] by (force simp: byte_vocabulary_def)
  moreover obtain added where "collect_added_tokens 0 ADDED_TOKENS [] = Inr added"
    using collect_added_tokens_total [of 0 ADDED_TOKENS "[]"] ADDED_TOKENS_length by auto
  ultimately show ?thesis using ids(1) by (simp add: program_new_def)
qed

lemma encode_utf8_valid: "c < 0x800 \<Longrightarrow> utf8_valid (encode_utf8 c)"
proof (cases "c < 0x80")
  case False
  moreover assume "c < 0x800"
  ultimately have "2 \<le> c div 0x40" "c div 0x40 < 0x20" "c mod 0x40 < 0x40" by (simp_all add: less_mult_imp_div_less le_div_geq)
  then show ?thesis using False \<open>c < 0x800\<close> by (simp add: encode_utf8_def utf8_valid.simps utf8_cont_def)
qed (simp add: encode_utf8_def utf8_valid.simps)

lemma byte_vocabulary_ok:
  "\<forall>t\<in>set byte_vocabulary. utf8_valid t" "length byte_vocabulary \<le> BASE_VOCABULARY_SIZE"
  by (auto simp: byte_vocabulary_def BASE_VOCABULARY_SIZE_def intro!: encode_utf8_valid byte_to_unicode_less)

lemma added_list:
  assumes "program_inv p"
  shows "te_added_tokens p = map (\<lambda>(i, t, sp). \<lparr>ad_bytes = t, ad_special = sp, ad_token_id = BASE_VOCABULARY_SIZE + i\<rparr>)
    (enumerate 0 ADDED_TOKENS)"
  using assms by (auto simp: program_inv_def added_token_of_def enumerate_eq_zip split_def intro!: nth_equalityI)

text \<open>Encoding \<open>'<think>'\<close> gives the token of that added token, under either policy.\<close>

lemma think_found:
  assumes p: "program_inv p" and "u \<le> 1000"
  shows "find_added_token (ascii ''<think>'') 0 (te_added_tokens p) \<lparr>wb_used = u, wb_limit = MAX_TOKENIZER_WORK\<rparr> =
    Some (Inr (Some \<lparr>am_start = 0, am_offset = 24, am_token_id = 151667\<rparr>, \<lparr>wb_used = u + 341, wb_limit = MAX_TOKENIZER_WORK\<rparr>))"
  unfolding added_list [OF p] using assms(2)
  by (subst find_added_token.simps)
     (simp add: ADDED_TOKENS_def ascii_def bytes_match_at_ok occurs_at_def charge_def MAX_TOKENIZER_WORK_def
      exec_simps try_exec_def BASE_VOCABULARY_SIZE_def idx_def)

lemma think_not_special:
  assumes p: "program_inv p"
  shows "reject_forbidden_special (ascii ''<think>'') 0 (te_added_tokens p) (budget_new MAX_TOKENIZER_WORK) =
    Some (Inr \<lparr>wb_used = 200, wb_limit = MAX_TOKENIZER_WORK\<rparr>)"
  unfolding added_list [OF p]
  by (simp add: reject_forbidden_special.simps ADDED_TOKENS_def ascii_def bytes_match_at_ok occurs_at_def charge_def
      budget_new_def MAX_TOKENIZER_WORK_def exec_simps try_exec_def)

lemma think_encodes:
  assumes p: "program_inv (tp_execution prog)" and split: "tp_split_regex prog = (\<lambda>_. [])"
  shows "encode (\<lambda>_. True) (\<lambda>s. s) prog (ascii ''<think>'') limits_m1 policy = Some (Inr [151667])"
proof -
  let ?in = "ascii ''<think>''"
  have u: "encode_until (\<lambda>_. True) (\<lambda>s. s) prog ?in 0 0 limits_m1 w [] = Some (Inr (w, []))" for w
    using split
    by (simp add: encode_until_def str_slice_def slice_def is_char_boundary_def utf8_cont_def ascii_def
        encode_normal_text_def try_exec_def)
  have e: "emit_match prog \<lparr>am_start = 0, am_offset = 24, am_token_id = 151667\<rparr> policy limits_m1 [] = Some (Inr (7, [151667]))"
    unfolding emit_match_def added_list [OF p]
    by (simp add: ADDED_TOKENS_def ascii_def idx_def emit_added_token_def push_token_def exec_simps limits_m1_def
        MAX_TOKENIZER_OUTPUT_TOKENS_def BASE_VOCABULARY_SIZE_def)
  have "encode_loop (\<lambda>_. True) (\<lambda>s. s) prog ?in 7 limits_m1 policy w out = Some (Inr out)" for w out
    by (subst encode_loop_step) (simp add: ascii_def)
  moreover have "0 < length ?in" by (simp add: ascii_def)
  ultimately have "encode_loop (\<lambda>_. True) (\<lambda>s. s) prog ?in 0 limits_m1 policy \<lparr>wb_used = v, wb_limit = MAX_TOKENIZER_WORK\<rparr> [] =
      Some (Inr [151667])" if "v \<le> 1000" for v
    by (subst encode_loop_step) (simp add: think_found [OF p that] u e try_exec_def)
  moreover have "limits_validate limits_m1 = Inr ()" "\<not> tl_input_bytes limits_m1 < length ?in" "tl_work limits_m1 = MAX_TOKENIZER_WORK"
    by (simp_all add: limits_validate_def limits_m1_def ascii_def MAX_TOKENIZER_INPUT_BYTES_def MAX_TOKENIZER_OUTPUT_TOKENS_def
        MAX_TOKENIZER_OUTPUT_BYTES_def MAX_TOKENIZER_WORK_def)
  ultimately show ?thesis
    using think_not_special [OF p] by (cases policy) (simp_all add: encode_def try_exec_def budget_new_def Let_def)
qed

lemma think_canonical: "canonical added_contents (normalized (\<lambda>s. s)) [] (ascii ''<think>'') = ascii ''<think>''"
proof -
  have "longest added_contents (ascii ''<think>'') = Some 7"
    unfolding longest_Some by (simp add: added_contents_def ADDED_TOKENS_def ascii_def)
  then show ?thesis by (simp add: ascii_def normalized_def)
qed

subsection \<open>Properties\<close>

text \<open>encoding never panics, whatever the limits, the policy and the allocator: for a program built by the
  constructor and a well-formed UTF-8 text, every slice is taken at character boundaries and every index is in range,
  provided the normaliser yields scalar values and the split expression yields ordered matches inside the text.\<close>

theorem tokenizer_encode_never_panics:
  assumes "program_new reserve (Some split) vocabulary merges = Inr prog"
    and "\<forall>t\<in>set vocabulary. utf8_valid t" and "length vocabulary \<le> BASE_VOCABULARY_SIZE"
    and "nfc_ok nfc" and "split_ok split" and "utf8_valid input"
  shows "\<exists>r. encode reserve' nfc prog input limits policy = Some r"
proof -
  note p = program_new_inv [OF assms(1-3)]
  have "\<exists>t. encode_loop reserve' nfc prog input 0 limits policy w [] = Some t" for w
    using encode_loop_total [OF p(1) assms(4) _ assms(6) utf8_boundary_0 [OF assms(6)]] p(2) assms(5) by simp
  then show ?thesis unfolding encode_def Let_def
    by (auto intro!: and_then_exec_total try_exec_total reject_forbidden_special_total)
qed

lemma tokenizer_encode_never_panics_witness:
  "\<exists>prog r. program_new (\<lambda>_. True) (Some (\<lambda>_. [])) byte_vocabulary [] = Inr prog \<and> nfc_ok (\<lambda>s. map (\<lambda>b. b mod 256) s) \<and>
     split_ok (\<lambda>_. []) \<and> utf8_valid (ascii ''<think>'') \<and>
     encode (\<lambda>_. True) (\<lambda>s. map (\<lambda>b. b mod 256) s) prog (ascii ''<think>'') limits_m1 Allow = Some r"
proof -
  obtain prog where n: "program_new (\<lambda>_. True) (Some (\<lambda>_. [])) byte_vocabulary [] = Inr prog" using byte_program ..
  have ok: "nfc_ok (\<lambda>s. map (\<lambda>b. b mod 256) s)" "split_ok (\<lambda>_. [])" "utf8_valid (ascii ''<think>'')"
    by (auto simp: nfc_ok_def split_ok_def ascii_def utf8_valid.simps intro: less_trans [of _ 256])
  from tokenizer_encode_never_panics [OF n byte_vocabulary_ok ok, of "\<lambda>_. True" limits_m1 Allow] n ok show ?thesis by blast
qed

text \<open>C35: round trip of the tokenizer.  If a program built by the constructor encodes a text, then decoding the tokens
  gives back the text, with its stretches between added tokens in normalisation form C (and so exactly the text when
  normalisation leaves it alone), for every decoding limit that admits the result.\<close>

theorem tokenizer_round_trip:
  assumes "program_new reserve (Some split) vocabulary merges = Inr prog"
    and "\<forall>t\<in>set vocabulary. utf8_valid t" and "length vocabulary \<le> BASE_VOCABULARY_SIZE"
    and "encode reserve nfc prog input limits policy = Some (Inr tokens)"
    and "decode_limits_ok reserve limits' tokens (canonical added_contents (normalized nfc) [] input)"
  shows "decode_to_bytes reserve (tp_execution prog) tokens limits' Preserve =
    Inr (canonical added_contents (normalized nfc) [] input)"
proof -
  note p = program_new_inv(1) [OF assms(1-3)]
  have e: "\<forall>t\<in>set tokens. emitted (tp_execution prog) policy t"
      "detokenize (tp_execution prog) tokens = canonical added_contents (normalized nfc) [] input"
    using encode_ok [OF p assms(4)] by (auto simp: encodes_def)
  then show ?thesis using decode_ok [OF p] emitted_known [OF p] assms(5) by metis
qed

lemma tokenizer_round_trip_witness:
  "\<exists>prog. program_new (\<lambda>_. True) (Some (\<lambda>_. [])) byte_vocabulary [] = Inr prog \<and>
     encode (\<lambda>_. True) (\<lambda>s. s) prog (ascii ''<think>'') limits_m1 Allow = Some (Inr [151667]) \<and>
     decode_to_bytes (\<lambda>_. True) (tp_execution prog) [151667] limits_m1 Preserve = Inr (ascii ''<think>'')"
proof -
  obtain prog where n: "program_new (\<lambda>_. True) (Some (\<lambda>_. [])) byte_vocabulary [] = Inr prog" using byte_program ..
  note p = program_new_inv [OF n byte_vocabulary_ok]
  have e: "encode (\<lambda>_. True) (\<lambda>s. s) prog (ascii ''<think>'') limits_m1 Allow = Some (Inr [151667])"
    by (rule think_encodes [OF p(1)]) (use p(2) in simp)
  have l: "decode_limits_ok (\<lambda>_. True) limits_m1 [151667] (canonical added_contents (normalized (\<lambda>s. s)) [] (ascii ''<think>''))"
    unfolding think_canonical
    by (simp add: decode_limits_ok_def limits_validate_def limits_m1_def ascii_def MAX_TOKENIZER_INPUT_BYTES_def
        MAX_TOKENIZER_OUTPUT_TOKENS_def MAX_TOKENIZER_OUTPUT_BYTES_def MAX_TOKENIZER_WORK_def)
  from tokenizer_round_trip [OF n byte_vocabulary_ok e l] n e show ?thesis by (auto simp: think_canonical)
qed

text \<open>C39: the rejecting policy is sound: when it lets a text be encoded, no special token occurs anywhere in the text
  and no special token identity is among the tokens.\<close>

theorem tokenizer_reject_excludes_special:
  assumes "program_new reserve (Some split) vocabulary merges = Inr prog"
    and "\<forall>t\<in>set vocabulary. utf8_valid t" and "length vocabulary \<le> BASE_VOCABULARY_SIZE"
    and "encode reserve nfc prog input limits Reject = Some (Inr tokens)"
    and "i < length ADDED_TOKENS" and "snd (ADDED_TOKENS ! i)"
  shows "BASE_VOCABULARY_SIZE + i \<notin> set tokens \<and> (\<forall>j. \<not> occurs_at input j (fst (ADDED_TOKENS ! i)))"
proof -
  let ?p = "tp_execution prog"
  note p = program_new_inv(1) [OF assms(1-3)]
  have "emitted ?p Reject t" if "t \<in> set tokens" for t
    using encode_ok [OF p assms(4)] that by (auto simp: encodes_def)
  moreover have "length (te_vocabulary_bytes ?p) \<le> BASE_VOCABULARY_SIZE" using p by (simp add: program_inv_def)
  then have "\<not> emitted ?p Reject (BASE_VOCABULARY_SIZE + i)" using assms(6) by (auto simp: emitted_def base_def)
  ultimately have "BASE_VOCABULARY_SIZE + i \<notin> set tokens" by blast
  obtain work where r: "reject_forbidden_special input 0 (te_added_tokens ?p) (budget_new (tl_work limits)) = Some (Inr work)"
    using assms(4) by (auto simp: encode_def inr_simps Let_def split: if_splits)
  have a: "added_token_of i \<in> set (te_added_tokens ?p)" "ad_special (added_token_of i)"
    using p assms(5,6) by (auto simp: program_inv_def added_token_of_def)
  have lt: "\<forall>a\<in>set (te_added_tokens ?p). \<exists>t. ad_bytes a = 0x3C # t" using added_bytes_shape(1) [OF p] by blast
  have "\<not> occurs_at input j (ad_bytes (added_token_of i))" for j
  proof (cases "j < length input")
    case True
    then show ?thesis using reject_forbidden_special_ok [OF lt r] a by blast
  next
    case False
    have "ad_bytes (added_token_of i) \<noteq> []" using lt a(1) by fastforce
    then show ?thesis using False by (simp add: occurs_at_def)
  qed
  then have "\<forall>j. \<not> occurs_at input j (fst (ADDED_TOKENS ! i))" by (simp add: added_token_of_def)
  with \<open>BASE_VOCABULARY_SIZE + i \<notin> set tokens\<close> show ?thesis by blast
qed

lemma tokenizer_reject_excludes_special_witness:
  "\<exists>prog. program_new (\<lambda>_. True) (Some (\<lambda>_. [])) byte_vocabulary [] = Inr prog \<and>
     encode (\<lambda>_. True) (\<lambda>s. s) prog (ascii ''<think>'') limits_m1 Reject = Some (Inr [151667]) \<and>
     BASE_VOCABULARY_SIZE + 0 \<notin> set [151667] \<and> (\<forall>j. \<not> occurs_at (ascii ''<think>'') j (ascii ''<|endoftext|>''))"
proof -
  obtain prog where n: "program_new (\<lambda>_. True) (Some (\<lambda>_. [])) byte_vocabulary [] = Inr prog" using byte_program ..
  note p = program_new_inv [OF n byte_vocabulary_ok]
  have e: "encode (\<lambda>_. True) (\<lambda>s. s) prog (ascii ''<think>'') limits_m1 Reject = Some (Inr [151667])"
    by (rule think_encodes [OF p(1)]) (use p(2) in simp)
  have z: "0 < length ADDED_TOKENS" "snd (ADDED_TOKENS ! 0)" "fst (ADDED_TOKENS ! 0) = ascii ''<|endoftext|>''"
    by (simp_all add: ADDED_TOKENS_def)
  from tokenizer_reject_excludes_special [OF n byte_vocabulary_ok e z(1,2)] n e z(3) show ?thesis by auto
qed

end
