(* ===== verification/Plan.thy ===== *)
theory Plan
  imports Speculation
begin

text \<open>
  Which generated plan a step executes: model roles (\<^verbatim>\<open>ferric-spec/src/configuration.rs\<close>), execution modes, finite
  buckets and their dimensions (\<^verbatim>\<open>graph.rs\<close>), and the immutable authority of one step
  (\<^verbatim>\<open>step_plan_publication.rs\<close>).
\<close>

datatype qwen3_model_role = Target8B | Draft06B

datatype qwen3_execution_mode = Prefill | Decode | Speculative

datatype qwen3_plan_bucket =
    PrefillS1T128 | PrefillS8T128 | PrefillS1T512 | PrefillS1T2048
  | DecodeS1C8192 | DecodeS8C8192 | DecodeS32C8192
  | SpeculativeS1K4C8192 | SpeculativeS8K4C8192 | SpeculativeS1K8C8192 | SpeculativeS1K16C8192

record qwen3_plan_dimensions =
  pd_sequences :: u32
  pd_active_tokens :: u32
  pd_context_tokens :: u32

definition plan_dims :: "u32 \<Rightarrow> u32 \<Rightarrow> u32 \<Rightarrow> qwen3_plan_dimensions option" where
  "plan_dims s a c = Some \<lparr>pd_sequences = s, pd_active_tokens = a, pd_context_tokens = c\<rparr>"

fun bucket_dimensions ::
  "qwen3_plan_bucket \<Rightarrow> qwen3_model_role \<Rightarrow> qwen3_execution_mode \<Rightarrow> qwen3_plan_dimensions option" where
  "bucket_dimensions PrefillS1T128 role Prefill = plan_dims 1 128 128"
| "bucket_dimensions PrefillS8T128 role Prefill = plan_dims 8 128 128"
| "bucket_dimensions PrefillS1T512 role Prefill = plan_dims 1 512 512"
| "bucket_dimensions PrefillS1T2048 role Prefill = plan_dims 1 2048 2048"
| "bucket_dimensions DecodeS1C8192 role Decode = plan_dims 1 1 8192"
| "bucket_dimensions DecodeS8C8192 role Decode = plan_dims 8 1 8192"
| "bucket_dimensions DecodeS32C8192 role Decode = plan_dims 32 1 8192"
| "bucket_dimensions SpeculativeS1K4C8192 role Speculative =
     plan_dims 1 (case role of Target8B \<Rightarrow> 5 | Draft06B \<Rightarrow> 4) 8192"
| "bucket_dimensions SpeculativeS8K4C8192 role Speculative =
     plan_dims 8 (case role of Target8B \<Rightarrow> 5 | Draft06B \<Rightarrow> 4) 8192"
| "bucket_dimensions SpeculativeS1K8C8192 role Speculative =
     plan_dims 1 (case role of Target8B \<Rightarrow> 9 | Draft06B \<Rightarrow> 8) 8192"
| "bucket_dimensions SpeculativeS1K16C8192 role Speculative =
     plan_dims 1 (case role of Target8B \<Rightarrow> 17 | Draft06B \<Rightarrow> 16) 8192"
| "bucket_dimensions bucket role mode = None"

record qwen3_plan_selection =
  sel_role :: qwen3_model_role
  sel_mode :: qwen3_execution_mode
  sel_bucket :: qwen3_plan_bucket

datatype qwen3_plan_error =
    MissingIdentity string | ZeroRevision | StaleIdentity string | StaleRevision
  | ModeBucketMismatch | SelectionMismatch | PlanStepCount u32 usize | StepMismatch u32

text \<open>The \<open>matches!\<close> tables of the source list exactly the equal pairs.\<close>

definition selection_matches :: "qwen3_plan_selection \<Rightarrow> qwen3_plan_selection \<Rightarrow> bool" where
  "selection_matches a b =
     (sel_role a = sel_role b \<and> sel_mode a = sel_mode b \<and> sel_bucket a = sel_bucket b)"

definition selection_validate :: "qwen3_plan_selection \<Rightarrow> qwen3_plan_error + unit" where
  "selection_validate s =
     (if bucket_dimensions (sel_bucket s) (sel_role s) (sel_mode s) = None then Inl ModeBucketMismatch else Inr ())"

record step_plan =
  sp_request :: request_id
  sp_completion_epoch :: completion_epoch
  sp_plan_id :: identity
  sp_selection :: qwen3_plan_selection

lemma selection_matches_iff [simp]: "selection_matches a b \<longleftrightarrow> a = b"
  by (cases a; cases b) (auto simp: selection_matches_def)

lemma selection_validate_Inr [simp]:
  "selection_validate s = Inr x \<longleftrightarrow> bucket_dimensions (sel_bucket s) (sel_role s) (sel_mode s) \<noteq> None"
  by (auto simp: selection_validate_def)

text \<open>Every admitted plan serves between one and 32 sequences, and a speculative plan of the target scores one token
  more than it drafts.\<close>

lemma bucket_dimensions_bounds:
  assumes "bucket_dimensions b r m = Some d"
  shows "1 \<le> pd_sequences d" "pd_sequences d \<le> 32" "1 \<le> pd_active_tokens d" "pd_active_tokens d \<le> pd_context_tokens d"
    "pd_context_tokens d \<le> 8192"
  using assms by (cases b; cases m; cases r; simp add: plan_dims_def; fastforce)+

end
