(* ===== verification/Publication.thy ===== *)
theory Publication
  imports Plan Speculation_Properties
begin

text \<open>
  The one-shot publication of a step's effects (\<^verbatim>\<open>ferric-spec/src/step_plan_publication.rs\<close>): a reserved delta is
  validated against its immutable plan, and then published or discarded, once.
\<close>

subsection \<open>The model\<close>

record reserved_state_delta =
  rd_request :: request_id
  rd_completion_epoch :: completion_epoch
  rd_plan_id :: identity
  rd_selection :: qwen3_plan_selection
  rd_accepted_token_count :: u8
  rd_emitted_token_count :: u8
  rd_emitted_tokens :: "token_id list"

definition from_compact_completion :: "compact_completion_record \<Rightarrow> qwen3_plan_selection \<Rightarrow> reserved_state_delta" where
  "from_compact_completion record selection =
     \<lparr>rd_request = cr_request record, rd_completion_epoch = cr_epoch record, rd_plan_id = cr_plan_id record,
      rd_selection = selection, rd_accepted_token_count = cr_accepted_draft_tokens record,
      rd_emitted_token_count = cr_emitted_token_count record, rd_emitted_tokens = cr_emitted_tokens record\<rparr>"

definition compact_completion :: "reserved_state_delta \<Rightarrow> compact_completion_record" where
  "compact_completion d =
     \<lparr>cr_request = rd_request d, cr_epoch = rd_completion_epoch d, cr_plan_id = rd_plan_id d,
      cr_accepted_draft_tokens = rd_accepted_token_count d, cr_emitted_token_count = rd_emitted_token_count d,
      cr_emitted_tokens = rd_emitted_tokens d\<rparr>"

datatype publication_phase = Unpublished | Validated | Published | Discarded

record step_publication =
  pb_plan :: step_plan
  pb_delta :: reserved_state_delta
  pb_phase :: publication_phase

definition reserve_publication :: "step_plan \<Rightarrow> reserved_state_delta \<Rightarrow> step_publication" where
  "reserve_publication plan delta = \<lparr>pb_plan = plan, pb_delta = delta, pb_phase = Unpublished\<rparr>"

record speculative_publication_permit =
  spp_commit :: greedy_commit
  spp_accepted_draft_tokens :: u8

datatype step_publication_error =
    WrongPhase
  | NonTargetPublication
  | WrongValidationMode
  | PubExpectedPlanIdentityAbsent
  | PubRequestMismatch
  | PubCompletionEpochMismatch
  | PubPlanIdentityMismatch
  | PubSelection qwen3_plan_error
  | DeltaAuthorityMismatch
  | PubCompletion compact_completion_error
  | PubSpeculative speculative_completion_error

definition is_target_publication_role :: "qwen3_model_role \<Rightarrow> bool" where
  "is_target_publication_role role = (case role of Target8B \<Rightarrow> True | Draft06B \<Rightarrow> False)"

definition is_direct_publication_mode :: "qwen3_execution_mode \<Rightarrow> bool" where
  "is_direct_publication_mode mode = (case mode of Prefill \<Rightarrow> True | Decode \<Rightarrow> True | Speculative \<Rightarrow> False)"

definition is_speculative_publication_mode :: "qwen3_execution_mode \<Rightarrow> bool" where
  "is_speculative_publication_mode mode = (case mode of Speculative \<Rightarrow> True | Prefill \<Rightarrow> False | Decode \<Rightarrow> False)"

definition validate_step_plan ::
  "step_plan \<Rightarrow> request_id \<Rightarrow> completion_epoch \<Rightarrow> identity \<Rightarrow> qwen3_plan_selection \<Rightarrow> step_publication_error + unit" where
  "validate_step_plan plan expected_request expected_epoch expected_plan_id expected_selection =
     (if \<not> is_present expected_plan_id then Inl PubExpectedPlanIdentityAbsent
      else if slot (sp_request plan) \<noteq> slot expected_request
           \<or> generation (sp_request plan) \<noteq> generation expected_request then Inl PubRequestMismatch
      else if epoch_value (sp_completion_epoch plan) \<noteq> epoch_value expected_epoch then Inl PubCompletionEpochMismatch
      else if \<not> identity_equals (sp_plan_id plan) expected_plan_id then Inl PubPlanIdentityMismatch
      else case selection_validate (sp_selection plan) of
        Inl error \<Rightarrow> Inl (PubSelection error)
      | Inr _ \<Rightarrow>
          (case selection_validate expected_selection of
             Inl error \<Rightarrow> Inl (PubSelection error)
           | Inr _ \<Rightarrow>
               if \<not> selection_matches (sp_selection plan) expected_selection then Inl (PubSelection SelectionMismatch)
               else if \<not> is_target_publication_role (sel_role (sp_selection plan)) then Inl NonTargetPublication
               else Inr ()))"

definition validate_delta_authority :: "reserved_state_delta \<Rightarrow> step_plan \<Rightarrow> step_publication_error + unit" where
  "validate_delta_authority delta plan =
     (if slot (rd_request delta) \<noteq> slot (sp_request plan)
         \<or> generation (rd_request delta) \<noteq> generation (sp_request plan)
         \<or> epoch_value (rd_completion_epoch delta) \<noteq> epoch_value (sp_completion_epoch plan)
         \<or> \<not> identity_equals (rd_plan_id delta) (sp_plan_id plan)
         \<or> \<not> selection_matches (rd_selection delta) (sp_selection plan)
      then Inl DeltaAuthorityMismatch else Inr ())"

definition validate_direct_publication ::
  "step_publication \<Rightarrow> request_id \<Rightarrow> completion_epoch \<Rightarrow> identity \<Rightarrow> qwen3_plan_selection \<Rightarrow>
   ((step_publication_error + unit) \<times> step_publication) exec" where
  "validate_direct_publication p expected_request expected_epoch expected_plan_id expected_selection =
     (if pb_phase p \<noteq> Unpublished then Some (Inl WrongPhase, p)
      else case validate_step_plan (pb_plan p) expected_request expected_epoch expected_plan_id expected_selection of
        Inl error \<Rightarrow> Some (Inl error, p)
      | Inr _ \<Rightarrow>
          if \<not> is_direct_publication_mode (sel_mode (sp_selection (pb_plan p))) then Some (Inl WrongValidationMode, p)
          else case validate_delta_authority (pb_delta p) (pb_plan p) of
            Inl error \<Rightarrow> Some (Inl error, p)
          | Inr _ \<Rightarrow> do {
              completion_result \<leftarrow> validate_compact_completion (compact_completion (pb_delta p)) (sp_request (pb_plan p))
                 (sp_completion_epoch (pb_plan p)) (sp_plan_id (pb_plan p)) 0;
              case completion_result of
                Inl error \<Rightarrow> Some (Inl (PubCompletion error), p)
              | Inr _ \<Rightarrow> Some (Inr (), p\<lparr>pb_phase := Validated\<rparr>) })"

definition preflight_speculative_publication ::
  "step_publication \<Rightarrow> request_id \<Rightarrow> completion_epoch \<Rightarrow> identity \<Rightarrow> qwen3_plan_selection \<Rightarrow> token_id list \<Rightarrow> token_id list \<Rightarrow>
   (step_publication_error + speculative_publication_permit) exec" where
  "preflight_speculative_publication p expected_request expected_epoch expected_plan_id expected_selection draft target =
     (if pb_phase p \<noteq> Unpublished then Some (Inl WrongPhase)
      else case validate_step_plan (pb_plan p) expected_request expected_epoch expected_plan_id expected_selection of
        Inl error \<Rightarrow> Some (Inl error)
      | Inr _ \<Rightarrow>
          if \<not> is_speculative_publication_mode (sel_mode (sp_selection (pb_plan p))) then Some (Inl WrongValidationMode)
          else case validate_delta_authority (pb_delta p) (pb_plan p) of
            Inl error \<Rightarrow> Some (Inl error)
          | Inr _ \<Rightarrow> do {
              let record = compact_completion (pb_delta p);
              verdict \<leftarrow> verify_speculative_completion record (sp_request (pb_plan p)) (sp_completion_epoch (pb_plan p))
                 (sp_plan_id (pb_plan p)) draft target;
              case verdict of
                Inl error \<Rightarrow> Some (Inl (PubSpeculative error))
              | Inr commit \<Rightarrow> Some (Inr \<lparr>spp_commit = commit,
                    spp_accepted_draft_tokens = cr_accepted_draft_tokens record\<rparr>) })"

definition apply_preflighted_speculative_validation ::
  "step_publication \<Rightarrow> speculative_publication_permit \<Rightarrow> greedy_commit \<times> step_publication" where
  "apply_preflighted_speculative_validation p permit = (spp_commit permit, p\<lparr>pb_phase := Validated\<rparr>)"

definition apply_preflighted_speculative_publication ::
  "step_publication \<Rightarrow> speculative_publication_permit \<Rightarrow> reserved_state_delta \<times> step_publication" where
  "apply_preflighted_speculative_publication p permit =
     (let p = p\<lparr>pb_phase := Validated\<rparr>; p = p\<lparr>pb_phase := Published\<rparr> in (pb_delta p, p))"

definition validate_speculative_publication ::
  "step_publication \<Rightarrow> request_id \<Rightarrow> completion_epoch \<Rightarrow> identity \<Rightarrow> qwen3_plan_selection \<Rightarrow> token_id list \<Rightarrow> token_id list \<Rightarrow>
   ((step_publication_error + greedy_commit) \<times> step_publication) exec" where
  "validate_speculative_publication p expected_request expected_epoch expected_plan_id expected_selection draft target = do {
     verdict \<leftarrow> preflight_speculative_publication p expected_request expected_epoch expected_plan_id expected_selection
        draft target;
     case verdict of
       Inl error \<Rightarrow> Some (Inl error, p)
     | Inr permit \<Rightarrow>
         (let (commit, p') = apply_preflighted_speculative_validation p permit in Some (Inr commit, p')) }"

definition publish_reserved_delta ::
  "step_publication \<Rightarrow> (step_publication_error + reserved_state_delta) \<times> step_publication" where
  "publish_reserved_delta p =
     (if pb_phase p \<noteq> Validated then (Inl WrongPhase, p) else (Inr (pb_delta p), p\<lparr>pb_phase := Published\<rparr>))"

definition discard_reserved_delta ::
  "step_publication \<Rightarrow> (step_publication_error + reserved_state_delta) \<times> step_publication" where
  "discard_reserved_delta p =
     (if pb_phase p \<noteq> Unpublished \<and> pb_phase p \<noteq> Validated then (Inl WrongPhase, p)
      else (Inr (pb_delta p), p\<lparr>pb_phase := Discarded\<rparr>))"

subsection \<open>The publication as a machine\<close>

datatype publication_op =
    PubDirect request_id completion_epoch identity qwen3_plan_selection
  | PubSpec request_id completion_epoch identity qwen3_plan_selection "token_id list" "token_id list"
  | PubPublish
  | PubDiscard

datatype publication_reply =
    PubValidated | PubCommitted greedy_commit | PubPublished reserved_state_delta | PubDiscarded reserved_state_delta

definition publication_step ::
  "publication_op \<Rightarrow> step_publication \<Rightarrow> ((step_publication_error + publication_reply) \<times> step_publication) exec" where
  "publication_step x p =
     (case x of
        PubDirect r e i s \<Rightarrow> map_option (map_prod (map_sum id (\<lambda>_. PubValidated)) id) (validate_direct_publication p r e i s)
      | PubSpec r e i s draft target \<Rightarrow>
          map_option (map_prod (map_sum id PubCommitted) id) (validate_speculative_publication p r e i s draft target)
      | PubPublish \<Rightarrow> Some (map_prod (map_sum id PubPublished) id (publish_reserved_delta p))
      | PubDiscard \<Rightarrow> Some (map_prod (map_sum id PubDiscarded) id (discard_reserved_delta p)))"

text \<open>What a validated delta is: the canonical record of one commit of the plan's request, epoch and identity, for
  the target role, with every token in the vocabulary.  In the speculative modes the commit is that of a greedy
  round; in the direct modes it is one token.\<close>

definition effect_ok :: "step_plan \<Rightarrow> reserved_state_delta \<Rightarrow> bool" where
  "effect_ok plan delta \<longleftrightarrow>
     is_present (sp_plan_id plan) \<and> sel_role (sp_selection plan) = Target8B \<and> rd_selection delta = sp_selection plan
     \<and> bucket_dimensions (sel_bucket (sp_selection plan)) Target8B (sel_mode (sp_selection plan)) \<noteq> None
     \<and> (\<exists>c. compact_completion delta = canonical_record (sp_request plan) (sp_completion_epoch plan) (sp_plan_id plan) c
          \<and> (\<forall>t \<in> set (gc_emitted_tokens c). t < QWEN3_VOCABULARY_SIZE)
          \<and> (if sel_mode (sp_selection plan) = Speculative
             then \<exists>draft target. length draft \<le> 16 \<and> verify_greedy_round draft target = Some (Inr c)
             else gc_accepted_draft_tokens c = 0 \<and> length (gc_emitted_tokens c) = 1))"

definition publication_inv :: "step_publication \<Rightarrow> bool" where
  "publication_inv p \<longleftrightarrow> identity_wf (sp_plan_id (pb_plan p)) \<and> record_wf (compact_completion (pb_delta p))
     \<and> (pb_phase p \<in> {Validated, Published} \<longrightarrow> effect_ok (pb_plan p) (pb_delta p))"

lemma validate_step_plan_Inr:
  "validate_step_plan plan r e i s = Inr x \<Longrightarrow> sel_role (sp_selection plan) = Target8B
     \<and> bucket_dimensions (sel_bucket (sp_selection plan)) Target8B (sel_mode (sp_selection plan)) \<noteq> None"
  by (auto simp: validate_step_plan_def is_target_publication_role_def split: if_splits sum.splits qwen3_model_role.splits)

lemma validate_delta_authority_Inr:
  "validate_delta_authority delta plan = Inr x \<Longrightarrow> rd_selection delta = sp_selection plan"
  by (auto simp: validate_delta_authority_def split: if_splits)

lemma direct_record:
  assumes "record_wf r" "identity_wf plan" "validate_compact_completion r req ep plan 0 = Some (Inr u)"
  shows "is_present plan" "\<exists>t. t < QWEN3_VOCABULARY_SIZE \<and>
    r = canonical_record req ep plan \<lparr>gc_accepted_draft_tokens = 0, gc_emitted_tokens = [t], gc_target_correction_or_bonus = t\<rparr>"
proof -
  have u: "u = ()" by simp
  note v = validate_compact_completion_iff(2) [OF assms(1,2), of req ep 0, THEN iffD1, OF assms(3) [unfolded u]]
  then show "is_present plan" by simp
  let ?c = "\<lambda>t. \<lparr>gc_accepted_draft_tokens = 0, gc_emitted_tokens = [t], gc_target_correction_or_bonus = t\<rparr>"
  obtain t ts where ts: "cr_emitted_tokens r = t # ts"
    using assms(1) by (cases "cr_emitted_tokens r") (auto simp: record_wf_def M1_MAX_COMPLETION_TOKENS_def)
  have n: "cr_emitted_token_count r = 1" "cr_accepted_draft_tokens r = 0" using v by simp_all
  have pay: "payload_ok (t # ts) 1" using v ts n by simp
  have "ts = replicate (length ts) 0"
    by (rule replicate_eqI) (use pay in \<open>auto simp: payload_ok_def\<close>)
  moreover have "length ts = M1_MAX_COMPLETION_TOKENS - 1" using assms(1) ts by (auto simp: record_wf_def)
  ultimately have "cr_emitted_tokens r = [t] @ replicate (M1_MAX_COMPLETION_TOKENS - 1) 0" using ts by simp
  then have "r = canonical_record req ep plan (?c t)" using v n by (simp add: canonical_record_def)
  moreover have "t < QWEN3_VOCABULARY_SIZE" using pay by (simp add: payload_ok_def)
  ultimately show "\<exists>t. t < QWEN3_VOCABULARY_SIZE \<and> r = canonical_record req ep plan (?c t)" by blast
qed

text \<open>The two validators return; they either refuse and change nothing or establish the effect and only advance the phase.\<close>

lemma validate_direct_cases:
  assumes "publication_inv p"
  obtains e where "validate_direct_publication p r ep i s = Some (Inl e, p)"
  | "validate_direct_publication p r ep i s = Some (Inr (), p\<lparr>pb_phase := Validated\<rparr>)" "pb_phase p = Unpublished"
    "effect_ok (pb_plan p) (pb_delta p)"
proof -
  let ?plan = "pb_plan p" and ?d = "pb_delta p"
  have wf: "record_wf (compact_completion ?d)" "identity_wf (sp_plan_id ?plan)" using assms by (simp_all add: publication_inv_def)
  let ?v = "validate_compact_completion (compact_completion ?d) (sp_request ?plan) (sp_completion_epoch ?plan) (sp_plan_id ?plan) 0"
  obtain a where a: "?v = Some a" using validate_compact_completion_iff(1) [OF wf] by blast
  consider (refused) e where "validate_direct_publication p r ep i s = Some (Inl e, p)"
    | (passed) "pb_phase p = Unpublished" "validate_step_plan ?plan r ep i s = Inr ()"
      "is_direct_publication_mode (sel_mode (sp_selection ?plan))" "validate_delta_authority ?d ?plan = Inr ()" "?v = Some (Inr ())"
    by (cases "pb_phase p = Unpublished"; cases "validate_step_plan ?plan r ep i s";
        cases "is_direct_publication_mode (sel_mode (sp_selection ?plan))"; cases "validate_delta_authority ?d ?plan"; cases a)
       (simp_all add: validate_direct_publication_def a)
  then show thesis
  proof cases
    case passed
    have "effect_ok ?plan ?d"
      using validate_step_plan_Inr [OF passed(2)] validate_delta_authority_Inr [OF passed(4)] direct_record [OF wf passed(5)] passed(3)
      by (auto simp: effect_ok_def is_direct_publication_mode_def split: qwen3_execution_mode.splits)
    then show thesis using passed that(2) by (simp add: validate_direct_publication_def)
  qed (rule that(1))
qed

lemma validate_speculative_cases:
  assumes "publication_inv p"
  obtains e where "validate_speculative_publication p r ep i s draft target = Some (Inl e, p)"
  | c where "validate_speculative_publication p r ep i s draft target = Some (Inr c, p\<lparr>pb_phase := Validated\<rparr>)"
    "pb_phase p = Unpublished" "effect_ok (pb_plan p) (pb_delta p)"
    "compact_completion (pb_delta p) =
       canonical_record (sp_request (pb_plan p)) (sp_completion_epoch (pb_plan p)) (sp_plan_id (pb_plan p)) c"
    "verify_greedy_round draft target = Some (Inr c)"
proof -
  let ?plan = "pb_plan p" and ?d = "pb_delta p"
  have wf: "record_wf (compact_completion ?d)" "identity_wf (sp_plan_id ?plan)" using assms by (simp_all add: publication_inv_def)
  let ?v = "verify_speculative_completion (compact_completion ?d) (sp_request ?plan) (sp_completion_epoch ?plan)
      (sp_plan_id ?plan) draft target"
  note exact = verify_speculative_completion_exact [OF wf, of "sp_request ?plan" "sp_completion_epoch ?plan" draft target]
  obtain a where a: "?v = Some a" using exact by blast
  consider (refused) e where "validate_speculative_publication p r ep i s draft target = Some (Inl e, p)"
    | (passed) c where "pb_phase p = Unpublished" "validate_step_plan ?plan r ep i s = Inr ()"
      "is_speculative_publication_mode (sel_mode (sp_selection ?plan))" "validate_delta_authority ?d ?plan = Inr ()"
      "?v = Some (Inr c)"
    by (cases "pb_phase p = Unpublished"; cases "validate_step_plan ?plan r ep i s";
        cases "is_speculative_publication_mode (sel_mode (sp_selection ?plan))"; cases "validate_delta_authority ?d ?plan"; cases a)
       (simp_all add: validate_speculative_publication_def preflight_speculative_publication_def Let_def a)
  then show thesis
  proof cases
    case passed
    have mode: "sel_mode (sp_selection ?plan) = Speculative"
      using passed(3) by (simp add: is_speculative_publication_mode_def split: qwen3_execution_mode.splits)
    note c = exact [of c, THEN conjunct2, THEN iffD1, OF passed(5)]
    have "effect_ok ?plan ?d"
      using validate_step_plan_Inr [OF passed(2)] validate_delta_authority_Inr [OF passed(4)] mode c
      by (auto simp: effect_ok_def)
    then show thesis using passed c that(2) [of c]
      by (simp add: validate_speculative_publication_def preflight_speculative_publication_def Let_def
          apply_preflighted_speculative_validation_def)
  qed (rule that(1))
qed

lemma publication_step_cases:
  assumes "publication_inv p"
  obtains e where "publication_step x p = Some (Inl e, p)"
  | y where "publication_step x p = Some (Inr y, p\<lparr>pb_phase := Validated\<rparr>)" "pb_phase p = Unpublished"
    "effect_ok (pb_plan p) (pb_delta p)" "y \<in> {PubValidated} \<union> range PubCommitted"
  | "publication_step x p = Some (Inr (PubPublished (pb_delta p)), p\<lparr>pb_phase := Published\<rparr>)" "pb_phase p = Validated"
  | "publication_step x p = Some (Inr (PubDiscarded (pb_delta p)), p\<lparr>pb_phase := Discarded\<rparr>)"
    "pb_phase p \<in> {Unpublished, Validated}"
proof (cases x)
  case (PubDirect r e i s)
  with assms that(1) that(2) [of PubValidated] show thesis
    by (elim validate_direct_cases [of p r e i s]) (simp_all add: publication_step_def)
next
  case (PubSpec r e i s draft target)
  with assms that(1,2) show thesis
    by (elim validate_speculative_cases [of p r e i s draft target]) (simp_all add: publication_step_def)
next
  case PubPublish
  with that(1) [of WrongPhase] that(3) show thesis
    by (cases "pb_phase p = Validated") (simp_all add: publication_step_def publish_reserved_delta_def)
next
  case PubDiscard
  with that(1) [of WrongPhase] that(4) show thesis
    by (cases "pb_phase p \<in> {Unpublished, Validated}") (simp_all add: publication_step_def discard_reserved_delta_def)
qed

interpretation publication: transactional_machine publication_inv publication_step
proof unfold_locales
  fix p x assume inv: "publication_inv p"
  show "publication_step x p \<noteq> None" by (rule publication_step_cases [OF inv, of x]) simp_all
next
  fix p x r p' assume inv: "publication_inv p" and s: "publication_step x p = Some (r, p')"
  show "publication_inv p'"
    by (rule publication_step_cases [OF inv, of x]) (use inv s in \<open>auto simp: publication_inv_def\<close>)
next
  fix p x e p' assume inv: "publication_inv p" and s: "publication_step x p = Some (Inl e, p')"
  show "p' = p" by (rule publication_step_cases [OF inv, of x]) (use s in auto)
qed

subsection \<open>One shot\<close>

text \<open>A history of calls with their replies, latest first.\<close>

inductive publication_history ::
  "step_publication \<Rightarrow> (publication_op \<times> (step_publication_error + publication_reply)) list \<Rightarrow> step_publication \<Rightarrow> bool"
  for p0 where
  reserved: "publication_history p0 [] p0"
| called: "publication_history p0 h p \<Longrightarrow> publication_step x p = Some (r, p') \<Longrightarrow> publication_history p0 ((x, r) # h) p'"

definition settles :: "publication_op \<times> (step_publication_error + publication_reply) \<Rightarrow> bool" where
  "settles c = (\<exists>d. snd c \<in> {Inr (PubPublished d), Inr (PubDiscarded d)})"

lemma publication_history_inv:
  assumes "publication_history p0 h p" "publication_inv p0" "pb_phase p0 = Unpublished"
  shows "publication_inv p \<and> pb_plan p = pb_plan p0 \<and> pb_delta p = pb_delta p0
    \<and> length (filter settles h) = (if pb_phase p \<in> {Published, Discarded} then 1 else 0)
    \<and> (\<forall>x d. (x, Inr (PubPublished d)) \<in> set h \<longrightarrow> d = pb_delta p0 \<and> pb_phase p = Published)"
  using assms
proof (induction rule: publication_history.induct)
  case (called h p x r p')
  then have IH: "publication_inv p" "pb_plan p = pb_plan p0" "pb_delta p = pb_delta p0"
    "length (filter settles h) = (if pb_phase p \<in> {Published, Discarded} then 1 else 0)"
    "\<forall>x d. (x, Inr (PubPublished d)) \<in> set h \<longrightarrow> d = pb_delta p0 \<and> pb_phase p = Published" by auto
  have "publication_inv p'" using publication.step_inv IH(1) called.hyps(2) .
  moreover have "settles (x, r) \<longleftrightarrow> pb_phase p' \<in> {Published, Discarded} \<and> pb_phase p \<notin> {Published, Discarded}"
    "pb_phase p \<in> {Published, Discarded} \<Longrightarrow> p' = p" "pb_plan p' = pb_plan p" "pb_delta p' = pb_delta p"
    "\<And>d. r = Inr (PubPublished d) \<Longrightarrow> d = pb_delta p \<and> pb_phase p' = Published"
    "pb_phase p = Published \<Longrightarrow> pb_phase p' = Published"
    using called.hyps(2) by (rule_tac publication_step_cases [OF IH(1), of x]; force simp: settles_def)+
  ultimately show ?case using IH by auto
qed simp


definition demo_plan :: step_plan where
  "demo_plan = \<lparr>sp_request = request_id_new 0 1, sp_completion_epoch = \<lparr>epoch_value = 1\<rparr>, sp_plan_id = Identity (replicate 32 7),
     sp_selection = \<lparr>sel_role = Target8B, sel_mode = Decode, sel_bucket = DecodeS1C8192\<rparr>\<rparr>"

definition demo_delta :: reserved_state_delta where
  "demo_delta = from_compact_completion (canonical_record (request_id_new 0 1) \<lparr>epoch_value = 1\<rparr> (Identity (replicate 32 7))
     \<lparr>gc_accepted_draft_tokens = 0, gc_emitted_tokens = [5], gc_target_correction_or_bonus = 5\<rparr>) (sp_selection demo_plan)"

lemma demo_publication_wf: "identity_wf (sp_plan_id demo_plan)" "record_wf (compact_completion demo_delta)"
  by (simp_all add: demo_plan_def demo_delta_def identity_wf_def record_wf_def compact_completion_def from_compact_completion_def
      canonical_record_def M1_MAX_COMPLETION_TOKENS_def)

lemma demo_published:
  "publication_history (reserve_publication demo_plan demo_delta)
     [(PubPublish, Inr (PubPublished demo_delta)),
      (PubDirect (sp_request demo_plan) (sp_completion_epoch demo_plan) (sp_plan_id demo_plan) (sp_selection demo_plan),
       Inr PubValidated)]
     ((reserve_publication demo_plan demo_delta)\<lparr>pb_phase := Published\<rparr>)"
proof -
  let ?p = "reserve_publication demo_plan demo_delta"
  have "validate_compact_completion (compact_completion demo_delta) (sp_request demo_plan) (sp_completion_epoch demo_plan)
      (sp_plan_id demo_plan) 0 = Some (Inr ())"
    by (subst validate_compact_completion_iff [OF demo_publication_wf(2,1)])
       (simp add: demo_plan_def demo_delta_def compact_completion_def from_compact_completion_def canonical_record_def
        payload_ok_def QWEN3_VOCABULARY_SIZE_def is_present_def is_present_loop_iff)
  then have "publication_step (PubDirect (sp_request demo_plan) (sp_completion_epoch demo_plan) (sp_plan_id demo_plan)
      (sp_selection demo_plan)) ?p = Some (Inr PubValidated, ?p\<lparr>pb_phase := Validated\<rparr>)"
    by (simp add: publication_step_def validate_direct_publication_def reserve_publication_def validate_step_plan_def
        validate_delta_authority_def demo_plan_def demo_delta_def from_compact_completion_def canonical_record_def
        is_present_def is_present_loop_iff identity_equals_def equals_loop_iff selection_validate_def plan_dims_def
        is_target_publication_role_def is_direct_publication_mode_def)
  from publication_history.called [OF publication_history.reserved this]
  show ?thesis
    by (rule publication_history.called)
       (simp add: publication_step_def publish_reserved_delta_def reserve_publication_def)
qed


end
