(* ===== verification/Qualification.thy ===== *)
theory Qualification
  imports Plan
begin

text \<open>
  The context plan of a qualification run (\<^verbatim>\<open>ferric-spec/src/m1_qualification_context.rs\<close>): 8191 teacher-forced steps
  that commit a prompt token and publish nothing, and one final step that publishes one output per lane.
\<close>

subsection \<open>The model\<close>

definition M1_QUALIFICATION_CONTEXT_PLAN_VERSION :: u32 where "M1_QUALIFICATION_CONTEXT_PLAN_VERSION = 1"
definition M1_QUALIFICATION_TOKENS_PER_LANE :: u32 where "M1_QUALIFICATION_TOKENS_PER_LANE = 8192"
definition M1_QUALIFICATION_PROMPT_CONTEXT_TOKENS :: u32 where "M1_QUALIFICATION_PROMPT_CONTEXT_TOKENS = 8191"
definition M1_QUALIFICATION_CONTEXT_PLAN_STEPS :: usize where "M1_QUALIFICATION_CONTEXT_PLAN_STEPS = 8192"

datatype lane_grouping = S1 | S8 | S32

definition grouping_sequences :: "lane_grouping \<Rightarrow> u32" where
  "grouping_sequences g = (case g of S1 \<Rightarrow> 1 | S8 \<Rightarrow> 8 | S32 \<Rightarrow> 32)"

record lane_execution_binding =
  lb_lane_ordinal :: u32
  lb_lane_identity :: identity
  lb_token_sequence_identity :: identity

record execution_binding =
  eb_declared_workload_digest :: identity
  eb_ordered_lanes :: "lane_execution_binding list"

record token_range =
  tr_start :: u32
  tr_stop :: u32

datatype context_step_kind = TeacherForcedPromptContext | FinalObserved

definition externally_emitted_outputs_per_lane :: "context_step_kind \<Rightarrow> u32" where
  "externally_emitted_outputs_per_lane kind = (case kind of TeacherForcedPromptContext \<Rightarrow> 0 | FinalObserved \<Rightarrow> 1)"

datatype compact_choice_disposition = ObservedButSuppressed | ObservedAndPublished

datatype next_input_policy = IndependentTeacherForcedPrompt | CompactChoiceFeedback | Terminal

record context_step =
  cs_kind :: context_step_kind
  cs_input_tokens :: token_range
  cs_prompt_context_commits :: token_range
  cs_compact_choice :: compact_choice_disposition
  cs_next_input :: next_input_policy
  cs_externally_emitted_outputs_per_lane :: u32
  cs_aggregate_externally_emitted_output_count :: u32
  cs_qualification_capture_destination_required :: bool
  cs_publish_qualification_output_to_host :: bool

record context_plan =
  cp_version :: u32
  cp_plan_id :: identity
  cp_grouping :: lane_grouping
  cp_execution_binding :: execution_binding
  cp_tokens_per_lane :: u32
  cp_steps :: "context_step list"

datatype context_plan_error =
    UnsupportedVersion | GroupingMismatch | ContextPlanIdentityMismatch
  | WorkloadDigestAbsent | ExpectedWorkloadDigestAbsent | WorkloadDigestMismatch
  | LaneBindingCount u32 usize | ExpectedLaneBindingCount u32 usize
  | LaneOrdinal u32 u32 | ExpectedLaneOrdinal u32 u32
  | LaneIdentityAbsent u32 | ExpectedLaneIdentityAbsent u32 | LaneIdentityMismatch u32
  | TokenSequenceIdentityAbsent u32 | ExpectedTokenSequenceIdentityAbsent u32 | TokenSequenceIdentityMismatch u32
  | TokensPerLane u32 u32 | StepCount usize usize | StepKind u32
  | TokenCoverageStart u32 u32 u32 | TokenCoverageEnd u32 u32 u32 | PromptCommitMismatch u32
  | CompactChoiceDisposition u32 | NextInputPolicy u32 | ExternallyEmittedOutputsPerLane u32
  | AggregateExternallyEmittedOutputCount u32 | QualificationCaptureDestinationRequired u32 | HostPublicationPolicy u32

definition lane_validate_exact_match_at ::
  "lane_execution_binding \<Rightarrow> u32 \<Rightarrow> lane_execution_binding \<Rightarrow> context_plan_error + unit" where
  "lane_validate_exact_match_at this ordinal expected =
     (if lb_lane_ordinal this \<noteq> ordinal then Inl (LaneOrdinal ordinal (lb_lane_ordinal this))
      else if lb_lane_ordinal expected \<noteq> ordinal then Inl (ExpectedLaneOrdinal ordinal (lb_lane_ordinal expected))
      else if \<not> is_present (lb_lane_identity this) then Inl (LaneIdentityAbsent ordinal)
      else if \<not> is_present (lb_lane_identity expected) then Inl (ExpectedLaneIdentityAbsent ordinal)
      else if \<not> identity_equals (lb_lane_identity this) (lb_lane_identity expected) then Inl (LaneIdentityMismatch ordinal)
      else if \<not> is_present (lb_token_sequence_identity this) then Inl (TokenSequenceIdentityAbsent ordinal)
      else if \<not> is_present (lb_token_sequence_identity expected) then Inl (ExpectedTokenSequenceIdentityAbsent ordinal)
      else if \<not> identity_equals (lb_token_sequence_identity this) (lb_token_sequence_identity expected)
        then Inl (TokenSequenceIdentityMismatch ordinal)
      else Inr ())"

fun validate_lanes ::
  "nat \<Rightarrow> u32 \<Rightarrow> lane_execution_binding list \<Rightarrow> lane_execution_binding list \<Rightarrow> (context_plan_error + unit) exec" where
  "validate_lanes 0 lane these expected = Some (Inr ())"
| "validate_lanes (Suc n) lane these expected = do {
     a \<leftarrow> idx these lane;
     b \<leftarrow> idx expected lane;
     case lane_validate_exact_match_at a lane b of
       Inl e \<Rightarrow> Some (Inl e)
     | Inr _ \<Rightarrow> do { lane' \<leftarrow> u32_add lane 1; validate_lanes n lane' these expected } }"

definition binding_validate_exact_match_for ::
  "execution_binding \<Rightarrow> lane_grouping \<Rightarrow> execution_binding \<Rightarrow> (context_plan_error + unit) exec" where
  "binding_validate_exact_match_for this grouping expected =
     (if \<not> is_present (eb_declared_workload_digest this) then Some (Inl WorkloadDigestAbsent)
      else if \<not> is_present (eb_declared_workload_digest expected) then Some (Inl ExpectedWorkloadDigestAbsent)
      else if \<not> identity_equals (eb_declared_workload_digest this) (eb_declared_workload_digest expected)
        then Some (Inl WorkloadDigestMismatch)
      else let expected_lane_count = grouping_sequences grouping in
        if length (eb_ordered_lanes this) \<noteq> expected_lane_count
          then Some (Inl (LaneBindingCount expected_lane_count (length (eb_ordered_lanes this))))
        else if length (eb_ordered_lanes expected) \<noteq> expected_lane_count
          then Some (Inl (ExpectedLaneBindingCount expected_lane_count (length (eb_ordered_lanes expected))))
        else validate_lanes expected_lane_count 0 (eb_ordered_lanes this) (eb_ordered_lanes expected))"

definition context_plan_identity :: "lane_grouping \<Rightarrow> identity" where
  "context_plan_identity grouping = Identity
     (case grouping of
        S1 \<Rightarrow> [0x63, 0x8e, 0x01, 0xd1, 0x41, 0x9e, 0xb8, 0xc4, 0xa4, 0xa3, 0x22, 0x98, 0xf2, 0x38, 0xdc, 0x26,
               0xb9, 0x4c, 0x8e, 0x08, 0xda, 0xc8, 0x4e, 0x91, 0xf2, 0x5c, 0xc5, 0x8d, 0xa8, 0x03, 0x82, 0x5c]
      | S8 \<Rightarrow> [0x45, 0x03, 0x2d, 0xb1, 0xe3, 0x2f, 0x59, 0x7d, 0x56, 0xd4, 0xa3, 0x37, 0xae, 0xe9, 0x4f, 0x04,
               0xd9, 0xf4, 0x49, 0xd9, 0x37, 0x3f, 0x2e, 0xd3, 0x76, 0xe0, 0xf4, 0x49, 0x3e, 0x9c, 0x6b, 0x0d]
      | S32 \<Rightarrow> [0x7c, 0xb3, 0x75, 0x11, 0xa5, 0xa4, 0x66, 0x87, 0x9f, 0x36, 0xfc, 0x0b, 0x2a, 0x4b, 0x22, 0x17,
                0x91, 0xfa, 0x7a, 0xdf, 0xf8, 0x11, 0x8e, 0x47, 0x58, 0x89, 0xc0, 0x21, 0x75, 0x30, 0x74, 0x86])"

definition step_validate_at :: "context_step \<Rightarrow> u32 \<Rightarrow> u32 \<Rightarrow> (context_plan_error + unit) exec" where
  "step_validate_at this ordinal sequences =
     (if M1_QUALIFICATION_TOKENS_PER_LANE \<le> ordinal
      then Some (Inl (StepCount M1_QUALIFICATION_CONTEXT_PLAN_STEPS (M1_QUALIFICATION_CONTEXT_PLAN_STEPS + 1)))
      else do {
        let priming = ordinal < M1_QUALIFICATION_PROMPT_CONTEXT_TOKENS;
        let expected_kind = (if priming then TeacherForcedPromptContext else FinalObserved);
        let expected_compact_choice = (if priming then ObservedButSuppressed else ObservedAndPublished);
        let expected_next_input = (if priming then IndependentTeacherForcedPrompt else Terminal);
        let expected_outputs_per_lane = externally_emitted_outputs_per_lane expected_kind;
        let expected_aggregate_outputs = (if priming then 0 else sequences);
        expected_end \<leftarrow> u32_add ordinal 1;
        Some
          (if cs_kind this \<noteq> expected_kind then Inl (StepKind ordinal)
           else if tr_start (cs_input_tokens this) \<noteq> ordinal
             then Inl (TokenCoverageStart ordinal ordinal (tr_start (cs_input_tokens this)))
           else if tr_stop (cs_input_tokens this) \<noteq> expected_end
             then Inl (TokenCoverageEnd ordinal expected_end (tr_stop (cs_input_tokens this)))
           else if \<not> (tr_start (cs_prompt_context_commits this) = tr_start (cs_input_tokens this)
                    \<and> tr_stop (cs_prompt_context_commits this) = tr_stop (cs_input_tokens this))
             then Inl (PromptCommitMismatch ordinal)
           else if cs_compact_choice this \<noteq> expected_compact_choice then Inl (CompactChoiceDisposition ordinal)
           else if cs_next_input this \<noteq> expected_next_input then Inl (NextInputPolicy ordinal)
           else if cs_externally_emitted_outputs_per_lane this \<noteq> expected_outputs_per_lane
             then Inl (ExternallyEmittedOutputsPerLane ordinal)
           else if cs_aggregate_externally_emitted_output_count this \<noteq> expected_aggregate_outputs
             then Inl (AggregateExternallyEmittedOutputCount ordinal)
           else if \<not> cs_qualification_capture_destination_required this
             then Inl (QualificationCaptureDestinationRequired ordinal)
           else if cs_publish_qualification_output_to_host this \<noteq> (\<not> priming) then Inl (HostPublicationPolicy ordinal)
           else Inr ()) })"

fun validate_steps :: "nat \<Rightarrow> u32 \<Rightarrow> context_step list \<Rightarrow> u32 \<Rightarrow> (context_plan_error + unit) exec" where
  "validate_steps 0 ordinal steps sequences = Some (Inr ())"
| "validate_steps (Suc n) ordinal steps sequences = do {
     s \<leftarrow> idx steps ordinal;
     v \<leftarrow> step_validate_at s ordinal sequences;
     case v of
       Inl e \<Rightarrow> Some (Inl e)
     | Inr _ \<Rightarrow> do { ordinal' \<leftarrow> u32_add ordinal 1; validate_steps n ordinal' steps sequences } }"

definition context_plan_validate ::
  "context_plan \<Rightarrow> lane_grouping \<Rightarrow> execution_binding \<Rightarrow> (context_plan_error + unit) exec" where
  "context_plan_validate plan expected_grouping expected_execution_binding =
     (if cp_version plan \<noteq> M1_QUALIFICATION_CONTEXT_PLAN_VERSION then Some (Inl UnsupportedVersion)
      else if cp_grouping plan \<noteq> expected_grouping then Some (Inl GroupingMismatch)
      else if \<not> identity_equals (cp_plan_id plan) (context_plan_identity expected_grouping)
        then Some (Inl ContextPlanIdentityMismatch)
      else do {
        v \<leftarrow> binding_validate_exact_match_for (cp_execution_binding plan) expected_grouping expected_execution_binding;
        case v of
          Inl e \<Rightarrow> Some (Inl e)
        | Inr _ \<Rightarrow>
            if cp_tokens_per_lane plan \<noteq> M1_QUALIFICATION_TOKENS_PER_LANE
              then Some (Inl (TokensPerLane M1_QUALIFICATION_TOKENS_PER_LANE (cp_tokens_per_lane plan)))
            else if length (cp_steps plan) \<noteq> M1_QUALIFICATION_CONTEXT_PLAN_STEPS
              then Some (Inl (StepCount M1_QUALIFICATION_CONTEXT_PLAN_STEPS (length (cp_steps plan))))
            else validate_steps M1_QUALIFICATION_TOKENS_PER_LANE 0 (cp_steps plan) (grouping_sequences expected_grouping) })"

definition plan_step_at :: "u32 \<Rightarrow> u32 \<Rightarrow> context_step exec" where
  "plan_step_at ordinal sequences = do {
     let priming = ordinal < M1_QUALIFICATION_PROMPT_CONTEXT_TOKENS;
     let kind = (if priming then TeacherForcedPromptContext else FinalObserved);
     stop1 \<leftarrow> u32_add ordinal 1;
     stop2 \<leftarrow> u32_add ordinal 1;
     Some \<lparr>cs_kind = kind, cs_input_tokens = \<lparr>tr_start = ordinal, tr_stop = stop1\<rparr>,
       cs_prompt_context_commits = \<lparr>tr_start = ordinal, tr_stop = stop2\<rparr>,
       cs_compact_choice = (if priming then ObservedButSuppressed else ObservedAndPublished),
       cs_next_input = (if priming then IndependentTeacherForcedPrompt else Terminal),
       cs_externally_emitted_outputs_per_lane = externally_emitted_outputs_per_lane kind,
       cs_aggregate_externally_emitted_output_count = (if priming then 0 else sequences),
       cs_qualification_capture_destination_required = True,
       cs_publish_qualification_output_to_host = (\<not> priming)\<rparr> }"

fun plan_steps :: "nat \<Rightarrow> u32 \<Rightarrow> u32 \<Rightarrow> context_step list \<Rightarrow> context_step list exec" where
  "plan_steps 0 ordinal sequences steps = Some steps"
| "plan_steps (Suc n) ordinal sequences steps = do {
     s \<leftarrow> plan_step_at ordinal sequences;
     ordinal' \<leftarrow> u32_add ordinal 1;
     plan_steps n ordinal' sequences (steps @ [s]) }"

definition m1_qualification_context_plan :: "lane_grouping \<Rightarrow> execution_binding \<Rightarrow> context_plan exec" where
  "m1_qualification_context_plan grouping execution_binding = do {
     steps \<leftarrow> plan_steps M1_QUALIFICATION_TOKENS_PER_LANE 0 (grouping_sequences grouping) [];
     Some \<lparr>cp_version = M1_QUALIFICATION_CONTEXT_PLAN_VERSION, cp_plan_id = context_plan_identity grouping,
       cp_grouping = grouping, cp_execution_binding = execution_binding,
       cp_tokens_per_lane = M1_QUALIFICATION_TOKENS_PER_LANE, cp_steps = steps\<rparr> }"

subsection \<open>Validation and construction\<close>

definition lane_complete :: "nat \<Rightarrow> lane_execution_binding \<Rightarrow> bool" where
  "lane_complete i l \<longleftrightarrow> lb_lane_ordinal l = i \<and> is_present (lb_lane_identity l) \<and> is_present (lb_token_sequence_identity l)"

definition binding_complete :: "lane_grouping \<Rightarrow> execution_binding \<Rightarrow> bool" where
  "binding_complete g b \<longleftrightarrow> is_present (eb_declared_workload_digest b) \<and> length (eb_ordered_lanes b) = grouping_sequences g
     \<and> (\<forall>i < grouping_sequences g. lane_complete i (eb_ordered_lanes b ! i))"

definition lane_wf :: "lane_execution_binding \<Rightarrow> bool" where
  "lane_wf l \<longleftrightarrow> identity_wf (lb_lane_identity l) \<and> identity_wf (lb_token_sequence_identity l)"

definition binding_wf :: "execution_binding \<Rightarrow> bool" where
  "binding_wf b \<longleftrightarrow> identity_wf (eb_declared_workload_digest b) \<and> (\<forall>l \<in> set (eb_ordered_lanes b). lane_wf l)"

lemma grouping_sequences_bounds: "1 \<le> grouping_sequences g" "grouping_sequences g \<le> 32"
  by (simp_all add: grouping_sequences_def split: lane_grouping.split)

lemma lane_match_iff:
  assumes "lane_wf a" "lane_wf b"
  shows "lane_validate_exact_match_at a i b = Inr () \<longleftrightarrow> lane_complete i b \<and> a = b"
  using assms by (cases a; cases b)
    (auto simp: lane_validate_exact_match_at_def lane_complete_def lane_wf_def identity_equals_iff)

lemma validate_lanes_iff:
  assumes "k + n = length as" "length bs = length as" "length as \<le> 32" "\<forall>l \<in> set as. lane_wf l" "\<forall>l \<in> set bs. lane_wf l"
  shows "validate_lanes n k as bs \<noteq> None \<and>
    (validate_lanes n k as bs = Some (Inr ()) \<longleftrightarrow> (\<forall>i \<in> {k..<length as}. lane_complete i (bs ! i) \<and> as ! i = bs ! i))"
  using assms(1)
proof (induction n arbitrary: k)
  case (Suc n)
  then have k: "k < length as" by simp
  have wf: "lane_wf (as ! k)" "lane_wf (bs ! k)" using assms(2,4,5) k by simp_all
  have split: "{k..<length as} = insert k {Suc k..<length as}" using k by auto
  show ?case using Suc.IH [of "Suc k"] Suc.prems k assms(2,3) lane_match_iff [OF wf, of k]
    by (cases "lane_validate_exact_match_at (as ! k) k (bs ! k)") (auto simp: exec_simps split)
qed simp

lemma binding_match_iff:
  assumes "binding_wf a" "binding_wf b"
  shows "binding_validate_exact_match_for a g b \<noteq> None \<and>
    (binding_validate_exact_match_for a g b = Some (Inr ()) \<longleftrightarrow> binding_complete g b \<and> a = b)"
proof (cases "length (eb_ordered_lanes a) = grouping_sequences g \<and> length (eb_ordered_lanes b) = grouping_sequences g")
  case True
  let ?as = "eb_ordered_lanes a" and ?bs = "eb_ordered_lanes b"
  have lanes: "validate_lanes (grouping_sequences g) 0 ?as ?bs \<noteq> None \<and>
      (validate_lanes (grouping_sequences g) 0 ?as ?bs = Some (Inr ()) \<longleftrightarrow>
        (\<forall>i < grouping_sequences g. lane_complete i (?bs ! i) \<and> ?as ! i = ?bs ! i))"
    using validate_lanes_iff [of 0 "grouping_sequences g" ?as ?bs] True assms grouping_sequences_bounds(2) [of g]
    by (auto simp: binding_wf_def)
  have eq: "a = b \<longleftrightarrow> eb_declared_workload_digest a = eb_declared_workload_digest b \<and> (\<forall>i < grouping_sequences g. ?as ! i = ?bs ! i)"
    using True by (cases a; cases b) (auto simp: list_eq_iff_nth_eq)
  have digest: "identity_equals (eb_declared_workload_digest a) (eb_declared_workload_digest b) \<longleftrightarrow>
      eb_declared_workload_digest a = eb_declared_workload_digest b" using assms identity_equals_iff by (simp add: binding_wf_def)
  show ?thesis using lanes True
    by (auto simp: binding_validate_exact_match_for_def Let_def digest eq binding_complete_def)
qed (auto simp: binding_validate_exact_match_for_def Let_def binding_complete_def)

lemma plan_step_at_Some: "ordinal < U32_MAX \<Longrightarrow> \<exists>s. plan_step_at ordinal sequences = Some s"
  by (simp add: plan_step_at_def exec_simps Let_def)

lemma step_validate_at_iff:
  assumes "ordinal < M1_QUALIFICATION_TOKENS_PER_LANE"
  shows "step_validate_at s ordinal sequences \<noteq> None \<and>
    (step_validate_at s ordinal sequences = Some (Inr ()) \<longleftrightarrow> plan_step_at ordinal sequences = Some s)"
  using assms
  by (cases s; cases "cs_input_tokens s"; cases "cs_prompt_context_commits s")
     (auto simp: step_validate_at_def plan_step_at_def Let_def exec_simps M1_QUALIFICATION_TOKENS_PER_LANE_def
      M1_QUALIFICATION_PROMPT_CONTEXT_TOKENS_def)

lemma validate_steps_iff:
  assumes "k + n = M1_QUALIFICATION_TOKENS_PER_LANE" "length steps = M1_QUALIFICATION_TOKENS_PER_LANE"
  shows "validate_steps n k steps sequences \<noteq> None \<and>
    (validate_steps n k steps sequences = Some (Inr ()) \<longleftrightarrow>
      (\<forall>i \<in> {k..<M1_QUALIFICATION_TOKENS_PER_LANE}. plan_step_at i sequences = Some (steps ! i)))"
  using assms(1)
proof (induction n arbitrary: k)
  case (Suc n)
  then have k: "k < M1_QUALIFICATION_TOKENS_PER_LANE" "Suc k \<le> U32_MAX" by (simp_all add: M1_QUALIFICATION_TOKENS_PER_LANE_def)
  have split: "{k..<M1_QUALIFICATION_TOKENS_PER_LANE} = insert k {Suc k..<M1_QUALIFICATION_TOKENS_PER_LANE}" using k by auto
  obtain v where v: "step_validate_at (steps ! k) k sequences = Some v" using step_validate_at_iff [OF k(1)] by blast
  show ?case using Suc.IH [of "Suc k"] Suc.prems k assms(2) step_validate_at_iff [OF k(1), of "steps ! k" sequences] v
    by (cases v) (auto simp: exec_simps split)
qed simp

lemma plan_steps_eq:
  assumes "k + n \<le> M1_QUALIFICATION_TOKENS_PER_LANE"
  shows "plan_steps n k sequences acc = Some (acc @ map (\<lambda>i. the (plan_step_at i sequences)) [k..<k + n])"
  using assms
proof (induction n arbitrary: k acc)
  case (Suc n)
  then have "k < U32_MAX" by (simp add: M1_QUALIFICATION_TOKENS_PER_LANE_def)
  with plan_step_at_Some obtain s where "plan_step_at k sequences = Some s" by blast
  moreover have "[k..<k + Suc n] = k # [Suc k..<Suc k + n]" by (simp add: upt_conv_Cons del: upt_Suc)
  ultimately show ?case using Suc \<open>k < U32_MAX\<close> by (simp add: exec_simps del: upt_Suc)
qed simp

lemma context_plan_eq:
  "m1_qualification_context_plan g b = Some p \<longleftrightarrow>
     cp_version p = M1_QUALIFICATION_CONTEXT_PLAN_VERSION \<and> cp_plan_id p = context_plan_identity g \<and> cp_grouping p = g
     \<and> cp_execution_binding p = b \<and> cp_tokens_per_lane p = M1_QUALIFICATION_TOKENS_PER_LANE
     \<and> length (cp_steps p) = M1_QUALIFICATION_TOKENS_PER_LANE
     \<and> (\<forall>i < M1_QUALIFICATION_TOKENS_PER_LANE. plan_step_at i (grouping_sequences g) = Some (cp_steps p ! i))"
proof -
  let ?steps = "map (\<lambda>i. the (plan_step_at i (grouping_sequences g))) [0..<M1_QUALIFICATION_TOKENS_PER_LANE]"
  have "plan_step_at i (grouping_sequences g) = Some s \<longleftrightarrow> the (plan_step_at i (grouping_sequences g)) = s"
    if "i < M1_QUALIFICATION_TOKENS_PER_LANE" for i s
    using that plan_step_at_Some [of i "grouping_sequences g"] by (auto simp: M1_QUALIFICATION_TOKENS_PER_LANE_def)
  then have "cp_steps p = ?steps \<longleftrightarrow> length (cp_steps p) = M1_QUALIFICATION_TOKENS_PER_LANE
      \<and> (\<forall>i < M1_QUALIFICATION_TOKENS_PER_LANE. plan_step_at i (grouping_sequences g) = Some (cp_steps p ! i))"
    by (auto simp: list_eq_iff_nth_eq)
  then show ?thesis by (cases p) (auto simp: m1_qualification_context_plan_def plan_steps_eq)
qed

subsection \<open>What an accepted plan says\<close>

text \<open>The plan written out: 8192 steps, of which step \<open>i\<close> reads and commits the one token \<open>i\<close>.  The
  first 8191 are teacher-forced, suppress the observed choice, take their next input from the prompt and emit nothing; the last
  one publishes one output for each of the 1, 8 or 32 lanes and ends the run.\<close>

definition prompt_step :: "nat \<Rightarrow> context_step" where
  "prompt_step i = \<lparr>cs_kind = TeacherForcedPromptContext, cs_input_tokens = \<lparr>tr_start = i, tr_stop = i + 1\<rparr>,
     cs_prompt_context_commits = \<lparr>tr_start = i, tr_stop = i + 1\<rparr>, cs_compact_choice = ObservedButSuppressed,
     cs_next_input = IndependentTeacherForcedPrompt, cs_externally_emitted_outputs_per_lane = 0,
     cs_aggregate_externally_emitted_output_count = 0, cs_qualification_capture_destination_required = True,
     cs_publish_qualification_output_to_host = False\<rparr>"

definition final_step :: "nat \<Rightarrow> context_step" where
  "final_step lanes = \<lparr>cs_kind = FinalObserved, cs_input_tokens = \<lparr>tr_start = 8191, tr_stop = 8192\<rparr>,
     cs_prompt_context_commits = \<lparr>tr_start = 8191, tr_stop = 8192\<rparr>, cs_compact_choice = ObservedAndPublished,
     cs_next_input = Terminal, cs_externally_emitted_outputs_per_lane = 1,
     cs_aggregate_externally_emitted_output_count = lanes, cs_qualification_capture_destination_required = True,
     cs_publish_qualification_output_to_host = True\<rparr>"

lemma plan_step_at_eq:
  assumes "i < 8192"
  shows "plan_step_at i sequences = Some s \<longleftrightarrow> s = (if i < 8191 then prompt_step i else final_step sequences)"
proof -
  have "i = 8191" if "\<not> i < 8191" using that assms by simp
  then show ?thesis using assms
    by (auto simp: plan_step_at_def M1_QUALIFICATION_PROMPT_CONTEXT_TOKENS_def exec_simps Let_def prompt_step_def final_step_def
        externally_emitted_outputs_per_lane_def)
qed

lemma plan_steps_spec:
  "length steps = 8192 \<and> (\<forall>i < 8192. plan_step_at i sequences = Some (steps ! i)) \<longleftrightarrow>
     steps = map prompt_step [0..<8191] @ [final_step sequences]"
proof -
  let ?steps = "map prompt_step [0..<8191] @ [final_step sequences]"
  have "length ?steps = 8192" by simp
  moreover have "?steps ! i = (if i < 8191 then prompt_step i else final_step sequences)" if "i < 8192" for i
    using that by (auto simp: nth_append)
  ultimately show ?thesis using plan_step_at_eq by (auto simp: list_eq_iff_nth_eq)
qed

lemma context_plan_written_out:
  "m1_qualification_context_plan g b = Some p \<longleftrightarrow>
     p = \<lparr>cp_version = 1, cp_plan_id = context_plan_identity g, cp_grouping = g, cp_execution_binding = b,
          cp_tokens_per_lane = 8192, cp_steps = map prompt_step [0..<8191] @ [final_step (grouping_sequences g)]\<rparr>"
  using plan_steps_spec [of "cp_steps p" "grouping_sequences g"] unfolding context_plan_eq
  by (cases p) (auto simp: M1_QUALIFICATION_TOKENS_PER_LANE_def M1_QUALIFICATION_CONTEXT_PLAN_VERSION_def)

lemma validate_iff_constructed:
  assumes "identity_wf (cp_plan_id plan)" "binding_wf (cp_execution_binding plan)" "binding_wf expected"
  shows "context_plan_validate plan g expected \<noteq> None \<and>
    (context_plan_validate plan g expected = Some (Inr ()) \<longleftrightarrow>
       binding_complete g expected \<and> m1_qualification_context_plan g expected = Some plan)"
proof -
  have id: "identity_equals (cp_plan_id plan) (context_plan_identity g) \<longleftrightarrow> cp_plan_id plan = context_plan_identity g"
    by (rule identity_equals_iff [OF assms(1)]) (simp add: identity_wf_def context_plan_identity_def split: lane_grouping.split)
  note b = binding_match_iff [OF assms(2,3), of g]
  then obtain v where v: "binding_validate_exact_match_for (cp_execution_binding plan) g expected = Some v" by blast
  have steps: "length (cp_steps plan) = M1_QUALIFICATION_TOKENS_PER_LANE \<Longrightarrow>
      validate_steps M1_QUALIFICATION_TOKENS_PER_LANE 0 (cp_steps plan) (grouping_sequences g) \<noteq> None \<and>
      (validate_steps M1_QUALIFICATION_TOKENS_PER_LANE 0 (cp_steps plan) (grouping_sequences g) = Some (Inr ()) \<longleftrightarrow>
        (\<forall>i < M1_QUALIFICATION_TOKENS_PER_LANE. plan_step_at i (grouping_sequences g) = Some (cp_steps plan ! i)))"
    using validate_steps_iff [of 0 M1_QUALIFICATION_TOKENS_PER_LANE "cp_steps plan" "grouping_sequences g"] by auto
  have same: "M1_QUALIFICATION_CONTEXT_PLAN_STEPS = M1_QUALIFICATION_TOKENS_PER_LANE"
    by (simp add: M1_QUALIFICATION_CONTEXT_PLAN_STEPS_def M1_QUALIFICATION_TOKENS_PER_LANE_def)
  show ?thesis using b v steps
    by (cases v) (auto simp: context_plan_validate_def id context_plan_eq same)
qed

text \<open>C21: the context plan.  On declarations whose identities have their 32 bytes, validation returns, and it accepts a
  plan for a grouping and an expected declaration exactly when that declaration is complete (a workload digest and,
  for every lane in order, its ordinal and identities) and the plan is this one: version 1, the identity of the grouping, the
  expected declaration, 8192 tokens for each lane and 8192 steps.  Step \<open>i < 8191\<close> is teacher-forced: it reads and commits
  exactly token \<open>i\<close>, suppresses its choice, takes its next input from the prompt and publishes nothing.  Only step
  8191 publishes, one output for each of the 1, 8 or 32 lanes, and it ends the run.  The constructor returns, for every
  grouping and declaration, exactly this plan.\<close>

theorem qualification_plan_exact:
  fixes g and expected
  defines "steps \<equiv> map prompt_step [0..<8191] @ [final_step (case g of S1 \<Rightarrow> 1 | S8 \<Rightarrow> 8 | S32 \<Rightarrow> 32)]"
  assumes "identity_wf (cp_plan_id plan)" "binding_wf (cp_execution_binding plan)" "binding_wf expected"
  shows "context_plan_validate plan g expected \<noteq> None
    \<and> (context_plan_validate plan g expected = Some (Inr ()) \<longleftrightarrow> binding_complete g expected
         \<and> plan = \<lparr>cp_version = 1, cp_plan_id = context_plan_identity g, cp_grouping = g, cp_execution_binding = expected,
                    cp_tokens_per_lane = 8192, cp_steps = steps\<rparr>)
    \<and> m1_qualification_context_plan g expected =
        Some \<lparr>cp_version = 1, cp_plan_id = context_plan_identity g, cp_grouping = g, cp_execution_binding = expected,
              cp_tokens_per_lane = 8192, cp_steps = steps\<rparr>"
proof -
  have "steps = map prompt_step [0..<8191] @ [final_step (grouping_sequences g)]"
    by (simp add: steps_def grouping_sequences_def)
  then show ?thesis using validate_iff_constructed [OF assms(2-4), of g] context_plan_written_out [of g expected] by simp
qed

definition demo_binding :: execution_binding where
  "demo_binding = \<lparr>eb_declared_workload_digest = Identity (replicate 32 1), eb_ordered_lanes =
     [\<lparr>lb_lane_ordinal = 0, lb_lane_identity = Identity (replicate 32 2), lb_token_sequence_identity = Identity (replicate 32 3)\<rparr>]\<rparr>"

lemma demo_binding_complete: "binding_wf demo_binding" "binding_complete S1 demo_binding"
  by (simp_all add: identity_wf_def binding_wf_def demo_binding_def lane_wf_def binding_complete_def
      grouping_sequences_def lane_complete_def is_present_def is_present_loop_iff)

theorem qualification_plan_exact_witness:
  "\<exists>plan. m1_qualification_context_plan S1 demo_binding = Some plan \<and> context_plan_validate plan S1 demo_binding = Some (Inr ())
    \<and> cp_steps plan ! 100 = prompt_step 100 \<and> cp_steps plan ! 8191 = final_step 1"
proof -
  let ?plan = "\<lparr>cp_version = 1, cp_plan_id = context_plan_identity S1, cp_grouping = S1, cp_execution_binding = demo_binding,
    cp_tokens_per_lane = 8192, cp_steps = map prompt_step [0..<8191] @ [final_step 1]\<rparr>"
  have "identity_wf (cp_plan_id ?plan)" by (simp add: identity_wf_def context_plan_identity_def)
  moreover have "(map prompt_step [0..<8191] @ [final_step 1]) ! 100 = prompt_step 100" 
    "(map prompt_step [0..<8191] @ [final_step 1]) ! 8191 = final_step 1"
    by (simp_all add: nth_append)
  ultimately show ?thesis
    using qualification_plan_exact [of ?plan demo_binding S1] demo_binding_complete by (intro exI [of _ ?plan]) simp
qed

end
