(* ===== verification/CompletionWire.thy ===== *)
theory CompletionWire
  imports Qualification Speculation_Properties Scheduler
begin

text \<open>
  The compact record a device writes for one lane, as 120 bytes (\<^verbatim>\<open>ferric-engine/src/completion_wire.rs\<close>, layout in
  \<^verbatim>\<open>ferric-qwen-kernels/src/logits.rs\<close>): decoding, and the check against the step plan and the tokens the host
  expects in each mode.
\<close>

subsection \<open>Bytes\<close>

definition byte_slice :: "u8 list \<Rightarrow> usize \<Rightarrow> usize \<Rightarrow> u8 list exec" where
  "byte_slice bytes start stop =
     (if start \<le> stop \<and> stop \<le> length bytes then Some (take (stop - start) (drop start bytes)) else None)"

text \<open>\<open>u32::from_le_bytes\<close> and \<open>u64::from_le_bytes\<close>, for four and eight bytes.\<close>

fun from_le_bytes :: "u8 list \<Rightarrow> nat" where
  "from_le_bytes [] = 0"
| "from_le_bytes (b # bs) = b + 256 * from_le_bytes bs"

subsection \<open>Layout\<close>

definition RECORD_BYTES :: usize where "RECORD_BYTES = 120"
definition REQUEST_SLOT_OFFSET :: usize where "REQUEST_SLOT_OFFSET = 0"
definition REQUEST_GENERATION_OFFSET :: usize where "REQUEST_GENERATION_OFFSET = 4"
definition COMPLETION_EPOCH_OFFSET :: usize where "COMPLETION_EPOCH_OFFSET = 8"
definition PLAN_IDENTITY_OFFSET :: usize where "PLAN_IDENTITY_OFFSET = 16"
definition PLAN_IDENTITY_BYTES :: usize where "PLAN_IDENTITY_BYTES = 32"
definition ACCEPTED_DRAFT_TOKENS_OFFSET :: usize where "ACCEPTED_DRAFT_TOKENS_OFFSET = 48"
definition EMITTED_TOKEN_COUNT_OFFSET :: usize where "EMITTED_TOKEN_COUNT_OFFSET = 49"
definition RESERVED_OFFSET :: usize where "RESERVED_OFFSET = 50"
definition RESERVED_BYTES :: usize where "RESERVED_BYTES = 2"
definition TOKENS_OFFSET :: usize where "TOKENS_OFFSET = 52"
definition TOKEN_BYTES :: usize where "TOKEN_BYTES = 4"
definition TOKEN_SLOTS :: usize where "TOKEN_SLOTS = 17"

lemmas layout_defs = RECORD_BYTES_def REQUEST_SLOT_OFFSET_def REQUEST_GENERATION_OFFSET_def COMPLETION_EPOCH_OFFSET_def
  PLAN_IDENTITY_OFFSET_def PLAN_IDENTITY_BYTES_def ACCEPTED_DRAFT_TOKENS_OFFSET_def EMITTED_TOKEN_COUNT_OFFSET_def
  RESERVED_OFFSET_def RESERVED_BYTES_def TOKENS_OFFSET_def TOKEN_BYTES_def TOKEN_SLOTS_def

definition token_offset :: "usize \<Rightarrow> usize option" where
  "token_offset index = (if index < TOKEN_SLOTS then Some (TOKENS_OFFSET + index * TOKEN_BYTES) else None)"

subsection \<open>Qualification witnesses\<close>

datatype context_witness_error = WitnessPlan context_plan_error | WitnessStepOrdinal u32 | WitnessLaneOrdinal u32

record validated_context_step =
  vc_policy_identity :: identity
  vc_grouping :: lane_grouping
  vc_ordinal :: u32
  vc_step :: context_step
  vc_declared_workload_digest :: identity
  vc_lane :: lane_execution_binding

record validated_context_plan =
  vp_plan :: context_plan
  vp_grouping :: lane_grouping

definition validated_plan_step :: "validated_context_plan \<Rightarrow> u32 \<Rightarrow> u32 \<Rightarrow> context_witness_error + validated_context_step" where
  "validated_plan_step this ordinal lane =
     (case idx (cp_steps (vp_plan this)) ordinal of
        None \<Rightarrow> Inl (WitnessStepOrdinal ordinal)
      | Some step \<Rightarrow>
          (case idx (eb_ordered_lanes (cp_execution_binding (vp_plan this))) lane of
             None \<Rightarrow> Inl (WitnessLaneOrdinal lane)
           | Some lane_declaration \<Rightarrow>
               Inr \<lparr>vc_policy_identity = cp_plan_id (vp_plan this), vc_grouping = vp_grouping this, vc_ordinal = ordinal,
                 vc_step = step, vc_declared_workload_digest = eb_declared_workload_digest (cp_execution_binding (vp_plan this)),
                 vc_lane = lane_declaration\<rparr>))"

definition validate_m1_qualification_context_plan ::
  "context_plan \<Rightarrow> lane_grouping \<Rightarrow> execution_binding \<Rightarrow> (context_witness_error + validated_context_plan) exec" where
  "validate_m1_qualification_context_plan plan expected_grouping expected_execution_binding = do {
     v \<leftarrow> context_plan_validate plan expected_grouping expected_execution_binding;
     case v of
       Inl e \<Rightarrow> Some (Inl (WitnessPlan e))
     | Inr _ \<Rightarrow> Some (Inr \<lparr>vp_plan = plan, vp_grouping = expected_grouping\<rparr>) }"

subsection \<open>Expectations and verdicts\<close>

datatype wire_semantics =
    DirectFinalRow token_id
  | QualificationPromptCommit validated_context_step
  | QualificationFinalRow validated_context_step
  | SpeculativeTokens "token_id list" "token_id list"

definition qualification_context :: "wire_semantics \<Rightarrow> validated_context_step option" where
  "qualification_context s =
     (case s of
        QualificationPromptCommit context \<Rightarrow> Some context
      | QualificationFinalRow context \<Rightarrow> Some context
      | DirectFinalRow _ \<Rightarrow> None
      | SpeculativeTokens _ _ \<Rightarrow> None)"

record wire_expectation =
  we_plan :: step_plan
  we_semantics :: wire_semantics

datatype checked_semantics =
    CheckedDirectFinalRow token_id
  | CheckedPromptCommit token_id validated_context_step
  | CheckedQualificationFinalRow token_id validated_context_step
  | CheckedSpeculative u8 token_id

definition raw_compact_count :: "checked_semantics \<Rightarrow> u32 exec" where
  "raw_compact_count s = (case s of CheckedSpeculative accepted _ \<Rightarrow> u32_add accepted 1 | _ \<Rightarrow> Some 1)"

definition logical_accepted_count :: "checked_semantics \<Rightarrow> u32 exec" where
  "logical_accepted_count s = raw_compact_count s"

definition externally_published_count :: "checked_semantics \<Rightarrow> u32 exec" where
  "externally_published_count s = (case s of CheckedPromptCommit _ _ \<Rightarrow> Some 0 | _ \<Rightarrow> raw_compact_count s)"

datatype wire_error =
    RecordLength usize usize
  | ReservedNonzero
  | EmittedCountOutOfRange u8
  | RequestSlotOutOfRange u32
  | ZeroRequestGeneration
  | WireSelection qwen3_plan_error
  | NonTargetRole
  | ModeSemanticsMismatch
  | QualificationLaneMismatch u32 u32
  | QualificationGroupingMismatch
  | QualificationStepKindMismatch
  | QualificationFinalRowRequiresLogitsEvidence
  | SpeculativeLengthMismatch usize usize
  | WireLogical compact_completion_error
  | DirectFinalRowMismatch token_id token_id
  | WireSpeculative speculative_completion_error

record checked_record =
  ck_record :: compact_completion_record
  ck_selection :: qwen3_plan_selection
  ck_semantics :: checked_semantics

record epoch_joined_record =
  ej_checked :: checked_record
  ej_completion :: exact_completion

subsection \<open>Decoding\<close>

definition read_u32 :: "u8 list \<Rightarrow> usize \<Rightarrow> u32 exec" where
  "read_u32 bytes off = do { stop \<leftarrow> usize_add off 4; bs \<leftarrow> byte_slice bytes off stop; Some (from_le_bytes bs) }"

definition read_u64 :: "u8 list \<Rightarrow> usize \<Rightarrow> u64 exec" where
  "read_u64 bytes off = do { stop \<leftarrow> usize_add off 8; bs \<leftarrow> byte_slice bytes off stop; Some (from_le_bytes bs) }"

fun read_tokens :: "nat \<Rightarrow> usize \<Rightarrow> u8 list \<Rightarrow> token_id list \<Rightarrow> token_id list exec" where
  "read_tokens 0 index bytes tokens = Some tokens"
| "read_tokens (Suc n) index bytes tokens = do {
     off \<leftarrow> token_offset index;
     t \<leftarrow> read_u32 bytes off;
     tokens' \<leftarrow> upd tokens index t;
     read_tokens n (index + 1) bytes tokens' }"

definition decode_completion_record :: "u8 list \<Rightarrow> (wire_error + compact_completion_record) exec" where
  "decode_completion_record bytes =
     (if length bytes \<noteq> RECORD_BYTES then Some (Inl (RecordLength RECORD_BYTES (length bytes)))
      else do {
        reserved \<leftarrow> byte_slice bytes RESERVED_OFFSET (RESERVED_OFFSET + RESERVED_BYTES);
        if \<exists>b \<in> set reserved. b \<noteq> 0 then Some (Inl ReservedNonzero)
        else do {
          emitted_token_count \<leftarrow> idx bytes EMITTED_TOKEN_COUNT_OFFSET;
          if TOKEN_SLOTS < emitted_token_count then Some (Inl (EmittedCountOutOfRange emitted_token_count))
          else do {
            slot \<leftarrow> read_u32 bytes REQUEST_SLOT_OFFSET;
            if M1_MAX_ACTIVE_SEQUENCES \<le> slot then Some (Inl (RequestSlotOutOfRange slot))
            else do {
              generation \<leftarrow> read_u32 bytes REQUEST_GENERATION_OFFSET;
              if generation = 0 then Some (Inl ZeroRequestGeneration)
              else do {
                epoch \<leftarrow> read_u64 bytes COMPLETION_EPOCH_OFFSET;
                plan_id \<leftarrow> byte_slice bytes PLAN_IDENTITY_OFFSET (PLAN_IDENTITY_OFFSET + PLAN_IDENTITY_BYTES);
                emitted_tokens \<leftarrow> read_tokens M1_MAX_COMPLETION_TOKENS 0 bytes (replicate M1_MAX_COMPLETION_TOKENS 0);
                accepted \<leftarrow> idx bytes ACCEPTED_DRAFT_TOKENS_OFFSET;
                Some (Inr \<lparr>cr_request = request_id_new slot generation, cr_epoch = \<lparr>epoch_value = epoch\<rparr>,
                  cr_plan_id = Identity plan_id, cr_accepted_draft_tokens = accepted,
                  cr_emitted_token_count = emitted_token_count, cr_emitted_tokens = emitted_tokens\<rparr>) } } } } })"

subsection \<open>Checking\<close>

fun speculative_k :: "qwen3_plan_bucket \<Rightarrow> usize option" where
  "speculative_k SpeculativeS1K4C8192 = Some 4"
| "speculative_k SpeculativeS8K4C8192 = Some 4"
| "speculative_k SpeculativeS1K8C8192 = Some 8"
| "speculative_k SpeculativeS1K16C8192 = Some 16"
| "speculative_k _ = None"

definition validate_qualification_selection :: "qwen3_plan_selection \<Rightarrow> validated_context_step \<Rightarrow> wire_error + unit" where
  "validate_qualification_selection selection context =
     (case (case sel_bucket selection of DecodeS1C8192 \<Rightarrow> Some S1 | DecodeS8C8192 \<Rightarrow> Some S8 | DecodeS32C8192 \<Rightarrow> Some S32
            | _ \<Rightarrow> None) of
        None \<Rightarrow> Inl QualificationGroupingMismatch
      | Some grouping \<Rightarrow> if vc_grouping context \<noteq> grouping then Inl QualificationGroupingMismatch else Inr ())"

definition checked_speculative_semantics :: "greedy_commit \<Rightarrow> checked_semantics exec" where
  "checked_speculative_semantics commit =
     (if gc_accepted_draft_tokens commit \<le> U8_MAX
      then Some (CheckedSpeculative (gc_accepted_draft_tokens commit) (gc_target_correction_or_bonus commit)) else None)"

definition check_direct ::
  "compact_completion_record \<Rightarrow> step_plan \<Rightarrow> (wire_error + token_id) exec" where
  "check_direct record plan = do {
     v \<leftarrow> validate_compact_completion record (sp_request plan) (sp_completion_epoch plan) (sp_plan_id plan) 0;
     case v of
       Inl e \<Rightarrow> Some (Inl (WireLogical e))
     | Inr _ \<Rightarrow> do { actual \<leftarrow> idx (cr_emitted_tokens record) 0; Some (Inr actual) } }"

definition check_semantics ::
  "compact_completion_record \<Rightarrow> wire_expectation \<Rightarrow> token_id option \<Rightarrow> (wire_error + checked_semantics) exec" where
  "check_semantics record expectation qualification_final_choice =
     (let plan = we_plan expectation; selection = sp_selection plan in
      case we_semantics expectation of
        DirectFinalRow choice \<Rightarrow>
          if sel_mode selection \<in> {Prefill, Decode} then do {
            v \<leftarrow> check_direct record plan;
            case v of
              Inl e \<Rightarrow> Some (Inl e)
            | Inr actual \<Rightarrow>
                Some (if actual \<noteq> choice then Inl (DirectFinalRowMismatch choice actual) else Inr (CheckedDirectFinalRow actual)) }
          else Some (Inl ModeSemanticsMismatch)
      | QualificationPromptCommit context \<Rightarrow>
          if sel_mode selection = Decode then
            (case validate_qualification_selection selection context of
               Inl e \<Rightarrow> Some (Inl e)
             | Inr _ \<Rightarrow>
                 if cs_kind (vc_step context) \<noteq> TeacherForcedPromptContext then Some (Inl QualificationStepKindMismatch)
                 else do {
                   v \<leftarrow> check_direct record plan;
                   case v of Inl e \<Rightarrow> Some (Inl e) | Inr choice \<Rightarrow> Some (Inr (CheckedPromptCommit choice context)) })
          else Some (Inl ModeSemanticsMismatch)
      | QualificationFinalRow context \<Rightarrow>
          if sel_mode selection = Decode then
            (case qualification_final_choice of
               None \<Rightarrow> Some (Inl QualificationFinalRowRequiresLogitsEvidence)
             | Some choice \<Rightarrow>
                 (case validate_qualification_selection selection context of
                    Inl e \<Rightarrow> Some (Inl e)
                  | Inr _ \<Rightarrow>
                      if cs_kind (vc_step context) \<noteq> FinalObserved then Some (Inl QualificationStepKindMismatch)
                      else do {
                        v \<leftarrow> check_direct record plan;
                        case v of
                          Inl e \<Rightarrow> Some (Inl e)
                        | Inr actual \<Rightarrow>
                            Some (if actual \<noteq> choice then Inl (DirectFinalRowMismatch choice actual)
                                  else Inr (CheckedQualificationFinalRow actual context)) }))
          else Some (Inl ModeSemanticsMismatch)
      | SpeculativeTokens draft target \<Rightarrow>
          if sel_mode selection = Speculative then
            (case speculative_k (sel_bucket selection) of
               None \<Rightarrow> Some (Inl ModeSemanticsMismatch)
             | Some expected \<Rightarrow>
                 if length draft \<noteq> expected then Some (Inl (SpeculativeLengthMismatch expected (length draft)))
                 else do {
                   v \<leftarrow> verify_speculative_completion record (sp_request plan) (sp_completion_epoch plan) (sp_plan_id plan)
                      draft target;
                   case v of
                     Inl e \<Rightarrow> Some (Inl (WireSpeculative e))
                   | Inr commit \<Rightarrow> do { s \<leftarrow> checked_speculative_semantics commit; Some (Inr s) } })
          else Some (Inl ModeSemanticsMismatch))"

definition check_completion_record ::
  "u8 list \<Rightarrow> wire_expectation \<Rightarrow> token_id option \<Rightarrow> (wire_error + checked_record) exec" where
  "check_completion_record bytes expectation qualification_final_choice = do {
     d \<leftarrow> decode_completion_record bytes;
     case d of
       Inl e \<Rightarrow> Some (Inl e)
     | Inr record \<Rightarrow>
         (let selection = sp_selection (we_plan expectation) in
          case selection_validate selection of
            Inl e \<Rightarrow> Some (Inl (WireSelection e))
          | Inr _ \<Rightarrow>
              if sel_role selection \<noteq> Target8B then Some (Inl NonTargetRole)
              else do {
                v \<leftarrow> check_semantics record expectation qualification_final_choice;
                case v of
                  Inl e \<Rightarrow> Some (Inl e)
                | Inr semantics \<Rightarrow> Some (Inr \<lparr>ck_record = record, ck_selection = selection, ck_semantics = semantics\<rparr>) }) }"

definition check_inert_completion_record :: "u8 list \<Rightarrow> wire_expectation \<Rightarrow> (wire_error + checked_record) exec" where
  "check_inert_completion_record bytes expectation = check_completion_record bytes expectation None"

definition check_inert_qualification_final_completion_record ::
  "u8 list \<Rightarrow> wire_expectation \<Rightarrow> token_id \<Rightarrow> (wire_error + checked_record) exec" where
  "check_inert_qualification_final_completion_record bytes expectation derived_choice =
     check_completion_record bytes expectation (Some derived_choice)"

text \<open>On a mismatch both inputs come back unchanged.\<close>

definition bind_inert_completion_epoch ::
  "checked_record \<Rightarrow> exact_completion \<Rightarrow> (checked_record \<times> exact_completion) + epoch_joined_record" where
  "bind_inert_completion_epoch checked completion =
     (if cr_epoch (ck_record checked) \<noteq> ec_epoch completion then Inl (checked, completion)
      else Inr \<lparr>ej_checked = checked, ej_completion = completion\<rparr>)"

end
