(* ===== verification/CompletionWire_Properties.thy ===== *)
theory CompletionWire_Properties
  imports CompletionWire Publication
begin

text \<open>
  Decoding inverts the little-endian layout, and the check accepts exactly the bytes of the one record that the plan
  and the expected tokens determine.
\<close>

subsection \<open>Little-endian numbers\<close>

fun to_le_bytes :: "nat \<Rightarrow> nat \<Rightarrow> u8 list" where
  "to_le_bytes 0 v = []"
| "to_le_bytes (Suc n) v = v mod 256 # to_le_bytes n (v div 256)"

abbreviation is_bytes :: "u8 list \<Rightarrow> bool" where
  "is_bytes bs \<equiv> \<forall>b \<in> set bs. b \<le> U8_MAX"

lemma length_to_le_bytes [simp]: "length (to_le_bytes n v) = n"
  by (induction n arbitrary: v) auto

lemma to_le_bytes_are_bytes: "is_bytes (to_le_bytes n v)"
  by (induction n arbitrary: v) auto

lemma from_to_le_bytes: "v < 256 ^ n \<Longrightarrow> from_le_bytes (to_le_bytes n v) = v"
proof (induction n arbitrary: v)
  case (Suc n)
  then have "v div 256 < 256 ^ n" by (simp add: less_mult_imp_div_less mult.commute)
  with Suc.IH show ?case by simp
qed simp

lemma to_from_le_bytes: "is_bytes bs \<Longrightarrow> to_le_bytes (length bs) (from_le_bytes bs) = bs"
  by (induction bs) auto

lemma from_le_bytes_less: "is_bytes bs \<Longrightarrow> from_le_bytes bs < 256 ^ length bs"
proof (induction bs)
  case (Cons b bs)
  then have "b < 256" "from_le_bytes bs + 1 \<le> 256 ^ length bs" by auto
  then have "b + 256 * from_le_bytes bs < 256 * (from_le_bytes bs + 1)" "256 * (from_le_bytes bs + 1) \<le> 256 * 256 ^ length bs"
    by (simp, simp only: mult_le_mono2)
  then show ?case by simp
qed simp

lemma is_bytes_slice: "is_bytes bs \<Longrightarrow> is_bytes (take n (drop k bs))"
  using set_take_subset set_drop_subset by (metis subsetD)

subsection \<open>The record as bytes\<close>

definition encode_record :: "compact_completion_record \<Rightarrow> u8 list" where
  "encode_record r =
     to_le_bytes 4 (slot (cr_request r)) @ to_le_bytes 4 (generation (cr_request r)) @ to_le_bytes 8 (epoch_value (cr_epoch r))
     @ as_bytes (cr_plan_id r) @ [cr_accepted_draft_tokens r, cr_emitted_token_count r, 0, 0]
     @ concat (map (to_le_bytes 4) (cr_emitted_tokens r))"

definition wire_record_ok :: "compact_completion_record \<Rightarrow> bool" where
  "wire_record_ok r \<longleftrightarrow> record_wf r \<and> is_bytes (as_bytes (cr_plan_id r)) \<and> slot (cr_request r) < M1_MAX_ACTIVE_SEQUENCES
     \<and> 0 < generation (cr_request r) \<and> generation (cr_request r) \<le> U32_MAX \<and> epoch_value (cr_epoch r) \<le> U64_MAX
     \<and> cr_accepted_draft_tokens r \<le> U8_MAX \<and> cr_emitted_token_count r \<le> M1_MAX_COMPLETION_TOKENS
     \<and> (\<forall>t \<in> set (cr_emitted_tokens r). t \<le> U32_MAX)"

abbreviation part :: "nat \<Rightarrow> nat \<Rightarrow> 'a list \<Rightarrow> 'a list" where
  "part off n bytes \<equiv> take n (drop off bytes)"

definition wire_tokens :: "u8 list \<Rightarrow> token_id list" where
  "wire_tokens bytes = map (\<lambda>i. from_le_bytes (part (52 + i * 4) 4 bytes)) [0..<17]"

definition wire_record :: "u8 list \<Rightarrow> compact_completion_record" where
  "wire_record bytes =
     \<lparr>cr_request = request_id_new (from_le_bytes (part 0 4 bytes)) (from_le_bytes (part 4 4 bytes)),
      cr_epoch = \<lparr>epoch_value = from_le_bytes (part 8 8 bytes)\<rparr>, cr_plan_id = Identity (part 16 32 bytes),
      cr_accepted_draft_tokens = bytes ! 48, cr_emitted_token_count = bytes ! 49, cr_emitted_tokens = wire_tokens bytes\<rparr>"

lemma byte_slice_ok: "start + n \<le> length bytes \<Longrightarrow> byte_slice bytes start (start + n) = Some (part start n bytes)"
  by (simp add: byte_slice_def)

lemma read_u32_ok: "off + 4 \<le> length bytes \<Longrightarrow> length bytes \<le> U64_MAX \<Longrightarrow> read_u32 bytes off = Some (from_le_bytes (part off 4 bytes))"
  by (simp add: read_u32_def exec_simps byte_slice_ok)

lemma read_u64_ok: "off + 8 \<le> length bytes \<Longrightarrow> length bytes \<le> U64_MAX \<Longrightarrow> read_u64 bytes off = Some (from_le_bytes (part off 8 bytes))"
  by (simp add: read_u64_def exec_simps byte_slice_ok)

lemma read_tokens_eq:
  assumes "length bytes = 120" "k + n = 17" "length ts = 17"
  shows "read_tokens n k bytes ts = Some (take k ts @ map (\<lambda>i. from_le_bytes (part (52 + i * 4) 4 bytes)) [k..<17])"
  using assms(2,3)
proof (induction n arbitrary: k ts)
  case (Suc n)
  let ?t = "from_le_bytes (part (52 + k * 4) 4 bytes)"
  have k: "k < 17" using Suc.prems by simp
  then have "[k..<17] = k # [Suc k..<17]" by (simp add: upt_conv_Cons)
  moreover have "take (Suc k) (ts[k := ?t]) = take k ts @ [?t]" using Suc.prems k by (simp add: take_Suc_update)
  ultimately show ?case using Suc.IH [of "Suc k" "ts[k := ?t]"] Suc.prems k assms(1)
    by (simp add: token_offset_def layout_defs read_u32_ok exec_simps)
qed simp

lemma decode_eq:
  "decode_completion_record bytes =
     Some (if length bytes \<noteq> 120 then Inl (RecordLength 120 (length bytes))
           else if bytes ! 50 \<noteq> 0 \<or> bytes ! 51 \<noteq> 0 then Inl ReservedNonzero
           else let r = wire_record bytes in
             if 17 < cr_emitted_token_count r then Inl (EmittedCountOutOfRange (cr_emitted_token_count r))
             else if M1_MAX_ACTIVE_SEQUENCES \<le> slot (cr_request r) then Inl (RequestSlotOutOfRange (slot (cr_request r)))
             else if generation (cr_request r) = 0 then Inl ZeroRequestGeneration else Inr r)"
proof (cases "length bytes = 120")
  case True
  have "drop 50 bytes = bytes ! 50 # bytes ! 51 # drop 52 bytes"
    using True Cons_nth_drop_Suc [of 50 bytes] Cons_nth_drop_Suc [of 51 bytes] by simp
  then have res: "byte_slice bytes RESERVED_OFFSET (RESERVED_OFFSET + RESERVED_BYTES) = Some [bytes ! 50, bytes ! 51]"
    using True by (simp add: byte_slice_def layout_defs)
  have tok: "read_tokens M1_MAX_COMPLETION_TOKENS 0 bytes (replicate M1_MAX_COMPLETION_TOKENS 0) = Some (wire_tokens bytes)"
    using read_tokens_eq [OF True, of 0 17 "replicate 17 0"] by (simp add: M1_MAX_COMPLETION_TOKENS_def wire_tokens_def)
  have plan: "byte_slice bytes PLAN_IDENTITY_OFFSET (PLAN_IDENTITY_OFFSET + PLAN_IDENTITY_BYTES) = Some (part 16 32 bytes)"
    using True by (simp add: byte_slice_def layout_defs)
  show ?thesis using True res tok plan
    by (simp add: decode_completion_record_def wire_record_def request_id_new_def read_u32_ok read_u64_ok exec_simps Let_def
        RECORD_BYTES_def REQUEST_SLOT_OFFSET_def REQUEST_GENERATION_OFFSET_def COMPLETION_EPOCH_OFFSET_def
        ACCEPTED_DRAFT_TOKENS_OFFSET_def EMITTED_TOKEN_COUNT_OFFSET_def TOKEN_SLOTS_def)
qed (simp add: decode_completion_record_def RECORD_BYTES_def)

lemma chunks_concat: "length xs = n * k \<Longrightarrow> concat (map (\<lambda>i. part (i * k) k xs) [0..<n]) = xs"
proof (induction n arbitrary: xs)
  case (Suc n)
  have "concat (map (\<lambda>i. part (i * k) k xs) [0..<Suc n]) = take k xs @ concat (map (\<lambda>i. part (i * k) k (drop k xs)) [0..<n])"
    by (subst upt_conv_Cons) (simp_all add: map_Suc_upt [symmetric] o_def add.commute del: upt_Suc)
  also have "concat (map (\<lambda>i. part (i * k) k (drop k xs)) [0..<n]) = drop k xs" using Suc.prems by (intro Suc.IH) simp
  finally show ?case by simp
qed simp

lemma chunk_of_concat:
  assumes "\<forall>x \<in> set xs. length (f x) = k" "i < length xs"
  shows "part (i * k) k (concat (map f xs)) = f (xs ! i)"
  using assms
proof (induction xs arbitrary: i)
  case (Cons x xs)
  then show ?case by (cases i) (simp_all add: add.commute)
qed simp

lemma wire_parts:
  assumes "length bytes = 120"
  shows "bytes = part 0 4 bytes @ part 4 4 bytes @ part 8 8 bytes @ part 16 32 bytes
    @ [bytes ! 48, bytes ! 49, bytes ! 50, bytes ! 51] @ drop 52 bytes"
proof -
  have "part 48 4 bytes = [bytes ! 48, bytes ! 49, bytes ! 50, bytes ! 51]"
    using assms by (simp add: list_eq_iff_nth_eq nth_Cons' less_Suc_eq numeral_eq_Suc)
  moreover have "bytes = part 0 4 bytes @ drop 4 bytes" "drop 4 bytes = part 4 4 bytes @ drop 8 bytes"
    "drop 8 bytes = part 8 8 bytes @ drop 16 bytes" "drop 16 bytes = part 16 32 bytes @ drop 48 bytes"
    "drop 48 bytes = part 48 4 bytes @ drop 52 bytes"
    using append_take_drop_id [of 4 bytes] append_take_drop_id [of 4 "drop 4 bytes"] append_take_drop_id [of 8 "drop 8 bytes"]
      append_take_drop_id [of 32 "drop 16 bytes"] append_take_drop_id [of 4 "drop 48 bytes"] by simp_all
  ultimately show ?thesis by (metis append.assoc)
qed

lemma encode_wire_record:
  assumes "length bytes = 120" "is_bytes bytes" "bytes ! 50 = 0" "bytes ! 51 = 0"
  shows "encode_record (wire_record bytes) = bytes"
proof -
  have num: "to_le_bytes n (from_le_bytes (part k n bytes)) = part k n bytes" if "k + n \<le> 120" for k n
    using to_from_le_bytes [OF is_bytes_slice [OF assms(2)], of n k] that assms(1) by simp
  have "concat (map (to_le_bytes 4) (wire_tokens bytes)) = concat (map (\<lambda>i. part (i * 4) 4 (drop 52 bytes)) [0..<17])"
    unfolding wire_tokens_def map_map o_def using num
    by (intro arg_cong [where f = concat] map_cong) (simp_all add: add.commute)
  also have "\<dots> = drop 52 bytes" using assms(1) by (intro chunks_concat) simp
  finally show ?thesis using num [of 0 4] num [of 4 4] num [of 8 8] wire_parts [OF assms(1)] assms(3,4)
    by (simp add: encode_record_def wire_record_def request_id_new_def)
qed

lemma length_encode_record:
  assumes "record_wf r"
  shows "length (encode_record r) = 120"
proof -
  have "map (\<lambda>x. length (to_le_bytes 4 x)) (cr_emitted_tokens r) = replicate 17 4"
    using assms by (simp add: record_wf_def M1_MAX_COMPLETION_TOKENS_def map_replicate_const)
  then have "length (concat (map (to_le_bytes 4) (cr_emitted_tokens r))) = 68"
    by (simp add: length_concat o_def sum_list_replicate)
  then show ?thesis using assms by (simp add: encode_record_def record_wf_def identity_wf_def)
qed

lemma wire_record_encode:
  assumes "wire_record_ok r"
  shows "wire_record (encode_record r) = r" "encode_record r ! 50 = 0" "encode_record r ! 51 = 0"
proof -
  let ?toks = "concat (map (to_le_bytes 4) (cr_emitted_tokens r))"
  have wf: "length (as_bytes (cr_plan_id r)) = 32" "length (cr_emitted_tokens r) = 17"
    and range: "slot (cr_request r) < 256 ^ 4" "generation (cr_request r) < 256 ^ 4" "epoch_value (cr_epoch r) < 256 ^ 8"
      "\<forall>t \<in> set (cr_emitted_tokens r). t < 256 ^ 4"
    using assms by (auto simp: wire_record_ok_def record_wf_def identity_wf_def M1_MAX_COMPLETION_TOKENS_def
        M1_MAX_ACTIVE_SEQUENCES_def)
  have tail: "drop 52 (encode_record r) = ?toks" using wf by (simp add: encode_record_def)
  have "part (52 + i * 4) 4 (encode_record r) = to_le_bytes 4 (cr_emitted_tokens r ! i)" if "i < 17" for i
    using chunk_of_concat [of "cr_emitted_tokens r" "to_le_bytes 4" 4 i] that wf by (simp add: tail [symmetric] add.commute)
  then have toks: "wire_tokens (encode_record r) = cr_emitted_tokens r"
    using wf range(4) by (intro nth_equalityI) (simp_all add: wire_tokens_def from_to_le_bytes)
  have nth: "encode_record r ! 48 = cr_accepted_draft_tokens r" "encode_record r ! 49 = cr_emitted_token_count r"
    "encode_record r ! 50 = 0" "encode_record r ! 51 = 0"
    using wf by (simp_all add: encode_record_def nth_append)
  show "wire_record (encode_record r) = r" using wf range toks nth from_to_le_bytes [of _ 4] from_to_le_bytes [of _ 8]
    by (cases r; cases "cr_request r"; cases "cr_epoch r"; cases "cr_plan_id r")
       (simp add: wire_record_def encode_record_def request_id_new_def)
  show "encode_record r ! 50 = 0" "encode_record r ! 51 = 0" by (fact nth)+
qed

lemma wire_record_range:
  assumes "length bytes = 120" "is_bytes bytes"
  shows "record_wf (wire_record bytes)" "is_bytes (as_bytes (cr_plan_id (wire_record bytes)))"
    "generation (cr_request (wire_record bytes)) \<le> U32_MAX" "epoch_value (cr_epoch (wire_record bytes)) \<le> U64_MAX"
    "cr_accepted_draft_tokens (wire_record bytes) \<le> U8_MAX" "\<forall>t \<in> set (cr_emitted_tokens (wire_record bytes)). t \<le> U32_MAX"
proof -
  have num: "from_le_bytes (part k n bytes) < 256 ^ n" if "k + n \<le> 120" for k n
    using from_le_bytes_less [OF is_bytes_slice [OF assms(2)], of n k] that assms(1) by simp
  show "record_wf (wire_record bytes)" using assms(1)
    by (simp add: record_wf_def identity_wf_def wire_record_def wire_tokens_def M1_MAX_COMPLETION_TOKENS_def)
  show "is_bytes (as_bytes (cr_plan_id (wire_record bytes)))"
    using is_bytes_slice [OF assms(2), of 32 16] by (simp add: wire_record_def)
  show "generation (cr_request (wire_record bytes)) \<le> U32_MAX" "epoch_value (cr_epoch (wire_record bytes)) \<le> U64_MAX"
    using num [of 4 4] num [of 8 8] by (simp_all add: wire_record_def request_id_new_def)
  show "cr_accepted_draft_tokens (wire_record bytes) \<le> U8_MAX" using assms by (simp add: wire_record_def)
  show "\<forall>t \<in> set (cr_emitted_tokens (wire_record bytes)). t \<le> U32_MAX"
    using num [of "52 + _ * 4" 4] by (auto simp: wire_record_def wire_tokens_def less_Suc_eq_le [symmetric])
qed

lemma decode_Inr_iff:
  assumes "is_bytes bytes"
  shows "decode_completion_record bytes = Some (Inr r) \<longleftrightarrow> wire_record_ok r \<and> bytes = encode_record r"
proof
  assume d: "decode_completion_record bytes = Some (Inr r)"
  then have l: "length bytes = 120" and z: "bytes ! 50 = 0" "bytes ! 51 = 0" and r: "r = wire_record bytes"
    and c: "cr_emitted_token_count r \<le> 17" "slot (cr_request r) < M1_MAX_ACTIVE_SEQUENCES" "0 < generation (cr_request r)"
    by (auto simp: decode_eq Let_def split: if_splits)
  then show "wire_record_ok r \<and> bytes = encode_record r"
    using encode_wire_record [OF l assms z] wire_record_range [OF l assms]
    by (simp add: wire_record_ok_def M1_MAX_COMPLETION_TOKENS_def)
next
  assume "wire_record_ok r \<and> bytes = encode_record r"
  then show "decode_completion_record bytes = Some (Inr r)"
    using wire_record_encode [of r] length_encode_record [of r]
    by (auto simp: decode_eq Let_def wire_record_ok_def M1_MAX_COMPLETION_TOKENS_def)
qed

text \<open>C19: the wire format.  Decoding any bytes returns, and it yields a record exactly when the bytes are the
  little-endian layout of that record and the record is in range: a slot below 32, a generation that is not zero, at
  most 17 tokens, both reserved bytes zero.  So no two byte strings decode to one record and no field is lost.\<close>

theorem completion_wire_roundtrip:
  assumes "is_bytes bytes"
  shows "decode_completion_record bytes \<noteq> None
    \<and> (decode_completion_record bytes = Some (Inr r) \<longleftrightarrow> wire_record_ok r \<and> bytes = encode_record r)"
  using decode_Inr_iff [OF assms] by (simp add: decode_eq)

subsection \<open>What the check accepts\<close>

abbreviation single_commit :: "token_id \<Rightarrow> greedy_commit" where
  "single_commit t \<equiv> \<lparr>gc_accepted_draft_tokens = 0, gc_emitted_tokens = [t], gc_target_correction_or_bonus = t\<rparr>"

text \<open>The commit and the verdict an expectation determines; the direct commits are those of the draftless round.\<close>

definition semantics_accept ::
  "qwen3_plan_selection \<Rightarrow> wire_semantics \<Rightarrow> token_id option \<Rightarrow> greedy_commit \<Rightarrow> checked_semantics \<Rightarrow> bool" where
  "semantics_accept sel sem evidence commit verdict \<longleftrightarrow>
     (case sem of
        DirectFinalRow t \<Rightarrow> sel_mode sel \<in> {Prefill, Decode} \<and> commit = single_commit t \<and> verdict = CheckedDirectFinalRow t
      | QualificationPromptCommit context \<Rightarrow> sel_mode sel = Decode \<and> validate_qualification_selection sel context = Inr ()
          \<and> cs_kind (vc_step context) = TeacherForcedPromptContext
          \<and> (\<exists>t. commit = single_commit t \<and> verdict = CheckedPromptCommit t context)
      | QualificationFinalRow context \<Rightarrow> sel_mode sel = Decode \<and> validate_qualification_selection sel context = Inr ()
          \<and> cs_kind (vc_step context) = FinalObserved
          \<and> (\<exists>t. evidence = Some t \<and> commit = single_commit t \<and> verdict = CheckedQualificationFinalRow t context)
      | SpeculativeTokens draft target \<Rightarrow> sel_mode sel = Speculative \<and> speculative_k (sel_bucket sel) = Some (length draft)
          \<and> verify_greedy_round draft target = Some (Inr commit)
          \<and> verdict = CheckedSpeculative (gc_accepted_draft_tokens commit) (gc_target_correction_or_bonus commit))"

lemma check_direct_iff:
  assumes "record_wf r" "identity_wf (sp_plan_id plan)"
  shows "check_direct r plan \<noteq> None \<and> (check_direct r plan = Some (Inr t) \<longleftrightarrow>
    is_present (sp_plan_id plan) \<and> t < QWEN3_VOCABULARY_SIZE
    \<and> r = canonical_record (sp_request plan) (sp_completion_epoch plan) (sp_plan_id plan) (single_commit t))"
proof -
  let ?v = "validate_compact_completion r (sp_request plan) (sp_completion_epoch plan) (sp_plan_id plan) 0"
  note iff = validate_compact_completion_iff [OF assms, of "sp_request plan" "sp_completion_epoch plan" 0]
  obtain v where v: "?v = Some v" using iff(1) by blast
  have "0 < length (cr_emitted_tokens r)" using assms(1) by (simp add: record_wf_def M1_MAX_COMPLETION_TOKENS_def)
  then have c: "check_direct r plan = Some (case v of Inl e \<Rightarrow> Inl (WireLogical e) | Inr _ \<Rightarrow> Inr (cr_emitted_tokens r ! 0))"
    by (simp add: check_direct_def v exec_simps split: sum.split)
  have "v = Inr () \<longleftrightarrow> is_present (sp_plan_id plan) \<and> (\<exists>t. t < QWEN3_VOCABULARY_SIZE \<and>
      r = canonical_record (sp_request plan) (sp_completion_epoch plan) (sp_plan_id plan) (single_commit t))"
    using direct_record [OF assms, of "sp_request plan" "sp_completion_epoch plan" "()"] iff(2) v
    by (auto simp: canonical_record_def payload_ok_def)
  moreover have "t = t'" if "canonical_record q e p (single_commit t) = canonical_record q e p (single_commit t')" for q e p t'
    using that by (simp add: canonical_record_def)
  ultimately show ?thesis using c by (cases v) (auto simp: canonical_record_def)
qed

lemma speculative_k_le: "speculative_k b = Some k \<Longrightarrow> k \<le> 16"
  by (cases b) auto

lemma check_speculative_eq:
  assumes "record_wf r" "identity_wf (sp_plan_id (we_plan ex))" and sem: "we_semantics ex = SpeculativeTokens draft target"
    and mode: "sel_mode (sp_selection (we_plan ex)) = Speculative"
    and k: "speculative_k (sel_bucket (sp_selection (we_plan ex))) = Some (length draft)"
  obtains v where
    "verify_speculative_completion r (sp_request (we_plan ex)) (sp_completion_epoch (we_plan ex)) (sp_plan_id (we_plan ex))
       draft target = Some v"
    "check_semantics r ex evidence = Some (map_sum WireSpeculative (\<lambda>c. CheckedSpeculative (gc_accepted_draft_tokens c)
       (gc_target_correction_or_bonus c)) v)"
proof -
  let ?v = "verify_speculative_completion r (sp_request (we_plan ex)) (sp_completion_epoch (we_plan ex)) (sp_plan_id (we_plan ex))
       draft target"
  note exact = verify_speculative_completion_exact [OF assms(1,2), of "sp_request (we_plan ex)" "sp_completion_epoch (we_plan ex)" draft target]
  then obtain v where v: "?v = Some v" by blast
  have "gc_accepted_draft_tokens c \<le> U8_MAX" if "v = Inr c" for c
    using exact [of c] v that greedy_round_lengths(1) [of draft target c] speculative_k_le [OF k] by simp
  then have "check_semantics r ex evidence = Some (map_sum WireSpeculative (\<lambda>c. CheckedSpeculative (gc_accepted_draft_tokens c)
       (gc_target_correction_or_bonus c)) v)"
    using mode k sem v by (cases v) (simp_all add: check_semantics_def checked_speculative_semantics_def)
  with v show thesis by (rule that)
qed

lemma check_semantics_iff:
  assumes r: "record_wf r" and p: "identity_wf (sp_plan_id (we_plan ex))"
  shows "check_semantics r ex evidence \<noteq> None \<and> (check_semantics r ex evidence = Some (Inr s) \<longleftrightarrow>
       (\<exists>c. semantics_accept (sp_selection (we_plan ex)) (we_semantics ex) evidence c s \<and> is_present (sp_plan_id (we_plan ex))
          \<and> (\<forall>t \<in> set (gc_emitted_tokens c). t < QWEN3_VOCABULARY_SIZE)
          \<and> r = canonical_record (sp_request (we_plan ex)) (sp_completion_epoch (we_plan ex)) (sp_plan_id (we_plan ex)) c))"
proof -
  let ?plan = "we_plan ex" and ?sel = "sp_selection (we_plan ex)"
  define A where "A t \<longleftrightarrow> is_present (sp_plan_id ?plan) \<and> t < QWEN3_VOCABULARY_SIZE
      \<and> r = canonical_record (sp_request ?plan) (sp_completion_epoch ?plan) (sp_plan_id ?plan) (single_commit t)" for t
  obtain d where d: "check_direct r ?plan = Some d" using check_direct_iff [OF r p] by blast
  then have A: "d = Inr t \<longleftrightarrow> A t" for t using check_direct_iff [OF r p, of t] by (simp add: A_def)
  have one: "(\<exists>c. (P \<and> (\<exists>t. Q t \<and> c = single_commit t \<and> s = f t)) \<and> is_present (sp_plan_id ?plan)
      \<and> (\<forall>t \<in> set (gc_emitted_tokens c). t < QWEN3_VOCABULARY_SIZE)
      \<and> r = canonical_record (sp_request ?plan) (sp_completion_epoch ?plan) (sp_plan_id ?plan) c)
    \<longleftrightarrow> P \<and> (\<exists>t. Q t \<and> s = f t \<and> A t)" for P Q and f :: "token_id \<Rightarrow> checked_semantics"
    unfolding A_def by fastforce
  show ?thesis
  proof (cases "we_semantics ex")
    case (DirectFinalRow t)
    let ?P = "sel_mode ?sel \<in> {Prefill, Decode}"
    have "check_semantics r ex evidence = Some (if ?P
        then case d of Inl e \<Rightarrow> Inl e | Inr a \<Rightarrow> if a \<noteq> t then Inl (DirectFinalRowMismatch t a) else Inr (CheckedDirectFinalRow a)
        else Inl ModeSemanticsMismatch)"
      using DirectFinalRow d by (cases d) (simp_all add: check_semantics_def Let_def)
    then have "check_semantics r ex evidence \<noteq> None"
      "check_semantics r ex evidence = Some (Inr s) \<longleftrightarrow> ?P \<and> (\<exists>x. x = t \<and> s = CheckedDirectFinalRow x \<and> d = Inr x)"
      by (cases d; auto)+
    then show ?thesis using one [of ?P "\<lambda>x. x = t" CheckedDirectFinalRow] DirectFinalRow
      by (simp add: A semantics_accept_def)
  next
    case (QualificationPromptCommit ctx)
    let ?v = "validate_qualification_selection ?sel ctx" and ?f = "\<lambda>t. CheckedPromptCommit t ctx"
    let ?P = "sel_mode ?sel = Decode \<and> ?v = Inr () \<and> cs_kind (vc_step ctx) = TeacherForcedPromptContext"
    have "check_semantics r ex evidence = Some (if sel_mode ?sel \<noteq> Decode then Inl ModeSemanticsMismatch
        else case ?v of Inl e \<Rightarrow> Inl e | Inr _ \<Rightarrow>
          if cs_kind (vc_step ctx) \<noteq> TeacherForcedPromptContext then Inl QualificationStepKindMismatch else map_sum id ?f d)"
      using QualificationPromptCommit d by (cases d; cases ?v) (simp_all add: check_semantics_def Let_def)
    then have "check_semantics r ex evidence \<noteq> None"
      "check_semantics r ex evidence = Some (Inr s) \<longleftrightarrow> ?P \<and> (\<exists>x. True \<and> s = ?f x \<and> d = Inr x)"
      by (cases d; cases ?v; auto)+
    then show ?thesis using one [of ?P "\<lambda>_. True" ?f] QualificationPromptCommit by (simp add: A semantics_accept_def)
  next
    case (QualificationFinalRow ctx)
    let ?v = "validate_qualification_selection ?sel ctx" and ?f = "\<lambda>t. CheckedQualificationFinalRow t ctx"
    let ?P = "sel_mode ?sel = Decode \<and> ?v = Inr () \<and> cs_kind (vc_step ctx) = FinalObserved"
    have "check_semantics r ex evidence = Some (if sel_mode ?sel \<noteq> Decode then Inl ModeSemanticsMismatch
        else case evidence of None \<Rightarrow> Inl QualificationFinalRowRequiresLogitsEvidence | Some t \<Rightarrow>
          (case ?v of Inl e \<Rightarrow> Inl e | Inr _ \<Rightarrow>
            if cs_kind (vc_step ctx) \<noteq> FinalObserved then Inl QualificationStepKindMismatch
            else case d of Inl e \<Rightarrow> Inl e | Inr a \<Rightarrow> if a \<noteq> t then Inl (DirectFinalRowMismatch t a) else Inr (?f a)))"
      using QualificationFinalRow d by (cases d; cases ?v; cases evidence) (simp_all add: check_semantics_def Let_def)
    then have "check_semantics r ex evidence \<noteq> None"
      "check_semantics r ex evidence = Some (Inr s) \<longleftrightarrow> ?P \<and> (\<exists>x. evidence = Some x \<and> s = ?f x \<and> d = Inr x)"
      by (cases d; cases ?v; cases evidence; auto)+
    then show ?thesis using one [of ?P "\<lambda>t. evidence = Some t" ?f] QualificationFinalRow by (simp add: A semantics_accept_def)
  next
    case (SpeculativeTokens draft target)
    show ?thesis
    proof (cases "sel_mode ?sel = Speculative \<and> speculative_k (sel_bucket ?sel) = Some (length draft)")
      case True
      then obtain v where v: "verify_speculative_completion r (sp_request ?plan) (sp_completion_epoch ?plan) (sp_plan_id ?plan)
          draft target = Some v"
        "check_semantics r ex evidence = Some (map_sum WireSpeculative (\<lambda>c. CheckedSpeculative (gc_accepted_draft_tokens c)
          (gc_target_correction_or_bonus c)) v)"
        using check_speculative_eq [OF r p SpeculativeTokens] by blast
      have V: "v = Inr c \<longleftrightarrow> is_present (sp_plan_id ?plan) \<and> verify_greedy_round draft target = Some (Inr c)
          \<and> r = canonical_record (sp_request ?plan) (sp_completion_epoch ?plan) (sp_plan_id ?plan) c
          \<and> (\<forall>t \<in> set (gc_emitted_tokens c). t < QWEN3_VOCABULARY_SIZE)" for c
        using verify_speculative_completion_exact [OF r p, of "sp_request ?plan" "sp_completion_epoch ?plan" draft target c] v(1)
          speculative_k_le True by auto
      have "check_semantics r ex evidence = Some (Inr s) \<longleftrightarrow>
          (\<exists>c. s = CheckedSpeculative (gc_accepted_draft_tokens c) (gc_target_correction_or_bonus c) \<and> v = Inr c)"
        using v(2) by (cases v) auto
      then show ?thesis using True v(2) SpeculativeTokens unfolding V by (auto simp: semantics_accept_def)
    next
      case False
      then have "\<exists>e. check_semantics r ex evidence = Some (Inl e)"
        using SpeculativeTokens by (auto simp: check_semantics_def Let_def split: option.split)
      moreover have "\<not> semantics_accept ?sel (we_semantics ex) evidence c s" for c
        using False SpeculativeTokens by (auto simp: semantics_accept_def)
      ultimately show ?thesis by auto
    qed
  qed
qed

lemma check_completion_record_iff:
  assumes "is_bytes bytes" "identity_wf (sp_plan_id (we_plan ex))"
  shows "check_completion_record bytes ex evidence \<noteq> None
    \<and> (check_completion_record bytes ex evidence = Some (Inr \<lparr>ck_record = r, ck_selection = sel, ck_semantics = s\<rparr>) \<longleftrightarrow>
        sel = sp_selection (we_plan ex) \<and> sel_role sel = Target8B \<and> bucket_dimensions (sel_bucket sel) Target8B (sel_mode sel) \<noteq> None
        \<and> wire_record_ok r \<and> bytes = encode_record r
        \<and> (\<exists>c. semantics_accept sel (we_semantics ex) evidence c s \<and> is_present (sp_plan_id (we_plan ex))
            \<and> (\<forall>t \<in> set (gc_emitted_tokens c). t < QWEN3_VOCABULARY_SIZE)
            \<and> r = canonical_record (sp_request (we_plan ex)) (sp_completion_epoch (we_plan ex)) (sp_plan_id (we_plan ex)) c))"
proof -
  obtain d where d: "decode_completion_record bytes = Some d" by (simp add: decode_eq)
  show ?thesis
  proof (cases d)
    case (Inl e)
    then show ?thesis using d decode_Inr_iff [OF assms(1), of r] by (auto simp: check_completion_record_def)
  next
    case (Inr r')
    then have r': "wire_record_ok r'" "bytes = encode_record r'" using d decode_Inr_iff [OF assms(1), of r'] by simp_all
    have same: "wire_record_ok r \<and> bytes = encode_record r \<longleftrightarrow> r = r'"
      using d Inr decode_Inr_iff [OF assms(1), of r] by auto
    have "record_wf r'" using r' by (simp add: wire_record_ok_def)
    note sem = check_semantics_iff [OF this assms(2), of evidence]
    then obtain v where v: "check_semantics r' ex evidence = Some v" by blast
    let ?sel = "sp_selection (we_plan ex)"
    have "check_completion_record bytes ex evidence = Some (
        if bucket_dimensions (sel_bucket ?sel) (sel_role ?sel) (sel_mode ?sel) = None then Inl (WireSelection ModeBucketMismatch)
        else if sel_role ?sel \<noteq> Target8B then Inl NonTargetRole
        else map_sum id (\<lambda>s. \<lparr>ck_record = r', ck_selection = ?sel, ck_semantics = s\<rparr>) v)"
      using v d Inr by (cases v) (simp_all add: check_completion_record_def selection_validate_def Let_def)
    moreover have "v = Inr s \<and> r = r' \<longleftrightarrow> wire_record_ok r \<and> bytes = encode_record r
        \<and> (\<exists>c. semantics_accept ?sel (we_semantics ex) evidence c s \<and> is_present (sp_plan_id (we_plan ex))
            \<and> (\<forall>t \<in> set (gc_emitted_tokens c). t < QWEN3_VOCABULARY_SIZE)
            \<and> r = canonical_record (sp_request (we_plan ex)) (sp_completion_epoch (we_plan ex)) (sp_plan_id (we_plan ex)) c)"
      using sem [of s] v same by auto
    ultimately show ?thesis by (cases v; cases "sel_role ?sel"; cases "sel = ?sel") auto
  qed
qed

text \<open>the check of a completion record.  Whatever the bytes, the plan and the expectation, checking returns; it
  accepts exactly the bytes of one record, the canonical record of the commit that the expectation determines (the
  expected token, or the greedy round of the drafted and the target's tokens) for the plan's request, epoch and
  identity, and only for an admitted selection of the target whose mode matches the expectation.\<close>

theorem completion_check_exact:
  assumes "is_bytes bytes" "identity_wf (sp_plan_id (we_plan ex))"
  shows "check_completion_record bytes ex evidence \<noteq> None
    \<and> (check_completion_record bytes ex evidence = Some (Inr \<lparr>ck_record = r, ck_selection = sel, ck_semantics = s\<rparr>) \<longleftrightarrow>
        sel = sp_selection (we_plan ex) \<and> sel_role sel = Target8B \<and> bucket_dimensions (sel_bucket sel) Target8B (sel_mode sel) \<noteq> None
        \<and> wire_record_ok r \<and> bytes = encode_record r
        \<and> (\<exists>c. semantics_accept sel (we_semantics ex) evidence c s \<and> is_present (sp_plan_id (we_plan ex))
            \<and> (\<forall>t \<in> set (gc_emitted_tokens c). t < QWEN3_VOCABULARY_SIZE)
            \<and> r = canonical_record (sp_request (we_plan ex)) (sp_completion_epoch (we_plan ex)) (sp_plan_id (we_plan ex)) c))"
  using assms by (rule check_completion_record_iff)

abbreviation demo_commit :: greedy_commit where
  "demo_commit \<equiv> \<lparr>gc_accepted_draft_tokens = 1, gc_emitted_tokens = [5, 6], gc_target_correction_or_bonus = 6\<rparr>"

definition demo_record :: compact_completion_record where
  "demo_record = canonical_record (request_id_new 3 1) \<lparr>epoch_value = 7\<rparr> (Identity (replicate 32 9)) demo_commit"

definition demo_expectation :: wire_expectation where
  "demo_expectation = \<lparr>we_plan = \<lparr>sp_request = request_id_new 3 1, sp_completion_epoch = \<lparr>epoch_value = 7\<rparr>,
       sp_plan_id = Identity (replicate 32 9),
       sp_selection = \<lparr>sel_role = Target8B, sel_mode = Speculative, sel_bucket = SpeculativeS1K4C8192\<rparr>\<rparr>,
     we_semantics = SpeculativeTokens [5, 9, 1, 2] [5, 6, 8, 3, 4]\<rparr>"

lemma demo_record_ok: "wire_record_ok demo_record"
  by (auto simp: demo_record_def wire_record_ok_def record_wf_def identity_wf_def canonical_record_def request_id_new_def
      M1_MAX_COMPLETION_TOKENS_def M1_MAX_ACTIVE_SEQUENCES_def)

lemma encode_is_bytes: "wire_record_ok r \<Longrightarrow> is_bytes (encode_record r)"
  using to_le_bytes_are_bytes by (auto simp: encode_record_def wire_record_ok_def M1_MAX_COMPLETION_TOKENS_def)

theorem completion_wire_roundtrip_witness:
  "wire_record_ok demo_record \<and> decode_completion_record (encode_record demo_record) = Some (Inr demo_record)"
  using completion_wire_roundtrip [OF encode_is_bytes [OF demo_record_ok], of demo_record] demo_record_ok by blast

theorem completion_check_exact_witness:
  "check_completion_record (encode_record demo_record) demo_expectation None =
     Some (Inr \<lparr>ck_record = demo_record, ck_selection = sp_selection (we_plan demo_expectation), ck_semantics = CheckedSpeculative 1 6\<rparr>)"
proof -
  have id: "identity_wf (sp_plan_id (we_plan demo_expectation))" by (simp add: demo_expectation_def identity_wf_def)
  have "semantics_accept (sp_selection (we_plan demo_expectation)) (we_semantics demo_expectation) None demo_commit (CheckedSpeculative 1 6)"
    by (simp add: semantics_accept_def demo_expectation_def verify_greedy_round_eq)
  moreover have "is_present (sp_plan_id (we_plan demo_expectation))"
    by (simp add: demo_expectation_def is_present_def is_present_loop_iff)
  ultimately have "\<exists>c. semantics_accept (sp_selection (we_plan demo_expectation)) (we_semantics demo_expectation) None c (CheckedSpeculative 1 6)
      \<and> is_present (sp_plan_id (we_plan demo_expectation)) \<and> (\<forall>t \<in> set (gc_emitted_tokens c). t < QWEN3_VOCABULARY_SIZE)
      \<and> demo_record = canonical_record (sp_request (we_plan demo_expectation)) (sp_completion_epoch (we_plan demo_expectation))
          (sp_plan_id (we_plan demo_expectation)) c"
    by (intro exI [of _ demo_commit]) (simp add: demo_record_def demo_expectation_def QWEN3_VOCABULARY_SIZE_def)
  moreover have "sel_role (sp_selection (we_plan demo_expectation)) = Target8B"
    "bucket_dimensions (sel_bucket (sp_selection (we_plan demo_expectation))) Target8B (sel_mode (sp_selection (we_plan demo_expectation))) \<noteq> None"
    by (simp_all add: demo_expectation_def plan_dims_def)
  ultimately show ?thesis
    using completion_check_exact [OF encode_is_bytes [OF demo_record_ok] id, of None demo_record
        "sp_selection (we_plan demo_expectation)" "CheckedSpeculative 1 6"] demo_record_ok by blast
qed

end
