(* ===== verification/CompletionOutput.thy ===== *)
theory CompletionOutput
  imports CompletionWire_Properties
begin

text \<open>
  The completion image of a whole batch: its fixed shape (\<^verbatim>\<open>ferric-engine/src/completion_output.rs\<close>), the structural
  observation of the copied bytes (\<^verbatim>\<open>observed_completion.rs\<close>) and the check of every live record against the
  scheduler's roster and the expectations of the lanes (\<^verbatim>\<open>completed_readback_join.rs\<close>).

  The bytes reach the host through a readback object of the external runtime; only what its accessors return is
  kept.  The digest of the image is computed by an external hash and the allocator may refuse; both are parameters.
\<close>

subsection \<open>Shape\<close>

record completion_output_shape =
  os_selection :: qwen3_plan_selection
  os_sequences :: u32
  os_extent_bytes :: u64

text \<open>The constructors that wrap errors of the external allocation session do not occur in the operations below.\<close>

datatype completion_output_error =
    InvalidTargetSelection qwen3_plan_selection
  | ExtentOverflow
  | OutputSelectionDrift qwen3_plan_selection qwen3_plan_selection
  | AllocationExtentDrift u64 u64
  | AllocationAlignmentDrift u64 u64
  | DispatchRangeDrift
  | DraftCatchupCustodyDrift
  | ReadbackExtentDrift u64 u64
  | SequenceOutOfRange u32 u32

definition m1_completion_output_shape :: "qwen3_plan_selection \<Rightarrow> completion_output_error + completion_output_shape" where
  "m1_completion_output_shape selection =
     (case bucket_dimensions (sel_bucket selection) (sel_role selection) (sel_mode selection) of
        None \<Rightarrow> Inl (InvalidTargetSelection selection)
      | Some dimensions \<Rightarrow>
          if sel_role selection \<noteq> Target8B then Inl (InvalidTargetSelection selection)
          else case u_mul U64_MAX (pd_sequences dimensions) RECORD_BYTES of
            None \<Rightarrow> Inl ExtentOverflow
          | Some extent_bytes \<Rightarrow>
              Inr \<lparr>os_selection = selection, os_sequences = pd_sequences dimensions, os_extent_bytes = extent_bytes\<rparr>)"

definition revalidate_selection :: "completion_output_shape \<Rightarrow> qwen3_plan_selection \<Rightarrow> completion_output_error + unit" where
  "revalidate_selection this selection =
     (case m1_completion_output_shape selection of
        Inl e \<Rightarrow> Inl e
      | Inr actual \<Rightarrow>
          if actual \<noteq> this then Inl (OutputSelectionDrift (os_selection this) selection) else Inr ())"

definition record_bytes :: "completion_output_shape \<Rightarrow> u8 list \<Rightarrow> u32 \<Rightarrow> completion_output_error + u8 list" where
  "record_bytes this bytes sequence =
     (if length bytes \<noteq> os_extent_bytes this then Inl (ReadbackExtentDrift (os_extent_bytes this) (length bytes))
      else if os_sequences this \<le> sequence then Inl (SequenceOutOfRange (os_sequences this) sequence)
      else case u_mul U64_MAX sequence RECORD_BYTES of
        None \<Rightarrow> Inl ExtentOverflow
      | Some start \<Rightarrow>
          (case usize_add start RECORD_BYTES of
             None \<Rightarrow> Inl ExtentOverflow
           | Some stop \<Rightarrow>
               (case byte_slice bytes start stop of None \<Rightarrow> Inl ExtentOverflow | Some bs \<Rightarrow> Inr bs)))"

subsection \<open>Observation\<close>

record observed_completion_image =
  oi_shape :: completion_output_shape
  oi_epoch :: completion_epoch
  oi_raw_sha256 :: "u8 list"
  oi_dispatch_generation :: u64
  oi_data_index :: usize
  oi_offset_bytes :: u64
  oi_bytes :: "u8 list"
  oi_records :: "compact_completion_record list"

datatype observed_image_error =
    ImageSelectionDrift qwen3_plan_selection qwen3_plan_selection
  | SchedulerCapacity usize usize
  | ImageOutput completion_output_error
  | ImageLiveRecord usize wire_error
  | InactiveRecordNonzero usize usize

record observed_host_storage =
  hs_bytes :: "u8 list option"
  hs_record_capacity :: usize

abbreviation scheduled_epoch :: "m1_scheduled_dispatch \<Rightarrow> completion_epoch" where
  "scheduled_epoch scheduled \<equiv> db_epoch (m1_batch scheduled)"

abbreviation scheduled_member_count :: "m1_scheduled_dispatch \<Rightarrow> usize" where
  "scheduled_member_count scheduled \<equiv> db_member_count (m1_batch scheduled)"

definition scheduled_member :: "m1_scheduled_dispatch \<Rightarrow> usize \<Rightarrow> request_id option exec" where
  "scheduled_member scheduled index =
     (if index < M1_MAX_ACTIVE_SEQUENCES then idx (m1_members scheduled) index else Some None)"

text \<open>\<open>u32::try_from(lane).unwrap_or(u32::MAX)\<close>.\<close>

definition lane_u32 :: "usize \<Rightarrow> u32" where "lane_u32 lane = min lane U32_MAX"

fun observe_live ::
  "nat \<Rightarrow> usize \<Rightarrow> completion_output_shape \<Rightarrow> u8 list \<Rightarrow> compact_completion_record list \<Rightarrow>
   (observed_image_error + compact_completion_record list) exec" where
  "observe_live 0 lane shape bytes records = Some (Inr records)"
| "observe_live (Suc n) lane shape bytes records =
     (case record_bytes shape bytes (lane_u32 lane) of
        Inl e \<Rightarrow> Some (Inl (ImageOutput e))
      | Inr bs \<Rightarrow> do {
          d \<leftarrow> decode_completion_record bs;
          case d of
            Inl e \<Rightarrow> Some (Inl (ImageLiveRecord lane e))
          | Inr record \<Rightarrow> observe_live n (lane + 1) shape bytes (records @ [record]) })"

text \<open>\<open>iter().position(P)\<close>.\<close>

fun first_position :: "('a \<Rightarrow> bool) \<Rightarrow> 'a list \<Rightarrow> nat option" where
  "first_position P [] = None"
| "first_position P (x # xs) = (if P x then Some 0 else map_option Suc (first_position P xs))"

fun observe_inactive :: "nat \<Rightarrow> usize \<Rightarrow> completion_output_shape \<Rightarrow> u8 list \<Rightarrow> observed_image_error + unit" where
  "observe_inactive 0 lane shape bytes = Inr ()"
| "observe_inactive (Suc n) lane shape bytes =
     (case record_bytes shape bytes (lane_u32 lane) of
        Inl e \<Rightarrow> Inl (ImageOutput e)
      | Inr bs \<Rightarrow>
          (case first_position (\<lambda>b. b \<noteq> 0) bs of
             Some record_offset \<Rightarrow> Inl (InactiveRecordNonzero lane record_offset)
           | None \<Rightarrow> observe_inactive n (lane + 1) shape bytes))"

definition observe_records_with_storage ::
  "(u8 list \<Rightarrow> u8 list) \<Rightarrow> (usize \<Rightarrow> bool) \<Rightarrow> completion_output_shape \<Rightarrow> qwen3_plan_selection \<Rightarrow> m1_scheduled_dispatch \<Rightarrow>
   u8 list \<Rightarrow> usize \<Rightarrow> (observed_image_error + (u8 list \<times> compact_completion_record list)) exec" where
  "observe_records_with_storage digest reserve shape queue_selection scheduled bytes record_capacity =
     (if os_selection shape \<noteq> queue_selection then Some (Inl (ImageSelectionDrift queue_selection (os_selection shape)))
      else let capacity = os_sequences shape; members = scheduled_member_count scheduled in
        if capacity < members then Some (Inl (SchedulerCapacity members capacity))
        else if record_capacity < members \<and> \<not> reserve members then Some (Inl (ImageOutput ExtentOverflow))
        else do {
          live \<leftarrow> observe_live members 0 shape bytes [];
          case live of
            Inl e \<Rightarrow> Some (Inl e)
          | Inr records \<Rightarrow>
              (case observe_inactive (capacity - members) members shape bytes of
                 Inl e \<Rightarrow> Some (Inl e)
               | Inr _ \<Rightarrow> Some (Inr (digest bytes, records))) })"

text \<open>On an error the storage comes back with its bytes.\<close>

definition observe_m1_completed_output_with_storage ::
  "(u8 list \<Rightarrow> u8 list) \<Rightarrow> (usize \<Rightarrow> bool) \<Rightarrow> completion_output_shape \<Rightarrow> qwen3_plan_selection \<Rightarrow> m1_scheduled_dispatch \<Rightarrow>
   u64 \<Rightarrow> usize \<Rightarrow> u64 \<Rightarrow> observed_host_storage \<Rightarrow>
   ((observed_image_error \<times> observed_host_storage) + observed_completion_image) exec" where
  "observe_m1_completed_output_with_storage digest reserve shape queue_selection scheduled dispatch_generation data_index
     offset_bytes storage =
     (case hs_bytes storage of
        None \<Rightarrow> Some (Inl (ImageOutput ExtentOverflow, storage))
      | Some bytes \<Rightarrow> do {
          observed \<leftarrow> observe_records_with_storage digest reserve shape queue_selection scheduled bytes (hs_record_capacity storage);
          case observed of
            Inl e \<Rightarrow> Some (Inl (e, storage))
          | Inr (raw_sha256, records) \<Rightarrow>
              Some (Inr \<lparr>oi_shape = shape, oi_epoch = scheduled_epoch scheduled, oi_raw_sha256 = raw_sha256,
                oi_dispatch_generation = dispatch_generation, oi_data_index = data_index, oi_offset_bytes = offset_bytes,
                oi_bytes = bytes, oi_records = records\<rparr>) })"

definition raw_record_bytes :: "observed_completion_image \<Rightarrow> u32 \<Rightarrow> u8 list option" where
  "raw_record_bytes this lane =
     (case record_bytes (oi_shape this) (oi_bytes this) lane of Inl _ \<Rightarrow> None | Inr bs \<Rightarrow> Some bs)"

subsection \<open>Check\<close>

record checked_completion_output =
  co_selection :: qwen3_plan_selection
  co_epoch :: completion_epoch
  co_dispatch_generation :: u64
  co_data_index :: usize
  co_offset_bytes :: u64
  co_extent_bytes :: u64
  co_raw_sha256 :: "u8 list"
  co_records :: "checked_record list"

datatype completed_output_error =
    CompletedSelectionDrift qwen3_plan_selection qwen3_plan_selection
  | ObservationEpochDrift completion_epoch completion_epoch
  | ExpectationCount usize usize
  | PlanSelectionDrift usize qwen3_plan_selection qwen3_plan_selection
  | PlanEpochDrift usize completion_epoch completion_epoch
  | RequestOrderDrift usize request_id request_id
  | CompletedOutput completion_output_error
  | LiveRecord usize wire_error
  | QualificationFinalChoiceCount usize usize
  | QualificationMemberCount usize usize
  | QualificationContextDrift usize
  | QualificationCaptureRequiresEvidence usize

fun check_contexts :: "usize \<Rightarrow> validated_context_step \<Rightarrow> wire_expectation list \<Rightarrow> completed_output_error + unit" where
  "check_contexts lane first [] = Inr ()"
| "check_contexts lane first (expectation # expectations) =
     (case qualification_context (we_semantics expectation) of
        None \<Rightarrow> Inl (QualificationContextDrift lane)
      | Some ctx \<Rightarrow>
          if vc_policy_identity ctx \<noteq> vc_policy_identity first \<or> vc_grouping ctx \<noteq> vc_grouping first
             \<or> vc_ordinal ctx \<noteq> vc_ordinal first
             \<or> vc_declared_workload_digest ctx \<noteq> vc_declared_workload_digest first \<or> vc_step ctx \<noteq> vc_step first
          then Inl (QualificationContextDrift lane)
          else check_contexts (lane + 1) first expectations)"

definition check_qualification_contexts ::
  "m1_scheduled_dispatch \<Rightarrow> wire_expectation list \<Rightarrow> completed_output_error + unit" where
  "check_qualification_contexts scheduled expectations =
     (case (case expectations of [] \<Rightarrow> None | expectation # _ \<Rightarrow> qualification_context (we_semantics expectation)) of
        Some first \<Rightarrow>
          (let expected = grouping_sequences (vc_grouping first) in
           if scheduled_member_count scheduled \<noteq> expected
             then Inl (QualificationMemberCount expected (scheduled_member_count scheduled))
           else check_contexts 0 first expectations)
      | None \<Rightarrow>
          (case first_position (\<lambda>expectation. qualification_context (we_semantics expectation) \<noteq> None) expectations of
             Some lane \<Rightarrow> Inl (QualificationContextDrift lane)
           | None \<Rightarrow> Inr ()))"

definition check_lane ::
  "observed_completion_image \<Rightarrow> qwen3_plan_selection \<Rightarrow> m1_scheduled_dispatch \<Rightarrow> token_id list option \<Rightarrow> usize \<Rightarrow>
   wire_expectation \<Rightarrow> (completed_output_error + checked_record) exec" where
  "check_lane observed queue_selection scheduled final_rows lane expectation =
     (let plan = we_plan expectation in
      case (case qualification_context (we_semantics expectation) of
              Some ctx \<Rightarrow> if lb_lane_ordinal (vc_lane ctx) \<noteq> lane then Some (lb_lane_ordinal (vc_lane ctx)) else None
            | None \<Rightarrow> None) of
        Some actual \<Rightarrow> Some (Inl (LiveRecord lane (QualificationLaneMismatch (lane_u32 lane) actual)))
      | None \<Rightarrow>
          if sp_selection plan \<noteq> queue_selection
            then Some (Inl (PlanSelectionDrift lane queue_selection (sp_selection plan)))
          else if sp_completion_epoch plan \<noteq> scheduled_epoch scheduled
            then Some (Inl (PlanEpochDrift lane (scheduled_epoch scheduled) (sp_completion_epoch plan)))
          else do {
            member \<leftarrow> scheduled_member scheduled lane;
            case member of
              None \<Rightarrow> Some (Inl (ExpectationCount (scheduled_member_count scheduled) lane))
            | Some expected_request \<Rightarrow>
                if sp_request plan \<noteq> expected_request
                  then Some (Inl (RequestOrderDrift lane expected_request (sp_request plan)))
                else (case raw_record_bytes observed (lane_u32 lane) of
                    None \<Rightarrow> Some (Inl (CompletedOutput (SequenceOutOfRange (os_sequences (oi_shape observed)) (lane_u32 lane))))
                  | Some bs \<Rightarrow>
                      (case (we_semantics expectation, final_rows) of
                         (QualificationFinalRow _, Some rows) \<Rightarrow>
                           (case idx rows lane of
                              None \<Rightarrow> Some (Inl (QualificationFinalChoiceCount (scheduled_member_count scheduled) (length rows)))
                            | Some choice \<Rightarrow>
                                map_option (map_sum (LiveRecord lane) id)
                                  (check_inert_qualification_final_completion_record bs expectation choice))
                       | _ \<Rightarrow> map_option (map_sum (LiveRecord lane) id) (check_inert_completion_record bs expectation))) })"

fun check_lanes ::
  "observed_completion_image \<Rightarrow> qwen3_plan_selection \<Rightarrow> m1_scheduled_dispatch \<Rightarrow> token_id list option \<Rightarrow> usize \<Rightarrow>
   wire_expectation list \<Rightarrow> checked_record list \<Rightarrow> (completed_output_error + checked_record list) exec" where
  "check_lanes observed queue_selection scheduled final_rows lane [] records = Some (Inr records)"
| "check_lanes observed queue_selection scheduled final_rows lane (expectation # expectations) records = do {
     checked \<leftarrow> check_lane observed queue_selection scheduled final_rows lane expectation;
     case checked of
       Inl e \<Rightarrow> Some (Inl e)
     | Inr record \<Rightarrow>
         check_lanes observed queue_selection scheduled final_rows (lane + 1) expectations (records @ [record]) }"

definition check_m1_completed_output ::
  "(usize \<Rightarrow> bool) \<Rightarrow> observed_completion_image \<Rightarrow> qwen3_plan_selection \<Rightarrow> m1_scheduled_dispatch \<Rightarrow> wire_expectation list \<Rightarrow>
   token_id list option \<Rightarrow> usize \<Rightarrow> (completed_output_error + checked_completion_output) exec" where
  "check_m1_completed_output reserve observed queue_selection scheduled expectations final_rows record_capacity =
     (if os_selection (oi_shape observed) \<noteq> queue_selection
        then Some (Inl (CompletedSelectionDrift queue_selection (os_selection (oi_shape observed))))
      else if oi_epoch observed \<noteq> scheduled_epoch scheduled
        then Some (Inl (ObservationEpochDrift (oi_epoch observed) (scheduled_epoch scheduled)))
      else if length expectations \<noteq> scheduled_member_count scheduled
        then Some (Inl (ExpectationCount (scheduled_member_count scheduled) (length expectations)))
      else case (case final_rows of
                   Some rows \<Rightarrow> if length rows \<noteq> scheduled_member_count scheduled then Some (length rows) else None
                 | None \<Rightarrow> None) of
        Some actual \<Rightarrow> Some (Inl (QualificationFinalChoiceCount (scheduled_member_count scheduled) actual))
      | None \<Rightarrow>
          (case check_qualification_contexts scheduled expectations of
             Inl e \<Rightarrow> Some (Inl e)
           | Inr _ \<Rightarrow>
               if record_capacity < length expectations \<and> \<not> reserve (length expectations)
                 then Some (Inl (CompletedOutput ExtentOverflow))
               else do {
                 lanes \<leftarrow> check_lanes observed queue_selection scheduled final_rows 0 expectations [];
                 case lanes of
                   Inl e \<Rightarrow> Some (Inl e)
                 | Inr records \<Rightarrow>
                     Some (Inr \<lparr>co_selection = queue_selection, co_epoch = scheduled_epoch scheduled,
                       co_dispatch_generation = oi_dispatch_generation observed, co_data_index = oi_data_index observed,
                       co_offset_bytes = oi_offset_bytes observed, co_extent_bytes = os_extent_bytes (oi_shape observed),
                       co_raw_sha256 = oi_raw_sha256 observed, co_records = records\<rparr>) }))"

definition check_m1_qualification_completed_output ::
  "(usize \<Rightarrow> bool) \<Rightarrow> observed_completion_image \<Rightarrow> qwen3_plan_selection \<Rightarrow> m1_scheduled_dispatch \<Rightarrow> wire_expectation list \<Rightarrow>
   token_id list \<Rightarrow> (completed_output_error + checked_completion_output) exec" where
  "check_m1_qualification_completed_output reserve observed queue_selection scheduled expectations final_rows =
     (case first_position (\<lambda>expectation. case we_semantics expectation of QualificationFinalRow _ \<Rightarrow> False | _ \<Rightarrow> True) expectations of
        Some lane \<Rightarrow> Some (Inl (QualificationCaptureRequiresEvidence lane))
      | None \<Rightarrow> check_m1_completed_output reserve observed queue_selection scheduled expectations (Some final_rows) 0)"

end
