(* ===== verification/CompletionOutput_Properties.thy ===== *)
theory CompletionOutput_Properties
  imports CompletionOutput
begin

text \<open>
  A batch image passes observation and check exactly when it is the image of the canonical records of commits that the
  lanes' expectations admit, in the scheduler's order, with zeros in the lanes that carry no request.
\<close>

definition scheduled_wf :: "m1_scheduled_dispatch \<Rightarrow> bool" where
  "scheduled_wf s \<longleftrightarrow> length (m1_members s) = M1_MAX_ACTIVE_SEQUENCES \<and> scheduled_member_count s \<le> M1_MAX_ACTIVE_SEQUENCES
     \<and> (\<forall>i < scheduled_member_count s. m1_members s ! i \<noteq> None)"

lemma shape_facts:
  assumes "m1_completion_output_shape sel = Inr shape"
  shows "os_selection shape = sel" "os_extent_bytes shape = 120 * os_sequences shape" "os_sequences shape \<le> 32" "1 \<le> os_sequences shape"
    "sel_role sel = Target8B" "bucket_dimensions (sel_bucket sel) Target8B (sel_mode sel) \<noteq> None"
  using assms bucket_dimensions_bounds [of "sel_bucket sel" "sel_role sel" "sel_mode sel"]
  by (auto simp: m1_completion_output_shape_def u_mul_def RECORD_BYTES_def split: option.splits if_splits)

definition lane_bytes :: "nat \<Rightarrow> u8 list \<Rightarrow> u8 list" where
  "lane_bytes lane bytes = part (lane * 120) 120 bytes"

lemma record_bytes_eq:
  assumes "m1_completion_output_shape sel = Inr shape" "lane < os_sequences shape"
  shows "record_bytes shape bytes (lane_u32 lane) =
    (if length bytes \<noteq> os_extent_bytes shape then Inl (ReadbackExtentDrift (os_extent_bytes shape) (length bytes))
     else Inr (lane_bytes lane bytes))"
proof -
  note f = shape_facts [OF assms(1)]
  have l: "lane_u32 lane = lane" using assms(2) f(3) by (simp add: lane_u32_def)
  have "lane * 120 + 120 \<le> 120 * os_sequences shape" using assms(2) by simp
  moreover have "lane * 120 + 120 \<le> U64_MAX" using assms(2) f(3) by simp
  ultimately show ?thesis using assms(2) f(2)
    by (simp add: record_bytes_def l RECORD_BYTES_def exec_simps byte_slice_ok lane_bytes_def)
qed

lemma observe_live_iff:
  assumes shape: "m1_completion_output_shape sel = Inr shape" and "lane + n \<le> os_sequences shape"
  shows "observe_live n lane shape bytes acc \<noteq> None \<and>
    (observe_live n lane shape bytes acc = Some (Inr rs) \<longleftrightarrow>
      (\<exists>rs'. rs = acc @ rs' \<and> length rs' = n \<and> (0 < n \<longrightarrow> length bytes = os_extent_bytes shape)
        \<and> (\<forall>i < n. decode_completion_record (lane_bytes (lane + i) bytes) = Some (Inr (rs' ! i)))))"
  using assms(2)
proof (induction n arbitrary: lane acc)
  case (Suc n)
  have lane: "lane < os_sequences shape" using Suc.prems by simp
  show ?case
  proof (cases "length bytes = os_extent_bytes shape")
    case False
    then show ?thesis using record_bytes_eq [OF shape lane] by simp
  next
    case True
    obtain d where d: "decode_completion_record (lane_bytes lane bytes) = Some d" by (simp add: decode_eq)
    show ?thesis
    proof (cases d)
      case (Inl e)
      then show ?thesis using True d record_bytes_eq [OF shape lane] by (auto intro: exI [of _ 0])
    next
      case (Inr r)
      have IH: "observe_live n (Suc lane) shape bytes (acc @ [r]) \<noteq> None \<and>
        (observe_live n (Suc lane) shape bytes (acc @ [r]) = Some (Inr rs) \<longleftrightarrow>
          (\<exists>rs'. rs = (acc @ [r]) @ rs' \<and> length rs' = n
            \<and> (\<forall>i < n. decode_completion_record (lane_bytes (Suc lane + i) bytes) = Some (Inr (rs' ! i)))))"
        using Suc.IH [of "Suc lane" "acc @ [r]"] Suc.prems True by simp
      have "(\<exists>rs'. rs = (acc @ [r]) @ rs' \<and> length rs' = n
            \<and> (\<forall>i < n. decode_completion_record (lane_bytes (Suc lane + i) bytes) = Some (Inr (rs' ! i))))
          \<longleftrightarrow> (\<exists>rs'. rs = acc @ rs' \<and> length rs' = Suc n
            \<and> (\<forall>i < Suc n. decode_completion_record (lane_bytes (lane + i) bytes) = Some (Inr (rs' ! i))))"
        using d Inr by (auto simp: All_less_Suc2 length_Suc_conv)
      then show ?thesis using IH True d Inr record_bytes_eq [OF shape lane] by simp
    qed
  qed
qed auto

lemma first_position_None: "first_position P xs = None \<longleftrightarrow> (\<forall>x \<in> set xs. \<not> P x)"
  by (induction xs) auto

lemma observe_inactive_iff:
  assumes shape: "m1_completion_output_shape sel = Inr shape" and "lane + n \<le> os_sequences shape"
  shows "observe_inactive n lane shape bytes = Inr () \<longleftrightarrow>
    (0 < n \<longrightarrow> length bytes = os_extent_bytes shape) \<and> (\<forall>i < n. \<forall>b \<in> set (lane_bytes (lane + i) bytes). b = 0)"
  using assms(2)
proof (induction n arbitrary: lane)
  case (Suc n)
  then have "lane < os_sequences shape" by simp
  note b = record_bytes_eq [OF shape this, of bytes]
  have p: "first_position (\<lambda>b. b \<noteq> 0) (lane_bytes lane bytes) = None \<longleftrightarrow> (\<forall>b \<in> set (lane_bytes lane bytes). b = 0)"
    by (simp add: first_position_None)
  show ?case using b Suc.IH [of "Suc lane"] Suc.prems p
    by (cases "first_position (\<lambda>b. b \<noteq> 0) (lane_bytes lane bytes)") (auto simp: All_less_Suc2)
qed simp

subsection \<open>The image of a batch\<close>

definition batch_image :: "nat \<Rightarrow> compact_completion_record list \<Rightarrow> u8 list" where
  "batch_image capacity rs = concat (map encode_record rs @ replicate (capacity - length rs) (replicate 120 0))"

lemma batch_image_iff:
  assumes "length rs \<le> capacity" "\<forall>r \<in> set rs. record_wf r"
  shows "bytes = batch_image capacity rs \<longleftrightarrow> length bytes = 120 * capacity \<and> (\<forall>i < length rs. lane_bytes i bytes = encode_record (rs ! i))
    \<and> (\<forall>i \<in> {length rs..<capacity}. lane_bytes i bytes = replicate 120 0)"
proof -
  let ?lanes = "map encode_record rs @ replicate (capacity - length rs) (replicate 120 0)"
  have len: "\<forall>x \<in> set ?lanes. length (id x) = 120" using assms(2) length_encode_record by auto
  have n: "length ?lanes = capacity" using assms(1) by simp
  have total: "length (concat ?lanes) = 120 * capacity"
  proof -
    have "map length ?lanes = replicate capacity 120" using len n by (intro replicate_eqI) auto
    then show ?thesis by (simp only: length_concat sum_list_replicate) simp
  qed
  have nth: "lane_bytes i (concat ?lanes) = ?lanes ! i" if "i < capacity" for i
    using chunk_of_concat [OF len, of i] that n by (simp add: lane_bytes_def)
  show ?thesis
  proof
    assume "bytes = batch_image capacity rs"
    then show "length bytes = 120 * capacity \<and> (\<forall>i < length rs. lane_bytes i bytes = encode_record (rs ! i))
      \<and> (\<forall>i \<in> {length rs..<capacity}. lane_bytes i bytes = replicate 120 0)"
      using total nth assms(1) by (auto simp: batch_image_def nth_append)
  next
    assume a: "length bytes = 120 * capacity \<and> (\<forall>i < length rs. lane_bytes i bytes = encode_record (rs ! i))
      \<and> (\<forall>i \<in> {length rs..<capacity}. lane_bytes i bytes = replicate 120 0)"
    have "map (\<lambda>i. lane_bytes i bytes) [0..<capacity] = ?lanes"
      using a n by (intro nth_equalityI) (auto simp: nth_append)
    moreover have "concat (map (\<lambda>i. lane_bytes i bytes) [0..<capacity]) = bytes"
      using a chunks_concat [of bytes capacity 120] by (simp add: lane_bytes_def mult.commute)
    ultimately show "bytes = batch_image capacity rs" unfolding batch_image_def by metis
  qed
qed

lemma lane_bytes_zero: "length (lane_bytes i bytes) = 120 \<Longrightarrow> (\<forall>b \<in> set (lane_bytes i bytes). b = 0) \<longleftrightarrow> lane_bytes i bytes = replicate 120 0"
  by (metis in_set_replicate replicate_eqI)

lemma length_lane_bytes: "length bytes = 120 * n \<Longrightarrow> i < n \<Longrightarrow> length (lane_bytes i bytes) = 120"
  by (simp add: lane_bytes_def)

lemma all_less_shift: "(\<forall>i < m - n. P (n + i)) \<longleftrightarrow> (\<forall>i \<in> {n..<m}. P (i :: nat))"
proof
  assume a: "\<forall>i < m - n. P (n + i)"
  show "\<forall>i \<in> {n..<m}. P i"
  proof
    fix i assume "i \<in> {n..<m}"
    then show "P i" using a [rule_format, of "i - n"] by (simp add: diff_less_mono)
  qed
qed auto

text \<open>Observation yields the live records of the image and nothing else; the record storage has room for them or can be
  grown.\<close>

definition room :: "(usize \<Rightarrow> bool) \<Rightarrow> usize \<Rightarrow> usize \<Rightarrow> bool" where
  "room reserve capacity n \<longleftrightarrow> n \<le> capacity \<or> reserve n"

lemma observe_records_iff:
  assumes shape: "m1_completion_output_shape sel = Inr shape" and bytes: "is_bytes bytes"
  shows "observe_records_with_storage digest reserve shape sel scheduled bytes cap \<noteq> None \<and>
    (observe_records_with_storage digest reserve shape sel scheduled bytes cap = Some (Inr (h, rs)) \<longleftrightarrow>
       room reserve cap (scheduled_member_count scheduled) \<and> h = digest bytes \<and> length rs = scheduled_member_count scheduled \<and> length rs \<le> os_sequences shape
       \<and> (\<forall>r \<in> set rs. wire_record_ok r) \<and> bytes = batch_image (os_sequences shape) rs)"
proof (cases "scheduled_member_count scheduled \<le> os_sequences shape \<and> room reserve cap (scheduled_member_count scheduled)")
  case False
  then show ?thesis using shape_facts(1) [OF shape] by (auto simp: observe_records_with_storage_def room_def Let_def)
next
  case both: True
  then have True: "scheduled_member_count scheduled \<le> os_sequences shape"
    and res: "\<not> (cap < scheduled_member_count scheduled \<and> \<not> reserve (scheduled_member_count scheduled))" by (auto simp: room_def)
  let ?n = "scheduled_member_count scheduled" and ?cap = "os_sequences shape"
  note f = shape_facts [OF shape]
  have inner: "(0 < ?n \<longrightarrow> length bytes = os_extent_bytes shape) \<and> (0 < ?cap - ?n \<longrightarrow> length bytes = os_extent_bytes shape)
      \<longleftrightarrow> length bytes = 120 * ?cap" using f(2,4) by auto
  have live: "observe_live ?n 0 shape bytes [] \<noteq> None \<and> (observe_live ?n 0 shape bytes [] = Some (Inr rs) \<longleftrightarrow>
      length rs = ?n \<and> (0 < ?n \<longrightarrow> length bytes = os_extent_bytes shape)
        \<and> (\<forall>i < ?n. decode_completion_record (lane_bytes i bytes) = Some (Inr (rs ! i))))" for rs
    using observe_live_iff [OF shape, of 0 ?n bytes "[]" rs] True by auto
  then obtain v where v: "observe_live ?n 0 shape bytes [] = Some v" by blast
  have dead: "observe_inactive (?cap - ?n) ?n shape bytes = Inr () \<longleftrightarrow>
      (0 < ?cap - ?n \<longrightarrow> length bytes = os_extent_bytes shape) \<and> (\<forall>i < ?cap - ?n. \<forall>b \<in> set (lane_bytes (?n + i) bytes). b = 0)"
    using observe_inactive_iff [OF shape, of ?n "?cap - ?n" bytes] True by simp
  have sl: "is_bytes (lane_bytes i bytes)" for i using is_bytes_slice [OF bytes] by (simp add: lane_bytes_def)
  have whole: "length rs = ?n \<and> (\<forall>i < ?n. decode_completion_record (lane_bytes i bytes) = Some (Inr (rs ! i)))
      \<and> (\<forall>i < ?cap - ?n. \<forall>b \<in> set (lane_bytes (?n + i) bytes). b = 0)
    \<longleftrightarrow> length rs = ?n \<and> (\<forall>r \<in> set rs. wire_record_ok r) \<and> bytes = batch_image ?cap rs" if "length bytes = 120 * ?cap" for rs
  proof -
    have z: "(\<forall>i < ?cap - ?n. \<forall>b \<in> set (lane_bytes (?n + i) bytes). b = 0) \<longleftrightarrow> (\<forall>i \<in> {?n..<?cap}. lane_bytes i bytes = replicate 120 0)"
      using lane_bytes_zero length_lane_bytes [OF that] by (subst all_less_shift) (auto intro!: ball_cong)
    have d: "(\<forall>i < ?n. decode_completion_record (lane_bytes i bytes) = Some (Inr (rs ! i)))
        \<longleftrightarrow> (\<forall>r \<in> set rs. wire_record_ok r) \<and> (\<forall>i < ?n. lane_bytes i bytes = encode_record (rs ! i))" if "length rs = ?n"
      using decode_Inr_iff [OF sl] that by (auto simp: all_set_conv_all_nth)
    show ?thesis using z d batch_image_iff [of rs ?cap bytes] True \<open>length bytes = _\<close> by (auto simp: wire_record_ok_def)
  qed
  show ?thesis
  proof (cases v)
    case (Inl e)
    have "length rs \<noteq> ?n \<or> length bytes \<noteq> 120 * ?cap \<or> \<not> (\<forall>i < ?n. decode_completion_record (lane_bytes i bytes) = Some (Inr (rs ! i)))"
      using live [of rs] v Inl f(2) by auto
    then have "\<not> (length rs = ?n \<and> (\<forall>r \<in> set rs. wire_record_ok r) \<and> bytes = batch_image ?cap rs)"
      using whole [of rs] batch_image_iff [of rs ?cap bytes] True by (auto simp: wire_record_ok_def)
    then show ?thesis using v Inl both res f(1) by (auto simp: observe_records_with_storage_def Let_def)
  next
    case (Inr rs')
    have e: "observe_records_with_storage digest reserve shape sel scheduled bytes cap =
        Some (map_sum id (\<lambda>_. (digest bytes, rs')) (observe_inactive (?cap - ?n) ?n shape bytes))"
      using v Inr True res f(1) by (cases "observe_inactive (?cap - ?n) ?n shape bytes")
        (auto simp: observe_records_with_storage_def Let_def)
    have "rs' = rs \<longleftrightarrow> length rs = ?n \<and> (0 < ?n \<longrightarrow> length bytes = os_extent_bytes shape)
        \<and> (\<forall>i < ?n. decode_completion_record (lane_bytes i bytes) = Some (Inr (rs ! i)))"
      using live [of rs] v Inr by simp
    with dead inner have "observe_inactive (?cap - ?n) ?n shape bytes = Inr () \<and> rs' = rs \<longleftrightarrow> length bytes = 120 * ?cap \<and>
        length rs = ?n \<and> (\<forall>i < ?n. decode_completion_record (lane_bytes i bytes) = Some (Inr (rs ! i)))
        \<and> (\<forall>i < ?cap - ?n. \<forall>b \<in> set (lane_bytes (?n + i) bytes). b = 0)" by metis
    also have "\<dots> \<longleftrightarrow> length bytes = 120 * ?cap \<and> length rs = ?n \<and> (\<forall>r \<in> set rs. wire_record_ok r) \<and> bytes = batch_image ?cap rs"
      using whole [of rs] by metis
    also have "\<dots> \<longleftrightarrow> length rs = ?n \<and> (\<forall>r \<in> set rs. wire_record_ok r) \<and> bytes = batch_image ?cap rs"
      using batch_image_iff [of rs ?cap bytes] True by (auto simp: wire_record_ok_def)
    finally have "observe_inactive (?cap - ?n) ?n shape bytes = Inr () \<and> rs' = rs \<longleftrightarrow>
        length rs = ?n \<and> (\<forall>r \<in> set rs. wire_record_ok r) \<and> bytes = batch_image ?cap rs" .
    then show ?thesis using e both by (cases "observe_inactive (?cap - ?n) ?n shape bytes") auto
  qed
qed

subsection \<open>The check of the lanes\<close>

text \<open>What a lane's checked record must be, for its expectation: the plan is the scheduled one, a qualification context
  belongs to this lane, and the record is the canonical record of a commit the expectation admits.  The final row of a
  qualification lane is admitted on the evidence of the separately derived choice for that lane.\<close>

definition lane_evidence :: "token_id list option \<Rightarrow> nat \<Rightarrow> wire_semantics \<Rightarrow> token_id option" where
  "lane_evidence final_rows lane semantics =
     (case (semantics, final_rows) of (QualificationFinalRow _, Some rows) \<Rightarrow> Some (rows ! lane) | _ \<Rightarrow> None)"

definition lane_exact ::
  "qwen3_plan_selection \<Rightarrow> m1_scheduled_dispatch \<Rightarrow> token_id list option \<Rightarrow> nat \<Rightarrow> wire_expectation \<Rightarrow> checked_record \<Rightarrow> bool" where
  "lane_exact sel scheduled final_rows lane ex ck \<longleftrightarrow>
     sp_selection (we_plan ex) = sel \<and> sp_completion_epoch (we_plan ex) = scheduled_epoch scheduled
     \<and> m1_members scheduled ! lane = Some (sp_request (we_plan ex)) \<and> is_present (sp_plan_id (we_plan ex))
     \<and> (\<forall>ctx. qualification_context (we_semantics ex) = Some ctx \<longrightarrow> lb_lane_ordinal (vc_lane ctx) = lane)
     \<and> ck_selection ck = sel \<and> wire_record_ok (ck_record ck)
     \<and> (\<exists>c. semantics_accept sel (we_semantics ex) (lane_evidence final_rows lane (we_semantics ex)) c (ck_semantics ck)
          \<and> (\<forall>t \<in> set (gc_emitted_tokens c). t < QWEN3_VOCABULARY_SIZE)
          \<and> ck_record ck = canonical_record (sp_request (we_plan ex)) (sp_completion_epoch (we_plan ex)) (sp_plan_id (we_plan ex)) c)"

definition expectation_wf :: "wire_expectation \<Rightarrow> bool" where
  "expectation_wf ex \<longleftrightarrow> identity_wf (sp_plan_id (we_plan ex))"

text \<open>The lanes of one batch are all serving lanes, or all lanes of one step of one qualification run that
  has as many lanes.\<close>

definition same_qualification_step :: "validated_context_step \<Rightarrow> validated_context_step \<Rightarrow> bool" where
  "same_qualification_step a b \<longleftrightarrow> vc_policy_identity a = vc_policy_identity b \<and> vc_grouping a = vc_grouping b
     \<and> vc_ordinal a = vc_ordinal b \<and> vc_declared_workload_digest a = vc_declared_workload_digest b \<and> vc_step a = vc_step b"

definition contexts_agree :: "wire_expectation list \<Rightarrow> bool" where
  "contexts_agree exs \<longleftrightarrow> (\<forall>ex \<in> set exs. qualification_context (we_semantics ex) = None)
     \<or> (\<exists>step. length exs = grouping_sequences (vc_grouping step)
          \<and> (\<forall>ex \<in> set exs. \<exists>ctx. qualification_context (we_semantics ex) = Some ctx \<and> same_qualification_step ctx step))"

definition rows_fit :: "token_id list option \<Rightarrow> nat \<Rightarrow> bool" where
  "rows_fit final_rows n \<longleftrightarrow> (\<forall>rows. final_rows = Some rows \<longrightarrow> length rows = n)"

definition observed_batch ::
  "qwen3_plan_selection \<Rightarrow> completion_output_shape \<Rightarrow> m1_scheduled_dispatch \<Rightarrow> observed_completion_image \<Rightarrow> bool" where
  "observed_batch sel shape scheduled img \<longleftrightarrow> m1_completion_output_shape sel = Inr shape \<and> oi_shape img = shape
     \<and> is_bytes (oi_bytes img) \<and> length (oi_bytes img) = 120 * os_sequences shape
     \<and> scheduled_wf scheduled \<and> scheduled_member_count scheduled \<le> os_sequences shape"

lemma raw_record_bytes_eq:
  assumes "observed_batch sel shape scheduled img" "lane < os_sequences shape"
  shows "raw_record_bytes img (lane_u32 lane) = Some (lane_bytes lane (oi_bytes img))"
  using assms record_bytes_eq [of sel shape lane "oi_bytes img"] shape_facts(2) [of sel shape]
  by (simp add: raw_record_bytes_def observed_batch_def)

lemma check_lane_ordered:
  assumes "\<forall>ctx. qualification_context (we_semantics ex) = Some ctx \<longrightarrow> lb_lane_ordinal (vc_lane ctx) = lane"
    and "scheduled_member scheduled lane = Some (Some q)" "raw_record_bytes img (lane_u32 lane) = Some bs"
    and "check_completion_record bs ex (lane_evidence final_rows lane (we_semantics ex)) = Some v"
    and "\<forall>rows. final_rows = Some rows \<longrightarrow> lane < length rows"
  shows "check_lane img sel scheduled final_rows lane ex = Some (
      if sp_selection (we_plan ex) \<noteq> sel then Inl (PlanSelectionDrift lane sel (sp_selection (we_plan ex)))
      else if sp_completion_epoch (we_plan ex) \<noteq> scheduled_epoch scheduled
        then Inl (PlanEpochDrift lane (scheduled_epoch scheduled) (sp_completion_epoch (we_plan ex)))
      else if sp_request (we_plan ex) \<noteq> q then Inl (RequestOrderDrift lane q (sp_request (we_plan ex)))
      else map_sum (LiveRecord lane) id v)"
proof -
  have "(case qualification_context (we_semantics ex) of
      Some ctx \<Rightarrow> if lb_lane_ordinal (vc_lane ctx) \<noteq> lane then Some (lb_lane_ordinal (vc_lane ctx)) else None | None \<Rightarrow> None) = None"
    using assms(1) by (auto split: option.split)
  moreover have "(case (we_semantics ex, final_rows) of
      (QualificationFinalRow _, Some rows) \<Rightarrow>
        (case idx rows lane of
           None \<Rightarrow> Some (Inl (QualificationFinalChoiceCount (scheduled_member_count scheduled) (length rows)))
         | Some choice \<Rightarrow> map_option (map_sum (LiveRecord lane) id) (check_inert_qualification_final_completion_record bs ex choice))
    | _ \<Rightarrow> map_option (map_sum (LiveRecord lane) id) (check_inert_completion_record bs ex)) = Some (map_sum (LiveRecord lane) id v)"
    using assms(4,5) by (cases "we_semantics ex"; cases final_rows) (simp_all add: lane_evidence_def
        check_inert_completion_record_def check_inert_qualification_final_completion_record_def exec_simps)
  ultimately show ?thesis using assms(2,3) by (simp add: check_lane_def Let_def)
qed

lemma check_lane_iff:
  assumes batch: "observed_batch sel shape scheduled img" and lane: "lane < scheduled_member_count scheduled" and ex: "expectation_wf ex"
    and rows: "rows_fit final_rows (scheduled_member_count scheduled)"
  shows "check_lane img sel scheduled final_rows lane ex \<noteq> None \<and> (check_lane img sel scheduled final_rows lane ex = Some (Inr ck) \<longleftrightarrow>
    lane_exact sel scheduled final_rows lane ex ck \<and> lane_bytes lane (oi_bytes img) = encode_record (ck_record ck))"
proof -
  let ?plan = "we_plan ex" and ?bs = "lane_bytes lane (oi_bytes img)" and ?ev = "lane_evidence final_rows lane (we_semantics ex)"
  have shape: "m1_completion_output_shape sel = Inr shape"
    and members: "scheduled_wf scheduled" "scheduled_member_count scheduled \<le> os_sequences shape"
    and bytes: "is_bytes ?bs"
    using batch is_bytes_slice [of "oi_bytes img"] by (simp_all add: observed_batch_def lane_bytes_def)
  have l: "lane < os_sequences shape" "lane < M1_MAX_ACTIVE_SEQUENCES" "lane < length (m1_members scheduled)"
    using lane members by (auto simp: scheduled_wf_def)
  obtain q where q: "m1_members scheduled ! lane = Some q" using members(1) lane by (auto simp: scheduled_wf_def)
  have q': "scheduled_member scheduled lane = Some (Some q)" using l q by (simp add: scheduled_member_def exec_simps)
  note iff = check_completion_record_iff [OF bytes, of ex ?ev]
  have wf: "identity_wf (sp_plan_id ?plan)" using ex by (simp add: expectation_wf_def)
  obtain v where v: "check_completion_record ?bs ex ?ev = Some v" using iff [OF wf] by blast
  define ord where "ord = (\<forall>ctx. qualification_context (we_semantics ex) = Some ctx \<longrightarrow> lb_lane_ordinal (vc_lane ctx) = lane)"
  have e: "ord \<Longrightarrow> check_lane img sel scheduled final_rows lane ex = Some (
      if sp_selection ?plan \<noteq> sel then Inl (PlanSelectionDrift lane sel (sp_selection ?plan))
      else if sp_completion_epoch ?plan \<noteq> scheduled_epoch scheduled
        then Inl (PlanEpochDrift lane (scheduled_epoch scheduled) (sp_completion_epoch ?plan))
      else if sp_request ?plan \<noteq> q then Inl (RequestOrderDrift lane q (sp_request ?plan))
      else map_sum (LiveRecord lane) id v)"
    using check_lane_ordered [OF _ q' raw_record_bytes_eq [OF batch l(1)] v] rows lane unfolding ord_def by (simp add: rows_fit_def)
  have n: "\<not> ord \<Longrightarrow> \<exists>err. check_lane img sel scheduled final_rows lane ex = Some (Inl err)"
    by (auto simp: ord_def check_lane_def Let_def)
  have "\<lparr>ck_record = ck_record ck, ck_selection = ck_selection ck, ck_semantics = ck_semantics ck\<rparr> = ck" by simp
  then have ck: "v = Inr ck \<longleftrightarrow> ck_selection ck = sp_selection ?plan \<and> sel_role (ck_selection ck) = Target8B
      \<and> bucket_dimensions (sel_bucket (ck_selection ck)) Target8B (sel_mode (ck_selection ck)) \<noteq> None
      \<and> wire_record_ok (ck_record ck) \<and> ?bs = encode_record (ck_record ck)
      \<and> (\<exists>c. semantics_accept (ck_selection ck) (we_semantics ex) ?ev c (ck_semantics ck) \<and> is_present (sp_plan_id ?plan)
          \<and> (\<forall>t \<in> set (gc_emitted_tokens c). t < QWEN3_VOCABULARY_SIZE)
          \<and> ck_record ck = canonical_record (sp_request ?plan) (sp_completion_epoch ?plan) (sp_plan_id ?plan) c)"
    using iff [OF wf, of "ck_record ck" "ck_selection ck" "ck_semantics ck", THEN conjunct2] unfolding v option.inject by metis
  have V: "ord \<and> v = Inr ck \<and> sp_selection ?plan = sel \<and> sp_completion_epoch ?plan = scheduled_epoch scheduled \<and> sp_request ?plan = q
      \<longleftrightarrow> lane_exact sel scheduled final_rows lane ex ck \<and> ?bs = encode_record (ck_record ck)"
    using shape_facts(5,6) [OF shape] q unfolding lane_exact_def ck ord_def [symmetric]
    by (cases "sp_selection ?plan = sel"; cases "q = sp_request ?plan"; cases "ck_selection ck = sel"; cases ord) (simp_all, blast?)
  show ?thesis unfolding V [symmetric] using e n by (cases ord; cases v) auto
qed

lemma check_lanes_iff:
  assumes batch: "observed_batch sel shape scheduled img"
    and rows: "rows_fit final_rows (scheduled_member_count scheduled)"
    and "\<forall>ex \<in> set exs. expectation_wf ex" "lane + length exs \<le> scheduled_member_count scheduled"
  shows "check_lanes img sel scheduled final_rows lane exs acc \<noteq> None \<and> (check_lanes img sel scheduled final_rows lane exs acc = Some (Inr cks) \<longleftrightarrow>
    (\<exists>cks'. cks = acc @ cks' \<and> length cks' = length exs \<and> (\<forall>i < length exs. lane_exact sel scheduled final_rows (lane + i) (exs ! i) (cks' ! i)
       \<and> lane_bytes (lane + i) (oi_bytes img) = encode_record (ck_record (cks' ! i)))))"
  using assms(3,4)
proof (induction exs arbitrary: lane acc)
  case (Cons ex exs)
  then have "lane < scheduled_member_count scheduled" "expectation_wf ex" by simp_all
  note lane = check_lane_iff [OF batch this rows]
  obtain v where v: "check_lane img sel scheduled final_rows lane ex = Some v" using lane by blast
  show ?case
  proof (cases v)
    case (Inl e)
    then show ?thesis using v lane by (auto intro!: exI [of _ 0])
  next
    case (Inr ck)
    then have ck: "lane_exact sel scheduled final_rows lane ex c \<and> lane_bytes lane (oi_bytes img) = encode_record (ck_record c) \<longleftrightarrow> c = ck" for c
      using v lane [of c] by auto
    have "(\<exists>cks'. cks = (acc @ [ck]) @ cks' \<and> length cks' = length exs \<and> (\<forall>i < length exs. P (Suc lane + i) (exs ! i) (cks' ! i)))
        \<longleftrightarrow> (\<exists>cks'. cks = acc @ cks' \<and> length cks' = length (ex # exs) \<and> (\<forall>i < length (ex # exs). P (lane + i) ((ex # exs) ! i) (cks' ! i)))"
      if P: "\<And>c. P lane ex c \<longleftrightarrow> c = ck" for P :: "nat \<Rightarrow> wire_expectation \<Rightarrow> checked_record \<Rightarrow> bool"
      by (auto simp: All_less_Suc2 length_Suc_conv P)
    note step = this [of "\<lambda>l e c. lane_exact sel scheduled final_rows l e c \<and> lane_bytes l (oi_bytes img) = encode_record (ck_record c)", OF ck]
    show ?thesis using Cons.IH [of "Suc lane" "acc @ [ck]"] Cons.prems v Inr unfolding step [symmetric] by simp
  qed
qed auto

subsection \<open>From the bytes to the checked records\<close>

text \<open>The two stages in the order the engine calls them: observe the copied bytes, then check the observation, each into a
  record storage of a given capacity.\<close>

definition read_completed_output ::
  "(u8 list \<Rightarrow> u8 list) \<Rightarrow> (usize \<Rightarrow> bool) \<Rightarrow> completion_output_shape \<Rightarrow> m1_scheduled_dispatch \<Rightarrow> u8 list \<Rightarrow> usize \<Rightarrow> wire_expectation list \<Rightarrow>
   token_id list option \<Rightarrow> usize \<Rightarrow> checked_record list option exec" where
  "read_completed_output digest reserve shape scheduled bytes capacity expectations final_rows record_capacity = do {
     observed \<leftarrow> observe_m1_completed_output_with_storage digest reserve shape (os_selection shape) scheduled 0 0 0
       \<lparr>hs_bytes = Some bytes, hs_record_capacity = capacity\<rparr>;
     case observed of
       Inl _ \<Rightarrow> Some None
     | Inr img \<Rightarrow> do {
         checked \<leftarrow> check_m1_completed_output reserve img (os_selection shape) scheduled expectations final_rows record_capacity;
         Some (case checked of Inl _ \<Rightarrow> None | Inr out \<Rightarrow> Some (co_records out)) } }"

lemma check_contexts_iff:
  "check_contexts lane first exs = Inr () \<longleftrightarrow>
     (\<forall>ex \<in> set exs. \<exists>ctx. qualification_context (we_semantics ex) = Some ctx \<and> same_qualification_step ctx first)"
  by (induction exs arbitrary: lane) (auto simp: same_qualification_step_def split: option.split)

lemma contexts_iff:
  assumes "length exs = scheduled_member_count scheduled"
  shows "check_qualification_contexts scheduled exs = Inr () \<longleftrightarrow> contexts_agree exs"
proof (cases exs)
  case Nil
  then show ?thesis by (simp add: check_qualification_contexts_def contexts_agree_def)
next
  case (Cons ex rest)
  show ?thesis
  proof (cases "qualification_context (we_semantics ex)")
    case None
    let ?P = "\<lambda>ex. qualification_context (we_semantics ex) \<noteq> None"
    have "contexts_agree exs \<longleftrightarrow> first_position ?P exs = None"
      using None Cons by (auto simp: contexts_agree_def first_position_None)
    then show ?thesis using None Cons by (cases "first_position ?P exs") (auto simp: check_qualification_contexts_def)
  next
    case (Some first)
    have "contexts_agree exs \<longleftrightarrow> length exs = grouping_sequences (vc_grouping first)
        \<and> (\<forall>ex \<in> set exs. \<exists>ctx. qualification_context (we_semantics ex) = Some ctx \<and> same_qualification_step ctx first)"
      using Some Cons unfolding contexts_agree_def by (force simp: same_qualification_step_def)
    then show ?thesis using Some Cons assms check_contexts_iff [of 0 first exs]
      by (auto simp: check_qualification_contexts_def Let_def)
  qed
qed

lemma check_m1_completed_output_eq:
  assumes "observed_batch sel shape scheduled img" "oi_epoch img = scheduled_epoch scheduled"
  shows "map_option (\<lambda>c. case c of Inl _ \<Rightarrow> None | Inr out \<Rightarrow> Some (co_records out))
      (check_m1_completed_output reserve img sel scheduled exs final_rows record_capacity) =
    (if length exs = scheduled_member_count scheduled \<and> rows_fit final_rows (length exs) \<and> contexts_agree exs
        \<and> room reserve record_capacity (length exs)
     then map_option (case_sum (\<lambda>_. None) Some) (check_lanes img sel scheduled final_rows 0 exs []) else Some None)"
proof (cases "length exs = scheduled_member_count scheduled \<and> rows_fit final_rows (length exs)")
  case True
  have "os_selection (oi_shape img) = sel" using assms(1) shape_facts(1) by (simp add: observed_batch_def)
  moreover have "(case final_rows of Some rows \<Rightarrow> if length rows \<noteq> scheduled_member_count scheduled then Some (length rows) else None
      | None \<Rightarrow> None) = None" using True by (auto simp: rows_fit_def split: option.split)
  ultimately show ?thesis using True assms(2) contexts_iff [of exs scheduled]
    by (cases "check_qualification_contexts scheduled exs"; cases "check_lanes img sel scheduled final_rows 0 exs []")
       (auto simp: check_m1_completed_output_def room_def split: sum.split)
next
  case False
  then show ?thesis by (auto simp: check_m1_completed_output_def rows_fit_def split: option.splits)
qed

lemma checked_image_iff:
  assumes batch: "observed_batch sel shape scheduled img" and rows: "rows_fit final_rows (scheduled_member_count scheduled)"
    and exs: "\<forall>ex \<in> set exs. expectation_wf ex" and n: "length exs = scheduled_member_count scheduled"
    and rest: "\<forall>i \<in> {length exs..<os_sequences shape}. lane_bytes i (oi_bytes img) = replicate 120 0"
  shows "check_lanes img sel scheduled final_rows 0 exs [] \<noteq> None \<and> (check_lanes img sel scheduled final_rows 0 exs [] = Some (Inr cks) \<longleftrightarrow>
    oi_bytes img = batch_image (os_sequences shape) (map ck_record cks)
    \<and> length cks = length exs \<and> (\<forall>i < length exs. lane_exact sel scheduled final_rows i (exs ! i) (cks ! i)))"
proof -
  have ok: "\<forall>ck \<in> set cks. wire_record_ok (ck_record ck)"
    if "length cks = length exs" "\<forall>i < length exs. lane_exact sel scheduled final_rows i (exs ! i) (cks ! i)"
    using that by (auto simp: lane_exact_def all_set_conv_all_nth)
  have bytes: "oi_bytes img = batch_image (os_sequences shape) (map ck_record cks) \<longleftrightarrow>
      (\<forall>i < length exs. lane_bytes i (oi_bytes img) = encode_record (ck_record (cks ! i)))"
    if "length cks = length exs" "\<forall>ck \<in> set cks. wire_record_ok (ck_record ck)"
    using that n rest batch batch_image_iff [of "map ck_record cks" "os_sequences shape" "oi_bytes img"]
    by (auto simp: observed_batch_def wire_record_ok_def)
  show ?thesis using check_lanes_iff [OF batch rows exs, of 0 "[]" cks] n ok bytes by auto
qed

lemma read_completed_output_iff:
  assumes shape: "m1_completion_output_shape sel = Inr shape" and wf: "scheduled_wf scheduled"
    and bytes: "is_bytes bytes" and exs: "\<forall>ex \<in> set exs. expectation_wf ex"
  shows "read_completed_output digest reserve shape scheduled bytes capacity exs final_rows record_capacity \<noteq> None \<and>
    (read_completed_output digest reserve shape scheduled bytes capacity exs final_rows record_capacity = Some (Some cks) \<longleftrightarrow>
       room reserve capacity (length exs) \<and> room reserve record_capacity (length exs)
       \<and> length exs = scheduled_member_count scheduled \<and> length exs \<le> os_sequences shape
       \<and> rows_fit final_rows (length exs) \<and> contexts_agree exs
       \<and> bytes = batch_image (os_sequences shape) (map ck_record cks)
       \<and> length cks = length exs \<and> (\<forall>lane < length exs. lane_exact sel scheduled final_rows lane (exs ! lane) (cks ! lane)))"
proof -
  note obs = observe_records_iff [OF shape bytes, of digest reserve scheduled capacity]
  have sel: "os_selection shape = sel" using shape_facts(1) [OF shape] .
  obtain v where v: "observe_records_with_storage digest reserve shape sel scheduled bytes capacity = Some v" using obs by blast
  show ?thesis
  proof (cases v)
    case (Inl e)
    have "\<not> (room reserve capacity (length exs) \<and> room reserve record_capacity (length exs)
       \<and> length exs = scheduled_member_count scheduled \<and> length exs \<le> os_sequences shape
       \<and> rows_fit final_rows (length exs) \<and> contexts_agree exs
       \<and> bytes = batch_image (os_sequences shape) (map ck_record cks)
       \<and> length cks = length exs \<and> (\<forall>lane < length exs. lane_exact sel scheduled final_rows lane (exs ! lane) (cks ! lane)))"
      using obs [of "digest bytes" "map ck_record cks"] v Inl
      by (auto simp: lane_exact_def all_set_conv_all_nth)
    then show ?thesis using v Inl sel
      by (simp add: read_completed_output_def observe_m1_completed_output_with_storage_def)
  next
    case (Inr o')
    obtain h rs where o': "o' = (h, rs)" by (cases o')
    have rs: "room reserve capacity (scheduled_member_count scheduled)" "length rs = scheduled_member_count scheduled"
      "length rs \<le> os_sequences shape" "\<forall>r \<in> set rs. wire_record_ok r"
      "bytes = batch_image (os_sequences shape) rs" using obs [of h rs] v Inr o' by auto
    have img: "length bytes = 120 * os_sequences shape" using rs batch_image_iff [of rs _ bytes] by (auto simp: wire_record_ok_def)
    define im where "im = \<lparr>oi_shape = shape, oi_epoch = scheduled_epoch scheduled, oi_raw_sha256 = h, oi_dispatch_generation = 0,
      oi_data_index = 0, oi_offset_bytes = 0, oi_bytes = bytes, oi_records = rs\<rparr>"
    have batch: "observed_batch sel shape scheduled im" using shape bytes img wf rs(2,3) by (simp add: observed_batch_def im_def)
    have r: "read_completed_output digest reserve shape scheduled bytes capacity exs final_rows record_capacity =
        map_option (\<lambda>c. case c of Inl _ \<Rightarrow> None | Inr out \<Rightarrow> Some (co_records out))
          (check_m1_completed_output reserve im sel scheduled exs final_rows record_capacity)"
      using v Inr o' sel by (simp add: read_completed_output_def observe_m1_completed_output_with_storage_def im_def map_conv_bind_option comp_def)
    note c = r [unfolded check_m1_completed_output_eq [OF batch, of reserve exs final_rows record_capacity, simplified im_def, simplified, folded im_def]]
    show ?thesis
    proof (cases "length exs = scheduled_member_count scheduled \<and> rows_fit final_rows (length exs) \<and> contexts_agree exs
        \<and> room reserve record_capacity (length exs)")
      case False
      then show ?thesis using c by auto
    next
      case True
      have rows: "rows_fit final_rows (scheduled_member_count scheduled)" and n: "length exs = scheduled_member_count scheduled"
        using True by auto
      have "\<forall>i \<in> {length exs..<os_sequences shape}. lane_bytes i (oi_bytes im) = replicate 120 0"
        using rs(2-5) n batch_image_iff [of rs "os_sequences shape" bytes] by (simp add: im_def wire_record_ok_def)
      from checked_image_iff [OF batch rows exs n this, of cks] show ?thesis using c True rs(1-3)
        by (cases "check_lanes im sel scheduled final_rows 0 exs []") (auto simp: im_def split: sum.splits)
    qed
  qed
qed

text \<open>C18: a batch of completion records read back from the device, with its lanes checked against what the scheduler
  dispatched, is accepted exactly when the record storages have room or can be grown, there is one expectation per scheduled
  member, the lanes are all serving lanes or all lanes of one step of one qualification run, and the image is this: every lane
  that carries a request holds, in roster order, the canonical record of a commit its expectation admits, for the plan and the
  epoch that were dispatched, and every other lane is zero.  A direct lane admits only the expected token and a
  speculative lane only the verified greedy round; the final row of a qualification run admits only the token
  derived for that lane, and is refused without one; a prompt-commit lane of a qualification run publishes nothing and
  admits any single token of the vocabulary.  Neither stage panics on any image, with any expectations.\<close>

theorem completed_output_exact:
  assumes shape: "m1_completion_output_shape sel = Inr shape" and wf: "scheduled_wf scheduled"
    and bytes: "is_bytes bytes" and exs: "\<forall>ex \<in> set exs. expectation_wf ex"
  shows "read_completed_output digest reserve shape scheduled bytes capacity exs final_rows record_capacity \<noteq> None \<and>
    (read_completed_output digest reserve shape scheduled bytes capacity exs final_rows record_capacity = Some (Some cks) \<longleftrightarrow>
       room reserve capacity (length exs) \<and> room reserve record_capacity (length exs)
       \<and> length exs = scheduled_member_count scheduled \<and> length exs \<le> os_sequences shape
       \<and> rows_fit final_rows (length exs) \<and> contexts_agree exs
       \<and> bytes = batch_image (os_sequences shape) (map ck_record cks)
       \<and> length cks = length exs \<and> (\<forall>lane < length exs. lane_exact sel scheduled final_rows lane (exs ! lane) (cks ! lane)))"
  using assms by (rule read_completed_output_iff)

definition demo_scheduled :: m1_scheduled_dispatch where
  "demo_scheduled = \<lparr>m1_batch = \<lparr>db_epoch = \<lparr>epoch_value = 7\<rparr>, db_member_count = 1\<rparr>,
     m1_members = Some (request_id_new 3 1) # replicate 31 None\<rparr>"

definition demo_shape :: completion_output_shape where
  "demo_shape = \<lparr>os_selection = sp_selection (we_plan demo_expectation), os_sequences = 1, os_extent_bytes = 120\<rparr>"

definition demo_checked :: checked_record where
  "demo_checked = \<lparr>ck_record = demo_record, ck_selection = sp_selection (we_plan demo_expectation), ck_semantics = CheckedSpeculative 1 6\<rparr>"

lemma demo_lane_exact: "lane_exact (sp_selection (we_plan demo_expectation)) demo_scheduled None 0 demo_expectation demo_checked"
proof -
  have "semantics_accept (sp_selection (we_plan demo_expectation)) (we_semantics demo_expectation) None demo_commit (CheckedSpeculative 1 6)"
    by (simp add: semantics_accept_def demo_expectation_def verify_greedy_round_eq)
  then have "\<exists>c. semantics_accept (sp_selection (we_plan demo_expectation)) (we_semantics demo_expectation) None c (CheckedSpeculative 1 6)
      \<and> (\<forall>t \<in> set (gc_emitted_tokens c). t < QWEN3_VOCABULARY_SIZE)
      \<and> demo_record = canonical_record (sp_request (we_plan demo_expectation)) (sp_completion_epoch (we_plan demo_expectation))
          (sp_plan_id (we_plan demo_expectation)) c"
    by (intro exI [of _ demo_commit]) (simp add: demo_record_def demo_expectation_def QWEN3_VOCABULARY_SIZE_def)
  moreover have "is_present (sp_plan_id (we_plan demo_expectation))"
    by (simp add: demo_expectation_def is_present_def is_present_loop_iff)
  moreover have "sp_completion_epoch (we_plan demo_expectation) = scheduled_epoch demo_scheduled"
    "m1_members demo_scheduled ! 0 = Some (sp_request (we_plan demo_expectation))"
    "qualification_context (we_semantics demo_expectation) = None" "lane_evidence None 0 (we_semantics demo_expectation) = None"
    by (simp_all add: demo_expectation_def demo_scheduled_def qualification_context_def lane_evidence_def)
  ultimately show ?thesis using demo_record_ok by (simp add: lane_exact_def demo_checked_def)
qed

lemma demo_batch:
  "m1_completion_output_shape (sp_selection (we_plan demo_expectation)) = Inr demo_shape" "scheduled_wf demo_scheduled"
  "\<forall>ex \<in> set [demo_expectation]. expectation_wf ex" "encode_record demo_record = batch_image (os_sequences demo_shape) (map ck_record [demo_checked])"
  "length [demo_expectation] = scheduled_member_count demo_scheduled" "length [demo_expectation] \<le> os_sequences demo_shape"
  "contexts_agree [demo_expectation]"
  by (simp_all add: m1_completion_output_shape_def demo_expectation_def demo_shape_def plan_dims_def u_mul_def RECORD_BYTES_def
      scheduled_wf_def demo_scheduled_def M1_MAX_ACTIVE_SEQUENCES_def expectation_wf_def contexts_agree_def identity_wf_def qualification_context_def
      batch_image_def demo_checked_def)

theorem completed_output_exact_witness:
  "read_completed_output (\<lambda>_. replicate 32 0) (\<lambda>_. True) demo_shape demo_scheduled (encode_record demo_record) 0 [demo_expectation] None 0
     = Some (Some [demo_checked])
   \<and> read_completed_output (\<lambda>_. replicate 32 0) (\<lambda>_. False) demo_shape demo_scheduled (encode_record demo_record) 0 [demo_expectation] None 0
     = Some None"
proof
  note exact = completed_output_exact [OF demo_batch(1,2) encode_is_bytes [OF demo_record_ok] demo_batch(3),
      where digest = "\<lambda>_. replicate 32 0" and capacity = 0 and final_rows = None and record_capacity = 0]
  show "read_completed_output (\<lambda>_. replicate 32 0) (\<lambda>_. True) demo_shape demo_scheduled (encode_record demo_record) 0 [demo_expectation] None 0
     = Some (Some [demo_checked])"
    using exact [of "\<lambda>_. True" "[demo_checked]"] demo_batch(4-7) demo_lane_exact by (simp add: room_def rows_fit_def)
  show "read_completed_output (\<lambda>_. replicate 32 0) (\<lambda>_. False) demo_shape demo_scheduled (encode_record demo_record) 0 [demo_expectation] None 0
     = Some None"
  proof -
    have "\<not> room (\<lambda>_. False) 0 (length [demo_expectation])" by (simp add: room_def)
    then show ?thesis using exact [of "\<lambda>_. False"]
      by (cases "read_completed_output (\<lambda>_. replicate 32 0) (\<lambda>_. False) demo_shape demo_scheduled (encode_record demo_record) 0 [demo_expectation] None 0")
         (metis, metis not_Some_eq)
  qed
qed

end
