(* ===== verification/Generation.thy ===== *)
theory Generation
  imports CompletionOutput_Properties Radix
begin

text \<open>
  The coordinator of repeated speculative rounds (\<^verbatim>\<open>ferric-engine/src/speculative_generation_loop.rs\<close>): it binds a round
  to the active roster, turns a checked completion into what is published, committed and rolled back for every member,
  and commits that once.  The counter that numbers coordinators is a global of the source and is passed explicitly; the
  capacity of the caller's storage is a parameter.
\<close>

definition QWEN3_END_OF_TEXT_TOKEN :: token_id where "QWEN3_END_OF_TEXT_TOKEN = 151643"
definition QWEN3_IM_END_TOKEN :: token_id where "QWEN3_IM_END_TOKEN = 151645"
definition STOP_TOKEN_CAPACITY :: usize where "STOP_TOKEN_CAPACITY = 2"
definition INLINE_ROSTER_CAPACITY :: usize where "INLINE_ROSTER_CAPACITY = M1_MAX_ACTIVE_SEQUENCES"

subsection \<open>Data\<close>

record physical_shape =
  ps_selection :: qwen3_plan_selection
  ps_sequences :: u8
  ps_draft_tokens :: u8

record generation_policy =
  gp_max_output_tokens :: u32
  gp_stop_tokens :: "token_id list"
  gp_stop_token_count :: u8

record member_seed =
  sd_request :: request_id
  sd_round_anchor :: token_id
  sd_target_committed :: u32
  sd_draft_committed :: u32
  sd_policy :: generation_policy

datatype terminal_reason = StopToken token_id | OutputLimit

datatype cancellation_reason = ClientCancel | DeadlineCancel | ServerShutdown

datatype member_status = MemberActive | MemberCompleted terminal_reason | MemberCancelled cancellation_reason

record member_state =
  ms_request :: request_id
  ms_policy :: generation_policy
  ms_status :: member_status
  ms_next_anchor :: token_id
  ms_target_committed :: u32
  ms_draft_committed :: u32
  ms_generated_tokens :: u32

record member_snapshot =
  sn_request :: request_id
  sn_status :: member_status
  sn_next_anchor :: token_id
  sn_target_committed :: u32
  sn_draft_committed :: u32
  sn_generated_tokens :: u32

definition snapshot :: "member_state \<Rightarrow> member_snapshot" where
  "snapshot m = \<lparr>sn_request = ms_request m, sn_status = ms_status m, sn_next_anchor = ms_next_anchor m,
     sn_target_committed = ms_target_committed m, sn_draft_committed = ms_draft_committed m,
     sn_generated_tokens = ms_generated_tokens m\<rparr>"

record round_member_input =
  ri_request :: request_id
  ri_round_anchor :: token_id
  ri_target_pre_committed :: u32
  ri_draft_pre_committed :: u32

record round_binding =
  rb_coordinator_identity :: u64
  rb_shape :: physical_shape
  rb_round :: u64
  rb_epoch :: completion_epoch
  rb_members :: "round_member_input list"

datatype control_action = ContinueMember | CancelMember cancellation_reason

record member_control =
  ct_request :: request_id
  ct_action :: control_action

record token_block =
  tb_tokens :: "token_id list"
  tb_count :: u8

datatype verification_choice = Correction token_id | Bonus token_id

definition choice_token :: "verification_choice \<Rightarrow> token_id" where
  "choice_token c = (case c of Correction t \<Rightarrow> t | Bonus t \<Rightarrow> t)"

record kv_role_settlement =
  ks_role :: qwen3_model_role
  ks_pre_committed :: u32
  ks_tentative_end :: u32
  ks_commit_end :: u32
  ks_rollback_tokens :: u8

datatype completion_disposition = DispositionContinue | DispositionRetire

record member_round_outcome =
  mo_request :: request_id
  mo_accepted_draft_tokens :: u8
  mo_raw_emitted :: token_block
  mo_published :: token_block
  mo_verification_choice :: verification_choice
  mo_target_settlement :: kv_role_settlement
  mo_draft_settlement :: kv_role_settlement
  mo_status :: member_status
  mo_physical_disposition :: completion_disposition
  mo_next_draft_anchor :: "token_id option"

record round_outcome =
  ro_coordinator_identity :: u64
  ro_selection :: qwen3_plan_selection
  ro_completed_round :: u64
  ro_completed_epoch :: completion_epoch
  ro_members :: "member_round_outcome list"
  ro_next_active_roster :: "request_id list"

record prepared_member_update =
  pu_member_index :: usize
  pu_generated_tokens :: u32

record preflighted_round =
  pf_binding :: round_binding
  pf_updates :: "prepared_member_update list"
  pf_outcomes :: "member_round_outcome list"
  pf_next_active_roster :: "request_id list"

datatype generation_error =
    UnsupportedSelection qwen3_plan_selection
  | InvalidOutputLimit u32
  | TooManyStopTokens usize usize
  | DuplicateStopToken token_id
  | GenTokenOutOfRange token_id
  | GenEmptyRoster
  | RosterCapacity usize usize
  | InvalidRequest usize request_id
  | GenDuplicateRequest usize usize
  | GenContextExceeded usize qwen3_model_role
  | NoActiveMembers
  | RoundDrift u64 u64
  | RoundExhausted
  | ZeroEpoch
  | EpochSequence u64 u64
  | RosterCount usize usize
  | RosterOrder usize request_id request_id
  | BindingMemberState usize request_id
  | SelectionDrift qwen3_plan_selection qwen3_plan_selection
  | EpochDrift completion_epoch completion_epoch
  | CompletionCount usize usize
  | CompletionRequest usize request_id request_id
  | CompletionSemantics usize
  | AcceptedCount usize u8 u8
  | EmittedCount usize usize usize
  | CorrectionOrBonus usize token_id token_id
  | ControlCount usize usize
  | ControlRequest usize request_id request_id
  | HostAllocation
  | CoordinatorIdentityExhausted
  | CoordinatorIdentityMismatch
  | DraftCatchupState

record generation_loop =
  gl_identity :: u64
  gl_shape :: physical_shape
  gl_members :: "member_state list"
  gl_next_round :: u64
  gl_last_epoch :: "completion_epoch option"

record draft_catchup_transition =
  dc_coordinator_identity :: u64
  dc_parent :: qwen3_plan_selection
  dc_request :: request_id
  dc_completed_round :: u64
  dc_prior_epoch :: completion_epoch
  dc_epoch :: completion_epoch
  dc_draft_committed :: u32
  dc_target_committed :: u32
  dc_token :: token_id
  dc_prior_dispatch_generation :: u64
  dc_dispatch_generation :: u64

record checked_member_observation =
  cm_request :: request_id
  cm_semantics :: checked_semantics
  cm_emitted :: token_block

record prepared_member =
  pm_member_index :: usize
  pm_generated_tokens :: u32
  pm_outcome :: member_round_outcome

subsection \<open>Shapes, policies and blocks\<close>

fun shape_extents :: "qwen3_plan_bucket \<Rightarrow> (u8 \<times> u8) option" where
  "shape_extents SpeculativeS1K4C8192 = Some (1, 4)"
| "shape_extents SpeculativeS8K4C8192 = Some (8, 4)"
| "shape_extents SpeculativeS1K8C8192 = Some (1, 8)"
| "shape_extents SpeculativeS1K16C8192 = Some (1, 16)"
| "shape_extents _ = None"

definition shape_from_selection :: "qwen3_plan_selection \<Rightarrow> generation_error + physical_shape" where
  "shape_from_selection selection =
     (if sel_role selection \<noteq> Target8B \<or> sel_mode selection \<noteq> Speculative then Inl (UnsupportedSelection selection)
      else case shape_extents (sel_bucket selection) of
        None \<Rightarrow> Inl (UnsupportedSelection selection)
      | Some (sequences, draft_tokens) \<Rightarrow>
          Inr \<lparr>ps_selection = selection, ps_sequences = sequences, ps_draft_tokens = draft_tokens\<rparr>)"

fun policy_stop_loop ::
  "usize \<Rightarrow> token_id list \<Rightarrow> token_id list \<Rightarrow> (generation_error + token_id list) exec" where
  "policy_stop_loop index [] bounded = Some (Inr bounded)"
| "policy_stop_loop index (token # tokens) bounded =
     (if QWEN3_VOCABULARY_SIZE \<le> token then Some (Inl (GenTokenOutOfRange token))
      else if length bounded < index then None
      else if token \<in> set (take index bounded) then Some (Inl (DuplicateStopToken token))
      else do { bounded' \<leftarrow> upd bounded index token; policy_stop_loop (index + 1) tokens bounded' })"

definition policy_new :: "u32 \<Rightarrow> token_id list \<Rightarrow> (generation_error + generation_policy) exec" where
  "policy_new max_output_tokens stop_tokens =
     (if max_output_tokens = 0 \<or> M1_MAX_CONTEXT_TOKENS < max_output_tokens
        then Some (Inl (InvalidOutputLimit max_output_tokens))
      else if STOP_TOKEN_CAPACITY < length stop_tokens
        then Some (Inl (TooManyStopTokens STOP_TOKEN_CAPACITY (length stop_tokens)))
      else do {
        bounded \<leftarrow> policy_stop_loop 0 stop_tokens (replicate STOP_TOKEN_CAPACITY 0);
        case bounded of
          Inl e \<Rightarrow> Some (Inl e)
        | Inr bs \<Rightarrow>
            if U8_MAX < length stop_tokens then Some (Inl (TooManyStopTokens STOP_TOKEN_CAPACITY (length stop_tokens)))
            else Some (Inr \<lparr>gp_max_output_tokens = max_output_tokens, gp_stop_tokens = bs,
                   gp_stop_token_count = length stop_tokens\<rparr>) })"

definition policy_qwen3 :: "u32 \<Rightarrow> (generation_error + generation_policy) exec" where
  "policy_qwen3 max_output_tokens = policy_new max_output_tokens [QWEN3_END_OF_TEXT_TOKEN, QWEN3_IM_END_TOKEN]"

definition policy_stop_tokens :: "generation_policy \<Rightarrow> token_id list exec" where
  "policy_stop_tokens p =
     (if gp_stop_token_count p \<le> length (gp_stop_tokens p) then Some (take (gp_stop_token_count p) (gp_stop_tokens p)) else None)"

definition is_stop :: "generation_policy \<Rightarrow> token_id \<Rightarrow> bool exec" where
  "is_stop p token = do { ts \<leftarrow> policy_stop_tokens p; Some (token \<in> set ts) }"

definition permits_fresh_anchor :: "generation_policy \<Rightarrow> token_id \<Rightarrow> bool exec" where
  "permits_fresh_anchor p token =
     (if gp_max_output_tokens p = 0 then Some False else do { s \<leftarrow> is_stop p token; Some (\<not> s) })"

definition empty_block :: token_block where
  "empty_block = \<lparr>tb_tokens = replicate M1_MAX_COMPLETION_TOKENS 0, tb_count = 0\<rparr>"

definition block_from_slice :: "token_id list \<Rightarrow> generation_error + token_block" where
  "block_from_slice tokens =
     (if M1_MAX_COMPLETION_TOKENS < length tokens then Inl (EmittedCount 0 M1_MAX_COMPLETION_TOKENS (length tokens))
      else let filled = tokens @ drop (length tokens) (tb_tokens empty_block) in
        if U8_MAX < length tokens then Inl (EmittedCount 0 M1_MAX_COMPLETION_TOKENS (length tokens))
        else Inr \<lparr>tb_tokens = filled, tb_count = length tokens\<rparr>)"

definition block_tokens :: "token_block \<Rightarrow> token_id list exec" where
  "block_tokens b = (if tb_count b \<le> length (tb_tokens b) then Some (take (tb_count b) (tb_tokens b)) else None)"

definition with_emitted_lane :: "generation_error \<Rightarrow> usize \<Rightarrow> generation_error" where
  "with_emitted_lane e lane = (case e of EmittedCount _ expected actual \<Rightarrow> EmittedCount lane expected actual | other \<Rightarrow> other)"

text \<open>\<open>ArrayVec::push\<close> panics when the fixed capacity is full; \<open>try_push\<close> returns the element instead.\<close>

definition inline_push :: "'a list \<Rightarrow> 'a \<Rightarrow> 'a list exec" where
  "inline_push xs x = (if length xs < INLINE_ROSTER_CAPACITY then Some (xs @ [x]) else None)"

subsection \<open>Creation\<close>

definition fresh_identity :: "u64 \<Rightarrow> (generation_error + u64) \<times> u64" where
  "fresh_identity counter =
     (case u64_add counter 1 of
        None \<Rightarrow> (Inl CoordinatorIdentityExhausted, counter)
      | Some n \<Rightarrow> (Inr counter, n))"

definition validate_context :: "physical_shape \<Rightarrow> usize \<Rightarrow> member_state \<Rightarrow> (generation_error + unit) exec" where
  "validate_context shape lane member = do {
     target_width \<leftarrow> u32_add (ps_draft_tokens shape) 1;
     target_limit \<leftarrow> u_sub M1_MAX_CONTEXT_TOKENS target_width;
     if target_limit < ms_target_committed member then Some (Inl (GenContextExceeded lane Target8B))
     else do {
       draft_limit \<leftarrow> u_sub M1_MAX_CONTEXT_TOKENS (ps_draft_tokens shape);
       if draft_limit < ms_draft_committed member then Some (Inl (GenContextExceeded lane Draft06B))
       else Some (Inr ()) } }"

definition seed_member :: "member_seed \<Rightarrow> member_state" where
  "seed_member seed = \<lparr>ms_request = sd_request seed, ms_policy = sd_policy seed, ms_status = MemberActive,
     ms_next_anchor = sd_round_anchor seed, ms_target_committed = sd_target_committed seed,
     ms_draft_committed = sd_draft_committed seed, ms_generated_tokens = 0\<rparr>"

definition validate_seed ::
  "physical_shape \<Rightarrow> member_seed list \<Rightarrow> usize \<Rightarrow> member_seed \<Rightarrow> (generation_error + unit) exec" where
  "validate_seed shape seeds lane seed =
     (if generation (sd_request seed) = 0 \<or> M1_MAX_ACTIVE_SEQUENCES \<le> slot (sd_request seed)
        then Some (Inl (InvalidRequest lane (sd_request seed)))
      else if length seeds < lane then None
      else case first_position (\<lambda>prior. sd_request prior = sd_request seed) (take lane seeds) of
        Some first_lane \<Rightarrow> Some (Inl (GenDuplicateRequest first_lane lane))
      | None \<Rightarrow>
          if QWEN3_VOCABULARY_SIZE \<le> sd_round_anchor seed then Some (Inl (GenTokenOutOfRange (sd_round_anchor seed)))
          else validate_context shape lane (seed_member seed))"

fun push_seeds ::
  "physical_shape \<Rightarrow> member_seed list \<Rightarrow> usize \<Rightarrow> member_seed list \<Rightarrow> member_state list \<Rightarrow>
   (generation_error + member_state list) exec" where
  "push_seeds shape seeds lane [] members = Some (Inr members)"
| "push_seeds shape seeds lane (seed # rest) members = do {
     v \<leftarrow> validate_seed shape seeds lane seed;
     case v of
       Inl e \<Rightarrow> Some (Inl e)
     | Inr _ \<Rightarrow> push_seeds shape seeds (lane + 1) rest (members @ [seed_member seed]) }"

definition new_with_storage ::
  "u64 \<Rightarrow> usize \<Rightarrow> qwen3_plan_selection \<Rightarrow> member_seed list \<Rightarrow> ((generation_error + generation_loop) \<times> u64) exec" where
  "new_with_storage counter storage_capacity selection seeds =
     (case shape_from_selection selection of
        Inl e \<Rightarrow> Some (Inl e, counter)
      | Inr shape \<Rightarrow>
          (case fresh_identity counter of
             (Inl e, counter') \<Rightarrow> Some (Inl e, counter')
           | (Inr identity, counter') \<Rightarrow>
               if seeds = [] then Some (Inl GenEmptyRoster, counter')
               else if ps_sequences shape < length seeds
                 then Some (Inl (RosterCapacity (ps_sequences shape) (length seeds)), counter')
               else if storage_capacity < length seeds then Some (Inl HostAllocation, counter')
               else do {
                 pushed \<leftarrow> push_seeds shape seeds 0 seeds [];
                 case pushed of
                   Inl e \<Rightarrow> Some (Inl e, counter')
                 | Inr members \<Rightarrow>
                     Some (Inr \<lparr>gl_identity = identity, gl_shape = shape, gl_members = members, gl_next_round = 0,
                       gl_last_epoch = None\<rparr>, counter') }))"

text \<open>\<open>new\<close> reserves storage for exactly the seeds.\<close>

definition generation_loop_new ::
  "u64 \<Rightarrow> (usize \<Rightarrow> bool) \<Rightarrow> qwen3_plan_selection \<Rightarrow> member_seed list \<Rightarrow> ((generation_error + generation_loop) \<times> u64) exec" where
  "generation_loop_new counter reserve selection seeds =
     (if reserve (length seeds) then new_with_storage counter (length seeds) selection seeds
      else Some (Inl HostAllocation, counter))"

subsection \<open>Observers\<close>

definition loop_member :: "generation_loop \<Rightarrow> request_id \<Rightarrow> member_snapshot option" where
  "loop_member this request = map_option snapshot (find (\<lambda>m. ms_request m = request) (gl_members this))"

definition is_active :: "member_state \<Rightarrow> bool" where
  "is_active m \<longleftrightarrow> ms_status m = MemberActive"

fun push_requests :: "member_state list \<Rightarrow> request_id list \<Rightarrow> request_id list exec" where
  "push_requests [] roster = Some roster"
| "push_requests (m # ms) roster = do { roster' \<leftarrow> inline_push roster (ms_request m); push_requests ms roster' }"

definition active_roster :: "generation_loop \<Rightarrow> request_id list exec" where
  "active_roster this = push_requests (filter is_active (gl_members this)) []"

definition active_count :: "generation_loop \<Rightarrow> usize" where
  "active_count this = length (filter is_active (gl_members this))"

fun bootstrap_loop :: "usize \<Rightarrow> member_state list \<Rightarrow> member_seed list \<Rightarrow> generation_error + member_seed list" where
  "bootstrap_loop lane [] seeds = Inr seeds"
| "bootstrap_loop lane (member # members) seeds =
     (if ms_status member \<noteq> MemberActive \<or> ms_generated_tokens member \<noteq> 0
        then Inl (BindingMemberState lane (ms_request member))
      else bootstrap_loop (lane + 1) members (seeds @ [\<lparr>sd_request = ms_request member, sd_round_anchor = ms_next_anchor member,
        sd_target_committed = ms_target_committed member, sd_draft_committed = ms_draft_committed member,
        sd_policy = ms_policy member\<rparr>]))"

definition write_bootstrap_seed_snapshot :: "generation_loop \<Rightarrow> usize \<Rightarrow> generation_error + member_seed list" where
  "write_bootstrap_seed_snapshot this seeds_capacity =
     (if gl_next_round this \<noteq> 0 \<or> gl_last_epoch this \<noteq> None then Inl (RoundDrift 0 (gl_next_round this))
      else if seeds_capacity < length (gl_members this) then Inl HostAllocation
      else bootstrap_loop 0 (gl_members this) [])"

definition bootstrap_seed_snapshot :: "(usize \<Rightarrow> bool) \<Rightarrow> generation_loop \<Rightarrow> generation_error + member_seed list" where
  "bootstrap_seed_snapshot reserve this =
     (if reserve (length (gl_members this)) then write_bootstrap_seed_snapshot this (length (gl_members this)) else Inl HostAllocation)"

definition matches_bootstrap_seeds :: "generation_loop \<Rightarrow> qwen3_plan_selection \<Rightarrow> member_seed list \<Rightarrow> bool" where
  "matches_bootstrap_seeds this selection seeds \<longleftrightarrow>
     gl_next_round this = 0 \<and> gl_last_epoch this = None \<and> ps_selection (gl_shape this) = selection
     \<and> length (gl_members this) = length seeds
     \<and> list_all (\<lambda>(member, seed). ms_request member = sd_request seed \<and> ms_status member = MemberActive
          \<and> ms_next_anchor member = sd_round_anchor seed \<and> ms_target_committed member = sd_target_committed seed
          \<and> ms_draft_committed member = sd_draft_committed seed \<and> ms_generated_tokens member = 0
          \<and> ms_policy member = sd_policy seed) (zip (gl_members this) seeds)"

definition matches_causal_lineage ::
  "generation_loop \<Rightarrow> qwen3_plan_selection \<Rightarrow> member_seed list \<Rightarrow> (request_id \<times> u32) list \<Rightarrow> u64 \<Rightarrow> completion_epoch option \<Rightarrow>
   bool" where
  "matches_causal_lineage this selection initial generated rounds last_epoch \<longleftrightarrow>
     ps_selection (gl_shape this) = selection \<and> gl_next_round this = rounds \<and> gl_last_epoch this = last_epoch
     \<and> length (gl_members this) = length initial \<and> length (gl_members this) = length generated
     \<and> list_all (\<lambda>((member, seed), (request, generated_tokens)). ms_request member = sd_request seed
          \<and> ms_policy member = sd_policy seed \<and> ms_request member = request \<and> ms_generated_tokens member = generated_tokens)
        (zip (zip (gl_members this) initial) generated)"

subsection \<open>Rounds\<close>

fun bind_members ::
  "physical_shape \<Rightarrow> usize \<Rightarrow> usize \<Rightarrow> (member_state \<times> request_id) list \<Rightarrow> round_member_input list \<Rightarrow>
   (generation_error + round_member_input list) exec" where
  "bind_members shape active_members lane [] inputs = Some (Inr inputs)"
| "bind_members shape active_members lane ((member, actual) # rest) inputs =
     (if ms_request member \<noteq> actual then Some (Inl (RosterOrder lane (ms_request member) actual))
      else do {
        v \<leftarrow> validate_context shape lane member;
        case v of
          Inl e \<Rightarrow> Some (Inl e)
        | Inr _ \<Rightarrow>
            (case inline_push inputs \<lparr>ri_request = ms_request member, ri_round_anchor = ms_next_anchor member,
                    ri_target_pre_committed = ms_target_committed member,
                    ri_draft_pre_committed = ms_draft_committed member\<rparr> of
               None \<Rightarrow> Some (Inl (RosterCapacity INLINE_ROSTER_CAPACITY active_members))
             | Some inputs' \<Rightarrow> bind_members shape active_members (lane + 1) rest inputs') })"

definition bind_round ::
  "generation_loop \<Rightarrow> u64 \<Rightarrow> completion_epoch \<Rightarrow> request_id list \<Rightarrow> (generation_error + round_binding) exec" where
  "bind_round this rnd epoch roster =
     (if rnd \<noteq> gl_next_round this then Some (Inl (RoundDrift (gl_next_round this) rnd))
      else if gl_next_round this = U64_MAX then Some (Inl RoundExhausted)
      else if epoch_value epoch = 0 then Some (Inl ZeroEpoch)
      else case (case gl_last_epoch this of
                   None \<Rightarrow> None
                 | Some last_epoch \<Rightarrow>
                     (case u64_add (epoch_value last_epoch) 1 of
                        None \<Rightarrow> Some RoundExhausted
                      | Some expected \<Rightarrow>
                          if epoch_value epoch \<noteq> expected then Some (EpochSequence expected (epoch_value epoch)) else None)) of
        Some e \<Rightarrow> Some (Inl e)
      | None \<Rightarrow>
          let active = filter is_active (gl_members this); active_members = length active in
          if active_members = 0 then Some (Inl NoActiveMembers)
          else if length roster \<noteq> active_members then Some (Inl (RosterCount active_members (length roster)))
          else do {
            bound \<leftarrow> bind_members (gl_shape this) active_members 0 (zip active roster) [];
            case bound of
              Inl e \<Rightarrow> Some (Inl e)
            | Inr inputs \<Rightarrow>
                Some (Inr \<lparr>rb_coordinator_identity = gl_identity this, rb_shape = gl_shape this, rb_round = rnd,
                  rb_epoch = epoch, rb_members = inputs\<rparr>) })"

fun check_bound_members :: "usize \<Rightarrow> (member_state \<times> round_member_input) list \<Rightarrow> generation_error + unit" where
  "check_bound_members lane [] = Inr ()"
| "check_bound_members lane ((member, input) # rest) =
     (if ms_request member \<noteq> ri_request input then Inl (RosterOrder lane (ms_request member) (ri_request input))
      else if ms_next_anchor member \<noteq> ri_round_anchor input \<or> ms_target_committed member \<noteq> ri_target_pre_committed input
           \<or> ms_draft_committed member \<noteq> ri_draft_pre_committed input
        then Inl (BindingMemberState lane (ms_request member))
      else check_bound_members (lane + 1) rest)"

definition validate_binding :: "generation_loop \<Rightarrow> round_binding \<Rightarrow> generation_error + unit" where
  "validate_binding coordinator binding =
     (if rb_coordinator_identity binding \<noteq> gl_identity coordinator then Inl CoordinatorIdentityMismatch
      else if rb_shape binding \<noteq> gl_shape coordinator
        then Inl (SelectionDrift (ps_selection (gl_shape coordinator)) (ps_selection (rb_shape binding)))
      else if rb_round binding \<noteq> gl_next_round coordinator
        then Inl (RoundDrift (gl_next_round coordinator) (rb_round binding))
      else let active = filter is_active (gl_members coordinator) in
        if length (rb_members binding) \<noteq> length active then Inl (RosterCount (length active) (length (rb_members binding)))
        else check_bound_members 0 (zip active (rb_members binding)))"

fun policy_loop ::
  "generation_policy \<Rightarrow> token_id list \<Rightarrow> token_block \<Rightarrow> u32 \<Rightarrow> (token_block \<times> member_status \<times> u32) exec" where
  "policy_loop policy [] published generated = Some (published, MemberActive, generated)"
| "policy_loop policy (token # tokens) published generated =
     (if generated = gp_max_output_tokens policy then Some (published, MemberCompleted OutputLimit, generated)
      else do {
        filled \<leftarrow> upd (tb_tokens published) (tb_count published) token;
        count \<leftarrow> u_add U8_MAX (tb_count published) 1;
        generated' \<leftarrow> u32_add generated 1;
        stop \<leftarrow> is_stop policy token;
        let published' = \<lparr>tb_tokens = filled, tb_count = count\<rparr> in
        if stop then Some (published', MemberCompleted (StopToken token), generated')
        else if generated' = gp_max_output_tokens policy then Some (published', MemberCompleted OutputLimit, generated')
        else policy_loop policy tokens published' generated' })"

definition apply_member_policy ::
  "member_state \<Rightarrow> token_block \<Rightarrow> control_action \<Rightarrow> (token_block \<times> member_status \<times> u32) exec" where
  "apply_member_policy member raw control =
     (case control of
        CancelMember reason \<Rightarrow> Some (empty_block, MemberCancelled reason, ms_generated_tokens member)
      | ContinueMember \<Rightarrow> do {
          tokens \<leftarrow> block_tokens raw;
          policy_loop (ms_policy member) tokens empty_block (ms_generated_tokens member) })"

definition role_settlement :: "qwen3_model_role \<Rightarrow> u32 \<Rightarrow> u32 \<Rightarrow> u32 \<Rightarrow> u8 \<Rightarrow> kv_role_settlement" where
  "role_settlement role pre_committed tentative_end commit_end rollback_tokens =
     \<lparr>ks_role = role, ks_pre_committed = pre_committed, ks_tentative_end = tentative_end, ks_commit_end = commit_end,
      ks_rollback_tokens = rollback_tokens\<rparr>"

definition settle_roles ::
  "physical_shape \<Rightarrow> member_state \<Rightarrow> u8 \<Rightarrow> (kv_role_settlement \<times> kv_role_settlement) exec" where
  "settle_roles shape member accepted = do {
     let width = ps_draft_tokens shape;
     target_accepted \<leftarrow> u32_add accepted 1;
     draft_accepted \<leftarrow> (if accepted < width then u32_add accepted 1 else Some width);
     target_width \<leftarrow> u32_add (ms_target_committed member) width;
     target_tentative_end \<leftarrow> u32_add target_width 1;
     draft_tentative_end \<leftarrow> u32_add (ms_draft_committed member) width;
     target_commit_end \<leftarrow> u32_add (ms_target_committed member) target_accepted;
     draft_commit_end \<leftarrow> u32_add (ms_draft_committed member) draft_accepted;
     target_rollback \<leftarrow> u_sub width accepted;
     draft_rollback \<leftarrow> (if accepted < width then do { r \<leftarrow> u_sub width accepted; u_sub r 1 } else Some 0);
     Some (role_settlement Target8B (ms_target_committed member) target_tentative_end target_commit_end target_rollback,
           role_settlement Draft06B (ms_draft_committed member) draft_tentative_end draft_commit_end draft_rollback) }"

definition prepare_member ::
  "physical_shape \<Rightarrow> usize \<Rightarrow> usize \<Rightarrow> member_state \<Rightarrow> checked_member_observation \<Rightarrow> control_action \<Rightarrow>
   (generation_error + prepared_member) exec" where
  "prepare_member shape lane member_index member observation control =
     (case cm_semantics observation of
        CheckedSpeculative accepted correction_or_bonus \<Rightarrow>
          let width = ps_draft_tokens shape in
          if width < accepted then Some (Inl (AcceptedCount lane width accepted))
          else do {
            expected_emitted \<leftarrow> usize_add accepted 1;
            emitted \<leftarrow> block_tokens (cm_emitted observation);
            if length emitted \<noteq> expected_emitted then Some (Inl (EmittedCount lane expected_emitted (length emitted)))
            else do {
              actual_correction \<leftarrow> idx emitted accepted;
              if actual_correction \<noteq> correction_or_bonus
                then Some (Inl (CorrectionOrBonus lane correction_or_bonus actual_correction))
              else do {
                (target_settlement, draft_settlement) \<leftarrow> settle_roles shape member accepted;
                (published, status, generated_tokens) \<leftarrow> apply_member_policy member (cm_emitted observation) control;
                let active = (status = MemberActive);
                Some (Inr \<lparr>pm_member_index = member_index, pm_generated_tokens = generated_tokens,
                  pm_outcome = \<lparr>mo_request = ms_request member, mo_accepted_draft_tokens = accepted,
                    mo_raw_emitted = cm_emitted observation, mo_published = published,
                    mo_verification_choice = (if accepted = width then Bonus correction_or_bonus else Correction correction_or_bonus),
                    mo_target_settlement = target_settlement, mo_draft_settlement = draft_settlement, mo_status = status,
                    mo_physical_disposition = (if active then DispositionContinue else DispositionRetire),
                    mo_next_draft_anchor = (if active then Some correction_or_bonus else None)\<rparr>\<rparr>) } } }
      | _ \<Rightarrow> Some (Inl (CompletionSemantics lane)))"

fun prepare_members ::
  "generation_loop \<Rightarrow> round_binding \<Rightarrow> checked_member_observation list \<Rightarrow> member_control list \<Rightarrow> nat \<Rightarrow> usize \<Rightarrow>
   prepared_member list \<Rightarrow> (generation_error + prepared_member list) exec" where
  "prepare_members this binding observations controls 0 lane prepared = Some (Inr prepared)"
| "prepare_members this binding observations controls (Suc n) lane prepared = do {
     input \<leftarrow> idx (rb_members binding) lane;
     observation \<leftarrow> idx observations lane;
     control \<leftarrow> idx controls lane;
     if cm_request observation \<noteq> ri_request input
       then Some (Inl (CompletionRequest lane (ri_request input) (cm_request observation)))
     else if ct_request control \<noteq> ri_request input
       then Some (Inl (ControlRequest lane (ri_request input) (ct_request control)))
     else case first_position (\<lambda>m. ms_request m = ri_request input) (gl_members this) of
       None \<Rightarrow> Some (Inl (BindingMemberState lane (ri_request input)))
     | Some member_index \<Rightarrow> do {
         member \<leftarrow> idx (gl_members this) member_index;
         p \<leftarrow> prepare_member (gl_shape this) lane member_index member observation (ct_action control);
         case p of
           Inl e \<Rightarrow> Some (Inl e)
         | Inr pm \<Rightarrow>
             (case inline_push prepared pm of
                None \<Rightarrow> Some (Inl (RosterCapacity INLINE_ROSTER_CAPACITY (length (rb_members binding))))
              | Some prepared' \<Rightarrow> prepare_members this binding observations controls n (lane + 1) prepared') } }"

text \<open>The two loops that split the prepared members into updates, outcomes and the next roster push into inline
  storage of the same capacity as the prepared members themselves.\<close>

fun inline_push_all :: "'a list \<Rightarrow> 'a list \<Rightarrow> 'a list exec" where
  "inline_push_all [] xs = Some xs"
| "inline_push_all (y # ys) xs = do { xs' \<leftarrow> inline_push xs y; inline_push_all ys xs' }"

definition preflight_observed_round ::
  "generation_loop \<Rightarrow> round_binding \<Rightarrow> qwen3_plan_selection \<Rightarrow> completion_epoch \<Rightarrow> checked_member_observation list \<Rightarrow>
   member_control list \<Rightarrow> (generation_error + preflighted_round) exec" where
  "preflight_observed_round this binding selection epoch observations controls =
     (case validate_binding this binding of
        Inl e \<Rightarrow> Some (Inl e)
      | Inr _ \<Rightarrow>
          if selection \<noteq> ps_selection (gl_shape this)
            then Some (Inl (SelectionDrift (ps_selection (gl_shape this)) selection))
          else if epoch \<noteq> rb_epoch binding then Some (Inl (EpochDrift (rb_epoch binding) epoch))
          else if length observations \<noteq> length (rb_members binding)
            then Some (Inl (CompletionCount (length (rb_members binding)) (length observations)))
          else if length controls \<noteq> length (rb_members binding)
            then Some (Inl (ControlCount (length (rb_members binding)) (length controls)))
          else do {
            p \<leftarrow> prepare_members this binding observations controls (length (rb_members binding)) 0 [];
            case p of
              Inl e \<Rightarrow> Some (Inl e)
            | Inr prepared \<Rightarrow> do {
                updates \<leftarrow> inline_push_all (map (\<lambda>m. \<lparr>pu_member_index = pm_member_index m,
                  pu_generated_tokens = pm_generated_tokens m\<rparr>) prepared) [];
                outcomes \<leftarrow> inline_push_all (map pm_outcome prepared) [];
                next_active_roster \<leftarrow> inline_push_all (map mo_request (filter (\<lambda>out. mo_status out = MemberActive) outcomes)) [];
                Some (Inr \<lparr>pf_binding = binding, pf_updates = updates, pf_outcomes = outcomes,
                  pf_next_active_roster = next_active_roster\<rparr>) } })"

fun observe_checked ::
  "usize \<Rightarrow> usize \<Rightarrow> checked_record list \<Rightarrow> checked_member_observation list \<Rightarrow>
   generation_error + checked_member_observation list" where
  "observe_checked records lane [] observations = Inr observations"
| "observe_checked records lane (checked # rest) observations =
     (let record = ck_record checked; count = cr_emitted_token_count record in
      if length (cr_emitted_tokens record) < count then Inl (EmittedCount lane M1_MAX_COMPLETION_TOKENS count)
      else case block_from_slice (take count (cr_emitted_tokens record)) of
        Inl e \<Rightarrow> Inl (with_emitted_lane e lane)
      | Inr emitted \<Rightarrow>
          (case inline_push observations \<lparr>cm_request = cr_request record, cm_semantics = ck_semantics checked, cm_emitted = emitted\<rparr> of
             None \<Rightarrow> Inl (RosterCapacity INLINE_ROSTER_CAPACITY records)
           | Some observations' \<Rightarrow> observe_checked records (lane + 1) rest observations'))"

definition preflight_checked_round ::
  "generation_loop \<Rightarrow> round_binding \<Rightarrow> checked_completion_output \<Rightarrow> member_control list \<Rightarrow>
   (generation_error + preflighted_round) exec" where
  "preflight_checked_round this binding checked controls =
     (case observe_checked (length (co_records checked)) 0 (co_records checked) [] of
        Inl e \<Rightarrow> Some (Inl e)
      | Inr observations \<Rightarrow>
          preflight_observed_round this binding (co_selection checked) (co_epoch checked) observations controls)"

fun apply_updates ::
  "(prepared_member_update \<times> member_round_outcome) list \<Rightarrow> member_state list \<Rightarrow> member_state list exec" where
  "apply_updates [] members = Some members"
| "apply_updates ((update, outcome) # rest) members = do {
     member \<leftarrow> idx members (pu_member_index update);
     members' \<leftarrow> upd members (pu_member_index update) (member\<lparr>ms_status := mo_status outcome,
       ms_next_anchor := choice_token (mo_verification_choice outcome),
       ms_target_committed := ks_commit_end (mo_target_settlement outcome),
       ms_draft_committed := ks_commit_end (mo_draft_settlement outcome),
       ms_generated_tokens := pu_generated_tokens update\<rparr>);
     apply_updates rest members' }"

definition commit_preflighted_round ::
  "generation_loop \<Rightarrow> preflighted_round \<Rightarrow> (((generation_error \<times> preflighted_round) + round_outcome) \<times> generation_loop) exec" where
  "commit_preflighted_round this preflighted =
     (case validate_binding this (pf_binding preflighted) of
        Inl e \<Rightarrow> Some (Inl (e, preflighted), this)
      | Inr _ \<Rightarrow> do {
          members \<leftarrow> apply_updates (zip (pf_updates preflighted) (pf_outcomes preflighted)) (gl_members this);
          next_round \<leftarrow> u64_add (gl_next_round this) 1;
          Some (Inr \<lparr>ro_coordinator_identity = gl_identity this, ro_selection = ps_selection (gl_shape this),
              ro_completed_round = gl_next_round this, ro_completed_epoch = rb_epoch (pf_binding preflighted),
              ro_members = pf_outcomes preflighted, ro_next_active_roster = pf_next_active_roster preflighted\<rparr>,
            this\<lparr>gl_members := members, gl_next_round := next_round, gl_last_epoch := Some (rb_epoch (pf_binding preflighted))\<rparr>) })"

definition preflight_prepared_round_commit :: "generation_loop \<Rightarrow> preflighted_round \<Rightarrow> generation_error + unit" where
  "preflight_prepared_round_commit this preflighted = validate_binding this (pf_binding preflighted)"

definition complete_checked_round ::
  "generation_loop \<Rightarrow> round_binding \<Rightarrow> checked_completion_output \<Rightarrow> member_control list \<Rightarrow>
   ((generation_error + round_outcome) \<times> generation_loop) exec" where
  "complete_checked_round this binding checked controls = do {
     p \<leftarrow> preflight_checked_round this binding checked controls;
     case p of
       Inl e \<Rightarrow> Some (Inl e, this)
     | Inr preflighted \<Rightarrow> do {
         (r, this') \<leftarrow> commit_preflighted_round this preflighted;
         Some (map_sum fst id r, this') } }"

definition commit_draft_catchup_transition ::
  "generation_loop \<Rightarrow> draft_catchup_transition \<Rightarrow> ((generation_error + unit) \<times> generation_loop) exec" where
  "commit_draft_catchup_transition this t =
     (if dc_coordinator_identity t \<noteq> gl_identity this then Some (Inl CoordinatorIdentityMismatch, this)
      else if \<not> selection_matches (dc_parent t) (ps_selection (gl_shape this))
        then Some (Inl (SelectionDrift (ps_selection (gl_shape this)) (dc_parent t)), this)
      else if length (gl_members this) \<noteq> 1 then Some (Inl DraftCatchupState, this)
      else do {
        member \<leftarrow> idx (gl_members this) 0;
        if ps_sequences (gl_shape this) \<noteq> 1
           \<or> u64_add (dc_completed_round t) 1 \<noteq> Some (gl_next_round this)
           \<or> epoch_value (dc_prior_epoch t) = 0
           \<or> (case gl_last_epoch this of Some e \<Rightarrow> epoch_value e \<noteq> epoch_value (dc_prior_epoch t) | None \<Rightarrow> True)
           \<or> u64_add (epoch_value (dc_prior_epoch t)) 1 \<noteq> Some (epoch_value (dc_epoch t))
           \<or> dc_prior_dispatch_generation t = 0
           \<or> u64_add (dc_prior_dispatch_generation t) 1 \<noteq> Some (dc_dispatch_generation t)
           \<or> slot (ms_request member) \<noteq> slot (dc_request t)
           \<or> generation (ms_request member) \<noteq> generation (dc_request t)
           \<or> ms_status member \<noteq> MemberActive
           \<or> ms_draft_committed member \<noteq> dc_draft_committed t
           \<or> ms_target_committed member \<noteq> dc_target_committed t
           \<or> u32_add (dc_draft_committed t) 1 \<noteq> Some (dc_target_committed t)
           \<or> M1_MAX_CONTEXT_TOKENS < dc_target_committed t
           \<or> QWEN3_VOCABULARY_SIZE \<le> dc_token t
        then Some (Inl DraftCatchupState, this)
        else do {
          members \<leftarrow> upd (gl_members this) 0 (member\<lparr>ms_draft_committed := dc_target_committed t\<rparr>);
          Some (Inr (), this\<lparr>gl_members := members, gl_last_epoch := Some (dc_epoch t)\<rparr>) } })"

end
