(* ===== verification/Generation_Rounds.thy ===== *)
theory Generation_Rounds
  imports Generation
begin

text \<open>
  What one operation of the generation coordinator does: well-formed policies, blocks and shapes, what the policy
  publishes of a round, the outcome prepared for each lane, and the permit a preflight returns.
\<close>

subsection \<open>Policies, blocks, shapes\<close>

definition policy_wf :: "generation_policy \<Rightarrow> bool" where
  "policy_wf p \<longleftrightarrow> 0 < gp_max_output_tokens p \<and> gp_max_output_tokens p \<le> 8192 \<and> length (gp_stop_tokens p) = 2
     \<and> gp_stop_token_count p \<le> 2"

definition stops :: "generation_policy \<Rightarrow> token_id set" where
  "stops p = set (take (gp_stop_token_count p) (gp_stop_tokens p))"

lemma is_stop_eq: "policy_wf p \<Longrightarrow> is_stop p t = Some (t \<in> stops p)"
  by (simp add: is_stop_def policy_stop_tokens_def policy_wf_def stops_def)

lemma policy_stop_loop_total:
  assumes "index + length ts \<le> length bounded"
  shows "\<exists>r. policy_stop_loop index ts bounded = Some r \<and> (\<forall>bs. r = Inr bs \<longrightarrow> length bs = length bounded
    \<and> (\<forall>t \<in> set ts. t < QWEN3_VOCABULARY_SIZE) \<and> take (index + length ts) bs = take index bounded @ ts
    \<and> (distinct (take index bounded) \<longrightarrow> distinct (take (index + length ts) bs)))"
  using assms
proof (induction ts arbitrary: index bounded)
  case (Cons t ts)
  let ?b = "bounded[index := t]"
  have i: "index < length bounded" using Cons.prems by simp
  have tk: "take (Suc index) ?b = take index bounded @ [t]" using take_Suc_update [OF i] .
  from Cons.IH [of "Suc index" ?b] Cons.prems obtain r where r: "policy_stop_loop (Suc index) ts ?b = Some r"
    "\<forall>bs. r = Inr bs \<longrightarrow> length bs = length ?b \<and> (\<forall>t \<in> set ts. t < QWEN3_VOCABULARY_SIZE)
      \<and> take (Suc index + length ts) bs = take (Suc index) ?b @ ts \<and> (distinct (take (Suc index) ?b) \<longrightarrow> distinct (take (Suc index + length ts) bs))"
    by auto
  show ?case
  proof (cases "QWEN3_VOCABULARY_SIZE \<le> t \<or> t \<in> set (take index bounded)")
    case True
    then show ?thesis using i by (auto simp: upd_def)
  next
    case False
    then have e: "policy_stop_loop index (t # ts) bounded = Some r" using i r(1) by (auto simp: upd_def)
    have "length bs = length bounded \<and> (\<forall>u \<in> set (t # ts). u < QWEN3_VOCABULARY_SIZE)
        \<and> take (index + length (t # ts)) bs = take index bounded @ t # ts
        \<and> (distinct (take index bounded) \<longrightarrow> distinct (take (index + length (t # ts)) bs))" if "r = Inr bs" for bs
      using r(2) [rule_format, OF that] False tk by auto
    then show ?thesis unfolding e by blast
  qed
qed simp

text \<open>The constructor of policies never panics, and a policy it returns is well formed and stops at exactly the given
  tokens, which are distinct tokens of the vocabulary.\<close>

lemma policy_new_correct:
  "\<exists>r. policy_new n ts = Some r \<and> (\<forall>p. r = Inr p \<longrightarrow> policy_wf p \<and> gp_max_output_tokens p = n \<and> stops p = set ts \<and> distinct ts
     \<and> (\<forall>t \<in> set ts. t < QWEN3_VOCABULARY_SIZE))"
proof (cases "0 < n \<and> n \<le> 8192 \<and> length ts \<le> 2")
  case False
  then show ?thesis by (auto simp: policy_new_def M1_MAX_CONTEXT_TOKENS_def STOP_TOKEN_CAPACITY_def)
next
  case True
  obtain r where r: "policy_stop_loop 0 ts (replicate 2 0) = Some r" "\<forall>bs. r = Inr bs \<longrightarrow> length bs = 2
      \<and> (\<forall>t \<in> set ts. t < QWEN3_VOCABULARY_SIZE) \<and> take (length ts) bs = ts \<and> distinct (take (length ts) bs)"
    using policy_stop_loop_total [of 0 ts "replicate 2 0"] True by auto
  then show ?thesis using True
    by (cases r) (auto simp: policy_new_def M1_MAX_CONTEXT_TOKENS_def STOP_TOKEN_CAPACITY_def policy_wf_def stops_def)
qed

text \<open>The fields of a policy are private, so every policy comes from the constructor.\<close>

definition policy_made :: "generation_policy \<Rightarrow> bool" where
  "policy_made p \<longleftrightarrow> (\<exists>n ts. policy_new n ts = Some (Inr p))"

lemma policy_made_wf: "policy_made p \<Longrightarrow> policy_wf p"
  unfolding policy_made_def using policy_new_correct by (metis option.inject)

definition block_wf :: "token_block \<Rightarrow> bool" where
  "block_wf b \<longleftrightarrow> length (tb_tokens b) = 17 \<and> tb_count b \<le> 17"

abbreviation tokens_of :: "token_block \<Rightarrow> token_id list" where
  "tokens_of b \<equiv> take (tb_count b) (tb_tokens b)"

lemma block_tokens_eq: "block_wf b \<Longrightarrow> block_tokens b = Some (tokens_of b)"
  by (simp add: block_tokens_def block_wf_def)

lemma empty_block_wf [simp]: "block_wf empty_block" "tokens_of empty_block = []"
  by (simp_all add: block_wf_def empty_block_def M1_MAX_COMPLETION_TOKENS_def)

lemma block_from_slice_eq:
  "block_from_slice ts = (if length ts \<le> 17 then Inr \<lparr>tb_tokens = ts @ replicate (17 - length ts) 0, tb_count = length ts\<rparr>
     else Inl (EmittedCount 0 17 (length ts)))"
  by (simp add: block_from_slice_def empty_block_def M1_MAX_COMPLETION_TOKENS_def Let_def)

definition shape_wf :: "physical_shape \<Rightarrow> bool" where
  "shape_wf s \<longleftrightarrow> shape_from_selection (ps_selection s) = Inr s"

lemma shape_wf_facts:
  assumes "shape_wf s"
  shows "ps_draft_tokens s \<in> {4, 8, 16}" "ps_sequences s \<in> {1, 8}" "sel_role (ps_selection s) = Target8B"
    "sel_mode (ps_selection s) = Speculative" "speculative_k (sel_bucket (ps_selection s)) = Some (ps_draft_tokens s)"
proof -
  have role: "sel_role (ps_selection s) = Target8B" "sel_mode (ps_selection s) = Speculative"
    and e: "shape_extents (sel_bucket (ps_selection s)) = Some (ps_sequences s, ps_draft_tokens s)"
    using assms unfolding shape_wf_def shape_from_selection_def
    by (auto split: if_splits option.splits dest: arg_cong [where f = ps_sequences] arg_cong [where f = ps_draft_tokens])
  show "sel_role (ps_selection s) = Target8B" "sel_mode (ps_selection s) = Speculative" by fact+
  show "ps_draft_tokens s \<in> {4, 8, 16}" "ps_sequences s \<in> {1, 8}" "speculative_k (sel_bucket (ps_selection s)) = Some (ps_draft_tokens s)"
    using e by (cases "sel_bucket (ps_selection s)"; simp)+
qed

lemma shape_from_selection_wf: "shape_from_selection sel = Inr s \<Longrightarrow> shape_wf s \<and> ps_selection s = sel"
  by (auto simp: shape_wf_def shape_from_selection_def split: if_splits option.splits)

subsection \<open>What the policy publishes\<close>

text \<open>The stretch of a token stream up to and including its first stop token.\<close>

fun upto_stop :: "token_id set \<Rightarrow> token_id list \<Rightarrow> token_id list" where
  "upto_stop S [] = []"
| "upto_stop S (t # ts) = (if t \<in> S then [t] else t # upto_stop S ts)"

definition published_status :: "generation_policy \<Rightarrow> u32 \<Rightarrow> token_id list \<Rightarrow> member_status" where
  "published_status p g ts =
     (let out = take (gp_max_output_tokens p - g) (upto_stop (stops p) ts) in
      if out \<noteq> [] \<and> last out \<in> stops p then MemberCompleted (StopToken (last out))
      else if g + length out = gp_max_output_tokens p then MemberCompleted OutputLimit else MemberActive)"

lemma policy_loop_eq:
  assumes "policy_wf p" "g < gp_max_output_tokens p" "block_wf b" "tb_count b + length ts \<le> 17"
  shows "\<exists>b'. policy_loop p ts b g = Some (b', published_status p g ts, g + length (take (gp_max_output_tokens p - g) (upto_stop (stops p) ts)))
    \<and> block_wf b' \<and> tokens_of b' = tokens_of b @ take (gp_max_output_tokens p - g) (upto_stop (stops p) ts)"
  using assms(2-4)
proof (induction ts arbitrary: b g)
  case Nil
  then show ?case by (auto simp: published_status_def)
next
  case (Cons t ts)
  let ?b = "\<lparr>tb_tokens = (tb_tokens b)[tb_count b := t], tb_count = Suc (tb_count b)\<rparr>"
  have b: "tb_count b < length (tb_tokens b)" "tb_count b < 17" using Cons.prems by (auto simp: block_wf_def)
  have wf: "block_wf ?b" "tokens_of ?b = tokens_of b @ [t]"
    using Cons.prems take_Suc_update [OF b(1)] by (auto simp: block_wf_def)
  have m: "gp_max_output_tokens p \<le> 8192" using assms(1) by (simp add: policy_wf_def)
  have step: "policy_loop p (t # ts) b g =
      (if t \<in> stops p then Some (?b, MemberCompleted (StopToken t), Suc g)
       else if Suc g = gp_max_output_tokens p then Some (?b, MemberCompleted OutputLimit, Suc g)
       else policy_loop p ts ?b (Suc g))"
    using Cons.prems b m by (simp add: is_stop_eq [OF assms(1)] exec_simps Let_def)
  obtain k where k: "gp_max_output_tokens p - g = Suc k" using Cons.prems(1) by (metis Suc_diff_Suc)
  consider "t \<in> stops p" | "t \<notin> stops p" "Suc g = gp_max_output_tokens p" | "t \<notin> stops p" "Suc g < gp_max_output_tokens p"
    using Cons.prems(1) by linarith
  then show ?case
  proof cases
    case 1
    then show ?thesis using step wf k by (simp add: published_status_def Let_def)
  next
    case 2
    then show ?thesis using step wf by (simp add: published_status_def Let_def flip: 2(2))
  next
    case 3
    then have "k = gp_max_output_tokens p - Suc g" using k by simp
    moreover obtain b' where "policy_loop p ts ?b (Suc g) = Some (b', published_status p (Suc g) ts,
        Suc g + length (take (gp_max_output_tokens p - Suc g) (upto_stop (stops p) ts)))" "block_wf b'"
      "tokens_of b' = tokens_of ?b @ take (gp_max_output_tokens p - Suc g) (upto_stop (stops p) ts)"
      using Cons.IH [OF 3(2) wf(1)] Cons.prems(3) by auto
    ultimately show ?thesis using 3 step wf k by (simp add: published_status_def Let_def)
  qed
qed

lemma published_status_active:
  "g < gp_max_output_tokens p \<Longrightarrow> published_status p g ts = MemberActive \<Longrightarrow>
     g + length (take (gp_max_output_tokens p - g) (upto_stop (stops p) ts)) < gp_max_output_tokens p"
  by (auto simp: published_status_def Let_def split: if_splits)

subsection \<open>Preparing one member\<close>

definition cursors_fit :: "physical_shape \<Rightarrow> u32 \<Rightarrow> u32 \<Rightarrow> bool" where
  "cursors_fit s target draft \<longleftrightarrow> target + Suc (ps_draft_tokens s) \<le> 8192 \<and> draft + ps_draft_tokens s \<le> 8192"

lemma validate_context_eq:
  assumes "shape_wf s"
  shows "\<exists>r. validate_context s lane m = Some r
    \<and> (r = Inr () \<longleftrightarrow> cursors_fit s (ms_target_committed m) (ms_draft_committed m))"
proof -
  have k: "ps_draft_tokens s \<le> 16" using shape_wf_facts(1) [OF assms] by auto
  then show ?thesis by (auto simp: validate_context_def exec_simps M1_MAX_CONTEXT_TOKENS_def cursors_fit_def)
qed

text \<open>What a round publishes for a member, the status it leaves and the number of tokens generated so far.\<close>

definition round_result :: "member_state \<Rightarrow> token_id list \<Rightarrow> control_action \<Rightarrow> token_id list \<times> member_status \<times> u32" where
  "round_result m ts action =
     (case action of
        CancelMember reason \<Rightarrow> ([], MemberCancelled reason, ms_generated_tokens m)
      | ContinueMember \<Rightarrow>
          let out = take (gp_max_output_tokens (ms_policy m) - ms_generated_tokens m) (upto_stop (stops (ms_policy m)) ts)
          in (out, published_status (ms_policy m) (ms_generated_tokens m) ts, ms_generated_tokens m + length out))"

definition prepared_ok ::
  "physical_shape \<Rightarrow> usize \<Rightarrow> member_state \<Rightarrow> checked_member_observation \<Rightarrow> control_action \<Rightarrow> prepared_member \<Rightarrow> bool" where
  "prepared_ok s j m obs action pm \<longleftrightarrow>
     (let ts = tokens_of (cm_emitted obs); out = pm_outcome pm; k = ps_draft_tokens s in
      pm_member_index pm = j \<and> mo_request out = ms_request m \<and> mo_raw_emitted out = cm_emitted obs
      \<and> block_wf (mo_published out) \<and> (tokens_of (mo_published out), mo_status out, pm_generated_tokens pm) = round_result m ts action
      \<and> (\<exists>a c. cm_semantics obs = CheckedSpeculative a c \<and> a \<le> k \<and> length ts = Suc a \<and> ts ! a = c
           \<and> mo_accepted_draft_tokens out = a \<and> choice_token (mo_verification_choice out) = c
           \<and> mo_target_settlement out =
               role_settlement Target8B (ms_target_committed m) (ms_target_committed m + Suc k) (ms_target_committed m + Suc a) (k - a)
           \<and> mo_draft_settlement out =
               role_settlement Draft06B (ms_draft_committed m) (ms_draft_committed m + k) (ms_draft_committed m + min (Suc a) k)
                 (k - min (Suc a) k)))"

lemma settle_roles_eq:
  assumes "shape_wf s" "cursors_fit s (ms_target_committed m) (ms_draft_committed m)" "a \<le> ps_draft_tokens s"
  shows "settle_roles s m a = Some
    (role_settlement Target8B (ms_target_committed m) (ms_target_committed m + Suc (ps_draft_tokens s)) (ms_target_committed m + Suc a)
       (ps_draft_tokens s - a),
     role_settlement Draft06B (ms_draft_committed m) (ms_draft_committed m + ps_draft_tokens s)
       (ms_draft_committed m + min (Suc a) (ps_draft_tokens s)) (ps_draft_tokens s - min (Suc a) (ps_draft_tokens s)))"
  using assms(2,3) by (auto simp: settle_roles_def cursors_fit_def exec_simps min_def Suc_le_eq Let_def)

lemma apply_member_policy_eq:
  assumes "policy_wf (ms_policy m)" "ms_generated_tokens m < gp_max_output_tokens (ms_policy m)" "block_wf raw"
  shows "\<exists>b. apply_member_policy m raw action = Some (b, snd (round_result m (tokens_of raw) action))
    \<and> block_wf b \<and> tokens_of b = fst (round_result m (tokens_of raw) action)"
proof (cases action)
  case ContinueMember
  have "length (tokens_of raw) \<le> 17" using assms(3) by (simp add: block_wf_def)
  then show ?thesis using policy_loop_eq [OF assms(1,2) empty_block_wf(1), of "tokens_of raw"] ContinueMember
    by (auto simp: apply_member_policy_def round_result_def block_tokens_eq [OF assms(3)] Let_def empty_block_def)
qed (simp add: apply_member_policy_def round_result_def empty_block_def block_wf_def M1_MAX_COMPLETION_TOKENS_def)

lemma prepare_member_spec:
  assumes s: "shape_wf s" and m: "policy_wf (ms_policy m)" "ms_generated_tokens m < gp_max_output_tokens (ms_policy m)"
    "cursors_fit s (ms_target_committed m) (ms_draft_committed m)" and b: "block_wf (cm_emitted obs)"
  shows "\<exists>r. prepare_member s lane j m obs action = Some r \<and> (\<forall>pm. r = Inr pm \<longrightarrow> prepared_ok s j m obs action pm)"
proof -
  obtain p where p: "apply_member_policy m (cm_emitted obs) action = Some (p, snd (round_result m (tokens_of (cm_emitted obs)) action))"
    "block_wf p" "tokens_of p = fst (round_result m (tokens_of (cm_emitted obs)) action)"
    using apply_member_policy_eq [OF m(1,2) b] by blast
  obtain st g where sg: "snd (round_result m (tokens_of (cm_emitted obs)) action) = (st, g)" by fastforce
  have k: "ps_draft_tokens s \<le> 16" using shape_wf_facts(1) [OF s] by auto
  show ?thesis
  proof (cases "\<exists>a c. cm_semantics obs = CheckedSpeculative a c \<and> a \<le> ps_draft_tokens s")
    case False
    then show ?thesis by (auto simp: prepare_member_def Let_def split: checked_semantics.split)
  next
    case True
    then obtain a c where ac: "cm_semantics obs = CheckedSpeculative a c" "a \<le> ps_draft_tokens s" by blast
    have e: "prepare_member s lane j m obs action = Some (
        if length (tokens_of (cm_emitted obs)) \<noteq> Suc a then Inl (EmittedCount lane (Suc a) (length (tokens_of (cm_emitted obs))))
        else if tokens_of (cm_emitted obs) ! a \<noteq> c then Inl (CorrectionOrBonus lane c (tokens_of (cm_emitted obs) ! a))
        else Inr \<lparr>pm_member_index = j, pm_generated_tokens = g,
          pm_outcome = \<lparr>mo_request = ms_request m, mo_accepted_draft_tokens = a, mo_raw_emitted = cm_emitted obs, mo_published = p,
            mo_verification_choice = (if a = ps_draft_tokens s then Bonus c else Correction c),
            mo_target_settlement = role_settlement Target8B (ms_target_committed m) (ms_target_committed m + Suc (ps_draft_tokens s))
              (ms_target_committed m + Suc a) (ps_draft_tokens s - a),
            mo_draft_settlement = role_settlement Draft06B (ms_draft_committed m) (ms_draft_committed m + ps_draft_tokens s)
              (ms_draft_committed m + min (Suc a) (ps_draft_tokens s)) (ps_draft_tokens s - min (Suc a) (ps_draft_tokens s)),
            mo_status = st, mo_physical_disposition = (if st = MemberActive then DispositionContinue else DispositionRetire),
            mo_next_draft_anchor = (if st = MemberActive then Some c else None)\<rparr>\<rparr>)"
      using ac k p(1) sg by (simp add: prepare_member_def Let_def block_tokens_eq [OF b] idx_def u_add_def
          settle_roles_eq [OF s m(3) ac(2)])
    show ?thesis unfolding e using ac p sg
      by (auto simp: prepared_ok_def Let_def choice_token_def prod_eq_iff)
  qed
qed

subsection \<open>Binding and preparing a round\<close>

definition input_of :: "member_state \<Rightarrow> round_member_input" where
  "input_of m = \<lparr>ri_request = ms_request m, ri_round_anchor = ms_next_anchor m, ri_target_pre_committed = ms_target_committed m,
     ri_draft_pre_committed = ms_draft_committed m\<rparr>"

abbreviation active_members :: "generation_loop \<Rightarrow> member_state list" where
  "active_members l \<equiv> filter is_active (gl_members l)"

definition input_fits :: "physical_shape \<Rightarrow> round_member_input \<Rightarrow> bool" where
  "input_fits s i \<longleftrightarrow> cursors_fit s (ri_target_pre_committed i) (ri_draft_pre_committed i)"

lemma bind_members_spec:
  assumes "shape_wf s"
  shows "\<exists>r. bind_members s n lane ms acc = Some r \<and> (\<forall>ins. r = Inr ins \<longrightarrow>
    ins = acc @ map (input_of \<circ> fst) ms \<and> map snd ms = map (ms_request \<circ> fst) ms \<and> (\<forall>x \<in> set ms. input_fits s (input_of (fst x))))"
proof (induction ms arbitrary: lane acc)
  case (Cons x ms)
  obtain m q where x: "x = (m, q)" by (cases x)
  obtain v where v: "validate_context s lane m = Some v" "v = Inr () \<longleftrightarrow> cursors_fit s (ms_target_committed m) (ms_draft_committed m)"
    using validate_context_eq [OF assms] by blast
  show ?case
  proof (cases "ms_request m = q \<and> v = Inr () \<and> length acc < INLINE_ROSTER_CAPACITY")
    case False
    then show ?thesis using x v by (cases v) (auto simp: inline_push_def)
  next
    case True
    then have "bind_members s n lane (x # ms) acc = bind_members s n (lane + 1) ms (acc @ [input_of m])"
      using x v by (simp add: inline_push_def input_of_def)
    then show ?thesis using Cons.IH [of "lane + 1" "acc @ [input_of m]"] True v x by (auto simp: input_fits_def input_of_def)
  qed
qed simp

lemma bind_round_spec:
  assumes "shape_wf (gl_shape l)"
  shows "\<exists>r. bind_round l n epoch roster = Some r \<and> (\<forall>b. r = Inr b \<longrightarrow>
    b = \<lparr>rb_coordinator_identity = gl_identity l, rb_shape = gl_shape l, rb_round = gl_next_round l, rb_epoch = epoch,
         rb_members = map input_of (active_members l)\<rparr>
    \<and> n = gl_next_round l \<and> gl_next_round l \<noteq> U64_MAX \<and> epoch_value epoch \<noteq> 0 \<and> active_members l \<noteq> [] \<and> roster = map ms_request (active_members l)
    \<and> (\<forall>e. gl_last_epoch l = Some e \<longrightarrow> epoch_value epoch = Suc (epoch_value e)) \<and> (\<forall>i \<in> set (rb_members b). input_fits (gl_shape l) i))"
proof -
  let ?a = "active_members l"
  obtain r where r: "bind_members (gl_shape l) (length ?a) 0 (zip ?a roster) [] = Some r"
    "\<forall>ins. r = Inr ins \<longrightarrow> ins = map (input_of \<circ> fst) (zip ?a roster) \<and> map snd (zip ?a roster) = map (ms_request \<circ> fst) (zip ?a roster)
       \<and> (\<forall>x \<in> set (zip ?a roster). input_fits (gl_shape l) (input_of (fst x)))"
    using bind_members_spec [OF assms, of "length ?a" 0 "zip ?a roster" "[]"] by auto
  have r': "ins = map input_of ?a \<and> roster = map ms_request ?a \<and> (\<forall>i \<in> set ins. input_fits (gl_shape l) i)"
    if len: "length roster = length ?a" and ins: "r = Inr ins" for ins
  proof -
    have fst: "map fst (zip ?a roster) = ?a" and snd: "map snd (zip ?a roster) = roster" using len by simp_all
    then have "map (f \<circ> fst) (zip ?a roster) = map f ?a" for f :: "member_state \<Rightarrow> 'x" by (metis map_map)
    with r(2) ins snd have "ins = map input_of ?a" "roster = map ms_request ?a" by metis+
    moreover have "\<forall>i \<in> set ins. input_fits (gl_shape l) i"
      using r(2) ins by auto
    ultimately show ?thesis by blast
  qed
  let ?epoch_bad = "case gl_last_epoch l of None \<Rightarrow> None | Some e \<Rightarrow> (case u64_add (epoch_value e) 1 of None \<Rightarrow> Some RoundExhausted
      | Some expected \<Rightarrow> if epoch_value epoch \<noteq> expected then Some (EpochSequence expected (epoch_value epoch)) else None)"
  have last: "?epoch_bad = None \<Longrightarrow> gl_last_epoch l = Some e \<Longrightarrow> epoch_value epoch = Suc (epoch_value e)" for e
    by (auto split: option.splits if_splits)
  show ?thesis
  proof (cases "n = gl_next_round l \<and> gl_next_round l \<noteq> U64_MAX \<and> epoch_value epoch \<noteq> 0 \<and> ?epoch_bad = None \<and> ?a \<noteq> []
      \<and> length roster = length ?a \<and> (\<exists>ins. r = Inr ins)")
    case True
    then obtain ins where ins: "r = Inr ins" by blast
    then have "bind_round l n epoch roster = Some (Inr \<lparr>rb_coordinator_identity = gl_identity l, rb_shape = gl_shape l,
        rb_round = gl_next_round l, rb_epoch = epoch, rb_members = ins\<rparr>)"
      using True r(1) unfolding bind_round_def Let_def by simp
    moreover have "\<forall>e. gl_last_epoch l = Some e \<longrightarrow> epoch_value epoch = Suc (epoch_value e)" using last True by blast
    ultimately show ?thesis using True r' [OF _ ins] by simp
  next
    case False
    then have "\<exists>e. bind_round l n epoch roster = Some (Inl e)"
      using r(1) unfolding bind_round_def Let_def by (cases r; cases ?epoch_bad) auto
    then show ?thesis by auto
  qed
qed

lemma check_bound_members_iff:
  "length ms = length ins \<Longrightarrow> check_bound_members lane (zip ms ins) = Inr () \<longleftrightarrow> ins = map input_of ms"
proof (induction ms arbitrary: lane ins)
  case (Cons m ms)
  then obtain i rest where "ins = i # rest" by (cases ins) auto
  with Cons show ?case by (cases i) (auto simp: input_of_def)
qed simp

lemma validate_binding_iff:
  "validate_binding l b = Inr () \<longleftrightarrow> rb_coordinator_identity b = gl_identity l \<and> rb_shape b = gl_shape l \<and> rb_round b = gl_next_round l
     \<and> rb_members b = map input_of (active_members l)"
proof (cases "length (active_members l) = length (rb_members b)")
  case True
  then show ?thesis using check_bound_members_iff [OF True] by (simp add: validate_binding_def Let_def)
next
  case False
  then show ?thesis by (auto simp: validate_binding_def Let_def dest: arg_cong [where f = length])
qed

lemma first_position_at:
  assumes "distinct (map f xs)" "x \<in> set xs"
  shows "\<exists>j < length xs. first_position (\<lambda>y. f y = f x) xs = Some j \<and> xs ! j = x"
  using assms
proof (induction xs)
  case (Cons y ys)
  show ?case
  proof (cases "f y = f x")
    case True
    then have "x = y" using Cons.prems by (auto dest: imageI [of x _ f])
    then show ?thesis by auto
  next
    case False
    then show ?thesis using Cons by auto
  qed
qed simp

definition generation_member_ok :: "member_state \<Rightarrow> bool" where
  "generation_member_ok m \<longleftrightarrow> policy_wf (ms_policy m) \<and> ms_target_committed m \<le> 8192 \<and> ms_draft_committed m \<le> 8192
     \<and> ms_generated_tokens m \<le> gp_max_output_tokens (ms_policy m)
     \<and> (is_active m \<longrightarrow> ms_generated_tokens m < gp_max_output_tokens (ms_policy m))"

definition loop_inv :: "generation_loop \<Rightarrow> bool" where
  "loop_inv l \<longleftrightarrow> shape_wf (gl_shape l) \<and> gl_members l \<noteq> [] \<and> length (gl_members l) \<le> ps_sequences (gl_shape l)
     \<and> distinct (map ms_request (gl_members l)) \<and> (\<forall>m \<in> set (gl_members l). generation_member_ok m) \<and> gl_next_round l \<le> U64_MAX"

lemma loop_inv_length: "loop_inv l \<Longrightarrow> length (gl_members l) \<le> 8"
  using shape_wf_facts(2) [of "gl_shape l"] by (auto simp: loop_inv_def)

text \<open>The preparation of lane \<open>i\<close> of the active members.\<close>

definition lane_prepared ::
  "generation_loop \<Rightarrow> checked_member_observation list \<Rightarrow> member_control list \<Rightarrow> nat \<Rightarrow> prepared_member \<Rightarrow> bool" where
  "lane_prepared l observations controls i pm \<longleftrightarrow>
     (\<exists>j < length (gl_members l). gl_members l ! j = active_members l ! i
        \<and> cm_request (observations ! i) = ms_request (gl_members l ! j)
        \<and> prepared_ok (gl_shape l) j (gl_members l ! j) (observations ! i) (ct_action (controls ! i)) pm)"

lemma prepare_members_spec:
  assumes inv: "loop_inv l" and bm: "rb_members b = map input_of (active_members l)" and fits: "\<forall>i \<in> set (rb_members b). input_fits (gl_shape l) i"
    and obs: "length observations = length (rb_members b)" "\<forall>x \<in> set observations. block_wf (cm_emitted x)" "length controls = length (rb_members b)"
    and "lane + n \<le> length (rb_members b)"
  shows "\<exists>r. prepare_members l b observations controls n lane acc = Some r \<and> (\<forall>ps. r = Inr ps \<longrightarrow> (\<exists>ps'. ps = acc @ ps' \<and> length ps' = n
    \<and> (\<forall>i < n. lane_prepared l observations controls (lane + i) (ps' ! i))))"
  using assms(7)
proof (induction n arbitrary: lane acc)
  case (Suc n)
  let ?m = "active_members l ! lane" and ?o = "observations ! lane" and ?c = "controls ! lane"
  have lane: "lane < length (active_members l)" "lane < length (rb_members b)" using Suc.prems bm by auto
  then have mem: "?m \<in> set (gl_members l)" "is_active ?m" using nth_mem [OF lane(1)] by auto
  have input: "rb_members b ! lane = input_of ?m" using lane bm by simp
  have req: "ri_request (rb_members b ! lane) = ms_request ?m" using input by (simp add: input_of_def)
  have fit: "cursors_fit (gl_shape l) (ms_target_committed ?m) (ms_draft_committed ?m)"
    using fits nth_mem [OF lane(2)] input by (auto simp: input_fits_def input_of_def)
  obtain j where j: "j < length (gl_members l)" "first_position (\<lambda>y. ms_request y = ms_request ?m) (gl_members l) = Some j" "gl_members l ! j = ?m"
    using first_position_at [OF _ mem(1), of ms_request] inv by (auto simp: loop_inv_def)
  have mok: "generation_member_ok ?m" "shape_wf (gl_shape l)" using inv mem(1) by (auto simp: loop_inv_def)
  obtain r where r: "prepare_member (gl_shape l) lane j ?m ?o (ct_action ?c) = Some r"
    "\<forall>pm. r = Inr pm \<longrightarrow> prepared_ok (gl_shape l) j ?m ?o (ct_action ?c) pm"
    using prepare_member_spec [OF mok(2) _ _ fit, of ?o lane j "ct_action ?c"] mok(1) mem(2) obs lane by (auto simp: generation_member_ok_def)
  have step: "prepare_members l b observations controls (Suc n) lane acc =
     (if cm_request ?o \<noteq> ms_request ?m then Some (Inl (CompletionRequest lane (ms_request ?m) (cm_request ?o)))
      else if ct_request ?c \<noteq> ms_request ?m then Some (Inl (ControlRequest lane (ms_request ?m) (ct_request ?c)))
      else case r of Inl e \<Rightarrow> Some (Inl e)
       | Inr pm \<Rightarrow> (case inline_push acc pm of None \<Rightarrow> Some (Inl (RosterCapacity INLINE_ROSTER_CAPACITY (length (rb_members b))))
          | Some acc' \<Rightarrow> prepare_members l b observations controls n (lane + 1) acc'))"
    using lane obs j r(1) req by (simp add: idx_ok)
  show ?case
  proof (cases "cm_request ?o = ms_request ?m \<and> ct_request ?c = ms_request ?m \<and> length acc < INLINE_ROSTER_CAPACITY \<and> (\<exists>pm. r = Inr pm)")
    case False
    then show ?thesis unfolding step by (cases r) (auto simp: inline_push_def)
  next
    case True
    then obtain pm where pm: "r = Inr pm" by blast
    have lp: "lane_prepared l observations controls lane pm"
      using True r(2) pm j by (auto simp: lane_prepared_def)
    obtain r' where r': "prepare_members l b observations controls n (Suc lane) (acc @ [pm]) = Some r'"
      "\<forall>ps. r' = Inr ps \<longrightarrow> (\<exists>ps'. ps = (acc @ [pm]) @ ps' \<and> length ps' = n \<and> (\<forall>i < n. lane_prepared l observations controls (Suc lane + i) (ps' ! i)))"
      using Suc.IH [of "Suc lane" "acc @ [pm]"] Suc.prems by auto
    have "\<exists>ps'. ps = acc @ ps' \<and> length ps' = Suc n \<and> (\<forall>i < Suc n. lane_prepared l observations controls (lane + i) (ps' ! i))"
      if eq: "r' = Inr ps" for ps
    proof -
      obtain ps' where ps': "ps = (acc @ [pm]) @ ps'" "length ps' = n" "\<forall>i < n. lane_prepared l observations controls (Suc lane + i) (ps' ! i)"
        using r'(2) eq by blast
      then show ?thesis using lp by (intro exI [of _ "pm # ps'"]) (simp add: All_less_Suc2)
    qed
    then show ?thesis using True r' pm unfolding step by (simp add: inline_push_def)
  qed
qed simp

subsection \<open>Preflight\<close>

lemma inline_push_all_ok: "length xs + length acc \<le> INLINE_ROSTER_CAPACITY \<Longrightarrow> inline_push_all xs acc = Some (acc @ xs)"
  by (induction xs arbitrary: acc) (simp_all add: inline_push_def)

definition update_of :: "prepared_member \<Rightarrow> prepared_member_update" where
  "update_of pm = \<lparr>pu_member_index = pm_member_index pm, pu_generated_tokens = pm_generated_tokens pm\<rparr>"

text \<open>What a permit holds: for the lanes of the active members, in order, their prepared outcomes.\<close>

definition permit_spec ::
  "generation_loop \<Rightarrow> round_binding \<Rightarrow> checked_member_observation list \<Rightarrow> member_control list \<Rightarrow> preflighted_round \<Rightarrow> bool" where
  "permit_spec l b observations controls pf \<longleftrightarrow> validate_binding l b = Inr ()
     \<and> length observations = length (active_members l) \<and> length controls = length (active_members l)
     \<and> (\<exists>ps. length ps = length (active_members l) \<and> (\<forall>i < length ps. lane_prepared l observations controls i (ps ! i))
        \<and> pf = \<lparr>pf_binding = b, pf_updates = map update_of ps, pf_outcomes = map pm_outcome ps,
             pf_next_active_roster = map mo_request (filter (\<lambda>out. mo_status out = MemberActive) (map pm_outcome ps))\<rparr>)"

lemma preflight_observed_round_spec:
  assumes inv: "loop_inv l" and fits: "\<forall>i \<in> set (rb_members b). input_fits (rb_shape b) i"
    and blocks: "\<forall>x \<in> set observations. block_wf (cm_emitted x)"
  shows "\<exists>r. preflight_observed_round l b sel epoch observations controls = Some r \<and> (\<forall>pf. r = Inr pf \<longrightarrow>
    sel = ps_selection (gl_shape l) \<and> epoch = rb_epoch b \<and> permit_spec l b observations controls pf)"
proof (cases "validate_binding l b = Inr () \<and> sel = ps_selection (gl_shape l) \<and> epoch = rb_epoch b
    \<and> length observations = length (rb_members b) \<and> length controls = length (rb_members b)")
  case False
  then show ?thesis by (cases "validate_binding l b") (auto simp: preflight_observed_round_def)
next
  case True
  then have v: "rb_shape b = gl_shape l" "rb_members b = map input_of (active_members l)" by (simp_all add: validate_binding_iff)
  obtain r where r: "prepare_members l b observations controls (length (rb_members b)) 0 [] = Some r"
    "\<forall>ps. r = Inr ps \<longrightarrow> length ps = length (rb_members b) \<and> (\<forall>i < length ps. lane_prepared l observations controls i (ps ! i))"
    using prepare_members_spec [OF inv v(2), of observations controls 0 "length (rb_members b)" "[]"] True fits blocks v by auto
  show ?thesis
  proof (cases r)
    case (Inl e)
    then show ?thesis using True r(1) by (simp add: preflight_observed_round_def)
  next
    case (Inr ps)
    let ?outs = "map pm_outcome ps"
    let ?roster = "map mo_request (filter (\<lambda>out. mo_status out = MemberActive) ?outs)"
    have len: "length ps = length (active_members l)" using r(2) Inr v(2) by simp
    also have "\<dots> \<le> length (gl_members l)" by (rule length_filter_le)
    also have "\<dots> \<le> 8" using loop_inv_length [OF inv] .
    finally have "length ps \<le> INLINE_ROSTER_CAPACITY" by (simp add: INLINE_ROSTER_CAPACITY_def M1_MAX_ACTIVE_SEQUENCES_def)
    moreover have "length ?roster \<le> length ps" using length_filter_le [of _ ?outs] by simp
    ultimately have cap: "length ps \<le> INLINE_ROSTER_CAPACITY" "length ?roster \<le> INLINE_ROSTER_CAPACITY" by linarith+
    then have "inline_push_all ?roster [] = Some ?roster" using inline_push_all_ok [of ?roster "[]"] by simp
    with cap(1) have "preflight_observed_round l b sel epoch observations controls = Some (Inr \<lparr>pf_binding = b, pf_updates = map update_of ps,
        pf_outcomes = ?outs, pf_next_active_roster = ?roster\<rparr>)"
      using True r(1) Inr by (simp add: preflight_observed_round_def inline_push_all_ok update_of_def [abs_def])
    moreover have "permit_spec l b observations controls \<lparr>pf_binding = b, pf_updates = map update_of ps,
        pf_outcomes = ?outs, pf_next_active_roster = ?roster\<rparr>"
      unfolding permit_spec_def using True v(2) r(2) Inr len by auto
    ultimately show ?thesis using True by simp
  qed
qed

definition observation_of :: "checked_record \<Rightarrow> checked_member_observation" where
  "observation_of ck = \<lparr>cm_request = cr_request (ck_record ck), cm_semantics = ck_semantics ck,
     cm_emitted = \<lparr>tb_tokens = take (cr_emitted_token_count (ck_record ck)) (cr_emitted_tokens (ck_record ck))
         @ replicate (17 - cr_emitted_token_count (ck_record ck)) 0, tb_count = cr_emitted_token_count (ck_record ck)\<rparr>\<rparr>"

lemma observe_checked_spec:
  "observe_checked n lane cks acc = Inr obs \<Longrightarrow> obs = acc @ map observation_of cks
     \<and> (\<forall>ck \<in> set cks. cr_emitted_token_count (ck_record ck) \<le> 17
         \<and> cr_emitted_token_count (ck_record ck) \<le> length (cr_emitted_tokens (ck_record ck)))"
proof (induction cks arbitrary: lane acc)
  case (Cons ck cks)
  let ?n = "cr_emitted_token_count (ck_record ck)" and ?ts = "cr_emitted_tokens (ck_record ck)"
  have "?n \<le> length ?ts" "?n \<le> 17" "observe_checked n (Suc lane) cks (acc @ [observation_of ck]) = Inr obs"
    using Cons.prems by (auto simp: Let_def block_from_slice_eq inline_push_def observation_of_def min_def split: if_splits)
  with Cons.IH show ?case by force
qed simp

lemma observation_block:
  assumes "cr_emitted_token_count (ck_record ck) \<le> 17" "cr_emitted_token_count (ck_record ck) \<le> length (cr_emitted_tokens (ck_record ck))"
  shows "block_wf (cm_emitted (observation_of ck))"
    "tokens_of (cm_emitted (observation_of ck)) = take (cr_emitted_token_count (ck_record ck)) (cr_emitted_tokens (ck_record ck))"
  using assms by (simp_all add: observation_of_def block_wf_def)

lemma preflight_checked_round_spec:
  assumes "loop_inv l" "\<forall>i \<in> set (rb_members b). input_fits (rb_shape b) i"
  shows "\<exists>r. preflight_checked_round l b checked controls = Some r \<and> (\<forall>pf. r = Inr pf \<longrightarrow>
    co_selection checked = ps_selection (gl_shape l) \<and> co_epoch checked = rb_epoch b
    \<and> (\<forall>ck \<in> set (co_records checked). cr_emitted_token_count (ck_record ck) \<le> 17
         \<and> cr_emitted_token_count (ck_record ck) \<le> length (cr_emitted_tokens (ck_record ck)))
    \<and> permit_spec l b (map observation_of (co_records checked)) controls pf)"
proof (cases "observe_checked (length (co_records checked)) 0 (co_records checked) []")
  case (Inl e)
  then show ?thesis by (simp add: preflight_checked_round_def)
next
  case (Inr obs)
  note o = observe_checked_spec [OF Inr]
  then have "\<forall>x \<in> set obs. block_wf (cm_emitted x)" using observation_block(1) by auto
  note spec = preflight_observed_round_spec [OF assms this, of "co_selection checked" "co_epoch checked" controls]
  have e: "preflight_checked_round l b checked controls =
      preflight_observed_round l b (co_selection checked) (co_epoch checked) obs controls"
    using Inr by (simp add: preflight_checked_round_def)
  obtain r where "preflight_observed_round l b (co_selection checked) (co_epoch checked) obs controls = Some r"
    "\<forall>pf. r = Inr pf \<longrightarrow> co_selection checked = ps_selection (gl_shape l) \<and> co_epoch checked = rb_epoch b \<and> permit_spec l b obs controls pf"
    using spec by blast
  then show ?thesis unfolding e using o by auto
qed

end
