(* ===== verification/Generation_Machine.thy ===== *)
theory Generation_Machine
  imports Generation_Rounds
begin

text \<open>
  Every operation of the generation coordinator returns, whatever bindings and permits its callers hold and in
  whatever order they spend them: the invariant of the coordinator and of the outstanding bindings and permits, and its
  preservation.
\<close>

subsection \<open>Commit\<close>

definition updated_member :: "prepared_member_update \<Rightarrow> member_round_outcome \<Rightarrow> member_state \<Rightarrow> member_state" where
  "updated_member u out m = m\<lparr>ms_status := mo_status out, ms_next_anchor := choice_token (mo_verification_choice out),
     ms_target_committed := ks_commit_end (mo_target_settlement out), ms_draft_committed := ks_commit_end (mo_draft_settlement out),
     ms_generated_tokens := pu_generated_tokens u\<rparr>"

definition update_ok :: "member_state list \<Rightarrow> prepared_member_update \<times> member_round_outcome \<Rightarrow> bool" where
  "update_ok ms x \<longleftrightarrow> (let u = fst x; out = snd x in
     pu_member_index u < length ms \<and> ks_commit_end (mo_target_settlement out) \<le> 8192 \<and> ks_commit_end (mo_draft_settlement out) \<le> 8192
     \<and> pu_generated_tokens u \<le> gp_max_output_tokens (ms_policy (ms ! pu_member_index u))
     \<and> (mo_status out = MemberActive \<longrightarrow> pu_generated_tokens u < gp_max_output_tokens (ms_policy (ms ! pu_member_index u))))"

lemma update_ok_mono:
  "update_ok ms x \<Longrightarrow> map ms_policy ms = map ms_policy ms' \<Longrightarrow> update_ok ms' x"
  unfolding update_ok_def Let_def by (metis length_map nth_map)

lemma apply_updates_safe:
  assumes "\<forall>x \<in> set us. update_ok ms x" "\<forall>m \<in> set ms. generation_member_ok m"
  shows "\<exists>ms'. apply_updates us ms = Some ms' \<and> (\<forall>m \<in> set ms'. generation_member_ok m)
    \<and> map ms_request ms' = map ms_request ms \<and> map ms_policy ms' = map ms_policy ms"
  using assms
proof (induction us arbitrary: ms)
  case (Cons x us)
  obtain u out where x: "x = (u, out)" by (cases x)
  let ?j = "pu_member_index u" and ?ms = "ms[pu_member_index u := updated_member u out (ms ! pu_member_index u)]"
  have j: "?j < length ms" using Cons.prems(1) x by (simp add: update_ok_def Let_def)
  have m: "generation_member_ok (ms ! ?j)" using Cons.prems(2) nth_mem [OF j] by blast
  have step: "apply_updates (x # us) ms = apply_updates us ?ms" using j x by (simp add: exec_simps updated_member_def)
  have keep: "map ms_request ?ms = map ms_request ms" "map ms_policy ?ms = map ms_policy ms"
    using j by (auto simp: map_update updated_member_def list_update_same_conv)
  have "generation_member_ok (updated_member u out (ms ! ?j))"
    using Cons.prems(1) x m by (simp add: update_ok_def Let_def generation_member_ok_def updated_member_def is_active_def)
  then have "\<forall>m \<in> set ?ms. generation_member_ok m" using Cons.prems(2) by (auto dest: subsetD [OF set_update_subset_insert])
  moreover have "\<forall>y \<in> set us. update_ok ?ms y" using Cons.prems(1) update_ok_mono [OF _ keep(2) [symmetric]] by simp
  ultimately show ?case using Cons.IH [of ?ms] step keep by simp
qed simp

text \<open>Updates of distinct members change exactly these members.\<close>

lemma apply_updates_nth:
  assumes "apply_updates us ms = Some ms'" "distinct (map (pu_member_index \<circ> fst) us)"
  shows "length ms' = length ms
    \<and> (\<forall>x \<in> set us. pu_member_index (fst x) < length ms
         \<and> ms' ! pu_member_index (fst x) = updated_member (fst x) (snd x) (ms ! pu_member_index (fst x)))
    \<and> (\<forall>j. j \<notin> pu_member_index ` fst ` set us \<longrightarrow> ms' ! j = ms ! j)"
  using assms
proof (induction us arbitrary: ms)
  case (Cons x us)
  obtain u out where x: "x = (u, out)" by (cases x)
  let ?ms = "ms[pu_member_index u := updated_member u out (ms ! pu_member_index u)]"
  have j: "pu_member_index u < length ms" and step: "apply_updates us ?ms = Some ms'"
    using Cons.prems(1) x by (auto simp: idx_def upd_def updated_member_def split: if_splits)
  note IH = Cons.IH [OF step]
  have fresh: "pu_member_index u \<notin> pu_member_index ` fst ` set us" using Cons.prems(2) x by (auto simp: image_image)
  show ?case
  proof (intro conjI ballI allI impI)
    show "length ms' = length ms" using IH Cons.prems(2) by simp
  next
    fix y assume y: "y \<in> set (x # us)"
    show "pu_member_index (fst y) < length ms" using y x j IH Cons.prems(2) by auto
    show "ms' ! pu_member_index (fst y) = updated_member (fst y) (snd y) (ms ! pu_member_index (fst y))"
    proof (cases "y = x")
      case True
      then show ?thesis using IH Cons.prems(2) fresh x j by auto
    next
      case False
      then have "y \<in> set us" using y by simp
      then show ?thesis using IH Cons.prems(2) fresh by (metis distinct.simps(2) image_eqI list.simps(9) nth_list_update_neq)
    qed
  next
    fix j assume "j \<notin> pu_member_index ` fst ` set (x # us)"
    then show "ms' ! j = ms ! j" using IH Cons.prems(2) x by auto
  qed
qed simp

subsection \<open>A coordinator and the handles its callers hold\<close>

text \<open>Bindings and permits are values the coordinator hands out and takes back by move: a call that takes one removes
  it, whether it succeeds or not, except that a refused commit returns the permit.\<close>

record generation_world =
  gw_loop :: generation_loop
  gw_bindings :: "round_binding list"
  gw_permits :: "preflighted_round list"

datatype generation_op =
    BindRound u64 completion_epoch "request_id list"
  | PreflightRound nat checked_completion_output "member_control list"
  | CommitRound nat
  | CompleteRound nat checked_completion_output "member_control list"
  | CatchUpDraft draft_catchup_transition

datatype generation_reply = Bound round_binding | Prepared preflighted_round | Committed round_outcome | CaughtUp

datatype generation_refusal = LoopRefused generation_error | NoSuchHandle

definition remove_at :: "nat \<Rightarrow> 'a list \<Rightarrow> 'a list" where
  "remove_at i xs = take i xs @ drop (Suc i) xs"

fun generation_step ::
  "generation_op \<Rightarrow> generation_world \<Rightarrow> ((generation_refusal + generation_reply) \<times> generation_world) exec" where
  "generation_step (BindRound n epoch roster) w = do {
     r \<leftarrow> bind_round (gw_loop w) n epoch roster;
     Some (case r of Inl e \<Rightarrow> (Inl (LoopRefused e), w) | Inr b \<Rightarrow> (Inr (Bound b), w\<lparr>gw_bindings := gw_bindings w @ [b]\<rparr>)) }"
| "generation_step (PreflightRound i checked controls) w =
     (if length (gw_bindings w) \<le> i then Some (Inl NoSuchHandle, w)
      else do {
        r \<leftarrow> preflight_checked_round (gw_loop w) (gw_bindings w ! i) checked controls;
        let w' = w\<lparr>gw_bindings := remove_at i (gw_bindings w)\<rparr>;
        Some (case r of Inl e \<Rightarrow> (Inl (LoopRefused e), w') | Inr p \<Rightarrow> (Inr (Prepared p), w'\<lparr>gw_permits := gw_permits w @ [p]\<rparr>)) })"
| "generation_step (CommitRound i) w =
     (if length (gw_permits w) \<le> i then Some (Inl NoSuchHandle, w)
      else do {
        (r, l) \<leftarrow> commit_preflighted_round (gw_loop w) (gw_permits w ! i);
        Some (case r of Inl (e, _) \<Rightarrow> (Inl (LoopRefused e), w\<lparr>gw_loop := l\<rparr>)
          | Inr out \<Rightarrow> (Inr (Committed out), w\<lparr>gw_loop := l, gw_permits := remove_at i (gw_permits w)\<rparr>)) })"
| "generation_step (CompleteRound i checked controls) w =
     (if length (gw_bindings w) \<le> i then Some (Inl NoSuchHandle, w)
      else do {
        (r, l) \<leftarrow> complete_checked_round (gw_loop w) (gw_bindings w ! i) checked controls;
        let w' = w\<lparr>gw_loop := l, gw_bindings := remove_at i (gw_bindings w)\<rparr>;
        Some (map_sum LoopRefused Committed r, w') })"
| "generation_step (CatchUpDraft t) w = do {
     (r, l) \<leftarrow> commit_draft_catchup_transition (gw_loop w) t;
     Some (map_sum LoopRefused (\<lambda>_. CaughtUp) r, w\<lparr>gw_loop := l\<rparr>) }"

text \<open>A draft catch-up may move the draft cursor and the epoch between a bind and its commit; it makes the binding
  stale, which shows in the sum of the draft cursors.\<close>

definition binding_ok :: "generation_loop \<Rightarrow> round_binding \<Rightarrow> bool" where
  "binding_ok l b \<longleftrightarrow> rb_round b \<le> gl_next_round l \<and> rb_round b < U64_MAX \<and> (\<forall>i \<in> set (rb_members b). input_fits (rb_shape b) i)
     \<and> (rb_round b = gl_next_round l \<longrightarrow>
          sum_list (map ri_draft_pre_committed (rb_members b)) \<le> sum_list (map ms_draft_committed (active_members l))
          \<and> (sum_list (map ri_draft_pre_committed (rb_members b)) = sum_list (map ms_draft_committed (active_members l)) \<longrightarrow>
               (\<forall>e. gl_last_epoch l = Some e \<longrightarrow> epoch_value e < epoch_value (rb_epoch b))))"

definition permit_ok :: "generation_loop \<Rightarrow> preflighted_round \<Rightarrow> bool" where
  "permit_ok l p \<longleftrightarrow> binding_ok l (pf_binding p)
     \<and> (rb_round (pf_binding p) = gl_next_round l \<longrightarrow> (\<forall>x \<in> set (zip (pf_updates p) (pf_outcomes p)). update_ok (gl_members l) x))"

definition generation_inv :: "generation_world \<Rightarrow> bool" where
  "generation_inv w \<longleftrightarrow> loop_inv (gw_loop w) \<and> (\<forall>b \<in> set (gw_bindings w). binding_ok (gw_loop w) b)
     \<and> (\<forall>p \<in> set (gw_permits w). permit_ok (gw_loop w) p)"

lemma set_remove_at: "set (remove_at i xs) \<subseteq> set xs"
  by (auto simp: remove_at_def dest: in_set_takeD in_set_dropD)

lemma lane_prepared_update_ok:
  assumes "loop_inv l" "rb_members b = map input_of (active_members l)" "\<forall>i \<in> set (rb_members b). input_fits (gl_shape l) i"
    "i < length (active_members l)" "lane_prepared l obs controls i pm"
  shows "update_ok (gl_members l) (update_of pm, pm_outcome pm)"
proof -
  obtain j where j: "j < length (gl_members l)" "gl_members l ! j = active_members l ! i"
    "prepared_ok (gl_shape l) j (gl_members l ! j) (obs ! i) (ct_action (controls ! i)) pm"
    using assms(5) by (auto simp: lane_prepared_def)
  let ?m = "gl_members l ! j"
  have act: "is_active ?m" using j(2) nth_mem [OF assms(4)] by auto
  have m: "generation_member_ok ?m" using assms(1) j(1) by (auto simp: loop_inv_def)
  have "input_of ?m \<in> set (rb_members b)" using assms(2,4) j(2) nth_mem [OF assms(4)] by auto
  then have fit: "cursors_fit (gl_shape l) (ms_target_committed ?m) (ms_draft_committed ?m)"
    using assms(3) by (auto simp: input_fits_def input_of_def)
  have g: "ms_generated_tokens ?m < gp_max_output_tokens (ms_policy ?m)" using m act by (simp add: generation_member_ok_def)
  have "pm_generated_tokens pm \<le> gp_max_output_tokens (ms_policy ?m)"
    "mo_status (pm_outcome pm) = MemberActive \<Longrightarrow> pm_generated_tokens pm < gp_max_output_tokens (ms_policy ?m)"
    using j(3) g published_status_active [OF g] by (auto simp: prepared_ok_def Let_def round_result_def split: control_action.splits)
  moreover have "pm_member_index pm = j" "ks_commit_end (mo_target_settlement (pm_outcome pm)) \<le> 8192"
    "ks_commit_end (mo_draft_settlement (pm_outcome pm)) \<le> 8192"
    using j(3) fit by (auto simp: prepared_ok_def Let_def role_settlement_def cursors_fit_def)
  ultimately show ?thesis using j(1) by (simp add: update_ok_def update_of_def)
qed

lemma permit_spec_ok:
  assumes "loop_inv l" "binding_ok l b" "permit_spec l b obs controls p"
  shows "permit_ok l p" "pf_binding p = b"
proof -
  obtain ps where ps: "length ps = length (active_members l)" "\<forall>i < length ps. lane_prepared l obs controls i (ps ! i)"
    "pf_binding p = b" "pf_updates p = map update_of ps" "pf_outcomes p = map pm_outcome ps"
    and v: "rb_members b = map input_of (active_members l)" "rb_shape b = gl_shape l"
    using assms(3) by (auto simp: permit_spec_def validate_binding_iff)
  have "update_ok (gl_members l) (update_of (ps ! i), pm_outcome (ps ! i))" if "i < length ps" for i
    using lane_prepared_update_ok [OF assms(1) v(1)] assms(2) v(2) ps(1,2) that by (auto simp: binding_ok_def)
  then show "permit_ok l p" using assms(2) ps(3-5) by (auto simp: permit_ok_def set_zip)
  show "pf_binding p = b" by fact
qed

lemma commit_preflighted_round_spec:
  assumes inv: "loop_inv l" and p: "permit_ok l p"
  shows "\<exists>r l'. commit_preflighted_round l p = Some (r, l') \<and> (case r of
      Inl x \<Rightarrow> l' = l \<and> snd x = p
    | Inr out \<Rightarrow> validate_binding l (pf_binding p) = Inr () \<and> loop_inv l' \<and> gl_identity l' = gl_identity l \<and> gl_shape l' = gl_shape l
        \<and> apply_updates (zip (pf_updates p) (pf_outcomes p)) (gl_members l) = Some (gl_members l')
        \<and> gl_next_round l' = Suc (gl_next_round l) \<and> gl_last_epoch l' = Some (rb_epoch (pf_binding p))
        \<and> ro_completed_round out = gl_next_round l \<and> ro_completed_epoch out = rb_epoch (pf_binding p) \<and> ro_members out = pf_outcomes p
        \<and> (\<forall>e. gl_last_epoch l = Some e \<longrightarrow> epoch_value e < epoch_value (rb_epoch (pf_binding p))))"
proof (cases "validate_binding l (pf_binding p)")
  case (Inl e)
  then show ?thesis by (simp add: commit_preflighted_round_def)
next
  case (Inr u)
  then have v: "rb_round (pf_binding p) = gl_next_round l" "rb_members (pf_binding p) = map input_of (active_members l)"
    using validate_binding_iff [of l "pf_binding p"] by simp_all
  have sums: "map ri_draft_pre_committed (rb_members (pf_binding p)) = map ms_draft_committed (active_members l)"
    using v(2) by (simp add: input_of_def)
  have b: "gl_next_round l < U64_MAX" "\<forall>e. gl_last_epoch l = Some e \<longrightarrow> epoch_value e < epoch_value (rb_epoch (pf_binding p))"
    using p v(1) unfolding permit_ok_def binding_ok_def sums by simp_all
  obtain ms where ms: "apply_updates (zip (pf_updates p) (pf_outcomes p)) (gl_members l) = Some ms" "\<forall>m \<in> set ms. generation_member_ok m"
    "map ms_request ms = map ms_request (gl_members l)" "map ms_policy ms = map ms_policy (gl_members l)"
    using apply_updates_safe [of "zip (pf_updates p) (pf_outcomes p)" "gl_members l"] p v(1) inv by (auto simp: permit_ok_def loop_inv_def)
  have len: "length ms = length (gl_members l)" using ms(3) by (metis length_map)
  then have ne: "ms \<noteq> []" using inv by (auto simp: loop_inv_def)
  show ?thesis using Inr ms b inv len ne by (simp add: commit_preflighted_round_def loop_inv_def exec_simps)
qed

lemma catchup_spec:
  assumes inv: "loop_inv l"
  shows "\<exists>r l'. commit_draft_catchup_transition l t = Some (r, l') \<and> (case r of
      Inl e \<Rightarrow> l' = l
    | Inr _ \<Rightarrow> loop_inv l' \<and> gl_identity l' = gl_identity l \<and> gl_shape l' = gl_shape l \<and> gl_next_round l' = gl_next_round l
        \<and> (\<exists>m e. gl_members l = [m] \<and> is_active m \<and> ms_target_committed m = Suc (ms_draft_committed m)
             \<and> gl_members l' = [m\<lparr>ms_draft_committed := ms_target_committed m\<rparr>]
             \<and> gl_last_epoch l = Some e \<and> gl_last_epoch l' = Some (dc_epoch t) \<and> epoch_value (dc_epoch t) = Suc (epoch_value e)))"
proof -
  consider e where "commit_draft_catchup_transition l t = Some (Inl e, l)"
    | m e where "gl_members l = [m]" "is_active m" "ms_target_committed m = Suc (ms_draft_committed m)" "ms_target_committed m \<le> 8192"
        "gl_last_epoch l = Some e" "epoch_value (dc_epoch t) = Suc (epoch_value e)"
        "commit_draft_catchup_transition l t = Some (Inr (), l\<lparr>gl_members := [m\<lparr>ms_draft_committed := ms_target_committed m\<rparr>],
           gl_last_epoch := Some (dc_epoch t)\<rparr>)"
  proof (cases "\<exists>m e. gl_members l = [m] \<and> gl_last_epoch l = Some e")
    case False
    then have "\<exists>e. commit_draft_catchup_transition l t = Some (Inl e, l)"
      by (cases "gl_members l"; cases "tl (gl_members l)"; cases "gl_last_epoch l")
        (auto simp: commit_draft_catchup_transition_def idx_def)
    with that(1) show ?thesis by blast
  next
    case True
    then obtain m e where m: "gl_members l = [m]" "gl_last_epoch l = Some e" by blast
    then have "(\<exists>x. commit_draft_catchup_transition l t = Some (Inl x, l)) \<or>
      (is_active m \<and> ms_target_committed m = Suc (ms_draft_committed m) \<and> ms_target_committed m \<le> 8192
       \<and> epoch_value (dc_epoch t) = Suc (epoch_value e) \<and> commit_draft_catchup_transition l t =
         Some (Inr (), l\<lparr>gl_members := [m\<lparr>ms_draft_committed := ms_target_committed m\<rparr>], gl_last_epoch := Some (dc_epoch t)\<rparr>))"
      by (auto simp: commit_draft_catchup_transition_def idx_def upd_def is_active_def M1_MAX_CONTEXT_TOKENS_def)
    then show ?thesis using that m by blast
  qed
  then show ?thesis
  proof cases
    case (2 m e)
    have "generation_member_ok (m\<lparr>ms_draft_committed := ms_target_committed m\<rparr>)"
      using inv 2(1,4) by (auto simp: loop_inv_def generation_member_ok_def is_active_def)
    then show ?thesis using 2 inv by (simp add: loop_inv_def)
  qed simp
qed

subsection \<open>Preservation\<close>

lemma handles_later:
  assumes "gl_next_round l' = Suc (gl_next_round l)"
  shows "binding_ok l b \<Longrightarrow> binding_ok l' b" "permit_ok l p \<Longrightarrow> permit_ok l' p"
  using assms by (auto simp: binding_ok_def permit_ok_def)

lemma handles_caught_up:
  assumes "gl_members l = [m]" "is_active m" "ms_target_committed m = Suc (ms_draft_committed m)"
    "gl_members l' = [m\<lparr>ms_draft_committed := ms_target_committed m\<rparr>]" "gl_next_round l' = gl_next_round l"
  shows "binding_ok l b \<Longrightarrow> binding_ok l' b" "permit_ok l p \<Longrightarrow> permit_ok l' p"
proof -
  have sum: "sum_list (map ms_draft_committed (active_members l')) = Suc (sum_list (map ms_draft_committed (active_members l)))"
    using assms(1-4) by (simp add: is_active_def)
  have pol: "map ms_policy (gl_members l) = map ms_policy (gl_members l')" using assms(1,4) by simp
  show b: "binding_ok l b \<Longrightarrow> binding_ok l' b" for b unfolding binding_ok_def sum assms(5) by auto
  show "permit_ok l p \<Longrightarrow> permit_ok l' p"
    using b [of "pf_binding p"] update_ok_mono [OF _ pol] assms(5) by (auto simp: permit_ok_def)
qed

definition progress :: "generation_loop \<Rightarrow> generation_refusal + generation_reply \<Rightarrow> generation_loop \<Rightarrow> bool" where
  "progress l r l' \<longleftrightarrow> gl_identity l' = gl_identity l \<and> gl_shape l' = gl_shape l \<and>
     (case r of
        Inr (Committed out) \<Rightarrow> ro_completed_round out = gl_next_round l \<and> gl_next_round l' = Suc (gl_next_round l)
          \<and> gl_last_epoch l' = Some (ro_completed_epoch out)
          \<and> (\<forall>e. gl_last_epoch l = Some e \<longrightarrow> epoch_value e < epoch_value (ro_completed_epoch out))
      | Inr CaughtUp \<Rightarrow> gl_next_round l' = gl_next_round l
          \<and> (\<exists>e e'. gl_last_epoch l = Some e \<and> gl_last_epoch l' = Some e' \<and> epoch_value e' = Suc (epoch_value e))
      | _ \<Rightarrow> l' = l)"

lemma committed_world:
  assumes inv: "generation_inv w" and p: "permit_ok (gw_loop w) p"
    and bs: "set bs \<subseteq> set (gw_bindings w)" and ps: "set ps \<subseteq> set (gw_permits w)"
  shows "\<exists>r l'. commit_preflighted_round (gw_loop w) p = Some (r, l')
    \<and> (case r of Inl x \<Rightarrow> l' = gw_loop w
       | Inr out \<Rightarrow> progress (gw_loop w) (Inr (Committed out)) l' \<and> generation_inv \<lparr>gw_loop = l', gw_bindings = bs, gw_permits = ps\<rparr>)"
proof -
  have loop: "loop_inv (gw_loop w)" using inv by (simp add: generation_inv_def)
  obtain r l' where c: "commit_preflighted_round (gw_loop w) p = Some (r, l')" "case r of Inl x \<Rightarrow> l' = gw_loop w \<and> snd x = p
      | Inr out \<Rightarrow> loop_inv l' \<and> progress (gw_loop w) (Inr (Committed out)) l'"
    using commit_preflighted_round_spec [OF loop p] by (force simp: progress_def split: sum.splits)
  then show ?thesis
  proof (cases r)
    case (Inr out)
    then have n: "gl_next_round l' = Suc (gl_next_round (gw_loop w))" using c(2) by (simp add: progress_def)
    show ?thesis using c Inr inv bs ps handles_later [OF n] by (auto simp: generation_inv_def)
  qed auto
qed

lemma bind_round_ok:
  assumes "loop_inv l"
  shows "\<exists>r. bind_round l n epoch roster = Some r \<and> (\<forall>b. r = Inr b \<longrightarrow> binding_ok l b)"
proof -
  have "binding_ok l \<lparr>rb_coordinator_identity = gl_identity l, rb_shape = gl_shape l, rb_round = gl_next_round l, rb_epoch = epoch,
      rb_members = map input_of (active_members l)\<rparr>"
    if "gl_next_round l \<noteq> U64_MAX" "\<forall>e. gl_last_epoch l = Some e \<longrightarrow> epoch_value epoch = Suc (epoch_value e)"
      "\<forall>i \<in> set (map input_of (active_members l)). input_fits (gl_shape l) i"
    using that assms by (auto simp: binding_ok_def loop_inv_def input_of_def comp_def)
  moreover have "shape_wf (gl_shape l)" using assms by (simp add: loop_inv_def)
  ultimately show ?thesis using bind_round_spec [of l n epoch roster] by fastforce
qed

lemma generation_step_spec:
  assumes inv: "generation_inv w"
  shows "\<exists>r w'. generation_step x w = Some (r, w') \<and> generation_inv w' \<and> progress (gw_loop w) r (gw_loop w')"
proof -
  have loop: "loop_inv (gw_loop w)" "shape_wf (gl_shape (gw_loop w))" using inv by (simp_all add: generation_inv_def loop_inv_def)
  have drop: "generation_inv (w\<lparr>gw_bindings := remove_at i (gw_bindings w)\<rparr>)" for i
    using inv set_remove_at [of i "gw_bindings w"] by (auto simp: generation_inv_def)
  have fits: "\<forall>j \<in> set (rb_members (gw_bindings w ! i)). input_fits (rb_shape (gw_bindings w ! i)) j" "binding_ok (gw_loop w) (gw_bindings w ! i)"
    if "i < length (gw_bindings w)" for i
    using inv nth_mem [OF that] by (auto simp: generation_inv_def binding_ok_def)
  show ?thesis
  proof (cases x)
    case (BindRound n epoch roster)
    obtain r where r: "bind_round (gw_loop w) n epoch roster = Some r" "\<forall>b. r = Inr b \<longrightarrow> binding_ok (gw_loop w) b"
      using bind_round_ok [OF loop(1)] by blast
    then show ?thesis using BindRound inv by (cases r) (auto simp: generation_inv_def progress_def)
  next
    case (PreflightRound i checked controls)
    show ?thesis
    proof (cases "i < length (gw_bindings w)")
      case True
      obtain r where r: "preflight_checked_round (gw_loop w) (gw_bindings w ! i) checked controls = Some r"
        "\<forall>p. r = Inr p \<longrightarrow> permit_ok (gw_loop w) p"
        using preflight_checked_round_spec [OF loop(1) fits(1) [OF True], of checked controls] permit_spec_ok(1) [OF loop(1) fits(2) [OF True]] by blast
      then show ?thesis using PreflightRound True drop [of i] by (cases r) (auto simp: generation_inv_def progress_def)
    qed (use PreflightRound inv in \<open>auto simp: progress_def\<close>)
  next
    case (CommitRound i)
    show ?thesis
    proof (cases "i < length (gw_permits w)")
      case True
      then have p: "permit_ok (gw_loop w) (gw_permits w ! i)" using inv by (auto simp: generation_inv_def)
      obtain r l' where c: "commit_preflighted_round (gw_loop w) (gw_permits w ! i) = Some (r, l')"
        "case r of Inl x \<Rightarrow> l' = gw_loop w | Inr out \<Rightarrow> progress (gw_loop w) (Inr (Committed out)) l'
           \<and> generation_inv \<lparr>gw_loop = l', gw_bindings = gw_bindings w, gw_permits = remove_at i (gw_permits w)\<rparr>"
        using committed_world [OF inv p order.refl set_remove_at] by blast
      then show ?thesis using CommitRound True inv by (cases r) (auto simp: generation_inv_def progress_def)
    qed (use CommitRound inv in \<open>auto simp: progress_def\<close>)
  next
    case (CompleteRound i checked controls)
    show ?thesis
    proof (cases "i < length (gw_bindings w)")
      case True
      obtain r where r: "preflight_checked_round (gw_loop w) (gw_bindings w ! i) checked controls = Some r"
        "\<forall>p. r = Inr p \<longrightarrow> permit_ok (gw_loop w) p"
        using preflight_checked_round_spec [OF loop(1) fits(1) [OF True], of checked controls] permit_spec_ok(1) [OF loop(1) fits(2) [OF True]] by blast
      show ?thesis
      proof (cases r)
        case (Inl e)
        then show ?thesis using CompleteRound True r drop [of i]
          by (simp add: complete_checked_round_def progress_def generation_inv_def)
      next
        case (Inr p)
        then obtain r' l' where c: "commit_preflighted_round (gw_loop w) p = Some (r', l')"
          "case r' of Inl x \<Rightarrow> l' = gw_loop w | Inr out \<Rightarrow> progress (gw_loop w) (Inr (Committed out)) l'
             \<and> generation_inv \<lparr>gw_loop = l', gw_bindings = remove_at i (gw_bindings w), gw_permits = gw_permits w\<rparr>"
          using committed_world [OF inv _ set_remove_at order.refl] r(2) by blast
        then show ?thesis using CompleteRound True r Inr drop [of i]
          by (cases r') (auto simp: complete_checked_round_def progress_def generation_inv_def)
      qed
    qed (use CompleteRound inv in \<open>auto simp: progress_def\<close>)
  next
    case (CatchUpDraft t)
    obtain r l' where c: "commit_draft_catchup_transition (gw_loop w) t = Some (r, l')" "case r of Inl e \<Rightarrow> l' = gw_loop w
      | Inr _ \<Rightarrow> generation_inv (w\<lparr>gw_loop := l'\<rparr>) \<and> progress (gw_loop w) (Inr CaughtUp) l'"
    proof -
      obtain r l' where c: "commit_draft_catchup_transition (gw_loop w) t = Some (r, l')" "case r of Inl e \<Rightarrow> l' = gw_loop w
        | Inr _ \<Rightarrow> loop_inv l' \<and> gl_identity l' = gl_identity (gw_loop w) \<and> gl_shape l' = gl_shape (gw_loop w)
          \<and> gl_next_round l' = gl_next_round (gw_loop w)
          \<and> (\<exists>m e. gl_members (gw_loop w) = [m] \<and> is_active m \<and> ms_target_committed m = Suc (ms_draft_committed m)
               \<and> gl_members l' = [m\<lparr>ms_draft_committed := ms_target_committed m\<rparr>]
               \<and> gl_last_epoch (gw_loop w) = Some e \<and> gl_last_epoch l' = Some (dc_epoch t) \<and> epoch_value (dc_epoch t) = Suc (epoch_value e))"
        using catchup_spec [OF loop(1), of t] by blast
      then show thesis
      proof (cases r)
        case (Inr u)
        then have "generation_inv (w\<lparr>gw_loop := l'\<rparr>)" "progress (gw_loop w) (Inr CaughtUp) l'"
          using c(2) inv handles_caught_up [of "gw_loop w" _ l'] by (auto simp: generation_inv_def progress_def)
        then show thesis using that c Inr by simp
      qed (use that c in auto)
    qed
    then show ?thesis using CatchUpDraft inv by (cases r) (auto simp: progress_def)
  qed
qed

interpretation generation: safe_machine generation_inv generation_step
proof unfold_locales
  fix w x assume "generation_inv w"
  then show "generation_step x w \<noteq> None" using generation_step_spec [of w x] by auto
next
  fix w x r w' assume "generation_inv w" "generation_step x w = Some (r, w')"
  then show "generation_inv w'" using generation_step_spec [of w x] by auto
qed

subsection \<open>Creation\<close>

lemma validate_seed_spec:
  assumes "shape_wf s" "lane \<le> length seeds"
  shows "\<exists>r. validate_seed s seeds lane sd = Some r \<and> (r = Inr () \<longrightarrow> sd_request sd \<notin> sd_request ` set (take lane seeds)
    \<and> cursors_fit s (sd_target_committed sd) (sd_draft_committed sd))"
proof -
  obtain v where v: "validate_context s lane (seed_member sd) = Some v"
    "v = Inr () \<longleftrightarrow> cursors_fit s (sd_target_committed sd) (sd_draft_committed sd)"
    using validate_context_eq [OF assms(1), of lane "seed_member sd"] by (auto simp: seed_member_def)
  have p: "first_position (\<lambda>prior. sd_request prior = sd_request sd) (take lane seeds) = None \<longleftrightarrow> sd_request sd \<notin> sd_request ` set (take lane seeds)"
    by (auto simp: first_position_None image_iff)
  show ?thesis using v p assms(2)
    by (cases "first_position (\<lambda>prior. sd_request prior = sd_request sd) (take lane seeds)") (auto simp: validate_seed_def)
qed

lemma push_seeds_spec:
  assumes "shape_wf s" "seeds = done_seeds @ rest" "lane = length done_seeds"
  shows "\<exists>r. push_seeds s seeds lane rest acc = Some r \<and> (\<forall>ms. r = Inr ms \<longrightarrow> ms = acc @ map seed_member rest
    \<and> (distinct (map sd_request done_seeds) \<longrightarrow> distinct (map sd_request seeds))
    \<and> (\<forall>sd \<in> set rest. cursors_fit s (sd_target_committed sd) (sd_draft_committed sd)))"
  using assms(2,3)
proof (induction rest arbitrary: done_seeds lane acc)
  case (Cons sd rest)
  have tk: "take lane seeds = done_seeds" using Cons.prems by simp
  obtain v where v: "validate_seed s seeds lane sd = Some v" "v = Inr () \<longrightarrow> sd_request sd \<notin> sd_request ` set done_seeds
      \<and> cursors_fit s (sd_target_committed sd) (sd_draft_committed sd)"
    using validate_seed_spec [OF assms(1), of lane seeds sd] Cons.prems tk by auto
  show ?case
  proof (cases v)
    case (Inl e)
    then show ?thesis using v(1) by simp
  next
    case (Inr u)
    then show ?thesis using v Cons.IH [of "done_seeds @ [sd]" "Suc lane" "acc @ [seed_member sd]"] Cons.prems by auto
  qed
qed simp

lemma generation_loop_new_spec:
  assumes "\<forall>sd \<in> set seeds. policy_wf (sd_policy sd)"
  shows "\<exists>r counter'. generation_loop_new counter reserve sel seeds = Some (r, counter') \<and> (\<forall>l. r = Inr l \<longrightarrow>
    loop_inv l \<and> gl_identity l = counter \<and> counter' = Suc counter \<and> gl_members l = map seed_member seeds \<and> gl_next_round l = 0
    \<and> gl_last_epoch l = None \<and> ps_selection (gl_shape l) = sel)"
proof (cases "shape_from_selection sel")
  case (Inl e)
  then show ?thesis by (simp add: generation_loop_new_def new_with_storage_def)
next
  case (Inr s)
  then have s: "shape_wf s" "ps_selection s = sel" using shape_from_selection_wf by blast+
  obtain r where r: "push_seeds s seeds 0 seeds [] = Some r" "\<forall>ms. r = Inr ms \<longrightarrow> ms = map seed_member seeds
      \<and> distinct (map sd_request seeds) \<and> (\<forall>sd \<in> set seeds. cursors_fit s (sd_target_committed sd) (sd_draft_committed sd))"
    using push_seeds_spec [OF s(1), of seeds "[]" seeds 0 "[]"] by auto
  have ok: "loop_inv \<lparr>gl_identity = counter, gl_shape = s, gl_members = map seed_member seeds, gl_next_round = 0, gl_last_epoch = None\<rparr>"
    if "seeds \<noteq> []" "length seeds \<le> ps_sequences s" "distinct (map sd_request seeds)"
      "\<forall>sd \<in> set seeds. cursors_fit s (sd_target_committed sd) (sd_draft_committed sd)"
    using that assms s(1)
    by (auto simp: loop_inv_def generation_member_ok_def seed_member_def comp_def is_active_def policy_wf_def cursors_fit_def)
  show ?thesis using Inr s r ok
    by (cases r) (auto simp: generation_loop_new_def new_with_storage_def fresh_identity_def split: option.split)
qed

end
