(* ===== verification/Generation_Properties.thy ===== *)
theory Generation_Properties
  imports Generation_Machine
begin

text \<open>
  The guarantees of repeated speculative generation: rounds commit once and in order whatever the callers do, and what
  the clients of a session receive is the target model's own greedy generation.
\<close>

subsection \<open>Histories\<close>

inductive generation_history ::
  "generation_world \<Rightarrow> (generation_op \<times> (generation_refusal + generation_reply)) list \<Rightarrow> generation_world \<Rightarrow> bool" for w0 where
  created: "generation_history w0 [] w0"
| called: "generation_history w0 h w \<Longrightarrow> generation_step x w = Some (r, w') \<Longrightarrow> generation_history w0 ((x, r) # h) w'"

text \<open>The committed outcomes, latest first.\<close>

fun committed :: "(generation_op \<times> (generation_refusal + generation_reply)) list \<Rightarrow> round_outcome list" where
  "committed [] = []"
| "committed ((x, r) # h) = (case r of Inr (Committed out) \<Rightarrow> out # committed h | _ \<Rightarrow> committed h)"

definition fresh_world :: "generation_loop \<Rightarrow> generation_world" where
  "fresh_world l = \<lparr>gw_loop = l, gw_bindings = [], gw_permits = []\<rparr>"

lemma generation_history_inv:
  assumes "generation_history w0 h w" "generation_inv w0" "gl_next_round (gw_loop w0) = 0" "gl_last_epoch (gw_loop w0) = None"
  shows "generation_inv w \<and> map ro_completed_round (committed h) = rev [0..<gl_next_round (gw_loop w)]
    \<and> sorted_wrt (\<lambda>a b. epoch_value b < epoch_value a) (map ro_completed_epoch (committed h))
    \<and> (\<forall>out \<in> set (committed h). \<exists>e. gl_last_epoch (gw_loop w) = Some e \<and> epoch_value (ro_completed_epoch out) \<le> epoch_value e)"
  using assms
proof (induction rule: generation_history.induct)
  case (called h w x r w')
  then have IH: "generation_inv w" "map ro_completed_round (committed h) = rev [0..<gl_next_round (gw_loop w)]"
    "sorted_wrt (\<lambda>a b. epoch_value b < epoch_value a) (map ro_completed_epoch (committed h))"
    "\<forall>out \<in> set (committed h). \<exists>e. gl_last_epoch (gw_loop w) = Some e \<and> epoch_value (ro_completed_epoch out) \<le> epoch_value e"
    by auto
  have spec: "generation_inv w'" "progress (gw_loop w) r (gw_loop w')" using generation_step_spec [OF IH(1), of x] called.hyps(2) by auto
  show ?case
  proof (cases r)
    case (Inl e)
    then show ?thesis using IH spec by (simp add: progress_def)
  next
    case (Inr reply)
    then show ?thesis using IH spec by (cases reply) (force simp: progress_def)+
  qed
qed simp

lemma fresh_world_inv: "loop_inv l \<Longrightarrow> generation_inv (fresh_world l)"
  by (simp add: generation_inv_def fresh_world_def)

text \<open>C17: rounds commit once and in order.  Whatever rounds are bound, preflighted, committed or caught up on a coordinator, in any
  order, with any completions and controls, and with any number of bindings and permits outstanding at once, no call
  panics; the committed rounds are exactly 0, 1, 2 and so on, each once, and their epochs strictly increase.\<close>

theorem generation_rounds_once:
  assumes "\<forall>sd \<in> set seeds. policy_made (sd_policy sd)"
    and "generation_loop_new counter reserve sel seeds = Some (Inr l, counter')" "generation_history (fresh_world l) h w"
  shows "generation_step x w \<noteq> None \<and> rev (map ro_completed_round (committed h)) = [0..<gl_next_round (gw_loop w)]
    \<and> sorted_wrt (<) (map (epoch_value \<circ> ro_completed_epoch) (rev (committed h)))"
proof -
  have l: "loop_inv l" "gl_next_round l = 0" "gl_last_epoch l = None"
    using generation_loop_new_spec [of seeds counter reserve sel] policy_made_wf assms(1,2) by auto
  note h = generation_history_inv [OF assms(3) fresh_world_inv [OF l(1)]]
  have h: "generation_inv w" "map ro_completed_round (committed h) = rev [0..<gl_next_round (gw_loop w)]"
    "sorted_wrt (\<lambda>a b. epoch_value b < epoch_value a) (map ro_completed_epoch (committed h))"
    using h l by (simp_all add: fresh_world_def)
  have "sorted_wrt (<) (map (epoch_value \<circ> ro_completed_epoch) (rev (committed h)))"
    using h(3) by (simp add: sorted_wrt_map sorted_wrt_rev rev_map [symmetric])
  then show ?thesis using h generation.step_total [OF h(1)] by (simp add: rev_map)
qed

subsection \<open>What a round reads from the device\<close>

lemma checked_output_lanes:
  assumes shape: "m1_completion_output_shape sel = Inr shape" and wf: "scheduled_wf scheduled" and bytes: "is_bytes bytes"
    and wfs: "\<forall>ex \<in> set exs. expectation_wf ex"
    and obs: "observe_m1_completed_output_with_storage digest reserve shape sel scheduled gen index off
      \<lparr>hs_bytes = Some bytes, hs_record_capacity = cap\<rparr> = Some (Inr img)"
    and chk: "check_m1_completed_output reserve img sel scheduled exs None cap' = Some (Inr checked)"
  shows "co_selection checked = sel \<and> co_epoch checked = scheduled_epoch scheduled \<and> length (co_records checked) = length exs
    \<and> (\<forall>i < length exs. lane_exact sel scheduled None i (exs ! i) (co_records checked ! i))"
proof -
  obtain h rs where o: "observe_records_with_storage digest reserve shape sel scheduled bytes cap = Some (Inr (h, rs))"
    and img: "img = \<lparr>oi_shape = shape, oi_epoch = scheduled_epoch scheduled, oi_raw_sha256 = h, oi_dispatch_generation = gen,
      oi_data_index = index, oi_offset_bytes = off, oi_bytes = bytes, oi_records = rs\<rparr>"
    using obs by (auto simp: observe_m1_completed_output_with_storage_def split: sum.splits bind_splits)
  note rs = observe_records_iff [OF shape bytes, of digest reserve scheduled cap h rs, THEN conjunct2, THEN iffD1, OF o]
  have "length bytes = 120 * os_sequences shape" using rs batch_image_iff [of rs "os_sequences shape" bytes] by (simp add: wire_record_ok_def)
  then have batch: "observed_batch sel shape scheduled img" using shape bytes wf rs img by (simp add: observed_batch_def)
  have len: "length exs = scheduled_member_count scheduled"
    and lanes: "check_lanes img sel scheduled None 0 exs [] = Some (Inr (co_records checked))"
    and out: "co_selection checked = sel" "co_epoch checked = scheduled_epoch scheduled"
    using chk by (auto simp: check_m1_completed_output_def split: if_splits sum.splits bind_splits)
  show ?thesis using check_lanes_iff [OF batch _ wfs, of None 0 "[]" "co_records checked"] len lanes out by (auto simp: rows_fit_def)
qed

text \<open>The expectation of a lane carries the draft that was verified and the target's own greedy choices along it, for
  the tokens the request has seen so far.\<close>

definition target_choices :: "(token_id list \<Rightarrow> token_id) \<Rightarrow> (request_id \<Rightarrow> token_id list) \<Rightarrow> wire_expectation \<Rightarrow> bool" where
  "target_choices f ctx ex \<longleftrightarrow> identity_wf (sp_plan_id (we_plan ex))
     \<and> (\<exists>draft. we_semantics ex = SpeculativeTokens draft (choices_along f (ctx (sp_request (we_plan ex))) draft))"

definition device_round ::
  "(token_id list \<Rightarrow> token_id) \<Rightarrow> (request_id \<Rightarrow> token_id list) \<Rightarrow> qwen3_plan_selection \<Rightarrow> checked_completion_output \<Rightarrow> bool" where
  "device_round f ctx sel checked \<longleftrightarrow>
     (\<exists>digest reserve shape scheduled gen index off bytes cap img exs cap'.
        m1_completion_output_shape sel = Inr shape \<and> scheduled_wf scheduled \<and> is_bytes bytes
        \<and> observe_m1_completed_output_with_storage digest reserve shape sel scheduled gen index off
            \<lparr>hs_bytes = Some bytes, hs_record_capacity = cap\<rparr> = Some (Inr img)
        \<and> check_m1_completed_output reserve img sel scheduled exs None cap' = Some (Inr checked)
        \<and> (\<forall>ex \<in> set exs. target_choices f ctx ex))"

definition record_tokens :: "checked_record \<Rightarrow> token_id list" where
  "record_tokens ck = take (cr_emitted_token_count (ck_record ck)) (cr_emitted_tokens (ck_record ck))"

lemma speculative_k_bound: "speculative_k b = Some k \<Longrightarrow> k \<le> 16"
  by (cases b) auto

lemma lane_generates:
  assumes "target_choices f ctx ex" "lane_exact sel scheduled None i ex ck"
  shows "\<exists>n. record_tokens ck = generate f (Suc n) (ctx (cr_request (ck_record ck)))"
proof -
  obtain draft where d: "we_semantics ex = SpeculativeTokens draft (choices_along f (ctx (sp_request (we_plan ex))) draft)"
    using assms(1) by (auto simp: target_choices_def)
  obtain c where c: "verify_greedy_round draft (choices_along f (ctx (sp_request (we_plan ex))) draft) = Some (Inr c)"
    "ck_record ck = canonical_record (sp_request (we_plan ex)) (sp_completion_epoch (we_plan ex)) (sp_plan_id (we_plan ex)) c"
    "length draft \<le> 16"
    using assms(2) d speculative_k_bound by (auto simp: lane_exact_def semantics_accept_def)
  have "gc_emitted_tokens c = generate f (Suc (gc_accepted_draft_tokens c)) (ctx (sp_request (we_plan ex)))"
    using greedy_round_generates [of draft f "ctx (sp_request (we_plan ex))"] c(1,3) by auto
  then show ?thesis using c(2) by (auto simp: record_tokens_def canonical_record_def)
qed

lemma device_round_generates:
  assumes "device_round f ctx sel checked" "ck \<in> set (co_records checked)"
  shows "\<exists>n. record_tokens ck = generate f (Suc n) (ctx (cr_request (ck_record ck)))"
proof -
  obtain digest reserve shape scheduled gen index off bytes cap img exs cap' where r:
    "m1_completion_output_shape sel = Inr shape" "scheduled_wf scheduled" "is_bytes bytes"
    "observe_m1_completed_output_with_storage digest reserve shape sel scheduled gen index off
       \<lparr>hs_bytes = Some bytes, hs_record_capacity = cap\<rparr> = Some (Inr img)"
    "check_m1_completed_output reserve img sel scheduled exs None cap' = Some (Inr checked)" "\<forall>ex \<in> set exs. target_choices f ctx ex"
    using assms(1) unfolding device_round_def by blast
  have wfs: "\<forall>ex \<in> set exs. expectation_wf ex" using r(6) by (auto simp: target_choices_def expectation_wf_def)
  note lanes = checked_output_lanes [OF r(1-3) wfs r(4,5)]
  obtain i where "i < length (co_records checked)" "ck = co_records checked ! i" using assms(2) by (auto simp: in_set_conv_nth)
  then show ?thesis using lanes r(6) lane_generates by (metis nth_mem)
qed

subsection \<open>The effect of one committed round\<close>

lemma filter_unique: "distinct (map f xs) \<Longrightarrow> x \<in> set xs \<Longrightarrow> filter (\<lambda>y. f y = f x) xs = [x]"
proof (induction xs)
  case (Cons y xs)
  show ?case
  proof (cases "x = y")
    case True
    then have "filter (\<lambda>z. f z = f x) xs = []" using Cons.prems(1) by (simp add: filter_empty_conv) (metis imageI)
    then show ?thesis using True by simp
  next
    case False
    then show ?thesis using Cons by auto
  qed
qed simp

definition outcomes_for :: "request_id \<Rightarrow> round_outcome \<Rightarrow> member_round_outcome list" where
  "outcomes_for q out = filter (\<lambda>x. mo_request x = q) (ro_members out)"

lemma permit_effect:
  assumes inv: "loop_inv l" and spec: "permit_spec l b obs controls p"
    and upd: "apply_updates (zip (pf_updates p) (pf_outcomes p)) (gl_members l) = Some ms" and j: "j < length (gl_members l)"
  shows "length ms = length (gl_members l) \<and>
    (if is_active (gl_members l ! j)
     then \<exists>pm i. i < length obs \<and> cm_request (obs ! i) = ms_request (gl_members l ! j)
        \<and> prepared_ok (gl_shape l) j (gl_members l ! j) (obs ! i) (ct_action (controls ! i)) pm
        \<and> ms ! j = updated_member (update_of pm) (pm_outcome pm) (gl_members l ! j)
        \<and> filter (\<lambda>x. mo_request x = ms_request (gl_members l ! j)) (pf_outcomes p) = [pm_outcome pm]
     else ms ! j = gl_members l ! j \<and> filter (\<lambda>x. mo_request x = ms_request (gl_members l ! j)) (pf_outcomes p) = [])"
proof -
  let ?ms = "gl_members l" and ?a = "active_members l"
  obtain ps where len: "length ps = length ?a" "length obs = length ?a" and lanes: "\<forall>i < length ps. lane_prepared l obs controls i (ps ! i)"
    and p: "pf_updates p = map update_of ps" "pf_outcomes p = map pm_outcome ps"
    using spec by (auto simp: permit_spec_def)
  have lane: "pm_member_index (ps ! i) < length ?ms" "?ms ! pm_member_index (ps ! i) = ?a ! i" "mo_request (pm_outcome (ps ! i)) = ms_request (?a ! i)"
    if "i < length ps" for i using lanes that by (auto simp: lane_prepared_def prepared_ok_def Let_def)
  have dist: "distinct (map ms_request ?ms)" "distinct (map ms_request ?a)"
    using inv by (simp_all add: loop_inv_def distinct_map_filter)
  have reqs: "map mo_request (pf_outcomes p) = map ms_request ?a"
    using len lane(3) p by (auto intro!: nth_equalityI)
  have idx: "distinct (map pm_member_index ps)"
    unfolding distinct_conv_nth
  proof (intro allI impI)
    fix i k assume ik: "i < length (map pm_member_index ps)" "k < length (map pm_member_index ps)" "i \<noteq> k"
    then have "?a ! i \<noteq> ?a ! k" using dist(2) len(1) nth_eq_iff_index_eq [of ?a i k] by (auto simp: distinct_map)
    then show "map pm_member_index ps ! i \<noteq> map pm_member_index ps ! k" using lane(2) [of i] lane(2) [of k] ik by auto
  qed
  have z: "zip (pf_updates p) (pf_outcomes p) = map (\<lambda>pm. (update_of pm, pm_outcome pm)) ps" using p by (simp add: zip_map_map zip_same_conv_map)
  have i': "pu_member_index (update_of pm) = pm_member_index pm" for pm by (simp add: update_of_def)
  have "distinct (map (pu_member_index \<circ> fst) (zip (pf_updates p) (pf_outcomes p)))" using idx unfolding z by (simp add: comp_def i')
  note u = apply_updates_nth [OF upd this, unfolded z]
  show ?thesis
  proof (cases "is_active (?ms ! j)")
    case True
    then have "?ms ! j \<in> set ?a" using j by simp
    then obtain i where i: "i < length ?a" "?a ! i = ?ms ! j" by (metis in_set_conv_nth)
    have "map ms_request ?ms ! pm_member_index (ps ! i) = map ms_request ?ms ! j" using lane [of i] i j len by simp
    then have ji: "pm_member_index (ps ! i) = j" using lane(1) [of i] i len dist(1) j by (metis length_map nth_eq_iff_index_eq)
    have "ps ! i \<in> set ps" using i len by simp
    moreover have "lane_prepared l obs controls i (ps ! i)" using lanes i len by simp
    ultimately have "cm_request (obs ! i) = ms_request (?ms ! j)"
      "prepared_ok (gl_shape l) j (?ms ! j) (obs ! i) (ct_action (controls ! i)) (ps ! i)"
      "ms ! j = updated_member (update_of (ps ! i)) (pm_outcome (ps ! i)) (?ms ! j)"
      using i u ji by (auto simp: lane_prepared_def prepared_ok_def Let_def i')
    moreover have "filter (\<lambda>x. mo_request x = ms_request (?ms ! j)) (pf_outcomes p) = [pm_outcome (ps ! i)]"
      using filter_unique [of mo_request "pf_outcomes p" "pm_outcome (ps ! i)"] reqs dist(2) lane(3) [of i] i len p(2) by simp
    ultimately show ?thesis using True i(1) len u by auto
  next
    case False
    have ne: "pm_member_index pm \<noteq> j" if "pm \<in> set ps" for pm
    proof -
      obtain i where "i < length ps" "pm = ps ! i" using \<open>pm \<in> set ps\<close> by (auto simp: in_set_conv_nth)
      then have "?ms ! pm_member_index pm \<in> set ?a" using lane(2) [of i] len by (metis nth_mem)
      then show ?thesis using False by auto
    qed
    have "j \<notin> pu_member_index ` fst ` set (map (\<lambda>pm. (update_of pm, pm_outcome pm)) ps)"
    proof
      assume "j \<in> pu_member_index ` fst ` set (map (\<lambda>pm. (update_of pm, pm_outcome pm)) ps)"
      then obtain pm where "pm \<in> set ps" "pm_member_index pm = j" by (auto simp: i')
      then show False using ne by blast
    qed
    then have "ms ! j = ?ms ! j" using u by blast
    moreover have "ms_request (?ms ! j) \<notin> set (map ms_request ?a)"
    proof
      assume "ms_request (?ms ! j) \<in> set (map ms_request ?a)"
      then obtain m where m: "m \<in> set ?ms" "is_active m" "ms_request m = ms_request (?ms ! j)" by auto
      then have "m = ?ms ! j" using dist(1) j by (auto simp: distinct_map dest: inj_onD)
      then show False using False m(2) by simp
    qed
    then have "filter (\<lambda>x. mo_request x = ms_request (?ms ! j)) (pf_outcomes p) = []"
      using reqs by (metis (mono_tags, lifting) filter_empty_conv imageI list.set_map)
    ultimately show ?thesis using False u by simp
  qed
qed

subsection \<open>Streams cut at a stop token\<close>

lemma generate_append: "generate f (m + n) ctx = generate f m ctx @ generate f n (ctx @ generate f m ctx)"
  by (induction m arbitrary: ctx) simp_all

lemma length_generate [simp]: "length (generate f n ctx) = n"
  by (induction n arbitrary: ctx) simp_all

lemma upto_stop_append:
  "upto_stop S (xs @ ys) = (if set xs \<inter> S = {} then xs @ upto_stop S ys else upto_stop S xs)"
  by (induction xs) auto

lemma upto_stop_last: "ts \<noteq> [] \<Longrightarrow> last (upto_stop S ts) \<notin> S \<Longrightarrow> upto_stop S ts = ts \<and> set ts \<inter> S = {}"
proof (induction ts)
  case (Cons t ts)
  then show ?case by (cases ts) (auto split: if_splits)
qed simp

lemma upto_stop_id: "set ts \<inter> S = {} \<Longrightarrow> upto_stop S ts = ts"
  by (induction ts) auto

lemma length_upto_stop: "length (upto_stop S ts) \<le> length ts"
  by (induction ts) auto

text \<open>What plain greedy decoding with the target model answers: token after token until a stop token or the output limit.\<close>

definition greedy_answer :: "(token_id list \<Rightarrow> token_id) \<Rightarrow> generation_policy \<Rightarrow> token_id list \<Rightarrow> token_id list" where
  "greedy_answer f p ctx = take (gp_max_output_tokens p) (upto_stop (stops p) (generate f (gp_max_output_tokens p) ctx))"

lemma take_upto_stop_longer:
  assumes "gp_max_output_tokens p \<le> n"
  shows "take (gp_max_output_tokens p) (upto_stop (stops p) (generate f n ctx)) = greedy_answer f p ctx"
proof -
  let ?m = "gp_max_output_tokens p" and ?S = "stops p"
  have "generate f n ctx = generate f ?m ctx @ generate f (n - ?m) (ctx @ generate f ?m ctx)"
    using generate_append [of f ?m "n - ?m" ctx] assms by simp
  then show ?thesis by (simp add: greedy_answer_def upto_stop_append upto_stop_id)
qed

lemma greedy_answer_stopped:
  assumes "set (generate f n ctx) \<inter> stops p \<noteq> {}"
  shows "take (gp_max_output_tokens p) (upto_stop (stops p) (generate f n ctx)) = greedy_answer f p ctx"
proof (cases "gp_max_output_tokens p \<le> n")
  case False
  then have "generate f (gp_max_output_tokens p) ctx = generate f n ctx @ generate f (gp_max_output_tokens p - n) (ctx @ generate f n ctx)"
    using generate_append [of f n "gp_max_output_tokens p - n" ctx] by simp
  then show ?thesis using assms by (simp add: greedy_answer_def upto_stop_append)
qed (rule take_upto_stop_longer)

lemma greedy_answer_extends:
  assumes "set (generate f n ctx) \<inter> stops p = {}" "n \<le> gp_max_output_tokens p"
  shows "\<exists>rest. greedy_answer f p ctx = generate f n ctx @ rest"
proof -
  have "generate f (gp_max_output_tokens p) ctx = generate f n ctx @ generate f (gp_max_output_tokens p - n) (ctx @ generate f n ctx)"
    using generate_append [of f n "gp_max_output_tokens p - n" ctx] assms(2) by simp
  then show ?thesis using assms by (simp add: greedy_answer_def upto_stop_append)
qed

subsection \<open>Sessions\<close>

definition emitted_in :: "request_id \<Rightarrow> round_outcome \<Rightarrow> token_id list" where
  "emitted_in q out = concat (map (tokens_of \<circ> mo_raw_emitted) (outcomes_for q out))"

definition published_in :: "request_id \<Rightarrow> round_outcome \<Rightarrow> token_id list" where
  "published_in q out = concat (map (tokens_of \<circ> mo_published) (outcomes_for q out))"

abbreviation emitted :: "request_id \<Rightarrow> round_outcome list \<Rightarrow> token_id list" where
  "emitted q outs \<equiv> concat (map (emitted_in q) outs)"

abbreviation published :: "request_id \<Rightarrow> round_outcome list \<Rightarrow> token_id list" where
  "published q outs \<equiv> concat (map (published_in q) outs)"

text \<open>A session: rounds are bound, read from the device, preflighted and committed; draft catch-ups may come between.\<close>

inductive session ::
  "(token_id list \<Rightarrow> token_id) \<Rightarrow> (request_id \<Rightarrow> token_id list) \<Rightarrow> generation_loop \<Rightarrow> generation_loop \<Rightarrow> round_outcome list \<Rightarrow> bool"
  for f prompt l0 where
  session_start: "session f prompt l0 l0 []"
| session_round: "session f prompt l0 l outs \<Longrightarrow> bind_round l n epoch roster = Some (Inr b)
    \<Longrightarrow> device_round f (\<lambda>q. prompt q @ emitted q outs) (ps_selection (gl_shape l)) checked
    \<Longrightarrow> preflight_checked_round l b checked controls = Some (Inr p)
    \<Longrightarrow> commit_preflighted_round l p = Some (Inr out, l') \<Longrightarrow> session f prompt l0 l' (outs @ [out])"
| session_catchup: "session f prompt l0 l outs \<Longrightarrow> commit_draft_catchup_transition l t = Some (r, l') \<Longrightarrow> session f prompt l0 l' outs"

text \<open>What holds of a member, the tokens the model emitted for it and the tokens its client received.\<close>

definition stream_status :: "generation_policy \<Rightarrow> member_status \<Rightarrow> u32 \<Rightarrow> token_id list \<Rightarrow> token_id list \<Rightarrow> bool" where
  "stream_status p st generated raw pub \<longleftrightarrow>
     (case st of
        MemberActive \<Rightarrow> pub = raw \<and> set raw \<inter> stops p = {} \<and> length raw < gp_max_output_tokens p \<and> generated = length raw
      | MemberCompleted (StopToken t) \<Rightarrow> pub = take (gp_max_output_tokens p) (upto_stop (stops p) raw) \<and> pub \<noteq> [] \<and> last pub = t \<and> t \<in> stops p
      | MemberCompleted OutputLimit \<Rightarrow> pub = take (gp_max_output_tokens p) (upto_stop (stops p) raw) \<and> length pub = gp_max_output_tokens p
      | MemberCancelled _ \<Rightarrow> set pub \<inter> stops p = {} \<and> length pub < gp_max_output_tokens p \<and> (\<exists>rest. raw = pub @ rest))"

definition stream_ok :: "(token_id list \<Rightarrow> token_id) \<Rightarrow> token_id list \<Rightarrow> member_seed \<Rightarrow> member_state \<Rightarrow> token_id list \<Rightarrow> token_id list \<Rightarrow> bool" where
  "stream_ok f ctx sd m raw pub \<longleftrightarrow> ms_request m = sd_request sd \<and> ms_policy m = sd_policy sd \<and> raw = generate f (length raw) ctx
     \<and> ms_target_committed m = sd_target_committed sd + length raw \<and> ms_next_anchor m = last (sd_round_anchor sd # raw)
     \<and> stream_status (sd_policy sd) (ms_status m) (ms_generated_tokens m) raw pub"

lemma stream_ok_round:
  assumes ok: "stream_ok f ctx sd m raw pub" and act: "ms_status m = MemberActive"
    and ts: "ts = generate f (Suc n) (ctx @ raw)" and res: "round_result m ts action = (out, st, g)"
    and m': "m' = m\<lparr>ms_status := st, ms_next_anchor := last ts, ms_target_committed := ms_target_committed m + length ts,
      ms_draft_committed := d, ms_generated_tokens := g\<rparr>"
  shows "stream_ok f ctx sd m' (raw @ ts) (pub @ out)"
proof -
  let ?p = "sd_policy sd"
  have r: "ms_policy m = ?p" "raw = generate f (length raw) ctx" "pub = raw" "set raw \<inter> stops ?p = {}" "length raw < gp_max_output_tokens ?p"
    "ms_generated_tokens m = length raw" "ms_target_committed m = sd_target_committed sd + length raw" "ms_request m = sd_request sd"
    using ok act by (auto simp: stream_ok_def stream_status_def)
  have ne: "ts \<noteq> []" using ts by simp
  have "raw @ ts = generate f (length raw + Suc n) ctx" using r(2) ts generate_append [of f "length raw" "Suc n" ctx] by simp
  then have gen: "raw @ ts = generate f (length (raw @ ts)) ctx" using ts by simp
  have cut: "take (gp_max_output_tokens ?p) (upto_stop (stops ?p) (raw @ ts)) = raw @ take (gp_max_output_tokens ?p - length raw) (upto_stop (stops ?p) ts)"
    using r(4,5) by (simp add: upto_stop_append)
  have base: "ms_request m' = sd_request sd" "ms_policy m' = ?p" "ms_target_committed m' = sd_target_committed sd + length (raw @ ts)"
    "ms_next_anchor m' = last (sd_round_anchor sd # raw @ ts)" "ms_status m' = st" "ms_generated_tokens m' = g"
    using r ne m' by simp_all
  have "stream_status ?p st g (raw @ ts) (pub @ out)"
  proof (cases action)
    case (CancelMember reason)
    then show ?thesis using r res by (auto simp: stream_status_def round_result_def)
  next
    case ContinueMember
    let ?out = "take (gp_max_output_tokens ?p - length raw) (upto_stop (stops ?p) ts)"
    have o: "out = ?out" "g = length raw + length out" and st: "st = published_status ?p (length raw) ts"
      using res ContinueMember r(1,6) by (auto simp: round_result_def Let_def)
    have active: "out = ts \<and> set ts \<inter> stops ?p = {} \<and> length raw + length ts < gp_max_output_tokens ?p" if "st = MemberActive"
    proof -
      have a: "\<not> (out \<noteq> [] \<and> last out \<in> stops ?p)" "length raw + length out \<noteq> gp_max_output_tokens ?p"
        using that st o(1) by (auto simp: published_status_def Let_def split: if_splits)
      have "length out \<le> gp_max_output_tokens ?p - length raw" using o(1) by simp
      then have short: "length out < gp_max_output_tokens ?p - length raw" using a(2) r(5) by linarith
      then have full: "out = upto_stop (stops ?p) ts" using o(1) by (simp add: min_def split: if_splits)
      then have "out \<noteq> []" using ne by (cases ts) auto
      then show ?thesis using a(1) full short upto_stop_last [OF ne, of "stops ?p"] by auto
    qed
    show ?thesis
    proof (cases st)
      case MemberActive
      then show ?thesis using r active o by (auto simp: stream_status_def)
    next
      case (MemberCompleted reason)
      have "(case reason of StopToken t \<Rightarrow> out \<noteq> [] \<and> last out = t \<and> t \<in> stops ?p
          | OutputLimit \<Rightarrow> length raw + length out = gp_max_output_tokens ?p)"
        using MemberCompleted st o(1) by (auto simp: published_status_def Let_def split: if_splits)
      then show ?thesis using MemberCompleted r(3,5) cut o(1) by (cases reason) (auto simp: stream_status_def)
    next
      case (MemberCancelled reason)
      then show ?thesis using st by (auto simp: published_status_def Let_def split: if_splits)
    qed
  qed
  then show ?thesis unfolding stream_ok_def base using gen by (intro conjI) auto
qed

lemma committed_round_effect:
  assumes inv: "loop_inv l" and b: "bind_round l n epoch roster = Some (Inr b)"
    and pre: "preflight_checked_round l b checked controls = Some (Inr p)" and com: "commit_preflighted_round l p = Some (Inr out, l')"
  shows "loop_inv l' \<and> gl_shape l' = gl_shape l \<and> length (gl_members l') = length (gl_members l)"
    and "j < length (gl_members l) \<Longrightarrow> if is_active (gl_members l ! j)
      then \<exists>pm ck action. ck \<in> set (co_records checked) \<and> cr_request (ck_record ck) = ms_request (gl_members l ! j)
        \<and> tokens_of (cm_emitted (observation_of ck)) = record_tokens ck
        \<and> prepared_ok (gl_shape l) j (gl_members l ! j) (observation_of ck) action pm
        \<and> gl_members l' ! j = updated_member (update_of pm) (pm_outcome pm) (gl_members l ! j)
        \<and> outcomes_for (ms_request (gl_members l ! j)) out = [pm_outcome pm]
      else gl_members l' ! j = gl_members l ! j \<and> outcomes_for (ms_request (gl_members l ! j)) out = []"
proof -
  have bok: "binding_ok l b" using bind_round_ok [OF inv, of n epoch roster] b by auto
  then have fits: "\<forall>i \<in> set (rb_members b). input_fits (rb_shape b) i" by (simp add: binding_ok_def)
  let ?obs = "map observation_of (co_records checked)"
  have spec: "permit_spec l b ?obs controls p" and recs: "\<forall>ck \<in> set (co_records checked). cr_emitted_token_count (ck_record ck) \<le> 17
      \<and> cr_emitted_token_count (ck_record ck) \<le> length (cr_emitted_tokens (ck_record ck))"
    using preflight_checked_round_spec [OF inv fits, of checked controls] pre by auto
  note pok = permit_spec_ok [OF inv bok spec]
  have c: "loop_inv l'" "gl_shape l' = gl_shape l" "ro_members out = pf_outcomes p"
    "apply_updates (zip (pf_updates p) (pf_outcomes p)) (gl_members l) = Some (gl_members l')"
    using commit_preflighted_round_spec [OF inv pok(1)] com by auto
  show l': "loop_inv l' \<and> gl_shape l' = gl_shape l \<and> length (gl_members l') = length (gl_members l)"
    using c permit_effect [OF inv spec c(4), of 0] inv by (cases "gl_members l") (auto simp: loop_inv_def)
  assume j: "j < length (gl_members l)"
  note e = permit_effect [OF inv spec c(4) j, folded c(3), folded outcomes_for_def]
  show "if is_active (gl_members l ! j)
      then \<exists>pm ck action. ck \<in> set (co_records checked) \<and> cr_request (ck_record ck) = ms_request (gl_members l ! j)
        \<and> tokens_of (cm_emitted (observation_of ck)) = record_tokens ck
        \<and> prepared_ok (gl_shape l) j (gl_members l ! j) (observation_of ck) action pm
        \<and> gl_members l' ! j = updated_member (update_of pm) (pm_outcome pm) (gl_members l ! j)
        \<and> outcomes_for (ms_request (gl_members l ! j)) out = [pm_outcome pm]
      else gl_members l' ! j = gl_members l ! j \<and> outcomes_for (ms_request (gl_members l ! j)) out = []"
  proof (cases "is_active (gl_members l ! j)")
    case True
    then obtain pm i where pm: "i < length ?obs" "cm_request (?obs ! i) = ms_request (gl_members l ! j)"
      "prepared_ok (gl_shape l) j (gl_members l ! j) (?obs ! i) (ct_action (controls ! i)) pm"
      "gl_members l' ! j = updated_member (update_of pm) (pm_outcome pm) (gl_members l ! j)"
      "outcomes_for (ms_request (gl_members l ! j)) out = [pm_outcome pm]" using e by auto
    let ?ck = "co_records checked ! i"
    have ck: "?ck \<in> set (co_records checked)" "?obs ! i = observation_of ?ck" using pm(1) by simp_all
    then have "cr_request (ck_record ?ck) = ms_request (gl_members l ! j)" using pm(2) by (simp add: observation_of_def)
    moreover have "tokens_of (cm_emitted (observation_of ?ck)) = record_tokens ?ck"
      using observation_block(2) [of ?ck] recs ck(1) by (simp add: record_tokens_def)
    ultimately show ?thesis using True ck pm(3-5) by auto
  qed (use e in simp)
qed

lemma prepared_stream:
  assumes ok: "stream_ok f ctx sd m raw pub" and act: "is_active m"
    and pm: "prepared_ok s j m obs action pm" and ts: "tokens_of (cm_emitted obs) = generate f (Suc n) (ctx @ raw)"
  shows "stream_ok f ctx sd (updated_member (update_of pm) (pm_outcome pm) m) (raw @ tokens_of (mo_raw_emitted (pm_outcome pm)))
    (pub @ tokens_of (mo_published (pm_outcome pm)))"
proof -
  let ?ts = "tokens_of (cm_emitted obs)" and ?o = "pm_outcome pm"
  obtain a c where ac: "length ?ts = Suc a" "?ts ! a = c" "choice_token (mo_verification_choice ?o) = c"
    "ks_commit_end (mo_target_settlement ?o) = ms_target_committed m + Suc a" "mo_raw_emitted ?o = cm_emitted obs"
    and res: "round_result m ?ts action = (tokens_of (mo_published ?o), mo_status ?o, pm_generated_tokens pm)"
    using pm by (auto simp: prepared_ok_def Let_def role_settlement_def)
  have "?ts \<noteq> []" using ac(1) by auto
  then have "last ?ts = c" using ac(1,2) by (simp add: last_conv_nth)
  then have "updated_member (update_of pm) ?o m = m\<lparr>ms_status := mo_status ?o, ms_next_anchor := last ?ts,
      ms_target_committed := ms_target_committed m + length ?ts, ms_draft_committed := ks_commit_end (mo_draft_settlement ?o),
      ms_generated_tokens := pm_generated_tokens pm\<rparr>"
    using ac by (simp add: updated_member_def update_of_def)
  then show ?thesis unfolding ac(5) using stream_ok_round [OF ok _ ts res] act by (simp add: is_active_def)
qed

lemma session_inv:
  assumes "session f prompt l0 l outs" "loop_inv l0" "gl_members l0 = map seed_member seeds"
  shows "loop_inv l \<and> length (gl_members l) = length seeds \<and> (\<forall>j < length seeds.
    stream_ok f (prompt (sd_request (seeds ! j))) (seeds ! j) (gl_members l ! j) (emitted (sd_request (seeds ! j)) outs) (published (sd_request (seeds ! j)) outs)
    \<and> (is_active (gl_members l ! j) \<longrightarrow> length outs \<le> length (emitted (sd_request (seeds ! j)) outs)))"
  using assms
proof (induction rule: session.induct)
  case session_start
  have "stream_ok f ctx sd (seed_member sd) [] []" if "generation_member_ok (seed_member sd)" for ctx sd
    using that by (simp add: stream_ok_def stream_status_def seed_member_def generation_member_ok_def policy_wf_def)
  then show ?case using session_start by (auto simp: loop_inv_def)
next
  case (session_round l outs n epoch roster b checked controls p out l')
  note IH = session_round.IH [OF session_round.prems]
  then have inv: "loop_inv l" by blast
  note eff = committed_round_effect [OF inv session_round.hyps(2,4,5)]
  show ?case
  proof (intro conjI allI impI)
    show "loop_inv l'" "length (gl_members l') = length seeds" using eff(1) IH by auto
  next
    fix j assume j: "j < length seeds"
    let ?q = "sd_request (seeds ! j)" and ?m = "gl_members l ! j"
    have ok: "stream_ok f (prompt ?q) (seeds ! j) ?m (emitted ?q outs) (published ?q outs)"
      and q: "ms_request ?m = ?q" using IH j by (auto simp: stream_ok_def)
    have "stream_ok f (prompt ?q) (seeds ! j) (gl_members l' ! j) (emitted ?q (outs @ [out])) (published ?q (outs @ [out]))
      \<and> (is_active (gl_members l' ! j) \<longrightarrow> length (outs @ [out]) \<le> length (emitted ?q (outs @ [out])))"
    proof (cases "is_active ?m")
      case False
      then show ?thesis using eff(2) [of j] IH j q ok by (simp add: emitted_in_def published_in_def)
    next
      case True
      then obtain pm ck action where e: "ck \<in> set (co_records checked)" "cr_request (ck_record ck) = ?q"
        "tokens_of (cm_emitted (observation_of ck)) = record_tokens ck"
        "prepared_ok (gl_shape l) j ?m (observation_of ck) action pm"
        "gl_members l' ! j = updated_member (update_of pm) (pm_outcome pm) ?m" "outcomes_for ?q out = [pm_outcome pm]"
        using eff(2) [of j] IH j q by auto
      obtain k where ts: "tokens_of (cm_emitted (observation_of ck)) = generate f (Suc k) (prompt ?q @ emitted ?q outs)"
        using device_round_generates [OF session_round.hyps(3) e(1)] e(2,3) by auto
      have em: "emitted ?q (outs @ [out]) = emitted ?q outs @ tokens_of (mo_raw_emitted (pm_outcome pm))"
        "published ?q (outs @ [out]) = published ?q outs @ tokens_of (mo_published (pm_outcome pm))"
        using e(6) by (simp_all add: emitted_in_def published_in_def)
      have "length (tokens_of (mo_raw_emitted (pm_outcome pm))) = Suc k"
        using e(4) ts by (auto simp: prepared_ok_def Let_def)
      then have "length (outs @ [out]) \<le> length (emitted ?q (outs @ [out]))" using IH j True unfolding em by auto
      moreover have "stream_ok f (prompt ?q) (seeds ! j) (gl_members l' ! j) (emitted ?q (outs @ [out])) (published ?q (outs @ [out]))"
        unfolding em e(5) by (rule prepared_stream [OF ok True e(4) ts])
      ultimately show ?thesis by blast
    qed
    then show "stream_ok f (prompt ?q) (seeds ! j) (gl_members l' ! j) (emitted ?q (outs @ [out])) (published ?q (outs @ [out]))"
      and "is_active (gl_members l' ! j) \<Longrightarrow> length (outs @ [out]) \<le> length (emitted ?q (outs @ [out]))" by blast+
  qed
next
  case (session_catchup l outs t r l')
  note IH = session_catchup.IH [OF session_catchup.prems]
  then have inv: "loop_inv l" by blast
  from catchup_spec [OF inv, of t] session_catchup.hyps(2) consider "l' = l"
    | m where "loop_inv l'" "gl_members l = [m]" "is_active m" "gl_members l' = [m\<lparr>ms_draft_committed := ms_target_committed m\<rparr>]"
    by (auto split: sum.splits)
  then show ?case
  proof cases
    case (2 m)
    then have one: "length seeds = 1" "length (gl_members l') = 1" using IH by auto
    have "stream_ok f ctx sd (m\<lparr>ms_draft_committed := d\<rparr>) raw pub \<longleftrightarrow> stream_ok f ctx sd m raw pub"
      "is_active (m\<lparr>ms_draft_committed := d\<rparr>) \<longleftrightarrow> is_active m" for ctx sd d raw pub
      by (simp_all add: stream_ok_def is_active_def)
    then show ?thesis using IH 2 unfolding one by simp
  qed (use IH in blast)
qed

lemma stream_prefix:
  assumes raw: "raw = generate f (length raw) ctx" and pub: "raw = pub @ rest"
    and cut: "set pub \<inter> stops p = {}" "length pub \<le> gp_max_output_tokens p"
  shows "\<exists>rest. greedy_answer f p ctx = pub @ rest"
proof -
  have "length raw = length pub + length rest" using arg_cong [OF pub, of length] by simp
  then have "generate f (length raw) ctx = generate f (length pub) ctx @ generate f (length rest) (ctx @ generate f (length pub) ctx)"
    using generate_append by metis
  then have "pub = generate f (length pub) ctx" using raw pub by (metis append_eq_append_conv length_generate)
  then show ?thesis using greedy_answer_extends [of f "length pub" ctx p] cut by metis
qed

lemma stream_complete:
  assumes st: "stream_status p (MemberCompleted reason) g raw pub" and raw: "raw = generate f (length raw) ctx"
  shows "pub = greedy_answer f p ctx"
proof (cases reason)
  case (StopToken t)
  have pub: "pub = take (gp_max_output_tokens p) (upto_stop (stops p) raw)" "pub \<noteq> []" "last pub \<in> stops p"
    using st unfolding StopToken stream_status_def member_status.case terminal_reason.case by blast+
  then have "set raw \<inter> stops p \<noteq> {}"
    using last_in_set [OF pub(2)] upto_stop_id [of raw "stops p"] by (metis disjoint_iff in_set_takeD)
  then show ?thesis using greedy_answer_stopped [of f "length raw" ctx p] raw pub(1) by metis
next
  case OutputLimit
  have pub: "pub = take (gp_max_output_tokens p) (upto_stop (stops p) raw)" "length pub = gp_max_output_tokens p"
    using st unfolding OutputLimit stream_status_def member_status.case terminal_reason.case by blast+
  then have "gp_max_output_tokens p \<le> length raw" using length_upto_stop [of "stops p" raw] by simp
  then show ?thesis using take_upto_stop_longer [of p "length raw" f ctx] raw pub(1) by metis
qed

lemma stream_answer:
  assumes st: "stream_status p st g raw pub" and raw: "raw = generate f (length raw) ctx"
  shows "\<exists>rest. greedy_answer f p ctx = pub @ rest"
proof (cases st)
  case (MemberCompleted reason)
  then show ?thesis using stream_complete [OF _ raw] st by (metis append_Nil2)
next
  case MemberActive
  have a: "pub = raw \<and> set raw \<inter> stops p = {} \<and> length raw < gp_max_output_tokens p \<and> g = length raw"
    using st unfolding MemberActive stream_status_def member_status.case .
  show ?thesis by (rule stream_prefix [OF raw, of _ "[]"]) (use a in simp_all)
next
  case (MemberCancelled reason)
  then show ?thesis using st stream_prefix [OF raw] by (auto simp: stream_status_def)
qed

text \<open>C16: speculative serving is lossless from bytes to client.  Take any session of a coordinator: rounds that are bound, whose
  completion image is read back and checked against the verified drafts and the target's own choices along them, and
  that are preflighted and committed, with any drafts, any controls and any draft catch-ups in between.  Then the tokens
  a client received are the beginning of what plain greedy decoding with the target alone would have answered under
  the client's stop tokens and output limit; once the member has completed they are all of it; the cursor of the target
  cache counts exactly the tokens emitted, and a member still active has more tokens left to give than rounds have passed.\<close>

theorem speculative_session_lossless:
  assumes "\<forall>sd \<in> set seeds. policy_made (sd_policy sd)"
    and "generation_loop_new counter reserve sel seeds = Some (Inr l0, counter')"
    and "session f prompt l0 l outs" "j < length seeds" "sd = seeds ! j" "m = gl_members l ! j" "q = sd_request sd"
  shows "ms_request m = q
    \<and> (\<exists>rest. greedy_answer f (sd_policy sd) (prompt q) = published q outs @ rest)
    \<and> (\<forall>reason. ms_status m = MemberCompleted reason \<longrightarrow> published q outs = greedy_answer f (sd_policy sd) (prompt q))
    \<and> ms_target_committed m = sd_target_committed sd + length (emitted q outs)
    \<and> (ms_status m = MemberActive \<longrightarrow> length outs \<le> length (published q outs) \<and> length (published q outs) < gp_max_output_tokens (sd_policy sd))"
proof -
  have l0: "loop_inv l0" "gl_members l0 = map seed_member seeds"
    using generation_loop_new_spec [of seeds counter reserve sel] policy_made_wf assms(1,2) by auto
  have ok: "stream_ok f (prompt q) sd m (emitted q outs) (published q outs)" "is_active m \<longrightarrow> length outs \<le> length (emitted q outs)"
    using session_inv [OF assms(3) l0] assms(4-7) by auto
  have raw: "emitted q outs = generate f (length (emitted q outs)) (prompt q)"
    and st: "stream_status (sd_policy sd) (ms_status m) (ms_generated_tokens m) (emitted q outs) (published q outs)"
    and m: "ms_request m = q" "ms_target_committed m = sd_target_committed sd + length (emitted q outs)"
    using ok(1) assms(7) by (auto simp: stream_ok_def)
  have "length outs \<le> length (published q outs) \<and> length (published q outs) < gp_max_output_tokens (sd_policy sd)"
    if a: "ms_status m = MemberActive"
    using st ok(2) a unfolding a stream_status_def member_status.case is_active_def by metis
  then show ?thesis using m stream_answer [OF st raw] stream_complete [OF _ raw] st by metis
qed

subsection \<open>One round of a session\<close>

definition demo_policy :: generation_policy where
  "demo_policy = \<lparr>gp_max_output_tokens = 2, gp_stop_tokens = [0, 0], gp_stop_token_count = 0\<rparr>"

definition demo_seed :: member_seed where
  "demo_seed = \<lparr>sd_request = request_id_new 3 1, sd_round_anchor = 0, sd_target_committed = 0, sd_draft_committed = 0, sd_policy = demo_policy\<rparr>"

definition demo_selection :: qwen3_plan_selection where
  "demo_selection = sp_selection (we_plan demo_expectation)"

definition demo_loop :: generation_loop where
  "demo_loop = \<lparr>gl_identity = 1, gl_shape = \<lparr>ps_selection = demo_selection, ps_sequences = 1, ps_draft_tokens = 4\<rparr>,
     gl_members = [seed_member demo_seed], gl_next_round = 0, gl_last_epoch = None\<rparr>"

definition demo_round_binding :: round_binding where
  "demo_round_binding = \<lparr>rb_coordinator_identity = 1, rb_shape = gl_shape demo_loop, rb_round = 0, rb_epoch = \<lparr>epoch_value = 7\<rparr>,
     rb_members = [input_of (seed_member demo_seed)]\<rparr>"

definition demo_target :: "token_id list \<Rightarrow> token_id" where
  "demo_target xs = (if length xs = 1 then 5 else if length xs = 2 then 6 else if length xs = 3 then 8 else if length xs = 4 then 3 else 4)"

lemma demo_policy_made: "\<forall>sd \<in> set [demo_seed]. policy_made (sd_policy sd)"
proof -
  have "policy_new 2 [] = Some (Inr demo_policy)"
    by (simp add: policy_new_def demo_policy_def M1_MAX_CONTEXT_TOKENS_def STOP_TOKEN_CAPACITY_def numeral_2_eq_2)
  then show ?thesis unfolding policy_made_def by (auto simp: demo_seed_def)
qed

lemma demo_loop_new: "generation_loop_new 1 (\<lambda>_. True) demo_selection [demo_seed] = Some (Inr demo_loop, 2)"
proof -
  have "shape_from_selection demo_selection = Inr (gl_shape demo_loop)"
    by (simp add: demo_selection_def demo_expectation_def shape_from_selection_def demo_loop_def)
  moreover have "push_seeds (gl_shape demo_loop) [demo_seed] 0 [demo_seed] [] = Some (Inr [seed_member demo_seed])"
    by (simp add: demo_loop_def demo_seed_def demo_policy_def validate_seed_def validate_context_def seed_member_def request_id_new_def
        M1_MAX_ACTIVE_SEQUENCES_def QWEN3_VOCABULARY_SIZE_def M1_MAX_CONTEXT_TOKENS_def u_add_def u_sub_def)
  ultimately show ?thesis
    by (simp add: generation_loop_new_def new_with_storage_def fresh_identity_def u_add_def) (simp add: demo_loop_def)
qed

lemma demo_bind: "bind_round demo_loop 0 \<lparr>epoch_value = 7\<rparr> [request_id_new 3 1] = Some (Inr demo_round_binding)"
  by (simp add: bind_round_def demo_loop_def demo_round_binding_def is_active_def seed_member_def demo_seed_def validate_context_def u_add_def u_sub_def
      M1_MAX_CONTEXT_TOKENS_def inline_push_def INLINE_ROSTER_CAPACITY_def M1_MAX_ACTIVE_SEQUENCES_def input_of_def)

lemma demo_device:
  "\<exists>checked. device_round demo_target (\<lambda>_. [0]) demo_selection checked \<and> co_records checked = [demo_checked]
     \<and> co_selection checked = demo_selection \<and> co_epoch checked = \<lparr>epoch_value = 7\<rparr>"
proof -
  let ?digest = "\<lambda>_ :: u8 list. replicate 32 0" and ?reserve = "\<lambda>_ :: usize. True" and ?bytes = "encode_record demo_record"
  have sel: "os_selection demo_shape = demo_selection" by (simp add: demo_shape_def demo_selection_def)
  have "read_completed_output ?digest ?reserve demo_shape demo_scheduled ?bytes 0 [demo_expectation] None 0 = Some (Some [demo_checked])"
    using read_completed_output_iff [OF demo_batch(1,2) encode_is_bytes [OF demo_record_ok] demo_batch(3),
        where digest = ?digest and reserve = ?reserve and capacity = 0 and final_rows = None and record_capacity = 0 and cks = "[demo_checked]"]
      demo_batch(4-7) demo_lane_exact by (simp add: room_def rows_fit_def)
  then obtain img checked where r: "observe_m1_completed_output_with_storage ?digest ?reserve demo_shape demo_selection demo_scheduled 0 0 0
      \<lparr>hs_bytes = Some ?bytes, hs_record_capacity = 0\<rparr> = Some (Inr img)"
    "check_m1_completed_output ?reserve img demo_selection demo_scheduled [demo_expectation] None 0 = Some (Inr checked)" "co_records checked = [demo_checked]"
    by (auto simp: read_completed_output_def sel split: bind_splits sum.splits)
  have "target_choices demo_target (\<lambda>_. [0]) demo_expectation"
    by (simp add: target_choices_def demo_expectation_def identity_wf_def choices_along_def demo_target_def upt_rec)
  then have "device_round demo_target (\<lambda>_. [0]) demo_selection checked"
    unfolding device_round_def using r demo_batch(1,2) encode_is_bytes [OF demo_record_ok] by (fastforce simp: demo_selection_def)
  moreover have "co_selection checked = demo_selection \<and> co_epoch checked = \<lparr>epoch_value = 7\<rparr>"
    using checked_output_lanes [OF demo_batch(1,2) encode_is_bytes [OF demo_record_ok] demo_batch(3) r(1,2) [unfolded demo_selection_def]]
    by (simp add: demo_selection_def demo_scheduled_def)
  ultimately show ?thesis using r(3) by blast
qed

definition demo_control :: member_control where
  "demo_control = \<lparr>ct_request = request_id_new 3 1, ct_action = ContinueMember\<rparr>"

lemma demo_round_commits:
  assumes "co_records checked = [demo_checked]" "co_selection checked = demo_selection" "co_epoch checked = \<lparr>epoch_value = 7\<rparr>"
  shows "\<exists>p out l. preflight_checked_round demo_loop demo_round_binding checked [demo_control] = Some (Inr p)
    \<and> commit_preflighted_round demo_loop p = Some (Inr out, l) \<and> ms_status (gl_members l ! 0) = MemberCompleted OutputLimit
    \<and> published (request_id_new 3 1) [out] = [5, 6]"
proof -
  let ?block = "\<lparr>tb_tokens = [5, 6] @ replicate 15 0, tb_count = 2\<rparr>" and ?m = "seed_member demo_seed"
  let ?obs = "\<lparr>cm_request = request_id_new 3 1, cm_semantics = CheckedSpeculative 1 6, cm_emitted = ?block\<rparr>"
  have valid: "validate_binding demo_loop demo_round_binding = Inr ()"
    by (simp add: validate_binding_iff demo_loop_def demo_round_binding_def is_active_def seed_member_def)
  have obs: "observe_checked (Suc 0) 0 [demo_checked] [] = Inr [?obs]"
    by (simp add: demo_checked_def demo_record_def canonical_record_def block_from_slice_eq inline_push_def INLINE_ROSTER_CAPACITY_def
        M1_MAX_ACTIVE_SEQUENCES_def M1_MAX_COMPLETION_TOKENS_def Let_def numeral_2_eq_2)
  have wf: "shape_wf (gl_shape demo_loop)"
    by (simp add: shape_wf_def demo_loop_def demo_selection_def demo_expectation_def shape_from_selection_def)
  obtain b where pol: "apply_member_policy ?m ?block ContinueMember = Some (b, MemberCompleted OutputLimit, 2)" "tokens_of b = [5, 6]"
    using apply_member_policy_eq [of ?m ?block ContinueMember]
    by (auto simp: policy_wf_def block_wf_def round_result_def seed_member_def demo_seed_def demo_policy_def stops_def published_status_def numeral_2_eq_2)
  have settle: "\<exists>t d. settle_roles (gl_shape demo_loop) ?m 1 = Some (t, d)"
    using settle_roles_eq [OF wf, of ?m 1] by (simp add: cursors_fit_def seed_member_def demo_seed_def demo_loop_def)
  have "\<exists>pm. prepare_member (gl_shape demo_loop) 0 0 ?m ?obs ContinueMember = Some (Inr pm) \<and> pm_member_index pm = 0
      \<and> mo_request (pm_outcome pm) = request_id_new 3 1 \<and> mo_status (pm_outcome pm) = MemberCompleted OutputLimit \<and> mo_published (pm_outcome pm) = b"
    using settle pol(1) by (auto simp: prepare_member_def Let_def demo_loop_def block_tokens_def u_add_def idx_def seed_member_def demo_seed_def numeral_2_eq_2)
  then obtain pm where pm: "prepare_member (gl_shape demo_loop) 0 0 ?m ?obs ContinueMember = Some (Inr pm)" "pm_member_index pm = 0"
    "mo_request (pm_outcome pm) = request_id_new 3 1" "mo_status (pm_outcome pm) = MemberCompleted OutputLimit" "mo_published (pm_outcome pm) = b"
    by blast
  have prep: "prepare_members demo_loop demo_round_binding [?obs] [demo_control] (Suc 0) 0 [] = Some (Inr [pm])"
    using pm(1) by (simp add: demo_round_binding_def demo_control_def demo_loop_def idx_def input_of_def seed_member_def demo_seed_def
        inline_push_def INLINE_ROSTER_CAPACITY_def M1_MAX_ACTIVE_SEQUENCES_def)
  have len: "length (rb_members demo_round_binding) = Suc 0" "rb_epoch demo_round_binding = \<lparr>epoch_value = 7\<rparr>" "ps_selection (gl_shape demo_loop) = demo_selection"
    by (simp_all add: demo_round_binding_def demo_loop_def)
  let ?p = "\<lparr>pf_binding = demo_round_binding, pf_updates = [update_of pm], pf_outcomes = [pm_outcome pm], pf_next_active_roster = []\<rparr>"
  have pre: "preflight_checked_round demo_loop demo_round_binding checked [demo_control] = Some (Inr ?p)"
    using obs prep valid len assms pm(4)
    by (simp add: preflight_checked_round_def preflight_observed_round_def inline_push_def INLINE_ROSTER_CAPACITY_def
        M1_MAX_ACTIVE_SEQUENCES_def update_of_def del: observe_checked.simps prepare_members.simps)
  have "\<exists>out l. commit_preflighted_round demo_loop ?p = Some (Inr out, l) \<and> ms_status (gl_members l ! 0) = MemberCompleted OutputLimit
      \<and> published (request_id_new 3 1) [out] = [5, 6]"
    using valid pm(2-5) pol(2)
    by (simp add: commit_preflighted_round_def demo_loop_def update_of_def idx_def upd_def u_add_def published_in_def outcomes_for_def)
  then show ?thesis using pre by blast
qed

text \<open>The session of one round that ends there: the client has received the whole answer.\<close>

lemma demo_session:
  "\<exists>out l. session demo_target (\<lambda>_. [0]) demo_loop l [out] \<and> ms_status (gl_members l ! 0) = MemberCompleted OutputLimit
     \<and> published (request_id_new 3 1) [out] = [5, 6]"
proof -
  obtain checked where c: "device_round demo_target (\<lambda>_. [0]) demo_selection checked" "co_records checked = [demo_checked]"
    "co_selection checked = demo_selection" "co_epoch checked = \<lparr>epoch_value = 7\<rparr>" using demo_device by blast
  obtain p out l where r: "preflight_checked_round demo_loop demo_round_binding checked [demo_control] = Some (Inr p)"
    "commit_preflighted_round demo_loop p = Some (Inr out, l)" "ms_status (gl_members l ! 0) = MemberCompleted OutputLimit"
    "published (request_id_new 3 1) [out] = [5, 6]" using demo_round_commits [OF c(2-4)] by blast
  have "device_round demo_target (\<lambda>q. [0] @ emitted q []) (ps_selection (gl_shape demo_loop)) checked"
    using c(1) by (simp add: demo_loop_def)
  then have "session demo_target (\<lambda>_. [0]) demo_loop l ([] @ [out])"
    using session_round [of demo_target "\<lambda>_. [0]" demo_loop demo_loop "[]", OF session_start demo_bind _ r(1,2)] by blast
  then show ?thesis using r by auto
qed

theorem speculative_session_lossless_witness:
  "\<exists>out l. session demo_target (\<lambda>_. [0]) demo_loop l [out] \<and> published (request_id_new 3 1) [out] = [5, 6]
     \<and> published (request_id_new 3 1) [out] = greedy_answer demo_target demo_policy [0]"
proof -
  obtain out l where s: "session demo_target (\<lambda>_. [0]) demo_loop l [out]" "ms_status (gl_members l ! 0) = MemberCompleted OutputLimit"
    "published (request_id_new 3 1) [out] = [5, 6]" using demo_session by blast
  have "published (request_id_new 3 1) [out] = greedy_answer demo_target demo_policy [0]"
    using speculative_session_lossless [OF demo_policy_made demo_loop_new s(1), of 0 demo_seed "gl_members l ! 0" "request_id_new 3 1"] s(2)
    by (simp add: demo_seed_def)
  then show ?thesis using s by blast
qed

theorem generation_rounds_once_witness:
  "\<exists>h w. generation_history (fresh_world demo_loop) h w \<and> length (committed h) = 1
     \<and> rev (map ro_completed_round (committed h)) = [0..<gl_next_round (gw_loop w)]"
proof -
  obtain checked where c: "device_round demo_target (\<lambda>_. [0]) demo_selection checked" "co_records checked = [demo_checked]"
    "co_selection checked = demo_selection" "co_epoch checked = \<lparr>epoch_value = 7\<rparr>" using demo_device by blast
  obtain p out l where r: "preflight_checked_round demo_loop demo_round_binding checked [demo_control] = Some (Inr p)"
    "commit_preflighted_round demo_loop p = Some (Inr out, l)" using demo_round_commits [OF c(2-4)] by blast
  let ?w = "fresh_world demo_loop"
  have "generation_step (BindRound 0 \<lparr>epoch_value = 7\<rparr> [request_id_new 3 1]) ?w = Some (Inr (Bound demo_round_binding), ?w\<lparr>gw_bindings := [demo_round_binding]\<rparr>)"
    using demo_bind by (simp add: fresh_world_def)
  moreover have "generation_step (CompleteRound 0 checked [demo_control]) (?w\<lparr>gw_bindings := [demo_round_binding]\<rparr>) =
      Some (Inr (Committed out), \<lparr>gw_loop = l, gw_bindings = [], gw_permits = []\<rparr>)"
    using r by (simp add: fresh_world_def complete_checked_round_def remove_at_def)
  ultimately have h: "generation_history ?w
      [(CompleteRound 0 checked [demo_control], Inr (Committed out)), (BindRound 0 \<lparr>epoch_value = 7\<rparr> [request_id_new 3 1], Inr (Bound demo_round_binding))]
      \<lparr>gw_loop = l, gw_bindings = [], gw_permits = []\<rparr>"
    by (blast intro: generation_history.intros)
  note once = generation_rounds_once [OF demo_policy_made demo_loop_new h, of "CommitRound 0", THEN conjunct2, THEN conjunct1]
  show ?thesis by (intro exI conjI, rule h, simp, rule once)
qed

end
