(* ===== verification/ServingRegistry.thy ===== *)
theory ServingRegistry
  imports Generation
begin

text \<open>
  The serving registry (\<^verbatim>\<open>ferric-engine/src/m1_serving_registry.rs\<close>): which admitted requests form the next homogeneous
  batch, what has to happen to the physical queue before it runs, and how a reservation, a publication and a completion
  move the requests of the batch.  The global counter of registry identities and the allocator are passed explicitly.
\<close>

subsection \<open>Results\<close>

text \<open>The \<open>?\<close> operator, in a function that only reads, and in one that takes \<open>&mut self\<close> and has not written yet.\<close>

definition sum_bind :: "'e + 'a \<Rightarrow> ('a \<Rightarrow> 'e + 'b) \<Rightarrow> 'e + 'b" where
  "sum_bind r k = (case r of Inl e \<Rightarrow> Inl e | Inr a \<Rightarrow> k a)"

definition attempt :: "'s \<Rightarrow> 'e + 'a \<Rightarrow> ('a \<Rightarrow> ('e + 'b) \<times> 's) \<Rightarrow> ('e + 'b) \<times> 's" where
  "attempt s r k = (case r of Inl e \<Rightarrow> (Inl e, s) | Inr a \<Rightarrow> k a)"

definition ok_or :: "'e \<Rightarrow> 'a option \<Rightarrow> 'e + 'a" where
  "ok_or e x = (case x of None \<Rightarrow> Inl e | Some a \<Rightarrow> Inr a)"

definition u64_saturating_add :: "u64 \<Rightarrow> u64 \<Rightarrow> u64" where
  "u64_saturating_add a b = min U64_MAX (a + b)"

subsection \<open>Plans\<close>

datatype fixed_batch_shape = TargetOnly | DraftCatchup | PairedPrefill | SpeculativeK4 | SpeculativeK8 | SpeculativeK16

record serving_plan =
  sv_target :: qwen3_plan_selection
  sv_draft :: qwen3_plan_selection
  sv_shape :: fixed_batch_shape
  sv_sequence_capacity :: usize

abbreviation sv_mode :: "serving_plan \<Rightarrow> qwen3_execution_mode" where
  "sv_mode p \<equiv> sel_mode (sv_target p)"

datatype rollover_reason = RolloverMode | RolloverShape | RolloverBucket

datatype queue_action =
    FreshLaunch
  | SameShapeRearm
  | QuiescentDraftCatchup serving_plan
  | QuiescentDraftCatchupRestore serving_plan
  | QuiescentRollover serving_plan serving_plan rollover_reason
  | QuiescentNewWindow serving_plan serving_plan

datatype quiescent_queue_disposition = NoQueue | RetainForReadyWork serving_plan | RetireQueue serving_plan

datatype serving_quiescence = QuiescentNever | QuiescentAt completion_epoch

datatype serving_phase =
    PhaseReady
  | PhaseInFlight completion_epoch
  | PhaseCancellationPending completion_epoch
  | PhaseRetired serving_quiescence

record serving_entry =
  se_request :: request_id
  se_plan :: serving_plan
  se_phase :: serving_phase
  se_last_quiescence :: "completion_epoch option"

datatype serving_error =
    SvZeroCapacity | SvCapacityExceedsM1 | SvOutOfSlots | SvDuplicateRequest | SvUnknownRequest | SvInvalidRequest
  | SvInvalidPlanPair | SvAdmissionRequiresPrefill | SvRequestNotReady | SvRequestNotInFlight
  | SvCancellationAlreadyRequested | SvRequestAlreadyRetired | SvTransitionRequiresQuiescence | SvPrefillMustAdvance
  | SvReversePrefillTransition | SvBatchAlreadyInFlight | SvNoBatchInFlight | SvCompletionEpochMismatch
  | SvCompletionRosterMismatch usize | SvCompletionDispositionCount | SvQueuePlanMismatch
  | SvQueueTransitionUnsupported | SvReadyWorkRequiresQueue | SvPublicationReservationActive
  | SvPublicationReservationRequired | SvPublicationReservationMismatch | SvPublicationReservationExhausted
  | SvNewWindowPredecessorRequired | SvNewWindowPredecessorNotCompleted usize | SvNewWindowPredecessorPlanMismatch usize
  | SvNewWindowPredecessorEpochMismatch usize | SvNewWindowRosterEmpty | SvNewWindowRosterExceedsPlan
  | SvNewWindowRosterCountMismatch | SvNewWindowRequestSlotMismatch usize | SvNewWindowRequestGenerationMismatch usize
  | SvHostAllocation | SvRegistryIdentityExhausted | SvRegistryIdentityMismatch | SvDraftCatchupWitnessRequired
  | SvDraftCatchupPhaseMismatch

datatype serving_disposition = ContinueWith serving_plan | RetireRequest

record batch_plan =
  bp_plan :: serving_plan
  bp_requests :: "request_id list"
  bp_epoch :: completion_epoch
  bp_action :: queue_action

record publication_reservation =
  rv_registry_identity :: u64
  rv_id :: u64
  rv_batch :: batch_plan

record completed_window_member =
  wm_request :: request_id
  wm_plan :: serving_plan
  wm_completion_epoch :: completion_epoch

record new_window_reservation =
  nw_prior :: serving_plan
  nw_predecessors :: "serving_entry list"
  nw_requests :: "request_id list"
  nw_publication :: publication_reservation

record in_flight_batch =
  fb_plan :: serving_plan
  fb_requests :: "request_id list"
  fb_epoch :: completion_epoch

record draft_catchup_key =
  dk_coordinator :: u64
  dk_parent :: qwen3_plan_selection
  dk_request :: request_id
  dk_completed_round :: u64
  dk_prior_epoch :: completion_epoch
  dk_epoch :: completion_epoch
  dk_draft_committed :: u32
  dk_target_committed :: u32
  dk_token :: token_id
  dk_prior_dispatch_generation :: u64

record reserved_batch =
  lv_id :: u64
  lv_plan :: serving_plan
  lv_epoch :: completion_epoch
  lv_action :: queue_action
  lv_draft_catchup :: "draft_catchup_key option"

datatype draft_catchup_phase =
    CatchupPending draft_catchup_key | CatchupInFlight draft_catchup_key | CatchupCompleted draft_catchup_key u64

record serving_registry =
  rg_identity :: u64
  rg_entries :: "serving_entry list"
  rg_bound_plan :: "serving_plan option"
  rg_reservation :: "reserved_batch option"
  rg_in_flight :: "in_flight_batch option"
  rg_draft_catchup :: "draft_catchup_phase option"
  rg_next_reservation_id :: u64
  rg_submitted_epoch :: u64
  rg_completed_epoch :: u64

fun plan_pairing ::
  "qwen3_execution_mode \<Rightarrow> qwen3_plan_bucket \<Rightarrow> (fixed_batch_shape \<times> qwen3_execution_mode \<times> qwen3_plan_bucket) option" where
  "plan_pairing Prefill PrefillS1T128 = Some (PairedPrefill, Prefill, PrefillS1T128)"
| "plan_pairing Prefill PrefillS8T128 = Some (PairedPrefill, Prefill, PrefillS8T128)"
| "plan_pairing Prefill PrefillS1T512 = Some (PairedPrefill, Prefill, PrefillS1T512)"
| "plan_pairing Prefill PrefillS1T2048 = Some (PairedPrefill, Prefill, PrefillS1T2048)"
| "plan_pairing Decode DecodeS1C8192 = Some (TargetOnly, Decode, DecodeS1C8192)"
| "plan_pairing Decode DecodeS8C8192 = Some (TargetOnly, Decode, DecodeS8C8192)"
| "plan_pairing Decode DecodeS32C8192 = Some (TargetOnly, Decode, DecodeS32C8192)"
| "plan_pairing Speculative SpeculativeS1K4C8192 = Some (SpeculativeK4, Decode, DecodeS1C8192)"
| "plan_pairing Speculative SpeculativeS8K4C8192 = Some (SpeculativeK4, Decode, DecodeS8C8192)"
| "plan_pairing Speculative SpeculativeS1K8C8192 = Some (SpeculativeK8, Decode, DecodeS1C8192)"
| "plan_pairing Speculative SpeculativeS1K16C8192 = Some (SpeculativeK16, Decode, DecodeS1C8192)"
| "plan_pairing mode bucket = None"

definition serving_plan_new :: "qwen3_plan_selection \<Rightarrow> qwen3_plan_selection \<Rightarrow> serving_error + serving_plan" where
  "serving_plan_new target draft =
     (if sel_role target \<noteq> Target8B \<or> sel_role draft \<noteq> Draft06B
          \<or> selection_validate target \<noteq> Inr () \<or> selection_validate draft \<noteq> Inr () then Inl SvInvalidPlanPair
      else case plan_pairing (sel_mode target) (sel_bucket target) of
        None \<Rightarrow> Inl SvInvalidPlanPair
      | Some (shape, draft_mode, draft_bucket) \<Rightarrow>
          if sel_mode draft \<noteq> draft_mode \<or> sel_bucket draft \<noteq> draft_bucket then Inl SvInvalidPlanPair
          else case bucket_dimensions (sel_bucket target) (sel_role target) (sel_mode target) of
            None \<Rightarrow> Inl SvInvalidPlanPair
          | Some dimensions \<Rightarrow>
              let sequence_capacity = pd_sequences dimensions in
              if sequence_capacity = 0 \<or> M1_MAX_ACTIVE_SEQUENCES < sequence_capacity then Inl SvInvalidPlanPair
              else Inr \<lparr>sv_target = target, sv_draft = draft, sv_shape = shape, sv_sequence_capacity = sequence_capacity\<rparr>)"

definition draft_cache_selection :: "serving_plan \<Rightarrow> qwen3_plan_selection" where
  "draft_cache_selection p =
     (if sv_mode p = Speculative
        then \<lparr>sel_role = Draft06B, sel_mode = sv_mode p, sel_bucket = sel_bucket (sv_target p)\<rparr>
      else sv_draft p)"

definition validate_plan_transition :: "serving_plan \<Rightarrow> serving_plan \<Rightarrow> serving_error + unit" where
  "validate_plan_transition current next =
     (if sv_mode current \<noteq> Prefill \<and> sv_mode next = Prefill then Inl SvReversePrefillTransition
      else if sv_mode current = Prefill \<and> sv_mode next = Prefill then Inl SvPrefillMustAdvance
      else Inr ())"

definition plan_priority :: "serving_plan \<Rightarrow> u8" where
  "plan_priority p = (case sv_mode p of Prefill \<Rightarrow> 0 | Decode \<Rightarrow> 1 | Speculative \<Rightarrow> 2)"

record rollover_transition =
  rt_prior :: serving_plan
  rt_next :: serving_plan
  rt_reason :: rollover_reason

definition admit_target_decode_rollover :: "serving_plan \<Rightarrow> serving_plan \<Rightarrow> rollover_transition option" where
  "admit_target_decode_rollover prior next =
     (if sv_mode prior = Prefill \<and> sv_shape prior = PairedPrefill \<and> sel_bucket (sv_target prior) = PrefillS1T128
          \<and> sv_sequence_capacity prior = 1 \<and> sv_mode next = Decode \<and> sv_shape next = TargetOnly
          \<and> sel_bucket (sv_target next) = DecodeS1C8192 \<and> sel_bucket (sv_draft next) = DecodeS1C8192
          \<and> sv_sequence_capacity next = 1
      then Some \<lparr>rt_prior = prior, rt_next = next, rt_reason = RolloverMode\<rparr> else None)"

fun speculative_rollover_buckets :: "qwen3_plan_bucket \<Rightarrow> qwen3_plan_bucket \<Rightarrow> bool" where
  "speculative_rollover_buckets PrefillS1T128 SpeculativeS1K4C8192 = True"
| "speculative_rollover_buckets PrefillS1T128 SpeculativeS1K8C8192 = True"
| "speculative_rollover_buckets PrefillS1T128 SpeculativeS1K16C8192 = True"
| "speculative_rollover_buckets PrefillS8T128 SpeculativeS8K4C8192 = True"
| "speculative_rollover_buckets prior next = False"

definition admit_production_rollover :: "serving_plan \<Rightarrow> serving_plan \<Rightarrow> rollover_transition option" where
  "admit_production_rollover prior next =
     (case admit_target_decode_rollover prior next of
        Some transition \<Rightarrow> Some transition
      | None \<Rightarrow>
          if speculative_rollover_buckets (sel_bucket (sv_target prior)) (sel_bucket (sv_target next))
            \<and> sv_mode prior = Prefill \<and> sv_shape prior = PairedPrefill \<and> sv_mode next = Speculative
          then Some \<lparr>rt_prior = prior, rt_next = next, rt_reason = RolloverMode\<rparr> else None)"

definition classify_queue_action :: "serving_plan option \<Rightarrow> serving_plan \<Rightarrow> serving_error + queue_action" where
  "classify_queue_action bound next =
     (case bound of
        None \<Rightarrow> Inr FreshLaunch
      | Some prior \<Rightarrow>
          if prior = next then Inr SameShapeRearm
          else sum_bind (ok_or SvQueueTransitionUnsupported (admit_production_rollover prior next))
            (\<lambda>t. Inr (QuiescentRollover (rt_prior t) (rt_next t) (rt_reason t))))"

definition key_valid_for :: "draft_catchup_key \<Rightarrow> serving_plan \<Rightarrow> bool" where
  "key_valid_for k p \<longleftrightarrow>
     dk_parent k = sv_target p \<and> sv_mode p = Speculative \<and> sv_sequence_capacity p = 1
     \<and> generation (dk_request k) \<noteq> 0 \<and> u64_add (dk_completed_round k) 1 \<noteq> None
     \<and> epoch_value (dk_prior_epoch k) \<noteq> 0
     \<and> u64_add (epoch_value (dk_prior_epoch k)) 1 = Some (epoch_value (dk_epoch k))
     \<and> dk_prior_dispatch_generation k \<noteq> 0 \<and> u64_add (dk_prior_dispatch_generation k) 1 \<noteq> None
     \<and> u32_add (dk_draft_committed k) 1 = Some (dk_target_committed k)
     \<and> dk_target_committed k \<le> M1_MAX_CONTEXT_TOKENS \<and> dk_token k < QWEN3_VOCABULARY_SIZE"

fun catchup_key :: "draft_catchup_phase \<Rightarrow> draft_catchup_key" where
  "catchup_key (CatchupPending k) = k"
| "catchup_key (CatchupInFlight k) = k"
| "catchup_key (CatchupCompleted k g) = k"


subsection \<open>Creation and observers\<close>

definition fresh_registry_identity :: "u64 \<Rightarrow> (serving_error + u64) \<times> u64" where
  "fresh_registry_identity counter =
     (case u64_add counter 1 of
        None \<Rightarrow> (Inl SvRegistryIdentityExhausted, counter)
      | Some n \<Rightarrow> (Inr counter, n))"

definition empty_registry :: "u64 \<Rightarrow> serving_registry" where
  "empty_registry identity = \<lparr>rg_identity = identity, rg_entries = [], rg_bound_plan = None, rg_reservation = None,
     rg_in_flight = None, rg_draft_catchup = None, rg_next_reservation_id = 1, rg_submitted_epoch = 0, rg_completed_epoch = 0\<rparr>"

definition serving_registry_new :: "usize \<Rightarrow> u64 \<Rightarrow> (serving_error + serving_registry) \<times> u64" where
  "serving_registry_new C counter =
     (if C = 0 then (Inl SvZeroCapacity, counter)
      else if M1_MAX_ACTIVE_SEQUENCES < C then (Inl SvCapacityExceedsM1, counter)
      else case fresh_registry_identity counter of
        (Inl e, counter') \<Rightarrow> (Inl e, counter')
      | (Inr identity, counter') \<Rightarrow> (Inr (empty_registry identity), counter'))"

definition find_entry :: "serving_registry \<Rightarrow> request_id \<Rightarrow> serving_entry option" where
  "find_entry this request = find (\<lambda>e. se_request e = request) (rg_entries this)"

definition registry_phase :: "serving_registry \<Rightarrow> request_id \<Rightarrow> serving_phase option" where
  "registry_phase this request = map_option se_phase (find_entry this request)"

definition registry_plan :: "serving_registry \<Rightarrow> request_id \<Rightarrow> serving_plan option" where
  "registry_plan this request = map_option se_plan (find_entry this request)"

definition bound_shape :: "serving_registry \<Rightarrow> fixed_batch_shape option" where
  "bound_shape this =
     (case rg_draft_catchup this of
        Some (CatchupInFlight _) \<Rightarrow> Some DraftCatchup
      | Some (CatchupCompleted _ _) \<Rightarrow> Some DraftCatchup
      | _ \<Rightarrow> (case rg_bound_plan this of Some plan \<Rightarrow> Some (sv_shape plan) | None \<Rightarrow> None))"

definition reject_live_reservation :: "serving_registry \<Rightarrow> serving_error + unit" where
  "reject_live_reservation this =
     (if rg_reservation this \<noteq> None then Inl SvPublicationReservationActive else Inr ())"

definition reject_in_flight :: "serving_registry \<Rightarrow> serving_error + unit" where
  "reject_in_flight this = (if rg_in_flight this \<noteq> None then Inl SvBatchAlreadyInFlight else Inr ())"

text \<open>\<open>Iterator::min_by_key\<close> returns the first of several minima.\<close>

fun min_by_key :: "('a \<Rightarrow> nat) \<Rightarrow> 'a list \<Rightarrow> 'a option" where
  "min_by_key f [] = None"
| "min_by_key f (x # xs) =
     (case min_by_key f xs of None \<Rightarrow> Some x | Some y \<Rightarrow> if f y < f x then Some y else Some x)"

abbreviation ready :: "serving_entry \<Rightarrow> bool" where
  "ready e \<equiv> se_phase e = PhaseReady"

text \<open>\<open>is_some_and\<close> and the negation of \<open>is_none_or\<close>, on the entry of a request.\<close>

definition entry_is :: "serving_registry \<Rightarrow> request_id \<Rightarrow> (serving_entry \<Rightarrow> bool) \<Rightarrow> bool" where
  "entry_is this request P = (case find_entry this request of None \<Rightarrow> False | Some e \<Rightarrow> P e)"

definition min_ready_plan :: "serving_registry \<Rightarrow> serving_plan option" where
  "min_ready_plan this =
     map_option se_plan (min_by_key (\<lambda>e. plan_priority (se_plan e)) (filter ready (rg_entries this)))"

definition next_ready_plan :: "serving_registry \<Rightarrow> serving_plan option" where
  "next_ready_plan this =
     (case rg_draft_catchup this of
        None \<Rightarrow> min_ready_plan this
      | Some phase \<Rightarrow>
          let key = catchup_key phase in
          (case find_entry this (dk_request key) of
             None \<Rightarrow> min_ready_plan this
           | Some e \<Rightarrow> if ready e \<and> sv_target (se_plan e) = dk_parent key then Some (se_plan e) else min_ready_plan this))"

definition ready_work_needs_bound_queue :: "serving_registry \<Rightarrow> serving_plan \<Rightarrow> bool" where
  "ready_work_needs_bound_queue this bound =
     (case rg_draft_catchup this of
        Some phase \<Rightarrow>
          let key = catchup_key phase in
          dk_parent key = sv_target bound \<and> entry_is this (dk_request key) (\<lambda>e. ready e \<and> se_plan e = bound)
      | None \<Rightarrow>
          (case next_ready_plan this of
             None \<Rightarrow> False
           | Some next \<Rightarrow> next = bound \<or> admit_production_rollover bound next \<noteq> None))"

definition classify_next_queue_action :: "serving_registry \<Rightarrow> serving_plan \<Rightarrow> serving_error + queue_action" where
  "classify_next_queue_action this selected =
     (let admits = (\<lambda>key. rg_bound_plan this = Some selected \<and> dk_parent key = sv_target selected
            \<and> entry_is this (dk_request key) (\<lambda>e. ready e \<and> se_plan e = selected)) in
      case rg_draft_catchup this of
        None \<Rightarrow> classify_queue_action (rg_bound_plan this) selected
      | Some (CatchupPending key) \<Rightarrow>
          if admits key then Inr (QuiescentDraftCatchup selected) else Inl SvDraftCatchupPhaseMismatch
      | Some (CatchupCompleted key _) \<Rightarrow>
          if admits key then Inr (QuiescentDraftCatchupRestore selected) else Inl SvDraftCatchupPhaseMismatch
      | Some (CatchupInFlight _) \<Rightarrow> Inl SvDraftCatchupPhaseMismatch)"

definition quiescent_queue_action :: "serving_registry \<Rightarrow> serving_error + quiescent_queue_disposition" where
  "quiescent_queue_action this =
     sum_bind (reject_live_reservation this) (\<lambda>_. sum_bind (reject_in_flight this) (\<lambda>_.
       case rg_bound_plan this of
         None \<Rightarrow> Inr NoQueue
       | Some bound \<Rightarrow>
           Inr (if ready_work_needs_bound_queue this bound then RetainForReadyWork bound else RetireQueue bound)))"

subsection \<open>Planning\<close>

text \<open>\<open>ArrayVec::try_push\<close> of every request in turn.\<close>

fun push_roster :: "request_id list \<Rightarrow> request_id list \<Rightarrow> request_id list option" where
  "push_roster [] roster = Some roster"
| "push_roster (r # rs) roster = (case inline_push roster r of None \<Rightarrow> None | Some roster' \<Rightarrow> push_roster rs roster')"

definition ready_roster :: "usize \<Rightarrow> serving_registry \<Rightarrow> serving_plan \<Rightarrow> request_id list" where
  "ready_roster limit this plan =
     map se_request (take limit (filter (\<lambda>e. ready e \<and> se_plan e = plan) (rg_entries this)))"

definition select_roster :: "usize \<Rightarrow> serving_registry \<Rightarrow> serving_plan \<Rightarrow> serving_error + request_id list" where
  "select_roster C this selected =
     (let limit = min C (sv_sequence_capacity selected) in
      case rg_draft_catchup this of
        Some phase \<Rightarrow>
          let key = catchup_key phase in
          if \<not> entry_is this (dk_request key) (\<lambda>e. ready e \<and> se_plan e = selected) then Inl SvDraftCatchupPhaseMismatch
          else ok_or SvCapacityExceedsM1 (push_roster [dk_request key] [])
      | None \<Rightarrow> ok_or SvCapacityExceedsM1 (push_roster (ready_roster limit this selected) []))"

definition plan_next :: "usize \<Rightarrow> serving_registry \<Rightarrow> serving_error + batch_plan option" where
  "plan_next C this =
     sum_bind (reject_live_reservation this) (\<lambda>_. sum_bind (reject_in_flight this) (\<lambda>_.
       case next_ready_plan this of
         None \<Rightarrow> Inr None
       | Some selected \<Rightarrow>
           sum_bind (select_roster C this selected) (\<lambda>requests.
           sum_bind (ok_or SvCompletionEpochMismatch (u64_add (rg_submitted_epoch this) 1)) (\<lambda>next_epoch.
           sum_bind (classify_next_queue_action this selected) (\<lambda>action.
             Inr (Some \<lparr>bp_plan = selected, bp_requests = requests, bp_epoch = \<lparr>epoch_value = next_epoch\<rparr>,
               bp_action = action\<rparr>))))))"

fun match_ready_roster :: "request_id list \<Rightarrow> usize \<Rightarrow> request_id list \<Rightarrow> serving_error + usize" where
  "match_ready_roster requests expected_count [] = Inr expected_count"
| "match_ready_roster requests expected_count (r # rs) =
     (if idx requests expected_count \<noteq> Some r then Inl SvPublicationReservationMismatch
      else match_ready_roster requests (expected_count + 1) rs)"

definition validate_ready_roster :: "usize \<Rightarrow> serving_registry \<Rightarrow> batch_plan \<Rightarrow> serving_error + unit" where
  "validate_ready_roster C this batch =
     (case rg_draft_catchup this of
        Some phase \<Rightarrow>
          let key = catchup_key phase in
          if bp_requests batch \<noteq> [dk_request key]
             \<or> \<not> entry_is this (dk_request key) (\<lambda>e. ready e \<and> se_plan e = bp_plan batch)
          then Inl SvPublicationReservationMismatch else Inr ()
      | None \<Rightarrow>
          let limit = min C (sv_sequence_capacity (bp_plan batch)) in
          sum_bind (match_ready_roster (bp_requests batch) 0 (ready_roster limit this (bp_plan batch))) (\<lambda>expected_count.
            if expected_count = 0 then Inl SvRequestNotReady
            else if length (bp_requests batch) \<noteq> expected_count then Inl SvPublicationReservationMismatch
            else Inr ()))"

definition validate_next_batch :: "usize \<Rightarrow> serving_registry \<Rightarrow> batch_plan \<Rightarrow> serving_error + unit" where
  "validate_next_batch C this batch =
     sum_bind (ok_or SvRequestNotReady (next_ready_plan this)) (\<lambda>selected.
     sum_bind (ok_or SvCompletionEpochMismatch (u64_add (rg_submitted_epoch this) 1)) (\<lambda>next_epoch.
     sum_bind (classify_next_queue_action this selected) (\<lambda>action.
       if bp_plan batch \<noteq> selected \<or> bp_epoch batch \<noteq> \<lparr>epoch_value = next_epoch\<rparr> \<or> bp_action batch \<noteq> action
       then Inl SvPublicationReservationMismatch
       else validate_ready_roster C this batch)))"

definition validate_draft_catchup_ready_key :: "serving_registry \<Rightarrow> serving_plan \<Rightarrow> draft_catchup_key \<Rightarrow> serving_error + unit" where
  "validate_draft_catchup_ready_key this parent key =
     (if \<not> key_valid_for key parent \<or> rg_bound_plan this \<noteq> Some parent
         \<or> rg_submitted_epoch this \<noteq> epoch_value (dk_prior_epoch key)
         \<or> rg_completed_epoch this \<noteq> epoch_value (dk_prior_epoch key)
         \<or> \<not> entry_is this (dk_request key)
              (\<lambda>e. ready e \<and> se_plan e = parent \<and> se_last_quiescence e = Some (dk_prior_epoch key))
      then Inl SvDraftCatchupPhaseMismatch else Inr ())"

definition validate_draft_catchup_start :: "serving_registry \<Rightarrow> batch_plan \<Rightarrow> draft_catchup_key \<Rightarrow> serving_error + unit" where
  "validate_draft_catchup_start this batch key =
     (if rg_draft_catchup this \<noteq> Some (CatchupPending key) \<or> bp_action batch \<noteq> QuiescentDraftCatchup (bp_plan batch)
         \<or> bp_requests batch \<noteq> [dk_request key] \<or> bp_epoch batch \<noteq> dk_epoch key
      then Inl SvDraftCatchupPhaseMismatch
      else validate_draft_catchup_ready_key this (bp_plan batch) key)"


subsection \<open>Requests\<close>

fun update_first :: "('a \<Rightarrow> bool) \<Rightarrow> ('a \<Rightarrow> 'a) \<Rightarrow> 'a list \<Rightarrow> 'a list" where
  "update_first P f [] = []"
| "update_first P f (x # xs) = (if P x then f x # xs else x # update_first P f xs)"

definition update_entry :: "request_id \<Rightarrow> (serving_entry \<Rightarrow> serving_entry) \<Rightarrow> serving_registry \<Rightarrow> serving_registry" where
  "update_entry request f this = this\<lparr>rg_entries := update_first (\<lambda>e. se_request e = request) f (rg_entries this)\<rparr>"

definition fresh_entry :: "serving_plan \<Rightarrow> request_id \<Rightarrow> serving_entry" where
  "fresh_entry plan request =
     \<lparr>se_request = request, se_plan = plan, se_phase = PhaseReady, se_last_quiescence = None\<rparr>"

definition admit_request ::
  "usize \<Rightarrow> serving_registry \<Rightarrow> request_id \<Rightarrow> serving_plan \<Rightarrow> (serving_error + unit) \<times> serving_registry" where
  "admit_request C this request prefill =
     attempt this (reject_live_reservation this) (\<lambda>_.
       if generation request = 0 then (Inl SvInvalidRequest, this)
       else if sv_mode prefill \<noteq> Prefill then (Inl SvAdmissionRequiresPrefill, this)
       else if list_ex (\<lambda>e. se_request e = request) (rg_entries this) then (Inl SvDuplicateRequest, this)
       else if length (rg_entries this) = C then (Inl SvOutOfSlots, this)
       else (Inr (), this\<lparr>rg_entries := rg_entries this @ [fresh_entry prefill request]\<rparr>))"

definition record_quiescent_queue_retirement ::
  "serving_registry \<Rightarrow> serving_plan \<Rightarrow> (serving_error + unit) \<times> serving_registry" where
  "record_quiescent_queue_retirement this bound =
     attempt this (reject_live_reservation this) (\<lambda>_.
     attempt this (reject_in_flight this) (\<lambda>_.
       if rg_bound_plan this \<noteq> Some bound then (Inl SvQueuePlanMismatch, this)
       else if ready_work_needs_bound_queue this bound then (Inl SvReadyWorkRequiresQueue, this)
       else (Inr (), this\<lparr>rg_bound_plan := None, rg_draft_catchup := None\<rparr>)))"

definition transition_request ::
  "serving_registry \<Rightarrow> request_id \<Rightarrow> serving_plan \<Rightarrow> (serving_error + unit) \<times> serving_registry" where
  "transition_request this request next =
     attempt this (reject_live_reservation this) (\<lambda>_.
       if rg_draft_catchup this \<noteq> None then (Inl SvDraftCatchupPhaseMismatch, this)
       else attempt this (ok_or SvUnknownRequest (find_entry this request)) (\<lambda>e.
         if se_phase e \<noteq> PhaseReady \<or> se_last_quiescence e = None then (Inl SvTransitionRequiresQuiescence, this)
         else attempt this (validate_plan_transition (se_plan e) next) (\<lambda>_.
           (Inr (), update_entry request (\<lambda>e. e\<lparr>se_plan := next\<rparr>) this))))"

fun cancelled_phase :: "completion_epoch option \<Rightarrow> serving_phase \<Rightarrow> serving_error + serving_phase" where
  "cancelled_phase prior PhaseReady =
     Inr (PhaseRetired (case prior of None \<Rightarrow> QuiescentNever | Some epoch \<Rightarrow> QuiescentAt epoch))"
| "cancelled_phase prior (PhaseInFlight epoch) = Inr (PhaseCancellationPending epoch)"
| "cancelled_phase prior (PhaseCancellationPending epoch) = Inl SvCancellationAlreadyRequested"
| "cancelled_phase prior (PhaseRetired q) = Inl SvRequestAlreadyRetired"

definition cancel_request ::
  "serving_registry \<Rightarrow> request_id \<Rightarrow> (serving_error + serving_phase) \<times> serving_registry" where
  "cancel_request this request =
     attempt this (reject_live_reservation this) (\<lambda>_.
     attempt this (ok_or SvUnknownRequest (find_entry this request)) (\<lambda>e.
     attempt this (cancelled_phase (se_last_quiescence e) (se_phase e)) (\<lambda>phase.
       (Inr phase, update_entry request (\<lambda>e. e\<lparr>se_phase := phase\<rparr>) this))))"

definition remove_retired ::
  "serving_registry \<Rightarrow> request_id \<Rightarrow> ((serving_error + serving_quiescence) \<times> serving_registry) exec" where
  "remove_retired this request =
     (case reject_live_reservation this of
        Inl e \<Rightarrow> Some (Inl e, this)
      | Inr _ \<Rightarrow>
          (case first_position (\<lambda>e. se_request e = request) (rg_entries this) of
             None \<Rightarrow> Some (Inl SvUnknownRequest, this)
           | Some index \<Rightarrow> do {
               e \<leftarrow> idx (rg_entries this) index;
               case se_phase e of
                 PhaseRetired quiescence \<Rightarrow>
                   Some (Inr quiescence, this\<lparr>rg_entries := take index (rg_entries this) @ drop (Suc index) (rg_entries this)\<rparr>)
               | _ \<Rightarrow> Some (Inl SvRequestNotReady, this) }))"

record prefill_reconciliation =
  rc_request :: request_id
  rc_epoch :: completion_epoch
  rc_prefill :: serving_plan
  rc_successor :: serving_plan

definition is_fresh_registry :: "serving_registry \<Rightarrow> bool" where
  "is_fresh_registry this \<longleftrightarrow>
     rg_entries this = [] \<and> rg_bound_plan this = None \<and> rg_reservation this = None \<and> rg_in_flight this = None
     \<and> rg_draft_catchup this = None \<and> rg_next_reservation_id this = 1 \<and> rg_submitted_epoch this = 0
     \<and> rg_completed_epoch this = 0"

datatype reconciliation_error =
    RegistryNotFresh | ProfileMismatch | IntentMismatch | QueueMismatch | CompletionMismatch | RequestMismatch
  | CacheMismatch | EngineMismatch

definition install_prefill_reconciliation ::
  "serving_registry \<Rightarrow> prefill_reconciliation \<Rightarrow> (reconciliation_error + unit) \<times> serving_registry" where
  "install_prefill_reconciliation this reconciliation =
     (if \<not> is_fresh_registry this then (Inl RegistryNotFresh, this)
      else (Inr (), this\<lparr>
        rg_entries := rg_entries this @ [\<lparr>se_request = rc_request reconciliation, se_plan = rc_successor reconciliation,
          se_phase = PhaseReady, se_last_quiescence = Some (rc_epoch reconciliation)\<rparr>],
        rg_bound_plan := Some (rc_prefill reconciliation), rg_next_reservation_id := 2,
        rg_submitted_epoch := epoch_value (rc_epoch reconciliation),
        rg_completed_epoch := epoch_value (rc_epoch reconciliation)\<rparr>))"

subsection \<open>Reservations\<close>

definition reserve_validated_batch ::
  "serving_registry \<Rightarrow> batch_plan \<Rightarrow> draft_catchup_key option \<Rightarrow> (serving_error + publication_reservation) \<times> serving_registry" where
  "reserve_validated_batch this batch draft_catchup =
     attempt this (ok_or SvPublicationReservationExhausted (u64_add (rg_next_reservation_id this) 1)) (\<lambda>following_id.
       let identifier = rg_next_reservation_id this in
       (Inr \<lparr>rv_registry_identity = rg_identity this, rv_id = identifier, rv_batch = batch\<rparr>,
        this\<lparr>rg_reservation := Some \<lparr>lv_id = identifier, lv_plan = bp_plan batch, lv_epoch = bp_epoch batch,
               lv_action = bp_action batch, lv_draft_catchup = draft_catchup\<rparr>,
             rg_next_reservation_id := following_id\<rparr>))"

fun is_catchup_action :: "queue_action \<Rightarrow> bool" where
  "is_catchup_action (QuiescentDraftCatchup _) = True"
| "is_catchup_action (QuiescentDraftCatchupRestore _) = True"
| "is_catchup_action _ = False"

definition reserve_batch ::
  "usize \<Rightarrow> serving_registry \<Rightarrow> batch_plan \<Rightarrow> (serving_error + publication_reservation) \<times> serving_registry" where
  "reserve_batch C this batch =
     attempt this (reject_live_reservation this) (\<lambda>_.
     attempt this (reject_in_flight this) (\<lambda>_.
       if is_catchup_action (bp_action batch) then (Inl SvDraftCatchupWitnessRequired, this)
       else attempt this (validate_next_batch C this batch) (\<lambda>_. reserve_validated_batch this batch None)))"

definition register_draft_catchup_key ::
  "serving_registry \<Rightarrow> draft_catchup_key \<Rightarrow> (serving_error + unit) \<times> serving_registry" where
  "register_draft_catchup_key this key =
     attempt this (reject_live_reservation this) (\<lambda>_.
     attempt this (reject_in_flight this) (\<lambda>_.
       if rg_draft_catchup this \<noteq> None then (Inl SvDraftCatchupPhaseMismatch, this)
       else attempt this (ok_or SvQueuePlanMismatch (rg_bound_plan this)) (\<lambda>parent.
         attempt this (validate_draft_catchup_ready_key this parent key) (\<lambda>_.
           (Inr (), this\<lparr>rg_draft_catchup := Some (CatchupPending key)\<rparr>)))))"

definition reserve_draft_catchup_key ::
  "usize \<Rightarrow> serving_registry \<Rightarrow> batch_plan \<Rightarrow> draft_catchup_key \<Rightarrow>
   (serving_error + publication_reservation) \<times> serving_registry" where
  "reserve_draft_catchup_key C this batch key =
     attempt this (reject_live_reservation this) (\<lambda>_.
     attempt this (reject_in_flight this) (\<lambda>_.
     attempt this (validate_next_batch C this batch) (\<lambda>_.
     attempt this (validate_draft_catchup_start this batch key) (\<lambda>_.
       reserve_validated_batch this batch (Some key)))))"

definition reserve_draft_catchup_restore_key ::
  "usize \<Rightarrow> serving_registry \<Rightarrow> batch_plan \<Rightarrow> draft_catchup_key \<Rightarrow> u64 \<Rightarrow>
   (serving_error + publication_reservation) \<times> serving_registry" where
  "reserve_draft_catchup_restore_key C this batch key dispatch_generation =
     attempt this (reject_live_reservation this) (\<lambda>_.
     attempt this (reject_in_flight this) (\<lambda>_.
       if rg_draft_catchup this \<noteq> Some (CatchupCompleted key dispatch_generation)
          \<or> bp_requests batch \<noteq> [dk_request key] \<or> sv_target (bp_plan batch) \<noteq> dk_parent key
       then (Inl SvDraftCatchupPhaseMismatch, this)
       else attempt this (validate_next_batch C this batch) (\<lambda>_. reserve_validated_batch this batch None)))"

definition validate_reservation :: "usize \<Rightarrow> serving_registry \<Rightarrow> publication_reservation \<Rightarrow> serving_error + unit" where
  "validate_reservation C this reservation =
     (let batch = rv_batch reservation in
      if rv_registry_identity reservation \<noteq> rg_identity this then Inl SvRegistryIdentityMismatch
      else sum_bind (reject_in_flight this) (\<lambda>_.
      case rg_reservation this of
        None \<Rightarrow> Inl SvPublicationReservationRequired
      | Some live \<Rightarrow>
          if lv_id live \<noteq> rv_id reservation \<or> lv_plan live \<noteq> bp_plan batch \<or> lv_epoch live \<noteq> bp_epoch batch
             \<or> lv_action live \<noteq> bp_action batch then Inl SvPublicationReservationMismatch
          else if epoch_value (bp_epoch batch) \<noteq> u64_saturating_add (rg_submitted_epoch this) 1
            then Inl SvCompletionEpochMismatch
          else sum_bind
            (case bp_action batch of
               QuiescentDraftCatchup parent \<Rightarrow>
                 sum_bind (ok_or SvDraftCatchupWitnessRequired (lv_draft_catchup live)) (\<lambda>key.
                   if parent \<noteq> bp_plan batch then Inl SvDraftCatchupPhaseMismatch
                   else validate_draft_catchup_start this batch key)
             | QuiescentDraftCatchupRestore parent \<Rightarrow>
                 (case rg_draft_catchup this of
                    Some (CatchupCompleted key _) \<Rightarrow>
                      if lv_draft_catchup live \<noteq> None \<or> parent \<noteq> bp_plan batch \<or> bp_requests batch \<noteq> [dk_request key]
                      then Inl SvDraftCatchupPhaseMismatch
                      else validate_next_batch C this batch
                  | _ \<Rightarrow> Inl SvDraftCatchupPhaseMismatch)
             | _ \<Rightarrow>
                 if lv_draft_catchup live \<noteq> None \<or> rg_draft_catchup this \<noteq> None then Inl SvDraftCatchupPhaseMismatch
                 else Inr ())
            (\<lambda>_. validate_ready_roster C this batch)))"

definition abort_publication ::
  "usize \<Rightarrow> serving_registry \<Rightarrow> publication_reservation \<Rightarrow>
   ((serving_error \<times> publication_reservation) + unit) \<times> serving_registry" where
  "abort_publication C this reservation =
     (case validate_reservation C this reservation of
        Inl e \<Rightarrow> (Inl (e, reservation), this)
      | Inr _ \<Rightarrow> (Inr (), this\<lparr>rg_reservation := None\<rparr>))"

text \<open>What both publications do once the roster is in flight.\<close>

definition set_in_flight :: "batch_plan \<Rightarrow> serving_registry \<Rightarrow> serving_registry" where
  "set_in_flight batch this = this\<lparr>rg_reservation := None, rg_submitted_epoch := epoch_value (bp_epoch batch),
     rg_bound_plan := Some (bp_plan batch),
     rg_in_flight := Some \<lparr>fb_plan = bp_plan batch, fb_requests = bp_requests batch, fb_epoch = bp_epoch batch\<rparr>\<rparr>"

definition record_publication ::
  "usize \<Rightarrow> serving_registry \<Rightarrow> publication_reservation \<Rightarrow>
   (((serving_error \<times> publication_reservation) + unit) \<times> serving_registry) exec" where
  "record_publication C this reservation =
     (case validate_reservation C this reservation of
        Inl e \<Rightarrow> Some (Inl (e, reservation), this)
      | Inr _ \<Rightarrow> do {
          let maintenance_key = Option.bind (rg_reservation this) lv_draft_catchup;
          let batch = rv_batch reservation;
          this' \<leftarrow> (case bp_action batch of
             QuiescentDraftCatchup _ \<Rightarrow> do {
               key \<leftarrow> maintenance_key;
               Some (this\<lparr>rg_draft_catchup := Some (CatchupInFlight key)\<rparr>) }
           | QuiescentDraftCatchupRestore _ \<Rightarrow> Some (this\<lparr>rg_draft_catchup := None\<rparr>)
           | _ \<Rightarrow> Some this);
          Some (Inr (), set_in_flight batch (this'\<lparr>rg_entries :=
            map (\<lambda>e. if se_request e \<in> set (bp_requests batch) then e\<lparr>se_phase := PhaseInFlight (bp_epoch batch)\<rparr> else e)
              (rg_entries this')\<rparr>)) })"


subsection \<open>Replacing a completed window\<close>

definition validate_completed_window_predecessor ::
  "serving_entry \<Rightarrow> serving_plan \<Rightarrow> u64 \<Rightarrow> usize \<Rightarrow> serving_error + unit" where
  "validate_completed_window_predecessor e prior completed index =
     (if se_plan e \<noteq> prior then Inl (SvNewWindowPredecessorPlanMismatch index)
      else case se_phase e of
        PhaseRetired (QuiescentAt epoch) \<Rightarrow>
          if epoch_value epoch = 0 \<or> completed < epoch_value epoch \<or> se_last_quiescence e \<noteq> Some epoch
          then Inl (SvNewWindowPredecessorEpochMismatch index) else Inr ()
      | _ \<Rightarrow> Inl (SvNewWindowPredecessorNotCompleted index))"

fun validate_predecessors :: "serving_plan \<Rightarrow> u64 \<Rightarrow> usize \<Rightarrow> serving_entry list \<Rightarrow> serving_error + unit" where
  "validate_predecessors prior completed index [] = Inr ()"
| "validate_predecessors prior completed index (e # es) =
     sum_bind (validate_completed_window_predecessor e prior completed index) (\<lambda>_.
       validate_predecessors prior completed (index + 1) es)"

definition validate_successor :: "usize \<Rightarrow> request_id \<Rightarrow> serving_entry \<Rightarrow> serving_error + unit" where
  "validate_successor index request predecessor =
     (if generation request = 0 then Inl SvInvalidRequest
      else if slot request \<noteq> slot (se_request predecessor) then Inl (SvNewWindowRequestSlotMismatch index)
      else if u32_add (generation (se_request predecessor)) 1 \<noteq> Some (generation request)
        then Inl (SvNewWindowRequestGenerationMismatch index)
      else Inr ())"

fun validate_successors :: "usize \<Rightarrow> (request_id \<times> serving_entry) list \<Rightarrow> serving_error + unit" where
  "validate_successors index [] = Inr ()"
| "validate_successors index ((request, predecessor) # rest) =
     sum_bind (validate_successor index request predecessor) (\<lambda>_. validate_successors (index + 1) rest)"

definition window_requests :: "new_window_reservation \<Rightarrow> request_id list" where
  "window_requests w = bp_requests (rv_batch (nw_publication w))"

definition window_plan :: "new_window_reservation \<Rightarrow> serving_plan" where
  "window_plan w = bp_plan (rv_batch (nw_publication w))"

text \<open>\<open>debug_assert!(false)\<close> is a panic of a debug build.\<close>

definition window_predecessor :: "new_window_reservation \<Rightarrow> usize \<Rightarrow> completed_window_member option exec" where
  "window_predecessor w index =
     (case idx (nw_predecessors w) index of
        None \<Rightarrow> Some None
      | Some e \<Rightarrow>
          (case se_phase e of
             PhaseRetired (QuiescentAt epoch) \<Rightarrow>
               Some (Some \<lparr>wm_request = se_request e, wm_plan = se_plan e, wm_completion_epoch = epoch\<rparr>)
           | _ \<Rightarrow> None))"

definition validate_window_replacement ::
  "usize \<Rightarrow> serving_registry \<Rightarrow> serving_plan \<Rightarrow> request_id list \<Rightarrow> serving_error + (serving_plan \<times> u64 \<times> u64)" where
  "validate_window_replacement C this plan requests =
     sum_bind (reject_live_reservation this) (\<lambda>_.
     sum_bind (reject_in_flight this) (\<lambda>_.
     if rg_draft_catchup this \<noteq> None then Inl SvDraftCatchupPhaseMismatch
     else sum_bind (ok_or SvQueuePlanMismatch (rg_bound_plan this)) (\<lambda>prior.
     if rg_entries this = [] then Inl SvNewWindowPredecessorRequired
     else sum_bind (validate_predecessors prior (rg_completed_epoch this) 0 (rg_entries this)) (\<lambda>_.
     if sv_mode plan \<noteq> Prefill then Inl SvAdmissionRequiresPrefill
     else if requests = [] then Inl SvNewWindowRosterEmpty
     else if C < length requests \<or> sv_sequence_capacity plan < length requests then Inl SvNewWindowRosterExceedsPlan
     else if length requests \<noteq> length (rg_entries this) then Inl SvNewWindowRosterCountMismatch
     else sum_bind (validate_successors 0 (zip requests (rg_entries this))) (\<lambda>_.
     if rg_submitted_epoch this \<noteq> rg_completed_epoch this then Inl SvCompletionEpochMismatch
     else sum_bind (ok_or SvCompletionEpochMismatch (u64_add (rg_submitted_epoch this) 1)) (\<lambda>next_epoch.
     sum_bind (ok_or SvPublicationReservationExhausted (u64_add (rg_next_reservation_id this) 1)) (\<lambda>following_id.
       Inr (prior, next_epoch, following_id))))))))"

definition reserve_window_replacement_with_storage ::
  "usize \<Rightarrow> serving_registry \<Rightarrow> serving_plan \<Rightarrow> request_id list \<Rightarrow> usize \<Rightarrow>
   ((serving_error \<times> serving_plan \<times> request_id list) + new_window_reservation) \<times> serving_registry" where
  "reserve_window_replacement_with_storage C this plan requests storage_capacity =
     (case validate_window_replacement C this plan requests of
        Inl e \<Rightarrow> (Inl (e, plan, requests), this)
      | Inr (prior, next_epoch, following_id) \<Rightarrow>
          if storage_capacity < length requests then (Inl (SvHostAllocation, plan, requests), this)
          else case push_roster requests [] of
            None \<Rightarrow> (Inl (SvNewWindowRosterExceedsPlan, plan, requests), this)
          | Some inline_requests \<Rightarrow>
              let identifier = rg_next_reservation_id this; action = QuiescentNewWindow prior plan;
                  epoch = \<lparr>epoch_value = next_epoch\<rparr>;
                  publication = \<lparr>rv_registry_identity = rg_identity this, rv_id = identifier,
                    rv_batch = \<lparr>bp_plan = plan, bp_requests = inline_requests, bp_epoch = epoch, bp_action = action\<rparr>\<rparr> in
              (Inr \<lparr>nw_prior = prior, nw_predecessors = rg_entries this, nw_requests = requests, nw_publication = publication\<rparr>,
               this\<lparr>rg_reservation := Some \<lparr>lv_id = identifier, lv_plan = plan, lv_epoch = epoch, lv_action = action,
                      lv_draft_catchup = None\<rparr>,
                    rg_next_reservation_id := following_id, rg_entries := map (fresh_entry plan) requests\<rparr>))"

definition reserve_window_replacement ::
  "(usize \<Rightarrow> bool) \<Rightarrow> usize \<Rightarrow> serving_registry \<Rightarrow> serving_plan \<Rightarrow> request_id list \<Rightarrow>
   ((serving_error \<times> serving_plan \<times> request_id list) + new_window_reservation) \<times> serving_registry" where
  "reserve_window_replacement reserve C this plan requests =
     (if \<not> reserve (length requests) then (Inl (SvHostAllocation, plan, requests), this)
      else reserve_window_replacement_with_storage C this plan requests (length requests))"

fun validate_window_lanes ::
  "serving_plan \<Rightarrow> serving_entry list \<Rightarrow> usize \<Rightarrow> (serving_entry \<times> request_id) list \<Rightarrow> (serving_error + unit) exec" where
  "validate_window_lanes plan predecessors lane [] = Some (Inr ())"
| "validate_window_lanes plan predecessors lane ((e, request) # rest) =
     (if se_request e \<noteq> request \<or> se_plan e \<noteq> plan \<or> se_phase e \<noteq> PhaseReady \<or> se_last_quiescence e \<noteq> None
        then Some (Inl (SvCompletionRosterMismatch lane))
      else if generation request = 0 then Some (Inl SvInvalidRequest)
      else do {
        predecessor \<leftarrow> idx predecessors lane;
        case validate_successor lane request predecessor of
          Inl err \<Rightarrow> Some (Inl err)
        | Inr _ \<Rightarrow> validate_window_lanes plan predecessors (lane + 1) rest })"

definition validate_window_reservation ::
  "usize \<Rightarrow> serving_registry \<Rightarrow> new_window_reservation \<Rightarrow> (serving_error + unit) exec" where
  "validate_window_reservation C this reservation =
     (case sum_bind (validate_reservation C this (nw_publication reservation)) (\<lambda>_.
        if rg_bound_plan this \<noteq> Some (nw_prior reservation)
           \<or> bp_action (rv_batch (nw_publication reservation)) \<noteq> QuiescentNewWindow (nw_prior reservation) (window_plan reservation)
           \<or> nw_predecessors reservation = []
           \<or> length (nw_predecessors reservation) \<noteq> length (rg_entries this)
           \<or> length (rg_entries this) \<noteq> length (window_requests reservation)
           \<or> nw_requests reservation \<noteq> window_requests reservation
           \<or> rg_entries this = [] \<or> C < length (rg_entries this)
           \<or> sv_sequence_capacity (window_plan reservation) < length (rg_entries this)
           \<or> sv_mode (window_plan reservation) \<noteq> Prefill
        then Inl SvPublicationReservationMismatch
        else validate_predecessors (nw_prior reservation) (rg_completed_epoch this) 0 (nw_predecessors reservation)) of
        Inl e \<Rightarrow> Some (Inl e)
      | Inr _ \<Rightarrow> validate_window_lanes (window_plan reservation) (nw_predecessors reservation) 0
          (zip (rg_entries this) (window_requests reservation)))"

record restored_window =
  rw_plan :: serving_plan
  rw_requests :: "request_id list"

definition restore_window_replacement ::
  "usize \<Rightarrow> serving_registry \<Rightarrow> new_window_reservation \<Rightarrow>
   (((serving_error \<times> new_window_reservation) + restored_window) \<times> serving_registry) exec" where
  "restore_window_replacement C this reservation = do {
     v \<leftarrow> validate_window_reservation C this reservation;
     Some (case v of
       Inl e \<Rightarrow> (Inl (e, reservation), this)
     | Inr _ \<Rightarrow> (Inr \<lparr>rw_plan = window_plan reservation, rw_requests = nw_requests reservation\<rparr>,
         this\<lparr>rg_reservation := None, rg_entries := nw_predecessors reservation\<rparr>)) }"

definition record_window_publication ::
  "usize \<Rightarrow> serving_registry \<Rightarrow> new_window_reservation \<Rightarrow>
   (((serving_error \<times> new_window_reservation) + unit) \<times> serving_registry) exec" where
  "record_window_publication C this reservation = do {
     v \<leftarrow> validate_window_reservation C this reservation;
     Some (case v of
       Inl e \<Rightarrow> (Inl (e, reservation), this)
     | Inr _ \<Rightarrow>
         let batch = rv_batch (nw_publication reservation) in
         (Inr (), set_in_flight batch (this\<lparr>rg_entries :=
            map (\<lambda>e. e\<lparr>se_phase := PhaseInFlight (bp_epoch batch)\<rparr>) (rg_entries this)\<rparr>))) }"

subsection \<open>Completion\<close>

definition completed_entry :: "completion_epoch \<Rightarrow> serving_disposition \<Rightarrow> serving_entry \<Rightarrow> serving_entry" where
  "completed_entry epoch disposition e =
     (case disposition of
        ContinueWith next \<Rightarrow> e\<lparr>se_last_quiescence := Some epoch, se_plan := next, se_phase := PhaseReady\<rparr>
      | RetireRequest \<Rightarrow> e\<lparr>se_last_quiescence := Some epoch, se_phase := PhaseRetired (QuiescentAt epoch)\<rparr>)"

fun apply_dispositions ::
  "completion_epoch \<Rightarrow> (request_id \<times> serving_disposition) list \<Rightarrow> serving_entry list \<Rightarrow> serving_entry list exec" where
  "apply_dispositions epoch [] entries = Some entries"
| "apply_dispositions epoch ((request, disposition) # rest) entries =
     (if list_ex (\<lambda>e. se_request e = request) entries
      then apply_dispositions epoch rest
        (update_first (\<lambda>e. se_request e = request) (completed_entry epoch disposition) entries)
      else None)"

definition apply_validated_completion ::
  "serving_registry \<Rightarrow> completion_epoch \<Rightarrow> serving_disposition list \<Rightarrow> serving_registry exec" where
  "apply_validated_completion this epoch dispositions = do {
     in_flight \<leftarrow> rg_in_flight this;
     entries \<leftarrow> apply_dispositions epoch (zip (fb_requests in_flight) dispositions) (rg_entries this);
     Some (this\<lparr>rg_in_flight := None, rg_entries := entries, rg_completed_epoch := epoch_value epoch\<rparr>) }"

fun active_at :: "completion_epoch \<Rightarrow> serving_phase \<Rightarrow> bool" where
  "active_at epoch (PhaseInFlight active) = (active = epoch)"
| "active_at epoch (PhaseCancellationPending active) = (active = epoch)"
| "active_at epoch _ = False"

definition validate_disposition :: "serving_entry \<Rightarrow> serving_disposition \<Rightarrow> serving_error + unit" where
  "validate_disposition e disposition =
     (case disposition of
        ContinueWith next \<Rightarrow>
          (case se_phase e of
             PhaseCancellationPending _ \<Rightarrow> Inl SvCancellationAlreadyRequested
           | _ \<Rightarrow> validate_plan_transition (se_plan e) next)
      | RetireRequest \<Rightarrow> Inr ())"

fun validate_completion_lanes ::
  "serving_registry \<Rightarrow> serving_plan \<Rightarrow> completion_epoch \<Rightarrow> usize \<Rightarrow> (request_id \<times> serving_disposition) list \<Rightarrow>
   serving_error + unit" where
  "validate_completion_lanes this plan epoch lane [] = Inr ()"
| "validate_completion_lanes this plan epoch lane ((request, disposition) # rest) =
     sum_bind (ok_or (SvCompletionRosterMismatch lane) (find_entry this request)) (\<lambda>e.
       if \<not> active_at epoch (se_phase e) \<or> se_plan e \<noteq> plan then Inl (SvCompletionRosterMismatch lane)
       else sum_bind (validate_disposition e disposition) (\<lambda>_.
         validate_completion_lanes this plan epoch (lane + 1) rest))"

definition validate_completion_exact ::
  "serving_registry \<Rightarrow> completion_epoch \<Rightarrow> serving_disposition list \<Rightarrow> serving_error + unit" where
  "validate_completion_exact this epoch dispositions =
     sum_bind (reject_live_reservation this) (\<lambda>_.
     if rg_draft_catchup this \<noteq> None then Inl SvDraftCatchupWitnessRequired
     else sum_bind (ok_or SvNoBatchInFlight (rg_in_flight this)) (\<lambda>in_flight.
     if fb_epoch in_flight \<noteq> epoch \<or> epoch_value epoch \<noteq> u64_saturating_add (rg_completed_epoch this) 1
        \<or> epoch_value epoch \<noteq> rg_submitted_epoch this then Inl SvCompletionEpochMismatch
     else if length dispositions \<noteq> length (fb_requests in_flight) then Inl SvCompletionDispositionCount
     else validate_completion_lanes this (fb_plan in_flight) epoch 0 (zip (fb_requests in_flight) dispositions)))"

definition preflight_completion_exact_for ::
  "serving_registry \<Rightarrow> u64 \<Rightarrow> completion_epoch \<Rightarrow> serving_disposition list \<Rightarrow> serving_error + unit" where
  "preflight_completion_exact_for this identity epoch dispositions =
     (if identity \<noteq> rg_identity this then Inl SvRegistryIdentityMismatch
      else validate_completion_exact this epoch dispositions)"

definition validate_draft_catchup_completion ::
  "serving_registry \<Rightarrow> draft_catchup_key \<Rightarrow> u64 \<Rightarrow> serving_error + serving_disposition" where
  "validate_draft_catchup_completion this key dispatch_generation =
     sum_bind (reject_live_reservation this) (\<lambda>_.
     sum_bind (ok_or SvNoBatchInFlight (rg_in_flight this)) (\<lambda>in_flight.
     if rg_draft_catchup this \<noteq> Some (CatchupInFlight key) \<or> \<not> key_valid_for key (fb_plan in_flight)
        \<or> u64_add (dk_prior_dispatch_generation key) 1 \<noteq> Some dispatch_generation
        \<or> fb_requests in_flight \<noteq> [dk_request key] \<or> fb_epoch in_flight \<noteq> dk_epoch key
        \<or> rg_bound_plan this \<noteq> Some (fb_plan in_flight) \<or> rg_submitted_epoch this \<noteq> epoch_value (dk_epoch key)
        \<or> rg_completed_epoch this \<noteq> epoch_value (dk_prior_epoch key)
     then Inl SvDraftCatchupPhaseMismatch
     else sum_bind (ok_or SvUnknownRequest (find_entry this (dk_request key))) (\<lambda>e.
       if se_plan e \<noteq> fb_plan in_flight \<or> se_last_quiescence e \<noteq> Some (dk_prior_epoch key)
       then Inl SvDraftCatchupPhaseMismatch
       else case se_phase e of
         PhaseInFlight epoch \<Rightarrow>
           if epoch = dk_epoch key then Inr (ContinueWith (se_plan e)) else Inl SvDraftCatchupPhaseMismatch
       | PhaseCancellationPending epoch \<Rightarrow>
           if epoch = dk_epoch key then Inr RetireRequest else Inl SvDraftCatchupPhaseMismatch
       | _ \<Rightarrow> Inl SvDraftCatchupPhaseMismatch)))"

definition complete_draft_catchup_key ::
  "serving_registry \<Rightarrow> draft_catchup_key \<Rightarrow> u64 \<Rightarrow> ((serving_error + unit) \<times> serving_registry) exec" where
  "complete_draft_catchup_key this key dispatch_generation =
     (case validate_draft_catchup_completion this key dispatch_generation of
        Inl e \<Rightarrow> Some (Inl e, this)
      | Inr disposition \<Rightarrow> do {
          this' \<leftarrow> apply_validated_completion this (dk_epoch key) [disposition];
          Some (Inr (), this'\<lparr>rg_draft_catchup := Some (CatchupCompleted key dispatch_generation)\<rparr>) })"

text \<open>
  A completion is applied only after its preflight accepted it for the same epoch and dispositions, with the registry borrowed
  in between.  Its callers (\<^verbatim>\<open>m1_serving_physical_bridge.rs\<close> and the executors) run a physical settlement
  between the two, which does not touch the registry and may fail; then the completion is not applied and the registry is the one
  before the call.  The definition is the case of a settlement that succeeds; a failed one is no step of the registry.
  \<^verbatim>\<open>apply_preflighted_completion\<close> alone, outside this discipline, is not an operation of the machine.
\<close>

definition complete_exact_for ::
  "serving_registry \<Rightarrow> u64 \<Rightarrow> completion_epoch \<Rightarrow> serving_disposition list \<Rightarrow>
   ((serving_error + unit) \<times> serving_registry) exec" where
  "complete_exact_for this identity epoch dispositions =
     (case preflight_completion_exact_for this identity epoch dispositions of
        Inl e \<Rightarrow> Some (Inl e, this)
      | Inr _ \<Rightarrow> do {
          this' \<leftarrow> apply_validated_completion this epoch dispositions;
          Some (Inr (), this') })"

end
