(* ===== verification/ServingRegistry_Lemmas.thy ===== *)
theory ServingRegistry_Lemmas
  imports ServingRegistry
begin

text \<open>
  What the checks of the serving registry establish, and the updates of its entries, as equations over the list of
  entries.
\<close>

subsection \<open>Results\<close>

lemma sum_bind_Inr [simp]: "sum_bind r k = Inr b \<longleftrightarrow> (\<exists>a. r = Inr a \<and> k a = Inr b)"
  by (cases r) (auto simp: sum_bind_def)

lemma sum_bind_unit: "sum_bind r (\<lambda>_. k) = Inr b \<longleftrightarrow> (\<exists>a. r = Inr a) \<and> k = Inr b"
  by (cases r) (auto simp: sum_bind_def)

lemma ok_or_Inr [simp]: "ok_or e x = Inr a \<longleftrightarrow> x = Some a"
  by (cases x) (auto simp: ok_or_def)

lemma attempt_split:
  "P (attempt s r k) \<longleftrightarrow> (\<forall>e. r = Inl e \<longrightarrow> P (Inl e, s)) \<and> (\<forall>a. r = Inr a \<longrightarrow> P (k a))"
  by (cases r) (auto simp: attempt_def)

lemma reject_live_reservation_Inr [simp]: "reject_live_reservation r = Inr u \<longleftrightarrow> rg_reservation r = None"
  by (auto simp: reject_live_reservation_def)

lemma reject_in_flight_Inr [simp]: "reject_in_flight r = Inr u \<longleftrightarrow> rg_in_flight r = None"
  by (auto simp: reject_in_flight_def)

lemma validate_plan_transition_Inr [simp]: "validate_plan_transition p q = Inr u \<longleftrightarrow> sv_mode q \<noteq> Prefill"
  by (cases "sv_mode p") (auto simp: validate_plan_transition_def)

subsection \<open>Entries\<close>

lemma find_distinct:
  "distinct (map f xs) \<Longrightarrow> find (\<lambda>x. f x = k) xs = Some x \<longleftrightarrow> x \<in> set xs \<and> f x = k"
  by (induction xs) auto

lemma find_entry_Some:
  assumes "distinct (map se_request (rg_entries r))"
  shows "find_entry r q = Some e \<longleftrightarrow> e \<in> set (rg_entries r) \<and> se_request e = q"
  unfolding find_entry_def by (rule find_distinct [OF assms])

lemma find_entry_None: "find_entry r q = None \<longleftrightarrow> (\<forall>e \<in> set (rg_entries r). se_request e \<noteq> q)"
  by (auto simp: find_entry_def find_None_iff)

lemma entry_is_iff:
  assumes "distinct (map se_request (rg_entries r))"
  shows "entry_is r q P \<longleftrightarrow> (\<exists>e \<in> set (rg_entries r). se_request e = q \<and> P e)"
proof (cases "find_entry r q")
  case None
  then have "entry_is r q P \<longleftrightarrow> False" unfolding entry_is_def by (simp only: option.case)
  then show ?thesis using None unfolding find_entry_None by blast
next
  case (Some e)
  then have "e \<in> set (rg_entries r)" "se_request e = q" using find_entry_Some [OF assms] by auto
  moreover have "e' = e" if "e' \<in> set (rg_entries r)" "se_request e' = q" for e'
    using Some that find_entry_Some [OF assms, of q e'] by simp
  ultimately show ?thesis using Some unfolding entry_is_def by (metis option.case(2))
qed

lemma update_first_map:
  "distinct (map f xs) \<Longrightarrow> update_first (\<lambda>x. f x = k) g xs = map (\<lambda>x. if f x = k then g x else x) xs"
proof (induction xs)
  case (Cons x xs)
  have "f y \<noteq> f x" if "y \<in> set xs" for y using Cons.prems that by (metis distinct.simps(2) image_eqI list.simps(9) set_map)
  then have "map (\<lambda>y. if f y = f x then g y else y) xs = xs" by (intro map_idI) auto
  then show ?case using Cons by auto
qed simp

lemma first_position_Some:
  "first_position P xs = Some i \<Longrightarrow> i < length xs \<and> P (xs ! i)"
  by (induction xs arbitrary: i) (auto split: if_splits)

subsection \<open>Rosters\<close>

lemma M1_MAX_32: "M1_MAX_ACTIVE_SEQUENCES = 32" "INLINE_ROSTER_CAPACITY = 32"
  by (simp_all add: INLINE_ROSTER_CAPACITY_def M1_MAX_ACTIVE_SEQUENCES_def)

lemma push_roster_eq:
  "length roster \<le> 32 \<Longrightarrow> push_roster rs roster = (if length roster + length rs \<le> 32 then Some (roster @ rs) else None)"
  by (induction rs arbitrary: roster) (auto simp: inline_push_def M1_MAX_32)

lemma match_ready_roster_Inr:
  "match_ready_roster requests c rs = Inr n \<longleftrightarrow> n = c + length rs \<and> take (length rs) (drop c requests) = rs"
proof (induction rs arbitrary: c)
  case (Cons q rs)
  have "take (length (q # rs)) (drop c requests) = q # rs \<longleftrightarrow>
    idx requests c = Some q \<and> take (length rs) (drop (Suc c) requests) = rs"
    by (cases "c < length requests") (auto simp: idx_def Cons_nth_drop_Suc [symmetric])
  then show ?case using Cons.IH [of "Suc c"] by auto
qed auto

lemma length_ready_roster: "length (ready_roster n r p) \<le> n"
  by (simp add: ready_roster_def)

definition next_roster :: "usize \<Rightarrow> serving_registry \<Rightarrow> serving_plan \<Rightarrow> request_id list" where
  "next_roster C r p = ready_roster (min C (sv_sequence_capacity p)) r p"

lemma validate_ready_roster_Inr:
  assumes "rg_draft_catchup r = None"
  shows "validate_ready_roster C r b = Inr u \<longleftrightarrow> bp_requests b = next_roster C r (bp_plan b) \<and> bp_requests b \<noteq> []"
  using assms by (auto simp: validate_ready_roster_def match_ready_roster_Inr next_roster_def)

lemma validate_ready_roster_catchup:
  assumes "rg_draft_catchup r = Some ph" "distinct (map se_request (rg_entries r))"
  shows "validate_ready_roster C r b = Inr u \<longleftrightarrow> bp_requests b = [dk_request (catchup_key ph)]
    \<and> (\<exists>e \<in> set (rg_entries r). se_request e = dk_request (catchup_key ph) \<and> ready e \<and> se_plan e = bp_plan b)"
  using assms by (auto simp: validate_ready_roster_def entry_is_iff Let_def)

lemma validate_draft_catchup_ready_key_Inr [simp]:
  "validate_draft_catchup_ready_key r p k = Inr u \<longleftrightarrow> key_valid_for k p \<and> rg_bound_plan r = Some p
     \<and> rg_submitted_epoch r = epoch_value (dk_prior_epoch k) \<and> rg_completed_epoch r = epoch_value (dk_prior_epoch k)
     \<and> entry_is r (dk_request k) (\<lambda>e. ready e \<and> se_plan e = p \<and> se_last_quiescence e = Some (dk_prior_epoch k))"
  by (auto simp: validate_draft_catchup_ready_key_def)

lemma validate_draft_catchup_start_Inr [simp]:
  "validate_draft_catchup_start r b k = Inr u \<longleftrightarrow> rg_draft_catchup r = Some (CatchupPending k)
     \<and> bp_action b = QuiescentDraftCatchup (bp_plan b) \<and> bp_requests b = [dk_request k] \<and> bp_epoch b = dk_epoch k
     \<and> validate_draft_catchup_ready_key r (bp_plan b) k = Inr ()"
  by (auto simp: validate_draft_catchup_start_def)

lemma validate_next_batch_Inr:
  "validate_next_batch C r b = Inr u \<longleftrightarrow> next_ready_plan r = Some (bp_plan b) \<and> rg_submitted_epoch r < U64_MAX
     \<and> bp_epoch b = \<lparr>epoch_value = Suc (rg_submitted_epoch r)\<rparr> \<and> classify_next_queue_action r (bp_plan b) = Inr (bp_action b)
     \<and> validate_ready_roster C r b = Inr ()"
  by (auto simp: validate_next_batch_def split: if_splits)

subsection \<open>Windows\<close>

lemma validate_completed_window_predecessor_Inr [simp]:
  "validate_completed_window_predecessor e prior n i = Inr u \<longleftrightarrow> se_plan e = prior
     \<and> (\<exists>ep. se_phase e = PhaseRetired (QuiescentAt ep) \<and> 0 < epoch_value ep \<and> epoch_value ep \<le> n \<and> se_last_quiescence e = Some ep)"
  by (auto simp: validate_completed_window_predecessor_def split: serving_phase.split serving_quiescence.split)

definition completed_in :: "serving_plan \<Rightarrow> u64 \<Rightarrow> serving_entry \<Rightarrow> bool" where
  "completed_in prior n e \<longleftrightarrow> validate_completed_window_predecessor e prior n 0 = Inr ()"

lemma validate_predecessors_Inr [simp]:
  "validate_predecessors prior n i es = Inr u \<longleftrightarrow> (\<forall>e \<in> set es. completed_in prior n e)"
  by (induction es arbitrary: i) (auto simp: completed_in_def)

definition succeeds :: "request_id \<Rightarrow> serving_entry \<Rightarrow> bool" where
  "succeeds q e \<longleftrightarrow> slot q = slot (se_request e) \<and> generation q = Suc (generation (se_request e)) \<and> generation q \<le> U32_MAX"

lemma validate_successor_Inr [simp]: "validate_successor i q e = Inr u \<longleftrightarrow> succeeds q e"
  by (auto simp: validate_successor_def succeeds_def)

lemma validate_successors_Inr [simp]:
  "validate_successors i qs = Inr u \<longleftrightarrow> (\<forall>(q, e) \<in> set qs. succeeds q e)"
  by (induction i qs rule: validate_successors.induct) auto

lemma validate_window_replacement_Inr:
  "validate_window_replacement C r p qs = Inr (prior, n, following) \<longleftrightarrow>
     rg_reservation r = None \<and> rg_in_flight r = None \<and> rg_draft_catchup r = None \<and> rg_bound_plan r = Some prior
     \<and> rg_entries r \<noteq> [] \<and> (\<forall>e \<in> set (rg_entries r). completed_in prior (rg_completed_epoch r) e)
     \<and> sv_mode p = Prefill \<and> length qs \<le> C \<and> length qs \<le> sv_sequence_capacity p \<and> list_all2 succeeds qs (rg_entries r)
     \<and> rg_submitted_epoch r = rg_completed_epoch r \<and> n = Suc (rg_submitted_epoch r) \<and> n \<le> U64_MAX
     \<and> following = Suc (rg_next_reservation_id r) \<and> following \<le> U64_MAX"
  by (auto simp: validate_window_replacement_def list_all2_iff split: if_splits)

lemma validate_window_lanes_spec:
  assumes "length predecessors = lane + length qs" "length es = length qs"
  shows "\<exists>v. validate_window_lanes p predecessors lane (zip es qs) = Some v
    \<and> (v = Inr () \<longleftrightarrow> es = map (fresh_entry p) qs \<and> list_all2 succeeds qs (drop lane predecessors))"
  using assms
proof (induction qs arbitrary: es lane)
  case (Cons q qs)
  obtain e es' where es: "es = e # es'" using Cons.prems(2) by (cases es) auto
  have d: "drop lane predecessors = predecessors ! lane # drop (Suc lane) predecessors" "lane < length predecessors"
    using Cons.prems(1) by (simp_all add: Cons_nth_drop_Suc)
  have g: "succeeds q x \<Longrightarrow> generation q \<noteq> 0" for x by (simp add: succeeds_def)
  have f: "e = fresh_entry p q \<longleftrightarrow> se_request e = q \<and> se_plan e = p \<and> ready e \<and> se_last_quiescence e = None"
    by (cases e) (auto simp: fresh_entry_def)
  obtain v where v: "validate_window_lanes p predecessors (Suc lane) (zip es' qs) = Some v"
    "v = Inr () \<longleftrightarrow> es' = map (fresh_entry p) qs \<and> list_all2 succeeds qs (drop (Suc lane) predecessors)"
    using Cons.IH [of "Suc lane" es'] Cons.prems es by auto
  have step: "validate_window_lanes p predecessors lane (zip es (q # qs)) =
      (if e \<noteq> fresh_entry p q then Some (Inl (SvCompletionRosterMismatch lane))
       else if generation q = 0 then Some (Inl SvInvalidRequest)
       else case validate_successor lane q (predecessors ! lane) of Inl err \<Rightarrow> Some (Inl err) | Inr _ \<Rightarrow> Some v)"
    using v(1) d(2) es f by (simp add: idx_ok del: validate_successor_Inr split: sum.split)
  obtain err where err: "validate_successor lane q (predecessors ! lane) = (if succeeds q (predecessors ! lane) then Inr () else Inl err)"
    using validate_successor_Inr [of lane q "predecessors ! lane"] by (cases "validate_successor lane q (predecessors ! lane)") simp_all
  show ?case using v(2) d(1) es g [of "predecessors ! lane"] unfolding step err by auto
qed auto

lemma succeeds_distinct:
  assumes "list_all2 succeeds qs es"
  shows "distinct qs \<longleftrightarrow> distinct (map se_request es)"
proof -
  have eq: "map (\<lambda>q. (slot q, generation q)) qs = map (\<lambda>e. (slot (se_request e), Suc (generation (se_request e)))) es"
    using assms by (induction rule: list_all2_induct) (auto simp: succeeds_def)
  have "distinct qs \<longleftrightarrow> distinct (map (\<lambda>q. (slot q, generation q)) qs)"
    by (subst distinct_map) (auto simp: inj_on_def)
  also have "\<dots> \<longleftrightarrow> distinct (map (\<lambda>q. (slot q, Suc (generation q))) (map se_request es))"
    using eq by (simp add: comp_def)
  also have "\<dots> \<longleftrightarrow> distinct (map se_request es)"
    by (subst distinct_map) (auto simp: inj_on_def)
  finally show ?thesis .
qed

end
