(* ===== verification/ServingRegistry_Invariant.thy ===== *)
theory ServingRegistry_Invariant
  imports ServingRegistry_Lemmas
begin

text \<open>
  The invariant of the serving registry and its preservation by every operation: at most one batch is in flight, it
  holds exactly the entries that are in flight or awaiting their cancellation, in entry order and under one plan, and
  the epochs, the reservation and the draft catch-up agree with it.
\<close>

subsection \<open>Invariant\<close>

fun phase_epoch :: "serving_phase \<Rightarrow> completion_epoch option" where
  "phase_epoch (PhaseInFlight epoch) = Some epoch"
| "phase_epoch (PhaseCancellationPending epoch) = Some epoch"
| "phase_epoch _ = None"

lemma active_at_iff [simp]: "active_at epoch ph \<longleftrightarrow> phase_epoch ph = Some epoch"
  by (cases ph) auto

abbreviation active :: "serving_entry \<Rightarrow> bool" where
  "active e \<equiv> phase_epoch (se_phase e) \<noteq> None"

definition view :: "serving_entry \<Rightarrow> request_id \<times> serving_plan \<times> completion_epoch option \<times> completion_epoch option" where
  "view e = (se_request e, se_plan e, phase_epoch (se_phase e), se_last_quiescence e)"

definition active_view :: "serving_entry list \<Rightarrow> (request_id \<times> serving_plan \<times> completion_epoch option \<times> completion_epoch option) list" where
  "active_view es = map view (filter active es)"

definition entry_ok :: "u64 \<Rightarrow> serving_entry \<Rightarrow> bool" where
  "entry_ok n e \<longleftrightarrow> (\<forall>q. se_last_quiescence e = Some q \<longrightarrow> epoch_value q \<le> n)
     \<and> (\<forall>q. se_phase e = PhaseRetired q \<longrightarrow>
          se_last_quiescence e = (case q of QuiescentNever \<Rightarrow> None | QuiescentAt epoch \<Rightarrow> Some epoch))
     \<and> (sv_mode (se_plan e) \<noteq> Prefill \<longrightarrow> se_last_quiescence e \<noteq> None)"

definition flight_ok :: "usize \<Rightarrow> serving_registry \<Rightarrow> in_flight_batch \<Rightarrow> bool" where
  "flight_ok C r b \<longleftrightarrow> rg_reservation r = None \<and> rg_submitted_epoch r = Suc (rg_completed_epoch r)
     \<and> rg_submitted_epoch r \<le> U64_MAX \<and> epoch_value (fb_epoch b) = rg_submitted_epoch r \<and> rg_bound_plan r = Some (fb_plan b)
     \<and> fb_requests b \<noteq> [] \<and> length (fb_requests b) \<le> min C (sv_sequence_capacity (fb_plan b))
     \<and> fb_requests b = map fst (active_view (rg_entries r))
     \<and> (\<forall>(q, p, ep, l) \<in> set (active_view (rg_entries r)). p = fb_plan b \<and> ep = Some (fb_epoch b))"

definition quiet :: "serving_registry \<Rightarrow> bool" where
  "quiet r \<longleftrightarrow> rg_submitted_epoch r = rg_completed_epoch r \<and> active_view (rg_entries r) = []"

definition catchup_ok :: "serving_registry \<Rightarrow> draft_catchup_phase \<Rightarrow> bool" where
  "catchup_ok r ph \<longleftrightarrow> (case ph of
       CatchupPending k \<Rightarrow> rg_in_flight r = None \<and> (\<exists>b. rg_bound_plan r = Some b \<and> key_valid_for k b)
         \<and> rg_submitted_epoch r = epoch_value (dk_prior_epoch k)
         \<and> (\<forall>e \<in> set (rg_entries r). se_request e = dk_request k \<and> ready e \<and> sv_mode (se_plan e) = Speculative \<longrightarrow>
              se_last_quiescence e = Some (dk_prior_epoch k))
     | CatchupInFlight k \<Rightarrow> (\<exists>b. rg_in_flight r = Some b \<and> key_valid_for k (fb_plan b) \<and> fb_requests b = [dk_request k]
         \<and> fb_epoch b = dk_epoch k) \<and> rg_completed_epoch r = epoch_value (dk_prior_epoch k)
         \<and> (\<forall>(q, p, ep, l) \<in> set (active_view (rg_entries r)). l = Some (dk_prior_epoch k))
     | CatchupCompleted k g \<Rightarrow> rg_in_flight r = None \<and> (\<exists>b. rg_bound_plan r = Some b \<and> key_valid_for k b))"

definition reservation_ok :: "serving_registry \<Rightarrow> reserved_batch \<Rightarrow> bool" where
  "reservation_ok r lv \<longleftrightarrow> epoch_value (lv_epoch lv) = Suc (rg_submitted_epoch r) \<and> Suc (rg_submitted_epoch r) \<le> U64_MAX
     \<and> lv_id lv < rg_next_reservation_id r"

definition serving_inv :: "usize \<Rightarrow> serving_registry \<Rightarrow> bool" where
  "serving_inv C r \<longleftrightarrow> 0 < C \<and> C \<le> 32 \<and> length (rg_entries r) \<le> C \<and> distinct (map se_request (rg_entries r))
     \<and> (\<forall>e \<in> set (rg_entries r). entry_ok (rg_completed_epoch r) e)
     \<and> (case rg_in_flight r of None \<Rightarrow> quiet r | Some b \<Rightarrow> flight_ok C r b)
     \<and> (\<forall>lv. rg_reservation r = Some lv \<longrightarrow> reservation_ok r lv)
     \<and> (\<forall>ph. rg_draft_catchup r = Some ph \<longrightarrow> catchup_ok r ph)"

lemma serving_invD:
  assumes "serving_inv C r"
  shows "0 < C" "C \<le> 32" "length (rg_entries r) \<le> C" "distinct (map se_request (rg_entries r))"
    "\<And>e. e \<in> set (rg_entries r) \<Longrightarrow> entry_ok (rg_completed_epoch r) e"
    "rg_in_flight r = None \<Longrightarrow> quiet r" "\<And>b. rg_in_flight r = Some b \<Longrightarrow> flight_ok C r b"
    "\<And>lv. rg_reservation r = Some lv \<Longrightarrow> reservation_ok r lv \<and> rg_in_flight r = None"
    "\<And>ph. rg_draft_catchup r = Some ph \<Longrightarrow> catchup_ok r ph"
  using assms by (auto simp: serving_inv_def flight_ok_def split: option.splits)

lemma empty_registry_inv: "0 < C \<Longrightarrow> C \<le> 32 \<Longrightarrow> serving_inv C (empty_registry n)"
  by (simp add: serving_inv_def empty_registry_def quiet_def active_view_def)

lemma active_view_Cons: "active_view (e # es) = (if active e then [view e] else []) @ active_view es"
  by (simp add: active_view_def)

lemma active_view_append [simp]: "active_view (es @ es') = active_view es @ active_view es'"
  by (simp add: active_view_def)

lemma active_view_Nil [simp]: "active_view [] = []"
  by (simp add: active_view_def)

lemma active_view_cong:
  assumes "\<And>e. e \<in> set es \<Longrightarrow> view (f e) = view e"
  shows "active_view (map f es) = active_view es"
proof -
  have "active (f e) \<longleftrightarrow> active e" if "e \<in> set es" for e using assms [OF that] by (simp add: view_def)
  then show ?thesis using assms by (induction es) (auto simp: active_view_Cons)
qed

lemma active_view_empty: "active_view es = [] \<longleftrightarrow> (\<forall>e \<in> set es. \<not> active e)"
  by (auto simp: active_view_def filter_empty_conv)

lemma in_active_view: "x \<in> set (active_view es) \<longleftrightarrow> (\<exists>e \<in> set es. active e \<and> x = view e)"
  by (auto simp: active_view_def)

text \<open>An operation on entries that leaves the active ones alone.\<close>

lemma entries_inv:
  assumes inv: "serving_inv C r"
    and es: "length es \<le> C" "distinct (map se_request es)" "\<And>e. e \<in> set es \<Longrightarrow> entry_ok (rg_completed_epoch r) e"
    and view: "active_view es = active_view (rg_entries r)"
    and spec: "\<And>e. rg_draft_catchup r \<noteq> None \<Longrightarrow> e \<in> set es \<Longrightarrow> ready e \<Longrightarrow> sv_mode (se_plan e) = Speculative \<Longrightarrow> e \<in> set (rg_entries r)"
  shows "serving_inv C (r\<lparr>rg_entries := es\<rparr>)"
proof -
  let ?r = "r\<lparr>rg_entries := es\<rparr>"
  have "case rg_in_flight ?r of None \<Rightarrow> quiet ?r | Some b \<Rightarrow> flight_ok C ?r b"
    using serving_invD(6,7) [OF inv] view by (cases "rg_in_flight r") (auto simp: quiet_def flight_ok_def)
  moreover have "catchup_ok ?r ph" if "rg_draft_catchup r = Some ph" for ph
    using serving_invD(9) [OF inv that] view spec that by (cases ph) (auto simp: catchup_ok_def)
  moreover have "reservation_ok ?r lv" if "rg_reservation r = Some lv" for lv
    using serving_invD(8) [OF inv that] by (simp add: reservation_ok_def)
  ultimately show ?thesis using serving_invD(1,2) [OF inv] es by (simp add: serving_inv_def)
qed

text \<open>An outcome of an operation: an error leaves the registry as it was, a success keeps the invariant.\<close>

definition outcome_ok :: "usize \<Rightarrow> serving_registry \<Rightarrow> ('e + 'a) \<times> serving_registry \<Rightarrow> bool" where
  "outcome_ok C r x \<longleftrightarrow> (case fst x of Inl _ \<Rightarrow> snd x = r | Inr _ \<Rightarrow> serving_inv C (snd x))"

lemma outcome_ok_simps [simp]:
  "outcome_ok C r (Inl e, r') \<longleftrightarrow> r' = r" "outcome_ok C r (Inr a, r') \<longleftrightarrow> serving_inv C r'"
  by (simp_all add: outcome_ok_def)

subsection \<open>Requests\<close>

lemma fresh_entry_ok [simp]: "entry_ok n (fresh_entry p q) \<longleftrightarrow> sv_mode p = Prefill"
  by (auto simp: entry_ok_def fresh_entry_def)

lemma fresh_entry_view [simp]: "active_view (map (fresh_entry p) qs) = []" "active_view [fresh_entry p q] = []"
  by (auto simp: active_view_empty fresh_entry_def)

lemma fresh_entry_simps [simp]:
  "se_request (fresh_entry p q) = q" "se_plan (fresh_entry p q) = p" "ready (fresh_entry p q)"
  "se_last_quiescence (fresh_entry p q) = None"
  by (simp_all add: fresh_entry_def)

lemma admit_request_ok:
  assumes inv: "serving_inv C r"
  shows "outcome_ok C r (admit_request C r q p)"
proof -
  have "serving_inv C (r\<lparr>rg_entries := rg_entries r @ [fresh_entry p q]\<rparr>)"
    if "sv_mode p = Prefill" "length (rg_entries r) \<noteq> C" "\<forall>e \<in> set (rg_entries r). se_request e \<noteq> q"
    using serving_invD(3-5) [OF inv] that by (intro entries_inv [OF inv]) auto
  then show ?thesis unfolding admit_request_def
    by (auto simp: attempt_split [where P = "outcome_ok C r"] list_ex_iff)
qed

lemma transition_request_ok:
  assumes inv: "serving_inv C r"
  shows "outcome_ok C r (transition_request r q p)"
proof -
  note D = serving_invD [OF inv]
  have "serving_inv C (update_entry q (\<lambda>e. e\<lparr>se_plan := p\<rparr>) r)"
    if e: "rg_draft_catchup r = None" "find_entry r q = Some e" "ready e" "se_last_quiescence e = Some l" "sv_mode p \<noteq> Prefill" for e l
  proof -
    have sole: "e' = e" if "e' \<in> set (rg_entries r)" "se_request e' = q" for e'
      using e(2) that find_entry_Some [OF D(4), of q e'] by simp
    show ?thesis unfolding update_entry_def update_first_map [OF D(4)]
    proof (rule entries_inv [OF inv])
      show "active_view (map (\<lambda>x. if se_request x = q then x\<lparr>se_plan := p\<rparr> else x) (rg_entries r)) = active_view (rg_entries r)"
        using sole e(3) by (auto simp: active_view_def filter_map comp_def intro!: arg_cong [of _ _ "map view"])
    qed (use D e sole in \<open>auto simp: entry_ok_def comp_def if_distrib [of se_request] cong: if_cong\<close>)
  qed
  then show ?thesis unfolding transition_request_def
    by (auto simp: attempt_split [where P = "outcome_ok C r"])
qed

lemma cancel_request_ok:
  assumes inv: "serving_inv C r"
  shows "outcome_ok C r (cancel_request r q)"
proof -
  note D = serving_invD [OF inv]
  have "serving_inv C (update_entry q (\<lambda>e. e\<lparr>se_phase := ph\<rparr>) r)"
    if e: "find_entry r q = Some e" "cancelled_phase (se_last_quiescence e) (se_phase e) = Inr ph" for e ph
  proof -
    have sole: "e' = e" if "e' \<in> set (rg_entries r)" "se_request e' = q" for e'
      using e(1) that find_entry_Some [OF D(4), of q e'] by simp
    have "view (e\<lparr>se_phase := ph\<rparr>) = view e" "\<not> ready (e\<lparr>se_phase := ph\<rparr>)"
      using e(2) by (cases "se_phase e"; auto simp: view_def)+
    moreover have "entry_ok n (e\<lparr>se_phase := ph\<rparr>)" if "entry_ok n e" for n
      using that e(2) by (cases "se_phase e"; cases "se_last_quiescence e") (auto simp: entry_ok_def)
    ultimately show ?thesis unfolding update_entry_def update_first_map [OF D(4)] using D sole
      by (intro entries_inv [OF inv] active_view_cong) (auto simp: comp_def if_distrib [of se_request] cong: if_cong)
  qed
  then show ?thesis unfolding cancel_request_def
    by (auto simp: attempt_split [where P = "outcome_ok C r"])
qed

lemma remove_retired_ok:
  assumes inv: "serving_inv C r"
  shows "\<exists>x. remove_retired r q = Some x \<and> outcome_ok C r x"
proof (cases "first_position (\<lambda>e. se_request e = q) (rg_entries r)")
  case (Some i)
  let ?es = "take i (rg_entries r) @ drop (Suc i) (rg_entries r)"
  have i: "i < length (rg_entries r)" using first_position_Some [OF Some] by blast
  have split: "rg_entries r = take i (rg_entries r) @ rg_entries r ! i # drop (Suc i) (rg_entries r)"
    using i by (simp add: id_take_nth_drop)
  have sub: "set ?es \<subseteq> set (rg_entries r)" by (auto dest: in_set_takeD in_set_dropD)
  have "distinct (map se_request (take i (rg_entries r) @ rg_entries r ! i # drop (Suc i) (rg_entries r)))"
    unfolding split [symmetric] by (rule serving_invD(4) [OF inv])
  then have dist: "distinct (map se_request ?es)" by auto
  have "serving_inv C (r\<lparr>rg_entries := ?es\<rparr>)" if ret: "se_phase (rg_entries r ! i) = PhaseRetired x" for x
  proof (rule entries_inv [OF inv])
    have "active_view (rg_entries r) = active_view (take i (rg_entries r)) @ active_view (rg_entries r ! i # drop (Suc i) (rg_entries r))"
      by (subst split) (rule active_view_append)
    then show "active_view ?es = active_view (rg_entries r)" using ret by (simp add: active_view_Cons)
  qed (use serving_invD(3,5) [OF inv] sub dist i in auto)
  then show ?thesis using Some i
    by (cases "se_phase (rg_entries r ! i)") (auto simp: remove_retired_def idx_ok split: sum.split)
qed (auto simp: remove_retired_def split: sum.split)

lemma record_quiescent_queue_retirement_ok:
  assumes inv: "serving_inv C r"
  shows "outcome_ok C r (record_quiescent_queue_retirement r p)"
  using inv unfolding record_quiescent_queue_retirement_def
  by (auto simp: attempt_split [where P = "outcome_ok C r"] serving_inv_def quiet_def)

lemma install_prefill_reconciliation_ok:
  assumes inv: "serving_inv C r"
  shows "outcome_ok C r (install_prefill_reconciliation r x)"
  using inv by (auto simp: install_prefill_reconciliation_def is_fresh_registry_def serving_inv_def quiet_def active_view_def entry_ok_def)

end
