(* ===== verification/ServingRegistry_Batches.thy ===== *)
theory ServingRegistry_Batches
  imports ServingRegistry_Invariant
begin

text \<open>
  Reservations, publications, window replacements and completions keep the invariant of the serving registry, whatever
  reservation a caller presents.
\<close>

subsection \<open>Reservations\<close>

lemma reserve_validated_batch_ok:
  assumes "serving_inv C r" "rg_reservation r = None" "rg_in_flight r = None" "validate_next_batch C r b = Inr u"
  shows "outcome_ok C r (reserve_validated_batch r b k)"
proof -
  have "catchup_ok (r\<lparr>rg_reservation := x, rg_next_reservation_id := n\<rparr>) ph \<longleftrightarrow> catchup_ok r ph" for x n ph
    by (cases ph) (simp_all add: catchup_ok_def)
  then show ?thesis using assms unfolding reserve_validated_batch_def
    by (auto simp: attempt_split [where P = "outcome_ok C r"] validate_next_batch_Inr serving_inv_def quiet_def reservation_ok_def Let_def)
qed

lemma reserve_batch_ok: "serving_inv C r \<Longrightarrow> outcome_ok C r (reserve_batch C r b)"
  unfolding reserve_batch_def using reserve_validated_batch_ok [of C r b]
  by (auto simp: attempt_split [where P = "outcome_ok C r"])

lemma reserve_draft_catchup_key_ok: "serving_inv C r \<Longrightarrow> outcome_ok C r (reserve_draft_catchup_key C r b k)"
  unfolding reserve_draft_catchup_key_def using reserve_validated_batch_ok [of C r b]
  by (auto simp: attempt_split [where P = "outcome_ok C r"])

lemma reserve_draft_catchup_restore_key_ok:
  "serving_inv C r \<Longrightarrow> outcome_ok C r (reserve_draft_catchup_restore_key C r b k g)"
  unfolding reserve_draft_catchup_restore_key_def using reserve_validated_batch_ok [of C r b]
  by (auto simp: attempt_split [where P = "outcome_ok C r"])

lemma register_draft_catchup_key_ok:
  assumes inv: "serving_inv C r"
  shows "outcome_ok C r (register_draft_catchup_key r k)"
proof -
  note D = serving_invD [OF inv]
  have "serving_inv C (r\<lparr>rg_draft_catchup := Some (CatchupPending k)\<rparr>)"
    if k: "rg_reservation r = None" "rg_in_flight r = None" "rg_bound_plan r = Some p"
      "validate_draft_catchup_ready_key r p k = Inr ()" for p
  proof -
    obtain e where e: "e \<in> set (rg_entries r)" "se_request e = dk_request k" "se_last_quiescence e = Some (dk_prior_epoch k)"
      using k(4) by (auto simp: entry_is_iff [OF D(4)])
    have "e' = e" if "e' \<in> set (rg_entries r)" "se_request e' = dk_request k" for e'
      using find_entry_Some [OF D(4)] e(1,2) that by (metis option.inject)
    then have "catchup_ok (r\<lparr>rg_draft_catchup := Some (CatchupPending k)\<rparr>) (CatchupPending k)"
      using k e(3) by (auto simp: catchup_ok_def)
    then show ?thesis using inv k(1,2) by (auto simp: serving_inv_def quiet_def)
  qed
  then show ?thesis unfolding register_draft_catchup_key_def
    by (auto simp: attempt_split [where P = "outcome_ok C r"])
qed

text \<open>What an accepted reservation has in common with the registry.\<close>

definition accepted :: "usize \<Rightarrow> serving_registry \<Rightarrow> publication_reservation \<Rightarrow> reserved_batch \<Rightarrow> bool" where
  "accepted C r rv lv \<longleftrightarrow> rv_registry_identity rv = rg_identity r \<and> rg_in_flight r = None \<and> rg_reservation r = Some lv
     \<and> lv_id lv = rv_id rv \<and> lv_plan lv = bp_plan (rv_batch rv) \<and> lv_epoch lv = bp_epoch (rv_batch rv)
     \<and> lv_action lv = bp_action (rv_batch rv)
     \<and> epoch_value (bp_epoch (rv_batch rv)) = u64_saturating_add (rg_submitted_epoch r) 1
     \<and> validate_ready_roster C r (rv_batch rv) = Inr ()
     \<and> (case bp_action (rv_batch rv) of
          QuiescentDraftCatchup p \<Rightarrow> \<exists>k. lv_draft_catchup lv = Some k \<and> p = bp_plan (rv_batch rv)
            \<and> validate_draft_catchup_start r (rv_batch rv) k = Inr ()
        | QuiescentDraftCatchupRestore p \<Rightarrow> \<exists>k g. rg_draft_catchup r = Some (CatchupCompleted k g)
            \<and> lv_draft_catchup lv = None \<and> p = bp_plan (rv_batch rv) \<and> bp_requests (rv_batch rv) = [dk_request k]
            \<and> validate_next_batch C r (rv_batch rv) = Inr ()
        | _ \<Rightarrow> lv_draft_catchup lv = None \<and> rg_draft_catchup r = None)"

lemma validate_reservation_Inr: "validate_reservation C r rv = Inr u \<longleftrightarrow> (\<exists>lv. accepted C r rv lv)"
  unfolding validate_reservation_def accepted_def Let_def
  by (cases "rg_reservation r"; cases "bp_action (rv_batch rv)")
    (auto split: option.splits draft_catchup_phase.splits if_splits)

lemma abort_publication_ok:
  assumes "serving_inv C r"
  shows "outcome_ok C r (abort_publication C r rv)"
proof -
  have "catchup_ok (r\<lparr>rg_reservation := x\<rparr>) ph \<longleftrightarrow> catchup_ok r ph" for x ph by (cases ph) (simp_all add: catchup_ok_def)
  then show ?thesis using assms
    by (cases "validate_reservation C r rv") (auto simp: abort_publication_def serving_inv_def quiet_def flight_ok_def split: option.splits)
qed

subsection \<open>Publication\<close>

lemma filter_prefix:
  "distinct (map f xs) \<Longrightarrow> filter (\<lambda>x. f x \<in> f ` set (take n (filter P xs))) xs = take n (filter P xs)"
proof (induction xs arbitrary: n)
  case (Cons x xs)
  have fresh: "f y \<noteq> f x" if "y \<in> set xs" for y using Cons.prems that by (metis distinct.simps(2) image_eqI list.simps(9) set_map)
  have sub: "f ` set (take n (filter P xs)) \<subseteq> f ` set xs" for n by (auto dest: in_set_takeD)
  show ?case
  proof (cases "P x")
    case False
    then show ?thesis using Cons fresh sub [of n] by auto
  next
    case True
    show ?thesis
    proof (cases n)
      case (Suc m)
      have "filter (\<lambda>y. f y = f x \<or> f y \<in> f ` set (take m (filter P xs))) xs = filter (\<lambda>y. f y \<in> f ` set (take m (filter P xs))) xs"
        using fresh by (intro filter_cong) auto
      then show ?thesis using Cons True Suc by simp
    qed simp
  qed
qed simp

lemma filter_sole: "distinct (map f xs) \<Longrightarrow> x \<in> set xs \<Longrightarrow> filter (\<lambda>y. f y = f x) xs = [x]"
  by (induction xs) (auto simp: filter_empty_conv image_iff)

text \<open>The entries a validated roster names are ready, under the plan of the batch, and in the order of the roster.\<close>

definition roster_of :: "batch_plan \<Rightarrow> serving_entry list \<Rightarrow> serving_entry list" where
  "roster_of b es = filter (\<lambda>e. se_request e \<in> set (bp_requests b)) es"

lemma validated_roster:
  assumes inv: "serving_inv C r" and v: "validate_ready_roster C r b = Inr ()"
    and cap: "rg_draft_catchup r \<noteq> None \<Longrightarrow> 1 \<le> sv_sequence_capacity (bp_plan b)"
  shows "bp_requests b = map se_request (roster_of b (rg_entries r))" "bp_requests b \<noteq> []"
    "length (bp_requests b) \<le> min C (sv_sequence_capacity (bp_plan b))"
    "\<And>e. e \<in> set (roster_of b (rg_entries r)) \<Longrightarrow> ready e \<and> se_plan e = bp_plan b"
proof -
  note D = serving_invD [OF inv]
  let ?es = "roster_of b (rg_entries r)"
  have "bp_requests b = map se_request ?es \<and> bp_requests b \<noteq> [] \<and> length (bp_requests b) \<le> min C (sv_sequence_capacity (bp_plan b))
      \<and> (\<forall>e \<in> set ?es. ready e \<and> se_plan e = bp_plan b)"
  proof (cases "rg_draft_catchup r")
    case None
    let ?n = "min C (sv_sequence_capacity (bp_plan b))"
    let ?F = "take ?n (filter (\<lambda>e. ready e \<and> se_plan e = bp_plan b) (rg_entries r))"
    have b: "bp_requests b = map se_request ?F" "bp_requests b \<noteq> []"
      using v validate_ready_roster_Inr [OF None] by (auto simp: next_roster_def ready_roster_def)
    have "?es = ?F" unfolding roster_of_def b(1) set_map by (rule filter_prefix [OF D(4)])
    then show ?thesis using b by (auto dest: in_set_takeD)
  next
    case (Some ph)
    then obtain e where e: "e \<in> set (rg_entries r)" "se_request e = dk_request (catchup_key ph)" "ready e" "se_plan e = bp_plan b"
      and b: "bp_requests b = [se_request e]"
      using v validate_ready_roster_catchup [OF Some D(4)] by auto
    have "filter (\<lambda>x. se_request x = se_request e) (rg_entries r) = [e]" by (rule filter_sole [OF D(4) e(1)])
    then have "?es = [e]" using b by (simp add: roster_of_def)
    then show ?thesis using b e D(1) cap Some by auto
  qed
  then show "bp_requests b = map se_request ?es" "bp_requests b \<noteq> []"
    "length (bp_requests b) \<le> min C (sv_sequence_capacity (bp_plan b))"
    "\<And>e. e \<in> set ?es \<Longrightarrow> ready e \<and> se_plan e = bp_plan b" by blast+
qed


definition launched :: "batch_plan \<Rightarrow> serving_entry \<Rightarrow> serving_entry" where
  "launched b e = (if se_request e \<in> set (bp_requests b) then e\<lparr>se_phase := PhaseInFlight (bp_epoch b)\<rparr> else e)"

lemma launched_simps [simp]:
  "se_request (launched b e) = se_request e" "se_plan (launched b e) = se_plan e"
  "se_last_quiescence (launched b e) = se_last_quiescence e"
  by (simp_all add: launched_def)

lemma active_view_launched:
  assumes "active_view es = []"
  shows "active_view (map (launched b) es) =
    map (\<lambda>e. (se_request e, se_plan e, Some (bp_epoch b), se_last_quiescence e)) (roster_of b es)"
  using assms by (induction es) (auto simp: active_view_Cons roster_of_def launched_def view_def split: if_splits)

lemma launched_ok: "entry_ok n e \<Longrightarrow> entry_ok n (launched b e)"
  by (auto simp: entry_ok_def launched_def)

text \<open>A validated batch goes in flight.\<close>

lemma launch_inv:
  assumes inv: "serving_inv C r" and quiet: "rg_in_flight r = None" and res: "rg_reservation r = Some lv" "lv_epoch lv = bp_epoch b"
    and roster: "bp_requests b = map se_request (roster_of b (rg_entries r))" "bp_requests b \<noteq> []"
      "length (bp_requests b) \<le> min C (sv_sequence_capacity (bp_plan b))"
      "\<And>e. e \<in> set (roster_of b (rg_entries r)) \<Longrightarrow> se_plan e = bp_plan b"
    and d: "d = None \<or> (\<exists>k. d = Some (CatchupInFlight k) \<and> key_valid_for k (bp_plan b) \<and> bp_requests b = [dk_request k]
      \<and> bp_epoch b = dk_epoch k \<and> rg_completed_epoch r = epoch_value (dk_prior_epoch k)
      \<and> (\<forall>e \<in> set (roster_of b (rg_entries r)). se_last_quiescence e = Some (dk_prior_epoch k)))"
  shows "serving_inv C (set_in_flight b (r\<lparr>rg_draft_catchup := d, rg_entries := map (launched b) (rg_entries r)\<rparr>))"
proof -
  note D = serving_invD [OF inv]
  have q: "rg_submitted_epoch r = rg_completed_epoch r" "active_view (rg_entries r) = []"
    using D(6) [OF quiet] by (simp_all add: quiet_def)
  have e: "epoch_value (bp_epoch b) = Suc (rg_completed_epoch r)" "Suc (rg_completed_epoch r) \<le> U64_MAX"
    using D(8) [OF res(1)] res(2) q(1) by (simp_all add: reservation_ok_def)
  have v: "active_view (map (launched b) (rg_entries r)) =
      map (\<lambda>e. (se_request e, se_plan e, Some (bp_epoch b), se_last_quiescence e)) (roster_of b (rg_entries r))"
    by (rule active_view_launched [OF q(2)])
  let ?r = "set_in_flight b (r\<lparr>rg_draft_catchup := d, rg_entries := map (launched b) (rg_entries r)\<rparr>)"
  have "flight_ok C ?r \<lparr>fb_plan = bp_plan b, fb_requests = bp_requests b, fb_epoch = bp_epoch b\<rparr>"
    using roster e v by (auto simp: flight_ok_def set_in_flight_def comp_def)
  moreover have "catchup_ok ?r ph" if "d = Some ph" for ph
    using d that v by (auto simp: catchup_ok_def set_in_flight_def)
  ultimately show ?thesis using D(1-5) launched_ok
    by (auto simp: serving_inv_def set_in_flight_def comp_def)
qed

definition published_catchup :: "serving_registry \<Rightarrow> reserved_batch \<Rightarrow> batch_plan \<Rightarrow> draft_catchup_phase option" where
  "published_catchup r lv b = (case bp_action b of
       QuiescentDraftCatchup _ \<Rightarrow> map_option CatchupInFlight (lv_draft_catchup lv)
     | QuiescentDraftCatchupRestore _ \<Rightarrow> None
     | _ \<Rightarrow> rg_draft_catchup r)"

definition publish :: "publication_reservation \<Rightarrow> reserved_batch \<Rightarrow> serving_registry \<Rightarrow> serving_registry" where
  "publish rv lv r = set_in_flight (rv_batch rv) (r\<lparr>rg_draft_catchup := published_catchup r lv (rv_batch rv),
     rg_entries := map (launched (rv_batch rv)) (rg_entries r)\<rparr>)"

lemma same_catchup: "rg_draft_catchup r = d \<Longrightarrow> r\<lparr>rg_draft_catchup := d, rg_entries := es\<rparr> = r\<lparr>rg_entries := es\<rparr>"
  by (cases r) simp

lemma record_publication_accepted:
  assumes "accepted C r rv lv"
  shows "record_publication C r rv = Some (Inr (), publish rv lv r)"
proof -
  let ?b = "rv_batch rv"
  have "validate_reservation C r rv = Inr ()" using assms validate_reservation_Inr by blast
  moreover have "(\<lambda>e. if se_request e \<in> set (bp_requests ?b) then e\<lparr>se_phase := PhaseInFlight (bp_epoch ?b)\<rparr> else e) = launched ?b"
    by (auto simp: launched_def)
  ultimately show ?thesis using assms
    by (cases "bp_action ?b") (auto simp: record_publication_def publish_def published_catchup_def accepted_def Let_def same_catchup)
qed

lemma publish_inv:
  assumes inv: "serving_inv C r" and lv: "accepted C r rv lv"
  shows "serving_inv C (publish rv lv r)"
proof -
  let ?b = "rv_batch rv"
  note D = serving_invD [OF inv]
  have launch: "serving_inv C (set_in_flight ?b (r\<lparr>rg_draft_catchup := d, rg_entries := map (launched ?b) (rg_entries r)\<rparr>))"
    if "rg_draft_catchup r \<noteq> None \<Longrightarrow> 1 \<le> sv_sequence_capacity (bp_plan ?b)"
      "d = None \<or> (\<exists>k. d = Some (CatchupInFlight k) \<and> key_valid_for k (bp_plan ?b) \<and> bp_requests ?b = [dk_request k]
        \<and> bp_epoch ?b = dk_epoch k \<and> rg_completed_epoch r = epoch_value (dk_prior_epoch k)
        \<and> (\<forall>e \<in> set (roster_of ?b (rg_entries r)). se_last_quiescence e = Some (dk_prior_epoch k)))" for d
    using lv validated_roster [OF inv, of ?b] that by (intro launch_inv [OF inv]) (auto simp: accepted_def)
  show ?thesis
  proof (cases "bp_action ?b")
    case (QuiescentDraftCatchup p)
    then obtain k where lk: "lv_draft_catchup lv = Some k" and start: "validate_draft_catchup_start r ?b k = Inr ()"
      using lv by (auto simp: accepted_def simp del: validate_draft_catchup_start_Inr)
    obtain e where e: "e \<in> set (rg_entries r)" "se_request e = dk_request k" "se_last_quiescence e = Some (dk_prior_epoch k)"
      using start by (auto simp: entry_is_iff [OF D(4)])
    have "roster_of ?b (rg_entries r) = [e]" using filter_sole [OF D(4) e(1)] start e(2) by (simp add: roster_of_def)
    then have "serving_inv C (set_in_flight ?b (r\<lparr>rg_draft_catchup := Some (CatchupInFlight k), rg_entries := map (launched ?b) (rg_entries r)\<rparr>))"
      using start e(3) by (intro launch) (auto simp: key_valid_for_def)
    then show ?thesis using QuiescentDraftCatchup lk by (simp add: publish_def published_catchup_def)
  next
    case (QuiescentDraftCatchupRestore p)
    then obtain k g where k: "rg_draft_catchup r = Some (CatchupCompleted k g)" "validate_next_batch C r ?b = Inr ()"
      using lv by (auto simp: accepted_def)
    then have "rg_bound_plan r = Some (bp_plan ?b)"
      by (auto simp: validate_next_batch_Inr classify_next_queue_action_def Let_def split: if_splits)
    moreover obtain q where "rg_bound_plan r = Some q" "key_valid_for k q" using D(9) [OF k(1)] by (auto simp: catchup_ok_def)
    ultimately show ?thesis using launch [of None] QuiescentDraftCatchupRestore
      by (simp add: publish_def published_catchup_def key_valid_for_def)
  qed (use lv launch [of None] in \<open>simp_all add: accepted_def publish_def published_catchup_def\<close>)
qed

lemma record_publication_ok:
  assumes inv: "serving_inv C r"
  shows "\<exists>x. record_publication C r rv = Some x \<and> outcome_ok C r x"
proof (cases "validate_reservation C r rv")
  case (Inr u)
  then obtain lv where "accepted C r rv lv" using validate_reservation_Inr [of C r rv u] by blast
  then show ?thesis using record_publication_accepted publish_inv [OF inv] by auto
qed (simp add: record_publication_def)

subsection \<open>Windows\<close>

lemma reserve_window_with_storage_cases:
  assumes "serving_inv C r"
  obtains e where "reserve_window_replacement_with_storage C r p qs n = (Inl (e, p, qs), r)"
  | prior where "validate_window_replacement C r p qs = Inr (prior, Suc (rg_submitted_epoch r), Suc (rg_next_reservation_id r))"
    "length qs \<le> n"
    "reserve_window_replacement_with_storage C r p qs n =
       (let epoch = \<lparr>epoch_value = Suc (rg_submitted_epoch r)\<rparr>; action = QuiescentNewWindow prior p in
        (Inr \<lparr>nw_prior = prior, nw_predecessors = rg_entries r, nw_requests = qs,
           nw_publication = \<lparr>rv_registry_identity = rg_identity r, rv_id = rg_next_reservation_id r,
             rv_batch = \<lparr>bp_plan = p, bp_requests = qs, bp_epoch = epoch, bp_action = action\<rparr>\<rparr>\<rparr>,
         r\<lparr>rg_reservation := Some \<lparr>lv_id = rg_next_reservation_id r, lv_plan = p, lv_epoch = epoch, lv_action = action,
             lv_draft_catchup = None\<rparr>,
           rg_next_reservation_id := Suc (rg_next_reservation_id r), rg_entries := map (fresh_entry p) qs\<rparr>))"
proof (cases "validate_window_replacement C r p qs")
  case (Inl e)
  then show thesis using that(1) [of e] by (simp add: reserve_window_replacement_with_storage_def)
next
  case (Inr x)
  obtain prior m following where x: "x = (prior, m, following)" by (cases x)
  have w: "validate_window_replacement C r p qs = Inr (prior, m, following)" using Inr x by simp
  note W = w [unfolded validate_window_replacement_Inr]
  have "push_roster qs [] = Some qs" using W serving_invD(2) [OF assms] by (simp add: push_roster_eq)
  then show thesis using that(1) [of SvHostAllocation] that(2) [of prior] w W
    by (cases "n < length qs") (auto simp: reserve_window_replacement_with_storage_def Let_def)
qed

lemma reserve_window_replacement_ok:
  assumes inv: "serving_inv C r"
  shows "outcome_ok C r (reserve_window_replacement reserve C r p qs)"
proof -
  note D = serving_invD [OF inv]
  have "outcome_ok C r (reserve_window_replacement_with_storage C r p qs n)" for n
  proof (cases rule: reserve_window_with_storage_cases [OF inv, of p qs n])
    case (2 prior)
    note W = 2(1) [unfolded validate_window_replacement_Inr]
    have "distinct qs" using succeeds_distinct [of qs "rg_entries r"] W D(4) by blast
    then show ?thesis using 2(3) W D(1,2)
      by (auto simp: serving_inv_def quiet_def reservation_ok_def Let_def comp_def)
  qed simp
  then show ?thesis by (simp add: reserve_window_replacement_def)
qed

text \<open>What an accepted window reservation establishes: the fresh roster is exactly the registry, and the predecessors
  could be put back.\<close>

definition window_accepted :: "usize \<Rightarrow> serving_registry \<Rightarrow> new_window_reservation \<Rightarrow> bool" where
  "window_accepted C r w \<longleftrightarrow> (\<exists>lv. accepted C r (nw_publication w) lv) \<and> rg_bound_plan r = Some (nw_prior w)
     \<and> bp_action (rv_batch (nw_publication w)) = QuiescentNewWindow (nw_prior w) (window_plan w)
     \<and> rg_entries r \<noteq> [] \<and> nw_requests w = window_requests w
     \<and> length (rg_entries r) \<le> C \<and> length (rg_entries r) \<le> sv_sequence_capacity (window_plan w)
     \<and> sv_mode (window_plan w) = Prefill \<and> (\<forall>e \<in> set (nw_predecessors w). completed_in (nw_prior w) (rg_completed_epoch r) e)
     \<and> rg_entries r = map (fresh_entry (window_plan w)) (window_requests w)
     \<and> list_all2 succeeds (window_requests w) (nw_predecessors w)"

lemma validate_window_reservation_spec:
  "\<exists>v. validate_window_reservation C r w = Some v \<and> (v = Inr () \<longleftrightarrow> window_accepted C r w)"
proof -
  let ?g = "sum_bind (validate_reservation C r (nw_publication w)) (\<lambda>_.
        if rg_bound_plan r \<noteq> Some (nw_prior w)
           \<or> bp_action (rv_batch (nw_publication w)) \<noteq> QuiescentNewWindow (nw_prior w) (window_plan w)
           \<or> nw_predecessors w = [] \<or> length (nw_predecessors w) \<noteq> length (rg_entries r)
           \<or> length (rg_entries r) \<noteq> length (window_requests w) \<or> nw_requests w \<noteq> window_requests w
           \<or> rg_entries r = [] \<or> C < length (rg_entries r)
           \<or> sv_sequence_capacity (window_plan w) < length (rg_entries r) \<or> sv_mode (window_plan w) \<noteq> Prefill
        then Inl SvPublicationReservationMismatch
        else validate_predecessors (nw_prior w) (rg_completed_epoch r) 0 (nw_predecessors w))"
  have g: "?g = Inr () \<longleftrightarrow> (\<exists>lv. accepted C r (nw_publication w) lv) \<and> rg_bound_plan r = Some (nw_prior w)
     \<and> bp_action (rv_batch (nw_publication w)) = QuiescentNewWindow (nw_prior w) (window_plan w)
     \<and> nw_predecessors w \<noteq> [] \<and> length (nw_predecessors w) = length (rg_entries r)
     \<and> length (rg_entries r) = length (window_requests w) \<and> nw_requests w = window_requests w
     \<and> rg_entries r \<noteq> [] \<and> length (rg_entries r) \<le> C \<and> length (rg_entries r) \<le> sv_sequence_capacity (window_plan w)
     \<and> sv_mode (window_plan w) = Prefill \<and> (\<forall>e \<in> set (nw_predecessors w). completed_in (nw_prior w) (rg_completed_epoch r) e)"
    by (auto simp: validate_reservation_Inr not_less)
  show ?thesis
  proof (cases ?g)
    case (Inl e)
    then have "\<not> window_accepted C r w" using g by (auto simp: window_accepted_def dest: list_all2_lengthD)
    then show ?thesis using Inl by (simp add: validate_window_reservation_def)
  next
    case (Inr u)
    then have G: "?g = Inr ()" by simp
    note G' = G [unfolded g]
    obtain v where v: "validate_window_lanes (window_plan w) (nw_predecessors w) 0 (zip (rg_entries r) (window_requests w)) = Some v"
      "v = Inr () \<longleftrightarrow> rg_entries r = map (fresh_entry (window_plan w)) (window_requests w)
         \<and> list_all2 succeeds (window_requests w) (nw_predecessors w)"
      using validate_window_lanes_spec [of "nw_predecessors w" 0 "window_requests w" "rg_entries r" "window_plan w"] G' by auto
    have "validate_window_reservation C r w = Some v" unfolding validate_window_reservation_def G using v(1) by simp
    then show ?thesis using v(2) G' by (auto simp: window_accepted_def)
  qed
qed

lemma restore_window_replacement_ok:
  assumes inv: "serving_inv C r"
  shows "\<exists>x. restore_window_replacement C r w = Some x \<and> outcome_ok C r x"
proof -
  note D = serving_invD [OF inv]
  obtain v where v: "validate_window_reservation C r w = Some v" "v = Inr () \<longleftrightarrow> window_accepted C r w"
    using validate_window_reservation_spec by blast
  have "serving_inv C (r\<lparr>rg_reservation := None, rg_entries := nw_predecessors w\<rparr>)" if w: "window_accepted C r w"
  proof -
    have pre: "\<exists>ep. se_phase e = PhaseRetired (QuiescentAt ep) \<and> epoch_value ep \<le> rg_completed_epoch r \<and> se_last_quiescence e = Some ep"
      if "e \<in> set (nw_predecessors w)" for e using w that by (auto simp: window_accepted_def completed_in_def)
    have "distinct (window_requests w)" using w D(4) by (simp add: window_accepted_def comp_def)
    then have "distinct (map se_request (nw_predecessors w))" using w succeeds_distinct by (auto simp: window_accepted_def)
    moreover have "length (nw_predecessors w) \<le> C" using w by (auto simp: window_accepted_def dest: list_all2_lengthD)
    moreover have "entry_ok (rg_completed_epoch r) e" if "e \<in> set (nw_predecessors w)" for e using pre [OF that] by (auto simp: entry_ok_def)
    moreover have "active_view (nw_predecessors w) = []" using pre by (force simp: active_view_empty)
    moreover have "rg_in_flight r = None" "rg_draft_catchup r = None" using w by (auto simp: window_accepted_def accepted_def)
    ultimately show ?thesis using inv by (simp add: serving_inv_def quiet_def)
  qed
  then show ?thesis using v by (cases v) (auto simp: restore_window_replacement_def)
qed

lemma record_window_publication_ok:
  assumes inv: "serving_inv C r"
  shows "\<exists>x. record_window_publication C r w = Some x \<and> outcome_ok C r x"
proof -
  let ?b = "rv_batch (nw_publication w)"
  obtain v where v: "validate_window_reservation C r w = Some v" "v = Inr () \<longleftrightarrow> window_accepted C r w"
    using validate_window_reservation_spec by blast
  have "serving_inv C (set_in_flight ?b (r\<lparr>rg_entries := map (\<lambda>e. e\<lparr>se_phase := PhaseInFlight (bp_epoch ?b)\<rparr>) (rg_entries r)\<rparr>))"
    if w: "window_accepted C r w"
  proof -
    obtain lv where lv: "accepted C r (nw_publication w) lv" using w by (auto simp: window_accepted_def)
    have es: "rg_entries r = map (fresh_entry (bp_plan ?b)) (bp_requests ?b)"
      using w by (simp add: window_accepted_def window_plan_def window_requests_def)
    have l: "map (\<lambda>e. e\<lparr>se_phase := PhaseInFlight (bp_epoch ?b)\<rparr>) (rg_entries r) = map (launched ?b) (rg_entries r)"
      unfolding es by (simp add: launched_def)
    have ro: "roster_of ?b (rg_entries r) = rg_entries r" unfolding roster_of_def es by (auto simp: filter_id_conv)
    have "bp_action ?b = QuiescentNewWindow (nw_prior w) (window_plan w)" using w unfolding window_accepted_def by blast
    then have d: "rg_draft_catchup r = None" using lv unfolding accepted_def by simp
    have f: "rg_in_flight r = None" "rg_reservation r = Some lv" "lv_epoch lv = bp_epoch ?b" using lv unfolding accepted_def by blast+
    have len: "length (rg_entries r) \<le> C" "length (rg_entries r) \<le> sv_sequence_capacity (bp_plan ?b)" "rg_entries r \<noteq> []"
      using w unfolding window_accepted_def window_plan_def by blast+
    have reqs: "map se_request (rg_entries r) = bp_requests ?b" "\<And>e. e \<in> set (rg_entries r) \<Longrightarrow> se_plan e = bp_plan ?b"
      unfolding es by (auto simp: comp_def)
    then have "length (bp_requests ?b) = length (rg_entries r)" by (metis length_map)
    then have "serving_inv C (set_in_flight ?b (r\<lparr>rg_draft_catchup := None, rg_entries := map (launched ?b) (rg_entries r)\<rparr>))"
      using reqs len ro by (intro launch_inv [OF inv f]) auto
    then show ?thesis unfolding l using d by (simp add: same_catchup)
  qed
  then show ?thesis using v by (cases v) (auto simp: record_window_publication_def Let_def)
qed


subsection \<open>Completion\<close>

lemma completed_entry_request [simp]: "se_request (completed_entry epoch d e) = se_request e"
  by (cases d) (simp_all add: completed_entry_def)

definition settled :: "completion_epoch \<Rightarrow> (request_id \<times> serving_disposition) list \<Rightarrow> serving_entry \<Rightarrow> serving_entry" where
  "settled epoch ds e = (case map_of ds (se_request e) of None \<Rightarrow> e | Some d \<Rightarrow> completed_entry epoch d e)"

lemma settled_request [simp]: "se_request (settled epoch ds e) = se_request e"
  by (simp add: settled_def split: option.split)

lemma apply_dispositions_eq:
  assumes "distinct (map fst ds)" "distinct (map se_request es)" "fst ` set ds \<subseteq> se_request ` set es"
  shows "apply_dispositions epoch ds es = Some (map (settled epoch ds) es)"
  using assms
proof (induction ds arbitrary: es)
  case (Cons x ds)
  obtain q d where x: "x = (q, d)" by (cases x)
  let ?es = "map (\<lambda>e. if se_request e = q then completed_entry epoch d e else e) es"
  have u: "update_first (\<lambda>e. se_request e = q) (completed_entry epoch d) es = ?es" by (rule update_first_map [OF Cons.prems(2)])
  have req: "map se_request ?es = map se_request es" by simp
  have ex: "list_ex (\<lambda>e. se_request e = q) es" using Cons.prems(3) x by (auto simp: list_ex_iff)
  have "se_request ` set ?es = se_request ` set es" by (simp only: req flip: set_map)
  then have sub: "fst ` set ds \<subseteq> se_request ` set ?es" using Cons.prems(3) by auto
  have "distinct (map fst ds)" "distinct (map se_request ?es)" using Cons.prems(1,2) by (simp_all only: req list.map distinct.simps)
  then have "apply_dispositions epoch ds ?es = Some (map (settled epoch ds) ?es)"
    using sub by (rule Cons.IH)
  moreover have "map_of ds q = None" using Cons.prems(1) x by (simp add: map_of_eq_None_iff)
  then have "map (settled epoch ds) ?es = map (settled epoch (x # ds)) es"
    using x by (auto simp: settled_def)
  ultimately show ?case using x ex u by simp
qed (auto simp: settled_def intro!: map_idI [symmetric])

lemma completion_inv:
  assumes inv: "serving_inv C r" and b: "rg_in_flight r = Some b" and len: "length ds = length (fb_requests b)"
    and d: "d = None \<or> (\<exists>k g. d = Some (CatchupCompleted k g) \<and> key_valid_for k (fb_plan b))"
  shows "\<exists>r'. apply_validated_completion r (fb_epoch b) ds = Some r'
    \<and> r' = r\<lparr>rg_in_flight := None, rg_entries := map (settled (fb_epoch b) (zip (fb_requests b) ds)) (rg_entries r),
        rg_completed_epoch := epoch_value (fb_epoch b)\<rparr>
    \<and> serving_inv C (r'\<lparr>rg_draft_catchup := d\<rparr>)"
proof -
  note D = serving_invD [OF inv]
  have F: "flight_ok C r b" by (rule D(7) [OF b])
  let ?ds = "zip (fb_requests b) ds" let ?es = "map (settled (fb_epoch b) ?ds) (rg_entries r)"
  have reqs: "fb_requests b = map se_request (filter active (rg_entries r))"
    using F by (auto simp: flight_ok_def active_view_def view_def)
  have dist: "distinct (map fst ?ds)" "fst ` set ?ds \<subseteq> se_request ` set (rg_entries r)"
    using D(4) len reqs by (auto simp: distinct_map_filter map_fst_zip_take dest!: set_zip_leftD)
  have eq: "apply_dispositions (fb_epoch b) ?ds (rg_entries r) = Some ?es"
    by (rule apply_dispositions_eq [OF dist(1) D(4) dist(2)])
  have ok: "entry_ok (epoch_value (fb_epoch b)) (settled (fb_epoch b) ?ds e) \<and> \<not> active (settled (fb_epoch b) ?ds e)"
    if e: "e \<in> set (rg_entries r)" for e
  proof (cases "map_of ?ds (se_request e)")
    case None
    then have "se_request e \<notin> set (fb_requests b)" using len by (simp add: map_of_eq_None_iff flip: set_map)
    then have "\<not> active e" using e reqs by auto
    then show ?thesis using D(5) [OF e] None F by (auto simp: settled_def entry_ok_def flight_ok_def)
  next
    case (Some x)
    then show ?thesis using D(5) [OF e] by (cases x) (auto simp: settled_def completed_entry_def entry_ok_def)
  qed
  let ?r = "r\<lparr>rg_in_flight := None, rg_entries := ?es, rg_completed_epoch := epoch_value (fb_epoch b)\<rparr>"
  have "active_view ?es = []" using ok by (auto simp: active_view_empty)
  moreover have "rg_reservation r = None" "rg_submitted_epoch r = epoch_value (fb_epoch b)" "rg_bound_plan r = Some (fb_plan b)"
    using F by (simp_all add: flight_ok_def)
  ultimately have "serving_inv C (?r\<lparr>rg_draft_catchup := d\<rparr>)"
    using D(1-4) ok d by (auto simp: serving_inv_def quiet_def catchup_ok_def comp_def)
  then show ?thesis using b eq by (simp add: apply_validated_completion_def)
qed

lemma validate_completion_exact_Inr:
  assumes inv: "serving_inv C r"
  shows "validate_completion_exact r epoch ds = Inr u \<longleftrightarrow> rg_draft_catchup r = None \<and> (\<exists>b. rg_in_flight r = Some b \<and> fb_epoch b = epoch
    \<and> length ds = length (fb_requests b)
    \<and> validate_completion_lanes r (fb_plan b) epoch 0 (zip (fb_requests b) ds) = Inr ())"
proof (cases "rg_in_flight r")
  case (Some b)
  have F: "flight_ok C r b" by (rule serving_invD(7) [OF inv Some])
  then have "u64_saturating_add (rg_completed_epoch r) 1 = rg_submitted_epoch r" by (simp add: flight_ok_def u64_saturating_add_def)
  then show ?thesis using Some F by (auto simp: validate_completion_exact_def flight_ok_def)
qed (simp add: validate_completion_exact_def)

lemma complete_exact_for_ok:
  assumes inv: "serving_inv C r"
  shows "\<exists>x. complete_exact_for r n epoch ds = Some x \<and> outcome_ok C r x"
proof (cases "preflight_completion_exact_for r n epoch ds")
  case (Inl e)
  then show ?thesis by (simp add: complete_exact_for_def)
next
  case (Inr u)
  then have "validate_completion_exact r epoch ds = Inr u" by (simp add: preflight_completion_exact_for_def split: if_splits)
  then obtain b where b: "rg_in_flight r = Some b" "fb_epoch b = epoch" "length ds = length (fb_requests b)" "rg_draft_catchup r = None"
    using validate_completion_exact_Inr [OF inv] by auto
  obtain r' where r': "apply_validated_completion r (fb_epoch b) ds = Some r'" "serving_inv C (r'\<lparr>rg_draft_catchup := None\<rparr>)"
    "rg_draft_catchup r' = None"
    using completion_inv [OF inv b(1,3), of None] b(4) by auto
  have "r'\<lparr>rg_draft_catchup := None\<rparr> = r'" using r'(3) by (cases r') simp
  then show ?thesis using Inr r'(1,2) b(2) by (simp add: complete_exact_for_def)
qed

lemma validate_draft_catchup_completion_Inr:
  assumes inv: "serving_inv C r"
  shows "(\<exists>d. validate_draft_catchup_completion r k g = Inr d) \<longleftrightarrow>
    rg_draft_catchup r = Some (CatchupInFlight k) \<and> g = Suc (dk_prior_dispatch_generation k)"
proof
  assume "\<exists>d. validate_draft_catchup_completion r k g = Inr d"
  then show "rg_draft_catchup r = Some (CatchupInFlight k) \<and> g = Suc (dk_prior_dispatch_generation k)"
    by (auto simp: validate_draft_catchup_completion_def split: if_splits)
next
  assume k: "rg_draft_catchup r = Some (CatchupInFlight k) \<and> g = Suc (dk_prior_dispatch_generation k)"
  note D = serving_invD [OF inv]
  obtain b where b: "rg_in_flight r = Some b" "key_valid_for k (fb_plan b)" "fb_requests b = [dk_request k]" "fb_epoch b = dk_epoch k"
    and c: "rg_completed_epoch r = epoch_value (dk_prior_epoch k)"
    and l: "\<forall>(q, p, ep, l) \<in> set (active_view (rg_entries r)). l = Some (dk_prior_epoch k)"
    using D(9) [OF conjunct1 [OF k]] by (auto simp: catchup_ok_def)
  have F: "flight_ok C r b" by (rule D(7) [OF b(1)])
  then have "map fst (active_view (rg_entries r)) = [dk_request k]" using b(3) by (simp add: flight_ok_def)
  then obtain x where x: "active_view (rg_entries r) = [x]" "fst x = dk_request k" by auto
  then obtain e where e: "e \<in> set (rg_entries r)" "x = view e" using in_active_view [of x "rg_entries r"] by auto
  have "find_entry r (dk_request k) = Some e" using find_entry_Some [OF D(4)] e x(2) by (simp add: view_def)
  moreover have "se_plan e = fb_plan b" "phase_epoch (se_phase e) = Some (dk_epoch k)" "se_last_quiescence e = Some (dk_prior_epoch k)"
    using F x(1) e(2) l b(4) by (auto simp: flight_ok_def view_def)
  moreover have "rg_reservation r = None" "rg_bound_plan r = Some (fb_plan b)" "rg_submitted_epoch r = epoch_value (dk_epoch k)"
    using F b(4) by (auto simp: flight_ok_def)
  moreover have "u64_add (dk_prior_dispatch_generation k) 1 = Some g" using b(2) k by (auto simp: key_valid_for_def)
  ultimately show "\<exists>d. validate_draft_catchup_completion r k g = Inr d"
    using conjunct1 [OF k] b c by (cases "se_phase e") (simp_all add: validate_draft_catchup_completion_def)
qed

lemma complete_draft_catchup_key_ok:
  assumes inv: "serving_inv C r"
  shows "\<exists>x. complete_draft_catchup_key r k g = Some x \<and> outcome_ok C r x"
proof (cases "validate_draft_catchup_completion r k g")
  case (Inl e)
  then show ?thesis by (simp add: complete_draft_catchup_key_def)
next
  case (Inr d)
  then have "rg_draft_catchup r = Some (CatchupInFlight k)" using validate_draft_catchup_completion_Inr [OF inv, of k g] by blast
  then obtain b where b: "rg_in_flight r = Some b" "key_valid_for k (fb_plan b)" "fb_requests b = [dk_request k]" "fb_epoch b = dk_epoch k"
    using serving_invD(9) [OF inv] by (force simp: catchup_ok_def)
  show ?thesis using completion_inv [OF inv b(1), of "[d]" "Some (CatchupCompleted k g)"] b Inr
    by (auto simp: complete_draft_catchup_key_def)
qed

end
