(* ===== verification/ServingRegistry_Machine.thy ===== *)
theory ServingRegistry_Machine
  imports ServingRegistry_Batches
begin

text \<open>
  The serving registry as a machine: one operation per call, with arbitrary arguments.  The reservations a caller
  presents are arbitrary values too, so the theorems cover stale, replayed and foreign ones.
\<close>

subsection \<open>Operations\<close>

datatype serving_op =
    OpAdmit request_id serving_plan
  | OpTransition request_id serving_plan
  | OpCancel request_id
  | OpRemove request_id
  | OpRetireQueue serving_plan
  | OpInstall prefill_reconciliation
  | OpReserve batch_plan
  | OpRegisterCatchup draft_catchup_key
  | OpReserveCatchup batch_plan draft_catchup_key
  | OpReserveRestore batch_plan draft_catchup_key u64
  | OpAbort publication_reservation
  | OpRecord publication_reservation
  | OpReserveWindow bool serving_plan "request_id list"
  | OpRestoreWindow new_window_reservation
  | OpRecordWindow new_window_reservation
  | OpComplete u64 completion_epoch "serving_disposition list"
  | OpCompleteCatchup draft_catchup_key u64

datatype serving_refusal =
    Refused serving_error
  | NotReconciled reconciliation_error
  | PublicationRefused "serving_error \<times> publication_reservation"
  | WindowRefused "serving_error \<times> serving_plan \<times> request_id list"
  | WindowPublicationRefused "serving_error \<times> new_window_reservation"

datatype serving_reply =
    Acknowledged
  | NowIn serving_phase
  | Removed serving_quiescence
  | Reserved publication_reservation
  | WindowReserved new_window_reservation
  | WindowRestored restored_window

abbreviation reply :: "('e \<Rightarrow> serving_refusal) \<Rightarrow> ('a \<Rightarrow> serving_reply) \<Rightarrow> ('e + 'a) \<times> serving_registry
    \<Rightarrow> (serving_refusal + serving_reply) \<times> serving_registry" where
  "reply f g \<equiv> map_prod (map_sum f g) id"

fun serving_step :: "usize \<Rightarrow> serving_op \<Rightarrow> serving_registry \<Rightarrow> ((serving_refusal + serving_reply) \<times> serving_registry) exec" where
  "serving_step C (OpAdmit q p) r = Some (reply Refused (\<lambda>_. Acknowledged) (admit_request C r q p))"
| "serving_step C (OpTransition q p) r = Some (reply Refused (\<lambda>_. Acknowledged) (transition_request r q p))"
| "serving_step C (OpCancel q) r = Some (reply Refused NowIn (cancel_request r q))"
| "serving_step C (OpRemove q) r = map_option (reply Refused Removed) (remove_retired r q)"
| "serving_step C (OpRetireQueue p) r = Some (reply Refused (\<lambda>_. Acknowledged) (record_quiescent_queue_retirement r p))"
| "serving_step C (OpInstall x) r = Some (reply NotReconciled (\<lambda>_. Acknowledged) (install_prefill_reconciliation r x))"
| "serving_step C (OpReserve b) r = Some (reply Refused Reserved (reserve_batch C r b))"
| "serving_step C (OpRegisterCatchup k) r = Some (reply Refused (\<lambda>_. Acknowledged) (register_draft_catchup_key r k))"
| "serving_step C (OpReserveCatchup b k) r = Some (reply Refused Reserved (reserve_draft_catchup_key C r b k))"
| "serving_step C (OpReserveRestore b k g) r = Some (reply Refused Reserved (reserve_draft_catchup_restore_key C r b k g))"
| "serving_step C (OpAbort rv) r = Some (reply PublicationRefused (\<lambda>_. Acknowledged) (abort_publication C r rv))"
| "serving_step C (OpRecord rv) r = map_option (reply PublicationRefused (\<lambda>_. Acknowledged)) (record_publication C r rv)"
| "serving_step C (OpReserveWindow allocated p qs) r =
     Some (reply WindowRefused WindowReserved (reserve_window_replacement (\<lambda>_. allocated) C r p qs))"
| "serving_step C (OpRestoreWindow w) r =
     map_option (reply WindowPublicationRefused WindowRestored) (restore_window_replacement C r w)"
| "serving_step C (OpRecordWindow w) r =
     map_option (reply WindowPublicationRefused (\<lambda>_. Acknowledged)) (record_window_publication C r w)"
| "serving_step C (OpComplete n epoch ds) r = map_option (reply Refused (\<lambda>_. Acknowledged)) (complete_exact_for r n epoch ds)"
| "serving_step C (OpCompleteCatchup k g) r = map_option (reply Refused (\<lambda>_. Acknowledged)) (complete_draft_catchup_key r k g)"

lemma outcome_ok_reply [simp]: "outcome_ok C r (reply f g x) \<longleftrightarrow> outcome_ok C r x"
  by (cases x; cases "fst x") (auto simp: outcome_ok_def)

lemma outcome_ok_map_sum [simp]: "outcome_ok C r (map_sum f g a, r') \<longleftrightarrow> outcome_ok C r (a, r')"
  by (cases a) auto

lemmas operation_ok = admit_request_ok transition_request_ok cancel_request_ok record_quiescent_queue_retirement_ok
  install_prefill_reconciliation_ok reserve_batch_ok register_draft_catchup_key_ok reserve_draft_catchup_key_ok
  reserve_draft_catchup_restore_key_ok abort_publication_ok reserve_window_replacement_ok

lemma serving_step_ok:
  assumes inv: "serving_inv C r"
  shows "\<exists>x. serving_step C op r = Some x \<and> outcome_ok C r x"
proof (cases op)
  case (OpRemove q)
  then show ?thesis using remove_retired_ok [OF inv, of q] by auto
next
  case (OpRecord rv)
  then show ?thesis using record_publication_ok [OF inv, of rv] by auto
next
  case (OpRestoreWindow w)
  then show ?thesis using restore_window_replacement_ok [OF inv, of w] by auto
next
  case (OpRecordWindow w)
  then show ?thesis using record_window_publication_ok [OF inv, of w] by auto
next
  case (OpComplete n epoch ds)
  then show ?thesis using complete_exact_for_ok [OF inv, of n epoch ds] by auto
next
  case (OpCompleteCatchup k g)
  then show ?thesis using complete_draft_catchup_key_ok [OF inv, of k g] by auto
qed (simp_all add: operation_ok [OF inv])

interpretation serving: transactional_machine "serving_inv C" "serving_step C" for C
proof unfold_locales
  fix r op assume "serving_inv C r"
  then show "serving_step C op r \<noteq> None" using serving_step_ok by fastforce
next
  fix r op res r' assume inv: "serving_inv C r" and step: "serving_step C op r = Some (res, r')"
  then have "outcome_ok C r (res, r')" using serving_step_ok [OF inv, of op] by auto
  then show "serving_inv C r'" using inv by (cases res) auto
next
  fix r op e r' assume inv: "serving_inv C r" and step: "serving_step C op r = Some (Inl e, r')"
  then show "r' = r" using serving_step_ok [OF inv, of op] by auto
qed

subsection \<open>Identities of reservations\<close>

text \<open>No operation changes the identity of the registry or gives out an identifier below the next one.\<close>

definition issues :: "serving_registry \<Rightarrow> serving_registry \<Rightarrow> bool" where
  "issues r r' \<longleftrightarrow> rg_identity r' = rg_identity r \<and> rg_next_reservation_id r \<le> rg_next_reservation_id r'
     \<and> (\<forall>lv. rg_reservation r' = Some lv \<longrightarrow> rg_reservation r = Some lv \<or> rg_next_reservation_id r \<le> lv_id lv)"

lemma issues_refl [simp]: "issues r r"
  by (simp add: issues_def)

lemma reserve_validated_batch_issues: "issues r (snd (reserve_validated_batch r b k))"
  unfolding reserve_validated_batch_def Let_def by (rule attempt_split [where P = "\<lambda>x. issues r (snd x)", THEN iffD2]) (auto simp: issues_def)

lemma apply_validated_completion_issues:
  "apply_validated_completion r epoch ds = Some r' \<Longrightarrow> issues r (r'\<lparr>rg_draft_catchup := d\<rparr>) \<and> issues r r'"
  by (auto simp: apply_validated_completion_def issues_def bind_eq_Some_conv)

lemma issues_simps [simp]:
  "issues r (r\<lparr>rg_entries := es\<rparr>)" "issues r (r\<lparr>rg_draft_catchup := d\<rparr>)" "issues r (r\<lparr>rg_reservation := None\<rparr>)"
  "issues r (r\<lparr>rg_bound_plan := b, rg_draft_catchup := d\<rparr>)" "issues r (r\<lparr>rg_reservation := None, rg_entries := es\<rparr>)"
  "issues r (update_entry q f r)" "issues r (set_in_flight c (r\<lparr>rg_entries := es\<rparr>))"
  "issues r (set_in_flight c (r\<lparr>rg_draft_catchup := d, rg_entries := es\<rparr>))"
  by (simp_all add: issues_def update_entry_def set_in_flight_def)


lemmas issues_split = attempt_split [where P = "\<lambda>x. issues r (snd x)" for r]

lemma operation_issues:
  "issues r (snd (admit_request C r q p))" "issues r (snd (transition_request r q p))" "issues r (snd (cancel_request r q))"
  "issues r (snd (record_quiescent_queue_retirement r p))" "issues r (snd (reserve_batch C r b))"
  "issues r (snd (register_draft_catchup_key r k))" "issues r (snd (reserve_draft_catchup_key C r b k))"
  "issues r (snd (reserve_draft_catchup_restore_key C r b k g))" "issues r (snd (abort_publication C r rv))"
  by (auto simp: issues_split reserve_validated_batch_issues admit_request_def transition_request_def cancel_request_def
      record_quiescent_queue_retirement_def reserve_batch_def register_draft_catchup_key_def reserve_draft_catchup_key_def
      reserve_draft_catchup_restore_key_def abort_publication_def split: sum.split)

lemma install_issues: "issues r (snd (install_prefill_reconciliation r x))"
  by (auto simp: install_prefill_reconciliation_def is_fresh_registry_def issues_def)

lemma remove_issues: "remove_retired r q = Some x \<Longrightarrow> issues r (snd x)"
proof (cases "first_position (\<lambda>e. se_request e = q) (rg_entries r)")
  case (Some i)
  then have "idx (rg_entries r) i = Some (rg_entries r ! i)" using first_position_Some [OF Some] by (simp add: idx_ok)
  then show "remove_retired r q = Some x \<Longrightarrow> issues r (snd x)" using Some
    by (cases "se_phase (rg_entries r ! i)") (auto simp: remove_retired_def split: sum.splits)
qed (auto simp: remove_retired_def split: sum.splits)

lemma record_issues: "record_publication C r rv = Some x \<Longrightarrow> issues r (snd x)"
proof (cases "validate_reservation C r rv")
  case (Inr u)
  then obtain lv where "accepted C r rv lv" using validate_reservation_Inr [of C r rv u] by blast
  then show "record_publication C r rv = Some x \<Longrightarrow> issues r (snd x)" by (auto simp: record_publication_accepted publish_def)
qed (auto simp: record_publication_def)

lemma window_issues:
  "serving_inv C r \<Longrightarrow> issues r (snd (reserve_window_replacement reserve C r p qs))"
  "restore_window_replacement C r w = Some x \<Longrightarrow> issues r (snd x)"
  "record_window_publication C r w = Some y \<Longrightarrow> issues r (snd y)"
proof -
  assume inv: "serving_inv C r"
  have "issues r (snd (reserve_window_replacement_with_storage C r p qs n))" for n
    by (cases rule: reserve_window_with_storage_cases [OF inv, of p qs n]) (auto simp: issues_def Let_def)
  then show "issues r (snd (reserve_window_replacement reserve C r p qs))" by (simp add: reserve_window_replacement_def)
next
  obtain v where v: "validate_window_reservation C r w = Some v" using validate_window_reservation_spec by blast
  show "restore_window_replacement C r w = Some x \<Longrightarrow> issues r (snd x)" "record_window_publication C r w = Some y \<Longrightarrow> issues r (snd y)"
    using v by (cases v; auto simp: restore_window_replacement_def record_window_publication_def Let_def)+
qed

lemma complete_issues:
  "complete_exact_for r n epoch ds = Some x \<Longrightarrow> issues r (snd x)"
  "complete_draft_catchup_key r k g = Some y \<Longrightarrow> issues r (snd y)"
  by (auto simp: complete_exact_for_def complete_draft_catchup_key_def bind_eq_Some_conv
      dest: apply_validated_completion_issues split: sum.splits)

lemma serving_step_issues:
  assumes inv: "serving_inv C r" and step: "serving_step C op r = Some (res, r')"
  shows "issues r r'"
proof -
  have "issues r (snd (res, r'))" using step operation_issues install_issues window_issues(1) [OF inv]
    by (cases op) (auto dest!: remove_issues record_issues window_issues(2,3) complete_issues simp: map_prod_def split_beta)
  then show ?thesis by simp
qed

text \<open>A reservation is spent when its identifier has been given out and is not the live one.\<close>

definition spent_reservation :: "serving_registry \<Rightarrow> u64 \<Rightarrow> bool" where
  "spent_reservation r n \<longleftrightarrow> n < rg_next_reservation_id r \<and> (\<forall>lv. rg_reservation r = Some lv \<longrightarrow> lv_id lv \<noteq> n)"

lemma spent_issues: "spent_reservation r n \<Longrightarrow> issues r r' \<Longrightarrow> spent_reservation r' n"
  by (fastforce simp: spent_reservation_def issues_def)

lemma run_spent:
  assumes "serving_inv C r" "spent_reservation r n" "run_ops (serving_step C) ops r = Some r'"
  shows "spent_reservation r' n"
  using assms
proof (induction ops arbitrary: r)
  case (Cons op ops)
  then obtain res r1 where s: "serving_step C op r = Some (res, r1)" "run_ops (serving_step C) ops r1 = Some r'"
    by (auto split: option.splits)
  then show ?case
    using Cons.IH [of r1] serving.step_inv [OF Cons.prems(1) s(1)] spent_issues [OF Cons.prems(2) serving_step_issues [OF Cons.prems(1) s(1)]]
    by blast
qed simp

lemma spent_refused: "spent_reservation r (rv_id rv) \<Longrightarrow> \<not> accepted C r rv lv"
  by (auto simp: spent_reservation_def accepted_def)

end
