(* ===== verification/ServingRegistry_Progress.thy ===== *)
theory ServingRegistry_Progress
  imports ServingRegistry_Machine
begin

text \<open>
  What the registry selects, and that it never gets stuck: ready work can always be published, after retiring a queue
  it cannot use if there is one, and a batch in flight can always be completed.
\<close>

subsection \<open>Selection\<close>

lemma min_by_key_None [simp]: "min_by_key f xs = None \<longleftrightarrow> xs = []"
  by (cases xs) (auto split: option.splits)

lemma min_by_key_Some:
  "min_by_key f xs = Some x \<Longrightarrow> \<exists>ys zs. xs = ys @ x # zs \<and> (\<forall>y \<in> set ys. f x < f y) \<and> (\<forall>z \<in> set zs. f x \<le> f z)"
proof (induction xs arbitrary: x)
  case (Cons a xs)
  show ?case
  proof (cases "min_by_key f xs")
    case None
    then show ?thesis using Cons.prems by (auto intro: exI [of _ "[]"])
  next
    case (Some y)
    obtain ys zs where y: "xs = ys @ y # zs" "\<forall>z \<in> set ys. f y < f z" "\<forall>z \<in> set zs. f y \<le> f z"
      using Cons.IH [OF Some] by blast
    show ?thesis
    proof (cases "f y < f a")
      case True
      then show ?thesis using Cons.prems Some y by (intro exI [of _ "a # ys"] exI [of _ zs]) auto
    next
      case False
      then show ?thesis using Cons.prems Some y by (intro exI [of _ "[]"] exI [of _ xs]) fastforce
    qed
  qed
qed simp

lemma min_ready_plan_None [simp]: "min_ready_plan r = None \<longleftrightarrow> (\<forall>e \<in> set (rg_entries r). \<not> ready e)"
  by (auto simp: min_ready_plan_def filter_empty_conv)

lemma min_ready_plan_Some:
  assumes "min_ready_plan r = Some p"
  shows "\<exists>e \<in> set (rg_entries r). ready e \<and> se_plan e = p"
    "\<And>e. e \<in> set (rg_entries r) \<Longrightarrow> ready e \<Longrightarrow> plan_priority p \<le> plan_priority (se_plan e)"
proof -
  obtain e where e: "min_by_key (\<lambda>e. plan_priority (se_plan e)) (filter ready (rg_entries r)) = Some e" "se_plan e = p"
    using assms by (auto simp: min_ready_plan_def)
  obtain ys zs where s: "filter ready (rg_entries r) = ys @ e # zs" "\<forall>y \<in> set ys. plan_priority p < plan_priority (se_plan y)"
    "\<forall>z \<in> set zs. plan_priority p \<le> plan_priority (se_plan z)"
    using min_by_key_Some [OF e(1)] e(2) by blast
  have "e \<in> set (filter ready (rg_entries r))" unfolding s(1) by simp
  then show "\<exists>e \<in> set (rg_entries r). ready e \<and> se_plan e = p" using e(2) by auto
  fix x assume "x \<in> set (rg_entries r)" "ready x"
  then have "x \<in> set (ys @ e # zs)" unfolding s(1) [symmetric] by simp
  then show "plan_priority p \<le> plan_priority (se_plan x)" using s(2,3) e(2) by auto
qed

lemma next_roster_nonempty:
  assumes "0 < C" "1 \<le> sv_sequence_capacity p" "e \<in> set (rg_entries r)" "ready e" "se_plan e = p"
  shows "next_roster C r p \<noteq> []"
  using assms by (auto simp: next_roster_def ready_roster_def filter_empty_conv)

lemma select_roster_plain:
  assumes "C \<le> 32" "rg_draft_catchup r = None"
  shows "select_roster C r p = Inr (next_roster C r p)"
  using assms length_ready_roster [of "min C (sv_sequence_capacity p)" r p]
  by (simp add: select_roster_def next_roster_def push_roster_eq Let_def)

lemma plan_next_Inr:
  "plan_next C r = Inr (Some b) \<longleftrightarrow> rg_reservation r = None \<and> rg_in_flight r = None \<and> next_ready_plan r = Some (bp_plan b)
     \<and> select_roster C r (bp_plan b) = Inr (bp_requests b) \<and> rg_submitted_epoch r < U64_MAX
     \<and> bp_epoch b = \<lparr>epoch_value = Suc (rg_submitted_epoch r)\<rparr> \<and> classify_next_queue_action r (bp_plan b) = Inr (bp_action b)"
  by (cases b) (auto simp: plan_next_def split: option.splits)

lemma classify_queue_action_plain: "classify_queue_action b p = Inr a \<Longrightarrow> \<not> is_catchup_action a"
  by (auto simp: classify_queue_action_def split: option.splits if_splits)

subsection \<open>Publication of a planned batch\<close>

lemma reserved_registry [simp]:
  "find_entry (r\<lparr>rg_reservation := x, rg_next_reservation_id := n\<rparr>) q = find_entry r q"
  "entry_is (r\<lparr>rg_reservation := x, rg_next_reservation_id := n\<rparr>) q P = entry_is r q P"
  "next_ready_plan (r\<lparr>rg_reservation := x, rg_next_reservation_id := n\<rparr>) = next_ready_plan r"
  "classify_next_queue_action (r\<lparr>rg_reservation := x, rg_next_reservation_id := n\<rparr>) p = classify_next_queue_action r p"
  "validate_ready_roster C (r\<lparr>rg_reservation := x, rg_next_reservation_id := n\<rparr>) b = validate_ready_roster C r b"
proof -
  let ?r = "r\<lparr>rg_reservation := x, rg_next_reservation_id := n\<rparr>"
  show f: "find_entry ?r q = find_entry r q" for q by (simp add: find_entry_def)
  show e: "entry_is ?r q P = entry_is r q P" for q P by (simp add: entry_is_def f)
  have m: "min_ready_plan ?r = min_ready_plan r" by (simp add: min_ready_plan_def)
  show "next_ready_plan ?r = next_ready_plan r" unfolding next_ready_plan_def f m by simp
  show "classify_next_queue_action ?r p = classify_next_queue_action r p" 
    by (cases "rg_draft_catchup r") (auto simp: classify_next_queue_action_def e split: draft_catchup_phase.split)
  show "validate_ready_roster C ?r b = validate_ready_roster C r b" 
    by (cases "rg_draft_catchup r") (simp_all add: validate_ready_roster_def e ready_roster_def Let_def)
qed

text \<open>The call that reserves a planned batch depends on the draft catch-up.\<close>

definition reserve_op :: "serving_registry \<Rightarrow> batch_plan \<Rightarrow> serving_op" where
  "reserve_op r b = (case rg_draft_catchup r of
       Some (CatchupPending k) \<Rightarrow> OpReserveCatchup b k
     | Some (CatchupCompleted k g) \<Rightarrow> OpReserveRestore b k g
     | _ \<Rightarrow> OpReserve b)"

definition token_for :: "serving_registry \<Rightarrow> batch_plan \<Rightarrow> publication_reservation" where
  "token_for r b = \<lparr>rv_registry_identity = rg_identity r, rv_id = rg_next_reservation_id r, rv_batch = b\<rparr>"

definition live_for :: "serving_registry \<Rightarrow> batch_plan \<Rightarrow> draft_catchup_key option \<Rightarrow> reserved_batch" where
  "live_for r b k = \<lparr>lv_id = rg_next_reservation_id r, lv_plan = bp_plan b, lv_epoch = bp_epoch b, lv_action = bp_action b,
     lv_draft_catchup = k\<rparr>"

abbreviation reserved_for :: "serving_registry \<Rightarrow> batch_plan \<Rightarrow> draft_catchup_key option \<Rightarrow> serving_registry" where
  "reserved_for r b k \<equiv> r\<lparr>rg_reservation := Some (live_for r b k), rg_next_reservation_id := Suc (rg_next_reservation_id r)\<rparr>"

lemma reserve_validated_batch_eq:
  "rg_next_reservation_id r < U64_MAX \<Longrightarrow> reserve_validated_batch r b k = (Inr (token_for r b), reserved_for r b k)"
  by (simp add: reserve_validated_batch_def attempt_def ok_or_def exec_simps token_for_def live_for_def Let_def)

lemma reserved_accepted:
  assumes q: "rg_in_flight r = None" and v: "validate_next_batch C r b = Inr ()"
    and k: "case bp_action b of
        QuiescentDraftCatchup p \<Rightarrow> \<exists>key. k = Some key \<and> p = bp_plan b \<and> validate_draft_catchup_start r b key = Inr ()
      | QuiescentDraftCatchupRestore p \<Rightarrow> k = None \<and> p = bp_plan b
          \<and> (\<exists>key g. rg_draft_catchup r = Some (CatchupCompleted key g) \<and> bp_requests b = [dk_request key])
      | _ \<Rightarrow> k = None \<and> rg_draft_catchup r = None"
  shows "accepted C (reserved_for r b k) (token_for r b) (live_for r b k)"
proof -
  note V = v [unfolded validate_next_batch_Inr]
  have "u64_saturating_add (rg_submitted_epoch r) 1 = Suc (rg_submitted_epoch r)" using V by (simp add: u64_saturating_add_def)
  moreover have "validate_next_batch C (reserved_for r b k) b = Inr ()" using V by (simp add: validate_next_batch_Inr)
  ultimately show ?thesis using V q k unfolding accepted_def token_for_def live_for_def
    by (cases "bp_action b") auto
qed

lemma pending_batch_starts:
  assumes inv: "serving_inv C r" and q: "rg_in_flight r = None" and d: "rg_draft_catchup r = Some (CatchupPending k)"
    and v: "validate_next_batch C r b = Inr ()"
  shows "validate_draft_catchup_start r b k = Inr ()"
proof -
  note D = serving_invD [OF inv]
  note V = v [unfolded validate_next_batch_Inr]
  have c: "catchup_ok r (CatchupPending k)" by (rule D(9) [OF d])
  have sp: "bp_action b = QuiescentDraftCatchup (bp_plan b)" "rg_bound_plan r = Some (bp_plan b)"
    using V d by (auto simp: classify_next_queue_action_def Let_def split: if_splits)
  obtain e where e: "e \<in> set (rg_entries r)" "se_request e = dk_request k" "ready e" "se_plan e = bp_plan b"
    and rq: "bp_requests b = [dk_request k]"
    using V validate_ready_roster_catchup [OF d D(4)] by auto
  have k: "key_valid_for k (bp_plan b)" "rg_submitted_epoch r = epoch_value (dk_prior_epoch k)"
    "rg_completed_epoch r = epoch_value (dk_prior_epoch k)"
    using c sp(2) D(6) [OF q] by (auto simp: catchup_ok_def quiet_def)
  then have l: "se_last_quiescence e = Some (dk_prior_epoch k)" using c e by (auto simp: catchup_ok_def key_valid_for_def)
  have "bp_epoch b = dk_epoch k" using V k by (cases "dk_epoch k") (auto simp: key_valid_for_def)
  then show ?thesis using d sp rq k e l by (auto simp: entry_is_iff [OF D(4)])
qed

lemmas reserve_op_unfold = reserve_op_def reserve_batch_def reserve_draft_catchup_key_def reserve_draft_catchup_restore_key_def
  attempt_def reject_live_reservation_def reject_in_flight_def

lemma validated_batch_publishes:
  assumes inv: "serving_inv C r" and q: "rg_reservation r = None" "rg_in_flight r = None" "rg_next_reservation_id r < U64_MAX"
    and v: "validate_next_batch C r b = Inr ()"
  shows "\<exists>k. serving_step C (reserve_op r b) r = Some (Inr (Reserved (token_for r b)), reserved_for r b k)
    \<and> accepted C (reserved_for r b k) (token_for r b) (live_for r b k)"
proof -
  note V = v [unfolded validate_next_batch_Inr] and res = reserve_validated_batch_eq [OF q(3)]
  consider (plain) "rg_draft_catchup r = None" | (pending) k where "rg_draft_catchup r = Some (CatchupPending k)"
    | (completed) k g where "rg_draft_catchup r = Some (CatchupCompleted k g)"
  proof (cases "rg_draft_catchup r")
    case (Some ph)
    then show thesis using that serving_invD(9) [OF inv] q(2) by (cases ph) (auto simp: catchup_ok_def)
  qed (use that in blast)
  then show ?thesis
  proof cases
    case plain
    have act: "\<not> is_catchup_action (bp_action b)"
      using V plain by (auto simp: classify_next_queue_action_def dest: classify_queue_action_plain)
    then have "accepted C (reserved_for r b None) (token_for r b) (live_for r b None)"
      using plain by (intro reserved_accepted [OF q(2) v]) (cases "bp_action b"; simp)
    then show ?thesis using plain q v act res by (intro exI [of _ None]) (simp add: reserve_op_unfold)
  next
    case (pending k)
    note start = pending_batch_starts [OF inv q(2) pending v]
    have "accepted C (reserved_for r b (Some k)) (token_for r b) (live_for r b (Some k))"
      using start by (intro reserved_accepted [OF q(2) v]) auto
    then show ?thesis using pending q v start res
      by (intro exI [of _ "Some k"]) (simp add: reserve_op_unfold del: validate_draft_catchup_start_Inr)
  next
    case (completed k g)
    have sp: "bp_action b = QuiescentDraftCatchupRestore (bp_plan b)" "sv_target (bp_plan b) = dk_parent k"
      using V completed by (auto simp: classify_next_queue_action_def Let_def split: if_splits)
    have rq: "bp_requests b = [dk_request k]"
      using V validate_ready_roster_catchup [OF completed serving_invD(4) [OF inv]] by auto
    have "accepted C (reserved_for r b None) (token_for r b) (live_for r b None)"
      using completed sp rq by (intro reserved_accepted [OF q(2) v]) auto
    then show ?thesis using completed q v sp rq res by (intro exI [of _ None]) (simp add: reserve_op_unfold)
  qed
qed


subsection \<open>Ready work can run\<close>

text \<open>A planned batch passes the validation of its reservation.\<close>

lemma planned_batch_validates:
  assumes inv: "serving_inv C r" and b: "plan_next C r = Inr (Some b)"
    and cap: "\<And>e. e \<in> set (rg_entries r) \<Longrightarrow> 1 \<le> sv_sequence_capacity (se_plan e)"
  shows "validate_next_batch C r b = Inr ()"
proof -
  note D = serving_invD [OF inv] and B = b [unfolded plan_next_Inr]
  have "validate_ready_roster C r b = Inr ()"
  proof (cases "rg_draft_catchup r")
    case None
    have "min_ready_plan r = Some (bp_plan b)" using B None by (simp add: next_ready_plan_def)
    then obtain e where "e \<in> set (rg_entries r)" "ready e" "se_plan e = bp_plan b" using min_ready_plan_Some(1) by blast
    then have "next_roster C r (bp_plan b) \<noteq> []" using D(1) cap by (metis next_roster_nonempty)
    then show ?thesis using B select_roster_plain [OF D(2) None] validate_ready_roster_Inr [OF None] by auto
  next
    case (Some ph)
    then show ?thesis using B validate_ready_roster_catchup [OF Some D(4), of C b]
      by (auto simp: select_roster_def entry_is_iff [OF D(4)] inline_push_def M1_MAX_32 Let_def split: if_splits)
  qed
  then show ?thesis using B by (simp add: validate_next_batch_Inr)
qed

lemma plan_next_plain:
  assumes inv: "serving_inv C r" and q: "rg_reservation r = None" "rg_in_flight r = None" "rg_draft_catchup r = None"
    and e: "e \<in> set (rg_entries r)" "ready e" and room: "rg_submitted_epoch r < U64_MAX"
    and cl: "\<And>p. min_ready_plan r = Some p \<Longrightarrow> \<exists>a. classify_queue_action (rg_bound_plan r) p = Inr a"
  shows "\<exists>b. plan_next C r = Inr (Some b)"
proof -
  obtain p where p: "min_ready_plan r = Some p" using e min_ready_plan_None [of r] by fastforce
  then obtain a where "classify_queue_action (rg_bound_plan r) p = Inr a" using cl by blast
  then have "plan_next C r = Inr (Some \<lparr>bp_plan = p, bp_requests = next_roster C r p,
      bp_epoch = \<lparr>epoch_value = Suc (rg_submitted_epoch r)\<rparr>, bp_action = a\<rparr>)"
    using p q room select_roster_plain [OF serving_invD(2) [OF inv] q(3)]
    by (simp add: plan_next_Inr next_ready_plan_def classify_next_queue_action_def)
  then show ?thesis by blast
qed

lemma needed_queue_plans:
  assumes inv: "serving_inv C r" and q: "rg_reservation r = None" "rg_in_flight r = None"
    and e: "e \<in> set (rg_entries r)" "ready e" and room: "rg_submitted_epoch r < U64_MAX"
    and p: "rg_bound_plan r = Some p" "ready_work_needs_bound_queue r p"
  shows "\<exists>b. plan_next C r = Inr (Some b)"
proof (cases "rg_draft_catchup r")
  case None
  then show ?thesis using p
    by (intro plan_next_plain [OF inv q None e room])
      (auto simp: ready_work_needs_bound_queue_def next_ready_plan_def classify_queue_action_def)
next
  case (Some ph)
  note D = serving_invD [OF inv]
  let ?k = "catchup_key ph"
  have need: "dk_parent ?k = sv_target p" "entry_is r (dk_request ?k) (\<lambda>e. ready e \<and> se_plan e = p)"
    using p(2) Some by (simp_all add: ready_work_needs_bound_queue_def Let_def)
  obtain x where x: "x \<in> set (rg_entries r)" "se_request x = dk_request ?k" "ready x" "se_plan x = p"
    using need(2) by (auto simp: entry_is_iff [OF D(4)])
  have "find_entry r (dk_request ?k) = Some x" using find_entry_Some [OF D(4)] x by blast
  then have sel: "next_ready_plan r = Some p" using Some x need(1) by (simp add: next_ready_plan_def Let_def)
  have "select_roster C r p = Inr [dk_request ?k]" using Some need(2) by (simp add: select_roster_def inline_push_def M1_MAX_32 Let_def)
  moreover have "\<exists>a. classify_next_queue_action r p = Inr a"
    using Some need p(1) D(9) [OF Some] q(2) by (cases ph) (auto simp: classify_next_queue_action_def catchup_ok_def)
  then obtain a where "classify_next_queue_action r p = Inr a" by blast
  ultimately have "plan_next C r = Inr (Some \<lparr>bp_plan = p, bp_requests = [dk_request ?k],
      bp_epoch = \<lparr>epoch_value = Suc (rg_submitted_epoch r)\<rparr>, bp_action = a\<rparr>)"
    using q room sel by (simp add: plan_next_Inr)
  then show ?thesis by blast
qed

text \<open>Either the retained queue serves the ready work, or it may be retired and a fresh one does.\<close>

lemma ready_work_plans:
  assumes inv: "serving_inv C r" and q: "rg_reservation r = None" "rg_in_flight r = None"
    and e: "e \<in> set (rg_entries r)" "ready e" and room: "rg_submitted_epoch r < U64_MAX"
  shows "\<exists>retire r1 b. (retire = [] \<and> r1 = r \<or> (\<exists>p. retire = [OpRetireQueue p] \<and> r1 = r\<lparr>rg_bound_plan := None, rg_draft_catchup := None\<rparr>))
    \<and> run_ops (serving_step C) retire r = Some r1 \<and> plan_next C r1 = Inr (Some b)"
proof (cases "rg_bound_plan r")
  case None
  then have "rg_draft_catchup r = None"
    using serving_invD(9) [OF inv] q(2) by (cases "rg_draft_catchup r") (fastforce simp: catchup_ok_def split: draft_catchup_phase.splits)+
  then have "\<exists>b. plan_next C r = Inr (Some b)"
    using None by (intro plan_next_plain [OF inv q _ e room]) (auto simp: classify_queue_action_def)
  then show ?thesis by (intro exI [of _ "[]"] exI [of _ r]) auto
next
  case (Some p)
  show ?thesis
  proof (cases "ready_work_needs_bound_queue r p")
    case True
    then show ?thesis using needed_queue_plans [OF inv q e room Some] by (intro exI [of _ "[]"] exI [of _ r]) auto
  next
    case False
    let ?r = "r\<lparr>rg_bound_plan := None, rg_draft_catchup := None\<rparr>"
    have ret: "record_quiescent_queue_retirement r p = (Inr (), ?r)"
      using Some False q by (simp add: record_quiescent_queue_retirement_def attempt_def reject_live_reservation_def reject_in_flight_def)
    then have inv1: "serving_inv C ?r" using record_quiescent_queue_retirement_ok [OF inv, of p] by simp
    have "\<exists>b. plan_next C ?r = Inr (Some b)" using q e room by (intro plan_next_plain [OF inv1]) (auto simp: classify_queue_action_def)
    then show ?thesis using ret Some False by (intro exI [of _ "[OpRetireQueue p]"] exI [of _ ?r]) auto
  qed
qed

lemma validate_ready_roster_nonempty:
  assumes "serving_inv C r" "validate_ready_roster C r b = Inr ()"
  shows "bp_requests b \<noteq> []"
  using assms(2) validate_ready_roster_Inr [of r C b] validate_ready_roster_catchup [of r _ C b] serving_invD(4) [OF assms(1)]
  by (cases "rg_draft_catchup r") auto

lemma planned_batch_publishes:
  assumes inv: "serving_inv C r" and b: "plan_next C r = Inr (Some b)" and n: "rg_next_reservation_id r < U64_MAX"
    and cap: "\<And>e. e \<in> set (rg_entries r) \<Longrightarrow> 1 \<le> sv_sequence_capacity (se_plan e)"
  shows "\<exists>rv r2 r3. serving_step C (reserve_op r b) r = Some (Inr (Reserved rv), r2)
    \<and> serving_step C (OpRecord rv) r2 = Some (Inr Acknowledged, r3) \<and> bp_requests b \<noteq> []
    \<and> rg_in_flight r3 = Some \<lparr>fb_plan = bp_plan b, fb_requests = bp_requests b, fb_epoch = bp_epoch b\<rparr>"
proof -
  have v: "validate_next_batch C r b = Inr ()" using cap by (rule planned_batch_validates [OF inv b])
  have q: "rg_reservation r = None" "rg_in_flight r = None" using b by (simp_all add: plan_next_Inr)
  obtain k where k: "serving_step C (reserve_op r b) r = Some (Inr (Reserved (token_for r b)), reserved_for r b k)"
    "accepted C (reserved_for r b k) (token_for r b) (live_for r b k)"
    using validated_batch_publishes [OF inv q n v] by (elim exE conjE) (rule that)
  let ?r3 = "publish (token_for r b) (live_for r b k) (reserved_for r b k)"
  have "serving_step C (OpRecord (token_for r b)) (reserved_for r b k) = Some (Inr Acknowledged, ?r3)"
    using record_publication_accepted [OF k(2)] by simp
  moreover have "rg_in_flight ?r3 = Some \<lparr>fb_plan = bp_plan b, fb_requests = bp_requests b, fb_epoch = bp_epoch b\<rparr>"
    by (simp add: publish_def set_in_flight_def token_for_def)
  moreover have "bp_requests b \<noteq> []"
    using validate_ready_roster_nonempty [OF inv] v [unfolded validate_next_batch_Inr] by blast
  ultimately show ?thesis using k(1) by blast
qed

subsection \<open>Batches in flight can complete\<close>

text \<open>A completion lane is accepted unless it lets a cancelled request go on or sends one back to prefill.\<close>

definition lane_allowed :: "serving_entry \<Rightarrow> serving_disposition \<Rightarrow> bool" where
  "lane_allowed e d \<longleftrightarrow> (case d of RetireRequest \<Rightarrow> True
     | ContinueWith p \<Rightarrow> sv_mode p \<noteq> Prefill \<and> (\<exists>epoch. se_phase e = PhaseInFlight epoch))"

lemma validate_disposition_Inr [simp]:
  "active e \<Longrightarrow> validate_disposition e d = Inr u \<longleftrightarrow> lane_allowed e d"
  by (cases "se_phase e"; cases d) (auto simp: validate_disposition_def lane_allowed_def)

lemma validate_completion_lanes_Inr:
  assumes "\<And>q d. (q, d) \<in> set ds \<Longrightarrow> \<exists>e. find_entry r q = Some e \<and> phase_epoch (se_phase e) = Some epoch \<and> se_plan e = p"
  shows "validate_completion_lanes r p epoch lane ds = Inr u \<longleftrightarrow>
    (\<forall>(q, d) \<in> set ds. \<forall>e. find_entry r q = Some e \<longrightarrow> lane_allowed e d)"
  using assms
proof (induction r p epoch lane ds rule: validate_completion_lanes.induct)
  case (2 r p epoch lane q d rest)
  obtain e where e: "find_entry r q = Some e" "phase_epoch (se_phase e) = Some epoch" "se_plan e = p" using 2(2) [of q d] by auto
  have "validate_completion_lanes r p epoch (lane + 1) rest = Inr u \<longleftrightarrow>
      (\<forall>(q, d) \<in> set rest. \<forall>e. find_entry r q = Some e \<longrightarrow> lane_allowed e d)"
    by (rule "2.IH" [of e]) (use e in simp, rule 2(2), erule list.set_intros)
  then show ?case using e by auto
qed simp

lemma flight_explicit:
  assumes inv: "serving_inv C r" and b: "rg_in_flight r = Some b"
  shows "rg_submitted_epoch r = Suc (rg_completed_epoch r)" "epoch_value (fb_epoch b) = rg_submitted_epoch r"
    "fb_requests b = map se_request (filter active (rg_entries r))" "fb_requests b \<noteq> []"
    "length (fb_requests b) \<le> min C (sv_sequence_capacity (fb_plan b))"
    "\<And>e. e \<in> set (rg_entries r) \<Longrightarrow> active e \<Longrightarrow> phase_epoch (se_phase e) = Some (fb_epoch b) \<and> se_plan e = fb_plan b"
proof -
  have F: "flight_ok C r b" by (rule serving_invD(7) [OF inv b])
  then show "rg_submitted_epoch r = Suc (rg_completed_epoch r)" "epoch_value (fb_epoch b) = rg_submitted_epoch r"
    "fb_requests b \<noteq> []" "length (fb_requests b) \<le> min C (sv_sequence_capacity (fb_plan b))"
    unfolding flight_ok_def by blast+
  have "map fst (active_view (rg_entries r)) = map se_request (filter active (rg_entries r))"
    by (simp add: active_view_def view_def comp_def)
  then show "fb_requests b = map se_request (filter active (rg_entries r))" using F unfolding flight_ok_def by metis
  show "phase_epoch (se_phase e) = Some (fb_epoch b) \<and> se_plan e = fb_plan b" if "e \<in> set (rg_entries r)" "active e" for e
    using F that in_active_view [of "view e" "rg_entries r"] by (auto simp: flight_ok_def view_def)
qed

lemma flight_lanes:
  assumes inv: "serving_inv C r" and b: "rg_in_flight r = Some b" and q: "q \<in> set (fb_requests b)"
  shows "\<exists>e. find_entry r q = Some e \<and> phase_epoch (se_phase e) = Some (fb_epoch b) \<and> se_plan e = fb_plan b"
proof -
  note D = serving_invD [OF inv]
  have F: "flight_ok C r b" by (rule D(7) [OF b])
  obtain x where x: "x \<in> set (active_view (rg_entries r))" "fst x = q" using F q by (auto simp: flight_ok_def)
  then obtain e where e: "e \<in> set (rg_entries r)" "x = view e" by (auto simp: in_active_view)
  then show ?thesis using F x find_entry_Some [OF D(4), of q e] by (auto simp: flight_ok_def view_def)
qed

lemma flight_completes:
  assumes inv: "serving_inv C r" and b: "rg_in_flight r = Some b"
  shows "\<exists>op r'. serving_step C op r = Some (Inr Acknowledged, r') \<and> rg_in_flight r' = None
    \<and> rg_completed_epoch r' = rg_submitted_epoch r"
proof -
  note D = serving_invD [OF inv]
  have sub: "epoch_value (fb_epoch b) = rg_submitted_epoch r" using D(7) [OF b] by (simp add: flight_ok_def)
  consider (plain) "rg_draft_catchup r = None" | (catchup) k where "rg_draft_catchup r = Some (CatchupInFlight k)"
  proof (cases "rg_draft_catchup r")
    case (Some ph)
    then show thesis using that D(9) b by (cases ph) (auto simp: catchup_ok_def)
  qed (use that in blast)
  then show ?thesis
  proof cases
    case plain
    let ?ds = "replicate (length (fb_requests b)) RetireRequest"
    have "validate_completion_lanes r (fb_plan b) (fb_epoch b) 0 (zip (fb_requests b) ?ds) = Inr ()"
      using flight_lanes [OF inv b]
      by (subst validate_completion_lanes_Inr) (auto simp: lane_allowed_def dest: set_zip_leftD set_zip_rightD)
    then have v: "validate_completion_exact r (fb_epoch b) ?ds = Inr ()"
      unfolding validate_completion_exact_Inr [OF inv] using plain b by auto
    obtain r' where "apply_validated_completion r (fb_epoch b) ?ds = Some r'" "rg_in_flight r' = None"
      "rg_completed_epoch r' = epoch_value (fb_epoch b)"
      using completion_inv [OF inv b, of ?ds None] by auto
    then show ?thesis using v sub
      by (intro exI [of _ "OpComplete (rg_identity r) (fb_epoch b) ?ds"] exI [of _ r'])
        (simp add: complete_exact_for_def preflight_completion_exact_for_def)
  next
    case (catchup k)
    obtain d where d: "validate_draft_catchup_completion r k (Suc (dk_prior_dispatch_generation k)) = Inr d"
      using validate_draft_catchup_completion_Inr [OF inv] catchup by blast
    have k: "fb_requests b = [dk_request k]" "fb_epoch b = dk_epoch k" using D(9) [OF catchup] b by (auto simp: catchup_ok_def)
    obtain r' where "apply_validated_completion r (dk_epoch k) [d] = Some r'" "rg_in_flight r' = None"
      "rg_completed_epoch r' = epoch_value (fb_epoch b)"
      using completion_inv [OF inv b, of "[d]" None] k by auto
    then show ?thesis using d sub
      by (intro exI [of _ "OpCompleteCatchup k (Suc (dk_prior_dispatch_generation k))"]
          exI [of _ "r'\<lparr>rg_draft_catchup := Some (CatchupCompleted k (Suc (dk_prior_dispatch_generation k)))\<rparr>"])
        (simp add: complete_draft_catchup_key_def)
  qed
qed

end
