(* ===== verification/ServingRegistry_Properties.thy ===== *)
theory ServingRegistry_Properties
  imports ServingRegistry_Progress
begin

text \<open>
  The properties of the serving registry: exclusion and homogeneity of batches, progress, one-shot reservations, exact
  completion, selection, and the round trip of a window replacement.
\<close>

definition serving_reachable :: "usize \<Rightarrow> serving_op list \<Rightarrow> serving_registry \<Rightarrow> bool" where
  "serving_reachable C ops r \<longleftrightarrow> (\<exists>counter counter' r0. serving_registry_new C counter = (Inr r0, counter')
     \<and> run_ops (serving_step C) ops r0 = Some r)"

lemma serving_registry_new_inv: "serving_registry_new C counter = (Inr r, counter') \<Longrightarrow> serving_inv C r"
  using empty_registry_inv [of C counter]
  by (auto simp: serving_registry_new_def fresh_registry_identity_def M1_MAX_32 split: if_splits option.splits)

lemma serving_reachable_inv: "serving_reachable C ops r \<Longrightarrow> serving_inv C r"
  unfolding serving_reachable_def using serving_registry_new_inv serving.run_inv by blast

lemma serving_reachable_snoc:
  assumes "serving_reachable C ops r" "serving_step C op r = Some (res, r')"
  shows "serving_reachable C (ops @ [op]) r'"
proof -
  obtain n n' r0 where "serving_registry_new C n = (Inr r0, n')" "run_ops (serving_step C) ops r0 = Some r"
    using assms(1) by (auto simp: serving_reachable_def)
  moreover from this have "run_ops (serving_step C) (ops @ [op]) r0 = Some r'" using assms(2) by (simp add: run_ops_append)
  ultimately show ?thesis unfolding serving_reachable_def by blast
qed

lemma serving_plan_new_capacity:
  "serving_plan_new target draft = Inr p \<Longrightarrow> 1 \<le> sv_sequence_capacity p \<and> sv_sequence_capacity p \<le> 32"
  by (auto simp: serving_plan_new_def M1_MAX_32 Let_def split: if_splits option.splits)

subsection \<open>A run of one request\<close>

definition served_first :: request_id where "served_first = \<lparr>slot = 0, generation = 1\<rparr>"
definition served_second :: request_id where "served_second = \<lparr>slot = 0, generation = 2\<rparr>"

definition served_plan :: serving_plan where
  "served_plan = \<lparr>sv_target = \<lparr>sel_role = Target8B, sel_mode = Prefill, sel_bucket = PrefillS1T128\<rparr>,
     sv_draft = \<lparr>sel_role = Draft06B, sel_mode = Prefill, sel_bucket = PrefillS1T128\<rparr>,
     sv_shape = PairedPrefill, sv_sequence_capacity = 1\<rparr>"

definition served_batch :: batch_plan where
  "served_batch = \<lparr>bp_plan = served_plan, bp_requests = [served_first], bp_epoch = \<lparr>epoch_value = 1\<rparr>, bp_action = FreshLaunch\<rparr>"

definition served_token :: publication_reservation where
  "served_token = \<lparr>rv_registry_identity = 7, rv_id = 1, rv_batch = served_batch\<rparr>"

definition served_entry :: "serving_phase \<Rightarrow> completion_epoch option \<Rightarrow> serving_entry" where
  "served_entry ph q = \<lparr>se_request = served_first, se_plan = served_plan, se_phase = ph, se_last_quiescence = q\<rparr>"

definition served_admitted :: serving_registry where
  "served_admitted = (empty_registry 7)\<lparr>rg_entries := [served_entry PhaseReady None]\<rparr>"

definition served_reserved :: serving_registry where
  "served_reserved = served_admitted\<lparr>rg_reservation := Some \<lparr>lv_id = 1, lv_plan = served_plan, lv_epoch = \<lparr>epoch_value = 1\<rparr>,
     lv_action = FreshLaunch, lv_draft_catchup = None\<rparr>, rg_next_reservation_id := 2\<rparr>"

definition served_flying :: serving_registry where
  "served_flying = set_in_flight served_batch (served_reserved\<lparr>rg_entries := [served_entry (PhaseInFlight \<lparr>epoch_value = 1\<rparr>) None]\<rparr>)"

definition served_finished :: serving_registry where
  "served_finished = served_flying\<lparr>rg_in_flight := None, rg_completed_epoch := 1,
     rg_entries := [served_entry (PhaseRetired (QuiescentAt \<lparr>epoch_value = 1\<rparr>)) (Some \<lparr>epoch_value = 1\<rparr>)]\<rparr>"

lemmas served_defs = served_first_def served_second_def served_plan_def served_batch_def served_token_def served_entry_def
  served_admitted_def served_reserved_def served_flying_def served_finished_def

lemma served_plan_new:
  "serving_plan_new \<lparr>sel_role = Target8B, sel_mode = Prefill, sel_bucket = PrefillS1T128\<rparr>
     \<lparr>sel_role = Draft06B, sel_mode = Prefill, sel_bucket = PrefillS1T128\<rparr> = Inr served_plan"
  by (simp add: serving_plan_new_def served_plan_def plan_dims_def M1_MAX_32 Let_def)

lemma served_new: "serving_registry_new 1 7 = (Inr (empty_registry 7), 8)"
  by (simp add: serving_registry_new_def fresh_registry_identity_def exec_simps M1_MAX_32)

lemma served_admit: "serving_step 1 (OpAdmit served_first served_plan) (empty_registry 7) = Some (Inr Acknowledged, served_admitted)"
  by (simp add: admit_request_def attempt_def reject_live_reservation_def empty_registry_def fresh_entry_def served_defs)

lemma served_next: "plan_next 1 served_admitted = Inr (Some served_batch)"
  by (simp add: plan_next_Inr next_ready_plan_def min_ready_plan_def select_roster_def ready_roster_def inline_push_def
      classify_next_queue_action_def classify_queue_action_def empty_registry_def M1_MAX_32 served_defs Let_def ok_or_def)

lemma served_reserve: "serving_step 1 (OpReserve served_batch) served_admitted = Some (Inr (Reserved served_token), served_reserved)"
proof -
  have inv: "serving_inv 1 served_admitted"
    using serving.step_inv [OF empty_registry_inv served_admit] by simp
  have "validate_next_batch 1 served_admitted served_batch = Inr ()"
    by (rule planned_batch_validates [OF inv served_next]) (simp add: served_defs)
  then show ?thesis
    by (simp add: reserve_batch_def attempt_def reject_live_reservation_def reject_in_flight_def reserve_validated_batch_def ok_or_def
        exec_simps empty_registry_def served_defs Let_def)
qed

lemma served_record: "record_publication 1 served_reserved served_token = Some (Inr (), served_flying)"
proof -
  have "validate_reservation 1 served_reserved served_token = Inr ()"
    unfolding validate_reservation_Inr
    by (intro exI) (auto simp: accepted_def validate_ready_roster_Inr next_roster_def ready_roster_def u64_saturating_add_def
        empty_registry_def served_defs)
  then show ?thesis by (simp add: record_publication_def empty_registry_def served_defs set_in_flight_def)
qed

lemma served_complete: "complete_exact_for served_flying 7 \<lparr>epoch_value = 1\<rparr> [RetireRequest] = Some (Inr (), served_finished)"
  by (simp add: complete_exact_for_def preflight_completion_exact_for_def validate_completion_exact_def sum_bind_def
      reject_live_reservation_def ok_or_def u64_saturating_add_def find_entry_def validate_disposition_def
      apply_validated_completion_def completed_entry_def set_in_flight_def empty_registry_def served_defs)

lemma served_runs:
  "serving_reachable 1 [OpAdmit served_first served_plan] served_admitted"
  "serving_reachable 1 [OpAdmit served_first served_plan, OpReserve served_batch] served_reserved"
  "serving_reachable 1 [OpAdmit served_first served_plan, OpReserve served_batch, OpRecord served_token] served_flying"
  "serving_reachable 1 [OpAdmit served_first served_plan, OpReserve served_batch, OpRecord served_token,
     OpComplete 7 \<lparr>epoch_value = 1\<rparr> [RetireRequest]] served_finished"
proof -
  have 0: "serving_reachable 1 [] (empty_registry 7)" unfolding serving_reachable_def using served_new by (intro exI) simp
  show 1: "serving_reachable 1 [OpAdmit served_first served_plan] served_admitted"
    using serving_reachable_snoc [OF 0 served_admit] by simp
  show 2: "serving_reachable 1 [OpAdmit served_first served_plan, OpReserve served_batch] served_reserved"
    using serving_reachable_snoc [OF 1 served_reserve] by simp
  have "serving_step 1 (OpRecord served_token) served_reserved = Some (Inr Acknowledged, served_flying)" using served_record by simp
  from serving_reachable_snoc [OF 2 this]
  show 3: "serving_reachable 1 [OpAdmit served_first served_plan, OpReserve served_batch, OpRecord served_token] served_flying" by simp
  have "serving_step 1 (OpComplete 7 \<lparr>epoch_value = 1\<rparr> [RetireRequest]) served_flying = Some (Inr Acknowledged, served_finished)"
    using served_complete by simp
  from serving_reachable_snoc [OF 3 this]
  show "serving_reachable 1 [OpAdmit served_first served_plan, OpReserve served_batch, OpRecord served_token,
     OpComplete 7 \<lparr>epoch_value = 1\<rparr> [RetireRequest]] served_finished" by simp
qed

subsection \<open>Exclusion\<close>

text \<open>C29: whatever calls are made on a registry, with arbitrary plans, batches, reservations and completions, none
  panics, and in the state they leave at most one batch is in flight, one epoch ahead of the completed one: it is
  non-empty, fits the registry and its plan, names exactly the requests that are in flight or awaiting cancellation, in
  admission order, all of them at its epoch and under its plan.  Without a batch in flight nothing is in flight.  No
  request is entered twice, and only a request with a completed step is ever scheduled beyond prefill.\<close>

theorem serving_batch_exclusive:
  assumes "serving_registry_new C counter = (Inr r0, counter')"
  shows "\<exists>r. run_ops (serving_step C) ops r0 = Some r
    \<and> length (rg_entries r) \<le> C \<and> distinct (map se_request (rg_entries r))
    \<and> (\<forall>e \<in> set (rg_entries r). sv_mode (se_plan e) \<noteq> Prefill \<longrightarrow> se_last_quiescence e \<noteq> None)
    \<and> (case rg_in_flight r of
         None \<Rightarrow> rg_submitted_epoch r = rg_completed_epoch r \<and> (\<forall>e \<in> set (rg_entries r). phase_epoch (se_phase e) = None)
       | Some b \<Rightarrow> rg_submitted_epoch r = Suc (rg_completed_epoch r) \<and> epoch_value (fb_epoch b) = rg_submitted_epoch r
           \<and> fb_requests b = map se_request (filter (\<lambda>e. phase_epoch (se_phase e) \<noteq> None) (rg_entries r))
           \<and> fb_requests b \<noteq> [] \<and> length (fb_requests b) \<le> min C (sv_sequence_capacity (fb_plan b))
           \<and> (\<forall>e \<in> set (rg_entries r). phase_epoch (se_phase e) \<noteq> None \<longrightarrow>
                phase_epoch (se_phase e) = Some (fb_epoch b) \<and> se_plan e = fb_plan b))"
proof -
  obtain r where r: "run_ops (serving_step C) ops r0 = Some r" "serving_inv C r"
    using serving.run_safe [OF serving_registry_new_inv [OF assms]] by blast
  note D = serving_invD [OF r(2)]
  have q: "\<forall>e \<in> set (rg_entries r). sv_mode (se_plan e) \<noteq> Prefill \<longrightarrow> se_last_quiescence e \<noteq> None"
    using D(5) unfolding entry_ok_def by blast
  show ?thesis
  proof (cases "rg_in_flight r")
    case None
    then have "rg_submitted_epoch r = rg_completed_epoch r \<and> (\<forall>e \<in> set (rg_entries r). phase_epoch (se_phase e) = None)"
      using D(6) by (auto simp: quiet_def active_view_empty)
    then show ?thesis using None r(1) D(3,4) q by (intro exI [of _ r]) simp
  next
    case (Some b)
    note F = flight_explicit [OF r(2) Some]
    show ?thesis unfolding r(1) using Some D(3,4) q F(1,2,4-6) F(3) by (intro exI [of _ r]) (simp only: option.case simp_thms, blast)
  qed
qed

theorem serving_batch_exclusive_witness:
  "\<exists>r. run_ops (serving_step 1) [OpAdmit served_first served_plan, OpReserve served_batch, OpRecord served_token] (empty_registry 7) = Some r
    \<and> length (rg_entries r) \<le> 1"
  using serving_batch_exclusive [OF served_new, of "[OpAdmit served_first served_plan, OpReserve served_batch, OpRecord served_token]"]
  by blast

subsection \<open>Progress\<close>

text \<open>C30: the registry never gets stuck.  A batch in flight can always be completed by the one call its kind asks for.
  A quiescent registry with a ready request, counters not exhausted, can always publish: either its plan exists as it
  stands or the retained queue may be retired and then it does; the planned batch is accepted by the reservation call
  for the draft catch-up at hand, and recording that reservation puts exactly the planned batch in flight.\<close>

theorem serving_never_stuck:
  assumes reach: "serving_reachable C ops r"
    and plans: "\<forall>e \<in> set (rg_entries r). \<exists>target draft. serving_plan_new target draft = Inr (se_plan e)"
  shows "(rg_in_flight r \<noteq> None \<longrightarrow> (\<exists>op r'. serving_step C op r = Some (Inr Acknowledged, r') \<and> rg_in_flight r' = None
        \<and> rg_completed_epoch r' = rg_submitted_epoch r))
    \<and> (rg_in_flight r = None \<and> rg_reservation r = None \<and> (\<exists>e \<in> set (rg_entries r). ready e)
        \<and> rg_submitted_epoch r < U64_MAX \<and> rg_next_reservation_id r < U64_MAX \<longrightarrow>
        (\<exists>retire r1 b rv r2 r3. (retire = [] \<or> (\<exists>p. retire = [OpRetireQueue p]))
           \<and> run_ops (serving_step C) retire r = Some r1 \<and> plan_next C r1 = Inr (Some b)
           \<and> serving_step C (reserve_op r1 b) r1 = Some (Inr (Reserved rv), r2)
           \<and> serving_step C (OpRecord rv) r2 = Some (Inr Acknowledged, r3)
           \<and> bp_requests b \<noteq> []
           \<and> rg_in_flight r3 = Some \<lparr>fb_plan = bp_plan b, fb_requests = bp_requests b, fb_epoch = bp_epoch b\<rparr>))"
proof (intro conjI impI)
  note inv = serving_reachable_inv [OF reach]
  show "\<exists>op r'. serving_step C op r = Some (Inr Acknowledged, r') \<and> rg_in_flight r' = None \<and> rg_completed_epoch r' = rg_submitted_epoch r"
    if "rg_in_flight r \<noteq> None" using flight_completes [OF inv] that by blast
  assume q: "rg_in_flight r = None \<and> rg_reservation r = None \<and> (\<exists>e \<in> set (rg_entries r). ready e)
    \<and> rg_submitted_epoch r < U64_MAX \<and> rg_next_reservation_id r < U64_MAX"
  then obtain e where e: "rg_reservation r = None" "rg_in_flight r = None" "e \<in> set (rg_entries r)" "ready e" "rg_submitted_epoch r < U64_MAX"
    by blast
  obtain retire r1 b where r1: "retire = [] \<and> r1 = r \<or> (\<exists>p. retire = [OpRetireQueue p]
      \<and> r1 = r\<lparr>rg_bound_plan := None, rg_draft_catchup := None\<rparr>)"
    "run_ops (serving_step C) retire r = Some r1" "plan_next C r1 = Inr (Some b)"
    using ready_work_plans [OF inv e] by (elim exE conjE) (rule that)
  have shape: "retire = [] \<or> (\<exists>p. retire = [OpRetireQueue p])" using r1(1) by blast
  have inv1: "serving_inv C r1" using serving.run_inv [OF inv r1(2)] .
  have same: "rg_entries r1 = rg_entries r" "rg_next_reservation_id r1 < U64_MAX" using r1(1) q by auto
  have cap: "1 \<le> sv_sequence_capacity (se_plan e)" if "e \<in> set (rg_entries r1)" for e
    using plans serving_plan_new_capacity that same(1) by metis
  show "\<exists>retire r1 b rv r2 r3. (retire = [] \<or> (\<exists>p. retire = [OpRetireQueue p]))
           \<and> run_ops (serving_step C) retire r = Some r1 \<and> plan_next C r1 = Inr (Some b)
           \<and> serving_step C (reserve_op r1 b) r1 = Some (Inr (Reserved rv), r2)
           \<and> serving_step C (OpRecord rv) r2 = Some (Inr Acknowledged, r3)
           \<and> bp_requests b \<noteq> []
           \<and> rg_in_flight r3 = Some \<lparr>fb_plan = bp_plan b, fb_requests = bp_requests b, fb_epoch = bp_epoch b\<rparr>"
    using shape r1(2,3) planned_batch_publishes [OF inv1 r1(3) same(2), OF cap] by blast
qed

theorem serving_never_stuck_witness:
  "\<exists>retire r1 b rv r2 r3. run_ops (serving_step 1) retire served_admitted = Some r1 \<and> plan_next 1 r1 = Inr (Some b)
     \<and> serving_step 1 (reserve_op r1 b) r1 = Some (Inr (Reserved rv), r2)
     \<and> serving_step 1 (OpRecord rv) r2 = Some (Inr Acknowledged, r3) \<and> rg_in_flight r3 \<noteq> None"
proof -
  have p: "\<forall>e \<in> set (rg_entries served_admitted). \<exists>target draft. serving_plan_new target draft = Inr (se_plan e)"
    using served_plan_new by (auto simp: served_admitted_def served_entry_def)
  have "rg_in_flight served_admitted = None \<and> rg_reservation served_admitted = None \<and> (\<exists>e \<in> set (rg_entries served_admitted). ready e)
    \<and> rg_submitted_epoch served_admitted < U64_MAX \<and> rg_next_reservation_id served_admitted < U64_MAX"
    by (simp add: served_admitted_def served_entry_def empty_registry_def)
  then show ?thesis using conjunct2 [OF serving_never_stuck [OF served_runs(1) p]] by (metis option.distinct(1))
qed


subsection \<open>Reservations\<close>

lemma published_is_spent:
  assumes inv: "serving_inv C r"
    and done_: "record_publication C r rv = Some (Inr (), r1) \<or> abort_publication C r rv = (Inr (), r1)"
  shows "serving_inv C r1" "spent_reservation r1 (rv_id rv)"
proof -
  have "validate_reservation C r rv = Inr ()"
    using done_ by (cases "validate_reservation C r rv") (auto simp: record_publication_def abort_publication_def)
  then obtain lv where lv: "accepted C r rv lv" using validate_reservation_Inr by blast
  then have "rv_id rv < rg_next_reservation_id r" using serving_invD(8) [OF inv] by (auto simp: accepted_def reservation_ok_def)
  moreover have "r1 = publish rv lv r \<or> r1 = r\<lparr>rg_reservation := None\<rparr>"
    using done_ record_publication_accepted [OF lv] by (auto simp: abort_publication_def split: sum.splits)
  ultimately show "spent_reservation r1 (rv_id rv)"
    by (auto simp: spent_reservation_def publish_def set_in_flight_def)
  show "serving_inv C r1"
    using done_ publish_inv [OF inv lv] record_publication_accepted [OF lv] abort_publication_ok [OF inv, of rv] by auto
qed

lemma spent_validate: "spent_reservation r (rv_id rv) \<Longrightarrow> \<exists>e. validate_reservation C r rv = Inl e"
  using spent_refused [of r rv C] validate_reservation_Inr [of C r rv] by (cases "validate_reservation C r rv") auto

text \<open>C31: a reservation is used at most once.  After it has been recorded or aborted, in every later state of the
  registry, whatever calls came between, it is refused, handed back and changes nothing, presented as it is or inside a
  window reservation.\<close>

theorem serving_reservation_once:
  assumes "serving_reachable C ops r"
    and "record_publication C r rv = Some (Inr (), r1) \<or> abort_publication C r rv = (Inr (), r1)"
    and "run_ops (serving_step C) later r1 = Some r2"
  shows "(\<exists>e. record_publication C r2 rv = Some (Inl (e, rv), r2)) \<and> (\<exists>e. abort_publication C r2 rv = (Inl (e, rv), r2))
    \<and> (\<forall>w. nw_publication w = rv \<longrightarrow> (\<exists>e. restore_window_replacement C r2 w = Some (Inl (e, w), r2))
         \<and> (\<exists>e. record_window_publication C r2 w = Some (Inl (e, w), r2)))"
proof -
  note sp = published_is_spent [OF serving_reachable_inv [OF assms(1)] assms(2)]
  have "spent_reservation r2 (rv_id rv)" by (rule run_spent [OF sp assms(3)])
  then obtain e where e: "validate_reservation C r2 rv = Inl e" using spent_validate by blast
  then have "validate_window_reservation C r2 w = Some (Inl e)" if "nw_publication w = rv" for w
    using that by (simp add: validate_window_reservation_def sum_bind_def)
  then show ?thesis using e
    by (simp add: record_publication_def abort_publication_def restore_window_replacement_def record_window_publication_def)
qed

theorem serving_reservation_once_witness:
  "\<exists>e. record_publication 1 served_flying served_token = Some (Inl (e, served_token), served_flying)"
  using serving_reservation_once [OF served_runs(2) disjI1 [OF served_record], of "[]"] by simp

subsection \<open>Completion\<close>

lemma complete_exact_success:
  assumes inv: "serving_inv C r"
  shows "complete_exact_for r n epoch ds = Some (Inr (), r') \<longleftrightarrow> n = rg_identity r \<and> rg_draft_catchup r = None
    \<and> (\<exists>b. rg_in_flight r = Some b \<and> fb_epoch b = epoch \<and> length ds = length (fb_requests b)
        \<and> validate_completion_lanes r (fb_plan b) epoch 0 (zip (fb_requests b) ds) = Inr ()
        \<and> r' = r\<lparr>rg_in_flight := None, rg_entries := map (settled epoch (zip (fb_requests b) ds)) (rg_entries r),
            rg_completed_epoch := Suc (rg_completed_epoch r)\<rparr>)"
    (is "?L \<longleftrightarrow> ?R")
proof -
  have eq: "apply_validated_completion r (fb_epoch b) ds = Some (r\<lparr>rg_in_flight := None,
      rg_entries := map (settled (fb_epoch b) (zip (fb_requests b) ds)) (rg_entries r), rg_completed_epoch := Suc (rg_completed_epoch r)\<rparr>)"
    if b: "rg_in_flight r = Some b" "length ds = length (fb_requests b)" for b
    using completion_inv [OF inv b, of None] flight_explicit(1,2) [OF inv b(1)] by auto
  show ?thesis
  proof
    assume L: ?L
    then have "preflight_completion_exact_for r n epoch ds = Inr ()"
      by (cases "preflight_completion_exact_for r n epoch ds") (auto simp: complete_exact_for_def)
    then have v: "n = rg_identity r" "validate_completion_exact r epoch ds = Inr ()"
      by (auto simp: preflight_completion_exact_for_def split: if_splits)
    then obtain b where b: "rg_in_flight r = Some b" "fb_epoch b = epoch" "length ds = length (fb_requests b)" "rg_draft_catchup r = None"
      "validate_completion_lanes r (fb_plan b) epoch 0 (zip (fb_requests b) ds) = Inr ()"
      using validate_completion_exact_Inr [OF inv] by auto
    then show ?R using L v eq [OF b(1,3)] by (auto simp: complete_exact_for_def preflight_completion_exact_for_def)
  next
    assume R: ?R
    then obtain b where b: "rg_in_flight r = Some b" "fb_epoch b = epoch" "length ds = length (fb_requests b)" by blast
    have "validate_completion_exact r epoch ds = Inr ()" using R validate_completion_exact_Inr [OF inv] by auto
    then show ?L using R eq [OF b(1,3)] b by (auto simp: complete_exact_for_def preflight_completion_exact_for_def)
  qed
qed

lemma lanes_by_phase:
  assumes inv: "serving_inv C r" and b: "rg_in_flight r = Some b" and len: "length ds = length (fb_requests b)"
  shows "validate_completion_lanes r (fb_plan b) (fb_epoch b) 0 (zip (fb_requests b) ds) = Inr () \<longleftrightarrow>
    (\<forall>i < length ds. \<forall>p. ds ! i = ContinueWith p \<longrightarrow>
       sv_mode p \<noteq> Prefill \<and> registry_phase r (fb_requests b ! i) = Some (PhaseInFlight (fb_epoch b)))"
proof -
  have lane: "\<exists>e. find_entry r (fb_requests b ! i) = Some e \<and> phase_epoch (se_phase e) = Some (fb_epoch b)" if "i < length ds" for i
    using flight_lanes [OF inv b, of "fb_requests b ! i"] that len by auto
  have ph: "(\<forall>e. find_entry r q = Some e \<longrightarrow> lane_allowed e d) \<longleftrightarrow>
      (\<forall>p. d = ContinueWith p \<longrightarrow> sv_mode p \<noteq> Prefill \<and> registry_phase r q = Some (PhaseInFlight (fb_epoch b)))"
    if "\<exists>e. find_entry r q = Some e \<and> phase_epoch (se_phase e) = Some (fb_epoch b)" for q d
    using that by (cases d) (auto simp: lane_allowed_def registry_phase_def)
  have "validate_completion_lanes r (fb_plan b) (fb_epoch b) 0 (zip (fb_requests b) ds) = Inr () \<longleftrightarrow>
      (\<forall>(q, d) \<in> set (zip (fb_requests b) ds). \<forall>e. find_entry r q = Some e \<longrightarrow> lane_allowed e d)"
    using flight_lanes [OF inv b] by (intro validate_completion_lanes_Inr) (auto dest: set_zip_leftD)
  also have "\<dots> \<longleftrightarrow> (\<forall>i < length ds. \<forall>e. find_entry r (fb_requests b ! i) = Some e \<longrightarrow> lane_allowed e (ds ! i))"
    using len by (auto simp: set_zip)
  finally show ?thesis using ph [OF lane] by blast
qed

text \<open>C32: a completion is accepted exactly when no draft catch-up is recorded (one that is must be completed with its
  own witness first) and the completion names this registry, the epoch of the batch in flight and one disposition for every
  member, and continues only members whose cancellation was not requested, never into prefill; it then settles
  every member in roster order, touches no other request and advances the completed epoch by one.  Any other completion
  is refused and changes nothing; neither panics.\<close>

theorem serving_completion_exact:
  assumes "serving_reachable C ops r"
  shows "(complete_exact_for r n epoch ds = Some (Inr (), r') \<longleftrightarrow> n = rg_identity r \<and> rg_draft_catchup r = None
      \<and> (\<exists>b. rg_in_flight r = Some b \<and> fb_epoch b = epoch \<and> length ds = length (fb_requests b)
          \<and> (\<forall>i < length ds. \<forall>p. ds ! i = ContinueWith p \<longrightarrow>
               sv_mode p \<noteq> Prefill \<and> registry_phase r (fb_requests b ! i) = Some (PhaseInFlight epoch))
          \<and> r' = r\<lparr>rg_in_flight := None,
              rg_entries := map (\<lambda>e. case map_of (zip (fb_requests b) ds) (se_request e) of
                  None \<Rightarrow> e | Some d \<Rightarrow> completed_entry epoch d e) (rg_entries r),
              rg_completed_epoch := Suc (rg_completed_epoch r)\<rparr>))
    \<and> (\<exists>res r1. complete_exact_for r n epoch ds = Some (res, r1) \<and> (\<forall>e. res = Inl e \<longrightarrow> r1 = r))"
proof
  note inv = serving_reachable_inv [OF assms]
  show "complete_exact_for r n epoch ds = Some (Inr (), r') \<longleftrightarrow> n = rg_identity r \<and> rg_draft_catchup r = None
      \<and> (\<exists>b. rg_in_flight r = Some b \<and> fb_epoch b = epoch \<and> length ds = length (fb_requests b)
          \<and> (\<forall>i < length ds. \<forall>p. ds ! i = ContinueWith p \<longrightarrow>
               sv_mode p \<noteq> Prefill \<and> registry_phase r (fb_requests b ! i) = Some (PhaseInFlight epoch))
          \<and> r' = r\<lparr>rg_in_flight := None,
              rg_entries := map (\<lambda>e. case map_of (zip (fb_requests b) ds) (se_request e) of
                  None \<Rightarrow> e | Some d \<Rightarrow> completed_entry epoch d e) (rg_entries r),
              rg_completed_epoch := Suc (rg_completed_epoch r)\<rparr>)"
    unfolding complete_exact_success [OF inv] settled_def [abs_def] using lanes_by_phase [OF inv] by blast
  show "\<exists>res r1. complete_exact_for r n epoch ds = Some (res, r1) \<and> (\<forall>e. res = Inl e \<longrightarrow> r1 = r)"
    using complete_exact_for_ok [OF inv, of n epoch ds] by auto
qed

theorem serving_completion_exact_witness:
  "\<exists>b. rg_in_flight served_flying = Some b \<and> length (fb_requests b) = 1 \<and> rg_completed_epoch served_finished = 1"
  using serving_completion_exact [OF served_runs(3), of 7 "\<lparr>epoch_value = 1\<rparr>" "[RetireRequest]" served_finished] served_complete
  by (auto simp: served_finished_def)


subsection \<open>Selection\<close>

lemma rollover_only_from_prefill:
  "admit_production_rollover p q = Some t \<Longrightarrow> rt_prior t = p \<and> rt_next t = q \<and> rt_reason t = RolloverMode
     \<and> sv_mode p = Prefill \<and> sv_mode q \<noteq> Prefill"
  by (auto simp: admit_production_rollover_def admit_target_decode_rollover_def split: if_splits option.splits)

lemma classify_queue_action_Inr:
  "classify_queue_action bound p = Inr a \<Longrightarrow> (case bound of None \<Rightarrow> a = FreshLaunch
     | Some q \<Rightarrow> if q = p then a = SameShapeRearm else a = QuiescentRollover q p RolloverMode \<and> sv_mode q = Prefill \<and> sv_mode p \<noteq> Prefill)"
  by (auto simp: classify_queue_action_def dest: rollover_only_from_prefill split: option.splits if_splits)

text \<open>C33: outside a draft catch-up the registry selects the plan of the first ready request of highest priority, prefill
  before decode before speculation, and batches the ready requests of exactly that plan in admission order, as many as
  fit the plan and the registry, at the epoch after the submitted one.  The queue action is a launch without a queue, a
  rearm for the plan it is bound to, and otherwise a rollover out of prefill.\<close>

theorem serving_selection:
  assumes "serving_reachable C ops r" "rg_draft_catchup r = None" "plan_next C r = Inr (Some b)"
  shows "(\<exists>before e after. filter ready (rg_entries r) = before @ e # after \<and> se_plan e = bp_plan b
      \<and> (\<forall>x \<in> set before. plan_priority (bp_plan b) < plan_priority (se_plan x))
      \<and> (\<forall>x \<in> set after. plan_priority (bp_plan b) \<le> plan_priority (se_plan x)))
    \<and> bp_requests b = map se_request (take (min C (sv_sequence_capacity (bp_plan b)))
        (filter (\<lambda>e. ready e \<and> se_plan e = bp_plan b) (rg_entries r)))
    \<and> epoch_value (bp_epoch b) = Suc (rg_submitted_epoch r)
    \<and> (case rg_bound_plan r of
         None \<Rightarrow> bp_action b = FreshLaunch
       | Some p \<Rightarrow> if p = bp_plan b then bp_action b = SameShapeRearm
           else bp_action b = QuiescentRollover p (bp_plan b) RolloverMode \<and> sv_mode p = Prefill \<and> sv_mode (bp_plan b) \<noteq> Prefill)"
proof -
  note inv = serving_reachable_inv [OF assms(1)] and B = assms(3) [unfolded plan_next_Inr]
  have "min_ready_plan r = Some (bp_plan b)" using B assms(2) by (simp add: next_ready_plan_def)
  then obtain e where e: "min_by_key (\<lambda>e. plan_priority (se_plan e)) (filter ready (rg_entries r)) = Some e" "se_plan e = bp_plan b"
    by (auto simp: min_ready_plan_def)
  have "bp_requests b = next_roster C r (bp_plan b)" using B select_roster_plain [OF serving_invD(2) [OF inv] assms(2)] by auto
  then have roster: "bp_requests b = map se_request (take (min C (sv_sequence_capacity (bp_plan b)))
      (filter (\<lambda>e. ready e \<and> se_plan e = bp_plan b) (rg_entries r)))" by (simp add: next_roster_def ready_roster_def)
  have "classify_queue_action (rg_bound_plan r) (bp_plan b) = Inr (bp_action b)"
    using B assms(2) by (simp add: classify_next_queue_action_def)
  note act = classify_queue_action_Inr [OF this]
  show ?thesis
    using min_by_key_Some [OF e(1)] e(2) B by (intro conjI roster act) auto
qed

theorem serving_selection_witness:
  "bp_requests served_batch = map se_request (take (min 1 (sv_sequence_capacity served_plan))
     (filter (\<lambda>e. ready e \<and> se_plan e = served_plan) (rg_entries served_admitted)))"
  using serving_selection [OF served_runs(1) _ served_next] by (simp add: served_admitted_def empty_registry_def served_batch_def)

subsection \<open>Windows\<close>

lemma fresh_window_roster:
  assumes "rg_entries r = map (fresh_entry p) qs" "length qs \<le> C" "length qs \<le> sv_sequence_capacity p"
  shows "next_roster C r p = qs"
  using assms by (simp add: next_roster_def ready_roster_def filter_map comp_def)

lemma reserved_window_accepted:
  assumes inv: "serving_inv C r" and w: "reserve_window_replacement reserve C r p qs = (Inr w, r1)"
  shows "window_accepted C r1 w" "window_plan w = p" "window_requests w = qs" "nw_requests w = qs" "nw_predecessors w = rg_entries r"
    "\<And>e. e \<in> set (rg_entries r) \<Longrightarrow> completed_in (nw_prior w) (rg_completed_epoch r) e"
    "r1\<lparr>rg_reservation := None, rg_entries := rg_entries r\<rparr> = r\<lparr>rg_next_reservation_id := Suc (rg_next_reservation_id r)\<rparr>"
    "bp_epoch (rv_batch (nw_publication w)) = \<lparr>epoch_value = Suc (rg_submitted_epoch r)\<rparr>"
proof -
  have st: "reserve_window_replacement_with_storage C r p qs (length qs) = (Inr w, r1)"
    using w by (simp add: reserve_window_replacement_def split: if_splits)
  let ?ep = "\<lparr>epoch_value = Suc (rg_submitted_epoch r)\<rparr>"
  obtain prior where W: "validate_window_replacement C r p qs = Inr (prior, Suc (rg_submitted_epoch r), Suc (rg_next_reservation_id r))"
    and w': "w = \<lparr>nw_prior = prior, nw_predecessors = rg_entries r, nw_requests = qs,
       nw_publication = \<lparr>rv_registry_identity = rg_identity r, rv_id = rg_next_reservation_id r,
         rv_batch = \<lparr>bp_plan = p, bp_requests = qs, bp_epoch = ?ep, bp_action = QuiescentNewWindow prior p\<rparr>\<rparr>\<rparr>"
    and r1: "r1 = r\<lparr>rg_reservation := Some \<lparr>lv_id = rg_next_reservation_id r, lv_plan = p, lv_epoch = ?ep,
         lv_action = QuiescentNewWindow prior p, lv_draft_catchup = None\<rparr>,
       rg_next_reservation_id := Suc (rg_next_reservation_id r), rg_entries := map (fresh_entry p) qs\<rparr>"
    by (cases rule: reserve_window_with_storage_cases [OF inv, of p qs "length qs"]) (use st that in \<open>auto simp: Let_def\<close>)
  note V = W [unfolded validate_window_replacement_Inr]
  show "window_plan w = p" "window_requests w = qs" "nw_requests w = qs" "nw_predecessors w = rg_entries r"
    "bp_epoch (rv_batch (nw_publication w)) = ?ep"
    "\<And>e. e \<in> set (rg_entries r) \<Longrightarrow> completed_in (nw_prior w) (rg_completed_epoch r) e"
    using V by (simp_all add: w' window_plan_def window_requests_def)
  show "r1\<lparr>rg_reservation := None, rg_entries := rg_entries r\<rparr> = r\<lparr>rg_next_reservation_id := Suc (rg_next_reservation_id r)\<rparr>"
    unfolding r1 using V by (cases r) simp
  have qs: "qs \<noteq> []" "length qs = length (rg_entries r)" using V by (auto dest: list_all2_lengthD)
  have "next_roster C r1 p = qs" using V by (intro fresh_window_roster) (simp_all add: r1)
  then have "validate_ready_roster C r1 \<lparr>bp_plan = p, bp_requests = qs, bp_epoch = ?ep, bp_action = QuiescentNewWindow prior p\<rparr> = Inr ()"
    using V qs by (subst validate_ready_roster_Inr) (simp_all add: r1)
  then have "\<exists>lv. accepted C r1 (nw_publication w) lv"
    using V by (simp add: accepted_def w' r1 u64_saturating_add_def)
  then show "window_accepted C r1 w"
    using V qs by (simp add: window_accepted_def window_plan_def window_requests_def w' r1)
qed

text \<open>C34: replacing a completed window loses nothing.  After a successful reservation both ways out are open: restoring
  gives back the proposed roster and the registry as it was, entries, order, phases and quiescence included, except that
  the identifier is not reissued; recording puts exactly the proposed roster in flight at the next epoch.  Each
  predecessor can be read with its completion epoch, and each fresh request has its predecessor's slot and next
  generation.\<close>

theorem serving_window_restores:
  assumes "serving_reachable C ops r" "reserve_window_replacement reserve C r p qs = (Inr w, r1)"
  shows "restore_window_replacement C r1 w =
      Some (Inr \<lparr>rw_plan = p, rw_requests = qs\<rparr>, r\<lparr>rg_next_reservation_id := Suc (rg_next_reservation_id r)\<rparr>)
    \<and> (\<exists>r2. record_window_publication C r1 w = Some (Inr (), r2) \<and> rg_bound_plan r2 = Some p
         \<and> rg_in_flight r2 = Some \<lparr>fb_plan = p, fb_requests = qs, fb_epoch = \<lparr>epoch_value = Suc (rg_submitted_epoch r)\<rparr>\<rparr>)
    \<and> (\<forall>i < length (rg_entries r). \<exists>epoch. se_last_quiescence (rg_entries r ! i) = Some epoch
         \<and> window_predecessor w i = Some (Some \<lparr>wm_request = se_request (rg_entries r ! i), wm_plan = se_plan (rg_entries r ! i),
             wm_completion_epoch = epoch\<rparr>))
    \<and> list_all2 (\<lambda>q e. slot q = slot (se_request e) \<and> generation q = Suc (generation (se_request e))) qs (rg_entries r)"
proof (intro conjI allI impI)
  note inv = serving_reachable_inv [OF assms(1)]
  note A = reserved_window_accepted [OF inv assms(2)]
  have v: "validate_window_reservation C r1 w = Some (Inr ())" using validate_window_reservation_spec [of C r1 w] A(1) by auto
  show "restore_window_replacement C r1 w =
      Some (Inr \<lparr>rw_plan = p, rw_requests = qs\<rparr>, r\<lparr>rg_next_reservation_id := Suc (rg_next_reservation_id r)\<rparr>)"
    using v A(2,4,5,7) by (simp add: restore_window_replacement_def)
  show "\<exists>r2. record_window_publication C r1 w = Some (Inr (), r2) \<and> rg_bound_plan r2 = Some p
      \<and> rg_in_flight r2 = Some \<lparr>fb_plan = p, fb_requests = qs, fb_epoch = \<lparr>epoch_value = Suc (rg_submitted_epoch r)\<rparr>\<rparr>"
    using v A(2,3,8) by (simp add: record_window_publication_def set_in_flight_def window_plan_def window_requests_def)
  show "\<exists>epoch. se_last_quiescence (rg_entries r ! i) = Some epoch
      \<and> window_predecessor w i = Some (Some \<lparr>wm_request = se_request (rg_entries r ! i), wm_plan = se_plan (rg_entries r ! i),
          wm_completion_epoch = epoch\<rparr>)" if "i < length (rg_entries r)" for i
    using A(5) A(6) [OF nth_mem [OF that]] that by (auto simp: window_predecessor_def completed_in_def idx_ok)
  show "list_all2 (\<lambda>q e. slot q = slot (se_request e) \<and> generation q = Suc (generation (se_request e))) qs (rg_entries r)"
    using A(1,3,5) by (auto simp: window_accepted_def succeeds_def elim!: list_all2_mono)
qed

theorem serving_window_restores_witness:
  "\<exists>w r1. reserve_window_replacement (\<lambda>_. True) 1 served_finished served_plan [served_second] = (Inr w, r1)
    \<and> restore_window_replacement 1 r1 w = Some (Inr \<lparr>rw_plan = served_plan, rw_requests = [served_second]\<rparr>,
        served_finished\<lparr>rg_next_reservation_id := Suc (rg_next_reservation_id served_finished)\<rparr>)"
proof -
  have "validate_window_replacement 1 served_finished served_plan [served_second] = Inr (served_plan, 2, 3)"
    unfolding validate_window_replacement_Inr
    by (simp add: served_defs set_in_flight_def empty_registry_def completed_in_def succeeds_def)
  then obtain w r1 where "reserve_window_replacement (\<lambda>_. True) 1 served_finished served_plan [served_second] = (Inr w, r1)"
    by (simp add: reserve_window_replacement_def reserve_window_replacement_with_storage_def push_roster_eq Let_def inline_push_def M1_MAX_32)
  then show ?thesis using serving_window_restores [OF served_runs(4)] by blast
qed


subsection \<open>Requests of an earlier lane\<close>

text \<open>The checks of a replacement compare each fresh request with the predecessor of its own lane only.  When two
  completed generations of one slot are still entered, the fresh request of the first lane may be the completed request
  of the second: it is entered again as a fresh one.\<close>

definition wide_plan :: serving_plan where
  "wide_plan = \<lparr>sv_target = \<lparr>sel_role = Target8B, sel_mode = Prefill, sel_bucket = PrefillS8T128\<rparr>,
     sv_draft = \<lparr>sel_role = Draft06B, sel_mode = Prefill, sel_bucket = PrefillS8T128\<rparr>,
     sv_shape = PairedPrefill, sv_sequence_capacity = 8\<rparr>"

definition retired_at :: "u64 \<Rightarrow> request_id \<Rightarrow> serving_entry" where
  "retired_at n q = \<lparr>se_request = q, se_plan = wide_plan, se_phase = PhaseRetired (QuiescentAt \<lparr>epoch_value = n\<rparr>),
     se_last_quiescence = Some \<lparr>epoch_value = n\<rparr>\<rparr>"

definition two_generations :: serving_registry where
  "two_generations = (empty_registry 7)\<lparr>rg_entries := [retired_at 1 served_first, retired_at 2 served_second],
     rg_bound_plan := Some wide_plan, rg_next_reservation_id := 3, rg_submitted_epoch := 2, rg_completed_epoch := 2\<rparr>"

definition step_batch :: "u64 \<Rightarrow> request_id \<Rightarrow> queue_action \<Rightarrow> batch_plan" where
  "step_batch n q a = \<lparr>bp_plan = wide_plan, bp_requests = [q], bp_epoch = \<lparr>epoch_value = n\<rparr>, bp_action = a\<rparr>"

definition one_generation :: "u64 \<Rightarrow> request_id \<Rightarrow> queue_action \<Rightarrow> serving_op list" where
  "one_generation n q a = [OpAdmit q wide_plan, OpReserve (step_batch n q a),
     OpRecord \<lparr>rv_registry_identity = 7, rv_id = n, rv_batch = step_batch n q a\<rparr>, OpComplete 7 \<lparr>epoch_value = n\<rparr> [RetireRequest]]"

lemmas serving_evaluation = admit_request_def reserve_batch_def attempt_def reject_live_reservation_def reject_in_flight_def
  validate_next_batch_def next_ready_plan_def min_ready_plan_def classify_next_queue_action_def classify_queue_action_def
  validate_ready_roster_def ready_roster_def reserve_validated_batch_def record_publication_def validate_reservation_def
  set_in_flight_def complete_exact_for_def preflight_completion_exact_for_def validate_completion_exact_def find_entry_def
  validate_disposition_def apply_validated_completion_def completed_entry_def u64_saturating_add_def sum_bind_def ok_or_def
  exec_simps idx_def fresh_entry_def plan_priority_def Let_def empty_registry_def

lemma two_generations_reachable:
  "serving_reachable 2 (one_generation 1 served_first FreshLaunch @ one_generation 2 served_second SameShapeRearm) two_generations"
proof -
  have "run_ops (serving_step 2) (one_generation 1 served_first FreshLaunch @ one_generation 2 served_second SameShapeRearm) (empty_registry 7)
      = Some two_generations"
    by (simp add: serving_evaluation one_generation_def step_batch_def two_generations_def retired_at_def served_first_def
        served_second_def wide_plan_def)
  moreover have "serving_registry_new 2 7 = (Inr (empty_registry 7), 8)"
    by (simp add: serving_registry_new_def fresh_registry_identity_def exec_simps M1_MAX_32)
  ultimately show ?thesis unfolding serving_reachable_def by blast
qed

lemma window_reenters_retired_request:
  "serving_reachable 2 (one_generation 1 served_first FreshLaunch @ one_generation 2 served_second SameShapeRearm) two_generations
    \<and> (\<exists>w r1. reserve_window_replacement (\<lambda>_. True) 2 two_generations wide_plan [served_second, \<lparr>slot = 0, generation = 3\<rparr>] = (Inr w, r1)
    \<and> registry_phase two_generations served_second = Some (PhaseRetired (QuiescentAt \<lparr>epoch_value = 2\<rparr>))
    \<and> registry_phase r1 served_second = Some PhaseReady)"
proof -
  have "validate_window_replacement 2 two_generations wide_plan [served_second, \<lparr>slot = 0, generation = 3\<rparr>] = Inr (wide_plan, 3, 4)"
    unfolding validate_window_replacement_Inr
    by (simp add: two_generations_def empty_registry_def retired_at_def completed_in_def succeeds_def served_first_def served_second_def wide_plan_def)
  then show ?thesis using two_generations_reachable
    by (simp add: reserve_window_replacement_def reserve_window_replacement_with_storage_def Let_def inline_push_def M1_MAX_32
        registry_phase_def find_entry_def two_generations_def retired_at_def served_first_def served_second_def fresh_entry_def)
qed

end
