(* ===== verification/Spec2Isabelle.thy ===== *)
theory Spec2Isabelle
  imports KvPool_Properties Scheduler_Properties Engine_Machine Speculation_Properties ContinuousBatch_Properties
    Radix_Share Sha256_Properties Json_Properties Tokenizer_Properties Publication Generation_Properties
    ServingRegistry_Properties
begin

text \<open>
  A verification of the host-side core of Ferric, a Rust inference engine for a Qwen3 language
  model.  All paths below are under \<^verbatim>\<open>src/crates/\<close>.

  \<^bold>\<open>The program.\<close>  One \<^verbatim>\<open>Engine<C>\<close> (\<^verbatim>\<open>ferric-engine/src/system.rs\<close>) owns a
  \<^verbatim>\<open>Scheduler<C>\<close> (\<^verbatim>\<open>scheduler.rs\<close>) and a \<^verbatim>\<open>KvPool\<close> (\<^verbatim>\<open>cache.rs\<close>).  The scheduler hands
  out generational request slots, forms batches of ready requests by a rotating scan, numbers the
  batches by consecutive epochs, and accepts completions only in exactly that order.  The pool keeps
  the page tables of the requests: pages are appended tentatively, committed or dropped when a batch
  completes, shared between requests once full and committed, and recycled under a new generation.
  The engine moves linear permits between the two: a completion yields one permit per member, each
  permit pays for one finalization or release in the pool, and the evidence the pool returns lets the
  scheduler make the slot ready or vacant again.  A failure after a permit has been consumed faults the engine, and so do
  the executors around it when they give it up (the two quarantine entry points).
  The decoding itself is speculative: \<^verbatim>\<open>ferric-spec\<close> fixes which drafted tokens a round accepts and
  which compact record a device may publish for it, and which interleavings of request events
  a continuous batch allows.  Beside them stand the radix index of shared prompt prefixes
  (\<^verbatim>\<open>radix_prefix.rs\<close>) that tells the engine from which live request a prefix can be shared.
  What a device publishes comes back as a completion image of fixed-size records (\<^verbatim>\<open>completion_wire.rs\<close>,
  \<^verbatim>\<open>completion_output.rs\<close>); the generation loop (\<^verbatim>\<open>speculative_generation_loop.rs\<close>) turns a checked image into the
  tokens, commits and rollbacks of every member of a round, and the serving registry (\<^verbatim>\<open>m1_serving_registry.rs\<close>)
  decides which requests form the next batch and what the physical queue has to do before it runs.  At build time
  \<^verbatim>\<open>ferric-build\<close> reads the model's files with its own JSON parser, authenticates them with its own SHA-256, and
  builds the byte-pair tokenizer whose tokens the engine schedules.

  \<^bold>\<open>How Rust is modelled.\<close>  Structs are records, enums datatypes, fixed arrays lists of the declared
  length.  An unsigned integer of width \<open>w\<close> is a natural number with its bound, and every
  \<open>+\<close>, \<open>-\<close>, cast or index that could panic is written through the checked operations of \<^verbatim>\<open>Prelude\<close>,
  whose \<^const>\<open>None\<close> is the panic; \<^verbatim>\<open>checked_*\<close>, \<^verbatim>\<open>saturating_*\<close> calls keep their own meaning.  Bit masks
  are words.  \<^verbatim>\<open>Result<T, E>\<close> is \<open>E + T\<close>.  A method on \<open>&mut self\<close> returns the new state next to its
  result, on the error branches too, so that ``an error changes nothing'' is a theorem and not
  a convention.  A \<open>while\<close> loop is a recursive function on the number of iterations that remain,
  which is the loop's own variant: no loop has fuel that could run out.  The link-following loops of the radix
  index, which a corrupt array could keep running, the loops of the JSON containers and the outer loop of the encoder
  are partial functions whose \<^const>\<open>None\<close> is also not returning, and they are proved to return.  Ghost code (Verus
  specifications, proof blocks, assertions) is not translated; its role is taken by the theorems here.

  \<^bold>\<open>Theories.\<close>
  \<^item> \<^verbatim>\<open>Prelude\<close>: machine integers, indexing, the outcome type, \<^verbatim>\<open>run_ops\<close>, and the locales
    \<^verbatim>\<open>safe_machine\<close> (every call returns and keeps the invariant), \<^verbatim>\<open>transactional_machine\<close> (errors
    change nothing, hence can be erased from any run) and \<^verbatim>\<open>fail_stop_machine\<close>, which the pool, the
    scheduler, the continuous batch, the engine, the radix index, the step publication, the generation loop and the
    serving registry interpret.
  \<^item> \<^verbatim>\<open>Lifecycle\<close>: \<^verbatim>\<open>ferric-spec\<close>'s \<^verbatim>\<open>identity.rs\<close>, \<^verbatim>\<open>completion.rs\<close>, \<^verbatim>\<open>scheduling.rs\<close>, and the linear permits.
  \<^item> \<^verbatim>\<open>KvPool\<close>: all of \<^verbatim>\<open>cache.rs\<close>.  \<^verbatim>\<open>KvPool_Invariant\<close> and \<^verbatim>\<open>KvPool_Primitives\<close>: the ownership invariant (page
    slots, page tables, reference masks, free stack and bitmap agree) and its preservation by each
    private mutation.  \<^verbatim>\<open>KvPool_Ops\<close>, \<^verbatim>\<open>KvPool_Correct\<close>, \<^verbatim>\<open>KvPool_Release\<close>, \<^verbatim>\<open>KvPool_System\<close>: each public
    operation equals a decision function for its errors and an exact description of its effect.
    \<^verbatim>\<open>KvPool_Machine\<close>: refinement of an abstract ledger.  \<^verbatim>\<open>KvPool_Properties\<close>: the guarantees.
  \<^item> \<^verbatim>\<open>Ring\<close>: the scheduler's rings behind the locale \<^verbatim>\<open>bounded_queue\<close>.  \<^verbatim>\<open>Scheduler\<close>: the executable
    part of \<^verbatim>\<open>scheduler.rs\<close>.  \<^verbatim>\<open>Scheduler_Invariant\<close>, \<^verbatim>\<open>Scheduler_Slots\<close>, \<^verbatim>\<open>Scheduler_Batches\<close>: the invariant
    between slot flags and ring contents and the exact effect of each operation.  \<^verbatim>\<open>Scheduler_Machine\<close>:
    refinement of the one-slot lifecycle oracle: each call has its transition, a reincarnation two.  \<^verbatim>\<open>Scheduler_Fairness\<close>: bounded waiting.
    \<^verbatim>\<open>Scheduler_Properties\<close>: the guarantees.
  \<^item> \<^verbatim>\<open>Engine\<close>: all of \<^verbatim>\<open>system.rs\<close>.  \<^verbatim>\<open>Engine_Invariant\<close>, \<^verbatim>\<open>Engine_Completion\<close>, \<^verbatim>\<open>Engine_Machine\<close>: the coupling of
    the two owners and its preservation.  The properties of the composed engine are in this theory.
  \<^item> \<^verbatim>\<open>Speculation\<close>, \<^verbatim>\<open>Speculation_Properties\<close>: \<^verbatim>\<open>speculation.rs\<close>, \<^verbatim>\<open>m1_completion.rs\<close>,
    \<^verbatim>\<open>speculative_completion.rs\<close>: losslessness of a greedy round, the argmax over BF16 encodings, the one
    acceptable record.
  \<^item> \<^verbatim>\<open>ContinuousBatch\<close>, \<^verbatim>\<open>ContinuousBatch_Properties\<close>: \<^verbatim>\<open>continuous_batching.rs\<close>,
    \<^verbatim>\<open>m1_new_window_cardinality.rs\<close>: isolation of interleaved requests, publication discipline, the window plan.
  \<^item> \<^verbatim>\<open>Radix\<close>: the index and its registration in \<^verbatim>\<open>ferric-engine/src/radix_prefix.rs\<close>.  \<^verbatim>\<open>Radix_Trie\<close>: the linked
    node array as a trie of token words, its walks, inserting and unlinking a leaf.  \<^verbatim>\<open>Radix_Invariant\<close>,
    \<^verbatim>\<open>Radix_Ops\<close>, \<^verbatim>\<open>Radix_Match\<close>, \<^verbatim>\<open>Radix_Register\<close>: the invariant, pruning, and each operation as an operation on a
    set of registrations.  \<^verbatim>\<open>Radix_Properties\<close>: the guarantees of the index.  \<^verbatim>\<open>Radix_Share\<close>: the call that shares a
    prefix between requests of the engine, with its property in this theory.
  \<^item> \<^verbatim>\<open>Sha256\<close>: \<^verbatim>\<open>ferric-build/src/sha256.rs\<close>.  \<^verbatim>\<open>Sha256_Fips\<close>: the hash of FIPS 180-4 as a function of the whole
    message, with its constants as the fractions of roots of primes, and that each loop of the source computes its part of it.  \<^verbatim>\<open>Sha256_Properties\<close>: the streaming
    hasher refines it for every way of cutting the message.
  \<^item> \<^verbatim>\<open>Json\<close>: \<^verbatim>\<open>ferric-build/src/json.rs\<close>.  \<^verbatim>\<open>Json_Grammar\<close>: the grammar of RFC 8259 as inductive relations between values and
    texts.  \<^verbatim>\<open>Json_Sound\<close>: the parser returns and accepts only texts of the grammar.  \<^verbatim>\<open>Json_Properties\<close>: it accepts all of
    them, and its values are well formed.
  \<^item> \<^verbatim>\<open>Tokenizer\<close>: \<^verbatim>\<open>ferric-build/src/tokenizer_execution.rs\<close>.  \<^verbatim>\<open>Tokenizer_Program\<close>: what the constructor establishes of the
    tables.  \<^verbatim>\<open>Tokenizer_Bpe\<close>: the merge loop as rewriting to a normal form.  \<^verbatim>\<open>Tokenizer_Encode\<close>: one stretch of normal text.
    \<^verbatim>\<open>Tokenizer_Search\<close>: the search for added tokens.  \<^verbatim>\<open>Tokenizer_Codec\<close>: decoding.  \<^verbatim>\<open>Tokenizer_Properties\<close>: the
    guarantees of the codec.
  \<^item> \<^verbatim>\<open>Plan\<close>: roles, modes, buckets and selections of \<^verbatim>\<open>ferric-spec/src/graph.rs\<close>.  \<^verbatim>\<open>Publication\<close>:
    \<^verbatim>\<open>step_plan_publication.rs\<close>, one-shot publication of a reserved delta.  \<^verbatim>\<open>Qualification\<close>:
    \<^verbatim>\<open>m1_qualification_context.rs\<close>, the context plan written out step by step, and its validation.
  \<^item> \<^verbatim>\<open>CompletionWire\<close>, \<^verbatim>\<open>CompletionWire_Properties\<close>: \<^verbatim>\<open>ferric-engine/src/completion_wire.rs\<close>: the 120-byte record, its
    decoding as the inverse of an encoding, and its check against the records a plan admits.  \<^verbatim>\<open>CompletionOutput\<close>,
    \<^verbatim>\<open>CompletionOutput_Properties\<close>: the image of a whole batch (\<^verbatim>\<open>completion_output.rs\<close>, \<^verbatim>\<open>observed_completion.rs\<close>,
    \<^verbatim>\<open>completed_readback_join.rs\<close>), lane by lane in the scheduler's order, for serving
    and for qualification lanes.
  \<^item> \<^verbatim>\<open>Generation\<close>: \<^verbatim>\<open>speculative_generation_loop.rs\<close>, the coordinator of repeated speculative rounds.
    \<^verbatim>\<open>Generation_Rounds\<close>: what one operation does to each member.  \<^verbatim>\<open>Generation_Machine\<close>: the coordinator with the
    bindings and permits its callers hold, as a \<^verbatim>\<open>safe_machine\<close>.  \<^verbatim>\<open>Generation_Properties\<close>: sessions, from the bytes of
    the device to the tokens of the clients.
  \<^item> \<^verbatim>\<open>ServingRegistry\<close>: \<^verbatim>\<open>ferric-engine/src/m1_serving_registry.rs\<close>: plans and the rollover catalogue, selection of
    the next batch, reservations, publication, draft catch-up, window replacement and completion.
    \<^verbatim>\<open>ServingRegistry_Lemmas\<close>: what each check establishes.  \<^verbatim>\<open>ServingRegistry_Invariant\<close>, \<^verbatim>\<open>ServingRegistry_Batches\<close>: the
    invariant and its preservation, for arbitrary reservations.  \<^verbatim>\<open>ServingRegistry_Machine\<close>: the registry as a
    transactional machine and the life of a reservation's identifier.  \<^verbatim>\<open>ServingRegistry_Progress\<close>: ready work can always be
    published and a batch in flight completed.  \<^verbatim>\<open>ServingRegistry_Properties\<close>: the guarantees, and a reachable registry whose
    window replacement enters a retired request of another lane again.
  \<^bold>\<open>Bounds.\<close>  The capacities are the source's: 32 request slots, 16384 pages, 512 pages per request,
  a const generic \<open>C\<close> of at most 32 for the scheduler.  Reachable states are those a constructor and any
  finite sequence of public calls with arbitrary arguments lead to, so no property of a reachable state
  assumes anything of the caller.  The one exception is \<^verbatim>\<open>reincarnate_detached\<close> of the scheduler, which checks nothing and has a
  proved precondition: it is run where that precondition holds, as the engine does.  The linear permits, which Rust's ownership keeps from being
  forged, are arguments of the pool and the scheduler like any other value there; the engine
  builds them itself.  The nesting limit of the JSON parser is the source's 32.  Byte-pair encoding of \<open>n\<close> symbols
  costs at most \<open>1025 * n ^ 2\<close> units of the work budget, which is what its termination theorem asks for.

  \<^bold>\<open>Not modelled.\<close>  The physical layer of \<^verbatim>\<open>ferric-engine\<close> (device memory, hardware queues, authenticated
  executors, queue rollover and rearm) drives an external GPU runtime through handles whose behaviour
  is not in the repository.  Of \<^verbatim>\<open>ferric-build\<close> the artifact pipeline around the parser, the hash and the tokenizer is
  file input and output and comparison with pinned digests.  The NFC normaliser, the regular expression engine and the allocator that the
  tokenizer calls are parameters of its definitions.  GPU kernels, generated tables, binaries, benches and tools are outside the host core.
  Model and graph descriptions (\<^verbatim>\<open>qwen3.rs\<close>, the operations of \<^verbatim>\<open>graph.rs\<close>, \<^verbatim>\<open>physical_plan.rs\<close>) are tables; the
  operation-kernel planning that walks them, tensor parallel execution and the diagnostic readers are not modelled.
  Of the serving registry the derivation of a reconciliation from the authenticated completion of the external runtime is
  left out: its result is an argument of the call that installs it.
\<close>

section \<open>The composed engine\<close>

definition engine_reachable :: "nat \<Rightarrow> u32 \<Rightarrow> u32 \<Rightarrow> u32 \<Rightarrow> engine_call list \<Rightarrow> engine \<Rightarrow> bool" where
  "engine_reachable C n pt ctx calls e =
     (n \<le> U32_MAX \<and> pt \<le> U32_MAX \<and> ctx \<le> U32_MAX
      \<and> (\<exists>e0. engine_new C n pt ctx = Some (Inr e0) \<and> run_ops (engine_step C) calls e0 = Some e))"

lemma engine_new_inv:
  assumes "n \<le> U32_MAX" "pt \<le> U32_MAX" "ctx \<le> U32_MAX" "engine_new C n pt ctx = Some (Inr e)"
  shows "engine_inv C e" "\<not> en_faulted e"
  using engine_new_correct [OF assms(1-3), of C] assms(4) by (auto split: if_splits option.splits)

lemma engine_reachable_inv: "engine_reachable C n pt ctx calls e \<Longrightarrow> engine_inv C e"
  unfolding engine_reachable_def using engine_new_inv(1) engine.run_inv by blast

lemma engine_reachable_step:
  "engine_reachable C n pt ctx calls e \<Longrightarrow> engine_step C c e = Some (r, e') \<Longrightarrow>
     engine_reachable C n pt ctx (calls @ [c]) e'"
  by (auto simp: engine_reachable_def run_ops_append)

subsection \<open>A small engine\<close>

lemma demo_engine:
  obtains e where "engine_reachable 2 4 2 8 [] e" "\<not> en_faulted e" "free_view 2 (en_scheduler e) = [0, 1]"
    "sc_slots (en_scheduler e) = [Slot_INITIAL, Slot_INITIAL]" "sc_submitted (en_scheduler e) = 0"
    "sc_completed (en_scheduler e) = 0" "kv_requests (en_kv e) = replicate 32 request_slot_empty"
    "kv_page_tokens (en_kv e) = 2"
proof -
  obtain s where s: "sched_new 2 = Some (Inr s)" "free_view 2 s = [0..<2]" "sc_submitted s = 0" "sc_completed s = 0"
    "sc_slots s = replicate 2 Slot_INITIAL"
    using sched_new_correct [of 2] by (auto simp: MAX_REQUEST_SLOTS_def)
  obtain p where p: "kv_new 4 2 8 = Some (Inr p)" by (rule demo_new)
  note f = kv_new_pool [OF _ _ _ p]
  let ?e = "\<lparr>en_scheduler = s, en_kv = p, en_permits = push_permits 2 [], en_faulted = False\<rparr>"
  have "engine_new 2 4 2 8 = Some (Inr ?e)" using s(1) p by (simp add: engine_new_def)
  then have "engine_reachable 2 4 2 8 [] ?e" by (simp add: engine_reachable_def)
  then show ?thesis using that [of ?e] s f by (simp add: MAX_REQUEST_SLOTS_def numeral_2_eq_2)
qed

lemma demo_engine_admit:
  obtains e where "engine_reachable 2 4 2 8 [EAdmit] e" "\<not> en_faulted e"
    "is_ready (en_scheduler e) 0" "handle (en_scheduler e) 0 = demo_request"
    "sc_submitted (en_scheduler e) = 0" "sc_completed (en_scheduler e) = 0"
    "kv_requests (en_kv e) ! 0 = request_slot_empty\<lparr>rq_live := True\<rparr>" "kv_page_tokens (en_kv e) = 2"
proof -
  obtain e where e: "engine_reachable 2 4 2 8 [] e" "\<not> en_faulted e" "free_view 2 (en_scheduler e) = [0, 1]"
    "sc_slots (en_scheduler e) = [Slot_INITIAL, Slot_INITIAL]" "sc_submitted (en_scheduler e) = 0"
    "sc_completed (en_scheduler e) = 0" "kv_requests (en_kv e) = replicate 32 request_slot_empty"
    "kv_page_tokens (en_kv e) = 2" by (rule demo_engine)
  let ?s = "en_scheduler e" and ?p = "en_kv e"
  let ?p' = "?p\<lparr>kv_requests := (kv_requests ?p)[0 := request_slot_empty\<lparr>rq_live := True\<rparr>]\<rparr>"
  note I = engine_invD [OF engine_reachable_inv [OF e(1)]]
  have h: "handle ?s 0 = demo_request" using e(4) by (simp add: handle_def Slot_INITIAL_def demo_request_def request_id_new_def)
  obtain s where s: "sched_admit 2 ?s = Some (Inr demo_request, s)" "moves ?s s 0 Admit" "handle s 0 = demo_request"
    using sched_admit_correct [OF I(1)] e(3) h by auto
  have "create_decision ?p (request_key_of demo_request) = None"
    using e(7) by (simp add: create_decision_def request_slot_empty_def demo_defs)
  then have cr: "kv_create_request ?p demo_request = Some (Inr (), ?p')"
    using create_request_key_correct [OF I(2), of "request_key_of demo_request"] e(7)
    by (simp add: kv_create_request_def demo_request_def Let_def)
  let ?e = "e\<lparr>en_scheduler := s, en_kv := ?p'\<rparr>"
  have "engine_step 2 EAdmit e = Some (Inr (EHandle demo_request), ?e)"
    using s(1) cr e(2) by (simp add: engine_step_def engine_admit_def)
  then have r: "engine_reachable 2 4 2 8 [EAdmit] ?e" using engine_reachable_step [OF e(1)] by fastforce
  have "seq_of ?s 0 = \<lparr>sr_state = Vacant, sr_phase = Idle\<rparr>" using e(4) by (simp add: seq_of_def Slot_INITIAL_def)
  then have "is_ready s 0"
    using s(2) by (simp add: moves_def apply_request_transition_def) (simp add: seq_of_def is_ready_def Let_def)
  then show ?thesis using that [OF r] e s(2,3) by (simp add: moves_def)
qed

lemma demo_engine_dispatch:
  obtains e where "engine_reachable 2 4 2 8 [EAdmit, EDispatchExact \<lparr>epoch_value = 1\<rparr> [demo_request]] e" "\<not> en_faulted e"
    "pending_count 2 (en_scheduler e) = 1" "pending 2 (en_scheduler e) = [demo_request]" "sc_completed (en_scheduler e) = 0"
    "sl_state (sc_slots (en_scheduler e) ! 0) = InFlight" "kv_requests (en_kv e) ! 0 = request_slot_empty\<lparr>rq_live := True\<rparr>"
proof -
  obtain e where e: "engine_reachable 2 4 2 8 [EAdmit] e" "\<not> en_faulted e" "is_ready (en_scheduler e) 0"
    "handle (en_scheduler e) 0 = demo_request" "sc_submitted (en_scheduler e) = 0" "sc_completed (en_scheduler e) = 0"
    "kv_requests (en_kv e) ! 0 = request_slot_empty\<lparr>rq_live := True\<rparr>" by (rule demo_engine_admit)
  let ?s = "en_scheduler e" and ?ep = "\<lparr>epoch_value = 1\<rparr>"
  note I = engine_invD [OF engine_reachable_inv [OF e(1)]] and B = sched_inv_batches [OF engine_invD(1) [OF engine_reachable_inv [OF e(1)]]]
  have "map (epoch_value \<circ> br_epoch) (batch_view 2 ?s) = []" using B e(5,6) by (simp add: batches_ok_def)
  then have v: "batch_view 2 ?s = []" by simp
  then have m: "sc_member_len ?s = 0" "member_view 2 ?s = []"
    using B by (simp_all add: batches_ok_def batch_tags_def member_view_def)
  have "\<not> exact_refusal 2 ?s ?ep [demo_request]"
    using e(3-5) m by (simp add: exact_refusal_def roster_ok_def current_def handle_def request_id_new_def demo_request_def
        M1_MAX_ACTIVE_SEQUENCES_def)
  then obtain d s where d: "sched_dispatch_m1_exact_ready 2 ?s ?ep [demo_request] = Some (Inr d, s)" "batch_dispatched 2 ?s s [0]"
    using sched_dispatch_m1_exact_ready_correct [OF I(1), of ?ep "[demo_request]"] by (auto simp: demo_request_def)
  have "engine_step 2 (EDispatchExact ?ep [demo_request]) e = Some (Inr (EScheduled (Some d)), e\<lparr>en_scheduler := s\<rparr>)"
    using d(1) e(2) by (simp add: engine_step_def engine_dispatch_m1_exact_ready_def)
  then have r: "engine_reachable 2 4 2 8 [EAdmit, EDispatchExact ?ep [demo_request]] (e\<lparr>en_scheduler := s\<rparr>)"
    using engine_reachable_step [OF e(1)] by fastforce
  have b: "batch_view 2 s = [\<lparr>br_epoch = ?ep, br_member_count = 1\<rparr>]" "member_view 2 s = [demo_request]" "sc_completed s = 0"
    using d(2) v m e(4-6) by (simp_all add: batch_dispatched_def)
  have "seq_of ?s 0 = \<lparr>sr_state = Ready, sr_phase = Idle\<rparr>" using e(3) by (simp add: seq_of_def is_ready_def)
  then have "seq_of s 0 = \<lparr>sr_state = InFlight, sr_phase = Executing\<rparr>"
    using d(2) by (simp add: batch_dispatched_def apply_request_transition_def)
  then have "sl_state (sc_slots s ! 0) = InFlight" by (simp add: seq_of_def Let_def)
  then show ?thesis using that [OF r] b e(2,7) by (simp add: pending_count_def pending_def)
qed

subsection \<open>Completion\<close>

text \<open>C1: exact completion is atomic across the two owners.  On every reachable engine
  \<^verbatim>\<open>complete_exact\<close> either refuses, hands the completion back and changes nothing; or settles the whole oldest
  batch: the epoch advances by one, every member still in flight commits exactly its accepted tokens,
  drops its tentative rest and becomes ready, every retiring member gives up all pages and its
  slot is vacant under the next generation, and no other request changes in either owner; or, only when
  a generation counter is exhausted, faults the engine.\<close>

theorem engine_complete_settles_batch:
  assumes "engine_reachable C n pt ctx calls e"
  shows "if completion_refused C e c acc
    then \<exists>err. engine_complete_exact C e c acc = Some (Inl (failure_returned err c), e)
    else (\<exists>e'. engine_complete_exact C e c acc = Some (Inr (pending_count C (en_scheduler e)), e')
            \<and> engine_inv C e' \<and> \<not> en_faulted e' \<and> batch_settled C e e' acc)
       \<or> (\<exists>err e'. engine_complete_exact C e c acc = Some (Inl (failure_consumed (EngKv err)), e')
            \<and> exhaustion err \<and> engine_inv C e' \<and> en_faulted e')"
  using engine_complete_exact_correct [OF engine_reachable_inv [OF assms], of c acc] .

theorem engine_complete_settles_batch_witness:
  "\<exists>e e' r. engine_reachable 2 4 2 8 [EAdmit, EDispatchExact \<lparr>epoch_value = 1\<rparr> [demo_request]] e
    \<and> engine_complete_exact 2 e \<lparr>ec_epoch = \<lparr>epoch_value = 1\<rparr>\<rparr> [0] = Some (r, e')
    \<and> (r = Inr 1 \<and> batch_settled 2 e e' [0] \<or> en_faulted e')"
proof -
  let ?c = "\<lparr>ec_epoch = \<lparr>epoch_value = 1\<rparr>\<rparr>"
  obtain e where e: "engine_reachable 2 4 2 8 [EAdmit, EDispatchExact \<lparr>epoch_value = 1\<rparr> [demo_request]] e" "\<not> en_faulted e"
    "pending_count 2 (en_scheduler e) = 1" "pending 2 (en_scheduler e) = [demo_request]" "sc_completed (en_scheduler e) = 0"
    "sl_state (sc_slots (en_scheduler e) ! 0) = InFlight" "kv_requests (en_kv e) ! 0 = request_slot_empty\<lparr>rq_live := True\<rparr>"
    by (rule demo_engine_dispatch)
  have "\<not> completion_refused 2 e ?c [0]"
    using e(2-7) by (simp add: completion_refused_def member_ok_def demo_request_def request_slot_empty_def)
  then show ?thesis using engine_complete_settles_batch [OF e(1), of ?c "[0]"] e(1,3) by auto
qed

subsection \<open>Safety\<close>

text \<open>C8: no sequence of engine calls panics.  For every configuration that \<^verbatim>\<open>Engine::new\<close> accepts, every
  sequence of calls with arbitrary arguments runs to the end, and in the engine it leaves the
  invariants of the scheduler, of the page pool and of their coupling hold.\<close>

theorem engine_run_never_panics:
  fixes n pt ctx :: "32 word"
  assumes "engine_new C (unat n) (unat pt) (unat ctx) = Some (Inr e0)"
  shows "\<exists>e. run_ops (engine_step C) calls e0 = Some e \<and> engine_inv C e"
  using engine_new_inv(1) [OF unat32_le unat32_le unat32_le assms] by (rule engine.run_safe)

theorem engine_run_never_panics_witness:
  "\<exists>e0 e. engine_new 2 4 2 8 = Some (Inr e0) \<and> engine_inv 2 e
    \<and> run_ops (engine_step 2) [EAdmit, EAppend demo_request 3, EDispatchM1, ERetire demo_request, EReclaim] e0 = Some e"
proof -
  obtain e where "engine_reachable 2 4 2 8 [] e" by (rule demo_engine)
  then obtain e0 where "engine_new 2 4 2 8 = Some (Inr e0)" by (auto simp: engine_reachable_def)
  then show ?thesis
    using engine_run_never_panics [of 2 4 2 8 e0 "[EAdmit, EAppend demo_request 3, EDispatchM1, ERetire demo_request, EReclaim]"]
    by auto
qed

text \<open>C7: the engine faults only when it is quarantined or a generation counter is exhausted.  Whenever a call on
  a reachable, live engine leaves it faulted, that call is one of the two by which the executors give the
  engine up, \<^verbatim>\<open>quarantine_m1_queue_rearm_failure\<close> or \<^verbatim>\<open>into_m1_capture_quarantine\<close>, or it reported an exhausted page or
  request generation.  A quarantine always faults the engine, and changes nothing else in either owner.  Every other error, in
  particular every misuse by the caller, leaves the engine exactly as it was.\<close>

theorem engine_faults_only_on_exhaustion:
  assumes "engine_reachable C n pt ctx calls e" "\<not> en_faulted e" "engine_step C c e = Some (r, e')"
  shows "if c = EQuarantine \<or> c = ECaptureQuarantine then r = Inr EDone \<and> e' = e\<lparr>en_faulted := True\<rparr>
    else (en_faulted e' \<longrightarrow> (\<exists>f. r = Inl f \<and> exhausted f)) \<and> (isl r \<and> \<not> en_faulted e' \<longrightarrow> e' = e)"
  using engine_step_ok [OF engine_reachable_inv [OF assms(1)], of c] engine_step_quarantine [of c C e] assms(2,3)
  by (auto simp: engine_ok_def quarantines_def quarantine_def)

theorem engine_faults_only_on_exhaustion_witness:
  "\<exists>e e' r e''. engine_reachable 2 4 2 8 [EAdmit] e \<and> engine_step 2 EQuarantine e = Some (Inr EDone, e')
    \<and> \<not> en_faulted e \<and> en_faulted e' \<and> en_kv e' = en_kv e
    \<and> engine_step 2 (ERetire demo_request) e = Some (r, e'')
    \<and> (en_faulted e'' \<longrightarrow> (\<exists>f. r = Inl f \<and> exhausted f)) \<and> (isl r \<and> \<not> en_faulted e'' \<longrightarrow> e'' = e)"
proof -
  obtain e where e: "engine_reachable 2 4 2 8 [EAdmit] e" "\<not> en_faulted e" by (rule demo_engine_admit)
  have q: "engine_step 2 EQuarantine e = Some (Inr EDone, quarantine e)" by (simp add: engine_step_def)
  have "en_faulted (quarantine e)" "en_kv (quarantine e) = en_kv e"
    using engine_faults_only_on_exhaustion [OF e q] by simp_all
  moreover obtain r e'' where st: "engine_step 2 (ERetire demo_request) e = Some (r, e'')"
    using engine.step_total [OF engine_reachable_inv [OF e(1)], of "ERetire demo_request"] by fastforce
  moreover have "(en_faulted e'' \<longrightarrow> (\<exists>f. r = Inl f \<and> exhausted f)) \<and> (isl r \<and> \<not> en_faulted e'' \<longrightarrow> e'' = e)"
    using engine_faults_only_on_exhaustion [OF e st] by simp
  ultimately show ?thesis using e q by blast
qed

text \<open>fail-stop.  A faulted engine never changes again and refuses every call but a further quarantine, so a fault can
  neither be overlooked nor undone.\<close>

theorem engine_fail_stop:
  assumes "engine_inv C e" "en_faulted e"
  shows "run_ops (engine_step C) calls e = Some e \<and> (\<not> quarantines c \<longrightarrow> (\<exists>f. engine_step C c e = Some (Inl f, e)))"
  using engine.halted_run [OF assms] faulted_step [OF assms] by blast

theorem engine_fail_stop_witness:
  "\<exists>e. en_faulted e \<and> run_ops (engine_step 2) [EAdmit, EReclaim] e = Some e \<and> (\<exists>f. engine_step 2 EAdmit e = Some (Inl f, e))"
proof -
  obtain e where e: "engine_reachable 2 4 2 8 [] e" by (rule demo_engine)
  let ?e = "quarantine e"
  have "engine_inv 2 ?e" "en_faulted ?e"
    using engine_inv_quarantine [OF engine_reachable_inv [OF e]] by (simp_all add: quarantine_def)
  from engine_fail_stop [OF this, of "[EAdmit, EReclaim]" EAdmit] \<open>en_faulted ?e\<close> show ?thesis
    by (auto simp: quarantines_def)
qed

lemma vacant_no_pages:
  assumes inv: "kv_inv p" and s: "s < MAX_REQUEST_SLOTS" and nl: "\<not> rq_live (kv_requests p ! s)"
  shows "owned (kv_requests p ! s) = {}"
proof -
  note r = kv_inv_request [OF inv s]
  have "rq_page_count (kv_requests p ! s) = 0"
    using request_pages [OF kv_inv_shape [OF inv] r] r nl kv_shape(1) [OF inv] by (simp add: request_ok_def pages_for_def)
  then show ?thesis by (simp add: owned_def chain_def)
qed

text \<open>C5: the two owners agree.  On every reachable live engine a handle is known to the scheduler (ready, in
  flight or retiring) exactly when it is known to the page pool, so no request is ever scheduled without
  KV state and none keeps KV state without being scheduled; and between calls no quiescence
  permit is outstanding.\<close>

theorem engine_owners_agree:
  assumes "engine_reachable C n pt ctx calls e" "\<not> en_faulted e"
  shows "((\<exists>st. sched_state C (en_scheduler e) q = Some (Some st)) \<longleftrightarrow> (\<exists>t. kv_resident_tokens (en_kv e) q = Some t))
    \<and> en_permits e = replicate C None"
proof -
  note inv = engine_reachable_inv [OF assms(1)]
  note I = engine_invD [OF inv] and cp = engine_invD(4) [OF inv assms(2)]
  have len: "length (kv_requests (en_kv e)) = MAX_REQUEST_SLOTS" by (rule kv_shape(10) [OF I(2)])
  show ?thesis
  proof (cases "slot q < C")
    case True
    then show ?thesis using cp I(6) [OF assms(2)] len slot_le [OF I(1) True] sched_shapeD(3) [OF I(1)]
      by (auto simp: sched_state_def kv_resident_tokens_def idx_def coupled_def slot_coupled_def split: request_state.splits)
  next
    case False
    then show ?thesis using cp I(6) [OF assms(2)] len
      by (auto simp: sched_state_def kv_resident_tokens_def idx_def coupled_def)
  qed
qed

theorem engine_owners_agree_witness:
  "\<exists>e. engine_reachable 2 4 2 8 [EAdmit] e \<and> sched_state 2 (en_scheduler e) demo_request = Some (Some Ready)
    \<and> (\<exists>t. kv_resident_tokens (en_kv e) demo_request = Some t)"
proof -
  obtain e where e: "engine_reachable 2 4 2 8 [EAdmit] e" "\<not> en_faulted e" "is_ready (en_scheduler e) 0"
    "handle (en_scheduler e) 0 = demo_request" by (rule demo_engine_admit)
  have "sched_state 2 (en_scheduler e) demo_request = Some (Some Ready)"
    using e(3,4) sched_shapeD(3) [OF engine_invD(1) [OF engine_reachable_inv [OF e(1)]]]
    by (simp add: sched_state_def idx_def is_ready_def handle_def request_id_new_def demo_request_def)
  with engine_owners_agree [OF e(1,2), of demo_request] e(1) show ?thesis by blast
qed

text \<open>C6: no page leaks.  When a reachable live engine has no live request left, every page of its pool is
  free again, whatever admissions, appends, shares, batches, retirements and reclamations came before.\<close>

theorem engine_no_page_leak:
  assumes "engine_reachable C n pt ctx calls e" "\<not> en_faulted e" "sc_live_count (en_scheduler e) = 0"
  shows "kv_free_pages (en_kv e) = kv_page_limit (en_kv e)"
proof -
  note inv = engine_reachable_inv [OF assms(1)]
  note I = engine_invD [OF inv] and cp = engine_invD(4) [OF inv assms(2)]
  let ?s = "en_scheduler e"
  have "length (free_view C ?s) = C" using sched_shapeD(11) [OF I(1)] assms(3) by (simp add: free_view_def)
  then have "card {i. i < C \<and> sl_state (sc_slots ?s ! i) = Vacant} = C"
    using sched_inv_free [OF I(1)] by (metis free_ring_ok_def distinct_card)
  then have "{i. i < C \<and> sl_state (sc_slots ?s ! i) = Vacant} = {..<C}" by (intro card_subset_eq) auto
  then have "\<not> rq_live (kv_requests (en_kv e) ! i)" if "i < MAX_REQUEST_SLOTS" for i
    using cp that by (cases "i < C") (auto simp: coupled_def slot_coupled_def)
  then have "in_use (en_kv e) = {}" using vacant_no_pages [OF I(2)] by (simp add: in_use_def)
  then show ?thesis using pages_conserved [OF I(2)] by (simp add: kv_free_pages_def)
qed

theorem engine_no_page_leak_witness:
  "\<exists>e. engine_reachable 2 4 2 8 [] e \<and> sc_live_count (en_scheduler e) = 0 \<and> kv_free_pages (en_kv e) = kv_page_limit (en_kv e)"
proof -
  obtain e where e: "engine_reachable 2 4 2 8 [] e" "\<not> en_faulted e" "free_view 2 (en_scheduler e) = [0, 1]" by (rule demo_engine)
  have "sc_free_len (en_scheduler e) = 2" using arg_cong [OF e(3), of length] by (simp add: free_view_def)
  then have "sc_live_count (en_scheduler e) = 0"
    using sched_shapeD(11) [OF engine_invD(1) [OF engine_reachable_inv [OF e(1)]]] by simp
  with engine_no_page_leak [OF e(1,2)] e(1) show ?thesis by blast
qed

section \<open>Sharing prompt prefixes\<close>

text \<open>C26: a prefix is shared only from a live source.  For every reachable engine and every reachable index,
  \<^verbatim>\<open>share_m1_radix_prefix_from_live_source_v1\<close> returns and keeps both invariants.  A faulted engine and a
  target that is not ready and empty are refused with nothing changed.  Otherwise the registrations it drops
  were stale: their request does not hold the matched prefix as committed tokens of a ready request.  It answers
  that the target itself is registered, or that no registration that is left shares a whole page with the tokens, or it
  shares: then the source is the least request of the longest whole-page prefix that is left, is ready and
  has committed that many tokens, and the target holds exactly those tokens, all committed.  The count it
  reports is the number of dropped registrations, and the engine never reports an error of its own.\<close>

theorem radix_share_live_source:
  assumes "engine_reachable C n pt ctx calls e" "radix_reachable nodes per_source sources storage rcalls ix"
  shows "\<exists>r ix' e'. share_m1_radix_prefix_from_live_source C ix e target tokens = Some (r, ix', e')
    \<and> radix_inv ix' \<and> engine_inv C e'
    \<and> (if en_faulted e then r = Inl (ShareEngine EngFaulted) \<and> ix' = ix \<and> e' = e
       else if sched_state C (en_scheduler e) target \<noteq> Some (Some Ready)
       then (\<exists>st. r = Inl (TargetNotReady target st)) \<and> ix' = ix \<and> e' = e
       else if kv_resident_tokens (en_kv e) target \<noteq> Some 0
       then (\<exists>a b. r = Inl (ShareTargetNotEmpty target a b)) \<and> ix' = ix \<and> e' = e
       else share_answer C e target tokens (kv_page_tokens (en_kv e)) 0 (registered ix) (registered ix') r e')"
  by (rule share_correct [OF engine_reachable_inv [OF assms(1)] radix_reachable_inv [OF assms(2)]])

lemma demo_target_ready:
  assumes "engine_reachable 2 4 2 8 [EAdmit] e" "is_ready (en_scheduler e) 0" "handle (en_scheduler e) 0 = demo_request"
    "kv_requests (en_kv e) ! 0 = request_slot_empty\<lparr>rq_live := True\<rparr>"
  shows "sched_state 2 (en_scheduler e) demo_request = Some (Some Ready)" "kv_resident_tokens (en_kv e) demo_request = Some 0"
    "\<not> usable 2 e demo_source d"
proof -
  note I = engine_invD [OF engine_reachable_inv [OF assms(1)]]
  have h: "slot demo_request = 0" "sl_generation (sc_slots (en_scheduler e) ! 0) = generation demo_request"
    using assms(3) by (auto simp: handle_def request_id_new_def demo_request_def)
  then show "sched_state 2 (en_scheduler e) demo_request = Some (Some Ready)"
    using assms(2) unfolding sched_state_eq [OF I(1)] by (simp add: current_def is_ready_def)
  have "key_decision (en_kv e) (request_key_of demo_request) = None"
    using assms(4) by (simp add: key_decision_def request_key_of_def demo_defs request_slot_empty_def MAX_REQUEST_SLOTS_def)
  then show "kv_resident_tokens (en_kv e) demo_request = Some 0"
    using tokens_live(1) [OF I(2)] assms(4) h(1) by (simp add: request_slot_empty_def)
  show "\<not> usable 2 e demo_source d"
    by (simp add: usable_def sched_state_eq [OF I(1)] current_def demo_source_def request_id_new_def)
qed

theorem radix_share_live_source_witness:
  "\<exists>e ix ix' e'. engine_reachable 2 4 2 8 [EAdmit] e \<and> registered ix = {(demo_source, [7, 8], 1)}
     \<and> share_m1_radix_prefix_from_live_source 2 ix e demo_request [7, 8, 9] = Some (Inr (NoMatch 1), ix', e')
     \<and> registered ix' = {}"
proof -
  obtain e where e: "engine_reachable 2 4 2 8 [EAdmit] e" "\<not> en_faulted e" "is_ready (en_scheduler e) 0"
    "handle (en_scheduler e) 0 = demo_request" "kv_requests (en_kv e) ! 0 = request_slot_empty\<lparr>rq_live := True\<rparr>"
    "kv_page_tokens (en_kv e) = 2" by (rule demo_engine_admit)
  obtain ix where ix: "radix_reachable 8 4 2 16 [RRegister demo_source [7, 8]] ix" "registered ix = {(demo_source, [7, 8], 1)}"
    by (rule demo_registered)
  note d = demo_target_ready [OF e(1,3,4,5)]
  obtain r ix' e' where a: "share_m1_radix_prefix_from_live_source 2 ix e demo_request [7, 8, 9] = Some (r, ix', e')"
    "share_answer 2 e demo_request [7, 8, 9] (kv_page_tokens (en_kv e)) 0 (registered ix) (registered ix') r e'"
    using radix_share_live_source [OF e(1) ix(1), where target = demo_request and tokens = "[7, 8, 9]"] e(2) d(1,2) by auto
  have ne: "demo_source \<noteq> demo_request" by (simp add: demo_source_def demo_request_def request_id_new_def)
  have sub: "registered ix' \<subseteq> {(demo_source, [7, 8], 1)}" using a(2) ix(2) by (simp add: share_answer_def)
  have hold: "holders (registered ix') v \<subseteq> {demo_source}" for v using sub by (auto simp: holders_def)
  obtain j where j: "r = Inr (NoMatch j)" "j = card (registered ix - registered ix')" "unmatched (registered ix') 2 [7, 8, 9] 0"
    using a(2) sub hold ne d(3) e(6) by (fastforce simp: share_answer_def split: sum.splits radix_share_outcome.splits)
  have "holders (registered ix') (take 2 [7, 8, 9]) = {}"
    using j(3) unfolding unmatched_def by (elim allE [of _ 2]) simp
  then have "(demo_source, [7, 8], 1) \<notin> registered ix'" by (auto simp: holders_def)
  then have "registered ix' = {}" using sub by auto
  then show ?thesis using a(1) j(1,2) e(1) ix(2) by auto
qed

end
